(* ===== verification/Prelude.thy ===== *)
theory Prelude
  imports Main "HOL-Library.Monad_Syntax" "HOL-Library.Word"
begin

unbundle bit_operations_syntax

text \<open>
  Shared vocabulary of the development. A C function that may stop the process (a failed
  \<^verbatim>\<open>assert\<close> or \<^verbatim>\<open>CILK_ASSERT\<close>, a call of \<^verbatim>\<open>__cilkrts_bug\<close>, the use of a null or
  dangling pointer) is a function into \<^typ>\<open>'a option\<close>: \<^const>\<open>None\<close> is the stopped
  process, and the do-notation of the option monad sequences the statements of the source.
  The collection \<open>step_simps\<close> gathers the unfolding facts a component wants its proofs to use.
\<close>

named_theorems step_simps

type_synonym 'a proc = "'a option"

definition assert_c :: "bool \<Rightarrow> unit proc" where
  "assert_c b = (if b then Some () else None)"

lemma assert_c_simps [simp]: "assert_c True = Some ()" "assert_c False = None"
  by (simp_all add: assert_c_def)

lemma assert_c_eq_Some [simp]: "assert_c b = Some u \<longleftrightarrow> b"
  by (simp add: assert_c_def)

lemma assert_c_eq_None [simp]: "assert_c b = None \<longleftrightarrow> \<not> b"
  by (simp add: assert_c_def)

lemma assert_c_bind_Some [simp]:
  "Option.bind (assert_c b) f = Some r \<longleftrightarrow> b \<and> f () = Some r"
  by (simp add: assert_c_def)

lemma assert_c_bind_None [simp]:
  "Option.bind (assert_c b) f = None \<longleftrightarrow> \<not> b \<or> f () = None"
  by (simp add: assert_c_def)

lemma bind_assoc_opt: "Option.bind (Option.bind m f) g = Option.bind m (\<lambda>x. Option.bind (f x) g)"
  by (cases m) simp_all

section \<open>Lists\<close>

lemma distinct_split_unique:
  assumes "distinct (xs @ a # ys)" "xs @ a # ys = us @ a # vs"
  shows "xs = us \<and> ys = vs"
  using assms
proof (induction xs arbitrary: us)
  case Nil
  then show ?case by (cases us) auto
next
  case (Cons x xs)
  from Cons.prems have "us \<noteq> []" by (cases us) auto
  then obtain u us' where us: "us = u # us'" by (cases us) auto
  from Cons.prems(1) have d: "distinct (xs @ a # ys)" by simp
  from us Cons.prems(2) have e: "xs @ a # ys = us' @ a # vs" and "u = x" by simp_all
  with Cons.IH [OF d e] us show ?case by blast
qed

lemma sorted_wrt_insert_middle:
  assumes "sorted_wrt (<) (xs @ a # ys)" "(a::'a::linorder) < n" "\<forall>y\<in>set ys. n < y"
  shows "sorted_wrt (<) (xs @ a # n # ys)"
  using assms by (fastforce simp: sorted_wrt_append)

text \<open>The list with an element put behind another one.\<close>

fun insert_after :: "'a \<Rightarrow> 'a \<Rightarrow> 'a list \<Rightarrow> 'a list" where
  "insert_after b n [] = []"
| "insert_after b n (x # xs) = (if x = b then x # n # xs else x # insert_after b n xs)"

lemma insert_after_split: "b \<notin> set us \<Longrightarrow> insert_after b n (us @ b # vs) = us @ b # n # vs"
  by (induction us) auto

lemma insert_after_absent [simp]: "b \<notin> set xs \<Longrightarrow> insert_after b n xs = xs"
  by (induction xs) auto

lemma insert_after_append:
  "insert_after b n (xs @ ys) =
     (if b \<in> set xs then insert_after b n xs @ ys else xs @ insert_after b n ys)"
  by (induction xs) auto

lemma set_insert_after: "b \<in> set xs \<Longrightarrow> set (insert_after b n xs) = insert n (set xs)"
  by (induction xs) auto

lemma distinct_insert_after: "distinct xs \<Longrightarrow> n \<notin> set xs \<Longrightarrow> distinct (insert_after b n xs)"
proof (induction xs)
  case (Cons x xs)
  then show ?case using set_insert_after [of b xs n] by (cases "b \<in> set xs") auto
qed simp

section \<open>Words\<close>

lemma unat_half: "unat (drop_bit (Suc 0) (w::64 word)) = unat w div 2"
  by (simp add: drop_bit_Suc unat_div_distrib)

lemma unat_lt64: "unat (w::64 word) < 2 ^ 64"
  using unsigned_less [of w] by simp

lemma odd_word_unat: "odd (w::64 word) \<longleftrightarrow> odd (unat w)"
  by (simp flip: bit_0 add: bit_unsigned_iff)

lemma odd_and_word: "(a AND b AND (1::64 word) = 1) \<longleftrightarrow> odd (unat a) \<and> odd (unat b)"
proof -
  have "(a AND b AND 1 = 1) \<longleftrightarrow> ((a AND b) AND 1 = 1)"
    by (simp only: and.assoc)
  also have "\<dots> \<longleftrightarrow> odd (a AND b)"
    by (simp only: and_one_eq mod_2_eq_odd of_bool_eq_1_iff)
  also have "\<dots> \<longleftrightarrow> odd (unat a) \<and> odd (unat b)"
    by (simp only: even_and_iff de_Morgan_disj odd_word_unat [of a] odd_word_unat [of b])
  finally show ?thesis .
qed

end
