(* ===== verification/Om_Label.thy ===== *)
theory Om_Label
  imports Prelude
begin

text \<open>
  The labels of the order-maintenance structure: the constants of
  \<^verbatim>\<open>rdtool/src/om/om_common.h\<close> and the midpoint computation of \<^verbatim>\<open>get_new_label\<close>
  (\<^verbatim>\<open>rdtool/src/om/blist.c\<close>). A label is a 64-bit unsigned word, so every addition and
  shift below wraps exactly as the C code does; \<^verbatim>\<open>MAX_LEVEL\<close> and the tree levels, which
  never leave the range 0 to 64, are natural numbers.
\<close>

type_synonym label_t = "64 word"

definition MAX_LABEL :: label_t where "MAX_LABEL = 0xFFFFFFFFFFFFFFFF"
definition NODE_INTERVAL :: label_t where "NODE_INTERVAL = push_bit 58 1"
definition SUBLIST_SIZE :: nat where "SUBLIST_SIZE = 64"
definition MAX_LEVEL :: nat where "MAX_LEVEL = 64"

lemma unat_MAX_LABEL: "unat MAX_LABEL = 2 ^ 64 - 1"
  by (simp add: MAX_LABEL_def)

lemma unat_le_MAX_LABEL: "unat (l::label_t) \<le> unat MAX_LABEL"
  using unat_lt64 [of l] by (simp add: unat_MAX_LABEL)

lemma unat_NODE_INTERVAL: "unat NODE_INTERVAL = 2 ^ 58"
  by (simp add: NODE_INTERVAL_def)

text \<open>
  \<open>new_label base next\<close> is the label computed between a node labelled \<open>base\<close> and its
  successor's label, or the end of the list when there is no successor. The value 0 means
  that no label fits.
\<close>

definition new_label :: "label_t \<Rightarrow> label_t option \<Rightarrow> label_t" where
  "new_label base nxt =
     (let next_label = (case nxt of Some l \<Rightarrow> l | None \<Rightarrow> MAX_LABEL);
          lab = drop_bit (Suc 0) base + drop_bit (Suc 0) next_label;
          lab = (if base AND next_label AND 1 = 1 then lab + 1 else lab);
          lab = (if nxt = None then lab + 1 else lab)
      in if base = lab then 0 else lab)"

text \<open>The same computation on natural numbers: the midpoint, without overflow.\<close>

lemma halves_sum: "(a::nat) div 2 + b div 2 + of_bool (odd a \<and> odd b) = (a + b) div 2"
  by (cases "odd a"; cases "odd b") (auto elim!: oddE evenE)

lemma unat_add_small: "unat (a::label_t) + unat b < 2 ^ 64 \<Longrightarrow> unat (a + b) = unat a + unat b"
  by (simp add: unat_word_ariths)

lemma unat_midpoint:
  "unat (let lab = drop_bit (Suc 0) a + drop_bit (Suc 0) b
         in if a AND b AND (1::label_t) = 1 then lab + 1 else lab) = (unat a + unat b) div 2"
proof -
  let ?s = "drop_bit (Suc 0) a + drop_bit (Suc 0) b"
  have ab: "unat a < 2 ^ 64" "unat b < 2 ^ 64"
    using unat_lt64 [of a] unat_lt64 [of b] by simp_all
  then have s: "unat ?s = unat a div 2 + unat b div 2"
    by (subst unat_add_small) (auto simp only: unat_half)
  have h: "unat a div 2 + unat b div 2 + of_bool (odd (unat a) \<and> odd (unat b))
      = (unat a + unat b) div 2"
    by (rule halves_sum)
  have "unat (?s + 1) = unat ?s + 1" if "odd (unat a)" "odd (unat b)"
    using h s ab that by (subst unat_add_small) auto
  then show ?thesis
    using h s by (cases "odd (unat a)"; cases "odd (unat b)") (simp_all add: Let_def odd_and_word)
qed

lemma new_label_Some_unat:
  assumes "base < nxt"
  shows "unat (new_label base (Some nxt)) =
    (if unat nxt = Suc (unat base) then 0 else (unat base + unat nxt) div 2)"
proof -
  let ?m = "let lab = drop_bit (Suc 0) base + drop_bit (Suc 0) nxt
            in if base AND nxt AND 1 = 1 then lab + 1 else lab"
  have m: "unat ?m = (unat base + unat nxt) div 2" by (rule unat_midpoint)
  have lt: "unat base < unat nxt" using assms by (simp add: word_less_nat_alt)
  have "base = ?m \<longleftrightarrow> unat base = (unat base + unat nxt) div 2"
    unfolding m [symmetric] by (simp only: word_unat_eq_iff)
  also have "\<dots> \<longleftrightarrow> unat nxt = Suc (unat base)" using lt by linarith
  finally have e: "base = ?m \<longleftrightarrow> unat nxt = Suc (unat base)" .
  have "new_label base (Some nxt) = (if base = ?m then 0 else ?m)"
    by (simp add: new_label_def Let_def)
  then show ?thesis using e m by (simp only: if_distrib [of unat] unat_0 split: if_splits)
qed

lemma new_label_None_unat:
  "unat (new_label base None) =
    (if base = MAX_LABEL then 0 else (unat base + 2 ^ 64 - 1) div 2 + 1)"
proof -
  let ?m = "let lab = drop_bit (Suc 0) base + drop_bit (Suc 0) MAX_LABEL
            in if base AND MAX_LABEL AND 1 = 1 then lab + 1 else lab"
  have m: "unat ?m = (unat base + unat MAX_LABEL) div 2" by (rule unat_midpoint)
  have nl: "new_label base None = (if base = ?m + 1 then 0 else ?m + 1)"
    by (simp add: new_label_def Let_def)
  show ?thesis
  proof (cases "base = MAX_LABEL")
    case True
    have "new_label MAX_LABEL None = 0" by (simp add: new_label_def MAX_LABEL_def)
    with True show ?thesis by simp
  next
    case False
    then have lt: "unat base < 2 ^ 64 - 1"
      using unat_le_MAX_LABEL [of base] by (simp add: word_unat_eq_iff unat_MAX_LABEL)
    have "unat (?m + 1) = unat ?m + 1"
      using m lt by (subst unat_add_small) (auto simp only: unat_MAX_LABEL unat_1)
    then have u: "unat (?m + 1) = (unat base + 2 ^ 64 - 1) div 2 + 1"
      using m by (simp only: unat_MAX_LABEL) simp
    then have "unat base \<noteq> unat (?m + 1)" using lt by linarith
    then have "base \<noteq> ?m + 1" by (auto simp only: word_unat_eq_iff)
    with nl u False show ?thesis by simp
  qed
qed

section \<open>What the new label promises\<close>

lemma new_label_zero_Some:
  "base < nxt \<Longrightarrow> new_label base (Some nxt) = 0 \<longleftrightarrow> unat nxt = Suc (unat base)"
  by (simp add: word_unat_eq_iff new_label_Some_unat word_less_nat_alt)

lemma new_label_zero_None: "new_label base None = 0 \<longleftrightarrow> base = MAX_LABEL"
  by (simp add: word_unat_eq_iff [of "new_label base None"] new_label_None_unat)

lemma new_label_above:
  assumes "case nxt of Some l \<Rightarrow> base < l | None \<Rightarrow> True" "new_label base nxt \<noteq> 0"
  shows "base < new_label base nxt"
proof (cases nxt)
  case None
  with assms have "base \<noteq> MAX_LABEL" by (simp add: new_label_zero_None)
  moreover have "unat base \<le> 2 ^ 64 - 1"
    using unat_le_MAX_LABEL [of base] by (simp add: unat_MAX_LABEL)
  ultimately show ?thesis
    using None by (simp add: word_less_nat_alt new_label_None_unat)
next
  case (Some l)
  with assms show ?thesis
    by (simp add: word_less_nat_alt new_label_Some_unat new_label_zero_Some)
qed

lemma new_label_below:
  assumes "base < l"
  shows "new_label base (Some l) < l"
  using assms by (simp add: word_less_nat_alt new_label_Some_unat) linarith

end
