(* ===== verification/Om_Heap.thy ===== *)
theory Om_Heap
  imports Om_Label
begin

text \<open>
  The memory of the order-maintenance structure: the structs of \<^verbatim>\<open>rdtool/src/om/blist.h\<close> and
  \<^verbatim>\<open>rdtool/src/om/om.h\<close> as records, and a heap with one partial map per struct. Addresses are
  natural numbers, a null pointer is \<^const>\<open>None\<close>, \<open>fresh\<close> is the next address
  \<^verbatim>\<open>malloc\<close> returns (allocation never fails: the source does not check for it either) and
  reading a freed or unallocated address stops the process. Fields the source leaves
  uninitialised start as zero.
\<close>

type_synonym node_ptr = nat
type_synonym blist_ptr = nat
type_synonym tl_ptr = nat

text \<open>
  \<^verbatim>\<open>struct blist_node_s\<close>. \<open>bn_head\<close> is the chain of \<^verbatim>\<open>ListPointer\<close> cells the node owns.
\<close>

record bl_node =
  bn_label :: label_t
  bn_next :: "node_ptr option"
  bn_prev :: "node_ptr option"
  bn_list :: "blist_ptr option"
  bn_in_use :: int
  bn_active_insert :: int
  bn_last_insert_id :: int
  bn_head :: "nat list"

text \<open>\<^verbatim>\<open>struct blist_s\<close>.\<close>

record blist =
  bl_head :: "node_ptr option"
  bl_tail :: "node_ptr option"
  bl_above :: "tl_ptr option"
  bl_heavy :: "8 word"

text \<open>
  \<^verbatim>\<open>struct tl_node_s\<close>. The unions \<^verbatim>\<open>left/prev\<close> and \<^verbatim>\<open>right/next\<close> hold pointers of one type and
  are one field each; the union of \<^verbatim>\<open>below\<close> and \<^verbatim>\<open>split_nodes\<close> holds pointers of two types,
  so its field remembers which member was written last.
\<close>

datatype below_or_split = Nothing_below | Below blist_ptr | Split_nodes tl_ptr

record tl_node =
  tl_label :: label_t
  tl_level :: nat
  tl_num_leaves :: nat
  tl_parent :: "tl_ptr option"
  tl_left_prev :: "tl_ptr option"
  tl_right_next :: "tl_ptr option"
  tl_below :: below_or_split
  tl_needs_rebalance :: bool

text \<open>\<^verbatim>\<open>struct om_s\<close>.\<close>

record om =
  om_root :: tl_ptr
  om_head :: tl_ptr
  om_tail :: tl_ptr
  om_height :: nat

record om_heap =
  bnodes :: "node_ptr \<rightharpoonup> bl_node"
  blists :: "blist_ptr \<rightharpoonup> blist"
  tlnodes :: "tl_ptr \<rightharpoonup> tl_node"
  fresh :: nat

section \<open>Field updates through a pointer\<close>

definition upd_bnode :: "node_ptr \<Rightarrow> (bl_node \<Rightarrow> bl_node) \<Rightarrow> om_heap \<Rightarrow> om_heap proc" where
  "upd_bnode p f h = do { n \<leftarrow> bnodes h p; Some (h\<lparr>bnodes := (bnodes h)(p \<mapsto> f n)\<rparr>) }"

definition upd_blist :: "blist_ptr \<Rightarrow> (blist \<Rightarrow> blist) \<Rightarrow> om_heap \<Rightarrow> om_heap proc" where
  "upd_blist p f h = do { l \<leftarrow> blists h p; Some (h\<lparr>blists := (blists h)(p \<mapsto> f l)\<rparr>) }"

definition upd_tl :: "tl_ptr \<Rightarrow> (tl_node \<Rightarrow> tl_node) \<Rightarrow> om_heap \<Rightarrow> om_heap proc" where
  "upd_tl p f h = do { n \<leftarrow> tlnodes h p; Some (h\<lparr>tlnodes := (tlnodes h)(p \<mapsto> f n)\<rparr>) }"

lemma upd_bnode_Some [simp]:
  "upd_bnode p f h = Some h' \<longleftrightarrow>
    (\<exists>n. bnodes h p = Some n \<and> h' = h\<lparr>bnodes := (bnodes h)(p \<mapsto> f n)\<rparr>)"
  by (auto simp: upd_bnode_def bind_eq_Some_conv)

lemma upd_blist_Some [simp]:
  "upd_blist p f h = Some h' \<longleftrightarrow>
    (\<exists>l. blists h p = Some l \<and> h' = h\<lparr>blists := (blists h)(p \<mapsto> f l)\<rparr>)"
  by (auto simp: upd_blist_def bind_eq_Some_conv)

lemma upd_tl_Some [simp]:
  "upd_tl p f h = Some h' \<longleftrightarrow>
    (\<exists>n. tlnodes h p = Some n \<and> h' = h\<lparr>tlnodes := (tlnodes h)(p \<mapsto> f n)\<rparr>)"
  by (auto simp: upd_tl_def bind_eq_Some_conv)

lemma upd_bnode_eq: "bnodes h p = Some n \<Longrightarrow>
    upd_bnode p f h = Some (h\<lparr>bnodes := (bnodes h)(p \<mapsto> f n)\<rparr>)"
  by simp

lemma upd_blist_eq: "blists h p = Some l \<Longrightarrow>
    upd_blist p f h = Some (h\<lparr>blists := (blists h)(p \<mapsto> f l)\<rparr>)"
  by simp

lemma upd_tl_eq: "tlnodes h p = Some n \<Longrightarrow>
    upd_tl p f h = Some (h\<lparr>tlnodes := (tlnodes h)(p \<mapsto> f n)\<rparr>)"
  by simp

section \<open>Allocation\<close>

text \<open>\<^verbatim>\<open>node_new\<close> in blist.c.\<close>

definition node_new :: "om_heap \<Rightarrow> node_ptr \<times> om_heap" where
  "node_new h =
     (fresh h,
      h\<lparr>bnodes := (bnodes h)(fresh h \<mapsto>
          \<lparr>bn_label = 0, bn_next = None, bn_prev = None, bn_list = None,
           bn_in_use = 42, bn_active_insert = 0, bn_last_insert_id = -1, bn_head = []\<rparr>),
        fresh := Suc (fresh h)\<rparr>)"

text \<open>\<^verbatim>\<open>bl_create\<close> and \<^verbatim>\<open>bl_new\<close> in blist.c.\<close>

definition bl_create :: "blist_ptr \<Rightarrow> om_heap \<Rightarrow> om_heap" where
  "bl_create self h =
     h\<lparr>blists := (blists h)(self \<mapsto>
         \<lparr>bl_head = None, bl_tail = None, bl_above = None, bl_heavy = 0\<rparr>)\<rparr>"

definition bl_new :: "om_heap \<Rightarrow> blist_ptr \<times> om_heap" where
  "bl_new h = (fresh h, bl_create (fresh h) (h\<lparr>fresh := Suc (fresh h)\<rparr>))"

text \<open>\<^verbatim>\<open>tl_node_new\<close> in om.c.\<close>

definition tl_node_new :: "om_heap \<Rightarrow> tl_ptr \<times> om_heap" where
  "tl_node_new h =
     (fresh h,
      h\<lparr>tlnodes := (tlnodes h)(fresh h \<mapsto>
          \<lparr>tl_label = 0, tl_level = 0, tl_num_leaves = 0, tl_parent = None,
           tl_left_prev = None, tl_right_next = None, tl_below = Nothing_below,
           tl_needs_rebalance = False\<rparr>),
        fresh := Suc (fresh h)\<rparr>)"

text \<open>\<^verbatim>\<open>tl_node_free\<close> in om.c.\<close>

definition tl_node_free :: "tl_ptr \<Rightarrow> om_heap \<Rightarrow> om_heap proc" where
  "tl_node_free p h = do { n \<leftarrow> tlnodes h p; Some (h\<lparr>tlnodes := (tlnodes h)(p := None)\<rparr>) }"

text \<open>Every allocated address is below the allocator's next one.\<close>

definition heap_ok :: "om_heap \<Rightarrow> bool" where
  "heap_ok h \<longleftrightarrow>
     (\<forall>p \<ge> fresh h. bnodes h p = None \<and> blists h p = None \<and> tlnodes h p = None)"

lemma heap_ok_fresh: "heap_ok h \<Longrightarrow> fresh h \<le> p \<Longrightarrow> bnodes h p = None"
  "heap_ok h \<Longrightarrow> fresh h \<le> p \<Longrightarrow> blists h p = None"
  "heap_ok h \<Longrightarrow> fresh h \<le> p \<Longrightarrow> tlnodes h p = None"
  by (auto simp: heap_ok_def)

end
