(* ===== verification/Om_Blist.thy ===== *)
theory Om_Blist
  imports Om_Heap
begin

text \<open>
  The lower-level list of the order-maintenance structure, \<^verbatim>\<open>rdtool/src/om/blist.c\<close>: a doubly
  linked list of labelled nodes. Every function of that file but the printing ones is a
  definition below. The representation predicate \<open>blist_rep\<close> relates the pointers to the list
  of node addresses, and each operation is shown to refine the list operation it stands for.
\<close>

section \<open>The operations\<close>

text \<open>The label of a node reached through a possibly null pointer: null stays null.\<close>

definition label_of :: "om_heap \<Rightarrow> node_ptr option \<Rightarrow> label_t option proc" where
  "label_of h q = (case q of None \<Rightarrow> Some None
                   | Some p \<Rightarrow> do { n \<leftarrow> bnodes h p; Some (Some (bn_label n)) })"

definition get_new_label :: "node_ptr \<Rightarrow> om_heap \<Rightarrow> label_t proc" where
  "get_new_label base h = do {
     b \<leftarrow> bnodes h base;
     nxt \<leftarrow> label_of h (bn_next b);
     assert_c (case nxt of Some l \<Rightarrow> l > bn_label b | None \<Rightarrow> True);
     let lab = new_label (bn_label b) nxt;
     assert_c (lab = 0 \<or> lab > bn_label b);
     Some lab }"

definition insert_internal ::
  "blist_ptr \<Rightarrow> node_ptr option \<Rightarrow> node_ptr \<Rightarrow> om_heap \<Rightarrow> om_heap proc" where
  "insert_internal self base n h = do {
     h \<leftarrow> (case base of
        None \<Rightarrow> do {
          h \<leftarrow> upd_blist self (\<lambda>l. l\<lparr>bl_head := Some n, bl_tail := Some n\<rparr>) h;
          upd_bnode n (\<lambda>x. x\<lparr>bn_next := None, bn_prev := None, bn_label := 0\<rparr>) h }
      | Some b \<Rightarrow> do {
          xn \<leftarrow> bnodes h n;
          xb \<leftarrow> bnodes h b;
          assert_c (bn_label xn > bn_label xb);
          l \<leftarrow> blists h self;
          h \<leftarrow> (if bl_tail l = Some b then do {
                 h \<leftarrow> upd_blist self (\<lambda>l. l\<lparr>bl_tail := Some n\<rparr>) h;
                 upd_bnode n (\<lambda>x. x\<lparr>bn_next := None\<rparr>) h }
               else do {
                 h \<leftarrow> upd_bnode n (\<lambda>x. x\<lparr>bn_next := bn_next xb\<rparr>) h;
                 q \<leftarrow> bn_next xb;
                 upd_bnode q (\<lambda>x. x\<lparr>bn_prev := Some n\<rparr>) h });
          h \<leftarrow> upd_bnode b (\<lambda>x. x\<lparr>bn_next := Some n\<rparr>) h;
          upd_bnode n (\<lambda>x. x\<lparr>bn_prev := Some b\<rparr>) h });
     upd_bnode n (\<lambda>x. x\<lparr>bn_list := Some self\<rparr>) h }"

definition bl_insert_initial :: "blist_ptr \<Rightarrow> om_heap \<Rightarrow> (node_ptr \<times> om_heap) proc" where
  "bl_insert_initial self h = do {
     l \<leftarrow> blists h self;
     assert_c (bl_head l = None);
     let (n, h) = node_new h;
     h \<leftarrow> insert_internal self None n h;
     Some (n, h) }"

text \<open>
  \<^verbatim>\<open>bl_insert\<close>: \<open>w_self\<close> is the number of the calling worker. The markers
  \<^verbatim>\<open>active_insert\<close> and \<^verbatim>\<open>last_insert_id\<close> are set for the time of the insertion; finding them
  set stops the process. The result is the new node, or null when no label fits.
\<close>

definition bl_insert ::
  "int \<Rightarrow> blist_ptr \<Rightarrow> node_ptr \<Rightarrow> om_heap \<Rightarrow> (node_ptr option \<times> om_heap) proc" where
  "bl_insert w_self self base h = do {
     b \<leftarrow> bnodes h base;
     assert_c (\<not> (bn_active_insert b \<noteq> 0 \<or> bn_last_insert_id b \<noteq> -1));
     h \<leftarrow> upd_bnode base (\<lambda>x. x\<lparr>bn_active_insert := bn_active_insert x + 1\<rparr>) h;
     b \<leftarrow> bnodes h base;
     assert_c (bn_active_insert b = 1);
     h \<leftarrow> upd_bnode base (\<lambda>x. x\<lparr>bn_last_insert_id := w_self\<rparr>) h;
     lab \<leftarrow> get_new_label base h;
     (n, h) \<leftarrow> (if lab > 0 then do {
          let (n, h) = node_new h;
          h \<leftarrow> upd_bnode n (\<lambda>x. x\<lparr>bn_label := lab\<rparr>) h;
          h \<leftarrow> insert_internal self (Some base) n h;
          Some (Some n, h) }
        else Some (None, h));
     h \<leftarrow> upd_bnode base (\<lambda>x. x\<lparr>bn_active_insert := bn_active_insert x - 1\<rparr>) h;
     b \<leftarrow> bnodes h base;
     assert_c (bn_active_insert b = 0);
     h \<leftarrow> upd_bnode base (\<lambda>x. x\<lparr>bn_last_insert_id := -1\<rparr>) h;
     Some (n, h) }"

definition bl_precedes :: "om_heap \<Rightarrow> node_ptr \<Rightarrow> node_ptr \<Rightarrow> bool proc" where
  "bl_precedes h x y = do {
     nx \<leftarrow> bnodes h x;
     ny \<leftarrow> bnodes h y;
     assert_c (bn_list nx = bn_list ny);
     Some (bn_label nx < bn_label ny) }"

text \<open>The loop of \<^verbatim>\<open>bl_size\<close>; a cyclic list would not return, which is \<^const>\<open>None\<close>.\<close>

partial_function (option) bl_size_loop ::
  "om_heap \<Rightarrow> node_ptr option \<Rightarrow> nat \<Rightarrow> nat proc" where
  "bl_size_loop h current count = (case current of
      None \<Rightarrow> Some count
    | Some p \<Rightarrow> do { n \<leftarrow> bnodes h p; bl_size_loop h (bn_next n) (Suc count) })"

definition bl_size :: "om_heap \<Rightarrow> blist_ptr \<Rightarrow> nat proc" where
  "bl_size h self = do { l \<leftarrow> blists h self; bl_size_loop h (bl_head l) 0 }"

text \<open>\<^verbatim>\<open>bl_verify\<close>: the loop over \<^verbatim>\<open>n->next\<close> and the checks of the last node.\<close>

definition quiet :: "bl_node \<Rightarrow> bool" where
  "quiet n \<longleftrightarrow> bn_in_use n = 42 \<and> bn_active_insert n = 0 \<and> bn_last_insert_id n = -1"

partial_function (option) bl_verify_loop ::
  "om_heap \<Rightarrow> blist_ptr \<Rightarrow> node_ptr \<Rightarrow> int proc" where
  "bl_verify_loop h self p = do {
     n \<leftarrow> bnodes h p;
     (case bn_next n of
        Some q \<Rightarrow> do {
          assert_c (quiet n);
          assert_c (q \<noteq> p);
          m \<leftarrow> bnodes h q;
          assert_c (bn_label n < bn_label m);
          assert_c (bn_list n = Some self);
          assert_c (bn_prev m = Some p);
          bl_verify_loop h self q }
      | None \<Rightarrow> do {
          assert_c (quiet n);
          assert_c (bn_list n = Some self);
          l \<leftarrow> blists h self;
          assert_c (bl_tail l = Some p);
          Some 0 }) }"

definition bl_verify :: "om_heap \<Rightarrow> blist_ptr \<Rightarrow> int proc" where
  "bl_verify h self = do {
     l \<leftarrow> blists h self;
     (case bl_head l of
        None \<Rightarrow> do { assert_c (bl_tail l = None); assert_c (bl_heavy l = 0); Some 0 }
      | Some p \<Rightarrow> do {
          n \<leftarrow> bnodes h p;
          assert_c (bn_prev n = None);
          bl_verify_loop h self p }) }"

text \<open>
  \<^verbatim>\<open>bl_destroy\<close> walks the list one node ahead of the node it frees; the node's chain of
  \<^verbatim>\<open>ListPointer\<close> cells goes with it. \<^verbatim>\<open>bl_free\<close> then frees the list itself.
\<close>

definition free_node :: "node_ptr option \<Rightarrow> om_heap \<Rightarrow> om_heap proc" where
  "free_node q h = do {
     p \<leftarrow> q;
     n \<leftarrow> bnodes h p;
     Some (h\<lparr>bnodes := (bnodes h)(p := None)\<rparr>) }"

partial_function (option) bl_destroy_loop ::
  "node_ptr option \<Rightarrow> om_heap \<Rightarrow> om_heap proc" where
  "bl_destroy_loop it h = (case it of
      None \<Rightarrow> Some h
    | Some p \<Rightarrow> do {
        n \<leftarrow> bnodes h p;
        h \<leftarrow> free_node (bn_prev n) h;
        n \<leftarrow> bnodes h p;
        bl_destroy_loop (bn_next n) h })"

definition bl_destroy :: "blist_ptr \<Rightarrow> om_heap \<Rightarrow> om_heap proc" where
  "bl_destroy self h = do {
     l \<leftarrow> blists h self;
     (case bl_head l of
        None \<Rightarrow> Some h
      | Some p \<Rightarrow> do {
          n \<leftarrow> bnodes h p;
          h \<leftarrow> bl_destroy_loop (bn_next n) h;
          free_node (bl_tail l) h }) }"

definition bl_free :: "blist_ptr \<Rightarrow> om_heap \<Rightarrow> om_heap proc" where
  "bl_free self h = do {
     l \<leftarrow> blists h self;
     h \<leftarrow> (if bl_head l \<noteq> None then bl_destroy self h else Some h);
     Some (h\<lparr>blists := (blists h)(self := None)\<rparr>) }"

section \<open>The representation of a list of nodes\<close>

fun hd_opt :: "'a list \<Rightarrow> 'a option \<Rightarrow> 'a option" where
  "hd_opt [] d = d"
| "hd_opt (x # xs) d = Some x"

fun last_opt :: "'a option \<Rightarrow> 'a list \<Rightarrow> 'a option" where
  "last_opt d [] = d"
| "last_opt d (x # xs) = last_opt (Some x) xs"

lemma last_opt_append [simp]: "last_opt d (xs @ ys) = last_opt (last_opt d xs) ys"
  by (induction xs arbitrary: d) auto

lemma hd_opt_append [simp]: "hd_opt (xs @ ys) d = hd_opt xs (hd_opt ys d)"
  by (cases xs) auto

lemma last_opt_Some: "last_opt d xs = Some y \<Longrightarrow> y \<in> set xs \<or> d = Some y"
  by (induction xs arbitrary: d) fastforce+

definition bn_lab :: "om_heap \<Rightarrow> node_ptr \<Rightarrow> label_t" where
  "bn_lab h p = (case bnodes h p of Some n \<Rightarrow> bn_label n | None \<Rightarrow> 0)"

lemma bn_lab_Some [simp]: "bnodes h p = Some n \<Longrightarrow> bn_lab h p = bn_label n"
  by (simp add: bn_lab_def)

fun dll :: "om_heap \<Rightarrow> blist_ptr \<Rightarrow> node_ptr option \<Rightarrow> node_ptr list \<Rightarrow> node_ptr option \<Rightarrow> bool" where
  "dll h self pr [] nx = True"
| "dll h self pr (x # xs) nx = (case bnodes h x of None \<Rightarrow> False
     | Some n \<Rightarrow> bn_prev n = pr \<and> bn_next n = hd_opt xs nx \<and> bn_list n = Some self \<and> quiet n \<and>
         dll h self (Some x) xs nx)"

text \<open>
  The invariant of a list: its head and tail are the ends of the chain \<open>xs\<close>, the nodes of
  \<open>xs\<close> are linked both ways, belong to the list, carry no insertion marker, and their labels
  strictly increase.
\<close>

definition blist_inv :: "om_heap \<Rightarrow> blist_ptr \<Rightarrow> node_ptr list \<Rightarrow> bool" where
  "blist_inv h self xs = (case blists h self of None \<Rightarrow> False
     | Some l \<Rightarrow> bl_head l = hd_opt xs None \<and> bl_tail l = last_opt None xs \<and>
         dll h self None xs None \<and> sorted_wrt (<) (map (bn_lab h) xs))"

lemma dll_Cons:
  "dll h self pr (x # xs) nx \<longleftrightarrow> (\<exists>n. bnodes h x = Some n \<and> bn_prev n = pr \<and>
     bn_next n = hd_opt xs nx \<and> bn_list n = Some self \<and> quiet n \<and> dll h self (Some x) xs nx)"
  by (cases "bnodes h x") auto

lemma blist_inv_iff:
  "blist_inv h self xs \<longleftrightarrow> (\<exists>l. blists h self = Some l \<and> bl_head l = hd_opt xs None \<and>
     bl_tail l = last_opt None xs \<and> dll h self None xs None \<and> sorted_wrt (<) (map (bn_lab h) xs))"
  by (cases "blists h self") (simp_all add: blist_inv_def)

declare dll.simps(2) [simp del]

lemma dll_append:
  "dll h self pr (xs @ ys) nx \<longleftrightarrow>
     dll h self pr xs (hd_opt ys nx) \<and> dll h self (last_opt pr xs) ys nx"
  by (induction xs arbitrary: pr) (auto simp: dll_Cons)

lemma dll_frame:
  assumes "\<forall>p\<in>set xs. bnodes h' p = bnodes h p"
  shows "dll h' self pr xs nx = dll h self pr xs nx"
  using assms by (induction xs arbitrary: pr) (auto simp: dll_Cons)

lemma dll_alloc: "dll h self pr xs nx \<Longrightarrow> p \<in> set xs \<Longrightarrow> \<exists>n. bnodes h p = Some n"
  by (induction xs arbitrary: pr) (auto simp: dll_Cons)

lemma blist_inv_distinct: "blist_inv h self xs \<Longrightarrow> distinct xs"
  by (auto simp: blist_inv_iff strict_sorted_iff distinct_map)

lemma blist_inv_alloc: "blist_inv h self xs \<Longrightarrow> p \<in> set xs \<Longrightarrow> \<exists>n. bnodes h p = Some n"
  unfolding blist_inv_iff by (blast dest: dll_alloc)

lemma blist_inv_not_fresh: "blist_inv h self xs \<Longrightarrow> heap_ok h \<Longrightarrow> p \<in> set xs \<Longrightarrow> p < fresh h"
  by (metis blist_inv_alloc heap_ok_fresh(1) not_le option.distinct(1))

lemma bn_lab_frame: "bnodes h' p = bnodes h p \<Longrightarrow> bn_lab h' p = bn_lab h p"
  by (simp add: bn_lab_def)

lemma blist_inv_frame:
  assumes "\<forall>p\<in>set xs. bnodes h' p = bnodes h p" "blists h' self = blists h self"
  shows "blist_inv h' self xs = blist_inv h self xs"
proof -
  have "map (bn_lab h') xs = map (bn_lab h) xs"
    using assms(1) by (auto intro: bn_lab_frame)
  then show ?thesis
    using assms(2) dll_frame [OF assms(1)] by (simp only: blist_inv_iff)
qed

lemma blist_inv_middle:
  assumes "blist_inv h self (us @ x # vs)"
  obtains l n where "blists h self = Some l" "bnodes h x = Some n"
    "bn_prev n = last_opt None us" "bn_next n = hd_opt vs None" "bn_list n = Some self" "quiet n"
    "bl_tail l = last_opt (Some x) vs" "bl_head l = hd_opt us (Some x)"
proof -
  from assms obtain l where l: "blists h self = Some l" "bl_head l = hd_opt us (Some x)"
      "bl_tail l = last_opt (Some x) vs" and d: "dll h self (last_opt None us) (x # vs) None"
    unfolding blist_inv_iff dll_append by auto
  from d show ?thesis unfolding dll_Cons using l that by blast
qed

section \<open>Insertion\<close>

text \<open>
  The label that an insertion after \<open>base\<close> would use, and the heap an insertion of the label
  \<open>lab\<close> leaves: the effect of \<^verbatim>\<open>node_new\<close> and \<^verbatim>\<open>insert_internal\<close> in one update.
\<close>

definition label_after :: "om_heap \<Rightarrow> node_ptr \<Rightarrow> node_ptr list \<Rightarrow> label_t" where
  "label_after h base vs =
     new_label (bn_lab h base) (case vs of [] \<Rightarrow> None | v # _ \<Rightarrow> Some (bn_lab h v))"

definition inserted :: "om_heap \<Rightarrow> blist_ptr \<Rightarrow> node_ptr \<Rightarrow> label_t \<Rightarrow> node_ptr list \<Rightarrow> om_heap" where
  "inserted h self base lab vs =
     (let n = fresh h;
          new = \<lparr>bn_label = lab, bn_next = hd_opt vs None, bn_prev = Some base, bn_list = Some self,
                 bn_in_use = 42, bn_active_insert = 0, bn_last_insert_id = -1, bn_head = []\<rparr>;
          bn = (bnodes h)(base := map_option (bn_next_update (\<lambda>_. Some n)) (bnodes h base), n \<mapsto> new)
      in (case vs of
            [] \<Rightarrow> h\<lparr>bnodes := bn, fresh := Suc n,
                   blists := (blists h)(self := map_option (bl_tail_update (\<lambda>_. Some n)) (blists h self))\<rparr>
          | v # _ \<Rightarrow> h\<lparr>bnodes := bn(v := map_option (bn_prev_update (\<lambda>_. Some n)) (bnodes h v)),
                   fresh := Suc n\<rparr>))"

lemma get_new_label_eq:
  assumes inv: "blist_inv h self (us @ base # vs)"
  shows "get_new_label base h = Some (label_after h base vs)"
proof -
  obtain b where b: "bnodes h base = Some b" "bn_next b = hd_opt vs None"
    using inv by (rule blist_inv_middle)
  show ?thesis
  proof (cases vs)
    case Nil
    with b show ?thesis
      using new_label_above [of "bn_label b" None]
      by (auto simp: get_new_label_def label_of_def label_after_def Let_def)
  next
    case (Cons v vs')
    from inv Cons have "blist_inv h self ((us @ [base]) @ v # vs')" by simp
    then obtain m where m: "bnodes h v = Some m" by (rule blist_inv_middle)
    have "bn_label b < bn_label m"
      using inv Cons b m by (auto simp: blist_inv_iff sorted_wrt_append)
    with Cons b m show ?thesis
      using new_label_above [of "bn_label b" "Some (bn_label m)"]
      by (auto simp: get_new_label_def label_of_def label_after_def Let_def)
  qed
qed

lemma label_after_bounds:
  assumes "blist_inv h self (us @ base # vs)" "label_after h base vs \<noteq> 0"
  shows "bn_lab h base < label_after h base vs"
    and "v \<in> set vs \<Longrightarrow> label_after h base vs < bn_lab h v"
proof -
  have s: "sorted_wrt (<) (map (bn_lab h) (us @ base # vs))"
    using assms(1) unfolding blist_inv_iff by blast
  show "bn_lab h base < label_after h base vs"
    using assms(2) s unfolding label_after_def
    by (intro new_label_above) (auto simp: sorted_wrt_append split: list.splits)
  assume v: "v \<in> set vs"
  then obtain w ws where vs: "vs = w # ws" by (cases vs) auto
  have "label_after h base vs < bn_lab h w"
    using s vs by (auto simp: label_after_def sorted_wrt_append intro: new_label_below)
  moreover have "bn_lab h w \<le> bn_lab h v"
    using s vs v by (auto simp: sorted_wrt_append)
  ultimately show "label_after h base vs < bn_lab h v" by simp
qed

lemma get_new_label_mark:
  assumes "bnodes h base = Some b"
  shows "get_new_label base (h\<lparr>bnodes := (bnodes h)(base \<mapsto> b\<lparr>bn_active_insert := a, bn_last_insert_id := i\<rparr>)\<rparr>)
       = get_new_label base h"
  using assms by (auto simp: get_new_label_def label_of_def Let_def split: option.splits)

lemma quietE:
  assumes "quiet b"
  obtains lab nx pr li hd where "b = \<lparr>bn_label = lab, bn_next = nx, bn_prev = pr, bn_list = li,
    bn_in_use = 42, bn_active_insert = 0, bn_last_insert_id = -1, bn_head = hd\<rparr>"
  using assms by (cases b) (simp add: quiet_def)

lemmas bl_insert_unfold = bl_insert_def bind_eq_Some_conv upd_bnode_def upd_blist_def node_new_def
  insert_internal_def inserted_def Let_def

lemma bl_insert_full:
  assumes "blist_inv h self (us @ base # vs)" "label_after h base vs = 0"
  shows "bl_insert w self base h = Some (None, h)"
proof -
  obtain b where b: "bnodes h base = Some b" "quiet b"
    using assms(1) by (rule blist_inv_middle)
  have g: "get_new_label base h = Some 0"
    using get_new_label_eq [OF assms(1)] assms(2) by simp
  have i: "(bnodes h)(base \<mapsto> b) = bnodes h" using b by auto
  show ?thesis
    using b g i get_new_label_mark [OF b(1)]
    by - (rule quietE [OF b(2)], simp add: bl_insert_unfold)
qed

lemma bl_insert_run:
  assumes inv: "blist_inv h self (us @ base # vs)" and "heap_ok h" "label_after h base vs \<noteq> 0"
  shows "bl_insert w self base h = Some (Some (fresh h), inserted h self base (label_after h base vs) vs)"
proof -
  obtain b l where b: "bnodes h base = Some b" "quiet b" "bn_next b = hd_opt vs None"
      and l: "blists h self = Some l" "bl_tail l = last_opt (Some base) vs"
    using assms(1) by (rule blist_inv_middle)
  have g: "get_new_label base h = Some (label_after h base vs)" (is "_ = Some ?lab")
    using get_new_label_eq [OF assms(1)] by simp
  have pos: "0 < ?lab" using assms(3) by (simp add: word_neq_0_conv)
  have lab: "bn_label b < ?lab" using label_after_bounds(1) [OF inv assms(3)] b by simp
  have ne: "base \<noteq> fresh h" using heap_ok_fresh(1) [OF assms(2)] b by force
  have dist: "distinct (us @ base # vs)" using inv by (rule blist_inv_distinct)
  show ?thesis
  proof (cases vs)
    case Nil
    with b l g pos lab ne show ?thesis
      using get_new_label_mark [OF b(1)]
      by - (rule quietE [OF b(2)], simp add: bl_insert_unfold fun_upd_twist)
  next
    case (Cons v vs')
    from inv Cons have "blist_inv h self ((us @ [base]) @ v # vs')" by simp
    then obtain m where m: "bnodes h v = Some m" by (rule blist_inv_middle)
    have "v \<noteq> fresh h" using heap_ok_fresh(1) [OF assms(2)] m by force
    moreover have "last_opt (Some v) vs' \<noteq> Some base"
      using dist Cons last_opt_Some [of "Some v" vs' base] by auto
    moreover have "v \<noteq> base" using dist Cons by auto
    ultimately show ?thesis
      using b l g pos lab ne m Cons get_new_label_mark [OF b(1)]
      by - (rule quietE [OF b(2)], simp add: bl_insert_unfold fun_upd_twist)
  qed
qed

lemma bn_lab_inserted:
  assumes "p \<noteq> fresh h" "bnodes h base \<noteq> None"
  shows "bn_lab (inserted h self base lab vs) p = bn_lab h p"
  using assms by (auto simp: inserted_def bn_lab_def Let_def split: list.splits option.splits)

lemma bn_lab_inserted_new:
  "fresh h \<notin> set vs \<Longrightarrow> bn_lab (inserted h self base lab vs) (fresh h) = lab"
  by (auto simp: inserted_def bn_lab_def Let_def split: list.splits option.splits)

lemma inserted_frame:
  "p \<noteq> base \<Longrightarrow> p \<noteq> fresh h \<Longrightarrow> p \<notin> set vs \<Longrightarrow>
     bnodes (inserted h self base lab vs) p = bnodes h p"
  "l \<noteq> self \<Longrightarrow> blists (inserted h self base lab vs) l = blists h l"
  "tlnodes (inserted h self base lab vs) = tlnodes h"
  "fresh (inserted h self base lab vs) = Suc (fresh h)"
  by (auto simp: inserted_def Let_def split: list.splits)

lemma heap_ok_inserted:
  assumes "heap_ok h" "base < fresh h" "\<forall>v\<in>set vs. v < fresh h"
  shows "heap_ok (inserted h self base lab vs)"
  using assms by (auto simp: heap_ok_def inserted_def Let_def split: list.splits)

lemma dll_inserted:
  assumes d: "dll h self pr (us @ base # vs) None" and dist: "distinct (us @ base # vs)"
    and new: "fresh h \<notin> set (us @ base # vs)"
  shows "dll (inserted h self base lab vs) self pr (us @ base # fresh h # vs) None"
proof -
  let ?h = "inserted h self base lab vs"
  have "\<forall>p\<in>set us. bnodes ?h p = bnodes h p"
    using dist new by (auto intro!: inserted_frame(1))
  then have 1: "dll ?h self pr us (Some base)"
    using d dll_frame [of us ?h h] by (simp add: dll_append)
  show ?thesis
  proof (cases vs)
    case Nil
    with d new 1 show ?thesis by (auto simp: dll_append dll_Cons inserted_def Let_def quiet_def)
  next
    case (Cons v vs')
    have "\<forall>p\<in>set vs'. bnodes ?h p = bnodes h p"
      using dist new Cons by (auto simp: inserted_def Let_def)
    then have "dll ?h self q vs' None = dll h self q vs' None" for q
      by (rule dll_frame)
    with Cons d dist new 1 show ?thesis
      by (auto simp: dll_append dll_Cons inserted_def Let_def quiet_def)
  qed
qed

lemma inserted_inv:
  assumes inv: "blist_inv h self (us @ base # vs)" and ok: "heap_ok h"
    and lab: "label_after h base vs \<noteq> 0"
  shows "blist_inv (inserted h self base (label_after h base vs) vs) self (us @ base # fresh h # vs)"
    (is "blist_inv ?h _ _")
proof -
  have dist: "distinct (us @ base # vs)" using inv by (rule blist_inv_distinct)
  have new: "fresh h \<notin> set (us @ base # vs)" using blist_inv_not_fresh [OF inv ok] by blast
  have al: "bnodes h base \<noteq> None" using blist_inv_alloc [OF inv] by fastforce
  obtain l where l: "blists h self = Some l" "bl_head l = hd_opt (us @ base # vs) None"
      "bl_tail l = last_opt None (us @ base # vs)" and d: "dll h self None (us @ base # vs) None"
      and s: "sorted_wrt (<) (map (bn_lab h) (us @ base # vs))"
    using inv unfolding blist_inv_iff by blast
  have m: "map (bn_lab ?h) ys = map (bn_lab h) ys" if "fresh h \<notin> set ys" for ys
    using that al by (auto intro!: bn_lab_inserted)
  have "sorted_wrt (<) (map (bn_lab h) us @ bn_lab h base # label_after h base vs # map (bn_lab h) vs)"
    using s label_after_bounds [OF inv lab] by (intro sorted_wrt_insert_middle) auto
  then have "sorted_wrt (<) (map (bn_lab ?h) (us @ base # fresh h # vs))"
    using new m [of us] m [of vs] m [of "[base]"] bn_lab_inserted_new [of h vs]
    by (simp cong: map_cong)
  moreover have "\<exists>l'. blists ?h self = Some l' \<and> bl_head l' = bl_head l \<and>
      bl_tail l' = last_opt (Some (fresh h)) vs"
    using l by (cases vs) (auto simp: inserted_def Let_def)
  ultimately show ?thesis
    using l dll_inserted [OF d dist new] unfolding blist_inv_iff by auto
qed

text \<open>
  The contract of \<^verbatim>\<open>bl_insert\<close>: the insertion never stops the process; it returns null and
  leaves the memory as it was exactly when the label interval is exhausted, and otherwise links
  a new node right after \<open>base\<close>.
\<close>

lemma bl_insert_spec:
  assumes "blist_inv h self (us @ base # vs)" "heap_ok h"
  shows "\<exists>r h'. bl_insert w self base h = Some (r, h') \<and> heap_ok h' \<and>
    (if label_after h base vs = 0 then r = None \<and> h' = h
     else r = Some (fresh h) \<and> blist_inv h' self (us @ base # fresh h # vs) \<and>
       bn_lab h' (fresh h) = label_after h base vs \<and>
       (\<forall>p. p \<noteq> fresh h \<longrightarrow> bn_lab h' p = bn_lab h p))"
proof (cases "label_after h base vs = 0")
  case True
  then show ?thesis using bl_insert_full [OF assms(1)] assms(2) by simp
next
  case False
  have lt: "p < fresh h" if "p \<in> set (us @ base # vs)" for p
    using blist_inv_not_fresh [OF assms that] .
  then have "fresh h \<notin> set vs" by fastforce
  moreover have "bnodes h base \<noteq> None" using blist_inv_alloc [OF assms(1)] by fastforce
  moreover have "heap_ok (inserted h self base (label_after h base vs) vs)"
    using lt assms(2) by (intro heap_ok_inserted) auto
  ultimately show ?thesis
    using False bl_insert_run [OF assms False] inserted_inv [OF assms False]
    by (auto simp: bn_lab_inserted bn_lab_inserted_new)
qed

section \<open>The other operations\<close>

lemma bl_insert_initial_spec:
  assumes "blists h self = Some l" "bl_head l = None" "heap_ok h"
  shows "\<exists>h'. bl_insert_initial self h = Some (fresh h, h') \<and>
    blist_inv h' self [fresh h] \<and> bn_lab h' (fresh h) = 0 \<and> heap_ok h'"
  using assms
  by (auto simp: bl_insert_initial_def insert_internal_def node_new_def upd_bnode_def upd_blist_def
      blist_inv_iff dll_Cons quiet_def heap_ok_def)

lemma bl_insert_initial_twice:
  "blist_inv h self (x # xs) \<Longrightarrow> bl_insert_initial self h = None"
  by (auto simp: bl_insert_initial_def blist_inv_iff)

lemma dll_list: "dll h self pr xs nx \<Longrightarrow> p \<in> set xs \<Longrightarrow> \<exists>n. bnodes h p = Some n \<and> bn_list n = Some self"
  by (induction xs arbitrary: pr) (auto simp: dll_Cons)

lemma sorted_wrt_nth_iff:
  assumes "sorted_wrt (<) (map f xs)" "i < length xs" "j < length xs"
  shows "f (xs ! i) < (f (xs ! j) :: 'b::linorder) \<longleftrightarrow> i < j"
proof -
  have "f (xs ! i) < f (xs ! j)" if "i < j" "j < length xs" for i j
    using assms(1) that by (auto simp: sorted_wrt_iff_nth_less)
  then show ?thesis using assms(2,3) by (metis less_irrefl linorder_less_linear order_less_trans)
qed

lemma bl_precedes_nth:
  assumes "blist_inv h self xs" "i < length xs" "j < length xs"
  shows "bl_precedes h (xs ! i) (xs ! j) = Some (i < j)"
proof -
  have d: "dll h self None xs None" and s: "sorted_wrt (<) (map (bn_lab h) xs)"
    using assms(1) by (auto simp: blist_inv_iff)
  obtain x where "bnodes h (xs ! i) = Some x" "bn_list x = Some self"
    using dll_list [OF d] assms(2) nth_mem by blast
  moreover obtain y where "bnodes h (xs ! j) = Some y" "bn_list y = Some self"
    using dll_list [OF d] assms(3) nth_mem by blast
  ultimately show ?thesis
    using sorted_wrt_nth_iff [OF s assms(2,3)] by (simp add: bl_precedes_def)
qed

lemma bl_size_loop_dll:
  "dll h self pr xs None \<Longrightarrow> bl_size_loop h (hd_opt xs None) k = Some (k + length xs)"
  by (induction xs arbitrary: pr k) (auto simp: dll_Cons bl_size_loop.simps)

lemma bl_size_length: "blist_inv h self xs \<Longrightarrow> bl_size h self = Some (length xs)"
  by (auto simp: blist_inv_iff bl_size_def bl_size_loop_dll)

lemma bl_verify_loop_dll:
  assumes "dll h self pr (x # xs) None" "sorted_wrt (<) (map (bn_lab h) (x # xs))"
    "blists h self = Some l" "bl_tail l = last_opt (Some x) xs"
  shows "bl_verify_loop h self x = Some 0"
  using assms
proof (induction xs arbitrary: pr x)
  case Nil
  then show ?case by (subst bl_verify_loop.simps) (auto simp: dll_Cons)
next
  case (Cons y ys)
  have "bl_verify_loop h self y = Some 0"
    using Cons.prems by (intro Cons.IH [of "Some x"]) (auto simp: dll_Cons)
  with Cons.prems show ?case
    by (subst bl_verify_loop.simps) (auto simp: dll_Cons)
qed

lemma bl_verify_inv:
  assumes "blist_inv h self xs" "xs \<noteq> [] \<or> (\<exists>l. blists h self = Some l \<and> bl_heavy l = 0)"
  shows "bl_verify h self = Some 0"
proof (cases xs)
  case Nil
  with assms show ?thesis by (auto simp: blist_inv_iff bl_verify_def)
next
  case (Cons x xs')
  with assms obtain l where "blists h self = Some l" "bl_head l = Some x"
      "bl_tail l = last_opt (Some x) xs'" "dll h self None (x # xs') None"
      "sorted_wrt (<) (map (bn_lab h) (x # xs'))"
    by (auto simp: blist_inv_iff)
  then show ?thesis
    using bl_verify_loop_dll [of h self None x xs' l] by (auto simp: bl_verify_def dll_Cons)
qed

text \<open>
  Conversely the verifier accepts nothing else: when it returns, there is a chain of nodes that
  satisfies the invariant.
\<close>

lemma bl_verify_loop_sound:
  assumes "bl_verify_loop h self x = Some r"
  shows "\<forall>n. bnodes h x = Some n \<longrightarrow> (\<exists>xs l. dll h self (bn_prev n) (x # xs) None \<and>
    sorted_wrt (<) (map (bn_lab h) (x # xs)) \<and> blists h self = Some l \<and>
    bl_tail l = last_opt (Some x) xs)"
proof (induction rule: bl_verify_loop.raw_induct [OF _ assms])
  case (1 loop h self p r)
  show ?case
  proof (intro allI impI)
    fix n assume n: "bnodes h p = Some n"
    show "\<exists>xs l. dll h self (bn_prev n) (p # xs) None \<and>
      sorted_wrt (<) (map (bn_lab h) (p # xs)) \<and> blists h self = Some l \<and>
      bl_tail l = last_opt (Some p) xs"
    proof (cases "bn_next n")
      case None
      with 1(2) n show ?thesis
        by (intro exI [of _ "[]"]) (auto simp: dll_Cons bind_eq_Some_conv)
    next
      case (Some q)
      with 1(2) n obtain m where m: "bnodes h q = Some m" "bn_label n < bn_label m"
          "bn_list n = Some self" "bn_prev m = Some p" "quiet n" "loop h self q = Some r"
        by (auto simp: bind_eq_Some_conv)
      from 1(1) [OF m(6)] m obtain xs l where xs: "dll h self (Some p) (q # xs) None"
          "sorted_wrt (<) (map (bn_lab h) (q # xs))" "blists h self = Some l"
          "bl_tail l = last_opt (Some q) xs"
        by auto
      have "\<forall>y\<in>set xs. bn_label n < bn_lab h y"
        using xs(2) m by (auto intro: less_trans)
      with xs m n Some show ?thesis
        by (intro exI [of _ "q # xs"] exI [of _ l]) (auto simp: dll_Cons)
    qed
  qed
qed

lemma bl_verify_sound:
  assumes "bl_verify h self = Some r"
  shows "\<exists>xs. blist_inv h self xs"
proof -
  obtain l where l: "blists h self = Some l"
    using assms by (auto simp: bl_verify_def bind_eq_Some_conv)
  show ?thesis
  proof (cases "bl_head l")
    case None
    with assms l have "blist_inv h self []"
      by (auto simp: bl_verify_def blist_inv_iff bind_eq_Some_conv)
    then show ?thesis ..
  next
    case (Some p)
    with assms l obtain n where n: "bnodes h p = Some n" "bn_prev n = None"
        "bl_verify_loop h self p = Some r"
      by (auto simp: bl_verify_def bind_eq_Some_conv)
    from bl_verify_loop_sound [OF n(3)] n l obtain xs where "dll h self None (p # xs) None"
        "sorted_wrt (<) (map (bn_lab h) (p # xs))" "bl_tail l = last_opt (Some p) xs"
      by auto
    with l Some have "blist_inv h self (p # xs)" by (simp add: blist_inv_iff)
    then show ?thesis ..
  qed
qed

lemma bl_destroy_loop_dll:
  assumes "dll h self pr (x # xs) None" "distinct (x # xs)"
  shows "bl_destroy_loop (hd_opt xs None) h =
    Some (h\<lparr>bnodes := (\<lambda>p. if p \<in> set (butlast (x # xs)) then None else bnodes h p)\<rparr>)"
  using assms
proof (induction xs arbitrary: pr x h)
  case Nil
  then show ?case by (simp add: bl_destroy_loop.simps)
next
  case (Cons y ys)
  obtain nx ny where n: "bnodes h x = Some nx" "bnodes h y = Some ny" "bn_prev ny = Some x"
      "bn_next ny = hd_opt ys None" "dll h self (Some x) (y # ys) None"
    using Cons.prems(1) by (auto simp: dll_Cons)
  let ?h = "h\<lparr>bnodes := (bnodes h)(x := None)\<rparr>"
  have "dll ?h self (Some x) (y # ys) None"
    using n(5) Cons.prems(2) by (subst dll_frame [of _ ?h h]) auto
  then have "bl_destroy_loop (hd_opt ys None) ?h =
      Some (?h\<lparr>bnodes := (\<lambda>p. if p \<in> set (butlast (y # ys)) then None else bnodes ?h p)\<rparr>)"
    using Cons.prems(2) by (intro Cons.IH) auto
  moreover have "x \<noteq> y" using Cons.prems(2) by auto
  ultimately show ?case
    using n by (subst hd_opt.simps, subst bl_destroy_loop.simps)
      (auto simp: free_node_def fun_eq_iff intro!: arg_cong [where f = "\<lambda>f. bnodes_update f h"])
qed

lemma last_opt_last: "last_opt d (x # xs) = Some (last (x # xs))"
  by (induction xs arbitrary: d x) auto

lemma bl_destroy_spec:
  assumes "blist_inv h self xs"
  shows "bl_destroy self h = Some (h\<lparr>bnodes := (\<lambda>p. if p \<in> set xs then None else bnodes h p)\<rparr>)"
proof (cases xs)
  case Nil
  with assms show ?thesis by (auto simp: bl_destroy_def blist_inv_iff)
next
  case (Cons x xs')
  have dist: "distinct xs" using assms by (rule blist_inv_distinct)
  obtain l where l: "blists h self = Some l" "bl_head l = Some x" "bl_tail l = Some (last xs)"
      and d: "dll h self None (x # xs') None"
    using assms Cons by (auto simp: blist_inv_iff last_opt_last simp del: last_opt.simps)
  obtain n where n: "bnodes h x = Some n" "bn_next n = hd_opt xs' None"
    using d by (auto simp: dll_Cons)
  have loop: "bl_destroy_loop (hd_opt xs' None) h =
      Some (h\<lparr>bnodes := (\<lambda>p. if p \<in> set (butlast xs) then None else bnodes h p)\<rparr>)"
    using bl_destroy_loop_dll [OF d] dist Cons by simp
  have xs: "xs = butlast xs @ [last xs]" using Cons by simp
  then have "last xs \<notin> set (butlast xs)" using dist by (metis distinct_append disjoint_insert(2) list.simps(15))
  moreover obtain t where "bnodes h (last xs) = Some t"
    using dll_alloc [OF d] Cons by (metis last_in_set list.distinct(1))
  ultimately show ?thesis
    using l n loop xs
    by (auto simp: bl_destroy_def free_node_def fun_eq_iff
        intro!: arg_cong [where f = "\<lambda>f. bnodes_update f h"] dest: in_set_butlastD) (metis Un_iff empty_iff insert_iff list.set(1) list.simps(15) set_append)+
qed

lemma bl_free_eq:
  assumes "blist_inv h self xs"
  shows "bl_free self h = Some (h\<lparr>bnodes := (\<lambda>p. if p \<in> set xs then None else bnodes h p),
    blists := (blists h)(self := None)\<rparr>)"
proof -
  have d: "bl_destroy self h = Some (h\<lparr>bnodes := (\<lambda>p. if p \<in> set xs then None else bnodes h p)\<rparr>)"
    using assms by (rule bl_destroy_spec)
  obtain l where "blists h self = Some l" "bl_head l = hd_opt xs None"
    using assms by (auto simp: blist_inv_iff)
  with d show ?thesis by (cases xs) (auto simp: bl_free_def)
qed

section \<open>Room for insertions\<close>

text \<open>
  \<open>gaps_ge g ls\<close>: each label leaves room \<open>g\<close> up to the next one, the last up to \<open>2^64\<close>. An
  insertion halves one gap, so \<open>k\<close> insertions at any places are possible when every gap
  is at least \<open>2^k\<close>.
\<close>

fun gaps_ge :: "nat \<Rightarrow> nat list \<Rightarrow> bool" where
  "gaps_ge g [] \<longleftrightarrow> True"
| "gaps_ge g [x] \<longleftrightarrow> x + g \<le> 2 ^ 64"
| "gaps_ge g (x # y # ys) \<longleftrightarrow> x + g \<le> y \<and> gaps_ge g (y # ys)"

lemma gaps_ge_mono: "gaps_ge g ls \<Longrightarrow> g' \<le> g \<Longrightarrow> gaps_ge g' ls"
  by (induction g ls rule: gaps_ge.induct) auto

lemma gaps_ge_insert:
  assumes "gaps_ge g (us @ x # vs)" "x + g div 2 \<le> n"
    "n + g div 2 \<le> (case vs of [] \<Rightarrow> 2 ^ 64 | v # _ \<Rightarrow> v)"
  shows "gaps_ge (g div 2) (us @ x # n # vs)"
  using assms
proof (induction us)
  case Nil
  then have "gaps_ge (g div 2) vs"
    by (cases vs) (auto intro: gaps_ge_mono)
  with Nil show ?case by (cases vs) auto
next
  case (Cons u us)
  then have "gaps_ge (g div 2) (us @ x # n # vs)" by (cases us) auto
  with Cons.prems show ?case by (cases us) auto
qed

lemma gaps_ge_at:
  "gaps_ge g (us @ x # vs) \<Longrightarrow> x + g \<le> (case vs of [] \<Rightarrow> 2 ^ 64 | v # _ \<Rightarrow> v)"
proof (induction us)
  case Nil
  then show ?case by (cases vs) auto
next
  case (Cons u us)
  then show ?case by (cases us) auto
qed

lemma label_after_gap:
  assumes "blist_inv h self (us @ base # vs)"
    "gaps_ge g (map (\<lambda>p. unat (bn_lab h p)) (us @ base # vs))" "2 \<le> g"
  shows "label_after h base vs \<noteq> 0"
    "gaps_ge (g div 2) (map (\<lambda>p. unat (bn_lab h p)) us @ unat (bn_lab h base) #
       unat (label_after h base vs) # map (\<lambda>p. unat (bn_lab h p)) vs)"
proof -
  let ?l = "\<lambda>p. unat (bn_lab h p)"
  have gap: "?l base + g \<le> (case vs of [] \<Rightarrow> 2 ^ 64 | v # _ \<Rightarrow> ?l v)"
    using gaps_ge_at [of g "map ?l us" "?l base" "map ?l vs"] assms(2)
    by (auto split: list.splits)
  have s: "sorted_wrt (<) (map (bn_lab h) (us @ base # vs))"
    using assms(1) unfolding blist_inv_iff by blast
  have "label_after h base vs \<noteq> 0 \<and> ?l base + g div 2 \<le> unat (label_after h base vs) \<and>
      unat (label_after h base vs) + g div 2 \<le> (case vs of [] \<Rightarrow> 2 ^ 64 | v # _ \<Rightarrow> ?l v)"
  proof (cases vs)
    case Nil
    have "bn_lab h base \<noteq> MAX_LABEL"
      using gap Nil assms(3) by (auto simp: MAX_LABEL_def)
    with Nil gap show ?thesis
      by (simp add: label_after_def new_label_zero_None new_label_None_unat) linarith
  next
    case (Cons v vs')
    have "bn_lab h base < bn_lab h v" using s Cons by (simp add: sorted_wrt_append)
    with Cons gap assms(3) show ?thesis
      by (simp add: label_after_def new_label_zero_Some new_label_Some_unat) linarith
  qed
  then show "label_after h base vs \<noteq> 0"
    "gaps_ge (g div 2) (map ?l us @ ?l base # unat (label_after h base vs) # map ?l vs)"
    using assms(2) by (auto intro!: gaps_ge_insert split: list.splits)
qed

text \<open>A client that inserts after the nodes at the positions \<open>is\<close> of the list, one after another.\<close>

fun bl_insert_seq ::
  "int \<Rightarrow> blist_ptr \<Rightarrow> nat list \<Rightarrow> node_ptr list \<Rightarrow> om_heap \<Rightarrow> (node_ptr list \<times> om_heap) proc" where
  "bl_insert_seq w self [] xs h = Some (xs, h)"
| "bl_insert_seq w self (i # is) xs h = do {
     (r, h) \<leftarrow> bl_insert w self (xs ! i) h;
     n \<leftarrow> r;
     bl_insert_seq w self is (take (Suc i) xs @ n # drop (Suc i) xs) h }"

lemma bl_insert_seq_room:
  assumes "blist_inv h self xs" "heap_ok h"
    "gaps_ge (2 ^ length is) (map (\<lambda>p. unat (bn_lab h p)) xs)"
    "\<forall>j < length is. is ! j < length xs + j"
  shows "\<exists>ys h'. bl_insert_seq w self is xs h = Some (ys, h') \<and> blist_inv h' self ys \<and>
    heap_ok h' \<and> length ys = length xs + length is"
  using assms
proof (induction "is" arbitrary: xs h)
  case Nil
  then show ?case by simp
next
  case (Cons i "is")
  have i: "i < length xs" using Cons.prems(4) by fastforce
  define us base vs where "us = take i xs" "base = xs ! i" "vs = drop (Suc i) xs"
  have xs: "xs = us @ base # vs" using i by (simp add: us_base_vs_def id_take_nth_drop)
  have inv: "blist_inv h self (us @ base # vs)" using Cons.prems(1) xs by simp
  note gap = label_after_gap [OF inv, of "2 ^ length (i # is)"]
  let ?zs = "us @ base # fresh h # vs"
  have g: "label_after h base vs \<noteq> 0"
    and g2: "gaps_ge (2 ^ length is) (map (\<lambda>p. unat (bn_lab h p)) us @ unat (bn_lab h base) #
       unat (label_after h base vs) # map (\<lambda>p. unat (bn_lab h p)) vs)"
    using gap Cons.prems(3) xs by simp_all
  from bl_insert_spec [OF inv Cons.prems(2), of w] g obtain h' where h':
      "bl_insert w self base h = Some (Some (fresh h), h')" "heap_ok h'" "blist_inv h' self ?zs"
      "bn_lab h' (fresh h) = label_after h base vs" "\<forall>p. p \<noteq> fresh h \<longrightarrow> bn_lab h' p = bn_lab h p"
    by auto
  have "fresh h \<notin> set xs" using blist_inv_not_fresh [OF Cons.prems(1,2)] by blast
  then have "\<forall>p\<in>set xs. bn_lab h' p = bn_lab h p" using h'(5) by metis
  then have "map (\<lambda>p. unat (bn_lab h' p)) ?zs = map (\<lambda>p. unat (bn_lab h p)) us @ unat (bn_lab h base) #
       unat (label_after h base vs) # map (\<lambda>p. unat (bn_lab h p)) vs"
    using h'(4) xs by (simp cong: map_cong)
  with g2 have g3: "gaps_ge (2 ^ length is) (map (\<lambda>p. unat (bn_lab h' p)) ?zs)" by (simp only:)
  have idx: "\<forall>j < length is. is ! j < length ?zs + j"
  proof (intro allI impI)
    fix j assume "j < length is"
    with Cons.prems(4) have "(i # is) ! Suc j < length xs + Suc j" by (metis Suc_less_eq length_Cons)
    with xs show "is ! j < length ?zs + j" by simp
  qed
  have "take (Suc i) xs @ n # drop (Suc i) xs = us @ base # n # vs" for n
    using i by (simp add: us_base_vs_def take_Suc_conv_app_nth)
  then have "bl_insert_seq w self (i # is) xs h = bl_insert_seq w self is ?zs h'"
    using h'(1) by (simp flip: us_base_vs_def(2))
  moreover have "length ?zs + length is = length xs + length (i # is)" using xs by simp
  ultimately show ?case using Cons.IH [OF h'(3,2) g3 idx] by simp
qed

end
