(* ===== verification/Om_Tree.thy ===== *)
theory Om_Tree
  imports Om_Blist
begin

text \<open>
  The upper level of the order-maintenance structure, \<^verbatim>\<open>rdtool/src/om/om.c\<close> and
  \<^verbatim>\<open>rdtool/src/om/blist_split.c\<close>: a binary tree whose leaves each own a lower-level list,
  creation and destruction, insertion, the comparison of two nodes, the verifier and the
  splitting of a list that is too dense.
\<close>

section \<open>Tree nodes\<close>

definition is_leaf :: "tl_node \<Rightarrow> bool" where
  "is_leaf n \<longleftrightarrow> tl_level n = MAX_LEVEL \<or> (tl_left_prev n = None \<and> tl_right_next n = None)"

text \<open>The list below a leaf; a node whose union does not hold a list has none.\<close>

definition below_list :: "tl_node \<Rightarrow> blist_ptr option" where
  "below_list n = (case tl_below n of Below b \<Rightarrow> Some b | _ \<Rightarrow> None)"

definition split_nodes_of :: "tl_node \<Rightarrow> tl_ptr option option" where
  "split_nodes_of n = (case tl_below n of Split_nodes q \<Rightarrow> Some (Some q) | Nothing_below \<Rightarrow> Some None
                       | Below b \<Rightarrow> None)"

partial_function (option) tl_node_free_recursive :: "tl_ptr \<Rightarrow> om_heap \<Rightarrow> om_heap proc" where
  "tl_node_free_recursive p h = do {
     n \<leftarrow> tlnodes h p;
     h \<leftarrow> (if tl_level n < MAX_LEVEL then do {
            h \<leftarrow> (case tl_left_prev n of Some l \<Rightarrow> tl_node_free_recursive l h | None \<Rightarrow> Some h);
            n \<leftarrow> tlnodes h p;
            (case tl_right_next n of Some r \<Rightarrow> tl_node_free_recursive r h | None \<Rightarrow> Some h) }
          else Some h);
     tl_node_free p h }"

section \<open>Creation and destruction\<close>

definition om_create :: "om_heap \<Rightarrow> (om \<times> om_heap) proc" where
  "om_create h = (let (root, h) = tl_node_new h; (b, h) = bl_new h in do {
     h \<leftarrow> upd_tl root (\<lambda>n. n\<lparr>tl_below := Below b\<rparr>) h;
     h \<leftarrow> upd_blist b (\<lambda>l. l\<lparr>bl_above := Some root\<rparr>) h;
     h \<leftarrow> upd_tl root (\<lambda>n. n\<lparr>tl_level := MAX_LEVEL, tl_num_leaves := 1, tl_label := 0\<rparr>) h;
     h \<leftarrow> upd_tl root (\<lambda>n. n\<lparr>tl_needs_rebalance := False, tl_parent := None,
                             tl_left_prev := None, tl_right_next := None\<rparr>) h;
     Some (\<lparr>om_root = root, om_head = root, om_tail = root, om_height = 0\<rparr>, h) })"

text \<open>The recursive \<^verbatim>\<open>destroy\<close>: the children of an inner node, the list of a leaf, the node.\<close>

partial_function (option) destroy :: "tl_ptr option \<Rightarrow> om_heap \<Rightarrow> om_heap proc" where
  "destroy q h = (case q of None \<Rightarrow> Some h | Some p \<Rightarrow> do {
     n \<leftarrow> tlnodes h p;
     h \<leftarrow> (if tl_level n < MAX_LEVEL then do {
            h \<leftarrow> destroy (tl_left_prev n) h;
            n \<leftarrow> tlnodes h p;
            destroy (tl_right_next n) h }
          else do { b \<leftarrow> below_list n; bl_free b h });
     tl_node_free p h })"

definition om_destroy :: "om \<Rightarrow> om_heap \<Rightarrow> om_heap proc" where
  "om_destroy self h = destroy (Some (om_root self)) h"

section \<open>Insertion and comparison\<close>

text \<open>The tree node above the list of a lower-level node: \<^verbatim>\<open>n->list->above\<close>.\<close>

definition above_of :: "om_heap \<Rightarrow> node_ptr \<Rightarrow> tl_ptr proc" where
  "above_of h p = do { n \<leftarrow> bnodes h p; b \<leftarrow> bn_list n; l \<leftarrow> blists h b; bl_above l }"

definition om_get_tl :: "om_heap \<Rightarrow> node_ptr \<Rightarrow> tl_ptr proc" where
  "om_get_tl h p = do {
     t \<leftarrow> above_of h p;
     n \<leftarrow> tlnodes h t;
     assert_c (tl_level n = MAX_LEVEL);
     Some t }"

definition om_insert_initial :: "om \<Rightarrow> om_heap \<Rightarrow> (node_ptr \<times> om_heap) proc" where
  "om_insert_initial self h = do {
     root \<leftarrow> tlnodes h (om_root self);
     assert_c (tl_num_leaves root = 1);
     b \<leftarrow> below_list root;
     (n, h) \<leftarrow> bl_insert_initial b h;
     x \<leftarrow> bnodes h n;
     assert_c (bn_list x = Some b);
     Some (n, h) }"

definition om_insert :: "int \<Rightarrow> node_ptr \<Rightarrow> om_heap \<Rightarrow> (node_ptr option \<times> om_heap) proc" where
  "om_insert w_self base h = do {
     t \<leftarrow> above_of h base;
     tn \<leftarrow> tlnodes h t;
     assert_c (tl_level tn = MAX_LEVEL);
     x \<leftarrow> bnodes h base;
     b \<leftarrow> bn_list x;
     assert_c (below_list tn = Some b);
     (r, h) \<leftarrow> bl_insert w_self b base h;
     (case r of None \<Rightarrow> Some ()
      | Some n \<Rightarrow> do { y \<leftarrow> bnodes h n; x \<leftarrow> bnodes h base; assert_c (bn_label y > bn_label x) });
     Some (r, h) }"

definition om_precedes :: "om_heap \<Rightarrow> node_ptr option \<Rightarrow> node_ptr option \<Rightarrow> bool proc" where
  "om_precedes h x y = (case x of None \<Rightarrow> Some True | Some x \<Rightarrow>
     (case y of None \<Rightarrow> Some False | Some y \<Rightarrow> do {
        nx \<leftarrow> bnodes h x;
        ny \<leftarrow> bnodes h y;
        (if bn_list nx = bn_list ny then Some (bn_label nx < bn_label ny)
         else do {
           tx \<leftarrow> above_of h x;
           ty \<leftarrow> above_of h y;
           ax \<leftarrow> tlnodes h tx;
           ay \<leftarrow> tlnodes h ty;
           Some (tl_label ax < tl_label ay) }) }))"

section \<open>The verifier and the memory count\<close>

text \<open>
  \<^verbatim>\<open>verify\<close> returns the number of leaves below the node, as an \<^verbatim>\<open>int\<close> in the source: the
  model reads it as a natural number, which is the same below \<open>2^31\<close> leaves.
\<close>

definition parent_is :: "om_heap \<Rightarrow> tl_ptr \<Rightarrow> tl_ptr option \<Rightarrow> unit proc" where
  "parent_is h p q = (case q of None \<Rightarrow> Some ()
     | Some c \<Rightarrow> do { m \<leftarrow> tlnodes h c; assert_c (tl_parent m = Some p) })"

partial_function (option) verify :: "om_heap \<Rightarrow> tl_ptr option \<Rightarrow> nat proc" where
  "verify h q = (case q of None \<Rightarrow> Some 0 | Some p \<Rightarrow> do {
     n \<leftarrow> tlnodes h p;
     assert_c (tl_level n \<le> MAX_LEVEL);
     l \<leftarrow> verify h (tl_left_prev n);
     r \<leftarrow> verify h (tl_right_next n);
     parent_is h p (tl_left_prev n);
     parent_is h p (tl_right_next n);
     (if tl_level n = MAX_LEVEL then do {
        assert_c (tl_num_leaves n = 1);
        assert_c (tl_left_prev n = None \<and> tl_right_next n = None);
        b \<leftarrow> below_list n;
        bl_verify h b;
        m \<leftarrow> blists h b;
        assert_c (bl_above m = Some p) }
      else assert_c (tl_num_leaves n = l + r));
     Some (tl_num_leaves n) })"

definition om_verify :: "om \<Rightarrow> om_heap \<Rightarrow> int proc" where
  "om_verify self h = do {
     root \<leftarrow> tlnodes h (om_root self);
     assert_c (tl_parent root = None);
     verify h (Some (om_root self));
     Some 0 }"

text \<open>The sizes of the structs on the 64-bit target.\<close>

definition sizeof_bl_node :: nat where "sizeof_bl_node = 56"
definition sizeof_blist :: nat where "sizeof_blist = 32"
definition sizeof_tl_node :: nat where "sizeof_tl_node = 64"
definition sizeof_om :: nat where "sizeof_om = 32"

definition bl_memsize :: "om_heap \<Rightarrow> blist_ptr \<Rightarrow> nat proc" where
  "bl_memsize h self = do { k \<leftarrow> bl_size h self; Some (k * sizeof_bl_node + sizeof_blist) }"

partial_function (option) node_memsize :: "om_heap \<Rightarrow> tl_ptr option \<Rightarrow> nat proc" where
  "node_memsize h q = (case q of None \<Rightarrow> Some 0 | Some p \<Rightarrow> do {
     n \<leftarrow> tlnodes h p;
     (if is_leaf n then do {
        b \<leftarrow> below_list n;
        k \<leftarrow> bl_memsize h b;
        Some (sizeof_tl_node + k) }
      else do {
        l \<leftarrow> node_memsize h (tl_left_prev n);
        r \<leftarrow> node_memsize h (tl_right_next n);
        Some (sizeof_tl_node + (l + r)) }) })"

definition om_memsize :: "om \<Rightarrow> om_heap \<Rightarrow> nat proc" where
  "om_memsize self h = do { k \<leftarrow> node_memsize h (Some (om_root self)); Some (k + sizeof_om) }"

section \<open>Splitting a list\<close>

text \<open>
  The inner loop of \<^verbatim>\<open>split\<close> moves up to \<^verbatim>\<open>SUBLIST_SIZE\<close> nodes to the list \<open>lst\<close>, labelling
  them \<^verbatim>\<open>NODE_INTERVAL\<close> apart; the outer loop makes one tree node and one list per chunk and
  chains the tree nodes by \<^verbatim>\<open>prev\<close> and \<^verbatim>\<open>next\<close>.
\<close>

partial_function (option) split_inner ::
  "blist_ptr \<Rightarrow> node_ptr option \<Rightarrow> label_t \<Rightarrow> nat \<Rightarrow> om_heap \<Rightarrow> (node_ptr option \<times> om_heap) proc" where
  "split_inner lst cur lab k h = (case cur of None \<Rightarrow> Some (None, h) | Some p \<Rightarrow>
     (if k < SUBLIST_SIZE then do {
        n \<leftarrow> bnodes h p;
        h \<leftarrow> upd_bnode p (\<lambda>x. x\<lparr>bn_label := lab\<rparr>) h;
        h \<leftarrow> insert_internal lst (bn_prev n) p h;
        split_inner lst (bn_next n) (lab + NODE_INTERVAL) (Suc k) h }
      else Some (cur, h)))"

definition split_chunk_new :: "tl_ptr \<Rightarrow> tl_ptr option \<Rightarrow> om_heap \<Rightarrow> (tl_ptr \<times> blist_ptr \<times> om_heap) proc" where
  "split_chunk_new ab prv h = (let (n, h) = tl_node_new h in do {
     h \<leftarrow> upd_tl n (\<lambda>x. x\<lparr>tl_level := MAX_LEVEL, tl_right_next := None, tl_left_prev := prv,
                          tl_num_leaves := 1\<rparr>) h;
     h \<leftarrow> (case prv of Some q \<Rightarrow> upd_tl q (\<lambda>x. x\<lparr>tl_right_next := Some n\<rparr>) h
           | None \<Rightarrow> upd_tl ab (\<lambda>x. x\<lparr>tl_below := Split_nodes n\<rparr>) h);
     let (lst, h) = bl_new h;
     h \<leftarrow> upd_tl n (\<lambda>x. x\<lparr>tl_below := Below lst\<rparr>) h;
     h \<leftarrow> upd_blist lst (\<lambda>l. l\<lparr>bl_above := Some n\<rparr>) h;
     Some (n, lst, h) })"

partial_function (option) split_outer ::
  "tl_ptr \<Rightarrow> node_ptr option \<Rightarrow> tl_ptr option \<Rightarrow> nat \<Rightarrow> om_heap \<Rightarrow> (nat \<times> om_heap) proc" where
  "split_outer ab cur prv num h = (case cur of None \<Rightarrow> Some (num, h) | Some p \<Rightarrow> do {
     (n, lst, h) \<leftarrow> split_chunk_new ab prv h;
     h \<leftarrow> upd_bnode p (\<lambda>x. x\<lparr>bn_prev := None\<rparr>) h;
     (cur, h) \<leftarrow> split_inner lst cur 0 0 h;
     split_outer ab cur (Some n) (Suc num) h })"

definition split :: "blist_ptr \<Rightarrow> om_heap \<Rightarrow> (nat \<times> om_heap) proc" where
  "split self h = do {
     l \<leftarrow> blists h self;
     ab \<leftarrow> bl_above l;
     t \<leftarrow> tlnodes h ab;
     assert_c (below_list t = Some self);
     assert_c (bl_head l \<noteq> None);
     (num, h) \<leftarrow> split_outer ab (bl_head l) None 0 h;
     h \<leftarrow> upd_blist self (\<lambda>l. l\<lparr>bl_head := None, bl_tail := None\<rparr>) h;
     Some (num, h\<lparr>blists := (blists h)(self := None)\<rparr>) }"

end
