(* ===== verification/Om_Relabel.thy ===== *)
theory Om_Relabel
  imports Om_Tree Complex_Main
begin

text \<open>
  Relabelling, \<^verbatim>\<open>rdtool/src/om/om_relabel.c\<close>: heavy lists are split and the top tree is
  rebuilt where it became too dense. The loops and recursive calls that the source runs in
  parallel (\<^verbatim>\<open>cilk_for\<close>, \<^verbatim>\<open>cilk_spawn\<close>) work on disjoint nodes up to commuting atomic
  updates; the model runs them in program order.

  Two things depend on the machine and are parameters: the value of the shift \<^verbatim>\<open>1 << height\<close> of
  an \<^verbatim>\<open>int\<close> for a height of 31 or more, which C leaves undefined, and the rounding of the
  floating-point operations.
\<close>

record machine =
  m_shift :: "nat \<Rightarrow> 64 word"
  m_round :: "rat \<Rightarrow> rat"

section \<open>Ranges, capacity and density of a tree node\<close>

definition range_right :: "tl_node \<Rightarrow> label_t" where
  "range_right n = tl_label n"

text \<open>
  \<^verbatim>\<open>range_left\<close>: a mask of \<^verbatim>\<open>level\<close> leading ones, made by an arithmetic shift. For level 0
  with a parent the source would shift by a huge amount, which C leaves undefined.
\<close>

definition range_left :: "tl_node \<Rightarrow> label_t proc" where
  "range_left n = (if tl_parent n = None then Some 0 else do {
     assert_c (tl_level n \<noteq> 0);
     let lab = push_bit (MAX_LEVEL - 1) MAX_LABEL;
     let lab = signed_drop_bit (tl_level n - 1) lab;
     Some (lab AND range_right n) })"

definition tl_height :: "tl_node \<Rightarrow> nat" where
  "tl_height n = MAX_LEVEL - tl_level n"

definition capacity :: "machine \<Rightarrow> tl_node \<Rightarrow> label_t" where
  "capacity M n = (if tl_level n = 0 then MAX_LABEL
     else if tl_height n < 31 then push_bit (tl_height n) 1 else m_shift M (tl_height n))"

text \<open>
  \<^verbatim>\<open>density(n) >= threshold\<close> in floating point: dividing by a zero capacity gives infinity (or
  no number, for no leaves), and so does \<^verbatim>\<open>level / 0\<close>; a comparison with no number is false.
\<close>

definition dense :: "machine \<Rightarrow> tl_node \<Rightarrow> nat \<Rightarrow> bool" where
  "dense M n ht =
     (let cap = unat (capacity M n); R = m_round M in
      if cap = 0 then tl_num_leaves n > 0 \<and> (ht \<noteq> 0 \<or> tl_level n > 0)
      else if ht = 0 then False
      else R (of_nat (tl_num_leaves n) / R (of_nat cap))
           \<ge> R (3 / 4 + R (1 / 4 * R (of_nat (tl_level n) / of_nat ht))))"

definition too_heavy :: "machine \<Rightarrow> tl_node \<Rightarrow> nat \<Rightarrow> bool" where
  "too_heavy M n ht = (if \<not> tl_needs_rebalance n then False else dense M n ht)"

section \<open>Collecting the leaves\<close>

definition store_at :: "nat \<Rightarrow> 'a \<Rightarrow> 'a list \<Rightarrow> 'a list proc" where
  "store_at i x arr = (if i < length arr then Some (arr[i := x]) else None)"

text \<open>The loop over the nodes of a split leaf.\<close>

partial_function (option) collect_split ::
  "tl_ptr option \<Rightarrow> nat \<Rightarrow> tl_ptr list \<Rightarrow> om_heap \<Rightarrow> (nat \<times> tl_ptr list \<times> om_heap) proc" where
  "collect_split cur idx arr h = (case cur of None \<Rightarrow> Some (idx, arr, h) | Some c \<Rightarrow> do {
     arr \<leftarrow> store_at idx c arr;
     n \<leftarrow> tlnodes h c;
     (case tl_right_next n of None \<Rightarrow> Some ()
      | Some q \<Rightarrow> do { m \<leftarrow> tlnodes h q; assert_c (tl_left_prev m = Some c) });
     h \<leftarrow> (case tl_left_prev n of None \<Rightarrow> Some h
           | Some q \<Rightarrow> upd_tl q (\<lambda>m. m\<lparr>tl_right_next := None\<rparr>) h);
     h \<leftarrow> upd_tl c (\<lambda>m. m\<lparr>tl_left_prev := None\<rparr>) h;
     n \<leftarrow> tlnodes h c;
     collect_split (tl_right_next n) (Suc idx) arr h })"

partial_function (option) build_array_of_leaves ::
  "tl_ptr option \<Rightarrow> nat \<Rightarrow> nat \<Rightarrow> tl_ptr list \<Rightarrow> om_heap \<Rightarrow> (tl_ptr list \<times> om_heap) proc" where
  "build_array_of_leaves q left_index right_index arr h = do {
     p \<leftarrow> q;
     n \<leftarrow> tlnodes h p;
     (arr, h) \<leftarrow> (if is_leaf n then
         (if tl_num_leaves n = 1 then do {
            arr \<leftarrow> store_at left_index p arr;
            assert_c (left_index + 1 = right_index);
            Some (arr, h) }
          else do {
            sp \<leftarrow> split_nodes_of n;
            (idx, arr, h) \<leftarrow> collect_split sp left_index arr h;
            assert_c (idx = right_index);
            Some (arr, h) })
       else do {
         l \<leftarrow> tl_left_prev n;
         ln \<leftarrow> tlnodes h l;
         let mid = left_index + tl_num_leaves ln;
         (arr, h) \<leftarrow> build_array_of_leaves (Some l) left_index mid arr h;
         n \<leftarrow> tlnodes h p;
         (arr, h) \<leftarrow> build_array_of_leaves (tl_right_next n) mid right_index arr h;
         h \<leftarrow> upd_tl p (\<lambda>n. n\<lparr>tl_left_prev := None, tl_right_next := None\<rparr>) h;
         Some (arr, h) });
     n \<leftarrow> tlnodes h p;
     assert_c (tl_left_prev n = None);
     assert_c (tl_right_next n = None);
     h \<leftarrow> (if tl_needs_rebalance n then tl_node_free p h else Some h);
     Some (arr, h) }"

section \<open>Rebuilding a subtree\<close>

text \<open>The middle label \<^verbatim>\<open>llab + ((rlab - llab) / 2 + 1) - 1\<close>.\<close>

definition mid_label :: "label_t \<Rightarrow> label_t \<Rightarrow> label_t" where
  "mid_label llab rlab = llab + (drop_bit 1 (rlab - llab) + 1) - 1"

partial_function (option) rebuild_recursive ::
  "tl_ptr \<Rightarrow> tl_ptr list \<Rightarrow> nat \<Rightarrow> nat \<Rightarrow> label_t \<Rightarrow> label_t \<Rightarrow> om_heap \<Rightarrow> (tl_ptr \<times> om_heap) proc" where
  "rebuild_recursive par arr lindex rindex llab rlab h = (let size = rindex - lindex in do {
     (n, h) \<leftarrow> (if size = 1 then (if lindex < length arr then Some (arr ! lindex, h) else None)
                else Some (tl_node_new h));
     h \<leftarrow> upd_tl n (\<lambda>x. x\<lparr>tl_parent := Some par, tl_needs_rebalance := False\<rparr>) h;
     assert_c (llab \<le> rlab);
     h \<leftarrow> (if size = 1 then do {
            assert_c (arr ! lindex = n);
            upd_tl n (\<lambda>x. x\<lparr>tl_label := llab, tl_level := MAX_LEVEL, tl_left_prev := None,
                            tl_right_next := None, tl_num_leaves := 1\<rparr>) h }
          else do {
            pn \<leftarrow> tlnodes h par;
            h \<leftarrow> upd_tl n (\<lambda>x. x\<lparr>tl_level := tl_level pn + 1\<rparr>) h;
            let mindex = lindex + (size - size div 2);
            let mlab = mid_label llab rlab;
            (l, h) \<leftarrow> rebuild_recursive n arr lindex mindex llab mlab h;
            h \<leftarrow> upd_tl n (\<lambda>x. x\<lparr>tl_left_prev := Some l\<rparr>) h;
            (r, h) \<leftarrow> rebuild_recursive n arr mindex rindex (mlab + 1) rlab h;
            h \<leftarrow> upd_tl n (\<lambda>x. x\<lparr>tl_right_next := Some r\<rparr>) h;
            h \<leftarrow> upd_tl n (\<lambda>x. x\<lparr>tl_label := rlab, tl_num_leaves := size\<rparr>) h;
            assert_c (rlab mod 2 = 1);
            Some h });
     Some (n, h) })"

text \<open>A leaf that was split becomes an inner node: its label and level come from its place.\<close>

definition leaf_to_inner :: "tl_ptr \<Rightarrow> om_heap \<Rightarrow> om_heap proc" where
  "leaf_to_inner p h = do {
     h \<leftarrow> upd_tl p (\<lambda>n. n\<lparr>tl_below := Nothing_below\<rparr>) h;
     n \<leftarrow> tlnodes h p;
     (case tl_parent n of
        Some q \<Rightarrow> do {
          pn \<leftarrow> tlnodes h q;
          h \<leftarrow> (if tl_right_next pn = Some p then upd_tl p (\<lambda>n. n\<lparr>tl_label := tl_label pn\<rparr>) h
               else do {
                 ll \<leftarrow> range_left pn;
                 upd_tl p (\<lambda>n. n\<lparr>tl_label := drop_bit 1 (range_right pn - ll) + ll\<rparr>) h });
          upd_tl p (\<lambda>n. n\<lparr>tl_level := tl_level pn + 1\<rparr>) h }
      | None \<Rightarrow> upd_tl p (\<lambda>n. n\<lparr>tl_level := 0, tl_label := MAX_LABEL\<rparr>) h) }"

text \<open>The end of \<^verbatim>\<open>rebuild\<close>: two balanced subtrees over the array of leaves.\<close>

definition rebuild_children :: "tl_ptr \<Rightarrow> tl_ptr list \<Rightarrow> nat \<Rightarrow> om_heap \<Rightarrow> om_heap proc" where
  "rebuild_children p arr array_size h = do {
     h \<leftarrow> upd_tl p (\<lambda>n. n\<lparr>tl_left_prev := None, tl_right_next := None\<rparr>) h;
     n \<leftarrow> tlnodes h p;
     llab \<leftarrow> range_left n;
     let rlab = tl_label n;
     assert_c (rlab mod 2 = 1);
     let mindex = array_size - array_size div 2;
     let mlab = mid_label llab rlab;
     (l, h) \<leftarrow> rebuild_recursive p arr 0 mindex llab mlab h;
     h \<leftarrow> upd_tl p (\<lambda>n. n\<lparr>tl_left_prev := Some l\<rparr>) h;
     (r, h) \<leftarrow> rebuild_recursive p arr mindex array_size (mlab + 1) rlab h;
     upd_tl p (\<lambda>n. n\<lparr>tl_right_next := Some r\<rparr>) h }"

definition rebuild :: "tl_ptr \<Rightarrow> om_heap \<Rightarrow> om_heap proc" where
  "rebuild p h = do {
     n \<leftarrow> tlnodes h p;
     let array_size = tl_num_leaves n;
     let was_leaf = (tl_left_prev n = None \<and> tl_right_next n = None);
     (arr, h) \<leftarrow> build_array_of_leaves (Some p) 0 array_size (replicate array_size 0) h;
     h \<leftarrow> (if was_leaf then leaf_to_inner p h else Some h);
     rebuild_children p arr array_size h }"

partial_function (option) rebalance ::
  "machine \<Rightarrow> tl_ptr option \<Rightarrow> nat \<Rightarrow> om_heap \<Rightarrow> om_heap proc" where
  "rebalance M q ht h = (case q of None \<Rightarrow> Some h | Some p \<Rightarrow> do {
     n \<leftarrow> tlnodes h p;
     (if \<not> tl_needs_rebalance n then Some h else do {
        h \<leftarrow> upd_tl p (\<lambda>n. n\<lparr>tl_needs_rebalance := False\<rparr>) h;
        n \<leftarrow> tlnodes h p;
        (if is_leaf n then rebuild p h else do {
           assert_c (unat (capacity M n) \<ge> tl_num_leaves n);
           l \<leftarrow> tl_left_prev n;
           ln \<leftarrow> tlnodes h l;
           heavy \<leftarrow> (if too_heavy M ln ht then Some True
                    else (case tl_right_next n of None \<Rightarrow> Some False
                          | Some r \<Rightarrow> do { rn \<leftarrow> tlnodes h r; Some (too_heavy M rn ht) }));
           (if heavy then rebuild p h else do {
              h \<leftarrow> rebalance M (Some l) ht h;
              n \<leftarrow> tlnodes h p;
              rebalance M (tl_right_next n) ht h }) }) }) })"

section \<open>The relabelling pass\<close>

fun log2_floor :: "nat \<Rightarrow> nat" where
  "log2_floor n = (if n < 2 then 0 else Suc (log2_floor (n div 2)))"

declare log2_floor.simps [simp del]

text \<open>\<^verbatim>\<open>FAST_LOG2_CEIL\<close>, for a count between 1 and \<open>2^31 - 1\<close>.\<close>

definition FAST_LOG2_CEIL :: "nat \<Rightarrow> nat" where
  "FAST_LOG2_CEIL x = (if x - 2 ^ log2_floor x \<noteq> 0 then log2_floor x + 1 else log2_floor x)"

text \<open>The walk from a split leaf to the root, which returns the height reached.\<close>

partial_function (option) add_leaves_up ::
  "tl_ptr option \<Rightarrow> nat \<Rightarrow> nat \<Rightarrow> om_heap \<Rightarrow> (nat \<times> om_heap) proc" where
  "add_leaves_up cur extra ht h = (case cur of None \<Rightarrow> Some (ht, h) | Some p \<Rightarrow> do {
     h \<leftarrow> upd_tl p (\<lambda>n. n\<lparr>tl_num_leaves := (tl_num_leaves n + extra) mod 2 ^ 64,
                            tl_needs_rebalance := True\<rparr>) h;
     n \<leftarrow> tlnodes h p;
     add_leaves_up (tl_parent n) extra (Suc ht) h })"

definition split_heavy :: "om \<Rightarrow> tl_ptr \<Rightarrow> om_heap \<Rightarrow> (om \<times> om_heap) proc" where
  "split_heavy self current h = do {
     c \<leftarrow> tlnodes h current;
     assert_c (tl_level c = MAX_LEVEL);
     assert_c (tl_parent c \<noteq> None \<or> current = om_root self);
     assert_c (tl_left_prev c = None \<and> tl_right_next c = None);
     b \<leftarrow> below_list c;
     (num, h) \<leftarrow> split b h;
     (if num > 1 then do {
        h \<leftarrow> upd_tl current (\<lambda>n. n\<lparr>tl_left_prev := None, tl_right_next := None\<rparr>) h;
        (ht, h) \<leftarrow> add_leaves_up (Some current) (num - 1) (FAST_LOG2_CEIL num - 1) h;
        Some (self\<lparr>om_height := max (om_height self) ht\<rparr>, h) }
      else do {
        h \<leftarrow> upd_tl current (\<lambda>n. n\<lparr>tl_needs_rebalance := False\<rparr>) h;
        c \<leftarrow> tlnodes h current;
        sp \<leftarrow> split_nodes_of c;
        s \<leftarrow> sp;
        sn \<leftarrow> tlnodes h s;
        lst \<leftarrow> below_list sn;
        h \<leftarrow> upd_tl s (\<lambda>n. n\<lparr>tl_level := MAX_LEVEL\<rparr>) h;
        h \<leftarrow> tl_node_free s h;
        h \<leftarrow> upd_tl current (\<lambda>n. n\<lparr>tl_below := Below lst\<rparr>) h;
        h \<leftarrow> upd_blist lst (\<lambda>l. l\<lparr>bl_above := Some current\<rparr>) h;
        Some (self, h) }) }"

primrec split_all :: "om \<Rightarrow> tl_ptr list \<Rightarrow> om_heap \<Rightarrow> (om \<times> om_heap) proc" where
  "split_all self [] h = Some (self, h)"
| "split_all self (c # cs) h = do { (self, h) \<leftarrow> split_heavy self c h; split_all self cs h }"

text \<open>
  \<^verbatim>\<open>om_relabel\<close>. A root count that wrapped below its old value means the structure is full and
  the process exits. \<^verbatim>\<open>MAX_LABEL + 1\<close> is 0, so the second test of the source never fires.
\<close>

definition om_relabel :: "machine \<Rightarrow> om \<Rightarrow> tl_ptr list \<Rightarrow> om_heap \<Rightarrow> (om \<times> om_heap) proc" where
  "om_relabel M self heavy_lists h = do {
     r0 \<leftarrow> tlnodes h (om_root self);
     (self, h) \<leftarrow> split_all self heavy_lists h;
     r \<leftarrow> tlnodes h (om_root self);
     assert_c (\<not> (tl_num_leaves r < tl_num_leaves r0 \<or>
        (MAX_LABEL + 1 \<noteq> 0 \<and> tl_num_leaves r > unat (MAX_LABEL + 1))));
     h \<leftarrow> rebalance M (Some (om_root self)) (om_height self) h;
     Some (self, h) }"

end
