(* ===== verification/Om_Inv.thy ===== *)
theory Om_Inv
  imports Om_Tree
begin

text \<open>
  The invariant of the whole order-maintenance structure and the operations that keep the tree
  as it is. An \<open>ltree\<close> is the shape of the top tree with the content of its leaves: a leaf has
  its tree node, its list and the nodes of the list; a split leaf, which exists only inside a
  relabelling, has one such triple per chunk. The total order that the structure represents is
  the concatenation of the lists from left to right.
\<close>

type_synonym leaf_desc = "tl_ptr \<times> blist_ptr \<times> node_ptr list"

datatype ltree =
    Leaf tl_ptr blist_ptr "node_ptr list"
  | Split tl_ptr "leaf_desc list"
  | Inner tl_ptr ltree ltree

fun root_ptr :: "ltree \<Rightarrow> tl_ptr" where
  "root_ptr (Leaf p b xs) = p"
| "root_ptr (Split p cs) = p"
| "root_ptr (Inner p l r) = p"

fun flat :: "ltree \<Rightarrow> leaf_desc list" where
  "flat (Leaf p b xs) = [(p, b, xs)]"
| "flat (Split p cs) = cs"
| "flat (Inner p l r) = flat l @ flat r"

fun dirty :: "ltree \<Rightarrow> bool" where
  "dirty (Leaf p b xs) = False"
| "dirty (Split p cs) = True"
| "dirty (Inner p l r) = (dirty l \<or> dirty r)"

fun tnodes :: "ltree \<Rightarrow> tl_ptr list" where
  "tnodes (Leaf p b xs) = [p]"
| "tnodes (Split p cs) = p # map fst cs"
| "tnodes (Inner p l r) = p # tnodes l @ tnodes r"

definition om_order :: "ltree \<Rightarrow> node_ptr list" where
  "om_order t = concat (map (\<lambda>(p, b, xs). xs) (flat t))"

definition om_lists :: "ltree \<Rightarrow> blist_ptr list" where
  "om_lists t = map (\<lambda>(p, b, xs). b) (flat t)"

text \<open>The chain of tree nodes that \<^verbatim>\<open>split\<close> leaves below a split leaf.\<close>

fun split_chain :: "om_heap \<Rightarrow> tl_ptr option \<Rightarrow> leaf_desc list \<Rightarrow> bool" where
  "split_chain h prv [] = True"
| "split_chain h prv ((q, b, xs) # cs) = (case tlnodes h q of None \<Rightarrow> False
     | Some n \<Rightarrow> tl_level n = MAX_LEVEL \<and> tl_num_leaves n = 1 \<and> tl_left_prev n = prv \<and>
         tl_right_next n = (case cs of [] \<Rightarrow> None | (q', _, _) # _ \<Rightarrow> Some q') \<and>
         tl_below n = Below b \<and> split_chain h (Some q) cs)"

text \<open>
  \<open>trep h par v lo t\<close>: the tree nodes of the heap form \<open>t\<close>, below the parent \<open>par\<close>, at level
  \<open>v\<close> and with the label range that starts at \<open>lo\<close> and has \<open>2^(64-v)\<close> labels.
\<close>

fun trep :: "om_heap \<Rightarrow> tl_ptr option \<Rightarrow> nat \<Rightarrow> nat \<Rightarrow> ltree \<Rightarrow> bool" where
  "trep h par v lo (Leaf p b xs) = (case tlnodes h p of None \<Rightarrow> False
     | Some n \<Rightarrow> v \<le> MAX_LEVEL \<and> tl_level n = MAX_LEVEL \<and> unat (tl_label n) = lo \<and> tl_num_leaves n = 1 \<and>
         tl_parent n = par \<and> tl_left_prev n = None \<and> tl_right_next n = None \<and>
         \<not> tl_needs_rebalance n \<and> tl_below n = Below b)"
| "trep h par v lo (Split p cs) = (case tlnodes h p of None \<Rightarrow> False
     | Some n \<Rightarrow> v \<le> MAX_LEVEL \<and> tl_level n = MAX_LEVEL \<and> unat (tl_label n) = lo \<and>
         tl_num_leaves n = length cs \<and> 1 < length cs \<and>
         tl_parent n = par \<and> tl_left_prev n = None \<and> tl_right_next n = None \<and>
         tl_needs_rebalance n \<and> tl_below n = Split_nodes (fst (hd cs)) \<and> split_chain h None cs)"
| "trep h par v lo (Inner p l r) = (case tlnodes h p of None \<Rightarrow> False
     | Some n \<Rightarrow> v < MAX_LEVEL \<and> tl_level n = v \<and> unat (tl_label n) = lo + 2 ^ (MAX_LEVEL - v) - 1 \<and>
         tl_num_leaves n = length (flat l) + length (flat r) \<and>
         tl_parent n = par \<and> tl_left_prev n = Some (root_ptr l) \<and> tl_right_next n = Some (root_ptr r) \<and>
         (tl_needs_rebalance n \<longleftrightarrow> dirty l \<or> dirty r) \<and>
         trep h (Some p) (Suc v) lo l \<and> trep h (Some p) (Suc v) (lo + 2 ^ (MAX_LEVEL - Suc v)) r)"

definition leaf_ok :: "om_heap \<Rightarrow> leaf_desc \<Rightarrow> bool" where
  "leaf_ok h = (\<lambda>(p, b, xs). blist_inv h b xs \<and>
     (case blists h b of None \<Rightarrow> False | Some l \<Rightarrow> bl_above l = Some p))"

definition tree_ok :: "om_heap \<Rightarrow> ltree \<Rightarrow> bool" where
  "tree_ok h t \<longleftrightarrow> trep h None 0 0 t \<and> (\<forall>d\<in>set (flat t). leaf_ok h d) \<and>
     distinct (tnodes t) \<and> distinct (om_lists t) \<and> distinct (om_order t)"

text \<open>The invariant of an \<^verbatim>\<open>om\<close> between operations.\<close>

definition om_inv :: "om_heap \<Rightarrow> om \<Rightarrow> ltree \<Rightarrow> bool" where
  "om_inv h self t \<longleftrightarrow> heap_ok h \<and> tree_ok h t \<and> \<not> dirty t \<and> om_root self = root_ptr t"

section \<open>Elimination and framing\<close>

lemma trep_Leaf: "trep h par v lo (Leaf p b xs) \<longleftrightarrow> (\<exists>n. tlnodes h p = Some n \<and> v \<le> MAX_LEVEL \<and>
    tl_level n = MAX_LEVEL \<and> unat (tl_label n) = lo \<and> tl_num_leaves n = 1 \<and> tl_parent n = par \<and>
    tl_left_prev n = None \<and> tl_right_next n = None \<and> \<not> tl_needs_rebalance n \<and> tl_below n = Below b)"
  by (cases "tlnodes h p") auto

lemma trep_Split: "trep h par v lo (Split p cs) \<longleftrightarrow> (\<exists>n. tlnodes h p = Some n \<and> v \<le> MAX_LEVEL \<and>
    tl_level n = MAX_LEVEL \<and> unat (tl_label n) = lo \<and> tl_num_leaves n = length cs \<and> 1 < length cs \<and>
    tl_parent n = par \<and> tl_left_prev n = None \<and> tl_right_next n = None \<and> tl_needs_rebalance n \<and>
    tl_below n = Split_nodes (fst (hd cs)) \<and> split_chain h None cs)"
  by (cases "tlnodes h p") auto

lemma trep_Inner: "trep h par v lo (Inner p l r) \<longleftrightarrow> (\<exists>n. tlnodes h p = Some n \<and> v < MAX_LEVEL \<and>
    tl_level n = v \<and> unat (tl_label n) = lo + 2 ^ (MAX_LEVEL - v) - 1 \<and>
    tl_num_leaves n = length (flat l) + length (flat r) \<and> tl_parent n = par \<and>
    tl_left_prev n = Some (root_ptr l) \<and> tl_right_next n = Some (root_ptr r) \<and>
    (tl_needs_rebalance n \<longleftrightarrow> dirty l \<or> dirty r) \<and> trep h (Some p) (Suc v) lo l \<and>
    trep h (Some p) (Suc v) (lo + 2 ^ (MAX_LEVEL - Suc v)) r)"
  by (cases "tlnodes h p") auto

lemma split_chain_Cons: "split_chain h prv ((q, b, xs) # cs) \<longleftrightarrow> (\<exists>n. tlnodes h q = Some n \<and>
    tl_level n = MAX_LEVEL \<and> tl_num_leaves n = 1 \<and> tl_left_prev n = prv \<and>
    tl_right_next n = (case cs of [] \<Rightarrow> None | (q', _, _) # _ \<Rightarrow> Some q') \<and>
    tl_below n = Below b \<and> split_chain h (Some q) cs)"
  by (cases "tlnodes h q") auto

declare trep.simps [simp del] split_chain.simps(2) [simp del]

lemmas trep_iffs = trep_Leaf trep_Split trep_Inner

lemma split_chain_frame:
  "\<forall>q\<in>set (map fst cs). tlnodes h' q = tlnodes h q \<Longrightarrow> split_chain h' prv cs = split_chain h prv cs"
  by (induction cs arbitrary: prv) (auto simp: split_chain_Cons)

lemma trep_frame:
  "\<forall>q\<in>set (tnodes t). tlnodes h' q = tlnodes h q \<Longrightarrow> trep h' par v lo t = trep h par v lo t"
proof (induction t arbitrary: par v lo)
  case (Split p cs)
  then show ?case using split_chain_frame [of cs h' h] by (auto simp: trep_Split)
qed (auto simp: trep_iffs)

lemma trep_root: "trep h par v lo t \<Longrightarrow> \<exists>n. tlnodes h (root_ptr t) = Some n \<and> tl_parent n = par \<and>
    tl_num_leaves n = length (flat t) \<and> (tl_needs_rebalance n \<longleftrightarrow> dirty t)"
  by (cases t) (auto simp: trep_iffs)

lemma split_chain_alloc: "split_chain h prv cs \<Longrightarrow> q \<in> fst ` set cs \<Longrightarrow> \<exists>n. tlnodes h q = Some n"
  by (induction cs arbitrary: prv) (force simp: split_chain_Cons)+

lemma trep_alloc: "trep h par v lo t \<Longrightarrow> q \<in> set (tnodes t) \<Longrightarrow> \<exists>n. tlnodes h q = Some n"
proof (induction t arbitrary: par v lo)
  case (Split p cs)
  then show ?case using split_chain_alloc [of h None cs q] by (auto simp: trep_Split)
next
  case (Inner p l r)
  then show ?case unfolding trep_Inner tnodes.simps by (metis Un_iff set_ConsD set_append)
qed (auto simp: trep_iffs)

lemma root_in_tnodes [simp]: "root_ptr t \<in> set (tnodes t)"
  by (cases t) auto

lemma leaf_in_tnodes: "(p, b, xs) \<in> set (flat t) \<Longrightarrow> p \<in> set (tnodes t)"
  by (induction t) (auto simp: rev_image_eqI)

lemma flat_pos: "trep h par v lo t \<Longrightarrow> 0 < length (flat t)"
  by (induction t arbitrary: par v lo) (auto simp: trep_iffs)

lemma leaf_ok_iff: "leaf_ok h (p, b, xs) \<longleftrightarrow>
    blist_inv h b xs \<and> (\<exists>l. blists h b = Some l \<and> bl_above l = Some p)"
  by (cases "blists h b") (auto simp: leaf_ok_def)

lemma leaf_ok_frame:
  assumes "\<forall>x\<in>set xs. bnodes h' x = bnodes h x" "blists h' b = blists h b"
  shows "leaf_ok h' (p, b, xs) = leaf_ok h (p, b, xs)"
  using blist_inv_frame [OF assms] assms(2) by (simp add: leaf_ok_iff)

section \<open>The order on labels\<close>

text \<open>In a tree without split leaves, the labels of the leaves lie in the range and increase.\<close>

definition tl_lab :: "om_heap \<Rightarrow> tl_ptr \<Rightarrow> label_t" where
  "tl_lab h p = (case tlnodes h p of Some n \<Rightarrow> tl_label n | None \<Rightarrow> 0)"

lemma trep_leaf_node:
  assumes "trep h par v lo t" "\<not> dirty t" "(p, b, xs) \<in> set (flat t)"
  shows "\<exists>n. tlnodes h p = Some n \<and> tl_level n = MAX_LEVEL \<and> tl_below n = Below b \<and>
    lo \<le> unat (tl_label n) \<and> unat (tl_label n) < lo + 2 ^ (MAX_LEVEL - v)"
  using assms
proof (induction t arbitrary: par v lo)
  case (Inner q l r)
  from Inner.prems(1) have v: "v < MAX_LEVEL" by (auto simp: trep_Inner)
  then have e: "(2::nat) ^ (MAX_LEVEL - v) = 2 * 2 ^ (MAX_LEVEL - Suc v)"
    by (simp flip: power_Suc add: Suc_diff_Suc)
  from Inner.prems(3) consider "(p, b, xs) \<in> set (flat l)" | "(p, b, xs) \<in> set (flat r)" by auto
  then show ?case
    using Inner.prems(1,2) Inner.IH(1) [of "Some q" "Suc v" lo]
      Inner.IH(2) [of "Some q" "Suc v" "lo + 2 ^ (MAX_LEVEL - Suc v)"] e
    by cases (fastforce simp: trep_Inner)+
qed (auto simp: trep_iffs)

lemma trep_labels_sorted:
  assumes "trep h par v lo t" "\<not> dirty t"
  shows "sorted_wrt (<) (map (\<lambda>(p, b, xs). unat (tl_lab h p)) (flat t))"
  using assms
proof (induction t arbitrary: par v lo)
  case (Inner q l r)
  then have l: "trep h (Some q) (Suc v) lo l" "\<not> dirty l"
    and r: "trep h (Some q) (Suc v) (lo + 2 ^ (MAX_LEVEL - Suc v)) r" "\<not> dirty r"
    by (auto simp: trep_Inner)
  have "unat (tl_lab h p) < unat (tl_lab h p')"
    if "(p, b, xs) \<in> set (flat l)" "(p', b', xs') \<in> set (flat r)" for p b xs p' b' xs'
    using trep_leaf_node [OF l that(1)] trep_leaf_node [OF r that(2)] by (auto simp: tl_lab_def)
  then show ?case
    using Inner.IH(1) [OF l] Inner.IH(2) [OF r] by (auto simp: sorted_wrt_append)
qed (auto simp: trep_iffs)

section \<open>Where a node of the order is\<close>

lemma om_order_mem:
  "x \<in> set (om_order t) \<longleftrightarrow> (\<exists>p b xs. (p, b, xs) \<in> set (flat t) \<and> x \<in> set xs)"
  by (auto simp: om_order_def)

lemma above_of_leaf:
  assumes "leaf_ok h (p, b, xs)" "x \<in> set xs"
  shows "\<exists>n. bnodes h x = Some n \<and> bn_list n = Some b \<and> above_of h x = Some p"
proof -
  have "dll h b None xs None" using assms(1) by (auto simp: leaf_ok_iff blist_inv_iff)
  from dll_list [OF this assms(2)] show ?thesis
    using assms(1) by (auto simp: above_of_def leaf_ok_iff)
qed

lemma om_get_tl_spec:
  assumes "om_inv h self t" "(p, b, xs) \<in> set (flat t)" "x \<in> set xs"
  shows "om_get_tl h x = Some p"
proof -
  have t: "trep h None 0 0 t" "\<not> dirty t" "leaf_ok h (p, b, xs)"
    using assms(1,2) by (auto simp: om_inv_def tree_ok_def)
  from trep_leaf_node [OF t(1,2) assms(2)] above_of_leaf [OF t(3) assms(3)] show ?thesis
    by (auto simp: om_get_tl_def)
qed

section \<open>Comparing two nodes\<close>

text \<open>Positions in a concatenation: by segment first, then inside the segment.\<close>

lemma concat_order:
  assumes "distinct (concat xss)" "i < j" "j < length (concat xss)"
  shows "\<exists>a b. a \<le> b \<and> b < length xss \<and> concat xss ! i \<in> set (xss ! a) \<and>
    concat xss ! j \<in> set (xss ! b) \<and>
    (a = b \<longrightarrow> (\<exists>k l. k < l \<and> l < length (xss ! a) \<and> concat xss ! i = xss ! a ! k \<and>
       concat xss ! j = xss ! a ! l))"
  using assms
proof (induction xss arbitrary: i j)
  case (Cons xs xss)
  let ?n = "length xs"
  consider "j < ?n" | "i < ?n" "?n \<le> j" | "?n \<le> i" by linarith
  then show ?case
  proof cases
    case 1
    with Cons.prems show ?thesis
      by (intro exI [of _ 0] conjI impI exI [of _ i] exI [of _ j]) (auto simp: nth_append)
  next
    case 2
    then have "concat xss ! (j - ?n) \<in> set (concat xss)" using Cons.prems(3) by (intro nth_mem) auto
    then obtain b where "b < length xss" "concat xss ! (j - ?n) \<in> set (xss ! b)"
      by (metis (no_types, lifting) UN_E in_set_conv_nth set_concat)
    with 2 show ?thesis
      by (intro exI [of _ 0] exI [of _ "Suc b"]) (auto simp: nth_append)
  next
    case 3
    have d: "distinct (concat xss)" "i - ?n < j - ?n" "j - ?n < length (concat xss)"
      using Cons.prems 3 by auto
    from Cons.IH [OF d] obtain a b where ab: "a \<le> b" "b < length xss"
        "concat xss ! (i - ?n) \<in> set (xss ! a)" "concat xss ! (j - ?n) \<in> set (xss ! b)"
        "a = b \<longrightarrow> (\<exists>k l. k < l \<and> l < length (xss ! a) \<and> concat xss ! (i - ?n) = xss ! a ! k \<and>
          concat xss ! (j - ?n) = xss ! a ! l)"
      by blast
    with 3 Cons.prems(2) show ?thesis
      by (intro exI [of _ "Suc a"] exI [of _ "Suc b"]) (auto simp: nth_append)
  qed
qed simp

lemma om_precedes_lt:
  assumes "om_inv h self t" "i < j" "j < length (om_order t)"
  shows "om_precedes h (Some (om_order t ! i)) (Some (om_order t ! j)) = Some True \<and>
    om_precedes h (Some (om_order t ! j)) (Some (om_order t ! i)) = Some False"
proof -
  let ?xss = "map (\<lambda>(p, b, xs). xs) (flat t)"
  have t: "trep h None 0 0 t" "\<not> dirty t" "\<forall>d\<in>set (flat t). leaf_ok h d"
      "distinct (om_lists t)" "distinct (om_order t)"
    using assms(1) by (auto simp: om_inv_def tree_ok_def)
  obtain a c where ac: "a \<le> c" "c < length (flat t)" "om_order t ! i \<in> set (?xss ! a)"
      "om_order t ! j \<in> set (?xss ! c)"
      "a = c \<longrightarrow> (\<exists>k l. k < l \<and> l < length (?xss ! a) \<and> om_order t ! i = ?xss ! a ! k \<and>
         om_order t ! j = ?xss ! a ! l)"
    using concat_order [of ?xss i j, folded om_order_def, OF t(5) assms(2,3), unfolded length_map]
    by blast
  obtain pa ba xa where da: "flat t ! a = (pa, ba, xa)" by (cases "flat t ! a")
  obtain pc bc xc where dc: "flat t ! c = (pc, bc, xc)" by (cases "flat t ! c")
  have ma: "(pa, ba, xa) \<in> set (flat t)" using ac da by (metis le_less_trans nth_mem)
  have mc: "(pc, bc, xc) \<in> set (flat t)" using ac dc by (metis nth_mem)
  let ?x = "om_order t ! i" and ?y = "om_order t ! j"
  have xy: "?x \<in> set xa" "?y \<in> set xc" using ac da dc by auto
  obtain nx where nx: "bnodes h ?x = Some nx" "bn_list nx = Some ba" "above_of h ?x = Some pa"
    using above_of_leaf [of h pa ba xa] t(3) ma xy by blast
  obtain ny where ny: "bnodes h ?y = Some ny" "bn_list ny = Some bc" "above_of h ?y = Some pc"
    using above_of_leaf [of h pc bc xc] t(3) mc xy by blast
  show ?thesis
  proof (cases "a = c")
    case True
    then obtain k l where kl: "k < l" "l < length xa" "?x = xa ! k" "?y = xa ! l"
      using ac da by auto
    have "sorted_wrt (<) (map (bn_lab h) xa)"
      using t(3) ma by (auto simp: leaf_ok_iff blist_inv_iff)
    then have "bn_lab h (xa ! k) < bn_lab h (xa ! l)"
      using kl by (simp add: sorted_wrt_nth_iff)
    with nx ny kl True da dc show ?thesis by (auto simp: om_precedes_def)
  next
    case False
    with ac have "a < c" by simp
    then have "ba \<noteq> bc"
      using nth_eq_iff_index_eq [OF t(4), of a c] ac da dc by (simp add: om_lists_def)
    moreover have "unat (tl_lab h pa) < unat (tl_lab h pc)"
      using sorted_wrt_nth_less [OF trep_labels_sorted [OF t(1,2)] \<open>a < c\<close>] ac da dc by simp
    moreover obtain na where "tlnodes h pa = Some na"
      using trep_leaf_node [OF t(1,2) ma] by blast
    moreover obtain nc where "tlnodes h pc = Some nc"
      using trep_leaf_node [OF t(1,2) mc] by blast
    ultimately show ?thesis
      using nx ny by (auto simp: om_precedes_def tl_lab_def word_less_nat_alt)
  qed
qed

text \<open>\<^verbatim>\<open>om_precedes\<close> decides the position in the order.\<close>

lemma om_precedes_order:
  assumes "om_inv h self t" "i < length (om_order t)" "j < length (om_order t)"
  shows "om_precedes h (Some (om_order t ! i)) (Some (om_order t ! j)) = Some (i < j)"
proof (cases i j rule: linorder_cases)
  case equal
  have "om_order t ! i \<in> set (om_order t)" using assms by simp
  then obtain p b xs where d: "(p, b, xs) \<in> set (flat t)" "om_order t ! i \<in> set xs"
    unfolding om_order_mem by blast
  then have "leaf_ok h (p, b, xs)" using assms(1) by (auto simp: om_inv_def tree_ok_def)
  then obtain n where "bnodes h (om_order t ! i) = Some n" using above_of_leaf d(2) by blast
  with equal show ?thesis by (auto simp: om_precedes_def)
qed (use om_precedes_lt assms in auto)

section \<open>Inserting after a node\<close>

fun ins_tree :: "node_ptr \<Rightarrow> node_ptr \<Rightarrow> ltree \<Rightarrow> ltree" where
  "ins_tree b n (Leaf p l xs) = Leaf p l (insert_after b n xs)"
| "ins_tree b n (Split p cs) = Split p cs"
| "ins_tree b n (Inner p l r) = Inner p (ins_tree b n l) (ins_tree b n r)"

lemma ins_tree_simps [simp]:
  "root_ptr (ins_tree b n t) = root_ptr t" "tnodes (ins_tree b n t) = tnodes t"
  "dirty (ins_tree b n t) = dirty t" "length (flat (ins_tree b n t)) = length (flat t)"
  by (induction t) auto

lemma flat_ins_tree:
  "\<not> dirty t \<Longrightarrow> flat (ins_tree b n t) = map (\<lambda>(p, l, xs). (p, l, insert_after b n xs)) (flat t)"
  by (induction t) auto

lemma trep_ins_tree [simp]: "trep h par v lo (ins_tree b n t) = trep h par v lo t"
  by (induction t arbitrary: par v lo) (auto simp: trep_iffs)

lemma om_lists_ins_tree: "\<not> dirty t \<Longrightarrow> om_lists (ins_tree b n t) = om_lists t"
  by (simp add: om_lists_def flat_ins_tree comp_def case_prod_unfold)

lemma concat_insert_after:
  "distinct (concat xss) \<Longrightarrow> concat (map (insert_after b n) xss) = insert_after b n (concat xss)"
proof (induction xss)
  case (Cons xs xss)
  then have "b \<in> set xs \<Longrightarrow> map (insert_after b n) xss = xss" by (intro map_idI insert_after_absent) auto
  with Cons show ?case by (auto simp: insert_after_append)
qed simp

lemma om_order_ins_tree:
  assumes "\<not> dirty t" "distinct (om_order t)"
  shows "om_order (ins_tree b n t) = insert_after b n (om_order t)"
  using concat_insert_after [of "map (\<lambda>(p, b, xs). xs) (flat t)" b n] assms
  by (simp add: om_order_def flat_ins_tree comp_def case_prod_unfold)

lemma leaf_disjoint:
  assumes "distinct (om_order t)" "(p, b, xs) \<in> set (flat t)" "(p', b', xs') \<in> set (flat t)"
    "x \<in> set xs" "x \<in> set xs'"
  shows "(p, b, xs) = (p', b', xs')"
proof -
  have "y = z" if "distinct (concat (map f ys))" "y \<in> set ys" "z \<in> set ys" "x \<in> set (f y)" "x \<in> set (f z)"
    for ys :: "leaf_desc list" and f y z
    using that by (induction ys) auto
  from this [OF assms(1) [unfolded om_order_def] assms(2,3)] assms(4,5) show ?thesis by simp
qed

lemma lists_disjoint:
  assumes "distinct (om_lists t)" "(p, b, xs) \<in> set (flat t)" "(p', b, xs') \<in> set (flat t)"
  shows "(p, b, xs) = (p', b, xs')"
proof -
  have "y = z" if "distinct (map f ys)" "y \<in> set ys" "z \<in> set ys" "f y = f z"
    for ys :: "leaf_desc list" and f :: "leaf_desc \<Rightarrow> blist_ptr" and y z
    using that by (auto simp: distinct_map inj_on_def)
  from this [OF assms(1) [unfolded om_lists_def] assms(2,3)] show ?thesis by simp
qed

lemma om_insert_spec:
  assumes inv: "om_inv h self t" and base: "base \<in> set (om_order t)"
  shows "\<exists>r h'. om_insert w base h = Some (r, h') \<and>
    (case r of None \<Rightarrow> h' = h
     | Some n \<Rightarrow> n \<notin> set (om_order t) \<and> om_inv h' self (ins_tree base n t) \<and>
         om_order (ins_tree base n t) = insert_after base n (om_order t))"
proof -
  have ok: "heap_ok h" "trep h None 0 0 t" "\<not> dirty t" "\<forall>d\<in>set (flat t). leaf_ok h d"
      "distinct (tnodes t)" "distinct (om_lists t)" "distinct (om_order t)" "om_root self = root_ptr t"
    using inv by (auto simp: om_inv_def tree_ok_def)
  obtain p b xs where d: "(p, b, xs) \<in> set (flat t)" "base \<in> set xs"
    using base unfolding om_order_mem by blast
  have leaf: "leaf_ok h (p, b, xs)" using ok(4) d(1) by blast
  then have bl: "blist_inv h b xs" by (simp add: leaf_ok_iff)
  obtain us vs where xs: "xs = us @ base # vs" using d(2) by (auto simp: in_set_conv_decomp)
  have nus: "base \<notin> set us" using blist_inv_distinct [OF bl] xs by auto
  obtain m where m: "bnodes h base = Some m" "bn_list m = Some b" "above_of h base = Some p"
    using above_of_leaf [OF leaf d(2)] by blast
  obtain tn where tn: "tlnodes h p = Some tn" "tl_level tn = MAX_LEVEL" "tl_below tn = Below b"
    using trep_leaf_node [OF ok(2,3) d(1)] by blast
  have blx: "blist_inv h b (us @ base # vs)" using bl xs by simp
  show ?thesis
  proof (cases "label_after h base vs = 0")
    case True
    then have "bl_insert w b base h = Some (None, h)" by (rule bl_insert_full [OF blx])
    with m tn show ?thesis
      by (intro exI [of _ None] exI [of _ h]) (simp add: om_insert_def below_list_def)
  next
    case False
    let ?n = "fresh h" and ?h = "inserted h b base (label_after h base vs) vs"
    have run: "bl_insert w b base h = Some (Some ?n, ?h)" by (rule bl_insert_run [OF blx ok(1) False])
    have inv': "blist_inv ?h b (us @ base # ?n # vs)" by (rule inserted_inv [OF blx ok(1) False])
    have lt: "y < fresh h" if "(p', b', ys) \<in> set (flat t)" "y \<in> set ys" for p' b' ys y
    proof -
      have "blist_inv h b' ys" using ok(4) that(1) by (auto simp: leaf_ok_iff)
      then show ?thesis by (rule blist_inv_not_fresh [OF _ ok(1) that(2)])
    qed
    have hok: "heap_ok ?h"
      using lt [OF d(1)] xs ok(1) by (intro heap_ok_inserted) auto
    have nn: "?n \<notin> set (om_order t)" using lt unfolding om_order_mem by blast
    have lab: "bn_lab ?h base < bn_lab ?h ?n"
      using inv' by (auto simp: blist_inv_iff sorted_wrt_append)
    have leaves: "leaf_ok ?h d'" if d': "d' \<in> set (flat (ins_tree base ?n t))" for d'
    proof -
      obtain p' b' ys where e: "d' = (p', b', insert_after base ?n ys)" "(p', b', ys) \<in> set (flat t)"
        using d' flat_ins_tree [OF ok(3)] by auto
      show ?thesis
      proof (cases "b' = b")
        case True
        then have "p' = p" "ys = xs" using lists_disjoint [OF ok(6) d(1)] e(2) by auto
        moreover have "\<exists>l. blists ?h b = Some l \<and> bl_above l = Some p"
          using leaf by (auto simp: inserted_def Let_def leaf_ok_iff split: list.splits)
        ultimately show ?thesis
          using inv' e(1) True xs insert_after_split [OF nus] by (simp add: leaf_ok_iff)
      next
        case False
        then have nb: "y \<notin> set xs" if "y \<in> set ys" for y
          using leaf_disjoint [OF ok(7) e(2) d(1) that] by auto
        then have "insert_after base ?n ys = ys" using d(2) by (intro insert_after_absent) auto
        moreover have "leaf_ok ?h (p', b', ys) = leaf_ok h (p', b', ys)"
          using nb lt [OF e(2)] xs False
          by (intro leaf_ok_frame ballI inserted_frame) force+
        ultimately show ?thesis using e ok(4) by auto
      qed
    qed
    have "trep ?h None 0 0 t"
      using trep_frame [of t ?h h] ok(2) by (simp add: inserted_frame)
    then have "om_inv ?h self (ins_tree base ?n t)"
      using ok hok leaves nn om_lists_ins_tree [OF ok(3)] om_order_ins_tree [OF ok(3,7)]
      by (auto simp: om_inv_def tree_ok_def distinct_insert_after)
    moreover have "om_insert w base h = Some (Some ?n, ?h)"
    proof -
      obtain y where "bnodes ?h ?n = Some y" using blist_inv_alloc [OF inv'] by fastforce
      moreover obtain z where "bnodes ?h base = Some z" using blist_inv_alloc [OF inv'] by fastforce
      ultimately show ?thesis
        using m tn run lab by (simp add: om_insert_def below_list_def)
    qed
    ultimately show ?thesis
      using nn om_order_ins_tree [OF ok(3,7)] by (intro exI [of _ "Some ?n"] exI [of _ ?h]) simp
  qed
qed

section \<open>Creation and the first node\<close>

lemma om_create_spec:
  assumes "heap_ok h"
  shows "\<exists>self h'. om_create h = Some (self, h') \<and> om_inv h' self (Leaf (om_root self) (Suc (fresh h)) [])"
  using assms
  by (auto simp: om_create_def tl_node_new_def bl_new_def bl_create_def upd_tl_def upd_blist_def
      om_inv_def tree_ok_def trep_iffs leaf_ok_iff blist_inv_iff heap_ok_def om_lists_def om_order_def
      Let_def)

lemma om_insert_initial_spec:
  assumes "om_inv h self (Leaf p b [])"
  shows "\<exists>n h'. om_insert_initial self h = Some (n, h') \<and> om_inv h' self (Leaf p b [n])"
proof -
  have ok: "heap_ok h" "trep h None 0 0 (Leaf p b [])" "leaf_ok h (p, b, [])" "om_root self = p"
    using assms by (auto simp: om_inv_def tree_ok_def)
  obtain tn where tn: "tlnodes h p = Some tn" "tl_num_leaves tn = 1" "tl_below tn = Below b"
    using ok(2) by (auto simp: trep_iffs)
  obtain l where l: "blists h b = Some l" "bl_head l = None" "bl_above l = Some p"
    using ok(3) by (auto simp: leaf_ok_iff blist_inv_iff)
  have "\<exists>h'. bl_insert_initial b h = Some (fresh h, h') \<and> blist_inv h' b [fresh h] \<and> heap_ok h' \<and>
      tlnodes h' = tlnodes h \<and> (\<exists>l'. blists h' b = Some l' \<and> bl_above l' = Some p)"
    using l ok(1)
    by (auto simp: bl_insert_initial_def insert_internal_def node_new_def upd_bnode_def upd_blist_def
      blist_inv_iff dll_Cons quiet_def heap_ok_def)
  then obtain h' where h': "bl_insert_initial b h = Some (fresh h, h')" "blist_inv h' b [fresh h]"
      "heap_ok h'" "tlnodes h' = tlnodes h" "leaf_ok h' (p, b, [fresh h])"
    by (auto simp: leaf_ok_iff)
  moreover obtain x where "bnodes h' (fresh h) = Some x" "bn_list x = Some b"
    using h'(2) by (auto simp: blist_inv_iff dll_Cons)
  ultimately have "om_insert_initial self h = Some (fresh h, h')"
    using tn ok(4) by (simp add: om_insert_initial_def below_list_def)
  moreover have "trep h' None 0 0 (Leaf p b [fresh h])"
    using ok(2) h'(4) by (simp add: trep_iffs)
  then have "om_inv h' self (Leaf p b [fresh h])"
    using h' ok(4) by (simp add: om_inv_def tree_ok_def om_lists_def om_order_def)
  ultimately show ?thesis by blast
qed

section \<open>The verifier accepts the invariant\<close>

lemma verify_trep:
  assumes "trep h par v lo t" "\<not> dirty t" "\<forall>d\<in>set (flat t). leaf_ok h d"
    "\<forall>(p, b, xs)\<in>set (flat t). xs \<noteq> [] \<or> (\<exists>l. blists h b = Some l \<and> bl_heavy l = 0)"
  shows "verify h (Some (root_ptr t)) = Some (length (flat t))"
  using assms
proof (induction t arbitrary: par v lo)
  case (Leaf p b xs)
  have "verify h None = Some 0" by (simp add: verify.simps)
  moreover have "bl_verify h b = Some 0"
    using Leaf.prems by (intro bl_verify_inv [of h b xs]) (auto simp: leaf_ok_iff)
  ultimately show ?case
    using Leaf.prems
    by (subst verify.simps) (auto simp: trep_iffs parent_is_def below_list_def leaf_ok_iff)
next
  case (Split p cs)
  then show ?case by simp
next
  case (Inner p l r)
  obtain n where n: "tlnodes h p = Some n" "tl_level n = v" "v < MAX_LEVEL"
      "tl_num_leaves n = length (flat l) + length (flat r)"
      "tl_left_prev n = Some (root_ptr l)" "tl_right_next n = Some (root_ptr r)"
      "trep h (Some p) (Suc v) lo l" "trep h (Some p) (Suc v) (lo + 2 ^ (MAX_LEVEL - Suc v)) r"
    using Inner.prems(1) by (auto simp: trep_Inner)
  moreover have "verify h (Some (root_ptr l)) = Some (length (flat l))"
    using Inner.prems n by (intro Inner.IH(1)) auto
  moreover have "verify h (Some (root_ptr r)) = Some (length (flat r))"
    using Inner.prems n by (intro Inner.IH(2)) auto
  ultimately show ?case
    using trep_root [OF n(7)] trep_root [OF n(8)]
    by (subst verify.simps) (auto simp: parent_is_def)
qed

lemma om_verify_inv:
  assumes "om_inv h self t"
    "\<forall>(p, b, xs)\<in>set (flat t). xs \<noteq> [] \<or> (\<exists>l. blists h b = Some l \<and> bl_heavy l = 0)"
  shows "om_verify self h = Some 0"
proof -
  have t: "trep h None 0 0 t" "\<not> dirty t" "\<forall>d\<in>set (flat t). leaf_ok h d" "om_root self = root_ptr t"
    using assms(1) by (auto simp: om_inv_def tree_ok_def)
  from verify_trep [OF t(1-3) assms(2)] trep_root [OF t(1)] t(4) show ?thesis
    by (auto simp: om_verify_def)
qed

section \<open>Memory use and destruction\<close>

fun tree_size :: "ltree \<Rightarrow> nat" where
  "tree_size (Leaf p b xs) = sizeof_tl_node + (sizeof_blist + length xs * sizeof_bl_node)"
| "tree_size (Split p cs) = 0"
| "tree_size (Inner p l r) = sizeof_tl_node + tree_size l + tree_size r"

lemma node_memsize_trep:
  assumes "trep h par v lo t" "\<not> dirty t" "\<forall>d\<in>set (flat t). leaf_ok h d"
  shows "node_memsize h (Some (root_ptr t)) = Some (tree_size t)"
  using assms
proof (induction t arbitrary: par v lo)
  case (Leaf p b xs)
  then have "bl_size h b = Some (length xs)" by (auto simp: leaf_ok_iff bl_size_length)
  with Leaf show ?case
    by (subst node_memsize.simps) (auto simp: trep_iffs is_leaf_def below_list_def bl_memsize_def)
next
  case (Split p cs)
  then show ?case by simp
next
  case (Inner p l r)
  have "node_memsize h (Some (root_ptr l)) = Some (tree_size l)"
    using Inner.prems by (intro Inner.IH(1) [of "Some p" "Suc v" lo]) (auto simp: trep_Inner)
  moreover have "node_memsize h (Some (root_ptr r)) = Some (tree_size r)"
    using Inner.prems
    by (intro Inner.IH(2) [of "Some p" "Suc v" "lo + 2 ^ (MAX_LEVEL - Suc v)"]) (auto simp: trep_Inner)
  ultimately show ?case
    using Inner.prems(1) by (subst node_memsize.simps) (auto simp: trep_Inner is_leaf_def)
qed

definition freed_tree :: "om_heap \<Rightarrow> ltree \<Rightarrow> om_heap" where
  "freed_tree h t = h
     \<lparr>tlnodes := (\<lambda>p. if p \<in> set (tnodes t) then None else tlnodes h p),
      blists := (\<lambda>b. if b \<in> set (om_lists t) then None else blists h b),
      bnodes := (\<lambda>x. if x \<in> set (om_order t) then None else bnodes h x)\<rparr>"

lemma om_lists_Inner [simp]: "om_lists (Inner p l r) = om_lists l @ om_lists r"
  "om_lists (Leaf p b xs) = [b]"
  by (simp_all add: om_lists_def)

lemma om_order_Inner [simp]: "om_order (Inner p l r) = om_order l @ om_order r"
  "om_order (Leaf p b xs) = xs"
  by (simp_all add: om_order_def)

lemma flat_lists: "(p, b, xs) \<in> set (flat t) \<Longrightarrow> b \<in> set (om_lists t)"
  by (force simp: om_lists_def)

lemma flat_order: "(p, b, xs) \<in> set (flat t) \<Longrightarrow> x \<in> set xs \<Longrightarrow> x \<in> set (om_order t)"
  by (force simp: om_order_def)

lemma destroy_trep:
  assumes "trep h par v lo t" "\<not> dirty t" "\<forall>d\<in>set (flat t). leaf_ok h d"
    "distinct (tnodes t)" "distinct (om_lists t)" "distinct (om_order t)"
  shows "destroy (Some (root_ptr t)) h = Some (freed_tree h t)"
  using assms
proof (induction t arbitrary: par v lo h)
  case (Leaf p b xs)
  obtain n where n: "tlnodes h p = Some n" "tl_level n = MAX_LEVEL" "tl_below n = Below b"
    using Leaf.prems(1) by (auto simp: trep_iffs)
  have "blist_inv h b xs" using Leaf.prems(3) by (simp add: leaf_ok_iff)
  then have "bl_free b h = Some (h\<lparr>bnodes := (\<lambda>x. if x \<in> set xs then None else bnodes h x),
      blists := (blists h)(b := None)\<rparr>)"
    by (rule bl_free_eq)
  with n show ?case
    by (subst destroy.simps) (auto simp: below_list_def tl_node_free_def freed_tree_def fun_eq_iff)
next
  case (Split p cs)
  then show ?case by simp
next
  case (Inner p l r)
  obtain n where n: "tlnodes h p = Some n" "tl_level n = v" "v < MAX_LEVEL"
      "tl_left_prev n = Some (root_ptr l)" "tl_right_next n = Some (root_ptr r)"
      "trep h (Some p) (Suc v) lo l" "trep h (Some p) (Suc v) (lo + 2 ^ (MAX_LEVEL - Suc v)) r"
    using Inner.prems(1) by (auto simp: trep_Inner)
  let ?h = "freed_tree h l"
  have 1: "destroy (Some (root_ptr l)) h = Some ?h"
    using Inner.prems n by (intro Inner.IH(1)) auto
  have keep: "tlnodes ?h q = tlnodes h q" if "q \<in> insert p (set (tnodes r))" for q
    using that Inner.prems(4) by (auto simp: freed_tree_def)
  have "leaf_ok ?h d" if "d \<in> set (flat r)" for d
  proof -
    obtain p' b xs where d: "d = (p', b, xs)" by (cases d)
    have "leaf_ok h d" using Inner.prems(3) that by simp
    moreover have "leaf_ok ?h (p', b, xs) = leaf_ok h (p', b, xs)"
      using that d Inner.prems(5,6)
      by (intro leaf_ok_frame) (auto simp: freed_tree_def dest: flat_lists flat_order)
    ultimately show ?thesis using d by simp
  qed
  then have 2: "destroy (Some (root_ptr r)) ?h = Some (freed_tree ?h r)"
    using Inner.prems n keep trep_frame [of r ?h h]
    by (intro Inner.IH(2) [of ?h "Some p" "Suc v" "lo + 2 ^ (MAX_LEVEL - Suc v)"]) auto
  have "tlnodes ?h p = Some n" using keep n by simp
  moreover have "tlnodes (freed_tree ?h r) p = Some n"
    using keep n Inner.prems(4) by (simp add: freed_tree_def)
  moreover have "(freed_tree ?h r)\<lparr>tlnodes := (tlnodes (freed_tree ?h r))(p := None)\<rparr> =
      freed_tree h (Inner p l r)"
    by (auto simp: freed_tree_def fun_eq_iff)
  ultimately show ?case
    using n 1 2 by (subst destroy.simps) (simp add: tl_node_free_def)
qed

lemma om_destroy_inv:
  "om_inv h self t \<Longrightarrow> om_destroy self h = Some (freed_tree h t)"
  using destroy_trep [of h None 0 0 t] by (simp add: om_destroy_def om_inv_def tree_ok_def)

end
