(* ===== verification/Om_Split.thy ===== *)
theory Om_Split
  imports Om_Inv
begin

text \<open>
  Splitting a list (\<^verbatim>\<open>split\<close> in \<^verbatim>\<open>rdtool/src/om/blist_split.c\<close>, defined in \<^verbatim>\<open>Om_Tree\<close>): the
  chunks hold the nodes of the list in their order, at most \<^verbatim>\<open>SUBLIST_SIZE\<close> each, labelled
  \<^verbatim>\<open>NODE_INTERVAL\<close> apart, and the tree nodes made for them form the chain that
  relabelling walks.
\<close>

section \<open>The inner loop\<close>

text \<open>A chunk under construction: its list, and the labels of its nodes.\<close>

definition chunk :: "om_heap \<Rightarrow> blist_ptr \<Rightarrow> tl_ptr \<Rightarrow> node_ptr list \<Rightarrow> bool" where
  "chunk h lst ab xs \<longleftrightarrow> (\<exists>l. blists h lst = Some l \<and> bl_head l = hd_opt xs None \<and>
     bl_tail l = last_opt None xs \<and> bl_above l = Some ab \<and> bl_heavy l = 0) \<and> dll h lst None xs None \<and>
     (\<forall>i<length xs. bn_lab h (xs ! i) = of_nat i * NODE_INTERVAL)"

lemma chunk_frame:
  assumes "\<forall>p\<in>set xs. bnodes h' p = bnodes h p" "blists h' lst = blists h lst"
  shows "chunk h' lst ab xs = chunk h lst ab xs"
proof -
  have "bn_lab h' (xs ! i) = bn_lab h (xs ! i)" if "i < length xs" for i
    using assms(1) that by (intro bn_lab_frame) simp
  then show ?thesis
    using assms(2) dll_frame [OF assms(1)] by (auto simp: chunk_def)
qed

lemma unat_interval_mult: "k \<le> 63 \<Longrightarrow> unat (of_nat k * NODE_INTERVAL :: label_t) = k * 2 ^ 58"
  by (simp add: unat_word_ariths unat_NODE_INTERVAL unat_of_nat)

lemma interval_less: "i < j \<Longrightarrow> j \<le> 63 \<Longrightarrow>
    (of_nat i * NODE_INTERVAL :: label_t) < of_nat j * NODE_INTERVAL"
  by (simp add: word_less_nat_alt unat_interval_mult)

lemma chunk_inv:
  assumes "chunk h lst ab xs" "length xs \<le> 64"
  shows "leaf_ok h (ab, lst, xs)"
proof -
  have "sorted_wrt (<) (map (bn_lab h) xs)"
    using assms unfolding sorted_wrt_iff_nth_less by (auto simp: chunk_def intro!: interval_less)
  then show ?thesis using assms(1) by (auto simp: leaf_ok_iff blist_inv_iff chunk_def)
qed

lemma last_opt_snoc [simp]: "last_opt d (xs @ [x]) = Some x"
  by simp

lemma dll_last:
  "dll h self pr xs nx \<Longrightarrow> last_opt None xs = Some q \<Longrightarrow>
     \<exists>us n. xs = us @ [q] \<and> bnodes h q = Some n \<and> bn_prev n = last_opt pr us \<and> bn_next n = nx \<and>
       bn_list n = Some self \<and> quiet n \<and> dll h self pr us (Some q)"
  by (cases xs rule: rev_cases) (auto simp: dll_append dll_Cons)

lemma insert_internal_step:
  assumes c: "chunk h lst ab xs" "length xs < 64"
    and n: "bnodes h p = Some n" "bn_prev n = last_opt None xs" "quiet n"
    and p: "p \<notin> set xs"
  defines "h1 \<equiv> h\<lparr>bnodes := (bnodes h)(p \<mapsto> n\<lparr>bn_label := of_nat (length xs) * NODE_INTERVAL\<rparr>)\<rparr>"
  shows "\<exists>h'. insert_internal lst (bn_prev n) p h1 = Some h' \<and> chunk h' lst ab (xs @ [p]) \<and>
    (\<forall>q. q \<notin> set xs \<and> q \<noteq> p \<longrightarrow> bnodes h' q = bnodes h q) \<and>
    (\<forall>l. l \<noteq> lst \<longrightarrow> blists h' l = blists h l) \<and> tlnodes h' = tlnodes h \<and> fresh h' = fresh h \<and>
    (heap_ok h \<longrightarrow> heap_ok h')"
proof -
  obtain l where l: "blists h lst = Some l" "bl_head l = hd_opt xs None"
      "bl_tail l = last_opt None xs" "bl_above l = Some ab" "bl_heavy l = 0" and d: "dll h lst None xs None"
      and lab: "\<forall>i<length xs. bn_lab h (xs ! i) = of_nat i * NODE_INTERVAL"
    using c(1) by (auto simp: chunk_def)
  show ?thesis
  proof (cases "last_opt None xs")
    case None
    then have "xs = []" by (cases xs rule: rev_cases) auto
    with l n None show ?thesis
      by (auto simp: h1_def insert_internal_def upd_bnode_def upd_blist_def chunk_def dll_Cons quiet_def
          heap_ok_def)
  next
    case (Some q)
    from dll_last [OF d Some] obtain us m where us: "xs = us @ [q]" "bnodes h q = Some m"
        "bn_prev m = last_opt None us" "bn_next m = None" "bn_list m = Some lst" "quiet m"
        "dll h lst None us (Some q)"
      by blast
    have qp: "q \<noteq> p" using p us by auto
    have lq: "bn_label m = of_nat (length us) * NODE_INTERVAL" using lab us by auto
    have less: "bn_label m < of_nat (length xs) * NODE_INTERVAL"
      unfolding lq using us c(2) by (intro interval_less) auto
    let ?h = "h\<lparr>bnodes := (bnodes h)(p \<mapsto> n\<lparr>bn_label := of_nat (length xs) * NODE_INTERVAL,
          bn_next := None, bn_prev := Some q, bn_list := Some lst\<rparr>, q \<mapsto> m\<lparr>bn_next := Some p\<rparr>),
        blists := (blists h)(lst \<mapsto> l\<lparr>bl_tail := Some p\<rparr>)\<rparr>"
    have run: "insert_internal lst (bn_prev n) p h1 = Some ?h"
      using n us l Some qp less
      by (simp add: h1_def insert_internal_def upd_bnode_def upd_blist_def fun_upd_twist)
    have du: "q \<notin> set us"
    proof -
      have "sorted_wrt (<) (map (bn_lab h) xs)"
        using lab c(2) unfolding sorted_wrt_iff_nth_less by (auto intro!: interval_less)
      then show ?thesis using us by (auto simp: sorted_wrt_append)
    qed
    have "dll ?h lst None us (Some q)"
      using us(7) du p us(1) by (subst dll_frame [of us ?h h]) auto
    then have "dll ?h lst None (xs @ [p]) None"
      using us n qp by (auto simp: dll_append dll_Cons quiet_def)
    moreover have "bn_lab ?h ((xs @ [p]) ! i) = of_nat i * NODE_INTERVAL" if "i < Suc (length xs)" for i
    proof (cases "i < length us")
      case True
      then have "us ! i \<in> set us" by simp
      then have "us ! i \<noteq> q" "us ! i \<noteq> p" using du p us(1) by auto
      then have "bn_lab ?h (us ! i) = bn_lab h (us ! i)" by (intro bn_lab_frame) simp
      then show ?thesis using True us(1) lab [rule_format, of i] by (simp add: nth_append)
    qed (use that us qp lq in \<open>auto simp: nth_append less_Suc_eq\<close>)
    moreover have "hd_opt (xs @ [p]) None = hd_opt xs None" using us(1) by (cases us) auto
    ultimately have "chunk ?h lst ab (xs @ [p])" using l by (simp add: chunk_def)
    moreover have "heap_ok h \<Longrightarrow> heap_ok ?h" using n us l by (auto simp: heap_ok_def)
    ultimately show ?thesis using run us by (intro exI [of _ ?h]) auto
  qed
qed

lemma split_inner_spec:
  assumes "chunk h lst ab xs" "length xs \<le> 64" "dll h b (last_opt None xs) rest None"
    "distinct (xs @ rest)" "lst \<noteq> b" "heap_ok h"
  shows "\<exists>h'. split_inner lst (hd_opt rest None) (of_nat (length xs) * NODE_INTERVAL) (length xs) h =
      Some (hd_opt (drop (64 - length xs) rest) None, h') \<and>
    chunk h' lst ab (xs @ take (64 - length xs) rest) \<and>
    dll h' b (last_opt None (xs @ take (64 - length xs) rest)) (drop (64 - length xs) rest) None \<and>
    (\<forall>q. q \<notin> set xs \<and> q \<notin> set (take (64 - length xs) rest) \<longrightarrow> bnodes h' q = bnodes h q) \<and>
    (\<forall>l. l \<noteq> lst \<longrightarrow> blists h' l = blists h l) \<and> tlnodes h' = tlnodes h \<and> fresh h' = fresh h \<and>
    heap_ok h'"
  using assms
proof (induction rest arbitrary: xs h)
  case Nil
  then show ?case by (simp add: split_inner.simps)
next
  case (Cons p rest)
  show ?case
  proof (cases "length xs < 64")
    case False
    with Cons.prems show ?thesis
      by (subst hd_opt.simps, subst split_inner.simps) (auto simp: SUBLIST_SIZE_def)
  next
    case True
    obtain n where n: "bnodes h p = Some n" "bn_prev n = last_opt None xs"
        "bn_next n = hd_opt rest None" "quiet n" "dll h b (Some p) rest None"
      using Cons.prems(3) by (auto simp: dll_Cons)
    have p: "p \<notin> set xs" "p \<notin> set rest" "distinct (xs @ rest)" using Cons.prems(4) by auto
    from insert_internal_step [OF Cons.prems(1) True n(1,2,4) p(1)] Cons.prems(6) obtain h1 where
      h1: "insert_internal lst (bn_prev n) p
          (h\<lparr>bnodes := (bnodes h)(p \<mapsto> n\<lparr>bn_label := of_nat (length xs) * NODE_INTERVAL\<rparr>)\<rparr>) = Some h1"
        "chunk h1 lst ab (xs @ [p])" "\<forall>q. q \<notin> set xs \<and> q \<noteq> p \<longrightarrow> bnodes h1 q = bnodes h q"
        "\<forall>l. l \<noteq> lst \<longrightarrow> blists h1 l = blists h l" "tlnodes h1 = tlnodes h" "fresh h1 = fresh h" "heap_ok h1"
      by blast
    have "dll h1 b (last_opt None (xs @ [p])) rest None"
      using n(5) p h1(3) by (subst dll_frame [of rest h1 h]) auto
    from Cons.IH [OF h1(2) _ this _ Cons.prems(5) h1(7)] True Cons.prems(4) obtain h' where
      h': "split_inner lst (hd_opt rest None) (of_nat (length (xs @ [p])) * NODE_INTERVAL) (length (xs @ [p])) h1 =
          Some (hd_opt (drop (64 - length (xs @ [p])) rest) None, h')"
        "chunk h' lst ab ((xs @ [p]) @ take (64 - length (xs @ [p])) rest)"
        "dll h' b (last_opt None ((xs @ [p]) @ take (64 - length (xs @ [p])) rest))
            (drop (64 - length (xs @ [p])) rest) None"
        "\<forall>q. q \<notin> set (xs @ [p]) \<and> q \<notin> set (take (64 - length (xs @ [p])) rest) \<longrightarrow> bnodes h' q = bnodes h1 q"
        "\<forall>l. l \<noteq> lst \<longrightarrow> blists h' l = blists h1 l" "tlnodes h' = tlnodes h1" "fresh h' = fresh h1" "heap_ok h'"
      by auto
    have d: "64 - length xs = Suc (64 - length (xs @ [p]))" using True by simp
    have "split_inner lst (Some p) (of_nat (length xs) * NODE_INTERVAL) (length xs) h =
        Some (hd_opt (drop (64 - length xs) (p # rest)) None, h')"
      unfolding d using n(1,3) h1(1) h'(1) True
      by (subst split_inner.simps) (simp add: SUBLIST_SIZE_def upd_bnode_def algebra_simps)
    then show ?thesis
      unfolding d using h' h1(3-6) by (intro exI [of _ h']) auto
  qed
qed

section \<open>The outer loop\<close>

lemma split_chunk_new_spec:
  assumes "heap_ok h" "tlnodes h ab = Some an" "case prv of None \<Rightarrow> True | Some q \<Rightarrow> tlnodes h q = Some qn"
  shows "\<exists>h'. split_chunk_new ab prv h = Some (fresh h, Suc (fresh h), h') \<and>
    chunk h' (Suc (fresh h)) (fresh h) [] \<and> heap_ok h' \<and> fresh h' = Suc (Suc (fresh h)) \<and>
    bnodes h' = bnodes h \<and> (\<forall>l. l \<noteq> Suc (fresh h) \<longrightarrow> blists h' l = blists h l) \<and>
    (\<exists>n. tlnodes h' (fresh h) = Some n \<and> tl_level n = MAX_LEVEL \<and> tl_num_leaves n = 1 \<and>
       tl_left_prev n = prv \<and> tl_right_next n = None \<and> tl_below n = Below (Suc (fresh h))) \<and>
    (\<forall>r. r \<noteq> fresh h \<longrightarrow> tlnodes h' r =
       (case prv of Some q \<Rightarrow> if r = q then Some (qn\<lparr>tl_right_next := Some (fresh h)\<rparr>) else tlnodes h r
        | None \<Rightarrow> if r = ab then Some (an\<lparr>tl_below := Split_nodes (fresh h)\<rparr>) else tlnodes h r))"
proof -
  have ne: "ab \<noteq> fresh h" using heap_ok_fresh(3) [OF assms(1)] assms(2) by force
  show ?thesis
  proof (cases prv)
    case None
    with assms ne show ?thesis
      by (auto simp: split_chunk_new_def tl_node_new_def bl_new_def bl_create_def upd_tl_def upd_blist_def
          chunk_def heap_ok_def Let_def)
  next
    case (Some q)
    then have "q \<noteq> fresh h" using heap_ok_fresh(3) [OF assms(1)] assms(3) by force
    with Some assms ne show ?thesis
      by (auto simp: split_chunk_new_def tl_node_new_def bl_new_def bl_create_def upd_tl_def upd_blist_def
          chunk_def heap_ok_def Let_def)
  qed
qed

text \<open>The place where the first tree node of a chain is recorded: the node before or the split leaf.\<close>

definition chained :: "tl_ptr \<Rightarrow> tl_ptr option \<Rightarrow> leaf_desc list \<Rightarrow> om_heap \<Rightarrow> om_heap \<Rightarrow> bool" where
  "chained ab prv cs h h' \<longleftrightarrow> (\<forall>r<fresh h. tlnodes h' r = (case cs of [] \<Rightarrow> tlnodes h r
     | (q, _, _) # _ \<Rightarrow> (case prv of
          Some s \<Rightarrow> if r = s then map_option (tl_right_next_update (\<lambda>_. Some q)) (tlnodes h r) else tlnodes h r
        | None \<Rightarrow> if r = ab then map_option (tl_below_update (\<lambda>_. Split_nodes q)) (tlnodes h r) else tlnodes h r)))"

definition chunk_ok :: "om_heap \<Rightarrow> nat \<Rightarrow> leaf_desc \<Rightarrow> bool" where
  "chunk_ok h k = (\<lambda>(q, b, xs). chunk h b q xs \<and> xs \<noteq> [] \<and> length xs \<le> 64 \<and>
     k \<le> q \<and> q < fresh h \<and> k \<le> b \<and> b < fresh h)"

lemma split_outer_spec:
  assumes "dll h b pr rest None" "distinct rest" "heap_ok h" "b < fresh h"
    "tlnodes h ab = Some an" "case prv of None \<Rightarrow> True | Some q \<Rightarrow> \<exists>qn. tlnodes h q = Some qn"
  shows "\<exists>cs h'. split_outer ab (hd_opt rest None) prv num h = Some (num + length cs, h') \<and>
    concat (map (\<lambda>(q, b, xs). xs) cs) = rest \<and> length cs = (length rest + 63) div 64 \<and>
    split_chain h' prv cs \<and> (\<forall>c\<in>set cs. chunk_ok h' (fresh h) c) \<and>
    distinct (map fst cs) \<and> distinct (map (\<lambda>(q, b, xs). b) cs) \<and> chained ab prv cs h h' \<and>
    (\<forall>x. x \<notin> set rest \<longrightarrow> bnodes h' x = bnodes h x) \<and> (\<forall>l<fresh h. blists h' l = blists h l) \<and>
    heap_ok h' \<and> fresh h \<le> fresh h'"
  using assms
proof (induction "length rest" arbitrary: rest h pr prv num an rule: less_induct)
  case less
  show ?case
  proof (cases rest)
    case Nil
    with less.prems show ?thesis
      by (intro exI [of _ "[]"] exI [of _ h]) (auto simp: split_outer.simps chained_def)
  next
    case (Cons p ps)
    obtain qn where qn: "case prv of None \<Rightarrow> True | Some q \<Rightarrow> tlnodes h q = Some qn"
      using less.prems(6) by (cases prv) auto
    from split_chunk_new_spec [OF less.prems(3,5) qn] obtain h1 nn where
      h1: "split_chunk_new ab prv h = Some (fresh h, Suc (fresh h), h1)"
        "chunk h1 (Suc (fresh h)) (fresh h) []" "heap_ok h1" "fresh h1 = Suc (Suc (fresh h))"
        "bnodes h1 = bnodes h" "\<forall>l. l \<noteq> Suc (fresh h) \<longrightarrow> blists h1 l = blists h l"
        "tlnodes h1 (fresh h) = Some nn" "tl_level nn = MAX_LEVEL" "tl_num_leaves nn = 1"
        "tl_left_prev nn = prv" "tl_right_next nn = None" "tl_below nn = Below (Suc (fresh h))"
      and h1r: "\<forall>r. r \<noteq> fresh h \<longrightarrow> tlnodes h1 r =
       (case prv of Some q \<Rightarrow> if r = q then Some (qn\<lparr>tl_right_next := Some (fresh h)\<rparr>) else tlnodes h r
        | None \<Rightarrow> if r = ab then Some (an\<lparr>tl_below := Split_nodes (fresh h)\<rparr>) else tlnodes h r)"
      by blast
    obtain n where n: "bnodes h p = Some n" using less.prems(1) Cons by (auto simp: dll_Cons)
    let ?h2 = "h1\<lparr>bnodes := (bnodes h1)(p \<mapsto> n\<lparr>bn_prev := None\<rparr>)\<rparr>"
    have d2: "dll ?h2 b None rest None"
    proof -
      have "dll ?h2 b (Some p) ps None = dll h b (Some p) ps None"
        using less.prems(2) Cons h1(5) by (intro dll_frame) auto
      then show ?thesis using less.prems(1) Cons h1(5) n by (auto simp: dll_Cons quiet_def)
    qed
    have c2: "chunk ?h2 (Suc (fresh h)) (fresh h) []" using h1(2) by (simp add: chunk_def)
    have ok2: "heap_ok ?h2" using h1(3,5) n by (auto simp: heap_ok_def)
    have "Suc (fresh h) \<noteq> b" using less.prems(4) by simp
    from split_inner_spec [OF c2 _ _ _ this ok2, of rest] d2 less.prems(2) obtain h3 where
      h3: "split_inner (Suc (fresh h)) (hd_opt rest None) 0 0 ?h2 = Some (hd_opt (drop 64 rest) None, h3)"
        "chunk h3 (Suc (fresh h)) (fresh h) (take 64 rest)"
        "dll h3 b (last_opt None (take 64 rest)) (drop 64 rest) None"
        "\<forall>q. q \<notin> set (take 64 rest) \<longrightarrow> bnodes h3 q = bnodes ?h2 q"
        "\<forall>l. l \<noteq> Suc (fresh h) \<longrightarrow> blists h3 l = blists ?h2 l"
        "tlnodes h3 = tlnodes ?h2" "fresh h3 = fresh ?h2" "heap_ok h3"
      by auto
    have nn3: "tlnodes h3 (fresh h) = Some nn" using h3(6) h1(7) by simp
    have "\<exists>an'. tlnodes h3 ab = Some an'"
      using h1r h1(7) h3(6) less.prems(5) by (cases "ab = fresh h") (auto split: option.splits)
    then obtain an' where an': "tlnodes h3 ab = Some an'" by blast
    have lt: "length (drop 64 rest) < length rest" using Cons by simp
    have "distinct (drop 64 rest)" "b < fresh h3"
      using less.prems(2,4) h3(7) h1(4) by auto
    from less.hyps [OF lt h3(3) this(1) h3(8) this(2) an', of "Some (fresh h)" "Suc num"] nn3
    obtain cs h' where
      h': "split_outer ab (hd_opt (drop 64 rest) None) (Some (fresh h)) (Suc num) h3 = Some (Suc num + length cs, h')"
        "concat (map (\<lambda>(q, b, xs). xs) cs) = drop 64 rest" "length cs = (length (drop 64 rest) + 63) div 64"
        "split_chain h' (Some (fresh h)) cs" "\<forall>c\<in>set cs. chunk_ok h' (fresh h3) c"
        "distinct (map fst cs)" "distinct (map (\<lambda>(q, b, xs). b) cs)" "chained ab (Some (fresh h)) cs h3 h'"
        "\<forall>x. x \<notin> set (drop 64 rest) \<longrightarrow> bnodes h' x = bnodes h3 x" "\<forall>l<fresh h3. blists h' l = blists h3 l"
        "heap_ok h'" "fresh h3 \<le> fresh h'"
      by auto
    let ?c = "(fresh h, Suc (fresh h), take 64 rest)"
    have f3: "fresh h3 = Suc (Suc (fresh h))" using h3(7) h1(4) by simp
    have run: "split_outer ab (hd_opt rest None) prv num h = Some (num + length (?c # cs), h')"
      using Cons h1(1,5) n h3(1) h'(1) by (subst split_outer.simps) (simp add: upd_bnode_def)
    have dis: "\<forall>x\<in>set (take 64 rest). x \<notin> set (drop 64 rest)"
      using less.prems(2) set_take_disj_set_drop_if_distinct [of rest 64 64] by auto
    then have "\<forall>x\<in>set (take 64 rest). bnodes h' x = bnodes h3 x" using h'(9) by blast
    moreover have "blists h' (Suc (fresh h)) = blists h3 (Suc (fresh h))" using h'(10) f3 by simp
    ultimately have "chunk h' (Suc (fresh h)) (fresh h) (take 64 rest)"
      using h3(2) chunk_frame by blast
    then have ck: "chunk_ok h' (fresh h) ?c"
      using Cons h'(12) f3 by (simp add: chunk_ok_def)
    have new: "tlnodes h' (fresh h) = Some (case cs of [] \<Rightarrow> nn | (q, _, _) # _ \<Rightarrow> nn\<lparr>tl_right_next := Some q\<rparr>)"
      using h'(8) nn3 f3 by (auto simp: chained_def split: list.splits)
    have chain: "split_chain h' prv (?c # cs)"
      using new h'(4) h1(8-12) by (auto simp: split_chain_Cons split: list.splits)
    have "chained ab prv (?c # cs) h h'"
      using h'(8) h1r h3(6) qn less.prems(5) f3
      by (auto simp: chained_def split: list.splits option.splits)
    moreover have "concat (map (\<lambda>(q, b, xs). xs) (?c # cs)) = rest" using h'(2) by simp
    moreover have "length (?c # cs) = (length rest + 63) div 64"
      using h'(3) Cons by (cases "length rest \<le> 64") (auto simp: div_eq_0_iff)
    moreover have all: "\<forall>c\<in>set (?c # cs). chunk_ok h' (fresh h) c"
      using ck h'(5) f3 by (auto simp: chunk_ok_def)
    moreover have "distinct (map fst (?c # cs))" "distinct (map (\<lambda>(q, b, xs). b) (?c # cs))"
      using h'(5-7) f3 by (auto simp: chunk_ok_def)
    moreover have "\<forall>x. x \<notin> set rest \<longrightarrow> bnodes h' x = bnodes h x"
    proof (intro allI impI)
      fix x assume x: "x \<notin> set rest"
      then have "x \<notin> set (take 64 rest)" "x \<notin> set (drop 64 rest)" "x \<noteq> p"
        using Cons by (blast dest: in_set_takeD in_set_dropD, blast dest: in_set_dropD, auto)
      then show "bnodes h' x = bnodes h x" using h'(9) h3(4) h1(5) by simp
    qed
    moreover have "\<forall>l<fresh h. blists h' l = blists h l"
      using h'(10) h3(5) h1(6) f3 by auto
    ultimately show ?thesis
      using run chain h'(11,12) f3 by (intro exI [of _ "?c # cs"] exI [of _ h'] conjI) auto
  qed
qed

section \<open>The whole split\<close>

text \<open>
  \<^verbatim>\<open>split\<close> of a non-empty list never stops the process. The old list is gone, its nodes are in
  the chunks in the same order, each chunk is a good list of at most 64 nodes under a new tree
  node, and only the split leaf among the old tree nodes has changed.
\<close>

lemma split_spec:
  assumes leaf: "leaf_ok h (p, b, xs)" "xs \<noteq> []" and "heap_ok h"
    and n: "tlnodes h p = Some n" "tl_below n = Below b"
  shows "\<exists>cs h'. split b h = Some (length cs, h') \<and> cs \<noteq> [] \<and>
    concat (map (\<lambda>(q, b, xs). xs) cs) = xs \<and> length cs = (length xs + 63) div 64 \<and>
    split_chain h' None cs \<and>
    (\<forall>c\<in>set cs. leaf_ok h' c \<and> chunk_ok h' (fresh h) c) \<and>
    distinct (map fst cs) \<and> distinct (map (\<lambda>(q, b, xs). b) cs) \<and>
    (\<forall>r<fresh h. tlnodes h' r =
       (if r = p then Some (n\<lparr>tl_below := Split_nodes (fst (hd cs))\<rparr>) else tlnodes h r)) \<and>
    (\<forall>x. x \<notin> set xs \<longrightarrow> bnodes h' x = bnodes h x) \<and>
    (\<forall>l<fresh h. l \<noteq> b \<longrightarrow> blists h' l = blists h l) \<and> heap_ok h' \<and> fresh h \<le> fresh h'"
proof -
  obtain l where l: "blists h b = Some l" "bl_above l = Some p" "bl_head l = hd_opt xs None"
      and d: "dll h b None xs None"
    using leaf(1) by (auto simp: leaf_ok_iff blist_inv_iff)
  have dist: "distinct xs" using leaf(1) blist_inv_distinct by (auto simp: leaf_ok_iff)
  have b: "b < fresh h" using heap_ok_fresh(2) [OF assms(3), of b] l by force
  have p: "p < fresh h" using heap_ok_fresh(3) [OF assms(3), of p] n by force
  from split_outer_spec [OF d dist assms(3) b n(1), of None 0] obtain cs h1 where
    h1: "split_outer p (hd_opt xs None) None 0 h = Some (length cs, h1)"
      "concat (map (\<lambda>(q, b, xs). xs) cs) = xs" "length cs = (length xs + 63) div 64"
      "split_chain h1 None cs" "\<forall>c\<in>set cs. chunk_ok h1 (fresh h) c"
      "distinct (map fst cs)" "distinct (map (\<lambda>(q, b, xs). b) cs)" "chained p None cs h h1"
      "\<forall>x. x \<notin> set xs \<longrightarrow> bnodes h1 x = bnodes h x" "\<forall>l<fresh h. blists h1 l = blists h l"
      "heap_ok h1" "fresh h \<le> fresh h1"
    by auto
  let ?h = "h1\<lparr>blists := (blists h1)(b := None)\<rparr>"
  have ne: "cs \<noteq> []" using h1(2) leaf(2) by auto
  have "hd_opt xs None \<noteq> None" using leaf(2) by (cases xs) auto
  then have "split b h = Some (length cs, ?h)"
    using l n h1(1,10) b by (simp add: split_def below_list_def upd_blist_def)
  moreover have "leaf_ok ?h c \<and> chunk_ok ?h (fresh h) c" if "c \<in> set cs" for c
  proof -
    obtain q b' ys where c: "c = (q, b', ys)" by (cases c)
    with that h1(5) have ck: "chunk h1 b' q ys" "length ys \<le> 64" "fresh h \<le> b'" "ys \<noteq> []"
        "fresh h \<le> q" "q < fresh h1" "b' < fresh h1"
      by (auto simp: chunk_ok_def)
    then have "chunk ?h b' q ys" using b chunk_frame [of ys ?h h1 b' q] by auto
    then show ?thesis using chunk_inv ck c by (auto simp: chunk_ok_def)
  qed
  moreover have "split_chain ?h None cs" using h1(4) split_chain_frame [of cs ?h h1] by simp
  moreover have "tlnodes ?h r = (if r = p then Some (n\<lparr>tl_below := Split_nodes (fst (hd cs))\<rparr>) else tlnodes h r)"
    if "r < fresh h" for r
    using h1(8) ne that n by (cases cs) (auto simp: chained_def)
  moreover have "heap_ok ?h" using h1(11) by (auto simp: heap_ok_def)
  ultimately show ?thesis
    using h1 ne by (intro exI [of _ cs] exI [of _ ?h] conjI) auto
qed

text \<open>The labels of a chunk leave room for 58 insertions at any places.\<close>

lemma chunk_gaps:
  assumes "chunk h lst ab xs" "length xs \<le> 64"
  shows "gaps_ge (2 ^ 58) (map (\<lambda>p. unat (bn_lab h p)) xs)"
proof -
  have g: "gaps_ge (2 ^ 58) (map (\<lambda>i. i * 2 ^ 58) [k..<m])" if "m \<le> 64" "k \<le> m" for k m
    using that(2,1)
  proof (induction k rule: inc_induct)
    case (step k)
    then show ?case by (cases "Suc k < m") (auto simp: upt_conv_Cons)
  qed simp
  have "map (\<lambda>p. unat (bn_lab h p)) xs = map (\<lambda>i. i * 2 ^ 58) [0..<length xs]"
    using assms by (intro nth_equalityI) (auto simp: chunk_def unat_interval_mult)
  with g [of "length xs" 0] assms(2) show ?thesis by simp
qed

text \<open>A list that has just been made: it is not marked heavy and has room.\<close>

definition light :: "om_heap \<Rightarrow> leaf_desc \<Rightarrow> bool" where
  "light h = (\<lambda>(q, b, xs). (\<exists>l. blists h b = Some l \<and> bl_heavy l = 0) \<and> gaps_ge (2 ^ 58) (map (\<lambda>p. unat (bn_lab h p)) xs))"

lemma chunk_light: "chunk_ok h k c \<Longrightarrow> light h c"
  using chunk_gaps by (cases c) (fastforce simp: chunk_ok_def light_def chunk_def)

lemma light_frame:
  assumes "\<forall>x\<in>set xs. bnodes h' x = bnodes h x" "blists h' b = blists h b"
  shows "light h' (q, b, xs) = light h (q, b, xs)"
proof -
  have "map (\<lambda>p. unat (bn_lab h' p)) xs = map (\<lambda>p. unat (bn_lab h p)) xs" using assms(1) by (auto simp: bn_lab_def)
  then show ?thesis using assms(2) by (simp only: light_def prod.case)
qed

end
