(* ===== verification/Om_Rebuild.thy ===== *)
theory Om_Rebuild
  imports Om_Relabel Om_Split
begin

text \<open>
  Rebuilding a subtree (\<^verbatim>\<open>rebuild\<close> in \<^verbatim>\<open>rdtool/src/om/om_relabel.c\<close>) keeps the leaves in
  their order: the leaves are collected into an array from left to right, the old inner nodes
  go, and the recursive construction gives a tree over the same leaves whose labels are the
  left ends of the ranges they get.
\<close>

section \<open>The array of leaves\<close>

definition put :: "'a list \<Rightarrow> nat \<Rightarrow> 'a list \<Rightarrow> 'a list" where
  "put arr i xs = take i arr @ xs @ drop (i + length xs) arr"

lemma put_Nil [simp]: "put arr i [] = arr"
  by (simp add: put_def)

lemma length_put [simp]: "i + length xs \<le> length arr \<Longrightarrow> length (put arr i xs) = length arr"
  by (simp add: put_def)

lemma put_Cons: "i + length (x # xs) \<le> length arr \<Longrightarrow> put (arr[i := x]) (Suc i) xs = put arr i (x # xs)"
  by (simp add: put_def take_Suc_conv_app_nth)

lemma put_append:
  assumes "i + length (xs @ ys) \<le> length arr"
  shows "put (put arr i xs) (i + length xs) ys = put arr i (xs @ ys)"
proof -
  have "take (i + length xs) (put arr i xs) = take i arr @ xs"
    using assms by (cases xs) (auto simp: put_def min_def)
  moreover have "drop (i + length xs + length ys) (put arr i xs) = drop (i + length xs + length ys) arr"
    using assms by (simp add: put_def add.commute)
  ultimately show ?thesis by (simp add: put_def add.assoc)
qed

lemma put_all: "length xs = length arr \<Longrightarrow> put arr 0 xs = xs"
  by (simp add: put_def)

definition only_tl :: "om_heap \<Rightarrow> om_heap \<Rightarrow> bool" where
  "only_tl h h' \<longleftrightarrow> bnodes h' = bnodes h \<and> blists h' = blists h"

lemma only_tl_refl [simp]: "only_tl h h"
  and only_tl_trans: "only_tl h h1 \<Longrightarrow> only_tl h1 h2 \<Longrightarrow> only_tl h h2"
  and only_tl_upd [simp]: "only_tl h (h\<lparr>tlnodes := f\<rparr>)"
  by (auto simp: only_tl_def)

lemma leaf_ok_only_tl: "only_tl h h' \<Longrightarrow> leaf_ok h' d = leaf_ok h d"
  by (cases d) (auto intro!: leaf_ok_frame simp: only_tl_def)

definition cleared :: "tl_node \<Rightarrow> tl_node" where
  "cleared n = n\<lparr>tl_left_prev := None, tl_right_next := None\<rparr>"

lemma cleared_simps [simp]:
  "tl_below (cleared n) = tl_below n" "tl_needs_rebalance (cleared n) = tl_needs_rebalance n"
  "tl_parent (cleared n) = tl_parent n" "tl_label (cleared n) = tl_label n"
  "tl_level (cleared n) = tl_level n" "tl_num_leaves (cleared n) = tl_num_leaves n"
  "tl_left_prev (cleared n) = None" "tl_right_next (cleared n) = None"
  by (simp_all add: cleared_def)

lemma collect_split_spec:
  assumes "split_chain h prv cs" "distinct (map fst cs)"
    "case prv of None \<Rightarrow> True | Some q \<Rightarrow> q \<notin> fst ` set cs \<and> tlnodes h q \<noteq> None"
    "idx + length cs \<le> length arr"
  shows "\<exists>h'. collect_split (hd_opt (map fst cs) None) idx arr h =
      Some (idx + length cs, put arr idx (map fst cs), h') \<and> only_tl h h' \<and> fresh h' = fresh h \<and>
    (\<forall>r. tlnodes h' r = (if r \<in> fst ` set cs then map_option cleared (tlnodes h r)
       else if cs \<noteq> [] \<and> prv = Some r
         then map_option (tl_right_next_update (\<lambda>_. None)) (tlnodes h r) else tlnodes h r))"
  using assms
proof (induction cs arbitrary: prv idx arr h)
  case Nil
  then show ?case by (simp add: collect_split.simps)
next
  case (Cons c cs)
  obtain q b xs where c: "c = (q, b, xs)" by (cases c)
  obtain n where n: "tlnodes h q = Some n" "tl_left_prev n = prv"
      "tl_right_next n = hd_opt (map fst cs) None" "split_chain h (Some q) cs"
    using Cons.prems(1) c by (cases cs) (auto simp: split_chain_Cons)
  have q: "q \<notin> fst ` set cs" "distinct (map fst cs)" using Cons.prems(2) c by auto
  define h1 where "h1 = (case prv of None \<Rightarrow> h
     | Some p \<Rightarrow> h\<lparr>tlnodes := (tlnodes h)(p := map_option (tl_right_next_update (\<lambda>_. None)) (tlnodes h p))\<rparr>)"
  define h2 where "h2 = h1\<lparr>tlnodes := (tlnodes h1)(q \<mapsto> n\<lparr>tl_left_prev := None\<rparr>)\<rparr>"
  have h1q: "tlnodes h1 r = tlnodes h r" if "prv \<noteq> Some r" for r
    using that by (auto simp: h1_def split: option.splits)
  have pq: "prv \<noteq> Some q" using Cons.prems(3) c by auto
  have same: "\<forall>r\<in>set (map fst cs). tlnodes h2 r = tlnodes h r"
    using q(1) h1q Cons.prems(3) c by (auto simp: h2_def h1_def split: option.splits)
  have chain2: "split_chain h2 (Some q) cs" using split_chain_frame [OF same] n(4) by simp
  from Cons.IH [OF chain2 q(2), of "Suc idx" "arr[idx := q]"] q Cons.prems(4) c obtain h' where
    h': "collect_split (hd_opt (map fst cs) None) (Suc idx) (arr[idx := q]) h2 =
        Some (Suc idx + length cs, put (arr[idx := q]) (Suc idx) (map fst cs), h')" "only_tl h2 h'"
      "fresh h' = fresh h2"
      "\<forall>r. tlnodes h' r = (if r \<in> fst ` set cs then map_option cleared (tlnodes h2 r)
       else if cs \<noteq> [] \<and> Some q = Some r
         then map_option (tl_right_next_update (\<lambda>_. None)) (tlnodes h2 r) else tlnodes h2 r)"
    by (auto simp: h2_def)
  have chk: "(case tl_right_next n of None \<Rightarrow> Some ()
      | Some r \<Rightarrow> do { m \<leftarrow> tlnodes h r; assert_c (tl_left_prev m = Some q) }) = Some ()"
    using n(3,4) by (cases cs) (auto simp: split_chain_Cons)
  have e1: "(case prv of None \<Rightarrow> Some h | Some p \<Rightarrow> upd_tl p (tl_right_next_update (\<lambda>_. None)) h) = Some h1"
    using Cons.prems(3) by (auto simp: h1_def upd_tl_def split: option.splits)
  have "collect_split (Some q) idx arr h = collect_split (tl_right_next n) (Suc idx) (arr[idx := q]) h2"
    using Cons.prems(4) n(1,2) chk e1 h1q [OF pq] c
    by (subst collect_split.simps) (simp add: store_at_def upd_tl_def h2_def)
  then have run: "collect_split (hd_opt (map fst (c # cs)) None) idx arr h =
      Some (idx + length (c # cs), put arr idx (map fst (c # cs)), h')"
    using h'(1) n(3) c Cons.prems(4) put_Cons [of idx q "map fst cs" arr] by simp
  have "only_tl h h'" using h'(2) by (auto simp: only_tl_def h2_def h1_def split: option.splits)
  moreover have "fresh h' = fresh h" using h'(3) by (auto simp: h2_def h1_def split: option.splits)
  moreover have tq: "tlnodes h' q = Some (cleared n)"
    using h'(4) q(1) n(3) by (cases cs) (auto simp: h2_def cleared_def)
  moreover have tr: "tlnodes h' r = (if r \<in> fst ` set cs then map_option cleared (tlnodes h r)
       else if prv = Some r then map_option (tl_right_next_update (\<lambda>_. None)) (tlnodes h r)
       else tlnodes h r)" if "r \<noteq> q" for r
    using that h'(4) same Cons.prems(3) h1q [of r] c
    by (auto simp: h2_def) (auto simp: h1_def)
  moreover have "tlnodes h' r = (if r \<in> fst ` set (c # cs) then map_option cleared (tlnodes h r)
       else if c # cs \<noteq> [] \<and> prv = Some r
         then map_option (tl_right_next_update (\<lambda>_. None)) (tlnodes h r) else tlnodes h r)" for r
    using tq tr [of r] n(1) c by (cases "r = q") simp_all
  ultimately show ?case using run by blast
qed

section \<open>Collecting the leaves of a tree\<close>

text \<open>
  \<open>trep0\<close> is \<open>trep\<close> without the condition on the root's rebalance flag, which
  \<^verbatim>\<open>rebalance\<close> clears before it rebuilds.
\<close>

definition set_flag :: "om_heap \<Rightarrow> tl_ptr \<Rightarrow> bool \<Rightarrow> om_heap" where
  "set_flag h p f =
     h\<lparr>tlnodes := (tlnodes h)(p := map_option (tl_needs_rebalance_update (\<lambda>_. f)) (tlnodes h p))\<rparr>"

definition trep0 :: "om_heap \<Rightarrow> tl_ptr option \<Rightarrow> nat \<Rightarrow> nat \<Rightarrow> ltree \<Rightarrow> bool" where
  "trep0 h par v lo t = trep (set_flag h (root_ptr t) (dirty t)) par v lo t"

lemma set_flag_other [simp]: "q \<noteq> p \<Longrightarrow> tlnodes (set_flag h p f) q = tlnodes h q"
  by (simp add: set_flag_def)

lemma trep_trep0:
  assumes "trep h par v lo t"
  shows "trep0 h par v lo t"
proof -
  obtain n where n: "tlnodes h (root_ptr t) = Some n" "tl_needs_rebalance n \<longleftrightarrow> dirty t"
    using trep_root [OF assms] by auto
  then have "n\<lparr>tl_needs_rebalance := dirty t\<rparr> = n" by simp
  with n have "set_flag h (root_ptr t) (dirty t) = h"
    by (cases h) (auto simp: set_flag_def fun_eq_iff)
  then show ?thesis using assms by (simp add: trep0_def)
qed

lemma trep0_clear: "trep h par v lo t \<Longrightarrow> trep0 (set_flag h (root_ptr t) f) par v lo t"
proof -
  assume t: "trep h par v lo t"
  have "set_flag (set_flag h (root_ptr t) f) (root_ptr t) (dirty t) = set_flag h (root_ptr t) (dirty t)"
    by (auto simp: set_flag_def option.map_comp comp_def)
  then show ?thesis using trep_trep0 [OF t] by (simp add: trep0_def)
qed

lemma trep0_Leaf: "trep0 h par v lo (Leaf p b xs) \<longleftrightarrow> (\<exists>n. tlnodes h p = Some n \<and> v \<le> MAX_LEVEL \<and>
    tl_level n = MAX_LEVEL \<and> unat (tl_label n) = lo \<and> tl_num_leaves n = 1 \<and> tl_parent n = par \<and>
    tl_left_prev n = None \<and> tl_right_next n = None \<and> tl_below n = Below b)"
  by (auto simp: trep0_def trep_Leaf set_flag_def)

lemma trep0_Split:
  assumes "p \<notin> fst ` set cs"
  shows "trep0 h par v lo (Split p cs) \<longleftrightarrow> (\<exists>n. tlnodes h p = Some n \<and> v \<le> MAX_LEVEL \<and>
    tl_level n = MAX_LEVEL \<and> unat (tl_label n) = lo \<and> tl_num_leaves n = length cs \<and> 1 < length cs \<and>
    tl_parent n = par \<and> tl_left_prev n = None \<and> tl_right_next n = None \<and>
    tl_below n = Split_nodes (fst (hd cs)) \<and> split_chain h None cs)"
proof -
  have "split_chain (set_flag h p True) None cs = split_chain h None cs"
    using assms by (intro split_chain_frame ballI set_flag_other) auto
  then show ?thesis by (auto simp: trep0_def trep_Split) (auto simp: set_flag_def)
qed

lemma trep0_Inner:
  assumes "p \<notin> set (tnodes l)" "p \<notin> set (tnodes r)"
  shows "trep0 h par v lo (Inner p l r) \<longleftrightarrow> (\<exists>n. tlnodes h p = Some n \<and> v < MAX_LEVEL \<and>
    tl_level n = v \<and> unat (tl_label n) = lo + 2 ^ (MAX_LEVEL - v) - 1 \<and>
    tl_num_leaves n = length (flat l) + length (flat r) \<and> tl_parent n = par \<and>
    tl_left_prev n = Some (root_ptr l) \<and> tl_right_next n = Some (root_ptr r) \<and>
    trep h (Some p) (Suc v) lo l \<and> trep h (Some p) (Suc v) (lo + 2 ^ (MAX_LEVEL - Suc v)) r)"
proof -
  have "trep (set_flag h p f) par' v' lo' t = trep h par' v' lo' t" if "p \<notin> set (tnodes t)" for f par' v' lo' t
    using that by (intro trep_frame ballI set_flag_other) auto
  then show ?thesis using assms by (auto simp: trep0_def trep_Inner) (auto simp: set_flag_def)
qed

text \<open>What the collection leaves of a tree: the nodes of the leaves, with their lists.\<close>

definition leaf_nodes :: "om_heap \<Rightarrow> leaf_desc list \<Rightarrow> bool" where
  "leaf_nodes h ds \<longleftrightarrow> (\<forall>(q, b, xs)\<in>set ds. \<exists>m. tlnodes h q = Some m \<and> tl_below m = Below b)"

lemma leaf_nodes_frame:
  "leaf_nodes h ds \<Longrightarrow> \<forall>q\<in>fst ` set ds. tlnodes h' q = tlnodes h q \<Longrightarrow> leaf_nodes h' ds"
  unfolding leaf_nodes_def by fastforce

lemma leaf_nodes_alloc: "leaf_nodes h ds \<Longrightarrow> q \<in> fst ` set ds \<Longrightarrow> \<exists>m. tlnodes h q = Some m"
  by (force simp: leaf_nodes_def)

lemma split_chain_below: "split_chain h prv cs \<Longrightarrow> leaf_nodes h cs"
  by (induction cs arbitrary: prv) (force simp: split_chain_Cons leaf_nodes_def)+

lemma flat_tnodes: "fst ` set (flat t) \<subseteq> set (tnodes t)"
  by (induction t) auto

text \<open>The last steps of \<^verbatim>\<open>build_array_of_leaves\<close> at one node.\<close>

lemma drop_node:
  assumes "tlnodes h p = Some n" "tl_left_prev n = None" "tl_right_next n = None"
  shows "do { n \<leftarrow> tlnodes h p; assert_c (tl_left_prev n = None); assert_c (tl_right_next n = None);
      h \<leftarrow> (if tl_needs_rebalance n then tl_node_free p h else Some h); Some (arr, h) } =
    Some (arr, if tl_needs_rebalance n then h\<lparr>tlnodes := (tlnodes h)(p := None)\<rparr> else h)"
  using assms by (simp add: tl_node_free_def)

definition dropped :: "tl_ptr \<Rightarrow> bool \<Rightarrow> om_heap \<Rightarrow> om_heap" where
  "dropped p f h = (if f then h\<lparr>tlnodes := (tlnodes h)(p := None)\<rparr> else h)"

lemma dropped_simps [simp]:
  "only_tl h (dropped p f h)" "fresh (dropped p f h) = fresh h"
  "q \<noteq> p \<Longrightarrow> tlnodes (dropped p f h) q = tlnodes h q"
  "\<not> f \<Longrightarrow> dropped p f h = h"
  by (auto simp: dropped_def)

lemma dropped_None: "tlnodes h q = None \<Longrightarrow> tlnodes (dropped p f h) q = None"
  by (auto simp: dropped_def)

definition collected :: "om_heap \<Rightarrow> om_heap \<Rightarrow> ltree \<Rightarrow> bool" where
  "collected h h' t \<longleftrightarrow> only_tl h h' \<and> fresh h' = fresh h \<and>
     (\<forall>q. q \<notin> set (tnodes t) \<longrightarrow> tlnodes h' q = tlnodes h q) \<and> leaf_nodes h' (flat t) \<and>
     (\<forall>q. tlnodes h q = None \<longrightarrow> tlnodes h' q = None) \<and>
     (\<forall>n. tlnodes h (root_ptr t) = Some n \<and> \<not> tl_needs_rebalance n \<longrightarrow>
        tlnodes h' (root_ptr t) = Some (cleared n))"

lemma collected_frame:
  "collected h h' t \<Longrightarrow> q \<notin> set (tnodes t) \<Longrightarrow> tlnodes h' q = tlnodes h q"
  by (simp add: collected_def)

lemma build_array_spec:
  assumes "trep0 h par v lo t" "distinct (tnodes t)"
    "tlnodes h (root_ptr t) = Some n" "tl_needs_rebalance n \<longrightarrow> dirty t"
    "l + length (flat t) = r" "r \<le> length arr"
  shows "\<exists>h'. build_array_of_leaves (Some (root_ptr t)) l r arr h =
      Some (put arr l (map fst (flat t)), h') \<and> collected h h' t"
  using assms
proof (induction t arbitrary: par v lo h n l r arr)
  case (Leaf p b xs)
  have n: "tl_level n = MAX_LEVEL" "tl_num_leaves n = 1" "tl_left_prev n = None"
      "tl_right_next n = None" "tl_below n = Below b" "\<not> tl_needs_rebalance n"
    using Leaf.prems by (auto simp: trep0_Leaf)
  have c: "cleared n = n" using n by (simp add: cleared_def)
  have "build_array_of_leaves (Some p) l r arr h = Some (arr[l := p], h)"
    using Leaf.prems n by (subst build_array_of_leaves.simps) (simp add: is_leaf_def store_at_def)
  moreover have "arr[l := p] = put arr l [p]"
    using put_Cons [of l p "[]" arr] Leaf.prems by simp
  moreover have "collected h h (Leaf p b xs)"
    using Leaf.prems(3) n c by (simp add: collected_def leaf_nodes_def)
  ultimately show ?case by simp
next
  case (Split p cs)
  have p: "p \<notin> fst ` set cs" "distinct (map fst cs)" using Split.prems(2) by auto
  have n: "tl_level n = MAX_LEVEL" "tl_num_leaves n = length cs" "1 < length cs"
      "tl_left_prev n = None" "tl_right_next n = None" "tl_below n = Split_nodes (fst (hd cs))"
      "split_chain h None cs"
    using Split.prems(1,3) by (auto simp: trep0_Split [OF p(1)])
  have hd: "hd_opt (map fst cs) None = Some (fst (hd cs))" using n(3) by (cases cs) auto
  from collect_split_spec [OF n(7) p(2), of l arr] Split.prems(5,6) obtain h1 where
    h1: "collect_split (Some (fst (hd cs))) l arr h = Some (r, put arr l (map fst cs), h1)"
      "only_tl h h1" "fresh h1 = fresh h"
      "\<forall>q. tlnodes h1 q = (if q \<in> fst ` set cs then map_option cleared (tlnodes h q) else tlnodes h q)"
    unfolding hd by auto
  have p1: "tlnodes h1 p = Some n" using h1(4) p(1) Split.prems(3) by simp
  let ?h = "dropped p (tl_needs_rebalance n) h1"
  have "build_array_of_leaves (Some p) l r arr h = Some (put arr l (map fst cs), ?h)"
    using Split.prems(3) n h1(1) p1
    by (subst build_array_of_leaves.simps)
      (simp add: is_leaf_def split_nodes_of_def dropped_def tl_node_free_def)
  moreover have "collected h ?h (Split p cs)"
  proof -
    have "leaf_nodes h1 cs"
      using split_chain_below [OF n(7)] h1(4) unfolding leaf_nodes_def by fastforce
    then have "leaf_nodes ?h cs"
    proof (rule leaf_nodes_frame, intro ballI)
      fix q assume "q \<in> fst ` set cs"
      then have "q \<noteq> p" using p(1) by blast
      then show "tlnodes ?h q = tlnodes h1 q" by simp
    qed
    moreover have "only_tl h ?h" using h1(2) only_tl_trans dropped_simps(1) by blast
    moreover have "cleared n = n" using n by (simp add: cleared_def)
    moreover have "tlnodes h1 q = None" if "tlnodes h q = None" for q using that h1(4) by auto
    ultimately show ?thesis
      using h1(3,4) p1 Split.prems(3) unfolding collected_def by (auto intro: dropped_None)
  qed
  ultimately show ?case by auto
next
  case (Inner p lt rt)
  have p: "p \<notin> set (tnodes lt)" "p \<notin> set (tnodes rt)" "distinct (tnodes lt)" "distinct (tnodes rt)"
      "set (tnodes lt) \<inter> set (tnodes rt) = {}"
    using Inner.prems(2) by auto
  have n: "v < MAX_LEVEL" "tl_level n = v" "tl_left_prev n = Some (root_ptr lt)"
      "tl_right_next n = Some (root_ptr rt)" "trep h (Some p) (Suc v) lo lt"
      "trep h (Some p) (Suc v) (lo + 2 ^ (MAX_LEVEL - Suc v)) rt"
    using Inner.prems(1,3) by (auto simp: trep0_Inner [OF p(1,2)])
  obtain ln where ln: "tlnodes h (root_ptr lt) = Some ln" "tl_num_leaves ln = length (flat lt)"
      "tl_needs_rebalance ln \<longleftrightarrow> dirty lt"
    using trep_root [OF n(5)] by auto
  let ?mid = "l + length (flat lt)"
  from Inner.IH(1) [OF trep_trep0 [OF n(5)] p(3) ln(1) _ refl, of l arr] ln(3) Inner.prems(5,6)
  obtain h1 where h1: "build_array_of_leaves (Some (root_ptr lt)) l ?mid arr h =
      Some (put arr l (map fst (flat lt)), h1)" "collected h h1 lt"
    by auto
  have same: "\<forall>q\<in>set (tnodes rt). tlnodes h1 q = tlnodes h q"
    using p(5) collected_frame [OF h1(2)] by blast
  then have t1: "trep h1 (Some p) (Suc v) (lo + 2 ^ (MAX_LEVEL - Suc v)) rt"
    using trep_frame n(6) by blast
  obtain rn where rn: "tlnodes h1 (root_ptr rt) = Some rn" "tl_needs_rebalance rn \<longleftrightarrow> dirty rt"
    using trep_root [OF t1] by auto
  from Inner.IH(2) [OF trep_trep0 [OF t1] p(4) rn(1), of ?mid r "put arr l (map fst (flat lt))"]
    rn(2) Inner.prems(5,6)
  obtain h2 where h2: "build_array_of_leaves (Some (root_ptr rt)) ?mid r (put arr l (map fst (flat lt))) h1 =
      Some (put (put arr l (map fst (flat lt))) ?mid (map fst (flat rt)), h2)" "collected h1 h2 rt"
    by auto
  have arr: "put (put arr l (map fst (flat lt))) ?mid (map fst (flat rt)) =
      put arr l (map fst (flat (Inner p lt rt)))"
    using put_append [of l "map fst (flat lt)" "map fst (flat rt)" arr] Inner.prems(5,6) by simp
  have p1: "tlnodes h1 p = Some n" "tlnodes h2 p = Some n"
    using collected_frame [OF h1(2) p(1)] collected_frame [OF h2(2) p(2)] Inner.prems(3) by auto
  let ?h3 = "h2\<lparr>tlnodes := (tlnodes h2)(p \<mapsto> cleared n)\<rparr>"
  let ?h = "dropped p (tl_needs_rebalance n) ?h3"
  have "build_array_of_leaves (Some p) l r arr h =
      Some (put arr l (map fst (flat (Inner p lt rt))), ?h)"
    using Inner.prems(3) n ln p1 h1(1) h2(1) arr
    by (subst build_array_of_leaves.simps)
      (simp add: is_leaf_def dropped_def tl_node_free_def upd_tl_def cleared_def)
  moreover have "collected h ?h (Inner p lt rt)"
  proof -
    have "leaf_nodes h2 (flat lt)"
      using h1(2) collected_frame [OF h2(2)] p(5) flat_tnodes [of lt]
      by (intro leaf_nodes_frame [of h1 _ h2]) (auto simp: collected_def)
    moreover have "leaf_nodes h2 (flat rt)" using h2(2) by (simp add: collected_def)
    ultimately have "leaf_nodes h2 (flat lt @ flat rt)" unfolding leaf_nodes_def by auto
    then have "leaf_nodes ?h (flat lt @ flat rt)"
    proof (rule leaf_nodes_frame, intro ballI)
      fix q assume "q \<in> fst ` set (flat lt @ flat rt)"
      then have "q \<noteq> p" using flat_tnodes [of lt] flat_tnodes [of rt] p(1,2) by auto
      then show "tlnodes ?h q = tlnodes h2 q" by simp
    qed
    moreover have "only_tl h ?h"
      using h1(2) h2(2) by (simp add: collected_def only_tl_def dropped_def)
    moreover have "tlnodes ?h q = None" if "tlnodes h q = None" for q
    proof -
      have "tlnodes h2 q = None" using that h1(2) h2(2) by (simp add: collected_def)
      moreover from this p1 have "q \<noteq> p" by auto
      ultimately show ?thesis by simp
    qed
    moreover have "fresh ?h = fresh h" using h1(2) h2(2) by (simp add: collected_def)
    moreover have "tlnodes ?h q = tlnodes h q" if "q \<notin> set (tnodes (Inner p lt rt))" for q
      using that collected_frame [OF h1(2), of q] collected_frame [OF h2(2), of q] by simp
    moreover have "\<not> tl_needs_rebalance n \<Longrightarrow> tlnodes ?h p = Some (cleared n)"
      by (simp add: dropped_def)
    ultimately show ?thesis
      using Inner.prems(3) unfolding collected_def flat.simps root_ptr.simps by simp
  qed
  ultimately show ?case by auto
qed

section \<open>Ranges of labels\<close>

lemma unat_mid_label:
  assumes "unat l = lo" "unat r = lo + 2 ^ Suc k - 1" "lo + 2 ^ Suc k \<le> 2 ^ 64"
  shows "unat (mid_label l r) = lo + 2 ^ k - 1" "unat (mid_label l r + 1) = lo + 2 ^ k"
proof -
  have k1: "(1::nat) \<le> 2 ^ k" by simp
  have "l \<le> r" using assms k1 unfolding word_le_nat_alt power_Suc by linarith
  then have "unat (r - l) = 2 * 2 ^ k - 1"
    using assms k1 by (simp add: unat_sub)
  then have d: "unat (drop_bit 1 (r - l)) = 2 ^ k - 1"
    using k1 by (simp add: unat_half)
  have "unat (drop_bit 1 (r - l) + 1) = 2 ^ k"
    using d k1 assms(3) by (subst unat_add_small) auto
  moreover have "lo + 2 ^ k < 2 ^ 64" using assms(3) k1 unfolding power_Suc by linarith
  ultimately have s: "unat (l + (drop_bit 1 (r - l) + 1)) = lo + 2 ^ k"
    using assms(1) by (subst unat_add_small) auto
  then have "1 \<le> l + (drop_bit 1 (r - l) + 1)" unfolding word_le_nat_alt s using k1 unfolding unat_1 by linarith
  then have "unat (l + (drop_bit 1 (r - l) + 1) - 1) = lo + 2 ^ k - 1"
    by (subst unat_sub) (simp_all only: s unat_1)
  then show "unat (mid_label l r) = lo + 2 ^ k - 1" by (simp add: mid_label_def)
  show "unat (mid_label l r + 1) = lo + 2 ^ k" using s by (simp add: mid_label_def add.assoc)
qed

lemma MAX_LABEL_minus1: "MAX_LABEL = -1"
  by (simp add: MAX_LABEL_def)

lemma range_mask:
  assumes "1 \<le> v" "v \<le> 64"
  shows "signed_drop_bit (v - 1) (push_bit 63 MAX_LABEL) AND w = push_bit (64 - v) (drop_bit (64 - v) w)"
proof (rule bit_word_eqI)
  fix i assume "i < LENGTH(64)"
  then have i: "i < 64" by simp
  have b: "bit (push_bit 63 (-1 :: 64 word)) j \<longleftrightarrow> j = 63" if "j < 64" for j
    using that by (auto simp: bit_not_iff bit_mask_iff)
  have "bit (signed_drop_bit (v - 1) (push_bit 63 (-1 :: 64 word))) i \<longleftrightarrow> 64 - v \<le> i"
    using assms i b by (auto simp: bit_signed_drop_bit_iff)
  then show "bit (signed_drop_bit (v - 1) (push_bit 63 MAX_LABEL) AND w) i =
      bit (push_bit (64 - v) (drop_bit (64 - v) w)) i"
    using i by (auto simp: bit_and_iff bit_push_bit_iff bit_drop_bit_eq MAX_LABEL_minus1)
qed

lemma last_of_block: "((2 ^ k - 1) + m * 2 ^ k) div 2 ^ k = (m::nat)"
proof -
  have "((2 ^ k - 1) + m * 2 ^ k) div 2 ^ k = m + (2 ^ k - 1) div (2 ^ k :: nat)"
    by (intro div_mult_self1) simp
  then show ?thesis by simp
qed

lemma range_left_value:
  assumes "tl_parent n = Some q" "1 \<le> tl_level n" "tl_level n \<le> 64"
    "unat (tl_label n) = lo + 2 ^ (64 - tl_level n) - 1" "2 ^ (64 - tl_level n) dvd lo"
  shows "\<exists>l. range_left n = Some l \<and> unat l = lo"
proof -
  let ?k = "64 - tl_level n"
  obtain m where m: "lo = 2 ^ ?k * m" using assms(5) by blast
  have "unat (tl_label n) div 2 ^ ?k = m"
  proof -
    have "unat (tl_label n) = (2 ^ ?k - 1) + m * 2 ^ ?k"
      using assms(4) m by (simp add: mult.commute add.commute)
    then show ?thesis by (simp only: last_of_block)
  qed
  then have "unat (push_bit ?k (drop_bit ?k (tl_label n))) = lo"
  proof -
    assume e: "unat (tl_label n) div 2 ^ ?k = m"
    have "(1::nat) \<le> 2 ^ ?k" by simp
    then have "lo \<le> unat (tl_label n)" using assms(4) by linarith
    then have "lo < 2 ^ 64" using unat_lt64 [of "tl_label n"] by linarith
    then show ?thesis
      using e m unfolding unsigned_push_bit_eq unsigned_drop_bit_eq
      unfolding push_bit_eq_mult drop_bit_eq_div
      using take_bit_nat_eq_self [OF unat_lt64 [of "tl_label n"]]
      by (simp add: take_bit_nat_eq_self mult.commute)
  qed
  then show ?thesis
    using assms(1-3) range_mask [of "tl_level n" "tl_label n"]
    by (simp add: range_left_def range_right_def MAX_LEVEL_def)
qed

section \<open>Building a balanced tree\<close>

text \<open>
  The slice from \<open>li\<close> to \<open>ri\<close> of the array holds the leaves \<open>ds\<close>. When they fit into the range
  of labels, the construction succeeds and yields a tree without split leaves over the same
  leaves; only those leaves and newly allocated nodes are written.
\<close>

definition built :: "om_heap \<Rightarrow> om_heap \<Rightarrow> tl_ptr \<Rightarrow> nat \<Rightarrow> nat \<Rightarrow> leaf_desc list \<Rightarrow> ltree \<Rightarrow> bool" where
  "built h h' par v lo ds t \<longleftrightarrow> trep h' (Some par) v lo t \<and> \<not> dirty t \<and> flat t = ds \<and>
     distinct (tnodes t) \<and> set (tnodes t) \<subseteq> fst ` set ds \<union> {fresh h..<fresh h'} \<and>
     (\<forall>q. q \<notin> fst ` set ds \<and> q < fresh h \<longrightarrow> tlnodes h' q = tlnodes h q) \<and>
     only_tl h h' \<and> heap_ok h' \<and> fresh h \<le> fresh h'"

lemma half_sizes:
  assumes "1 < (n::nat)" "n \<le> 2 ^ Suc k"
  shows "1 \<le> n div 2" "n div 2 \<le> 2 ^ k" "n - n div 2 \<le> 2 ^ k" "n - n div 2 < n" "n div 2 < n"
  using assms by auto

lemma dvd_odd_last:
  assumes "unat (r::label_t) = lo + 2 ^ Suc k - 1" "2 ^ Suc k dvd lo"
  shows "r mod 2 = 1"
proof -
  obtain m where "lo = 2 * (2 ^ k * m)" using assms(2) by (auto simp: dvd_def)
  moreover have "(1::nat) \<le> 2 ^ k" by simp
  ultimately have "unat r = 2 * (2 ^ k * m + 2 ^ k - 1) + 1"
    using assms(1) unfolding power_Suc by linarith
  then have "odd (unat r)" by presburger
  then have "odd r" by (simp add: odd_word_unat)
  then show ?thesis by (simp add: odd_iff_mod_2_eq_one)
qed

lemma rebuild_recursive_leaf:
  assumes "arr ! li = q" "li < length arr" "ri = Suc li" "tlnodes h q = Some m" "tl_below m = Below b"
    "unat llab = lo" "llab \<le> rlab" "heap_ok h" "v \<le> 64"
  shows "\<exists>h'. rebuild_recursive par arr li ri llab rlab h = Some (q, h') \<and>
    built h h' par v lo [(q, b, xs)] (Leaf q b xs)"
  using assms
  by (subst rebuild_recursive.simps)
    (auto simp: upd_tl_def built_def trep_Leaf MAX_LEVEL_def only_tl_def heap_ok_def)

definition inner_node :: "tl_ptr \<Rightarrow> nat \<Rightarrow> tl_node" where
  "inner_node par v = \<lparr>tl_label = 0, tl_level = v, tl_num_leaves = 0, tl_parent = Some par,
     tl_left_prev = None, tl_right_next = None, tl_below = Nothing_below, tl_needs_rebalance = False\<rparr>"

definition new_inner :: "om_heap \<Rightarrow> tl_ptr \<Rightarrow> nat \<Rightarrow> om_heap" where
  "new_inner h par v = h\<lparr>fresh := Suc (fresh h), tlnodes := (tlnodes h)(fresh h \<mapsto> inner_node par v)\<rparr>"

definition set_tl :: "om_heap \<Rightarrow> tl_ptr \<Rightarrow> tl_node \<Rightarrow> om_heap" where
  "set_tl h p n = h\<lparr>tlnodes := (tlnodes h)(p \<mapsto> n)\<rparr>"

lemma set_tl_simps [simp]:
  "tlnodes (set_tl h p n) = (tlnodes h)(p \<mapsto> n)" "fresh (set_tl h p n) = fresh h"
  "bnodes (set_tl h p n) = bnodes h" "blists (set_tl h p n) = blists h"
  "only_tl h (set_tl h p n)" "set_tl (set_tl h p m) p n = set_tl h p n"
  by (simp_all add: set_tl_def)

lemma upd_tl_set_tl: "tlnodes h p = Some n \<Longrightarrow> upd_tl p f h = Some (set_tl h p (f n))"
  by (simp add: upd_tl_def set_tl_def)

lemma heap_ok_set_tl: "heap_ok h \<Longrightarrow> p < fresh h \<Longrightarrow> heap_ok (set_tl h p n)"
  by (auto simp: heap_ok_def set_tl_def)

lemma rebuild_recursive_inner:
  assumes "ri - li = k" "1 < k" "llab \<le> rlab" "rlab mod 2 = 1" "tlnodes h par = Some pn" "par \<noteq> fresh h"
    "rebuild_recursive (fresh h) arr li (li + (k - k div 2)) llab (mid_label llab rlab)
       (new_inner h par (Suc (tl_level pn))) = Some (l, h2)"
    "tlnodes h2 (fresh h) = Some n2"
    "rebuild_recursive (fresh h) arr (li + (k - k div 2)) ri (mid_label llab rlab + 1) rlab
       (set_tl h2 (fresh h) (n2\<lparr>tl_left_prev := Some l\<rparr>)) = Some (r, h4)"
    "tlnodes h4 (fresh h) = Some n4"
  shows "rebuild_recursive par arr li ri llab rlab h =
    Some (fresh h, set_tl h4 (fresh h) (n4\<lparr>tl_right_next := Some r, tl_label := rlab, tl_num_leaves := k\<rparr>))"
proof -
  have "tl_node_new h = (fresh h, new_inner h par 0\<lparr>tlnodes := (tlnodes h)(fresh h \<mapsto>
      (inner_node par 0)\<lparr>tl_parent := None\<rparr>)\<rparr>)"
    by (simp add: tl_node_new_def new_inner_def inner_node_def)
  moreover have "new_inner h par (Suc (tl_level pn)) =
      (new_inner h par 0)\<lparr>tlnodes := (tlnodes h)(fresh h \<mapsto> inner_node par (Suc (tl_level pn)))\<rparr>"
    by (simp add: new_inner_def)
  ultimately show ?thesis
    using assms
    by (subst rebuild_recursive.simps)
      (simp add: Let_def upd_tl_def set_tl_def inner_node_def fun_upd_twist)
qed

definition replaced :: "om_heap \<Rightarrow> om_heap \<Rightarrow> tl_ptr option \<Rightarrow> nat \<Rightarrow> nat \<Rightarrow> tl_ptr list \<Rightarrow> leaf_desc list \<Rightarrow> ltree \<Rightarrow> bool" where
  "replaced h h' par v lo ps ds t \<longleftrightarrow> trep h' par v lo t \<and> \<not> dirty t \<and> flat t = ds \<and>
     distinct (tnodes t) \<and> set (tnodes t) \<subseteq> set ps \<union> {fresh h..<fresh h'} \<and>
     (\<forall>q. q \<notin> set ps \<and> q < fresh h \<longrightarrow> tlnodes h' q = tlnodes h q) \<and>
     only_tl h h' \<and> heap_ok h' \<and> fresh h \<le> fresh h'"

lemma built_mem:
  assumes "built h h' par v lo ds t" "\<forall>q\<in>fst ` set ds. q < fresh h" "x \<in> set (tnodes t)"
  shows "x \<in> fst ` set ds \<or> (fresh h \<le> x \<and> x < fresh h')" "x < fresh h'"
proof -
  show "x \<in> fst ` set ds \<or> (fresh h \<le> x \<and> x < fresh h')"
    using assms(1,3) by (meson UnE atLeastLessThan_iff built_def subsetD)
  then show "x < fresh h'" using assms(1,2) unfolding built_def by (meson less_le_trans)
qed

lemma built_out:
  assumes "built h h' par v lo ds t" "q \<notin> fst ` set ds" "q < fresh h"
  shows "q \<notin> set (tnodes t)" "tlnodes h' q = tlnodes h q"
proof -
  show "tlnodes h' q = tlnodes h q" using assms by (simp add: built_def)
  show "q \<notin> set (tnodes t)"
    using assms unfolding built_def by (meson UnE atLeastLessThan_iff not_le subsetD)
qed

text \<open>
  Two halves built below the node \<open>p\<close>, one after the other, and the node completed: a tree
  over both lists of leaves.
\<close>

lemma join_halves:
  assumes l: "built h1 h2 p (Suc v) lo d1 lt" and r: "built (set_tl h2 p n3) h4 p (Suc v) (lo + 2 ^ k) d2 rt"
    and p: "p \<notin> fst ` set d1" "p \<notin> fst ` set d2" "p < fresh h1"
    and al: "\<forall>q\<in>fst ` set d1 \<union> fst ` set d2. q < fresh h1" and dis: "fst ` set d1 \<inter> fst ` set d2 = {}"
    and n: "v < 64" "64 - v = Suc k" "tl_level n = v" "unat (tl_label n) = lo + 2 ^ Suc k - 1"
      "tl_num_leaves n = length d1 + length d2" "tl_parent n = par" "tl_left_prev n = Some (root_ptr lt)"
      "tl_right_next n = Some (root_ptr rt)" "\<not> tl_needs_rebalance n"
  shows "replaced h1 (set_tl h4 p n) par v lo (p # map fst (d1 @ d2)) (d1 @ d2) (Inner p lt rt)"
proof -
  let ?h3 = "set_tl h2 p n3" and ?h5 = "set_tl h4 p n"
  have kv: "64 - Suc v = k" using n(2) by simp
  have f: "fresh h1 \<le> fresh h2" "fresh h2 \<le> fresh h4" using l r by (simp_all add: built_def)
  have al1: "\<forall>q\<in>fst ` set d1. q < fresh h1" and al2: "\<forall>q\<in>fst ` set d2. q < fresh ?h3"
    using al f(1) by (auto intro: less_le_trans)
  have pl: "p \<notin> set (tnodes lt)" using built_out(1) [OF l p(1,3)] .
  have pr: "p \<notin> set (tnodes rt)" using built_out(1) [OF r p(2)] p(3) f(1) by simp
  have out: "x \<notin> fst ` set d2 \<and> x < fresh ?h3" if "x \<in> set (tnodes lt)" for x
    using built_mem [OF l al1 that] al dis by (metis IntI Un_iff empty_iff not_le set_tl_simps(2))
  have "\<forall>q\<in>set (tnodes lt). tlnodes ?h5 q = tlnodes h2 q"
  proof
    fix q assume q: "q \<in> set (tnodes lt)"
    then have "q \<noteq> p" using pl by blast
    then show "tlnodes ?h5 q = tlnodes h2 q" using built_out(2) [OF r, of q] out [OF q] by simp
  qed
  then have tl: "trep ?h5 (Some p) (Suc v) lo lt" using l trep_frame unfolding built_def by blast
  have "\<forall>q\<in>set (tnodes rt). tlnodes ?h5 q = tlnodes h4 q" using pr by auto
  then have tr: "trep ?h5 (Some p) (Suc v) (lo + 2 ^ k) rt" using r trep_frame unfolding built_def by blast
  have fl: "flat lt = d1" "flat rt = d2" "\<not> dirty lt" "\<not> dirty rt" using l r by (simp_all add: built_def)
  have "trep ?h5 par v lo (Inner p lt rt)"
    unfolding trep_Inner MAX_LEVEL_def kv n(2) using tl tr n fl by simp
  moreover have "heap_ok ?h5" using r p(3) f unfolding built_def by (intro heap_ok_set_tl) auto
  moreover have "only_tl h1 ?h5" using l r by (simp add: built_def only_tl_def)
  moreover have "tlnodes ?h5 q = tlnodes h1 q" if "q \<notin> set (p # map fst (d1 @ d2))" "q < fresh h1" for q
  proof -
    have q: "q \<notin> fst ` set d1" "q \<notin> fst ` set d2" "q < fresh ?h3" "q \<noteq> p" using that f(1) by auto
    then show ?thesis using built_out(2) [OF l q(1) that(2)] built_out(2) [OF r q(2,3)] by simp
  qed
  moreover have "set (tnodes (Inner p lt rt)) \<subseteq> set (p # map fst (d1 @ d2)) \<union> {fresh h1..<fresh ?h5}"
  proof -
    have "set (tnodes lt) \<subseteq> fst ` set d1 \<union> {fresh h1..<fresh h2}"
      "set (tnodes rt) \<subseteq> fst ` set d2 \<union> {fresh h2..<fresh h4}"
      using l r by (simp_all add: built_def)
    moreover have "{fresh h1..<fresh h2} \<subseteq> {fresh h1..<fresh h4}" "{fresh h2..<fresh h4} \<subseteq> {fresh h1..<fresh h4}"
      using f by auto
    moreover have "set (p # map fst (d1 @ d2)) = insert p (fst ` set d1 \<union> fst ` set d2)"
      by (simp add: image_Un)
    moreover have "set (tnodes (Inner p lt rt)) = insert p (set (tnodes lt) \<union> set (tnodes rt))" by simp
    ultimately show ?thesis unfolding set_tl_simps by blast
  qed
  moreover have "distinct (tnodes (Inner p lt rt))"
  proof -
    have "x \<notin> set (tnodes rt)" if "x \<in> set (tnodes lt)" for x
      using built_out(1) [OF r] out [OF that] by blast
    then show ?thesis using l r pl pr by (auto simp: built_def)
  qed
  moreover have "fresh h1 \<le> fresh ?h5" using f by simp
  ultimately show ?thesis using fl unfolding replaced_def by simp
qed

lemma rebuild_recursive_spec:
  assumes "ds \<noteq> []" "ri = li + length ds" "ri \<le> length arr"
    "\<forall>i<length ds. arr ! (li + i) = fst (ds ! i)"
    "leaf_nodes h ds" "distinct (map fst ds)" "heap_ok h"
    "par \<notin> fst ` set ds" "tlnodes h par = Some pn" "Suc (tl_level pn) = v \<or> length ds = 1" "v \<le> 64"
    "length ds \<le> 2 ^ (64 - v)" "2 ^ (64 - v) dvd lo" "lo + 2 ^ (64 - v) \<le> 2 ^ 64"
    "unat llab = lo" "unat rlab = lo + 2 ^ (64 - v) - 1"
  shows "\<exists>t h'. rebuild_recursive par arr li ri llab rlab h = Some (root_ptr t, h') \<and>
    built h h' par v lo ds t"
  using assms
proof (induction "length ds" arbitrary: ds li ri h par pn v lo llab rlab rule: less_induct)
  case less
  note prems = less.prems
  have p1: "(1::nat) \<le> 2 ^ (64 - v)" by simp
  have le: "llab \<le> rlab" using prems(15,16) p1 unfolding word_le_nat_alt by linarith
  show ?case
  proof (cases "length ds = 1")
    case True
    then obtain q b xs where ds: "ds = [(q, b, xs)]" by (metis length_0_conv length_Suc_conv One_nat_def prod_cases3)
    obtain m where m: "tlnodes h q = Some m" "tl_below m = Below b"
      using prems(5) ds by (auto simp: leaf_nodes_def)
    have "arr ! li = q" "li < length arr" "ri = Suc li" using prems(2-4) ds by auto
    from rebuild_recursive_leaf [OF this m prems(15) le prems(7,11), of par xs] ds
    show ?thesis by (intro exI [of _ "Leaf q b xs"]) auto
  next
    case False
    let ?size = "length ds"
    have s1: "1 < ?size" using False prems(1) by (cases ds) auto
    have v: "Suc (tl_level pn) = v" using False prems(10) by auto
    have "v \<noteq> 64" using s1 prems(12) by auto
    then obtain k where k: "64 - v = Suc k" "v < 64" using prems(11) by (metis Suc_diff_Suc le_neq_implies_less)
    have kv: "64 - Suc v = k" using k by simp
    let ?m = "?size - ?size div 2"
    have s2: "?size \<le> 2 ^ Suc k" using prems(12) k by simp
    note hs = half_sizes [OF s1 s2]
    let ?n = "fresh h"
    define h1 where "h1 = new_inner h par v"
    note new_inner_def [simp]
    have par: "par < fresh h" using heap_ok_fresh(3) [OF prems(7), of par] prems(9) by force
    have ptr: "q < fresh h" if "q \<in> fst ` set ds" for q
    proof -
      obtain m where "tlnodes h q = Some m" using leaf_nodes_alloc [OF prems(5) \<open>q \<in> fst ` set ds\<close>] by blast
      then show ?thesis using heap_ok_fresh(3) [OF prems(7), of q] by force
    qed
    define d1 d2 where "d1 = take ?m ds" "d2 = drop ?m ds"
    have ds: "ds = d1 @ d2" by (simp add: d1_d2_def)
    have len: "length d1 = ?m" "length d2 = ?size div 2" using s1 by (auto simp: d1_d2_def)
    have ne: "d1 \<noteq> []" "d2 \<noteq> []" using len hs(1) s1 by auto
    have dd: "distinct (map fst d1)" "distinct (map fst d2)" "fst ` set d1 \<inter> fst ` set d2 = {}"
      using prems(6) ds by auto
    have im: "fst ` set ds = fst ` set d1 \<union> fst ` set d2" using ds by auto
    have ptr1: "q < ?n" if "q \<in> fst ` set d1" for q using ptr that im by blast
    have ptr2: "q < ?n" if "q \<in> fst ` set d2" for q using ptr that im by blast
    have dis: "q \<notin> fst ` set d1" if "q \<in> fst ` set d2" for q using dd(3) that by blast
    have n1: "?n \<notin> fst ` set d1" using ptr1 by blast
    have n2: "?n \<notin> fst ` set d2" using ptr2 by blast
    note mid = unat_mid_label [OF prems(15), of rlab k]
    have lr: "unat rlab = lo + 2 ^ Suc k - 1" "lo + 2 ^ Suc k \<le> 2 ^ 64" using prems(14,16) k by auto
    have dv: "2 ^ Suc k dvd lo" using prems(13) k by simp
    then have dvk: "2 ^ k dvd lo" by (metis dvd_mult_right power_Suc)
    have ok1: "heap_ok h1" using prems(7) by (auto simp: h1_def heap_ok_def)
    have ln1: "leaf_nodes h1 d1"
    proof (rule leaf_nodes_frame)
      show "leaf_nodes h d1" using prems(5) ds by (auto simp: leaf_nodes_def)
      show "\<forall>q\<in>fst ` set d1. tlnodes h1 q = tlnodes h q"
      proof
        fix q assume "q \<in> fst ` set d1"
        then have "q \<noteq> ?n" using n1 by blast
        then show "tlnodes h1 q = tlnodes h q" by (simp add: h1_def)
      qed
    qed
    have arr1: "\<forall>i<length d1. arr ! (li + i) = fst (d1 ! i)"
      using prems(4) ds by (auto simp: nth_append)
    have tn1: "tlnodes h1 ?n = Some (inner_node par v)" (is "_ = Some ?nn")
      by (simp add: h1_def)
    have pw: "(2::nat) ^ k \<le> 2 ^ Suc k" by simp
    have v64: "Suc v \<le> 64" using k(2) by simp
    have lv: "Suc (tl_level ?nn) = Suc v \<or> length d = 1" for d :: "leaf_desc list"
      by (simp add: inner_node_def)
    have room: "length d1 \<le> 2 ^ (64 - Suc v)" "length d2 \<le> 2 ^ (64 - Suc v)"
      unfolding kv len using hs by simp_all
    have lo1: "lo + 2 ^ (64 - Suc v) \<le> 2 ^ 64" using lr(2) pw unfolding kv by linarith
    have i1: "li + ?m = li + length d1" "li + ?m \<le> length arr" "length d1 < ?size" "length d2 < ?size"
      using len prems(2,3) hs(4,5) by simp_all
    have "\<exists>t h'. rebuild_recursive ?n arr li (li + ?m) llab (mid_label llab rlab) h1 = Some (root_ptr t, h') \<and>
        built h1 h' ?n (Suc v) lo d1 t"
      by (rule less.hyps [OF i1(3) ne(1) i1(1,2) arr1 ln1 dd(1) ok1 n1 tn1 lv v64 room(1)
            dvk [folded kv] lo1 prems(15) mid(1) [OF lr, folded kv]])
    then obtain lt h2 where h2: "rebuild_recursive ?n arr li (li + ?m) llab (mid_label llab rlab) h1 =
        Some (root_ptr lt, h2)" "built h1 h2 ?n (Suc v) lo d1 lt"
      by blast
    have tn2: "tlnodes h2 ?n = Some ?nn" using h2(2) n1 tn1 by (simp add: built_def h1_def)
    define h3 where "h3 = set_tl h2 ?n (?nn\<lparr>tl_left_prev := Some (root_ptr lt)\<rparr>)"
    have f2: "fresh h3 = fresh h2" "Suc ?n \<le> fresh h2" using h2(2) by (auto simp: h3_def built_def h1_def)
    have ok3: "heap_ok h3"
      using h2(2) f2 unfolding h3_def built_def by (intro heap_ok_set_tl) auto
    have same3: "tlnodes h3 q = tlnodes h q" if "q < ?n" "q \<notin> fst ` set d1" for q
      using that h2(2) by (simp add: built_def h3_def h1_def)
    have ln2: "leaf_nodes h3 d2"
    proof (rule leaf_nodes_frame)
      show "leaf_nodes h d2" using prems(5) ds by (auto simp: leaf_nodes_def)
      show "\<forall>q\<in>fst ` set d2. tlnodes h3 q = tlnodes h q" using same3 ptr2 dis by blast
    qed
    have arr2: "\<forall>i<length d2. arr ! ((li + ?m) + i) = fst (d2 ! i)"
    proof (intro allI impI)
      fix i assume "i < length d2"
      then have "?m + i < ?size" using len by simp
      moreover have "d2 ! i = ds ! (?m + i)" by (simp add: d1_d2_def)
      ultimately show "arr ! ((li + ?m) + i) = fst (d2 ! i)"
        using prems(4) unfolding add.assoc by metis
    qed
    have tn3: "tlnodes h3 ?n = Some (?nn\<lparr>tl_left_prev := Some (root_ptr lt)\<rparr>)" by (simp add: h3_def)
    have sum: "li + ?m + length d2 = ri" using len prems(2) by simp
    have "\<exists>t h'. rebuild_recursive ?n arr (li + ?m) ri (mid_label llab rlab + 1) rlab h3 = Some (root_ptr t, h') \<and>
        built h3 h' ?n (Suc v) (lo + 2 ^ k) d2 t"
    proof -
      have lv2: "Suc (tl_level (?nn\<lparr>tl_left_prev := Some (root_ptr lt)\<rparr>)) = Suc v \<or> length d2 = 1"
        by (simp add: inner_node_def)
      have a: "2 ^ (64 - Suc v) dvd lo + 2 ^ k" unfolding kv using dvk by simp
      have b: "lo + 2 ^ k + 2 ^ (64 - Suc v) \<le> 2 ^ 64" using lr(2) unfolding kv power_Suc by linarith
      have c: "unat rlab = lo + 2 ^ k + 2 ^ (64 - Suc v) - 1"
        using lr(1) unfolding kv power_Suc by linarith
      show ?thesis
        by (rule less.hyps [OF i1(4) ne(2) sum [symmetric] prems(3) arr2 ln2 dd(2) ok3 n2 tn3 lv2 v64
              room(2) a b mid(2) [OF lr] c])
    qed
    then obtain rt h4 where h4: "rebuild_recursive ?n arr (li + ?m) ri (mid_label llab rlab + 1) rlab h3 =
        Some (root_ptr rt, h4)" "built h3 h4 ?n (Suc v) (lo + 2 ^ k) d2 rt"
      by blast
    have tn4: "tlnodes h4 ?n = Some (?nn\<lparr>tl_left_prev := Some (root_ptr lt)\<rparr>)"
      using h4(2) n2 tn3 f2 by (simp add: built_def)
    let ?h5 = "set_tl h4 ?n (?nn\<lparr>tl_left_prev := Some (root_ptr lt),
        tl_right_next := Some (root_ptr rt), tl_label := rlab, tl_num_leaves := ?size\<rparr>)"
    let ?t = "Inner ?n lt rt"
    have odd: "rlab mod 2 = 1" using dvd_odd_last [OF lr(1) dv] .
    have sz: "ri - li = ?size" using prems(2) by simp
    have run: "rebuild_recursive par arr li ri llab rlab h = Some (?n, ?h5)"
      using rebuild_recursive_inner [OF sz s1 le odd prems(9) _ h2(1) [unfolded h1_def, folded v] tn2
          h4(1) [unfolded h3_def] tn4] par by simp
    have nf: "?n < fresh h1" by (simp add: h1_def)
    have al: "\<forall>q\<in>fst ` set d1 \<union> fst ` set d2. q < fresh h1"
    proof
      fix q assume "q \<in> fst ` set d1 \<union> fst ` set d2"
      then have "q < ?n" using ptr im by blast
      then show "q < fresh h1" by (simp add: h1_def)
    qed
    have kn: "64 - v = Suc k" "v < 64" using k by simp_all
    have "replaced h1 ?h5 (Some par) v lo (?n # map fst (d1 @ d2)) (d1 @ d2) ?t"
      using len by (intro join_halves [OF h2(2) h4(2) [unfolded h3_def] n1 n2 nf al dd(3) kn(2,1)])
        (simp_all add: inner_node_def lr)
    then have "built h ?h5 par v lo ds ?t"
      using ds n1 n2 im unfolding replaced_def built_def
      by (auto simp: h1_def only_tl_def)
    then show ?thesis using run by (intro exI [of _ ?t] exI [of _ ?h5]) simp
  qed
qed

section \<open>Rebuilding at a node\<close>

lemma rebuild_children_spec:
  assumes ds: "2 \<le> length ds" "length arr = length ds" "arr = map fst ds"
    "leaf_nodes h ds" "distinct (map fst ds)" and ok: "heap_ok h"
    and p: "p \<notin> fst ` set ds" "tlnodes h p = Some n" "tl_level n = v" "tl_num_leaves n = length ds"
      "tl_parent n = par" "\<not> tl_needs_rebalance n" "unat (tl_label n) = lo + 2 ^ (64 - v) - 1"
      "range_left n = Some ll" "unat ll = lo"
    and v: "v \<le> 64" "length ds \<le> 2 ^ (64 - v)" "2 ^ (64 - v) dvd lo" "lo + 2 ^ (64 - v) \<le> 2 ^ 64"
  shows "\<exists>lt rt h'. rebuild_children p arr (length ds) h = Some h' \<and>
    replaced h h' par v lo (p # map fst ds) ds (Inner p lt rt)"
proof -
  let ?k = "length ds" let ?m = "?k - ?k div 2"
  have "v \<noteq> 64" using ds(1) v(2) by auto
  then obtain k where k: "64 - v = Suc k" "v < 64" using v(1) by (metis Suc_diff_Suc le_neq_implies_less)
  have kv: "64 - Suc v = k" using k by simp
  note lr = p(7) [unfolded k(1)] v(4) [unfolded k(1)]
  note mid = unat_mid_label [OF p(9) lr]
  have hs: "1 \<le> ?k div 2" "?k div 2 \<le> 2 ^ k" "?m \<le> 2 ^ k" "?m < ?k" "?k div 2 < ?k"
    using half_sizes [of ?k k] ds(1) v(2) k(1) by auto
  have m1: "1 \<le> ?m" using ds(1) by linarith
  have dvk: "2 ^ k dvd lo" using v(3) unfolding k(1) by (metis dvd_mult_right power_Suc)
  define d1 d2 where "d1 = take ?m ds" "d2 = drop ?m ds"
  have dd: "ds = d1 @ d2" "length d1 = ?m" "length d2 = ?k div 2" using ds(1) by (auto simp: d1_d2_def)
  have ne: "d1 \<noteq> []" "d2 \<noteq> []" using dd(2,3) hs m1 by auto
  have dist: "distinct (map fst d1)" "distinct (map fst d2)" "fst ` set d1 \<inter> fst ` set d2 = {}"
    using ds(5) unfolding dd(1) by auto
  have im: "fst ` set ds = fst ` set d1 \<union> fst ` set d2" unfolding dd(1) by auto
  have alloc: "q < fresh h" if q: "q \<in> fst ` set ds" for q
  proof -
    obtain m where "tlnodes h q = Some m" using leaf_nodes_alloc [OF ds(4) q] by blast
    then show ?thesis using heap_ok_fresh(3) [OF ok, of q] by force
  qed
  have pf: "p < fresh h" using heap_ok_fresh(3) [OF ok, of p] p(2) by force
  have ln: "leaf_nodes h d1" "leaf_nodes h d2" using ds(4) unfolding dd(1) leaf_nodes_def by auto
  let ?h1 = "set_tl h p (cleared n)"
  have ok1: "heap_ok ?h1" using ok pf by (rule heap_ok_set_tl)
  have pn: "p \<notin> fst ` set d1" "p \<notin> fst ` set d2" using p(1) im by auto
  have ln1: "leaf_nodes ?h1 d1"
    using ln(1) by (rule leaf_nodes_frame) (metis fun_upd_other pn(1) set_tl_simps(1))
  have arr1: "\<forall>i<length d1. arr ! (0 + i) = fst (d1 ! i)"
    unfolding ds(3) dd(1) by (simp add: nth_append)
  have arr2: "\<forall>i<length d2. arr ! (?m + i) = fst (d2 ! i)"
  proof (intro allI impI)
    fix i assume "i < length d2"
    then have "?m + i < ?k" using dd(3) by simp
    moreover have "d2 ! i = ds ! (?m + i)" by (simp add: d1_d2_def)
    ultimately show "arr ! (?m + i) = fst (d2 ! i)" unfolding ds(3) by simp
  qed
  have lv: "Suc (tl_level (cleared n)) = Suc v \<or> length d1 = 1" using p(3) by simp
  have i1: "?m = 0 + length d1" "?m \<le> length arr" using dd(2) ds(2) by simp_all
  have room: "length d1 \<le> 2 ^ (64 - Suc v)" "length d2 \<le> 2 ^ (64 - Suc v)"
    unfolding kv dd(2,3) using hs by simp_all
  have lo1: "lo + 2 ^ (64 - Suc v) \<le> 2 ^ 64"
    using lr(2) unfolding kv power_Suc by linarith
  have v64: "Suc v \<le> 64" using k(2) by simp
  have tp1: "tlnodes ?h1 p = Some (cleared n)" by simp
  let ?ml = "mid_label ll (tl_label n)"
  from rebuild_recursive_spec [OF ne(1) i1 arr1 ln1 dist(1) ok1 pn(1) tp1 lv v64 room(1)
      dvk [folded kv] lo1 p(9) mid(1) [folded kv]]
  obtain lt h2 where h2: "rebuild_recursive p arr 0 ?m ll ?ml ?h1 = Some (root_ptr lt, h2)"
      "built ?h1 h2 p (Suc v) lo d1 lt" by blast
  have al1: "\<forall>q\<in>fst ` set d1. q < fresh ?h1" using alloc im by auto
  have tp2: "tlnodes h2 p = Some (cleared n)" using built_out(2) [OF h2(2) pn(1)] pf by simp
  let ?h3 = "set_tl h2 p ((cleared n)\<lparr>tl_left_prev := Some (root_ptr lt)\<rparr>)"
  have f2: "fresh h \<le> fresh h2" using h2(2) by (simp add: built_def)
  have ok3: "heap_ok ?h3" using h2(2) pf f2 unfolding built_def by (intro heap_ok_set_tl) auto
  have ln2: "leaf_nodes ?h3 d2"
  proof (rule leaf_nodes_frame [OF ln(2)], intro ballI)
    fix q assume q: "q \<in> fst ` set d2"
    then have "q \<notin> fst ` set d1" "q < fresh ?h1" "q \<noteq> p" using dist(3) alloc im pn by auto
    then show "tlnodes ?h3 q = tlnodes h q" using built_out(2) [OF h2(2)] by simp
  qed
  have tp3: "tlnodes ?h3 p = Some ((cleared n)\<lparr>tl_left_prev := Some (root_ptr lt)\<rparr>)" by simp
  have lv2: "Suc (tl_level ((cleared n)\<lparr>tl_left_prev := Some (root_ptr lt)\<rparr>)) = Suc v \<or> length d2 = 1"
    using p(3) by simp
  have i2: "?k = ?m + length d2" "?k \<le> length arr" using dd(3) ds(2) by simp_all
  have a: "2 ^ (64 - Suc v) dvd lo + 2 ^ k" unfolding kv using dvk by simp
  have b: "lo + 2 ^ k + 2 ^ (64 - Suc v) \<le> 2 ^ 64" using lr(2) unfolding kv power_Suc by linarith
  have c: "unat (tl_label n) = lo + 2 ^ k + 2 ^ (64 - Suc v) - 1"
    using lr(1) unfolding kv power_Suc by linarith
  from rebuild_recursive_spec [OF ne(2) i2 arr2 ln2 dist(2) ok3 pn(2) tp3 lv2 v64 room(2) a b mid(2) c]
  obtain rt h4 where h4: "rebuild_recursive p arr ?m ?k (?ml + 1) (tl_label n) ?h3 = Some (root_ptr rt, h4)"
      "built ?h3 h4 p (Suc v) (lo + 2 ^ k) d2 rt" by blast
  have tp4: "tlnodes h4 p = Some ((cleared n)\<lparr>tl_left_prev := Some (root_ptr lt)\<rparr>)"
    using built_out(2) [OF h4(2) pn(2)] pf f2 by simp
  let ?n5 = "n\<lparr>tl_left_prev := Some (root_ptr lt), tl_right_next := Some (root_ptr rt)\<rparr>"
  let ?h5 = "set_tl h4 p ?n5"
  have odd: "tl_label n mod 2 = 1" using dvd_odd_last [OF lr(1)] v(3) k(1) by simp
  have rl: "range_left (cleared n) = Some ll" using p(8) unfolding range_left_def range_right_def cleared_simps .
  have run: "rebuild_children p arr ?k h = Some ?h5"
    using p(2) rl odd h2(1) tp2 h4(1) tp4
    by (simp add: rebuild_children_def upd_tl_set_tl cleared_def Let_def)
  have al: "\<forall>q\<in>fst ` set d1 \<union> fst ` set d2. q < fresh ?h1" using alloc im by simp
  have pf1: "p < fresh ?h1" using pf by simp
  have "replaced ?h1 ?h5 par v lo (p # map fst (d1 @ d2)) (d1 @ d2) (Inner p lt rt)"
    using p dd(2,3) by (intro join_halves [OF h2(2) h4(2) pn pf1 al dist(3) k(2,1)]) (simp_all add: lr)
  then have "replaced h ?h5 par v lo (p # map fst ds) ds (Inner p lt rt)"
    unfolding replaced_def dd(1) [symmetric] by (auto simp: only_tl_def)
  then show ?thesis using run by blast
qed

text \<open>
  The place of a node: the root of the tree, or a child of a node from which its level and its
  range follow.
\<close>

definition place :: "om_heap \<Rightarrow> tl_ptr option \<Rightarrow> tl_ptr \<Rightarrow> nat \<Rightarrow> nat \<Rightarrow> bool" where
  "place h par p v lo \<longleftrightarrow> (case par of None \<Rightarrow> v = 0 \<and> lo = 0
     | Some q \<Rightarrow> (\<exists>qn. tlnodes h q = Some qn \<and> v = Suc (tl_level qn) \<and> q \<noteq> p \<and>
         (if tl_right_next qn = Some p then unat (tl_label qn) = lo + 2 ^ (64 - v) - 1
          else unat (tl_label qn) = lo + 2 ^ Suc (64 - v) - 1 \<and>
            (\<exists>ll. range_left qn = Some ll \<and> unat ll = lo))))"

lemma place_frame:
  "place h par p v lo \<Longrightarrow> \<forall>q. par = Some q \<longrightarrow> tlnodes h' q = tlnodes h q \<Longrightarrow> place h' par p v lo"
  by (auto simp: place_def split: option.splits)

lemma unat_half_range:
  assumes "unat (r::label_t) = lo + 2 ^ Suc k - 1" "unat l = lo" "lo + 2 ^ Suc k \<le> 2 ^ 64"
  shows "unat (drop_bit 1 (r - l) + l) = lo + 2 ^ k - 1"
proof -
  have k1: "(1::nat) \<le> 2 ^ k" by simp
  have "l \<le> r" using assms k1 unfolding word_le_nat_alt power_Suc by linarith
  then have "unat (r - l) = 2 * 2 ^ k - 1" using assms k1 by (simp add: unat_sub)
  then have "unat (drop_bit 1 (r - l)) = (2 * 2 ^ k - 1) div 2" by (simp add: unat_half)
  then have "unat (drop_bit 1 (r - l)) = 2 ^ k - 1" using k1 by linarith
  moreover have "2 ^ k - 1 + lo < 2 ^ 64" using assms(3) k1 unfolding power_Suc by linarith
  ultimately show ?thesis using assms(2) k1 by (subst unat_add_small) auto
qed

lemma leaf_to_inner_spec:
  assumes "tlnodes h p = Some n" "tl_parent n = par" "place h par p v lo" "v < 64"
    "lo + 2 ^ (64 - v) \<le> 2 ^ 64" "par \<noteq> None \<Longrightarrow> lo + 2 ^ Suc (64 - v) \<le> 2 ^ 64 \<or>
      (\<exists>qn. tlnodes h (the par) = Some qn \<and> tl_right_next qn = Some p)"
  shows "\<exists>n'. leaf_to_inner p h = Some (set_tl h p n') \<and> tl_level n' = v \<and>
    unat (tl_label n') = lo + 2 ^ (64 - v) - 1 \<and> tl_parent n' = par \<and>
    tl_needs_rebalance n' = tl_needs_rebalance n \<and> tl_num_leaves n' = tl_num_leaves n"
proof (cases par)
  case None
  with assms show ?thesis
    by (intro exI [of _ "n\<lparr>tl_below := Nothing_below, tl_level := 0, tl_label := MAX_LABEL\<rparr>"])
      (simp add: leaf_to_inner_def upd_tl_set_tl place_def unat_MAX_LABEL)
next
  case (Some q)
  obtain qn where q: "tlnodes h q = Some qn" "v = Suc (tl_level qn)" "q \<noteq> p"
      "if tl_right_next qn = Some p then unat (tl_label qn) = lo + 2 ^ (64 - v) - 1
       else unat (tl_label qn) = lo + 2 ^ Suc (64 - v) - 1 \<and> (\<exists>ll. range_left qn = Some ll \<and> unat ll = lo)"
    using assms(3) Some by (auto simp: place_def)
  show ?thesis
  proof (cases "tl_right_next qn = Some p")
    case True
    with assms q Some show ?thesis
      by (intro exI [of _ "n\<lparr>tl_below := Nothing_below, tl_label := tl_label qn,
          tl_level := Suc (tl_level qn)\<rparr>"]) (simp add: leaf_to_inner_def upd_tl_set_tl)
  next
    case False
    then obtain ll where ll: "range_left qn = Some ll" "unat ll = lo"
        "unat (tl_label qn) = lo + 2 ^ Suc (64 - v) - 1"
      using q(4) by auto
    have "lo + 2 ^ Suc (64 - v) \<le> 2 ^ 64" using assms(6) Some q False by auto
    note u = unat_half_range [OF ll(3,2) this]
    show ?thesis
      using assms(1,2) q False Some ll(1) u
      by (intro exI [of _ "n\<lparr>tl_below := Nothing_below,
          tl_label := drop_bit 1 (tl_label qn - ll) + ll, tl_level := Suc (tl_level qn)\<rparr>"])
        (simp add: leaf_to_inner_def upd_tl_set_tl range_right_def)
  qed
qed

lemma range_left_at:
  assumes "tl_parent n = par" "tl_level n = v" "unat (tl_label n) = lo + 2 ^ (64 - v) - 1"
    "2 ^ (64 - v) dvd lo" "v \<le> 64" "par = None \<longleftrightarrow> v = 0" "v = 0 \<Longrightarrow> lo = 0"
  shows "\<exists>l. range_left n = Some l \<and> unat l = lo"
proof (cases par)
  case None
  with assms show ?thesis by (simp add: range_left_def)
next
  case (Some q)
  with assms show ?thesis by (intro range_left_value [of n q]) auto
qed

lemma flat_distinct: "distinct (tnodes t) \<Longrightarrow> distinct (map fst (flat t))"
proof (induction t)
  case (Inner p l r)
  then show ?case using flat_tnodes [of l] flat_tnodes [of r] by auto
qed auto

lemma root_not_leaf:
  assumes "2 \<le> length (flat t)" "distinct (tnodes t)"
  shows "root_ptr t \<notin> fst ` set (flat t)"
proof (cases t)
  case (Inner p l r)
  then show ?thesis
    using assms(2) flat_tnodes [of l] flat_tnodes [of r] by (auto simp: image_Un)
qed (use assms in auto)

lemma trep0_root:
  assumes "trep0 h par v lo t" "tlnodes h (root_ptr t) = Some n"
  shows "tl_num_leaves n = length (flat t)" "tl_parent n = par"
  using trep_root [OF assms(1) [unfolded trep0_def]] assms(2) by (auto simp: set_flag_def)

lemma set_tl_idem: "tlnodes h p = Some n \<Longrightarrow> set_tl h p n = h"
  by (cases h) (auto simp: set_tl_def fun_eq_iff)

lemma place_None: "place h par p v lo \<Longrightarrow> par = None \<longleftrightarrow> v = 0"
  by (auto simp: place_def split: option.splits)

lemma place_root: "place h par p 0 lo \<Longrightarrow> lo = 0"
  by (auto simp: place_def split: option.splits)

lemma rebuild_root:
  assumes t: "trep0 h par v lo t" "distinct (tnodes t)" "2 \<le> length (flat t)"
    and n: "tlnodes h (root_ptr t) = Some n" "\<not> tl_needs_rebalance n"
    and pl: "place h par (root_ptr t) v lo" "\<forall>q. par = Some q \<longrightarrow> q \<notin> set (tnodes t)"
      "par \<noteq> None \<Longrightarrow> lo + 2 ^ Suc (64 - v) \<le> 2 ^ 64 \<or>
        (\<exists>qn. tlnodes h (the par) = Some qn \<and> tl_right_next qn = Some (root_ptr t))"
    and v: "v \<le> 64" "length (flat t) \<le> 2 ^ (64 - v)" "2 ^ (64 - v) dvd lo" "lo + 2 ^ (64 - v) \<le> 2 ^ 64"
      "v < 64"
    and h1: "tlnodes h1 (root_ptr t) = Some (cleared n)"
      "\<And>q. q \<notin> set (tnodes t) \<Longrightarrow> tlnodes h1 q = tlnodes h q"
  shows "\<exists>n2. (if tl_left_prev n = None \<and> tl_right_next n = None then leaf_to_inner (root_ptr t) h1
        else Some h1) = Some (set_tl h1 (root_ptr t) n2) \<and> tl_level n2 = v \<and>
      unat (tl_label n2) = lo + 2 ^ (64 - v) - 1 \<and>
      tl_parent n2 = par \<and> \<not> tl_needs_rebalance n2 \<and> tl_num_leaves n2 = length (flat t)"
proof (cases t)
  case (Leaf p b xs)
  with t(3) show ?thesis by simp
next
  case (Split p cs)
  have p: "p \<notin> fst ` set cs" using Split t(2) by auto
  have lr: "tl_left_prev n = None" "tl_right_next n = None"
    using t(1) n(1) Split by (auto simp: trep0_Split [OF p])
  have "place h1 par (root_ptr t) v lo"
    using place_frame [OF pl(1), of h1] h1(2) pl(2) by blast
  moreover have "par \<noteq> None \<Longrightarrow> lo + 2 ^ Suc (64 - v) \<le> 2 ^ 64 \<or>
      (\<exists>qn. tlnodes h1 (the par) = Some qn \<and> tl_right_next qn = Some (root_ptr t))"
    using pl(2,3) h1(2) by auto
  ultimately show ?thesis
    using leaf_to_inner_spec [OF h1(1), of par v lo] v(4,5) trep0_root [OF t(1) n(1)] n(2) lr by auto
next
  case (Inner p l r)
  have p: "p \<notin> set (tnodes l)" "p \<notin> set (tnodes r)" using Inner t(2) by auto
  have "tl_left_prev n = Some (root_ptr l)" "tl_level n = v"
      "unat (tl_label n) = lo + 2 ^ (64 - v) - 1"
    using t(1) n(1) Inner by (auto simp: trep0_Inner [OF p] MAX_LEVEL_def)
  then show ?thesis
    using set_tl_idem [OF h1(1)] trep0_root [OF t(1) n(1)] n(2)
    by (intro exI [of _ "cleared n"]) simp
qed

text \<open>
  \<^verbatim>\<open>rebuild\<close> at the root of a subtree whose leaves fit into its range of labels: it never
  stops the process, and the result is a tree without split leaves, with the same root node and
  the same leaves in the same order.
\<close>

lemma rebuild_spec:
  assumes t: "trep0 h par v lo t" "distinct (tnodes t)" "2 \<le> length (flat t)"
    and n: "tlnodes h (root_ptr t) = Some n" "\<not> tl_needs_rebalance n"
    and pl: "place h par (root_ptr t) v lo" "\<forall>q. par = Some q \<longrightarrow> q \<notin> set (tnodes t)"
      "par \<noteq> None \<Longrightarrow> lo + 2 ^ Suc (64 - v) \<le> 2 ^ 64 \<or>
        (\<exists>qn. tlnodes h (the par) = Some qn \<and> tl_right_next qn = Some (root_ptr t))"
    and v: "v \<le> 64" "length (flat t) \<le> 2 ^ (64 - v)" "2 ^ (64 - v) dvd lo" "lo + 2 ^ (64 - v) \<le> 2 ^ 64"
    and ok: "heap_ok h"
  shows "\<exists>t' h'. rebuild (root_ptr t) h = Some h' \<and> root_ptr t' = root_ptr t \<and>
    replaced h h' par v lo (tnodes t) (flat t) t'"
proof -
  let ?p = "root_ptr t" and ?ds = "flat t"
  have vn: "v < 64" using t(3) v(1,2) by (cases "v = 64") auto
  have len: "length (flat t) = length (map fst ?ds)" by simp
  from build_array_spec [OF t(1,2) n(1), of 0 "length ?ds" "replicate (length ?ds) 0"] n(2)
  obtain h1 where h1: "build_array_of_leaves (Some ?p) 0 (length ?ds) (replicate (length ?ds) 0) h =
      Some (map fst ?ds, h1)" "collected h h1 t"
    by (auto simp: put_all)
  have c: "only_tl h h1" "fresh h1 = fresh h" "leaf_nodes h1 ?ds" "tlnodes h1 ?p = Some (cleared n)"
      "\<And>q. q \<notin> set (tnodes t) \<Longrightarrow> tlnodes h1 q = tlnodes h q"
      "\<And>q. tlnodes h q = None \<Longrightarrow> tlnodes h1 q = None"
    using h1(2) n by (auto simp: collected_def)
  have ok1: "heap_ok h1" using ok c by (auto simp: heap_ok_def only_tl_def)
  have pf: "?p < fresh h1" using heap_ok_fresh(3) [OF ok1, of ?p] c(4) by force
  have pds: "?p \<notin> fst ` set ?ds" "distinct (map fst ?ds)"
    using root_not_leaf [OF t(3,2)] flat_distinct [OF t(2)] by simp_all
  note nl = trep0_root [OF t(1) n(1)]
  have "\<exists>n2. (if tl_left_prev n = None \<and> tl_right_next n = None then leaf_to_inner ?p h1 else Some h1) =
      Some (set_tl h1 ?p n2) \<and> tl_level n2 = v \<and> unat (tl_label n2) = lo + 2 ^ (64 - v) - 1 \<and>
      tl_parent n2 = par \<and> \<not> tl_needs_rebalance n2 \<and> tl_num_leaves n2 = length ?ds"
    by (rule rebuild_root [OF t n pl v vn c(4,5)])
  then obtain n2 where n2: "(if tl_left_prev n = None \<and> tl_right_next n = None then leaf_to_inner ?p h1 else Some h1) =
      Some (set_tl h1 ?p n2)" "tl_level n2 = v" "unat (tl_label n2) = lo + 2 ^ (64 - v) - 1"
      "tl_parent n2 = par" "\<not> tl_needs_rebalance n2" "tl_num_leaves n2 = length ?ds"
    by blast
  let ?h2 = "set_tl h1 ?p n2"
  have ln2: "leaf_nodes ?h2 ?ds"
    using c(3) by (rule leaf_nodes_frame) (metis fun_upd_other pds(1) set_tl_simps(1))
  obtain ll where ll: "range_left n2 = Some ll" "unat ll = lo"
    using range_left_at [OF n2(4,2,3) v(3,1) place_None [OF pl(1)]] place_root pl(1) by blast
  have l2: "length (map fst ?ds) = length ?ds" by simp
  have tp2: "tlnodes ?h2 ?p = Some n2" by simp
  from rebuild_children_spec [OF t(3) l2 refl ln2 pds(2) heap_ok_set_tl [OF ok1 pf] pds(1) tp2 n2(2,6,4,5,3) ll v]
  obtain lt rt h' where h': "rebuild_children ?p (map fst ?ds) (length ?ds) ?h2 = Some h'"
      "replaced ?h2 h' par v lo (?p # map fst ?ds) ?ds (Inner ?p lt rt)"
    by blast
  have sub: "insert ?p (fst ` set ?ds) \<subseteq> set (tnodes t)" using flat_tnodes [of t] by simp
  have "rebuild ?p h = Some h'" using n(1) nl(1) h1(1) n2(1) h'(1) by (simp add: rebuild_def Let_def)
  moreover have "replaced h h' par v lo (tnodes t) ?ds (Inner ?p lt rt)"
  proof -
    have "tlnodes h' q = tlnodes h q" if q: "q \<notin> set (tnodes t)" "q < fresh h" for q
    proof -
      have "q \<notin> set (?p # map fst ?ds)" using q(1) sub by auto
      then have "tlnodes h' q = tlnodes ?h2 q" using h'(2) q(2) c(2) unfolding replaced_def by simp
      moreover have "q \<noteq> ?p" using q(1) by auto
      ultimately show ?thesis using c(5) [OF q(1)] by simp
    qed
    moreover have "only_tl h h'" using h'(2) c(1) by (auto simp: replaced_def only_tl_def)
    moreover have "set (tnodes (Inner ?p lt rt)) \<subseteq> set (tnodes t) \<union> {fresh h..<fresh h'}"
    proof -
      have "set (?p # map fst ?ds) \<subseteq> set (tnodes t)" using sub by simp
      moreover have "set (tnodes (Inner ?p lt rt)) \<subseteq> set (?p # map fst ?ds) \<union> {fresh h..<fresh h'}"
        using h'(2) unfolding replaced_def set_tl_simps c(2) by (elim conjE)
      ultimately show ?thesis by (meson Un_mono order_refl order_trans)
    qed
    ultimately show ?thesis using h'(2) unfolding replaced_def set_tl_simps c(2) by simp
  qed
  ultimately show ?thesis by (intro exI [of _ "Inner ?p lt rt"] exI [of _ h']) simp
qed

end
