(* ===== verification/Om_Rebalance.thy ===== *)
theory Om_Rebalance
  imports Om_Rebuild
begin

text \<open>
  \<^verbatim>\<open>rebalance\<close> and \<^verbatim>\<open>om_relabel\<close> (\<^verbatim>\<open>rdtool/src/om/om_relabel.c\<close>) keep the order: whatever
  the density tests decide, the tree after a relabelling has the same leaves in the same order,
  no split leaf is left, and the labels are again increasing. The condition \<open>fits\<close> under which no
  assertion fails is the one the source asserts for inner nodes, with the room that the labels
  really leave.
\<close>

definition level_cap :: "machine \<Rightarrow> nat \<Rightarrow> nat" where
  "level_cap M v = unat (if v = 0 then MAX_LABEL
     else if MAX_LEVEL - v < 31 then push_bit (MAX_LEVEL - v) 1 else m_shift M (MAX_LEVEL - v))"

lemma capacity_level: "unat (capacity M n) = level_cap M (tl_level n)"
  by (simp add: capacity_def level_cap_def tl_height_def)

fun fits :: "machine \<Rightarrow> nat \<Rightarrow> ltree \<Rightarrow> bool" where
  "fits M v (Leaf p b xs) = True"
| "fits M v (Split p cs) = (length cs \<le> 2 ^ (MAX_LEVEL - v))"
| "fits M v (Inner p l r) =
     ((if dirty l \<or> dirty r then length (flat l) + length (flat r) \<le> 2 ^ (MAX_LEVEL - v) \<and>
          length (flat l) + length (flat r) \<le> level_cap M v else True) \<and>
      fits M (Suc v) l \<and> fits M (Suc v) r)"

section \<open>Rebalancing\<close>

lemma replaced_refl:
  assumes "trep h par v lo t" "\<not> dirty t" "distinct (tnodes t)" "heap_ok h"
  shows "replaced h h par v lo (tnodes t) (flat t) t"
  using assms by (auto simp: replaced_def)

lemma replaced_before:
  assumes "replaced h1 h' par v lo ps ds t" "only_tl h h1" "fresh h1 = fresh h"
    "\<And>q. q \<notin> set ps \<Longrightarrow> tlnodes h1 q = tlnodes h q"
  shows "replaced h h' par v lo ps ds t"
  using assms by (auto simp: replaced_def only_tl_def)

lemma replaced_mem:
  assumes "replaced h h' par v lo ps ds t" "x \<in> set (tnodes t)"
  shows "x \<in> set ps \<or> (fresh h \<le> x \<and> x < fresh h')"
  using assms unfolding replaced_def by (meson UnE atLeastLessThan_iff subsetD)

lemma set_flag_simps [simp]:
  "only_tl h (set_flag h p f)" "fresh (set_flag h p f) = fresh h"
  "heap_ok (set_flag h p f) = heap_ok h"
  by (auto simp: set_flag_def heap_ok_def)

lemma set_flag_root: "tlnodes h p = Some n \<Longrightarrow>
    tlnodes (set_flag h p f) p = Some (n\<lparr>tl_needs_rebalance := f\<rparr>)"
  by (simp add: set_flag_def)

lemma upd_flag: "tlnodes h p = Some n \<Longrightarrow>
    upd_tl p (tl_needs_rebalance_update (\<lambda>_. f)) h = Some (set_flag h p f)"
  by (auto simp: upd_tl_def set_flag_def)

lemma trep_lt: "trep h par v lo t \<Longrightarrow> heap_ok h \<Longrightarrow> q \<in> set (tnodes t) \<Longrightarrow> q < fresh h"
  using trep_alloc heap_ok_fresh(3) by (metis not_le option.distinct(1))

text \<open>Two subtrees replaced one after the other below a node whose flag is already cleared.\<close>

lemma join_replaced:
  assumes l: "replaced h1 h2 (Some p) (Suc v) lo pl dl lt" and r: "replaced h2 h3 (Some p) (Suc v) lo2 pr dr rt"
    and n: "tlnodes h1 p = Some n" "v < 64" "tl_level n = v" "unat (tl_label n) = lo + 2 ^ (64 - v) - 1"
      "lo2 = lo + 2 ^ (64 - Suc v)" "tl_num_leaves n = length dl + length dr" "tl_parent n = par"
      "tl_left_prev n = Some (root_ptr lt)" "tl_right_next n = Some (root_ptr rt)" "\<not> tl_needs_rebalance n"
    and out: "p \<notin> set pl" "p \<notin> set pr" "set pl \<inter> set pr = {}" "p < fresh h1"
      "\<forall>q\<in>set pl. q < fresh h1" "\<forall>q\<in>set pr. q < fresh h1"
  shows "replaced h1 h3 par v lo (p # pl @ pr) (dl @ dr) (Inner p lt rt)"
proof -
  have f: "fresh h1 \<le> fresh h2" "fresh h2 \<le> fresh h3" using l r by (simp_all add: replaced_def)
  have k2: "tlnodes h2 q = tlnodes h1 q" if "q \<notin> set pl" "q < fresh h1" for q
    using l that by (simp add: replaced_def)
  have k3: "tlnodes h3 q = tlnodes h2 q" if "q \<notin> set pr" "q < fresh h2" for q
    using r that by (simp add: replaced_def)
  have inl: "q \<notin> set pr \<and> q < fresh h2 \<and> q \<noteq> p" if "q \<in> set (tnodes lt)" for q
    using replaced_mem [OF l that] out f(1) by (metis IntI empty_iff less_le_trans not_le)
  have inr: "q \<noteq> p" if "q \<in> set (tnodes rt)" for q
    using replaced_mem [OF r that] out f(1) by (metis less_le_trans not_le)
  have "\<forall>q\<in>set (tnodes lt). tlnodes h3 q = tlnodes h2 q" using k3 inl by blast
  then have tl: "trep h3 (Some p) (Suc v) lo lt" using l trep_frame unfolding replaced_def by blast
  have tn: "tlnodes h3 p = Some n"
    using k2 [OF out(1,4)] k3 [OF out(2)] out(4) f(1) n(1) by simp
  have fl: "flat lt = dl" "flat rt = dr" "\<not> dirty lt" "\<not> dirty rt"
      "trep h3 (Some p) (Suc v) lo2 rt" "heap_ok h3" "only_tl h1 h3"
    using l r by (auto simp: replaced_def only_tl_def)
  have "trep h3 par v lo (Inner p lt rt)"
    unfolding trep_Inner MAX_LEVEL_def using tl fl(5) tn n fl by auto
  moreover have "distinct (tnodes (Inner p lt rt))"
  proof -
    have "q \<notin> set (tnodes rt)" if "q \<in> set (tnodes lt)" for q
      using inl [OF that] replaced_mem [OF r, of q] by (meson not_le)
    then show ?thesis using l r inl inr by (auto simp: replaced_def)
  qed
  moreover have "set (tnodes (Inner p lt rt)) \<subseteq> set (p # pl @ pr) \<union> {fresh h1..<fresh h3}"
  proof
    fix x assume "x \<in> set (tnodes (Inner p lt rt))"
    then consider "x = p" | "x \<in> set (tnodes lt)" | "x \<in> set (tnodes rt)" by auto
    then show "x \<in> set (p # pl @ pr) \<union> {fresh h1..<fresh h3}"
    proof cases
      case 2
      then show ?thesis using replaced_mem [OF l 2] f(2) by auto
    next
      case 3
      then show ?thesis using replaced_mem [OF r 3] f(1) by auto
    qed simp
  qed
  moreover have "tlnodes h3 q = tlnodes h1 q" if "q \<notin> set (p # pl @ pr)" "q < fresh h1" for q
    using that k2 [of q] k3 [of q] f(1) by simp
  ultimately show ?thesis using fl f unfolding replaced_def by simp
qed

text \<open>A clean subtree is left alone, so only dirty ones are of interest.\<close>

lemma rebalance_clean:
  assumes "trep h par v lo t" "\<not> dirty t"
  shows "rebalance M (Some (root_ptr t)) ht h = Some h"
  using trep_root [OF assms(1)] assms(2) by (subst rebalance.simps) auto

text \<open>The case in which the node itself is rebuilt.\<close>

lemma rebalance_rebuild:
  assumes t: "trep h par v lo t" "distinct (tnodes t)" "2 \<le> length (flat t)"
    and pl: "place h par (root_ptr t) v lo" "\<forall>q. par = Some q \<longrightarrow> q \<notin> set (tnodes t)"
      "par \<noteq> None \<Longrightarrow> lo + 2 ^ Suc (64 - v) \<le> 2 ^ 64 \<or>
        (\<exists>qn. tlnodes h (the par) = Some qn \<and> tl_right_next qn = Some (root_ptr t))"
    and v: "v \<le> 64" "length (flat t) \<le> 2 ^ (64 - v)" "2 ^ (64 - v) dvd lo" "lo + 2 ^ (64 - v) \<le> 2 ^ 64"
    and ok: "heap_ok h"
  shows "\<exists>t' h'. rebuild (root_ptr t) (set_flag h (root_ptr t) False) = Some h' \<and>
    root_ptr t' = root_ptr t \<and> replaced h h' par v lo (tnodes t) (flat t) t'"
proof -
  let ?p = "root_ptr t" and ?h = "set_flag h (root_ptr t) False"
  obtain n where n: "tlnodes h ?p = Some n" using trep_root [OF t(1)] by blast
  have n1: "tlnodes ?h ?p = Some (n\<lparr>tl_needs_rebalance := False\<rparr>)"
    using n by (rule set_flag_root)
  have same: "tlnodes ?h q = tlnodes h q" if "q \<notin> set (tnodes t)" for q
    using that by (intro set_flag_other) auto
  have pl1: "place ?h par ?p v lo"
    using place_frame [OF pl(1), of ?h] same pl(2) by blast
  have pl3: "lo + 2 ^ Suc (64 - v) \<le> 2 ^ 64 \<or>
      (\<exists>qn. tlnodes ?h (the par) = Some qn \<and> tl_right_next qn = Some ?p)" if "par \<noteq> None"
    using pl(3) [OF that] same pl(2) that by (metis option.collapse)
  have "heap_ok ?h" using ok by simp
  from rebuild_spec [OF trep0_clear [OF t(1)] t(2,3) n1 _ pl1 pl(2) pl3 v this]
  obtain t' h' where "rebuild ?p ?h = Some h'" "root_ptr t' = ?p"
      "replaced ?h h' par v lo (tnodes t) (flat t) t'"
    by auto
  then show ?thesis using replaced_before [of ?h h' par v lo "tnodes t" "flat t" t' h] same by auto
qed

lemma rebalance_spec:
  assumes "trep h par v lo t" "distinct (tnodes t)" "fits M v t"
    "place h par (root_ptr t) v lo" "\<forall>q. par = Some q \<longrightarrow> q \<notin> set (tnodes t)"
    "par \<noteq> None \<Longrightarrow> lo + 2 ^ Suc (64 - v) \<le> 2 ^ 64 \<or>
        (\<exists>qn. tlnodes h (the par) = Some qn \<and> tl_right_next qn = Some (root_ptr t))"
    "v \<le> 64" "2 ^ (64 - v) dvd lo" "lo + 2 ^ (64 - v) \<le> 2 ^ 64" "heap_ok h"
  shows "\<exists>t' h'. rebalance M (Some (root_ptr t)) ht h = Some h' \<and>
    root_ptr t' = root_ptr t \<and> replaced h h' par v lo (tnodes t) (flat t) t'"
  using assms
proof (induction t arbitrary: par v lo h)
  case (Leaf p b xs)
  have "replaced h h par v lo (tnodes (Leaf p b xs)) (flat (Leaf p b xs)) (Leaf p b xs)"
    using Leaf.prems by (intro replaced_refl) auto
  then show ?case
    using rebalance_clean [OF Leaf.prems(1), of M ht] by (intro exI [of _ "Leaf p b xs"]) auto
next
  case (Split p cs)
  have n: "\<exists>n. tlnodes h p = Some n \<and> tl_level n = MAX_LEVEL \<and> tl_needs_rebalance n \<and> 1 < length cs"
    using Split.prems(1) by (auto simp: trep_Split)
  then obtain n where n: "tlnodes h p = Some n" "tl_level n = MAX_LEVEL" "tl_needs_rebalance n" "1 < length cs"
    by blast
  have "rebalance M (Some p) ht h = rebuild p (set_flag h p False)"
    using n set_flag_root [OF n(1), of False]
    by (subst rebalance.simps) (simp add: upd_flag is_leaf_def)
  moreover have "2 \<le> length (flat (Split p cs))" "length (flat (Split p cs)) \<le> 2 ^ (64 - v)"
    using n(4) Split.prems(3) by (simp_all add: MAX_LEVEL_def)
  ultimately show ?case
    using rebalance_rebuild [OF Split.prems(1,2) _ Split.prems(4,5,6,7) _ Split.prems(8,9,10)] by simp
next
  case (Inner p l r)
  let ?t = "Inner p l r"
  show ?case
  proof (cases "dirty ?t")
    case False
    have "replaced h h par v lo (tnodes ?t) (flat ?t) ?t"
      using Inner.prems False by (intro replaced_refl) auto
    then show ?thesis
      using rebalance_clean [OF Inner.prems(1) False, of M ht] by (intro exI [of _ ?t]) auto
  next
    case True
    obtain n where n: "tlnodes h p = Some n" "tl_level n = v" "v < 64" "tl_needs_rebalance n"
        "unat (tl_label n) = lo + 2 ^ (64 - v) - 1" "tl_num_leaves n = length (flat l) + length (flat r)"
        "tl_parent n = par" "tl_left_prev n = Some (root_ptr l)" "tl_right_next n = Some (root_ptr r)"
        "trep h (Some p) (Suc v) lo l" "trep h (Some p) (Suc v) (lo + 2 ^ (64 - Suc v)) r"
      using Inner.prems(1) True by (auto simp: trep_Inner MAX_LEVEL_def)
    have fit: "length (flat ?t) \<le> 2 ^ (64 - v)" "tl_num_leaves n \<le> level_cap M v"
        "fits M (Suc v) l" "fits M (Suc v) r"
      using Inner.prems(3) True n(6) by (auto simp: MAX_LEVEL_def)
    let ?h = "set_flag h p False" and ?n = "n\<lparr>tl_needs_rebalance := False\<rparr>"
    have n1: "tlnodes ?h p = Some ?n" using n(1) by (rule set_flag_root)
    have pp: "p \<notin> set (tnodes l)" "p \<notin> set (tnodes r)" "distinct (tnodes l)" "distinct (tnodes r)"
        "set (tnodes l) \<inter> set (tnodes r) = {}"
      using Inner.prems(2) by auto
    have ln: "tlnodes ?h (root_ptr l) = tlnodes h (root_ptr l)" "tlnodes ?h (root_ptr r) = tlnodes h (root_ptr r)"
      using pp by (intro set_flag_other; metis root_in_tnodes)+
    obtain nl nr where nlr: "tlnodes h (root_ptr l) = Some nl" "tlnodes h (root_ptr r) = Some nr"
      using trep_root [OF n(10)] trep_root [OF n(11)] by blast
    have nleaf: "\<not> is_leaf n" using n by (simp add: is_leaf_def MAX_LEVEL_def)
    define heavy where "heavy \<longleftrightarrow> too_heavy M nl ht \<or> too_heavy M nr ht"
    have cap: "tl_num_leaves n \<le> unat (capacity M ?n)" using fit(2) n(2) by (simp add: capacity_level)
    have step: "rebalance M (Some p) ht h = (if heavy then rebuild p ?h else do {
        h \<leftarrow> rebalance M (Some (root_ptr l)) ht ?h;
        n \<leftarrow> tlnodes h p;
        rebalance M (tl_right_next n) ht h })"
      using n(1,4,8,9) n1 nleaf cap ln nlr
      by (subst rebalance.simps) (simp add: upd_flag is_leaf_def heavy_def)
    have len2: "2 \<le> length (flat ?t)" 
      using flat_pos [OF n(10)] flat_pos [OF n(11)] unfolding flat.simps length_append by linarith
    show ?thesis
    proof (cases heavy)
      case True
      then show ?thesis
        using step rebalance_rebuild [OF Inner.prems(1,2) len2 Inner.prems(4,5,6,7) fit(1) Inner.prems(8,9,10)]
        by simp
    next
      case False
      have "\<exists>t' h'. (do { h \<leftarrow> rebalance M (Some (root_ptr l)) ht ?h; n \<leftarrow> tlnodes h p;
          rebalance M (tl_right_next n) ht h }) = Some h' \<and> root_ptr t' = p \<and>
          replaced h h' par v lo (tnodes ?t) (flat ?t) t'"
      proof -
        have k: "64 - v = Suc (64 - Suc v)" using n(3) by simp
        let ?k = "64 - Suc v"
        have pw: "(2::nat) ^ Suc ?k = 2 * 2 ^ ?k" by simp
        have bound: "lo + 2 ^ Suc ?k \<le> 2 ^ 64" using Inner.prems(9) unfolding k .
        have "2 ^ Suc ?k dvd lo" using Inner.prems(8) unfolding k .
        then have dv: "2 ^ ?k dvd lo" by (metis dvd_mult_right power_Suc)
        have b1: "lo + 2 ^ ?k \<le> 2 ^ 64" and b2: "lo + 2 ^ ?k + 2 ^ ?k \<le> 2 ^ 64"
          using bound unfolding pw by linarith+
        have lab: "unat (tl_label ?n) = lo + 2 ^ Suc ?k - 1" using n(5) unfolding k by simp
        obtain ll where ll: "range_left ?n = Some ll" "unat ll = lo"
          using range_left_at [of ?n par v lo] n(2,3,5,7) Inner.prems(8)
            place_None [OF Inner.prems(4)] place_root Inner.prems(4) by auto
        have rne: "root_ptr r \<noteq> root_ptr l"
          using pp(5) root_in_tnodes [of l] root_in_tnodes [of r] by (metis IntI empty_iff)
        have pl: "place ?h (Some p) (root_ptr l) (Suc v) lo"
          unfolding place_def using n1 n(2,9) rne lab ll pp(1) root_in_tnodes [of l] by auto
        have same: "tlnodes ?h q = tlnodes h q" if "q \<noteq> p" for q using that by simp
        have "\<forall>q\<in>set (tnodes l). tlnodes ?h q = tlnodes h q" using pp(1) same by metis
        then have tl: "trep ?h (Some p) (Suc v) lo l" using n(10) trep_frame by blast
        have "\<forall>q\<in>set (tnodes r). tlnodes ?h q = tlnodes h q" using pp(2) same by metis
        then have tr: "trep ?h (Some p) (Suc v) (lo + 2 ^ ?k) r" using n(11) trep_frame by blast
        have ok: "heap_ok ?h" using Inner.prems(10) by simp
        have v64: "Suc v \<le> 64" using n(3) by simp
        have pnl: "\<forall>q. Some p = Some q \<longrightarrow> q \<notin> set (tnodes l)"
          and pnr: "\<forall>q. Some p = Some q \<longrightarrow> q \<notin> set (tnodes r)" using pp by auto
        have c1: "lo + 2 ^ Suc (64 - Suc v) \<le> 2 ^ 64 \<or>
            (\<exists>qn. tlnodes ?h (the (Some p)) = Some qn \<and> tl_right_next qn = Some (root_ptr l))"
          using bound by simp
        obtain l' h2 where h2: "rebalance M (Some (root_ptr l)) ht ?h = Some h2" "root_ptr l' = root_ptr l"
            "replaced ?h h2 (Some p) (Suc v) lo (tnodes l) (flat l) l'"
          using Inner.IH(1) [OF tl pp(3) fit(3) pl pnl c1 v64 dv b1 ok] by blast
        have pf: "p < fresh ?h" using trep_lt [OF Inner.prems(1,10)] by simp
        have rf: "q < fresh ?h" if "q \<in> set (tnodes r)" for q
          using trep_lt [OF Inner.prems(1,10), of q] that by simp
        have lf: "q < fresh ?h" if "q \<in> set (tnodes l)" for q
          using trep_lt [OF Inner.prems(1,10), of q] that by simp
        have keep: "tlnodes h2 q = tlnodes ?h q" if "q \<notin> set (tnodes l)" "q < fresh ?h" for q
          using h2(3) that by (simp add: replaced_def)
        have n2: "tlnodes h2 p = Some ?n" using keep [OF pp(1) pf] n1 by simp
        have "\<forall>q\<in>set (tnodes r). tlnodes h2 q = tlnodes ?h q" using keep rf pp(5) by blast
        then have tr2: "trep h2 (Some p) (Suc v) (lo + 2 ^ ?k) r" using tr trep_frame by blast
        have lab2: "unat (tl_label ?n) = lo + 2 ^ ?k + 2 ^ ?k - 1" using lab unfolding pw by linarith
        have pr: "place h2 (Some p) (root_ptr r) (Suc v) (lo + 2 ^ ?k)"
          unfolding place_def using n2 n(2,9) lab2 pp(2) root_in_tnodes [of r] by auto
        have ok2: "heap_ok h2" using h2(3) by (simp add: replaced_def)
        have dv2: "2 ^ ?k dvd lo + 2 ^ ?k" using dv by simp
        have d2: "\<exists>qn. tlnodes h2 (the (Some p)) = Some qn \<and> tl_right_next qn = Some (root_ptr r)"
          using n2 n(9) by simp
        obtain r' h3 where h3: "rebalance M (Some (root_ptr r)) ht h2 = Some h3" "root_ptr r' = root_ptr r"
            "replaced h2 h3 (Some p) (Suc v) (lo + 2 ^ ?k) (tnodes r) (flat r) r'"
          using Inner.IH(2) [OF tr2 pp(4) fit(4) pr pnr disjI2 [OF d2] v64 dv2 b2 ok2] by blast
        have al: "\<forall>q\<in>set (tnodes l). q < fresh ?h" "\<forall>q\<in>set (tnodes r). q < fresh ?h"
          using lf rf by blast+
        have "replaced ?h h3 par v lo (p # tnodes l @ tnodes r) (flat l @ flat r) (Inner p l' r')"
          using n h2(2) h3(2) by (intro join_replaced [OF h2(3) h3(3) n1 n(3) _ _ refl _ _ _ _ _ pp(1,2,5) pf al]) simp_all
        moreover have "tlnodes ?h q = tlnodes h q" if "q \<notin> set (p # tnodes l @ tnodes r)" for q
          using that by (intro same) simp
        ultimately have "replaced h h3 par v lo (p # tnodes l @ tnodes r) (flat l @ flat r) (Inner p l' r')"
          using replaced_before set_flag_simps(1,2) by blast
        moreover have "tnodes ?t = p # tnodes l @ tnodes r" "flat ?t = flat l @ flat r" by simp_all
        moreover have "(do { h \<leftarrow> rebalance M (Some (root_ptr l)) ht ?h; n \<leftarrow> tlnodes h p;
            rebalance M (tl_right_next n) ht h }) = Some h3"
          using h2(1) n2 n(9) h3(1) by simp
        ultimately show ?thesis by (metis root_ptr.simps(3))
      qed
      then show ?thesis using False step by simp
    qed
  qed
qed

end
