(* ===== verification/Om_Relabel_Correct.thy ===== *)
theory Om_Relabel_Correct
  imports Om_Rebalance
begin

text \<open>
  The relabelling pass as a whole (\<^verbatim>\<open>om_relabel\<close> in \<^verbatim>\<open>rdtool/src/om/om_relabel.c\<close>): the heavy
  leaves are split, the leaf counts up to the root are brought up to date, and the tree is
  rebalanced. The structure represents the same order before and after.
\<close>

section \<open>Replacing a leaf of the tree\<close>

fun leaf_in :: "tl_ptr \<Rightarrow> blist_ptr \<Rightarrow> node_ptr list \<Rightarrow> ltree \<Rightarrow> bool" where
  "leaf_in p b xs (Leaf q c ys) \<longleftrightarrow> q = p \<and> c = b \<and> ys = xs"
| "leaf_in p b xs (Split q cs) \<longleftrightarrow> False"
| "leaf_in p b xs (Inner q l r) \<longleftrightarrow> leaf_in p b xs l \<or> leaf_in p b xs r"

fun subst_leaf :: "tl_ptr \<Rightarrow> ltree \<Rightarrow> ltree \<Rightarrow> ltree" where
  "subst_leaf p u (Leaf q b xs) = (if q = p then u else Leaf q b xs)"
| "subst_leaf p u (Split q cs) = Split q cs"
| "subst_leaf p u (Inner q l r) = Inner q (subst_leaf p u l) (subst_leaf p u r)"

lemma leaf_in_tnodes2: "leaf_in p b xs t \<Longrightarrow> p \<in> set (tnodes t)"
  by (induction t) auto

lemma leaf_in_flat: "leaf_in p b xs t \<Longrightarrow> (p, b, xs) \<in> set (flat t)"
  by (induction t) auto

lemma subst_leaf_absent: "p \<notin> set (tnodes t) \<Longrightarrow> subst_leaf p u t = t"
  by (induction t) auto

lemma root_subst_leaf: "root_ptr u = p \<Longrightarrow> root_ptr (subst_leaf p u t) = root_ptr t"
  by (induction t) auto

text \<open>A leaf of a tree with distinct nodes is in exactly one of the two subtrees.\<close>

lemma leaf_in_Inner:
  assumes "leaf_in p b xs (Inner q l r)" "distinct (tnodes (Inner q l r))"
  obtains "leaf_in p b xs l" "p \<notin> set (tnodes r)" "p \<noteq> q"
        | "leaf_in p b xs r" "p \<notin> set (tnodes l)" "p \<noteq> q"
  using assms leaf_in_tnodes2 [of p b xs l] leaf_in_tnodes2 [of p b xs r] by auto

lemma flat_subst_leaf:
  assumes "leaf_in p b xs t" "distinct (tnodes t)"
  shows "\<exists>as bs. flat t = as @ (p, b, xs) # bs \<and> flat (subst_leaf p u t) = as @ flat u @ bs"
  using assms
proof (induction t)
  case (Inner q l r)
  from Inner.prems show ?case
  proof (cases rule: leaf_in_Inner)
    case 1
    with Inner.IH(1) Inner.prems(2) obtain as bs where
      "flat l = as @ (p, b, xs) # bs" "flat (subst_leaf p u l) = as @ flat u @ bs" by auto
    with 1 show ?thesis
      by (intro exI [of _ as] exI [of _ "bs @ flat r"]) (simp add: subst_leaf_absent)
  next
    case 2
    with Inner.IH(2) Inner.prems(2) obtain as bs where
      "flat r = as @ (p, b, xs) # bs" "flat (subst_leaf p u r) = as @ flat u @ bs" by auto
    with 2 show ?thesis
      by (intro exI [of _ "flat l @ as"] exI [of _ bs]) (simp add: subst_leaf_absent)
  qed
qed (auto intro: exI [of _ "[]"])

lemma tnodes_subst_leaf:
  assumes "leaf_in p b xs t" "distinct (tnodes t)" "tnodes u = p # us" "distinct us"
    "set us \<inter> set (tnodes t) = {}"
  shows "distinct (tnodes (subst_leaf p u t)) \<and> set (tnodes (subst_leaf p u t)) = set (tnodes t) \<union> set us"
  using assms
proof (induction t)
  case (Inner q l r)
  have d: "distinct (tnodes l)" "distinct (tnodes r)" "set us \<inter> set (tnodes l) = {}"
      "set us \<inter> set (tnodes r) = {}" "q \<notin> set us"
    using Inner.prems(2,5) by auto
  from Inner.prems(1,2) show ?case
  proof (cases rule: leaf_in_Inner)
    case 1
    then show ?thesis using Inner.IH(1) Inner.prems d by (auto simp: subst_leaf_absent)
  next
    case 2
    then show ?thesis using Inner.IH(2) Inner.prems d by (auto simp: subst_leaf_absent)
  qed
qed auto

lemma distinct_replace:
  "distinct (xs @ a # ys) \<Longrightarrow> distinct us \<Longrightarrow> set us \<inter> (set xs \<union> set ys) = {} \<Longrightarrow>
     distinct (xs @ us @ ys)"
  by auto

lemma other_leaf:
  assumes t: "tree_ok h t" "leaf_in p b xs t" "heap_ok h" and m: "(q, c, ys) \<in> set (flat t)" "q \<noteq> p"
  shows "c \<noteq> b" "c < fresh h" "\<And>x. x \<in> set ys \<Longrightarrow> x \<notin> set xs"
proof -
  have tt: "\<forall>d\<in>set (flat t). leaf_ok h d" "distinct (om_lists t)" "distinct (om_order t)" using t(1) by (auto simp: tree_ok_def)
  have p: "(p, b, xs) \<in> set (flat t)" using leaf_in_flat [OF t(2)] .
  show cb: "c \<noteq> b" using lists_disjoint [OF tt(2) p] m by auto
  have "leaf_ok h (q, c, ys)" using tt(1) m(1) by blast
  then obtain l where "blists h c = Some l" by (auto simp: leaf_ok_iff)
  then show "c < fresh h" using heap_ok_fresh(2) [OF t(3), of c] by force
  show "x \<notin> set xs" if "x \<in> set ys" for x using leaf_disjoint [OF tt(3) m(1) p that] cb by auto
qed

lemma tree_ok_subst:
  assumes t: "tree_ok h t" "leaf_in p b xs t" and ok: "heap_ok h"
    and u: "tnodes u = p # us" "distinct us" "\<forall>q\<in>set us. fresh h \<le> q"
      "concat (map (\<lambda>(q, b, xs). xs) (flat u)) = xs" "distinct (map (\<lambda>(q, b, xs). b) (flat u))"
      "\<forall>(q, c, ys)\<in>set (flat u). fresh h \<le> c \<and> leaf_ok h' (q, c, ys)"
    and h': "trep h' None 0 0 (subst_leaf p u t)" "\<And>x. x \<notin> set xs \<Longrightarrow> bnodes h' x = bnodes h x"
      "\<And>l. l < fresh h \<Longrightarrow> l \<noteq> b \<Longrightarrow> blists h' l = blists h l"
  shows "tree_ok h' (subst_leaf p u t) \<and> om_order (subst_leaf p u t) = om_order t"
proof -
  have tt: "trep h None 0 0 t" "\<forall>d\<in>set (flat t). leaf_ok h d" "distinct (tnodes t)"
      "distinct (om_lists t)" "distinct (om_order t)"
    using t(1) by (auto simp: tree_ok_def)
  obtain as bs where ab: "flat t = as @ (p, b, xs) # bs" "flat (subst_leaf p u t) = as @ flat u @ bs"
    using flat_subst_leaf [OF t(2) tt(3)] by blast
  have ord: "om_order (subst_leaf p u t) = om_order t"
    using ab u(4) by (simp add: om_order_def)
  have bl: "c < fresh h" if "(q, c, ys) \<in> set (flat t)" for q c ys
  proof -
    have "leaf_ok h (q, c, ys)" using tt(2) that by blast
    then obtain l where "blists h c = Some l" by (auto simp: leaf_ok_iff)
    then show ?thesis using heap_ok_fresh(2) [OF ok, of c] by force
  qed
  have "q < fresh h" if "q \<in> set (tnodes t)" for q using trep_lt [OF tt(1) ok that] .
  then have "set us \<inter> set (tnodes t) = {}" using u(3) by (meson disjoint_iff not_le)
  from tnodes_subst_leaf [OF t(2) tt(3) u(1,2) this] have "distinct (tnodes (subst_leaf p u t))" by simp
  moreover have "distinct (om_lists (subst_leaf p u t))"
  proof -
    let ?f = "\<lambda>(q, b, xs). b"
    have "distinct (map ?f as @ b # map ?f bs)"
      using tt(4) ab(1) by (simp add: om_lists_def)
    moreover have "set (map ?f (flat u)) \<inter> (set (map ?f as) \<union> set (map ?f bs)) = {}"
    proof -
      have "c < fresh h" if "c \<in> set (map ?f as) \<union> set (map ?f bs)" for c
        using that bl ab(1) by fastforce
      moreover have "fresh h \<le> c" if "c \<in> set (map ?f (flat u))" for c using that u(6) by fastforce
      ultimately show ?thesis by (meson disjoint_iff not_le)
    qed
    ultimately have "distinct (map ?f as @ map ?f (flat u) @ map ?f bs)"
      using u(5) by (intro distinct_replace)
    then show ?thesis by (simp add: om_lists_def ab(2))
  qed
  moreover have "leaf_ok h' d" if "d \<in> set as \<union> set bs" for d
  proof -
    obtain q c ys where d: "d = (q, c, ys)" by (cases d)
    have m: "(q, c, ys) \<in> set (flat t)" "(p, b, xs) \<in> set (flat t)" using that d ab(1) by auto
    have "c \<noteq> b"
      using tt(4) that d ab(1) by (force simp: om_lists_def)
    moreover have "x \<notin> set xs" if "x \<in> set ys" for x
      using leaf_disjoint [OF tt(5) m that] \<open>c \<noteq> b\<close> by auto
    ultimately have "leaf_ok h' (q, c, ys) = leaf_ok h (q, c, ys)"
      using h'(2,3) bl [OF m(1)] by (intro leaf_ok_frame) auto
    then show ?thesis using d m tt(2) by auto
  qed
  ultimately show ?thesis
    using h'(1) u(6) tt(5) ord ab(2) unfolding tree_ok_def by auto
qed

lemma set_tnodes_subst: "set (tnodes (subst_leaf p u t)) \<subseteq> set (tnodes t) \<union> set (tnodes u)"
  by (induction t) auto

lemma dirty_subst: "leaf_in p b xs t \<Longrightarrow> dirty (subst_leaf p (Split p cs) t)"
  by (induction t) auto

lemma length_flat_subst:
  assumes "leaf_in p b xs t" "distinct (tnodes t)"
  shows "length (flat (subst_leaf p u t)) + 1 = length (flat t) + length (flat u)"
  using flat_subst_leaf [OF assms, of u] by auto

section \<open>Counting the new leaves\<close>

text \<open>
  The walk to the root: in the heap \<open>g\<close> only the leaf \<open>p\<close> differs from the tree \<open>t\<close>, it already
  points to the chain of its chunks. After the walk the tree is \<open>t\<close> with the split leaf.
\<close>

lemma add_leaves_up_spec:
  assumes "trep h par v lo t" "distinct (tnodes t)" "leaf_in p b xs t"
    and "tlnodes h p = Some n" "tlnodes g p = Some (n\<lparr>tl_below := Split_nodes (fst (hd cs))\<rparr>)"
    and "\<forall>q\<in>set (tnodes t). q \<noteq> p \<longrightarrow> tlnodes g q = tlnodes h q"
    and "split_chain g None cs" "fst ` set cs \<inter> set (tnodes t) = {}" "1 < length cs"
    and "length (flat t) + length cs < 2 ^ 64"
  shows "\<exists>g' ht'. add_leaves_up (Some p) (length cs - 1) ht g = add_leaves_up par (length cs - 1) ht' g' \<and>
    trep g' par v lo (subst_leaf p (Split p cs) t) \<and> only_tl g g' \<and> fresh g' = fresh g \<and>
    (\<forall>q. q \<notin> set (tnodes t) \<longrightarrow> tlnodes g' q = tlnodes g q)"
  using assms
proof (induction t arbitrary: par v lo)
  case (Leaf q c ys)
  have n: "tl_level n = MAX_LEVEL" "v \<le> MAX_LEVEL" "unat (tl_label n) = lo" "tl_num_leaves n = 1"
      "tl_parent n = par" "tl_left_prev n = None" "tl_right_next n = None" "q = p"
    using Leaf.prems by (auto simp: trep_Leaf)
  let ?g = "set_tl g p (n\<lparr>tl_below := Split_nodes (fst (hd cs)), tl_num_leaves := length cs,
      tl_needs_rebalance := True\<rparr>)"
  have c: "split_chain ?g None cs"
  proof -
    have "p \<notin> fst ` set cs" using Leaf.prems(8) n(8) by auto
    then have "\<forall>q\<in>set (map fst cs). tlnodes ?g q = tlnodes g q" by auto
    then show ?thesis using split_chain_frame Leaf.prems(7) by blast
  qed
  have "length cs < 2 ^ 64" using Leaf.prems(10) by simp
  then have "add_leaves_up (Some p) (length cs - 1) ht g = add_leaves_up par (length cs - 1) (Suc ht) ?g"
    using Leaf.prems(5,9) n by (subst add_leaves_up.simps) (simp add: upd_tl_set_tl)
  moreover have "trep ?g par v lo (subst_leaf p (Split p cs) (Leaf q c ys))"
    using n c Leaf.prems(9) by (simp add: trep_Split)
  ultimately show ?case using n(8) by (intro exI [of _ ?g] exI [of _ "Suc ht"]) simp
next
  case (Split q ds)
  then show ?case by simp
next
  case (Inner q l r)
  let ?e = "length cs - 1"
  obtain m where m: "tlnodes h q = Some m" "v < MAX_LEVEL" "tl_level m = v"
      "unat (tl_label m) = lo + 2 ^ (MAX_LEVEL - v) - 1"
      "tl_num_leaves m = length (flat l) + length (flat r)" "tl_parent m = par"
      "tl_left_prev m = Some (root_ptr l)" "tl_right_next m = Some (root_ptr r)"
      "trep h (Some q) (Suc v) lo l" "trep h (Some q) (Suc v) (lo + 2 ^ (MAX_LEVEL - Suc v)) r"
    using Inner.prems(1) by (auto simp: trep_Inner)
  have d: "distinct (tnodes l)" "distinct (tnodes r)" "q \<notin> set (tnodes l)" "q \<notin> set (tnodes r)"
      "set (tnodes l) \<inter> set (tnodes r) = {}"
    using Inner.prems(2) by auto
  have dj: "fst ` set cs \<inter> set (tnodes l) = {}" "fst ` set cs \<inter> set (tnodes r) = {}"
    using Inner.prems(8) by auto
  have lt: "length (flat l) + length cs < 2 ^ 64" "length (flat r) + length cs < 2 ^ 64"
      "(length (flat l) + length (flat r) + ?e) mod 2 ^ 64 = length (flat l) + length (flat r) + ?e"
    using Inner.prems(10) by auto
  let ?u = "Split p cs"
  have fin: "\<exists>g'. add_leaves_up (Some q) ?e ht1 g1 = add_leaves_up par ?e (Suc ht1) g' \<and>
      trep g' par v lo (Inner q l' r') \<and> only_tl g1 g' \<and> fresh g' = fresh g1 \<and>
      (\<forall>x. x \<noteq> q \<longrightarrow> tlnodes g' x = tlnodes g1 x)"
    if "tlnodes g1 q = Some m" "trep g1 (Some q) (Suc v) lo l'"
      "trep g1 (Some q) (Suc v) (lo + 2 ^ (MAX_LEVEL - Suc v)) r'" "q \<notin> set (tnodes l')"
      "q \<notin> set (tnodes r')" "root_ptr l' = root_ptr l" "root_ptr r' = root_ptr r" "dirty l' \<or> dirty r'"
      "length (flat l') + length (flat r') = length (flat l) + length (flat r) + ?e" for g1 ht1 l' r'
  proof -
    let ?g = "set_tl g1 q (m\<lparr>tl_num_leaves := length (flat l) + length (flat r) + ?e, tl_needs_rebalance := True\<rparr>)"
    have "\<forall>x\<in>set (tnodes l'). tlnodes ?g x = tlnodes g1 x" "\<forall>x\<in>set (tnodes r'). tlnodes ?g x = tlnodes g1 x"
      using that(4,5) by auto
    then have "trep ?g (Some q) (Suc v) lo l'" "trep ?g (Some q) (Suc v) (lo + 2 ^ (MAX_LEVEL - Suc v)) r'"
      using that(2,3) trep_frame by blast+
    then have "trep ?g par v lo (Inner q l' r')"
      using m that(6-9) unfolding trep_Inner by auto
    moreover have "add_leaves_up (Some q) ?e ht1 g1 = add_leaves_up par ?e (Suc ht1) ?g"
      using that(1) m(5,6) lt(3) by (subst add_leaves_up.simps) (simp add: upd_tl_set_tl)
    ultimately show ?thesis by (intro exI [of _ ?g]) simp
  qed
  from Inner.prems(3,2) show ?case
  proof (cases rule: leaf_in_Inner)
    case 1
    have "\<forall>x\<in>set (tnodes l). x \<noteq> p \<longrightarrow> tlnodes g x = tlnodes h x" using Inner.prems(6) by simp
    from Inner.IH(1) [OF m(9) d(1) 1(1) Inner.prems(4,5) this Inner.prems(7) dj(1) Inner.prems(9) lt(1)]
    obtain g1 ht1 where g1: "add_leaves_up (Some p) ?e ht g = add_leaves_up (Some q) ?e ht1 g1"
        "trep g1 (Some q) (Suc v) lo (subst_leaf p ?u l)" "only_tl g g1" "fresh g1 = fresh g"
        "\<forall>x. x \<notin> set (tnodes l) \<longrightarrow> tlnodes g1 x = tlnodes g x" by blast
    have "\<forall>x\<in>set (tnodes r). tlnodes g1 x = tlnodes h x"
      using g1(5) d(5) Inner.prems(6) 1(2) by fastforce
    then have tr: "trep g1 (Some q) (Suc v) (lo + 2 ^ (MAX_LEVEL - Suc v)) r" using m(10) trep_frame by blast
    have nq: "tlnodes g1 q = Some m" using g1(5) d(3) Inner.prems(6) 1(3) m(1) by simp
    have "q \<notin> set (tnodes (subst_leaf p ?u l))"
      using set_tnodes_subst [of p ?u l] d(3) 1(3) Inner.prems(8) by auto
    moreover have "length (flat (subst_leaf p ?u l)) + length (flat r) = length (flat l) + length (flat r) + ?e"
      using length_flat_subst [OF 1(1) d(1), of ?u] Inner.prems(9) by simp
    ultimately obtain g' where g': "add_leaves_up (Some q) ?e ht1 g1 = add_leaves_up par ?e (Suc ht1) g'"
        "trep g' par v lo (Inner q (subst_leaf p ?u l) r)" "only_tl g1 g'" "fresh g' = fresh g1"
        "\<forall>x. x \<noteq> q \<longrightarrow> tlnodes g' x = tlnodes g1 x"
      using fin [OF nq g1(2) tr, of ht1] d(4) dirty_subst [OF 1(1), of cs] root_subst_leaf [of ?u p l] by auto
    have "tlnodes g' x = tlnodes g x" if "x \<notin> set (tnodes (Inner q l r))" for x
      using that g'(5) g1(5) by simp
    then show ?thesis
      using g1(1,3,4) g'(1-4) subst_leaf_absent [OF 1(2), of ?u] only_tl_trans
      by (intro exI [of _ g'] exI [of _ "Suc ht1"]) auto
  next
    case 2
    have "\<forall>x\<in>set (tnodes r). x \<noteq> p \<longrightarrow> tlnodes g x = tlnodes h x" using Inner.prems(6) by simp
    from Inner.IH(2) [OF m(10) d(2) 2(1) Inner.prems(4,5) this Inner.prems(7) dj(2) Inner.prems(9) lt(2)]
    obtain g1 ht1 where g1: "add_leaves_up (Some p) ?e ht g = add_leaves_up (Some q) ?e ht1 g1"
        "trep g1 (Some q) (Suc v) (lo + 2 ^ (MAX_LEVEL - Suc v)) (subst_leaf p ?u r)" "only_tl g g1"
        "fresh g1 = fresh g" "\<forall>x. x \<notin> set (tnodes r) \<longrightarrow> tlnodes g1 x = tlnodes g x" by blast
    have "\<forall>x\<in>set (tnodes l). tlnodes g1 x = tlnodes h x"
      using g1(5) d(5) Inner.prems(6) 2(2) by fastforce
    then have tl: "trep g1 (Some q) (Suc v) lo l" using m(9) trep_frame by blast
    have nq: "tlnodes g1 q = Some m" using g1(5) d(4) Inner.prems(6) 2(3) m(1) by simp
    have "q \<notin> set (tnodes (subst_leaf p ?u r))"
      using set_tnodes_subst [of p ?u r] d(4) 2(3) Inner.prems(8) by auto
    moreover have "length (flat l) + length (flat (subst_leaf p ?u r)) = length (flat l) + length (flat r) + ?e"
      using length_flat_subst [OF 2(1) d(2), of ?u] Inner.prems(9) by simp
    ultimately obtain g' where g': "add_leaves_up (Some q) ?e ht1 g1 = add_leaves_up par ?e (Suc ht1) g'"
        "trep g' par v lo (Inner q l (subst_leaf p ?u r))" "only_tl g1 g'" "fresh g' = fresh g1"
        "\<forall>x. x \<noteq> q \<longrightarrow> tlnodes g' x = tlnodes g1 x"
      using fin [OF nq tl g1(2), of ht1] d(3) dirty_subst [OF 2(1), of cs] root_subst_leaf [of ?u p r] by auto
    have "tlnodes g' x = tlnodes g x" if "x \<notin> set (tnodes (Inner q l r))" for x
      using that g'(5) g1(5) by simp
    then show ?thesis
      using g1(1,3,4) g'(1-4) subst_leaf_absent [OF 2(2), of ?u] only_tl_trans
      by (intro exI [of _ g'] exI [of _ "Suc ht1"]) auto
  qed
qed

section \<open>Splitting one heavy leaf\<close>

lemma trep_relist:
  assumes "trep h par v lo t" "distinct (tnodes t)" "leaf_in p b xs t"
    "tlnodes h p = Some n" "tlnodes g p = Some (n\<lparr>tl_below := Below b'\<rparr>)"
    "\<forall>q\<in>set (tnodes t). q \<noteq> p \<longrightarrow> tlnodes g q = tlnodes h q"
  shows "trep g par v lo (subst_leaf p (Leaf p b' xs) t)"
  using assms
proof (induction t arbitrary: par v lo)
  case (Inner q l r)
  have dl: "length (flat (subst_leaf p (Leaf p b' xs) t)) = length (flat t)"
      "dirty (subst_leaf p (Leaf p b' xs) t) = dirty t" for t
    by (induction t) auto
  have q: "tlnodes g q = tlnodes h q" "p \<noteq> q"
    using Inner.prems(2,3,6) leaf_in_tnodes2 [of p b xs l] leaf_in_tnodes2 [of p b xs r] by auto
  obtain m where m: "tlnodes h q = Some m" "trep h (Some q) (Suc v) lo l"
      "trep h (Some q) (Suc v) (lo + 2 ^ (MAX_LEVEL - Suc v)) r"
    using Inner.prems(1) by (auto simp: trep_Inner)
  have sub: "trep g (Some q) (Suc v) lo' (subst_leaf p (Leaf p b' xs) t)"
    if "p \<notin> set (tnodes t)" "set (tnodes t) \<subseteq> set (tnodes (Inner q l r))" "trep h (Some q) (Suc v) lo' t" for t lo'
  proof -
    have "\<forall>x\<in>set (tnodes t). tlnodes g x = tlnodes h x"
      using that(1,2) Inner.prems(6) by (metis subsetD)
    from trep_frame [OF this] that(1,3) show ?thesis by (simp add: subst_leaf_absent)
  qed
  have "trep g (Some q) (Suc v) lo (subst_leaf p (Leaf p b' xs) l) \<and>
      trep g (Some q) (Suc v) (lo + 2 ^ (MAX_LEVEL - Suc v)) (subst_leaf p (Leaf p b' xs) r)"
    using Inner.prems(3,2)
  proof (cases rule: leaf_in_Inner)
    case 1
    then show ?thesis using Inner.prems m sub [of r] by (auto intro!: Inner.IH(1))
  next
    case 2
    then show ?thesis using Inner.prems m sub [of l] by (auto intro!: Inner.IH(2))
  qed
  then show ?case
    using Inner.prems(1) q m(1) dl unfolding subst_leaf.simps trep_Inner
    by (simp add: root_subst_leaf)
qed (auto simp: trep_iffs)

definition chunks :: "node_ptr list \<Rightarrow> nat" where
  "chunks xs = (length xs + 63) div 64"

text \<open>What splitting does to one leaf of the tree.\<close>

definition split_result :: "tl_ptr \<Rightarrow> node_ptr list \<Rightarrow> ltree \<Rightarrow> bool" where
  "split_result p xs u \<longleftrightarrow> (if chunks xs = 1 then \<exists>b. u = Leaf p b xs
     else \<exists>cs. u = Split p cs \<and> length cs = chunks xs \<and> concat (map (\<lambda>(q, b, ys). ys) cs) = xs)"

lemma leaf_in_node:
  "trep h par v lo t \<Longrightarrow> leaf_in p b xs t \<Longrightarrow> \<exists>n. tlnodes h p = Some n \<and> tl_level n = MAX_LEVEL \<and>
     tl_left_prev n = None \<and> tl_right_next n = None \<and> tl_below n = Below b \<and> tl_num_leaves n = 1 \<and>
     \<not> tl_needs_rebalance n \<and> (tl_parent n = None \<longrightarrow> par = None \<and> t = Leaf p b xs)"
  by (induction t arbitrary: par v lo) (fastforce simp: trep_iffs)+

lemma leaf_ok_above:
  assumes "leaf_ok h (q, b, xs)" "blists h b = Some l"
  shows "leaf_ok (h\<lparr>blists := (blists h)(b \<mapsto> l\<lparr>bl_above := Some p\<rparr>)\<rparr>) (p, b, xs)"
proof -
  let ?h = "h\<lparr>blists := (blists h)(b \<mapsto> l\<lparr>bl_above := Some p\<rparr>)\<rparr>"
  have "dll ?h b None xs None = dll h b None xs None" by (intro dll_frame) simp
  moreover have "map (bn_lab ?h) xs = map (bn_lab h) xs" by (simp add: bn_lab_def)
  ultimately show ?thesis using assms by (auto simp: leaf_ok_iff blist_inv_iff simp del: map_eq_conv)
qed

lemma light_only_tl: "only_tl h h' \<Longrightarrow> light h' d = light h d"
  by (cases d) (simp add: light_def only_tl_def bn_lab_def)

lemma split_heavy_spec:
  assumes t: "tree_ok h t" "leaf_in p b xs t" "xs \<noteq> []" and ok: "heap_ok h"
    and root: "om_root self = root_ptr t" and small: "length (flat t) + chunks xs < 2 ^ 64"
  shows "\<exists>self' h' u. split_heavy self p h = Some (self', h') \<and> om_root self' = om_root self \<and>
    heap_ok h' \<and> split_result p xs u \<and> root_ptr u = p \<and> tree_ok h' (subst_leaf p u t) \<and>
    om_order (subst_leaf p u t) = om_order t \<and> (\<forall>c\<in>set (flat u). light h' c) \<and>
    (\<forall>x. x \<notin> set xs \<longrightarrow> bnodes h' x = bnodes h x) \<and> (\<forall>l<fresh h. l \<noteq> b \<longrightarrow> blists h' l = blists h l)"
proof -
  have tt: "trep h None 0 0 t" "\<forall>d\<in>set (flat t). leaf_ok h d" "distinct (tnodes t)"
    using t(1) by (auto simp: tree_ok_def)
  have leaf: "leaf_ok h (p, b, xs)" using tt(2) leaf_in_flat [OF t(2)] by blast
  obtain n where n: "tlnodes h p = Some n" "tl_level n = MAX_LEVEL" "tl_left_prev n = None"
      "tl_right_next n = None" "tl_below n = Below b" "tl_num_leaves n = 1" "\<not> tl_needs_rebalance n"
      "tl_parent n = None \<longrightarrow> t = Leaf p b xs"
    using leaf_in_node [OF tt(1) t(2)] by auto
  from split_spec [OF leaf t(3) ok n(1,5)] obtain cs h1 where
    h1: "split b h = Some (length cs, h1)" "cs \<noteq> []" "concat (map (\<lambda>(q, b, xs). xs) cs) = xs"
      "length cs = chunks xs" "split_chain h1 None cs"
      "\<forall>c\<in>set cs. leaf_ok h1 c \<and> chunk_ok h1 (fresh h) c"
      "distinct (map fst cs)" "distinct (map (\<lambda>(q, b, xs). b) cs)"
      "\<And>r. r < fresh h \<Longrightarrow> tlnodes h1 r =
         (if r = p then Some (n\<lparr>tl_below := Split_nodes (fst (hd cs))\<rparr>) else tlnodes h r)"
      "\<And>x. x \<notin> set xs \<Longrightarrow> bnodes h1 x = bnodes h x"
      "\<And>l. l < fresh h \<Longrightarrow> l \<noteq> b \<Longrightarrow> blists h1 l = blists h l" "heap_ok h1" "fresh h \<le> fresh h1"
    unfolding chunks_def by metis
  have lt: "q < fresh h" if "q \<in> set (tnodes t)" for q using trep_lt [OF tt(1) ok that] .
  have pt: "p \<in> set (tnodes t)" using leaf_in_tnodes2 [OF t(2)] .
  have tp: "tlnodes h1 p = Some (n\<lparr>tl_below := Split_nodes (fst (hd cs))\<rparr>)" using h1(9) lt [OF pt] by simp
  have keep: "\<forall>q\<in>set (tnodes t). q \<noteq> p \<longrightarrow> tlnodes h1 q = tlnodes h q" using h1(9) lt by simp
  have newp: "fresh h \<le> q" if "q \<in> fst ` set cs" for q using that h1(6) by (force simp: chunk_ok_def)
  have dj: "fst ` set cs \<inter> set (tnodes t) = {}" using newp lt by (meson disjoint_iff not_le)
  have pr: "tl_parent n = None \<longrightarrow> p = om_root self" using n(8) root by auto
  have guard: "split_heavy self p h = (if length cs > 1 then do {
        (ht, h) \<leftarrow> add_leaves_up (Some p) (length cs - 1) (FAST_LOG2_CEIL (length cs) - 1) h1;
        Some (self\<lparr>om_height := max (om_height self) ht\<rparr>, h) } else do {
        c \<leftarrow> tlnodes h1 p; sp \<leftarrow> split_nodes_of c; s \<leftarrow> sp; sn \<leftarrow> tlnodes h1 s; lst \<leftarrow> below_list sn;
        h \<leftarrow> upd_tl s (\<lambda>n. n\<lparr>tl_level := MAX_LEVEL\<rparr>) h1; h \<leftarrow> tl_node_free s h;
        h \<leftarrow> upd_tl p (\<lambda>n. n\<lparr>tl_below := Below lst\<rparr>) h;
        h \<leftarrow> upd_blist lst (\<lambda>l. l\<lparr>bl_above := Some p\<rparr>) h; Some (self, h) })"
  proof -
    have "set_tl h1 p (n\<lparr>tl_below := Split_nodes (fst (hd cs)), tl_left_prev := None, tl_right_next := None\<rparr>) = h1"
      "set_tl h1 p (n\<lparr>tl_below := Split_nodes (fst (hd cs)), tl_needs_rebalance := False\<rparr>) = h1"
      using tp n(3,4,7) by (intro set_tl_idem; simp)+
    then show ?thesis
      using n(1-5) pr h1(1) tp by (auto simp: split_heavy_def below_list_def upd_tl_set_tl)
  qed
  show ?thesis
  proof (cases "length cs = 1")
    case False
    let ?u = "Split p cs"
    have c1: "1 < length cs" using False h1(2) by (cases cs) auto
    have sm: "length (flat t) + length cs < 2 ^ 64" using small h1(4) by simp
    from add_leaves_up_spec [OF tt(1,3) t(2) n(1) tp keep h1(5) dj c1 sm, of "FAST_LOG2_CEIL (length cs) - 1"]
    obtain g' ht' where g': "add_leaves_up (Some p) (length cs - 1) (FAST_LOG2_CEIL (length cs) - 1) h1 = Some (ht', g')"
        "trep g' None 0 0 (subst_leaf p ?u t)" "only_tl h1 g'" "fresh g' = fresh h1"
        "\<forall>q. q \<notin> set (tnodes t) \<longrightarrow> tlnodes g' q = tlnodes h1 q"
      by (auto simp: add_leaves_up.simps)
    have run: "split_heavy self p h = Some (self\<lparr>om_height := max (om_height self) ht'\<rparr>, g')"
      using guard g'(1) c1 by simp
    have okg: "heap_ok g'"
    proof -
      have "tlnodes g' q = None" if "fresh g' \<le> q" for q
        using that g'(4,5) h1(12,13) lt [of q] heap_ok_fresh(3) [OF h1(12), of q] by fastforce
      then show ?thesis using h1(12) g'(3,4) by (auto simp: heap_ok_def only_tl_def)
    qed
    have "light g' c" if "c \<in> set (flat ?u)" for c
    proof -
      have "chunk_ok h1 (fresh h) c" using that h1(6) by auto
      then show ?thesis by (simp only: chunk_light light_only_tl [OF g'(3)])
    qed
    moreover have "\<forall>(q, c, ys)\<in>set (flat ?u). fresh h \<le> c \<and> leaf_ok g' (q, c, ys)"
      using h1(6) leaf_ok_only_tl [OF g'(3)] by (force simp: chunk_ok_def)
    moreover have "\<forall>q\<in>set (map fst cs). fresh h \<le> q" using newp by auto
    moreover have "bnodes g' x = bnodes h x" if "x \<notin> set xs" for x
      using h1(10) [OF that] g'(3) by (simp add: only_tl_def)
    moreover have "blists g' l = blists h l" if "l < fresh h" "l \<noteq> b" for l
      using h1(11) [OF that] g'(3) by (simp add: only_tl_def)
    ultimately have lt': "\<forall>c\<in>set (flat ?u). light g' c" "\<forall>x. x \<notin> set xs \<longrightarrow> bnodes g' x = bnodes h x"
        "\<forall>l<fresh h. l \<noteq> b \<longrightarrow> blists g' l = blists h l"
      and "tree_ok g' (subst_leaf p ?u t) \<and> om_order (subst_leaf p ?u t) = om_order t"
      using h1(3,7,8) g'(2) by (blast, blast, blast, intro tree_ok_subst [OF t(1,2) ok, of ?u "map fst cs"]) auto
    moreover have "split_result p xs ?u" using False h1(3,4) by (auto simp: split_result_def)
    ultimately show ?thesis
      using run okg lt' by (intro exI [of _ "self\<lparr>om_height := max (om_height self) ht'\<rparr>"] exI [of _ g'] exI [of _ ?u]) simp
  next
    case True
    then obtain s b' ys where cs: "cs = [(s, b', ys)]" by (metis One_nat_def length_0_conv length_Suc_conv prod_cases3)
    then have ys: "ys = xs" using h1(3) by simp
    let ?u = "Leaf p b' xs"
    have s: "fresh h \<le> s" "s < fresh h1" "fresh h \<le> b'" "leaf_ok h1 (s, b', xs)"
      using h1(6) cs ys by (auto simp: chunk_ok_def)
    obtain sn where sn: "tlnodes h1 s = Some sn" "tl_below sn = Below b'"
      using h1(5) cs by (auto simp: split_chain_Cons)
    obtain l where l: "blists h1 b' = Some l" using s(4) by (auto simp: leaf_ok_iff)
    have sp: "s \<noteq> p" using s(1) lt [OF pt] by auto
    have lt1: "light h1 (s, b', xs)" using h1(6) cs ys chunk_light by auto
    define g where "g = h1\<lparr>tlnodes := (tlnodes h1)(s := None, p \<mapsto> n\<lparr>tl_below := Below b'\<rparr>),
        blists := (blists h1)(b' \<mapsto> l\<lparr>bl_above := Some p\<rparr>)\<rparr>"
    have "split_heavy self p h = Some (self, g)"
      using guard True cs tp sn l sp
      by (simp add: split_nodes_of_def below_list_def upd_tl_def upd_blist_def tl_node_free_def g_def fun_upd_twist)
    moreover have "leaf_ok g (p, b', xs)"
      using leaf_ok_above [OF s(4) l, of p] by (subst (asm) leaf_ok_frame [of _ g, symmetric]) (auto simp: g_def)
    moreover have lt2: "\<forall>c\<in>set (flat ?u). light g c" using lt1 l by (simp add: light_def g_def bn_lab_def)
    moreover have okg: "heap_ok g" using h1(12) sn l tp by (auto simp: heap_ok_def g_def)
    moreover have "trep g None 0 0 (subst_leaf p ?u t)"
    proof (rule trep_relist [OF tt(1,3) t(2) n(1)])
      show "tlnodes g p = Some (n\<lparr>tl_below := Below b'\<rparr>)" by (simp add: g_def)
      show "\<forall>q\<in>set (tnodes t). q \<noteq> p \<longrightarrow> tlnodes g q = tlnodes h q"
        using keep lt s(1) by (fastforce simp: g_def)
    qed
    moreover have "bnodes g x = bnodes h x" if "x \<notin> set xs" for x
      using h1(10) [OF that] by (simp add: g_def)
    moreover have "blists g l = blists h l" if "l < fresh h" "l \<noteq> b" for l
      using h1(11) [OF that] that s(3) by (auto simp: g_def)
    ultimately have lt3: "\<forall>x. x \<notin> set xs \<longrightarrow> bnodes g x = bnodes h x" "\<forall>l<fresh h. l \<noteq> b \<longrightarrow> blists g l = blists h l"
      and "tree_ok g (subst_leaf p ?u t) \<and> om_order (subst_leaf p ?u t) = om_order t"
      using s(3) by (blast, blast, intro tree_ok_subst [OF t(1,2) ok, of ?u "[]"]) auto
    moreover have "split_result p xs ?u" using True h1(4) by (auto simp: split_result_def)
    ultimately show ?thesis
      using \<open>split_heavy self p h = Some (self, g)\<close> okg lt2 lt3
      by (intro exI [of _ self] exI [of _ g] exI [of _ ?u]) simp
  qed
qed

section \<open>Splitting all heavy leaves\<close>

text \<open>
  \<open>split_of S t t'\<close>: the tree \<open>t'\<close> is \<open>t\<close> with the leaves in \<open>S\<close> split. Its numbers of leaves
  and its dirty subtrees follow from \<open>t\<close> and \<open>S\<close> alone.
\<close>

fun split_of :: "tl_ptr set \<Rightarrow> ltree \<Rightarrow> ltree \<Rightarrow> bool" where
  "split_of S (Leaf p b xs) t' = (if p \<in> S then split_result p xs t' else t' = Leaf p b xs)"
| "split_of S (Split p cs) t' = (t' = Split p cs)"
| "split_of S (Inner p l r) t' = (case t' of Inner q l' r' \<Rightarrow> q = p \<and> split_of S l l' \<and> split_of S r r'
     | _ \<Rightarrow> False)"

fun leaves_after :: "tl_ptr set \<Rightarrow> ltree \<Rightarrow> nat" where
  "leaves_after S (Leaf p b xs) = (if p \<in> S then chunks xs else 1)"
| "leaves_after S (Split p cs) = length cs"
| "leaves_after S (Inner p l r) = leaves_after S l + leaves_after S r"

fun dirty_after :: "tl_ptr set \<Rightarrow> ltree \<Rightarrow> bool" where
  "dirty_after S (Leaf p b xs) = (p \<in> S \<and> chunks xs \<noteq> 1)"
| "dirty_after S (Split p cs) = True"
| "dirty_after S (Inner p l r) = (dirty_after S l \<or> dirty_after S r)"

fun fits_after :: "machine \<Rightarrow> tl_ptr set \<Rightarrow> nat \<Rightarrow> ltree \<Rightarrow> bool" where
  "fits_after M S v (Leaf p b xs) = (if p \<in> S then chunks xs \<le> 2 ^ (MAX_LEVEL - v) else True)"
| "fits_after M S v (Split p cs) = (length cs \<le> 2 ^ (MAX_LEVEL - v))"
| "fits_after M S v (Inner p l r) =
     ((if dirty_after S l \<or> dirty_after S r then leaves_after S l + leaves_after S r \<le> 2 ^ (MAX_LEVEL - v) \<and>
          leaves_after S l + leaves_after S r \<le> level_cap M v else True) \<and>
      fits_after M S (Suc v) l \<and> fits_after M S (Suc v) r)"

lemma split_result_flat: "split_result p xs u \<Longrightarrow> length (flat u) = chunks xs \<and> (dirty u \<longleftrightarrow> chunks xs \<noteq> 1)"
  by (auto simp: split_result_def split: if_splits)

lemma split_of_length:
  "split_of S t t' \<Longrightarrow> length (flat t') = leaves_after S t \<and> (dirty t' \<longleftrightarrow> dirty_after S t)"
proof (induction S t t' rule: split_of.induct)
  case (1 S p b xs t')
  then show ?case using split_result_flat [of p xs t'] by (auto split: if_splits)
next
  case (3 S p l r t')
  then show ?case by (cases t') auto
qed simp

lemma split_of_fits: "split_of S t t' \<Longrightarrow> fits_after M S v t \<Longrightarrow> fits M v t'"
proof (induction S t t' arbitrary: v rule: split_of.induct)
  case (1 S p b xs t')
  then show ?case by (auto simp: split_result_def split: if_splits)
next
  case (3 S p l r t')
  then show ?case by (cases t') (auto simp: split_of_length)
qed simp

lemma split_of_refl: "split_of {} t t"
  by (induction t) auto

lemma split_of_tnodes: "split_of S t t' \<Longrightarrow> p \<in> set (tnodes t) \<Longrightarrow> p \<in> set (tnodes t')"
proof (induction S t t' rule: split_of.induct)
  case (1 S q b xs t')
  then show ?case by (auto simp: split_result_def split: if_splits)
next
  case (3 S q l r t')
  then show ?case by (cases t') auto
qed simp

lemma split_of_leaf:
  "split_of S t t' \<Longrightarrow> leaf_in p b xs t \<Longrightarrow> p \<notin> S \<Longrightarrow> leaf_in p b xs t'"
proof (induction S t t' rule: split_of.induct)
  case (3 S q l r t')
  then show ?case by (cases t') auto
qed auto

lemma split_of_insert_absent:
  "p \<notin> set (tnodes t) \<Longrightarrow> split_of (insert p S) t t' = split_of S t t'"
proof (induction S t t' rule: split_of.induct)
  case (3 S q l r t')
  then show ?case by (cases t') auto
qed auto

lemma split_of_step:
  assumes "split_of S t t'" "leaf_in p b xs t" "p \<notin> S" "distinct (tnodes t)" "distinct (tnodes t')"
    "split_result p xs u"
  shows "split_of (insert p S) t (subst_leaf p u t')"
  using assms
proof (induction S t t' rule: split_of.induct)
  case (3 S q l r t')
  obtain l' r' where t': "t' = Inner q l' r'" "split_of S l l'" "split_of S r r'"
    using 3(3) by (cases t') auto
  from 3(4,6) show ?case
  proof (cases rule: leaf_in_Inner)
    case 1
    have "p \<in> set (tnodes l')" using split_of_tnodes [OF t'(2)] leaf_in_tnodes2 [OF 1(1)] .
    then have "p \<notin> set (tnodes r')" using 3(7) t'(1) by auto
    then show ?thesis
      using 3 1 t' split_of_insert_absent [OF 1(2), of S r'] by (simp add: subst_leaf_absent)
  next
    case 2
    have "p \<in> set (tnodes r')" using split_of_tnodes [OF t'(3)] leaf_in_tnodes2 [OF 2(1)] .
    then have "p \<notin> set (tnodes l')" using 3(7) t'(1) by auto
    then show ?thesis
      using 3 2 t' split_of_insert_absent [OF 2(2), of S l'] by (simp add: subst_leaf_absent)
  qed
qed auto

lemma leaves_after_mono:
  "S \<subseteq> S' \<Longrightarrow> \<forall>(p, b, xs)\<in>set (flat t). p \<in> S' \<longrightarrow> xs \<noteq> [] \<Longrightarrow> \<not> dirty t \<Longrightarrow>
     leaves_after S t \<le> leaves_after S' t"
proof (induction t)
  case (Leaf p b xs)
  then have "p \<in> S' \<Longrightarrow> 1 \<le> chunks xs" by (cases xs) (auto simp: chunks_def)
  with Leaf show ?case by auto
qed (auto intro!: add_mono)

text \<open>Which lists are in the tree after splitting the leaves \<open>S\<close> of \<open>t\<close>: new ones with room, and old ones untouched.\<close>

definition settled :: "om_heap \<Rightarrow> om_heap \<Rightarrow> tl_ptr set \<Rightarrow> ltree \<Rightarrow> ltree \<Rightarrow> bool" where
  "settled h h' S t t' \<longleftrightarrow> (\<forall>d\<in>set (flat t'). light h' d \<or> d \<in> set (flat t) \<and> fst d \<notin> S \<and> (case d of (q, b, xs) \<Rightarrow> blists h' b = blists h b))"

lemma settled_step:
  assumes t: "settled h0 h S t0 t" "tree_ok h t" "leaf_in p b xs t" "heap_ok h" and u: "\<forall>c\<in>set (flat u). light h' c"
    and h': "\<forall>x. x \<notin> set xs \<longrightarrow> bnodes h' x = bnodes h x" "\<forall>l<fresh h. l \<noteq> b \<longrightarrow> blists h' l = blists h l"
  shows "settled h0 h' (insert p S) t0 (subst_leaf p u t)"
  unfolding settled_def
proof
  fix d assume d: "d \<in> set (flat (subst_leaf p u t))"
  have dt: "distinct (tnodes t)" using t(2) by (simp add: tree_ok_def)
  obtain as bs where ab: "flat t = as @ (p, b, xs) # bs" "flat (subst_leaf p u t) = as @ flat u @ bs"
    using flat_subst_leaf [OF t(3) dt] by blast
  obtain q c ys where q: "d = (q, c, ys)" by (cases d)
  show "light h' d \<or> d \<in> set (flat t0) \<and> fst d \<notin> insert p S \<and> (case d of (q, b, xs) \<Rightarrow> blists h' b = blists h0 b)"
  proof (cases "d \<in> set (flat u)")
    case False
    then have m: "d \<in> set as \<union> set bs" "d \<in> set (flat t)" using d ab by auto
    have qp: "q \<noteq> p" using flat_distinct [OF dt] m(1) ab(1) q by force
    note o = other_leaf [OF t(2-4) m(2) [unfolded q] qp]
    have "light h' d = light h d" unfolding q using h' o by (intro light_frame) auto
    moreover have "blists h' c = blists h c" using h'(2) o(1,2) by simp
    moreover have "light h d \<or> d \<in> set (flat t0) \<and> fst d \<notin> S \<and> blists h c = blists h0 c"
      using t(1) m(2) q unfolding settled_def by auto
    ultimately show ?thesis using q qp by auto
  qed (use u in blast)
qed

lemma split_all_spec:
  assumes "\<forall>p\<in>set hs. \<exists>b xs. leaf_in p b xs t \<and> xs \<noteq> []" "distinct hs" "set hs \<inter> S = {}"
    and "distinct (tnodes t)" "\<not> dirty t" "leaves_after (S \<union> set hs) t + 1 < 2 ^ 64"
    and "tree_ok h t'" "split_of S t t'" "heap_ok h" "om_root self = root_ptr t'" "om_order t' = om_order t"
    and "\<forall>(p, b, xs)\<in>set (flat t). p \<in> S \<union> set hs \<longrightarrow> xs \<noteq> []" "settled h0 h S t t'"
  shows "\<exists>self' h' t''. split_all self hs h = Some (self', h') \<and> om_root self' = om_root self \<and>
    tree_ok h' t'' \<and> split_of (S \<union> set hs) t t'' \<and> heap_ok h' \<and> om_root self' = root_ptr t'' \<and>
    om_order t'' = om_order t \<and> settled h0 h' (S \<union> set hs) t t''"
  using assms
proof (induction hs arbitrary: S h t' self)
  case Nil
  then show ?case by auto
next
  case (Cons p hs)
  obtain b xs where x: "leaf_in p b xs t" "xs \<noteq> []" using Cons.prems(1) by auto
  have pS: "p \<notin> S" using Cons.prems(3) by auto
  have lf: "leaf_in p b xs t'" using split_of_leaf [OF Cons.prems(8) x(1) pS] .
  have ins: "S \<union> set (p # hs) = insert p S \<union> set hs" by auto
  have dt': "distinct (tnodes t')" using Cons.prems(7) by (simp add: tree_ok_def)
  have len: "length (flat t') + chunks xs < 2 ^ 64"
  proof -
    let ?u = "if chunks xs = 1 then Leaf p b xs else Split p (replicate (chunks xs) (p, b, xs))"
    have "leaves_after (insert p S) t + 1 = leaves_after S t + chunks xs"
      using x(1) pS Cons.prems(4)
    proof (induction t)
      case (Inner q l r)
      have ab: "leaves_after (insert p S) t = leaves_after S t" if "p \<notin> set (tnodes t)" for t
        using that by (induction t) auto
      from Inner.prems(1,3) show ?case
        by (cases rule: leaf_in_Inner) (use Inner ab in auto)
    qed auto
    moreover have "leaves_after (insert p S) t \<le> leaves_after (S \<union> set (p # hs)) t"
      using Cons.prems(5,12) by (intro leaves_after_mono) auto
    ultimately show ?thesis using Cons.prems(6) split_of_length [OF Cons.prems(8)] by linarith
  qed
  from split_heavy_spec [OF Cons.prems(7) lf x(2) Cons.prems(9,10) len] obtain self1 h1 u where
    h1: "split_heavy self p h = Some (self1, h1)" "om_root self1 = om_root self" "heap_ok h1"
      "split_result p xs u" "root_ptr u = p" "tree_ok h1 (subst_leaf p u t')"
      "om_order (subst_leaf p u t') = om_order t'" "\<forall>c\<in>set (flat u). light h1 c"
      "\<forall>x. x \<notin> set xs \<longrightarrow> bnodes h1 x = bnodes h x" "\<forall>l<fresh h. l \<noteq> b \<longrightarrow> blists h1 l = blists h l" by blast
  have se: "settled h0 h1 (insert p S) t (subst_leaf p u t')"
    by (rule settled_step [OF Cons.prems(13,7) lf Cons.prems(9) h1(8-10)])
  have so: "split_of (insert p S) t (subst_leaf p u t')"
    using split_of_step [OF Cons.prems(8) x(1) pS Cons.prems(4) dt' h1(4)] .
  have rt: "om_root self1 = root_ptr (subst_leaf p u t')"
    using h1(2,5) Cons.prems(10) root_subst_leaf by simp
  have od: "om_order (subst_leaf p u t') = om_order t" using h1(7) Cons.prems(11) by simp
  have hy: "\<forall>p\<in>set hs. \<exists>b xs. leaf_in p b xs t \<and> xs \<noteq> []" "distinct hs" "set hs \<inter> insert p S = {}"
    using Cons.prems(1-3) by auto
  from Cons.IH [OF hy Cons.prems(4,5) Cons.prems(6) [unfolded ins] h1(6) so h1(3) rt od
      Cons.prems(12) [unfolded ins] se]
  show ?case using h1(1,2) unfolding ins by auto
qed

section \<open>The whole pass\<close>

lemma flat_leaf_in: "\<not> dirty t \<Longrightarrow> (p, b, xs) \<in> set (flat t) \<Longrightarrow> leaf_in p b xs t"
  by (induction t) auto

lemma om_relabel_spec:
  assumes inv: "om_inv h self t" and hs: "distinct hs" "\<forall>p\<in>set hs. \<exists>b xs. (p, b, xs) \<in> set (flat t) \<and> xs \<noteq> []"
    and small: "leaves_after (set hs) t + 1 < 2 ^ 64" and fit: "fits_after M (set hs) 0 t"
  shows "\<exists>self' h' t'. om_relabel M self hs h = Some (self', h') \<and> om_inv h' self' t' \<and>
    om_order t' = om_order t \<and> settled h h' (set hs) t t'"
proof -
  have t: "tree_ok h t" "heap_ok h" "\<not> dirty t" "om_root self = root_ptr t" "distinct (tnodes t)"
      "trep h None 0 0 t"
    using inv by (auto simp: om_inv_def tree_ok_def)
  have lf: "\<forall>p\<in>set hs. \<exists>b xs. leaf_in p b xs t \<and> xs \<noteq> []"
    using hs(2) flat_leaf_in [OF t(3)] by blast
  have ne: "\<forall>(p, b, xs)\<in>set (flat t). p \<in> {} \<union> set hs \<longrightarrow> xs \<noteq> []"
  proof -
    have "d = d'" if "d \<in> set (flat t)" "d' \<in> set (flat t)" "fst d = fst d'" for d d'
      using flat_distinct [OF t(5)] that by (auto simp: distinct_map inj_on_def)
    then show ?thesis using hs(2) by fastforce
  qed
  have se: "settled h h {} t t" by (auto simp: settled_def)
  from split_all_spec [OF lf hs(1) _ t(5,3) _ t(1) split_of_refl t(2,4) refl ne se] small
  obtain self1 h1 t1 where h1: "split_all self hs h = Some (self1, h1)" "om_root self1 = om_root self"
      "tree_ok h1 t1" "split_of (set hs) t t1" "heap_ok h1" "om_root self1 = root_ptr t1"
      "om_order t1 = om_order t" "settled h h1 (set hs) t t1"
    by auto
  have t1: "trep h1 None 0 0 t1" "distinct (tnodes t1)" "fits M 0 t1"
    using h1(3) split_of_fits [OF h1(4) fit] by (auto simp: tree_ok_def)
  have pl: "place h1 None (root_ptr t1) 0 0" by (simp add: place_def)
  from rebalance_spec [OF t1 pl, of "om_height self1"] h1(5) obtain t' h' where
    h': "rebalance M (Some (root_ptr t1)) (om_height self1) h1 = Some h'" "root_ptr t' = root_ptr t1"
      "replaced h1 h' None 0 0 (tnodes t1) (flat t1) t'"
    by auto
  have r: "trep h' None 0 0 t'" "\<not> dirty t'" "flat t' = flat t1" "distinct (tnodes t')" "only_tl h1 h'"
      "heap_ok h'"
    using h'(3) by (simp_all add: replaced_def)
  have "tree_ok h' t'"
    using h1(3) r leaf_ok_only_tl [OF r(5)] by (simp add: tree_ok_def om_lists_def om_order_def)
  moreover have "settled h h' (set hs) t t'"
    using h1(8) light_only_tl [OF r(5)] r(3,5) by (simp add: settled_def only_tl_def)
  moreover have "om_order t' = om_order t" using h1(7) r(3) by (simp add: om_order_def)
  moreover have "om_relabel M self hs h = Some (self1, h')"
  proof -
    obtain n n1 where n: "tlnodes h (root_ptr t) = Some n" "tl_num_leaves n = length (flat t)"
        "tlnodes h1 (root_ptr t1) = Some n1" "tl_num_leaves n1 = length (flat t1)"
      using trep_root [OF t(6)] trep_root [OF t1(1)] by blast
    have "length (flat t) = leaves_after {} t" using split_of_length [OF split_of_refl] by blast
    also have "\<dots> \<le> leaves_after (set hs) t" using t(3) ne by (intro leaves_after_mono) auto
    also have "\<dots> = length (flat t1)" using split_of_length [OF h1(4)] by simp
    finally have "\<not> length (flat t1) < length (flat t)" by simp
    then show ?thesis
      using n h1(1,2,6) t(4) h'(1) by (simp add: om_relabel_def MAX_LABEL_minus1)
  qed
  ultimately show ?thesis using r(2,6) h'(2) h1(6) by (auto simp: om_inv_def)
qed

text \<open>
  C2. \<^verbatim>\<open>om_relabel\<close> keeps the order and restores the invariant. For any set of distinct heavy
  leaves whose lists are not empty, when the leaf counts fit the ranges and the capacities, no
  assertion fails, the pass returns, the tree it leaves satisfies the whole invariant (labels
  increasing again, counts exact, no split leaf, no rebalance flag) and represents exactly the
  same sequence of nodes, whatever the density tests decide.
\<close>

theorem om_relabel_correct:
  assumes inv: "om_inv h self t" and hs: "distinct hs" "\<forall>p\<in>set hs. \<exists>b xs. (p, b, xs) \<in> set (flat t) \<and> xs \<noteq> []"
    and small: "leaves_after (set hs) t + 1 < 2 ^ 64" and fit: "fits_after M (set hs) 0 t"
  shows "\<exists>self' h' t'. om_relabel M self hs h = Some (self', h') \<and> om_inv h' self' t' \<and>
    om_order t' = om_order t"
  using om_relabel_spec [OF assms] by blast

end
