(* ===== verification/Om_Properties.thy ===== *)
theory Om_Properties
  imports Om_Relabel_Correct
begin

text \<open>
  The properties of the order-maintenance structure, and a family of concrete heaps to which
  they are applied: one leaf with a list of \<open>n\<close> nodes labelled \<open>0, 1, 2, \<dots>\<close>, so that no label is
  free between two neighbours.
\<close>

section \<open>Concrete heaps\<close>

definition ex_node :: "nat \<Rightarrow> nat \<Rightarrow> bl_node" where
  "ex_node n i = \<lparr>bn_label = of_nat i, bn_next = (if Suc i < n then Some (i + 3) else None),
     bn_prev = (if i = 0 then None else Some (i + 1)), bn_list = Some 1,
     bn_in_use = 42, bn_active_insert = 0, bn_last_insert_id = -1, bn_head = []\<rparr>"

definition ex_heap :: "nat \<Rightarrow> om_heap" where
  "ex_heap n =
     \<lparr>bnodes = (\<lambda>p. if 2 \<le> p \<and> p < n + 2 then Some (ex_node n (p - 2)) else None),
      blists = [1 \<mapsto> \<lparr>bl_head = Some 2, bl_tail = Some (n + 1), bl_above = Some 0, bl_heavy = 1\<rparr>],
      tlnodes = [0 \<mapsto> \<lparr>tl_label = 0, tl_level = 64, tl_num_leaves = 1, tl_parent = None,
        tl_left_prev = None, tl_right_next = None, tl_below = Below 1, tl_needs_rebalance = False\<rparr>],
      fresh = n + 2\<rparr>"

definition ex_om :: om where
  "ex_om = \<lparr>om_root = 0, om_head = 0, om_tail = 0, om_height = 0\<rparr>"

definition ex_tree :: "nat \<Rightarrow> ltree" where
  "ex_tree n = Leaf 0 1 [2..<n + 2]"

definition ex_machine :: machine where
  "ex_machine = \<lparr>m_shift = (\<lambda>k. push_bit (k mod 32) 1), m_round = (\<lambda>x. x)\<rparr>"

declare upt_Suc [simp del]

lemma ex_node_at: "2 \<le> p \<Longrightarrow> p < n + 2 \<Longrightarrow> bnodes (ex_heap n) p = Some (ex_node n (p - 2))"
  by (simp add: ex_heap_def)

lemma ex_dll:
  "2 \<le> k \<Longrightarrow> k \<le> n + 2 \<Longrightarrow>
     dll (ex_heap n) 1 (if k = 2 then None else Some (k - 1)) [k..<n + 2] None"
proof (induction "n + 2 - k" arbitrary: k)
  case (Suc d)
  then have k: "k < n + 2" by simp
  have "dll (ex_heap n) 1 (if Suc k = 2 then None else Some (Suc k - 1)) [Suc k..<n + 2] None"
    using Suc by (intro Suc.hyps) auto
  moreover have "hd_opt [Suc k..<n + 2] None = (if Suc k < n + 2 then Some (Suc k) else None)"
    by (simp add: upt_conv_Cons)
  ultimately show ?case
    using k Suc.prems by (auto simp: upt_conv_Cons dll_Cons ex_node_at ex_node_def quiet_def)
qed simp

lemma ex_tree_ok:
  assumes "1 \<le> n" "n < 2 ^ 64"
  shows "om_inv (ex_heap n) ex_om (ex_tree n)"
proof -
  have lab: "bn_lab (ex_heap n) p = of_nat (p - 2)" if "2 \<le> p" "p < n + 2" for p
    using ex_node_at [OF that] by (simp add: ex_node_def)
  have "sorted_wrt (<) (map (bn_lab (ex_heap n)) [2..<n + 2])"
  proof (unfold sorted_wrt_iff_nth_less, intro allI impI)
    fix i j assume ij: "i < j" "j < length (map (bn_lab (ex_heap n)) [2..<n + 2])"
    then have "unat (of_nat i :: label_t) < unat (of_nat j :: label_t)"
      using assms(2) by (simp add: unat_of_nat)
    then show "map (bn_lab (ex_heap n)) [2..<n + 2] ! i < map (bn_lab (ex_heap n)) [2..<n + 2] ! j"
      using ij by (simp add: lab word_less_nat_alt)
  qed
  moreover have "dll (ex_heap n) 1 None [2..<n + 2] None" using ex_dll [of 2 n] by simp
  moreover have "hd_opt [2..<n + 2] None = Some 2" using assms(1) by (simp add: upt_conv_Cons)
  moreover have "last_opt None [2..<n + 2] = Some (n + 1)"
    using assms(1) by (cases n) (auto simp: upt_Suc)
  ultimately have "leaf_ok (ex_heap n) (0, 1, [2..<n + 2])"
    unfolding leaf_ok_iff blist_inv_iff by (simp add: ex_heap_def)
  moreover have "heap_ok (ex_heap n)" by (auto simp: heap_ok_def ex_heap_def)
  ultimately show ?thesis
    by (simp add: om_inv_def tree_ok_def ex_tree_def ex_om_def trep_Leaf)
      (simp add: ex_heap_def MAX_LEVEL_def)
qed

lemma ex_fresh [simp]: "fresh (ex_heap n) = n + 2"
  by (simp add: ex_heap_def)

lemma ex_lab: "2 \<le> p \<Longrightarrow> p < n + 2 \<Longrightarrow> bn_lab (ex_heap n) p = of_nat (p - 2)"
  using ex_node_at [of p n] by (simp add: ex_node_def)

lemma ex_order [simp]: "om_order (ex_tree n) = [2..<n + 2]" "flat (ex_tree n) = [(0, 1, [2..<n + 2])]"
  by (simp_all add: ex_tree_def)

section \<open>Relabelling\<close>

lemma om_relabel_correct_witness:
  "\<exists>self' h' t'. om_relabel ex_machine ex_om [0] (ex_heap 65) = Some (self', h') \<and>
     om_inv h' self' t' \<and> om_order t' = [2..<67]"
  using om_relabel_correct [of "ex_heap 65" ex_om "ex_tree 65" "[0]" ex_machine] ex_tree_ok [of 65]
  by (simp add: ex_tree_def chunks_def MAX_LEVEL_def)

text \<open>
  C5. \<^verbatim>\<open>split\<close> cuts a non-empty list into \<open>\<lceil>length / 64\<rceil>\<close> lists of at most 64 nodes, keeps the
  nodes in their order, gives each list a new tree node in the chain that starts at the old
  leaf, and leaves the nodes of all other lists untouched.
\<close>

theorem split_partitions:
  assumes "leaf_ok h (p, b, xs)" "xs \<noteq> []" "heap_ok h" "tlnodes h p = Some n" "tl_below n = Below b"
  shows "\<exists>cs h'. split b h = Some ((length xs + 63) div 64, h') \<and>
    concat (map (\<lambda>(q, c, ys). ys) cs) = xs \<and> split_chain h' None cs \<and>
    (\<forall>(q, c, ys)\<in>set cs. leaf_ok h' (q, c, ys) \<and> ys \<noteq> [] \<and> length ys \<le> 64 \<and>
       gaps_ge (2 ^ 58) (map (\<lambda>x. unat (bn_lab h' x)) ys)) \<and>
    split_nodes_of (the (tlnodes h' p)) = Some (Some (fst (hd cs))) \<and>
    (\<forall>x. x \<notin> set xs \<longrightarrow> bnodes h' x = bnodes h x) \<and> heap_ok h'"
proof -
  from split_spec [OF assms] obtain cs h' where s: "split b h = Some (length cs, h')" "cs \<noteq> []"
      "concat (map (\<lambda>(q, c, ys). ys) cs) = xs" "length cs = (length xs + 63) div 64" "split_chain h' None cs"
      "\<forall>c\<in>set cs. leaf_ok h' c \<and> chunk_ok h' (fresh h) c"
      "\<forall>r<fresh h. tlnodes h' r =
         (if r = p then Some (n\<lparr>tl_below := Split_nodes (fst (hd cs))\<rparr>) else tlnodes h r)"
      "\<forall>x. x \<notin> set xs \<longrightarrow> bnodes h' x = bnodes h x" "heap_ok h'"
    by blast
  have "p < fresh h" using heap_ok_fresh(3) [OF assms(3), of p] assms(4) by force
  then have "split_nodes_of (the (tlnodes h' p)) = Some (Some (fst (hd cs)))"
    using s(7) by (simp add: split_nodes_of_def)
  moreover have "\<forall>(q, c, ys)\<in>set cs. leaf_ok h' (q, c, ys) \<and> ys \<noteq> [] \<and> length ys \<le> 64 \<and>
       gaps_ge (2 ^ 58) (map (\<lambda>x. unat (bn_lab h' x)) ys)"
  proof
    fix c assume c: "c \<in> set cs"
    obtain q b' ys where e: "c = (q, b', ys)" by (cases c)
    with c s(6) have "leaf_ok h' (q, b', ys)" "chunk h' b' q ys" "ys \<noteq> []" "length ys \<le> 64"
      by (auto simp: chunk_ok_def)
    then show "case c of (q, c, ys) \<Rightarrow> leaf_ok h' (q, c, ys) \<and> ys \<noteq> [] \<and> length ys \<le> 64 \<and>
       gaps_ge (2 ^ 58) (map (\<lambda>x. unat (bn_lab h' x)) ys)"
      using e chunk_gaps by simp
  qed
  ultimately show ?thesis using s(1,3-5,8,9) by (intro exI [of _ cs] exI [of _ h']) simp
qed

lemma split_partitions_witness:
  "\<exists>cs h'. split 1 (ex_heap 65) = Some (2, h') \<and> concat (map (\<lambda>(q, c, ys). ys) cs) = [2..<67] \<and>
     split_chain h' None cs"
  using split_partitions [of "ex_heap 65" 0 1 "[2..<67]" "the (tlnodes (ex_heap 65) 0)"] ex_tree_ok [of 65]
  by (auto simp: om_inv_def tree_ok_def) (auto simp: ex_heap_def)

section \<open>Insertion and comparison\<close>

lemma label_after_zero:
  assumes "blist_inv h self (us @ base # vs)"
  shows "label_after h base vs = 0 \<longleftrightarrow>
    \<not> (\<exists>l. bn_lab h base < l \<and> (\<forall>v\<in>set vs. l < bn_lab h v))"
proof (cases "label_after h base vs = 0")
  case False
  then show ?thesis using label_after_bounds [OF assms False] by auto
next
  case True
  have s: "sorted_wrt (<) (map (bn_lab h) (us @ base # vs))"
    using assms unfolding blist_inv_iff by blast
  show ?thesis
  proof (cases vs)
    case Nil
    with True have "bn_lab h base = MAX_LABEL" by (simp add: label_after_def new_label_zero_None)
    then have "\<not> bn_lab h base < l" for l by (simp add: MAX_LABEL_minus1 not_less)
    then show ?thesis using True by blast
  next
    case (Cons v vs')
    have "bn_lab h base < bn_lab h v" using s Cons by (simp add: sorted_wrt_append)
    with True Cons have "unat (bn_lab h v) = Suc (unat (bn_lab h base))"
      by (simp add: label_after_def new_label_zero_Some)
    then have "\<not> (bn_lab h base < l \<and> l < bn_lab h v)" for l
      by (auto simp: word_less_nat_alt)
    then show ?thesis using True Cons by auto
  qed
qed

text \<open>
  C6. \<^verbatim>\<open>bl_insert\<close> on a well-formed list never stops the process. It returns null exactly when
  no label lies strictly between the base and all later nodes, and then the memory is as
  before; otherwise it links one new node right after the base, keeps the list well formed and
  keeps every other label.
\<close>

theorem bl_insert_contract:
  assumes "blist_inv h self (us @ base # vs)" "heap_ok h"
  shows "\<exists>r h'. bl_insert w self base h = Some (r, h') \<and> heap_ok h' \<and>
    (r = None \<longleftrightarrow> \<not> (\<exists>l. bn_lab h base < l \<and> (\<forall>v\<in>set vs. l < bn_lab h v))) \<and>
    (case r of None \<Rightarrow> h' = h
     | Some n \<Rightarrow> n \<notin> set (us @ base # vs) \<and> blist_inv h' self (us @ base # n # vs) \<and>
         (\<forall>p. p \<noteq> n \<longrightarrow> bn_lab h' p = bn_lab h p))"
proof -
  have "fresh h \<notin> set (us @ base # vs)" using blist_inv_not_fresh [OF assms] by blast
  then show ?thesis
    using bl_insert_spec [OF assms, of w] label_after_zero [OF assms(1)]
    by (auto split: if_splits)
qed

lemma ex_blist: "1 \<le> n \<Longrightarrow> n < 2 ^ 64 \<Longrightarrow> blist_inv (ex_heap n) 1 [2..<n + 2] \<and> heap_ok (ex_heap n)"
  using ex_tree_ok [of n] by (auto simp: om_inv_def tree_ok_def leaf_ok_iff)

lemma bl_insert_contract_witness:
  "\<exists>h'. bl_insert 0 1 2 (ex_heap 1) = Some (Some 3, h') \<and> blist_inv h' 1 [2, 3]"
proof -
  have inv: "blist_inv (ex_heap 1) 1 ([] @ 2 # [])" "heap_ok (ex_heap 1)"
    using ex_blist [of 1] by (simp_all add: upt_conv_Cons)
  have l: "bn_lab (ex_heap 1) 2 = 0" by (simp add: ex_lab)
  then have z: "label_after (ex_heap 1) 2 [] \<noteq> 0"
    by (simp add: label_after_def new_label_def MAX_LABEL_def)
  have "bl_insert 0 1 2 (ex_heap 1) = Some (Some 3, inserted (ex_heap 1) 1 2 (label_after (ex_heap 1) 2 []) [])"
    using bl_insert_run [OF inv z, of 0] by simp
  then show ?thesis
    using bl_insert_contract [OF inv, of 0] by auto
qed

text \<open>
  C7. After a split every list accepts 58 insertions at any places: when all gaps between labels
  are at least \<open>2^k\<close>, any sequence of \<open>k\<close> insertions succeeds and keeps the list well formed.
\<close>

theorem bl_insert_room:
  assumes "blist_inv h self xs" "heap_ok h" "gaps_ge (2 ^ length is) (map (\<lambda>p. unat (bn_lab h p)) xs)"
    "\<forall>j < length is. is ! j < length xs + j"
  shows "\<exists>ys h'. bl_insert_seq w self is xs h = Some (ys, h') \<and> blist_inv h' self ys \<and>
    heap_ok h' \<and> length ys = length xs + length is"
  by (rule bl_insert_seq_room [OF assms])

lemma bl_insert_room_witness:
  "\<exists>ys h'. bl_insert_seq 0 1 (replicate 58 0) [2] (ex_heap 1) = Some (ys, h') \<and> length ys = 59"
proof -
  have "blist_inv (ex_heap 1) 1 [2]" "heap_ok (ex_heap 1)"
    using ex_blist [of 1] by (simp_all add: upt_conv_Cons)
  moreover have "gaps_ge (2 ^ length (replicate 58 (0::nat))) (map (\<lambda>p. unat (bn_lab (ex_heap 1) p)) [2])"
    by (simp add: ex_lab)
  moreover have "\<forall>j < length (replicate 58 (0::nat)). replicate 58 0 ! j < length [2::nat] + j" by simp
  ultimately show ?thesis using bl_insert_room [of "ex_heap 1" 1 "[2]" "replicate 58 0" 0] by auto
qed

text \<open>
  C8. \<^verbatim>\<open>om_insert\<close> refines insertion into a sequence: on a structure that satisfies the
  invariant it never stops the process, and it either reports that no label is free and leaves
  the structure alone, or returns a new node that stands right after the base in the total
  order, with the invariant kept.
\<close>

theorem om_insert_refines:
  assumes "om_inv h self t" "base \<in> set (om_order t)"
  shows "\<exists>r h'. om_insert w base h = Some (r, h') \<and>
    (case r of None \<Rightarrow> h' = h
     | Some n \<Rightarrow> n \<notin> set (om_order t) \<and> om_inv h' self (ins_tree base n t) \<and>
         om_order (ins_tree base n t) = insert_after base n (om_order t))"
  by (rule om_insert_spec [OF assms])

lemma om_insert_refines_witness: "om_insert 0 2 (ex_heap 1) \<noteq> None"
  using om_insert_refines [of "ex_heap 1" ex_om "ex_tree 1" 2 0] ex_tree_ok [of 1]
  by (auto simp: upt_conv_Cons)

text \<open>
  C9. \<^verbatim>\<open>om_precedes\<close> decides the total order: for the nodes at the positions \<open>i\<close> and \<open>j\<close> it
  answers \<open>i < j\<close>, whether they share a list or not; a null first argument precedes everything
  and a null second one nothing but it.
\<close>

theorem om_precedes_decides:
  assumes "om_inv h self t" "i < length (om_order t)" "j < length (om_order t)"
  shows "om_precedes h (Some (om_order t ! i)) (Some (om_order t ! j)) = Some (i < j) \<and>
    om_precedes h None (Some (om_order t ! j)) = Some True \<and>
    om_precedes h (Some (om_order t ! i)) None = Some False"
  using om_precedes_order [OF assms] by (simp add: om_precedes_def)

lemma om_precedes_decides_witness: "om_precedes (ex_heap 3) (Some 2) (Some 4) = Some True"
  using om_precedes_decides [of "ex_heap 3" ex_om "ex_tree 3" 0 2] ex_tree_ok [of 3]
  by (simp add: upt_conv_Cons)

section \<open>Verification and destruction\<close>

text \<open>
  C11. \<^verbatim>\<open>bl_verify\<close> is exact: it returns on every well-formed non-empty list, and when it
  returns, the list is well formed.
\<close>

theorem bl_verify_exact:
  "(blist_inv h self xs \<and> xs \<noteq> [] \<longrightarrow> bl_verify h self = Some 0) \<and>
   (bl_verify h self = Some r \<longrightarrow> (\<exists>ys. blist_inv h self ys))"
  using bl_verify_inv [of h self xs] bl_verify_sound [of h self r] by auto

lemma bl_verify_exact_witness: "bl_verify (ex_heap 3) 1 = Some 0 \<and> (\<exists>ys. blist_inv (ex_heap 3) 1 ys)"
  using bl_verify_exact [of "ex_heap 3" 1 "[2, 3, 4]" 0] ex_blist [of 3] by (simp add: upt_conv_Cons)

text \<open>
  \<^verbatim>\<open>om_verify\<close> accepts every structure that satisfies the invariant, after any number of
  relabellings, provided that an empty list does not carry the heavy mark.
\<close>

theorem om_verify_accepts:
  assumes "om_inv h self t"
    "\<forall>(p, b, xs)\<in>set (flat t). xs \<noteq> [] \<or> (\<exists>l. blists h b = Some l \<and> bl_heavy l = 0)"
  shows "om_verify self h = Some 0"
  by (rule om_verify_inv [OF assms])

lemma om_verify_accepts_witness: "om_verify ex_om (ex_heap 65) = Some 0"
  using om_verify_accepts [of "ex_heap 65" ex_om "ex_tree 65"] ex_tree_ok [of 65] by simp

text \<open>
  \<^verbatim>\<open>om_destroy\<close> frees exactly the tree nodes, lists and list nodes of the structure, each of
  them once.
\<close>

theorem om_destroy_frees:
  assumes "om_inv h self t"
  shows "om_destroy self h = Some (freed_tree h t)"
  by (rule om_destroy_inv [OF assms])

lemma om_destroy_frees_witness: "om_destroy ex_om (ex_heap 3) = Some (freed_tree (ex_heap 3) (ex_tree 3))"
  using om_destroy_frees [OF ex_tree_ok [of 3]] by simp

end
