(* ===== verification/Om_Interface.thy ===== *)
theory Om_Interface
  imports Om_Properties "HOL-Library.Sublist"
begin

text \<open>
  The order-maintenance structure as the race detector uses it (\<^verbatim>\<open>rdtool/src/omrd.cpp\<close>): strands are inserted after strands,
  lists that have run full are relabelled in between, and two strands are compared at any time. The
  locale states what the detector relies on; the structure of \<^verbatim>\<open>om.c\<close> provides it.
\<close>

section \<open>Pairs in a list without duplicates\<close>

lemma subseq_pair_nth:
  assumes "i < j" "j < length xs"
  shows "subseq [xs ! i, xs ! j] xs"
proof -
  have xs: "xs = take i xs @ xs ! i # drop (Suc i) xs" using assms by (simp add: id_take_nth_drop)
  have "xs ! j = drop (Suc i) xs ! (j - Suc i)" using assms by simp
  then have "xs ! j \<in> set (drop (Suc i) xs)" using assms by (metis Suc_leI diff_less_mono length_drop nth_mem)
  then have "subseq (xs ! i # [xs ! j]) (xs ! i # drop (Suc i) xs)" by (simp add: subseq_singleton_left)
  then show ?thesis by (subst (3) xs) (rule list_emb_append2)
qed

lemma subseq_pair_only:
  assumes "distinct xs" "subseq [x, y] xs"
  shows "x \<noteq> y \<and> \<not> subseq [y, x] xs"
proof -
  obtain us vs where xs: "xs = us @ x # vs" "y \<in> set vs" using assms(2) by (auto dest!: list_emb_ConsD simp: subseq_singleton_left)
  have "\<not> subseq [y, x] xs"
  proof
    assume "subseq [y, x] xs"
    then obtain us' vs' where ys: "xs = us' @ y # vs'" "x \<in> set vs'" by (auto dest!: list_emb_ConsD simp: subseq_singleton_left)
    obtain ws zs where v: "vs = ws @ y # zs" using xs(2) by (meson split_list)
    have "(us @ x # ws) = us' \<and> zs = vs'"
      by (rule distinct_split_unique [where a = y]) (use assms(1) xs(1) ys(1) v in simp_all)
    then show False using assms(1) xs(1) ys(2) v by auto
  qed
  then show ?thesis using assms(1) xs by auto
qed

lemma subseq_insert_after: "subseq xs (insert_after b n xs)"
  by (induction xs) auto

section \<open>The interface\<close>

datatype ('n, 'l) order_op = Insert_After 'n | Relabel 'l

fun run_ops :: "('n \<Rightarrow> 's \<Rightarrow> ('n option \<times> 's) option) \<Rightarrow> ('l \<Rightarrow> 's \<Rightarrow> 's option) \<Rightarrow> ('n, 'l) order_op list \<Rightarrow> 's \<Rightarrow> 's option" where
  "run_ops ins rel [] s = Some s"
| "run_ops ins rel (Insert_After x # ops) s = do { (r, s) \<leftarrow> ins x s; run_ops ins rel ops s }"
| "run_ops ins rel (Relabel l # ops) s = do { s \<leftarrow> rel l s; run_ops ins rel ops s }"

text \<open>The sequence after an insertion, and the obligations of the caller along a run from a state that stands for \<open>xs\<close>.\<close>

definition after_insert :: "'n \<Rightarrow> 'n option \<Rightarrow> 'n list \<Rightarrow> 'n list" where
  "after_insert x r xs = (case r of None \<Rightarrow> xs | Some n \<Rightarrow> insert_after x n xs)"

fun ops_allowed :: "('n \<Rightarrow> 's \<Rightarrow> ('n option \<times> 's) option) \<Rightarrow> ('l \<Rightarrow> 's \<Rightarrow> 's option) \<Rightarrow> ('l \<Rightarrow> 's \<Rightarrow> 'n list \<Rightarrow> bool) \<Rightarrow>
    ('n, 'l) order_op list \<Rightarrow> 's \<Rightarrow> 'n list \<Rightarrow> bool" where
  "ops_allowed ins rel can [] s xs = True"
| "ops_allowed ins rel can (Insert_After x # ops) s xs = (x \<in> set xs \<and>
     (case ins x s of None \<Rightarrow> True | Some (r, s) \<Rightarrow> ops_allowed ins rel can ops s (after_insert x r xs)))"
| "ops_allowed ins rel can (Relabel l # ops) s xs = (can l s xs \<and>
     (case rel l s of None \<Rightarrow> True | Some s \<Rightarrow> ops_allowed ins rel can ops s xs))"

locale order_maintenance =
  fixes stands_for :: "'s \<Rightarrow> 'n list \<Rightarrow> bool"
    and ins :: "'n \<Rightarrow> 's \<Rightarrow> ('n option \<times> 's) option" and rel :: "'l \<Rightarrow> 's \<Rightarrow> 's option"
    and can_rel :: "'l \<Rightarrow> 's \<Rightarrow> 'n list \<Rightarrow> bool" and before :: "'s \<Rightarrow> 'n \<Rightarrow> 'n \<Rightarrow> bool option"
  assumes no_duplicates: "stands_for s xs \<Longrightarrow> distinct xs"
    and ins_law: "stands_for s xs \<Longrightarrow> x \<in> set xs \<Longrightarrow> \<exists>r s'. ins x s = Some (r, s') \<and> stands_for s' (after_insert x r xs)"
    and rel_law: "stands_for s xs \<Longrightarrow> can_rel l s xs \<Longrightarrow> \<exists>s'. rel l s = Some s' \<and> stands_for s' xs"
    and before_law: "stands_for s xs \<Longrightarrow> i < length xs \<Longrightarrow> j < length xs \<Longrightarrow> before s (xs ! i) (xs ! j) = Some (i < j)"
begin

lemma before_subseq:
  assumes s: "stands_for s xs" and x: "x \<in> set xs" and y: "y \<in> set xs"
  shows "before s x y = Some (subseq [x, y] xs)"
proof -
  obtain i j where ij: "i < length xs" "xs ! i = x" "j < length xs" "xs ! j = y" using x y by (metis in_set_conv_nth)
  have "subseq [x, y] xs \<longleftrightarrow> i < j"
  proof (cases i j rule: linorder_cases)
    case less
    then show ?thesis using subseq_pair_nth [of i j xs] ij by auto
  next
    case equal
    then show ?thesis using subseq_pair_only [OF no_duplicates [OF s]] ij by auto
  next
    case greater
    then show ?thesis using subseq_pair_nth [of j i xs] subseq_pair_only [OF no_duplicates [OF s], of x y] ij by auto
  qed
  then show ?thesis using before_law [OF s ij(1,3)] ij(2,4) by simp
qed

lemma run_ops_extends:
  "stands_for s xs \<Longrightarrow> ops_allowed ins rel can_rel ops s xs \<Longrightarrow>
    \<exists>s' ys. run_ops ins rel ops s = Some s' \<and> stands_for s' ys \<and> subseq xs ys"
proof (induction ops arbitrary: s xs)
  case (Cons op ops)
  show ?case
  proof (cases op)
    case (Insert_After x)
    then obtain r t where t: "ins x s = Some (r, t)" "stands_for t (after_insert x r xs)" using ins_law Cons.prems by fastforce
    then have "ops_allowed ins rel can_rel ops t (after_insert x r xs)" using Cons.prems(2) Insert_After by simp
    from Cons.IH [OF t(2) this] obtain u ys where u: "run_ops ins rel ops t = Some u" "stands_for u ys" "subseq (after_insert x r xs) ys"
      by blast
    have "subseq xs (after_insert x r xs)" by (simp add: after_insert_def subseq_insert_after split: option.split)
    then have "subseq xs ys" using u(3) by (rule subseq_order.order_trans)
    then show ?thesis using u(1,2) t(1) Insert_After by auto
  next
    case (Relabel l)
    then obtain t where t: "rel l s = Some t" "stands_for t xs" using rel_law Cons.prems by fastforce
    then have "ops_allowed ins rel can_rel ops t xs" using Cons.prems(2) Relabel by simp
    from Cons.IH [OF t(2) this] show ?thesis using t(1) Relabel by auto
  qed
qed auto

lemma answers_stable:
  assumes s: "stands_for s xs" and ops: "ops_allowed ins rel can_rel ops s xs" and x: "x \<in> set xs" and y: "y \<in> set xs"
  shows "\<exists>s' b. run_ops ins rel ops s = Some s' \<and> before s x y = Some b \<and> before s' x y = Some b"
proof -
  obtain s' ys where s': "run_ops ins rel ops s = Some s'" "stands_for s' ys" "subseq xs ys" using run_ops_extends [OF s ops] by blast
  have sub: "subseq zs xs \<Longrightarrow> subseq zs ys" for zs using s'(3) subseq_order.order_trans by blast
  have mem: "x \<in> set ys" "y \<in> set ys" using s'(3) x y by (meson subseq_singleton_left sub)+
  have "subseq [x, y] ys \<longleftrightarrow> subseq [x, y] xs"
  proof
    assume a: "subseq [x, y] ys"
    have "x \<noteq> y" "\<not> subseq [y, x] ys" using subseq_pair_only [OF no_duplicates [OF s'(2)] a] by simp_all
    then have n: "\<not> subseq [y, x] xs" using sub by blast
    obtain i j where ij: "i < length xs" "xs ! i = x" "j < length xs" "xs ! j = y" using x y by (metis in_set_conv_nth)
    then show "subseq [x, y] xs" using subseq_pair_nth [of i j xs] subseq_pair_nth [of j i xs] n \<open>x \<noteq> y\<close>
      by (cases i j rule: linorder_cases) auto
  qed (rule sub)
  then show ?thesis using before_subseq [OF s x y] before_subseq [OF s'(2) mem] s'(1) by simp
qed

end

section \<open>The structure provides it\<close>

type_synonym om_state = "om \<times> om_heap"

definition om_stands_for :: "om_state \<Rightarrow> node_ptr list \<Rightarrow> bool" where
  "om_stands_for s xs \<longleftrightarrow> (\<exists>t. om_inv (snd s) (fst s) t \<and> om_order t = xs)"

definition om_ins :: "int \<Rightarrow> node_ptr \<Rightarrow> om_state \<Rightarrow> (node_ptr option \<times> om_state) proc" where
  "om_ins w x s = do { (r, h) \<leftarrow> om_insert w x (snd s); Some (r, (fst s, h)) }"

definition om_rel :: "machine \<Rightarrow> tl_ptr list \<Rightarrow> om_state \<Rightarrow> om_state proc" where
  "om_rel M hs s = om_relabel M (fst s) hs (snd s)"

definition om_can_rel :: "machine \<Rightarrow> tl_ptr list \<Rightarrow> om_state \<Rightarrow> node_ptr list \<Rightarrow> bool" where
  "om_can_rel M hs s xs \<longleftrightarrow> (\<exists>t. om_inv (snd s) (fst s) t \<and> om_order t = xs \<and> distinct hs \<and>
     (\<forall>p\<in>set hs. \<exists>b ys. (p, b, ys) \<in> set (flat t) \<and> ys \<noteq> []) \<and> leaves_after (set hs) t + 1 < 2 ^ 64 \<and> fits_after M (set hs) 0 t)"

definition om_before :: "om_state \<Rightarrow> node_ptr \<Rightarrow> node_ptr \<Rightarrow> bool proc" where
  "om_before s x y = om_precedes (snd s) (Some x) (Some y)"

interpretation om: order_maintenance om_stands_for "om_ins w" "om_rel M" "om_can_rel M" om_before for w M
proof
  fix s xs assume "om_stands_for s xs"
  then show "distinct xs" by (auto simp: om_stands_for_def om_inv_def tree_ok_def)
next
  fix s xs x assume a: "om_stands_for s xs" "x \<in> set xs"
  then obtain t where t: "om_inv (snd s) (fst s) t" "om_order t = xs" by (auto simp: om_stands_for_def)
  from om_insert_spec [OF t(1), of x w] a(2) t(2) obtain r h' where r: "om_insert w x (snd s) = Some (r, h')"
    "case r of None \<Rightarrow> h' = snd s | Some n \<Rightarrow> n \<notin> set xs \<and> om_inv h' (fst s) (ins_tree x n t) \<and>
       om_order (ins_tree x n t) = insert_after x n xs" by auto
  have "om_stands_for (fst s, h') (after_insert x r xs)"
    using r(2) t by (cases r) (auto simp: om_stands_for_def after_insert_def)
  then show "\<exists>r s'. om_ins w x s = Some (r, s') \<and> om_stands_for s' (after_insert x r xs)" using r(1) by (auto simp: om_ins_def)
next
  fix s xs hs assume "om_stands_for s xs" "om_can_rel M hs s xs"
  then show "\<exists>s'. om_rel M hs s = Some s' \<and> om_stands_for s' xs"
    using om_relabel_spec [of "snd s" "fst s" _ hs M] by (fastforce simp: om_can_rel_def om_rel_def om_stands_for_def)
next
  fix s xs i j assume "om_stands_for s xs" "i < length xs" "j < length xs"
  then show "om_before s (xs ! i) (xs ! j) = Some (i < j)"
    using om_precedes_order by (auto simp: om_stands_for_def om_before_def om_precedes_def)
qed

text \<open>
  C10. The answers of the order-maintenance structure never change. Take any sequence of insertions after known strands and of
  relabellings, each relabelling at a moment when the counts of the tree fit its levels (\<open>om_can_rel\<close>, as in the correctness
  of \<^verbatim>\<open>om_relabel\<close>; otherwise it can stop the process). The sequence does not stop the process, and two strands that were
  ordered before it compare the same way after it.
\<close>

theorem order_answers_stable:
  assumes "om_inv h self t" "ops_allowed (om_ins w) (om_rel M) (om_can_rel M) ops (self, h) (om_order t)"
    and "x \<in> set (om_order t)" "y \<in> set (om_order t)"
  shows "\<exists>self' h' b. run_ops (om_ins w) (om_rel M) ops (self, h) = Some (self', h') \<and>
    om_precedes h (Some x) (Some y) = Some b \<and> om_precedes h' (Some x) (Some y) = Some b"
proof -
  have "om_stands_for (self, h) (om_order t)" using assms(1) by (auto simp: om_stands_for_def)
  from om.answers_stable [OF this assms(2-4)] show ?thesis by (auto simp: om_before_def)
qed

theorem order_answers_stable_witness:
  "\<exists>self' h' b. run_ops (om_ins 0) (om_rel ex_machine) [Relabel [0], Insert_After 2] (ex_om, ex_heap 65) = Some (self', h') \<and>
    om_precedes (ex_heap 65) (Some 5) (Some 9) = Some b \<and> om_precedes h' (Some 5) (Some 9) = Some b"
proof -
  have inv: "om_inv (ex_heap 65) ex_om (ex_tree 65)" by (rule ex_tree_ok) simp_all
  have "om_can_rel ex_machine [0] (ex_om, ex_heap 65) [2..<67]"
    unfolding om_can_rel_def using inv
    by (intro exI [of _ "ex_tree 65"]) (simp add: ex_tree_def chunks_def MAX_LEVEL_def)
  then have "ops_allowed (om_ins 0) (om_rel ex_machine) (om_can_rel ex_machine) [Relabel [0], Insert_After 2] (ex_om, ex_heap 65)
      (om_order (ex_tree 65))" by (simp split: option.split prod.split)
  from order_answers_stable [OF inv this, of 5 9] show ?thesis by simp
qed

end
