(* ===== verification/Shadow_Stack.thy ===== *)
theory Shadow_Stack
  imports Prelude
begin

text \<open>
  The shadow call stack of the race detector: \<^verbatim>\<open>rdtool/src/stack.h\<close>. \<^verbatim>\<open>Stack_t\<close> is a growing and
  shrinking array with the index \<^verbatim>\<open>_head\<close> of its top; \<^verbatim>\<open>AtomicStack_t\<close> adds the index
  \<^verbatim>\<open>_tail\<close> below which frames have been stolen. The model keeps the array with all its cells, also the ones above
  the head, and the number of frames in place of the unsigned head, so that the empty stack is zero frames instead of the head
  \<open>2^32-1\<close>; the comparisons of the unsigned head are written out for that case. The 32-bit counters do not wrap
  below \<open>2^31\<close> frames.

  What \<^verbatim>\<open>new\<close> puts into fresh cells is the argument \<open>junk\<close>.
\<close>

record 'a stack =
  cells :: "'a list"
  frames :: nat
  tail :: nat

definition DEFAULT_CAPACITY :: nat where "DEFAULT_CAPACITY = 128"

abbreviation stack_capacity :: "'a stack \<Rightarrow> nat" where "stack_capacity s \<equiv> length (cells s)"

definition Stack_new :: "'a \<Rightarrow> 'a stack" where
  "Stack_new junk = \<lparr>cells = replicate DEFAULT_CAPACITY junk, frames = 0, tail = 0\<rparr>"

definition Stack_resize :: "'a \<Rightarrow> nat \<Rightarrow> 'a stack \<Rightarrow> 'a stack" where
  "Stack_resize junk n s =
     (let copy_end = (if n < stack_capacity s then n else stack_capacity s)
      in s\<lparr>cells := take copy_end (cells s) @ replicate (n - copy_end) junk\<rparr>)"

definition Stack_push :: "'a \<Rightarrow> 'a stack \<Rightarrow> 'a stack" where
  "Stack_push junk s =
     (let s' = s\<lparr>frames := frames s + 1\<rparr>
      in if frames s = stack_capacity s then Stack_resize junk (stack_capacity s * 2) s' else s')"

text \<open>After the decrement an empty stack has the largest head, so it is not below half of the capacity.\<close>

definition Stack_pop :: "'a \<Rightarrow> 'a stack \<Rightarrow> 'a stack proc" where
  "Stack_pop junk s = do {
     assert_c (0 < frames s);
     let s = s\<lparr>frames := frames s - 1\<rparr>;
     Some (if DEFAULT_CAPACITY < stack_capacity s \<and> 0 < frames s \<and> frames s - 1 < stack_capacity s div 2
           then Stack_resize junk (stack_capacity s div 2) s else s) }"

definition Stack_ancestor :: "nat \<Rightarrow> 'a stack \<Rightarrow> 'a proc" where
  "Stack_ancestor i s = do {
     assert_c (i < frames s \<and> frames s \<le> stack_capacity s);
     Some (cells s ! (frames s - 1 - i)) }"

definition Stack_at :: "nat \<Rightarrow> 'a stack \<Rightarrow> 'a proc" where
  "Stack_at i s = do {
     assert_c (i < frames s \<and> frames s \<le> stack_capacity s);
     Some (cells s ! i) }"

definition Stack_head :: "'a stack \<Rightarrow> 'a proc" where
  "Stack_head s = Stack_ancestor 0 s"

text \<open>Writing through the pointer that \<^verbatim>\<open>ancestor\<close> returns.\<close>

definition set_ancestor :: "nat \<Rightarrow> 'a \<Rightarrow> 'a stack \<Rightarrow> 'a stack proc" where
  "set_ancestor i v s = do {
     assert_c (i < frames s \<and> frames s \<le> stack_capacity s);
     Some (s\<lparr>cells := (cells s)[frames s - 1 - i := v]\<rparr>) }"

definition Stack_size :: "'a stack \<Rightarrow> nat" where "Stack_size s = frames s"
definition Stack_empty :: "'a stack \<Rightarrow> bool" where "Stack_empty s \<longleftrightarrow> Stack_size s = 0"

section \<open>The locked operations\<close>

definition AStack_push_helper :: "('a \<Rightarrow> bool) \<Rightarrow> ('a \<Rightarrow> 'a) \<Rightarrow> 'a \<Rightarrow> 'a stack \<Rightarrow> 'a stack proc" where
  "AStack_push_helper helper set_helper junk s = do {
     h \<leftarrow> Stack_head s;
     assert_c (\<not> helper h);
     let s = Stack_push junk s;
     h \<leftarrow> Stack_head s;
     set_ancestor 0 (set_helper h) s }"

definition AStack_add :: "'a \<Rightarrow> 'a \<Rightarrow> 'a stack \<Rightarrow> 'a stack proc" where
  "AStack_add junk item s = set_ancestor 0 item (Stack_push junk s)"

text \<open>\<^verbatim>\<open>reset\<close> overwrites the frames with a pattern before it drops them.\<close>

definition AStack_reset :: "'a \<Rightarrow> 'a stack \<Rightarrow> 'a stack" where
  "AStack_reset pattern s =
     s\<lparr>cells := replicate (frames s) pattern @ drop (frames s) (cells s), frames := 0, tail := 0\<rparr>"

definition AStack_pop :: "'a \<Rightarrow> 'a stack \<Rightarrow> 'a stack proc" where
  "AStack_pop junk s = do {
     assert_c (frames s = 0 \<or> tail s < frames s);
     s \<leftarrow> Stack_pop junk s;
     s \<leftarrow> (if 0 < frames s \<and> frames s - 1 < tail s then do {
             let s = s\<lparr>tail := tail s - 1\<rparr>;
             assert_c (tail s = frames s - 1);
             Some s } else Some s);
     assert_c (frames s = 0 \<or> tail s < frames s);
     Some s }"

fun push_all :: "'a \<Rightarrow> 'a list \<Rightarrow> 'a stack \<Rightarrow> 'a stack proc" where
  "push_all junk [] s = Some s"
| "push_all junk (x # xs) s = do { s \<leftarrow> AStack_add junk x s; push_all junk xs s }"

text \<open>
  The loop of \<^verbatim>\<open>steal_top\<close> copies frames from the tail to the next helper frame. It reads the cell after the tail
  before it looks whether there is a frame; reading behind the array is undefined.
\<close>

function copy_to_helper :: "('a \<Rightarrow> bool) \<Rightarrow> 'a \<Rightarrow> 'a stack \<Rightarrow> 'a stack \<Rightarrow> ('a stack \<times> 'a stack) proc" where
  "copy_to_helper helper junk s thief =
     (if tail s < stack_capacity s then
        if helper (cells s ! tail s) then Some (s, thief)
        else do {
          assert_c (tail s < frames s);
          thief \<leftarrow> AStack_add junk (cells s ! tail s) thief;
          copy_to_helper helper junk (s\<lparr>tail := tail s + 1\<rparr>) thief }
      else None)"
  by pat_completeness auto
termination
  by (relation "measure (\<lambda>(helper, junk, s, thief). stack_capacity s - tail s)") auto

declare copy_to_helper.simps [simp del]

definition AStack_steal_top :: "('a \<Rightarrow> bool) \<Rightarrow> ('a \<Rightarrow> 'a) \<Rightarrow> 'a \<Rightarrow> 'a stack \<Rightarrow> 'a stack \<Rightarrow> ('a stack \<times> 'a stack) proc" where
  "AStack_steal_top helper set_full junk s thief = do {
     assert_c (frames s = 0 \<or> tail s < frames s);
     assert_c (Stack_empty thief);
     assert_c (tail s < stack_capacity s);
     let thief = thief\<lparr>tail := tail s\<rparr>;
     thief \<leftarrow> push_all junk (map set_full (take (tail s) (cells s))) thief;
     thief \<leftarrow> AStack_add junk (cells s ! tail s) thief;
     (s, thief) \<leftarrow> copy_to_helper helper junk (s\<lparr>tail := tail s + 1\<rparr>) thief;
     assert_c (helper (cells s ! tail s));
     let s = (if 0 < frames s \<and> frames s - 1 < tail s then s\<lparr>tail := frames s - 1\<rparr> else s);
     assert_c (frames s = 0 \<or> tail s < frames s);
     h \<leftarrow> Stack_head thief;
     assert_c (\<not> helper h);
     Some (s, thief) }"

text \<open>
  \<^verbatim>\<open>transfer\<close> copies all frames into a stack that it resets first. Its loop compares the counter with the unsigned
  head, which is the largest number when there is no frame: then it runs off the array.
\<close>

definition AStack_transfer :: "'a \<Rightarrow> 'a \<Rightarrow> 'a stack \<Rightarrow> 'a stack \<Rightarrow> 'a stack proc" where
  "AStack_transfer pattern junk s orig = do {
     assert_c (0 < frames s);
     orig \<leftarrow> push_all junk (take (frames s) (cells s)) (AStack_reset pattern orig);
     Some (orig\<lparr>tail := tail s\<rparr>) }"

definition AStack_memsize :: "nat \<Rightarrow> nat \<Rightarrow> 'a stack \<Rightarrow> nat" where
  "AStack_memsize elem_size obj_size s = stack_capacity s * elem_size + obj_size"

section \<open>The stack is a list\<close>

definition live :: "'a stack \<Rightarrow> 'a list" where "live s = take (frames s) (cells s)"

definition stack_ok :: "'a stack \<Rightarrow> bool" where
  "stack_ok s \<longleftrightarrow> frames s \<le> stack_capacity s \<and> (\<exists>k. stack_capacity s = DEFAULT_CAPACITY * 2 ^ k)"

lemma stack_new [simp]: "stack_ok (Stack_new junk)" "live (Stack_new junk) = []" "tail (Stack_new junk) = 0"
  by (simp_all add: stack_ok_def Stack_new_def live_def) (intro disjI2 exI [of _ 0], simp)

lemma stack_ok_cap: "stack_ok s \<Longrightarrow> 0 < stack_capacity s"
  by (auto simp: stack_ok_def DEFAULT_CAPACITY_def)

lemma length_live: "stack_ok s \<Longrightarrow> length (live s) = frames s"
  by (simp add: stack_ok_def live_def)

lemma resize_live: "frames s \<le> n \<Longrightarrow> frames s \<le> stack_capacity s \<Longrightarrow> live (Stack_resize junk n s) = live s"
  by (simp add: live_def Stack_resize_def Let_def min_def)

lemma resize_simps [simp]: "stack_capacity (Stack_resize junk n s) = n" "frames (Stack_resize junk n s) = frames s"
  "tail (Stack_resize junk n s) = tail s"
  by (auto simp: Stack_resize_def Let_def)

lemma push_simps [simp]: "frames (Stack_push junk s) = frames s + 1" "tail (Stack_push junk s) = tail s"
  by (simp_all add: Stack_push_def Let_def)

lemma push_ok: "stack_ok s \<Longrightarrow> stack_ok (Stack_push junk s)"
proof (cases "frames s = stack_capacity s")
  case True
  assume ok: "stack_ok s"
  then obtain k where "stack_capacity s = DEFAULT_CAPACITY * 2 ^ k" by (auto simp: stack_ok_def)
  then have "stack_capacity s * 2 = DEFAULT_CAPACITY * 2 ^ Suc k" by simp
  then have "\<exists>k. stack_capacity s * 2 = DEFAULT_CAPACITY * 2 ^ k" by blast
  then show ?thesis using True stack_ok_cap [OF ok] by (simp add: stack_ok_def Stack_push_def Let_def Suc_le_eq)
qed (simp add: stack_ok_def Stack_push_def)

lemma push_live: "stack_ok s \<Longrightarrow> \<exists>x. live (Stack_push junk s) = live s @ [x]"
proof (cases "frames s = stack_capacity s")
  case True
  assume ok: "stack_ok s"
  then have "live (Stack_push junk s) = live s @ [junk]"
    using True stack_ok_cap [OF ok]
    by (cases "length (cells s)") (auto simp: Stack_push_def Stack_resize_def live_def gr0_conv_Suc min_def)
  then show ?thesis by blast
next
  case False
  assume "stack_ok s"
  then have "live (Stack_push junk s) = live s @ [cells s ! frames s]"
    using False by (simp add: Stack_push_def live_def stack_ok_def take_Suc_conv_app_nth)
  then show ?thesis by blast
qed

lemma ancestor_live: "stack_ok s \<Longrightarrow> i < length (live s) \<Longrightarrow> Stack_ancestor i s = Some (live s ! (length (live s) - 1 - i))"
  by (simp add: length_live Stack_ancestor_def) (simp add: stack_ok_def live_def)

lemma at_live: "stack_ok s \<Longrightarrow> i < length (live s) \<Longrightarrow> Stack_at i s = Some (live s ! i)"
  by (simp add: length_live Stack_at_def) (simp add: stack_ok_def live_def)

lemma set_ancestor_live:
  assumes "stack_ok s" "i < length (live s)"
  shows "\<exists>s'. set_ancestor i v s = Some s' \<and> stack_ok s' \<and> live s' = (live s)[length (live s) - 1 - i := v] \<and>
    frames s' = frames s \<and> tail s' = tail s"
  using assms by (simp add: length_live set_ancestor_def) (simp add: stack_ok_def live_def take_update_swap)

lemma pop_live:
  assumes ok: "stack_ok s" and l: "live s = xs @ [x]"
  shows "\<exists>s'. Stack_pop junk s = Some s' \<and> stack_ok s' \<and> live s' = xs \<and> tail s' = tail s"
proof -
  let ?s = "s\<lparr>frames := frames s - 1\<rparr>"
  let ?half = "DEFAULT_CAPACITY < stack_capacity s \<and> 0 < frames ?s \<and> frames ?s - 1 < stack_capacity s div 2"
  have n: "frames s = Suc (length xs)" using length_live [OF ok] l by simp
  have "live ?s = take (length xs) (live s)" by (simp add: live_def n)
  then have ls: "live ?s = xs" using l by simp
  have pop: "Stack_pop junk s = Some (if ?half then Stack_resize junk (stack_capacity s div 2) ?s else ?s)"
    using n by (simp add: Stack_pop_def Let_def)
  show ?thesis
  proof (cases ?half)
    case True
    obtain k where k: "stack_capacity s = DEFAULT_CAPACITY * 2 ^ k" using ok by (auto simp: stack_ok_def)
    then obtain j where "k = Suc j" using True by (cases k) auto
    then have "stack_capacity s div 2 = DEFAULT_CAPACITY * 2 ^ j" using k by simp
    then have "\<exists>k. stack_capacity s div 2 = DEFAULT_CAPACITY * 2 ^ k" by blast
    moreover have "frames ?s \<le> stack_capacity s div 2" using True by linarith
    ultimately show ?thesis using True pop ls n ok resize_live [of ?s "stack_capacity s div 2" junk] by (auto simp: stack_ok_def)
  next
    case False
    then show ?thesis using pop ls ok by (auto simp: stack_ok_def)
  qed
qed

lemma head_live: "stack_ok s \<Longrightarrow> live s = xs @ [x] \<Longrightarrow> Stack_head s = Some x"
  using ancestor_live [of s 0] by (simp add: Stack_head_def nth_append)

lemma ancestor1_live: "stack_ok s \<Longrightarrow> live s = xs @ [y, x] \<Longrightarrow> Stack_ancestor 1 s = Some y"
  using ancestor_live [of s 1] by (simp add: nth_append)

lemma set_head_live: "stack_ok s \<Longrightarrow> live s = xs @ [x] \<Longrightarrow>
    \<exists>s'. set_ancestor 0 v s = Some s' \<and> stack_ok s' \<and> live s' = xs @ [v] \<and> tail s' = tail s"
  using set_ancestor_live [of s 0 v] by (auto simp: list_update_append)

lemma set_ancestor1_live: "stack_ok s \<Longrightarrow> live s = xs @ [y, x] \<Longrightarrow>
    \<exists>s'. set_ancestor 1 v s = Some s' \<and> stack_ok s' \<and> live s' = xs @ [v, x] \<and> tail s' = tail s"
  using set_ancestor_live [of s 1 v] by (auto simp: list_update_append)

lemma add_live: "stack_ok s \<Longrightarrow> \<exists>s'. AStack_add junk x s = Some s' \<and> stack_ok s' \<and> live s' = live s @ [x] \<and> tail s' = tail s"
  using push_live [of s junk] set_head_live [OF push_ok, of s junk "live s"] by (auto simp: AStack_add_def)

lemma push_all_live:
  "stack_ok s \<Longrightarrow> \<exists>s'. push_all junk xs s = Some s' \<and> stack_ok s' \<and> live s' = live s @ xs \<and> tail s' = tail s"
proof (induction xs arbitrary: s)
  case (Cons x xs)
  from add_live [OF Cons.prems, of junk x] obtain s1 where s1: "AStack_add junk x s = Some s1" "stack_ok s1" "live s1 = live s @ [x]"
    "tail s1 = tail s" by blast
  from Cons.IH [OF s1(2)] s1 show ?case by auto
qed simp

lemma reset_live: "stack_ok s \<Longrightarrow> stack_ok (AStack_reset p s) \<and> live (AStack_reset p s) = [] \<and> Stack_empty (AStack_reset p s)"
  by (simp add: AStack_reset_def stack_ok_def live_def Stack_empty_def Stack_size_def)

lemma push_helper_live:
  assumes "stack_ok s" "live s = xs @ [x]" "\<not> helper x"
  shows "\<exists>s' y. AStack_push_helper helper set_helper junk s = Some s' \<and> stack_ok s' \<and> live s' = xs @ [x, set_helper y] \<and> tail s' = tail s"
proof -
  obtain y where y: "live (Stack_push junk s) = (xs @ [x]) @ [y]" using push_live [OF assms(1), of junk] assms(2) by auto
  note ok = push_ok [OF assms(1), of junk]
  from set_head_live [OF ok y, of "set_helper y"] head_live [OF ok y] show ?thesis
    using head_live [OF assms(1,2)] assms(3) by (auto simp: AStack_push_helper_def)
qed

text \<open>
  The pop of the top frame: the tail stays, unless the frame at the tail itself is popped.
\<close>

lemma apop_live:
  assumes ok: "stack_ok s" and l: "live s = xs @ [x]" and t: "tail s \<le> length xs"
  shows "\<exists>s'. AStack_pop junk s = Some s' \<and> stack_ok s' \<and> live s' = xs \<and>
    tail s' = (if xs = [] then tail s else min (tail s) (length xs - 1))"
proof -
  obtain s1 where s1: "Stack_pop junk s = Some s1" "stack_ok s1" "live s1 = xs" "tail s1 = tail s" using pop_live [OF ok l] by blast
  have n: "frames s = Suc (length xs)" "frames s1 = length xs" using length_live [OF ok] length_live [OF s1(2)] l s1(3) by simp_all
  show ?thesis
  proof (cases "xs \<noteq> [] \<and> length xs - 1 < tail s")
    case True
    then have "tail s = length xs" using t by linarith
    then show ?thesis using True s1 n by (auto simp: AStack_pop_def stack_ok_def live_def)
  next
    case False
    then have "xs = [] \<or> tail s < length xs" by (cases xs) auto
    then show ?thesis using False s1 n t by (auto simp: AStack_pop_def)
  qed
qed

section \<open>Stealing\<close>

lemma copy_to_helper_live:
  assumes "stack_ok s" "live s = as @ bs @ c # cs" "tail s = length as" "\<forall>b\<in>set bs. \<not> helper b" "helper c" "stack_ok thief"
  shows "\<exists>thief'. copy_to_helper helper junk s thief = Some (s\<lparr>tail := length as + length bs\<rparr>, thief') \<and> stack_ok thief' \<and>
    live thief' = live thief @ bs \<and> tail thief' = tail thief"
  using assms
proof (induction bs arbitrary: s thief as)
  case Nil
  have n: "frames s = length as + Suc (length cs)" using length_live [OF Nil(1)] Nil(2) by simp
  then have t: "tail s < stack_capacity s" using Nil(1,3) by (simp add: stack_ok_def)
  have "cells s ! tail s = live s ! length as" using n Nil(3) by (simp add: live_def)
  then have "helper (cells s ! tail s)" using Nil(2,5) by simp
  then show ?case using t Nil(3,6) by (subst copy_to_helper.simps) (auto simp: stack.surjective)
next
  case (Cons b bs)
  have n: "frames s = length as + Suc (Suc (length bs + length cs))" using length_live [OF Cons.prems(1)] Cons.prems(2) by simp
  then have t: "tail s < stack_capacity s" "tail s < frames s" using Cons.prems(1,3) by (simp_all add: stack_ok_def)
  have "cells s ! tail s = live s ! length as" using n Cons.prems(3) by (simp add: live_def)
  then have b: "cells s ! tail s = b" "\<not> helper b" using Cons.prems(2,4) by simp_all
  obtain th where th: "AStack_add junk b thief = Some th" "stack_ok th" "live th = live thief @ [b]" "tail th = tail thief"
    using add_live [OF Cons.prems(6)] by blast
  let ?s = "s\<lparr>tail := tail s + 1\<rparr>"
  have "stack_ok ?s" "live ?s = (as @ [b]) @ bs @ c # cs" "tail ?s = length (as @ [b])"
    using Cons.prems(1,2,3) by (simp_all add: stack_ok_def live_def)
  from Cons.IH [OF this _ Cons.prems(5) th(2)] Cons.prems(4) obtain th' where
    "copy_to_helper helper junk ?s th = Some (?s\<lparr>tail := length (as @ [b]) + length bs\<rparr>, th')" "stack_ok th'"
    "live th' = live th @ bs" "tail th' = tail th" by auto
  then show ?case using t b th by (subst copy_to_helper.simps) simp
qed

lemma steal_top_spec:
  assumes ok: "stack_ok s" "stack_ok thief" "live thief = []"
    and l: "live s = as @ p # bs @ c # cs" "tail s = length as"
    and h: "\<forall>b\<in>set bs. \<not> helper b" "helper c" "\<not> helper p"
  shows "\<exists>s' thief'. AStack_steal_top helper set_full junk s thief = Some (s', thief') \<and> stack_ok s' \<and> stack_ok thief' \<and>
    live s' = live s \<and> tail s' = length as + 1 + length bs \<and> live s' ! tail s' = c \<and>
    live thief' = map set_full as @ p # bs \<and> tail thief' = length as"
proof -
  have n: "frames s = length as + Suc (Suc (length bs + length cs))" using length_live [OF ok(1)] l(1) by simp
  have cap: "frames s \<le> stack_capacity s" using ok(1) by (simp add: stack_ok_def)
  have e: "Stack_empty thief" using length_live [OF ok(2)] ok(3) by (simp add: Stack_empty_def Stack_size_def)
  have tk: "take (tail s) (cells s) = as" "cells s ! tail s = p"
  proof -
    have "take (tail s) (live s) = as" "live s ! tail s = p" using l by simp_all
    then show "take (tail s) (cells s) = as" "cells s ! tail s = p" using n l(2) by (simp_all add: live_def min_def)
  qed
  have "stack_ok (thief\<lparr>tail := tail s\<rparr>)" "live (thief\<lparr>tail := tail s\<rparr>) = []" using ok(2,3) by (simp_all add: stack_ok_def live_def)
  with push_all_live [of "thief\<lparr>tail := tail s\<rparr>" junk "map set_full as"] obtain t1 where t1:
    "push_all junk (map set_full as) (thief\<lparr>tail := tail s\<rparr>) = Some t1" "stack_ok t1" "live t1 = map set_full as" "tail t1 = tail s"
    by auto
  obtain t2 where t2: "AStack_add junk p t1 = Some t2" "stack_ok t2" "live t2 = map set_full as @ [p]" "tail t2 = tail s"
    using add_live [OF t1(2), of junk p] t1(3,4) by auto
  let ?s = "s\<lparr>tail := tail s + 1\<rparr>" and ?e = "s\<lparr>tail := length as + 1 + length bs\<rparr>"
  have "stack_ok ?s" "live ?s = (as @ [p]) @ bs @ c # cs" "tail ?s = length (as @ [p])"
    using ok(1) l by (simp_all add: stack_ok_def live_def)
  from copy_to_helper_live [OF this h(1,2) t2(2), of junk] obtain t3 where t3:
    "copy_to_helper helper junk ?s t2 = Some (?e, t3)" "stack_ok t3" "live t3 = map set_full as @ p # bs" "tail t3 = tail s"
    using t2(3,4) by auto
  have le: "live ?e = live s" "stack_ok ?e" using ok(1) by (simp_all add: live_def stack_ok_def)
  have c: "live s ! (length as + 1 + length bs) = c" using l(1) by (simp add: nth_append)
  then have ce: "cells s ! (length as + 1 + length bs) = c" using n by (simp add: live_def)
  obtain q qs where q: "map set_full as @ p # bs = qs @ [q]" "\<not> helper q"
    using h by (cases bs rule: rev_cases) auto
  have "AStack_steal_top helper set_full junk s thief = Some (?e, t3)"
    using n cap e l(2) tk t1(1) t2(1) t3(1) ce h(2) head_live [OF t3(2), of qs q] t3(3) q
    by (simp add: AStack_steal_top_def Let_def)
  then show ?thesis using le t3 c l(2) by auto
qed

text \<open>
  C32. A successful steal splits the shadow stack at the next helper frame. The thief gets the frames below the victim's tail,
  marked as full, the frame at the tail and the called frames above it; the victim keeps all frames and its tail is at the helper
  frame of the child it still runs.
\<close>

theorem shadow_steal_splits:
  assumes "stack_ok s" "stack_ok thief" "live thief = []" "live s = as @ p # bs @ c # cs" "tail s = length as"
    and "\<forall>b\<in>set bs. \<not> helper b" "helper c" "\<not> helper p"
  shows "\<exists>s' thief'. AStack_steal_top helper set_full junk s thief = Some (s', thief') \<and> stack_ok s' \<and> stack_ok thief' \<and>
    live s' = live s \<and> tail s' = length as + 1 + length bs \<and> live s' ! tail s' = c \<and>
    live thief' = map set_full as @ p # bs \<and> tail thief' = length as"
  by (rule steal_top_spec [OF assms])

theorem shadow_steal_splits_witness:
  "\<exists>s s' thief. live s = [0, 2, 4, 1] \<and> AStack_steal_top odd (\<lambda>x. x + 100) 0 s (Stack_new (0 :: nat)) = Some (s', thief) \<and>
     live thief = [0, 2, 4] \<and> tail s' = 3"
proof -
  obtain s where s: "stack_ok s" "live s = [0, 2, 4, 1 :: nat]" "tail s = 0"
    using push_all_live [of "Stack_new 0" 0 "[0, 2, 4, 1 :: nat]"] by auto
  obtain s' thief where "AStack_steal_top odd (\<lambda>x. x + 100) 0 s (Stack_new 0) = Some (s', thief)" "tail s' = 3" "live thief = [0, 2, 4]"
    using shadow_steal_splits [where s = s and thief = "Stack_new 0" and as = "[]" and p = 0 and bs = "[2, 4]" and c = 1 and cs = "[]"
      and helper = odd and set_full = "\<lambda>x. x + 100" and junk = 0] s by auto
  then show ?thesis using s(2) by blast
qed

end
