(* ===== verification/Access_Lists.thy ===== *)
theory Access_Lists
  imports Prelude
begin

text \<open>
  The lists of past strands of the race detector: \<^verbatim>\<open>rdtool/src/list.h\<close> and \<^verbatim>\<open>list.cpp\<close>. A list keeps,
  for every future that happens before the current strand, a group: the strands of that future that created or finished a future
  before the current strand, sorted by the English order. A strand is the pair of its English and its Hebrew node; \<open>prec\<close> is
  \<^verbatim>\<open>om_precedes\<close>, an argument of the functions here.

  The groups and tables are arrays in a pool of memory of the worker that are filled once and never written again, so the model
  keeps their contents as lists. The pool itself is its fill counts, and a function that would write past the end of the
  worker's pool is None.
\<close>

section \<open>Groups\<close>

record 'n onode =
  cnode_e :: 'n
  cnode_h :: 'n
  desc_e :: 'n
  desc_h :: 'n
  dag :: 'n

text \<open>The search in a group: \<^verbatim>\<open>List::Search\<close> from line 129 on.\<close>

function search_group :: "('n \<Rightarrow> 'n \<Rightarrow> bool) \<Rightarrow> 'n \<Rightarrow> 'n \<Rightarrow> 'n onode list \<Rightarrow> int \<Rightarrow> int \<Rightarrow> bool" where
  "search_group prec node_e node_h grp low high =
     (if low \<le> high then
        let mid = low + (high - low) div 2;
            n = grp ! nat mid;
            e_prec = prec node_e (cnode_e n);
            h_prec = prec node_h (cnode_h n)
        in if e_prec \<and> h_prec then True
           else if \<not> e_prec then search_group prec node_e node_h grp (mid + 1) high
           else if prec node_e (desc_e n) \<and> prec node_h (desc_h n) then True
           else search_group prec node_e node_h grp low (mid - 1)
      else False)"
  by pat_completeness auto
termination
  by (relation "measure (\<lambda>(prec, e, h, g, low, high). nat (high - low + 1))") (auto simp: Let_def)

declare search_group.simps [simp del]

fun group_merge :: "('n \<Rightarrow> 'n \<Rightarrow> bool) \<Rightarrow> 'n onode list \<Rightarrow> 'n onode list \<Rightarrow> 'n onode list" where
  "group_merge prec [] ys = ys"
| "group_merge prec (x # xs) [] = x # xs"
| "group_merge prec (x # xs) (y # ys) =
     (if prec (cnode_e x) (cnode_e y) then x # group_merge prec xs (y # ys)
      else if cnode_e x = cnode_e y then
        (if \<not> (prec (desc_e x) (desc_e y) \<and> prec (desc_h x) (desc_h y)) then x else y) # group_merge prec xs ys
      else y # group_merge prec (x # xs) ys)"

text \<open>The condition in the loop is an expression with the comma operator: its first operand is evaluated and dropped.\<close>

fun merge_group_single :: "('n \<Rightarrow> 'n \<Rightarrow> bool) \<Rightarrow> 'n onode list \<Rightarrow> 'n onode \<Rightarrow> 'n onode list" where
  "merge_group_single prec [] n = [n]"
| "merge_group_single prec (m # ms) n =
     (if prec (cnode_e m) (cnode_e n) then
        (if let dropped = prec (desc_e m) (cnode_e n) in prec (desc_h m) (cnode_h n)
         then m\<lparr>desc_e := cnode_e n, desc_h := cnode_h n\<rparr> else m) # merge_group_single prec ms n
      else n # m # ms)"

section \<open>Strands\<close>

definition sprec :: "('n \<Rightarrow> 'n \<Rightarrow> bool) \<Rightarrow> 'n \<times> 'n \<Rightarrow> 'n \<times> 'n \<Rightarrow> bool" where
  "sprec prec a b \<longleftrightarrow> prec (fst a) (fst b) \<and> prec (snd a) (snd b)"

definition linear_on :: "('n \<Rightarrow> 'n \<Rightarrow> bool) \<Rightarrow> 'n set \<Rightarrow> bool" where
  "linear_on prec A \<longleftrightarrow> irreflp_on A prec \<and> transp_on A prec \<and> totalp_on A prec"

text \<open>A set of strands: each order is total on their nodes, and a node belongs to one strand.\<close>

definition strands_ok :: "('n \<Rightarrow> 'n \<Rightarrow> bool) \<Rightarrow> ('n \<times> 'n) set \<Rightarrow> bool" where
  "strands_ok prec S \<longleftrightarrow> linear_on prec (fst ` S) \<and> linear_on prec (snd ` S) \<and> inj_on fst S \<and> inj_on snd S"

text \<open>Strands of one future form a series-parallel order: it has no \<open>N\<close>.\<close>

definition n_free :: "('n \<Rightarrow> 'n \<Rightarrow> bool) \<Rightarrow> ('n \<times> 'n) set \<Rightarrow> bool" where
  "n_free prec S \<longleftrightarrow> (\<forall>a\<in>S. \<forall>b\<in>S. \<forall>d\<in>S. \<forall>q\<in>S. sprec prec a b \<longrightarrow> sprec prec a d \<longrightarrow> sprec prec q b \<longrightarrow>
     a \<noteq> q \<longrightarrow> \<not> sprec prec a q \<longrightarrow> \<not> sprec prec q a \<longrightarrow> b \<noteq> d \<longrightarrow> \<not> sprec prec b d \<longrightarrow> \<not> sprec prec d b \<longrightarrow> sprec prec q d)"

lemma linear_onD:
  assumes "linear_on prec A"
  shows "x \<in> A \<Longrightarrow> \<not> prec x x" "x \<in> A \<Longrightarrow> y \<in> A \<Longrightarrow> z \<in> A \<Longrightarrow> prec x y \<Longrightarrow> prec y z \<Longrightarrow> prec x z"
    "x \<in> A \<Longrightarrow> y \<in> A \<Longrightarrow> x \<noteq> y \<Longrightarrow> prec x y \<or> prec y x"
  using assms unfolding linear_on_def by (auto dest: irreflp_onD transp_onD totalp_onD)

lemma strands_lin: "strands_ok prec S \<Longrightarrow> linear_on prec (fst ` S)" "strands_ok prec S \<Longrightarrow> linear_on prec (snd ` S)"
  by (simp_all add: strands_ok_def)

lemma strands_eq: "strands_ok prec S \<Longrightarrow> a \<in> S \<Longrightarrow> b \<in> S \<Longrightarrow> fst a = fst b \<Longrightarrow> a = b"
  by (auto simp: strands_ok_def dest: inj_onD)

lemma sprec_trans: "strands_ok prec S \<Longrightarrow> a \<in> S \<Longrightarrow> b \<in> S \<Longrightarrow> c \<in> S \<Longrightarrow> sprec prec a b \<Longrightarrow> sprec prec b c \<Longrightarrow> sprec prec a c"
  unfolding sprec_def by (meson image_eqI linear_onD(2) strands_lin)

lemma sprec_irrefl: "strands_ok prec S \<Longrightarrow> a \<in> S \<Longrightarrow> \<not> sprec prec a a"
  unfolding sprec_def by (meson image_eqI linear_onD(1) strands_lin)

lemma strands_cases:
  assumes "strands_ok prec S" "a \<in> S" "b \<in> S" "a \<noteq> b"
  obtains "sprec prec a b" | "sprec prec b a" | "prec (fst a) (fst b)" "prec (snd b) (snd a)" | "prec (fst b) (fst a)" "prec (snd a) (snd b)"
proof -
  have "fst a \<noteq> fst b" "snd a \<noteq> snd b" using assms by (auto simp: strands_ok_def dest: inj_onD)
  then have "prec (fst a) (fst b) \<or> prec (fst b) (fst a)" "prec (snd a) (snd b) \<or> prec (snd b) (snd a)"
    using linear_onD(3) [OF strands_lin(1) [OF assms(1)]] linear_onD(3) [OF strands_lin(2) [OF assms(1)]] assms(2,3) by auto
  then show thesis using that by (auto simp: sprec_def)
qed

section \<open>The invariant of a group\<close>

definition cpt :: "'n onode \<Rightarrow> 'n \<times> 'n" where "cpt n = (cnode_e n, cnode_h n)"
definition dpt :: "'n onode \<Rightarrow> 'n \<times> 'n" where "dpt n = (desc_e n, desc_h n)"

text \<open>
  The descendant of an entry is a strand of the group at or after it; a strand of \<open>S\<close> that is left of the entry, parallel to
  it and before a later entry is before the descendant.
\<close>

definition group_inv :: "('n \<Rightarrow> 'n \<Rightarrow> bool) \<Rightarrow> ('n \<times> 'n) set \<Rightarrow> 'n onode list \<Rightarrow> bool" where
  "group_inv prec S g \<longleftrightarrow> cpt ` set g \<subseteq> S \<and> sorted_wrt (\<lambda>m n. prec (cnode_e m) (cnode_e n)) g \<and>
     (\<forall>n\<in>set g. dpt n \<in> cpt ` set g \<and> (dpt n = cpt n \<or> sprec prec (cpt n) (dpt n))) \<and>
     (\<forall>n\<in>set g. \<forall>b\<in>cpt ` set g. \<forall>q\<in>S. prec (cnode_e n) (fst b) \<longrightarrow> sprec prec q b \<longrightarrow>
        prec (fst q) (cnode_e n) \<longrightarrow> \<not> prec (snd q) (cnode_h n) \<longrightarrow> sprec prec q (dpt n))"

lemma group_invD:
  assumes "group_inv prec S g"
  shows "n \<in> set g \<Longrightarrow> cpt n \<in> S" "sorted_wrt (\<lambda>m n. prec (cnode_e m) (cnode_e n)) g"
    "n \<in> set g \<Longrightarrow> dpt n \<in> cpt ` set g" "n \<in> set g \<Longrightarrow> dpt n \<in> S"
    "n \<in> set g \<Longrightarrow> dpt n = cpt n \<or> sprec prec (cpt n) (dpt n)"
    "n \<in> set g \<Longrightarrow> b \<in> cpt ` set g \<Longrightarrow> q \<in> S \<Longrightarrow> prec (cnode_e n) (fst b) \<Longrightarrow> sprec prec q b \<Longrightarrow>
       prec (fst q) (cnode_e n) \<Longrightarrow> \<not> prec (snd q) (cnode_h n) \<Longrightarrow> sprec prec q (dpt n)"
  using assms unfolding group_inv_def by blast+

section \<open>The search finds exactly the strands before a strand of the group\<close>

lemma search_group_step:
  assumes "low \<le> high"
  shows "search_group prec (fst q) (snd q) g low high =
    (let n = g ! nat (low + (high - low) div 2) in
     sprec prec q (cpt n) \<or>
     (if \<not> prec (fst q) (cnode_e n) then search_group prec (fst q) (snd q) g (low + (high - low) div 2 + 1) high
      else sprec prec q (dpt n) \<or> search_group prec (fst q) (snd q) g low (low + (high - low) div 2 - 1)))"
  using assms by (subst search_group.simps) (auto simp: Let_def sprec_def cpt_def dpt_def)

lemma search_group_stop: "high < low \<Longrightarrow> \<not> search_group prec e h g low high"
  by (subst search_group.simps) simp

lemma search_group_sound:
  assumes g: "group_inv prec S g"
  shows "search_group prec (fst q) (snd q) g low high \<Longrightarrow> 0 \<le> low \<Longrightarrow> high < int (length g) \<Longrightarrow>
    \<exists>n\<in>set g. sprec prec q (cpt n)"
proof (induction "nat (high - low + 1)" arbitrary: low high rule: less_induct)
  case less
  let ?m = "low + (high - low) div 2"
  have lh: "low \<le> high" using less.prems(1) search_group_stop [of high low] by fastforce
  then have m: "low \<le> ?m" "?m \<le> high" by auto
  then have n: "g ! nat ?m \<in> set g" using less.prems(2,3) by simp
  have d: "\<exists>n\<in>set g. dpt (g ! nat ?m) = cpt n" using group_invD(3) [OF g n] by auto
  from less.prems(1) consider "sprec prec q (cpt (g ! nat ?m))" | "sprec prec q (dpt (g ! nat ?m))"
    | "search_group prec (fst q) (snd q) g (?m + 1) high" | "search_group prec (fst q) (snd q) g low (?m - 1)"
    unfolding search_group_step [OF lh] Let_def by (auto split: if_splits)
  then show ?case
  proof cases
    case 3
    then show ?thesis using less.hyps [of high "?m + 1"] less.prems(2,3) m by simp
  next
    case 4
    then show ?thesis using less.hyps [of "?m - 1" low] less.prems(2,3) m by simp
  qed (use n d in auto)
qed

lemma group_less:
  assumes g: "group_inv prec S g" and ij: "i < j" "j < length g"
  shows "prec (cnode_e (g ! i)) (cnode_e (g ! j))"
  by (rule sorted_wrt_nth_less [OF group_invD(2) [OF g] ij])

lemma search_group_complete:
  assumes S: "strands_ok prec S" and g: "group_inv prec S g" and q: "q \<in> S"
  shows "0 \<le> low \<Longrightarrow> high < int (length g) \<Longrightarrow> low \<le> int j \<Longrightarrow> int j \<le> high \<Longrightarrow> sprec prec q (cpt (g ! j)) \<Longrightarrow>
    search_group prec (fst q) (snd q) g low high"
proof (induction "nat (high - low + 1)" arbitrary: low high rule: less_induct)
  case less
  let ?m = "low + (high - low) div 2"
  let ?n = "g ! nat ?m"
  have lh: "low \<le> high" using less.prems by simp
  then have m: "low \<le> ?m" "?m \<le> high" by auto
  then have ml: "nat ?m < length g" and jl: "j < length g" using less.prems by auto
  then have n: "?n \<in> set g" "g ! j \<in> set g" by auto
  have E: "fst q \<in> fst ` S" "cnode_e ?n \<in> fst ` S" "cnode_e (g ! j) \<in> fst ` S"
    using q group_invD(1) [OF g n(1)] group_invD(1) [OF g n(2)] by (force simp: cpt_def)+
  have qj: "prec (fst q) (cnode_e (g ! j))" using less.prems(5) by (simp add: sprec_def cpt_def)
  show ?case
  proof (cases "sprec prec q (cpt ?n) \<or> sprec prec q (dpt ?n)")
    case True
    then show ?thesis
    proof
      assume "sprec prec q (dpt ?n)"
      moreover have "prec (fst q) (cnode_e ?n) \<or> search_group prec (fst q) (snd q) g (?m + 1) high"
      proof (rule disjCI)
        assume no: "\<not> search_group prec (fst q) (snd q) g (?m + 1) high"
        show "prec (fst q) (cnode_e ?n)"
        proof (cases "j \<le> nat ?m")
          case True
          then show ?thesis using qj group_less [OF g _ ml, of j] linear_onD(2) [OF strands_lin(1) [OF S] E(1,3,2) qj]
            by (cases "j = nat ?m") auto
        next
          case False
          then have "?m + 1 \<le> int j" using m less.prems(1) by linarith
          then show ?thesis using less.hyps [of high "?m + 1"] less.prems m no by auto
        qed
      qed
      ultimately show ?thesis unfolding search_group_step [OF lh] Let_def by auto
    qed (simp add: search_group_step [OF lh] Let_def)
  next
    case False
    then have nj: "j \<noteq> nat ?m" using less.prems(5) by auto
    show ?thesis
    proof (cases "prec (fst q) (cnode_e ?n)")
      case True
      then have h: "\<not> prec (snd q) (cnode_h ?n)" using False by (auto simp: sprec_def cpt_def)
      have "j < nat ?m"
      proof (rule ccontr)
        assume "\<not> j < nat ?m"
        then have "prec (cnode_e ?n) (fst (cpt (g ! j)))" using group_less [OF g _ jl, of "nat ?m"] nj by (simp add: cpt_def)
        from group_invD(6) [OF g n(1) imageI [OF n(2)] q this less.prems(5) True h] show False using False by blast
      qed
      then have "search_group prec (fst q) (snd q) g low (?m - 1)"
        using less.hyps [of "?m - 1" low] less.prems m by auto
      then show ?thesis using True by (simp add: search_group_step [OF lh] Let_def)
    next
      case nprec: False
      have "nat ?m < j"
      proof (rule ccontr)
        assume "\<not> nat ?m < j"
        then have "prec (cnode_e (g ! j)) (cnode_e ?n)" using group_less [OF g _ ml, of j] nj by simp
        then show False using linear_onD(2) [OF strands_lin(1) [OF S] E(1,3,2) qj] nprec by blast
      qed
      then have "search_group prec (fst q) (snd q) g (?m + 1) high"
        using less.hyps [of high "?m + 1"] less.prems m by auto
      then show ?thesis using nprec by (simp add: search_group_step [OF lh] Let_def)
    qed
  qed
qed

lemma search_group_exact:
  assumes "strands_ok prec S" "group_inv prec S g" "q \<in> S"
  shows "search_group prec (fst q) (snd q) g 0 (int (length g) - 1) \<longleftrightarrow> (\<exists>n\<in>set g. sprec prec q (cpt n))"
proof
  assume "search_group prec (fst q) (snd q) g 0 (int (length g) - 1)"
  then show "\<exists>n\<in>set g. sprec prec q (cpt n)" by (rule search_group_sound [OF assms(2)]) simp_all
next
  assume "\<exists>n\<in>set g. sprec prec q (cpt n)"
  then obtain j where "j < length g" "sprec prec q (cpt (g ! j))" by (auto simp: in_set_conv_nth)
  then show "search_group prec (fst q) (snd q) g 0 (int (length g) - 1)"
    by (intro search_group_complete [OF assms, of 0 _ j]) simp_all
qed

section \<open>Adding a strand after all others\<close>

lemma merge_group_single_after:
  assumes "\<forall>m\<in>set g. prec (cnode_e m) (cnode_e n) \<and> prec (desc_h m) (cnode_h n)"
  shows "merge_group_single prec g n = map (\<lambda>m. m\<lparr>desc_e := cnode_e n, desc_h := cnode_h n\<rparr>) g @ [n]"
  using assms by (induction g) auto

lemma merge_group_single_inv:
  assumes S: "strands_ok prec S" and g: "group_inv prec S g" and n: "cpt n \<in> S" "dpt n = cpt n"
    and after: "\<forall>m\<in>set g. sprec prec (cpt m) (cpt n)"
  shows "group_inv prec S (merge_group_single prec g n) \<and>
    cpt ` set (merge_group_single prec g n) = insert (cpt n) (cpt ` set g)"
proof -
  let ?u = "\<lambda>m. m\<lparr>desc_e := cnode_e n, desc_h := cnode_h n\<rparr>"
  have "prec (desc_h m) (cnode_h n)" if "m \<in> set g" for m
  proof -
    obtain k where "k \<in> set g" "dpt m = cpt k" using group_invD(3) [OF g \<open>m \<in> set g\<close>] by auto
    then have "sprec prec (dpt m) (cpt n)" using after by simp
    then show ?thesis by (simp add: sprec_def dpt_def cpt_def)
  qed
  then have eq: "merge_group_single prec g n = map ?u g @ [n]"
    using after by (intro merge_group_single_after) (auto simp: sprec_def cpt_def)
  have c: "cpt (?u m) = cpt m" "dpt (?u m) = cpt n" for m by (simp_all add: cpt_def dpt_def)
  have set_eq: "cpt ` set (map ?u g @ [n]) = insert (cpt n) (cpt ` set g)" using c(1) by (force simp: image_iff)
  have "sorted_wrt (\<lambda>m n. prec (cnode_e m) (cnode_e n)) (map ?u g @ [n])"
    using group_invD(2) [OF g] after by (auto simp: sorted_wrt_append sorted_wrt_map sprec_def cpt_def)
  moreover have "sprec prec q (dpt k)"
    if k: "k \<in> set (map ?u g @ [n])" and b: "b \<in> cpt ` set (map ?u g @ [n])" and q: "q \<in> S"
      and lt: "prec (cnode_e k) (fst b)" "sprec prec q b" for k b q
  proof -
    have bn: "b = cpt n \<or> sprec prec b (cpt n)" using b after unfolding set_eq by auto
    have bS: "b \<in> S" using b n(1) group_invD(1) [OF g] unfolding set_eq by auto
    have "k \<noteq> n"
    proof
      assume kn: "k = n"
      have E: "fst (cpt n) \<in> fst ` S" "fst b \<in> fst ` S" using n(1) bS by auto
      have "prec (fst (cpt n)) (fst b)" using lt(1) kn by (simp add: cpt_def)
      then show False using bn linear_onD(1) [OF strands_lin(1) [OF S] E(1)] linear_onD(2) [OF strands_lin(1) [OF S] E(1,2,1)]
        by (auto simp: sprec_def)
    qed
    then have "dpt k = cpt n" using k c(2) by auto
    then show ?thesis using bn lt(2) sprec_trans [OF S q bS n(1) lt(2)] by auto
  qed
  moreover have "dpt k \<in> cpt ` set (map ?u g @ [n]) \<and> (dpt k = cpt k \<or> sprec prec (cpt k) (dpt k))"
    if "k \<in> set (map ?u g @ [n])" for k
    unfolding set_eq using that after n(2) c by auto
  ultimately have "group_inv prec S (map ?u g @ [n])"
    using n(1) group_invD(1) [OF g] unfolding group_inv_def set_eq by blast
  then show ?thesis using eq set_eq by simp
qed

section \<open>Merging two groups\<close>

lemma group_merge_keys: "cnode_e ` set (group_merge prec xs ys) = cnode_e ` set xs \<union> cnode_e ` set ys"
  by (induction prec xs ys rule: group_merge.induct) auto

lemma group_merge_subset: "set (group_merge prec xs ys) \<subseteq> set xs \<union> set ys"
  by (induction prec xs ys rule: group_merge.induct) auto

lemma group_merge_sorted:
  "linear_on prec A \<Longrightarrow> cnode_e ` (set xs \<union> set ys) \<subseteq> A \<Longrightarrow> sorted_wrt (\<lambda>m n. prec (cnode_e m) (cnode_e n)) xs \<Longrightarrow>
    sorted_wrt (\<lambda>m n. prec (cnode_e m) (cnode_e n)) ys \<Longrightarrow>
    sorted_wrt (\<lambda>m n. prec (cnode_e m) (cnode_e n)) (group_merge prec xs ys)"
proof (induction prec xs ys rule: group_merge.induct)
  case (3 prec x xs y ys)
  note lin = linear_onD(2,3) [OF 3(4)]
  have x: "\<forall>k\<in>set xs. prec (cnode_e x) (cnode_e k)" and y: "\<forall>k\<in>set ys. prec (cnode_e y) (cnode_e k)"
    and s: "sorted_wrt (\<lambda>m n. prec (cnode_e m) (cnode_e n)) xs" "sorted_wrt (\<lambda>m n. prec (cnode_e m) (cnode_e n)) ys"
    using 3(6,7) by simp_all
  have mem: "cnode_e x \<in> A" "cnode_e y \<in> A" "\<forall>k\<in>set xs. cnode_e k \<in> A" "\<forall>k\<in>set ys. cnode_e k \<in> A" using 3(5) by auto
  consider "prec (cnode_e x) (cnode_e y)" | "\<not> prec (cnode_e x) (cnode_e y)" "cnode_e x = cnode_e y"
    | "\<not> prec (cnode_e x) (cnode_e y)" "cnode_e x \<noteq> cnode_e y" by blast
  then show ?case
  proof cases
    case 1
    have "\<forall>k\<in>set ys. prec (cnode_e x) (cnode_e k)" using lin(1) [OF mem(1,2) _ 1] mem(4) y by blast
    then have "\<forall>k\<in>set (group_merge prec xs (y # ys)). prec (cnode_e x) (cnode_e k)"
      using group_merge_subset [of prec xs "y # ys"] x 1 by auto
    then show ?thesis using 1 3(1) [OF 1 3(4)] 3(5,7) s by simp
  next
    case 2
    have "\<forall>k\<in>set (group_merge prec xs ys). prec (cnode_e x) (cnode_e k)"
      using group_merge_subset [of prec xs ys] x y 2(2) by auto
    then show ?thesis using 2 3(2) [OF 2 3(4)] 3(5) s by auto
  next
    case c: 3
    then have yx: "prec (cnode_e y) (cnode_e x)" using lin(2) mem(1,2) by blast
    have "\<forall>k\<in>set xs. prec (cnode_e y) (cnode_e k)" using lin(1) [OF mem(2,1) _ yx] mem(3) x by blast
    then have "\<forall>k\<in>set (group_merge prec (x # xs) ys). prec (cnode_e y) (cnode_e k)"
      using group_merge_subset [of prec "x # xs" ys] y yx by auto
    then show ?thesis using c 3(3) [OF c 3(4)] 3(5,6) s by simp
  qed
qed simp_all

text \<open>The choice between two entries of the same strand.\<close>

lemma group_merge_from:
  "linear_on prec A \<Longrightarrow> cnode_e ` (set xs \<union> set ys) \<subseteq> A \<Longrightarrow> sorted_wrt (\<lambda>m n. prec (cnode_e m) (cnode_e n)) xs \<Longrightarrow>
    sorted_wrt (\<lambda>m n. prec (cnode_e m) (cnode_e n)) ys \<Longrightarrow> n \<in> set (group_merge prec xs ys) \<Longrightarrow>
    (n \<in> set xs \<and> (\<forall>m\<in>set ys. cnode_e m = cnode_e n \<longrightarrow> \<not> sprec prec (dpt n) (dpt m))) \<or>
    (n \<in> set ys \<and> (\<forall>m\<in>set xs. cnode_e m = cnode_e n \<longrightarrow> sprec prec (dpt m) (dpt n)))"
proof (induction prec xs ys rule: group_merge.induct)
  case (3 prec x xs y ys)
  note irr = linear_onD(1) [OF 3(4)] and lin = linear_onD(2,3) [OF 3(4)]
  have x: "\<forall>k\<in>set xs. prec (cnode_e x) (cnode_e k)" and y: "\<forall>k\<in>set ys. prec (cnode_e y) (cnode_e k)"
    and s: "sorted_wrt (\<lambda>m n. prec (cnode_e m) (cnode_e n)) xs" "sorted_wrt (\<lambda>m n. prec (cnode_e m) (cnode_e n)) ys"
    using 3(6,7) by simp_all
  have mem: "cnode_e x \<in> A" "cnode_e y \<in> A" "\<forall>k\<in>set xs. cnode_e k \<in> A" "\<forall>k\<in>set ys. cnode_e k \<in> A" using 3(5) by auto
  have nx: "cnode_e k \<noteq> cnode_e x" if "k \<in> set xs" for k using x irr [OF mem(1)] that by metis
  have ny: "cnode_e k \<noteq> cnode_e y" if "k \<in> set ys" for k using y irr [OF mem(2)] that by metis
  consider "prec (cnode_e x) (cnode_e y)" | "\<not> prec (cnode_e x) (cnode_e y)" "cnode_e x = cnode_e y"
    | "\<not> prec (cnode_e x) (cnode_e y)" "cnode_e x \<noteq> cnode_e y" by blast
  then show ?case
  proof cases
    case 1
    have "\<forall>k\<in>set ys. prec (cnode_e x) (cnode_e k)" using lin(1) [OF mem(1,2) _ 1] mem(4) y by blast
    then have no: "\<forall>k\<in>set (y # ys). cnode_e k \<noteq> cnode_e x" using irr [OF mem(1)] 1 by auto
    then show ?thesis using 1 3(1) [OF 1 3(4)] 3(5,7,8) s by auto
  next
    case 2
    show ?thesis
    proof (cases "n \<in> set (group_merge prec xs ys)")
      case True
      then have "cnode_e n \<noteq> cnode_e x" using group_merge_subset [of prec xs ys] nx ny 2(2) by auto
      then show ?thesis using 2 3(2) [OF 2 3(4)] 3(5) s True by auto
    next
      case False
      then have "n = (if \<not> sprec prec (dpt x) (dpt y) then x else y)"
        using 3(8) 2 by (simp add: sprec_def dpt_def split: if_splits)
      then show ?thesis using nx ny 2(2) by (auto split: if_splits)
    qed
  next
    case c: 3
    then have yx: "prec (cnode_e y) (cnode_e x)" using lin(2) mem(1,2) by blast
    have "\<forall>k\<in>set xs. prec (cnode_e y) (cnode_e k)" using lin(1) [OF mem(2,1) _ yx] mem(3) x by blast
    then have no: "\<forall>k\<in>set (x # xs). cnode_e k \<noteq> cnode_e y" using irr [OF mem(2)] yx by auto
    then show ?thesis using c 3(3) [OF c 3(4)] 3(5,6,8) s by auto
  qed
qed auto

text \<open>
  Merging the groups of one future of two lists keeps the invariant when each list, with a strand of the future, has the earlier
  strands of it that the other list has.
\<close>

definition closed_under :: "('n \<Rightarrow> 'n \<Rightarrow> bool) \<Rightarrow> ('n \<times> 'n) set \<Rightarrow> ('n \<times> 'n) set \<Rightarrow> bool" where
  "closed_under prec A B \<longleftrightarrow> (\<forall>a\<in>A. \<forall>b\<in>B. sprec prec a b \<longrightarrow> a \<in> B)"

lemma descendant_covers:
  assumes S: "strands_ok prec S" and nf: "n_free prec S" and g: "group_inv prec S g" and m: "m \<in> set g"
    and b: "b \<in> cpt ` set g" and q: "q \<in> S" and lt: "prec (cnode_e m) (fst b)" "sprec prec q b" "prec (fst q) (cnode_e m)"
      "\<not> prec (snd q) (cnode_h m)"
    and d: "d \<in> S" "d = cpt m \<or> sprec prec (cpt m) d" "\<not> sprec prec d (dpt m)"
  shows "sprec prec q d"
proof -
  let ?a = "cpt m" and ?d = "dpt m"
  have mem: "?a \<in> S" "?d \<in> S" using group_invD(1,4) [OF g m] .
  have qd: "sprec prec q ?d" by (rule group_invD(6) [OF g m b q lt])
  have ad: "?d = ?a \<or> sprec prec ?a ?d" by (rule group_invD(5) [OF g m])
  have E: "fst q \<in> fst ` S" "fst ?a \<in> fst ` S" using q mem by auto
  have "\<not> prec (fst ?a) (fst q)"
    using linear_onD(1,2) [OF strands_lin(1) [OF S]] E lt(3) by (metis cpt_def fst_conv)
  then have par: "?a \<noteq> q" "\<not> sprec prec ?a q" "\<not> sprec prec q ?a"
    using lt(3,4) linear_onD(1) [OF strands_lin(1) [OF S] E(1)] by (auto simp: sprec_def cpt_def)
  consider "d = ?d" | "sprec prec ?d d" | "d \<noteq> ?d" "\<not> sprec prec ?d d" by blast
  then show ?thesis
  proof cases
    case 2
    then show ?thesis by (rule sprec_trans [OF S q mem(2) d(1) qd])
  next
    case 3
    then have "sprec prec ?a d" "sprec prec ?a ?d" using d(2,3) ad by auto
    then show ?thesis using nf mem d(1,3) q qd par 3 unfolding n_free_def by blast
  qed (simp add: qd)
qed

lemma group_merge_cpts:
  assumes S: "strands_ok prec S" and g: "cpt ` set g1 \<subseteq> S" "cpt ` set g2 \<subseteq> S"
  shows "cpt ` set (group_merge prec g1 g2) = cpt ` set g1 \<union> cpt ` set g2"
proof -
  have sub: "cpt ` set (group_merge prec g1 g2) \<subseteq> cpt ` set g1 \<union> cpt ` set g2" using group_merge_subset [of prec g1 g2] by auto
  have "cpt k \<in> cpt ` set (group_merge prec g1 g2)" if k: "k \<in> set g1 \<union> set g2" for k
  proof -
    have "cnode_e k \<in> cnode_e ` set (group_merge prec g1 g2)" using k unfolding group_merge_keys by blast
    then obtain n where n: "n \<in> set (group_merge prec g1 g2)" "cnode_e n = cnode_e k" by auto
    have "cpt n \<in> cpt ` set (group_merge prec g1 g2)" using n(1) by blast
    then have "cpt n \<in> S" "cpt k \<in> S" using sub g k by blast+
    then have "cpt n = cpt k" using n(2) by (intro strands_eq [OF S]) (simp_all add: cpt_def)
    then show ?thesis using n(1) by (metis imageI)
  qed
  then show ?thesis using sub by auto
qed

lemma group_merge_inv:
  assumes S: "strands_ok prec S" and nf: "n_free prec S" and g1: "group_inv prec S g1" and g2: "group_inv prec S g2"
    and c: "closed_under prec (cpt ` set g1) (cpt ` set g2)" "closed_under prec (cpt ` set g2) (cpt ` set g1)"
  shows "group_inv prec S (group_merge prec g1 g2)"
proof -
  let ?g = "group_merge prec g1 g2"
  have sub: "cpt ` set g1 \<subseteq> S" "cpt ` set g2 \<subseteq> S" using group_invD(1) [OF g1] group_invD(1) [OF g2] by auto
  note cpts = group_merge_cpts [OF S sub]
  have keys: "cnode_e ` (set g1 \<union> set g2) \<subseteq> fst ` S"
    using sub by (force simp: cpt_def)
  note lin = strands_lin(1) [OF S] and sorted = group_invD(2) [OF g1] group_invD(2) [OF g2]
  have origin: "(n \<in> set g1 \<and> (\<forall>m\<in>set g2. cnode_e m = cnode_e n \<longrightarrow> \<not> sprec prec (dpt n) (dpt m))) \<or>
    (n \<in> set g2 \<and> (\<forall>m\<in>set g1. cnode_e m = cnode_e n \<longrightarrow> sprec prec (dpt m) (dpt n)))" if "n \<in> set ?g" for n
    by (rule group_merge_from [OF lin keys sorted that])
  have cover: "sprec prec q (dpt n)"
    if n: "n \<in> set ?g" and b: "b \<in> cpt ` set g1 \<union> cpt ` set g2" and q: "q \<in> S" and lt: "prec (cnode_e n) (fst b)" "sprec prec q b"
      "prec (fst q) (cnode_e n)" "\<not> prec (snd q) (cnode_h n)" for n b q
  proof -
    have "cpt n \<in> cpt ` set ?g" using n by blast
    then have nS: "cpt n \<in> S" "b \<in> S" using b cpts sub by blast+
    have H: "snd q \<in> snd ` S" "snd (cpt n) \<in> snd ` S" "snd b \<in> snd ` S" using q nS by auto
    have "prec (snd (cpt n)) (snd b)"
    proof (cases "snd (cpt n) = snd q")
      case True
      then show ?thesis using lt(2) by (simp add: sprec_def)
    next
      case False
      then have "prec (snd (cpt n)) (snd q)" using linear_onD(3) [OF strands_lin(2) [OF S] H(2,1)] lt(4) by (simp add: cpt_def)
      then show ?thesis using linear_onD(2) [OF strands_lin(2) [OF S] H(2,1,3)] lt(2) by (simp add: sprec_def)
    qed
    then have nb: "sprec prec (cpt n) b" using lt(1) by (simp add: sprec_def cpt_def)
    show ?thesis
    proof (rule disjE [OF origin [OF n]])
      assume a: "n \<in> set g1 \<and> (\<forall>m\<in>set g2. cnode_e m = cnode_e n \<longrightarrow> \<not> sprec prec (dpt n) (dpt m))"
      show ?thesis
      proof (cases "b \<in> cpt ` set g1")
        case True
        then show ?thesis using group_invD(6) [OF g1 _ True q lt] a by blast
      next
        case False
        then have b2: "b \<in> cpt ` set g2" using b by blast
        then have "cpt n \<in> cpt ` set g2" using c(1) nb a unfolding closed_under_def by blast
        then obtain m where m: "m \<in> set g2" "cpt m = cpt n" by auto
        then have eq: "cnode_e m = cnode_e n" "cnode_h m = cnode_h n" by (simp_all add: cpt_def)
        have "dpt n = cpt m \<or> sprec prec (cpt m) (dpt n)" "dpt n \<in> S"
          using group_invD(4,5) [OF g1] a m(2) by auto
        then show ?thesis using descendant_covers [OF S nf g2 m(1) b2 q] lt a m(1) eq by auto
      qed
    next
      assume a: "n \<in> set g2 \<and> (\<forall>m\<in>set g1. cnode_e m = cnode_e n \<longrightarrow> sprec prec (dpt m) (dpt n))"
      show ?thesis
      proof (cases "b \<in> cpt ` set g2")
        case True
        then show ?thesis using group_invD(6) [OF g2 _ True q lt] a by blast
      next
        case False
        then have b1: "b \<in> cpt ` set g1" using b by blast
        then have "cpt n \<in> cpt ` set g1" using c(2) nb a unfolding closed_under_def by blast
        then obtain m where m: "m \<in> set g1" "cpt m = cpt n" by auto
        then have eq: "cnode_e m = cnode_e n" "cnode_h m = cnode_h n" by (simp_all add: cpt_def)
        have "sprec prec q (dpt m)" using group_invD(6) [OF g1 m(1) b1 q] lt eq by simp
        moreover have "sprec prec (dpt m) (dpt n)" using a m(1) eq(1) by blast
        ultimately show ?thesis
          using sprec_trans [OF S q] group_invD(4) [OF g1 m(1)] group_invD(4) [OF g2] a by blast
      qed
    qed
  qed
  have "sorted_wrt (\<lambda>m n. prec (cnode_e m) (cnode_e n)) ?g" by (rule group_merge_sorted [OF lin keys sorted])
  moreover have "dpt n \<in> cpt ` set ?g \<and> (dpt n = cpt n \<or> sprec prec (cpt n) (dpt n))" if "n \<in> set ?g" for n
    unfolding cpts using origin [OF that] group_invD(3,5) [OF g1] group_invD(3,5) [OF g2] by blast
  ultimately show ?thesis using cover sub unfolding group_inv_def cpts by blast
qed

section \<open>The hash tables\<close>

text \<open>
  An element whose \<^verbatim>\<open>group\<close> is \<^verbatim>\<open>NULL\<close> is a free slot. A pointer to an element is its index in the
  table of its list, which has the slots first and the elements that collided, the buffer, behind them.
\<close>

record 'n helem =
  he_group :: "'n onode list option"
  he_id :: "32 word"
  he_next :: "nat option"

record 'n hash =
  table_length :: nat
  buffer_length :: nat
  hash_total :: nat
  tbl :: "'n helem list"
  hash_head :: "nat option"

text \<open>The memory of a worker: \<^verbatim>\<open>PrivateMemory\<close>.\<close>

record pmem =
  pm_current :: nat
  pm_size :: nat
  pm_current_h :: nat
  pm_size_h :: nat

definition free_elem :: "'n helem" where
  "free_elem = \<lparr>he_group = None, he_id = 0, he_next = None\<rparr>"

definition List_empty :: "'n hash" where
  "List_empty = \<lparr>table_length = 0, buffer_length = 0, hash_total = 0, tbl = [], hash_head = None\<rparr>"

definition Empty :: "'n hash \<Rightarrow> bool" where
  "Empty h \<longleftrightarrow> hash_total h = 0"

text \<open>
  The list of one strand. This constructor does not set \<^verbatim>\<open>head\<close>: \<open>junk\<close> is what the memory of the new object holds
  there.
\<close>

definition List_single :: "nat option \<Rightarrow> 'n onode \<Rightarrow> 32 word \<Rightarrow> pmem \<Rightarrow> ('n hash \<times> pmem) proc" where
  "List_single junk node fid pm = do {
     assert_c (pm_current pm < pm_size pm);
     assert_c (pm_current_h pm < pm_size_h pm);
     Some (\<lparr>table_length = 1, buffer_length = 0, hash_total = 1,
        tbl = [\<lparr>he_group = Some [node], he_id = fid, he_next = None\<rparr>], hash_head = junk\<rparr>,
       pm\<lparr>pm_current := pm_current pm + 1, pm_current_h := pm_current_h pm + 1\<rparr>) }"

text \<open>The search for the group of a future: lines 91 to 119.\<close>

function buffer_search :: "'n helem list \<Rightarrow> nat \<Rightarrow> 32 word \<Rightarrow> int \<Rightarrow> int \<Rightarrow> 'n onode list option" where
  "buffer_search t off fid low high =
     (if low \<le> high then
        let mid = low + (high - low) div 2; e = t ! (off + nat mid)
        in if he_id e < fid then buffer_search t off fid (mid + 1) high
           else if he_id e = fid then he_group e
           else buffer_search t off fid low (mid - 1)
      else None)"
  by pat_completeness auto
termination
  by (relation "measure (\<lambda>(t, off, fid, low, high). nat (high - low + 1))") (auto simp: Let_def)

declare buffer_search.simps [simp del]

definition hash_find :: "'n hash \<Rightarrow> 32 word \<Rightarrow> 'n onode list option" where
  "hash_find h fid =
     (let addr = unat fid mod table_length h; e = tbl h ! addr in
      if he_group e \<noteq> None \<and> he_id e = fid then he_group e
      else if he_group e \<noteq> None then buffer_search (tbl h) (table_length h) fid 0 (int (buffer_length h) - 1)
      else None)"

definition Search :: "('n \<Rightarrow> 'n \<Rightarrow> bool) \<Rightarrow> 'n hash \<Rightarrow> 'n \<Rightarrow> 'n \<Rightarrow> 32 word \<Rightarrow> bool" where
  "Search prec h node_e node_h fid =
     (if Empty h then False
      else case hash_find h fid of None \<Rightarrow> False
        | Some grp \<Rightarrow> search_group prec node_e node_h grp 0 (int (length grp) - 1))"

text \<open>
  Appending an element to a table that is being built: the slot of its id, or the end of the buffer. \<open>pre\<close> is the element
  appended before it.
\<close>

definition put_at :: "32 word \<times> 'n onode list \<Rightarrow> 'n hash \<times> nat option \<Rightarrow> 'n hash \<times> nat option" where
  "put_at = (\<lambda>(fid, grp) (h, pre).
     let addr = unat fid mod table_length h;
         e = \<lparr>he_group = Some grp, he_id = fid, he_next = None\<rparr>;
         (addr, h) = (if he_group (tbl h ! addr) \<noteq> None
            then (table_length h + buffer_length h, h\<lparr>buffer_length := buffer_length h + 1, tbl := tbl h @ [e]\<rparr>)
            else (addr, h\<lparr>tbl := (tbl h)[addr := e]\<rparr>));
         h = (case pre of
            Some p \<Rightarrow> h\<lparr>tbl := (tbl h)[p := (tbl h ! p)\<lparr>he_next := Some addr\<rparr>]\<rparr>
          | None \<Rightarrow> h\<lparr>hash_head := Some addr\<rparr>)
     in (h\<lparr>hash_total := hash_total h + 1\<rparr>, Some addr))"

definition new_table :: "nat \<Rightarrow> 'n hash" where
  "new_table n = \<lparr>table_length = n, buffer_length = 0, hash_total = 0, tbl = replicate n free_elem, hash_head = None\<rparr>"

text \<open>Walking the elements of a list along \<^verbatim>\<open>next\<close>; a walk has at most as many steps as the table has elements.\<close>

fun walk :: "'n helem list \<Rightarrow> nat option \<Rightarrow> nat \<Rightarrow> (32 word \<times> 'n onode list) list" where
  "walk t None k = []"
| "walk t (Some a) 0 = []"
| "walk t (Some a) (Suc k) = (he_id (t ! a), the (he_group (t ! a))) # walk t (he_next (t ! a)) k"

definition chain_of :: "'n hash \<Rightarrow> (32 word \<times> 'n onode list) list" where
  "chain_of h = walk (tbl h) (hash_head h) (length (tbl h))"

text \<open>The loops of \<^verbatim>\<open>List::Merge\<close> and of the constructor from two lists; the count is the group memory used.\<close>

fun merge_loop :: "('n \<Rightarrow> 'n \<Rightarrow> bool) \<Rightarrow> (32 word \<times> 'n onode list) list \<Rightarrow> (32 word \<times> 'n onode list) list \<Rightarrow>
    'n hash \<times> nat option \<Rightarrow> nat \<Rightarrow> ('n hash \<times> nat option) \<times> nat" where
  "merge_loop prec [] ys st cur = (fold put_at ys st, cur)"
| "merge_loop prec (x # xs) [] st cur = (fold put_at (x # xs) st, cur)"
| "merge_loop prec (x # xs) (y # ys) st cur =
     (if fst x < fst y then merge_loop prec xs (y # ys) (put_at x st) cur
      else if fst x = fst y then
        (let grp = group_merge prec (snd x) (snd y)
         in merge_loop prec xs ys (put_at (fst x, grp) st) (cur + length grp))
      else merge_loop prec (x # xs) ys (put_at y st) cur)"

text \<open>
  The memory of a new list: its table and its buffer follow each other in the pool of the worker, and its new groups end at
  \<open>cur\<close>. All of it has been written, so all of it has to be in the pool.
\<close>

definition take_memory :: "'n hash \<Rightarrow> nat \<Rightarrow> pmem \<Rightarrow> ('n hash \<times> pmem) proc" where
  "take_memory h cur pm = do {
     let cur_h = pm_current_h pm + table_length h + buffer_length h;
     assert_c (cur \<le> pm_size pm);
     assert_c (cur_h \<le> pm_size_h pm);
     Some (h, pm\<lparr>pm_current := cur, pm_current_h := cur_h\<rparr>) }"

definition List_merge :: "('n \<Rightarrow> 'n \<Rightarrow> bool) \<Rightarrow> 'n hash \<Rightarrow> 'n hash \<Rightarrow> pmem \<Rightarrow> ('n hash \<times> pmem) proc" where
  "List_merge prec l1 l2 pm = do {
     assert_c (pm_current_h pm < pm_size_h pm);
     assert_c (pm_current pm < pm_size pm);
     let h = new_table ((hash_total l1 + hash_total l2) * 2);
     let ((h, pre), cur) = merge_loop prec (chain_of l1) (chain_of l2) (h, None) (pm_current pm);
     take_memory h cur pm }"

text \<open>
  \<^verbatim>\<open>Merge\<close> replaces the list itself; when neither list has an element it leaves its own \<^verbatim>\<open>head\<close> as it was.
\<close>

definition Merge :: "('n \<Rightarrow> 'n \<Rightarrow> bool) \<Rightarrow> 'n hash \<Rightarrow> 'n hash \<Rightarrow> pmem \<Rightarrow> ('n hash \<times> pmem) proc" where
  "Merge prec self ori pm = do {
     (h, pm) \<leftarrow> List_merge prec self ori pm;
     Some (if hash_total h = 0 then h\<lparr>hash_head := hash_head self\<rparr> else h, pm) }"

text \<open>The loop of the constructor from a list and a strand.\<close>

function add_loop :: "('n \<Rightarrow> 'n \<Rightarrow> bool) \<Rightarrow> 'n onode \<Rightarrow> 32 word \<Rightarrow> (32 word \<times> 'n onode list) list \<Rightarrow> bool \<Rightarrow>
    'n hash \<times> nat option \<Rightarrow> nat \<Rightarrow> ('n hash \<times> nat option) \<times> nat" where
  "add_loop prec n fid [] inserted st cur =
     (if inserted then (st, cur) else (put_at (fid, [n]) st, cur + 1))"
| "add_loop prec n fid (x # xs) inserted st cur =
     (if fst x < fid then add_loop prec n fid xs inserted (put_at x st) cur
      else if fst x = fid then
        (let grp = merge_group_single prec (snd x) n
         in add_loop prec n fid xs True (put_at (fst x, grp) st) (cur + length grp))
      else if inserted then add_loop prec n fid xs inserted (put_at x st) cur
      else add_loop prec n fid (x # xs) True (put_at (fid, [n]) st) (cur + 1))"
  by pat_completeness auto
termination
  by (relation "measure (\<lambda>(prec, n, fid, xs, ins, st, cur). 2 * length xs + of_bool (\<not> ins))") (auto simp: Let_def)

definition List_add :: "('n \<Rightarrow> 'n \<Rightarrow> bool) \<Rightarrow> 'n hash \<Rightarrow> 'n onode \<Rightarrow> 32 word \<Rightarrow> pmem \<Rightarrow> ('n hash \<times> pmem) proc" where
  "List_add prec l n fid pm = do {
     assert_c (pm_current_h pm < pm_size_h pm);
     let h = new_table ((hash_total l + 1) * 2);
     let ((h, pre), cur) = add_loop prec n fid (chain_of l) False (h, None) (pm_current pm);
     take_memory h cur pm }"

section \<open>The tables are maps\<close>

fun links :: "'n helem list \<Rightarrow> nat option \<Rightarrow> nat list \<Rightarrow> bool" where
  "links t s [] = (s = None)"
| "links t s (a # as) = (s = Some a \<and> a < length t \<and> links t (he_next (t ! a)) as)"

definition content :: "'n helem list \<Rightarrow> nat \<Rightarrow> 32 word \<times> 'n onode list" where
  "content t a = (he_id (t ! a), the (he_group (t ! a)))"

lemma links_walk: "links t s as \<Longrightarrow> length as \<le> k \<Longrightarrow> walk t s k = map (content t) as"
proof (induction as arbitrary: s k)
  case (Cons a as)
  then show ?case by (cases k) (auto simp: content_def)
qed auto

definition built :: "'n hash \<Rightarrow> nat option \<Rightarrow> nat list \<Rightarrow> (32 word \<times> 'n onode list) list \<Rightarrow> bool" where
  "built h pre as xs \<longleftrightarrow> length (tbl h) = table_length h + buffer_length h \<and> hash_total h = length xs \<and>
     links (tbl h) (hash_head h) as \<and> distinct as \<and> pre = (if as = [] then None else Some (last as)) \<and>
     map (content (tbl h)) as = xs \<and>
     (\<forall>a<length (tbl h). he_group (tbl h ! a) \<noteq> None \<longleftrightarrow> a \<in> set as) \<and>
     (\<forall>a\<in>set as. if a < table_length h then a = unat (he_id (tbl h ! a)) mod table_length h
        else unat (he_id (tbl h ! a)) mod table_length h \<in> set as) \<and>
     filter (\<lambda>a. table_length h \<le> a) as = [table_length h..<table_length h + buffer_length h] \<and>
     (as \<noteq> [] \<longrightarrow> 0 < table_length h)"

definition hash_rep :: "'n hash \<Rightarrow> (32 word \<times> 'n onode list) list \<Rightarrow> bool" where
  "hash_rep h xs \<longleftrightarrow> sorted_wrt (<) (map fst xs) \<and> (\<exists>pre as. built h pre as xs)"

lemma links_frame: "links t s as \<Longrightarrow> \<forall>a\<in>set as. a < length t' \<and> he_next (t' ! a) = he_next (t ! a) \<Longrightarrow> links t' s as"
  by (induction as arbitrary: s) auto

lemma links_snoc:
  "links t s as \<Longrightarrow> distinct as \<Longrightarrow> a \<notin> set as \<Longrightarrow> a < length t \<Longrightarrow> he_next (t ! a) = None \<Longrightarrow>
    links (if as = [] then t else t[last as := (t ! last as)\<lparr>he_next := Some a\<rparr>]) (if as = [] then Some a else s) (as @ [a])"
proof (induction as arbitrary: s)
  case (Cons b as)
  show ?case
  proof (cases "as = []")
    case True
    then show ?thesis using Cons.prems by (auto simp: nth_list_update)
  next
    case False
    then have "last as \<in> set as" by simp
    then have "last as \<noteq> b" using Cons.prems(2) by auto
    then show ?thesis using Cons False by (auto simp: nth_list_update)
  qed
qed auto

definition elem_at :: "nat \<Rightarrow> 'n helem \<Rightarrow> 'n helem list \<Rightarrow> 'n helem list" where
  "elem_at a e t = (if a < length t then t[a := e] else t @ [e])"

definition link_last :: "nat list \<Rightarrow> nat \<Rightarrow> 'n helem list \<Rightarrow> 'n helem list" where
  "link_last as a t = (if as = [] then t else t[last as := (t ! last as)\<lparr>he_next := Some a\<rparr>])"

lemma nth_update_any: "xs[k := v] ! b = (if b = k \<and> k < length xs then v else xs ! b)"
  by (cases "k < length xs") (auto simp: nth_list_update not_less list_update_beyond)

lemma link_last_simps [simp]:
  "length (link_last as a t) = length t" "he_id (link_last as a t ! b) = he_id (t ! b)"
  "he_group (link_last as a t ! b) = he_group (t ! b)"
  by (simp_all add: link_last_def nth_update_any)

lemma content_link_last [simp]: "content (link_last as a t) = content t"
  by (simp add: content_def fun_eq_iff)

lemma built_put:
  assumes b: "built h pre as xs" and tl: "0 < table_length h"
  shows "\<exists>h' a. put_at (fid, grp) (h, pre) = (h', Some a) \<and> built h' (Some a) (as @ [a]) (xs @ [(fid, grp)]) \<and>
    table_length h' = table_length h"
proof -
  let ?t = "tbl h" and ?i = "unat fid mod table_length h"
  let ?c = "he_group (?t ! ?i) \<noteq> None"
  define a where "a = (if ?c then table_length h + buffer_length h else ?i)"
  define e :: "'a helem" where "e = \<lparr>he_group = Some grp, he_id = fid, he_next = None\<rparr>"
  define t' where "t' = link_last as a (elem_at a e ?t)"
  define h' where "h' = h\<lparr>buffer_length := (if ?c then buffer_length h + 1 else buffer_length h), tbl := t',
     hash_head := (if as = [] then Some a else hash_head h), hash_total := hash_total h + 1\<rparr>"
  have len: "length ?t = table_length h + buffer_length h" and L: "links ?t (hash_head h) as" and d: "distinct as"
    and pre: "pre = (if as = [] then None else Some (last as))" and xs: "map (content ?t) as = xs" "hash_total h = length xs"
    and full: "\<forall>b<length ?t. he_group (?t ! b) \<noteq> None \<longleftrightarrow> b \<in> set as"
    and place: "\<forall>b\<in>set as. if b < table_length h then b = unat (he_id (?t ! b)) mod table_length h
        else unat (he_id (?t ! b)) mod table_length h \<in> set as"
    and buf: "filter (\<lambda>b. table_length h \<le> b) as = [table_length h..<table_length h + buffer_length h]"
    using b unfolding built_def by auto
  have i: "?i < table_length h" using tl by simp
  have lt: "\<forall>b\<in>set as. b < length ?t"
    using L by (induction as arbitrary: pre xs rule: links.induct) auto
  have a_new: "a \<notin> set as" using lt len i full unfolding a_def by (auto split: if_splits)
  have put: "put_at (fid, grp) (h, pre) = (h', Some a)"
    using len i pre unfolding put_at_def h'_def t'_def link_last_def elem_at_def a_def e_def
    by (cases "as = []") (auto simp: Let_def)
  let ?t1 = "elem_at a e ?t"
  have t1: "a < length ?t1" "?t1 ! a = e" "\<forall>b\<in>set as. b < length ?t1 \<and> ?t1 ! b = ?t ! b"
    "length ?t1 = table_length h + (if ?c then buffer_length h + 1 else buffer_length h)"
    using len i lt a_new by (auto simp: elem_at_def a_def nth_append nth_update_any)
  have "links ?t1 (hash_head h) as" using L t1(3) by (intro links_frame [OF L]) auto
  from links_snoc [OF this d a_new t1(1)] have L': "links t' (hash_head h') (as @ [a])"
    using t1(2) by (simp add: t'_def h'_def link_last_def e_def split: if_splits)
  have "content ?t1 a = (fid, grp)" "\<forall>b\<in>set as. content ?t1 b = content ?t b" using t1 by (auto simp: content_def e_def)
  moreover from this have "map (content ?t1) as = map (content ?t) as" by (intro map_cong) auto
  ultimately have xs': "map (content t') (as @ [a]) = xs @ [(fid, grp)]" using xs by (simp add: t'_def)
  have full': "\<forall>b<length t'. he_group (t' ! b) \<noteq> None \<longleftrightarrow> b \<in> set (as @ [a])"
  proof (intro allI impI)
    fix c assume c: "c < length t'"
    show "he_group (t' ! c) \<noteq> None \<longleftrightarrow> c \<in> set (as @ [a])"
    proof (cases "c = a")
      case True
      then show ?thesis using t1(2) by (simp add: t'_def e_def)
    next
      case False
      then have "c < length ?t" "?t1 ! c = ?t ! c" using c len i
        by (auto simp: t'_def elem_at_def a_def nth_append split: if_splits)
      then show ?thesis using False full by (simp add: t'_def)
    qed
  qed
  have place': "\<forall>b\<in>set (as @ [a]). if b < table_length h then b = unat (he_id (t' ! b)) mod table_length h
        else unat (he_id (t' ! b)) mod table_length h \<in> set (as @ [a])"
  proof
    fix c assume "c \<in> set (as @ [a])"
    then consider "c \<in> set as" | "c = a" by auto
    then show "if c < table_length h then c = unat (he_id (t' ! c)) mod table_length h
        else unat (he_id (t' ! c)) mod table_length h \<in> set (as @ [a])"
    proof cases
      case 1
      then show ?thesis using place t1(3) by (auto simp: t'_def split: if_splits)
    next
      case 2
      have "?i \<in> set as" if ?c using full that i len by auto
      then show ?thesis using 2 t1(2) i by (auto simp: t'_def e_def a_def)
    qed
  qed
  have buf': "filter (\<lambda>b. table_length h \<le> b) (as @ [a]) = [table_length h..<table_length h + buffer_length h']"
    using buf i by (auto simp: h'_def a_def)
  have hf: "tbl h' = t'" "table_length h' = table_length h" by (simp_all add: h'_def)
  have "built h' (Some a) (as @ [a]) (xs @ [(fid, grp)])"
    unfolding built_def hf
  proof (intro conjI)
    show "length t' = table_length h + buffer_length h'" using t1(4) by (simp add: t'_def h'_def)
    show "hash_total h' = length (xs @ [(fid, grp)])" using xs(2) by (simp add: h'_def)
  qed (use L' xs' full' place' buf' d a_new tl in simp_all)
  then show ?thesis using put by (auto simp: h'_def)
qed

lemma built_new: "built (new_table n) None [] []"
  by (auto simp: built_def new_table_def free_elem_def)

lemma built_fold:
  "built h pre as xs \<Longrightarrow> ys \<noteq> [] \<longrightarrow> 0 < table_length h \<Longrightarrow>
    \<exists>h' pre' as'. fold put_at ys (h, pre) = (h', pre') \<and> built h' pre' as' (xs @ ys) \<and> table_length h' = table_length h"
proof (induction ys arbitrary: h pre as xs)
  case (Cons y ys)
  obtain fid grp where y: "y = (fid, grp)" by fastforce
  from built_put [OF Cons.prems(1), of fid grp] Cons.prems(2) obtain h' a where h':
    "put_at y (h, pre) = (h', Some a)" "built h' (Some a) (as @ [a]) (xs @ [y])" "table_length h' = table_length h"
    unfolding y by auto
  from Cons.IH [OF h'(2)] Cons.prems(2) h'(3) show ?case using h'(1) by auto
qed auto

lemma built_chain: "built h pre as xs \<Longrightarrow> chain_of h = xs"
proof -
  assume b: "built h pre as xs"
  have "set as \<subseteq> {..<length (tbl h)}"
  proof -
    have "links t s as \<Longrightarrow> set as \<subseteq> {..<length t}" for t :: "'a helem list" and s
      by (induction as arbitrary: s) auto
    then show ?thesis using b unfolding built_def by blast
  qed
  then have "length as \<le> length (tbl h)"
    using b card_mono [of "{..<length (tbl h)}" "set as"] distinct_card [of as] by (simp add: built_def)
  then show ?thesis using b links_walk [of "tbl h" "hash_head h" as "length (tbl h)"] by (simp add: built_def chain_of_def)
qed

lemma hash_rep_new: "hash_rep (new_table n) []"
  using built_new by (auto simp: hash_rep_def)

lemma List_empty_rep: "hash_rep List_empty []"
  using hash_rep_new [of 0] by (simp add: new_table_def List_empty_def)

lemma hash_repD: "hash_rep h xs \<Longrightarrow> chain_of h = xs" "hash_rep h xs \<Longrightarrow> hash_total h = length xs"
  by (auto simp: hash_rep_def built_chain) (auto simp: built_def)

lemma buffer_search_stop: "high < low \<Longrightarrow> buffer_search t off fid low high = None"
  by (subst buffer_search.simps) simp

lemma buffer_search_found:
  assumes asc: "\<And>i k. i < k \<Longrightarrow> k < n \<Longrightarrow> he_id (t ! (off + i)) < he_id (t ! (off + k))" and j: "he_id (t ! (off + j)) = fid" "j < n"
  shows "0 \<le> low \<Longrightarrow> high < int n \<Longrightarrow> low \<le> int j \<Longrightarrow> int j \<le> high \<Longrightarrow>
    buffer_search t off fid low high = he_group (t ! (off + j))"
proof (induction "nat (high - low + 1)" arbitrary: low high rule: less_induct)
  case less
  let ?m = "low + (high - low) div 2"
  have lh: "low \<le> high" using less.prems by simp
  then have m: "low \<le> ?m" "?m \<le> high" by auto
  then have mn: "nat ?m < n" using less.prems by simp
  have step: "buffer_search t off fid low high = (let e = t ! (off + nat ?m) in
      if he_id e < fid then buffer_search t off fid (?m + 1) high
      else if he_id e = fid then he_group e else buffer_search t off fid low (?m - 1))"
    using lh by (subst buffer_search.simps) (simp add: Let_def)
  consider "nat ?m < j" | "nat ?m = j" | "j < nat ?m" by linarith
  then show ?case
  proof cases
    case 1
    then have "he_id (t ! (off + nat ?m)) < fid" using asc [OF 1 j(2)] j(1) by simp
    then show ?thesis using step less.hyps [of high "?m + 1"] less.prems m 1 by simp
  next
    case 2
    then show ?thesis using step j(1) by simp
  next
    case 3
    then have "fid < he_id (t ! (off + nat ?m))" using asc [OF 3 mn] j(1) by simp
    then show ?thesis using step less.hyps [of "?m - 1" low] less.prems m 3 by (auto simp: Let_def)
  qed
qed

lemma buffer_search_absent:
  assumes "\<forall>j<n. he_id (t ! (off + j)) \<noteq> fid"
  shows "0 \<le> low \<Longrightarrow> high < int n \<Longrightarrow> buffer_search t off fid low high = None"
proof (induction "nat (high - low + 1)" arbitrary: low high rule: less_induct)
  case less
  show ?case
  proof (cases "low \<le> high")
    case True
    let ?m = "low + (high - low) div 2"
    have m: "low \<le> ?m" "?m \<le> high" using True by auto
    then have "he_id (t ! (off + nat ?m)) \<noteq> fid" using assms less.prems by simp
    then show ?thesis using less.hyps [of high "?m + 1"] less.hyps [of "?m - 1" low] less.prems m True
      by (subst buffer_search.simps) (simp add: Let_def)
  qed (simp add: buffer_search_stop)
qed

lemma hash_find_map_of:
  assumes rep: "hash_rep h xs" and ne: "xs \<noteq> []"
  shows "hash_find h fid = map_of xs fid"
proof -
  obtain pre as where b: "built h pre as xs" and asc: "sorted_wrt (<) (map fst xs)" using rep unfolding hash_rep_def by blast
  let ?t = "tbl h" and ?n = "table_length h"
  have xs: "xs = map (content ?t) as" and len: "length ?t = ?n + buffer_length h"
    and full: "\<And>a. a < length ?t \<Longrightarrow> he_group (?t ! a) \<noteq> None \<longleftrightarrow> a \<in> set as"
    and place: "\<And>a. a \<in> set as \<Longrightarrow> if a < ?n then a = unat (he_id (?t ! a)) mod ?n else unat (he_id (?t ! a)) mod ?n \<in> set as"
    and buf: "filter (\<lambda>a. ?n \<le> a) as = [?n..<?n + buffer_length h]" and L: "links ?t (hash_head h) as"
    using b unfolding built_def by auto
  have lt: "a \<in> set as \<Longrightarrow> a < length ?t" for a
  proof -
    have "links t s as \<Longrightarrow> set as \<subseteq> {..<length t}" for t :: "'a helem list" and s by (induction as arbitrary: s) auto
    then show "a \<in> set as \<Longrightarrow> a < length ?t" using L by blast
  qed
  have dist: "distinct (map fst xs)" using asc by (simp add: strict_sorted_iff)
  have found: "map_of xs fid = he_group (?t ! a)" if "a \<in> set as" "he_id (?t ! a) = fid" for a
  proof -
    have "(fid, the (he_group (?t ! a))) \<in> set xs" using that xs by (force simp: content_def)
    then have "map_of xs fid = Some (the (he_group (?t ! a)))" by (rule map_of_is_SomeI [OF dist])
    then show ?thesis using full [OF lt [OF that(1)]] that(1) by auto
  qed
  have only: "a = c" if "a \<in> set as" "c \<in> set as" "he_id (?t ! a) = he_id (?t ! c)" for a c
  proof -
    have "inj_on (\<lambda>a. he_id (?t ! a)) (set as)" using dist xs by (simp add: distinct_map o_def content_def)
    then show ?thesis using that by (auto dest: inj_onD)
  qed
  have pos: "0 < ?n" using b ne xs by (auto simp: built_def)
  have bufset: "?n + j \<in> set as" if "j < buffer_length h" for j
  proof -
    have "?n + j \<in> set (filter (\<lambda>a. ?n \<le> a) as)" unfolding buf using that by simp
    then show ?thesis by simp
  qed
  have incr: "he_id (?t ! (?n + i)) < he_id (?t ! (?n + k))" if "i < k" "k < buffer_length h" for i k
  proof -
    have "sorted_wrt (\<lambda>a c. he_id (?t ! a) < he_id (?t ! c)) as" using asc unfolding xs by (simp add: sorted_wrt_map content_def)
    then have "sorted_wrt (\<lambda>a c. he_id (?t ! a) < he_id (?t ! c)) [?n..<?n + buffer_length h]"
      unfolding buf [symmetric] by (rule sorted_wrt_filter)
    from sorted_wrt_nth_less [OF this that(1)] that show ?thesis by simp
  qed
  let ?i = "unat fid mod ?n"
  have i: "?i < ?n" "?i < length ?t" using pos len by (simp_all add: trans_less_add1)
  show ?thesis
  proof (cases "\<exists>a\<in>set as. he_id (?t ! a) = fid")
    case True
    then obtain a where a: "a \<in> set as" "he_id (?t ! a) = fid" by blast
    show ?thesis
    proof (cases "a < ?n")
      case True
      then have "a = ?i" using place [OF a(1)] a(2) by simp
      then show ?thesis using a full [OF i(2)] found [OF a] by (simp add: hash_find_def Let_def)
    next
      case False
      then have iin: "?i \<in> set as" using place [OF a(1)] a(2) by simp
      have "he_id (?t ! ?i) \<noteq> fid" using only [OF iin a(1)] a(2) i(1) False by auto
      moreover obtain j where j: "a = ?n + j" "j < buffer_length h" using False lt [OF a(1)] len by (metis add_less_cancel_left le_Suc_ex not_less)
      moreover have "buffer_search ?t ?n fid 0 (int (buffer_length h) - 1) = he_group (?t ! a)"
        using buffer_search_found [of "buffer_length h" ?t ?n j fid 0 "int (buffer_length h) - 1"] incr a(2) j by simp
      ultimately show ?thesis using full [OF i(2)] iin found [OF a] by (simp add: hash_find_def Let_def)
    qed
  next
    case False
    then have "map_of xs fid = None" using xs by (auto simp: map_of_eq_None_iff content_def)
    moreover have "buffer_search ?t ?n fid 0 (int (buffer_length h) - 1) = None"
      by (rule buffer_search_absent [of "buffer_length h"]) (use False bufset in auto)
    moreover have "he_id (?t ! ?i) \<noteq> fid" if "he_group (?t ! ?i) \<noteq> None" using False full [OF i(2)] that by blast
    ultimately show ?thesis by (auto simp: hash_find_def Let_def)
  qed
qed

section \<open>Merging lists\<close>

fun merge_chains :: "('n \<Rightarrow> 'n \<Rightarrow> bool) \<Rightarrow> (32 word \<times> 'n onode list) list \<Rightarrow> (32 word \<times> 'n onode list) list \<Rightarrow>
    (32 word \<times> 'n onode list) list" where
  "merge_chains prec [] ys = ys"
| "merge_chains prec (x # xs) [] = x # xs"
| "merge_chains prec (x # xs) (y # ys) =
     (if fst x < fst y then x # merge_chains prec xs (y # ys)
      else if fst x = fst y then (fst x, group_merge prec (snd x) (snd y)) # merge_chains prec xs ys
      else y # merge_chains prec (x # xs) ys)"

fun add_chain :: "('n \<Rightarrow> 'n \<Rightarrow> bool) \<Rightarrow> 'n onode \<Rightarrow> 32 word \<Rightarrow> (32 word \<times> 'n onode list) list \<Rightarrow> (32 word \<times> 'n onode list) list" where
  "add_chain prec n fid [] = [(fid, [n])]"
| "add_chain prec n fid (x # xs) =
     (if fst x < fid then x # add_chain prec n fid xs
      else if fst x = fid then (fst x, merge_group_single prec (snd x) n) # xs
      else (fid, [n]) # x # xs)"

abbreviation ascending :: "(32 word \<times> 'b) list \<Rightarrow> bool" where
  "ascending xs \<equiv> sorted_wrt (<) (map fst xs)"

lemma merge_loop_chain: "fst (merge_loop prec xs ys st cur) = fold put_at (merge_chains prec xs ys) st"
  by (induction prec xs ys st cur rule: merge_loop.induct) (simp_all add: Let_def)

lemma merge_loop_mem: "cur \<le> snd (merge_loop prec xs ys st cur)"
  by (induction prec xs ys st cur rule: merge_loop.induct) (auto simp: Let_def)

lemma add_loop_inserted: "\<forall>x\<in>set xs. fid < fst x \<Longrightarrow> add_loop prec n fid xs True st cur = (fold put_at xs st, cur)"
  by (induction xs arbitrary: st) auto

lemma add_loop_chain: "ascending xs \<Longrightarrow> fst (add_loop prec n fid xs False st cur) = fold put_at (add_chain prec n fid xs) st"
proof (induction xs arbitrary: st cur)
  case (Cons x xs)
  consider "fst x < fid" | "fst x = fid" | "fid < fst x" using less_linear by blast
  then show ?case
  proof cases
    case 2
    then have "\<forall>y\<in>set xs. fid < fst y" using Cons.prems by auto
    then show ?thesis using 2 by (simp add: Let_def add_loop_inserted)
  next
    case 3
    then have "\<forall>y\<in>set (x # xs). fid < fst y" using Cons.prems by force
    then show ?thesis using 3 by (auto simp: add_loop_inserted)
  qed (use Cons in auto)
qed simp

lemma merge_chains_ids: "fst ` set (merge_chains prec xs ys) = fst ` set xs \<union> fst ` set ys"
  by (induction prec xs ys rule: merge_chains.induct) auto

lemma merge_chains_ascending: "ascending xs \<Longrightarrow> ascending ys \<Longrightarrow> ascending (merge_chains prec xs ys)"
proof (induction prec xs ys rule: merge_chains.induct)
  case (3 prec x xs y ys)
  have sub: "fst k \<in> fst ` set us \<union> fst ` set vs" if "k \<in> set (merge_chains prec us vs)" for k us vs
    using merge_chains_ids [of prec us vs] that by blast
  consider "fst x < fst y" | "fst x = fst y" | "fst y < fst x" using less_linear by blast
  then show ?case
  proof cases
    case 1
    have "\<forall>k\<in>set (merge_chains prec xs (y # ys)). fst x < fst k"
      using sub [of _ xs "y # ys"] 3(4,5) 1 by fastforce
    then show ?thesis using 1 3 by simp
  next
    case 2
    have "\<forall>k\<in>set (merge_chains prec xs ys). fst x < fst k" using sub [of _ xs ys] 3(4,5) 2 by fastforce
    then show ?thesis using 2 3 by simp
  next
    case c: 3
    have "\<forall>k\<in>set (merge_chains prec (x # xs) ys). fst y < fst k"
      using sub [of _ "x # xs" ys] 3(4,5) c by fastforce
    then show ?thesis using c 3 by (simp add: not_less_iff_gr_or_eq)
  qed
qed simp_all

definition merged_group :: "('n \<Rightarrow> 'n \<Rightarrow> bool) \<Rightarrow> 'n onode list option \<Rightarrow> 'n onode list option \<Rightarrow> 'n onode list option" where
  "merged_group prec g1 g2 = (case g1 of None \<Rightarrow> g2 | Some g1 \<Rightarrow> (case g2 of None \<Rightarrow> Some g1 | Some g2 \<Rightarrow> Some (group_merge prec g1 g2)))"

lemma map_of_below: "\<forall>k\<in>set xs. i < fst k \<Longrightarrow> map_of xs (i :: 32 word) = None"
  by (auto simp: map_of_eq_None_iff)

lemma merge_chains_map:
  "ascending xs \<Longrightarrow> ascending ys \<Longrightarrow> map_of (merge_chains prec xs ys) i = merged_group prec (map_of xs i) (map_of ys i)"
proof (induction prec xs ys rule: merge_chains.induct)
  case (1 prec ys)
  then show ?case by (simp add: merged_group_def)
next
  case (2 prec x xs)
  then show ?case by (simp add: merged_group_def split: option.split)
next
  case (3 prec x xs y ys)
  obtain j g k h where xy: "x = (j, g)" "y = (k, h)" by fastforce
  have below: "map_of xs j = None" "map_of ys k = None" using 3(4,5) by (auto intro!: map_of_below simp: xy)
  consider "j < k" | "j = k" | "k < j" using less_linear by blast
  then show ?case
  proof cases
    case 1
    then have "map_of (y # ys) j = None" using 3(5) by (intro map_of_below) (auto simp: xy)
    then show ?thesis using 1 3 by (auto simp: xy merged_group_def split: option.splits)
  next
    case 2
    then show ?thesis using 3 below by (auto simp: xy merged_group_def split: option.splits)
  next
    case c: 3
    then have "map_of (x # xs) k = None" using 3(4) by (intro map_of_below) (auto simp: xy)
    then show ?thesis using c 3 by (auto simp: xy merged_group_def not_less_iff_gr_or_eq split: option.splits)
  qed
qed

lemma add_chain_ids: "fst ` set (add_chain prec n fid xs) = insert fid (fst ` set xs)"
  by (induction xs) auto

lemma add_chain_ascending: "ascending xs \<Longrightarrow> ascending (add_chain prec n fid xs)"
proof (induction xs)
  case (Cons x xs)
  have "\<forall>k\<in>set (add_chain prec n fid xs). fst x < fst k" if "fst x < fid"
  proof
    fix k assume "k \<in> set (add_chain prec n fid xs)"
    then have "fst k \<in> insert fid (fst ` set xs)" using add_chain_ids [of prec n fid xs] by blast
    then show "fst x < fst k" using that Cons.prems by auto
  qed
  then show ?case using Cons by force
qed simp

lemma add_chain_map:
  "ascending xs \<Longrightarrow> map_of (add_chain prec n fid xs) i =
    (if i = fid then Some (case map_of xs fid of None \<Rightarrow> [n] | Some g \<Rightarrow> merge_group_single prec g n) else map_of xs i)"
proof (induction xs)
  case (Cons x xs)
  obtain j g where x: "x = (j, g)" by fastforce
  consider "j < fid" | "j = fid" | "fid < j" using less_linear by blast
  then show ?case
  proof cases
    case 3
    then have "map_of (x # xs) fid = None" using Cons.prems by (intro map_of_below) (force simp: x)
    then show ?thesis using 3 by (auto simp: x)
  qed (use Cons in \<open>auto simp: x\<close>)
qed simp

lemma rep_of_fold:
  assumes "ascending xs" "xs \<noteq> [] \<longrightarrow> 0 < n"
  shows "hash_rep (fst (fold put_at xs (new_table n, None))) xs"
proof -
  from built_fold [OF built_new [of n], of xs] assms(2)
  obtain h pre as where "fold put_at xs (new_table n, None) = (h, pre)" "built h pre as xs" by (auto simp: new_table_def)
  then show ?thesis using assms(1) by (auto simp: hash_rep_def)
qed

text \<open>How much memory an operation takes at most.\<close>

abbreviation chain_nodes :: "(32 word \<times> 'n onode list) list \<Rightarrow> nat" where
  "chain_nodes xs \<equiv> sum_list (map (length \<circ> snd) xs)"

definition list_nodes :: "'n hash \<Rightarrow> nat" where
  "list_nodes h = chain_nodes (chain_of h)"

lemma length_group_merge: "length (group_merge prec xs ys) \<le> length xs + length ys"
  by (induction prec xs ys rule: group_merge.induct) auto

lemma length_merge_group_single: "length (merge_group_single prec g n) \<le> Suc (length g)"
  by (induction prec g n rule: merge_group_single.induct) auto

lemma merge_loop_nodes: "snd (merge_loop prec xs ys st cur) \<le> cur + chain_nodes xs + chain_nodes ys"
proof (induction prec xs ys st cur rule: merge_loop.induct)
  case (3 prec x xs y ys st cur)
  then show ?case using length_group_merge [of prec "snd x" "snd y"] by (auto simp: Let_def)
qed simp_all

lemma add_loop_nodes: "ascending xs \<Longrightarrow> snd (add_loop prec n fid xs False st cur) \<le> cur + chain_nodes xs + 1"
proof (induction xs arbitrary: st)
  case (Cons x xs)
  consider "fst x < fid" | "fst x = fid" | "fid < fst x" using less_linear by blast
  then show ?case
  proof cases
    case 1
    then show ?thesis using Cons.IH [of "put_at x st"] Cons.prems by simp
  next
    case 2
    then have "\<forall>y\<in>set xs. fid < fst y" using Cons.prems by auto
    then show ?thesis using 2 length_merge_group_single [of prec "snd x" n] by (simp add: Let_def add_loop_inserted)
  next
    case 3
    then have "\<forall>y\<in>set (x # xs). fid < fst y" using Cons.prems by force
    then show ?thesis using 3 by (auto simp: add_loop_inserted)
  qed
qed simp

lemma put_at_size: "table_length (fst (put_at x st)) = table_length (fst st) \<and> buffer_length (fst (put_at x st)) \<le> Suc (buffer_length (fst st))"
  by (simp add: put_at_def Let_def split_def split: option.split)

lemma fold_put_size:
  "table_length (fst (fold put_at xs st)) = table_length (fst st) \<and> buffer_length (fst (fold put_at xs st)) \<le> buffer_length (fst st) + length xs"
proof (induction xs arbitrary: st)
  case (Cons x xs)
  show ?case using Cons.IH [of "put_at x st"] put_at_size [of x st] unfolding fold_simps(2) list.size(4) by linarith
qed simp

lemma length_merge_chains: "length (merge_chains prec xs ys) \<le> length xs + length ys"
  by (induction prec xs ys rule: merge_chains.induct) auto

lemma length_add_chain: "length (add_chain prec n fid xs) \<le> Suc (length xs)"
  by (induction xs) auto

lemma take_memory_value: "take_memory h cur pm = Some (h', pm') \<Longrightarrow> h' = h"
  by (auto simp: take_memory_def Let_def)

lemma List_merge_value:
  assumes h: "hash_rep h1 xs" "hash_rep h2 ys" and m: "List_merge prec h1 h2 pm = Some (h, pm')"
  shows "hash_rep h (merge_chains prec xs ys)"
proof -
  let ?r = "merge_loop prec xs ys (new_table ((length xs + length ys) * 2), None) (pm_current pm)"
  have asc: "ascending xs" "ascending ys" using h by (simp_all add: hash_rep_def)
  have "merge_chains prec xs ys \<noteq> [] \<Longrightarrow> 0 < (length xs + length ys) * 2"
    by (cases xs; cases ys) auto
  then have "hash_rep (fst (fst ?r)) (merge_chains prec xs ys)"
    unfolding merge_loop_chain by (intro rep_of_fold merge_chains_ascending asc) auto
  moreover have "take_memory (fst (fst ?r)) (snd ?r) pm = Some (h, pm')"
    using m by (simp add: List_merge_def hash_repD [OF h(1)] hash_repD [OF h(2)] split_def Let_def)
  ultimately show ?thesis using take_memory_value by blast
qed

lemma List_merge_rep:
  assumes h: "hash_rep h1 xs" "hash_rep h2 ys"
    and room: "pm_current pm + list_nodes h1 + list_nodes h2 < pm_size pm"
      "pm_current_h pm + 3 * (hash_total h1 + hash_total h2) < pm_size_h pm"
  shows "\<exists>h pm'. List_merge prec h1 h2 pm = Some (h, pm') \<and> hash_rep h (merge_chains prec xs ys)"
proof -
  let ?t = "new_table ((length xs + length ys) * 2) :: 'a hash"
  let ?r = "merge_loop prec xs ys (?t, None) (pm_current pm)"
  note d = hash_repD [OF h(1)] hash_repD [OF h(2)]
  have "snd ?r \<le> pm_size pm"
    using merge_loop_nodes [of prec xs ys "(?t, None)" "pm_current pm"] room(1) by (simp add: list_nodes_def d)
  moreover have "table_length (fst (fst ?r)) = 2 * (length xs + length ys)" "buffer_length (fst (fst ?r)) \<le> length xs + length ys"
    using fold_put_size [of "merge_chains prec xs ys" "(?t, None)"] length_merge_chains [of prec xs ys]
    by (simp_all add: merge_loop_chain new_table_def)
  then have "pm_current_h pm + table_length (fst (fst ?r)) + buffer_length (fst (fst ?r)) \<le> pm_size_h pm"
    using room(2) by (simp add: d)
  ultimately have "\<exists>pm'. List_merge prec h1 h2 pm = Some (fst (fst ?r), pm')"
    using room by (simp add: List_merge_def take_memory_def d split_def Let_def)
  then show ?thesis using List_merge_value [OF h] by blast
qed

lemma List_add_rep:
  assumes h: "hash_rep h xs" and room: "pm_current pm + list_nodes h < pm_size pm" "pm_current_h pm + 3 * (hash_total h + 1) \<le> pm_size_h pm"
  shows "\<exists>h' pm'. List_add prec h n fid pm = Some (h', pm') \<and> hash_rep h' (add_chain prec n fid xs)"
proof -
  let ?t = "new_table ((length xs + 1) * 2) :: 'a hash"
  let ?r = "add_loop prec n fid xs False (?t, None) (pm_current pm)"
  note d = hash_repD [OF h]
  have asc: "ascending xs" using h by (simp add: hash_rep_def)
  have rep: "hash_rep (fst (fst ?r)) (add_chain prec n fid xs)"
    unfolding add_loop_chain [OF asc] by (intro rep_of_fold add_chain_ascending asc) auto
  have "snd ?r \<le> pm_size pm"
    using add_loop_nodes [OF asc, of prec n fid "(?t, None)" "pm_current pm"] room(1) by (simp add: list_nodes_def d)
  moreover have "table_length (fst (fst ?r)) = 2 * (length xs + 1)" "buffer_length (fst (fst ?r)) \<le> length xs + 1"
    using fold_put_size [of "add_chain prec n fid xs" "(?t, None)"] length_add_chain [of prec n fid xs]
    by (simp_all add: add_loop_chain [OF asc] new_table_def)
  then have "pm_current_h pm + table_length (fst (fst ?r)) + buffer_length (fst (fst ?r)) \<le> pm_size_h pm"
    using room(2) by (simp add: d)
  ultimately have "\<exists>pm'. List_add prec h n fid pm = Some (fst (fst ?r), pm')"
    using room by (simp add: List_add_def take_memory_def d split_def Let_def)
  then show ?thesis using rep by blast
qed

section \<open>The strands of a list\<close>

definition list_strands :: "'n hash \<Rightarrow> 32 word \<Rightarrow> ('n \<times> 'n) set" where
  "list_strands h fid = (if Empty h then {} else case hash_find h fid of None \<Rightarrow> {} | Some g \<Rightarrow> cpt ` set g)"

definition list_inv :: "('n \<Rightarrow> 'n \<Rightarrow> bool) \<Rightarrow> (32 word \<Rightarrow> ('n \<times> 'n) set) \<Rightarrow> 'n hash \<Rightarrow> bool" where
  "list_inv prec S h \<longleftrightarrow> (\<exists>xs. hash_rep h xs \<and> (\<forall>x\<in>set xs. group_inv prec (S (fst x)) (snd x)))"

definition group_strands :: "'n onode list option \<Rightarrow> ('n \<times> 'n) set" where
  "group_strands g = (case g of None \<Rightarrow> {} | Some g \<Rightarrow> cpt ` set g)"

lemma list_strands_rep: "hash_rep h xs \<Longrightarrow> list_strands h i = group_strands (map_of xs i)"
  using hash_repD(2) [of h xs] hash_find_map_of [of h xs i]
  by (cases "xs = []") (auto simp: list_strands_def Empty_def group_strands_def)

lemma Search_exact:
  assumes inv: "list_inv prec S h" and S: "strands_ok prec (S fid)" and q: "q \<in> S fid"
  shows "Search prec h (fst q) (snd q) fid \<longleftrightarrow> (\<exists>a\<in>list_strands h fid. sprec prec q a)"
proof -
  obtain xs where xs: "hash_rep h xs" "\<forall>x\<in>set xs. group_inv prec (S (fst x)) (snd x)" using inv by (auto simp: list_inv_def)
  show ?thesis
  proof (cases "xs = []")
    case True
    then show ?thesis using hash_repD(2) [OF xs(1)] by (simp add: Search_def list_strands_def Empty_def)
  next
    case False
    then have ne: "\<not> Empty h" using hash_repD(2) [OF xs(1)] by (simp add: Empty_def)
    show ?thesis
    proof (cases "map_of xs fid")
      case None
      then show ?thesis using ne hash_find_map_of [OF xs(1) False, of fid] by (simp add: Search_def list_strands_def)
    next
      case (Some g)
      then have "group_inv prec (S fid) g" using xs(2) map_of_SomeD [OF Some] by fastforce
      from search_group_exact [OF S this q] Some ne show ?thesis
        using hash_find_map_of [OF xs(1) False, of fid] by (simp add: Search_def list_strands_def)
    qed
  qed
qed

lemma List_merge_spec:
  assumes inv: "list_inv prec S h1" "list_inv prec S h2" and S: "\<forall>i. strands_ok prec (S i) \<and> n_free prec (S i)"
    and c: "\<forall>i. closed_under prec (list_strands h1 i) (list_strands h2 i) \<and> closed_under prec (list_strands h2 i) (list_strands h1 i)"
    and room: "pm_current pm + list_nodes h1 + list_nodes h2 < pm_size pm"
      "pm_current_h pm + 3 * (hash_total h1 + hash_total h2) < pm_size_h pm"
  shows "\<exists>h pm'. List_merge prec h1 h2 pm = Some (h, pm') \<and> list_inv prec S h \<and>
    (\<forall>i. list_strands h i = list_strands h1 i \<union> list_strands h2 i)"
proof -
  obtain xs where xs: "hash_rep h1 xs" "\<forall>x\<in>set xs. group_inv prec (S (fst x)) (snd x)" using inv(1) by (auto simp: list_inv_def)
  obtain ys where ys: "hash_rep h2 ys" "\<forall>x\<in>set ys. group_inv prec (S (fst x)) (snd x)" using inv(2) by (auto simp: list_inv_def)
  have asc: "ascending xs" "ascending ys" using xs(1) ys(1) by (simp_all add: hash_rep_def)
  obtain h pm' where h: "List_merge prec h1 h2 pm = Some (h, pm')" "hash_rep h (merge_chains prec xs ys)"
    using List_merge_rep [OF xs(1) ys(1) room] by blast
  have mo: "map_of (merge_chains prec xs ys) i = merged_group prec (map_of xs i) (map_of ys i)" for i
    by (rule merge_chains_map [OF asc])
  have g: "group_inv prec (S i) g" if "map_of xs i = Some g \<or> map_of ys i = Some g" for i g
    using that xs(2) ys(2) map_of_SomeD [of xs i g] map_of_SomeD [of ys i g] by fastforce
  have gm: "group_inv prec (S i) (group_merge prec g1 g2) \<and> cpt ` set (group_merge prec g1 g2) = cpt ` set g1 \<union> cpt ` set g2"
    if "map_of xs i = Some g1" "map_of ys i = Some g2" for i g1 g2
  proof -
    have st: "list_strands h1 i = cpt ` set g1" "list_strands h2 i = cpt ` set g2"
      using that by (simp_all add: list_strands_rep [OF xs(1)] list_strands_rep [OF ys(1)] group_strands_def)
    have gi: "group_inv prec (S i) g1" "group_inv prec (S i) g2" using g that by blast+
    have "closed_under prec (cpt ` set g1) (cpt ` set g2)" "closed_under prec (cpt ` set g2) (cpt ` set g1)" using c st by metis+
    then show ?thesis using S group_merge_inv [OF _ _ gi] group_merge_cpts [of prec "S i" g1 g2] group_invD(1) [OF gi(1)] group_invD(1) [OF gi(2)]
      by blast
  qed
  have mg: "group_inv prec (S i) g" if "map_of (merge_chains prec xs ys) i = Some g" for i g
    using that g gm unfolding mo merged_group_def by (auto split: option.splits)
  have "\<forall>x\<in>set (merge_chains prec xs ys). group_inv prec (S (fst x)) (snd x)"
  proof
    fix x assume x: "x \<in> set (merge_chains prec xs ys)"
    have "distinct (map fst (merge_chains prec xs ys))" using merge_chains_ascending [OF asc, of prec] by (simp add: strict_sorted_iff)
    then have "map_of (merge_chains prec xs ys) (fst x) = Some (snd x)" using x by (intro map_of_is_SomeI) simp_all
    then show "group_inv prec (S (fst x)) (snd x)" by (rule mg)
  qed
  then have "list_inv prec S h" using h(2) unfolding list_inv_def by blast
  moreover have "list_strands h i = list_strands h1 i \<union> list_strands h2 i" for i
    unfolding list_strands_rep [OF h(2)] list_strands_rep [OF xs(1)] list_strands_rep [OF ys(1)] mo
    using gm by (auto simp: merged_group_def group_strands_def split: option.split)
  ultimately show ?thesis using h(1) by blast
qed

lemma List_add_spec:
  assumes inv: "list_inv prec S h" and S: "\<forall>i. strands_ok prec (S i)" and n: "cpt n \<in> S fid" "dpt n = cpt n"
    and after: "\<forall>a\<in>list_strands h fid. sprec prec a (cpt n)"
    and room: "pm_current pm + list_nodes h < pm_size pm" "pm_current_h pm + 3 * (hash_total h + 1) \<le> pm_size_h pm"
  shows "\<exists>h' pm'. List_add prec h n fid pm = Some (h', pm') \<and> list_inv prec S h' \<and>
    (\<forall>i. list_strands h' i = (if i = fid then insert (cpt n) (list_strands h i) else list_strands h i))"
proof -
  obtain xs where xs: "hash_rep h xs" "\<forall>x\<in>set xs. group_inv prec (S (fst x)) (snd x)" using inv by (auto simp: list_inv_def)
  have asc: "ascending xs" using xs(1) by (simp add: hash_rep_def)
  obtain h' pm' where h': "List_add prec h n fid pm = Some (h', pm')" "hash_rep h' (add_chain prec n fid xs)"
    using List_add_rep [OF xs(1) room] by blast
  note mo = add_chain_map [OF asc, of prec n fid]
  have one: "group_inv prec (S fid) [n]" using n sprec_irrefl [of prec "S fid" "cpt n"] S linear_onD(1) [OF strands_lin(1), of prec "S fid" "cnode_e n"]
    by (auto simp: group_inv_def cpt_def image_iff)
  have ins: "group_inv prec (S fid) (merge_group_single prec g n) \<and>
      cpt ` set (merge_group_single prec g n) = insert (cpt n) (cpt ` set g)" if g: "map_of xs fid = Some g" for g
  proof (rule merge_group_single_inv)
    show "strands_ok prec (S fid)" using S by blast
    show "group_inv prec (S fid) g" using xs(2) map_of_SomeD [OF g] by fastforce
    show "\<forall>m\<in>set g. sprec prec (cpt m) (cpt n)" using after g by (simp add: list_strands_rep [OF xs(1)] group_strands_def)
  qed (rule n)+
  have "\<forall>x\<in>set (add_chain prec n fid xs). group_inv prec (S (fst x)) (snd x)"
  proof
    fix x assume x: "x \<in> set (add_chain prec n fid xs)"
    have "distinct (map fst (add_chain prec n fid xs))" using add_chain_ascending [OF asc, of prec n fid] by (simp add: strict_sorted_iff)
    then have eq: "map_of (add_chain prec n fid xs) (fst x) = Some (snd x)" using x by (intro map_of_is_SomeI) simp_all
    show "group_inv prec (S (fst x)) (snd x)"
    proof (cases "fst x = fid")
      case True
      then show ?thesis using eq one ins unfolding mo by (auto split: option.splits)
    next
      case False
      then show ?thesis using eq xs(2) map_of_SomeD [of xs "fst x" "snd x"] unfolding mo by fastforce
    qed
  qed
  then have "list_inv prec S h'" using h'(2) unfolding list_inv_def by blast
  moreover have "list_strands h' i = (if i = fid then insert (cpt n) (list_strands h i) else list_strands h i)" for i
    unfolding list_strands_rep [OF h'(2)] list_strands_rep [OF xs(1)] mo using ins
    by (auto simp: group_strands_def split: option.split)
  ultimately show ?thesis using h'(1) by blast
qed

lemma List_empty_inv: "list_inv prec S List_empty" "list_strands List_empty i = {}"
  using List_empty_rep by (fastforce simp: list_inv_def) (simp add: list_strands_def Empty_def List_empty_def)

text \<open>On well-formed lists \<^verbatim>\<open>Merge\<close> is the constructor from two lists.\<close>

lemma Merge_eq: "hash_rep self xs \<Longrightarrow> hash_rep ori ys \<Longrightarrow> Merge prec self ori pm = List_merge prec self ori pm"
proof -
  assume r: "hash_rep self xs" "hash_rep ori ys"
  have e: "hash_head h = None" if h: "hash_rep h []" for h :: "'a hash"
    using h by (auto simp: hash_rep_def built_def)
  show ?thesis
  proof (cases "List_merge prec self ori pm")
    case (Some q)
    obtain h pm' where q: "q = (h, pm')" by (cases q)
    have h: "hash_rep h (merge_chains prec xs ys)" using List_merge_value [OF r] Some q by simp
    have "hash_head h = None \<and> hash_head self = None" if "hash_total h = 0"
    proof -
      have m: "merge_chains prec xs ys = []" using that hash_repD(2) [OF h] by simp
      then have "fst ` set xs \<union> fst ` set ys = {}" using merge_chains_ids [of prec xs ys] by simp
      then have "xs = []" by auto
      then show ?thesis using e h r(1) m by auto
    qed
    then show ?thesis by (simp add: Merge_def Some q)
  qed (simp add: Merge_def)
qed

section \<open>Properties\<close>

text \<open>
  C30. The search for a strand is exact. The two binary searches of \<^verbatim>\<open>List::Search\<close>, over the colliding futures and over the
  group of the future with the shortcut through the descendant, find a strand in a list exactly when it precedes one of the strands
  the list has of its future.
\<close>

theorem list_search_exact:
  assumes "list_inv prec S h" "strands_ok prec (S fid)" "q \<in> S fid"
  shows "Search prec h (fst q) (snd q) fid \<longleftrightarrow> (\<exists>a\<in>list_strands h fid. sprec prec q a)"
  by (rule Search_exact [OF assms])

definition ex_strands :: "32 word \<Rightarrow> (nat \<times> nat) set" where
  "ex_strands i = (if i = 7 then {(1, 10), (2, 12), (3, 11)} else {})"

definition ex_pm :: pmem where
  "ex_pm = \<lparr>pm_current = 0, pm_size = 100, pm_current_h = 0, pm_size_h = 200\<rparr>"

definition ex_list :: "nat \<times> nat \<Rightarrow> nat hash" where
  "ex_list a = fst (the (List_add (<) List_empty \<lparr>cnode_e = fst a, cnode_h = snd a, desc_e = fst a, desc_h = snd a, dag = 0\<rparr> 7 ex_pm))"

lemma ex_strands_ok: "strands_ok (<) (ex_strands i) \<and> n_free (<) (ex_strands i)"
  by (auto simp: strands_ok_def linear_on_def ex_strands_def n_free_def sprec_def irreflp_on_def transp_on_def totalp_on_def inj_on_def)

lemma List_empty_size: "list_nodes List_empty = 0" "hash_total List_empty = 0"
  by (simp_all add: list_nodes_def chain_of_def List_empty_def)

lemma ex_list_size: "list_nodes (ex_list a) = 1" "hash_total (ex_list a) = 1"
proof -
  let ?n = "\<lparr>cnode_e = fst a, cnode_h = snd a, desc_e = fst a, desc_h = snd a, dag = 0\<rparr>"
  obtain h pm where "List_add (<) List_empty ?n 7 ex_pm = Some (h, pm)" "hash_rep h (add_chain (<) ?n 7 [])"
    using List_add_rep [OF List_empty_rep, of ex_pm "(<)" ?n 7] by (auto simp: List_empty_size ex_pm_def)
  then have "hash_rep (ex_list a) [(7, [?n])]" by (simp add: ex_list_def)
  then show "list_nodes (ex_list a) = 1" "hash_total (ex_list a) = 1" by (simp_all add: list_nodes_def hash_repD)
qed

lemma ex_list_inv:
  assumes "a \<in> ex_strands 7"
  shows "list_inv (<) ex_strands (ex_list a) \<and> list_strands (ex_list a) i = (if i = 7 then {a} else {})"
proof -
  let ?n = "\<lparr>cnode_e = fst a, cnode_h = snd a, desc_e = fst a, desc_h = snd a, dag = 0\<rparr>"
  have S: "\<forall>i. strands_ok (<) (ex_strands i)" using ex_strands_ok by blast
  have n: "cpt ?n = a" "dpt ?n = cpt ?n" by (simp_all add: cpt_def dpt_def)
  from List_add_spec [OF List_empty_inv(1) S, of ?n 7 ex_pm] assms n
  obtain h pm where "List_add (<) List_empty ?n 7 ex_pm = Some (h, pm)" "list_inv (<) ex_strands h"
    "\<forall>i. list_strands h i = (if i = 7 then insert a (list_strands List_empty i) else list_strands List_empty i)"
    by (auto simp: List_empty_inv ex_pm_def List_empty_size)
  then show ?thesis by (auto simp: ex_list_def List_empty_inv)
qed

theorem list_search_exact_witness: "Search (<) (ex_list (2, 12)) 1 10 7"
proof -
  have "(2, 12) \<in> ex_strands 7" "(1, 10) \<in> ex_strands 7" by (simp_all add: ex_strands_def)
  then show ?thesis
    using list_search_exact [where prec = "(<)" and S = ex_strands and h = "ex_list (2, 12)" and fid = 7 and q = "(1, 10)"]
      ex_list_inv [of "(2, 12)"] ex_strands_ok [of 7] by (simp add: sprec_def)
qed

text \<open>
  C31. Merging loses no strand and invents none. When the strands of every future form a series-parallel order (\<open>n_free\<close>:
  they have no N-shaped part), each of two lists has, with a strand, the earlier ones that the other list has
  (\<open>closed_under\<close>), and the pool of the worker has room for the nodes of both lists and for three elements per group, the merge (a
  \<^verbatim>\<open>get\<close> or a sync) returns, and the merged list finds a strand exactly when one of the two lists did, for every
  future.
\<close>

theorem list_merge_search:
  assumes "list_inv prec S h1" "list_inv prec S h2" "\<forall>i. strands_ok prec (S i) \<and> n_free prec (S i)"
    and "\<forall>i. closed_under prec (list_strands h1 i) (list_strands h2 i) \<and> closed_under prec (list_strands h2 i) (list_strands h1 i)"
    and "pm_current pm + list_nodes h1 + list_nodes h2 < pm_size pm"
    and "pm_current_h pm + 3 * (hash_total h1 + hash_total h2) < pm_size_h pm"
  shows "\<exists>h pm'. Merge prec h1 h2 pm = Some (h, pm') \<and> list_inv prec S h \<and>
    (\<forall>i. \<forall>q\<in>S i. Search prec h (fst q) (snd q) i \<longleftrightarrow> Search prec h1 (fst q) (snd q) i \<or> Search prec h2 (fst q) (snd q) i)"
proof -
  obtain h pm' where h: "List_merge prec h1 h2 pm = Some (h, pm')" "list_inv prec S h"
    "\<forall>i. list_strands h i = list_strands h1 i \<union> list_strands h2 i" using List_merge_spec [OF assms] by blast
  obtain xs ys where "hash_rep h1 xs" "hash_rep h2 ys" using assms(1,2) by (auto simp: list_inv_def)
  then have "Merge prec h1 h2 pm = Some (h, pm')" using Merge_eq h(1) by metis
  moreover have "Search prec h (fst q) (snd q) i \<longleftrightarrow> Search prec h1 (fst q) (snd q) i \<or> Search prec h2 (fst q) (snd q) i"
    if "q \<in> S i" for i q
  proof -
    have S: "strands_ok prec (S i)" using assms(3) by blast
    show ?thesis unfolding Search_exact [OF h(2) S that] Search_exact [OF assms(1) S that] Search_exact [OF assms(2) S that]
      using h(3) by blast
  qed
  ultimately show ?thesis using h(2) by blast
qed

theorem list_merge_search_witness:
  "\<exists>h pm'. Merge (<) (ex_list (2, 12)) (ex_list (3, 11)) (ex_pm\<lparr>pm_current := 2, pm_current_h := 4\<rparr>) = Some (h, pm') \<and>
    (\<forall>i. \<forall>q\<in>ex_strands i. Search (<) h (fst q) (snd q) i \<longleftrightarrow>
       Search (<) (ex_list (2, 12)) (fst q) (snd q) i \<or> Search (<) (ex_list (3, 11)) (fst q) (snd q) i)"
proof -
  have e: "(2, 12) \<in> ex_strands 7" "(3, 11) \<in> ex_strands 7" by (simp_all add: ex_strands_def)
  have "\<forall>i. closed_under (<) (list_strands (ex_list (2, 12)) i) (list_strands (ex_list (3, 11)) i) \<and>
      closed_under (<) (list_strands (ex_list (3, 11)) i) (list_strands (ex_list (2, 12)) i)"
    using ex_list_inv [OF e(1)] ex_list_inv [OF e(2)] by (simp add: closed_under_def sprec_def)
  moreover have "\<forall>i. strands_ok (<) (ex_strands i) \<and> n_free (<) (ex_strands i)" using ex_strands_ok by blast
  ultimately obtain h pm' where "Merge (<) (ex_list (2, 12)) (ex_list (3, 11)) (ex_pm\<lparr>pm_current := 2, pm_current_h := 4\<rparr>) = Some (h, pm') \<and> list_inv (<) ex_strands h \<and>
    (\<forall>i. \<forall>q\<in>ex_strands i. Search (<) h (fst q) (snd q) i \<longleftrightarrow>
       Search (<) (ex_list (2, 12)) (fst q) (snd q) i \<or> Search (<) (ex_list (3, 11)) (fst q) (snd q) i)"
    using list_merge_search [where prec = "(<)" and S = ex_strands and ?h1.0 = "ex_list (2, 12)" and ?h2.0 = "ex_list (3, 11)" and pm = "ex_pm\<lparr>pm_current := 2, pm_current_h := 4\<rparr>"]
      ex_list_inv [OF e(1)] ex_list_inv [OF e(2)] by (auto simp: ex_pm_def ex_list_size)
  then show ?thesis by blast
qed

text \<open>
  A strand that the list does not have yet and that comes after all strands of its future in the list is added.
\<close>

lemma list_add_search:
  assumes "list_inv prec S h" "\<forall>i. strands_ok prec (S i)" "cpt n \<in> S fid" "dpt n = cpt n"
    and "\<forall>a\<in>list_strands h fid. sprec prec a (cpt n)"
    and "pm_current pm + list_nodes h < pm_size pm" "pm_current_h pm + 3 * (hash_total h + 1) \<le> pm_size_h pm"
  shows "\<exists>h' pm'. List_add prec h n fid pm = Some (h', pm') \<and> list_inv prec S h' \<and>
    (\<forall>i. \<forall>q\<in>S i. Search prec h' (fst q) (snd q) i \<longleftrightarrow> Search prec h (fst q) (snd q) i \<or> i = fid \<and> sprec prec q (cpt n))"
proof -
  obtain h' pm' where h': "List_add prec h n fid pm = Some (h', pm')" "list_inv prec S h'"
    "\<forall>i. list_strands h' i = (if i = fid then insert (cpt n) (list_strands h i) else list_strands h i)"
    using List_add_spec [OF assms] by blast
  have "Search prec h' (fst q) (snd q) i \<longleftrightarrow> Search prec h (fst q) (snd q) i \<or> i = fid \<and> sprec prec q (cpt n)"
    if "q \<in> S i" for i q
  proof -
    have S: "strands_ok prec (S i)" using assms(2) by blast
    show ?thesis unfolding Search_exact [OF h'(2) S that] Search_exact [OF assms(1) S that] using h'(3) by auto
  qed
  then show ?thesis using h'(1,2) by blast
qed

section \<open>The list of one strand\<close>

text \<open>
  The constructor from one strand leaves \<^verbatim>\<open>head\<close> as it finds it. Only when the memory of the object happens to hold the
  address of its own table there is the list well formed; when it holds zeros, the first list that is derived from it has lost the
  strand.
\<close>

lemma List_single_rep: "List_single (Some 0) n fid pm = Some (h, pm') \<Longrightarrow> hash_rep h [(fid, [n])]"
  by (auto simp: List_single_def hash_rep_def built_def content_def intro!: exI [of _ "Some 0"] exI [of _ "[0]"])

lemma single_list_lost:
  assumes l: "List_single None n fid pm = Some (l, pm1)" and l': "List_add prec l m fid' pm1 = Some (l', pm2)" and ne: "fid' \<noteq> fid"
    and before: "prec e (cnode_e n)" "prec h (cnode_h n)"
  shows "Search prec l e h fid \<and> \<not> Search prec l' e h fid"
proof -
  have le: "l = \<lparr>table_length = 1, buffer_length = 0, hash_total = 1,
      tbl = [\<lparr>he_group = Some [n], he_id = fid, he_next = None\<rparr>], hash_head = None\<rparr>"
    using l by (simp add: List_single_def)
  have "search_group prec e h [n] 0 0" using before by (subst search_group.simps) simp
  then have "Search prec l e h fid" by (simp add: le Search_def Empty_def hash_find_def Let_def)
  moreover have "\<not> Search prec l' e h fid"
  proof -
    have "chain_of l = []" by (simp add: le chain_of_def)
    then have "l' = fst (fold put_at [(fid', [m])] (new_table 4, None))"
      using l' take_memory_value [of "fst (put_at (fid', [m]) (new_table 4, None))" "Suc (pm_current pm1)" pm1 l' pm2]
      by (auto simp: List_add_def le split_def Let_def)
    then have r: "hash_rep l' [(fid', [m])]" using rep_of_fold [of "[(fid', [m])]" 4] by simp
    then show ?thesis using hash_find_map_of [OF r, of fid] ne by (simp add: Search_def)
  qed
  ultimately show ?thesis by blast
qed

end
