(* ===== verification/Strand_Tracking.thy ===== *)
theory Strand_Tracking
  imports Shadow_Stack Access_Lists
begin

text \<open>
  The strands of the race detector: \<^verbatim>\<open>rdtool/src/shadow_stack.cpp\<close> with \<^verbatim>\<open>pool.h\<close>,
  \<^verbatim>\<open>current.h\<close> and the memory blocks of \<^verbatim>\<open>list.cpp\<close>. Every worker has an active shadow deque, a
  stack of frames; a frame knows the current strand of its function, the strand after the next sync, and the strand of the
  continuation of a spawn that is under way. A strand is a node in the English and a node in the Hebrew order. The handlers keep
  these when a function is entered or left, at a spawn, a sync and a steal, and when a future is created, finished or got.

  The two orders are used through three functions, gathered in the record \<open>tool\<close>: insertion behind a node in either
  order, and the comparison \<^verbatim>\<open>om_precedes\<close>. A handler runs as one step: the spin locks of stacks and lists
  protect what it does.
\<close>

section \<open>Data\<close>

definition FRAME_HELPER_MASK :: "32 word" where "FRAME_HELPER_MASK = 1"
definition FRAME_FULL_MASK :: "32 word" where "FRAME_FULL_MASK = 2"

record 'n frame_data =
  current_english :: "'n option"
  current_hebrew :: "'n option"
  cont_english :: "'n option"
  cont_hebrew :: "'n option"
  sync_english :: "'n option"
  sync_hebrew :: "'n option"
  steal_cont_english :: "'n option"
  steal_cont_hebrew :: "'n option"
  steal_sync_english :: "'n option"
  steal_sync_hebrew :: "'n option"
  steal_current_list :: "nat option"
  current_list :: "nat option"
  sync_list :: "nat option"
  ori_list :: "nat option"
  flags :: "32 word"
  f_dag :: "'n option"
  f_future_id :: "32 word"

definition is_helper :: "'n frame_data \<Rightarrow> bool" where
  "is_helper f \<longleftrightarrow> flags f AND FRAME_HELPER_MASK \<noteq> 0"

text \<open>
  What an access to memory remembers of the strand that made it: a \<^verbatim>\<open>Current\<close> object. It is not written after its
  construction; accesses compare the addresses of such objects, so the address is part of the value.
\<close>

record 'n current =
  cur_addr :: nat
  cur_english :: "'n option"
  cur_hebrew :: "'n option"
  cur_list :: "nat option"
  cur_future_id :: "32 word"

text \<open>The blocks from which the workers take memory for lists: the next index, the number of blocks and their size.\<close>

record memory =
  block_index :: nat
  block_count :: nat
  block_size :: nat

definition Memory_init :: "nat \<Rightarrow> nat \<Rightarrow> memory" where
  "Memory_init n s = \<lparr>block_index = 0, block_count = n, block_size = s\<rparr>"

definition grab_mem :: "memory \<Rightarrow> (pmem \<times> memory) proc" where
  "grab_mem m = do {
     assert_c (block_index m < block_count m);
     Some (\<lparr>pm_current = 0, pm_size = block_size m, pm_current_h = 0, pm_size_h = block_size m * 2\<rparr>,
       m\<lparr>block_index := block_index m + 1\<rparr>) }"

text \<open>
  The functions of the orders, and the contents of cells that have just been allocated (\<open>uninit\<close>) and that
  \<^verbatim>\<open>reset\<close> has overwritten with ones (\<open>shred\<close>). Node pointers in lists may be null, so the comparison takes
  options.
\<close>

record ('n, 'o) tool =
  insert_english :: "'n \<Rightarrow> 'o \<Rightarrow> ('n \<times> 'o) proc"
  insert_hebrew :: "'n \<Rightarrow> 'o \<Rightarrow> ('n \<times> 'o) proc"
  precedes :: "'o \<Rightarrow> 'n option \<Rightarrow> 'n option \<Rightarrow> bool"
  base_english :: 'n
  base_hebrew :: 'n
  uninit :: "'n frame_data"
  shred :: "'n frame_data"

text \<open>
  The state. Shadow deques and lists are named by addresses; \<open>None\<close> in \<open>active\<close> is a null
  \<^verbatim>\<open>active_deque_\<close>, and in \<open>p_memory\<close> a worker that has no block yet. The thread-local variables are
  functions of the worker.
\<close>

record ('n, 'o) det =
  order :: 'o
  stacks :: "nat \<Rightarrow> 'n frame_data stack"
  next_stack :: nat
  active :: "nat \<Rightarrow> nat option"
  g_deque :: "nat option"
  lists :: "nat \<Rightarrow> 'n option hash option"
  next_list :: nat
  g_memory :: memory
  p_memory :: "nat \<Rightarrow> pmem option"
  future_id :: "32 word"
  g_tool_init :: bool
  g_first_frame :: bool
  self_set :: "nat \<Rightarrow> bool"
  t_worker :: "nat \<Rightarrow> nat option"
  batch_id :: "nat \<Rightarrow> int"
  current_of :: "nat \<Rightarrow> 'n current option"
  next_current :: nat
  called_future :: "nat \<Rightarrow> bool"
  checking_disabled :: "nat \<Rightarrow> int"

section \<open>Access to the state\<close>

definition head_of :: "nat \<Rightarrow> ('n, 'o, 'z) det_scheme \<Rightarrow> 'n frame_data proc" where
  "head_of w d = do { a \<leftarrow> active d w; Stack_head (stacks d a) }"

definition ancestor_of :: "nat \<Rightarrow> nat \<Rightarrow> ('n, 'o, 'z) det_scheme \<Rightarrow> 'n frame_data proc" where
  "ancestor_of i w d = do { a \<leftarrow> active d w; Stack_ancestor i (stacks d a) }"

definition set_frame :: "nat \<Rightarrow> 'n frame_data \<Rightarrow> nat \<Rightarrow> ('n, 'o, 'z) det_scheme \<Rightarrow> ('n, 'o, 'z) det_scheme proc" where
  "set_frame i f w d = do { a \<leftarrow> active d w; st \<leftarrow> set_ancestor i f (stacks d a); Some (d\<lparr>stacks := (stacks d)(a := st)\<rparr>) }"

definition push_frame :: "('n, 'o) tool \<Rightarrow> nat \<Rightarrow> ('n, 'o, 'z) det_scheme \<Rightarrow> ('n, 'o, 'z) det_scheme proc" where
  "push_frame E w d = do { a \<leftarrow> active d w; Some (d\<lparr>stacks := (stacks d)(a := Stack_push (uninit E) (stacks d a))\<rparr>) }"

definition push_helper_frame :: "('n, 'o) tool \<Rightarrow> nat \<Rightarrow> ('n, 'o, 'z) det_scheme \<Rightarrow> ('n, 'o, 'z) det_scheme proc" where
  "push_helper_frame E w d = do {
     a \<leftarrow> active d w;
     st \<leftarrow> AStack_push_helper is_helper (\<lambda>f. f\<lparr>flags := FRAME_HELPER_MASK\<rparr>) (uninit E) (stacks d a);
     Some (d\<lparr>stacks := (stacks d)(a := st)\<rparr>) }"

definition pop_shadow_frame :: "('n, 'o) tool \<Rightarrow> nat \<Rightarrow> ('n, 'o, 'z) det_scheme \<Rightarrow> ('n, 'o, 'z) det_scheme proc" where
  "pop_shadow_frame E w d = do {
     a \<leftarrow> active d w;
     st \<leftarrow> AStack_pop (uninit E) (stacks d a);
     Some (d\<lparr>stacks := (stacks d)(a := st)\<rparr>) }"

definition size_of :: "nat \<Rightarrow> ('n, 'o, 'z) det_scheme \<Rightarrow> nat proc" where
  "size_of w d = do { a \<leftarrow> active d w; Some (Stack_size (stacks d a)) }"

text \<open>\<^verbatim>\<open>current = new Current(...)\<close>, and the same with the fields of a frame.\<close>

definition new_current :: "nat \<Rightarrow> 'n option \<Rightarrow> 'n option \<Rightarrow> nat option \<Rightarrow> 32 word \<Rightarrow> ('n, 'o, 'z) det_scheme \<Rightarrow> ('n, 'o, 'z) det_scheme" where
  "new_current w e h l i d = d\<lparr>next_current := next_current d + 1, current_of := (current_of d)(w :=
     Some \<lparr>cur_addr = next_current d, cur_english = e, cur_hebrew = h, cur_list = l, cur_future_id = i\<rparr>)\<rparr>"

definition set_current :: "nat \<Rightarrow> 'n frame_data \<Rightarrow> ('n, 'o, 'z) det_scheme \<Rightarrow> ('n, 'o, 'z) det_scheme" where
  "set_current w f = new_current w (current_english f) (current_hebrew f) (current_list f) (f_future_id f)"

definition new_list :: "'n option hash \<Rightarrow> ('n, 'o, 'z) det_scheme \<Rightarrow> nat \<times> ('n, 'o, 'z) det_scheme" where
  "new_list h d = (next_list d, d\<lparr>lists := (lists d)(next_list d \<mapsto> h), next_list := next_list d + 1\<rparr>)"

definition get_list :: "nat option \<Rightarrow> ('n, 'o, 'z) det_scheme \<Rightarrow> 'n option hash proc" where
  "get_list l d = do { l \<leftarrow> l; lists d l }"

definition insert_e :: "('n, 'o) tool \<Rightarrow> 'n option \<Rightarrow> ('n, 'o, 'z) det_scheme \<Rightarrow> ('n \<times> ('n, 'o, 'z) det_scheme) proc" where
  "insert_e E c d = do { c \<leftarrow> c; (n, od) \<leftarrow> insert_english E c (order d); Some (n, d\<lparr>order := od\<rparr>) }"

definition insert_h :: "('n, 'o) tool \<Rightarrow> 'n option \<Rightarrow> ('n, 'o, 'z) det_scheme \<Rightarrow> ('n \<times> ('n, 'o, 'z) det_scheme) proc" where
  "insert_h E c d = do { c \<leftarrow> c; (n, od) \<leftarrow> insert_hebrew E c (order d); Some (n, d\<lparr>order := od\<rparr>) }"

text \<open>\<^verbatim>\<open>l->Merge(*m)\<close>, and the constructors of lists that take memory of the worker.\<close>

definition merge_lists :: "('n, 'o) tool \<Rightarrow> nat \<Rightarrow> nat option \<Rightarrow> nat option \<Rightarrow> ('n, 'o, 'z) det_scheme \<Rightarrow> ('n, 'o, 'z) det_scheme proc" where
  "merge_lists E w l m d = do {
     h1 \<leftarrow> get_list l d;
     h2 \<leftarrow> get_list m d;
     pm \<leftarrow> p_memory d w;
     (h, pm) \<leftarrow> Merge (precedes E (order d)) h1 h2 pm;
     Some (d\<lparr>lists := (lists d)(the l \<mapsto> h), p_memory := (p_memory d)(w \<mapsto> pm)\<rparr>) }"

definition new_merged_list :: "('n, 'o) tool \<Rightarrow> nat \<Rightarrow> nat option \<Rightarrow> nat option \<Rightarrow> ('n, 'o, 'z) det_scheme \<Rightarrow>
    (nat \<times> ('n, 'o, 'z) det_scheme) proc" where
  "new_merged_list E w l m d = do {
     h1 \<leftarrow> get_list l d;
     h2 \<leftarrow> get_list m d;
     pm \<leftarrow> p_memory d w;
     (h, pm) \<leftarrow> List_merge (precedes E (order d)) h1 h2 pm;
     Some (new_list h (d\<lparr>p_memory := (p_memory d)(w \<mapsto> pm)\<rparr>)) }"

definition new_added_list :: "('n, 'o) tool \<Rightarrow> nat \<Rightarrow> nat option \<Rightarrow> 'n option onode \<Rightarrow> 32 word \<Rightarrow> ('n, 'o, 'z) det_scheme \<Rightarrow>
    (nat \<times> ('n, 'o, 'z) det_scheme) proc" where
  "new_added_list E w l n i d = do {
     h \<leftarrow> get_list l d;
     pm \<leftarrow> p_memory d w;
     (h, pm) \<leftarrow> List_add (precedes E (order d)) h n i pm;
     Some (new_list h (d\<lparr>p_memory := (p_memory d)(w \<mapsto> pm)\<rparr>)) }"

definition new_single_list :: "nat option \<Rightarrow> nat \<Rightarrow> 'n option onode \<Rightarrow> 32 word \<Rightarrow> ('n, 'o, 'z) det_scheme \<Rightarrow>
    (nat \<times> ('n, 'o, 'z) det_scheme) proc" where
  "new_single_list junk w n i d = do {
     pm \<leftarrow> p_memory d w;
     (h, pm) \<leftarrow> List_single junk n i pm;
     Some (new_list h (d\<lparr>p_memory := (p_memory d)(w \<mapsto> pm)\<rparr>)) }"

definition grab_memory :: "nat \<Rightarrow> ('n, 'o, 'z) det_scheme \<Rightarrow> ('n, 'o, 'z) det_scheme proc" where
  "grab_memory w d = (if p_memory d w = None
     then do { (pm, m) \<leftarrow> grab_mem (g_memory d); Some (d\<lparr>p_memory := (p_memory d)(w \<mapsto> pm), g_memory := m\<rparr>) }
     else Some d)"

text \<open>\<^verbatim>\<open>enable_checking\<close> and \<^verbatim>\<open>disable_checking\<close> of \<^verbatim>\<open>tsan.cpp\<close>: the nesting is not counted.\<close>

definition enable_checking :: "nat \<Rightarrow> ('n, 'o, 'z) det_scheme \<Rightarrow> ('n, 'o, 'z) det_scheme" where
  "enable_checking w d = d\<lparr>checking_disabled := (checking_disabled d)(w := 0)\<rparr>"

definition disable_checking :: "nat \<Rightarrow> ('n, 'o, 'z) det_scheme \<Rightarrow> ('n, 'o, 'z) det_scheme proc" where
  "disable_checking w d = do {
     assert_c (0 \<le> checking_disabled d w);
     Some (d\<lparr>checking_disabled := (checking_disabled d)(w := 1)\<rparr>) }"

section \<open>Queries\<close>

definition PrecedesOM :: "('n, 'o) tool \<Rightarrow> ('n, 'o, 'z) det_scheme \<Rightarrow> 'n current \<Rightarrow> 'n current \<Rightarrow> bool" where
  "PrecedesOM E d a b \<longleftrightarrow> precedes E (order d) (cur_english a) (cur_english b) \<and> precedes E (order d) (cur_hebrew a) (cur_hebrew b)"

text \<open>A strand of the same future is compared by the orders, and any strand is looked up in the list of \<open>b\<close>.\<close>

definition Precedes :: "('n, 'o) tool \<Rightarrow> ('n, 'o, 'z) det_scheme \<Rightarrow> 'n current \<Rightarrow> 'n current \<Rightarrow> bool" where
  "Precedes E d a b =
     (if cur_future_id a = cur_future_id b \<and> precedes E (order d) (cur_english a) (cur_english b) \<and>
         precedes E (order d) (cur_hebrew a) (cur_hebrew b) then True
      else Search (precedes E (order d)) (the (get_list (cur_list b) d)) (cur_english a) (cur_hebrew a) (cur_future_id a))"

section \<open>Starting and entering\<close>

text \<open>\<^verbatim>\<open>init_strand\<close> with a null frame: the first frame of the computation.\<close>

definition init_strand_first :: "('n, 'o) tool \<Rightarrow> nat \<Rightarrow> ('n, 'o, 'z) det_scheme \<Rightarrow> ('n, 'o, 'z) det_scheme proc" where
  "init_strand_first E w d = do {
     let d = d\<lparr>self_set := (self_set d)(w := True), t_worker := (t_worker d)(w := Some w)\<rparr>;
     a \<leftarrow> active d w;
     assert_c (Stack_empty (stacks d a));
     d \<leftarrow> push_frame E w d;
     f \<leftarrow> head_of w d;
     let (l, d) = new_list List_empty d;
     let f = f\<lparr>flags := 0, current_english := Some (base_english E), current_hebrew := Some (base_hebrew E),
        cont_english := None, cont_hebrew := None, sync_english := None, sync_hebrew := None,
        current_list := Some l, sync_list := None, f_dag := Some (base_english E), f_future_id := future_id d\<rparr>;
     d \<leftarrow> set_frame 0 f w (d\<lparr>future_id := future_id d + 1, g_deque := Some a\<rparr>);
     d \<leftarrow> grab_memory w d;
     Some (set_current w f d) }"

text \<open>\<^verbatim>\<open>init_strand\<close> with the stolen frame, which is the top frame of the deque of the thief.\<close>

definition init_strand_steal :: "nat \<Rightarrow> ('n, 'o, 'z) det_scheme \<Rightarrow> ('n, 'o, 'z) det_scheme proc" where
  "init_strand_steal w d = do {
     let d = d\<lparr>self_set := (self_set d)(w := True), t_worker := (t_worker d)(w := Some w)\<rparr>;
     f \<leftarrow> head_of w d;
     assert_c (\<not> is_helper f);
     let f = (if steal_cont_english f \<noteq> None
        then f\<lparr>current_english := steal_cont_english f, current_hebrew := steal_cont_hebrew f,
          sync_english := steal_sync_english f, sync_hebrew := steal_sync_hebrew f, current_list := steal_current_list f\<rparr>
        else f\<lparr>current_english := cont_english f, current_hebrew := cont_hebrew f\<rparr>);
     set_frame 0 (f\<lparr>cont_english := None, cont_hebrew := None\<rparr>) w d }"

text \<open>
  \<^verbatim>\<open>do_tool_init\<close> with \<open>p\<close> workers: every pool gets an active deque, and the orders are new. The size of
  a block is an integer quotient. The environment variable \<^verbatim>\<open>HEAVY_THRESHOLD\<close> is taken to be unset, so the orders keep their
  default threshold.
\<close>

definition do_tool_init :: "('n, 'o) tool \<Rightarrow> nat \<Rightarrow> 'o \<Rightarrow> ('n, 'o, 'z) det_scheme \<Rightarrow> ('n, 'o, 'z) det_scheme" where
  "do_tool_init E p od d =
     (if g_tool_init d then d
      else d\<lparr>g_memory := Memory_init p (20000000 * 16 div p),
        stacks := (\<lambda>a. if next_stack d \<le> a \<and> a < next_stack d + p then Stack_new (uninit E) else stacks d a),
        active := (\<lambda>w. if w < p then Some (next_stack d + w) else None), next_stack := next_stack d + p,
        order := od, g_tool_init := True\<rparr>)"

definition do_tool_destroy :: "('n, 'o, 'z) det_scheme \<Rightarrow> ('n, 'o, 'z) det_scheme" where
  "do_tool_destroy d = d\<lparr>g_tool_init := False, g_first_frame := True, active := (\<lambda>_. None)\<rparr>"

definition do_enter_begin :: "('n, 'o) tool \<Rightarrow> nat \<Rightarrow> ('n, 'o, 'z) det_scheme \<Rightarrow> ('n, 'o, 'z) det_scheme proc" where
  "do_enter_begin E w d =
     (if \<not> self_set d w \<or> g_first_frame d then Some d
      else do {
        d \<leftarrow> push_frame E w d;
        p \<leftarrow> ancestor_of 1 w d;
        f \<leftarrow> head_of w d;
        set_frame 0 (f\<lparr>flags := 0, cont_english := None, cont_hebrew := None, sync_english := None, sync_hebrew := None,
          current_english := current_english p, current_hebrew := current_hebrew p, f_dag := f_dag p,
          f_future_id := f_future_id p, current_list := current_list p, sync_list := None\<rparr>) w d })"

text \<open>The result tells whether this is the first frame.\<close>

definition do_enter_end :: "('n, 'o) tool \<Rightarrow> nat \<Rightarrow> ('n, 'o, 'z) det_scheme \<Rightarrow> (bool \<times> ('n, 'o, 'z) det_scheme) proc" where
  "do_enter_end E w d =
     (if batch_id d w \<noteq> -1 then Some (False, d)
      else do {
        a \<leftarrow> active d w;
        if Stack_empty (stacks d a) then do {
          d \<leftarrow> init_strand_first E w (d\<lparr>self_set := (self_set d)(w := True), g_first_frame := False\<rparr>);
          Some (True, d) }
        else Some (False, d) })"

section \<open>Spawning\<close>

text \<open>The first spawn since the last sync makes the strand that will follow the next sync.\<close>

definition begin_spawn_group :: "('n, 'o) tool \<Rightarrow> 'n frame_data \<Rightarrow> ('n, 'o, 'z) det_scheme \<Rightarrow>
    ('n frame_data \<times> ('n, 'o, 'z) det_scheme) proc" where
  "begin_spawn_group E p d =
     (if sync_english p = None then do {
        assert_c (sync_hebrew p = None);
        (se, d) \<leftarrow> insert_e E (current_english p) d;
        (sh, d) \<leftarrow> insert_h E (current_hebrew p) d;
        let (l, d) = new_list List_empty d;
        Some (p\<lparr>sync_english := Some se, sync_hebrew := Some sh, sync_list := Some l, ori_list := current_list p\<rparr>, d) }
      else Some (p, d))"

definition do_detach_begin :: "('n, 'o) tool \<Rightarrow> nat \<Rightarrow> ('n, 'o, 'z) det_scheme \<Rightarrow> ('n, 'o, 'z) det_scheme proc" where
  "do_detach_begin E w d = do {
     d \<leftarrow> push_helper_frame E w d;
     p \<leftarrow> ancestor_of 1 w d;
     f \<leftarrow> head_of w d;
     assert_c (\<not> is_helper p);
     assert_c (is_helper f);
     (p, d) \<leftarrow> begin_spawn_group E p d;
     (fe, d) \<leftarrow> insert_e E (current_english p) d;
     (ce, d) \<leftarrow> insert_e E (Some fe) d;
     (ch, d) \<leftarrow> insert_h E (current_hebrew p) d;
     (fh, d) \<leftarrow> insert_h E (Some ch) d;
     let f = f\<lparr>current_english := Some fe, current_hebrew := Some fh, cont_english := None, cont_hebrew := None,
       sync_english := None, sync_hebrew := None, current_list := current_list p, f_dag := f_dag p,
       f_future_id := f_future_id p, sync_list := None\<rparr>;
     let p = p\<lparr>cont_english := Some ce, cont_hebrew := Some ch, current_english := None, current_hebrew := None,
       steal_cont_english := None, steal_cont_hebrew := None, steal_sync_english := None, steal_sync_hebrew := None,
       steal_current_list := None\<rparr>;
     d \<leftarrow> set_frame 1 p w d;
     d \<leftarrow> set_frame 0 f w d;
     Some (set_current w f d) }"

section \<open>Syncs\<close>

definition do_sync_begin :: "('n, 'o) tool \<Rightarrow> nat \<Rightarrow> ('n, 'o, 'z) det_scheme \<Rightarrow> ('n, 'o, 'z) det_scheme proc" where
  "do_sync_begin E w d = do {
     assert_c (self_set d w);
     f \<leftarrow> head_of w d;
     assert_c (\<not> is_helper f);
     assert_c (current_english f \<noteq> None \<and> current_hebrew f \<noteq> None);
     assert_c (cont_english f = None \<and> cont_hebrew f = None);
     if sync_english f \<noteq> None then do {
       assert_c (sync_hebrew f \<noteq> None);
       d \<leftarrow> set_frame 0 (f\<lparr>current_english := sync_english f, current_hebrew := sync_hebrew f, sync_english := None,
         sync_hebrew := None\<rparr>) w d;
       if current_list f \<noteq> ori_list f then merge_lists E w (sync_list f) (current_list f) d else Some d }
     else do { assert_c (sync_hebrew f = None); Some d } }"

definition do_sync_end :: "nat \<Rightarrow> ('n, 'o, 'z) det_scheme \<Rightarrow> ('n, 'o, 'z) det_scheme proc" where
  "do_sync_end w d = do {
     f \<leftarrow> head_of w d;
     (f, d) \<leftarrow> (case sync_list f of
         None \<Rightarrow> Some (f, d)
       | Some l \<Rightarrow> do {
           h \<leftarrow> lists d l;
           let (f, d) = (if \<not> Empty h then (f\<lparr>current_list := Some l\<rparr>, d) else (f, d\<lparr>lists := (lists d)(l := None)\<rparr>));
           Some (f\<lparr>sync_list := None\<rparr>, d) });
     d \<leftarrow> set_frame 0 f w d;
     Some (set_current w f d) }"

section \<open>Leaving\<close>

definition do_leave_begin :: "nat \<Rightarrow> ('n, 'o, 'z) det_scheme \<Rightarrow> (bool \<times> ('n, 'o, 'z) det_scheme) proc" where
  "do_leave_begin w d = do {
     a \<leftarrow> active d w;
     Some (Stack_empty (stacks d a),
       d\<lparr>called_future := (called_future d)(w := False), self_set := (self_set d)(w := True)\<rparr>) }"

definition do_leave_end :: "('n, 'o) tool \<Rightarrow> nat \<Rightarrow> ('n, 'o, 'z) det_scheme \<Rightarrow> (bool \<times> ('n, 'o, 'z) det_scheme) proc" where
  "do_leave_end E w d = do {
     tw \<leftarrow> t_worker d w;
     if batch_id d tw \<noteq> -1 then Some (False, d)
     else do {
       assert_c (self_set d w);
       child \<leftarrow> head_of w d;
       n \<leftarrow> size_of w d;
       d \<leftarrow> (if 1 < n then do {
           p \<leftarrow> ancestor_of 1 w d;
           d \<leftarrow> (if \<not> is_helper child then do {
               assert_c (cont_english p = None \<and> cont_hebrew p = None);
               set_frame 1 (p\<lparr>current_english := current_english child, current_hebrew := current_hebrew child,
                 current_list := current_list child\<rparr>) w d }
             else do {
               assert_c (current_english p = None \<and> current_hebrew p = None);
               assert_c (cont_english p \<noteq> None \<and> cont_hebrew p \<noteq> None);
               assert_c (sync_english p \<noteq> None \<and> sync_hebrew p \<noteq> None);
               d \<leftarrow> set_frame 1 (p\<lparr>current_english := cont_english p, current_hebrew := cont_hebrew p,
                 cont_english := None, cont_hebrew := None\<rparr>) w d;
               if current_list p \<noteq> current_list child then merge_lists E w (sync_list p) (current_list child) d else Some d });
           pop_shadow_frame E w d }
         else Some d);
       f \<leftarrow> head_of w d;
       n \<leftarrow> size_of w d;
       Some (n = 0, set_current w f d) } }"

text \<open>The parent has been stolen: the child, a spawned one or a full frame that returns, leaves its deque.\<close>

definition do_leave_stolen :: "('n, 'o) tool \<Rightarrow> bool \<Rightarrow> nat \<Rightarrow> ('n, 'o, 'z) det_scheme \<Rightarrow> ('n, 'o, 'z) det_scheme proc" where
  "do_leave_stolen E has_sf w d = do {
     n \<leftarrow> size_of w d;
     if n \<le> 1 \<or> called_future d w then Some d
     else do {
       child \<leftarrow> head_of w d;
       p \<leftarrow> ancestor_of 1 w d;
       d \<leftarrow> (if is_helper child then do {
           assert_c (\<not> is_helper p);
           assert_c (current_english p = None \<and> current_hebrew p = None);
           assert_c (cont_english p \<noteq> None \<and> cont_hebrew p \<noteq> None);
           assert_c (sync_english p \<noteq> None \<and> sync_hebrew p \<noteq> None);
           d \<leftarrow> set_frame 1 (p\<lparr>steal_cont_english := cont_english p, steal_cont_hebrew := cont_hebrew p,
             steal_sync_english := sync_english p, steal_sync_hebrew := sync_hebrew p, steal_current_list := current_list p,
             current_english := sync_english p, current_hebrew := sync_hebrew p, cont_english := None, cont_hebrew := None,
             sync_english := None, sync_hebrew := None\<rparr>) w d;
           if current_list p \<noteq> current_list child then merge_lists E w (sync_list p) (current_list child) d else Some d }
         else do {
           assert_c (\<not> has_sf);
           assert_c (cont_english p = None \<and> cont_hebrew p = None);
           set_frame 1 (p\<lparr>current_english := current_english child, current_hebrew := current_hebrew child,
             current_list := current_list child\<rparr>) w d });
       pop_shadow_frame E w d } }"

section \<open>Steals\<close>

definition new_deque :: "('n, 'o) tool \<Rightarrow> nat \<Rightarrow> ('n, 'o, 'z) det_scheme \<Rightarrow> ('n, 'o, 'z) det_scheme" where
  "new_deque E w d = d\<lparr>stacks := (stacks d)(next_stack d := Stack_new (uninit E)), active := (active d)(w := Some (next_stack d)),
     next_stack := next_stack d + 1\<rparr>"

definition do_steal_success :: "('n, 'o) tool \<Rightarrow> nat \<Rightarrow> nat \<Rightarrow> ('n, 'o, 'z) det_scheme \<Rightarrow> (nat \<times> ('n, 'o, 'z) det_scheme) proc" where
  "do_steal_success E w victim_deque d = do {
     let d = (if active d w = None then new_deque E w d else d);
     a \<leftarrow> active d w;
     let d = d\<lparr>stacks := (stacks d)(a := AStack_reset (shred E) (stacks d a))\<rparr>;
     (v, t) \<leftarrow> AStack_steal_top is_helper (\<lambda>f. f\<lparr>flags := flags f OR FRAME_FULL_MASK\<rparr>) (uninit E) (stacks d victim_deque) (stacks d a);
     d \<leftarrow> init_strand_steal w (d\<lparr>stacks := (stacks d)(victim_deque := v, a := t)\<rparr>);
     Some (a, d) }"

text \<open>The first worker of the team gets the frames of the worker that finished the computation; \<open>pools\<close> is not null.\<close>

definition cilk_return_to_first_frame :: "('n, 'o) tool \<Rightarrow> nat \<Rightarrow> nat \<Rightarrow> ('n, 'o, 'z) det_scheme \<Rightarrow> ('n, 'o, 'z) det_scheme proc" where
  "cilk_return_to_first_frame E w team d =
     (if \<not> g_tool_init d then Some d
      else if w \<noteq> team then do {
        let d = (if active d team = None then new_deque E team d else d);
        a \<leftarrow> active d w;
        b \<leftarrow> active d team;
        t \<leftarrow> AStack_transfer (shred E) (uninit E) (stacks d a) (stacks d b);
        Some (d\<lparr>stacks := (stacks d)(b := t)\<rparr>) }
      else Some d)"

section \<open>Futures\<close>

text \<open>
  The pointer to the parent is taken before the push of the child's frame; a push that moves the stack to a larger array leaves
  it dangling, and the accesses through it afterwards are undefined.
\<close>

definition CilkFutureCreate :: "('n, 'o) tool \<Rightarrow> nat option \<Rightarrow> nat \<Rightarrow> ('n, 'o, 'z) det_scheme \<Rightarrow> ('n, 'o, 'z) det_scheme proc" where
  "CilkFutureCreate E junk w d = do {
     d \<leftarrow> disable_checking w d;
     a \<leftarrow> active d w;
     p \<leftarrow> head_of w d;
     let n = \<lparr>cnode_e = current_english p, cnode_h = current_hebrew p, desc_e = current_english p, desc_h = current_hebrew p,
       dag = f_dag p\<rparr>;
     let moved = (frames (stacks d a) = stack_capacity (stacks d a));
     d \<leftarrow> do_detach_begin E w d;
     f \<leftarrow> head_of w d;
     let f = f\<lparr>f_dag := cnode_e n, f_future_id := future_id d\<rparr>;
     let d = d\<lparr>future_id := future_id d + 1\<rparr>;
     assert_c (\<not> moved);
     p \<leftarrow> ancestor_of 1 w d;
     h \<leftarrow> get_list (current_list f) d;
     (l, d) \<leftarrow> (if \<not> Empty h then new_added_list E w (current_list f) n (f_future_id p) d
       else new_single_list junk w n (f_future_id p) d);
     let f = f\<lparr>current_list := Some l\<rparr>;
     d \<leftarrow> set_frame 0 f w d;
     d \<leftarrow> set_frame 1 (p\<lparr>current_list := Some l\<rparr>) w d;
     c \<leftarrow> current_of d w;
     Some (enable_checking w (new_current w (cur_english c) (cur_hebrew c) (Some l) (f_future_id f) d)) }"

text \<open>The result is the list of the strands before the end of the future. In a batch it returns with the checking disabled.\<close>

definition CilkFutureFinish :: "('n, 'o) tool \<Rightarrow> nat \<Rightarrow> ('n, 'o, 'z) det_scheme \<Rightarrow> (nat option \<times> ('n, 'o, 'z) det_scheme) proc" where
  "CilkFutureFinish E w d = do {
     d \<leftarrow> disable_checking w d;
     tw \<leftarrow> t_worker d w;
     if batch_id d tw \<noteq> -1 then Some (None, d)
     else do {
       let d = d\<lparr>called_future := (called_future d)(w := True)\<rparr>;
       child \<leftarrow> head_of w d;
       p \<leftarrow> ancestor_of 1 w d;
       d \<leftarrow> set_frame 1 (p\<lparr>steal_cont_english := cont_english p, steal_cont_hebrew := cont_hebrew p,
         steal_sync_english := sync_english p, steal_sync_hebrew := sync_hebrew p, steal_current_list := current_list p,
         current_english := cont_english p, current_hebrew := cont_hebrew p, cont_english := None, cont_hebrew := None\<rparr>) w d;
       let n = \<lparr>cnode_e = current_english child, cnode_h = current_hebrew child, desc_e = current_english child,
         desc_h = current_hebrew child, dag = f_dag child\<rparr>;
       (l, d) \<leftarrow> new_added_list E w (current_list child) n (f_future_id child) d;
       d \<leftarrow> pop_shadow_frame E w d;
       f \<leftarrow> head_of w d;
       Some (Some l, enable_checking w (set_current w f d)) } }"

definition CilkSuspend :: "nat \<Rightarrow> ('n, 'o, 'z) det_scheme \<Rightarrow> (nat option \<times> ('n, 'o, 'z) det_scheme) proc" where
  "CilkSuspend w d = do {
     d \<leftarrow> disable_checking w d;
     Some (active d w, enable_checking w (d\<lparr>active := (active d)(w := None)\<rparr>)) }"

definition CilkFutureGet :: "('n, 'o) tool \<Rightarrow> bool \<Rightarrow> nat option \<Rightarrow> nat \<Rightarrow> ('n, 'o, 'z) det_scheme \<Rightarrow>
    (nat option \<times> ('n, 'o, 'z) det_scheme) proc" where
  "CilkFutureGet E suspend l w d = do {
     d \<leftarrow> disable_checking w d;
     (r, d) \<leftarrow> (if suspend then CilkSuspend w d
       else do {
         f \<leftarrow> head_of w d;
         (m, d) \<leftarrow> new_merged_list E w (current_list f) l d;
         d \<leftarrow> set_frame 0 (f\<lparr>current_list := Some m\<rparr>) w d;
         c \<leftarrow> current_of d w;
         Some (None, new_current w (cur_english c) (cur_hebrew c) (Some m) (cur_future_id c) d) });
     Some (r, enable_checking w d) }"

datatype steal_type = kNormal | kResume | kSuspended | kResumable

definition CilkSteal :: "('n, 'o) tool \<Rightarrow> steal_type \<Rightarrow> nat option \<Rightarrow> nat option \<Rightarrow> nat \<Rightarrow> ('n, 'o, 'z) det_scheme \<Rightarrow>
    (nat option \<times> ('n, 'o, 'z) det_scheme) proc" where
  "CilkSteal E ty deque l w d =
     (if (case t_worker d w of None \<Rightarrow> False | Some tw \<Rightarrow> batch_id d tw \<noteq> -1) then Some (None, d)
      else do {
        d \<leftarrow> disable_checking w d;
        d \<leftarrow> grab_memory w d;
        let deque = (if deque = None then g_deque d else deque);
        let d = d\<lparr>self_set := (self_set d)(w := True)\<rparr>;
        (r, d) \<leftarrow> (case ty of
            kResume \<Rightarrow> do {
              let d = d\<lparr>t_worker := (t_worker d)(w := Some w), active := (active d)(w := deque)\<rparr>;
              f \<leftarrow> head_of w d;
              (m, d) \<leftarrow> new_merged_list E w (current_list f) l d;
              d \<leftarrow> set_frame 0 (f\<lparr>current_list := Some m\<rparr>) w d;
              Some (None, d) }
          | _ \<Rightarrow> do {
              v \<leftarrow> deque;
              (a, d) \<leftarrow> do_steal_success E w v d;
              Some (Some a, d) });
        f \<leftarrow> head_of w d;
        Some (r, enable_checking w (enable_checking w (set_current w f d))) })"

end
