(* ===== verification/Shadow_Memory.thy ===== *)
theory Shadow_Memory
  imports Prelude
begin

text \<open>
  The shadow memory of the race detector: \<^verbatim>\<open>rdtool/src/shadow_mem.h\<close> (the two-level directory),
  \<^verbatim>\<open>mem_access.h\<close>, \<^verbatim>\<open>mem_access.cpp\<close> (the record of the accesses to sixteen bytes) and
  \<^verbatim>\<open>check_mem.cpp\<close> (what an access checks and records).

  An accessor, the C pointer \<^verbatim>\<open>Current *\<close>, is a value of a type \<open>'c\<close>; \<open>eng\<close> reads its
  \<^verbatim>\<open>english\<close> field and \<open>prec\<close> is the query \<^verbatim>\<open>Precedes\<close>, both arguments of the
  functions below. A chain of \<^verbatim>\<open>MemAccess_t\<close> is the list of its accessors. The functions return the number of
  calls of \<^verbatim>\<open>report_race\<close>. What other strands do to a slot between an unlocked read and the lock is the argument
  \<open>oth\<close>: the writer, or the readers, they put into the empty slot in between.
\<close>

section \<open>Addresses\<close>

type_synonym addr_t = "64 word"

definition ADDR_TO_KEY :: "addr_t \<Rightarrow> addr_t" where "ADDR_TO_KEY a = drop_bit 4 a"
definition NUM_SLOTS :: nat where "NUM_SLOTS = 4"
definition MAX_GRAIN_MASK :: addr_t where "MAX_GRAIN_MASK = NOT 15"
definition ALIGN_BY_PREV_MAX_GRAIN_SIZE :: "addr_t \<Rightarrow> addr_t" where
  "ALIGN_BY_PREV_MAX_GRAIN_SIZE a = a AND MAX_GRAIN_MASK"
definition ALIGN_BY_NEXT_MAX_GRAIN_SIZE :: "addr_t \<Rightarrow> addr_t" where
  "ALIGN_BY_NEXT_MAX_GRAIN_SIZE a = (a + 15) AND MAX_GRAIN_MASK"
definition ADDR_TO_MEM_INDEX :: "addr_t \<Rightarrow> nat" where
  "ADDR_TO_MEM_INDEX a = unat (drop_bit 2 (a AND 15))"
definition SIZE_TO_NUM_GRAINS :: "nat \<Rightarrow> nat" where "SIZE_TO_NUM_GRAINS s = drop_bit 2 s"

lemma unat_shift: "unat (drop_bit n (a :: addr_t)) = unat a div 2 ^ n"
  by (simp only: unat_drop_bit_eq drop_bit_eq_div [where 'a = nat])

lemma unat_low: "unat (take_bit n (a :: addr_t)) = unat a mod 2 ^ n"
  by (simp only: unsigned_take_bit_eq take_bit_eq_mod [where 'a = nat])

lemma unat_key: "unat (ADDR_TO_KEY a) = unat a div 16"
  by (simp only: ADDR_TO_KEY_def unat_shift) simp

lemma unat_low4: "unat (a AND 15 :: addr_t) = unat a mod 16"
proof -
  have "a AND 15 = take_bit 4 a" by (simp add: take_bit_eq_mask mask_eq_exp_minus_1)
  then have "unat (a AND 15) = unat a mod 2 ^ 4" by (simp only: unat_low)
  then show ?thesis by simp
qed

lemma mem_index: "ADDR_TO_MEM_INDEX a = unat a mod 16 div 4"
  by (simp only: ADDR_TO_MEM_INDEX_def unat_shift unat_low4) simp

lemma num_grains: "SIZE_TO_NUM_GRAINS s = s div 4"
  by (simp add: SIZE_TO_NUM_GRAINS_def drop_bit_eq_div)

lemma mem_index_bound: "ADDR_TO_MEM_INDEX a < NUM_SLOTS"
  by (simp add: mem_index NUM_SLOTS_def)

text \<open>The address aligned downwards is the largest multiple of sixteen that is not above it.\<close>

lemma align_prev: "unat (ALIGN_BY_PREV_MAX_GRAIN_SIZE a) = 16 * (unat a div 16)"
proof -
  have "a AND NOT 15 = a AND NOT (mask 4)" by (simp add: mask_eq_exp_minus_1)
  also have "\<dots> = push_bit 4 (drop_bit 4 a)"
    by (rule bit_eqI) (auto simp: bit_simps not_less)
  finally have eq: "ALIGN_BY_PREV_MAX_GRAIN_SIZE a = push_bit 4 (drop_bit 4 a)"
    unfolding ALIGN_BY_PREV_MAX_GRAIN_SIZE_def MAX_GRAIN_MASK_def .
  have "unat (ALIGN_BY_PREV_MAX_GRAIN_SIZE a) = take_bit 64 (unat a div 2 ^ 4 * 2 ^ 4)"
    by (simp only: eq unsigned_push_bit_eq unat_shift push_bit_eq_mult [where 'a = nat]) simp
  moreover have "unat a div 2 ^ 4 * 2 ^ 4 < (2 ^ 64 :: nat)" using unat_lt64 [of a] by simp
  ultimately show ?thesis by (simp add: take_bit_nat_eq_self)
qed

lemma align_next:
  assumes "unat a + 15 < 2 ^ 64"
  shows "unat (ALIGN_BY_NEXT_MAX_GRAIN_SIZE a) = 16 * ((unat a + 15) div 16)"
proof -
  have "ALIGN_BY_NEXT_MAX_GRAIN_SIZE a = ALIGN_BY_PREV_MAX_GRAIN_SIZE (a + 15)"
    by (simp add: ALIGN_BY_NEXT_MAX_GRAIN_SIZE_def ALIGN_BY_PREV_MAX_GRAIN_SIZE_def)
  moreover have "unat (a + 15) = unat a + 15" using assms by (simp add: unat_word_ariths)
  ultimately show ?thesis by (simp add: align_prev)
qed

section \<open>The directory\<close>

text \<open>
  The directory has \<open>2^(48-20-4)\<close> entries, a table \<open>2^20\<close>. The function beyond the array is not a table of the
  program: an index outside is the stopped process.
\<close>

definition LOG_TBL_SIZE :: nat where "LOG_TBL_SIZE = 20"
definition dir_entries :: nat where "dir_entries = 2 ^ 24"

type_synonym 'v shadow = "nat \<Rightarrow> (nat \<Rightarrow> 'v option) option"

definition empty_shadow :: "'v shadow" where "empty_shadow = (\<lambda>_. None)"

definition dir_index :: "addr_t \<Rightarrow> nat" where "dir_index key = unat (drop_bit LOG_TBL_SIZE key)"
definition tbl_index :: "addr_t \<Rightarrow> nat" where "tbl_index key = unat (key AND (push_bit LOG_TBL_SIZE 1 - 1))"

text \<open>\<^verbatim>\<open>find_slot\<close>: \<open>Some None\<close> is the \<^verbatim>\<open>NULL\<close> it returns when the table is absent and is not to be allocated.\<close>

definition find_slot :: "addr_t \<Rightarrow> bool \<Rightarrow> 'v shadow \<Rightarrow> ((nat \<times> nat) option \<times> 'v shadow) proc" where
  "find_slot key alloc sm = do {
     assert_c (dir_index key < dir_entries);
     case sm (dir_index key) of
       None \<Rightarrow> if \<not> alloc then Some (None, sm)
         else Some (Some (dir_index key, tbl_index key), sm(dir_index key := Some (\<lambda>_. None)))
     | Some _ \<Rightarrow> Some (Some (dir_index key, tbl_index key), sm) }"

definition slot_val :: "'v shadow \<Rightarrow> nat \<times> nat \<Rightarrow> 'v option" where
  "slot_val sm p = (case sm (fst p) of None \<Rightarrow> None | Some t \<Rightarrow> t (snd p))"

definition slot_set :: "nat \<times> nat \<Rightarrow> 'v option \<Rightarrow> 'v shadow \<Rightarrow> 'v shadow" where
  "slot_set p v sm = (case sm (fst p) of None \<Rightarrow> sm | Some t \<Rightarrow> sm(fst p := Some (t(snd p := v))))"

definition shadow_find :: "addr_t \<Rightarrow> 'v shadow \<Rightarrow> 'v option proc" where
  "shadow_find key sm = do {
     (s, sm) \<leftarrow> find_slot key False sm;
     case s of None \<Rightarrow> Some None | Some p \<Rightarrow> Some (slot_val sm p) }"

text \<open>
  \<^verbatim>\<open>insert\<close> returns the entry that is in the slot in the end. \<open>oth\<close> is the entry that another strand
  stores before the compare-and-swap, if any.
\<close>

definition shadow_insert :: "addr_t \<Rightarrow> 'v \<Rightarrow> 'v option \<Rightarrow> 'v shadow \<Rightarrow> ('v \<times> 'v shadow) proc" where
  "shadow_insert key v oth sm = do {
     (s, sm) \<leftarrow> find_slot key True sm;
     case s of None \<Rightarrow> None
     | Some p \<Rightarrow> (case slot_val sm p of
         Some old \<Rightarrow> Some (old, sm)
       | None \<Rightarrow> (case oth of
           Some w \<Rightarrow> Some (w, slot_set p (Some w) sm)
         | None \<Rightarrow> Some (v, slot_set p (Some v) sm))) }"

definition shadow_erase :: "addr_t \<Rightarrow> 'v shadow \<Rightarrow> 'v shadow proc" where
  "shadow_erase key sm = do {
     (s, sm) \<leftarrow> find_slot key False sm;
     case s of None \<Rightarrow> Some sm
     | Some p \<Rightarrow> (case slot_val sm p of None \<Rightarrow> Some sm | Some _ \<Rightarrow> Some (slot_set p None sm)) }"

text \<open>The content of the directory as a map from keys.\<close>

definition shadow_map :: "'v shadow \<Rightarrow> nat \<Rightarrow> 'v option" where
  "shadow_map sm k = slot_val sm (k div 2 ^ LOG_TBL_SIZE, k mod 2 ^ LOG_TBL_SIZE)"

lemma dir_index_nat: "dir_index key = unat key div 2 ^ LOG_TBL_SIZE"
  by (simp only: dir_index_def unat_shift)

lemma tbl_index_nat: "tbl_index key = unat key mod 2 ^ LOG_TBL_SIZE"
proof -
  have "key AND (push_bit LOG_TBL_SIZE 1 - 1) = take_bit LOG_TBL_SIZE key"
    by (simp add: take_bit_eq_mask mask_eq_exp_minus_1 push_bit_eq_mult)
  then show ?thesis by (simp only: tbl_index_def unat_low)
qed

lemma tbl_index_bound: "tbl_index key < 2 ^ LOG_TBL_SIZE"
  by (simp add: tbl_index_nat)

lemma shadow_map_key: "shadow_map sm (unat key) = slot_val sm (dir_index key, tbl_index key)"
  by (simp add: shadow_map_def dir_index_nat tbl_index_nat)

lemma key_split: "(k :: nat) = l \<longleftrightarrow> k div 2 ^ LOG_TBL_SIZE = l div 2 ^ LOG_TBL_SIZE \<and> k mod 2 ^ LOG_TBL_SIZE = l mod 2 ^ LOG_TBL_SIZE"
  by (metis div_mult_mod_eq)

lemma shadow_find_eq: "dir_index key < dir_entries \<Longrightarrow> shadow_find key sm = Some (shadow_map sm (unat key))"
  by (auto simp: shadow_find_def find_slot_def shadow_map_key slot_val_def split: option.split)

lemma shadow_map_alloc: "sm d = None \<Longrightarrow> shadow_map (sm(d := Some (\<lambda>_. None))) = shadow_map sm"
  by (auto simp: shadow_map_def slot_val_def fun_eq_iff)

lemma shadow_map_set:
  "sm (dir_index key) = Some t \<Longrightarrow> shadow_map (slot_set (dir_index key, tbl_index key) v sm) = (shadow_map sm)(unat key := v)"
  by (auto simp: shadow_map_def slot_val_def slot_set_def fun_eq_iff key_split [of _ "unat key"] dir_index_nat tbl_index_nat)

lemma shadow_insert_eq:
  assumes "dir_index key < dir_entries" "shadow_map sm (unat key) = None"
  shows "\<exists>sm' t. shadow_insert key v None sm = Some (v, sm') \<and> shadow_map sm' = (shadow_map sm)(unat key := Some v) \<and>
    sm' (dir_index key) = Some t"
proof (cases "sm (dir_index key)")
  case None
  let ?sm = "sm(dir_index key := Some (\<lambda>_. None))"
  have "shadow_insert key v None sm = Some (v, slot_set (dir_index key, tbl_index key) (Some v) ?sm)"
    using assms(1) None by (simp add: shadow_insert_def find_slot_def slot_val_def)
  then show ?thesis using shadow_map_set [of ?sm key _ "Some v"] shadow_map_alloc [of sm "dir_index key"] None
    by (simp add: slot_set_def)
next
  case (Some t)
  then have "shadow_insert key v None sm = Some (v, slot_set (dir_index key, tbl_index key) (Some v) sm)"
    using assms by (simp add: shadow_insert_def find_slot_def shadow_map_key)
  then show ?thesis using shadow_map_set [of sm key t "Some v"] Some by (simp add: slot_set_def)
qed

lemma shadow_map_dir: "shadow_map sm (unat key) = Some v \<Longrightarrow> \<exists>t. sm (dir_index key) = Some t"
  by (auto simp: shadow_map_key slot_val_def split: option.splits)

lemma empty_shadow_map [simp]: "shadow_map empty_shadow k = None"
  by (simp add: shadow_map_def empty_shadow_def slot_val_def)

section \<open>The accesses to sixteen bytes\<close>

record 'c mem_access_list =
  start_addr :: addr_t
  readers :: "'c list list"
  writers :: "'c option list"

definition fill_slots :: "nat \<Rightarrow> nat \<Rightarrow> 'a \<Rightarrow> 'a list \<Rightarrow> 'a list" where
  "fill_slots start grains v xs = fold (\<lambda>i xs. xs[i := v]) [start..<start + grains] xs"

definition in_slots :: "addr_t \<Rightarrow> nat \<Rightarrow> bool" where
  "in_slots a s \<longleftrightarrow> ADDR_TO_MEM_INDEX a < NUM_SLOTS \<and> ADDR_TO_MEM_INDEX a + SIZE_TO_NUM_GRAINS s \<le> NUM_SLOTS"

definition MemAccessList_new :: "addr_t \<Rightarrow> bool \<Rightarrow> 'c \<Rightarrow> nat \<Rightarrow> 'c mem_access_list proc" where
  "MemAccessList_new addr is_read cur mem_size = do {
     assert_c (in_slots addr mem_size);
     let start = ADDR_TO_MEM_INDEX addr;
     let grains = SIZE_TO_NUM_GRAINS mem_size;
     let l = \<lparr>start_addr = ALIGN_BY_PREV_MAX_GRAIN_SIZE addr,
              readers = replicate NUM_SLOTS [], writers = replicate NUM_SLOTS None\<rparr>;
     Some (if is_read then l\<lparr>readers := fill_slots start grains [cur] (readers l)\<rparr>
           else l\<lparr>writers := fill_slots start grains (Some cur) (writers l)\<rparr>) }"

section \<open>Checking an access\<close>

primrec over_slots :: "(nat \<Rightarrow> 'l \<Rightarrow> nat \<times> 'l) \<Rightarrow> nat list \<Rightarrow> 'l \<Rightarrow> nat \<times> 'l" where
  "over_slots f [] l = (0, l)"
| "over_slots f (i # ks) l = (let (n, l) = f i l; (m, l) = over_slots f ks l in (n + m, l))"

text \<open>A write looks at the last writer of each grain first and takes its place.\<close>

definition check_writer :: "('c \<Rightarrow> 'c \<Rightarrow> bool) \<Rightarrow> ('c \<Rightarrow> 'n) \<Rightarrow> 'c \<Rightarrow> 'c \<Rightarrow> nat" where
  "check_writer prec eng cur w = (if eng w \<noteq> eng cur \<and> \<not> prec w cur then 1 else 0)"

definition write_slot :: "('c \<Rightarrow> 'c \<Rightarrow> bool) \<Rightarrow> ('c \<Rightarrow> 'n) \<Rightarrow> 'c \<Rightarrow> (nat \<Rightarrow> 'c option) \<Rightarrow> nat \<Rightarrow> 'c mem_access_list \<Rightarrow>
    nat \<times> 'c mem_access_list" where
  "write_slot prec eng cur oth i l =
     (let l' = l\<lparr>writers := (writers l)[i := Some cur]\<rparr> in
      case writers l ! i of
        Some w \<Rightarrow> (check_writer prec eng cur w, l')
      | None \<Rightarrow> (case oth i of None \<Rightarrow> (0, l') | Some w \<Rightarrow> (check_writer prec eng cur w, l')))"

text \<open>Then it compares itself with all readers and drops them.\<close>

definition clear_readers :: "('c \<Rightarrow> 'c \<Rightarrow> bool) \<Rightarrow> 'c \<Rightarrow> nat \<Rightarrow> 'c mem_access_list \<Rightarrow> nat \<times> 'c mem_access_list" where
  "clear_readers prec cur i l =
     (length (filter (\<lambda>r. \<not> prec r cur) (readers l ! i)), l\<lparr>readers := (readers l)[i := []]\<rparr>)"

definition handle_write :: "('c \<Rightarrow> 'c \<Rightarrow> bool) \<Rightarrow> ('c \<Rightarrow> 'n) \<Rightarrow> 'c \<Rightarrow> (nat \<Rightarrow> 'c option) \<Rightarrow> addr_t \<Rightarrow> nat \<Rightarrow>
    'c mem_access_list \<Rightarrow> (nat \<times> 'c mem_access_list) proc" where
  "handle_write prec eng cur oth addr mem_size l = do {
     assert_c (in_slots addr mem_size);
     let ks = [ADDR_TO_MEM_INDEX addr..<ADDR_TO_MEM_INDEX addr + SIZE_TO_NUM_GRAINS mem_size];
     let (n, l) = over_slots (write_slot prec eng cur oth) ks l;
     let (m, l) = over_slots (clear_readers prec cur) ks l;
     Some (n + m, l) }"

definition read_slot :: "('c \<Rightarrow> 'c \<Rightarrow> bool) \<Rightarrow> 'c \<Rightarrow> nat \<Rightarrow> 'c mem_access_list \<Rightarrow> nat \<times> 'c mem_access_list" where
  "read_slot prec cur i l =
     (case writers l ! i of None \<Rightarrow> (0, l) | Some w \<Rightarrow> (if \<not> prec w cur then 1 else 0, l))"

definition add_reader :: "'c \<Rightarrow> (nat \<Rightarrow> 'c list) \<Rightarrow> nat \<Rightarrow> 'c mem_access_list \<Rightarrow> nat \<times> 'c mem_access_list" where
  "add_reader cur oth i l =
     (0, l\<lparr>readers := (readers l)[i := (case readers l ! i of
        [] \<Rightarrow> cur # oth i
      | r # rs \<Rightarrow> if cur \<in> set (r # rs) then r # rs else cur # r # rs)]\<rparr>)"

definition handle_read :: "('c \<Rightarrow> 'c \<Rightarrow> bool) \<Rightarrow> 'c \<Rightarrow> (nat \<Rightarrow> 'c list) \<Rightarrow> addr_t \<Rightarrow> nat \<Rightarrow>
    'c mem_access_list \<Rightarrow> (nat \<times> 'c mem_access_list) proc" where
  "handle_read prec cur oth addr mem_size l = do {
     assert_c (in_slots addr mem_size);
     let ks = [ADDR_TO_MEM_INDEX addr..<ADDR_TO_MEM_INDEX addr + SIZE_TO_NUM_GRAINS mem_size];
     let (n, l) = over_slots (read_slot prec cur) ks l;
     let (m, l) = over_slots (add_reader cur oth) ks l;
     Some (n + m, l) }"

text \<open>
  What other strands do during one access: the list one of them installs for the same key, the writers and the readers
  they put into empty slots.
\<close>

record 'c others =
  oth_list :: "'c mem_access_list option"
  oth_writers :: "nat \<Rightarrow> 'c option"
  oth_readers :: "nat \<Rightarrow> 'c list"

definition nobody :: "'c others" where
  "nobody = \<lparr>oth_list = None, oth_writers = (\<lambda>_. None), oth_readers = (\<lambda>_. [])\<rparr>"

definition check_access :: "('c \<Rightarrow> 'c \<Rightarrow> bool) \<Rightarrow> ('c \<Rightarrow> 'n) \<Rightarrow> 'c others \<Rightarrow> bool \<Rightarrow> 'c \<Rightarrow> addr_t \<Rightarrow> nat \<Rightarrow>
    'c mem_access_list shadow \<Rightarrow> (nat \<times> 'c mem_access_list shadow) proc" where
  "check_access prec eng oth is_read cur addr mem_size sm = do {
     let key = ADDR_TO_KEY addr;
     slot \<leftarrow> shadow_find key sm;
     (done, l, sm) \<leftarrow> (case slot of
         Some l \<Rightarrow> Some (False, l, sm)
       | None \<Rightarrow> do {
           new \<leftarrow> MemAccessList_new addr is_read cur mem_size;
           (l, sm) \<leftarrow> shadow_insert key new (oth_list oth) sm;
           Some (oth_list oth = None, l, sm) });
     if done then Some (0, sm)
     else do {
       (n, l) \<leftarrow> (if is_read then handle_read prec cur (oth_readers oth) addr mem_size l
                  else handle_write prec eng cur (oth_writers oth) addr mem_size l);
       Some (n, slot_set (dir_index key, tbl_index key) (Some l) sm) } }"

section \<open>What an access does to each grain\<close>

text \<open>
  A grain is four bytes, numbered by its address over four. Its record is the last writer and the readers since.
\<close>

type_synonym 'c grain = "'c option \<times> 'c list"

definition grain_of :: "'c mem_access_list option \<Rightarrow> nat \<Rightarrow> 'c grain" where
  "grain_of l i = (case l of None \<Rightarrow> (None, []) | Some l \<Rightarrow> (writers l ! i, readers l ! i))"

definition grain_at :: "'c mem_access_list shadow \<Rightarrow> nat \<Rightarrow> 'c grain" where
  "grain_at sm g = grain_of (shadow_map sm (g div 4)) (g mod 4)"

definition grain_write :: "('c \<Rightarrow> 'c \<Rightarrow> bool) \<Rightarrow> ('c \<Rightarrow> 'n) \<Rightarrow> 'c \<Rightarrow> 'c grain \<Rightarrow> nat \<times> 'c grain" where
  "grain_write prec eng cur g =
     ((case fst g of None \<Rightarrow> 0 | Some w \<Rightarrow> check_writer prec eng cur w) + length (filter (\<lambda>r. \<not> prec r cur) (snd g)),
      (Some cur, []))"

definition grain_read :: "('c \<Rightarrow> 'c \<Rightarrow> bool) \<Rightarrow> 'c \<Rightarrow> 'c grain \<Rightarrow> nat \<times> 'c grain" where
  "grain_read prec cur g =
     ((case fst g of None \<Rightarrow> 0 | Some w \<Rightarrow> if \<not> prec w cur then 1 else 0),
      (fst g, if cur \<in> set (snd g) then snd g else cur # snd g))"

definition grain_step :: "('c \<Rightarrow> 'c \<Rightarrow> bool) \<Rightarrow> ('c \<Rightarrow> 'n) \<Rightarrow> bool \<Rightarrow> 'c \<Rightarrow> 'c grain \<Rightarrow> nat \<times> 'c grain" where
  "grain_step prec eng is_read cur g = (if is_read then grain_read prec cur g else grain_write prec eng cur g)"

definition list_ok :: "'c mem_access_list \<Rightarrow> bool" where
  "list_ok l \<longleftrightarrow> length (readers l) = NUM_SLOTS \<and> length (writers l) = NUM_SLOTS"

definition slots :: "addr_t \<Rightarrow> nat \<Rightarrow> nat list" where
  "slots a s = [ADDR_TO_MEM_INDEX a..<ADDR_TO_MEM_INDEX a + SIZE_TO_NUM_GRAINS s]"

lemma over_slots_pointwise:
  assumes "\<And>i l. i < k \<Longrightarrow> ok l \<Longrightarrow> fst (f i l) = cnt i (v l i) \<and> ok (snd (f i l)) \<and>
      (\<forall>j<k. v (snd (f i l)) j = (if j = i then upd i (v l i) else v l j))"
  shows "ok l \<Longrightarrow> set ks \<subseteq> {..<k} \<Longrightarrow> distinct ks \<Longrightarrow>
     fst (over_slots f ks l) = (\<Sum>i\<leftarrow>ks. cnt i (v l i)) \<and> ok (snd (over_slots f ks l)) \<and>
     (\<forall>j<k. v (snd (over_slots f ks l)) j = (if j \<in> set ks then upd j (v l j) else v l j))"
proof (induction ks arbitrary: l)
  case (Cons i ks)
  let ?l = "snd (f i l)"
  have i: "i < k" "fst (f i l) = cnt i (v l i)" "ok ?l" "\<forall>j<k. v ?l j = (if j = i then upd i (v l i) else v l j)"
    using assms [of i l] Cons.prems by auto
  have IH: "fst (over_slots f ks ?l) = (\<Sum>i\<leftarrow>ks. cnt i (v ?l i))" "ok (snd (over_slots f ks ?l))"
    "\<forall>j<k. v (snd (over_slots f ks ?l)) j = (if j \<in> set ks then upd j (v ?l j) else v ?l j)"
    using Cons.IH [OF i(3)] Cons.prems by auto
  have "(\<Sum>i\<leftarrow>ks. cnt i (v ?l i)) = (\<Sum>i\<leftarrow>ks. cnt i (v l i))"
    using i(4) Cons.prems by (intro arg_cong [where f = sum_list] map_cong) auto
  then show ?case using i IH Cons.prems(3) by (auto simp: split_def Let_def)
qed simp

lemma slots_ok: "in_slots a s \<Longrightarrow> set (slots a s) \<subseteq> {..<NUM_SLOTS} \<and> distinct (slots a s)"
  by (auto simp: slots_def in_slots_def)

lemma handle_write_spec:
  assumes "in_slots a s" "list_ok l"
  shows "\<exists>l'. handle_write prec eng cur (\<lambda>_. None) a s l =
      Some (\<Sum>i\<leftarrow>slots a s. fst (grain_write prec eng cur (grain_of (Some l) i)), l') \<and> list_ok l' \<and>
    (\<forall>i<NUM_SLOTS. grain_of (Some l') i =
      (if i \<in> set (slots a s) then snd (grain_write prec eng cur (grain_of (Some l) i)) else grain_of (Some l) i))"
proof -
  note ok = slots_ok [OF assms(1)]
  let ?f = "write_slot prec eng cur (\<lambda>_. None)" and ?g = "clear_readers prec cur"
  let ?cw = "\<lambda>i g. case fst g of None \<Rightarrow> 0 | Some w \<Rightarrow> check_writer prec eng cur w"
  let ?cr = "\<lambda>i (g :: 'a grain). length (filter (\<lambda>r. \<not> prec r cur) (snd g))"
  let ?l1 = "snd (over_slots ?f (slots a s) l)" and ?v = "\<lambda>l. grain_of (Some l)"
  have 1: "fst (over_slots ?f (slots a s) l) = (\<Sum>i\<leftarrow>slots a s. ?cw i (?v l i))" "list_ok ?l1"
    "\<forall>j<NUM_SLOTS. ?v ?l1 j = (if j \<in> set (slots a s) then (Some cur, snd (?v l j)) else ?v l j)"
    using over_slots_pointwise [where k = NUM_SLOTS and ok = list_ok and v = ?v and cnt = ?cw and f = ?f
        and upd = "\<lambda>i g. (Some cur, snd g)" and l = l and ks = "slots a s"] assms(2) ok
    by (auto simp: write_slot_def grain_of_def list_ok_def Let_def nth_list_update split: option.splits)
  have 2: "fst (over_slots ?g (slots a s) ?l1) = (\<Sum>i\<leftarrow>slots a s. ?cr i (?v ?l1 i))"
    "list_ok (snd (over_slots ?g (slots a s) ?l1))"
    "\<forall>j<NUM_SLOTS. ?v (snd (over_slots ?g (slots a s) ?l1)) j = (if j \<in> set (slots a s) then (fst (?v ?l1 j), []) else ?v ?l1 j)"
    using over_slots_pointwise [where k = NUM_SLOTS and ok = list_ok and v = ?v and cnt = ?cr and f = ?g
        and upd = "\<lambda>i g. (fst g, [])" and l = ?l1 and ks = "slots a s"] 1(2) ok
    by (auto simp: clear_readers_def grain_of_def list_ok_def nth_list_update)
  have "(\<Sum>i\<leftarrow>slots a s. ?cr i (?v ?l1 i)) = (\<Sum>i\<leftarrow>slots a s. ?cr i (?v l i))"
    using 1(3) ok by (intro arg_cong [where f = sum_list] map_cong) auto
  then have "fst (over_slots ?f (slots a s) l) + fst (over_slots ?g (slots a s) ?l1) =
      (\<Sum>i\<leftarrow>slots a s. fst (grain_write prec eng cur (?v l i)))"
    by (simp add: 1(1) 2(1) grain_write_def sum_list_addf)
  moreover have "handle_write prec eng cur (\<lambda>_. None) a s l =
      Some (fst (over_slots ?f (slots a s) l) + fst (over_slots ?g (slots a s) ?l1), snd (over_slots ?g (slots a s) ?l1))"
    using assms(1) by (simp add: handle_write_def slots_def [symmetric] split_def Let_def)
  ultimately show ?thesis using 2(2,3) 1(3) by (auto simp: grain_write_def)
qed

lemma handle_read_spec:
  assumes "in_slots a s" "list_ok l"
  shows "\<exists>l'. handle_read prec cur (\<lambda>_. []) a s l =
      Some (\<Sum>i\<leftarrow>slots a s. fst (grain_read prec cur (grain_of (Some l) i)), l') \<and> list_ok l' \<and>
    (\<forall>i<NUM_SLOTS. grain_of (Some l') i =
      (if i \<in> set (slots a s) then snd (grain_read prec cur (grain_of (Some l) i)) else grain_of (Some l) i))"
proof -
  note ok = slots_ok [OF assms(1)]
  let ?f = "read_slot prec cur" and ?g = "add_reader cur (\<lambda>_. [])" and ?v = "\<lambda>l. grain_of (Some l)"
  let ?cw = "\<lambda>i (g :: 'a grain). fst (grain_read prec cur g)" and ?l1 = "snd (over_slots (read_slot prec cur) (slots a s) l)"
  have 1: "fst (over_slots ?f (slots a s) l) = (\<Sum>i\<leftarrow>slots a s. ?cw i (?v l i))" "list_ok ?l1"
    "\<forall>j<NUM_SLOTS. ?v ?l1 j = ?v l j"
    using over_slots_pointwise [where k = NUM_SLOTS and ok = list_ok and v = ?v and cnt = ?cw and f = ?f
        and upd = "\<lambda>i g. g" and l = l and ks = "slots a s"] assms(2) ok
    by (auto simp: read_slot_def grain_of_def list_ok_def grain_read_def split: option.splits)
  have 2: "fst (over_slots ?g (slots a s) ?l1) = 0"
    "list_ok (snd (over_slots ?g (slots a s) ?l1))"
    "\<forall>j<NUM_SLOTS. ?v (snd (over_slots ?g (slots a s) ?l1)) j = (if j \<in> set (slots a s) then snd (grain_read prec cur (?v ?l1 j)) else ?v ?l1 j)"
    using over_slots_pointwise [where k = NUM_SLOTS and ok = list_ok and v = ?v and cnt = "\<lambda>i g. 0" and f = ?g
        and upd = "\<lambda>i g. snd (grain_read prec cur g)" and l = ?l1 and ks = "slots a s"] 1(2) ok
    by (auto simp: add_reader_def grain_of_def list_ok_def grain_read_def nth_list_update split: list.splits)
  have "handle_read prec cur (\<lambda>_. []) a s l =
      Some (fst (over_slots ?f (slots a s) l) + fst (over_slots ?g (slots a s) ?l1), snd (over_slots ?g (slots a s) ?l1))"
    using assms(1) by (simp add: handle_read_def slots_def [symmetric] split_def Let_def)
  then show ?thesis using 1 2 by auto
qed

section \<open>Whole accesses\<close>

definition touches :: "addr_t \<Rightarrow> nat \<Rightarrow> nat \<Rightarrow> bool" where
  "touches a s g \<longleftrightarrow> unat a div 4 \<le> g \<and> g < unat a div 4 + s div 4"

definition grains :: "addr_t \<Rightarrow> nat \<Rightarrow> nat list" where
  "grains a s = map (\<lambda>i. 4 * (unat a div 16) + i) (slots a s)"

definition shadow_ok :: "'c mem_access_list shadow \<Rightarrow> bool" where
  "shadow_ok sm \<longleftrightarrow> (\<forall>k l. shadow_map sm k = Some l \<longrightarrow> list_ok l)"

lemma addr_grain: "unat (a :: addr_t) div 4 = 4 * (unat a div 16) + ADDR_TO_MEM_INDEX a"
  by (simp add: mem_index) presburger

lemma touches_grains: "in_slots a s \<Longrightarrow> touches a s g \<longleftrightarrow> g \<in> set (grains a s)"
  by (auto simp: touches_def grains_def slots_def addr_grain num_grains image_iff)

lemma in_grains: "in_slots a s \<Longrightarrow> g \<in> set (grains a s) \<longleftrightarrow> g div 4 = unat a div 16 \<and> g mod 4 \<in> set (slots a s)"
proof -
  assume a: "in_slots a s"
  have s: "i \<in> set (slots a s) \<Longrightarrow> i < 4" for i using slots_ok [OF a] by (auto simp: NUM_SLOTS_def)
  show ?thesis
  proof
    assume "g \<in> set (grains a s)"
    then obtain i where "i \<in> set (slots a s)" "g = 4 * (unat a div 16) + i" by (auto simp: grains_def)
    then show "g div 4 = unat a div 16 \<and> g mod 4 \<in> set (slots a s)" using s [of i] by simp
  next
    assume g: "g div 4 = unat a div 16 \<and> g mod 4 \<in> set (slots a s)"
    have "g = 4 * (g div 4) + g mod 4" by simp
    then show "g \<in> set (grains a s)" using g by (auto simp: grains_def image_iff)
  qed
qed

lemma fill_slots_spec:
  "start + n \<le> length xs \<Longrightarrow> length (fill_slots start n v xs) = length xs \<and>
    (\<forall>j<length xs. fill_slots start n v xs ! j = (if start \<le> j \<and> j < start + n then v else xs ! j))"
proof (induction n)
  case (Suc n)
  then have "fill_slots start (Suc n) v xs = (fill_slots start n v xs)[start + n := v]" by (simp add: fill_slots_def)
  then show ?case using Suc by (auto simp: nth_list_update)
qed (auto simp: fill_slots_def)

lemma new_list_spec:
  assumes "in_slots a s"
  shows "\<exists>l. MemAccessList_new a rd cur s = Some l \<and> list_ok l \<and>
    (\<forall>i<NUM_SLOTS. grain_of (Some l) i =
      (if i \<in> set (slots a s) then snd (grain_step prec eng rd cur (None, [])) else (None, [])))"
proof -
  have "ADDR_TO_MEM_INDEX a + SIZE_TO_NUM_GRAINS s \<le> NUM_SLOTS" using assms by (simp add: in_slots_def)
  then show ?thesis using assms
      fill_slots_spec [of "ADDR_TO_MEM_INDEX a" "SIZE_TO_NUM_GRAINS s" "replicate NUM_SLOTS []" "[cur]"]
      fill_slots_spec [of "ADDR_TO_MEM_INDEX a" "SIZE_TO_NUM_GRAINS s" "replicate NUM_SLOTS None" "Some cur"]
    by (auto simp: MemAccessList_new_def Let_def list_ok_def grain_of_def slots_def grain_step_def grain_read_def grain_write_def)
qed

text \<open>An access is well placed when its address is below \<open>2^48\<close> and its grains are in one block of sixteen bytes.\<close>

definition acc_fits :: "addr_t \<Rightarrow> nat \<Rightarrow> bool" where
  "acc_fits a s \<longleftrightarrow> unat a < 2 ^ 48 \<and> in_slots a s"

lemma fits_dir: "unat a < 2 ^ 48 \<Longrightarrow> dir_index (ADDR_TO_KEY a) < dir_entries"
  by (simp add: dir_index_nat unat_key LOG_TBL_SIZE_def dir_entries_def)

lemma handle_spec:
  assumes "in_slots a s" "list_ok l"
  shows "\<exists>l'. (if rd then handle_read prec cur (oth_readers nobody) a s l
               else handle_write prec eng cur (oth_writers nobody) a s l) =
      Some (\<Sum>i\<leftarrow>slots a s. fst (grain_step prec eng rd cur (grain_of (Some l) i)), l') \<and> list_ok l' \<and>
    (\<forall>i<NUM_SLOTS. grain_of (Some l') i =
      (if i \<in> set (slots a s) then snd (grain_step prec eng rd cur (grain_of (Some l) i)) else grain_of (Some l) i))"
proof (cases rd)
  case True
  then show ?thesis using handle_read_spec [OF assms, of prec cur] by (simp add: nobody_def grain_step_def if_True cong: if_cong)
next
  case False
  then show ?thesis using handle_write_spec [OF assms, of prec eng cur] by (simp add: nobody_def grain_step_def cong: if_cong)
qed

lemma check_access_spec:
  assumes "acc_fits a s" "shadow_ok sm"
  shows "\<exists>sm'. check_access prec eng nobody rd cur a s sm =
      Some (\<Sum>g\<leftarrow>grains a s. fst (grain_step prec eng rd cur (grain_at sm g)), sm') \<and> shadow_ok sm' \<and>
    (\<forall>g. grain_at sm' g = (if touches a s g then snd (grain_step prec eng rd cur (grain_at sm g)) else grain_at sm g))"
proof -
  let ?k = "ADDR_TO_KEY a" and ?G = "grain_step prec eng rd cur"
  have d: "dir_index ?k < dir_entries" and i: "in_slots a s" using assms(1) fits_dir by (auto simp: acc_fits_def)
  have g4: "i \<in> set (slots a s) \<Longrightarrow> i < 4" for i using slots_ok [OF i] by (auto simp: NUM_SLOTS_def)
  have at: "i \<in> set (slots a s) \<Longrightarrow> grain_at sm (4 * (unat a div 16) + i) = grain_of (shadow_map sm (unat ?k)) i" for i
    using g4 by (auto simp: grain_at_def unat_key)
  have upd: "\<forall>g. grain_at sm' g = (if touches a s g then snd (?G (grain_at sm g)) else grain_at sm g)"
    if m: "shadow_map sm' = (shadow_map sm)(unat ?k := Some l')"
      and l': "\<forall>i<NUM_SLOTS. grain_of (Some l') i = (if i \<in> set (slots a s) then snd (?G (grain_of (shadow_map sm (unat ?k)) i))
         else grain_of (shadow_map sm (unat ?k)) i)" for sm' l'
  proof
    fix g
    show "grain_at sm' g = (if touches a s g then snd (?G (grain_at sm g)) else grain_at sm g)"
    proof (cases "g div 4 = unat ?k")
      case True
      have "g mod 4 < NUM_SLOTS" by (simp add: NUM_SLOTS_def)
      then have "grain_of (Some l') (g mod 4) = (if g mod 4 \<in> set (slots a s) then snd (?G (grain_at sm g)) else grain_at sm g)"
        using l' True by (simp add: grain_at_def)
      moreover have "touches a s g \<longleftrightarrow> g mod 4 \<in> set (slots a s)"
        using True by (simp add: touches_grains [OF i] in_grains [OF i] unat_key)
      ultimately show ?thesis using True m by (simp add: grain_at_def)
    next
      case False
      then have "\<not> touches a s g" by (simp add: touches_grains [OF i] in_grains [OF i] unat_key)
      then show ?thesis using False m by (simp add: grain_at_def)
    qed
  qed
  have ok: "shadow_ok sm'" if "shadow_map sm' = (shadow_map sm)(unat ?k := Some l')" "list_ok l'" for sm' l'
    using that assms(2) by (simp add: shadow_ok_def)
  show ?thesis
  proof (cases "shadow_map sm (unat ?k)")
    case None
    obtain l where l: "MemAccessList_new a rd cur s = Some l" "list_ok l" "\<forall>i<NUM_SLOTS. grain_of (Some l) i =
      (if i \<in> set (slots a s) then snd (?G (None, [])) else (None, []))" using new_list_spec [OF i, of rd cur prec eng] by blast
    obtain sm' where sm': "shadow_insert ?k l None sm = Some (l, sm')" "shadow_map sm' = (shadow_map sm)(unat ?k := Some l)"
      using shadow_insert_eq [OF d None] by blast
    have "check_access prec eng nobody rd cur a s sm = Some (0, sm')"
      using None l(1) sm'(1) d by (simp add: check_access_def shadow_find_eq nobody_def Let_def)
    moreover have "(\<Sum>g\<leftarrow>grains a s. fst (?G (grain_at sm g))) = 0"
      using at None by (auto simp: grains_def o_def grain_of_def grain_step_def grain_read_def grain_write_def)
    ultimately show ?thesis using upd [OF sm'(2)] l(3) ok [OF sm'(2) l(2)] None by (auto simp: grain_of_def)
  next
    case (Some l)
    then have "list_ok l" using assms(2) by (simp add: shadow_ok_def)
    from handle_spec [OF i this, of rd prec cur eng] obtain l' where l':
      "(if rd then handle_read prec cur (oth_readers nobody) a s l else handle_write prec eng cur (oth_writers nobody) a s l) =
        Some (\<Sum>i\<leftarrow>slots a s. fst (?G (grain_of (Some l) i)), l')" "list_ok l'"
      "\<forall>i<NUM_SLOTS. grain_of (Some l') i = (if i \<in> set (slots a s) then snd (?G (grain_of (Some l) i)) else grain_of (Some l) i)"
      by blast
    obtain t where t: "sm (dir_index ?k) = Some t" using shadow_map_dir [OF Some] by blast
    note sm' = shadow_map_set [of sm ?k t "Some l'", OF t]
    have "check_access prec eng nobody rd cur a s sm = Some (\<Sum>i\<leftarrow>slots a s. fst (?G (grain_of (Some l) i)),
        slot_set (dir_index ?k, tbl_index ?k) (Some l') sm)"
      using Some d l'(1) by (simp add: check_access_def shadow_find_eq Let_def)
    moreover have "(\<Sum>g\<leftarrow>grains a s. fst (?G (grain_at sm g))) = (\<Sum>i\<leftarrow>slots a s. fst (?G (grain_of (Some l) i)))"
      using at Some by (auto simp: grains_def o_def intro!: arg_cong [where f = sum_list] map_cong)
    ultimately show ?thesis using upd [OF sm'] l'(3) ok [OF sm' l'(2)] Some by auto
  qed
qed

section \<open>A run of accesses\<close>

record 'c access =
  is_read :: bool
  accessor :: 'c
  acc_addr :: addr_t
  acc_size :: nat

fun run_accesses :: "('c \<Rightarrow> 'c \<Rightarrow> bool) \<Rightarrow> ('c \<Rightarrow> 'n) \<Rightarrow> 'c access list \<Rightarrow> 'c mem_access_list shadow \<Rightarrow>
    (nat \<times> 'c mem_access_list shadow) proc" where
  "run_accesses prec eng [] sm = Some (0, sm)"
| "run_accesses prec eng (x # xs) sm = do {
     (n, sm) \<leftarrow> check_access prec eng nobody (is_read x) (accessor x) (acc_addr x) (acc_size x) sm;
     (m, sm) \<leftarrow> run_accesses prec eng xs sm;
     Some (n + m, sm) }"

text \<open>The order that the detector enforces on two accesses to the same grain.\<close>

definition ordered :: "('c \<Rightarrow> 'c \<Rightarrow> bool) \<Rightarrow> ('c \<Rightarrow> 'n) \<Rightarrow> 'c access \<Rightarrow> 'c access \<Rightarrow> bool" where
  "ordered prec eng x y \<longleftrightarrow> is_read x \<and> is_read y \<or> prec (accessor x) (accessor y) \<or>
     \<not> is_read x \<and> \<not> is_read y \<and> eng (accessor x) = eng (accessor y)"

definition race_between :: "('c \<Rightarrow> 'c \<Rightarrow> bool) \<Rightarrow> ('c \<Rightarrow> 'n) \<Rightarrow> 'c access \<Rightarrow> 'c access \<Rightarrow> bool" where
  "race_between prec eng x y \<longleftrightarrow> \<not> ordered prec eng x y \<and>
     (\<exists>g. touches (acc_addr x) (acc_size x) g \<and> touches (acc_addr y) (acc_size y) g)"

fun grain_run :: "('c \<Rightarrow> 'c \<Rightarrow> bool) \<Rightarrow> ('c \<Rightarrow> 'n) \<Rightarrow> 'c access list \<Rightarrow> 'c grain \<Rightarrow> nat \<times> 'c grain" where
  "grain_run prec eng [] g = (0, g)"
| "grain_run prec eng (x # xs) g = (let (n, g) = grain_step prec eng (is_read x) (accessor x) g;
     (m, g) = grain_run prec eng xs g in (n + m, g))"

abbreviation on_grain :: "nat \<Rightarrow> 'c access list \<Rightarrow> 'c access list" where
  "on_grain g \<equiv> filter (\<lambda>x. touches (acc_addr x) (acc_size x) g)"

lemma run_accesses_grains:
  assumes "\<forall>x\<in>set xs. acc_fits (acc_addr x) (acc_size x)" "shadow_ok sm"
  shows "\<exists>n sm'. run_accesses prec eng xs sm = Some (n, sm') \<and> shadow_ok sm' \<and>
    (n = 0 \<longleftrightarrow> (\<forall>g. fst (grain_run prec eng (on_grain g xs) (grain_at sm g)) = 0))"
  using assms
proof (induction xs arbitrary: sm)
  case (Cons x xs)
  let ?a = "acc_addr x" and ?s = "acc_size x" and ?G = "grain_step prec eng (is_read x) (accessor x)"
  have fit: "acc_fits ?a ?s" using Cons.prems by simp
  then have i: "in_slots ?a ?s" by (simp add: acc_fits_def)
  from check_access_spec [OF fit Cons.prems(2), of prec eng "is_read x" "accessor x"] obtain sm1 where sm1:
    "check_access prec eng nobody (is_read x) (accessor x) ?a ?s sm = Some (\<Sum>g\<leftarrow>grains ?a ?s. fst (?G (grain_at sm g)), sm1)"
    "shadow_ok sm1" "\<forall>g. grain_at sm1 g = (if touches ?a ?s g then snd (?G (grain_at sm g)) else grain_at sm g)" by blast
  from Cons.IH [OF _ sm1(2)] Cons.prems obtain m sm2 where m: "run_accesses prec eng xs sm1 = Some (m, sm2)" "shadow_ok sm2"
    "m = 0 \<longleftrightarrow> (\<forall>g. fst (grain_run prec eng (on_grain g xs) (grain_at sm1 g)) = 0)" by auto
  have "(\<Sum>g\<leftarrow>grains ?a ?s. fst (?G (grain_at sm g))) = 0 \<longleftrightarrow> (\<forall>g. touches ?a ?s g \<longrightarrow> fst (?G (grain_at sm g)) = 0)"
    by (auto simp: sum_list_eq_0_iff touches_grains [OF i])
  then have "((\<Sum>g\<leftarrow>grains ?a ?s. fst (?G (grain_at sm g))) = 0 \<and> m = 0) \<longleftrightarrow>
      (\<forall>g. fst (grain_run prec eng (on_grain g (x # xs)) (grain_at sm g)) = 0)"
    using m(3) sm1(3) by (auto simp: split_def Let_def)
  then show ?case using sm1(1) m(1,2) by simp
qed simp

lemma grain_run_snoc:
  "grain_run prec eng (xs @ [x]) g = (let (n, g) = grain_run prec eng xs g;
     (m, g) = grain_step prec eng (is_read x) (accessor x) g in (n + m, g))"
  by (induction xs arbitrary: g) (auto simp: split_def Let_def)

text \<open>The record of a grain when nothing has been reported on it: every earlier access is covered by what the record keeps.\<close>

definition covered :: "('c \<Rightarrow> 'c \<Rightarrow> bool) \<Rightarrow> ('c \<Rightarrow> 'n) \<Rightarrow> 'c access list \<Rightarrow> 'c grain \<Rightarrow> bool" where
  "covered prec eng h g \<longleftrightarrow>
     (\<forall>x\<in>set h. if is_read x then accessor x \<in> set (snd g) \<or> (\<exists>w. fst g = Some w \<and> prec (accessor x) w)
        else \<exists>w. fst g = Some w \<and> (eng (accessor x) = eng w \<or> prec (accessor x) w))"

definition recorded :: "'c access list \<Rightarrow> 'c grain \<Rightarrow> bool" where
  "recorded h g \<longleftrightarrow> (\<forall>w. fst g = Some w \<longrightarrow> (\<exists>x\<in>set h. \<not> is_read x \<and> accessor x = w)) \<and>
     (\<forall>r\<in>set (snd g). \<exists>x\<in>set h. is_read x \<and> accessor x = r)"

definition same_strand :: "('c \<Rightarrow> 'c \<Rightarrow> bool) \<Rightarrow> ('c \<Rightarrow> 'n) \<Rightarrow> 'c set \<Rightarrow> bool" where
  "same_strand prec eng C \<longleftrightarrow> (\<forall>a\<in>C. \<forall>b\<in>C. eng a = eng b \<longrightarrow> (\<forall>c\<in>C. prec a c = prec b c \<and> prec c a = prec c b))"

lemma recorded_reader: "recorded h g \<Longrightarrow> a \<in> set (snd g) \<Longrightarrow> \<exists>y\<in>set h. is_read y \<and> accessor y = a"
  by (simp add: recorded_def)

lemma recorded_writer: "recorded h g \<Longrightarrow> fst g = Some w \<Longrightarrow> \<exists>y\<in>set h. \<not> is_read y \<and> accessor y = w"
  by (simp add: recorded_def)

lemma same_strandD: "same_strand prec eng C \<Longrightarrow> eng a = eng b \<Longrightarrow> a \<in> C \<Longrightarrow> b \<in> C \<Longrightarrow> c \<in> C \<Longrightarrow> prec a c = prec b c"
  "same_strand prec eng C \<Longrightarrow> eng a = eng b \<Longrightarrow> a \<in> C \<Longrightarrow> b \<in> C \<Longrightarrow> c \<in> C \<Longrightarrow> prec c a = prec c b"
  unfolding same_strand_def by blast+

lemma recorded_step:
  "recorded h g \<Longrightarrow> recorded (h @ [x]) (snd (grain_step prec eng (is_read x) (accessor x) g))"
  by (auto simp: recorded_def grain_step_def grain_read_def grain_write_def)

lemma read_step:
  assumes tr: "transp_on C prec" and ss: "same_strand prec eng C" and C: "\<forall>y\<in>set h. accessor y \<in> C" "accessor x \<in> C"
    and r: "recorded h g" and c: "covered prec eng h g" and x: "is_read x"
  shows "fst (grain_read prec (accessor x) g) = 0 \<longleftrightarrow> (\<forall>y\<in>set h. ordered prec eng y x)"
proof
  assume z: "fst (grain_read prec (accessor x) g) = 0"
  show "\<forall>y\<in>set h. ordered prec eng y x"
  proof
    fix y assume y: "y \<in> set h"
    show "ordered prec eng y x"
    proof (cases "is_read y")
      case False
      then obtain w where w: "fst g = Some w" "eng (accessor y) = eng w \<or> prec (accessor y) w"
        using c y unfolding covered_def by fastforce
      have wC: "w \<in> C" using r w(1) C(1) by (auto simp: recorded_def)
      have wx: "prec w (accessor x)" using z w(1) by (simp add: grain_read_def split: if_splits)
      have yC: "accessor y \<in> C" using C(1) y by blast
      have "prec (accessor y) (accessor x)"
        using w(2) same_strandD(1) [OF ss _ yC wC C(2)] wx transp_onD [OF tr yC wC C(2)] by blast
      then show ?thesis by (simp add: ordered_def)
    qed (simp add: ordered_def x)
  qed
next
  assume o: "\<forall>y\<in>set h. ordered prec eng y x"
  show "fst (grain_read prec (accessor x) g) = 0"
  proof (cases "fst g")
    case (Some w)
    then obtain y where "y \<in> set h" "\<not> is_read y" "accessor y = w" using recorded_writer [OF r Some] by blast
    then have "prec w (accessor x)" using o x by (auto simp: ordered_def)
    then show ?thesis using Some by (simp add: grain_read_def)
  qed (simp add: grain_read_def)
qed

lemma write_step:
  assumes tr: "transp_on C prec" and ss: "same_strand prec eng C" and C: "\<forall>y\<in>set h. accessor y \<in> C" "accessor x \<in> C"
    and r: "recorded h g" and c: "covered prec eng h g" and x: "\<not> is_read x"
  shows "fst (grain_write prec eng (accessor x) g) = 0 \<longleftrightarrow> (\<forall>y\<in>set h. ordered prec eng y x)"
proof
  assume z: "fst (grain_write prec eng (accessor x) g) = 0"
  have rs: "prec a (accessor x)" if "a \<in> set (snd g)" for a
    using z that by (auto simp: grain_write_def filter_empty_conv split: option.splits)
  have wx: "eng w = eng (accessor x) \<or> prec w (accessor x)" if "fst g = Some w" for w
    using z that by (auto simp: grain_write_def check_writer_def split: if_splits)
  show "\<forall>y\<in>set h. ordered prec eng y x"
  proof
    fix y assume y: "y \<in> set h"
    have yC: "accessor y \<in> C" using C(1) y by blast
    have wC: "w \<in> C" if "fst g = Some w" for w using r that C(1) by (auto simp: recorded_def)
    show "ordered prec eng y x"
    proof (cases "is_read y")
      case True
      then consider "accessor y \<in> set (snd g)" | w where "fst g = Some w" "prec (accessor y) w"
        using c y unfolding covered_def by force
      then have "prec (accessor y) (accessor x)"
      proof cases
        case 2
        show ?thesis using wx [OF 2(1)]
        proof
          assume "eng w = eng (accessor x)"
          from same_strandD(2) [OF ss this wC [OF 2(1)] C(2) yC] 2(2) show ?thesis by simp
        next
          assume "prec w (accessor x)"
          from transp_onD [OF tr yC wC [OF 2(1)] C(2) 2(2) this] show ?thesis .
        qed
      qed (rule rs)
      then show ?thesis by (simp add: ordered_def)
    next
      case False
      then obtain w where w: "fst g = Some w" "eng (accessor y) = eng w \<or> prec (accessor y) w"
        using c y unfolding covered_def by fastforce
      note wC = wC [OF w(1)]
      have "eng (accessor y) = eng (accessor x) \<or> prec (accessor y) (accessor x)"
        using w(2) wx [OF w(1)]
      proof (elim disjE)
        assume e: "eng (accessor y) = eng w" and "prec w (accessor x)"
        then show ?thesis using same_strandD(1) [OF ss e yC wC C(2)] by simp
      next
        assume "prec (accessor y) w" and e: "eng w = eng (accessor x)"
        then show ?thesis using same_strandD(2) [OF ss e wC C(2) yC] by simp
      next
        assume "prec (accessor y) w" and "prec w (accessor x)"
        then show ?thesis using transp_onD [OF tr yC wC C(2)] by simp
      qed simp
      then show ?thesis using False x by (auto simp: ordered_def)
    qed
  qed
next
  assume o: "\<forall>y\<in>set h. ordered prec eng y x"
  have "prec a (accessor x)" if m: "a \<in> set (snd g)" for a
  proof -
    obtain y where "y \<in> set h" "is_read y" "accessor y = a" using recorded_reader [OF r m] by blast
    then show ?thesis using o x by (auto simp: ordered_def)
  qed
  moreover have "check_writer prec eng (accessor x) w = 0" if m: "fst g = Some w" for w
  proof -
    obtain y where "y \<in> set h" "\<not> is_read y" "accessor y = w" using recorded_writer [OF r m] by blast
    then show ?thesis using o x by (auto simp: ordered_def check_writer_def)
  qed
  ultimately show "fst (grain_write prec eng (accessor x) g) = 0"
    by (auto simp: grain_write_def filter_empty_conv split: option.splits)
qed

lemma covered_step:
  assumes c: "covered prec eng h g" and o: "\<forall>y\<in>set h. ordered prec eng y x"
  shows "covered prec eng (h @ [x]) (snd (grain_step prec eng (is_read x) (accessor x) g))"
proof (cases "is_read x")
  case True
  then show ?thesis using c by (auto simp: covered_def grain_step_def grain_read_def)
next
  case False
  then show ?thesis using o by (auto simp: covered_def grain_step_def grain_write_def ordered_def)
qed

lemma grain_run_exact:
  assumes tr: "transp_on C prec" and ss: "same_strand prec eng C"
  shows "\<forall>y\<in>set h. accessor y \<in> C \<Longrightarrow> recorded h (snd (grain_run prec eng h (None, []))) \<and>
    (fst (grain_run prec eng h (None, [])) = 0 \<longleftrightarrow> sorted_wrt (ordered prec eng) h) \<and>
    (fst (grain_run prec eng h (None, [])) = 0 \<longrightarrow> covered prec eng h (snd (grain_run prec eng h (None, []))))"
proof (induction h rule: rev_induct)
  case Nil
  then show ?case by (simp add: recorded_def covered_def)
next
  case (snoc x h)
  let ?g = "snd (grain_run prec eng h (None, []))" and ?n = "fst (grain_run prec eng h (None, []))"
  let ?s = "grain_step prec eng (is_read x) (accessor x) ?g"
  have IH: "recorded h ?g" "?n = 0 \<longleftrightarrow> sorted_wrt (ordered prec eng) h" "?n = 0 \<longrightarrow> covered prec eng h ?g"
    using snoc by auto
  have C: "\<forall>y\<in>set h. accessor y \<in> C" "accessor x \<in> C" using snoc.prems by auto
  have step: "fst ?s = 0 \<longleftrightarrow> (\<forall>y\<in>set h. ordered prec eng y x)" if "?n = 0"
    using read_step [OF tr ss C IH(1)] write_step [OF tr ss C IH(1)] IH(3) that by (auto simp: grain_step_def)
  have run: "grain_run prec eng (h @ [x]) (None, []) = (?n + fst ?s, snd ?s)" by (simp add: grain_run_snoc split_def Let_def)
  have "recorded (h @ [x]) (snd ?s)" by (rule recorded_step [OF IH(1)])
  moreover have "covered prec eng (h @ [x]) (snd ?s)" if "?n = 0" "fst ?s = 0"
    using covered_step [of prec eng h ?g x] IH(3) step that by blast
  ultimately show ?case using IH(2) step by (auto simp: run sorted_wrt_append)
qed

lemma grain_run_append:
  "grain_run prec eng (xs @ ys) g = (let (n, g) = grain_run prec eng xs g; (m, g) = grain_run prec eng ys g in (n + m, g))"
  by (induction xs arbitrary: g) (auto simp: split_def Let_def)

text \<open>A step asks \<open>prec\<close> only about the accessors that the grain has recorded.\<close>

definition grain_accessors :: "'c grain \<Rightarrow> 'c set" where
  "grain_accessors g = set_option (fst g) \<union> set (snd g)"

lemma grain_step_cong:
  "(\<And>a. a \<in> grain_accessors g \<Longrightarrow> prec a cur = prec' a cur) \<Longrightarrow> grain_step prec eng rd cur g = grain_step prec' eng rd cur g"
  by (auto simp: grain_step_def grain_read_def grain_write_def grain_accessors_def check_writer_def split: option.split
      intro!: arg_cong [where f = length] filter_cong)

lemma grain_step_accessors: "grain_accessors (snd (grain_step prec eng rd cur g)) \<subseteq> insert cur (grain_accessors g)"
  by (auto simp: grain_step_def grain_read_def grain_write_def grain_accessors_def)

lemma sorted_wrt_filter_iff: "sorted_wrt R (filter P xs) \<longleftrightarrow> sorted_wrt (\<lambda>x y. P x \<longrightarrow> P y \<longrightarrow> R x y) xs"
  by (induction xs) auto

lemma grains_race:
  assumes tr: "transp_on C prec" and ss: "same_strand prec eng C" and xs: "\<forall>x\<in>set xs. accessor x \<in> C"
  shows "(\<forall>g. fst (grain_run prec eng (on_grain g xs) (None, [])) = 0) \<longleftrightarrow>
    \<not> (\<exists>i j. i < j \<and> j < length xs \<and> race_between prec eng (xs ! i) (xs ! j))" (is "?N \<longleftrightarrow> _")
proof -
  have "fst (grain_run prec eng (on_grain g xs) (None, [])) = 0 \<longleftrightarrow> sorted_wrt (\<lambda>x y. touches (acc_addr x) (acc_size x) g \<longrightarrow>
      touches (acc_addr y) (acc_size y) g \<longrightarrow> ordered prec eng x y) xs" for g
    using grain_run_exact [OF tr ss, of "on_grain g xs"] xs by (simp add: sorted_wrt_filter_iff)
  then have "?N \<longleftrightarrow> (\<forall>g i j. i < j \<longrightarrow> j < length xs \<longrightarrow> touches (acc_addr (xs ! i)) (acc_size (xs ! i)) g \<longrightarrow>
      touches (acc_addr (xs ! j)) (acc_size (xs ! j)) g \<longrightarrow> ordered prec eng (xs ! i) (xs ! j))"
    by (simp add: sorted_wrt_iff_nth_less)
  then show ?thesis
    unfolding race_between_def by blast
qed

lemma race_reports_spec:
  assumes tr: "transp_on C prec" and ss: "same_strand prec eng C"
    and xs: "\<forall>x\<in>set xs. accessor x \<in> C \<and> acc_fits (acc_addr x) (acc_size x)"
  shows "\<exists>n sm. run_accesses prec eng xs empty_shadow = Some (n, sm) \<and>
    (0 < n \<longleftrightarrow> (\<exists>i j. i < j \<and> j < length xs \<and> race_between prec eng (xs ! i) (xs ! j)))"
proof -
  have "shadow_ok (empty_shadow :: 'a mem_access_list shadow)" by (simp add: shadow_ok_def)
  from run_accesses_grains [OF _ this, of xs prec eng] xs obtain n sm where n:
    "run_accesses prec eng xs empty_shadow = Some (n, sm)"
    "n = 0 \<longleftrightarrow> (\<forall>g. fst (grain_run prec eng (on_grain g xs) (None, [])) = 0)"
    by (auto simp: grain_at_def grain_of_def)
  then have "0 < n \<longleftrightarrow> (\<exists>i j. i < j \<and> j < length xs \<and> race_between prec eng (xs ! i) (xs ! j))"
    using grains_race [OF tr ss, of xs] xs by blast
  then show ?thesis using n(1) by blast
qed

text \<open>
  C29. The shadow memory reports exactly the races of a run. For any run of well placed accesses whose strands are compared by a
  transitive relation, \<^verbatim>\<open>check_access\<close> calls \<^verbatim>\<open>report_race\<close> at least once if and only if two of the accesses share a
  grain, are not both reads, and the earlier strand does not precede the later one (two writes of one strand excepted). The
  records that an access overwrites or drops never hide a race.
\<close>

theorem race_reports_exact:
  assumes "transp_on C prec" "same_strand prec eng C"
    and "\<forall>x\<in>set xs. accessor x \<in> C \<and> acc_fits (acc_addr x) (acc_size x)"
  shows "\<exists>n sm. run_accesses prec eng xs empty_shadow = Some (n, sm) \<and>
    (0 < n \<longleftrightarrow> (\<exists>i j. i < j \<and> j < length xs \<and> race_between prec eng (xs ! i) (xs ! j)))"
  by (rule race_reports_spec [OF assms])

definition ex_accesses :: "nat access list" where
  "ex_accesses = [\<lparr>is_read = False, accessor = 0, acc_addr = 64, acc_size = 8\<rparr>,
     \<lparr>is_read = True, accessor = 1, acc_addr = 68, acc_size = 4\<rparr>]"

theorem race_reports_exact_witness:
  "\<exists>n sm. run_accesses (\<lambda>_ _. False) id ex_accesses empty_shadow = Some (n, sm) \<and> 0 < n"
proof -
  have "\<forall>x\<in>set ex_accesses. accessor x \<in> UNIV \<and> acc_fits (acc_addr x) (acc_size x)"
    by (simp add: ex_accesses_def acc_fits_def in_slots_def mem_index num_grains NUM_SLOTS_def)
  from race_reports_exact [of UNIV "\<lambda>_ _. False" id, OF _ _ this]
  obtain n sm where n: "run_accesses (\<lambda>_ _. False) id ex_accesses empty_shadow = Some (n, sm)"
    "0 < n \<longleftrightarrow> (\<exists>i j. i < j \<and> j < length ex_accesses \<and> race_between (\<lambda>_ _. False) id (ex_accesses ! i) (ex_accesses ! j))"
    by (auto simp: same_strand_def)
  have "touches 64 8 17" "touches 68 4 17" by (simp_all add: touches_def)
  then have "race_between (\<lambda>_ _. False) id (ex_accesses ! 0) (ex_accesses ! 1)"
    by (auto simp: race_between_def ordered_def ex_accesses_def)
  moreover have "1 < length ex_accesses" by (simp add: ex_accesses_def)
  ultimately have "0 < n" unfolding n(2) by (intro exI [of _ 0] exI [of _ 1]) simp
  then show ?thesis using n(1) by blast
qed

section \<open>What the records miss and report in excess\<close>

text \<open>
  An access of one or two bytes has no grain: it is neither checked nor recorded.
\<close>

lemma small_access_unseen:
  assumes "acc_fits a s" "shadow_ok sm" "s < 4"
  shows "\<exists>sm'. check_access prec eng nobody rd cur a s sm = Some (0, sm') \<and> (\<forall>g. grain_at sm' g = grain_at sm g)"
proof -
  have "grains a s = []" "\<not> touches a s g" for g using assms(3) by (auto simp: grains_def slots_def num_grains touches_def)
  then show ?thesis using check_access_spec [OF assms(1,2), of prec eng rd cur] by auto
qed

text \<open>
  \<^verbatim>\<open>Precedes\<close> is irreflexive, and only two writes are guarded by the comparison of the \<^verbatim>\<open>english\<close> fields: a
  strand that reads a grain and then writes it is reported as racing with itself.
\<close>

lemma strand_races_with_itself:
  assumes "acc_fits a s" "4 \<le> s" "\<not> prec c c"
  shows "\<exists>n sm. run_accesses prec eng [\<lparr>is_read = True, accessor = c, acc_addr = a, acc_size = s\<rparr>,
      \<lparr>is_read = False, accessor = c, acc_addr = a, acc_size = s\<rparr>] empty_shadow = Some (n, sm) \<and> 0 < n"
proof -
  let ?xs = "[\<lparr>is_read = True, accessor = c, acc_addr = a, acc_size = s\<rparr>, \<lparr>is_read = False, accessor = c, acc_addr = a, acc_size = s\<rparr>]"
  have "transp_on {c} prec" "same_strand prec eng {c}" using assms(3) by (auto simp: transp_on_def same_strand_def)
  from race_reports_spec [OF this, of ?xs] assms(1)
  obtain n sm where n: "run_accesses prec eng ?xs empty_shadow = Some (n, sm)"
    "0 < n \<longleftrightarrow> (\<exists>i j. i < j \<and> j < length ?xs \<and> race_between prec eng (?xs ! i) (?xs ! j))" by auto
  have "touches a s (unat a div 4)" using assms(2) by (simp add: touches_def)
  then have "race_between prec eng (?xs ! 0) (?xs ! 1)" using assms(3) by (auto simp: race_between_def ordered_def)
  then have "\<exists>i j. i < j \<and> j < length ?xs \<and> race_between prec eng (?xs ! i) (?xs ! j)"
    by (intro exI [of _ 0] exI [of _ 1]) simp
  then show ?thesis using n by blast
qed

text \<open>
  The two-level directory is a map. A key of an address below \<open>2^48\<close> stays inside both arrays; an entry that is inserted
  under it is found under it, an occupied slot keeps its entry and hands it back, every other key is untouched, and a key that is
  erased is no longer found.
\<close>

theorem shadow_directory_map:
  assumes "unat a < 2 ^ 48"
  shows "dir_index (ADDR_TO_KEY a) < dir_entries \<and> tbl_index (ADDR_TO_KEY a) < 2 ^ LOG_TBL_SIZE \<and>
    shadow_find (ADDR_TO_KEY a) sm = Some (shadow_map sm (unat a div 16)) \<and>
    (\<exists>sm' r. shadow_insert (ADDR_TO_KEY a) v None sm = Some (r, sm') \<and>
      r = (case shadow_map sm (unat a div 16) of None \<Rightarrow> v | Some old \<Rightarrow> old) \<and>
      shadow_map sm' = (shadow_map sm)(unat a div 16 \<mapsto> r)) \<and>
    (\<exists>sm'. shadow_erase (ADDR_TO_KEY a) sm = Some sm' \<and> shadow_map sm' = (shadow_map sm)(unat a div 16 := None))"
proof -
  let ?k = "ADDR_TO_KEY a"
  have d: "dir_index ?k < dir_entries" by (rule fits_dir [OF assms])
  have ins: "\<exists>sm' r. shadow_insert ?k v None sm = Some (r, sm') \<and>
      r = (case shadow_map sm (unat ?k) of None \<Rightarrow> v | Some old \<Rightarrow> old) \<and> shadow_map sm' = (shadow_map sm)(unat ?k \<mapsto> r)"
  proof (cases "shadow_map sm (unat ?k)")
    case None
    then show ?thesis using shadow_insert_eq [OF d None, of v] by auto
  next
    case (Some old)
    obtain t where "sm (dir_index ?k) = Some t" using shadow_map_dir [OF Some] by blast
    with Some have "shadow_insert ?k v None sm = Some (old, sm)" using d by (simp add: shadow_insert_def find_slot_def shadow_map_key)
    then show ?thesis using Some by (simp add: fun_upd_idem)
  qed
  have era: "\<exists>sm'. shadow_erase ?k sm = Some sm' \<and> shadow_map sm' = (shadow_map sm)(unat ?k := None)"
  proof (cases "shadow_map sm (unat ?k)")
    case None
    then have "shadow_erase ?k sm = Some sm" using d
      by (simp add: shadow_erase_def find_slot_def shadow_map_key split: option.split)
    then show ?thesis using None by (simp add: fun_upd_idem)
  next
    case (Some l)
    obtain t where t: "sm (dir_index ?k) = Some t" using shadow_map_dir [OF Some] by blast
    with Some have "shadow_erase ?k sm = Some (slot_set (dir_index ?k, tbl_index ?k) None sm)"
      using d by (simp add: shadow_erase_def find_slot_def shadow_map_key)
    then show ?thesis using shadow_map_set [of sm ?k t None, OF t] by blast
  qed
  show ?thesis using d tbl_index_bound [of ?k] shadow_find_eq [OF d, of sm] ins era by (simp add: unat_key)
qed

theorem shadow_directory_map_witness:
  "\<exists>sm'. shadow_insert (ADDR_TO_KEY 64) True None empty_shadow = Some (True, sm') \<and> shadow_map sm' = [4 \<mapsto> True]"
  using shadow_directory_map [of 64 empty_shadow True] by (auto simp: fun_eq_iff)

end
