(* ===== verification/Detector_Hooks.thy ===== *)
theory Detector_Hooks
  imports Strand_Tracking Shadow_Memory
begin

text \<open>
  The callbacks of compiled code and of the runtime: \<^verbatim>\<open>rdtool/src/tsan.cpp\<close>. A callback does nothing while its
  worker is in a batch; otherwise it switches the checking of accesses off or on and calls the handler of
  \<^verbatim>\<open>Strand_Tracking\<close>. The instrumented loads and stores end in \<^verbatim>\<open>tsan_access\<close>, which asks the shadow
  memory of \<^verbatim>\<open>Shadow_Memory\<close> and records the access under the strand that is current.

  The frame addresses that \<^verbatim>\<open>__builtin_frame_address\<close> gives are arguments.
\<close>

section \<open>The state of the callbacks\<close>

record ('n, 'o) tsan = "('n, 'o) det" +
  TOOL_INITIALIZED :: bool
  check_enable_instrumentation :: bool
  instrumentation :: bool
  clear_stack :: "nat \<Rightarrow> bool"
  stack_low_watermark :: "nat \<Rightarrow> 64 word"
  shadow_mem :: "'n current mem_access_list shadow"
  races :: nat

definition in_batch :: "nat \<Rightarrow> ('n, 'o, 'z) det_scheme \<Rightarrow> bool" where
  "in_batch w d = (case t_worker d w of None \<Rightarrow> False | Some tw \<Rightarrow> batch_id d tw \<noteq> -1)"

definition should_check :: "nat \<Rightarrow> ('n, 'o, 'z) tsan_scheme \<Rightarrow> bool" where
  "should_check w d \<longleftrightarrow> instrumentation d \<and> checking_disabled d w = 0"

definition tsan_init :: "nat \<Rightarrow> ('n, 'o, 'z) tsan_scheme \<Rightarrow> ('n, 'o, 'z) tsan_scheme" where
  "tsan_init w d = (if TOOL_INITIALIZED d then d else enable_checking w (d\<lparr>TOOL_INITIALIZED := True\<rparr>))"

text \<open>The versions for user code do count.\<close>

definition om_enable_checking :: "nat \<Rightarrow> ('n, 'o, 'z) tsan_scheme \<Rightarrow> ('n, 'o, 'z) tsan_scheme proc" where
  "om_enable_checking w d = do {
     let d = d\<lparr>checking_disabled := (checking_disabled d)(w := checking_disabled d w - 1)\<rparr>;
     assert_c (0 \<le> checking_disabled d w);
     Some d }"

definition om_disable_checking :: "nat \<Rightarrow> ('n, 'o, 'z) tsan_scheme \<Rightarrow> ('n, 'o, 'z) tsan_scheme proc" where
  "om_disable_checking w d = do {
     assert_c (0 \<le> checking_disabled d w);
     Some (d\<lparr>checking_disabled := (checking_disabled d)(w := checking_disabled d w + 1)\<rparr>) }"

definition om_disable_instrumentation :: "('n, 'o, 'z) tsan_scheme \<Rightarrow> ('n, 'o, 'z) tsan_scheme" where
  "om_disable_instrumentation d = d\<lparr>check_enable_instrumentation := False, instrumentation := False\<rparr>"

definition cilk_tool_init :: "('n, 'o) tool \<Rightarrow> nat \<Rightarrow> 'o \<Rightarrow> nat \<Rightarrow> ('n, 'o, 'z) tsan_scheme \<Rightarrow> ('n, 'o, 'z) tsan_scheme proc" where
  "cilk_tool_init E p od w d = do {
     d \<leftarrow> disable_checking w d;
     Some (enable_checking w (do_tool_init E p od d)) }"

definition cilk_tool_destroy :: "nat \<Rightarrow> ('n, 'o, 'z) tsan_scheme \<Rightarrow> ('n, 'o, 'z) tsan_scheme proc" where
  "cilk_tool_destroy w d = do {
     d \<leftarrow> disable_checking w d;
     Some (do_tool_destroy (d\<lparr>instrumentation := False\<rparr>)) }"

section \<open>Clearing the shadow memory of a stack\<close>

text \<open>The function returns before its loop.\<close>

definition clear_shadow_memory :: "64 word \<Rightarrow> 64 word \<Rightarrow> ('n, 'o, 'z) tsan_scheme \<Rightarrow> ('n, 'o, 'z) tsan_scheme" where
  "clear_shadow_memory start stop d = d"

definition clear_to :: "nat \<Rightarrow> 64 word \<Rightarrow> 64 word \<Rightarrow> ('n, 'o, 'z) tsan_scheme \<Rightarrow> ('n, 'o, 'z) tsan_scheme proc" where
  "clear_to w high low' d = do {
     assert_c (stack_low_watermark d w \<noteq> -1);
     assert_c (stack_low_watermark d w \<le> high);
     let d = clear_shadow_memory (stack_low_watermark d w) high d;
     Some (d\<lparr>stack_low_watermark := (stack_low_watermark d)(w := low'), clear_stack := (clear_stack d)(w := False)\<rparr>) }"

definition tsan_func_exit :: "64 word \<Rightarrow> 64 word \<Rightarrow> nat \<Rightarrow> ('n, 'o, 'z) tsan_scheme \<Rightarrow> ('n, 'o, 'z) tsan_scheme proc" where
  "tsan_func_exit frame0 frame1 w d =
     (if in_batch w d then Some d
      else do {
        d \<leftarrow> disable_checking w d;
        let d = (if frame0 < stack_low_watermark d w then d\<lparr>stack_low_watermark := (stack_low_watermark d)(w := frame0)\<rparr> else d);
        d \<leftarrow> (if clear_stack d w then clear_to w frame1 frame1 d else Some d);
        Some (enable_checking w d) })"

definition cilk_done_with_stack :: "64 word \<Rightarrow> nat \<Rightarrow> ('n, 'o, 'z) tsan_scheme \<Rightarrow> ('n, 'o, 'z) tsan_scheme proc" where
  "cilk_done_with_stack stack_base w d =
     (if in_batch w d then Some d
      else do { assert_c (stack_base \<noteq> 0); clear_to w stack_base (-1) d })"

definition cilk_continue :: "64 word \<Rightarrow> nat \<Rightarrow> ('n, 'o, 'z) tsan_scheme \<Rightarrow> ('n, 'o, 'z) tsan_scheme" where
  "cilk_continue new_sp w d =
     (if in_batch w d then d
      else let d = d\<lparr>self_set := (self_set d)(w := True)\<rparr>
        in if new_sp \<noteq> 0 then d\<lparr>stack_low_watermark := (stack_low_watermark d)(w := new_sp)\<rparr> else d)"

section \<open>Entering, spawning, syncing, leaving\<close>

definition cilk_enter_begin :: "('n, 'o) tool \<Rightarrow> nat \<Rightarrow> ('n, 'o, 'z) tsan_scheme \<Rightarrow> ('n, 'o, 'z) tsan_scheme proc" where
  "cilk_enter_begin E w d =
     (if in_batch w d then Some d
      else do {
        d \<leftarrow> disable_checking w d;
        d \<leftarrow> do_enter_begin E w d;
        assert_c (TOOL_INITIALIZED d);
        Some d })"

text \<open>\<^verbatim>\<open>do_enter_helper_begin\<close> only prints.\<close>

definition cilk_enter_helper_begin :: "nat \<Rightarrow> ('n, 'o, 'z) tsan_scheme \<Rightarrow> ('n, 'o, 'z) tsan_scheme proc" where
  "cilk_enter_helper_begin w d = (if in_batch w d then Some d else disable_checking w d)"

definition cilk_enter_end :: "('n, 'o) tool \<Rightarrow> nat \<Rightarrow> ('n, 'o, 'z) tsan_scheme \<Rightarrow> ('n, 'o, 'z) tsan_scheme proc" where
  "cilk_enter_end E w d =
     (if in_batch w d then Some d
      else do {
        (first_frame, d) \<leftarrow> do_enter_end E w d;
        let d = (if first_frame \<and> check_enable_instrumentation d
          then d\<lparr>check_enable_instrumentation := False, instrumentation := True,
            stack_low_watermark := (stack_low_watermark d)(w := -1)\<rparr> else d);
        Some (enable_checking w d) })"

definition cilk_spawn_prepare :: "nat \<Rightarrow> ('n, 'o, 'z) tsan_scheme \<Rightarrow> ('n, 'o, 'z) tsan_scheme proc" where
  "cilk_spawn_prepare w d = (if in_batch w d then Some d else disable_checking w d)"

definition cilk_spawn_or_continue :: "nat \<Rightarrow> ('n, 'o, 'z) tsan_scheme \<Rightarrow> ('n, 'o, 'z) tsan_scheme" where
  "cilk_spawn_or_continue w d = (if in_batch w d then d else enable_checking w d)"

definition cilk_detach_begin :: "('n, 'o) tool \<Rightarrow> nat \<Rightarrow> ('n, 'o, 'z) tsan_scheme \<Rightarrow> ('n, 'o, 'z) tsan_scheme proc" where
  "cilk_detach_begin E w d =
     (if in_batch w d then Some d else do { d \<leftarrow> disable_checking w d; do_detach_begin E w d })"

definition cilk_detach_end :: "nat \<Rightarrow> ('n, 'o, 'z) tsan_scheme \<Rightarrow> ('n, 'o, 'z) tsan_scheme" where
  "cilk_detach_end w d = (if in_batch w d then d else enable_checking w d)"

definition cilk_sync_begin :: "('n, 'o) tool \<Rightarrow> nat \<Rightarrow> ('n, 'o, 'z) tsan_scheme \<Rightarrow> ('n, 'o, 'z) tsan_scheme proc" where
  "cilk_sync_begin E w d =
     (if in_batch w d then Some d
      else do { d \<leftarrow> disable_checking w d; assert_c (TOOL_INITIALIZED d); do_sync_begin E w d })"

definition cilk_sync_end :: "nat \<Rightarrow> ('n, 'o, 'z) tsan_scheme \<Rightarrow> ('n, 'o, 'z) tsan_scheme proc" where
  "cilk_sync_end w d =
     (if in_batch w d then Some d
      else do { assert_c (TOOL_INITIALIZED d); d \<leftarrow> do_sync_end w d; Some (enable_checking w d) })"

definition cilk_resume :: "nat \<Rightarrow> ('n, 'o, 'z) tsan_scheme \<Rightarrow> ('n, 'o, 'z) tsan_scheme" where
  "cilk_resume w d = enable_checking w d"

text \<open>\<open>detached\<close> is the flag \<^verbatim>\<open>CILK_FRAME_DETACHED\<close> of the frame that is left.\<close>

definition cilk_leave_begin :: "bool \<Rightarrow> nat \<Rightarrow> ('n, 'o, 'z) tsan_scheme \<Rightarrow> ('n, 'o, 'z) tsan_scheme proc" where
  "cilk_leave_begin detached w d =
     (if in_batch w d then Some d
      else do {
        d \<leftarrow> disable_checking w d;
        (last, d) \<leftarrow> do_leave_begin w d;
        let d = (if last then d\<lparr>instrumentation := False, check_enable_instrumentation := True\<rparr> else d);
        Some (if detached then d\<lparr>clear_stack := (clear_stack d)(w := True)\<rparr> else d) })"

definition cilk_leave_end :: "('n, 'o) tool \<Rightarrow> nat \<Rightarrow> ('n, 'o, 'z) tsan_scheme \<Rightarrow> ('n, 'o, 'z) tsan_scheme proc" where
  "cilk_leave_end E w d =
     (if in_batch w d then Some d
      else do { (last, d) \<leftarrow> do_leave_end E w (enable_checking w d); Some d })"

text \<open>\<open>high\<close> is the frame address of the helper, or the base of the stack, as \<^verbatim>\<open>is_original\<close> tells.\<close>

definition cilk_leave_stolen :: "('n, 'o) tool \<Rightarrow> bool \<Rightarrow> 64 word \<Rightarrow> nat \<Rightarrow> ('n, 'o, 'z) tsan_scheme \<Rightarrow> ('n, 'o, 'z) tsan_scheme proc" where
  "cilk_leave_stolen E has_sf high w d =
     (if in_batch w d then Some d
      else do {
        d \<leftarrow> (if instrumentation d then do { assert_c (clear_stack d w); clear_to w high high d } else Some d);
        do_leave_stolen E has_sf w d })"

definition cilk_steal_success :: "('n, 'o) tool \<Rightarrow> nat \<Rightarrow> ('n, 'o, 'z) tsan_scheme \<Rightarrow> ('n, 'o, 'z) tsan_scheme proc" where
  "cilk_steal_success E w d =
     (if in_batch w d then Some d
      else do {
        let d = d\<lparr>self_set := (self_set d)(w := True)\<rparr>;
        assert_c (\<not> should_check w d);
        (r, d) \<leftarrow> CilkSteal E kNormal None None w d;
        Some d })"

section \<open>Accesses\<close>

text \<open>The strand of an access is the value of \<^verbatim>\<open>current\<close>; the number of reported races is counted.\<close>

definition tsan_access :: "('n, 'o) tool \<Rightarrow> bool \<Rightarrow> addr_t \<Rightarrow> nat \<Rightarrow> nat \<Rightarrow> ('n, 'o, 'z) tsan_scheme \<Rightarrow> ('n, 'o, 'z) tsan_scheme proc" where
  "tsan_access E rd addr mem_size w d =
     (case current_of d w of
        None \<Rightarrow> Some d
      | Some c \<Rightarrow>
        if cur_list c = None then Some d
        else do {
          d \<leftarrow> disable_checking w d;
          assert_c (mem_size \<le> 16 \<and> cur_english c \<noteq> None);
          (n, sm) \<leftarrow> check_access (Precedes E d) cur_english nobody rd c addr mem_size (shadow_mem d);
          Some (enable_checking w (d\<lparr>shadow_mem := sm, races := races d + n\<rparr>)) })"

definition ALIGNED :: "addr_t \<Rightarrow> addr_t \<Rightarrow> bool" where "ALIGNED addr amt \<longleftrightarrow> addr AND (amt - 1) = 0"

definition tsan16_access :: "('n, 'o) tool \<Rightarrow> bool \<Rightarrow> addr_t \<Rightarrow> nat \<Rightarrow> ('n, 'o, 'z) tsan_scheme \<Rightarrow> ('n, 'o, 'z) tsan_scheme proc" where
  "tsan16_access E rd addr w d =
     (if \<not> should_check w d then Some d
      else do {
        d \<leftarrow> disable_checking w d;
        assert_c (ALIGNED addr 4);
        d \<leftarrow> (if ALIGNED addr 16 then tsan_access E rd addr 16 w d
          else if ALIGNED addr 8 then do {
            d \<leftarrow> tsan_access E rd addr 8 w d;
            tsan_access E rd (addr + 8) 8 w d }
          else do {
            d \<leftarrow> tsan_access E rd addr 4 w d;
            d \<leftarrow> tsan_access E rd (addr + 4) 4 w d;
            d \<leftarrow> tsan_access E rd (addr + 8) 4 w d;
            tsan_access E rd (addr + 12) 4 w d });
        Some (enable_checking w d) })"

text \<open>\<^verbatim>\<open>__tsan_read1\<close> to \<^verbatim>\<open>__tsan_write16\<close>, by the direction and the size.\<close>

definition tsan_rw :: "('n, 'o) tool \<Rightarrow> bool \<Rightarrow> nat \<Rightarrow> addr_t \<Rightarrow> nat \<Rightarrow> ('n, 'o, 'z) tsan_scheme \<Rightarrow> ('n, 'o, 'z) tsan_scheme proc" where
  "tsan_rw E rd mem_size addr w d =
     (if mem_size = 16 then tsan16_access E rd addr w d else tsan_access E rd addr mem_size w d)"

text \<open>\<^verbatim>\<open>malloc\<close> rounds sizes up to a multiple of sixteen.\<close>

definition malloc_size :: "64 word \<Rightarrow> 64 word" where
  "malloc_size s = ALIGN_BY_NEXT_MAX_GRAIN_SIZE s"

end
