(* ===== verification/Sp_Order.thy ===== *)
theory Sp_Order
  imports Prelude
begin

text \<open>
  Fork-join programs, the logical parallelism of their steps, and the two total orders of strands that the race detector keeps.
  The theory is about the orders as lists; \<^verbatim>\<open>Strand_Tracking\<close> shows that the detector's handlers keep such lists.
\<close>

section \<open>Positions in a list\<close>

fun bef :: "'a list \<Rightarrow> 'a \<Rightarrow> 'a \<Rightarrow> bool" where
  "bef [] x y = False"
| "bef (z # zs) x y = (if z = x then y \<in> set zs else bef zs x y)"

lemma bef_mem: "bef xs x y \<Longrightarrow> x \<in> set xs \<and> y \<in> set xs"
  by (induction xs) (auto split: if_splits)

lemma bef_irrefl: "distinct xs \<Longrightarrow> \<not> bef xs x x"
  by (induction xs) auto

lemma bef_trans: "distinct xs \<Longrightarrow> bef xs x y \<Longrightarrow> bef xs y z \<Longrightarrow> bef xs x z"
  by (induction xs) (auto split: if_splits dest: bef_mem)

lemma bef_asym: "distinct xs \<Longrightarrow> bef xs x y \<Longrightarrow> \<not> bef xs y x"
  using bef_trans bef_irrefl by metis

lemma bef_total: "x \<in> set xs \<Longrightarrow> y \<in> set xs \<Longrightarrow> x \<noteq> y \<Longrightarrow> bef xs x y \<or> bef xs y x"
  by (induction xs) auto

lemma bef_insert_old:
  "n \<notin> set xs \<Longrightarrow> a \<noteq> n \<Longrightarrow> b \<noteq> n \<Longrightarrow> bef (insert_after c n xs) a b = bef xs a b"
proof (induction xs)
  case (Cons x xs)
  have "b \<in> set (insert_after c n xs) \<longleftrightarrow> b \<in> set xs"
    using set_insert_after [of c xs n] Cons.prems by (cases "c \<in> set xs") auto
  then show ?case using Cons by auto
qed simp

lemma bef_insert_new:
  assumes "distinct xs" "c \<in> set xs" "n \<notin> set xs"
  shows "bef (insert_after c n xs) a n \<longleftrightarrow> a = c \<or> bef xs a c"
    and "b \<noteq> n \<Longrightarrow> bef (insert_after c n xs) n b = bef xs c b"
proof -
  obtain us vs where xs: "xs = us @ c # vs" "c \<notin> set us" using assms(2) by (meson split_list_first)
  have split: "bef (ys @ zs) a b \<longleftrightarrow> bef ys a b \<or> a \<in> set ys \<and> b \<in> set zs \<or> a \<notin> set ys \<and> bef zs a b" if "distinct (ys @ zs)"
    for ys zs :: "'a list" and a b using that by (induction ys) (auto dest: bef_mem)
  have ia: "insert_after c n xs = us @ c # n # vs" using xs insert_after_split by metis
  have d: "distinct (us @ c # n # vs)" "distinct (us @ c # vs)" using assms xs by auto
  show "bef (insert_after c n xs) a n \<longleftrightarrow> a = c \<or> bef xs a c"
    unfolding ia unfolding xs(1) split [OF d(1)] split [OF d(2)] using d assms(3) xs(2) by (auto simp: xs(1) dest: bef_mem)
  show "bef (insert_after c n xs) n b = bef xs c b" if "b \<noteq> n"
    unfolding ia unfolding xs(1) split [OF d(1)] split [OF d(2)] using that d assms(3) xs(2) by (auto simp: xs(1) dest: bef_mem)
qed

section \<open>Extending an order\<close>

text \<open>
  \<open>extends E E'\<close>: new elements have been put into the list. \<open>twin E E' c n\<close>: \<open>n\<close> is \<open>c\<close>, or a new
  element that is behind \<open>c\<close> and stands to every other old element as \<open>c\<close> does.
\<close>

definition extends :: "'a list \<Rightarrow> 'a list \<Rightarrow> bool" where
  "extends E E' \<longleftrightarrow> distinct E' \<and> set E \<subseteq> set E' \<and> (\<forall>a\<in>set E. \<forall>b\<in>set E. bef E' a b = bef E a b)"

definition twin :: "'a list \<Rightarrow> 'a list \<Rightarrow> 'a \<Rightarrow> 'a \<Rightarrow> bool" where
  "twin E E' c n \<longleftrightarrow> n \<in> set E' \<and> (n = c \<or> n \<notin> set E \<and> bef E' c n) \<and>
     (\<forall>z\<in>set E. z \<noteq> c \<longrightarrow> bef E' n z = bef E c z \<and> bef E' z n = bef E z c)"

lemma extends_refl: "distinct E \<Longrightarrow> extends E E"
  by (simp add: extends_def)

lemma extends_trans: "extends E E1 \<Longrightarrow> extends E1 E2 \<Longrightarrow> extends E E2"
  unfolding extends_def by (metis subset_iff)

lemma extends_bef: "extends E E' \<Longrightarrow> bef E a b \<Longrightarrow> bef E' a b"
  unfolding extends_def using bef_mem by metis

lemma extends_eq: "extends E E' \<Longrightarrow> a \<in> set E \<Longrightarrow> b \<in> set E \<Longrightarrow> bef E' a b = bef E a b"
  unfolding extends_def by blast

lemma extends_set: "extends E E' \<Longrightarrow> a \<in> set E \<Longrightarrow> a \<in> set E'"
  unfolding extends_def by blast

lemma extends_insert: "distinct E \<Longrightarrow> c \<in> set E \<Longrightarrow> n \<notin> set E \<Longrightarrow> extends E (insert_after c n E)"
  unfolding extends_def
proof (intro conjI ballI)
  assume a: "distinct E" "c \<in> set E" "n \<notin> set E"
  show "distinct (insert_after c n E)" using a(1,3) by (rule distinct_insert_after)
  show "set E \<subseteq> set (insert_after c n E)" using set_insert_after [OF a(2), of n] by blast
  fix x y assume "x \<in> set E" "y \<in> set E"
  then show "bef (insert_after c n E) x y = bef E x y" using a(3) by (intro bef_insert_old) auto
qed

lemma twin_refl: "extends E E' \<Longrightarrow> c \<in> set E \<Longrightarrow> twin E E' c c"
  unfolding twin_def extends_def by auto

lemma twin_insert: "distinct E \<Longrightarrow> c \<in> set E \<Longrightarrow> n \<notin> set E \<Longrightarrow> twin E (insert_after c n E) c n"
proof -
  assume a: "distinct E" "c \<in> set E" "n \<notin> set E"
  have "z \<noteq> n" if "z \<in> set E" for z using a(3) that by auto
  then show ?thesis using a set_insert_after [OF a(2), of n] bef_insert_new [OF a] by (auto simp: twin_def)
qed

lemma twin_trans:
  assumes 1: "twin E E1 c m" and 2: "twin E1 E2 m n" and x: "extends E E1" "extends E1 E2" and c: "c \<in> set E"
  shows "twin E E2 c n"
proof -
  have m: "m \<in> set E1" "m = c \<or> m \<notin> set E \<and> bef E1 c m" using 1 by (auto simp: twin_def)
  have c1: "c \<in> set E1" using x(1) c by (auto simp: extends_def)
  have "n = c \<or> n \<notin> set E \<and> bef E2 c n"
  proof (cases "n = m")
    case True
    then show ?thesis using m extends_bef [OF x(2)] by auto
  next
    case False
    then have n: "n \<notin> set E1" "bef E2 m n" using 2 by (auto simp: twin_def)
    have "bef E2 c n"
    proof (cases "m = c")
      case False
      then show ?thesis using 2 c1 m unfolding twin_def by metis
    qed (use n in simp)
    then show ?thesis using n(1) x(1) by (auto simp: extends_def)
  qed
  moreover have "bef E2 n z = bef E c z \<and> bef E2 z n = bef E z c" if z: "z \<in> set E" "z \<noteq> c" for z
  proof -
    have "z \<noteq> m" "z \<in> set E1" using z m x(1) by (auto simp: extends_def)
    then have "bef E2 n z = bef E1 m z \<and> bef E2 z n = bef E1 z m" using 2 by (simp add: twin_def)
    then show ?thesis using 1 z by (simp add: twin_def)
  qed
  ultimately show ?thesis using 2 by (simp add: twin_def)
qed

lemma twin_later:
  assumes t: "twin E E1 c n" and x: "extends E E1" "extends E1 E2" and c: "c \<in> set E"
  shows "twin E E2 c n"
proof -
  have "n \<in> set E1" using t by (simp add: twin_def)
  then show ?thesis using twin_trans [OF t twin_refl x c] x(2) by blast
qed

lemma twin_bef: "twin E E' c n \<Longrightarrow> z \<in> set E \<Longrightarrow> z \<noteq> c \<Longrightarrow> bef E' n z = bef E c z"
  "twin E E' c n \<Longrightarrow> z \<in> set E \<Longrightarrow> z \<noteq> c \<Longrightarrow> bef E' z n = bef E z c"
  unfolding twin_def by blast+

section \<open>Strands and two orders\<close>

text \<open>The orders are a pair of lists; a strand is a pair of nodes, one in each.\<close>

type_synonym 'n orders = "'n list \<times> 'n list"

definition strand_in :: "'n orders \<Rightarrow> 'n \<times> 'n \<Rightarrow> bool" where
  "strand_in W c \<longleftrightarrow> fst c \<in> set (fst W) \<and> snd c \<in> set (snd W)"

definition bef2 :: "'n orders \<Rightarrow> 'n \<times> 'n \<Rightarrow> 'n \<times> 'n \<Rightarrow> bool" where
  "bef2 W a b \<longleftrightarrow> bef (fst W) (fst a) (fst b) \<and> bef (snd W) (snd a) (snd b)"

definition par2 :: "'n orders \<Rightarrow> 'n \<times> 'n \<Rightarrow> 'n \<times> 'n \<Rightarrow> bool" where
  "par2 W a b \<longleftrightarrow> bef (fst W) (fst a) (fst b) \<and> bef (snd W) (snd b) (snd a)"

definition ext2 :: "'n orders \<Rightarrow> 'n orders \<Rightarrow> bool" where
  "ext2 W W' \<longleftrightarrow> extends (fst W) (fst W') \<and> extends (snd W) (snd W')"

definition twin2 :: "'n orders \<Rightarrow> 'n orders \<Rightarrow> 'n \<times> 'n \<Rightarrow> 'n \<times> 'n \<Rightarrow> bool" where
  "twin2 W W' c n \<longleftrightarrow> twin (fst W) (fst W') (fst c) (fst n) \<and> twin (snd W) (snd W') (snd c) (snd n) \<and>
     (n = c \<or> fst n \<notin> set (fst W) \<and> snd n \<notin> set (snd W))"

definition ok2 :: "'n orders \<Rightarrow> bool" where "ok2 W \<longleftrightarrow> distinct (fst W) \<and> distinct (snd W)"

lemma ext2_ok: "ext2 W W' \<Longrightarrow> ok2 W'"
  by (simp add: ext2_def extends_def ok2_def)

lemma ext2_refl: "ok2 W \<Longrightarrow> ext2 W W"
  by (simp add: ext2_def ok2_def extends_refl)

lemma ext2_trans: "ext2 W W1 \<Longrightarrow> ext2 W1 W2 \<Longrightarrow> ext2 W W2"
  unfolding ext2_def using extends_trans by blast

lemma ext2_in: "ext2 W W' \<Longrightarrow> strand_in W c \<Longrightarrow> strand_in W' c"
  by (simp add: ext2_def extends_def strand_in_def subset_iff)

lemma ext2_bef: "ext2 W W' \<Longrightarrow> bef2 W a b \<Longrightarrow> bef2 W' a b" "ext2 W W' \<Longrightarrow> par2 W a b \<Longrightarrow> par2 W' a b"
  by (auto simp: ext2_def bef2_def par2_def intro: extends_bef)

lemma bef2_trans: "ok2 W \<Longrightarrow> bef2 W a b \<Longrightarrow> bef2 W b c \<Longrightarrow> bef2 W a c"
  unfolding ok2_def bef2_def using bef_trans by metis

lemma bef2_in: "bef2 W a b \<Longrightarrow> strand_in W a \<and> strand_in W b"
  unfolding bef2_def strand_in_def using bef_mem by metis

lemma twin2_in: "twin2 W W' c n \<Longrightarrow> strand_in W' n"
  by (simp add: twin2_def twin_def strand_in_def)

lemma twin2_refl: "ext2 W W' \<Longrightarrow> strand_in W c \<Longrightarrow> twin2 W W' c c"
  by (simp add: twin2_def ext2_def strand_in_def twin_refl)

lemma twin2_le: "twin2 W W' c n \<Longrightarrow> strand_in W c \<Longrightarrow> n = c \<or> bef2 W' c n"
  unfolding twin2_def twin_def bef2_def strand_in_def by metis

lemma twin2_trans:
  assumes 1: "twin2 W W1 c m" and 2: "twin2 W1 W2 m n" and x: "ext2 W W1" "ext2 W1 W2" and c: "strand_in W c"
  shows "twin2 W W2 c n"
proof -
  have "twin (fst W) (fst W2) (fst c) (fst n)" "twin (snd W) (snd W2) (snd c) (snd n)"
    using 1 2 x c twin_trans unfolding twin2_def ext2_def strand_in_def by metis+
  moreover have "n = c \<or> fst n \<notin> set (fst W) \<and> snd n \<notin> set (snd W)"
    using 1 2 x unfolding twin2_def ext2_def extends_def by (metis subset_iff)
  ultimately show ?thesis by (simp add: twin2_def)
qed

lemma twin2_later: "twin2 W W1 c n \<Longrightarrow> ext2 W W1 \<Longrightarrow> ext2 W1 W2 \<Longrightarrow> strand_in W c \<Longrightarrow> twin2 W W2 c n"
  using twin2_trans [of W W1 c n W2 n] twin2_refl [of W1 W2 n] twin2_in by blast

text \<open>A twin of \<open>c\<close> is before, or parallel to, an old strand that \<open>c\<close> is before or parallel to.\<close>

lemma bef_twin: "twin E E' c n \<Longrightarrow> distinct E \<Longrightarrow> bef E c z \<Longrightarrow> bef E' n z"
  "twin E E' c n \<Longrightarrow> distinct E \<Longrightarrow> bef E z c \<Longrightarrow> bef E' z n"
  using bef_irrefl [of E c] bef_mem [of E c z] bef_mem [of E z c] unfolding twin_def by metis+

lemma twin2_bef: "twin2 W W' c n \<Longrightarrow> bef2 W c z \<Longrightarrow> ok2 W \<Longrightarrow> bef2 W' n z"
  by (auto simp: bef2_def twin2_def ok2_def intro: bef_twin)

lemma twin2_par: "twin2 W W' c n \<Longrightarrow> par2 W c z \<Longrightarrow> ok2 W \<Longrightarrow> par2 W' n z"
  by (auto simp: par2_def twin2_def ok2_def intro: bef_twin)

lemma twin2_par': "twin2 W W' c n \<Longrightarrow> par2 W z c \<Longrightarrow> ok2 W \<Longrightarrow> par2 W' z n"
  by (auto simp: par2_def twin2_def ok2_def intro: bef_twin)

section \<open>Fork-join programs\<close>

text \<open>
  The body of a Cilk function is a list of blocks; each block ends with a \<^verbatim>\<open>cilk_sync\<close>, the last one with the implicit sync
  of the function. A mark is a step that is to be ordered, for example an access to memory.
\<close>

datatype 'a item = Mark 'a | Call "'a item list list" | Spawn "'a item list list"

type_synonym 'a block = "'a item list"
type_synonym 'a body = "'a item list list"

fun item_marks :: "'a item \<Rightarrow> 'a list" and block_marks :: "'a block \<Rightarrow> 'a list" and body_marks :: "'a body \<Rightarrow> 'a list" where
  "item_marks (Mark a) = [a]"
| "item_marks (Call b) = body_marks b"
| "item_marks (Spawn b) = body_marks b"
| "block_marks [] = []"
| "block_marks (i # js) = item_marks i @ block_marks js"
| "body_marks [] = []"
| "body_marks (b # bs) = block_marks b @ body_marks bs"

text \<open>
  Logical parallelism: the steps of a spawned child are parallel to the steps that follow the spawn in its block. Everything else
  happens in the order of the program.
\<close>

fun item_par :: "'a item \<Rightarrow> ('a \<times> 'a) set" and block_par :: "'a block \<Rightarrow> ('a \<times> 'a) set" and body_par :: "'a body \<Rightarrow> ('a \<times> 'a) set" where
  "item_par (Mark a) = {}"
| "item_par (Call b) = body_par b"
| "item_par (Spawn b) = body_par b"
| "block_par [] = {}"
| "block_par (i # js) = item_par i \<union> (case i of Spawn b \<Rightarrow> set (body_marks b) \<times> set (block_marks js) | _ \<Rightarrow> {}) \<union> block_par js"
| "body_par [] = {}"
| "body_par (b # bs) = block_par b \<union> body_par bs"

lemma par_marks:
  fixes i :: "'a item" and b :: "'a block" and bs :: "'a body"
  shows "item_par i \<subseteq> set (item_marks i) \<times> set (item_marks i)" "block_par b \<subseteq> set (block_marks b) \<times> set (block_marks b)"
  "body_par bs \<subseteq> set (body_marks bs) \<times> set (body_marks bs)"
  by (induction i and b and bs rule: item_par_block_par_body_par.induct) (auto split: item.splits)

section \<open>Executing a program with two orders\<close>

text \<open>
  One worker runs a program depth first. A spawn puts three strands behind the current one \<open>c\<close>: on the first spawn of a block
  the strand after the sync, then the child \<open>f\<close> and the continuation \<open>k\<close>, the child first in the English and last in the
  Hebrew order.
\<close>

definition put2 :: "'n \<times> 'n \<Rightarrow> 'n \<times> 'n \<Rightarrow> 'n orders \<Rightarrow> 'n orders" where
  "put2 c n W = (insert_after (fst c) (fst n) (fst W), insert_after (snd c) (snd n) (snd W))"

definition fork2 :: "'n \<times> 'n \<Rightarrow> 'n \<times> 'n \<Rightarrow> 'n \<times> 'n \<Rightarrow> 'n orders \<Rightarrow> 'n orders" where
  "fork2 c f k W = (insert_after (fst f) (fst k) (insert_after (fst c) (fst f) (fst W)),
     insert_after (snd k) (snd f) (insert_after (snd c) (snd k) (snd W)))"

definition fresh2 :: "'n orders \<Rightarrow> 'n \<times> 'n \<Rightarrow> bool" where
  "fresh2 W n \<longleftrightarrow> fst n \<notin> set (fst W) \<and> snd n \<notin> set (snd W)"

inductive sp_block :: "'n orders \<Rightarrow> 'n \<times> 'n \<Rightarrow> ('n \<times> 'n) option \<Rightarrow> 'a block \<Rightarrow> ('a \<times> 'n \<times> 'n) list \<Rightarrow>
    'n orders \<Rightarrow> 'n \<times> 'n \<Rightarrow> ('n \<times> 'n) option \<Rightarrow> bool"
  and sp_body :: "'n orders \<Rightarrow> 'n \<times> 'n \<Rightarrow> 'a body \<Rightarrow> ('a \<times> 'n \<times> 'n) list \<Rightarrow> 'n orders \<Rightarrow> 'n \<times> 'n \<Rightarrow> bool" where
  Block_Nil: "sp_block W c s [] [] W c s"
| Block_Mark: "sp_block W c s js L W' c' s' \<Longrightarrow> sp_block W c s (Mark a # js) ((a, c) # L) W' c' s'"
| Block_Call: "sp_body W c b L1 W1 c1 \<Longrightarrow> sp_block W1 c1 s js L2 W' c' s' \<Longrightarrow> sp_block W c s (Call b # js) (L1 @ L2) W' c' s'"
| Block_Spawn: "(case s of None \<Rightarrow> fresh2 W s1 \<and> W1 = put2 c s1 W | Some s0 \<Rightarrow> s1 = s0 \<and> W1 = W) \<Longrightarrow>
    fresh2 W1 f \<Longrightarrow> fresh2 W1 k \<Longrightarrow> fst f \<noteq> fst k \<Longrightarrow> snd f \<noteq> snd k \<Longrightarrow>
    sp_body (fork2 c f k W1) f b L1 W2 f' \<Longrightarrow> sp_block W2 k (Some s1) js L2 W' c' s' \<Longrightarrow>
    sp_block W c s (Spawn b # js) (L1 @ L2) W' c' s'"
| Body_Nil: "sp_body W c [] [] W c"
| Body_Cons: "sp_block W c None b L1 W1 c1 s \<Longrightarrow> sp_body W1 (case s of None \<Rightarrow> c1 | Some s0 \<Rightarrow> s0) bs L2 W' c' \<Longrightarrow>
    sp_body W c (b # bs) (L1 @ L2) W' c'"

section \<open>The orders tell series from parallel\<close>

definition told :: "'n orders \<Rightarrow> ('a \<times> 'a) set \<Rightarrow> 'a \<times> 'n \<times> 'n \<Rightarrow> 'a \<times> 'n \<times> 'n \<Rightarrow> bool" where
  "told W P x y \<longleftrightarrow> (if (fst x, fst y) \<in> P then par2 W (snd x) (snd y) else snd x = snd y \<or> bef2 W (snd x) (snd y))"

definition block_post :: "'n orders \<Rightarrow> 'n \<times> 'n \<Rightarrow> ('n \<times> 'n) option \<Rightarrow> 'a block \<Rightarrow> ('a \<times> 'n \<times> 'n) list \<Rightarrow>
    'n orders \<Rightarrow> 'n \<times> 'n \<Rightarrow> ('n \<times> 'n) option \<Rightarrow> bool" where
  "block_post W c s b L W' c' s' \<longleftrightarrow> map fst L = block_marks b \<and> ext2 W W' \<and> (\<forall>n\<in>insert c' (snd ` set L). twin2 W W' c n) \<and>
     (case s of Some s0 \<Rightarrow> s' = Some s0 | None \<Rightarrow> \<forall>s0. s' = Some s0 \<longrightarrow> twin2 W W' c s0) \<and>
     (\<forall>s0. s' = Some s0 \<longrightarrow> (\<forall>n\<in>insert c' (snd ` set L). bef2 W' n s0)) \<and>
     (s' = None \<longrightarrow> (\<forall>n\<in>snd ` set L. n = c' \<or> bef2 W' n c')) \<and>
     (distinct (block_marks b) \<longrightarrow> sorted_wrt (told W' (block_par b)) L)"

definition body_post :: "'n orders \<Rightarrow> 'n \<times> 'n \<Rightarrow> 'a body \<Rightarrow> ('a \<times> 'n \<times> 'n) list \<Rightarrow> 'n orders \<Rightarrow> 'n \<times> 'n \<Rightarrow> bool" where
  "body_post W c b L W' c' \<longleftrightarrow> map fst L = body_marks b \<and> ext2 W W' \<and> (\<forall>n\<in>insert c' (snd ` set L). twin2 W W' c n) \<and>
     (\<forall>n\<in>snd ` set L. n = c' \<or> bef2 W' n c') \<and>
     (distinct (body_marks b) \<longrightarrow> sorted_wrt (told W' (body_par b)) L)"

lemma told_later:
  assumes "sorted_wrt (told W P) L" "ext2 W W'" "\<And>x y. x \<in> fst ` set L \<Longrightarrow> y \<in> fst ` set L \<Longrightarrow> (x, y) \<in> P \<longleftrightarrow> (x, y) \<in> P'"
  shows "sorted_wrt (told W' P') L"
  using assms(1)
  by (rule sorted_wrt_mono_rel [rotated]) (use assms(2,3) in \<open>auto simp: told_def split: if_splits intro: ext2_bef\<close>)

text \<open>Two parts that run one after the other.\<close>

lemma told_append:
  assumes 1: "sorted_wrt (told W1 P1) L1" "ext2 W1 W'" and 2: "sorted_wrt (told W' P2) L2"
    and P: "P1 \<subseteq> set (map fst L1) \<times> set (map fst L1)" "P2 \<subseteq> set (map fst L2) \<times> set (map fst L2)" "distinct (map fst L1 @ map fst L2)"
    and X: "X = {} \<or> X = set (map fst L1) \<times> set (map fst L2)"
    and cross: "\<And>m n. m \<in> snd ` set L1 \<Longrightarrow> n \<in> snd ` set L2 \<Longrightarrow> (if X = {} then m = n \<or> bef2 W' m n else par2 W' m n)"
  shows "sorted_wrt (told W' (P1 \<union> X \<union> P2)) (L1 @ L2)"
proof -
  let ?P = "P1 \<union> X \<union> P2"
  have d: "x \<notin> fst ` set L2" if "x \<in> fst ` set L1" for x using P(3) that by auto
  have in1: "(x, y) \<in> ?P \<longleftrightarrow> (x, y) \<in> P1" if "x \<in> fst ` set L1" "y \<in> fst ` set L1" for x y
    using d [OF that(1)] d [OF that(2)] P(2) X by auto
  have in2: "(x, y) \<in> ?P \<longleftrightarrow> (x, y) \<in> P2" if "x \<in> fst ` set L2" "y \<in> fst ` set L2" for x y
  proof -
    have "x \<notin> fst ` set L1" using d that(1) by blast
    then show ?thesis using P(1) X by auto
  qed
  have in12: "(x, y) \<in> ?P \<longleftrightarrow> X \<noteq> {}" if "x \<in> fst ` set L1" "y \<in> fst ` set L2" for x y
  proof -
    have "(x, y) \<notin> P1" "(x, y) \<notin> P2" using d [OF that(1)] d [of y] that P(1,2) by auto
    then show ?thesis using X that by auto
  qed
  have "sorted_wrt (told W' ?P) L1" by (rule told_later [OF 1]) (use in1 in blast)
  moreover have "told W' ?P x y = told W' P2 x y" if "x \<in> set L2" "y \<in> set L2" for x y
    unfolding told_def using in2 [of "fst x" "fst y"] that by (simp only: imageI)
  then have "sorted_wrt (told W' ?P) L2" using sorted_wrt_mono_rel [OF _ 2] by blast
  moreover have "told W' ?P x y" if "x \<in> set L1" "y \<in> set L2" for x y
    using cross [of "snd x" "snd y"] in12 [of "fst x" "fst y"] that by (auto simp: told_def split: if_splits)
  ultimately show ?thesis by (simp add: sorted_wrt_append)
qed

text \<open>The orders after a spawn.\<close>

lemma put2_spec:
  assumes "ok2 W" "strand_in W c" "fresh2 W n"
  shows "ext2 W (put2 c n W) \<and> twin2 W (put2 c n W) c n \<and> bef2 (put2 c n W) c n"
proof -
  have a: "distinct (fst W)" "fst c \<in> set (fst W)" "fst n \<notin> set (fst W)" and b: "distinct (snd W)" "snd c \<in> set (snd W)" "snd n \<notin> set (snd W)"
    using assms by (simp_all add: ok2_def strand_in_def fresh2_def)
  have "ext2 W (put2 c n W)" using extends_insert [OF a] extends_insert [OF b] by (simp add: ext2_def put2_def)
  moreover have t: "twin2 W (put2 c n W) c n"
    using twin_insert [OF a] twin_insert [OF b] a(3) b(3) by (simp add: twin2_def put2_def)
  moreover have "n \<noteq> c" using a by auto
  ultimately show ?thesis using twin2_le [OF t assms(2)] by blast
qed

lemma fork2_spec:
  assumes ok: "ok2 W" and c: "strand_in W c" and f: "fresh2 W f" and k: "fresh2 W k" and ne: "fst f \<noteq> fst k" "snd f \<noteq> snd k"
  shows "ext2 W (fork2 c f k W) \<and> twin2 W (fork2 c f k W) c f \<and> twin2 W (fork2 c f k W) c k \<and>
    par2 (fork2 c f k W) f k"
proof -
  have a: "distinct (fst W)" "fst c \<in> set (fst W)" "fst f \<notin> set (fst W)" "fst k \<notin> set (fst W)"
    and b: "distinct (snd W)" "snd c \<in> set (snd W)" "snd f \<notin> set (snd W)" "snd k \<notin> set (snd W)"
    using assms by (simp_all add: ok2_def strand_in_def fresh2_def)
  let ?E = "insert_after (fst c) (fst f) (fst W)" and ?H = "insert_after (snd c) (snd k) (snd W)"
  have E: "extends (fst W) ?E" "twin (fst W) ?E (fst c) (fst f)" using extends_insert [OF a(1-3)] twin_insert [OF a(1-3)] .
  have H: "extends (snd W) ?H" "twin (snd W) ?H (snd c) (snd k)" using extends_insert [OF b(1,2,4)] twin_insert [OF b(1,2,4)] .
  have e: "distinct ?E" "fst f \<in> set ?E" "fst k \<notin> set ?E" using E a ne(1) set_insert_after [OF a(2), of "fst f"] by (auto simp: extends_def)
  have h: "distinct ?H" "snd k \<in> set ?H" "snd f \<notin> set ?H" using H b ne(2) set_insert_after [OF b(2), of "snd k"] by (auto simp: extends_def)
  have E2: "extends ?E (fst (fork2 c f k W))" "twin ?E (fst (fork2 c f k W)) (fst f) (fst k)"
    using extends_insert [OF e] twin_insert [OF e] by (simp_all add: fork2_def)
  have H2: "extends ?H (snd (fork2 c f k W))" "twin ?H (snd (fork2 c f k W)) (snd k) (snd f)"
    using extends_insert [OF h] twin_insert [OF h] by (simp_all add: fork2_def)
  have "ext2 W (fork2 c f k W)" using extends_trans [OF E(1) E2(1)] extends_trans [OF H(1) H2(1)] by (simp add: ext2_def)
  moreover have "twin (fst W) (fst (fork2 c f k W)) (fst c) (fst f)" "twin (snd W) (snd (fork2 c f k W)) (snd c) (snd k)"
    using twin_later [OF E(2,1) E2(1) a(2)] twin_later [OF H(2,1) H2(1) b(2)] .
  moreover have "twin (fst W) (fst (fork2 c f k W)) (fst c) (fst k)" "twin (snd W) (snd (fork2 c f k W)) (snd c) (snd f)"
    using twin_trans [OF E(2) E2(2) E(1) E2(1) a(2)] twin_trans [OF H(2) H2(2) H(1) H2(1) b(2)] .
  moreover have "bef (fst (fork2 c f k W)) (fst f) (fst k)" "bef (snd (fork2 c f k W)) (snd k) (snd f)"
    using E2(2) H2(2) ne by (auto simp: twin_def)
  ultimately show ?thesis using a b by (simp add: twin2_def par2_def)
qed

text \<open>One part that runs from \<open>c\<close> to \<open>r\<close>, and a part that goes on from \<open>r\<close>.\<close>

lemma seq_le:
  assumes "m = r \<or> bef2 W1 m r" "twin2 W1 W' r n" "ext2 W1 W'" "strand_in W1 r"
  shows "m = n \<or> bef2 W' m n"
  using assms(1) twin2_le [OF assms(2,4)] ext2_bef(1) [OF assms(3)] bef2_trans [OF ext2_ok [OF assms(3)]] by metis

lemma in_snd_append: "n \<in> insert r (snd ` set (L1 @ L2)) \<longleftrightarrow> n \<in> snd ` set L1 \<or> n \<in> insert r (snd ` set L2)"
  by (simp add: image_Un) blast

lemma in_snd_Cons: "n \<in> insert r (snd ` set ((a, c) # L)) \<longleftrightarrow> n = c \<or> n \<in> insert r (snd ` set L)"
  by simp blast

lemma block_postI:
  assumes "map fst L = block_marks b" "ext2 W W'" "\<And>n. n \<in> insert c' (snd ` set L) \<Longrightarrow> twin2 W W' c n"
    "\<And>s0. s = Some s0 \<Longrightarrow> s' = Some s0" "\<And>s0. s = None \<Longrightarrow> s' = Some s0 \<Longrightarrow> twin2 W W' c s0"
    "\<And>s0 n. s' = Some s0 \<Longrightarrow> n \<in> insert c' (snd ` set L) \<Longrightarrow> bef2 W' n s0"
    "\<And>n. s' = None \<Longrightarrow> n \<in> snd ` set L \<Longrightarrow> n = c' \<or> bef2 W' n c'"
    "distinct (block_marks b) \<Longrightarrow> sorted_wrt (told W' (block_par b)) L"
  shows "block_post W c s b L W' c' s'"
  unfolding block_post_def using assms by (auto split: option.split)

lemma block_postD:
  assumes "block_post W c s b L W' c' s'"
  shows "map fst L = block_marks b" "ext2 W W'" "\<And>n. n \<in> insert c' (snd ` set L) \<Longrightarrow> twin2 W W' c n"
    "\<And>s0. s = Some s0 \<Longrightarrow> s' = Some s0" "\<And>s0. s = None \<Longrightarrow> s' = Some s0 \<Longrightarrow> twin2 W W' c s0"
    "\<And>s0 n. s' = Some s0 \<Longrightarrow> n \<in> insert c' (snd ` set L) \<Longrightarrow> bef2 W' n s0"
    "\<And>n. s' = None \<Longrightarrow> n \<in> snd ` set L \<Longrightarrow> n = c' \<or> bef2 W' n c'"
    "distinct (block_marks b) \<Longrightarrow> sorted_wrt (told W' (block_par b)) L"
  using assms unfolding block_post_def by (auto split: option.splits)

lemma body_postD:
  assumes "body_post W c b L W' c'"
  shows "map fst L = body_marks b" "ext2 W W'" "\<And>n. n \<in> insert c' (snd ` set L) \<Longrightarrow> twin2 W W' c n"
    "\<And>n. n \<in> insert c' (snd ` set L) \<Longrightarrow> n = c' \<or> bef2 W' n c'"
    "distinct (body_marks b) \<Longrightarrow> sorted_wrt (told W' (body_par b)) L"
  using assms unfolding body_post_def by auto

lemma block_mark_post:
  assumes ok: "ok2 W" and c: "strand_in W c" and IH: "block_post W c s js L W' c' s'"
  shows "block_post W c s (Mark a # js) ((a, c) # L) W' c' s'"
proof (rule block_postI)
  note D = block_postD [OF IH]
  have le: "c = n \<or> bef2 W' c n" if "n \<in> insert c' (snd ` set L)" for n using twin2_le [OF D(3) [OF that] c] by blast
  show "map fst ((a, c) # L) = block_marks (Mark a # js)" "ext2 W W'" using D(1,2) by simp_all
  show "twin2 W W' c n" if "n \<in> insert c' (snd ` set ((a, c) # L))" for n
    using that D(3) twin2_refl [OF D(2) c] unfolding in_snd_Cons by blast
  show "s' = Some s0" if "s = Some s0" for s0 using that D(4) by simp
  show "twin2 W W' c s0" if "s = None" "s' = Some s0" for s0 using that D(5) by simp
  show "bef2 W' n s0" if "s' = Some s0" "n \<in> insert c' (snd ` set ((a, c) # L))" for s0 n
  proof -
    have "c = c' \<or> bef2 W' c c'" "bef2 W' c' s0" using le D(6) [OF that(1)] by blast+
    then have "bef2 W' c s0" using bef2_trans [OF ext2_ok [OF D(2)]] by metis
    then show ?thesis using that(2) D(6) [OF that(1)] unfolding in_snd_Cons by blast
  qed
  show "n = c' \<or> bef2 W' n c'" if "s' = None" "n \<in> snd ` set ((a, c) # L)" for n
  proof -
    have "n = c \<or> n \<in> snd ` set L" "c = c' \<or> bef2 W' c c'" using that(2) le by auto
    then show ?thesis using D(7) [OF that(1)] by metis
  qed
  assume d: "distinct (block_marks (Mark a # js))"
  have "sorted_wrt (told W' ({} \<union> {} \<union> block_par js)) ([(a, c)] @ L)"
  proof (rule told_append [where ?W1.0 = W'])
    show "ext2 W' W'" by (rule ext2_refl [OF ext2_ok [OF D(2)]])
    show "sorted_wrt (told W' (block_par js)) L" using D(8) d by simp
    show "block_par js \<subseteq> set (map fst L) \<times> set (map fst L)" using par_marks(2) [of js] by (simp only: D(1))
    show "distinct (map fst [(a, c)] @ map fst L)" using d by (simp only: D(1)) simp
  qed (use le in auto)
  then show "sorted_wrt (told W' (block_par (Mark a # js))) ((a, c) # L)" by simp
qed

lemma block_call_post:
  assumes ok: "ok2 W" and c: "strand_in W c" and s: "\<forall>s0. s = Some s0 \<longrightarrow> bef2 W c s0"
    and 1: "body_post W c b L1 W1 c1" and 2: "block_post W1 c1 s js L2 W' c' s'"
  shows "block_post W c s (Call b # js) (L1 @ L2) W' c' s'"
proof (rule block_postI)
  note D = body_postD [OF 1] and E = block_postD [OF 2]
  have c1: "strand_in W1 c1" using twin2_in D(3) by blast
  have t1: "twin2 W W' c m" if "m \<in> snd ` set L1" for m using twin2_later [OF D(3) D(2) E(2) c] that by simp
  have t2: "twin2 W W' c n" if "twin2 W1 W' c1 n" for n using twin2_trans [OF D(3) that D(2) E(2) c] by simp
  have le: "m = n \<or> bef2 W' m n" if "m \<in> snd ` set L1" "twin2 W1 W' c1 n" for m n
    by (rule seq_le [OF D(4) that(2) E(2) c1]) (use that(1) in simp)
  show "map fst (L1 @ L2) = block_marks (Call b # js)" "ext2 W W'" using D(1) E(1) ext2_trans [OF D(2) E(2)] by simp_all
  show "twin2 W W' c n" if "n \<in> insert c' (snd ` set (L1 @ L2))" for n
    using that t1 t2 [OF E(3)] unfolding in_snd_append by blast
  show "s' = Some s0" if "s = Some s0" for s0 using that E(4) by simp
  show "twin2 W W' c s0" if "s = None" "s' = Some s0" for s0 using t2 [OF E(5)] that by simp
  show bd: "bef2 W' n s0" if "s' = Some s0" "n \<in> insert c' (snd ` set (L1 @ L2))" for s0 n
  proof (cases "n \<in> snd ` set L1")
    case True
    have "bef2 W' c' s0" using E(6) that(1) by simp
    moreover have "n = c' \<or> bef2 W' n c'" using le [OF True E(3)] by simp
    ultimately show ?thesis using bef2_trans [OF ext2_ok [OF E(2)]] by metis
  next
    case False
    then show ?thesis using E(6) [OF that(1)] that(2) unfolding in_snd_append by blast
  qed
  show "n = c' \<or> bef2 W' n c'" if "s' = None" "n \<in> snd ` set (L1 @ L2)" for n
  proof -
    have "n \<in> snd ` set L1 \<or> n \<in> snd ` set L2" using that(2) by auto
    then show ?thesis using E(7) [OF that(1)] le [of n c', OF _ E(3)] by blast
  qed
  assume d: "distinct (block_marks (Call b # js))"
  have "sorted_wrt (told W' (body_par b \<union> {} \<union> block_par js)) (L1 @ L2)"
  proof (rule told_append [OF _ E(2)])
    show "sorted_wrt (told W1 (body_par b)) L1" "sorted_wrt (told W' (block_par js)) L2" using D(5) E(8) d by simp_all
    show "body_par b \<subseteq> set (map fst L1) \<times> set (map fst L1)" "block_par js \<subseteq> set (map fst L2) \<times> set (map fst L2)"
      using par_marks(3) [of b] par_marks(2) [of js] by (simp_all only: D(1) E(1))
    show "distinct (map fst L1 @ map fst L2)" using d by (simp only: D(1) E(1)) simp
  qed (use le [OF _ E(3)] in auto)
  then show "sorted_wrt (told W' (block_par (Call b # js))) (L1 @ L2)" by simp
qed

lemma body_cons_post:
  assumes ok: "ok2 W" and c: "strand_in W c" and 1: "block_post W c None b L1 W1 c1 s"
    and 2: "body_post W1 (case s of None \<Rightarrow> c1 | Some s0 \<Rightarrow> s0) bs L2 W' c'"
  shows "body_post W c (b # bs) (L1 @ L2) W' c'"
proof -
  define r where "r = (case s of None \<Rightarrow> c1 | Some s0 \<Rightarrow> s0)"
  note D = block_postD [OF 1] and E = body_postD [OF 2 [folded r_def]]
  have r: "twin2 W W1 c r" using D(3) [of c1] D(5) by (simp add: r_def split: option.split)
  have m: "m = r \<or> bef2 W1 m r" if "m \<in> snd ` set L1" for m using that D(6,7) by (cases s) (auto simp: r_def)
  have t1: "twin2 W W' c m" if "m \<in> snd ` set L1" for m using twin2_later [OF D(3) D(2) E(2) c] that by simp
  have t2: "twin2 W W' c n" if "n \<in> insert c' (snd ` set L2)" for n using twin2_trans [OF r E(3) D(2) E(2) c] that by simp
  have le: "m = n \<or> bef2 W' m n" if "m \<in> snd ` set L1" "n \<in> insert c' (snd ` set L2)" for m n
    by (rule seq_le [OF m [OF that(1)] E(3) [OF that(2)] E(2) twin2_in [OF r]])
  have "sorted_wrt (told W' (body_par (b # bs))) (L1 @ L2)" if d: "distinct (body_marks (b # bs))"
  proof -
    have "sorted_wrt (told W' (block_par b \<union> {} \<union> body_par bs)) (L1 @ L2)"
    proof (rule told_append [OF _ E(2)])
      show "sorted_wrt (told W1 (block_par b)) L1" "sorted_wrt (told W' (body_par bs)) L2" using D(8) E(5) d by simp_all
      show "block_par b \<subseteq> set (map fst L1) \<times> set (map fst L1)" "body_par bs \<subseteq> set (map fst L2) \<times> set (map fst L2)"
        using par_marks(2) [of b] par_marks(3) [of bs] by (simp_all only: D(1) E(1))
      show "distinct (map fst L1 @ map fst L2)" using d by (simp only: D(1) E(1)) simp
    qed (use le in auto)
    then show ?thesis by simp
  qed
  moreover have "map fst (L1 @ L2) = body_marks (b # bs)" "ext2 W W'" using D(1) E(1) ext2_trans [OF D(2) E(2)] by simp_all
  moreover have "twin2 W W' c n" if "n \<in> insert c' (snd ` set (L1 @ L2))" for n
    using that t1 t2 unfolding in_snd_append by blast
  moreover have "n = c' \<or> bef2 W' n c'" if "n \<in> snd ` set (L1 @ L2)" for n using that le [of n c'] E(4) [of n] by auto
  ultimately show ?thesis unfolding body_post_def by blast
qed

text \<open>The strands of a spawn, up to the call of the child.\<close>

lemma spawn_setup:
  assumes ok: "ok2 W" and c: "strand_in W c" and s: "\<forall>s0. s = Some s0 \<longrightarrow> bef2 W c s0"
    and p: "case s of None \<Rightarrow> fresh2 W s1 \<and> W1 = put2 c s1 W | Some s0 \<Rightarrow> s1 = s0 \<and> W1 = W"
    and f: "fresh2 W1 f" "fresh2 W1 k" "fst f \<noteq> fst k" "snd f \<noteq> snd k"
  defines "F \<equiv> fork2 c f k W1"
  shows "ext2 W F" "twin2 W F c f" "twin2 W F c k" "par2 F f k" "bef2 F f s1" "bef2 F k s1" "s = None \<Longrightarrow> twin2 W F c s1"
proof -
  have P: "ext2 W W1 \<and> bef2 W1 c s1 \<and> (s = None \<longrightarrow> twin2 W W1 c s1)"
    using p s put2_spec [OF ok c, of s1] ext2_refl [OF ok] by (cases s) auto
  have c1: "strand_in W1 c" using bef2_in P by blast
  have ok1: "ok2 W1" using P ext2_ok by blast
  have F: "ext2 W1 F" "twin2 W1 F c f" "twin2 W1 F c k" "par2 F f k"
    using fork2_spec [OF ok1 c1 f] by (simp_all add: F_def)
  have cc: "twin2 W W1 c c" using twin2_refl P c by blast
  show "ext2 W F" using P F(1) ext2_trans by blast
  show "twin2 W F c f" "twin2 W F c k" using twin2_trans [OF cc _ _ F(1) c] F(2,3) P by blast+
  show "par2 F f k" by (rule F(4))
  show "bef2 F f s1" "bef2 F k s1" using twin2_bef [OF _ _ ok1] F(2,3) P by blast+
  show "twin2 W F c s1" if "s = None" using P that twin2_later [OF _ _ F(1) c] by blast
qed

lemma block_spawn_post:
  assumes ok: "ok2 W" and c: "strand_in W c" and s: "\<forall>s0. s = Some s0 \<longrightarrow> bef2 W c s0"
    and p: "case s of None \<Rightarrow> fresh2 W s1 \<and> W1 = put2 c s1 W | Some s0 \<Rightarrow> s1 = s0 \<and> W1 = W"
    and f: "fresh2 W1 f" "fresh2 W1 k" "fst f \<noteq> fst k" "snd f \<noteq> snd k"
    and 1: "body_post (fork2 c f k W1) f b L1 W2 f'" and 2: "block_post W2 k (Some s1) js L2 W' c' s'"
  shows "block_post W c s (Spawn b # js) (L1 @ L2) W' c' s'"
proof (rule block_postI)
  note S = spawn_setup [OF ok c s p f] and D = body_postD [OF 1] and E = block_postD [OF 2]
  define F where "F = fork2 c f k W1"
  note S = S [folded F_def] and D = D [folded F_def]
  have okF: "ok2 F" and ok2: "ok2 W2" using ext2_ok S(1) D(2) by blast+
  have fF: "strand_in F f" "strand_in F k" using twin2_in S(2,3) by blast+
  have x: "ext2 F W'" "ext2 W W'" using ext2_trans D(2) E(2) S(1) by blast+
  have tf: "twin2 W W' c m" if "m \<in> snd ` set L1" for m
    using twin2_trans [OF S(2) twin2_later [OF D(3) D(2) E(2) fF(1)] S(1) x(1) c] that by simp
  have kW2: "twin2 F W2 k k" by (rule twin2_refl [OF D(2) fF(2)])
  have tk: "twin2 W W' c n" if "n \<in> insert c' (snd ` set L2)" for n
    using twin2_trans [OF S(3) twin2_trans [OF kW2 E(3) [OF that] D(2) E(2) fF(2)] S(1) x(1) c] .
  have s': "s' = Some s1" using E(4) by simp
  have par: "par2 W' m n" if "m \<in> snd ` set L1" "n \<in> snd ` set L2" for m n
  proof -
    have "par2 W2 m k" using twin2_par [OF D(3) S(4) okF] that(1) by simp
    then show ?thesis using twin2_par' [OF E(3) _ ok2] that(2) by simp
  qed
  show "map fst (L1 @ L2) = block_marks (Spawn b # js)" using D(1) E(1) by simp
  show "ext2 W W'" by (rule x)
  show "twin2 W W' c n" if "n \<in> insert c' (snd ` set (L1 @ L2))" for n
    using that tf tk unfolding in_snd_append by blast
  show "s' = Some s0" if "s = Some s0" for s0 using that p s' by simp
  show "twin2 W W' c s0" if "s = None" "s' = Some s0" for s0
    using that s' twin2_later [OF S(7) S(1) x(1) c] by simp
  show "bef2 W' n s0" if "s' = Some s0" "n \<in> insert c' (snd ` set (L1 @ L2))" for s0 n
  proof (cases "n \<in> snd ` set L1")
    case True
    then have "bef2 W2 n s1" using twin2_bef [OF D(3) S(5) okF] by simp
    then show ?thesis using ext2_bef(1) [OF E(2)] that(1) s' by simp
  next
    case False
    then have "n \<in> insert c' (snd ` set L2)" using that(2) unfolding in_snd_append by blast
    then show ?thesis using E(6) [OF s'] that(1) s' by simp
  qed
  show "n = c' \<or> bef2 W' n c'" if "s' = None" "n \<in> snd ` set (L1 @ L2)" for n using that s' by simp
  assume d: "distinct (block_marks (Spawn b # js))"
  let ?X = "set (body_marks b) \<times> set (block_marks js)"
  have "sorted_wrt (told W' (body_par b \<union> ?X \<union> block_par js)) (L1 @ L2)"
  proof (rule told_append [OF _ E(2)])
    show "sorted_wrt (told W2 (body_par b)) L1" "sorted_wrt (told W' (block_par js)) L2" using D(5) E(8) d by simp_all
    show "body_par b \<subseteq> set (map fst L1) \<times> set (map fst L1)" "block_par js \<subseteq> set (map fst L2) \<times> set (map fst L2)"
      using par_marks(3) [of b] par_marks(2) [of js] by (simp_all only: D(1) E(1))
    show "distinct (map fst L1 @ map fst L2)" using d by (simp only: D(1) E(1)) simp
    show "?X = {} \<or> ?X = set (map fst L1) \<times> set (map fst L2)" by (simp only: D(1) E(1)) simp
    show "if ?X = {} then m = n \<or> bef2 W' m n else par2 W' m n" if mn: "m \<in> snd ` set L1" "n \<in> snd ` set L2" for m n
    proof -
      have "set (map fst L1) \<noteq> {}" "set (map fst L2) \<noteq> {}" using mn by auto
      then have "?X \<noteq> {}" by (simp only: D(1) E(1)) simp
      then show ?thesis using par [OF mn] by (simp only: if_False)
    qed
  qed
  then show "sorted_wrt (told W' (block_par (Spawn b # js))) (L1 @ L2)" by simp
qed

lemma spawn_bound:
  assumes "ok2 W" "strand_in W c" "\<forall>s0. s = Some s0 \<longrightarrow> bef2 W c s0"
    and "case s of None \<Rightarrow> fresh2 W s1 \<and> W1 = put2 c s1 W | Some s0 \<Rightarrow> s1 = s0 \<and> W1 = W"
    and "fresh2 W1 f" "fresh2 W1 k" "fst f \<noteq> fst k" "snd f \<noteq> snd k"
    and "body_post (fork2 c f k W1) f b L1 W2 f'"
  shows "ok2 W2" "strand_in W2 k" "bef2 W2 k s1"
proof -
  note S = spawn_setup [OF assms(1-8)]
  have x: "ext2 (fork2 c f k W1) W2" using body_postD(2) [OF assms(9)] .
  show "ok2 W2" "strand_in W2 k" "bef2 W2 k s1" using ext2_ok [OF x] ext2_in [OF x] ext2_bef(1) [OF x] twin2_in S(3,6) by blast+
qed

lemma sp_orders:
  fixes b :: "'a block" and bb :: "'a body"
  shows "sp_block W c s b L W' c' s' \<Longrightarrow> ok2 W \<Longrightarrow> strand_in W c \<Longrightarrow> (\<forall>s0. s = Some s0 \<longrightarrow> bef2 W c s0) \<Longrightarrow> block_post W c s b L W' c' s'"
    and "sp_body W c bb L W' c' \<Longrightarrow> ok2 W \<Longrightarrow> strand_in W c \<Longrightarrow> body_post W c bb L W' c'"
proof (induction rule: sp_block_sp_body.inducts)
  case (Block_Nil W c s)
  then show ?case by (auto simp: block_post_def ext2_refl twin2_refl split: option.split)
next
  case (Block_Mark W c s js L W' c' s' a)
  then show ?case by (intro block_mark_post) simp_all
next
  case (Block_Call W c b L1 W1 c1 s js L2 W' c' s')
  have 1: "body_post W c b L1 W1 c1" using Block_Call by blast
  note D = body_postD [OF 1]
  have c1: "twin2 W W1 c c1" using D(3) by simp
  have "bef2 W1 c1 s0" if "s = Some s0" for s0 using twin2_bef [OF c1] Block_Call.prems that by blast
  then have "block_post W1 c1 s js L2 W' c' s'" using Block_Call.IH(2) ext2_ok [OF D(2)] twin2_in [OF c1] by blast
  then show ?case using block_call_post [OF Block_Call.prems 1] by blast
next
  case (Block_Spawn s W s1 W1 c f k b L1 W2 f' js L2 W' c' s')
  note S = spawn_setup [OF Block_Spawn.prems Block_Spawn.hyps(1-5)]
  have 1: "body_post (fork2 c f k W1) f b L1 W2 f'" using Block_Spawn.IH(1) ext2_ok [OF S(1)] twin2_in [OF S(2)] by blast
  have "block_post W2 k (Some s1) js L2 W' c' s'"
    using Block_Spawn.IH(2) spawn_bound [OF Block_Spawn.prems Block_Spawn.hyps(1-5) 1] by blast
  then show ?case using block_spawn_post [OF Block_Spawn.prems Block_Spawn.hyps(1-5) 1] by blast
next
  case (Body_Nil W c)
  then show ?case by (auto simp: body_post_def ext2_refl twin2_refl)
next
  case (Body_Cons W c b L1 W1 c1 s bs L2 W' c')
  have 1: "block_post W c None b L1 W1 c1 s" using Body_Cons by simp
  note D = block_postD [OF 1]
  have r: "twin2 W W1 c (case s of None \<Rightarrow> c1 | Some s0 \<Rightarrow> s0)" using D(3) [of c1] D(5) by (simp split: option.split)
  have "body_post W1 (case s of None \<Rightarrow> c1 | Some s0 \<Rightarrow> s0) bs L2 W' c'"
    using Body_Cons.IH(2) ext2_ok [OF D(2)] twin2_in [OF r] by blast
  then show ?case using body_cons_post [OF Body_Cons.prems 1] by blast
qed

section \<open>Numbering the strands\<close>

text \<open>
  Steps are in one strand when neither a spawn nor a sync after a spawn is between them. The functions number the strands of a
  program in the order of its execution: they take the next free number, the current one and whether the block has spawned, and
  give the numbers of the steps.
\<close>

fun item_strands :: "'a item \<Rightarrow> nat \<Rightarrow> nat \<Rightarrow> bool \<Rightarrow> nat list \<times> nat \<times> nat \<times> bool"
  and block_strands :: "'a block \<Rightarrow> nat \<Rightarrow> nat \<Rightarrow> bool \<Rightarrow> nat list \<times> nat \<times> nat"
  and body_strands :: "'a body \<Rightarrow> nat \<Rightarrow> nat \<Rightarrow> nat list \<times> nat \<times> nat" where
  "item_strands (Mark a) nx c sp = ([c], nx, c, sp)"
| "item_strands (Call b) nx c sp = (let (ls, nx, c) = body_strands b nx c in (ls, nx, c, sp))"
| "item_strands (Spawn b) nx c sp = (let (ls, nx, c) = body_strands b (nx + 1) nx in (ls, nx + 1, nx, True))"
| "block_strands [] nx c sp = (if sp then ([], nx + 1, nx) else ([], nx, c))"
| "block_strands (i # js) nx c sp =
     (let (ls, nx, c, sp) = item_strands i nx c sp; (ms, nx, c) = block_strands js nx c sp in (ls @ ms, nx, c))"
| "body_strands [] nx c = ([], nx, c)"
| "body_strands (b # bs) nx c =
     (let (ls, nx, c) = block_strands b nx c False; (ms, nx, c) = body_strands bs nx c in (ls @ ms, nx, c))"

text \<open>A numbering of the strands that have been current.\<close>

definition numbers :: "('n \<times> 'n \<Rightarrow> nat option) \<Rightarrow> 'n orders \<Rightarrow> nat \<Rightarrow> bool" where
  "numbers p W nx \<longleftrightarrow> (\<forall>x l. p x = Some l \<longrightarrow> strand_in W x \<and> l < nx) \<and> inj_on p (dom p)"

lemma numbers_new: "numbers p W nx \<Longrightarrow> strand_in W x \<Longrightarrow> p x = None \<Longrightarrow> numbers (p(x \<mapsto> nx)) W (nx + 1)"
  unfolding numbers_def inj_on_def by (auto simp: dom_def less_Suc_eq) (metis less_irrefl)+

lemma numbers_mono: "numbers p W nx \<Longrightarrow> (\<And>x. strand_in W x \<Longrightarrow> strand_in W' x) \<Longrightarrow> numbers p W' nx"
  unfolding numbers_def by blast

lemma put2_mono: "strand_in W x \<Longrightarrow> strand_in (put2 c n W) x"
  unfolding strand_in_def put2_def by (cases "fst c \<in> set (fst W)"; cases "snd c \<in> set (snd W)") (auto simp: set_insert_after)

lemma put2_new: "strand_in W c \<Longrightarrow> strand_in (put2 c n W) n"
  unfolding strand_in_def put2_def by (simp add: set_insert_after)

lemma fork2_mono: "strand_in W c \<Longrightarrow> strand_in W x \<Longrightarrow> strand_in (fork2 c f k W) x"
  unfolding strand_in_def fork2_def by (simp add: set_insert_after)

lemma fork2_new: "strand_in W c \<Longrightarrow> strand_in (fork2 c f k W) f \<and> strand_in (fork2 c f k W) k"
  unfolding strand_in_def fork2_def by (simp add: set_insert_after)

lemma fresh2_not_in: "fresh2 W n \<Longrightarrow> \<not> strand_in W n"
  by (simp add: fresh2_def strand_in_def)

definition numbered :: "('n \<times> 'n \<Rightarrow> nat option) \<Rightarrow> ('a \<times> 'n \<times> 'n) list \<Rightarrow> nat list \<Rightarrow> bool" where
  "numbered p L ls \<longleftrightarrow> list_all2 (\<lambda>x l. p (snd x) = Some l) L ls"

lemma numbered_later:
  assumes "numbered p L ls" "\<And>x l. p x = Some l \<Longrightarrow> p' x = Some l"
  shows "numbered p' L ls"
  using assms(1) unfolding numbered_def by (rule list_all2_mono) (rule assms(2))

lemma numbered_append: "numbered p L1 ls \<Longrightarrow> numbered p L2 ms \<Longrightarrow> numbered p (L1 @ L2) (ls @ ms)"
  unfolding numbered_def by (rule list_all2_appendI)

text \<open>The numbering \<open>p'\<close> after a part keeps the numbers of old strands, except that a sync may number the strand \<open>s\<close>.\<close>

definition renumbers :: "('n \<times> 'n \<Rightarrow> nat option) \<Rightarrow> 'n orders \<Rightarrow> ('n \<times> 'n) option \<Rightarrow> ('a \<times> 'n \<times> 'n) list \<Rightarrow>
    ('n \<times> 'n \<Rightarrow> nat option) \<Rightarrow> 'n orders \<Rightarrow> 'n \<times> 'n \<Rightarrow> nat list \<times> nat \<times> nat \<Rightarrow> bool" where
  "renumbers p W s L p' W' r res \<longleftrightarrow> numbers p' W' (fst (snd res)) \<and> p' r = Some (snd (snd res)) \<and> numbered p' L (fst res) \<and>
     (\<forall>x. strand_in W x \<longrightarrow> strand_in W' x) \<and> (\<forall>x. strand_in W x \<longrightarrow> s \<noteq> Some x \<longrightarrow> p' x = p x)"

lemma renumbers_old: "renumbers p W s L p' W' r res \<Longrightarrow> numbers p W nx \<Longrightarrow> (\<forall>s0. s = Some s0 \<longrightarrow> p s0 = None) \<Longrightarrow> p x = Some l \<Longrightarrow> p' x = Some l"
  unfolding renumbers_def numbers_def by (metis option.distinct(1))

lemma renumbers_seq:
  assumes 1: "renumbers p W None L1 p1 W1 c1 res1" and 2: "renumbers p1 W1 s L2 p' W' r res2"
    and s: "\<forall>s0. s = Some s0 \<longrightarrow> p1 s0 = None"
  shows "renumbers p W s (L1 @ L2) p' W' r (fst res1 @ fst res2, snd res2)"
proof -
  have n1: "numbers p1 W1 (fst (snd res1))" and l1: "numbered p1 L1 (fst res1)" using 1 by (simp_all add: renumbers_def)
  have "numbered p' L1 (fst res1)" by (rule numbered_later [OF l1 renumbers_old [OF 2 n1 s]])
  then have "numbered p' (L1 @ L2) (fst res1 @ fst res2)" using 2 by (simp add: renumbers_def numbered_append)
  then show ?thesis using 1 2 unfolding renumbers_def by simp
qed

lemma sp_numbers:
  fixes b :: "'a block" and bb :: "'a body"
  shows "sp_block W c s b L W' c' s' \<Longrightarrow> numbers p W nx \<Longrightarrow> p c = Some l \<Longrightarrow> (\<forall>s0. s = Some s0 \<longrightarrow> p s0 = None \<and> strand_in W s0) \<Longrightarrow>
      \<exists>p'. renumbers p W s L p' W' (case s' of None \<Rightarrow> c' | Some s0 \<Rightarrow> s0) (block_strands b nx l (s \<noteq> None))"
    and "sp_body W c bb L W' c' \<Longrightarrow> numbers p W nx \<Longrightarrow> p c = Some l \<Longrightarrow> \<exists>p'. renumbers p W None L p' W' c' (body_strands bb nx l)"
proof (induction arbitrary: p nx l and p nx l rule: sp_block_sp_body.inducts)
  case (Block_Nil W c s)
  show ?case
  proof (cases s)
    case None
    then have "renumbers p W s [] p W c (block_strands ([] :: 'a block) nx l (s \<noteq> None))"
      using Block_Nil by (simp add: renumbers_def numbered_def)
    then show ?thesis using None by auto
  next
    case (Some s0)
    then have "renumbers p W s [] (p(s0 \<mapsto> nx)) W s0 (block_strands ([] :: 'a block) nx l (s \<noteq> None))"
      using Block_Nil numbers_new [of p W nx s0] by (simp add: renumbers_def numbered_def)
    then show ?thesis using Some by auto
  qed
next
  case (Block_Mark W c s js L W' c' s' a)
  let ?r = "case s' of None \<Rightarrow> c' | Some s0 \<Rightarrow> s0"
  from Block_Mark.IH [OF Block_Mark.prems] obtain p' where p': "renumbers p W s L p' W' ?r (block_strands js nx l (s \<noteq> None))" by blast
  have "p' c = Some l" by (rule renumbers_old [OF p' Block_Mark.prems(1) _ Block_Mark.prems(2)]) (use Block_Mark.prems(3) in blast)
  then have "renumbers p W s ((a, c) # L) p' W' ?r (block_strands (Mark a # js) nx l (s \<noteq> None))"
    using p' by (simp add: renumbers_def numbered_def split_def Let_def)
  then show ?case by blast
next
  case (Block_Call W c b L1 W1 c1 s js L2 W' c' s')
  let ?r = "case s' of None \<Rightarrow> c' | Some s0 \<Rightarrow> s0" and ?b = "body_strands b nx l"
  from Block_Call.IH(1) [OF Block_Call.prems(1,2)] obtain p1 where p1: "renumbers p W None L1 p1 W1 c1 ?b" by blast
  then have q: "numbers p1 W1 (fst (snd ?b))" "p1 c1 = Some (snd (snd ?b))" by (simp_all add: renumbers_def)
  have s1: "\<forall>s0. s = Some s0 \<longrightarrow> p1 s0 = None \<and> strand_in W1 s0" using p1 Block_Call.prems(3) by (simp add: renumbers_def)
  from Block_Call.IH(2) [OF q s1] obtain p' where
    "renumbers p1 W1 s L2 p' W' ?r (block_strands js (fst (snd ?b)) (snd (snd ?b)) (s \<noteq> None))" by blast
  from renumbers_seq [OF p1 this] s1 have "renumbers p W s (L1 @ L2) p' W' ?r (block_strands (Call b # js) nx l (s \<noteq> None))"
    by (simp add: split_def Let_def)
  then show ?case by blast
next
  case (Block_Spawn s W s1 W1 c f k b L1 W2 f' js L2 W' c' s')
  let ?r = "case s' of None \<Rightarrow> c' | Some s0 \<Rightarrow> s0" and ?b = "body_strands b (nx + 1) nx" and ?F = "fork2 c f k W1"
  have c: "strand_in W c" using Block_Spawn.prems(1,2) unfolding numbers_def by blast
  have W1: "strand_in W x \<Longrightarrow> strand_in W1 x" for x
    using Block_Spawn.hyps(1) put2_mono [of W x c s1] by (cases s) simp_all
  have c1: "strand_in W1 c" using W1 c by blast
  have s1: "p s1 = None" "strand_in W1 s1"
  proof -
    show "strand_in W1 s1" using Block_Spawn.hyps(1) Block_Spawn.prems(3) put2_new [OF c, of s1] by (cases s) auto
    show "p s1 = None"
    proof (cases s)
      case None
      then have "\<not> strand_in W s1" using Block_Spawn.hyps(1) fresh2_not_in [of W s1] by simp
      then show ?thesis using Block_Spawn.prems(1) unfolding numbers_def by (metis not_None_eq)
    qed (use Block_Spawn.hyps(1) Block_Spawn.prems(3) in simp)
  qed
  have FW: "strand_in W1 x \<Longrightarrow> strand_in ?F x" for x using fork2_mono [OF c1] by blast
  have fk: "strand_in ?F f" "strand_in ?F k" using fork2_new [OF c1] by blast+
  have nf: "\<not> strand_in W1 f" "\<not> strand_in W1 k" using Block_Spawn.hyps(2,3) fresh2_not_in by blast+
  have pn: "p x = None" if "\<not> strand_in W1 x" for x using that W1 Block_Spawn.prems(1) unfolding numbers_def by (metis not_None_eq)
  have nF: "numbers p ?F nx" using numbers_mono [OF Block_Spawn.prems(1)] W1 FW by blast
  have q: "numbers (p(f \<mapsto> nx)) ?F (nx + 1)" by (rule numbers_new [OF nF fk(1) pn [OF nf(1)]])
  have pf: "(p(f \<mapsto> nx)) f = Some nx" by simp
  from Block_Spawn.IH(1) [OF q pf] obtain p1 where p1: "renumbers (p(f \<mapsto> nx)) ?F None L1 p1 W2 f' ?b" by blast
  then have n1: "numbers p1 W2 (fst (snd ?b))" and mono: "\<And>x. strand_in ?F x \<Longrightarrow> strand_in W2 x"
    and keep: "\<And>x. strand_in ?F x \<Longrightarrow> p1 x = (p(f \<mapsto> nx)) x" by (simp_all only: renumbers_def option.distinct simp_thms)
  have ne: "k \<noteq> f" "s1 \<noteq> f" "s1 \<noteq> k" using Block_Spawn.hyps(4) nf s1(2) by auto
  have k1: "p1 k = None" using keep [OF fk(2)] pn [OF nf(2)] ne(1) by simp
  have q2: "numbers (p1(k \<mapsto> fst (snd ?b))) W2 (fst (snd ?b) + 1)" by (rule numbers_new [OF n1 mono [OF fk(2)] k1])
  have s2: "\<forall>s0. Some s1 = Some s0 \<longrightarrow> (p1(k \<mapsto> fst (snd ?b))) s0 = None \<and> strand_in W2 s0"
    using keep [OF FW [OF s1(2)]] s1(1) ne mono [OF FW [OF s1(2)]] by simp
  have pk: "(p1(k \<mapsto> fst (snd ?b))) k = Some (fst (snd ?b))" and tr: "(Some s1 \<noteq> None) = True" by simp_all
  from Block_Spawn.IH(2) [OF q2 pk s2, unfolded tr] obtain p' where
    p': "renumbers (p1(k \<mapsto> fst (snd ?b))) W2 (Some s1) L2 p' W' ?r (block_strands js (fst (snd ?b) + 1) (fst (snd ?b)) True)" by blast
  have old: "p' x = Some m" if "p1 x = Some m" for x m
  proof -
    have "x \<noteq> k" using that k1 by auto
    then have "(p1(k \<mapsto> fst (snd ?b))) x = Some m" using that by simp
    then show ?thesis using renumbers_old [OF p' q2] s2 by blast
  qed
  have "numbered p1 L1 (fst ?b)" using p1 by (simp only: renumbers_def)
  then have "numbered p' L1 (fst ?b)" by (rule numbered_later) (rule old)
  then have num: "numbered p' (L1 @ L2) (fst ?b @ fst (block_strands js (fst (snd ?b) + 1) (fst (snd ?b)) True))"
    using p' by (simp add: renumbers_def numbered_append)
  have "p' x = p x" if x: "strand_in W x" "s \<noteq> Some x" for x
  proof -
    have "x \<noteq> s1"
      using x Block_Spawn.hyps(1) fresh2_not_in [of W s1] by (cases s) auto
    moreover have "x \<noteq> f" "x \<noteq> k" using nf W1 [OF x(1)] by auto
    moreover have "strand_in W2 x" using mono FW W1 x(1) by blast
    moreover have "p' x = (p1(k \<mapsto> fst (snd ?b))) x" if "strand_in W2 x" "Some s1 \<noteq> Some x"
      using p' that unfolding renumbers_def by blast
    ultimately show ?thesis using keep [OF FW [OF W1 [OF x(1)]]] by simp
  qed
  moreover have "strand_in W' x" if "strand_in W x" for x
    using p' mono [OF FW [OF W1 [OF that]]] unfolding renumbers_def by blast
  ultimately have "renumbers p W s (L1 @ L2) p' W' ?r (block_strands (Spawn b # js) nx l (s \<noteq> None))"
    using p' num unfolding renumbers_def by (simp add: split_def Let_def)
  then show ?case by blast
next
  case (Body_Nil W c)
  then have "renumbers p W None [] p W c (body_strands ([] :: 'a body) nx l)" by (simp add: renumbers_def numbered_def)
  then show ?case by blast
next
  case (Body_Cons W c b L1 W1 c1 s bs L2 W' c')
  let ?r = "case s of None \<Rightarrow> c1 | Some s0 \<Rightarrow> s0" and ?b = "block_strands b nx l False"
  from Body_Cons.IH(1) [OF Body_Cons.prems] obtain p1 where p1: "renumbers p W None L1 p1 W1 ?r ?b" by auto
  then have q: "numbers p1 W1 (fst (snd ?b))" "p1 ?r = Some (snd (snd ?b))" by (simp_all add: renumbers_def)
  from Body_Cons.IH(2) [OF q] obtain p' where
    "renumbers p1 W1 None L2 p' W' c' (body_strands bs (fst (snd ?b)) (snd (snd ?b)))" by blast
  from renumbers_seq [OF p1 this] have "renumbers p W None (L1 @ L2) p' W' c' (body_strands (b # bs) nx l)"
    by (simp add: split_def Let_def)
  then show ?case by blast
qed

text \<open>The strand numbers of the steps of a program that starts in the strand zero.\<close>

definition strands_of :: "'a body \<Rightarrow> nat list" where "strands_of b = fst (body_strands b 1 0)"

lemma strands_of_same:
  assumes "sp_body W c b L W' c'" "strand_in W c"
  shows "length (strands_of b) = length L"
    and "i < length L \<Longrightarrow> j < length L \<Longrightarrow> snd (L ! i) = snd (L ! j) \<longleftrightarrow> strands_of b ! i = strands_of b ! j"
proof -
  have "numbers [c \<mapsto> 0] W 1" using assms(2) by (auto simp: numbers_def inj_on_def split: if_splits)
  from sp_numbers(2) [OF assms(1) this, of 0] obtain p where p: "renumbers [c \<mapsto> 0] W None L p W' c' (body_strands b 1 0)" by auto
  then have n: "numbered p L (strands_of b)" and inj: "inj_on p (dom p)" by (simp_all add: renumbers_def strands_of_def numbers_def)
  then show "length (strands_of b) = length L" by (simp add: numbered_def list_all2_lengthD)
  show "snd (L ! i) = snd (L ! j) \<longleftrightarrow> strands_of b ! i = strands_of b ! j" if "i < length L" "j < length L"
  proof -
    have "p (snd (L ! i)) = Some (strands_of b ! i)" "p (snd (L ! j)) = Some (strands_of b ! j)"
      using n that by (simp_all add: numbered_def list_all2_conv_all_nth)
    then show ?thesis using inj unfolding inj_on_def by (metis domI option.inject)
  qed
qed

end
