(* ===== verification/Detector_Run.thy ===== *)
theory Detector_Run
  imports Detector_Hooks Sp_Order
begin

text \<open>
  One worker runs a program with the detector: compiled code calls the hooks of \<^verbatim>\<open>Detector_Hooks\<close> at each step of a
  fork-join program, and no thief comes. The strands of such a run are those of \<^verbatim>\<open>Sp_Order\<close>, whatever structure
  keeps the two orders, so the detector reports a race if and only if two logically parallel steps conflict, or
  a strand reads and writes the same memory.
\<close>

section \<open>Running a program\<close>

record mem_step =
  step_id :: nat
  step_read :: bool
  step_addr :: addr_t
  step_size :: nat

text \<open>
  A call enters and leaves the function; a spawn prepares, enters the spawn helper, detaches it and calls the function from
  it; a block ends with a sync.
\<close>

fun run_item :: "('n, 'o) tool \<Rightarrow> nat \<Rightarrow> mem_step item \<Rightarrow> ('n, 'o) tsan \<Rightarrow> ('n, 'o) tsan proc"
  and run_block :: "('n, 'o) tool \<Rightarrow> nat \<Rightarrow> mem_step block \<Rightarrow> ('n, 'o) tsan \<Rightarrow> ('n, 'o) tsan proc"
  and run_body :: "('n, 'o) tool \<Rightarrow> nat \<Rightarrow> mem_step body \<Rightarrow> ('n, 'o) tsan \<Rightarrow> ('n, 'o) tsan proc" where
  "run_item E w (Mark s) d = tsan_rw E (step_read s) (step_size s) (step_addr s) w d"
| "run_item E w (Call b) d = do {
     d \<leftarrow> cilk_enter_begin E w d;
     d \<leftarrow> cilk_enter_end E w d;
     d \<leftarrow> run_body E w b d;
     d \<leftarrow> cilk_leave_begin False w d;
     cilk_leave_end E w d }"
| "run_item E w (Spawn b) d = do {
     d \<leftarrow> cilk_spawn_prepare w d;
     d \<leftarrow> cilk_enter_helper_begin w (cilk_spawn_or_continue w d);
     d \<leftarrow> cilk_enter_end E w d;
     d \<leftarrow> cilk_detach_begin E w d;
     d \<leftarrow> cilk_enter_begin E w (cilk_detach_end w d);
     d \<leftarrow> cilk_enter_end E w d;
     d \<leftarrow> run_body E w b d;
     d \<leftarrow> cilk_leave_begin False w d;
     d \<leftarrow> cilk_leave_end E w d;
     d \<leftarrow> cilk_leave_begin True w d;
     cilk_leave_end E w d }"
| "run_block E w [] d = do { d \<leftarrow> cilk_sync_begin E w d; cilk_sync_end w d }"
| "run_block E w (i # js) d = do { d \<leftarrow> run_item E w i d; run_block E w js d }"
| "run_body E w [] d = Some d"
| "run_body E w (b # bs) d = do { d \<leftarrow> run_block E w b d; run_body E w bs d }"

text \<open>The first function of the computation: the hooks before it find no frame.\<close>

definition run_main :: "('n, 'o) tool \<Rightarrow> nat \<Rightarrow> mem_step body \<Rightarrow> ('n, 'o) tsan \<Rightarrow> ('n, 'o) tsan proc" where
  "run_main E w b d = do {
     d \<leftarrow> cilk_enter_begin E w d;
     d \<leftarrow> cilk_enter_end E w d;
     d \<leftarrow> run_body E w b d;
     d \<leftarrow> cilk_leave_begin False w d;
     cilk_leave_end E w d }"

text \<open>The state of a process before the tool starts, with orders \<open>od\<close> that are not used before.\<close>

definition tsan_start :: "('n, 'o) tool \<Rightarrow> 'o \<Rightarrow> ('n, 'o) tsan" where
  "tsan_start E od = \<lparr>order = od, stacks = (\<lambda>_. Stack_new (uninit E)), next_stack = 0, active = (\<lambda>_. None), g_deque = None,
     lists = (\<lambda>_. None), next_list = 0, g_memory = Memory_init 0 0, p_memory = (\<lambda>_. None), future_id = 0, g_tool_init = False,
     g_first_frame = True, self_set = (\<lambda>_. False), t_worker = (\<lambda>_. None), batch_id = (\<lambda>_. -1), current_of = (\<lambda>_. None),
     next_current = 0, called_future = (\<lambda>_. False), checking_disabled = (\<lambda>_. 1), TOOL_INITIALIZED = False,
     check_enable_instrumentation = True, instrumentation = False, clear_stack = (\<lambda>_. False), stack_low_watermark = (\<lambda>_. -1),
     shadow_mem = empty_shadow, races = 0\<rparr>"

text \<open>A whole process with \<open>p\<close> workers: start of the tool, the program on worker \<open>w\<close>; the result is the number of races.\<close>

definition detect :: "('n, 'o) tool \<Rightarrow> nat \<Rightarrow> 'o \<Rightarrow> nat \<Rightarrow> mem_step body \<Rightarrow> nat proc" where
  "detect E p od w b = do {
     d \<leftarrow> cilk_tool_init E p od w (tsan_init w (tsan_start E od));
     d \<leftarrow> run_main E w b d;
     Some (races d) }"

section \<open>What the detector needs of the orders\<close>

text \<open>
  The orders are lists of nodes. An insertion behind a known node succeeds while there is \<open>room\<close> and puts a new node
  behind it; comparisons tell the positions.
\<close>

locale strand_orders =
  fixes E :: "('n, 'o) tool" and eng heb :: "'o \<Rightarrow> 'n list" and room :: "'o \<Rightarrow> nat \<Rightarrow> bool"
  assumes room_distinct: "room od k \<Longrightarrow> distinct (eng od) \<and> distinct (heb od)"
    and room_less: "room od k \<Longrightarrow> j \<le> k \<Longrightarrow> room od j"
    and insert_eng: "room od (Suc k) \<Longrightarrow> c \<in> set (eng od) \<Longrightarrow> \<exists>n od'. insert_english E c od = Some (n, od') \<and>
      n \<notin> set (eng od) \<and> eng od' = insert_after c n (eng od) \<and> heb od' = heb od \<and> room od' k"
    and insert_heb: "room od (Suc k) \<Longrightarrow> c \<in> set (heb od) \<Longrightarrow> \<exists>n od'. insert_hebrew E c od = Some (n, od') \<and>
      n \<notin> set (heb od) \<and> heb od' = insert_after c n (heb od) \<and> eng od' = eng od \<and> room od' k"
    and prec_eng: "room od k \<Longrightarrow> a \<in> set (eng od) \<Longrightarrow> b \<in> set (eng od) \<Longrightarrow> precedes E od (Some a) (Some b) = bef (eng od) a b"
    and prec_heb: "room od k \<Longrightarrow> a \<in> set (heb od) \<Longrightarrow> b \<in> set (heb od) \<Longrightarrow> precedes E od (Some a) (Some b) = bef (heb od) a b"

text \<open>The number of insertions into each order that a program may need.\<close>

fun item_need :: "'a item \<Rightarrow> nat" and block_need :: "'a block \<Rightarrow> nat" and body_need :: "'a body \<Rightarrow> nat" where
  "item_need (Mark a) = 0"
| "item_need (Call b) = body_need b"
| "item_need (Spawn b) = 6 + body_need b"
| "block_need [] = 0"
| "block_need (i # js) = item_need i + block_need js"
| "body_need [] = 0"
| "body_need (b # bs) = block_need b + body_need bs"

section \<open>The state between two hooks\<close>

definition ready :: "nat \<Rightarrow> nat \<Rightarrow> ('n, 'o) tsan \<Rightarrow> bool" where
  "ready w a d \<longleftrightarrow> active d w = Some a \<and> t_worker d w = Some w \<and> batch_id d w = -1 \<and> self_set d w \<and> \<not> g_first_frame d \<and>
     TOOL_INITIALIZED d \<and> instrumentation d \<and> 0 \<le> checking_disabled d w"

definition good :: "'f stack \<Rightarrow> 'f list \<Rightarrow> bool" where
  "good st xs \<longleftrightarrow> stack_ok st \<and> live st = xs \<and> tail st = 0"

text \<open>
  The frame of a function whose current strand is \<open>c\<close>, and \<open>s\<close> the strand after the next sync when it has
  spawned. \<open>l0\<close> is the list that all frames of the computation share, \<open>i\<close> the future they belong to, and
  lists from \<open>n\<close> on belong to this function.
\<close>

definition has_sync :: "nat \<Rightarrow> ('n, 'o) tsan \<Rightarrow> 'n frame_data \<Rightarrow> ('n \<times> 'n) option \<Rightarrow> nat \<Rightarrow> bool" where
  "has_sync n d f s l0 \<longleftrightarrow> sync_english f = map_option fst s \<and> sync_hebrew f = map_option snd s \<and> current_list f = Some l0 \<and>
     (case s of None \<Rightarrow> sync_list f = None
      | Some s0 \<Rightarrow> ori_list f = Some l0 \<and> (\<exists>l. sync_list f = Some l \<and> n \<le> l \<and> l < next_list d \<and> lists d l = Some List_empty))"

definition frame_ok :: "nat \<Rightarrow> ('n, 'o) tsan \<Rightarrow> 'n frame_data \<Rightarrow> 'n \<times> 'n \<Rightarrow> ('n \<times> 'n) option \<Rightarrow> nat \<Rightarrow> 32 word \<Rightarrow> bool" where
  "frame_ok n d f c s l0 i \<longleftrightarrow> current_english f = Some (fst c) \<and> current_hebrew f = Some (snd c) \<and> cont_english f = None \<and>
     cont_hebrew f = None \<and> f_future_id f = i \<and> has_sync n d f s l0"

text \<open>The frame of a function while the child it has spawned runs.\<close>

definition spawning :: "nat \<Rightarrow> ('n, 'o) tsan \<Rightarrow> 'n frame_data \<Rightarrow> 'n \<times> 'n \<Rightarrow> 'n \<times> 'n \<Rightarrow> nat \<Rightarrow> 32 word \<Rightarrow> bool" where
  "spawning n d f k s l0 i \<longleftrightarrow> current_english f = None \<and> current_hebrew f = None \<and> cont_english f = Some (fst k) \<and>
     cont_hebrew f = Some (snd k) \<and> f_future_id f = i \<and> has_sync n d f (Some s) l0"

definition keeps :: "nat \<Rightarrow> ('n, 'o) tsan \<Rightarrow> ('n, 'o) tsan \<Rightarrow> bool" where
  "keeps n d d' \<longleftrightarrow> next_list d \<le> next_list d' \<and> (\<forall>l<n. lists d' l = lists d l)"

definition same_shadow :: "('n, 'o) tsan \<Rightarrow> ('n, 'o) tsan \<Rightarrow> bool" where
  "same_shadow d d' \<longleftrightarrow> shadow_mem d' = shadow_mem d \<and> races d' = races d"

text \<open>The object that stands for the strand \<open>c\<close>.\<close>

definition is_cur :: "nat \<Rightarrow> 32 word \<Rightarrow> 'n \<times> 'n \<Rightarrow> 'n current \<Rightarrow> bool" where
  "is_cur l0 i c z \<longleftrightarrow> cur_english z = Some (fst c) \<and> cur_hebrew z = Some (snd c) \<and> cur_list z = Some l0 \<and> cur_future_id z = i"

lemma ready_simps: "ready w a d \<Longrightarrow> \<not> in_batch w d" "ready w a d \<Longrightarrow> active d w = Some a"
  by (auto simp: ready_def in_batch_def)

lemma keeps_refl: "keeps n d d"
  by (simp add: keeps_def)

lemma keeps_chain: "keeps n d d1 \<Longrightarrow> keeps n d1 d2 \<Longrightarrow> keeps n d d2"
  by (auto simp: keeps_def)

lemma keeps_less: "keeps n d d' \<Longrightarrow> m \<le> n \<Longrightarrow> keeps m d d'"
  by (auto simp: keeps_def)

lemma has_sync_keeps: "has_sync n d f s l0 \<Longrightarrow> keeps (next_list d) d d' \<Longrightarrow> has_sync n d' f s l0"
  by (fastforce simp: has_sync_def keeps_def split: option.splits)

lemma frame_ok_keeps: "frame_ok n d f c s l0 i \<Longrightarrow> keeps (next_list d) d d' \<Longrightarrow> frame_ok n d' f c s l0 i"
  by (auto simp: frame_ok_def intro: has_sync_keeps)

lemma frame_ok_same: "next_list d' = next_list d \<Longrightarrow> lists d' = lists d \<Longrightarrow> frame_ok n d' = frame_ok n d"
  by (intro ext) (auto simp: frame_ok_def has_sync_def split: option.splits)

lemma spawning_keeps: "spawning n d f k s l0 i \<Longrightarrow> keeps (next_list d) d d' \<Longrightarrow> spawning n d' f k s l0 i"
  by (auto simp: spawning_def intro: has_sync_keeps)

section \<open>Frames of the active deque\<close>

lemma head_of_good: "ready w a d \<Longrightarrow> good (stacks d a) (xs @ [f]) \<Longrightarrow> head_of w d = Some f"
  by (simp add: head_of_def ready_simps good_def head_live)

lemma ancestor_good: "ready w a d \<Longrightarrow> good (stacks d a) (xs @ [p, f]) \<Longrightarrow> ancestor_of 1 w d = Some p"
  by (simp del: One_nat_def add: ancestor_of_def ready_simps good_def ancestor1_live)

lemma size_good: "ready w a d \<Longrightarrow> good (stacks d a) xs \<Longrightarrow> size_of w d = Some (length xs)"
  using length_live [of "stacks d a"] by (auto simp: size_of_def ready_simps good_def Stack_size_def)

lemma set_head_good: "ready w a d \<Longrightarrow> good (stacks d a) (xs @ [f]) \<Longrightarrow>
    \<exists>st. set_frame 0 g w d = Some (d\<lparr>stacks := (stacks d)(a := st)\<rparr>) \<and> good st (xs @ [g])"
  using set_head_live [of "stacks d a" xs f g] by (auto simp: set_frame_def ready_simps good_def)

lemma set_ancestor_good: "ready w a d \<Longrightarrow> good (stacks d a) (xs @ [p, f]) \<Longrightarrow>
    \<exists>st. set_frame 1 g w d = Some (d\<lparr>stacks := (stacks d)(a := st)\<rparr>) \<and> good st (xs @ [g, f])"
  using set_ancestor1_live [of "stacks d a" xs p f g] by (auto simp: set_frame_def ready_simps good_def)

lemma push_good: "ready w a d \<Longrightarrow> good (stacks d a) xs \<Longrightarrow>
    \<exists>st f. push_frame E w d = Some (d\<lparr>stacks := (stacks d)(a := st)\<rparr>) \<and> good st (xs @ [f])"
  using push_live [of "stacks d a" "uninit E"] push_ok [of "stacks d a" "uninit E"]
  by (auto simp: push_frame_def ready_simps good_def)

lemma push_helper_good: "ready w a d \<Longrightarrow> good (stacks d a) (xs @ [p]) \<Longrightarrow> \<not> is_helper p \<Longrightarrow>
    \<exists>st f. push_helper_frame E w d = Some (d\<lparr>stacks := (stacks d)(a := st)\<rparr>) \<and> good st (xs @ [p, f]) \<and> flags f = FRAME_HELPER_MASK"
  using push_helper_live [of "stacks d a" xs p is_helper "\<lambda>f. f\<lparr>flags := FRAME_HELPER_MASK\<rparr>" "uninit E"]
  by (fastforce simp: push_helper_frame_def ready_simps good_def)

lemma pop_good: "ready w a d \<Longrightarrow> good (stacks d a) (xs @ [f]) \<Longrightarrow>
    \<exists>st. pop_shadow_frame E w d = Some (d\<lparr>stacks := (stacks d)(a := st)\<rparr>) \<and> good st xs"
  using apop_live [of "stacks d a" xs f "uninit E"] by (auto simp: pop_shadow_frame_def ready_simps good_def)

lemma ready_update [simp]:
  "ready w a (d\<lparr>stacks := S\<rparr>) = ready w a d" "ready w a (d\<lparr>order := od\<rparr>) = ready w a d"
  "ready w a (d\<lparr>lists := ls\<rparr>) = ready w a d" "ready w a (d\<lparr>next_list := k\<rparr>) = ready w a d"
  "ready w a (d\<lparr>called_future := cf\<rparr>) = ready w a d" "ready w a (d\<lparr>clear_stack := cs\<rparr>) = ready w a d"
  "ready w a (set_current w f d) = ready w a d" "ready w a (d\<lparr>shadow_mem := sm\<rparr>) = ready w a d"
  "ready w a (d\<lparr>races := n\<rparr>) = ready w a d"
  by (simp_all add: ready_def set_current_def new_current_def)

lemma ready_checking [simp]: "0 \<le> v w \<Longrightarrow> ready w a d \<Longrightarrow> ready w a (d\<lparr>checking_disabled := v\<rparr>)"
  by (simp add: ready_def)

lemma set_current_simps [simp]:
  "stacks (set_current w f d) = stacks d" "order (set_current w f d) = order d" "lists (set_current w f d) = lists d"
  "next_list (set_current w f d) = next_list d" "shadow_mem (set_current w f d) = shadow_mem d" "races (set_current w f d) = races d"
  "checking_disabled (set_current w f d) = checking_disabled d"
  by (simp_all add: set_current_def new_current_def)

lemma set_current_cur: "\<exists>z. current_of (set_current w f d) w = Some z \<and>
    cur_english z = current_english f \<and> cur_hebrew z = current_hebrew f \<and> cur_list z = current_list f \<and> cur_future_id z = f_future_id f"
  by (simp add: set_current_def new_current_def)

section \<open>Entering and leaving\<close>

definition entered :: "'n frame_data \<Rightarrow> 'n frame_data \<Rightarrow> bool" where
  "entered p f \<longleftrightarrow> flags f = 0 \<and> cont_english f = None \<and> cont_hebrew f = None \<and> sync_english f = None \<and> sync_hebrew f = None \<and>
     current_english f = current_english p \<and> current_hebrew f = current_hebrew p \<and> f_future_id f = f_future_id p \<and>
     current_list f = current_list p \<and> sync_list f = None"

lemma do_enter_begin_good:
  assumes r: "ready w a d" and g: "good (stacks d a) (xs @ [p])"
  shows "\<exists>st f. do_enter_begin E w d = Some (d\<lparr>stacks := (stacks d)(a := st)\<rparr>) \<and> good st (xs @ [p, f]) \<and> entered p f"
proof -
  obtain st f where 1: "push_frame E w d = Some (d\<lparr>stacks := (stacks d)(a := st)\<rparr>)" "good st (xs @ [p, f])"
    using push_good [OF r g, of E] by auto
  let ?d = "d\<lparr>stacks := (stacks d)(a := st)\<rparr>"
  have r': "ready w a ?d" and g': "good (stacks ?d a) (xs @ [p, f])" and g'': "good (stacks ?d a) ((xs @ [p]) @ [f])" using r 1 by simp_all
  let ?f = "f\<lparr>flags := 0, cont_english := None, cont_hebrew := None, sync_english := None, sync_hebrew := None,
          current_english := current_english p, current_hebrew := current_hebrew p, f_dag := f_dag p,
          f_future_id := f_future_id p, current_list := current_list p, sync_list := None\<rparr>"
  obtain st' where 2: "set_frame 0 ?f w ?d = Some (?d\<lparr>stacks := (stacks ?d)(a := st')\<rparr>)" "good st' ((xs @ [p]) @ [?f])"
    using set_head_good [OF r' g'', of ?f] by blast
  have "self_set d w \<and> \<not> g_first_frame d" using r by (simp add: ready_def)
  then have "do_enter_begin E w d = Some (d\<lparr>stacks := (stacks d)(a := st')\<rparr>)"
    using 1(1) 2(1) ancestor_good [OF r' g'] head_of_good [OF r' g''] by (simp add: do_enter_begin_def)
  moreover have "entered p ?f" by (simp add: entered_def)
  ultimately show ?thesis using 2(2) by auto
qed

lemma enter_pair:
  assumes r: "ready w a d" and g: "good (stacks d a) (xs @ [p])"
  shows "\<exists>st f. do { d \<leftarrow> cilk_enter_begin E w d; cilk_enter_end E w d } =
      Some (d\<lparr>stacks := (stacks d)(a := st), checking_disabled := (checking_disabled d)(w := 0)\<rparr>) \<and>
    good st (xs @ [p, f]) \<and> entered p f"
proof -
  let ?d = "d\<lparr>checking_disabled := (checking_disabled d)(w := 1)\<rparr>"
  have dis: "disable_checking w d = Some ?d" and r1: "ready w a ?d" using r by (simp_all add: disable_checking_def ready_def)
  obtain st f where 1: "do_enter_begin E w ?d = Some (?d\<lparr>stacks := (stacks ?d)(a := st)\<rparr>)" "good st (xs @ [p, f])" "entered p f"
    using do_enter_begin_good [OF r1, of xs p E] g by auto
  let ?e = "?d\<lparr>stacks := (stacks ?d)(a := st)\<rparr>"
  have re: "ready w a ?e" using r1 by simp
  have "cilk_enter_begin E w d = Some ?e" using 1(1) dis ready_simps [OF r] r by (simp add: cilk_enter_begin_def ready_def)
  moreover have "\<not> Stack_empty st" using 1(2) length_live [of st] by (auto simp: good_def Stack_empty_def Stack_size_def)
  then have "cilk_enter_end E w ?e = Some (enable_checking w ?e)"
    using ready_simps [OF re] re by (simp add: cilk_enter_end_def do_enter_end_def ready_def)
  ultimately show ?thesis using 1(2,3) by (auto simp: enable_checking_def)
qed

text \<open>\<^verbatim>\<open>cilk_enter_end\<close> alone, in the spawn helper.\<close>

lemma enter_end_good:
  assumes r: "ready w a d" and g: "good (stacks d a) (xs @ [p])"
  shows "cilk_enter_end E w d = Some (enable_checking w d)"
proof -
  have "\<not> Stack_empty (stacks d a)" using g length_live [of "stacks d a"] by (auto simp: good_def Stack_empty_def Stack_size_def)
  then show ?thesis using ready_simps [OF r] r by (simp add: cilk_enter_end_def do_enter_end_def ready_def)
qed

lemma leave_begin_good:
  assumes r: "ready w a d" and g: "good (stacks d a) (xs @ [p])"
  shows "cilk_leave_begin b w d = Some (d\<lparr>checking_disabled := (checking_disabled d)(w := 1), called_future := (called_future d)(w := False),
     clear_stack := (if b then (clear_stack d)(w := True) else clear_stack d)\<rparr>)"
proof -
  have "\<not> Stack_empty (stacks d a)" using g length_live [of "stacks d a"] by (auto simp: good_def Stack_empty_def Stack_size_def)
  moreover have "(self_set d)(w := True) = self_set d" using r by (auto simp: ready_def fun_eq_iff)
  ultimately show ?thesis using ready_simps [OF r] r by (simp add: cilk_leave_begin_def disable_checking_def do_leave_begin_def ready_def)
qed

text \<open>Return from a call.\<close>

lemma do_leave_end_call:
  assumes r: "ready w a d" and g: "good (stacks d a) (xs @ [p, f])" and nh: "\<not> is_helper f" and c: "cont_english p = None" "cont_hebrew p = None"
  defines "p' \<equiv> p\<lparr>current_english := current_english f, current_hebrew := current_hebrew f, current_list := current_list f\<rparr>"
  shows "\<exists>st. do_leave_end E w d = Some (False, set_current w p' (d\<lparr>stacks := (stacks d)(a := st)\<rparr>)) \<and> good st (xs @ [p'])"
proof -
  obtain st where 1: "set_frame 1 p' w d = Some (d\<lparr>stacks := (stacks d)(a := st)\<rparr>)" "good st (xs @ [p', f])"
    using set_ancestor_good [OF r g] by blast
  let ?d = "d\<lparr>stacks := (stacks d)(a := st)\<rparr>"
  obtain st' where 2: "pop_shadow_frame E w ?d = Some (?d\<lparr>stacks := (stacks ?d)(a := st')\<rparr>)" "good st' (xs @ [p'])"
    using pop_good [of w a ?d "xs @ [p']" f E] r 1(2) by auto
  let ?e = "d\<lparr>stacks := (stacks d)(a := st')\<rparr>"
  have e: "head_of w ?e = Some p'" "size_of w ?e = Some (Suc (length xs))"
    using head_of_good [of w a ?e xs p'] size_good [of w a ?e "xs @ [p']"] r 2(2) by simp_all
  have h: "head_of w d = Some f" "size_of w d = Some (Suc (Suc (length xs)))"
    using head_of_good [OF r, of "xs @ [p]" f] size_good [OF r g] g by simp_all
  have "t_worker d w = Some w" "batch_id d w = -1" "self_set d w" using r by (simp_all add: ready_def)
  then have "do_leave_end E w d = Some (False, set_current w p' ?e)"
    using 1(1) 2(1) e h nh c ancestor_good [OF r g] by (simp add: do_leave_end_def p'_def)
  then show ?thesis using 2(2) by blast
qed

text \<open>Return from a spawn whose child has not changed its list.\<close>

lemma do_leave_end_spawn:
  assumes r: "ready w a d" and g: "good (stacks d a) (xs @ [p, f])" and nh: "is_helper f" and l: "current_list f = current_list p"
    and c: "current_english p = None" "current_hebrew p = None" "cont_english p \<noteq> None" "cont_hebrew p \<noteq> None"
      "sync_english p \<noteq> None" "sync_hebrew p \<noteq> None"
  defines "p' \<equiv> p\<lparr>current_english := cont_english p, current_hebrew := cont_hebrew p, cont_english := None, cont_hebrew := None\<rparr>"
  shows "\<exists>st. do_leave_end E w d = Some (False, set_current w p' (d\<lparr>stacks := (stacks d)(a := st)\<rparr>)) \<and> good st (xs @ [p'])"
proof -
  obtain st where 1: "set_frame 1 p' w d = Some (d\<lparr>stacks := (stacks d)(a := st)\<rparr>)" "good st (xs @ [p', f])"
    using set_ancestor_good [OF r g] by blast
  let ?d = "d\<lparr>stacks := (stacks d)(a := st)\<rparr>"
  obtain st' where 2: "pop_shadow_frame E w ?d = Some (?d\<lparr>stacks := (stacks ?d)(a := st')\<rparr>)" "good st' (xs @ [p'])"
    using pop_good [of w a ?d "xs @ [p']" f E] r 1(2) by auto
  let ?e = "d\<lparr>stacks := (stacks d)(a := st')\<rparr>"
  have e: "head_of w ?e = Some p'" "size_of w ?e = Some (Suc (length xs))"
    using head_of_good [of w a ?e xs p'] size_good [of w a ?e "xs @ [p']"] r 2(2) by simp_all
  have h: "head_of w d = Some f" "size_of w d = Some (Suc (Suc (length xs)))"
    using head_of_good [OF r, of "xs @ [p]" f] size_good [OF r g] g by simp_all
  have "t_worker d w = Some w" "batch_id d w = -1" "self_set d w" using r by (simp_all add: ready_def)
  then have "do_leave_end E w d = Some (False, set_current w p' ?e)"
    using 1(1) 2(1) e h nh c l ancestor_good [OF r g] by (simp add: do_leave_end_def p'_def)
  then show ?thesis using 2(2) by blast
qed

section \<open>Syncs\<close>

lemma empty_list: "Empty List_empty"
  by (simp add: Empty_def List_empty_def)

lemma do_sync_begin_good:
  assumes r: "ready w a d" and g: "good (stacks d a) (xs @ [f])" and nh: "\<not> is_helper f" and ok: "frame_ok n d f c s l0 i"
  defines "f' \<equiv> (if s = None then f else f\<lparr>current_english := sync_english f, current_hebrew := sync_hebrew f, sync_english := None,
     sync_hebrew := None\<rparr>)"
  shows "\<exists>st. do_sync_begin E w d = Some (d\<lparr>stacks := (stacks d)(a := st)\<rparr>) \<and> good st (xs @ [f'])"
proof -
  have self: "self_set d w" using r by (simp add: ready_def)
  note h = head_of_good [OF r g]
  show ?thesis
  proof (cases s)
    case None
    have "do_sync_begin E w d = Some d" using self h nh ok None by (simp add: do_sync_begin_def frame_ok_def has_sync_def)
    moreover have "d = d\<lparr>stacks := (stacks d)(a := stacks d a)\<rparr>" by simp
    moreover have "good (stacks d a) (xs @ [f'])" using g None by (simp add: f'_def)
    ultimately show ?thesis by metis
  next
    case (Some s0)
    obtain st where st: "set_frame 0 f' w d = Some (d\<lparr>stacks := (stacks d)(a := st)\<rparr>)" "good st (xs @ [f'])"
      using set_head_good [OF r g] by blast
    have "do_sync_begin E w d = Some (d\<lparr>stacks := (stacks d)(a := st)\<rparr>)"
      using self h nh ok Some st(1) by (simp add: do_sync_begin_def frame_ok_def has_sync_def f'_def)
    then show ?thesis using st(2) by blast
  qed
qed

lemma sync_pair:
  assumes r: "ready w a d" and g: "good (stacks d a) (xs @ [f])" and nh: "\<not> is_helper f" and ok: "frame_ok n d f c s l0 i"
    and n: "n \<le> next_list d" "l0 < n"
  shows "\<exists>d' f'. do { d \<leftarrow> cilk_sync_begin E w d; cilk_sync_end w d } = Some d' \<and> ready w a d' \<and> checking_disabled d' w = 0 \<and>
    good (stacks d' a) (xs @ [f']) \<and> flags f' = flags f \<and> order d' = order d \<and> keeps n d d' \<and> same_shadow d d' \<and>
    frame_ok n d' f' (case s of None \<Rightarrow> c | Some s0 \<Rightarrow> s0) None l0 i \<and>
    (\<exists>z. current_of d' w = Some z \<and> is_cur l0 i (case s of None \<Rightarrow> c | Some s0 \<Rightarrow> s0) z)"
proof -
  define f1 where "f1 = (if s = None then f else f\<lparr>current_english := sync_english f, current_hebrew := sync_hebrew f, sync_english := None,
     sync_hebrew := None\<rparr>)"
  let ?d = "d\<lparr>checking_disabled := (checking_disabled d)(w := 1)\<rparr>"
  have r0: "ready w a ?d" using r by simp
  have ok0: "frame_ok n ?d f c s l0 i" using ok by (simp add: frame_ok_same [of ?d d])
  obtain st where 1: "do_sync_begin E w ?d = Some (?d\<lparr>stacks := (stacks ?d)(a := st)\<rparr>)" "good st (xs @ [f1])"
    using do_sync_begin_good [OF r0 _ nh ok0, of xs E] g by (auto simp: f1_def)
  let ?e = "?d\<lparr>stacks := (stacks ?d)(a := st)\<rparr>"
  have b: "cilk_sync_begin E w d = Some ?e" using 1(1) r ready_simps [OF r] by (simp add: cilk_sync_begin_def disable_checking_def ready_def)
  have re: "ready w a ?e" and ge: "good (stacks ?e a) (xs @ [f1])" using r0 1(2) by simp_all
  define ls where "ls = (case sync_list f of None \<Rightarrow> lists d | Some l \<Rightarrow> (lists d)(l := None))"
  let ?f = "f1\<lparr>sync_list := None\<rparr>"
  have rl: "ready w a (?e\<lparr>lists := ls\<rparr>)" "good (stacks (?e\<lparr>lists := ls\<rparr>) a) (xs @ [f1])" using re ge by simp_all
  obtain st' where 2: "set_frame 0 ?f w (?e\<lparr>lists := ls\<rparr>) = Some (?e\<lparr>lists := ls\<rparr>\<lparr>stacks := (stacks ?e)(a := st')\<rparr>)" "good st' (xs @ [?f])"
    using set_head_good [OF rl, of ?f] by auto
  let ?h = "?e\<lparr>lists := ls\<rparr>\<lparr>stacks := (stacks ?e)(a := st')\<rparr>"
  have sl: "sync_list f1 = sync_list f" by (simp add: f1_def)
  have "do_sync_end w ?e = Some (set_current w ?f ?h)"
  proof (cases s)
    case None
    then have n: "sync_list f1 = None" "ls = lists d" using ok sl by (simp_all add: frame_ok_def has_sync_def ls_def)
    then have fe: "f1\<lparr>sync_list := None\<rparr> = f1" by simp
    show ?thesis using 2(1) head_of_good [OF re ge] n unfolding fe by (simp add: do_sync_end_def)
  next
    case (Some s0)
    then show ?thesis using 2(1) head_of_good [OF re ge] ok sl empty_list
      by (auto simp: do_sync_end_def frame_ok_def has_sync_def ls_def Let_def)
  qed
  then have e: "cilk_sync_end w ?e = Some (enable_checking w (set_current w ?f ?h))"
    using ready_simps [OF re] re by (simp add: cilk_sync_end_def ready_def)
  let ?d' = "enable_checking w (set_current w ?f ?h)"
  have f: "frame_ok n ?d' ?f (case s of None \<Rightarrow> c | Some s0 \<Rightarrow> s0) None l0 i"
    using ok by (cases s) (auto simp: frame_ok_def has_sync_def f1_def)
  have "keeps n d ?d'" using ok n by (cases s) (auto simp: keeps_def enable_checking_def ls_def frame_ok_def has_sync_def)
  moreover have "\<exists>z. current_of ?d' w = Some z \<and> is_cur l0 i (case s of None \<Rightarrow> c | Some s0 \<Rightarrow> s0) z"
    using set_current_cur [of w ?f ?h] f by (auto simp: enable_checking_def is_cur_def frame_ok_def has_sync_def)
  moreover have "ready w a ?d'" using re by (simp add: enable_checking_def)
  moreover have "flags ?f = flags f" by (simp add: f1_def)
  ultimately show ?thesis using b e f 2(2) by (auto simp: enable_checking_def same_shadow_def)
qed

section \<open>Spawning\<close>

definition orders_of :: "('o \<Rightarrow> 'n list) \<Rightarrow> ('o \<Rightarrow> 'n list) \<Rightarrow> ('n, 'o) tsan \<Rightarrow> 'n orders" where
  "orders_of eng heb d = (eng (order d), heb (order d))"

text \<open>What \<^verbatim>\<open>cilk_detach_begin\<close> does to the state, the two frames and the orders.\<close>

definition detached :: "('o \<Rightarrow> 'n list) \<Rightarrow> ('o \<Rightarrow> 'n list) \<Rightarrow> nat \<Rightarrow> nat \<Rightarrow> 'n frame_data list \<Rightarrow> nat \<Rightarrow> nat \<Rightarrow> 32 word \<Rightarrow>
    ('n, 'o) tsan \<Rightarrow> 'n \<times> 'n \<Rightarrow> ('n \<times> 'n) option \<Rightarrow> ('n, 'o) tsan \<Rightarrow> 'n frame_data \<Rightarrow> 'n frame_data \<Rightarrow> 'n frame_data \<Rightarrow>
    'n \<times> 'n \<Rightarrow> 'n orders \<Rightarrow> 'n \<times> 'n \<Rightarrow> 'n \<times> 'n \<Rightarrow> bool" where
  "detached eng heb w a xs n l0 i d c s d' p p' f s1 W1 fn kn \<longleftrightarrow>
     ready w a d' \<and> good (stacks d' a) (xs @ [p', f]) \<and> flags p' = flags p \<and> is_helper f \<and>
     (case s of None \<Rightarrow> fresh2 (orders_of eng heb d) s1 \<and> W1 = put2 c s1 (orders_of eng heb d)
        | Some s0 \<Rightarrow> s1 = s0 \<and> W1 = orders_of eng heb d) \<and>
     fresh2 W1 fn \<and> fresh2 W1 kn \<and> fst fn \<noteq> fst kn \<and> snd fn \<noteq> snd kn \<and> orders_of eng heb d' = fork2 c fn kn W1 \<and>
     spawning n d' p' kn s1 l0 i \<and> frame_ok (next_list d') d' f fn None l0 i \<and>
     (\<exists>z. current_of d' w = Some z \<and> is_cur l0 i fn z) \<and> keeps (next_list d) d d' \<and> same_shadow d d'"

lemma in_insert_after: "c \<in> set xs \<Longrightarrow> x \<in> set (insert_after c n xs) \<longleftrightarrow> x = n \<or> x \<in> set xs"
  by (simp add: set_insert_after)

context strand_orders
begin

abbreviation ords :: "('n, 'o) tsan \<Rightarrow> 'n orders" where "ords \<equiv> orders_of eng heb"

lemma insert_e_law:
  assumes "room (order d) (Suc k)" "c \<in> set (eng (order d))"
  shows "\<exists>n od'. insert_e E (Some c) (d :: ('n, 'o) tsan) = Some (n, d\<lparr>order := od'\<rparr>) \<and> n \<notin> set (eng (order d)) \<and>
    eng od' = insert_after c n (eng (order d)) \<and> heb od' = heb (order d) \<and> room od' k"
  using insert_eng [OF assms] by (auto simp: insert_e_def)

lemma insert_h_law:
  assumes "room (order d) (Suc k)" "c \<in> set (heb (order d))"
  shows "\<exists>n od'. insert_h E (Some c) (d :: ('n, 'o) tsan) = Some (n, d\<lparr>order := od'\<rparr>) \<and> n \<notin> set (heb (order d)) \<and>
    heb od' = insert_after c n (heb (order d)) \<and> eng od' = eng (order d) \<and> room od' k"
  using insert_heb [OF assms] by (auto simp: insert_h_def)

lemma begin_spawn_group_law:
  fixes d :: "('n, 'o) tsan"
  assumes ok: "frame_ok n d p c s l0 i" and c: "strand_in (ords d) c" and rm: "room (order d) (k + 2)" and n: "n \<le> next_list d"
  shows "\<exists>p1 d1 s1. begin_spawn_group E p d = Some (p1, d1) \<and> room (order d1) k \<and>
    (\<exists>od ls nl. d1 = d\<lparr>order := od, lists := ls, next_list := nl\<rparr>) \<and> keeps (next_list d) d d1 \<and>
    (case s of None \<Rightarrow> fresh2 (ords d) s1 \<and> ords d1 = put2 c s1 (ords d) | Some s0 \<Rightarrow> s1 = s0 \<and> ords d1 = ords d) \<and>
    frame_ok n d1 p1 c (Some s1) l0 i \<and> flags p1 = flags p"
proof (cases s)
  case (Some s0)
  then have "begin_spawn_group E p d = Some (p, d)" using ok by (simp add: begin_spawn_group_def frame_ok_def has_sync_def)
  moreover have "d = d\<lparr>order := order d, lists := lists d, next_list := next_list d\<rparr>" by simp
  ultimately show ?thesis using Some ok room_less [OF rm, of k] keeps_refl by fastforce
next
  case None
  have ce: "fst c \<in> set (eng (order d))" and ch: "snd c \<in> set (heb (order d))" using c by (simp_all add: strand_in_def orders_of_def)
  from insert_e_law [OF _ ce, of "Suc k"] rm obtain se od1 where e: "insert_e E (Some (fst c)) d = Some (se, d\<lparr>order := od1\<rparr>)"
    "se \<notin> set (eng (order d))" "eng od1 = insert_after (fst c) se (eng (order d))" "heb od1 = heb (order d)" "room od1 (Suc k)" by auto
  let ?d = "d\<lparr>order := od1\<rparr>"
  from insert_h_law [of ?d k "snd c"] e(4,5) ch obtain sh od2 where h: "insert_h E (Some (snd c)) ?d = Some (sh, ?d\<lparr>order := od2\<rparr>)"
    "sh \<notin> set (heb (order d))" "heb od2 = insert_after (snd c) sh (heb (order d))" "eng od2 = eng od1" "room od2 k" by auto
  let ?d1 = "d\<lparr>order := od2, lists := (lists d)(next_list d \<mapsto> List_empty), next_list := Suc (next_list d)\<rparr>"
  let ?p = "p\<lparr>sync_english := Some se, sync_hebrew := Some sh, sync_list := Some (next_list d), ori_list := current_list p\<rparr>"
  have "begin_spawn_group E p d = Some (?p, ?d1)"
    using ok None e(1) h(1) by (simp add: begin_spawn_group_def frame_ok_def has_sync_def new_list_def)
  moreover have "fresh2 (ords d) (se, sh) \<and> ords ?d1 = put2 c (se, sh) (ords d)"
    using e h by (simp add: fresh2_def orders_of_def put2_def)
  moreover have "frame_ok n ?d1 ?p c (Some (se, sh)) l0 i" using ok None n by (simp add: frame_ok_def has_sync_def)
  moreover have "keeps (next_list d) d ?d1" by (simp add: keeps_def)
  ultimately show ?thesis using None h(5) by fastforce
qed

text \<open>The four insertions of a spawn.\<close>

lemma fork_law:
  fixes d :: "('n, 'o) tsan"
  assumes c: "strand_in (ords d) c" and rm: "room (order d) (k + 4)"
  shows "\<exists>fe ce ch fh od1 od2 od3 od4. insert_e E (Some (fst c)) d = Some (fe, d\<lparr>order := od1\<rparr>) \<and>
    insert_e E (Some fe) (d\<lparr>order := od1\<rparr>) = Some (ce, d\<lparr>order := od2\<rparr>) \<and>
    insert_h E (Some (snd c)) (d\<lparr>order := od2\<rparr>) = Some (ch, d\<lparr>order := od3\<rparr>) \<and>
    insert_h E (Some ch) (d\<lparr>order := od3\<rparr>) = Some (fh, d\<lparr>order := od4\<rparr>) \<and>
    fresh2 (ords d) (fe, fh) \<and> fresh2 (ords d) (ce, ch) \<and> fe \<noteq> ce \<and> fh \<noteq> ch \<and>
    ords (d\<lparr>order := od4\<rparr>) = fork2 c (fe, fh) (ce, ch) (ords d) \<and> room od4 k"
proof -
  have ce: "fst c \<in> set (eng (order d))" and ch: "snd c \<in> set (heb (order d))" using c by (simp_all add: strand_in_def orders_of_def)
  from insert_e_law [OF _ ce, of "k + 3"] rm obtain fe od1 where 1: "insert_e E (Some (fst c)) d = Some (fe, d\<lparr>order := od1\<rparr>)"
    "fe \<notin> set (eng (order d))" "eng od1 = insert_after (fst c) fe (eng (order d))" "heb od1 = heb (order d)" "room od1 (k + 3)"
    by (auto simp: numeral_eq_Suc)
  let ?d1 = "d\<lparr>order := od1\<rparr>"
  have fe: "fe \<in> set (eng od1)" using 1(3) ce by (simp add: set_insert_after)
  from insert_e_law [of ?d1 "k + 2" fe] 1(5) fe obtain ke od2 where 2: "insert_e E (Some fe) ?d1 = Some (ke, d\<lparr>order := od2\<rparr>)"
    "ke \<notin> set (eng od1)" "eng od2 = insert_after fe ke (eng od1)" "heb od2 = heb od1" "room od2 (k + 2)"
    by (auto simp: numeral_eq_Suc)
  let ?d2 = "d\<lparr>order := od2\<rparr>"
  from insert_h_law [of ?d2 "k + 1" "snd c"] 2(4,5) 1(4) ch obtain kh od3 where 3: "insert_h E (Some (snd c)) ?d2 = Some (kh, d\<lparr>order := od3\<rparr>)"
    "kh \<notin> set (heb (order d))" "heb od3 = insert_after (snd c) kh (heb (order d))" "eng od3 = eng od2" "room od3 (k + 1)"
    by (auto simp: numeral_eq_Suc)
  let ?d3 = "d\<lparr>order := od3\<rparr>"
  have kh: "kh \<in> set (heb od3)" using 3(3) ch by (simp add: set_insert_after)
  from insert_h_law [of ?d3 k kh] 3(5) kh obtain fh od4 where 4: "insert_h E (Some kh) ?d3 = Some (fh, d\<lparr>order := od4\<rparr>)"
    "fh \<notin> set (heb od3)" "heb od4 = insert_after kh fh (heb od3)" "eng od4 = eng od3" "room od4 k" by auto
  have "fresh2 (ords d) (fe, fh)" "fresh2 (ords d) (ke, kh)" "fe \<noteq> ke" "fh \<noteq> kh"
    using 1(2,3) 2(2) 3(2,3) 4(2) ce ch fe kh by (auto simp: fresh2_def orders_of_def in_insert_after)
  moreover have "ords (d\<lparr>order := od4\<rparr>) = fork2 c (fe, fh) (ke, kh) (ords d)"
    using 1(3) 2(3) 3(3,4) 4(3,4) by (simp add: fork2_def orders_of_def)
  ultimately show ?thesis using 1(1) 2(1) 3(1) 4(1,5) by blast
qed

lemma do_detach_begin_law:
  fixes d :: "('n, 'o) tsan"
  assumes r: "ready w a d" and g: "good (stacks d a) (xs @ [p])" and nh: "\<not> is_helper p" and ok: "frame_ok n d p c s l0 i"
    and c: "strand_in (ords d) c" and rm: "room (order d) (k + 6)" and n: "n \<le> next_list d"
  shows "\<exists>d' p' f s1 W1 fn kn. do_detach_begin E w d = Some d' \<and> room (order d') k \<and>
    detached eng heb w a xs n l0 i d c s d' p p' f s1 W1 fn kn"
proof -
  obtain st f0 where 1: "push_helper_frame E w d = Some (d\<lparr>stacks := (stacks d)(a := st)\<rparr>)" "good st (xs @ [p, f0])"
    "flags f0 = FRAME_HELPER_MASK" using push_helper_good [OF r g nh, of E] by blast
  let ?e = "d\<lparr>stacks := (stacks d)(a := st)\<rparr>"
  have hf: "is_helper f0" using 1(3) by (simp add: is_helper_def FRAME_HELPER_MASK_def)
  have re: "ready w a ?e" using r by simp
  have oe: "ords ?e = ords d" by (simp add: orders_of_def)
  have oke: "frame_ok n ?e p c s l0 i" using ok by (simp add: frame_ok_same [of ?e d])
  have ce: "strand_in (ords ?e) c" "room (order ?e) (k + 4 + 2)" "n \<le> next_list ?e" using c rm n by (simp_all add: orders_of_def add.commute)
  from begin_spawn_group_law [OF oke ce] obtain p1 d1 s1 od ls nl where
    2: "begin_spawn_group E p ?e = Some (p1, d1)" "room (order d1) (k + 4)" "d1 = ?e\<lparr>order := od, lists := ls, next_list := nl\<rparr>"
      "keeps (next_list ?e) ?e d1"
      "case s of None \<Rightarrow> fresh2 (ords ?e) s1 \<and> ords d1 = put2 c s1 (ords ?e) | Some s0 \<Rightarrow> s1 = s0 \<and> ords d1 = ords ?e"
      "frame_ok n d1 p1 c (Some s1) l0 i" "flags p1 = flags p" by metis
  have c1: "strand_in (ords d1) c"
    using c 2(5) by (auto simp: strand_in_def put2_def orders_of_def in_insert_after split: option.splits)
  from fork_law [OF c1 2(2)] obtain fe ke kh fh od1 od2 od3 od4 where
    3: "insert_e E (Some (fst c)) d1 = Some (fe, d1\<lparr>order := od1\<rparr>)" "insert_e E (Some fe) (d1\<lparr>order := od1\<rparr>) = Some (ke, d1\<lparr>order := od2\<rparr>)"
      "insert_h E (Some (snd c)) (d1\<lparr>order := od2\<rparr>) = Some (kh, d1\<lparr>order := od3\<rparr>)"
      "insert_h E (Some kh) (d1\<lparr>order := od3\<rparr>) = Some (fh, d1\<lparr>order := od4\<rparr>)"
      "fresh2 (ords d1) (fe, fh)" "fresh2 (ords d1) (ke, kh)" "fe \<noteq> ke" "fh \<noteq> kh"
      "ords (d1\<lparr>order := od4\<rparr>) = fork2 c (fe, fh) (ke, kh) (ords d1)" "room od4 k" by blast
  define f where "f = f0\<lparr>current_english := Some fe, current_hebrew := Some fh, cont_english := None, cont_hebrew := None,
       sync_english := None, sync_hebrew := None, current_list := current_list p1, f_dag := f_dag p1,
       f_future_id := f_future_id p1, sync_list := None\<rparr>"
  define p' where "p' = p1\<lparr>cont_english := Some ke, cont_hebrew := Some kh, current_english := None, current_hebrew := None,
       steal_cont_english := None, steal_cont_hebrew := None, steal_sync_english := None, steal_sync_hebrew := None,
       steal_current_list := None\<rparr>"
  let ?d4 = "d1\<lparr>order := od4\<rparr>"
  have r4: "ready w a ?d4" and g4: "good (stacks ?d4 a) (xs @ [p, f0])" using re 2(3) 1(2) by simp_all
  obtain st5 where 5: "set_frame 1 p' w ?d4 = Some (?d4\<lparr>stacks := (stacks ?d4)(a := st5)\<rparr>)" "good st5 (xs @ [p', f0])"
    using set_ancestor_good [OF r4 g4] by blast
  let ?d5 = "?d4\<lparr>stacks := (stacks ?d4)(a := st5)\<rparr>"
  have r5: "ready w a ?d5" and g5: "good (stacks ?d5 a) ((xs @ [p']) @ [f0])" using r4 5(2) by simp_all
  obtain st6 where 6: "set_frame 0 f w ?d5 = Some (?d5\<lparr>stacks := (stacks ?d5)(a := st6)\<rparr>)" "good st6 ((xs @ [p']) @ [f])"
    using set_head_good [OF r5 g5] by blast
  let ?d' = "set_current w f (?d5\<lparr>stacks := (stacks ?d5)(a := st6)\<rparr>)"
  have hd: "head_of w ?e = Some f0" "ancestor_of 1 w ?e = Some p"
    using head_of_good [OF re, of "xs @ [p]" f0] ancestor_good [OF re, of xs p f0] 1(2) by simp_all
  have cur: "current_english p1 = Some (fst c)" "current_hebrew p1 = Some (snd c)" using 2(6) by (simp_all add: frame_ok_def)
  have "do_detach_begin E w d = Some ?d'"
    using 1(1) 2(1) 3(1-4) 5(1) 6(1) hd nh hf cur by (simp add: do_detach_begin_def f_def p'_def)
  moreover have "orders_of eng heb ?d' = fork2 c (fe, fh) (ke, kh) (ords d1)" using 3(9) by (simp add: orders_of_def)
  moreover have "spawning n ?d' p' (ke, kh) s1 l0 i" using 2(6) by (simp add: spawning_def frame_ok_def has_sync_def p'_def)
  moreover have fr: "frame_ok (next_list ?d') ?d' f (fe, fh) None l0 i" using 2(6) by (simp add: frame_ok_def has_sync_def f_def)
  moreover have "\<exists>z. current_of ?d' w = Some z \<and> is_cur l0 i (fe, fh) z"
    using set_current_cur [of w f "?d5\<lparr>stacks := (stacks ?d5)(a := st6)\<rparr>"] fr by (auto simp: is_cur_def frame_ok_def has_sync_def)
  moreover have "keeps (next_list d) d ?d'" using 2(4) by (simp add: keeps_def)
  moreover have "same_shadow d ?d'" by (simp add: same_shadow_def 2(3))
  moreover have "ready w a ?d'" using r5 by simp
  moreover have "flags p' = flags p" "is_helper f" using 2(7) hf by (simp_all add: p'_def f_def is_helper_def)
  moreover have "case s of None \<Rightarrow> fresh2 (ords d) s1 \<and> ords d1 = put2 c s1 (ords d) | Some s0 \<Rightarrow> s1 = s0 \<and> ords d1 = ords d"
    using 2(5) unfolding oe .
  moreover have "good (stacks ?d' a) (xs @ [p', f])" using 6(2) by simp
  moreover have "room (order ?d') k" using 3(10) by simp
  ultimately show ?thesis using 3(5-8) unfolding detached_def by (metis fst_conv snd_conv)
qed

end

section \<open>Accesses\<close>

definition step_ok :: "mem_step \<Rightarrow> bool" where
  "step_ok s \<longleftrightarrow> acc_fits (step_addr s) (step_size s) \<and> step_size s \<le> 16 \<and> (step_size s = 16 \<longrightarrow> ALIGNED (step_addr s) 16)"

text \<open>The accesses of a trace, the accessors in the shadow memory, and a query that answers as the orders do.\<close>

definition acc_of :: "nat \<Rightarrow> 32 word \<Rightarrow> mem_step \<times> 'n \<times> 'n \<Rightarrow> 'n current access \<Rightarrow> bool" where
  "acc_of l0 i m x \<longleftrightarrow> is_read x = step_read (fst m) \<and> acc_addr x = step_addr (fst m) \<and> acc_size x = step_size (fst m) \<and>
     is_cur l0 i (snd m) (accessor x)"

definition shadow_of :: "'n orders \<Rightarrow> nat \<Rightarrow> 32 word \<Rightarrow> 'n current mem_access_list shadow \<Rightarrow> bool" where
  "shadow_of W l0 i sm \<longleftrightarrow> shadow_ok sm \<and> (\<forall>g. \<forall>z\<in>grain_accessors (grain_at sm g). \<exists>x. strand_in W x \<and> is_cur l0 i x z)"

definition agrees :: "('n current \<Rightarrow> 'n current \<Rightarrow> bool) \<Rightarrow> 'n orders \<Rightarrow> nat \<Rightarrow> 32 word \<Rightarrow> bool" where
  "agrees P W l0 i \<longleftrightarrow> (\<forall>x y z1 z2. strand_in W x \<longrightarrow> strand_in W y \<longrightarrow> is_cur l0 i x z1 \<longrightarrow> is_cur l0 i y z2 \<longrightarrow> P z1 z2 = bef2 W x y)"

definition checked :: "('n current \<Rightarrow> 'n current \<Rightarrow> bool) \<Rightarrow> ('n, 'o) tsan \<Rightarrow> 'n current access list \<Rightarrow> ('n, 'o) tsan \<Rightarrow> bool" where
  "checked P d xs d' \<longleftrightarrow>
     (\<forall>g. grain_at (shadow_mem d') g = snd (grain_run P cur_english (on_grain g xs) (grain_at (shadow_mem d) g))) \<and>
     races d \<le> races d' \<and>
     (races d' = races d \<longleftrightarrow> (\<forall>g. fst (grain_run P cur_english (on_grain g xs) (grain_at (shadow_mem d) g)) = 0))"

lemma checked_same: "same_shadow d d' \<Longrightarrow> checked P d [] d'"
  by (simp add: checked_def same_shadow_def)

lemma checked_trans:
  assumes 1: "checked P d xs d1" and 2: "checked P d1 ys d2"
  shows "checked P d (xs @ ys) d2"
proof -
  have g: "grain_run P cur_english (on_grain g (xs @ ys)) (grain_at (shadow_mem d) g) =
      (fst (grain_run P cur_english (on_grain g xs) (grain_at (shadow_mem d) g)) +
        fst (grain_run P cur_english (on_grain g ys) (grain_at (shadow_mem d1) g)), grain_at (shadow_mem d2) g)" for g
    using 1 2 by (simp add: checked_def grain_run_append split_def Let_def)
  have "races d2 = races d \<longleftrightarrow> races d1 = races d \<and> races d2 = races d1" using 1 2 by (auto simp: checked_def)
  also have "\<dots> \<longleftrightarrow> (\<forall>g. fst (grain_run P cur_english (on_grain g xs) (grain_at (shadow_mem d) g)) = 0 \<and>
      fst (grain_run P cur_english (on_grain g ys) (grain_at (shadow_mem d1) g)) = 0)"
    using 1 2 by (auto simp: checked_def)
  finally show ?thesis using 1 2 unfolding checked_def g by simp
qed

lemma ext2_bef_eq: "ext2 W W' \<Longrightarrow> strand_in W x \<Longrightarrow> strand_in W y \<Longrightarrow> bef2 W' x y = bef2 W x y"
  unfolding ext2_def strand_in_def bef2_def using extends_eq by metis

lemma agrees_less: "agrees P W' l0 i \<Longrightarrow> ext2 W W' \<Longrightarrow> agrees P W l0 i"
  unfolding agrees_def using ext2_bef_eq ext2_in by metis

lemma shadow_of_less: "shadow_of W l0 i sm \<Longrightarrow> ext2 W W' \<Longrightarrow> shadow_of W' l0 i sm"
  unfolding shadow_of_def using ext2_in by metis

text \<open>What a part of the run does: lists below \<open>n\<close> stay, the orders grow, and the shadow memory has seen its accesses.\<close>

definition ran :: "('o \<Rightarrow> 'n list) \<Rightarrow> ('o \<Rightarrow> 'n list) \<Rightarrow> nat \<Rightarrow> nat \<Rightarrow> 32 word \<Rightarrow> ('n, 'o) tsan \<Rightarrow> (mem_step \<times> 'n \<times> 'n) list \<Rightarrow>
    ('n, 'o) tsan \<Rightarrow> bool" where
  "ran eng heb n l0 i d L d' \<longleftrightarrow> keeps n d d' \<and> ext2 (orders_of eng heb d) (orders_of eng heb d') \<and>
     (\<exists>xs. list_all2 (acc_of l0 i) L xs \<and> (\<forall>P. agrees P (orders_of eng heb d') l0 i \<longrightarrow> checked P d xs d'))"

lemma ran_chain:
  assumes 1: "ran eng heb n l0 i d L1 d1" and 2: "ran eng heb n l0 i d1 L2 d2"
  shows "ran eng heb n l0 i d (L1 @ L2) d2"
proof -
  obtain xs where xs: "list_all2 (acc_of l0 i) L1 xs" "\<And>P. agrees P (orders_of eng heb d1) l0 i \<Longrightarrow> checked P d xs d1"
    using 1 by (auto simp: ran_def)
  obtain ys where ys: "list_all2 (acc_of l0 i) L2 ys" "\<And>P. agrees P (orders_of eng heb d2) l0 i \<Longrightarrow> checked P d1 ys d2"
    using 2 by (auto simp: ran_def)
  have x: "ext2 (orders_of eng heb d) (orders_of eng heb d1)" "ext2 (orders_of eng heb d1) (orders_of eng heb d2)"
    using 1 2 by (simp_all add: ran_def)
  have "checked P d (xs @ ys) d2" if "agrees P (orders_of eng heb d2) l0 i" for P
    using checked_trans [OF xs(2) ys(2)] agrees_less [OF that x(2)] that by blast
  moreover have "list_all2 (acc_of l0 i) (L1 @ L2) (xs @ ys)" using xs(1) ys(1) by (rule list_all2_appendI)
  moreover have "keeps n d d2" using 1 2 keeps_chain by (auto simp: ran_def)
  ultimately show ?thesis using ext2_trans [OF x] unfolding ran_def by blast
qed

lemma ran_quiet: "keeps n d d' \<Longrightarrow> ext2 (orders_of eng heb d) (orders_of eng heb d') \<Longrightarrow> same_shadow d d' \<Longrightarrow> ran eng heb n l0 i d [] d'"
  unfolding ran_def using checked_same by fastforce

lemma ran_less: "ran eng heb n l0 i d L d' \<Longrightarrow> m \<le> n \<Longrightarrow> ran eng heb m l0 i d L d'"
  unfolding ran_def using keeps_less by blast

section \<open>The simulation\<close>

definition sim :: "('o \<Rightarrow> 'n list) \<Rightarrow> ('o \<Rightarrow> 'n list) \<Rightarrow> ('o \<Rightarrow> nat \<Rightarrow> bool) \<Rightarrow> nat \<Rightarrow> nat \<Rightarrow> nat \<Rightarrow> 32 word \<Rightarrow> 'n frame_data list \<Rightarrow> nat \<Rightarrow>
    nat \<Rightarrow> ('n, 'o) tsan \<Rightarrow> 'n frame_data \<Rightarrow> 'n \<times> 'n \<Rightarrow> ('n \<times> 'n) option \<Rightarrow> bool" where
  "sim eng heb room w a l0 i xs n k d f c s \<longleftrightarrow> ready w a d \<and> checking_disabled d w = 0 \<and> good (stacks d a) (xs @ [f]) \<and>
     frame_ok n d f c s l0 i \<and> l0 < n \<and> n \<le> next_list d \<and> lists d l0 = Some List_empty \<and>
     (\<exists>z. current_of d w = Some z \<and> is_cur l0 i c z) \<and> strand_in (orders_of eng heb d) c \<and> room (order d) k \<and>
     shadow_of (orders_of eng heb d) l0 i (shadow_mem d) \<and> (\<forall>s0. s = Some s0 \<longrightarrow> strand_in (orders_of eng heb d) s0)"

lemma simD:
  assumes "sim eng heb room w a l0 i xs n k d f c s"
  shows "ready w a d" "checking_disabled d w = 0" "good (stacks d a) (xs @ [f])" "frame_ok n d f c s l0 i" "l0 < n" "n \<le> next_list d"
    "lists d l0 = Some List_empty" "\<exists>z. current_of d w = Some z \<and> is_cur l0 i c z" "strand_in (orders_of eng heb d) c"
    "room (order d) k" "shadow_of (orders_of eng heb d) l0 i (shadow_mem d)" "\<forall>s0. s = Some s0 \<longrightarrow> strand_in (orders_of eng heb d) s0"
  using assms by (simp_all add: sim_def)

text \<open>One access, checked by a query that agrees with the orders.\<close>

lemma check_access_agrees:
  assumes fit: "acc_fits ad sz" and sh: "shadow_of W l0 i sm" and c: "strand_in W c" "is_cur l0 i c z"
    and P: "agrees P W l0 i" and Q: "agrees Q W l0 i"
  shows "\<exists>m sm'. check_access Q cur_english nobody rd z ad sz sm = Some (m, sm') \<and> shadow_of W l0 i sm' \<and>
    (\<forall>g. grain_at sm' g = (if touches ad sz g then snd (grain_step P cur_english rd z (grain_at sm g)) else grain_at sm g)) \<and>
    (m = 0 \<longleftrightarrow> (\<forall>g. touches ad sz g \<longrightarrow> fst (grain_step P cur_english rd z (grain_at sm g)) = 0))"
proof -
  have ok: "shadow_ok sm" and rec: "\<And>g a. a \<in> grain_accessors (grain_at sm g) \<Longrightarrow> \<exists>x. strand_in W x \<and> is_cur l0 i x a"
    using sh by (auto simp: shadow_of_def)
  have eq: "grain_step Q cur_english rd z (grain_at sm g) = grain_step P cur_english rd z (grain_at sm g)" for g
  proof (rule grain_step_cong)
    fix a assume "a \<in> grain_accessors (grain_at sm g)"
    then obtain x where "strand_in W x" "is_cur l0 i x a" using rec by blast
    then show "Q a z = P a z" using P Q c unfolding agrees_def by metis
  qed
  have i: "in_slots ad sz" using fit by (simp add: acc_fits_def)
  from check_access_spec [OF fit ok, of Q cur_english rd z] obtain sm' where sm':
    "check_access Q cur_english nobody rd z ad sz sm =
      Some (\<Sum>g\<leftarrow>grains ad sz. fst (grain_step P cur_english rd z (grain_at sm g)), sm')" "shadow_ok sm'"
    "\<forall>g. grain_at sm' g = (if touches ad sz g then snd (grain_step P cur_english rd z (grain_at sm g)) else grain_at sm g)"
    unfolding eq by blast
  have "\<exists>x. strand_in W x \<and> is_cur l0 i x a" if a: "a \<in> grain_accessors (grain_at sm' g)" for a g
  proof (cases "touches ad sz g")
    case True
    then have "a = z \<or> a \<in> grain_accessors (grain_at sm g)"
      using a sm'(3) grain_step_accessors [of P cur_english rd z "grain_at sm g"] by auto
    then show ?thesis using c rec by blast
  qed (use a sm'(3) rec in auto)
  then have "shadow_of W l0 i sm'" using sm'(2) by (simp add: shadow_of_def)
  moreover let ?m = "\<Sum>g\<leftarrow>grains ad sz. fst (grain_step P cur_english rd z (grain_at sm g))"
  have "?m = 0 \<longleftrightarrow>
      (\<forall>g. touches ad sz g \<longrightarrow> fst (grain_step P cur_english rd z (grain_at sm g)) = 0)"
    by (auto simp: sum_list_eq_0_iff touches_grains [OF i])
  ultimately show ?thesis using sm'(1,3) by (intro exI [of _ ?m] exI [of _ sm'] conjI)
qed

definition body_runs :: "('o \<Rightarrow> 'n list) \<Rightarrow> ('o \<Rightarrow> 'n list) \<Rightarrow> ('o \<Rightarrow> nat \<Rightarrow> bool) \<Rightarrow> ('n, 'o) tool \<Rightarrow> nat \<Rightarrow> nat \<Rightarrow> nat \<Rightarrow> 32 word \<Rightarrow>
    mem_step body \<Rightarrow> bool" where
  "body_runs eng heb room E w a l0 i b \<longleftrightarrow> (\<forall>xs n k d f c.
     sim eng heb room w a l0 i xs n (k + body_need b) d f c None \<longrightarrow> \<not> is_helper f \<longrightarrow> (\<forall>s\<in>set (body_marks b). step_ok s) \<longrightarrow>
     (\<exists>d' f' c' L. run_body E w b d = Some d' \<and> sp_body (orders_of eng heb d) c b L (orders_of eng heb d') c' \<and>
        sim eng heb room w a l0 i xs n k d' f' c' None \<and> \<not> is_helper f' \<and> ran eng heb n l0 i d L d'))"

definition block_runs :: "('o \<Rightarrow> 'n list) \<Rightarrow> ('o \<Rightarrow> 'n list) \<Rightarrow> ('o \<Rightarrow> nat \<Rightarrow> bool) \<Rightarrow> ('n, 'o) tool \<Rightarrow> nat \<Rightarrow> nat \<Rightarrow> nat \<Rightarrow> 32 word \<Rightarrow>
    mem_step block \<Rightarrow> bool" where
  "block_runs eng heb room E w a l0 i b \<longleftrightarrow> (\<forall>xs n k d f c s.
     sim eng heb room w a l0 i xs n (k + block_need b) d f c s \<longrightarrow> \<not> is_helper f \<longrightarrow> (\<forall>s\<in>set (block_marks b). step_ok s) \<longrightarrow>
     (\<exists>d' f' c' s' L. run_block E w b d = Some d' \<and> sp_block (orders_of eng heb d) c s b L (orders_of eng heb d') c' s' \<and>
        sim eng heb room w a l0 i xs n k d' f' (case s' of None \<Rightarrow> c' | Some s0 \<Rightarrow> s0) None \<and> \<not> is_helper f' \<and> ran eng heb n l0 i d L d'))"

definition item_runs :: "('o \<Rightarrow> 'n list) \<Rightarrow> ('o \<Rightarrow> 'n list) \<Rightarrow> ('o \<Rightarrow> nat \<Rightarrow> bool) \<Rightarrow> ('n, 'o) tool \<Rightarrow> nat \<Rightarrow> nat \<Rightarrow> nat \<Rightarrow> 32 word \<Rightarrow>
    mem_step item \<Rightarrow> bool" where
  "item_runs eng heb room E w a l0 i t \<longleftrightarrow> (\<forall>xs n k d f c s.
     sim eng heb room w a l0 i xs n (k + item_need t) d f c s \<longrightarrow> \<not> is_helper f \<longrightarrow> (\<forall>s\<in>set (item_marks t). step_ok s) \<longrightarrow>
     (\<exists>d' f' c' s' L. run_item E w t d = Some d' \<and>
        (\<forall>js L2 W'' c'' s''. sp_block (orders_of eng heb d') c' s' js L2 W'' c'' s'' \<longrightarrow>
           sp_block (orders_of eng heb d) c s (t # js) (L @ L2) W'' c'' s'') \<and>
        sim eng heb room w a l0 i xs n k d' f' c' s' \<and> \<not> is_helper f' \<and> ran eng heb n l0 i d L d'))"

lemma orders_same: "order d' = order d \<Longrightarrow> orders_of eng heb d' = orders_of eng heb d"
  by (simp add: orders_of_def)

lemma helper_flags: "flags f = flags g \<Longrightarrow> is_helper f = is_helper g"
  by (simp add: is_helper_def)

text \<open>Parts of the run that touch neither the orders nor the shadow memory.\<close>

lemma ran_before:
  assumes "order d1 = order d" "same_shadow d d1" "lists d1 = lists d" "next_list d1 = next_list d" "ran eng heb n l0 i d1 L d'"
  shows "ran eng heb n l0 i d L d'"
  using assms unfolding ran_def checked_def keeps_def same_shadow_def orders_of_def by simp

lemma ran_after:
  assumes "order d' = order d1" "same_shadow d1 d'" "lists d' = lists d1" "next_list d' = next_list d1" "ran eng heb n l0 i d L d1"
  shows "ran eng heb n l0 i d L d'"
  using assms unfolding ran_def checked_def keeps_def same_shadow_def orders_of_def by simp

context strand_orders
begin

lemma precedes_agrees:
  fixes d :: "('n, 'o) tsan"
  assumes "lists d l0 = Some List_empty" "room (order d) k"
  shows "agrees (Precedes E d) (ords d) l0 i"
  unfolding agrees_def
proof (intro allI impI)
  fix x y z1 z2 assume a: "strand_in (ords d) x" "strand_in (ords d) y" "is_cur l0 i x z1" "is_cur l0 i y z2"
  have "\<not> Search Q List_empty e h j" for Q :: "'n option \<Rightarrow> 'n option \<Rightarrow> bool" and e h j by (simp add: Search_def empty_list)
  then show "Precedes E d z1 z2 = bef2 (ords d) x y"
    using a assms prec_eng [OF assms(2)] prec_heb [OF assms(2)]
    by (simp add: Precedes_def is_cur_def bef2_def strand_in_def orders_of_def get_list_def)
qed

lemma mark_law:
  assumes sm: "sim eng heb room w a l0 i xs n k d f c s" and s: "step_ok t"
  shows "\<exists>d'. run_item E w (Mark t) d = Some d' \<and> sim eng heb room w a l0 i xs n k d' f c s \<and> ords d' = ords d \<and>
    ran eng heb n l0 i d [(t, c)] d'"
proof -
  note S = simD [OF sm]
  obtain z where z: "current_of d w = Some z" "is_cur l0 i c z" using S(8) by blast
  let ?d = "d\<lparr>checking_disabled := (checking_disabled d)(w := 1)\<rparr>"
  let ?rd = "step_read t" and ?ad = "step_addr t" and ?sz = "step_size t"
  have fit: "acc_fits ?ad ?sz" using s by (simp add: step_ok_def)
  have ag: "agrees (Precedes E d) (ords d) l0 i" by (rule precedes_agrees [OF S(7,10)])
  from check_access_agrees [OF fit S(11,9) z(2) ag ag, of ?rd] obtain m sh where
    m: "check_access (Precedes E d) cur_english nobody ?rd z ?ad ?sz (shadow_mem d) = Some (m, sh)" "shadow_of (ords d) l0 i sh" by blast
  let ?d' = "d\<lparr>checking_disabled := (checking_disabled d)(w := 0), shadow_mem := sh, races := races d + m\<rparr>"
  have pd: "Precedes E (d\<lparr>checking_disabled := ch\<rparr>) = Precedes E d" for ch by (intro ext) (simp add: Precedes_def get_list_def)
  have acc: "tsan_access E ?rd ?ad ?sz w (d\<lparr>checking_disabled := (checking_disabled d)(w := v)\<rparr>) = Some ?d'" if "0 \<le> v" for v
    using z s that m(1) pd by (auto simp: tsan_access_def disable_checking_def enable_checking_def is_cur_def step_ok_def)
  have d0: "d\<lparr>checking_disabled := (checking_disabled d)(w := 0)\<rparr> = d" using S(2) by (simp add: fun_upd_idem)
  have al: "ALIGNED ad 4" if "ALIGNED ad 16" for ad
  proof -
    have "ad AND 3 = (ad AND 15) AND 3" by (simp add: and.assoc)
    then show ?thesis using that by (simp add: ALIGNED_def)
  qed
  have run: "run_item E w (Mark t) d = Some ?d'"
  proof (cases "?sz = 16")
    case True
    have "tsan16_access E ?rd ?ad w d = Some (enable_checking w ?d')"
      using True s al acc [of 1] S(1,2) by (simp add: tsan16_access_def step_ok_def should_check_def ready_def disable_checking_def)
    then show ?thesis using True by (simp add: tsan_rw_def enable_checking_def)
  qed (use acc [of 0] d0 in \<open>simp add: tsan_rw_def\<close>)
  have oo: "ords ?d' = ords d" by (simp add: orders_of_def)
  have "sim eng heb room w a l0 i xs n k ?d' f c s"
    using S m(2) oo frame_ok_same [of ?d' d] by (simp add: sim_def)
  moreover have "ran eng heb n l0 i d [(t, c)] ?d'"
  proof -
    let ?x = "\<lparr>is_read = ?rd, accessor = z, acc_addr = ?ad, acc_size = ?sz\<rparr>"
    have "checked P d [?x] ?d'" if P: "agrees P (ords ?d') l0 i" for P
      using check_access_agrees [OF fit S(11,9) z(2) P [unfolded oo] ag, of ?rd] m(1)
      by (auto simp: checked_def Let_def split_def)
    moreover have "list_all2 (acc_of l0 i) [(t, c)] [?x]" using z(2) by (simp add: acc_of_def)
    moreover have "ext2 (ords d) (ords ?d')" unfolding oo using room_distinct [OF S(10)] by (intro ext2_refl) (simp add: ok2_def orders_of_def)
    moreover have "keeps n d ?d'" by (simp add: keeps_def)
    ultimately show ?thesis unfolding ran_def by blast
  qed
  ultimately show ?thesis using run oo by blast
qed

text \<open>A call, from a function or from a spawn helper.\<close>

lemma call_law:
  assumes B: "body_runs eng heb room E w a l0 i b" and sm: "sim eng heb room w a l0 i xs n (k + body_need b) d f c s"
    and ok: "\<forall>t\<in>set (body_marks b). step_ok t"
  shows "\<exists>d' f' c' L. run_item E w (Call b) d = Some d' \<and> sp_body (ords d) c b L (ords d') c' \<and>
    sim eng heb room w a l0 i xs n k d' f' c' s \<and> flags f' = flags f \<and> ran eng heb (next_list d) l0 i d L d'"
proof -
  note S = simD [OF sm]
  from enter_pair [OF S(1,3), of E] obtain st f1 where 1:
    "do { d \<leftarrow> cilk_enter_begin E w d; cilk_enter_end E w d } =
      Some (d\<lparr>stacks := (stacks d)(a := st), checking_disabled := (checking_disabled d)(w := 0)\<rparr>)"
    "good st (xs @ [f, f1])" "entered f f1" by blast
  let ?d1 = "d\<lparr>stacks := (stacks d)(a := st), checking_disabled := (checking_disabled d)(w := 0)\<rparr>"
  have "frame_ok (next_list d) ?d1 f1 c None l0 i" using 1(3) S(4) by (simp add: entered_def frame_ok_def has_sync_def)
  then have "sim eng heb room w a l0 i (xs @ [f]) (next_list d) (k + body_need b) ?d1 f1 c None"
    using S 1(2) orders_same [of ?d1 d eng heb] by (simp add: sim_def)
  moreover have "\<not> is_helper f1" using 1(3) by (simp add: entered_def is_helper_def)
  ultimately obtain d2 f2 c2 L where 2: "run_body E w b ?d1 = Some d2" "sp_body (ords ?d1) c b L (ords d2) c2"
    "sim eng heb room w a l0 i (xs @ [f]) (next_list d) k d2 f2 c2 None" "\<not> is_helper f2" "ran eng heb (next_list d) l0 i ?d1 L d2"
    using B ok unfolding body_runs_def by metis
  note S2 = simD [OF 2(3)]
  let ?d3 = "d2\<lparr>checking_disabled := (checking_disabled d2)(w := 1), called_future := (called_future d2)(w := False)\<rparr>"
  let ?d4 = "enable_checking w ?d3"
  have 3: "cilk_leave_begin False w d2 = Some ?d3" using leave_begin_good [OF S2(1,3), of False] by simp
  have r4: "ready w a ?d4" using S2(1) by (simp add: enable_checking_def)
  have g4: "good (stacks ?d4 a) (xs @ [f, f2])" using S2(3) by (simp add: enable_checking_def)
  define p where "p = f\<lparr>current_english := current_english f2, current_hebrew := current_hebrew f2, current_list := current_list f2\<rparr>"
  have cont: "cont_english f = None" "cont_hebrew f = None" using S(4) by (simp_all add: frame_ok_def)
  from do_leave_end_call [OF r4 g4 2(4) cont, of E] obtain st5 where
    5: "do_leave_end E w ?d4 = Some (False, set_current w p (?d4\<lparr>stacks := (stacks ?d4)(a := st5)\<rparr>))" "good st5 (xs @ [p])"
    unfolding p_def by blast
  let ?d5 = "set_current w p (?d4\<lparr>stacks := (stacks ?d4)(a := st5)\<rparr>)"
  have e5: "order ?d5 = order d2" "same_shadow d2 ?d5" "lists ?d5 = lists d2" "next_list ?d5 = next_list d2"
    by (simp_all add: enable_checking_def same_shadow_def)
  have "\<not> in_batch w ?d3" using S2(1) by (simp add: in_batch_def ready_def)
  then have "cilk_leave_end E w ?d3 = Some ?d5" using 5(1) by (simp add: cilk_leave_end_def)
  moreover have "run_item E w (Call b) d = do { d \<leftarrow> do { d \<leftarrow> cilk_enter_begin E w d; cilk_enter_end E w d };
      d \<leftarrow> run_body E w b d; d \<leftarrow> cilk_leave_begin False w d; cilk_leave_end E w d }" by (simp add: bind_assoc_opt)
  ultimately have run: "run_item E w (Call b) d = Some ?d5" unfolding 1(1) using 2(1) 3 by simp
  have kp: "keeps (next_list d) d ?d5" using 2(5) e5 by (simp add: ran_def keeps_def)
  have "has_sync n ?d5 f s l0" using has_sync_keeps [OF _ kp] S(4) by (simp add: frame_ok_def)
  then have fr: "frame_ok n ?d5 p c2 s l0 i"
    using S(4) S2(4) unfolding frame_ok_def has_sync_def p_def by (simp split: option.splits)
  have cur: "\<exists>z. current_of ?d5 w = Some z \<and> is_cur l0 i c2 z"
    using set_current_cur [of w p "?d4\<lparr>stacks := (stacks ?d4)(a := st5)\<rparr>"] fr by (auto simp: is_cur_def frame_ok_def has_sync_def)
  have l0: "lists ?d5 l0 = Some List_empty" "n \<le> next_list ?d5" using S(5,6,7) kp by (auto simp: keeps_def)
  have "ext2 (ords d) (ords d2)" using 2(5) orders_same [of ?d1 d eng heb] by (simp add: ran_def)
  then have "\<forall>s0. s = Some s0 \<longrightarrow> strand_in (ords d2) s0" using S(12) ext2_in by blast
  then have "sim eng heb room w a l0 i xs n k ?d5 p c2 s"
    using S2 S(5) fr cur l0 5(2) r4 e5 orders_same [OF e5(1), of eng heb]
    unfolding sim_def by (simp add: same_shadow_def enable_checking_def)
  moreover have "flags p = flags f" by (simp add: p_def)
  moreover have "sp_body (ords d) c b L (ords ?d5) c2" using 2(2) orders_same [OF e5(1), of eng heb] by (simp add: orders_of_def)
  moreover have "ran eng heb (next_list d) l0 i d L ?d5"
    by (rule ran_after [OF e5], rule ran_before [OF _ _ _ _ 2(5)]) (simp_all add: same_shadow_def)
  ultimately show ?thesis using run by blast
qed

lemma detached_ext:
  assumes "detached eng heb w a xs n l0 i d c s d' p p' f s1 W1 fn kn" "ok2 (ords d)" "strand_in (ords d) c"
    "\<forall>s0. s = Some s0 \<longrightarrow> strand_in (ords d) s0"
  shows "ext2 (ords d) (ords d') \<and> strand_in (ords d') fn \<and> strand_in (ords d') kn \<and> strand_in (ords d') s1"
proof -
  have D: "case s of None \<Rightarrow> fresh2 (ords d) s1 \<and> W1 = put2 c s1 (ords d) | Some s0 \<Rightarrow> s1 = s0 \<and> W1 = ords d"
    using assms(1) unfolding detached_def by blast
  have "ext2 (ords d) W1 \<and> strand_in W1 s1"
  proof (cases s)
    case None
    then show ?thesis using D put2_spec [OF assms(2,3), of s1] twin2_in [of "ords d" "put2 c s1 (ords d)" c s1] by simp
  qed (use D ext2_refl [OF assms(2)] assms(4) in simp)
  then have c1: "ext2 (ords d) W1 \<and> ok2 W1 \<and> strand_in W1 c \<and> strand_in W1 s1" using ext2_ok ext2_in assms(3) by blast
  then have "ext2 W1 (fork2 c fn kn W1) \<and> twin2 W1 (fork2 c fn kn W1) c fn \<and> twin2 W1 (fork2 c fn kn W1) c kn"
    using fork2_spec [of W1 c fn kn] assms(1) unfolding detached_def by blast
  moreover have "ords d' = fork2 c fn kn W1" using assms(1) by (simp add: detached_def)
  ultimately show ?thesis using c1 ext2_trans twin2_in ext2_in by metis
qed

text \<open>The hooks of a spawn up to the call of the child.\<close>

lemma spawn_law:
  assumes sm: "sim eng heb room w a l0 i xs n (k + 6) d p c s" and nh: "\<not> is_helper p"
  shows "\<exists>d' p' f s1 W1 fn kn. do {
       d \<leftarrow> cilk_spawn_prepare w d;
       d \<leftarrow> cilk_enter_helper_begin w (cilk_spawn_or_continue w d);
       d \<leftarrow> cilk_enter_end E w d;
       d \<leftarrow> cilk_detach_begin E w d;
       Some (cilk_detach_end w d) } = Some d' \<and> detached eng heb w a xs n l0 i d c s d' p p' f s1 W1 fn kn \<and>
     sim eng heb room w a l0 i (xs @ [p']) (next_list d') k d' f fn None"
proof -
  note S = simD [OF sm]
  let ?v = "\<lambda>v d. d\<lparr>checking_disabled := (checking_disabled d)(w := v)\<rparr>"
  let ?d = "?v 1 d"
  have rv1: "ready w a (?v v d)" if "0 \<le> v" for v using S(1) that by simp
  have rv: "ready w a (?v v d)" "good (stacks (?v v d) a) (xs @ [p])" "\<not> in_batch w (?v v d)" if "0 \<le> v" for v
    using rv1 [OF that] S(3) ready_simps(1) [OF rv1 [OF that]] by simp_all
  have hooks: "cilk_spawn_prepare w d = Some ?d" "cilk_spawn_or_continue w ?d = ?v 0 d" "cilk_enter_helper_begin w (?v 0 d) = Some ?d"
    "cilk_enter_end E w ?d = Some (?v 0 d)" "cilk_detach_begin E w (?v 0 d) = do_detach_begin E w ?d"
    using rv [of 0] rv [of 1] ready_simps(1) [OF S(1)] enter_end_good [OF rv(1,2), of 1 E] S(2)
    by (simp_all add: cilk_spawn_prepare_def cilk_spawn_or_continue_def cilk_enter_helper_begin_def cilk_detach_begin_def
        disable_checking_def enable_checking_def)
  have o: "ords ?d = ords d" by (simp add: orders_of_def)
  have okd: "frame_ok n ?d p c s l0 i" using S(4) by (simp add: frame_ok_same [of ?d d])
  have cd: "strand_in (ords ?d) c" "room (order ?d) (k + 6)" "n \<le> next_list ?d" using S(6,9,10) o by simp_all
  from do_detach_begin_law [OF rv(1,2) nh okd cd] obtain d1 p' f s1 W1 fn kn where
    1: "do_detach_begin E w ?d = Some d1" "room (order d1) k" "detached eng heb w a xs n l0 i ?d c s d1 p p' f s1 W1 fn kn" by auto
  let ?d' = "?v 0 d1"
  have D: "ready w a d1" "good (stacks d1 a) (xs @ [p', f])" "frame_ok (next_list d1) d1 f fn None l0 i" "spawning n d1 p' kn s1 l0 i"
    "\<exists>z. current_of d1 w = Some z \<and> is_cur l0 i fn z" "keeps (next_list d) d d1" "same_shadow d d1"
    using 1(3) by (simp_all add: detached_def keeps_def same_shadow_def)
  have "\<not> in_batch w d1" using D(1) by (simp add: in_batch_def ready_def)
  then have "cilk_detach_end w d1 = ?d'" by (simp add: cilk_detach_end_def enable_checking_def)
  then have run: "do {
       d \<leftarrow> cilk_spawn_prepare w d;
       d \<leftarrow> cilk_enter_helper_begin w (cilk_spawn_or_continue w d);
       d \<leftarrow> cilk_enter_end E w d;
       d \<leftarrow> cilk_detach_begin E w d;
       Some (cilk_detach_end w d) } = Some ?d'" using hooks 1(1) by simp
  have o': "orders_of eng heb ?d' = orders_of eng heb d1" by (simp add: orders_of_def)
  have fr: "frame_ok (next_list ?d') ?d' f fn None l0 i" using D(3) by (simp add: frame_ok_same [of ?d' d1])
  have sp: "spawning n ?d' p' kn s1 l0 i" using D(4) by (simp add: spawning_def has_sync_def)
  have det: "detached eng heb w a xs n l0 i d c s ?d' p p' f s1 W1 fn kn"
    using 1(3) fr sp o unfolding detached_def o o' by (simp add: keeps_def same_shadow_def)
  have ext: "ext2 (ords d) (ords ?d')" "strand_in (ords ?d') fn"
    using detached_ext [OF det] S(9,12) room_distinct [OF S(10)] by (simp_all add: ok2_def orders_of_def)
  have "sim eng heb room w a l0 i (xs @ [p']) (next_list ?d') k ?d' f fn None"
    using D fr 1(2) ext S(5,6,7) shadow_of_less [OF S(11) ext(1)] unfolding sim_def by (simp add: keeps_def same_shadow_def)
  then show ?thesis using run det by blast
qed

text \<open>The return of the spawned child to its parent.\<close>

lemma spawn_return_law:
  assumes sm: "sim eng heb room w a l0 i (xs @ [p]) m k d f c None" and h: "is_helper f"
    and p: "spawning n d p kn s1 l0 i" and n: "l0 < n" "n \<le> next_list d" and kn: "strand_in (ords d) kn" "strand_in (ords d) s1"
  shows "\<exists>d' p'. do { d \<leftarrow> cilk_leave_begin True w d; cilk_leave_end E w d } = Some d' \<and>
    sim eng heb room w a l0 i xs n k d' p' kn (Some s1) \<and> flags p' = flags p \<and> order d' = order d \<and> same_shadow d d' \<and>
    lists d' = lists d \<and> next_list d' = next_list d"
proof -
  note S = simD [OF sm]
  let ?d3 = "d\<lparr>checking_disabled := (checking_disabled d)(w := 1), called_future := (called_future d)(w := False),
    clear_stack := (clear_stack d)(w := True)\<rparr>"
  let ?d4 = "enable_checking w ?d3"
  have 3: "cilk_leave_begin True w d = Some ?d3" using leave_begin_good [OF S(1,3), of True] by simp
  have r4: "ready w a ?d4" using S(1) by (simp add: enable_checking_def)
  have g4: "good (stacks ?d4 a) (xs @ [p, f])" using S(3) by (simp add: enable_checking_def)
  define p' where "p' = p\<lparr>current_english := cont_english p, current_hebrew := cont_hebrew p, cont_english := None, cont_hebrew := None\<rparr>"
  have f: "current_list f = current_list p" using S(4) p by (simp add: frame_ok_def spawning_def has_sync_def)
  have c: "current_english p = None" "current_hebrew p = None" "cont_english p \<noteq> None" "cont_hebrew p \<noteq> None"
      "sync_english p \<noteq> None" "sync_hebrew p \<noteq> None" using p by (simp_all add: spawning_def has_sync_def)
  from do_leave_end_spawn [OF r4 g4 h f c, of E] obtain st5 where
    5: "do_leave_end E w ?d4 = Some (False, set_current w p' (?d4\<lparr>stacks := (stacks ?d4)(a := st5)\<rparr>))" "good st5 (xs @ [p'])"
    unfolding p'_def by blast
  let ?d5 = "set_current w p' (?d4\<lparr>stacks := (stacks ?d4)(a := st5)\<rparr>)"
  have e5: "order ?d5 = order d" "same_shadow d ?d5" "lists ?d5 = lists d" "next_list ?d5 = next_list d"
    by (simp_all add: enable_checking_def same_shadow_def)
  have "\<not> in_batch w ?d3" using S(1) by (simp add: in_batch_def ready_def)
  then have run: "do { d \<leftarrow> cilk_leave_begin True w d; cilk_leave_end E w d } = Some ?d5" using 3 5(1) by (simp add: cilk_leave_end_def)
  have fr: "frame_ok n ?d5 p' kn (Some s1) l0 i"
    using p e5(3,4) unfolding frame_ok_same [OF e5(4,3)] by (simp add: spawning_def frame_ok_def has_sync_def p'_def)
  have cur: "\<exists>z. current_of ?d5 w = Some z \<and> is_cur l0 i kn z"
    using set_current_cur [of w p' "?d4\<lparr>stacks := (stacks ?d4)(a := st5)\<rparr>"] fr by (auto simp: is_cur_def frame_ok_def has_sync_def)
  have "sim eng heb room w a l0 i xs n k ?d5 p' kn (Some s1)"
    using S fr cur n kn 5(2) r4 e5 orders_same [OF e5(1), of eng heb]
    unfolding sim_def by (simp add: same_shadow_def enable_checking_def)
  moreover have "flags p' = flags p" by (simp add: p'_def)
  ultimately show ?thesis using run e5 by blast
qed

lemma item_spawn:
  assumes B: "body_runs eng heb room E w a l0 i b"
  shows "item_runs eng heb room E w a l0 i (Spawn b)"
  unfolding item_runs_def
proof (intro allI impI)
  fix xs n k d p c s
  assume sm0: "sim eng heb room w a l0 i xs n (k + item_need (Spawn b)) d p c s" and nh: "\<not> is_helper p"
    and ok0: "\<forall>t\<in>set (item_marks (Spawn b)). step_ok t"
  have sm: "sim eng heb room w a l0 i xs n (k + body_need b + 6) d p c s" using sm0 by (simp add: ac_simps)
  have ok: "\<forall>t\<in>set (body_marks b). step_ok t" using ok0 by simp
  note S = simD [OF sm]
  from spawn_law [OF sm nh] obtain d1 p' f s1 W1 fn kn where 1: "do {
       d \<leftarrow> cilk_spawn_prepare w d;
       d \<leftarrow> cilk_enter_helper_begin w (cilk_spawn_or_continue w d);
       d \<leftarrow> cilk_enter_end E w d;
       d \<leftarrow> cilk_detach_begin E w d;
       Some (cilk_detach_end w d) } = Some d1" "detached eng heb w a xs n l0 i d c s d1 p p' f s1 W1 fn kn"
    "sim eng heb room w a l0 i (xs @ [p']) (next_list d1) (k + body_need b) d1 f fn None" by blast
  have D: "flags p' = flags p" "is_helper f" "orders_of eng heb d1 = fork2 c fn kn W1" "spawning n d1 p' kn s1 l0 i"
    "keeps (next_list d) d d1" "same_shadow d d1" "fresh2 W1 fn" "fresh2 W1 kn" "fst fn \<noteq> fst kn" "snd fn \<noteq> snd kn"
    "case s of None \<Rightarrow> fresh2 (ords d) s1 \<and> W1 = put2 c s1 (ords d) | Some s0 \<Rightarrow> s1 = s0 \<and> W1 = ords d"
    using 1(2) unfolding detached_def by blast+
  have X: "ext2 (ords d) (ords d1)" "strand_in (ords d1) kn" "strand_in (ords d1) s1"
    using detached_ext [OF 1(2)] S(9,12) room_distinct [OF S(10)] by (simp_all add: ok2_def orders_of_def)
  from call_law [OF B 1(3) ok] obtain d2 f2 c2 L where 2: "run_item E w (Call b) d1 = Some d2" "sp_body (ords d1) fn b L (ords d2) c2"
    "sim eng heb room w a l0 i (xs @ [p']) (next_list d1) k d2 f2 c2 None" "flags f2 = flags f"
    "ran eng heb (next_list d1) l0 i d1 L d2" by blast
  have k12: "keeps (next_list d1) d1 d2" and x12: "ext2 (ords d1) (ords d2)" using 2(5) by (simp_all add: ran_def)
  have h2: "is_helper f2" using D(2) 2(4) helper_flags by blast
  have n1: "n \<le> next_list d1" "n \<le> next_list d2" using S(6) D(5) k12 by (auto simp: keeps_def)
  from spawn_return_law [OF 2(3) h2 spawning_keeps [OF D(4) k12] S(5) n1(2) ext2_in [OF x12 X(2)] ext2_in [OF x12 X(3)]] obtain d3 p3 where
    3: "do { d \<leftarrow> cilk_leave_begin True w d2; cilk_leave_end E w d } = Some d3"
      "sim eng heb room w a l0 i xs n k d3 p3 kn (Some s1)" "flags p3 = flags p'" "order d3 = order d2" "same_shadow d2 d3"
      "lists d3 = lists d2" "next_list d3 = next_list d2" by blast
  have "run_item E w (Spawn b) d = do {
      d \<leftarrow> do {
       d \<leftarrow> cilk_spawn_prepare w d;
       d \<leftarrow> cilk_enter_helper_begin w (cilk_spawn_or_continue w d);
       d \<leftarrow> cilk_enter_end E w d;
       d \<leftarrow> cilk_detach_begin E w d;
       Some (cilk_detach_end w d) };
      d \<leftarrow> run_item E w (Call b) d;
      d \<leftarrow> cilk_leave_begin True w d;
      cilk_leave_end E w d }" by (simp add: bind_assoc_opt)
  then have run: "run_item E w (Spawn b) d = Some d3" unfolding 1(1) using 2(1) 3(1) by (simp del: run_item.simps)
  have o3: "orders_of eng heb d3 = orders_of eng heb d2" by (rule orders_same [OF 3(4)])
  have sp: "sp_block (ords d) c s (Spawn b # js) (L @ L2) W'' c'' s''" if "sp_block (ords d3) kn (Some s1) js L2 W'' c'' s''" for js L2 W'' c'' s''
    by (rule Block_Spawn [OF D(11,7-10)]) (use 2(2) that o3 D(3) in simp_all)
  have "ran eng heb n l0 i d [] d1" by (rule ran_quiet [OF keeps_less [OF D(5) S(6)] X(1) D(6)])
  moreover have "ran eng heb n l0 i d1 L d3" by (rule ran_after [OF 3(4-7) ran_less [OF 2(5) n1(1)]])
  ultimately have "ran eng heb n l0 i d L d3" using ran_chain by fastforce
  moreover have "\<not> is_helper p3" using nh D(1) 3(3) helper_flags by metis
  ultimately show "\<exists>d' f' c' s' L. run_item E w (Spawn b) d = Some d' \<and>
      (\<forall>js L2 W'' c'' s''. sp_block (ords d') c' s' js L2 W'' c'' s'' \<longrightarrow> sp_block (ords d) c s (Spawn b # js) (L @ L2) W'' c'' s'') \<and>
      sim eng heb room w a l0 i xs n k d' f' c' s' \<and> \<not> is_helper f' \<and> ran eng heb n l0 i d L d'"
    using run sp 3(2) by blast
qed

lemma item_mark: "item_runs eng heb room E w a l0 i (Mark t)"
  unfolding item_runs_def
proof (intro allI impI)
  fix xs n k d f c s
  assume a: "sim eng heb room w a l0 i xs n (k + item_need (Mark t)) d f c s" "\<not> is_helper f" "\<forall>t\<in>set (item_marks (Mark t)). step_ok t"
  from mark_law [of w a l0 i xs n k d f c s t] a obtain d' where d': "run_item E w (Mark t) d = Some d'"
    "sim eng heb room w a l0 i xs n k d' f c s" "ords d' = ords d" "ran eng heb n l0 i d [(t, c)] d'" by auto
  have "sp_block (ords d) c s (Mark t # js) ([(t, c)] @ L2) W'' c'' s''" if "sp_block (ords d') c s js L2 W'' c'' s''" for js L2 W'' c'' s''
    using Block_Mark that d'(3) by fastforce
  then show "\<exists>d' f' c' s' L. run_item E w (Mark t) d = Some d' \<and>
      (\<forall>js L2 W'' c'' s''. sp_block (ords d') c' s' js L2 W'' c'' s'' \<longrightarrow> sp_block (ords d) c s (Mark t # js) (L @ L2) W'' c'' s'') \<and>
      sim eng heb room w a l0 i xs n k d' f' c' s' \<and> \<not> is_helper f' \<and> ran eng heb n l0 i d L d'"
    using a(2) d' by blast
qed

lemma item_call:
  assumes B: "body_runs eng heb room E w a l0 i b"
  shows "item_runs eng heb room E w a l0 i (Call b)"
  unfolding item_runs_def
proof (intro allI impI)
  fix xs n k d f c s
  assume a: "sim eng heb room w a l0 i xs n (k + item_need (Call b)) d f c s" "\<not> is_helper f" "\<forall>t\<in>set (item_marks (Call b)). step_ok t"
  have a1: "sim eng heb room w a l0 i xs n (k + body_need b) d f c s" "\<forall>t\<in>set (body_marks b). step_ok t" using a by simp_all
  from call_law [OF B a1] obtain d' f' c' L where d': "run_item E w (Call b) d = Some d'" "sp_body (ords d) c b L (ords d') c'"
    "sim eng heb room w a l0 i xs n k d' f' c' s" "flags f' = flags f" "ran eng heb (next_list d) l0 i d L d'" by blast
  have "sp_block (ords d) c s (Call b # js) (L @ L2) W'' c'' s''" if "sp_block (ords d') c' s js L2 W'' c'' s''" for js L2 W'' c'' s''
    by (rule Block_Call [OF d'(2) that])
  moreover have "ran eng heb n l0 i d L d'" by (rule ran_less [OF d'(5) simD(6) [OF a1(1)]])
  moreover have "\<not> is_helper f'" using a(2) d'(4) helper_flags by blast
  ultimately show "\<exists>d' f' c' s' L. run_item E w (Call b) d = Some d' \<and>
      (\<forall>js L2 W'' c'' s''. sp_block (ords d') c' s' js L2 W'' c'' s'' \<longrightarrow> sp_block (ords d) c s (Call b # js) (L @ L2) W'' c'' s'') \<and>
      sim eng heb room w a l0 i xs n k d' f' c' s' \<and> \<not> is_helper f' \<and> ran eng heb n l0 i d L d'"
    using d'(1,3) by blast
qed

lemma block_nil: "block_runs eng heb room E w a l0 i []"
  unfolding block_runs_def
proof (intro allI impI)
  fix xs n k d f c s
  assume a: "sim eng heb room w a l0 i xs n (k + block_need ([] :: mem_step block)) d f c s" and nh: "\<not> is_helper f"
  note S = simD [OF a]
  from sync_pair [OF S(1,3) nh S(4,6,5), of E] obtain d' f' where d': "run_block E w [] d = Some d'" "ready w a d'" "checking_disabled d' w = 0"
    "good (stacks d' a) (xs @ [f'])" "flags f' = flags f" "order d' = order d" "keeps n d d'" "same_shadow d d'"
    "frame_ok n d' f' (case s of None \<Rightarrow> c | Some s0 \<Rightarrow> s0) None l0 i"
    "\<exists>z. current_of d' w = Some z \<and> is_cur l0 i (case s of None \<Rightarrow> c | Some s0 \<Rightarrow> s0) z" by auto
  let ?c = "case s of None \<Rightarrow> c | Some s0 \<Rightarrow> s0"
  have o: "ords d' = ords d" by (rule orders_same [OF d'(6)])
  have "strand_in (ords d) ?c" using S(9,12) by (simp split: option.split)
  moreover have "lists d' l0 = Some List_empty" "n \<le> next_list d'" using S(5-7) d'(7) by (simp_all add: keeps_def)
  ultimately have "sim eng heb room w a l0 i xs n k d' f' ?c None"
    using S d' o by (simp add: sim_def same_shadow_def)
  moreover have "ran eng heb n l0 i d [] d'"
    by (rule ran_quiet [OF d'(7) _ d'(8)]) (use o room_distinct [OF S(10)] in \<open>simp add: ext2_refl ok2_def orders_of_def\<close>)
  moreover have "sp_block (ords d) c s [] [] (ords d') c s" unfolding o by (rule Block_Nil)
  moreover have "\<not> is_helper f'" using nh d'(5) helper_flags by blast
  ultimately show "\<exists>d' f' c' s' L. run_block E w [] d = Some d' \<and> sp_block (ords d) c s [] L (ords d') c' s' \<and>
      sim eng heb room w a l0 i xs n k d' f' (case s' of None \<Rightarrow> c' | Some s0 \<Rightarrow> s0) None \<and> \<not> is_helper f' \<and> ran eng heb n l0 i d L d'"
    using d'(1) by blast
qed

lemma block_cons:
  assumes I: "item_runs eng heb room E w a l0 i t" and B: "block_runs eng heb room E w a l0 i js"
  shows "block_runs eng heb room E w a l0 i (t # js)"
  unfolding block_runs_def
proof (intro allI impI)
  fix xs n k d f c s
  assume a: "sim eng heb room w a l0 i xs n (k + block_need (t # js)) d f c s" "\<not> is_helper f"
    and ok: "\<forall>s\<in>set (block_marks (t # js)). step_ok s"
  have a1: "sim eng heb room w a l0 i xs n (k + block_need js + item_need t) d f c s" using a(1) by (simp add: ac_simps)
  have "\<forall>s\<in>set (item_marks t). step_ok s" using ok by simp
  then obtain d1 f1 c1 s1 L1 where 1: "run_item E w t d = Some d1"
    "\<And>js L2 W'' c'' s''. sp_block (ords d1) c1 s1 js L2 W'' c'' s'' \<Longrightarrow> sp_block (ords d) c s (t # js) (L1 @ L2) W'' c'' s''"
    "sim eng heb room w a l0 i xs n (k + block_need js) d1 f1 c1 s1" "\<not> is_helper f1" "ran eng heb n l0 i d L1 d1"
    using I a1 a(2) unfolding item_runs_def by metis
  have "\<forall>s\<in>set (block_marks js). step_ok s" using ok by simp
  then obtain d2 f2 c2 s2 L2 where 2: "run_block E w js d1 = Some d2" "sp_block (ords d1) c1 s1 js L2 (ords d2) c2 s2"
    "sim eng heb room w a l0 i xs n k d2 f2 (case s2 of None \<Rightarrow> c2 | Some s0 \<Rightarrow> s0) None" "\<not> is_helper f2" "ran eng heb n l0 i d1 L2 d2"
    using B 1(3,4) unfolding block_runs_def by metis
  have "run_block E w (t # js) d = Some d2" using 1(1) 2(1) by simp
  then show "\<exists>d' f' c' s' L. run_block E w (t # js) d = Some d' \<and> sp_block (ords d) c s (t # js) L (ords d') c' s' \<and>
      sim eng heb room w a l0 i xs n k d' f' (case s' of None \<Rightarrow> c' | Some s0 \<Rightarrow> s0) None \<and> \<not> is_helper f' \<and> ran eng heb n l0 i d L d'"
    using 1(2) [OF 2(2)] 2(3,4) ran_chain [OF 1(5) 2(5)] by blast
qed

lemma body_nil: "body_runs eng heb room E w a l0 i []"
  unfolding body_runs_def
proof (intro allI impI)
  fix xs n k d f c
  assume a: "sim eng heb room w a l0 i xs n (k + body_need ([] :: mem_step body)) d f c None" "\<not> is_helper f"
  have "ran eng heb n l0 i d [] d"
    using room_distinct [OF simD(10) [OF a(1)]] keeps_refl
    by (intro ran_quiet) (simp_all add: ext2_refl ok2_def orders_of_def same_shadow_def)
  moreover have "sim eng heb room w a l0 i xs n k d f c None" "run_body E w [] d = Some d" using a(1) by simp_all
  ultimately show "\<exists>d' f' c' L. run_body E w [] d = Some d' \<and> sp_body (ords d) c [] L (ords d') c' \<and>
      sim eng heb room w a l0 i xs n k d' f' c' None \<and> \<not> is_helper f' \<and> ran eng heb n l0 i d L d'"
    using a(2) Body_Nil by blast
qed

lemma body_cons:
  assumes B: "block_runs eng heb room E w a l0 i b" and R: "body_runs eng heb room E w a l0 i bs"
  shows "body_runs eng heb room E w a l0 i (b # bs)"
  unfolding body_runs_def
proof (intro allI impI)
  fix xs n k d f c
  assume a: "sim eng heb room w a l0 i xs n (k + body_need (b # bs)) d f c None" "\<not> is_helper f"
    and ok: "\<forall>s\<in>set (body_marks (b # bs)). step_ok s"
  have a1: "sim eng heb room w a l0 i xs n (k + body_need bs + block_need b) d f c None" using a(1) by (simp add: ac_simps)
  have "\<forall>s\<in>set (block_marks b). step_ok s" using ok by simp
  then obtain d1 f1 c1 s1 L1 where 1: "run_block E w b d = Some d1" "sp_block (ords d) c None b L1 (ords d1) c1 s1"
    "sim eng heb room w a l0 i xs n (k + body_need bs) d1 f1 (case s1 of None \<Rightarrow> c1 | Some s0 \<Rightarrow> s0) None" "\<not> is_helper f1"
    "ran eng heb n l0 i d L1 d1"
    using B a1 a(2) unfolding block_runs_def by metis
  have "\<forall>s\<in>set (body_marks bs). step_ok s" using ok by simp
  then obtain d2 f2 c2 L2 where 2: "run_body E w bs d1 = Some d2"
    "sp_body (ords d1) (case s1 of None \<Rightarrow> c1 | Some s0 \<Rightarrow> s0) bs L2 (ords d2) c2"
    "sim eng heb room w a l0 i xs n k d2 f2 c2 None" "\<not> is_helper f2" "ran eng heb n l0 i d1 L2 d2"
    using R 1(3,4) unfolding body_runs_def by metis
  have "run_body E w (b # bs) d = Some d2" using 1(1) 2(1) by simp
  then show "\<exists>d' f' c' L. run_body E w (b # bs) d = Some d' \<and> sp_body (ords d) c (b # bs) L (ords d') c' \<and>
      sim eng heb room w a l0 i xs n k d' f' c' None \<and> \<not> is_helper f' \<and> ran eng heb n l0 i d L d'"
    using Body_Cons [OF 1(2) 2(2)] 2(3,4) ran_chain [OF 1(5) 2(5)] by blast
qed

text \<open>Every program runs, and its strands are those of the two orders.\<close>

lemma program_runs:
  fixes t :: "mem_step item" and js :: "mem_step block" and b :: "mem_step body"
  shows "item_runs eng heb room E w a l0 i t" "block_runs eng heb room E w a l0 i js" "body_runs eng heb room E w a l0 i b"
  by (induction t and js and b rule: item_par_block_par_body_par.induct)
    (blast intro: item_mark item_call item_spawn block_nil block_cons body_nil body_cons)+


end

section \<open>The start of a process\<close>

lemma tool_start:
  assumes "w < p"
  shows "cilk_tool_init E p od w (tsan_init w (tsan_start E od)) =
    Some ((tsan_start E od)\<lparr>TOOL_INITIALIZED := True, checking_disabled := (\<lambda>v. if v = w then 0 else 1),
      g_memory := Memory_init p (20000000 * 16 div p), active := (\<lambda>w. if w < p then Some w else None), next_stack := p, g_tool_init := True\<rparr>)"
  by (simp add: cilk_tool_init_def tsan_init_def tsan_start_def enable_checking_def disable_checking_def do_tool_init_def fun_eq_iff)

definition first_frame_of :: "('n, 'o) tool \<Rightarrow> 'n frame_data \<Rightarrow> bool" where
  "first_frame_of E f \<longleftrightarrow> flags f = 0 \<and> current_english f = Some (base_english E) \<and> current_hebrew f = Some (base_hebrew E) \<and>
     cont_english f = None \<and> cont_hebrew f = None \<and> sync_english f = None \<and> sync_hebrew f = None \<and> current_list f = Some 0 \<and>
     sync_list f = None \<and> f_future_id f = 0"

lemma main_entered:
  fixes E :: "('n, 'o) tool"
  assumes w: "w < p"
  shows "\<exists>d0 d f. cilk_tool_init E p od w (tsan_init w (tsan_start E od)) = Some d0 \<and>
    do { d \<leftarrow> cilk_enter_begin E w d0; cilk_enter_end E w d } = Some d \<and> ready w w d \<and> checking_disabled d w = 0 \<and>
    good (stacks d w) [f] \<and> first_frame_of E f \<and> next_list d = 1 \<and> lists d 0 = Some List_empty \<and> order d = od \<and>
    (\<exists>z. current_of d w = Some z \<and> is_cur 0 0 (base_english E, base_hebrew E) z) \<and> shadow_mem d = empty_shadow \<and> races d = 0"
proof -
  let ?d0 = "(tsan_start E od)\<lparr>TOOL_INITIALIZED := True, checking_disabled := (\<lambda>v. if v = w then 0 else 1),
      g_memory := Memory_init p (20000000 * 16 div p), active := (\<lambda>w. if w < p then Some w else None), next_stack := p, g_tool_init := True\<rparr>"
  let ?new = "Stack_new (uninit E)" and ?st = "Stack_push (uninit E) (Stack_new (uninit E))"
  obtain x where x: "live ?st = [] @ [x]" using push_live [of ?new "uninit E"] by auto
  have st: "stack_ok ?st" "tail ?st = 0" using push_ok [of ?new] by simp_all
  define f where "f = x\<lparr>flags := 0, current_english := Some (base_english E), current_hebrew := Some (base_hebrew E),
        cont_english := None, cont_hebrew := None, sync_english := None, sync_hebrew := None,
        current_list := Some 0, sync_list := None, f_dag := Some (base_english E), f_future_id := 0\<rparr>"
  obtain st' where st': "set_ancestor 0 f ?st = Some st'" "stack_ok st'" "live st' = [f]" "tail st' = 0"
    using set_head_live [OF st(1) x, of f] st(2) by auto
  have hd: "Stack_head ?st = Some x" by (rule head_live [OF st(1) x])
  have e: "Stack_empty ?new" by (simp add: Stack_empty_def Stack_size_def Stack_new_def)
  let ?d1 = "?d0\<lparr>checking_disabled := (checking_disabled ?d0)(w := 1)\<rparr>"
  have 1: "cilk_enter_begin E w ?d0 = Some ?d1"
    by (simp add: cilk_enter_begin_def in_batch_def tsan_start_def disable_checking_def do_enter_begin_def)
  let ?d2 = "?d1\<lparr>self_set := (\<lambda>_. False)(w := True), g_first_frame := False, t_worker := (\<lambda>_. None)(w := Some w),
     stacks := (\<lambda>_. ?new)(w := st'), lists := [0 \<mapsto> List_empty], next_list := 1, future_id := 1, g_deque := Some w,
     g_memory := (Memory_init p (20000000 * 16 div p))\<lparr>block_index := 1\<rparr>,
     p_memory := [w \<mapsto> \<lparr>pm_current = 0, pm_size = 20000000 * 16 div p, pm_current_h = 0, pm_size_h = 20000000 * 16 div p * 2\<rparr>]\<rparr>"
  have "do_enter_end E w ?d1 = Some (True, set_current w f ?d2)"
    using w e hd st'(1) by (simp add: do_enter_end_def tsan_start_def init_strand_first_def push_frame_def head_of_def set_frame_def
        new_list_def grab_memory_def grab_mem_def Memory_init_def f_def [symmetric])
  then have 2: "cilk_enter_end E w ?d1 = Some (enable_checking w ((set_current w f ?d2)\<lparr>check_enable_instrumentation := False,
      instrumentation := True, stack_low_watermark := (\<lambda>_. -1)(w := -1)\<rparr>))"
    by (simp add: cilk_enter_end_def in_batch_def tsan_start_def set_current_def new_current_def)
  let ?e = "enable_checking w ((set_current w f ?d2)\<lparr>check_enable_instrumentation := False,
      instrumentation := True, stack_low_watermark := (\<lambda>_. -1)(w := -1)\<rparr>)"
  have "ready w w ?e" using w by (simp add: ready_def enable_checking_def set_current_def new_current_def tsan_start_def)
  moreover have "good (stacks ?e w) [f]" using st' by (simp add: good_def enable_checking_def set_current_def new_current_def)
  moreover have "first_frame_of E f" by (simp add: first_frame_of_def f_def)
  moreover have "\<exists>z. current_of ?e w = Some z \<and> is_cur 0 0 (base_english E, base_hebrew E) z"
    by (simp add: enable_checking_def set_current_def new_current_def is_cur_def f_def)
  moreover have "checking_disabled ?e w = 0" "next_list ?e = 1" "lists ?e 0 = Some List_empty" "order ?e = od" "shadow_mem ?e = empty_shadow"
    "races ?e = 0" by (simp_all add: enable_checking_def set_current_def new_current_def tsan_start_def)
  moreover have "do { d \<leftarrow> cilk_enter_begin E w ?d0; cilk_enter_end E w d } = Some ?e"
    unfolding 1 bind.bind_lunit by (rule 2)
  ultimately show ?thesis
    by (intro exI [of _ ?d0] exI [of _ ?e] exI [of _ f] conjI tool_start [OF w])
qed

section \<open>The detector is exact\<close>

text \<open>
  What a race is. Two accesses conflict when they have a byte in common and at least one of them is a write. A program has a race
  when two of its accesses conflict and are logically parallel. A strand conflicts with itself when it reads and writes
  common bytes: that is no race, but \<^verbatim>\<open>check_mem.cpp\<close> reports it, since its loops over the readers (line 89) and for a
  reader (line 123) lack the test for the same strand of line 55.
\<close>

definition conflict :: "mem_step \<Rightarrow> mem_step \<Rightarrow> bool" where
  "conflict s t \<longleftrightarrow> \<not> (step_read s \<and> step_read t) \<and>
     max (unat (step_addr s)) (unat (step_addr t)) < min (unat (step_addr s) + step_size s) (unat (step_addr t) + step_size t)"

definition has_race :: "mem_step body \<Rightarrow> bool" where
  "has_race b \<longleftrightarrow> (\<exists>j<length (body_marks b). \<exists>i<j.
     (body_marks b ! i, body_marks b ! j) \<in> body_par b \<and> conflict (body_marks b ! i) (body_marks b ! j))"

definition self_conflict :: "mem_step body \<Rightarrow> bool" where
  "self_conflict b \<longleftrightarrow> (\<exists>j<length (body_marks b). \<exists>i<j. strands_of b ! i = strands_of b ! j \<and>
     step_read (body_marks b ! i) \<noteq> step_read (body_marks b ! j) \<and> conflict (body_marks b ! i) (body_marks b ! j))"

text \<open>
  The accesses for which the detector is exact: four, eight or sixteen bytes, naturally aligned, below \<open>2 ^ 48\<close>. Accesses of one
  and two bytes have no grain and are not checked at all (\<^verbatim>\<open>mem_access.h\<close>, line 35).
\<close>

definition aligned_step :: "mem_step \<Rightarrow> bool" where
  "aligned_step s \<longleftrightarrow> step_size s \<in> {4, 8, 16} \<and> unat (step_addr s) mod step_size s = 0 \<and> unat (step_addr s) < 2 ^ 48"

text \<open>The code compares grains of four bytes. For aligned accesses that is the same as comparing bytes.\<close>

definition grain_conflict :: "mem_step \<Rightarrow> mem_step \<Rightarrow> bool" where
  "grain_conflict s t \<longleftrightarrow> \<not> (step_read s \<and> step_read t) \<and>
     max (unat (step_addr s) div 4) (unat (step_addr t) div 4) <
       min (unat (step_addr s) div 4 + step_size s div 4) (unat (step_addr t) div 4 + step_size t div 4)"

lemma aligned_grains:
  assumes "aligned_step s"
  obtains a n where "unat (step_addr s) = 4 * a" "step_size s = 4 * n" "a mod n = 0" "n = 1 \<or> n = 2 \<or> n = 4"
proof -
  have "4 dvd step_size s" "step_size s dvd unat (step_addr s)" using assms by (auto simp: aligned_step_def)
  then obtain n a where na: "step_size s = 4 * n" "unat (step_addr s) = 4 * a" by (meson dvdE dvd_trans)
  then have "4 * n dvd 4 * a" "4 * n \<in> {4, 8, 16}" using assms by (auto simp: aligned_step_def)
  then show ?thesis using that [of a n] na by auto
qed

lemma conflict_grains:
  assumes "aligned_step s" "aligned_step t"
  shows "conflict s t \<longleftrightarrow> grain_conflict s t"
proof -
  obtain a n where s: "unat (step_addr s) = 4 * a" "step_size s = 4 * n" using aligned_grains [OF assms(1)] by metis
  obtain b m where t: "unat (step_addr t) = 4 * b" "step_size t = 4 * m" using aligned_grains [OF assms(2)] by metis
  have less: "4 * x < 4 * y + 4 * z \<longleftrightarrow> x < y + z" for x y z :: nat by linarith
  have half: "4 * x div 4 = x" for x :: nat by simp
  show ?thesis unfolding conflict_def grain_conflict_def s t half max_less_iff_conj min_less_iff_conj less by (rule refl)
qed

lemma aligned_ok: "aligned_step s \<Longrightarrow> step_ok s"
proof -
  assume s: "aligned_step s"
  then obtain a n where an: "unat (step_addr s) = 4 * a" "step_size s = 4 * n" "a mod n = 0" "n = 1 \<or> n = 2 \<or> n = 4"
    by (rule aligned_grains)
  have "a mod 4 + 1 \<le> 4" "a mod 2 = 0 \<Longrightarrow> a mod 4 + 2 \<le> 4" by presburger+
  then have "a mod 4 + n \<le> 4" using an(3,4) by auto
  moreover have "4 * a mod 16 div 4 = a mod 4" using mult_mod_right [of 4 a 4] by simp
  ultimately have "in_slots (step_addr s) (step_size s)"
    using an(1,2,4) by (auto simp: in_slots_def mem_index num_grains NUM_SLOTS_def)
  moreover have "ALIGNED (step_addr s) 16" if "step_size s = 16"
    using that s unat_low4 [of "step_addr s"] by (simp add: aligned_step_def ALIGNED_def unsigned_eq_0_iff)
  ultimately show ?thesis using s by (auto simp: step_ok_def acc_fits_def aligned_step_def)
qed

lemma conflict_touches: "grain_conflict s t \<longleftrightarrow> \<not> (step_read s \<and> step_read t) \<and>
    (\<exists>g. touches (step_addr s) (step_size s) g \<and> touches (step_addr t) (step_size t) g)"
proof -
  have overlap: "max a b < min c e \<longleftrightarrow> (\<exists>g. (a \<le> g \<and> g < c) \<and> b \<le> g \<and> g < e)" for a b c e :: nat
    by (auto intro: exI [of _ "max a b"])
  show ?thesis unfolding grain_conflict_def touches_def overlap by simp
qed

text \<open>
  The pairs of steps that the detector is to report: they conflict, and either they are logically parallel or they are steps of
  one strand that do not both write.
\<close>

definition racy :: "mem_step body \<Rightarrow> nat \<Rightarrow> nat \<Rightarrow> bool" where
  "racy b i j \<longleftrightarrow> grain_conflict (body_marks b ! i) (body_marks b ! j) \<and>
     ((body_marks b ! i, body_marks b ! j) \<in> body_par b \<or>
      strands_of b ! i = strands_of b ! j \<and> (step_read (body_marks b ! i) \<or> step_read (body_marks b ! j)))"

definition has_report :: "mem_step body \<Rightarrow> bool" where
  "has_report b \<longleftrightarrow> (\<exists>j<length (body_marks b). \<exists>i<j. racy b i j)"

lemma trace_races:
  assumes sp: "sp_body W c b L W' c'" and ok: "ok2 W" and c: "strand_in W c" and d: "distinct (body_marks b)"
    and xs: "list_all2 (acc_of l0 i0) L xs" and P: "agrees P W' l0 i0"
  shows "(\<forall>g. fst (grain_run P cur_english (on_grain g xs) (None, [])) = 0) \<longleftrightarrow> \<not> has_report b"
proof -
  have post: "body_post W c b L W' c'" by (rule sp_orders(2) [OF sp ok c])
  note D = body_postD [OF post]
  have ok': "ok2 W'" by (rule ext2_ok [OF D(2)])
  have m: "body_marks b = map fst L" by (rule D(1) [symmetric])
  have len: "length xs = length L" "length (strands_of b) = length L"
    using list_all2_lengthD [OF xs] strands_of_same(1) [OF sp c] by simp_all
  have told: "told W' (body_par b) (L ! i) (L ! j)" if "i < j" "j < length L" for i j
    using D(5) [OF d] that by (simp add: sorted_wrt_iff_nth_less)
  have st: "strand_in W' (snd (L ! i))" if "i < length L" for i using D(3) [of "snd (L ! i)"] twin2_in that by fastforce
  have acc: "acc_of l0 i0 (L ! i) (xs ! i)" if "i < length L" for i using xs that by (simp add: list_all2_conv_all_nth)
  then have cur: "is_cur l0 i0 (snd (L ! i)) (accessor (xs ! i))" if "i < length L" for i using that by (simp add: acc_of_def)
  have irr: "\<not> bef2 W' x x" for x using ok' bef_irrefl [of "fst W'" "fst x"] by (simp add: bef2_def ok2_def)
  have neq: "snd (L ! i) = snd (L ! j) \<longleftrightarrow> fst (snd (L ! i)) = fst (snd (L ! j))" if "i < length L" "j < length L" for i j
  proof -
    have ne: "fst x \<noteq> fst y" if "bef2 W' x y \<or> par2 W' x y" for x y
      using that ok' bef_irrefl [of "fst W'" "fst x"] by (auto simp: bef2_def par2_def ok2_def)
    have "snd (L ! i) = snd (L ! j) \<or> fst (snd (L ! i)) \<noteq> fst (snd (L ! j))" if "i < j" "j < length L" for i j
      using told [OF that] ne unfolding told_def by (metis (full_types))
    then show ?thesis using that by (cases i j rule: linorder_cases) (metis, simp, metis)
  qed
  define C where "C = {z. \<exists>i<length L. is_cur l0 i0 (snd (L ! i)) z}"
  have CI: "accessor (xs ! i) \<in> C" if "i < length L" for i using cur that by (auto simp: C_def)
  have Pb: "P z1 z2 = bef2 W' (snd (L ! i)) (snd (L ! j))"
    if "i < length L" "j < length L" "is_cur l0 i0 (snd (L ! i)) z1" "is_cur l0 i0 (snd (L ! j)) z2" for i j z1 z2
    using P st that unfolding agrees_def by blast
  have tr: "transp_on C P"
  proof (rule transp_onI)
    fix x y z assume C: "x \<in> C" "y \<in> C" "z \<in> C" and xyz: "P x y" "P y z"
    then obtain i j k where ijk: "i < length L" "j < length L" "k < length L"
      "is_cur l0 i0 (snd (L ! i)) x" "is_cur l0 i0 (snd (L ! j)) y" "is_cur l0 i0 (snd (L ! k)) z" by (auto simp: C_def)
    have "bef2 W' (snd (L ! i)) (snd (L ! j))" "bef2 W' (snd (L ! j)) (snd (L ! k))"
      using xyz Pb [OF ijk(1,2,4,5)] Pb [OF ijk(2,3,5,6)] by simp_all
    then show "P x z" using Pb [OF ijk(1,3,4,6)] bef2_trans [OF ok'] by blast
  qed
  have ss: "same_strand P cur_english C"
    unfolding same_strand_def
  proof (intro ballI impI)
    fix x y z assume C: "x \<in> C" "y \<in> C" "z \<in> C" and e: "cur_english x = cur_english y"
    then obtain i j k where ijk: "i < length L" "j < length L" "k < length L"
      "is_cur l0 i0 (snd (L ! i)) x" "is_cur l0 i0 (snd (L ! j)) y" "is_cur l0 i0 (snd (L ! k)) z" by (auto simp: C_def)
    have "snd (L ! i) = snd (L ! j)" using neq [OF ijk(1,2)] e ijk(4,5) by (simp add: is_cur_def)
    then show "P x z = P y z \<and> P z x = P z y"
      using Pb [OF ijk(1,3,4,6)] Pb [OF ijk(2,3,5,6)] Pb [OF ijk(3,1,6,4)] Pb [OF ijk(3,2,6,5)] by simp
  qed
  have race: "race_between P cur_english (xs ! i) (xs ! j) \<longleftrightarrow> racy b i j" if ij: "i < j" "j < length L" for i j
  proof -
    have i: "i < length L" using ij by simp
    have mi: "body_marks b ! i = fst (L ! i)" "body_marks b ! j = fst (L ! j)" using i ij by (simp_all add: m)
    note a = acc [OF i] acc [OF ij(2)]
    have pre: "P (accessor (xs ! i)) (accessor (xs ! j)) = bef2 W' (snd (L ! i)) (snd (L ! j))" by (rule Pb [OF i ij(2) cur [OF i] cur [OF ij(2)]])
    have eq: "cur_english (accessor (xs ! i)) = cur_english (accessor (xs ! j)) \<longleftrightarrow> snd (L ! i) = snd (L ! j)"
      using neq [OF i ij(2)] cur [OF i] cur [OF ij(2)] by (simp add: is_cur_def)
    have same: "snd (L ! i) = snd (L ! j) \<longleftrightarrow> strands_of b ! i = strands_of b ! j" by (rule strands_of_same(2) [OF sp c i ij(2)])
    have par: "par2 W' x y \<Longrightarrow> \<not> bef2 W' x y \<and> x \<noteq> y" for x y
      using ok' bef_asym [of "snd W'" "snd y" "snd x"] bef_irrefl [of "fst W'" "fst x"] by (auto simp: par2_def bef2_def ok2_def)
    show ?thesis
    proof (cases "(fst (L ! i), fst (L ! j)) \<in> body_par b")
      case True
      then have "par2 W' (snd (L ! i)) (snd (L ! j))" using told [OF ij] by (simp add: told_def)
      then show ?thesis using True a pre eq par [of "snd (L ! i)" "snd (L ! j)"]
        unfolding race_between_def ordered_def racy_def mi conflict_touches by (simp add: acc_of_def)
    next
      case False
      then have "snd (L ! i) = snd (L ! j) \<or> bef2 W' (snd (L ! i)) (snd (L ! j))" using told [OF ij] by (simp add: told_def)
      then show ?thesis using False a pre eq same irr [of "snd (L ! j)"]
        unfolding race_between_def ordered_def racy_def mi conflict_touches by (auto simp: acc_of_def)
    qed
  qed
  have "\<forall>x\<in>set xs. accessor x \<in> C" using CI len(1) by (auto simp: in_set_conv_nth)
  then have "(\<forall>g. fst (grain_run P cur_english (on_grain g xs) (None, [])) = 0) \<longleftrightarrow>
      \<not> (\<exists>i j. i < j \<and> j < length xs \<and> race_between P cur_english (xs ! i) (xs ! j))"
    by (rule grains_race [OF tr ss])
  also have "\<dots> \<longleftrightarrow> \<not> has_report b" unfolding has_report_def using race len(1) m by auto
  finally show ?thesis .
qed

lemma report_race:
  assumes a: "\<forall>s\<in>set (body_marks b). aligned_step s"
  shows "has_report b \<longleftrightarrow> has_race b \<or> self_conflict b"
proof -
  have "racy b i j \<longleftrightarrow> conflict (body_marks b ! i) (body_marks b ! j) \<and> ((body_marks b ! i, body_marks b ! j) \<in> body_par b \<or>
      strands_of b ! i = strands_of b ! j \<and> step_read (body_marks b ! i) \<noteq> step_read (body_marks b ! j))"
    if "j < length (body_marks b)" "i < j" for i j
  proof -
    have "conflict (body_marks b ! i) (body_marks b ! j) \<longleftrightarrow> grain_conflict (body_marks b ! i) (body_marks b ! j)"
      using a that by (intro conflict_grains) simp_all
    then show ?thesis by (auto simp: racy_def grain_conflict_def)
  qed
  then show ?thesis unfolding has_report_def has_race_def self_conflict_def by blast
qed

context strand_orders
begin

lemma detector_law:
  assumes w: "w < p" and od: "eng od = [base_english E]" "heb od = [base_hebrew E]" "room od (body_need b)"
    and d: "distinct (body_marks b)" and al: "\<forall>s\<in>set (body_marks b). aligned_step s"
  shows "\<exists>n. detect E p od w b = Some n \<and> (0 < n \<longleftrightarrow> has_race b \<or> self_conflict b)"
proof -
  have ok: "\<forall>s\<in>set (body_marks b). step_ok s" using al aligned_ok by blast
  from main_entered [OF w, of E od] obtain d0 d1 f where 1: "cilk_tool_init E p od w (tsan_init w (tsan_start E od)) = Some d0"
    "do { d \<leftarrow> cilk_enter_begin E w d0; cilk_enter_end E w d } = Some d1" "ready w w d1" "checking_disabled d1 w = 0"
    "good (stacks d1 w) [f]" "first_frame_of E f" "next_list d1 = 1" "lists d1 0 = Some List_empty" "order d1 = od"
    "\<exists>z. current_of d1 w = Some z \<and> is_cur 0 0 (base_english E, base_hebrew E) z" "shadow_mem d1 = empty_shadow" "races d1 = 0"
    by blast
  let ?c = "(base_english E, base_hebrew E)"
  have W: "ords d1 = ([base_english E], [base_hebrew E])" using 1(9) od by (simp add: orders_of_def)
  have sh: "shadow_of (ords d1) 0 0 (shadow_mem d1)"
    using 1(11) by (simp add: shadow_of_def shadow_ok_def grain_accessors_def grain_at_def grain_of_def)
  have "frame_ok 1 d1 f ?c None 0 0" using 1(6) by (simp add: frame_ok_def has_sync_def first_frame_of_def)
  then have "sim eng heb room w w 0 0 [] 1 (0 + body_need b) d1 f ?c None"
    using 1 od(3) sh W by (simp add: sim_def strand_in_def)
  moreover have nh: "\<not> is_helper f" using 1(6) by (simp add: first_frame_of_def is_helper_def)
  ultimately obtain d2 f2 c2 L where 2: "run_body E w b d1 = Some d2" "sp_body (ords d1) ?c b L (ords d2) c2"
    "sim eng heb room w w 0 0 [] 1 0 d2 f2 c2 None" "ran eng heb 1 0 0 d1 L d2"
    using program_runs(3) [of w w 0 0 b] ok unfolding body_runs_def by metis
  note S = simD [OF 2(3)]
  have g2: "good (stacks d2 w) ([] @ [f2])" using S(3) by simp
  have lb: "cilk_leave_begin False w d2 = Some (d2\<lparr>checking_disabled := (checking_disabled d2)(w := 1), called_future := (called_future d2)(w := False)\<rparr>)"
    using leave_begin_good [OF S(1) g2, of False] by simp
  let ?d3 = "d2\<lparr>checking_disabled := (checking_disabled d2)(w := 1), called_future := (called_future d2)(w := False)\<rparr>"
  let ?d4 = "enable_checking w ?d3"
  have r4: "ready w w ?d4" "good (stacks ?d4 w) ([] @ [f2])" using S(1) g2 by (simp_all add: enable_checking_def)
  have "do_leave_end E w ?d4 = Some (False, set_current w f2 ?d4)"
    using head_of_good [OF r4] size_good [OF r4] r4(1) by (simp add: do_leave_end_def ready_def)
  moreover have "\<not> in_batch w ?d3" using S(1) by (simp add: in_batch_def ready_def)
  ultimately have le: "cilk_leave_end E w ?d3 = Some (set_current w f2 ?d4)" by (simp add: cilk_leave_end_def)
  have "run_main E w b d0 = do { d \<leftarrow> do { d \<leftarrow> cilk_enter_begin E w d0; cilk_enter_end E w d };
      d \<leftarrow> run_body E w b d; d \<leftarrow> cilk_leave_begin False w d; cilk_leave_end E w d }"
    by (simp add: run_main_def bind_assoc_opt)
  then have run: "run_main E w b d0 = Some (set_current w f2 ?d4)" unfolding 1(2) using 2(1) lb le by simp
  have det: "detect E p od w b = Some (races d2)" using 1(1) run by (simp add: detect_def enable_checking_def)
  obtain xs where xs: "list_all2 (acc_of 0 0) L xs" "\<And>P. agrees P (ords d2) 0 0 \<Longrightarrow> checked P d1 xs d2" using 2(4) by (auto simp: ran_def)
  have ag: "agrees (Precedes E d2) (ords d2) 0 0" by (rule precedes_agrees [OF S(7,10)])
  have g0: "grain_at (shadow_mem d1) g = (None, [])" for g by (simp add: 1(11) grain_at_def grain_of_def)
  have "races d2 = 0 \<longleftrightarrow> (\<forall>g. fst (grain_run (Precedes E d2) cur_english (on_grain g xs) (None, [])) = 0)"
    using xs(2) [OF ag] 1(12) unfolding checked_def g0 by simp
  also have "\<dots> \<longleftrightarrow> \<not> has_report b"
    by (rule trace_races [OF 2(2) _ _ d xs(1) ag]) (simp_all add: W ok2_def strand_in_def)
  finally show ?thesis using det report_race [OF al] by auto
qed

end

end
