(* ===== verification/Om_Detector.thy ===== *)
theory Om_Detector
  imports Om_Interface
begin

text \<open>
  The wrapper of the race detector around its two order-maintenance structures: \<^verbatim>\<open>rdtool/src/omrd.cpp\<close>. An insertion
  marks the list it has used as heavy when little room is left behind the new node; an insertion that finds no
  label marks the list and waits for a batch, which relabels the heavy lists of both structures, and tries again.

  The model is of one worker of \<open>p\<close>: no other worker holds a lock, and a batch that this worker can not start would
  be waited for without end, which is \<^const>\<open>None\<close>. Each structure has a heap of its own. The stack of heavy nodes
  is an array of atomic cells that is filled from the bottom; the model keeps its contents as a list.
\<close>

section \<open>State\<close>

definition HALF_BITS :: nat where "HALF_BITS = 32"

definition DEFAULT_HEAVY_THRESHOLD :: label_t where "DEFAULT_HEAVY_THRESHOLD = of_nat HALF_BITS"

record omrd =
  m_heavy_nodes :: "tl_ptr list"
  m_ds :: om
  m_base :: node_ptr
  m_heap :: om_heap

text \<open>The global variables; a mutex is whether it is held.\<close>

record omrd_globals =
  g_heavy_threshold :: label_t
  g_batch_in_progress :: bool
  g_relabel_id :: "64 word"
  g_batch_owner_id :: int
  insert_failed :: "nat \<Rightarrow> bool"
  g_worker_mutexes :: "nat \<Rightarrow> bool"
  g_relabel_mutex :: bool
  g_english :: omrd
  g_hebrew :: omrd

definition omrd_of :: "bool \<Rightarrow> omrd_globals \<Rightarrow> omrd" where
  "omrd_of e g = (if e then g_english g else g_hebrew g)"

definition set_omrd :: "bool \<Rightarrow> omrd \<Rightarrow> omrd_globals \<Rightarrow> omrd_globals" where
  "set_omrd e d g = (if e then g\<lparr>g_english := d\<rparr> else g\<lparr>g_hebrew := d\<rparr>)"

section \<open>Heavy lists\<close>

text \<open>Kernighan's loop: each round clears the lowest bit that is set.\<close>

function count_bits_loop :: "label_t \<Rightarrow> nat \<Rightarrow> nat" where
  "count_bits_loop label count = (if label \<noteq> 0 then count_bits_loop (label AND (label - 1)) (count + 1) else count)"
  by pat_completeness auto
termination
proof (relation "measure (\<lambda>(label, count). unat label)")
  fix label :: label_t assume "label \<noteq> 0"
  then have "unat (label - 1) < unat label" by (simp add: unat_minus_one unat_gt_0)
  moreover have "unat (label AND (label - 1)) \<le> unat (label - 1)" by (simp add: word_and_le1 flip: word_le_nat_alt)
  ultimately show "((label AND (label - 1), count + 1), label, count) \<in> measure (\<lambda>(label, count). unat label)" for count by simp
qed simp

declare count_bits_loop.simps [simp del]

definition count_set_bits :: "label_t \<Rightarrow> nat" where
  "count_set_bits label = count_bits_loop label 0"

text \<open>A shift by the width of the type or more is not defined in C.\<close>

definition is_heavy :: "label_t \<Rightarrow> node_ptr \<Rightarrow> om_heap \<Rightarrow> bool proc" where
  "is_heavy threshold n h = do {
     x \<leftarrow> bnodes h n;
     next_lab \<leftarrow> label_of h (bn_next x);
     assert_c (0 < threshold \<and> threshold \<le> 64);
     Some ((case next_lab of Some l \<Rightarrow> l | None \<Rightarrow> MAX_LABEL) - bn_label x < push_bit (unat (64 - threshold)) 1) }"

definition add_heavy :: "node_ptr \<Rightarrow> omrd_globals \<Rightarrow> omrd \<Rightarrow> omrd proc" where
  "add_heavy base g d = do {
     assert_c (\<not> g_batch_in_progress g);
     p \<leftarrow> om_get_tl (m_heap d) base;
     a \<leftarrow> above_of (m_heap d) base;
     n \<leftarrow> tlnodes (m_heap d) a;
     assert_c (tl_level n = MAX_LEVEL);
     Some (d\<lparr>m_heavy_nodes := m_heavy_nodes d @ [p]\<rparr>) }"

text \<open>\<^verbatim>\<open>if (!base->list->heavy && CAS(&base->list->heavy, 0, 1)) add_heavy(base)\<close>\<close>

definition mark_heavy :: "node_ptr \<Rightarrow> omrd_globals \<Rightarrow> omrd \<Rightarrow> omrd proc" where
  "mark_heavy base g d = do {
     x \<leftarrow> bnodes (m_heap d) base;
     b \<leftarrow> bn_list x;
     l \<leftarrow> blists (m_heap d) b;
     (if bl_heavy l = 0 then do {
        h \<leftarrow> upd_blist b (\<lambda>l. l\<lparr>bl_heavy := 1\<rparr>) (m_heap d);
        add_heavy base g (d\<lparr>m_heap := h\<rparr>) }
      else Some d) }"

definition try_insert :: "nat \<Rightarrow> node_ptr option \<Rightarrow> omrd_globals \<Rightarrow> omrd \<Rightarrow> (node_ptr option \<times> omrd) proc" where
  "try_insert w base g d = do {
     assert_c (\<not> g_batch_in_progress g);
     (n, h) \<leftarrow> (case base of
         None \<Rightarrow> do { (n, h) \<leftarrow> om_insert_initial (m_ds d) (m_heap d); Some (Some n, h) }
       | Some b \<Rightarrow> om_insert (int w) b (m_heap d));
     (case base of None \<Rightarrow> Some () | Some b \<Rightarrow> do { a \<leftarrow> above_of h b; Some () });
     (case n of None \<Rightarrow> Some () | Some n \<Rightarrow> do { a \<leftarrow> above_of h n; Some () });
     Some (n, d\<lparr>m_heap := h\<rparr>) }"

definition omrd_new :: "omrd_globals \<Rightarrow> om_heap \<Rightarrow> omrd proc" where
  "omrd_new g h = do {
     (ds, h) \<leftarrow> om_create h;
     (n, d) \<leftarrow> try_insert 0 None g \<lparr>m_heavy_nodes = [], m_ds = ds, m_base = 0, m_heap = h\<rparr>;
     n \<leftarrow> n;
     Some (d\<lparr>m_base := n\<rparr>) }"

definition set_heavy_threshold :: "label_t \<Rightarrow> omrd_globals \<Rightarrow> label_t \<times> omrd_globals" where
  "set_heavy_threshold new_threshold g = (g_heavy_threshold g, g\<lparr>g_heavy_threshold := new_threshold\<rparr>)"

section \<open>Batches\<close>

definition relabel :: "machine \<Rightarrow> omrd \<Rightarrow> omrd proc" where
  "relabel M d =
     (if m_heavy_nodes d \<noteq> [] then do {
        (ds, h) \<leftarrow> om_relabel M (m_ds d) (m_heavy_nodes d) (m_heap d);
        Some (d\<lparr>m_ds := ds, m_heap := h, m_heavy_nodes := []\<rparr>) }
      else Some d)"

text \<open>The two structures are relabelled in parallel; they share nothing.\<close>

definition batch_relabel :: "machine \<Rightarrow> omrd_globals \<Rightarrow> omrd_globals proc" where
  "batch_relabel M g = do {
     let g = g\<lparr>g_relabel_id := g_relabel_id g + 1\<rparr>;
     e \<leftarrow> relabel M (g_english g);
     h \<leftarrow> relabel M (g_hebrew g);
     Some (g\<lparr>g_english := e, g_hebrew := h, g_relabel_id := g_relabel_id g + 1\<rparr>) }"

definition om_try_lock_all :: "nat \<Rightarrow> nat \<Rightarrow> omrd_globals \<Rightarrow> (bool \<times> omrd_globals) proc" where
  "om_try_lock_all p w g =
     (if \<not> insert_failed g w \<or> g_relabel_id g AND 1 = 1 \<or> g_relabel_mutex g then Some (False, g)
      else do {
        assert_c (list_all (\<lambda>i. \<not> g_worker_mutexes g i) [0..<p]);
        assert_c (g_batch_owner_id g = -1);
        Some (True, g\<lparr>g_relabel_mutex := True, g_worker_mutexes := (\<lambda>i. i < p \<or> g_worker_mutexes g i),
          g_batch_in_progress := True, g_batch_owner_id := int w\<rparr>) })"

text \<open>\<^verbatim>\<open>cilk_batchify\<close> runs the batch when the worker gets all locks.\<close>

definition join_batch :: "machine \<Rightarrow> nat \<Rightarrow> nat \<Rightarrow> omrd_globals \<Rightarrow> omrd_globals proc" where
  "join_batch M p w g = do {
     (is_batch_owner, g) \<leftarrow> om_try_lock_all p w g;
     assert_c is_batch_owner;
     g \<leftarrow> batch_relabel M g;
     Some (if int w = g_batch_owner_id g
       then g\<lparr>g_batch_in_progress := False, g_batch_owner_id := -1, g_worker_mutexes := (\<lambda>i. \<not> i < p \<and> g_worker_mutexes g i),
         g_relabel_mutex := False\<rparr>
       else g) }"

section \<open>Insertion\<close>

definition hold_mutex :: "nat \<Rightarrow> bool \<Rightarrow> omrd_globals \<Rightarrow> omrd_globals" where
  "hold_mutex w v g = g\<lparr>g_worker_mutexes := (g_worker_mutexes g)(w := v)\<rparr>"

text \<open>\<^verbatim>\<open>while (pthread_spin_trylock(mut) != 0) join_batch(w, this);\<close>\<close>

partial_function (option) lock_or_join :: "machine \<Rightarrow> nat \<Rightarrow> nat \<Rightarrow> omrd_globals \<Rightarrow> omrd_globals proc" where
  "lock_or_join M p w g =
     (if g_worker_mutexes g w then do { g \<leftarrow> join_batch M p w g; lock_or_join M p w g } else Some (hold_mutex w True g))"

definition try_on :: "nat \<Rightarrow> bool \<Rightarrow> node_ptr \<Rightarrow> omrd_globals \<Rightarrow> (node_ptr option \<times> omrd_globals) proc" where
  "try_on w e base g = do { (n, d) \<leftarrow> try_insert w (Some base) g (omrd_of e g); Some (n, set_omrd e d g) }"

definition mark_on :: "bool \<Rightarrow> node_ptr \<Rightarrow> omrd_globals \<Rightarrow> omrd_globals proc" where
  "mark_on e base g = do { d \<leftarrow> mark_heavy base g (omrd_of e g); Some (set_omrd e d g) }"

partial_function (option) slow_path :: "machine \<Rightarrow> nat \<Rightarrow> nat \<Rightarrow> bool \<Rightarrow> node_ptr \<Rightarrow> omrd_globals \<Rightarrow> (node_ptr \<times> omrd_globals) proc" where
  "slow_path M p w e base g = do {
     let g = g\<lparr>insert_failed := (insert_failed g)(w := True)\<rparr>;
     g \<leftarrow> mark_on e base g;
     g \<leftarrow> join_batch M p w (hold_mutex w False g);
     g \<leftarrow> lock_or_join M p w (g\<lparr>insert_failed := (insert_failed g)(w := False)\<rparr>);
     (n, g) \<leftarrow> try_on w e base g;
     (case n of None \<Rightarrow> slow_path M p w e base g | Some n \<Rightarrow> Some (n, g)) }"

text \<open>The checks at the end of \<^verbatim>\<open>omrd_t::insert\<close>, up to the unlocking.\<close>

definition mark_if_heavy :: "bool \<Rightarrow> node_ptr \<Rightarrow> node_ptr \<Rightarrow> omrd_globals \<Rightarrow> omrd_globals proc" where
  "mark_if_heavy e base n g = do {
     x \<leftarrow> bnodes (m_heap (omrd_of e g)) n;
     y \<leftarrow> bnodes (m_heap (omrd_of e g)) base;
     assert_c (bn_list x = bn_list y);
     heavy \<leftarrow> is_heavy (g_heavy_threshold g) n (m_heap (omrd_of e g));
     (if heavy then mark_on e base g else Some g) }"

text \<open>
  \<^verbatim>\<open>omrd_t::insert\<close> on the English structure (\<open>e\<close>) or the Hebrew one.
\<close>

definition omrd_insert :: "machine \<Rightarrow> nat \<Rightarrow> nat \<Rightarrow> bool \<Rightarrow> node_ptr \<Rightarrow> omrd_globals \<Rightarrow> (node_ptr \<times> omrd_globals) proc" where
  "omrd_insert M p w e base g = do {
     g \<leftarrow> lock_or_join M p w g;
     (n, g) \<leftarrow> try_on w e base g;
     (n, g) \<leftarrow> (case n of
         Some n \<Rightarrow> Some (n, g)
       | None \<Rightarrow> do {
           (n, g) \<leftarrow> slow_path M p w e base g;
           heavy \<leftarrow> is_heavy (g_heavy_threshold g) n (m_heap (omrd_of e g));
           assert_c (\<not> heavy);
           Some (n, g) });
     g \<leftarrow> mark_if_heavy e base n g;
     Some (n, hold_mutex w False g) }"

section \<open>The invariant\<close>

definition listed :: "om_heap \<Rightarrow> tl_ptr list \<Rightarrow> ltree \<Rightarrow> bool" where
  "listed h hs t \<longleftrightarrow> distinct hs \<and> (\<forall>(p, b, ys)\<in>set (flat t). \<forall>l. blists h b = Some l \<longrightarrow> (p \<in> set hs \<longleftrightarrow> bl_heavy l \<noteq> 0)) \<and>
     (\<forall>p\<in>set hs. \<exists>b ys. (p, b, ys) \<in> set (flat t) \<and> ys \<noteq> [])"

text \<open>A structure is in order, and its stack holds exactly the tree nodes above the lists that are marked heavy.\<close>

definition omrd_ok :: "omrd \<Rightarrow> ltree \<Rightarrow> bool" where
  "omrd_ok d t \<longleftrightarrow> om_inv (m_heap d) (m_ds d) t \<and> listed (m_heap d) (m_heavy_nodes d) t"

text \<open>The globals between two insertions of worker \<open>w\<close>, and the structures of the English (\<open>te\<close>) and the Hebrew order.\<close>

definition idle :: "nat \<Rightarrow> nat \<Rightarrow> omrd_globals \<Rightarrow> bool" where
  "idle p w g \<longleftrightarrow> w < p \<and> g_heavy_threshold g = DEFAULT_HEAVY_THRESHOLD \<and> \<not> g_batch_in_progress g \<and> g_relabel_id g AND 1 = 0 \<and>
     g_batch_owner_id g = -1 \<and> (\<forall>i<p. \<not> g_worker_mutexes g i) \<and> \<not> g_relabel_mutex g"

definition idle_ok :: "nat \<Rightarrow> nat \<Rightarrow> omrd_globals \<Rightarrow> (bool \<Rightarrow> ltree) \<Rightarrow> bool" where
  "idle_ok p w g t \<longleftrightarrow> idle p w g \<and> (\<forall>e. omrd_ok (omrd_of e g) (t e))"

text \<open>When a batch relabels the heavy lists and \<open>S\<close>, the counts fit the ranges and the capacities of the tree.\<close>

definition can_relabel :: "machine \<Rightarrow> tl_ptr set \<Rightarrow> omrd \<Rightarrow> ltree \<Rightarrow> bool" where
  "can_relabel M S d t \<longleftrightarrow> leaves_after (set (m_heavy_nodes d) \<union> S) t + 1 < 2 ^ 64 \<and> fits_after M (set (m_heavy_nodes d) \<union> S) 0 t"

definition leaf_of :: "node_ptr \<Rightarrow> ltree \<Rightarrow> tl_ptr set" where
  "leaf_of x t = {p. \<exists>b ys. (p, b, ys) \<in> set (flat t) \<and> x \<in> set ys}"

lemma omrd_of_set [simp]: "omrd_of e (set_omrd e d g) = d" "e' \<noteq> e \<Longrightarrow> omrd_of e' (set_omrd e d g) = omrd_of e' g"
  by (auto simp: omrd_of_def set_omrd_def)

lemma set_omrd_simps [simp]:
  "g_heavy_threshold (set_omrd e d g) = g_heavy_threshold g" "g_batch_in_progress (set_omrd e d g) = g_batch_in_progress g"
  "g_relabel_id (set_omrd e d g) = g_relabel_id g" "g_batch_owner_id (set_omrd e d g) = g_batch_owner_id g"
  "insert_failed (set_omrd e d g) = insert_failed g" "g_worker_mutexes (set_omrd e d g) = g_worker_mutexes g"
  "g_relabel_mutex (set_omrd e d g) = g_relabel_mutex g"
  by (simp_all add: set_omrd_def)

lemma omrd_of_simps [simp]:
  "omrd_of e (g\<lparr>g_batch_in_progress := a\<rparr>) = omrd_of e g" "omrd_of e (g\<lparr>g_relabel_id := i\<rparr>) = omrd_of e g"
  "omrd_of e (g\<lparr>g_batch_owner_id := j\<rparr>) = omrd_of e g" "omrd_of e (g\<lparr>insert_failed := f\<rparr>) = omrd_of e g"
  "omrd_of e (g\<lparr>g_worker_mutexes := m\<rparr>) = omrd_of e g" "omrd_of e (g\<lparr>g_relabel_mutex := a\<rparr>) = omrd_of e g"
  by (simp_all add: omrd_of_def)

lemma inv_leaf:
  assumes "om_inv h self t" "(p, b, ys) \<in> set (flat t)"
  shows "leaf_ok h (p, b, ys)" "blist_inv h b ys" "\<exists>l. blists h b = Some l \<and> bl_above l = Some p"
  using assms by (auto simp: om_inv_def tree_ok_def leaf_ok_iff)

lemma inv_node:
  assumes "om_inv h self t" "(p, b, ys) \<in> set (flat t)" "x \<in> set ys"
  shows "\<exists>n. bnodes h x = Some n \<and> bn_list n = Some b" "above_of h x = Some p" "om_get_tl h x = Some p"
    "\<exists>n. tlnodes h p = Some n \<and> tl_level n = MAX_LEVEL \<and> tl_below n = Below b"
  using above_of_leaf [OF inv_leaf(1) [OF assms(1,2)] assms(3)] om_get_tl_spec [OF assms] trep_leaf_node [of h None 0 0 t p b ys] assms(1,2)
  by (auto simp: om_inv_def tree_ok_def)

lemma leaf_of_only:
  assumes "om_inv h self t" "(p, b, ys) \<in> set (flat t)" "x \<in> set ys" "(q, c, zs) \<in> set (flat t)" "x \<in> set zs"
  shows "q = p \<and> c = b \<and> zs = ys"
  using leaf_disjoint [of t p b ys q c zs x] assms by (auto simp: om_inv_def tree_ok_def)

section \<open>Insertion into a list with a free label\<close>

lemma om_insert_run:
  assumes inv: "om_inv h self t" and leaf: "(p, b, us @ base # vs) \<in> set (flat t)"
  shows "om_insert w base h = (if label_after h base vs = 0 then Some (None, h)
     else Some (Some (fresh h), inserted h b base (label_after h base vs) vs))"
proof -
  have bl: "blist_inv h b (us @ base # vs)" and ok: "heap_ok h" using inv_leaf(2) [OF inv leaf] inv by (simp_all add: om_inv_def)
  have mem: "base \<in> set (us @ base # vs)" by simp
  obtain m tn where m: "bnodes h base = Some m" "bn_list m = Some b" "above_of h base = Some p" "tlnodes h p = Some tn"
      "tl_level tn = MAX_LEVEL" "tl_below tn = Below b"
    using inv_node [OF inv leaf mem] by blast
  show ?thesis
  proof (cases "label_after h base vs = 0")
    case True
    then show ?thesis using bl_insert_full [OF bl True, of w] m by (simp add: om_insert_def below_list_def)
  next
    case False
    let ?h = "inserted h b base (label_after h base vs) vs"
    have inv': "blist_inv ?h b (us @ base # fresh h # vs)" by (rule inserted_inv [OF bl ok False])
    obtain y z where "bnodes ?h (fresh h) = Some y" "bnodes ?h base = Some z" using blist_inv_alloc [OF inv'] by fastforce
    moreover have "bn_lab ?h base < bn_lab ?h (fresh h)" using inv' by (auto simp: blist_inv_iff sorted_wrt_append)
    ultimately show ?thesis using bl_insert_run [OF bl ok False, of w] m False by (simp add: om_insert_def below_list_def)
  qed
qed

lemma inserted_lists:
  "blists (inserted h b base lab vs) c = (if c = b then map_option (\<lambda>l. if vs = [] then l\<lparr>bl_tail := Some (fresh h)\<rparr> else l) (blists h b) else blists h c)"
  by (auto simp: inserted_def Let_def option.map_ident split: list.splits)

lemma listed_inserted:
  assumes "om_inv h self t" "(p, b, us @ base # vs) \<in> set (flat t)" "listed h hs t"
  shows "listed (inserted h b base lab vs) hs (ins_tree base n t)"
proof -
  have d: "\<not> dirty t" using assms(1) by (simp add: om_inv_def)
  let ?h = "inserted h b base lab vs"
  have some: "blists ?h c = Some l \<Longrightarrow> \<exists>l'. blists h c = Some l' \<and> bl_heavy l' = bl_heavy l" for c l
    by (auto simp: inserted_lists split: if_splits)
  have L: "distinct hs" "\<And>q c zs l. (q, c, zs) \<in> set (flat t) \<Longrightarrow> blists h c = Some l \<Longrightarrow> q \<in> set hs \<longleftrightarrow> bl_heavy l \<noteq> 0"
    "\<And>q. q \<in> set hs \<Longrightarrow> \<exists>c zs. (q, c, zs) \<in> set (flat t) \<and> zs \<noteq> []"
    using assms(3) by (auto simp: listed_def)
  have f: "(q, c, zs) \<in> set (flat (ins_tree base n t)) \<longleftrightarrow> (\<exists>ys. (q, c, ys) \<in> set (flat t) \<and> zs = insert_after base n ys)" for q c zs
    unfolding flat_ins_tree [OF d] by (force simp: image_iff)
  have "q \<in> set hs \<longleftrightarrow> bl_heavy l \<noteq> 0" if "(q, c, zs) \<in> set (flat (ins_tree base n t))" "blists ?h c = Some l" for q c zs l
    using that(1) some [OF that(2)] L(2) unfolding f by metis
  moreover have "\<exists>c zs. (q, c, zs) \<in> set (flat (ins_tree base n t)) \<and> zs \<noteq> []" if q: "q \<in> set hs" for q
  proof -
    obtain c ys where ys: "(q, c, ys) \<in> set (flat t)" "ys \<noteq> []" using L(3) [OF q] by blast
    then have "insert_after base n ys \<noteq> []" by (cases ys) auto
    then show ?thesis using f ys(1) by blast
  qed
  ultimately show ?thesis using L(1) unfolding listed_def by blast
qed

lemma try_insert_run:
  assumes ok: "omrd_ok d t" and leaf: "(p, b, us @ base # vs) \<in> set (flat t)" and g: "\<not> g_batch_in_progress g"
  defines "lab \<equiv> label_after (m_heap d) base vs" and "n \<equiv> fresh (m_heap d)"
  shows "lab = 0 \<Longrightarrow> try_insert w (Some base) g d = Some (None, d)"
    and "lab \<noteq> 0 \<Longrightarrow> \<exists>d'. try_insert w (Some base) g d = Some (Some n, d') \<and> d' = d\<lparr>m_heap := inserted (m_heap d) b base lab vs\<rparr> \<and>
      omrd_ok d' (ins_tree base n t) \<and> n \<notin> set (om_order t) \<and> om_order (ins_tree base n t) = insert_after base n (om_order t)"
proof -
  have inv: "om_inv (m_heap d) (m_ds d) t" and li: "listed (m_heap d) (m_heavy_nodes d) t" using ok by (simp_all add: omrd_ok_def)
  have mem: "base \<in> set (us @ base # vs)" by simp
  have above: "above_of (m_heap d) base = Some p" using inv_node [OF inv leaf mem] by blast
  note run = om_insert_run [OF inv leaf, of "int w"]
  show "try_insert w (Some base) g d = Some (None, d)" if "lab = 0"
    using run that above g by (simp add: try_insert_def lab_def)
  assume l: "lab \<noteq> 0"
  let ?h = "inserted (m_heap d) b base lab vs"
  have base: "base \<in> set (om_order t)" using leaf om_order_mem by fastforce
  have new: "n \<notin> set (om_order t)" "om_inv ?h (m_ds d) (ins_tree base n t)"
      "om_order (ins_tree base n t) = insert_after base n (om_order t)"
    using om_insert_spec [OF inv base, of "int w"] run l by (auto simp: lab_def n_def)
  have leaf': "(p, b, insert_after base n (us @ base # vs)) \<in> set (flat (ins_tree base n t))"
    using leaf inv by (force simp: flat_ins_tree om_inv_def)
  have "n \<in> set (insert_after base n (us @ base # vs))" "base \<in> set (insert_after base n (us @ base # vs))"
    by (simp_all add: set_insert_after)
  then have "above_of ?h n = Some p" "above_of ?h base = Some p" using inv_node(2) [OF new(2) leaf'] by blast+
  then have "try_insert w (Some base) g d = Some (Some n, d\<lparr>m_heap := ?h\<rparr>)"
    using run l g by (simp add: try_insert_def lab_def n_def)
  then show "\<exists>d'. try_insert w (Some base) g d = Some (Some n, d') \<and> d' = d\<lparr>m_heap := ?h\<rparr> \<and>
      omrd_ok d' (ins_tree base n t) \<and> n \<notin> set (om_order t) \<and> om_order (ins_tree base n t) = insert_after base n (om_order t)"
    using new listed_inserted [OF inv leaf li] by (simp add: omrd_ok_def)
qed

section \<open>Room behind a node\<close>

definition labels :: "om_heap \<Rightarrow> node_ptr list \<Rightarrow> nat list" where
  "labels h xs = map (\<lambda>p. unat (bn_lab h p)) xs"

lemma labels_inserted:
  assumes inv: "om_inv h self t" and leaf: "(p, b, us @ base # vs) \<in> set (flat t)" and q: "(q, c, zs) \<in> set (flat t)"
  shows "labels (inserted h b base lab vs) zs = labels h zs"
    and "labels (inserted h b base lab vs) (us @ base # fresh h # vs) = labels h us @ unat (bn_lab h base) # unat lab # labels h vs"
proof -
  have bl: "blist_inv h b (us @ base # vs)" and ok: "heap_ok h" using inv_leaf(2) [OF inv leaf] inv by (simp_all add: om_inv_def)
  have al: "bnodes h base \<noteq> None" using blist_inv_alloc [OF bl, of base] by force
  have vs: "fresh h \<notin> set vs" using blist_inv_not_fresh [OF bl ok, of "fresh h"] by auto
  have lab: "x \<noteq> fresh h \<Longrightarrow> bn_lab (inserted h b base lab vs) x = bn_lab h x" for x
    using bn_lab_inserted al by blast
  have lt: "x \<noteq> fresh h" if "(q, c, zs) \<in> set (flat t)" "x \<in> set zs" for q c zs x
    using blist_inv_not_fresh [OF inv_leaf(2) [OF inv that(1)] ok that(2)] by simp
  show "labels (inserted h b base lab vs) zs = labels h zs" using lab lt [OF q] by (simp add: labels_def)
  have "bn_lab (inserted h b base lab vs) (fresh h) = lab" using vs by (rule bn_lab_inserted_new)
  then show "labels (inserted h b base lab vs) (us @ base # fresh h # vs) = labels h us @ unat (bn_lab h base) # unat lab # labels h vs"
    using lab lt [OF leaf] by (simp add: labels_def)
qed

text \<open>A node with a gap of at least \<open>2^32\<close> behind it is not heavy.\<close>

lemma is_heavy_gap:
  assumes inv: "om_inv h self t" and leaf: "(p, b, us @ x # vs) \<in> set (flat t)"
  shows "\<exists>v. is_heavy DEFAULT_HEAVY_THRESHOLD x h = Some v"
    and "gaps_ge (2 ^ 33) (labels h (us @ x # vs)) \<Longrightarrow> is_heavy DEFAULT_HEAVY_THRESHOLD x h = Some False"
proof -
  have bl: "blist_inv h b (us @ x # vs)" by (rule inv_leaf(2) [OF inv leaf])
  obtain m where m: "bnodes h x = Some m" "bn_next m = hd_opt vs None" using bl by (rule blist_inv_middle)
  have al: "\<exists>n. bnodes h v = Some n" if "v \<in> set vs" for v using blist_inv_alloc [OF bl, of v] that by auto
  define nl where "nl = (case vs of [] \<Rightarrow> None | v # _ \<Rightarrow> Some (bn_lab h v))"
  have nl: "label_of h (bn_next m) = Some nl"
  proof (cases vs)
    case (Cons v ws)
    then obtain n where "bnodes h v = Some n" using al by auto
    then show ?thesis using m Cons by (simp add: label_of_def nl_def)
  qed (use m in \<open>simp add: label_of_def nl_def\<close>)
  have thr: "0 < DEFAULT_HEAVY_THRESHOLD" "DEFAULT_HEAVY_THRESHOLD \<le> 64" "unat (64 - DEFAULT_HEAVY_THRESHOLD) = 32"
    by (simp_all add: DEFAULT_HEAVY_THRESHOLD_def HALF_BITS_def)
  have run: "is_heavy DEFAULT_HEAVY_THRESHOLD x h =
      Some ((case nl of Some l \<Rightarrow> l | None \<Rightarrow> MAX_LABEL) - bn_lab h x < push_bit 32 1)" (is "_ = Some (?nx - _ < _)")
    using m nl thr by (simp add: is_heavy_def)
  then show "\<exists>v. is_heavy DEFAULT_HEAVY_THRESHOLD x h = Some v" by blast
  assume "gaps_ge (2 ^ 33) (labels h (us @ x # vs))"
  then have "unat (bn_lab h x) + 2 ^ 33 \<le> (case labels h vs of [] \<Rightarrow> 2 ^ 64 | v # _ \<Rightarrow> v)"
    using gaps_ge_at [of "2 ^ 33" "labels h us"] by (simp add: labels_def)
  then have "unat (bn_lab h x) + 2 ^ 32 \<le> unat ?nx"
    by (cases vs) (simp_all add: nl_def labels_def MAX_LABEL_def)
  moreover from this have "unat (?nx - bn_lab h x) = unat ?nx - unat (bn_lab h x)" by (intro unat_sub) (simp add: word_le_nat_alt)
  ultimately have "\<not> ?nx - bn_lab h x < push_bit 32 1" by (simp add: word_less_nat_alt push_bit_eq_mult)
  then show "is_heavy DEFAULT_HEAVY_THRESHOLD x h = Some False" using run by simp
qed

section \<open>Marking and relabelling\<close>

lemma om_inv_mark:
  assumes inv: "om_inv h self t" and l: "blists h b = Some l"
  shows "om_inv (h\<lparr>blists := (blists h)(b \<mapsto> l\<lparr>bl_heavy := v\<rparr>)\<rparr>) self t"
proof -
  let ?h = "h\<lparr>blists := (blists h)(b \<mapsto> l\<lparr>bl_heavy := v\<rparr>)\<rparr>"
  have "heap_ok ?h" using inv l by (auto simp: om_inv_def heap_ok_def)
  moreover have "trep ?h None 0 0 t" using inv trep_frame [of t ?h h] by (simp add: om_inv_def tree_ok_def)
  moreover have "leaf_ok ?h (q, c, ys) = leaf_ok h (q, c, ys)" for q c ys
  proof -
    have "dll ?h c None ys None = dll h c None ys None" by (intro dll_frame) simp
    moreover have "map (bn_lab ?h) ys = map (bn_lab h) ys" by (simp add: bn_lab_def)
    ultimately show ?thesis using l by (simp only: leaf_ok_iff blist_inv_iff) auto
  qed
  then have "(\<forall>d\<in>set (flat t). leaf_ok ?h d) = (\<forall>d\<in>set (flat t). leaf_ok h d)" by (metis prod_cases3)
  ultimately show ?thesis using inv by (simp add: om_inv_def tree_ok_def)
qed

lemma mark_heavy_run:
  assumes ok: "omrd_ok d t" and leaf: "(p, b, ys) \<in> set (flat t)" and x: "x \<in> set ys" and g: "\<not> g_batch_in_progress g"
  shows "\<exists>d'. mark_heavy x g d = Some d' \<and> omrd_ok d' t \<and> set (m_heavy_nodes d') = insert p (set (m_heavy_nodes d)) \<and>
    m_ds d' = m_ds d \<and> bnodes (m_heap d') = bnodes (m_heap d)"
proof -
  let ?h = "m_heap d" and ?hs = "m_heavy_nodes d"
  have inv: "om_inv ?h (m_ds d) t" and li: "listed ?h ?hs t" using ok by (simp_all add: omrd_ok_def)
  obtain n l where n: "bnodes ?h x = Some n" "bn_list n = Some b" "blists ?h b = Some l"
    using inv_node(1) [OF inv leaf x] inv_leaf(3) [OF inv leaf] by blast
  have pl: "p \<in> set ?hs \<longleftrightarrow> bl_heavy l \<noteq> 0" using li leaf n(3) by (auto simp: listed_def)
  show ?thesis
  proof (cases "bl_heavy l = 0")
    case False
    then show ?thesis using n ok pl by (auto simp: mark_heavy_def)
  next
    case True
    let ?g = "?h\<lparr>blists := (blists ?h)(b \<mapsto> l\<lparr>bl_heavy := 1\<rparr>)\<rparr>"
    have inv': "om_inv ?g (m_ds d) t" by (rule om_inv_mark [OF inv n(3)])
    have run: "mark_heavy x g d = Some (d\<lparr>m_heap := ?g, m_heavy_nodes := ?hs @ [p]\<rparr>)"
      using n True g inv_node(2,3) [OF inv' leaf x] inv_node(4) [OF inv' leaf x] by (auto simp: mark_heavy_def add_heavy_def upd_blist_def)
    have dl: "distinct (om_lists t)" "distinct (map fst (flat t))"
      using inv flat_distinct [of t] by (auto simp: om_inv_def tree_ok_def)
    have same: "q = p \<longleftrightarrow> c = b" if "(q, c, zs) \<in> set (flat t)" for q c zs
      using lists_disjoint [OF dl(1) leaf, of q zs] that leaf dl(2) by (auto simp: distinct_map inj_on_def) force
    have "q \<in> set (?hs @ [p]) \<longleftrightarrow> bl_heavy m \<noteq> 0" if q: "(q, c, zs) \<in> set (flat t)" "blists ?g c = Some m" for q c zs m
    proof (cases "c = b")
      case True
      then show ?thesis using q same [OF q(1)] by auto
    next
      case False
      then have "blists ?h c = Some m" using q(2) by simp
      then show ?thesis using False same [OF q(1)] q(1) li by (auto simp: listed_def)
    qed
    moreover have "\<exists>b ys. (q, b, ys) \<in> set (flat t) \<and> ys \<noteq> []" if "q \<in> set (?hs @ [p])" for q
    proof (cases "q = p")
      case True
      then show ?thesis using leaf x by (intro exI [of _ b] exI [of _ ys]) auto
    qed (use that li in \<open>auto simp: listed_def\<close>)
    moreover have "distinct (?hs @ [p])" using li pl True by (simp add: listed_def)
    ultimately have "listed ?g (?hs @ [p]) t" unfolding listed_def by blast
    then show ?thesis using run inv' by (intro exI [of _ "d\<lparr>m_heap := ?g, m_heavy_nodes := ?hs @ [p]\<rparr>"]) (auto simp: omrd_ok_def)
  qed
qed

text \<open>After relabelling nothing is heavy, and the lists that were heavy have room.\<close>

lemma relabel_run:
  assumes ok: "omrd_ok d t" and fit: "can_relabel M {} d t"
  shows "\<exists>d' t'. relabel M d = Some d' \<and> omrd_ok d' t' \<and> om_order t' = om_order t \<and> m_heavy_nodes d' = [] \<and>
    (\<forall>c\<in>set (flat t'). light (m_heap d') c \<or> c \<in> set (flat t) \<and> fst c \<notin> set (m_heavy_nodes d))"
proof (cases "m_heavy_nodes d = []")
  case True
  then show ?thesis using ok by (intro exI [of _ d] exI [of _ t]) (simp add: relabel_def)
next
  case False
  let ?hs = "m_heavy_nodes d"
  have inv: "om_inv (m_heap d) (m_ds d) t" and li: "distinct ?hs" "\<forall>p\<in>set ?hs. \<exists>b xs. (p, b, xs) \<in> set (flat t) \<and> xs \<noteq> []"
    and heavy: "\<And>p b ys l. (p, b, ys) \<in> set (flat t) \<Longrightarrow> blists (m_heap d) b = Some l \<Longrightarrow> p \<in> set ?hs \<longleftrightarrow> bl_heavy l \<noteq> 0"
    using ok by (auto simp: omrd_ok_def listed_def)
  obtain ds h t' where r: "om_relabel M (m_ds d) ?hs (m_heap d) = Some (ds, h)" "om_inv h ds t'" "om_order t' = om_order t"
      "settled (m_heap d) h (set ?hs) t t'"
    using om_relabel_spec [OF inv li, of M] fit unfolding can_relabel_def by (auto simp del: One_nat_def)
  have "bl_heavy l = 0" if c: "(p, b, ys) \<in> set (flat t')" "blists h b = Some l" for p b ys l
  proof (cases "light h (p, b, ys)")
    case False
    then have "(p, b, ys) \<in> set (flat t)" "p \<notin> set ?hs" "blists h b = blists (m_heap d) b"
      using r(4) c(1) unfolding settled_def by auto
    then show ?thesis using heavy [of p b ys l] c(2) by simp
  qed (use c(2) in \<open>simp add: light_def\<close>)
  then have "listed h [] t'" by (auto simp: listed_def)
  then show ?thesis using r False unfolding settled_def
    by (intro exI [of _ "d\<lparr>m_ds := ds, m_heap := h, m_heavy_nodes := []\<rparr>"] exI [of _ t']) (auto simp: relabel_def omrd_ok_def)
qed

text \<open>A worker that holds no lock and has failed to insert runs the batch itself.\<close>

lemma join_batch_run:
  assumes ok: "idle_ok p w g t" and f: "insert_failed g w" and fit: "\<And>e. can_relabel M {} (omrd_of e g) (t e)"
  shows "\<exists>g' t'. join_batch M p w g = Some g' \<and> idle_ok p w g' t' \<and> insert_failed g' = insert_failed g \<and> (\<forall>e. om_order (t' e) = om_order (t e)) \<and>
    (\<forall>e. \<forall>c\<in>set (flat (t' e)). light (m_heap (omrd_of e g')) c \<or> c \<in> set (flat (t e)) \<and> fst c \<notin> set (m_heavy_nodes (omrd_of e g)))"
proof -
  note I = ok [unfolded idle_ok_def idle_def]
  have "\<exists>d' t'. relabel M (omrd_of e g) = Some d' \<and> omrd_ok d' t' \<and> om_order t' = om_order (t e) \<and>
      (\<forall>c\<in>set (flat t'). light (m_heap d') c \<or> c \<in> set (flat (t e)) \<and> fst c \<notin> set (m_heavy_nodes (omrd_of e g)))" for e
    using relabel_run [OF _ fit, of e] I by blast
  then obtain d' t' where r: "\<And>e. relabel M (omrd_of e g) = Some (d' e)" "\<And>e. omrd_ok (d' e) (t' e)"
      "\<And>e. om_order (t' e) = om_order (t e)"
      "\<And>e. \<forall>c\<in>set (flat (t' e)). light (m_heap (d' e)) c \<or> c \<in> set (flat (t e)) \<and> fst c \<notin> set (m_heavy_nodes (omrd_of e g))"
    by metis
  define g' where "g' = g\<lparr>g_english := d' True, g_hebrew := d' False, g_relabel_id := g_relabel_id g + 1 + 1,
    g_worker_mutexes := (\<lambda>i. \<not> i < p \<and> (i < p \<or> g_worker_mutexes g i))\<rparr>"
  have od: "omrd_of e g' = d' e" for e by (simp add: omrd_of_def g'_def)
  have e: "relabel M (g_english g) = Some (d' True)" "relabel M (g_hebrew g) = Some (d' False)"
    using r(1) [of True] r(1) [of False] by (simp_all add: omrd_of_def)
  have "om_try_lock_all p w g = Some (True, g\<lparr>g_relabel_mutex := True, g_worker_mutexes := (\<lambda>i. i < p \<or> g_worker_mutexes g i),
      g_batch_in_progress := True, g_batch_owner_id := int w\<rparr>)"
    using I f by (simp add: om_try_lock_all_def list_all_iff)
  then have "join_batch M p w g = Some g'"
    using I e by (simp add: join_batch_def batch_relabel_def g'_def)
  moreover have "(g_relabel_id g + 1 + 1) AND 1 = 0" if "g_relabel_id g AND 1 = 0"
    using that by (simp add: and_one_eq even_iff_mod_2_eq_zero [symmetric] flip: even_iff_mod_2_eq_zero split: if_splits)
  then have "idle p w g'" using I by (simp add: idle_def g'_def)
  ultimately show ?thesis using r od
    by (intro exI [of _ g'] exI [of _ t'] conjI) (simp_all add: idle_ok_def g'_def)
qed

section \<open>Insertion always succeeds\<close>

text \<open>The state while the worker holds its own lock.\<close>

definition locked :: "nat \<Rightarrow> nat \<Rightarrow> omrd_globals \<Rightarrow> (bool \<Rightarrow> ltree) \<Rightarrow> bool" where
  "locked p w g t \<longleftrightarrow> idle_ok p w (hold_mutex w False g) t"

lemma hold_mutex_simps [simp]:
  "omrd_of e (hold_mutex w v g) = omrd_of e g" "set_omrd e d (hold_mutex w v g) = hold_mutex w v (set_omrd e d g)"
  "insert_failed (hold_mutex w v g) = insert_failed g" "g_batch_in_progress (hold_mutex w v g) = g_batch_in_progress g"
  "g_heavy_threshold (hold_mutex w v g) = g_heavy_threshold g" "hold_mutex w u (hold_mutex w v g) = hold_mutex w u g"
  "g_worker_mutexes (hold_mutex w v g) = (g_worker_mutexes g)(w := v)"
  by (simp_all add: hold_mutex_def omrd_of_def set_omrd_def)

lemma set_omrd_same [simp]: "set_omrd e (omrd_of e g) g = g"
  by (cases g) (auto simp: set_omrd_def omrd_of_def)

lemma lockedD:
  assumes "locked p w g t"
  shows "omrd_ok (omrd_of e g) (t e)" "\<not> g_batch_in_progress g" "g_heavy_threshold g = DEFAULT_HEAVY_THRESHOLD"
  using assms by (auto simp: locked_def idle_ok_def idle_def)

lemma idle_lock_set [simp]: "idle p w (hold_mutex w v (set_omrd e d g)) = idle p w (hold_mutex w v g)"
  by (simp add: idle_def hold_mutex_def)

lemma locked_set: "locked p w g t \<Longrightarrow> omrd_ok d u \<Longrightarrow> locked p w (set_omrd e d g) (t(e := u))"
  unfolding locked_def idle_ok_def by (auto simp: omrd_of_set(2))

lemma locked_failed [simp]: "locked p w (g\<lparr>insert_failed := f\<rparr>) t = locked p w g t"
  by (auto simp: locked_def idle_ok_def idle_def hold_mutex_def omrd_of_def)

lemma lock_run: "idle_ok p w g t \<Longrightarrow> lock_or_join M p w g = Some (hold_mutex w True g) \<and> locked p w (hold_mutex w True g) t"
proof -
  assume "idle_ok p w g t"
  moreover from this have "\<not> g_worker_mutexes g w" "idle p w (hold_mutex w False g)" by (auto simp: idle_ok_def idle_def hold_mutex_def)
  ultimately show ?thesis by (subst lock_or_join.simps) (simp add: idle_ok_def locked_def)
qed

lemma mark_if_heavy_run:
  assumes ok: "locked p w g t" and leaf: "(q, b, us @ base # n # vs) \<in> set (flat (t e))"
  shows "\<exists>g'. mark_if_heavy e base n g = Some g' \<and> locked p w g' t \<and> omrd_of (\<not> e) g' = omrd_of (\<not> e) g \<and>
    bnodes (m_heap (omrd_of e g')) = bnodes (m_heap (omrd_of e g)) \<and> insert_failed g' = insert_failed g"
proof -
  let ?d = "omrd_of e g"
  note L = lockedD [OF ok]
  have inv: "om_inv (m_heap ?d) (m_ds ?d) (t e)" using L(1) [of e] by (simp add: omrd_ok_def)
  have mem: "n \<in> set (us @ base # n # vs)" "base \<in> set (us @ base # n # vs)" by simp_all
  have leaf2: "(q, b, (us @ [base]) @ n # vs) \<in> set (flat (t e))" using leaf by simp
  obtain x y v where xy: "bnodes (m_heap ?d) n = Some x" "bn_list x = Some b" "bnodes (m_heap ?d) base = Some y" "bn_list y = Some b"
      "is_heavy DEFAULT_HEAVY_THRESHOLD n (m_heap ?d) = Some v"
    using inv_node(1) [OF inv leaf mem(1)] inv_node(1) [OF inv leaf mem(2)] is_heavy_gap(1) [OF inv leaf2] by blast
  obtain d' where d': "mark_heavy base g ?d = Some d'" "omrd_ok d' (t e)" "bnodes (m_heap d') = bnodes (m_heap ?d)"
    using mark_heavy_run [OF L(1) leaf mem(2) L(2)] by blast
  have "mark_if_heavy e base n g = Some (if v then set_omrd e d' g else g)"
    using xy d'(1) L(3) by (simp add: mark_if_heavy_def mark_on_def)
  then show ?thesis using ok locked_set [OF ok d'(2), of e] d'(3) by (intro exI [of _ "if v then set_omrd e d' g else g"]) auto
qed

lemma split_at: "x \<in> set ys \<Longrightarrow> \<exists>us vs. ys = us @ x # vs \<and> x \<notin> set us"
  by (meson split_list_first)

text \<open>A list with a free label: the insertion takes it and waits for nobody.\<close>

lemma omrd_insert_fast:
  assumes ok: "idle_ok p w g t" and leaf: "(q, b, us @ base # vs) \<in> set (flat (t e))" and us: "base \<notin> set us"
    and free: "label_after (m_heap (omrd_of e g)) base vs \<noteq> 0"
  defines "n \<equiv> fresh (m_heap (omrd_of e g))"
  shows "\<exists>g'. omrd_insert M p w e base g = Some (n, g') \<and> idle_ok p w g' (t(e := ins_tree base n (t e))) \<and> n \<notin> set (om_order (t e)) \<and>
    om_order (ins_tree base n (t e)) = insert_after base n (om_order (t e)) \<and> omrd_of (\<not> e) g' = omrd_of (\<not> e) g \<and>
    bnodes (m_heap (omrd_of e g')) = bnodes (inserted (m_heap (omrd_of e g)) b base (label_after (m_heap (omrd_of e g)) base vs) vs)"
proof -
  let ?g = "hold_mutex w True g"
  note L = lock_run [OF ok, of M]
  have bt: "\<not> g_batch_in_progress ?g" using lockedD(2) L by blast
  have od: "omrd_ok (omrd_of e g) (t e)" using ok by (simp add: idle_ok_def)
  obtain d' where d': "try_insert w (Some base) ?g (omrd_of e g) = Some (Some n, d')"
      "d' = (omrd_of e g)\<lparr>m_heap := inserted (m_heap (omrd_of e g)) b base (label_after (m_heap (omrd_of e g)) base vs) vs\<rparr>"
      "omrd_ok d' (ins_tree base n (t e))" "n \<notin> set (om_order (t e))" "om_order (ins_tree base n (t e)) = insert_after base n (om_order (t e))"
    using try_insert_run(2) [OF od leaf bt, of w] free by (auto simp: n_def)
  have lk: "locked p w (set_omrd e d' ?g) (t(e := ins_tree base n (t e)))" using locked_set L d'(3) by blast
  have nd: "\<not> dirty (t e)" using od by (simp add: omrd_ok_def om_inv_def)
  have leaf': "(q, b, us @ base # n # vs) \<in> set (flat ((t(e := ins_tree base n (t e))) e))"
    using leaf insert_after_split [OF us, of n vs] by (force simp: flat_ins_tree [OF nd] image_iff)
  obtain g' where g': "mark_if_heavy e base n (set_omrd e d' ?g) = Some g'" "locked p w g' (t(e := ins_tree base n (t e)))"
      "omrd_of (\<not> e) g' = omrd_of (\<not> e) (set_omrd e d' ?g)" "bnodes (m_heap (omrd_of e g')) = bnodes (m_heap (omrd_of e (set_omrd e d' ?g)))"
    using mark_if_heavy_run [OF lk leaf'] by blast
  have "omrd_insert M p w e base g = Some (n, hold_mutex w False g')"
    using L d'(1) g'(1) by (simp add: omrd_insert_def try_on_def)
  then show ?thesis using g' d' by (intro exI [of _ "hold_mutex w False g'"]) (simp add: locked_def)
qed

text \<open>A full list: the worker starts a batch, and the list that holds the base afterwards has room.\<close>

lemma leaf_of_is:
  assumes "om_inv h self t" "(q, b, ys) \<in> set (flat t)" "x \<in> set ys"
  shows "leaf_of x t = {q}"
proof
  show "leaf_of x t \<subseteq> {q}" unfolding leaf_of_def using leaf_of_only [OF assms] by blast
  show "{q} \<subseteq> leaf_of x t" unfolding leaf_of_def using assms(2,3) by blast
qed

lemma mark_on_run:
  assumes ok: "locked p w g t" and leaf: "(q, b, ys) \<in> set (flat (t e))" and x: "base \<in> set ys"
  shows "\<exists>g'. mark_on e base g = Some g' \<and> locked p w g' t \<and> insert_failed g' = insert_failed g \<and>
    set (m_heavy_nodes (omrd_of e g')) = insert q (set (m_heavy_nodes (omrd_of e g))) \<and> omrd_of (\<not> e) g' = omrd_of (\<not> e) g"
proof -
  note L = lockedD [OF ok]
  from mark_heavy_run [OF L(1) leaf x L(2)] obtain d' where
    "mark_heavy base g (omrd_of e g) = Some d'" "omrd_ok d' (t e)" "set (m_heavy_nodes d') = insert q (set (m_heavy_nodes (omrd_of e g)))"
    by blast
  then show ?thesis using locked_set [OF ok, of d' "t e" e] by (auto simp: mark_on_def)
qed

lemma light_insert:
  assumes ok: "locked p w g t" and leaf: "(q, b, us @ base # vs) \<in> set (flat (t e))" and us: "base \<notin> set us"
    and light: "light (m_heap (omrd_of e g)) (q, b, us @ base # vs)"
  shows "\<exists>n g'. try_on w e base g = Some (Some n, g') \<and> locked p w g' (t(e := ins_tree base n (t e))) \<and> n \<notin> set (om_order (t e)) \<and>
    om_order (ins_tree base n (t e)) = insert_after base n (om_order (t e)) \<and>
    (q, b, us @ base # n # vs) \<in> set (flat (ins_tree base n (t e))) \<and> is_heavy (g_heavy_threshold g') n (m_heap (omrd_of e g')) = Some False"
proof -
  let ?d = "omrd_of e g" and ?n = "fresh (m_heap (omrd_of e g))" and ?t = "t(e := ins_tree base (fresh (m_heap (omrd_of e g))) (t e))"
  note L = lockedD [OF ok]
  have inv: "om_inv (m_heap ?d) (m_ds ?d) (t e)" using L(1) [of e] by (simp add: omrd_ok_def)
  have gaps: "gaps_ge (2 ^ 58) (labels (m_heap ?d) (us @ base # vs))" using light by (simp add: light_def labels_def)
  note gap = label_after_gap [OF inv_leaf(2) [OF inv leaf], of "2 ^ 58", folded labels_def]
  have free: "label_after (m_heap ?d) base vs \<noteq> 0" using gap(1) gaps by simp
  obtain d' where d': "try_insert w (Some base) g ?d = Some (Some ?n, d')"
      "d' = ?d\<lparr>m_heap := inserted (m_heap ?d) b base (label_after (m_heap ?d) base vs) vs\<rparr>"
      "omrd_ok d' (ins_tree base ?n (t e))" "?n \<notin> set (om_order (t e))" "om_order (ins_tree base ?n (t e)) = insert_after base ?n (om_order (t e))"
    using try_insert_run(2) [OF L(1) leaf L(2), of w] free by auto
  have nd: "\<not> dirty (t e)" using inv by (simp add: om_inv_def)
  have leaf': "(q, b, us @ base # ?n # vs) \<in> set (flat (ins_tree base ?n (t e)))"
    using leaf insert_after_split [OF us, of ?n vs] by (force simp: flat_ins_tree [OF nd] image_iff)
  have inv': "om_inv (m_heap d') (m_ds d') (ins_tree base ?n (t e))" using d'(3) by (simp add: omrd_ok_def)
  have "gaps_ge (2 ^ 57) (labels (m_heap d') (us @ base # ?n # vs))"
    using gap(2) gaps unfolding d'(2) by (simp add: labels_inserted(2) [OF inv leaf leaf])
  then have "gaps_ge (2 ^ 33) (labels (m_heap d') ((us @ [base]) @ ?n # vs))" by (auto elim: gaps_ge_mono)
  then have "is_heavy DEFAULT_HEAVY_THRESHOLD ?n (m_heap d') = Some False"
    using is_heavy_gap(2) [OF inv', of q b "us @ [base]" ?n vs] leaf' by simp
  then show ?thesis using d' leaf' L(3) locked_set [OF ok d'(3)]
    by (intro exI [of _ ?n] exI [of _ "set_omrd e d' g"]) (simp add: try_on_def)
qed

lemma omrd_insert_slow:
  assumes ok: "idle_ok p w g t" and leaf: "(q, b, us @ base # vs) \<in> set (flat (t e))"
    and full: "label_after (m_heap (omrd_of e g)) base vs = 0"
    and fit: "can_relabel M {q} (omrd_of e g) (t e)" "can_relabel M {} (omrd_of (\<not> e) g) (t (\<not> e))"
  shows "\<exists>n g' t'. omrd_insert M p w e base g = Some (n, g') \<and> idle_ok p w g' t' \<and> n \<notin> set (om_order (t e)) \<and>
    om_order (t' e) = insert_after base n (om_order (t e)) \<and> om_order (t' (\<not> e)) = om_order (t (\<not> e))"
proof -
  let ?g = "hold_mutex w True g" and ?fail = "\<lambda>v g. g\<lparr>insert_failed := (insert_failed g)(w := v)\<rparr>"
  have L: "lock_or_join M p w g = Some ?g" "locked p w ?g t" using lock_run [OF ok] by simp_all
  have od: "omrd_ok (omrd_of e g) (t e)" using ok by (simp add: idle_ok_def)
  have "try_insert w (Some base) ?g (omrd_of e g) = Some (None, omrd_of e g)"
    using try_insert_run(1) [OF od leaf _ full] lockedD(2) [OF L(2)] by blast
  then have 1: "try_on w e base ?g = Some (None, ?g)" by (simp add: try_on_def)
  have "locked p w (?fail True ?g) t" using L(2) by simp
  from mark_on_run [OF this leaf, of base] obtain g1 where g1: "mark_on e base (?fail True ?g) = Some g1" "locked p w g1 t"
      "insert_failed g1 w" "set (m_heavy_nodes (omrd_of e g1)) = insert q (set (m_heavy_nodes (omrd_of e g)))" "omrd_of (\<not> e) g1 = omrd_of (\<not> e) g"
    by auto
  have id1: "idle_ok p w (hold_mutex w False g1) t" using g1(2) by (simp add: locked_def)
  have fit1: "can_relabel M {} (omrd_of e' (hold_mutex w False g1)) (t e')" for e'
    using fit g1(4,5) by (cases "e' = e") (auto simp: can_relabel_def)
  have fl: "insert_failed (hold_mutex w False g1) w" using g1(3) by simp
  from join_batch_run [OF id1 fl fit1, unfolded hold_mutex_simps] obtain g2 t2 where g2: "join_batch M p w (hold_mutex w False g1) = Some g2" "idle_ok p w g2 t2"
      "\<And>e. om_order (t2 e) = om_order (t e)"
      "\<And>e c. c \<in> set (flat (t2 e)) \<Longrightarrow> light (m_heap (omrd_of e g2)) c \<or> c \<in> set (flat (t e)) \<and> fst c \<notin> set (m_heavy_nodes (omrd_of e g1))"
    by blast
  have id3: "idle_ok p w (?fail False g2) t2" using g2(2) by (auto simp: idle_ok_def idle_def)
  let ?g3 = "hold_mutex w True (?fail False g2)"
  have L3: "lock_or_join M p w (?fail False g2) = Some ?g3" "locked p w ?g3 t2" using lock_run [OF id3] by simp_all
  have inv: "om_inv (m_heap (omrd_of e g)) (m_ds (omrd_of e g)) (t e)" using od by (simp add: omrd_ok_def)
  have "base \<in> set (om_order (t2 e))" using leaf g2(3) om_order_mem by fastforce
  then obtain q2 b2 ys where y: "(q2, b2, ys) \<in> set (flat (t2 e))" "base \<in> set ys" unfolding om_order_mem by blast
  obtain us2 vs2 where ys: "ys = us2 @ base # vs2" "base \<notin> set us2" using split_at [OF y(2)] by blast
  have li: "light (m_heap (omrd_of e ?g3)) (q2, b2, us2 @ base # vs2)"
  proof -
    have "q2 = q" if "(q2, b2, ys) \<in> set (flat (t e))" using leaf_of_only [OF inv leaf _ that y(2)] by simp
    then show ?thesis using g2(4) [OF y(1)] g1(4) ys(1) by auto
  qed
  from light_insert [OF L3(2) y(1) [unfolded ys(1)] ys(2) li] obtain n g4 where
    g4: "try_on w e base ?g3 = Some (Some n, g4)" "locked p w g4 (t2(e := ins_tree base n (t2 e)))" "n \<notin> set (om_order (t2 e))"
      "om_order (ins_tree base n (t2 e)) = insert_after base n (om_order (t2 e))"
      "(q2, b2, us2 @ base # n # vs2) \<in> set (flat (ins_tree base n (t2 e)))"
      "is_heavy (g_heavy_threshold g4) n (m_heap (omrd_of e g4)) = Some False"
    by blast
  have slow: "slow_path M p w e base ?g = Some (n, g4)"
    by (subst slow_path.simps) (use g1(1) g2(1) L3(1) g4(1) in simp)
  let ?t = "t2(e := ins_tree base n (t2 e))"
  have leaf': "(q2, b2, us2 @ base # n # vs2) \<in> set (flat (?t e))" using g4(5) by simp
  obtain g5 where g5: "mark_if_heavy e base n g4 = Some g5" "locked p w g5 ?t" using mark_if_heavy_run [OF g4(2) leaf'] by blast
  have "omrd_insert M p w e base g = Some (n, hold_mutex w False g5)"
    using L(1) 1 slow g4(6) g5(1) by (simp add: omrd_insert_def)
  then show ?thesis using g5(2) g4(3,4) g2(3)
    by (intro exI [of _ n] exI [of _ "hold_mutex w False g5"] exI [of _ ?t]) (simp add: locked_def)
qed

lemma omrd_insert_spec:
  assumes ok: "idle_ok p w g t" and base: "base \<in> set (om_order (t e))"
    and fit: "can_relabel M (leaf_of base (t e)) (omrd_of e g) (t e)" "can_relabel M {} (omrd_of (\<not> e) g) (t (\<not> e))"
  shows "\<exists>n g' t'. omrd_insert M p w e base g = Some (n, g') \<and> idle_ok p w g' t' \<and> n \<notin> set (om_order (t e)) \<and>
    om_order (t' e) = insert_after base n (om_order (t e)) \<and> om_order (t' (\<not> e)) = om_order (t (\<not> e))"
proof -
  have inv: "om_inv (m_heap (omrd_of e g)) (m_ds (omrd_of e g)) (t e)" using ok by (simp add: idle_ok_def omrd_ok_def)
  obtain q b ys where ys: "(q, b, ys) \<in> set (flat (t e))" "base \<in> set ys" using base unfolding om_order_mem by blast
  obtain us vs where s: "ys = us @ base # vs" "base \<notin> set us" using split_at [OF ys(2)] by blast
  note leaf = ys(1) [unfolded s(1)]
  show ?thesis
  proof (cases "label_after (m_heap (omrd_of e g)) base vs = 0")
    case True
    then show ?thesis using omrd_insert_slow [OF ok leaf True] fit leaf_of_is [OF inv ys] by simp
  next
    case False
    let ?n = "fresh (m_heap (omrd_of e g))"
    from omrd_insert_fast [OF ok leaf s(2) False, of M] obtain g' where
      "omrd_insert M p w e base g = Some (?n, g')" "idle_ok p w g' (t(e := ins_tree base ?n (t e)))" "?n \<notin> set (om_order (t e))"
      "om_order (ins_tree base ?n (t e)) = insert_after base ?n (om_order (t e))" by blast
    then show ?thesis by (intro exI [of _ ?n] exI [of _ g'] exI [of _ "t(e := ins_tree base ?n (t e))"]) simp
  qed
qed

text \<open>
  C4. An insertion into an order of the race detector succeeds when both structures are valid, no batch is running (one
  worker, the heavy threshold at its default) and the counts fit if a batch has to relabel: the counts of both trees, with the
  heavy lists and the list of the base split, stay in the ranges and capacities of their levels. (When they do not
  fit, the relabelling can stop the process.) When the list of the base is full, the
  worker marks it, starts a batch that relabels the heavy lists of both structures, and tries again: the
  second attempt finds a label, the loop ends, the assertions about the new node hold, the new node is right behind its base,
  nothing else moves in either order, and exactly the lists marked heavy are on the stacks of heavy nodes.
\<close>

theorem omrd_insert_succeeds:
  assumes "idle_ok p w g t" "base \<in> set (om_order (t e))"
    and "can_relabel M (leaf_of base (t e)) (omrd_of e g) (t e)" "can_relabel M {} (omrd_of (\<not> e) g) (t (\<not> e))"
  shows "\<exists>n g' t'. omrd_insert M p w e base g = Some (n, g') \<and> idle_ok p w g' t' \<and> n \<notin> set (om_order (t e)) \<and>
    om_order (t' e) = insert_after base n (om_order (t e)) \<and> om_order (t' (\<not> e)) = om_order (t (\<not> e))"
  by (rule omrd_insert_spec [OF assms])

text \<open>A full list of 65 nodes in either structure, whose labels are consecutive.\<close>

definition ex_omrd :: omrd where
  "ex_omrd = \<lparr>m_heavy_nodes = [0], m_ds = ex_om, m_base = 2, m_heap = ex_heap 65\<rparr>"

definition ex_globals :: omrd_globals where
  "ex_globals = \<lparr>g_heavy_threshold = DEFAULT_HEAVY_THRESHOLD, g_batch_in_progress = False, g_relabel_id = 0, g_batch_owner_id = -1,
     insert_failed = (\<lambda>_. False), g_worker_mutexes = (\<lambda>_. False), g_relabel_mutex = False, g_english = ex_omrd, g_hebrew = ex_omrd\<rparr>"

theorem omrd_insert_succeeds_witness:
  "\<exists>n g'. om_insert 0 2 (ex_heap 65) = Some (None, ex_heap 65) \<and> omrd_insert ex_machine 2 0 True 2 ex_globals = Some (n, g')"
proof -
  have inv: "om_inv (ex_heap 65) ex_om (ex_tree 65)" by (rule ex_tree_ok) simp_all
  have "listed (ex_heap 65) [0] (ex_tree 65)" by (simp add: listed_def) (simp add: ex_heap_def)
  then have ok: "idle_ok 2 0 ex_globals (\<lambda>_. ex_tree 65)"
    using inv by (simp add: idle_ok_def idle_def omrd_ok_def omrd_of_def ex_globals_def ex_omrd_def)
  have fits: "can_relabel ex_machine S ex_omrd (ex_tree 65)" if "S \<subseteq> {0}" for S
  proof -
    have S: "insert 0 S = {0}" using that by blast
    show ?thesis by (simp add: can_relabel_def ex_omrd_def ex_tree_def chunks_def MAX_LEVEL_def)
  qed
  have lf: "leaf_of 2 (ex_tree 65) \<subseteq> {0}" by (auto simp: leaf_of_def)
  have full: "label_after (ex_heap 65) 2 [3..<67] = 0"
    by (simp add: label_after_def upt_conv_Cons ex_lab new_label_def)
  have leaf: "(0, 1, [] @ 2 # [3..<67]) \<in> set (flat (ex_tree 65))" by (simp add: upt_conv_Cons)
  have "om_insert 0 2 (ex_heap 65) = Some (None, ex_heap 65)" using om_insert_run [OF inv leaf] full by simp
  moreover have "\<exists>n g'. omrd_insert ex_machine 2 0 True 2 ex_globals = Some (n, g')"
    using omrd_insert_succeeds [OF ok, where base = 2 and e = True and M = ex_machine] fits lf by (simp add: omrd_of_def ex_globals_def) blast
  ultimately show ?thesis by blast
qed

section \<open>A new structure\<close>

lemma omrd_new_spec:
  assumes "heap_ok h" "\<not> g_batch_in_progress g"
  shows "\<exists>d p b. omrd_new g h = Some d \<and> omrd_ok d (Leaf p b [m_base d]) \<and> gaps_ge (2 ^ 64) (labels (m_heap d) [m_base d])"
proof -
  obtain ds h1 where c: "om_create h = Some (ds, h1)" "om_inv h1 ds (Leaf (om_root ds) (Suc (fresh h)) [])"
    using om_create_spec [OF assms(1)] by blast
  have c3: "bl_heavy l = 0" if "blists h1 (Suc (fresh h)) = Some l" for l
    using c(1) that by (auto simp: om_create_def tl_node_new_def bl_new_def bl_create_def upd_tl_def upd_blist_def Let_def)
  from om_insert_initial_spec [OF c(2)] obtain n h2 where n: "om_insert_initial ds h1 = Some (n, h2)" "om_inv h2 ds (Leaf (om_root ds) (Suc (fresh h)) [n])"
    by blast
  have leaf: "(om_root ds, Suc (fresh h), [n]) \<in> set (flat (Leaf (om_root ds) (Suc (fresh h)) [n]))" by simp
  have a: "above_of h2 n = Some (om_root ds)" using inv_node(2) [OF n(2) leaf] by simp
  obtain tn l0 where tn: "tlnodes h1 (om_root ds) = Some tn" "tl_below tn = Below (Suc (fresh h))" "tl_num_leaves tn = 1"
      "blists h1 (Suc (fresh h)) = Some l0" "bl_head l0 = None"
    using c(2) by (auto simp: om_inv_def tree_ok_def trep_iffs leaf_ok_iff blist_inv_iff)
  have h2: "h2 = h1\<lparr>fresh := Suc (fresh h1), blists := (blists h1)(Suc (fresh h) \<mapsto> l0\<lparr>bl_head := Some (fresh h1), bl_tail := Some (fresh h1)\<rparr>),
      bnodes := (bnodes h1)(fresh h1 \<mapsto> \<lparr>bn_label = 0, bn_next = None, bn_prev = None, bn_list = Some (Suc (fresh h)),
        bn_in_use = 42, bn_active_insert = 0, bn_last_insert_id = -1, bn_head = []\<rparr>)\<rparr>" "n = fresh h1"
    using n(1) tn by (auto simp: om_insert_initial_def bl_insert_initial_def insert_internal_def node_new_def
        upd_bnode_def upd_blist_def bind_eq_Some_conv below_list_def)
  have "bl_heavy l = 0" if "blists h2 (Suc (fresh h)) = Some l" for l using that c3 [OF tn(4)] h2 by auto
  then have "listed h2 [] (Leaf (om_root ds) (Suc (fresh h)) [n])" by (simp add: listed_def)
  moreover have "bn_lab h2 n = 0" by (simp add: h2 bn_lab_def)
  moreover have "omrd_new g h = Some \<lparr>m_heavy_nodes = [], m_ds = ds, m_base = n, m_heap = h2\<rparr>"
    using c(1) n(1) a assms(2) by (simp add: omrd_new_def try_insert_def)
  ultimately show ?thesis using n(2)
    by (intro exI [of _ "\<lparr>m_heavy_nodes = [], m_ds = ds, m_base = n, m_heap = h2\<rparr>"] exI [of _ "om_root ds"] exI [of _ "Suc (fresh h)"])
      (simp add: omrd_ok_def labels_def)
qed

section \<open>Two structures and no relabelling\<close>

text \<open>The order that a structure stands for is determined by its memory.\<close>

lemma dll_unique: "dll h b pr xs None \<Longrightarrow> dll h b pr' ys None \<Longrightarrow> hd_opt xs None = hd_opt ys None \<Longrightarrow> xs = ys"
proof (induction xs arbitrary: pr pr' ys)
  case Nil
  then show ?case by (cases ys) auto
next
  case (Cons x xs)
  then obtain zs where ys: "ys = x # zs" by (cases ys) auto
  show ?case using Cons.prems(1,2) Cons.IH [of "Some x" "Some x" zs] by (auto simp: ys dll_Cons)
qed

lemma blist_unique: "blist_inv h b xs \<Longrightarrow> blist_inv h b ys \<Longrightarrow> xs = ys"
  unfolding blist_inv_iff using dll_unique by fastforce

lemma flat_unique:
  "trep h par v lo t \<Longrightarrow> trep h par' v' lo' t' \<Longrightarrow> root_ptr t = root_ptr t' \<Longrightarrow> \<not> dirty t \<Longrightarrow> \<not> dirty t' \<Longrightarrow>
    \<forall>d\<in>set (flat t). leaf_ok h d \<Longrightarrow> \<forall>d\<in>set (flat t'). leaf_ok h d \<Longrightarrow> flat t = flat t'"
proof (induction t arbitrary: par v lo par' v' lo' t')
  case (Leaf p b xs)
  obtain n where n: "tlnodes h p = Some n" "tl_level n = MAX_LEVEL" "tl_below n = Below b" using Leaf.prems(1) by (auto simp: trep_Leaf)
  have t': "t' = Leaf p b (snd (snd (hd (flat t'))))"
    using Leaf.prems(2,3,5) n by (cases t') (auto simp: trep_Leaf trep_Inner)
  then show ?case using Leaf.prems(6,7) blist_unique by (cases t') (auto simp: leaf_ok_iff)
next
  case (Inner p l r)
  obtain n where n: "tlnodes h p = Some n" "tl_level n \<noteq> MAX_LEVEL" "tl_left_prev n = Some (root_ptr l)" "tl_right_next n = Some (root_ptr r)"
    using Inner.prems(1) by (auto simp: trep_Inner)
  then obtain l' r' where t': "t' = Inner p l' r'" "root_ptr l = root_ptr l'" "root_ptr r = root_ptr r'"
    using Inner.prems(2,3,5) by (cases t') (auto simp: trep_Leaf trep_Inner)
  have l: "trep h (Some p) (Suc v) lo l" "trep h (Some p) (Suc v) (lo + 2 ^ (MAX_LEVEL - Suc v)) r"
    using Inner.prems(1) by (auto simp: trep_Inner)
  have l': "trep h (Some p) (Suc v') lo' l'" "trep h (Some p) (Suc v') (lo' + 2 ^ (MAX_LEVEL - Suc v')) r'"
    using Inner.prems(2) t' by (auto simp: trep_Inner)
  have "flat l = flat l'" using Inner.prems(4-7) t' by (intro Inner.IH(1) [OF l(1) l'(1)]) simp_all
  moreover have "flat r = flat r'" using Inner.prems(4-7) t' by (intro Inner.IH(2) [OF l(2) l'(2)]) simp_all
  ultimately show ?case by (simp add: t')
qed simp

definition order_nodes :: "omrd \<Rightarrow> node_ptr list" where
  "order_nodes d = (SOME xs. \<exists>t. omrd_ok d t \<and> xs = om_order t)"

lemma order_nodes_eq:
  assumes "omrd_ok d t"
  shows "order_nodes d = om_order t"
proof -
  have "om_order t' = om_order t" if "omrd_ok d t'" for t'
    using flat_unique [of "m_heap d" None 0 0 t' None 0 0 t] assms that by (simp add: omrd_ok_def om_inv_def tree_ok_def om_order_def)
  then have "(\<exists>t. omrd_ok d t \<and> xs = om_order t) \<longleftrightarrow> xs = om_order t" for xs using assms by metis
  then show ?thesis unfolding order_nodes_def by simp
qed

text \<open>\<open>room_for p w g k\<close>: any \<open>k\<close> insertions, at whatever places of either order, find a label at once.\<close>

definition roomy :: "nat \<Rightarrow> omrd \<Rightarrow> ltree \<Rightarrow> bool" where
  "roomy k d t \<longleftrightarrow> (\<forall>(q, b, ys)\<in>set (flat t). gaps_ge (2 ^ k) (labels (m_heap d) ys))"

definition room_for :: "nat \<Rightarrow> nat \<Rightarrow> omrd_globals \<Rightarrow> nat \<Rightarrow> bool" where
  "room_for p w g k \<longleftrightarrow> (\<exists>t. idle_ok p w g t \<and> (\<forall>e. roomy k (omrd_of e g) (t e)))"

lemma roomy_less: "roomy k d t \<Longrightarrow> j \<le> k \<Longrightarrow> roomy j d t"
  unfolding roomy_def using gaps_ge_mono by (fastforce intro: power_increasing)

lemma room_for_less: "room_for p w g k \<Longrightarrow> j \<le> k \<Longrightarrow> room_for p w g j"
  unfolding room_for_def using roomy_less by blast

lemma room_insert:
  assumes room: "room_for p w g (Suc k)" and base: "base \<in> set (order_nodes (omrd_of e g))"
  shows "\<exists>n g'. omrd_insert M p w e base g = Some (n, g') \<and> n \<notin> set (order_nodes (omrd_of e g)) \<and>
    order_nodes (omrd_of e g') = insert_after base n (order_nodes (omrd_of e g)) \<and>
    order_nodes (omrd_of (\<not> e) g') = order_nodes (omrd_of (\<not> e) g) \<and> room_for p w g' k"
proof -
  obtain t where t: "idle_ok p w g t" "\<And>e. roomy (Suc k) (omrd_of e g) (t e)" using room by (auto simp: room_for_def)
  let ?d = "omrd_of e g" and ?n = "fresh (m_heap (omrd_of e g))"
  have ord: "order_nodes (omrd_of e g) = om_order (t e)" for e using t(1) order_nodes_eq by (simp add: idle_ok_def)
  have inv: "om_inv (m_heap ?d) (m_ds ?d) (t e)" using t(1) by (simp add: idle_ok_def omrd_ok_def)
  obtain q b ys where ys: "(q, b, ys) \<in> set (flat (t e))" "base \<in> set ys" using base unfolding ord om_order_mem by blast
  obtain us vs where s: "ys = us @ base # vs" "base \<notin> set us" using split_at [OF ys(2)] by blast
  note leaf = ys(1) [unfolded s(1)]
  have "gaps_ge (2 ^ Suc k) (labels (m_heap ?d) (us @ base # vs))" using t(2) [of e] leaf by (auto simp: roomy_def)
  from label_after_gap [OF inv_leaf(2) [OF inv leaf] this [unfolded labels_def], folded labels_def]
  have gap: "label_after (m_heap ?d) base vs \<noteq> 0" "gaps_ge (2 ^ k) (labels (m_heap ?d) us @ unat (bn_lab (m_heap ?d) base) #
      unat (label_after (m_heap ?d) base vs) # labels (m_heap ?d) vs)" by (simp_all add: self_le_power)
  from omrd_insert_fast [OF t(1) leaf s(2) gap(1), of M] obtain g' where g': "omrd_insert M p w e base g = Some (?n, g')"
      "idle_ok p w g' (t(e := ins_tree base ?n (t e)))" "?n \<notin> set (om_order (t e))"
      "om_order (ins_tree base ?n (t e)) = insert_after base ?n (om_order (t e))" "omrd_of (\<not> e) g' = omrd_of (\<not> e) g"
      "bnodes (m_heap (omrd_of e g')) = bnodes (inserted (m_heap ?d) b base (label_after (m_heap ?d) base vs) vs)" by blast
  let ?t = "t(e := ins_tree base ?n (t e))" and ?h = "inserted (m_heap ?d) b base (label_after (m_heap ?d) base vs) vs"
  have ord': "order_nodes (omrd_of e' g') = om_order (?t e')" for e' using g'(2) order_nodes_eq by (simp only: idle_ok_def)
  have lab: "labels (m_heap (omrd_of e g')) zs = labels ?h zs" for zs by (simp add: labels_def bn_lab_def g'(6))
  have nd: "\<not> dirty (t e)" using inv by (simp add: om_inv_def)
  have "roomy k (omrd_of e g') (ins_tree base ?n (t e))"
    unfolding roomy_def lab
  proof (intro ballI, clarify)
    fix q' b' zs assume "(q', b', zs) \<in> set (flat (ins_tree base ?n (t e)))"
    then obtain ws where ws: "(q', b', ws) \<in> set (flat (t e))" "zs = insert_after base ?n ws" unfolding flat_ins_tree [OF nd] by auto
    show "gaps_ge (2 ^ k) (labels ?h zs)"
    proof (cases "base \<in> set ws")
      case True
      then have "ws = us @ base # vs" using leaf_of_only [OF inv leaf _ ws(1) True] by simp
      then show ?thesis using gap(2) ws(2) insert_after_split [OF s(2)] by (simp add: labels_inserted(2) [OF inv leaf leaf])
    next
      case False
      then show ?thesis using t(2) [of e] ws roomy_less [of "Suc k" ?d "t e" k] by (auto simp: labels_inserted(1) [OF inv leaf ws(1)] roomy_def)
    qed
  qed
  then have "roomy k (omrd_of e' g') (?t e')" for e'
    using roomy_less [OF t(2) [of "\<not> e"], of k] g'(5) by (cases "e' = e"; cases "e' = (\<not> e)") auto
  then have "room_for p w g' k" using g'(2) unfolding room_for_def by blast
  then show ?thesis using g' ord ord' by (intro exI [of _ ?n] exI [of _ g']) simp
qed

section \<open>Any number of insertions\<close>

text \<open>
  \<open>fits_for M p w k g\<close>: through the next \<open>k\<close> insertions, at whatever places of either order, a base whose list is
  full is met only when the counts of the tree fit, so that the batch can relabel.
\<close>

definition has_label :: "nat \<Rightarrow> bool \<Rightarrow> node_ptr \<Rightarrow> omrd_globals \<Rightarrow> bool" where
  "has_label w e base g \<longleftrightarrow> (\<exists>n d. try_insert w (Some base) g (omrd_of e g) = Some (Some n, d))"

primrec fits_for :: "machine \<Rightarrow> nat \<Rightarrow> nat \<Rightarrow> nat \<Rightarrow> omrd_globals \<Rightarrow> bool" where
  "fits_for M p w 0 g = (\<exists>t. idle_ok p w g t)"
| "fits_for M p w (Suc k) g = (\<exists>t. idle_ok p w g t \<and> (\<forall>e. \<forall>base\<in>set (om_order (t e)).
     (has_label w e base g \<or> can_relabel M (leaf_of base (t e)) (omrd_of e g) (t e) \<and> can_relabel M {} (omrd_of (\<not> e) g) (t (\<not> e))) \<and>
     (\<forall>n g'. omrd_insert M p w e base g = Some (n, g') \<longrightarrow> fits_for M p w k g')))"

lemma fits_idle: "fits_for M p w k g \<Longrightarrow> \<exists>t. idle_ok p w g t"
  by (cases k) auto

lemma fits_less: "fits_for M p w k g \<Longrightarrow> j \<le> k \<Longrightarrow> fits_for M p w j g"
proof (induction j arbitrary: k g)
  case 0
  then show ?case using fits_idle by simp
next
  case (Suc j)
  then obtain k' where k: "k = Suc k'" "j \<le> k'" by (cases k) auto
  obtain t where t: "idle_ok p w g t" and all: "\<And>e base. base \<in> set (om_order (t e)) \<Longrightarrow>
      (has_label w e base g \<or> can_relabel M (leaf_of base (t e)) (omrd_of e g) (t e) \<and> can_relabel M {} (omrd_of (\<not> e) g) (t (\<not> e))) \<and>
      (\<forall>n g'. omrd_insert M p w e base g = Some (n, g') \<longrightarrow> fits_for M p w k' g')"
    using Suc.prems(1) unfolding k(1) fits_for.simps by blast
  show ?case unfolding fits_for.simps
    by (intro exI [of _ t] conjI t allI ballI) (use all Suc.IH [OF _ k(2)] in blast)+
qed

lemma order_of_side: "idle_ok p w g t \<Longrightarrow> order_nodes (omrd_of e g) = om_order (t e)"
  by (intro order_nodes_eq) (simp add: idle_ok_def)

lemma fits_insert:
  assumes fits: "fits_for M p w (Suc k) g" and base: "base \<in> set (order_nodes (omrd_of e g))"
  shows "\<exists>n g'. omrd_insert M p w e base g = Some (n, g') \<and> n \<notin> set (order_nodes (omrd_of e g)) \<and>
    order_nodes (omrd_of e g') = insert_after base n (order_nodes (omrd_of e g)) \<and>
    order_nodes (omrd_of (\<not> e) g') = order_nodes (omrd_of (\<not> e) g) \<and> fits_for M p w k g'"
proof -
  obtain t where t: "idle_ok p w g t" and all: "\<And>e base. base \<in> set (om_order (t e)) \<Longrightarrow>
      (has_label w e base g \<or> can_relabel M (leaf_of base (t e)) (omrd_of e g) (t e) \<and> can_relabel M {} (omrd_of (\<not> e) g) (t (\<not> e))) \<and>
      (\<forall>n g'. omrd_insert M p w e base g = Some (n, g') \<longrightarrow> fits_for M p w k g')"
    using fits unfolding fits_for.simps by blast
  have b: "base \<in> set (om_order (t e))" using base by (simp add: order_of_side [OF t])
  obtain q l ys where ys: "(q, l, ys) \<in> set (flat (t e))" "base \<in> set ys" using b unfolding om_order_mem by blast
  obtain us vs where s: "ys = us @ base # vs" "base \<notin> set us" using split_at [OF ys(2)] by blast
  note leaf = ys(1) [unfolded s(1)]
  have od: "omrd_ok (omrd_of e g) (t e)" and bt: "\<not> g_batch_in_progress g" using t by (simp_all add: idle_ok_def idle_def)
  have "\<exists>n g' t'. omrd_insert M p w e base g = Some (n, g') \<and> idle_ok p w g' t' \<and> n \<notin> set (om_order (t e)) \<and>
    om_order (t' e) = insert_after base n (om_order (t e)) \<and> om_order (t' (\<not> e)) = om_order (t (\<not> e))"
  proof (cases "label_after (m_heap (omrd_of e g)) base vs = 0")
    case True
    then have "\<not> has_label w e base g" using try_insert_run(1) [OF od leaf bt True, of w] by (simp add: has_label_def)
    then show ?thesis using all [OF b] by (intro omrd_insert_spec [OF t b]) blast+
  next
    case False
    from omrd_insert_fast [OF t leaf s(2) False, of M] show ?thesis
      by (elim exE) (rule exI, rule exI, rule exI [of _ "t(e := ins_tree base (fresh (m_heap (omrd_of e g))) (t e))"], auto)
  qed
  then obtain n g' t' where n: "omrd_insert M p w e base g = Some (n, g')" "idle_ok p w g' t'" "n \<notin> set (om_order (t e))"
    "om_order (t' e) = insert_after base n (om_order (t e))" "om_order (t' (\<not> e)) = om_order (t (\<not> e))" by blast
  then show ?thesis using all [OF b] unfolding order_of_side [OF t]
    by (intro exI [of _ n] exI [of _ g']) (simp add: order_of_side [OF n(2)])
qed

lemma room_fits: "room_for p w g k \<Longrightarrow> fits_for M p w k g"
proof (induction k arbitrary: g)
  case 0
  then show ?case by (auto simp: room_for_def)
next
  case (Suc k)
  obtain t where t: "idle_ok p w g t" "\<And>e. roomy (Suc k) (omrd_of e g) (t e)" using Suc.prems by (auto simp: room_for_def)
  have "has_label w e base g \<and> (\<forall>n g'. omrd_insert M p w e base g = Some (n, g') \<longrightarrow> fits_for M p w k g')"
    if b: "base \<in> set (om_order (t e))" for e base
  proof
    have od: "omrd_ok (omrd_of e g) (t e)" and bt: "\<not> g_batch_in_progress g" using t(1) by (simp_all add: idle_ok_def idle_def)
    have inv: "om_inv (m_heap (omrd_of e g)) (m_ds (omrd_of e g)) (t e)" using od by (simp add: omrd_ok_def)
    obtain q l ys where ys: "(q, l, ys) \<in> set (flat (t e))" "base \<in> set ys" using b unfolding om_order_mem by blast
    obtain us vs where s: "ys = us @ base # vs" using split_at [OF ys(2)] by blast
    note leaf = ys(1) [unfolded s]
    have "gaps_ge (2 ^ Suc k) (labels (m_heap (omrd_of e g)) (us @ base # vs))" using t(2) [of e] leaf by (auto simp: roomy_def)
    from label_after_gap(1) [OF inv_leaf(2) [OF inv leaf] this [unfolded labels_def]]
    have "label_after (m_heap (omrd_of e g)) base vs \<noteq> 0" by (simp add: self_le_power)
    from try_insert_run(2) [OF od leaf bt this, of w] show "has_label w e base g" by (auto simp: has_label_def)
    have "base \<in> set (order_nodes (omrd_of e g))" using b by (simp add: order_of_side [OF t(1)])
    from room_insert [OF Suc.prems this, of M] Suc.IH
    show "\<forall>n g'. omrd_insert M p w e base g = Some (n, g') \<longrightarrow> fits_for M p w k g'" by auto
  qed
  then show ?case unfolding fits_for.simps using t(1) by blast
qed

end
