(* ===== verification/Detector_Exact.thy ===== *)
theory Detector_Exact
  imports Detector_Run Om_Detector
begin

text \<open>
  What the detector reports. The law of \<^verbatim>\<open>Detector_Run\<close> holds for every structure that keeps the two orders of strands;
  here it is applied to the order-maintenance structures of \<^verbatim>\<open>Om_Detector\<close>, which the detector uses.
\<close>

section \<open>Two programs\<close>

definition ex_step :: "nat \<Rightarrow> bool \<Rightarrow> addr_t \<Rightarrow> mem_step" where
  "ex_step i rd a = \<lparr>step_id = i, step_read = rd, step_addr = a, step_size = 8\<rparr>"

definition blank_frame :: "'n frame_data" where
  "blank_frame = \<lparr>current_english = None, current_hebrew = None, cont_english = None, cont_hebrew = None, sync_english = None,
     sync_hebrew = None, steal_cont_english = None, steal_cont_hebrew = None, steal_sync_english = None, steal_sync_hebrew = None,
     steal_current_list = None, current_list = None, sync_list = None, ori_list = None, flags = 0, f_dag = None, f_future_id = 0\<rparr>"

text \<open>A child writes what its parent reads before the sync; after the sync nothing is parallel.\<close>

definition ex_race :: "mem_step body" where
  "ex_race = [[Spawn [[Mark (ex_step 0 False 64)]], Mark (ex_step 1 True 64)]]"

definition ex_sync :: "mem_step body" where
  "ex_sync = [[Spawn [[Mark (ex_step 0 False 64)]]], [Mark (ex_step 1 True 64)]]"

lemma ex_marks: "body_marks ex_race = [ex_step 0 False 64, ex_step 1 True 64]" "body_marks ex_sync = [ex_step 0 False 64, ex_step 1 True 64]"
  by (simp_all add: ex_race_def ex_sync_def)

lemma ex_steps: "ex_step 0 False 64 \<noteq> ex_step 1 True 64" "aligned_step (ex_step 0 False 64)" "aligned_step (ex_step 1 True 64)"
  by (simp_all add: ex_step_def aligned_step_def)

lemma ex_has_race: "has_race ex_race" "\<not> has_race ex_sync" "\<not> self_conflict ex_sync"
proof -
  show "has_race ex_race" unfolding has_race_def
    by (intro exI [of _ 1] exI [of _ 0] conjI) (simp_all add: ex_marks, simp_all add: ex_race_def ex_step_def conflict_def)
  have p: "(ex_step 0 False 64, ex_step 1 True 64) \<notin> body_par ex_sync" by (simp add: ex_sync_def ex_step_def)
  then show "\<not> has_race ex_sync" unfolding has_race_def by (auto simp: ex_marks less_Suc_eq)
  have "strands_of ex_sync ! 0 \<noteq> strands_of ex_sync ! 1" by (simp add: ex_sync_def ex_step_def strands_of_def)
  then show "\<not> self_conflict ex_sync" unfolding self_conflict_def by (auto simp: ex_marks less_Suc_eq)
qed

section \<open>Orders in the structures of the detector\<close>

text \<open>
  The orders of \<^verbatim>\<open>omrd.cpp\<close>. A node carries the structure it is in (true for the English one); comparisons of nodes
  of different structures are never asked for.
\<close>

definition om_tool :: "machine \<Rightarrow> nat \<Rightarrow> nat \<Rightarrow> omrd_globals \<Rightarrow> (bool \<times> node_ptr) frame_data \<Rightarrow> (bool \<times> node_ptr, omrd_globals) tool" where
  "om_tool M p w g0 f = \<lparr>
     insert_english = (\<lambda>c g. if fst c then do { (n, g) \<leftarrow> omrd_insert M p w True (snd c) g; Some ((True, n), g) } else None),
     insert_hebrew = (\<lambda>c g. if fst c then None else do { (n, g) \<leftarrow> omrd_insert M p w False (snd c) g; Some ((False, n), g) }),
     precedes = (\<lambda>g a b. case (a, b) of
         (None, _) \<Rightarrow> True
       | (Some _, None) \<Rightarrow> False
       | (Some a, Some b) \<Rightarrow> fst a = fst b \<and> om_precedes (m_heap (omrd_of (fst a) g)) (Some (snd a)) (Some (snd b)) = Some True),
     base_english = (True, m_base (g_english g0)), base_hebrew = (False, m_base (g_hebrew g0)), uninit = f, shred = f\<rparr>"

text \<open>The globals when the tool starts: two new structures.\<close>

definition empty_heap :: om_heap where
  "empty_heap = \<lparr>bnodes = (\<lambda>_. None), blists = (\<lambda>_. None), tlnodes = (\<lambda>_. None), fresh = 0\<rparr>"

definition omrd_start :: "omrd_globals proc" where
  "omrd_start = (let d = \<lparr>m_heavy_nodes = [], m_ds = \<lparr>om_root = 0, om_head = 0, om_tail = 0, om_height = 0\<rparr>, m_base = 0, m_heap = empty_heap\<rparr>;
     g = \<lparr>g_heavy_threshold = DEFAULT_HEAVY_THRESHOLD, g_batch_in_progress = False, g_relabel_id = 0, g_batch_owner_id = -1,
       insert_failed = (\<lambda>_. False), g_worker_mutexes = (\<lambda>_. False), g_relabel_mutex = False, g_english = d, g_hebrew = d\<rparr> in do {
     e \<leftarrow> omrd_new g empty_heap;
     h \<leftarrow> omrd_new g empty_heap;
     Some (g\<lparr>g_english := e, g_hebrew := h\<rparr>) })"

definition side :: "bool \<Rightarrow> omrd_globals \<Rightarrow> (bool \<times> node_ptr) list" where
  "side e g = map (Pair e) (order_nodes (omrd_of e g))"

lemma map_insert_after: "map (Pair e) (insert_after c n xs) = insert_after (e, c) (e, n) (map (Pair e) xs)"
  by (induction xs) auto

lemma bef_nth: "distinct xs \<Longrightarrow> i < length xs \<Longrightarrow> j < length xs \<Longrightarrow> bef xs (xs ! i) (xs ! j) \<longleftrightarrow> i < j"
proof (induction xs arbitrary: i j)
  case (Cons x xs)
  have "\<not> bef xs a x" for a using bef_mem [of xs a x] Cons.prems(1) by auto
  then show ?case using Cons by (cases i; cases j) auto
qed simp

lemma bef_map: "inj f \<Longrightarrow> bef (map f xs) (f a) (f b) = bef xs a b"
  by (induction xs) (auto simp: inj_eq inj_image_mem_iff)

lemma om_side_insert:
  assumes room: "fits_for M p w (Suc k) g" and c: "c \<in> set (side e g)"
  shows "\<exists>n g'. fst c = e \<and> omrd_insert M p w e (snd c) g = Some (n, g') \<and> (e, n) \<notin> set (side e g) \<and>
    side e g' = insert_after c (e, n) (side e g) \<and> side (\<not> e) g' = side (\<not> e) g \<and> fits_for M p w k g'"
proof -
  obtain x where x: "c = (e, x)" "x \<in> set (order_nodes (omrd_of e g))" using c by (auto simp: side_def)
  from fits_insert [OF room x(2)] show ?thesis by (auto simp: side_def x(1) map_insert_after)
qed

lemma om_side_order:
  assumes room: "fits_for M p w k g" and a: "a \<in> set (side e g)" and b: "b \<in> set (side e g)"
  shows "precedes (om_tool M p' w' g0 f) g (Some a) (Some b) = bef (side e g) a b" "distinct (side e g)"
proof -
  obtain t where t: "idle_ok p w g t" using fits_idle [OF room] by blast
  let ?d = "omrd_of e g"
  have inv: "om_inv (m_heap ?d) (m_ds ?d) (t e)" and ord: "order_nodes ?d = om_order (t e)"
    using t order_nodes_eq by (simp_all add: idle_ok_def omrd_ok_def)
  have d: "distinct (om_order (t e))" using inv by (simp add: om_inv_def tree_ok_def)
  obtain i j where ij: "i < length (om_order (t e))" "a = (e, om_order (t e) ! i)" "j < length (om_order (t e))" "b = (e, om_order (t e) ! j)"
    using a b unfolding side_def ord by (auto simp: in_set_conv_nth)
  have "om_precedes (m_heap ?d) (Some (om_order (t e) ! i)) (Some (om_order (t e) ! j)) = Some (i < j)"
    using om_precedes_order [OF inv ij(1,3)] by (simp add: om_precedes_def)
  moreover have "bef (side e g) a b \<longleftrightarrow> i < j"
    using bef_nth [OF d ij(1,3)] by (simp add: side_def ord ij(2,4) bef_map inj_def)
  ultimately show "precedes (om_tool M p' w' g0 f) g (Some a) (Some b) = bef (side e g) a b" by (simp add: om_tool_def ij(2,4))
  show "distinct (side e g)" using d by (simp add: side_def ord distinct_map inj_on_def)
qed

interpretation om_orders: strand_orders "om_tool M p w g0 f" "side True" "side False" "\<lambda>g k. fits_for M p w k g" for M p w g0 f
proof
  fix g k c assume "fits_for M p w (Suc k) g" "c \<in> set (side True g)"
  from om_side_insert [OF this] show "\<exists>n g'. insert_english (om_tool M p w g0 f) c g = Some (n, g') \<and> n \<notin> set (side True g) \<and>
      side True g' = insert_after c n (side True g) \<and> side False g' = side False g \<and> fits_for M p w k g'"
    by (auto simp: om_tool_def)
next
  fix g k c assume "fits_for M p w (Suc k) g" "c \<in> set (side False g)"
  from om_side_insert [OF this] show "\<exists>n g'. insert_hebrew (om_tool M p w g0 f) c g = Some (n, g') \<and> n \<notin> set (side False g) \<and>
      side False g' = insert_after c n (side False g) \<and> side True g' = side True g \<and> fits_for M p w k g'"
    by (auto simp: om_tool_def)
next
  fix g k assume "fits_for M p w k g"
  from fits_idle [OF this] obtain t where t: "\<And>e. omrd_ok (omrd_of e g) (t e)" unfolding idle_ok_def by blast
  then have "distinct (order_nodes (omrd_of e g))" for e
    using order_nodes_eq [OF t, of e] t [of e] by (simp add: omrd_ok_def om_inv_def tree_ok_def)
  then show "distinct (side True g) \<and> distinct (side False g)" by (simp add: side_def distinct_map inj_on_def)
next
  fix g j k assume "fits_for M p w k g" "j \<le> k"
  then show "fits_for M p w j g" by (rule fits_less)
next
  fix g k a b assume "fits_for M p w k g" "a \<in> set (side True g)" "b \<in> set (side True g)"
  then show "precedes (om_tool M p w g0 f) g (Some a) (Some b) = bef (side True g) a b" by (rule om_side_order(1))
next
  fix g k a b assume "fits_for M p w k g" "a \<in> set (side False g)" "b \<in> set (side False g)"
  then show "precedes (om_tool M p w g0 f) g (Some a) (Some b) = bef (side False g) a b" by (rule om_side_order(1))
qed

lemma omrd_start_spec:
  assumes "w < p"
  shows "\<exists>g. omrd_start = Some g \<and> room_for p w g 64 \<and> side True g = [(True, m_base (g_english g))] \<and> side False g = [(False, m_base (g_hebrew g))]"
proof -
  let ?d = "\<lparr>m_heavy_nodes = [], m_ds = \<lparr>om_root = 0, om_head = 0, om_tail = 0, om_height = 0\<rparr>, m_base = 0, m_heap = empty_heap\<rparr>"
  let ?g = "\<lparr>g_heavy_threshold = DEFAULT_HEAVY_THRESHOLD, g_batch_in_progress = False, g_relabel_id = 0, g_batch_owner_id = -1,
       insert_failed = (\<lambda>_. False), g_worker_mutexes = (\<lambda>_. False), g_relabel_mutex = False, g_english = ?d, g_hebrew = ?d\<rparr>"
  have "heap_ok empty_heap" by (simp add: heap_ok_def empty_heap_def)
  from omrd_new_spec [OF this, of ?g] obtain d q b where d: "omrd_new ?g empty_heap = Some d" "omrd_ok d (Leaf q b [m_base d])"
    "gaps_ge (2 ^ 64) (labels (m_heap d) [m_base d])" by auto
  let ?h = "?g\<lparr>g_english := d, g_hebrew := d\<rparr>"
  have od: "omrd_of e ?h = d" for e by (simp add: omrd_of_def)
  have "idle p w ?h" using assms by (simp add: idle_def)
  then have "idle_ok p w ?h (\<lambda>_. Leaf q b [m_base d])" using d(2) by (simp only: idle_ok_def od simp_thms)
  moreover have "roomy 64 (omrd_of e ?h) (Leaf q b [m_base d])" for e unfolding od using d(3) by (simp add: roomy_def)
  ultimately have "room_for p w ?h 64" unfolding room_for_def by blast
  moreover have "order_nodes d = [m_base d]" using order_nodes_eq [OF d(2)] by (simp add: om_order_def)
  moreover have "omrd_start = Some ?h" by (simp add: omrd_start_def Let_def d(1))
  ultimately show ?thesis by (intro exI [of _ ?h]) (simp only: side_def od, simp)
qed

lemma detector_exact_spec:
  assumes "w < p" "distinct (body_marks b)" "\<forall>s\<in>set (body_marks b). aligned_step s" "omrd_start = Some g" "fits_for M p w (body_need b) g"
  shows "\<exists>n. detect (om_tool M p w g f) p g w b = Some n \<and> (0 < n \<longleftrightarrow> has_race b \<or> self_conflict b)"
proof -
  have "side True g = [(True, m_base (g_english g))]" "side False g = [(False, m_base (g_hebrew g))]"
    using omrd_start_spec [OF assms(1)] unfolding assms(4) option.inject by blast+
  then show ?thesis using assms(5)
    by (intro om_orders.detector_law [OF assms(1) _ _ _ assms(2,3)]) (simp_all add: om_tool_def)
qed

text \<open>
  C1. What the whole detector reports: the handlers of strands, the shadow memory and the two order-maintenance structures
  together, run by one worker from the start of the tool on any fork-join program of spawns, syncs, calls and naturally
  aligned accesses of four, eight or sixteen bytes. When the counts of the trees fit whenever a batch has to relabel, the run comes
  to its end without a failed assertion, through all relabellings. It reports at least one race if and only if two conflicting
  accesses are logically parallel or one strand both reads and writes some byte. So no race is missed, and a report is
  right unless it is due to a strand that conflicts with itself, the false alarm of \<^verbatim>\<open>check_mem.cpp\<close>. Accesses of one and two
  bytes are outside the theorem: the code does not check them.
\<close>

theorem detector_exact_relabelling:
  assumes "w < p" "distinct (body_marks b)" "\<forall>s\<in>set (body_marks b). aligned_step s" "omrd_start = Some g" "fits_for M p w (body_need b) g"
  shows "\<exists>n. detect (om_tool M p w g f) p g w b = Some n \<and> (0 < n \<longleftrightarrow> has_race b \<or> self_conflict b)"
  by (rule detector_exact_spec [OF assms])

theorem detector_exact_relabelling_witness:
  "\<exists>g n. omrd_start = Some g \<and> fits_for ex_machine 2 1 64 g \<and> detect (om_tool ex_machine 2 1 g blank_frame) 2 g 1 ex_race = Some n \<and> 0 < n"
proof -
  obtain g where g: "omrd_start = Some g" "room_for 2 1 g 64" using omrd_start_spec [of 1 2] by auto
  have fits: "fits_for ex_machine 2 1 64 g" by (rule room_fits [OF g(2)])
  moreover have "fits_for ex_machine 2 1 (body_need ex_race) g" by (rule fits_less [OF fits]) (simp add: ex_race_def)
  ultimately show ?thesis
    using detector_exact_relabelling [of 1 2 ex_race g ex_machine blank_frame] g(1) ex_has_race ex_steps by (auto simp: ex_marks)
qed

text \<open>
  C3. Without relabelling there is nothing to assume of the counts. A fork-join program of naturally aligned accesses of four,
  eight or sixteen bytes that needs at most 64 insertions into the orders is run to its end without a failed assertion by one
  worker, from the start of the tool, and a race is reported if and only if two conflicting accesses are logically parallel or
  one strand both reads and writes some byte (the false alarm of \<^verbatim>\<open>check_mem.cpp\<close>): a new structure takes 64 insertions at
  any places.
\<close>

theorem detector_exact:
  assumes "w < p" "distinct (body_marks b)" "\<forall>s\<in>set (body_marks b). aligned_step s" "body_need b \<le> 64"
  shows "\<exists>g n. omrd_start = Some g \<and> detect (om_tool M p w g f) p g w b = Some n \<and> (0 < n \<longleftrightarrow> has_race b \<or> self_conflict b)"
proof -
  obtain g where g: "omrd_start = Some g" "room_for p w g 64" using omrd_start_spec [OF assms(1)] by blast
  have "fits_for M p w (body_need b) g" by (rule fits_less [OF room_fits [OF g(2)] assms(4)])
  then show ?thesis using detector_exact_spec [OF assms(1-3) g(1)] g(1) by blast
qed

theorem detector_exact_witness:
  "(\<exists>g n. omrd_start = Some g \<and> detect (om_tool ex_machine 2 1 g blank_frame) 2 g 1 ex_race = Some n \<and> 0 < n) \<and>
   (\<exists>g. omrd_start = Some g \<and> detect (om_tool ex_machine 2 1 g blank_frame) 2 g 1 ex_sync = Some 0)"
proof -
  have "body_need ex_race \<le> 64" "body_need ex_sync \<le> 64" by (simp_all add: ex_race_def ex_sync_def)
  then show ?thesis
    using detector_exact [of 1 2 ex_race ex_machine blank_frame] detector_exact [of 1 2 ex_sync ex_machine blank_frame] ex_has_race ex_steps
    by (auto simp: ex_marks)
qed

end
