(* ===== verification/Frame_Malloc.thy ===== *)
theory Frame_Malloc
  imports Prelude "HOL-Library.Multiset"
begin

text \<open>
  The frame allocator, \<^verbatim>\<open>cilkrtssuspend/runtime/frame_malloc.c\<close>: per-worker free lists in six
  buckets of fixed sizes over a global pool that grows by chunks from the operating system. A
  free list is modelled as the list of the addresses it links; an address is a natural number
  and \<^verbatim>\<open>__cilkrts_malloc\<close> returns the next unused address \<open>fm_brk\<close>. The global operations run
  under \<^verbatim>\<open>frame_malloc.lock\<close> and the local ones only by the owner, so each is one step.
\<close>

definition FRAME_MALLOC_NBUCKETS :: nat where "FRAME_MALLOC_NBUCKETS = 6"

definition bucket_sizes :: "nat list" where
  "bucket_sizes = [64, 128, 256, 512, 1024, 2048]"

definition bucket_to_size :: "nat \<Rightarrow> nat" where
  "bucket_to_size b = bucket_sizes ! b"

definition FRAME_MALLOC_MAX_SIZE :: nat where "FRAME_MALLOC_MAX_SIZE = 2048"
definition FRAME_MALLOC_CHUNK :: nat where "FRAME_MALLOC_CHUNK = 32 * 1024 - 128"

text \<open>\<^verbatim>\<open>struct __cilkrts_frame_cache\<close> and the allocator's fields of \<^verbatim>\<open>struct local_state\<close>.\<close>

record frame_cache =
  fc_pool_list :: "nat list"
  fc_pool_begin :: nat
  fc_pool_end :: nat
  fc_global_free_list :: "nat \<Rightarrow> nat list"
  fc_batch_size :: nat
  fc_potential_limit :: nat
  fc_check_for_leaks :: bool
  fc_allocated_from_os :: nat
  fc_wasted :: nat
  fc_allocated_from_global_pool :: int

record local_cache =
  lc_free_list :: "nat \<Rightarrow> nat list"
  lc_bucket_potential :: "nat \<Rightarrow> nat"

record fm_state =
  fm_global :: frame_cache
  fm_local :: "nat \<Rightarrow> local_cache"
  fm_brk :: nat

section \<open>The global pool\<close>

definition os_malloc :: "nat \<Rightarrow> fm_state \<Rightarrow> nat \<times> fm_state" where
  "os_malloc n s = (fm_brk s, s\<lparr>fm_brk := fm_brk s + n\<rparr>)"

definition extend_global_pool :: "fm_state \<Rightarrow> fm_state" where
  "extend_global_pool s = (let (p, s) = os_malloc FRAME_MALLOC_CHUNK s; g = fm_global s in
     s\<lparr>fm_global := g\<lparr>fc_pool_begin := p, fc_pool_end := p + FRAME_MALLOC_CHUNK,
        fc_allocated_from_os := fc_allocated_from_os g + FRAME_MALLOC_CHUNK,
        fc_pool_list := p # fc_pool_list g\<rparr>\<rparr>)"

definition push_global :: "nat \<Rightarrow> nat \<Rightarrow> frame_cache \<Rightarrow> frame_cache" where
  "push_global b p g = g\<lparr>fc_global_free_list := (fc_global_free_list g)(b := p # fc_global_free_list g b)\<rparr>"

definition global_alloc :: "nat \<Rightarrow> fm_state \<Rightarrow> (nat \<times> fm_state) proc" where
  "global_alloc b s = do {
     assert_c (b < FRAME_MALLOC_NBUCKETS);
     let sz = bucket_to_size b;
     let g = fm_global s;
     let g = g\<lparr>fc_allocated_from_global_pool := fc_allocated_from_global_pool g + int sz\<rparr>;
     (case fc_global_free_list g b of
        p # ps \<Rightarrow> Some (p, s\<lparr>fm_global := g\<lparr>fc_global_free_list := (fc_global_free_list g)(b := ps)\<rparr>\<rparr>)
      | [] \<Rightarrow> do {
          assert_c (fc_pool_begin g \<le> fc_pool_end g);
          let s = (if fc_pool_begin g + sz > fc_pool_end g
                   then extend_global_pool (s\<lparr>fm_global := g\<lparr>fc_wasted := fc_wasted g +
                          (fc_pool_end g - fc_pool_begin g)\<rparr>\<rparr>)
                   else s\<lparr>fm_global := g\<rparr>);
          let g = fm_global s;
          Some (fc_pool_begin g, s\<lparr>fm_global := g\<lparr>fc_pool_begin := fc_pool_begin g + sz\<rparr>\<rparr>) }) }"

definition global_free :: "nat \<Rightarrow> nat \<Rightarrow> fm_state \<Rightarrow> fm_state proc" where
  "global_free p b s = do {
     assert_c (b < FRAME_MALLOC_NBUCKETS);
     let g = fm_global s;
     let g = g\<lparr>fc_allocated_from_global_pool := fc_allocated_from_global_pool g - int (bucket_to_size b)\<rparr>;
     Some (s\<lparr>fm_global := push_global b p g\<rparr>) }"

definition frame_malloc_global_init :: "fm_state \<Rightarrow> fm_state" where
  "frame_malloc_global_init s = s\<lparr>fm_global :=
     \<lparr>fc_pool_list = [], fc_pool_begin = 0, fc_pool_end = 0, fc_global_free_list = (\<lambda>_. []),
      fc_batch_size = 8000, fc_potential_limit = 4 * 8000, fc_check_for_leaks = True,
      fc_allocated_from_os = 0, fc_wasted = 0, fc_allocated_from_global_pool = 0\<rparr>\<rparr>"

definition count_memory_in_global_list :: "frame_cache \<Rightarrow> nat" where
  "count_memory_in_global_list g =
     sum_list (map (\<lambda>i. sum_list (map (\<lambda>p. bucket_to_size i) (fc_global_free_list g i)))
       [0..<FRAME_MALLOC_NBUCKETS])"

definition frame_malloc_global_cleanup :: "fm_state \<Rightarrow> fm_state proc" where
  "frame_malloc_global_cleanup s = (let g = fm_global s in do {
     assert_c (\<not> (fc_check_for_leaks g \<and> count_memory_in_global_list g > fc_allocated_from_os g));
     let g = g\<lparr>fc_pool_list := []\<rparr>;
     assert_c (\<not> (fc_check_for_leaks g \<and> fc_allocated_from_global_pool g \<noteq> 0));
     Some (s\<lparr>fm_global := g\<rparr>) })"

section \<open>The allocator of a worker\<close>

definition push_local :: "nat \<Rightarrow> nat \<Rightarrow> nat \<Rightarrow> fm_state \<Rightarrow> fm_state" where
  "push_local w b p s = s\<lparr>fm_local := (fm_local s)(w := (fm_local s w)
     \<lparr>lc_free_list := (lc_free_list (fm_local s w))(b := p # lc_free_list (fm_local s w) b)\<rparr>)\<rparr>"

definition set_list :: "nat \<Rightarrow> nat \<Rightarrow> nat list \<Rightarrow> fm_state \<Rightarrow> fm_state" where
  "set_list w b ps s = s\<lparr>fm_local := (fm_local s)(w := (fm_local s w)
     \<lparr>lc_free_list := (lc_free_list (fm_local s w))(b := ps)\<rparr>)\<rparr>"

definition set_potential :: "nat \<Rightarrow> nat \<Rightarrow> nat \<Rightarrow> fm_state \<Rightarrow> fm_state" where
  "set_potential w b n s = s\<lparr>fm_local := (fm_local s)(w := (fm_local s w)
     \<lparr>lc_bucket_potential := (lc_bucket_potential (fm_local s w))(b := n)\<rparr>)\<rparr>"

definition free_list_of :: "fm_state \<Rightarrow> nat \<Rightarrow> nat \<Rightarrow> nat list" where
  "free_list_of s w b = lc_free_list (fm_local s w) b"

definition potential_of :: "fm_state \<Rightarrow> nat \<Rightarrow> nat \<Rightarrow> nat" where
  "potential_of s w b = lc_bucket_potential (fm_local s w) b"

text \<open>
  The do-while loop of \<^verbatim>\<open>allocate_batch\<close>, with the batch size read once; bucket sizes are positive, so
  the second test of the recursion is never what ends it.
\<close>

function allocate_batch_loop :: "nat \<Rightarrow> nat \<Rightarrow> nat \<Rightarrow> nat \<Rightarrow> nat \<Rightarrow> fm_state \<Rightarrow> fm_state proc" where
  "allocate_batch_loop w b sz limit bytes s = (case global_alloc b (set_potential w b (potential_of s w b + sz) s) of
      None \<Rightarrow> None
    | Some (p, s) \<Rightarrow>
        (let s = push_local w b p s; bytes' = bytes + sz in
         if bytes' < limit \<and> 0 < sz then allocate_batch_loop w b sz limit bytes' s else Some s))"
  by pat_completeness auto
termination
  by (relation "measure (\<lambda>(w, b, sz, limit, bytes, s). limit - bytes)") auto

definition allocate_batch :: "nat \<Rightarrow> nat \<Rightarrow> nat \<Rightarrow> fm_state \<Rightarrow> fm_state proc" where
  "allocate_batch w b sz s = allocate_batch_loop w b sz (fc_batch_size (fm_global s)) 0 s"

text \<open>
  \<^verbatim>\<open>gc_bucket\<close>: the loop counts cells while twice their size is below the potential; the cell it
  stops at is kept as well, and everything behind it goes to the global list.
\<close>

fun gc_count :: "nat \<Rightarrow> nat \<Rightarrow> nat list \<Rightarrow> nat \<Rightarrow> nat \<times> nat" where
  "gc_count pot sz [] newpot = (0, newpot)"
| "gc_count pot sz (p # ps) newpot =
     (if 2 * newpot < pot then let (k, np) = gc_count pot sz ps (newpot + sz) in (Suc k, np)
      else (0, newpot))"

fun global_free_all :: "nat list \<Rightarrow> nat \<Rightarrow> fm_state \<Rightarrow> fm_state proc" where
  "global_free_all [] b s = Some s"
| "global_free_all (q # qs) b s = do { s \<leftarrow> global_free q b s; global_free_all qs b s }"

definition gc_bucket :: "nat \<Rightarrow> nat \<Rightarrow> nat \<Rightarrow> fm_state \<Rightarrow> fm_state proc" where
  "gc_bucket w b sz s = (let ps = free_list_of s w b;
      (k, newpot) = gc_count (potential_of s w b) sz ps 0;
      s = set_potential w b newpot s
    in global_free_all (drop (Suc k) ps) b (set_list w b (take (Suc k) ps) s))"

text \<open>
  \<^verbatim>\<open>move_bucket_to_global_free_list\<close> pops from a copy of the list pointer: the worker's own list
  keeps its old head, which is harmless only because the worker is destroyed next.
\<close>

definition move_bucket_to_global_free_list :: "nat \<Rightarrow> nat \<Rightarrow> fm_state \<Rightarrow> fm_state proc" where
  "move_bucket_to_global_free_list w b s = do {
     s \<leftarrow> global_free_all (free_list_of s w b) b s;
     Some (set_potential w b 0 s) }"

fun bucket_of_size_from :: "nat \<Rightarrow> nat list \<Rightarrow> nat \<Rightarrow> nat proc" where
  "bucket_of_size_from i [] n = None"
| "bucket_of_size_from i (sz # szs) n = (if n \<le> sz then Some i else bucket_of_size_from (Suc i) szs n)"

definition bucket_of_size :: "nat \<Rightarrow> nat proc" where
  "bucket_of_size n = bucket_of_size_from 0 bucket_sizes n"

definition frame_malloc_roundup :: "nat \<Rightarrow> nat proc" where
  "frame_malloc_roundup n = (if n > FRAME_MALLOC_MAX_SIZE then Some n
     else do { b \<leftarrow> bucket_of_size n; Some (bucket_to_size b) })"

definition size_of_bucket :: "nat \<Rightarrow> nat proc" where
  "size_of_bucket b = do { assert_c (b < FRAME_MALLOC_NBUCKETS); Some (bucket_to_size b) }"

partial_function (option) frame_malloc_loop :: "nat \<Rightarrow> nat \<Rightarrow> nat \<Rightarrow> fm_state \<Rightarrow> (nat \<times> fm_state) proc" where
  "frame_malloc_loop w b sz s = (case free_list_of s w b of
      p # ps \<Rightarrow> Some (p, set_list w b ps s)
    | [] \<Rightarrow> do { s \<leftarrow> allocate_batch w b sz s; frame_malloc_loop w b sz s })"

definition frame_malloc :: "nat option \<Rightarrow> nat \<Rightarrow> fm_state \<Rightarrow> (nat \<times> fm_state) proc" where
  "frame_malloc w n s = (case w of
      None \<Rightarrow> Some (os_malloc n s)
    | Some w \<Rightarrow> if n > FRAME_MALLOC_MAX_SIZE then Some (os_malloc n s) else do {
        b \<leftarrow> bucket_of_size n;
        frame_malloc_loop w b (bucket_to_size b) s })"

definition frame_free :: "nat option \<Rightarrow> nat \<Rightarrow> nat \<Rightarrow> fm_state \<Rightarrow> fm_state proc" where
  "frame_free w p n s = (case w of
      None \<Rightarrow> Some s
    | Some w \<Rightarrow> if n > FRAME_MALLOC_MAX_SIZE then Some s else do {
        b \<leftarrow> bucket_of_size n;
        let sz = bucket_to_size b;
        let s = set_potential w b (potential_of s w b + sz) s;
        let s = push_local w b p s;
        (if potential_of s w b > fc_potential_limit (fm_global s) then gc_bucket w b sz s else Some s) })"

definition frame_malloc_per_worker_init :: "nat \<Rightarrow> fm_state \<Rightarrow> fm_state" where
  "frame_malloc_per_worker_init w s =
     s\<lparr>fm_local := (fm_local s)(w := \<lparr>lc_free_list = (\<lambda>_. []), lc_bucket_potential = (\<lambda>_. 0)\<rparr>)\<rparr>"

fun cleanup_buckets :: "nat \<Rightarrow> nat list \<Rightarrow> fm_state \<Rightarrow> fm_state proc" where
  "cleanup_buckets w [] s = Some s"
| "cleanup_buckets w (b # bs) s = do { s \<leftarrow> move_bucket_to_global_free_list w b s; cleanup_buckets w bs s }"

definition frame_malloc_per_worker_cleanup :: "nat \<Rightarrow> fm_state \<Rightarrow> fm_state proc" where
  "frame_malloc_per_worker_cleanup w s = cleanup_buckets w [0..<FRAME_MALLOC_NBUCKETS] s"

section \<open>The bytes of the allocator\<close>

definition block :: "nat \<Rightarrow> nat \<Rightarrow> nat multiset" where
  "block p n = mset [p..<p + n]"

definition list_bytes :: "nat \<Rightarrow> nat list \<Rightarrow> nat multiset" where
  "list_bytes b ps = sum_list (map (\<lambda>p. block p (bucket_to_size b)) ps)"

definition worker_bytes :: "fm_state \<Rightarrow> nat \<Rightarrow> nat multiset" where
  "worker_bytes s w = (\<Sum>b<6. list_bytes b (free_list_of s w b))"

definition global_bytes :: "frame_cache \<Rightarrow> nat multiset" where
  "global_bytes g = (\<Sum>b<6. list_bytes b (fc_global_free_list g b)) + mset [fc_pool_begin g..<fc_pool_end g]"

definition workers_bytes :: "nat set \<Rightarrow> fm_state \<Rightarrow> nat multiset" where
  "workers_bytes W s = (\<Sum>w\<in>W. worker_bytes s w)"

definition free_bytes :: "nat set \<Rightarrow> fm_state \<Rightarrow> nat multiset" where
  "free_bytes W s = workers_bytes W s + global_bytes (fm_global s)"

text \<open>
  The invariant for the live workers \<open>W\<close> and the bytes \<open>U\<close> the program holds: no byte occurs
  twice, all bytes lie below the next operating-system address, the counter of the global pool
  equals what workers and program hold, and all bytes come from the operating system.
\<close>

definition acct :: "nat set \<Rightarrow> fm_state \<Rightarrow> int" where
  "acct W s = fc_allocated_from_global_pool (fm_global s) - int (size (workers_bytes W s))"

definition fm_inv :: "nat set \<Rightarrow> fm_state \<Rightarrow> nat multiset \<Rightarrow> bool" where
  "fm_inv W s U \<longleftrightarrow> finite W \<and> (\<forall>x. count (free_bytes W s + U) x \<le> 1) \<and>
     (\<forall>x\<in>#free_bytes W s + U. x < fm_brk s) \<and> acct W s = int (size U) \<and>
     size (free_bytes W s + U) \<le> fc_allocated_from_os (fm_global s) \<and>
     fc_pool_begin (fm_global s) \<le> fc_pool_end (fm_global s)"

text \<open>A step inside the allocator: bytes only move, or come from the operating system.\<close>

definition grow :: "nat set \<Rightarrow> fm_state \<Rightarrow> fm_state \<Rightarrow> bool" where
  "grow W s s' \<longleftrightarrow> fm_brk s \<le> fm_brk s' \<and>
     free_bytes W s' \<subseteq># free_bytes W s + mset [fm_brk s..<fm_brk s'] \<and> acct W s' = acct W s \<and>
     fc_allocated_from_os (fm_global s') = fc_allocated_from_os (fm_global s) + (fm_brk s' - fm_brk s) \<and>
     (fc_pool_begin (fm_global s) \<le> fc_pool_end (fm_global s) \<longrightarrow>
        fc_pool_begin (fm_global s') \<le> fc_pool_end (fm_global s'))"

lemma grow_refl: "grow W s s"
  by (simp add: grow_def)

lemma mset_upt_append: "a \<le> b \<Longrightarrow> b \<le> c \<Longrightarrow> mset [a..<b] + mset [b..<c] = mset [a..<c]"
  using upt_add_eq_append [of a b "c - b"] by (simp only: mset_append le_add_diff_inverse)

lemma grow_trans:
  assumes "grow W s s1" "grow W s1 s2"
  shows "grow W s s2"
proof -
  have "free_bytes W s2 \<subseteq># free_bytes W s1 + mset [fm_brk s1..<fm_brk s2]"
    "free_bytes W s1 \<subseteq># free_bytes W s + mset [fm_brk s..<fm_brk s1]"
    using assms by (simp_all add: grow_def)
  then have "free_bytes W s2 \<subseteq># free_bytes W s + mset [fm_brk s..<fm_brk s1] + mset [fm_brk s1..<fm_brk s2]"
    by (meson mset_subset_eq_mono_add order_trans subset_mset.order_refl subset_mset.order_trans)
  then show ?thesis
    using assms mset_upt_append [of "fm_brk s" "fm_brk s1" "fm_brk s2"]
    by (auto simp: grow_def add.assoc)
qed

lemma fm_inv_sub:
  assumes "fm_inv W s U" "fm_brk s \<le> fm_brk s'"
    "free_bytes W s' + U' \<subseteq># free_bytes W s + U + mset [fm_brk s..<fm_brk s']"
    "acct W s' = int (size U')" "fc_pool_begin (fm_global s') \<le> fc_pool_end (fm_global s')"
    "fc_allocated_from_os (fm_global s') = fc_allocated_from_os (fm_global s) + (fm_brk s' - fm_brk s)"
  shows "fm_inv W s' U'"
proof -
  let ?A = "free_bytes W s + U" and ?N = "mset [fm_brk s..<fm_brk s']"
  have i: "\<forall>x. count ?A x \<le> 1" "\<forall>x\<in>#?A. x < fm_brk s" "finite W"
      "size ?A \<le> fc_allocated_from_os (fm_global s)"
    using assms(1) by (simp_all add: fm_inv_def)
  have c: "count (free_bytes W s' + U') x \<le> count (?A + ?N) x" for x
    using assms(3) by (rule mset_subset_eq_count)
  have "count (?A + ?N) x \<le> 1" for x
  proof (cases "x < fm_brk s")
    case True
    then show ?thesis using i(1) by (simp add: count_mset)
  next
    case False
    then have "count ?A x = 0" using i(2) by (meson count_eq_zero_iff)
    then show ?thesis using distinct_count_atmost_1 [of "[fm_brk s..<fm_brk s']"] by simp
  qed
  then have "\<forall>x. count (free_bytes W s' + U') x \<le> 1" using c order_trans by blast
  moreover have "\<forall>x\<in>#free_bytes W s' + U'. x < fm_brk s'"
  proof
    fix x assume "x \<in># free_bytes W s' + U'"
    then have "x \<in># ?A + ?N" by (rule mset_subset_eqD [OF assms(3)])
    then consider "x \<in># ?A" | "x \<in> {fm_brk s..<fm_brk s'}" by auto
    then show "x < fm_brk s'"
    proof cases
      case 1
      then have "x < fm_brk s" using i(2) by blast
      then show ?thesis using assms(2) by simp
    qed simp
  qed
  moreover have "size (free_bytes W s' + U') \<le> size ?A + (fm_brk s' - fm_brk s)"
    using size_mset_mono [OF assms(3)] by simp
  then have "size (free_bytes W s' + U') \<le> fc_allocated_from_os (fm_global s')"
    using i(4) assms(6) by linarith
  ultimately show ?thesis using i(3) assms(4,5) unfolding fm_inv_def by blast
qed

lemma fm_inv_grow: "fm_inv W s U \<Longrightarrow> grow W s s' \<Longrightarrow> fm_inv W s' U"
  by (rule fm_inv_sub) (auto simp: grow_def fm_inv_def ac_simps intro: subset_mset.add_right_mono)

section \<open>Local lists\<close>

lemma list_bytes_Cons: "list_bytes b (p # ps) = block p (bucket_to_size b) + list_bytes b ps"
  by (simp add: list_bytes_def)

lemma list_bytes_append: "list_bytes b (ps @ qs) = list_bytes b ps + list_bytes b qs"
  by (simp add: list_bytes_def)

lemma size_block [simp]: "size (block p n) = n"
  by (simp add: block_def)

lemma size_list_bytes: "size (list_bytes b ps) = length ps * bucket_to_size b"
  by (induction ps) (auto simp: list_bytes_def)

lemma set_list_simps [simp]:
  "fm_global (set_list w b ps s) = fm_global s" "fm_brk (set_list w b ps s) = fm_brk s"
  "free_list_of (set_list w b ps s) w b = ps"
  "w' \<noteq> w \<or> b' \<noteq> b \<Longrightarrow> free_list_of (set_list w b ps s) w' b' = free_list_of s w' b'"
  "potential_of (set_list w b ps s) w' b' = potential_of s w' b'"
  by (auto simp: set_list_def free_list_of_def potential_of_def)

lemma set_potential_simps [simp]:
  "fm_global (set_potential w b n s) = fm_global s" "fm_brk (set_potential w b n s) = fm_brk s"
  "free_list_of (set_potential w b n s) = free_list_of s"
  by (auto simp: set_potential_def free_list_of_def fun_eq_iff)

lemma push_local_set_list: "push_local w b p s = set_list w b (p # free_list_of s w b) s"
  by (simp add: push_local_def set_list_def free_list_of_def)

lemma worker_bytes_cong: "free_list_of s' w = free_list_of s w \<Longrightarrow> worker_bytes s' w = worker_bytes s w"
  by (simp add: worker_bytes_def)

lemma workers_bytes_potential [simp]: "workers_bytes W (set_potential w b n s) = workers_bytes W s"
  by (simp add: workers_bytes_def worker_bytes_def)

lemma sum_upd:
  fixes f g :: "nat \<Rightarrow> nat multiset"
  assumes "finite A" "a \<in> A" "\<And>x. x \<in> A \<Longrightarrow> x \<noteq> a \<Longrightarrow> g x = f x"
  shows "sum g A + f a = sum f A + g a"
proof -
  have "sum g (A - {a}) = sum f (A - {a})" using assms(3) by (intro sum.cong) auto
  then show ?thesis using assms(1,2) by (simp add: sum.remove [of A a] ac_simps)
qed

lemma workers_bytes_set_list:
  assumes "finite W" "w \<in> W" "b < 6"
  shows "workers_bytes W (set_list w b ps s) + list_bytes b (free_list_of s w b) =
    workers_bytes W s + list_bytes b ps"
proof -
  let ?s = "set_list w b ps s"
  have "worker_bytes ?s w' = worker_bytes s w'" if "w' \<noteq> w" for w'
    using that by (simp add: worker_bytes_def)
  then have 1: "workers_bytes W ?s + worker_bytes s w = workers_bytes W s + worker_bytes ?s w"
    using assms(1,2) unfolding workers_bytes_def by (intro sum_upd) auto
  have 2: "worker_bytes ?s w + list_bytes b (free_list_of s w b) = worker_bytes s w + list_bytes b ps"
    using sum_upd [of "{..<6}" b "\<lambda>b. list_bytes b (free_list_of ?s w b)" "\<lambda>b. list_bytes b (free_list_of s w b)"]
      assms(3) by (simp add: worker_bytes_def)
  have "workers_bytes W ?s + list_bytes b (free_list_of s w b) + worker_bytes s w =
      workers_bytes W s + (worker_bytes ?s w + list_bytes b (free_list_of s w b))"
    using 1 by (simp add: ac_simps)
  also have "\<dots> = workers_bytes W s + list_bytes b ps + worker_bytes s w"
    using 2 by (simp add: ac_simps)
  finally show ?thesis by simp
qed

section \<open>Global operations\<close>

lemma bucket_to_size_bounds: "b < 6 \<Longrightarrow> 64 \<le> bucket_to_size b \<and> bucket_to_size b \<le> 2048"
  by (auto simp: bucket_to_size_def bucket_sizes_def less_Suc_eq numeral_eq_Suc)

lemma global_list_upd:
  assumes "b < 6"
  shows "(\<Sum>c<6. list_bytes c ((f(b := ps)) c)) + list_bytes b (f b) =
    (\<Sum>c<6. list_bytes c (f c)) + list_bytes b ps"
  using sum_upd [of "{..<6}" b "\<lambda>c. list_bytes c ((f(b := ps)) c)" "\<lambda>c. list_bytes c (f c)"] assms
  by simp

lemma mset_upt_split: "a \<le> b \<Longrightarrow> b \<le> c \<Longrightarrow> mset [a..<c] = block a (b - a) + mset [b..<c]"
  using mset_upt_append [of a b c] by (simp add: block_def)

lemma global_alloc_spec:
  assumes "b < 6" "fc_pool_begin (fm_global s) \<le> fc_pool_end (fm_global s)"
  shows "\<exists>p s'. global_alloc b s = Some (p, s') \<and> fm_local s' = fm_local s \<and> fm_brk s \<le> fm_brk s' \<and>
    global_bytes (fm_global s') + block p (bucket_to_size b) \<subseteq>#
      global_bytes (fm_global s) + mset [fm_brk s..<fm_brk s'] \<and>
    fc_allocated_from_global_pool (fm_global s') =
      fc_allocated_from_global_pool (fm_global s) + int (bucket_to_size b) \<and>
    fc_allocated_from_os (fm_global s') = fc_allocated_from_os (fm_global s) + (fm_brk s' - fm_brk s) \<and>
    fc_pool_begin (fm_global s') \<le> fc_pool_end (fm_global s')"
proof -
  let ?g = "fm_global s" and ?sz = "bucket_to_size b"
  have sz: "?sz \<le> FRAME_MALLOC_CHUNK"
    using bucket_to_size_bounds [OF assms(1)] by (simp add: FRAME_MALLOC_CHUNK_def)
  show ?thesis
  proof (cases "fc_global_free_list ?g b")
    case (Cons p ps)
    have "(\<Sum>c<6. list_bytes c (((fc_global_free_list ?g)(b := ps)) c)) + (block p ?sz + list_bytes b ps) =
        (\<Sum>c<6. list_bytes c (fc_global_free_list ?g c)) + list_bytes b ps"
      using global_list_upd [OF assms(1), of "fc_global_free_list ?g" ps] Cons
      by (simp add: list_bytes_Cons)
    then have e: "(\<Sum>c<6. list_bytes c (((fc_global_free_list ?g)(b := ps)) c)) + block p ?sz =
        (\<Sum>c<6. list_bytes c (fc_global_free_list ?g c))"
      by (metis add.assoc add_right_cancel)
    let ?g' = "?g\<lparr>fc_allocated_from_global_pool := fc_allocated_from_global_pool ?g + int ?sz,
        fc_global_free_list := (fc_global_free_list ?g)(b := ps)\<rparr>"
    have "global_bytes ?g' + block p ?sz = (\<Sum>c<6. list_bytes c (((fc_global_free_list ?g)(b := ps)) c)) +
        block p ?sz + mset [fc_pool_begin ?g..<fc_pool_end ?g]"
      by (simp add: global_bytes_def)
    also have "\<dots> = global_bytes ?g" unfolding e by (simp add: global_bytes_def)
    finally have "global_bytes ?g' + block p ?sz = global_bytes ?g" .
    moreover have "global_alloc b s = Some (p, s\<lparr>fm_global := ?g'\<rparr>)"
      using Cons assms(1) by (simp add: global_alloc_def FRAME_MALLOC_NBUCKETS_def Let_def)
    ultimately show ?thesis
      using assms(2) by (intro exI [of _ p] exI [of _ "s\<lparr>fm_global := ?g'\<rparr>"]) simp
  next
    case Nil
    show ?thesis
    proof (cases "fc_pool_end ?g < fc_pool_begin ?g + ?sz")
      case True
      let ?g' = "?g\<lparr>fc_allocated_from_global_pool := fc_allocated_from_global_pool ?g + int ?sz,
          fc_wasted := fc_wasted ?g + (fc_pool_end ?g - fc_pool_begin ?g),
          fc_pool_begin := fm_brk s + ?sz, fc_pool_end := fm_brk s + FRAME_MALLOC_CHUNK,
          fc_allocated_from_os := fc_allocated_from_os ?g + FRAME_MALLOC_CHUNK,
          fc_pool_list := fm_brk s # fc_pool_list ?g\<rparr>"
      have m: "mset [fm_brk s..<fm_brk s + FRAME_MALLOC_CHUNK] =
          block (fm_brk s) ?sz + mset [fm_brk s + ?sz..<fm_brk s + FRAME_MALLOC_CHUNK]"
        using mset_upt_split [of "fm_brk s" "fm_brk s + ?sz" "fm_brk s + FRAME_MALLOC_CHUNK"] sz by simp
      have "global_bytes ?g' + block (fm_brk s) ?sz = (\<Sum>c<6. list_bytes c (fc_global_free_list ?g c)) +
          mset [fm_brk s..<fm_brk s + FRAME_MALLOC_CHUNK]"
        unfolding m by (simp add: global_bytes_def)
      then have "global_bytes ?g' + block (fm_brk s) ?sz \<subseteq>#
          global_bytes ?g + mset [fm_brk s..<fm_brk s + FRAME_MALLOC_CHUNK]"
        by (simp add: global_bytes_def)
      moreover have "global_alloc b s = Some (fm_brk s, s\<lparr>fm_global := ?g', fm_brk := fm_brk s + FRAME_MALLOC_CHUNK\<rparr>)"
        using True Nil assms by (simp add: global_alloc_def extend_global_pool_def os_malloc_def
            FRAME_MALLOC_NBUCKETS_def Let_def)
      ultimately show ?thesis
        using sz by (intro exI [of _ "fm_brk s"]
            exI [of _ "s\<lparr>fm_global := ?g', fm_brk := fm_brk s + FRAME_MALLOC_CHUNK\<rparr>"]) simp
    next
      case False
      let ?p = "fc_pool_begin ?g"
      let ?g' = "?g\<lparr>fc_allocated_from_global_pool := fc_allocated_from_global_pool ?g + int ?sz,
          fc_pool_begin := ?p + ?sz\<rparr>"
      have m: "mset [?p..<fc_pool_end ?g] = block ?p ?sz + mset [?p + ?sz..<fc_pool_end ?g]"
        using mset_upt_split [of ?p "?p + ?sz" "fc_pool_end ?g"] False by simp
      have "global_bytes ?g' + block ?p ?sz = (\<Sum>c<6. list_bytes c (fc_global_free_list ?g c)) +
          mset [?p..<fc_pool_end ?g]"
        unfolding m by (simp add: global_bytes_def)
      then have "global_bytes ?g' + block ?p ?sz = global_bytes ?g"
        by (simp add: global_bytes_def)
      moreover have "global_alloc b s = Some (?p, s\<lparr>fm_global := ?g'\<rparr>)"
        using False Nil assms by (simp add: global_alloc_def FRAME_MALLOC_NBUCKETS_def Let_def)
      ultimately show ?thesis
        using False by (intro exI [of _ ?p] exI [of _ "s\<lparr>fm_global := ?g'\<rparr>"]) simp
    qed
  qed
qed

lemma global_free_all_spec:
  assumes "b < 6"
  shows "\<exists>g'. global_free_all qs b s = Some (s\<lparr>fm_global := g'\<rparr>) \<and>
    global_bytes g' = global_bytes (fm_global s) + list_bytes b qs \<and>
    fc_allocated_from_global_pool g' =
      fc_allocated_from_global_pool (fm_global s) - int (length qs * bucket_to_size b) \<and>
    fc_allocated_from_os g' = fc_allocated_from_os (fm_global s) \<and>
    fc_pool_begin g' = fc_pool_begin (fm_global s) \<and> fc_pool_end g' = fc_pool_end (fm_global s)"
proof (induction qs arbitrary: s)
  case Nil
  then show ?case by (intro exI [of _ "fm_global s"]) (simp add: list_bytes_def)
next
  case (Cons q qs)
  let ?g = "push_global b q ((fm_global s)\<lparr>fc_allocated_from_global_pool :=
      fc_allocated_from_global_pool (fm_global s) - int (bucket_to_size b)\<rparr>)"
  have b: "global_bytes ?g = global_bytes (fm_global s) + block q (bucket_to_size b)"
  proof -
    have "(\<Sum>c<6. list_bytes c (fc_global_free_list ?g c)) + list_bytes b (fc_global_free_list (fm_global s) b) =
        (\<Sum>c<6. list_bytes c (fc_global_free_list (fm_global s) c)) +
          (block q (bucket_to_size b) + list_bytes b (fc_global_free_list (fm_global s) b))"
      using global_list_upd [OF assms, of "fc_global_free_list (fm_global s)" "q # fc_global_free_list (fm_global s) b"]
      by (simp add: push_global_def list_bytes_Cons)
    then have "(\<Sum>c<6. list_bytes c (fc_global_free_list ?g c)) =
        (\<Sum>c<6. list_bytes c (fc_global_free_list (fm_global s) c)) + block q (bucket_to_size b)"
      by (metis add.assoc add_right_cancel)
    then show ?thesis by (simp add: global_bytes_def push_global_def ac_simps)
  qed
  have "global_free q b s = Some (s\<lparr>fm_global := ?g\<rparr>)"
    using assms by (simp add: global_free_def FRAME_MALLOC_NBUCKETS_def Let_def)
  with Cons.IH [of "s\<lparr>fm_global := ?g\<rparr>"] b show ?case
    by (auto simp: list_bytes_Cons push_global_def ac_simps)
qed

section \<open>The steps of a worker\<close>

lemma workers_bytes_local: "fm_local s' = fm_local s \<Longrightarrow> workers_bytes W s' = workers_bytes W s"
  by (simp add: workers_bytes_def worker_bytes_def free_list_of_def)

lemma workers_bytes_push:
  assumes "finite W" "w \<in> W" "b < 6"
  shows "workers_bytes W (push_local w b p s) = workers_bytes W s + block p (bucket_to_size b)"
  using workers_bytes_set_list [OF assms, of "p # free_list_of s w b" s]
  by (simp add: push_local_set_list list_bytes_Cons flip: add.assoc)

lemma push_local_simps [simp]:
  "fm_global (push_local w b p s) = fm_global s" "fm_brk (push_local w b p s) = fm_brk s"
  "free_list_of (push_local w b p s) w b = p # free_list_of s w b"
  by (simp_all add: push_local_set_list)

lemma grow_alloc:
  assumes W: "finite W" "w \<in> W" "b < 6" and pool: "fc_pool_begin (fm_global s) \<le> fc_pool_end (fm_global s)"
  shows "\<exists>p s1. global_alloc b (set_potential w b n s) = Some (p, s1) \<and> grow W s (push_local w b p s1)"
proof -
  let ?s0 = "set_potential w b n s"
  from global_alloc_spec [of b ?s0] W(3) pool obtain p s1 where
    a: "global_alloc b ?s0 = Some (p, s1)" "fm_local s1 = fm_local ?s0" "fm_brk s \<le> fm_brk s1"
      "global_bytes (fm_global s1) + block p (bucket_to_size b) \<subseteq>#
        global_bytes (fm_global s) + mset [fm_brk s..<fm_brk s1]"
      "fc_allocated_from_global_pool (fm_global s1) =
        fc_allocated_from_global_pool (fm_global s) + int (bucket_to_size b)"
      "fc_allocated_from_os (fm_global s1) = fc_allocated_from_os (fm_global s) + (fm_brk s1 - fm_brk s)"
      "fc_pool_begin (fm_global s1) \<le> fc_pool_end (fm_global s1)"
    by auto
  have w: "workers_bytes W s1 = workers_bytes W s" using workers_bytes_local [OF a(2)] by simp
  have "free_bytes W (push_local w b p s1) =
      workers_bytes W s + (global_bytes (fm_global s1) + block p (bucket_to_size b))"
    using workers_bytes_push [OF W] w by (simp add: free_bytes_def ac_simps)
  also have "\<dots> \<subseteq># workers_bytes W s + (global_bytes (fm_global s) + mset [fm_brk s..<fm_brk s1])"
    using a(4) by (rule subset_mset.add_left_mono)
  finally have "free_bytes W (push_local w b p s1) \<subseteq># free_bytes W s + mset [fm_brk s..<fm_brk s1]"
    by (simp add: free_bytes_def ac_simps)
  then have "grow W s (push_local w b p s1)"
    using a(3,5-7) workers_bytes_push [OF W] w by (simp add: grow_def acct_def)
  with a(1) show ?thesis by blast
qed

lemma grow_pool: "grow W s s' \<Longrightarrow> fc_pool_begin (fm_global s) \<le> fc_pool_end (fm_global s) \<Longrightarrow>
    fc_pool_begin (fm_global s') \<le> fc_pool_end (fm_global s')"
  by (simp add: grow_def)

lemma allocate_batch_loop_spec:
  assumes "finite W" "w \<in> W" "b < 6" "fc_pool_begin (fm_global s) \<le> fc_pool_end (fm_global s)"
  shows "\<exists>s'. allocate_batch_loop w b sz limit bytes s = Some s' \<and> grow W s s' \<and> free_list_of s' w b \<noteq> []"
  using assms
proof (induction w b sz limit bytes s rule: allocate_batch_loop.induct)
  case (1 w b sz limit bytes s)
  from grow_alloc [OF 1(2-5), of "potential_of s w b + sz"] obtain p s1 where
    a: "global_alloc b (set_potential w b (potential_of s w b + sz) s) = Some (p, s1)"
       "grow W s (push_local w b p s1)" by blast
  let ?s = "push_local w b p s1"
  show ?case
  proof (cases "bytes + sz < limit \<and> 0 < sz")
    case True
    from 1(1) [OF a(1) refl refl refl True 1(2-4) grow_pool [OF a(2) 1(5)]] obtain s' where
      "allocate_batch_loop w b sz limit (bytes + sz) ?s = Some s'" "grow W ?s s'" "free_list_of s' w b \<noteq> []"
      by blast
    with a True grow_trans [OF a(2)] show ?thesis
      by (subst allocate_batch_loop.simps) (simp add: Let_def del: allocate_batch_loop.simps)
  next
    case False
    have "allocate_batch_loop w b sz limit bytes s = Some ?s"
      unfolding allocate_batch_loop.simps [of w b sz limit bytes s] a(1)
      by (simp only: option.case prod.case Let_def False if_False)
    with a(2) show ?thesis by simp
  qed
qed

declare allocate_batch_loop.simps [simp del]

lemma frame_malloc_loop_spec:
  assumes W: "finite W" "w \<in> W" "b < 6" and pool: "fc_pool_begin (fm_global s) \<le> fc_pool_end (fm_global s)"
  shows "\<exists>p ps s1. frame_malloc_loop w b sz s = Some (p, set_list w b ps s1) \<and> grow W s s1 \<and>
    free_list_of s1 w b = p # ps"
proof (cases "free_list_of s w b")
  case (Cons p ps)
  then show ?thesis by (subst frame_malloc_loop.simps) (auto intro: grow_refl)
next
  case Nil
  from allocate_batch_loop_spec [OF assms] obtain s1 where
    s1: "allocate_batch w b sz s = Some s1" "grow W s s1" "free_list_of s1 w b \<noteq> []"
    unfolding allocate_batch_def by blast
  then obtain p ps where ps: "free_list_of s1 w b = p # ps" by (cases "free_list_of s1 w b") auto
  then have "frame_malloc_loop w b sz s1 = Some (p, set_list w b ps s1)"
    by (subst frame_malloc_loop.simps) simp
  then have "frame_malloc_loop w b sz s = Some (p, set_list w b ps s1)"
    using Nil s1(1) by (subst frame_malloc_loop.simps) simp
  with s1(2) ps show ?thesis by blast
qed

lemma gc_bucket_spec:
  assumes W: "finite W" "w \<in> W" "b < 6"
  shows "\<exists>s'. gc_bucket w b sz s = Some s' \<and> grow W s s'"
proof -
  obtain k np where g: "gc_count (potential_of s w b) sz (free_list_of s w b) 0 = (k, np)" by fastforce
  let ?ps = "free_list_of s w b"
  let ?s1 = "set_list w b (take (Suc k) ?ps) (set_potential w b np s)"
  from global_free_all_spec [OF W(3), of "drop (Suc k) ?ps" ?s1] obtain g' where
    f: "global_free_all (drop (Suc k) ?ps) b ?s1 = Some (?s1\<lparr>fm_global := g'\<rparr>)"
      "global_bytes g' = global_bytes (fm_global s) + list_bytes b (drop (Suc k) ?ps)"
      "fc_allocated_from_global_pool g' = fc_allocated_from_global_pool (fm_global s) -
         int (length (drop (Suc k) ?ps) * bucket_to_size b)"
      "fc_allocated_from_os g' = fc_allocated_from_os (fm_global s)"
      "fc_pool_begin g' = fc_pool_begin (fm_global s)" "fc_pool_end g' = fc_pool_end (fm_global s)"
    by auto
  let ?s' = "?s1\<lparr>fm_global := g'\<rparr>"
  have split: "list_bytes b ?ps = list_bytes b (take (Suc k) ?ps) + list_bytes b (drop (Suc k) ?ps)"
    by (metis append_take_drop_id list_bytes_append)
  have "workers_bytes W ?s1 + list_bytes b ?ps = workers_bytes W s + list_bytes b (take (Suc k) ?ps)"
    using workers_bytes_set_list [OF W, of "take (Suc k) ?ps" "set_potential w b np s"] by simp
  then have w: "workers_bytes W ?s1 + list_bytes b (drop (Suc k) ?ps) = workers_bytes W s"
    unfolding split by (metis add.assoc add.commute add_right_cancel)
  have wl: "workers_bytes W ?s' = workers_bytes W ?s1" by (rule workers_bytes_local) simp
  have fb: "free_bytes W ?s' = free_bytes W s"
    unfolding free_bytes_def wl using f(2) w by (simp add: ac_simps)
  have "size (workers_bytes W ?s1) + length (drop (Suc k) ?ps) * bucket_to_size b = size (workers_bytes W s)"
    using arg_cong [OF w, of size] by (simp add: size_list_bytes)
  then have "int (size (workers_bytes W ?s1)) + int (length (drop (Suc k) ?ps) * bucket_to_size b) =
      int (size (workers_bytes W s))" by (metis of_nat_add)
  moreover have gl: "fm_global ?s' = g'" by simp
  ultimately have "acct W ?s' = acct W s" using f(3) unfolding acct_def wl gl by linarith
  then have "grow W s ?s'" using fb f(4-6) by (simp add: grow_def)
  moreover have "gc_bucket w b sz s = Some ?s'" using g f(1) by (simp add: gc_bucket_def)
  ultimately show ?thesis by blast
qed

lemma bucket_sizes_nth:
  "bucket_to_size 0 = 64" "bucket_to_size 1 = 128" "bucket_to_size 2 = 256"
  "bucket_to_size 3 = 512" "bucket_to_size 4 = 1024" "bucket_to_size 5 = 2048"
  by (simp_all add: bucket_to_size_def bucket_sizes_def)

lemma bucket_of_size_eq:
  "bucket_of_size n = (if n \<le> 64 then Some 0 else if n \<le> 128 then Some 1 else if n \<le> 256 then Some 2
     else if n \<le> 512 then Some 3 else if n \<le> 1024 then Some 4 else if n \<le> 2048 then Some 5 else None)"
  by (simp add: bucket_of_size_def bucket_sizes_def)

lemma bucket_of_size_spec:
  assumes "n \<le> FRAME_MALLOC_MAX_SIZE"
  shows "\<exists>b<6. bucket_of_size n = Some b \<and> n \<le> bucket_to_size b \<and>
    (\<forall>c<b. bucket_to_size c < n)"
proof -
  have l: "c < 2 \<Longrightarrow> c = 0 \<or> c = 1" "c < 3 \<Longrightarrow> c = 0 \<or> c = 1 \<or> c = 2"
    "c < 4 \<Longrightarrow> c = 0 \<or> c = 1 \<or> c = 2 \<or> c = 3"
    "c < 5 \<Longrightarrow> c = 0 \<or> c = 1 \<or> c = 2 \<or> c = 3 \<or> c = 4" for c :: nat
    by presburger+
  consider "n \<le> 64" | "64 < n" "n \<le> 128" | "128 < n" "n \<le> 256" | "256 < n" "n \<le> 512"
    | "512 < n" "n \<le> 1024" | "1024 < n" "n \<le> 2048"
    using assms unfolding FRAME_MALLOC_MAX_SIZE_def by linarith
  then show ?thesis
  proof cases
    case 1
    then show ?thesis by (intro exI [of _ 0]) (simp add: bucket_of_size_eq bucket_sizes_nth)
  next
    case 2
    then show ?thesis by (intro exI [of _ 1]) (simp add: bucket_of_size_eq bucket_sizes_nth del: One_nat_def)
  next
    case 3
    then show ?thesis by (intro exI [of _ 2]) (auto simp: bucket_of_size_eq bucket_sizes_nth simp del: One_nat_def dest!: l)
  next
    case 4
    then show ?thesis by (intro exI [of _ 3]) (auto simp: bucket_of_size_eq bucket_sizes_nth simp del: One_nat_def dest!: l)
  next
    case 5
    then show ?thesis by (intro exI [of _ 4]) (auto simp: bucket_of_size_eq bucket_sizes_nth simp del: One_nat_def dest!: l)
  next
    case 6
    then show ?thesis by (intro exI [of _ 5]) (auto simp: bucket_of_size_eq bucket_sizes_nth simp del: One_nat_def dest!: l)
  qed
qed

section \<open>Allocation and release\<close>

lemma frame_malloc_roundup_bucket:
  assumes "n \<le> FRAME_MALLOC_MAX_SIZE" "bucket_of_size n = Some b"
  shows "frame_malloc_roundup n = Some (bucket_to_size b)"
  using assms by (simp add: frame_malloc_roundup_def)

lemma fm_inv_malloc:
  assumes inv: "fm_inv W s U" and w: "w \<in> W" and n: "n \<le> FRAME_MALLOC_MAX_SIZE"
  shows "\<exists>p s' m. frame_malloc (Some w) n s = Some (p, s') \<and> frame_malloc_roundup n = Some m \<and> n \<le> m \<and>
    fm_inv W s' (U + block p m)"
proof -
  from bucket_of_size_spec [OF n] obtain b where b: "b < 6" "bucket_of_size n = Some b" "n \<le> bucket_to_size b"
    by blast
  have W: "finite W" and pool: "fc_pool_begin (fm_global s) \<le> fc_pool_end (fm_global s)"
    using inv by (simp_all add: fm_inv_def)
  from frame_malloc_loop_spec [OF W w b(1) pool] obtain p ps s1 where
    r: "frame_malloc_loop w b (bucket_to_size b) s = Some (p, set_list w b ps s1)" "grow W s s1"
      "free_list_of s1 w b = p # ps" by blast
  let ?s = "set_list w b ps s1" and ?m = "bucket_to_size b"
  have i1: "fm_inv W s1 U" by (rule fm_inv_grow [OF inv r(2)])
  have m: "workers_bytes W ?s + block p ?m = workers_bytes W s1"
    using workers_bytes_set_list [OF W w b(1), of ps s1] r(3)
    by (simp add: list_bytes_Cons flip: add.assoc)
  then have sub: "free_bytes W ?s + (U + block p ?m) = free_bytes W s1 + U"
    by (simp add: free_bytes_def ac_simps flip: m)
  have "size (workers_bytes W s1) = size (workers_bytes W ?s) + ?m"
    by (simp flip: m)
  then have acct: "acct W ?s = int (size (U + block p ?m))"
    using i1 by (simp add: acct_def fm_inv_def)
  have "fm_inv W ?s (U + block p ?m)"
    by (rule fm_inv_sub [OF i1]) (use sub acct i1 in \<open>simp_all add: fm_inv_def\<close>)
  moreover have "frame_malloc (Some w) n s = Some (p, ?s)"
    using n b(2) r(1) by (simp add: frame_malloc_def)
  ultimately show ?thesis using frame_malloc_roundup_bucket [OF n b(2)] b(3) by blast
qed

lemma fm_inv_free:
  assumes inv: "fm_inv W s (U + block p m)" and w: "w \<in> W" and n: "n \<le> FRAME_MALLOC_MAX_SIZE"
    and m: "frame_malloc_roundup n = Some m"
  shows "\<exists>s'. frame_free (Some w) p n s = Some s' \<and> fm_inv W s' U"
proof -
  from bucket_of_size_spec [OF n] obtain b where b: "b < 6" "bucket_of_size n = Some b" by blast
  have mb: "m = bucket_to_size b" using m frame_malloc_roundup_bucket [OF n b(2)] by simp
  have W: "finite W" using inv by (simp add: fm_inv_def)
  let ?s0 = "set_potential w b (potential_of s w b + m) s"
  let ?s = "push_local w b p ?s0"
  have wb: "workers_bytes W ?s = workers_bytes W s + block p m"
    by (simp add: mb workers_bytes_push [OF W w b(1)])
  have acct: "acct W ?s = int (size U)"
    using inv by (simp add: acct_def fm_inv_def wb)
  have fb: "free_bytes W ?s + U = free_bytes W s + (U + block p m)"
    by (simp only: free_bytes_def wb) (simp add: ac_simps)
  have i: "fm_inv W ?s U"
    by (rule fm_inv_sub [OF inv _ _ acct], unfold fb) (use inv in \<open>simp_all add: fm_inv_def\<close>)
  from gc_bucket_spec [OF W w b(1), of m ?s] obtain s' where
    "gc_bucket w b m ?s = Some s'" "grow W ?s s'" by blast
  with fm_inv_grow [OF i] i show ?thesis
    using n b(2) by (auto simp: frame_free_def Let_def simp flip: mb)
qed

section \<open>The life of a worker\<close>

lemma worker_bytes_init: "worker_bytes (frame_malloc_per_worker_init w s) w = {#}"
  by (simp add: worker_bytes_def frame_malloc_per_worker_init_def free_list_of_def list_bytes_def)

lemma fm_inv_init:
  assumes inv: "fm_inv W s U" and w: "w \<notin> W"
  shows "fm_inv (insert w W) (frame_malloc_per_worker_init w s) U"
proof -
  let ?s = "frame_malloc_per_worker_init w s"
  have f: "finite W" using inv by (simp add: fm_inv_def)
  have "worker_bytes ?s x = worker_bytes s x" if "x \<in> W" for x
    using that w by (auto simp: worker_bytes_def frame_malloc_per_worker_init_def free_list_of_def)
  then have "workers_bytes W ?s = workers_bytes W s"
    unfolding workers_bytes_def by (rule sum.cong [OF refl])
  then have b: "workers_bytes (insert w W) ?s = workers_bytes W s"
    using w f by (simp add: workers_bytes_def worker_bytes_init)
  have g: "fm_global ?s = fm_global s" "fm_brk ?s = fm_brk s"
    by (simp_all add: frame_malloc_per_worker_init_def)
  show ?thesis using inv by (simp add: fm_inv_def free_bytes_def acct_def b g)
qed

lemma free_list_of_local: "fm_local s' = fm_local s \<Longrightarrow> free_list_of s' = free_list_of s"
  by (simp add: free_list_of_def fun_eq_iff)

lemma cleanup_buckets_spec:
  assumes "\<forall>b\<in>set bs. b < 6" "distinct bs"
  shows "\<exists>s'. cleanup_buckets w bs s = Some s' \<and> fm_brk s' = fm_brk s \<and> free_list_of s' = free_list_of s \<and>
    global_bytes (fm_global s') = global_bytes (fm_global s) +
      sum_list (map (\<lambda>b. list_bytes b (free_list_of s w b)) bs) \<and>
    fc_allocated_from_global_pool (fm_global s') = fc_allocated_from_global_pool (fm_global s) -
      int (size (sum_list (map (\<lambda>b. list_bytes b (free_list_of s w b)) bs))) \<and>
    fc_allocated_from_os (fm_global s') = fc_allocated_from_os (fm_global s) \<and>
    fc_pool_begin (fm_global s') = fc_pool_begin (fm_global s) \<and>
    fc_pool_end (fm_global s') = fc_pool_end (fm_global s)"
  using assms
proof (induction bs arbitrary: s)
  case Nil
  then show ?case by simp
next
  case (Cons b bs)
  from Cons.prems have b: "b < 6" by simp
  from global_free_all_spec [OF b, of "free_list_of s w b" s] obtain g' where
    g: "global_free_all (free_list_of s w b) b s = Some (s\<lparr>fm_global := g'\<rparr>)"
      "global_bytes g' = global_bytes (fm_global s) + list_bytes b (free_list_of s w b)"
      "fc_allocated_from_global_pool g' = fc_allocated_from_global_pool (fm_global s) -
        int (length (free_list_of s w b) * bucket_to_size b)"
      "fc_allocated_from_os g' = fc_allocated_from_os (fm_global s)"
      "fc_pool_begin g' = fc_pool_begin (fm_global s)" "fc_pool_end g' = fc_pool_end (fm_global s)" by blast
  let ?s = "set_potential w b 0 (s\<lparr>fm_global := g'\<rparr>)"
  have fl: "free_list_of ?s = free_list_of s" by (simp add: free_list_of_def fun_eq_iff)
  have "move_bucket_to_global_free_list w b s = Some ?s"
    by (simp add: move_bucket_to_global_free_list_def g(1))
  moreover from Cons.IH [of ?s] Cons.prems fl obtain s' where
    "cleanup_buckets w bs ?s = Some s'" "fm_brk s' = fm_brk s" "free_list_of s' = free_list_of s"
    "global_bytes (fm_global s') = global_bytes g' + sum_list (map (\<lambda>b. list_bytes b (free_list_of s w b)) bs)"
    "fc_allocated_from_global_pool (fm_global s') = fc_allocated_from_global_pool g' -
      int (size (sum_list (map (\<lambda>b. list_bytes b (free_list_of s w b)) bs)))"
    "fc_allocated_from_os (fm_global s') = fc_allocated_from_os g'"
    "fc_pool_begin (fm_global s') = fc_pool_begin g'" "fc_pool_end (fm_global s') = fc_pool_end g'" by auto
  ultimately show ?case using g by (intro exI [of _ s']) (simp add: size_list_bytes)
qed

lemma fm_inv_cleanup:
  assumes inv: "fm_inv W s U" and w: "w \<in> W"
  shows "\<exists>s'. frame_malloc_per_worker_cleanup w s = Some s' \<and> fm_inv (W - {w}) s' U"
proof -
  have f: "finite W" using inv by (simp add: fm_inv_def)
  have wb: "sum_list (map (\<lambda>b. list_bytes b (free_list_of s w b)) [0..<6]) = worker_bytes s w"
    by (simp add: worker_bytes_def interv_sum_list_conv_sum_set_nat atLeast0LessThan)
  from cleanup_buckets_spec [of "[0..<6]" w s] wb obtain s' where
    c: "cleanup_buckets w [0..<6] s = Some s'" "fm_brk s' = fm_brk s" "free_list_of s' = free_list_of s"
      "global_bytes (fm_global s') = global_bytes (fm_global s) + worker_bytes s w"
      "fc_allocated_from_global_pool (fm_global s') = fc_allocated_from_global_pool (fm_global s) -
         int (size (worker_bytes s w))"
      "fc_allocated_from_os (fm_global s') = fc_allocated_from_os (fm_global s)"
      "fc_pool_begin (fm_global s') = fc_pool_begin (fm_global s)"
      "fc_pool_end (fm_global s') = fc_pool_end (fm_global s)" by auto
  have "workers_bytes (W - {w}) s' = workers_bytes (W - {w}) s"
    by (simp add: workers_bytes_def worker_bytes_def c(3))
  then have m: "workers_bytes (W - {w}) s' + worker_bytes s w = workers_bytes W s"
    using sum.remove [OF f w, of "worker_bytes s"] by (simp add: workers_bytes_def ac_simps)
  then have "int (size (workers_bytes (W - {w}) s')) + int (size (worker_bytes s w)) = int (size (workers_bytes W s))"
    by (metis of_nat_add size_union)
  then have "acct (W - {w}) s' = acct W s" using c(5) by (simp add: acct_def)
  moreover have "free_bytes (W - {w}) s' = free_bytes W s"
    using m c(4) by (simp add: free_bytes_def ac_simps flip: m)
  ultimately have "fm_inv (W - {w}) s' U" using inv c(2,6-8) by (simp add: fm_inv_def)
  with c(1) show ?thesis by (auto simp: frame_malloc_per_worker_cleanup_def FRAME_MALLOC_NBUCKETS_def)
qed

lemma fm_inv_global_init: "fm_inv {} (frame_malloc_global_init s) {#}"
  by (simp add: fm_inv_def frame_malloc_global_init_def free_bytes_def workers_bytes_def global_bytes_def
      list_bytes_def acct_def)

lemma count_memory_size: "count_memory_in_global_list g = size (\<Sum>b<6. list_bytes b (fc_global_free_list g b))"
proof -
  have "sum_list (map (\<lambda>p. bucket_to_size i) ps) = size (list_bytes i ps)" for i ps
    by (induction ps) (simp_all add: list_bytes_def)
  then show ?thesis
    by (simp add: count_memory_in_global_list_def FRAME_MALLOC_NBUCKETS_def
        interv_sum_list_conv_sum_set_nat atLeast0LessThan size_multiset_sum)
qed

lemma fm_inv_global_cleanup:
  assumes "fm_inv {} s {#}"
  shows "frame_malloc_global_cleanup s \<noteq> None"
proof -
  have "size (free_bytes {} s) \<le> fc_allocated_from_os (fm_global s)" "acct {} s = 0"
    using assms by (simp_all add: fm_inv_def)
  then show ?thesis
    by (simp add: frame_malloc_global_cleanup_def count_memory_size free_bytes_def workers_bytes_def
        global_bytes_def acct_def Let_def)
qed

text \<open>
  The allocator as a state machine: the live workers, the blocks the program holds (address and
  requested size) and the allocator's state. A block may be freed by any worker.
\<close>

inductive fm_step :: "nat set \<times> (nat \<times> nat) multiset \<times> fm_state \<Rightarrow> nat set \<times> (nat \<times> nat) multiset \<times> fm_state \<Rightarrow> bool" where
  init: "w \<notin> W \<Longrightarrow> fm_step (W, H, s) (insert w W, H, frame_malloc_per_worker_init w s)"
| malloc: "w \<in> W \<Longrightarrow> n \<le> FRAME_MALLOC_MAX_SIZE \<Longrightarrow> frame_malloc (Some w) n s = Some (p, s') \<Longrightarrow>
    fm_step (W, H, s) (W, add_mset (p, n) H, s')"
| free: "w \<in> W \<Longrightarrow> (p, n) \<in># H \<Longrightarrow> frame_free (Some w) p n s = Some s' \<Longrightarrow>
    fm_step (W, H, s) (W, H - {#(p, n)#}, s')"
| cleanup: "w \<in> W \<Longrightarrow> frame_malloc_per_worker_cleanup w s = Some s' \<Longrightarrow> fm_step (W, H, s) (W - {w}, H, s')"

inductive_cases fm_stepE: "fm_step c c'"

definition rounded :: "nat \<Rightarrow> nat" where
  "rounded n = (case frame_malloc_roundup n of None \<Rightarrow> 0 | Some m \<Rightarrow> m)"

definition held :: "(nat \<times> nat) multiset \<Rightarrow> nat multiset" where
  "held H = (\<Sum>(p, n)\<in>#H. block p (rounded n))"

fun fm_ok :: "nat set \<times> (nat \<times> nat) multiset \<times> fm_state \<Rightarrow> bool" where
  "fm_ok (W, H, s) \<longleftrightarrow> fm_inv W s (held H) \<and> (\<forall>(p, n)\<in>#H. n \<le> FRAME_MALLOC_MAX_SIZE)"

lemma roundup_rounded: "n \<le> FRAME_MALLOC_MAX_SIZE \<Longrightarrow> frame_malloc_roundup n = Some (rounded n)"
  using bucket_of_size_spec [of n] frame_malloc_roundup_bucket [of n] by (auto simp: rounded_def)

lemma fm_step_ok: "fm_step c c' \<Longrightarrow> fm_ok c \<Longrightarrow> fm_ok c'"
proof (induction rule: fm_step.induct)
  case (init w W H s)
  then show ?case by (simp add: fm_inv_init)
next
  case (malloc w W n s p s' H)
  from fm_inv_malloc [of W s "held H" w n] malloc show ?case
    by (auto simp: held_def roundup_rounded add.commute)
next
  case (free w W p n H s s')
  from free(2,4) have n: "n \<le> FRAME_MALLOC_MAX_SIZE" by auto
  obtain H' where H: "H = add_mset (p, n) H'" using free(2) by (metis insert_DiffM)
  have "fm_inv W s (held H' + block p (rounded n))" using free(4) by (simp add: H held_def add.commute)
  from fm_inv_free [OF this free(1) n roundup_rounded [OF n]] free(3,4) show ?case by (auto simp: H)
next
  case (cleanup w W s s' H)
  from fm_inv_cleanup [of W s "held H" w] cleanup show ?case by auto
qed

lemma fm_reach_ok:
  assumes "fm_step\<^sup>*\<^sup>* ({}, {#}, frame_malloc_global_init s0) c"
  shows "fm_ok c"
  using assms
  by (induction rule: rtranclp_induct) (auto simp: fm_inv_global_init held_def intro: fm_step_ok)

section \<open>Properties\<close>

text \<open>C12. The allocator never hands out a byte twice: in a state that satisfies the invariant with the
  bytes \<open>U\<close> held by the program, \<open>frame_malloc\<close> of up to 2048 bytes returns, for any worker and on
  every path (local list, batch refill, global list, pool, pool extension), a block of the rounded
  size, and the invariant holds with the block's bytes added to \<open>U\<close> - so the block is disjoint
  from every held and every free block.\<close>

theorem frame_malloc_fresh:
  assumes "fm_inv W s U" "w \<in> W" "n \<le> FRAME_MALLOC_MAX_SIZE"
  shows "\<exists>p s' m. frame_malloc (Some w) n s = Some (p, s') \<and> frame_malloc_roundup n = Some m \<and> n \<le> m \<and>
    fm_inv W s' (U + block p m) \<and> {p..<p + n} \<inter> set_mset U = {}"
proof -
  from fm_inv_malloc [OF assms] obtain p s' m where
    r: "frame_malloc (Some w) n s = Some (p, s')" "frame_malloc_roundup n = Some m" "n \<le> m"
      "fm_inv W s' (U + block p m)" by blast
  have "x \<notin># U" if "x \<in> {p..<p + n}" for x
  proof
    assume "x \<in># U"
    moreover have "x \<in># block p m" using that r(3) by (simp add: block_def)
    ultimately have "2 \<le> count (U + block p m) x"
      by (metis add_mono count_greater_eq_one_iff count_union one_add_one)
    moreover have "count (free_bytes W s' + (U + block p m)) x \<le> 1"
      using r(4) unfolding fm_inv_def by blast
    ultimately show False by simp
  qed
  with r show ?thesis by blast
qed

definition fm_start :: fm_state where
  "fm_start = frame_malloc_global_init
     \<lparr>fm_global = \<lparr>fc_pool_list = [], fc_pool_begin = 0, fc_pool_end = 0, fc_global_free_list = (\<lambda>_. []),
        fc_batch_size = 0, fc_potential_limit = 0, fc_check_for_leaks = False,
        fc_allocated_from_os = 0, fc_wasted = 0, fc_allocated_from_global_pool = 0\<rparr>,
      fm_local = (\<lambda>_. \<lparr>lc_free_list = (\<lambda>_. []), lc_bucket_potential = (\<lambda>_. 0)\<rparr>), fm_brk = 4096\<rparr>"

theorem frame_malloc_fresh_witness:
  "\<exists>p s' m. frame_malloc (Some 3) 100 (frame_malloc_per_worker_init 3 fm_start) = Some (p, s') \<and>
    frame_malloc_roundup 100 = Some m \<and> 100 \<le> m \<and> fm_inv {3} s' ({#} + block p m) \<and>
    {p..<p + 100} \<inter> set_mset {#} = {}"
proof -
  have "fm_inv {3} (frame_malloc_per_worker_init 3 fm_start) {#}"
    unfolding fm_start_def by (rule fm_inv_init [OF fm_inv_global_init]) simp
  then show ?thesis by (rule frame_malloc_fresh) (simp_all add: FRAME_MALLOC_MAX_SIZE_def)
qed

text \<open>Freeing returns exactly the block: when the program holds the bytes of a block of requested
  size \<open>n\<close>, any live worker may free it; the call returns (garbage collection of the bucket
  included) and the invariant holds again without those bytes.\<close>

theorem frame_free_returns:
  assumes "fm_inv W s (U + block p m)" "w \<in> W" "n \<le> FRAME_MALLOC_MAX_SIZE" "frame_malloc_roundup n = Some m"
  shows "\<exists>s'. frame_free (Some w) p n s = Some s' \<and> fm_inv W s' U"
  by (rule fm_inv_free [OF assms])

theorem frame_free_returns_witness:
  "\<exists>p s s'. frame_malloc (Some 3) 100 (frame_malloc_per_worker_init 3 fm_start) = Some (p, s) \<and>
    frame_free (Some 3) p 100 s = Some s' \<and> fm_inv {3} s' {#}"
proof -
  have "fm_inv {3} (frame_malloc_per_worker_init 3 fm_start) {#}"
    unfolding fm_start_def by (rule fm_inv_init [OF fm_inv_global_init]) simp
  from fm_inv_malloc [OF this, of 3 100] obtain p s m where
    "frame_malloc (Some 3) 100 (frame_malloc_per_worker_init 3 fm_start) = Some (p, s)"
    "frame_malloc_roundup 100 = Some m" "fm_inv {3} s ({#} + block p m)"
    by (auto simp: FRAME_MALLOC_MAX_SIZE_def)
  with frame_free_returns [of "{3}" s "{#}" p m 3 100] show ?thesis
    by (auto simp: FRAME_MALLOC_MAX_SIZE_def)
qed

text \<open>C13. The leak check of the runtime's shutdown is sound: after any run of initialisations,
  allocations, frees by arbitrary workers and worker cleanups from a fresh global pool, once no
  worker is left and the program holds no block, \<open>frame_malloc_global_cleanup\<close> reports neither a
  corrupted nor a leaked frame.\<close>

theorem no_false_leak_report:
  assumes "fm_step\<^sup>*\<^sup>* ({}, {#}, frame_malloc_global_init s0) ({}, {#}, s)"
  shows "frame_malloc_global_cleanup s \<noteq> None"
  using fm_reach_ok [OF assms] by (simp add: held_def fm_inv_global_cleanup)

theorem no_false_leak_report_witness:
  "\<exists>s. fm_step\<^sup>*\<^sup>* ({}, {#}, fm_start) ({}, {#}, s) \<and> frame_malloc_global_cleanup s \<noteq> None"
proof -
  let ?s0 = "frame_malloc_per_worker_init 3 fm_start"
  have 0: "fm_inv {3} ?s0 {#}"
    unfolding fm_start_def by (rule fm_inv_init [OF fm_inv_global_init]) simp
  from fm_inv_malloc [OF this, of 3 100] obtain p s1 m where
    1: "frame_malloc (Some 3) 100 ?s0 = Some (p, s1)" "frame_malloc_roundup 100 = Some m"
      "fm_inv {3} s1 ({#} + block p m)" by (auto simp: FRAME_MALLOC_MAX_SIZE_def)
  from fm_inv_free [OF 1(3) _ _ 1(2), of 3] obtain s2 where
    2: "frame_free (Some 3) p 100 s1 = Some s2" "fm_inv {3} s2 {#}" by (auto simp: FRAME_MALLOC_MAX_SIZE_def)
  from fm_inv_cleanup [OF 2(2), of 3] obtain s3 where
    3: "frame_malloc_per_worker_cleanup 3 s2 = Some s3" by auto
  have s0: "fm_step ({}, {#}, fm_start) ({3}, {#}, ?s0)" by (rule fm_step.init) simp
  have s1: "fm_step ({3}, {#}, ?s0) ({3}, {#(p, 100)#}, s1)"
    by (rule fm_step.malloc) (use 1 in \<open>simp_all add: FRAME_MALLOC_MAX_SIZE_def\<close>)
  have s2: "fm_step ({3}, {#(p, 100)#}, s1) ({3}, {#}, s2)"
    using fm_step.free [OF _ _ 2(1), of "{3}" "{#(p, 100)#}"] by simp
  have s3: "fm_step ({3}, {#}, s2) ({}, {#}, s3)"
    using fm_step.cleanup [OF _ 3, of "{3}" "{#}"] by simp
  have r: "fm_step\<^sup>*\<^sup>* ({}, {#}, fm_start) ({}, {#}, s3)"
    using s0 s1 s2 s3 by (meson converse_rtranclp_into_rtranclp r_into_rtranclp)
  from no_false_leak_report [OF this [unfolded fm_start_def]] r show ?thesis by blast
qed

text \<open>The rounded size of a frame is the least bucket size that holds it, and sizes above the
  largest bucket are left as they are.\<close>

theorem frame_malloc_roundup_least:
  shows "frame_malloc_roundup n = Some (if n \<le> 2048 then LEAST m. m \<in> set bucket_sizes \<and> n \<le> m else n)"
proof (cases "n \<le> 2048")
  case True
  then have n: "n \<le> FRAME_MALLOC_MAX_SIZE" by (simp add: FRAME_MALLOC_MAX_SIZE_def)
  from bucket_of_size_spec [OF this] obtain b where
    b: "b < 6" "bucket_of_size n = Some b" "n \<le> bucket_to_size b" "\<And>c. c < b \<Longrightarrow> bucket_to_size c < n" by blast
  have l: "length bucket_sizes = 6" by (simp add: bucket_sizes_def)
  have "(LEAST m. m \<in> set bucket_sizes \<and> n \<le> m) = bucket_to_size b"
  proof (rule Least_equality)
    show "bucket_to_size b \<in> set bucket_sizes \<and> n \<le> bucket_to_size b"
      using b(1,3) l by (simp add: bucket_to_size_def)
    fix m assume m: "m \<in> set bucket_sizes \<and> n \<le> m"
    then obtain c where c: "c < 6" "m = bucket_to_size c"
      using l by (metis bucket_to_size_def in_set_conv_nth)
    have "sorted bucket_sizes" by (simp add: bucket_sizes_def)
    moreover have "b \<le> c" using m c b(4) by (meson leD leI)
    ultimately show "bucket_to_size b \<le> m"
      using c l by (simp add: bucket_to_size_def sorted_nth_mono)
  qed
  then show ?thesis using True frame_malloc_roundup_bucket [OF n b(2)] by simp
qed (simp add: frame_malloc_roundup_def FRAME_MALLOC_MAX_SIZE_def)

end
