(* ===== verification/Mutex.thy ===== *)
theory Mutex
  imports Prelude
begin

text \<open>
  The runtime's mutexes: \<^verbatim>\<open>spin_mutex.c\<close> and \<^verbatim>\<open>worker_mutex.c\<close>, and the protocol by which a worker
  takes its own lock ahead of its thieves (\<^verbatim>\<open>__cilkrts_worker_lock\<close>, \<^verbatim>\<open>worker_trylock_other\<close> of
  \<^verbatim>\<open>scheduler.c\<close>). The operations are given twice: as functions on the mutex, for code that runs
  without interference, and as step relations over interleaved threads, one step per access to
  shared memory. Threads are worker addresses, so never 0, the null owner.
\<close>

section \<open>The operations\<close>

record mutex =
  m_lock :: bool
  m_owner :: nat

text \<open>\<^verbatim>\<open>TRY_ACQUIRE\<close> is an unconditional exchange with 1; \<^verbatim>\<open>RELEASE\<close> stores 0.\<close>

definition try_acquire :: "mutex \<Rightarrow> bool \<times> mutex" where
  "try_acquire m = (\<not> m_lock m, m\<lparr>m_lock := True\<rparr>)"

definition release_lock :: "mutex \<Rightarrow> mutex" where
  "release_lock m = m\<lparr>m_lock := False\<rparr>"

definition spin_mutex_init :: "mutex \<Rightarrow> mutex" where
  "spin_mutex_init m = m\<lparr>m_lock := False\<rparr>"

definition spin_mutex_trylock :: "mutex \<Rightarrow> bool \<times> mutex" where
  "spin_mutex_trylock m = try_acquire m"

definition spin_mutex_unlock :: "mutex \<Rightarrow> mutex" where
  "spin_mutex_unlock m = release_lock m"

definition mutex_init :: mutex where
  "mutex_init = \<lparr>m_lock = False, m_owner = 0\<rparr>"

text \<open>Without another thread to release it, the spin loop of a taken mutex does not end: \<^const>\<open>None\<close>.\<close>

definition mutex_lock :: "nat \<Rightarrow> mutex \<Rightarrow> mutex proc" where
  "mutex_lock w m = (case try_acquire m of
      (False, m) \<Rightarrow> None
    | (True, m) \<Rightarrow> do { assert_c (m_owner m = 0); Some (m\<lparr>m_owner := w\<rparr>) })"

definition mutex_trylock :: "nat \<Rightarrow> mutex \<Rightarrow> (bool \<times> mutex) proc" where
  "mutex_trylock w m = (case try_acquire m of
      (True, m) \<Rightarrow> do { assert_c (m_owner m = 0); Some (True, m\<lparr>m_owner := w\<rparr>) }
    | (False, m) \<Rightarrow> Some (False, m))"

definition mutex_unlock :: "nat \<Rightarrow> mutex \<Rightarrow> mutex proc" where
  "mutex_unlock w m = do {
     assert_c (m_owner m = w);
     let m = m\<lparr>m_owner := 0\<rparr>;
     Some (release_lock m) }"

lemma mutex_lock_free [simp]:
  "mutex_lock w \<lparr>m_lock = False, m_owner = 0\<rparr> = Some \<lparr>m_lock = True, m_owner = w\<rparr>"
  by (simp add: mutex_lock_def try_acquire_def)

lemma mutex_unlock_own [simp]:
  "mutex_unlock w \<lparr>m_lock = True, m_owner = w\<rparr> = Some \<lparr>m_lock = False, m_owner = 0\<rparr>"
  by (simp add: mutex_unlock_def release_lock_def)

section \<open>Interleaved threads on one mutex\<close>

text \<open>
  The control points of a thread: outside, in the spin loop of \<^verbatim>\<open>__cilkrts_mutex_lock\<close>, after a
  successful exchange, before the store of the owner, inside, before the owner is cleared, before
  the release, or stopped by a failed assertion.
\<close>

datatype mutex_pc = Outside | Spinning | Acquired | Owning | Inside | Clearing | Releasing | Stopped

inductive mutex_step :: "mutex \<times> (nat \<Rightarrow> mutex_pc) \<Rightarrow> mutex \<times> (nat \<Rightarrow> mutex_pc) \<Rightarrow> bool" where
  enter: "t \<noteq> 0 \<Longrightarrow> p t = Outside \<Longrightarrow> mutex_step (m, p) (m, p(t := Spinning))"
| spin: "p t = Spinning \<Longrightarrow> try_acquire m = (b, m') \<Longrightarrow>
    mutex_step (m, p) (m', p(t := if b then Acquired else Spinning))"
| trylock: "t \<noteq> 0 \<Longrightarrow> p t = Outside \<Longrightarrow> try_acquire m = (b, m') \<Longrightarrow>
    mutex_step (m, p) (m', p(t := if b then Acquired else Outside))"
| assert_free: "p t = Acquired \<Longrightarrow> mutex_step (m, p) (m, p(t := if m_owner m = 0 then Owning else Stopped))"
| own: "p t = Owning \<Longrightarrow> mutex_step (m, p) (m\<lparr>m_owner := t\<rparr>, p(t := Inside))"
| assert_own: "p t = Inside \<Longrightarrow> mutex_step (m, p) (m, p(t := if m_owner m = t then Clearing else Stopped))"
| clear: "p t = Clearing \<Longrightarrow> mutex_step (m, p) (m\<lparr>m_owner := 0\<rparr>, p(t := Releasing))"
| release: "p t = Releasing \<Longrightarrow> mutex_step (m, p) (release_lock m, p(t := Outside))"

definition holds_lock :: "mutex_pc \<Rightarrow> bool" where
  "holds_lock c \<longleftrightarrow> c \<in> {Acquired, Owning, Inside, Clearing, Releasing}"

text \<open>The invariant, for the thread \<open>h\<close> that holds the lock, if there is one.\<close>

definition mutex_held :: "nat option \<Rightarrow> mutex \<Rightarrow> (nat \<Rightarrow> mutex_pc) \<Rightarrow> bool" where
  "mutex_held h m p \<longleftrightarrow> (\<forall>t. holds_lock (p t) \<longleftrightarrow> h = Some t) \<and> (\<forall>t. p t \<noteq> Stopped) \<and>
     (m_lock m \<longleftrightarrow> h \<noteq> None) \<and>
     m_owner m = (case h of None \<Rightarrow> 0 | Some t \<Rightarrow> if p t \<in> {Inside, Clearing} then t else 0)"

lemma holds_lock_simps [simp]:
  "holds_lock Acquired" "holds_lock Owning" "holds_lock Inside" "holds_lock Clearing" "holds_lock Releasing"
  "\<not> holds_lock Outside" "\<not> holds_lock Spinning" "\<not> holds_lock Stopped"
  by (simp_all add: holds_lock_def)

lemma mutex_held_at: "mutex_held h m p \<Longrightarrow> holds_lock (p t) \<Longrightarrow> h = Some t"
  by (simp add: mutex_held_def)

lemma mutex_held_not: "mutex_held h m p \<Longrightarrow> \<not> holds_lock (p t) \<Longrightarrow> h \<noteq> Some t"
  by (auto simp: mutex_held_def)

lemma mutex_step_held:
  assumes "mutex_step (m, p) (m', p')" "mutex_held h m p"
  shows "\<exists>h'. mutex_held h' m' p'"
  using assms(1)
proof cases
  case (enter t)
  moreover from this have "h \<noteq> Some t" using mutex_held_not [OF assms(2), of t] by simp
  ultimately have "mutex_held h m' p'" using assms(2) by (auto simp: mutex_held_def split: option.splits)
  then show ?thesis ..
next
  case (spin t b)
  moreover from this have "h \<noteq> Some t" using mutex_held_not [OF assms(2), of t] by simp
  ultimately have "mutex_held (if b then Some t else h) m' p'"
    using assms(2) by (auto simp: mutex_held_def try_acquire_def split: option.splits)
  then show ?thesis ..
next
  case (trylock t b)
  moreover from this have "h \<noteq> Some t" using mutex_held_not [OF assms(2), of t] by simp
  ultimately have "mutex_held (if b then Some t else h) m' p'"
    using assms(2) by (auto simp: mutex_held_def try_acquire_def split: option.splits)
  then show ?thesis ..
next
  case (assert_free t)
  then have "h = Some t" using mutex_held_at [OF assms(2), of t] by simp
  then have "mutex_held h m' p'" using assms(2) assert_free by (auto simp: mutex_held_def)
  then show ?thesis ..
next
  case (own t)
  then have "h = Some t" using mutex_held_at [OF assms(2), of t] by simp
  then have "mutex_held h m' p'" using assms(2) own by (auto simp: mutex_held_def)
  then show ?thesis ..
next
  case (assert_own t)
  then have "h = Some t" using mutex_held_at [OF assms(2), of t] by simp
  then have "mutex_held h m' p'" using assms(2) assert_own by (auto simp: mutex_held_def)
  then show ?thesis ..
next
  case (clear t)
  then have "h = Some t" using mutex_held_at [OF assms(2), of t] by simp
  then have "mutex_held h m' p'" using assms(2) clear by (auto simp: mutex_held_def)
  then show ?thesis ..
next
  case (release t)
  then have "h = Some t" using mutex_held_at [OF assms(2), of t] by simp
  then have "mutex_held None m' p'" using assms(2) release by (auto simp: mutex_held_def release_lock_def)
  then show ?thesis ..
qed

lemma mutex_reach_held:
  assumes "mutex_step\<^sup>*\<^sup>* (mutex_init, \<lambda>_. Outside) (m, p)"
  shows "\<exists>h. mutex_held h m p"
  using assms
proof (induction "(m, p)" arbitrary: m p rule: rtranclp_induct)
  case base
  have "mutex_held None mutex_init (\<lambda>_. Outside)" by (simp add: mutex_held_def mutex_init_def)
  then show ?case ..
next
  case (step c)
  then show ?case using mutex_step_held by (cases c) blast
qed

section \<open>A worker and its thieves\<close>

text \<open>
  \<^verbatim>\<open>__cilkrts_worker_lock\<close> raises \<open>do_not_steal\<close> before it competes for the worker's lock; a thief
  that uses \<^verbatim>\<open>worker_trylock_other\<close> (a batch thief, \<^verbatim>\<open>random_steal_batch\<close>) competes for \<open>steal_lock\<close>, tries
  the lock only when the flag is down, and gives \<open>steal_lock\<close> back. Other threads lock the worker's mutex
  directly and look at neither (\<^verbatim>\<open>random_steal\<close>, line 1047 of \<^verbatim>\<open>scheduler.c\<close>; \<^verbatim>\<open>deque_suspend\<close>, line 598 of \<^verbatim>\<open>deque.c\<close>;
  \<^verbatim>\<open>deque_pool.c\<close>), and so does the worker itself (\<^verbatim>\<open>deque.c\<close>, line 460). Each lock operation is one step here;
  a failed try and a turn of a spin loop change nothing. The last two components count how often a thief with
  \<^verbatim>\<open>worker_trylock_other\<close>, and how often another thread, acquired the lock since the flag was raised.
\<close>

datatype owner_pc = O_Out | O_Flagged | O_In | O_Unlocked | O_Plain
datatype thief_pc = T_Out | T_Steal_Lock | T_Flag_Down | T_Got | T_Missed | T_In | T_Plain

record wl_state =
  wl_lock :: "nat option"
  wl_steal_lock :: "nat option"
  wl_do_not_steal :: bool
  wl_owner :: owner_pc
  wl_thief :: "nat \<Rightarrow> thief_pc"
  wl_count :: nat
  wl_plain_count :: nat

inductive wl_step :: "wl_state \<Rightarrow> wl_state \<Rightarrow> bool" where
  flag: "wl_owner s = O_Out \<Longrightarrow>
    wl_step s (s\<lparr>wl_do_not_steal := True, wl_owner := O_Flagged, wl_count := 0, wl_plain_count := 0\<rparr>)"
| lock: "wl_owner s = O_Flagged \<Longrightarrow> wl_lock s = None \<Longrightarrow>
    wl_step s (s\<lparr>wl_lock := Some 0, wl_owner := O_In\<rparr>)"
| unlock: "wl_owner s = O_In \<Longrightarrow> wl_step s (s\<lparr>wl_lock := None, wl_owner := O_Unlocked\<rparr>)"
| unflag: "wl_owner s = O_Unlocked \<Longrightarrow> wl_step s (s\<lparr>wl_do_not_steal := False, wl_owner := O_Out\<rparr>)"
| try_steal: "t \<noteq> 0 \<Longrightarrow> wl_thief s t = T_Out \<Longrightarrow> wl_steal_lock s = None \<Longrightarrow>
    wl_step s (s\<lparr>wl_steal_lock := Some t, wl_thief := (wl_thief s)(t := T_Steal_Lock)\<rparr>)"
| read_flag: "wl_thief s t = T_Steal_Lock \<Longrightarrow>
    wl_step s (s\<lparr>wl_thief := (wl_thief s)(t := if wl_do_not_steal s then T_Missed else T_Flag_Down)\<rparr>)"
| got: "wl_thief s t = T_Flag_Down \<Longrightarrow> wl_lock s = None \<Longrightarrow>
    wl_step s (s\<lparr>wl_lock := Some t, wl_thief := (wl_thief s)(t := T_Got), wl_count := Suc (wl_count s)\<rparr>)"
| missed: "wl_thief s t = T_Flag_Down \<Longrightarrow> wl_lock s \<noteq> None \<Longrightarrow>
    wl_step s (s\<lparr>wl_thief := (wl_thief s)(t := T_Missed)\<rparr>)"
| leave_steal: "wl_thief s t = T_Missed \<Longrightarrow>
    wl_step s (s\<lparr>wl_steal_lock := None, wl_thief := (wl_thief s)(t := T_Out)\<rparr>)"
| enter_cs: "wl_thief s t = T_Got \<Longrightarrow>
    wl_step s (s\<lparr>wl_steal_lock := None, wl_thief := (wl_thief s)(t := T_In)\<rparr>)"
| unlock_other: "wl_thief s t = T_In \<Longrightarrow>
    wl_step s (s\<lparr>wl_lock := None, wl_thief := (wl_thief s)(t := T_Out)\<rparr>)"
| plain_lock: "t \<noteq> 0 \<Longrightarrow> wl_thief s t = T_Out \<Longrightarrow> wl_lock s = None \<Longrightarrow>
    wl_step s (s\<lparr>wl_lock := Some t, wl_thief := (wl_thief s)(t := T_Plain), wl_plain_count := Suc (wl_plain_count s)\<rparr>)"
| plain_unlock: "wl_thief s t = T_Plain \<Longrightarrow>
    wl_step s (s\<lparr>wl_lock := None, wl_thief := (wl_thief s)(t := T_Out)\<rparr>)"
| own_plain_lock: "wl_owner s = O_Out \<Longrightarrow> wl_lock s = None \<Longrightarrow>
    wl_step s (s\<lparr>wl_lock := Some 0, wl_owner := O_Plain\<rparr>)"
| own_plain_unlock: "wl_owner s = O_Plain \<Longrightarrow> wl_step s (s\<lparr>wl_lock := None, wl_owner := O_Out\<rparr>)"

definition wl_init :: wl_state where
  "wl_init = \<lparr>wl_lock = None, wl_steal_lock = None, wl_do_not_steal = False, wl_owner = O_Out,
     wl_thief = (\<lambda>_. T_Out), wl_count = 0, wl_plain_count = 0\<rparr>"

definition holds_steal :: "thief_pc \<Rightarrow> bool" where
  "holds_steal c \<longleftrightarrow> c \<in> {T_Steal_Lock, T_Flag_Down, T_Got, T_Missed}"

definition holds_other :: "thief_pc \<Rightarrow> bool" where
  "holds_other c \<longleftrightarrow> c \<in> {T_Got, T_In, T_Plain}"

lemma holds_thief_simps [simp]:
  "holds_steal T_Steal_Lock" "holds_steal T_Flag_Down" "holds_steal T_Got" "holds_steal T_Missed"
  "\<not> holds_steal T_Out" "\<not> holds_steal T_In" "\<not> holds_steal T_Plain" "holds_other T_Got" "holds_other T_In" "holds_other T_Plain"
  "\<not> holds_other T_Steal_Lock" "\<not> holds_other T_Flag_Down" "\<not> holds_other T_Missed" "\<not> holds_other T_Out"
  by (simp_all add: holds_steal_def holds_other_def)

definition wl_ok :: "wl_state \<Rightarrow> bool" where
  "wl_ok s \<longleftrightarrow> (\<forall>t. holds_steal (wl_thief s t) \<longleftrightarrow> wl_steal_lock s = Some t) \<and>
     (\<forall>t. t \<noteq> 0 \<longrightarrow> holds_other (wl_thief s t) = (wl_lock s = Some t)) \<and> wl_thief s 0 = T_Out \<and>
     (wl_owner s \<in> {O_In, O_Plain} \<longleftrightarrow> wl_lock s = Some 0) \<and>
     (wl_do_not_steal s \<longleftrightarrow> wl_owner s \<notin> {O_Out, O_Plain}) \<and>
     (wl_owner s \<notin> {O_Out, O_Plain} \<longrightarrow> wl_count s \<le> 1) \<and>
     (\<forall>t. wl_owner s \<notin> {O_Out, O_Plain} \<and> wl_count s \<noteq> 0 \<longrightarrow> wl_thief s t \<noteq> T_Flag_Down)"

lemma wl_steal_iff: "wl_ok s \<Longrightarrow> holds_steal (wl_thief s t) = (wl_steal_lock s = Some t)"
  by (simp add: wl_ok_def)

lemma wl_steal_at: "wl_ok s \<Longrightarrow> holds_steal (wl_thief s t) \<Longrightarrow> wl_steal_lock s = Some t"
  by (simp add: wl_ok_def)

lemma wl_lock_at: "wl_ok s \<Longrightarrow> t \<noteq> 0 \<Longrightarrow> holds_other (wl_thief s t) = (wl_lock s = Some t)"
  by (simp add: wl_ok_def)

lemma wl_flag_down_unique:
  assumes "wl_ok s" "wl_thief s t = T_Flag_Down" "wl_thief s u = T_Flag_Down"
  shows "u = t"
  using wl_steal_at [OF assms(1), of t] wl_steal_at [OF assms(1), of u] assms(2,3) by simp

lemma wl_steal_upd:
  assumes "wl_ok s" "wl_thief s t = c" "holds_steal c = holds_steal c'"
  shows "\<forall>u. holds_steal (((wl_thief s)(t := c')) u) \<longleftrightarrow> wl_steal_lock s = Some u"
  using assms by (auto simp: wl_ok_def)

lemma wl_step_ok:
  assumes "wl_step s s'" "wl_ok s"
  shows "wl_ok s'"
  using assms(1)
proof cases
  case (got t)
  have c: "wl_owner s \<notin> {O_Out, O_Plain} \<Longrightarrow> wl_count s = 0" using got assms(2) by (auto simp: wl_ok_def)
  have f: "wl_thief s u \<noteq> T_Flag_Down" if "u \<noteq> t" for u
    using wl_flag_down_unique [OF assms(2) got(2)] that by blast
  have "\<forall>u. holds_steal (((wl_thief s)(t := T_Got)) u) \<longleftrightarrow> wl_steal_lock s = Some u"
    by (rule wl_steal_upd [OF assms(2) got(2)]) simp
  moreover have "t \<noteq> 0" using got(2) assms(2) by (cases "t = 0") (auto simp: wl_ok_def)
  ultimately show ?thesis using assms(2) got c f by (simp add: wl_ok_def)
next
  case (flag)
  then show ?thesis using assms(2) by (simp add: wl_ok_def)
next
  case (lock)
  then show ?thesis using assms(2) by (simp add: wl_ok_def)
next
  case (unlock)
  then show ?thesis using assms(2) by (simp add: wl_ok_def)
next
  case (unflag)
  then show ?thesis using assms(2) by (simp add: wl_ok_def)
next
  case (try_steal t)
  then have "wl_lock s \<noteq> Some t" using wl_lock_at [OF assms(2), of t] by simp
  then show ?thesis using try_steal assms(2) by (simp add: wl_ok_def)
next
  case (read_flag t)
  have "wl_steal_lock s = Some t" using wl_steal_at [OF assms(2), of t] read_flag by simp
  moreover have "t \<noteq> 0" using read_flag(2) assms(2) by (cases "t = 0") (auto simp: wl_ok_def)
  moreover have "wl_lock s \<noteq> Some t" using wl_lock_at [OF assms(2), of t] \<open>t \<noteq> 0\<close> read_flag by simp
  ultimately show ?thesis using assms(2) read_flag by (simp add: wl_ok_def)
next
  case (missed t)
  have "\<forall>u. holds_steal (((wl_thief s)(t := T_Missed)) u) \<longleftrightarrow> wl_steal_lock s = Some u"
    by (rule wl_steal_upd [OF assms(2) missed(2)]) simp
  moreover have "t \<noteq> 0" using missed(2) assms(2) by (cases "t = 0") (auto simp: wl_ok_def)
  ultimately show ?thesis using assms(2) missed wl_lock_at [OF assms(2), of t] by (simp add: wl_ok_def)
next
  case (leave_steal t)
  have st: "wl_steal_lock s = Some t" using wl_steal_at [OF assms(2), of t] leave_steal by simp
  moreover have "t \<noteq> 0" using leave_steal(2) assms(2) by (cases "t = 0") (auto simp: wl_ok_def)
  moreover have "wl_lock s \<noteq> Some t" using wl_lock_at [OF assms(2), of t] \<open>t \<noteq> 0\<close> leave_steal by simp
  ultimately show ?thesis using assms(2) leave_steal by (simp add: wl_ok_def)
next
  case (enter_cs t)
  have st: "wl_steal_lock s = Some t" using wl_steal_at [OF assms(2), of t] enter_cs by simp
  moreover have "t \<noteq> 0" using enter_cs(2) assms(2) by (cases "t = 0") (auto simp: wl_ok_def)
  moreover have "wl_lock s = Some t" using wl_lock_at [OF assms(2), of t] \<open>t \<noteq> 0\<close> enter_cs by simp
  ultimately show ?thesis using assms(2) enter_cs by (simp add: wl_ok_def)
next
  case (unlock_other t)
  have "t \<noteq> 0" using unlock_other(2) assms(2) by (cases "t = 0") (auto simp: wl_ok_def)
  moreover have "wl_lock s = Some t" using wl_lock_at [OF assms(2), of t] \<open>t \<noteq> 0\<close> unlock_other by simp
  moreover have "wl_steal_lock s \<noteq> Some t" using wl_steal_iff [OF assms(2), of t] unlock_other by simp
  ultimately show ?thesis using assms(2) unlock_other by (simp add: wl_ok_def)
next
  case (plain_lock t)
  have "wl_steal_lock s \<noteq> Some t" using wl_steal_iff [OF assms(2), of t] plain_lock by simp
  then show ?thesis using assms(2) plain_lock by (simp add: wl_ok_def)
next
  case (plain_unlock t)
  have "t \<noteq> 0" using plain_unlock(2) assms(2) by (cases "t = 0") (auto simp: wl_ok_def)
  moreover have "wl_lock s = Some t" using wl_lock_at [OF assms(2), of t] \<open>t \<noteq> 0\<close> plain_unlock by simp
  moreover have "wl_steal_lock s \<noteq> Some t" using wl_steal_iff [OF assms(2), of t] plain_unlock by simp
  ultimately show ?thesis using assms(2) plain_unlock by (simp add: wl_ok_def)
next
  case (own_plain_lock)
  then show ?thesis using assms(2) by (simp add: wl_ok_def)
next
  case (own_plain_unlock)
  then show ?thesis using assms(2) by (simp add: wl_ok_def)
qed

lemma wl_ok_init: "wl_ok wl_init"
  by (simp add: wl_ok_def wl_init_def)

lemma wl_reach_ok: "wl_step\<^sup>*\<^sup>* wl_init s \<Longrightarrow> wl_ok s"
  by (induction rule: rtranclp_induct) (simp_all add: wl_ok_init wl_step_ok)

text \<open>
  The comment in \<^verbatim>\<open>worker_trylock_other\<close> promises that a worker waits for at most two thieves. The threads that lock its mutex
  directly break that: any number of times they can get ahead of a worker that has raised its flag.
\<close>

lemma plain_lockers_overtake:
  "\<exists>s. wl_step\<^sup>*\<^sup>* wl_init s \<and> wl_owner s = O_Flagged \<and> wl_lock s = None \<and> wl_thief s = (\<lambda>_. T_Out) \<and> wl_plain_count s = k"
proof (induction k)
  case 0
  have "wl_step wl_init (wl_init\<lparr>wl_do_not_steal := True, wl_owner := O_Flagged, wl_count := 0, wl_plain_count := 0\<rparr>)"
    by (rule wl_step.flag) (simp add: wl_init_def)
  then show ?case by (intro exI conjI, rule r_into_rtranclp) (simp_all add: wl_init_def)
next
  case (Suc k)
  then obtain s where s: "wl_step\<^sup>*\<^sup>* wl_init s" "wl_owner s = O_Flagged" "wl_lock s = None" "wl_thief s = (\<lambda>_. T_Out)" "wl_plain_count s = k"
    by blast
  let ?s1 = "s\<lparr>wl_lock := Some 5, wl_thief := (wl_thief s)(5 := T_Plain), wl_plain_count := Suc (wl_plain_count s)\<rparr>"
  let ?s2 = "?s1\<lparr>wl_lock := None, wl_thief := (wl_thief ?s1)(5 := T_Out)\<rparr>"
  have "wl_step s ?s1" by (rule wl_step.plain_lock) (simp_all add: s)
  moreover have "wl_step ?s1 ?s2" by (rule wl_step.plain_unlock) simp
  ultimately have "wl_step\<^sup>*\<^sup>* wl_init ?s2" using s(1) by (meson rtranclp.rtrancl_into_rtrancl)
  then show ?case using s by (intro exI [of _ ?s2] conjI) auto
qed

section \<open>Properties\<close>

text \<open>C14. The worker mutex is a lock: however the accesses of any number of threads interleave, at
  most one thread is between its successful exchange and its release, the lock word is set exactly
  when there is one, and none of the three ownership assertions of \<^verbatim>\<open>worker_mutex.c\<close> fails.\<close>

theorem worker_mutex_exclusion:
  assumes "mutex_step\<^sup>*\<^sup>* (mutex_init, \<lambda>_. Outside) (m, p)"
  shows "(\<forall>t. p t \<noteq> Stopped) \<and> (\<forall>t u. holds_lock (p t) \<and> holds_lock (p u) \<longrightarrow> t = u) \<and>
    (m_lock m \<longleftrightarrow> (\<exists>t. holds_lock (p t))) \<and> (\<forall>t. p t = Inside \<longrightarrow> m_owner m = t)"
proof -
  from mutex_reach_held [OF assms] obtain h where h: "mutex_held h m p" ..
  have "m_owner m = t" if "p t = Inside" for t
    using mutex_held_at [OF h, of t] h that by (simp add: mutex_held_def)
  moreover have "t = u" if "holds_lock (p t)" "holds_lock (p u)" for t u
    using mutex_held_at [OF h that(1)] mutex_held_at [OF h that(2)] by simp
  moreover have "m_lock m \<longleftrightarrow> (\<exists>t. holds_lock (p t))" using h by (auto simp: mutex_held_def)
  moreover have "\<forall>t. p t \<noteq> Stopped" using h by (simp add: mutex_held_def)
  ultimately show ?thesis by blast
qed

theorem worker_mutex_exclusion_witness:
  "\<exists>m p. mutex_step\<^sup>*\<^sup>* (mutex_init, \<lambda>_. Outside) (m, p) \<and> p 7 = Inside \<and> p 8 = Spinning \<and> m_owner m = 7 \<and>
    m_lock m"
proof -
  let ?p = "(\<lambda>_. Outside) :: nat \<Rightarrow> mutex_pc"
  let ?m1 = "\<lparr>m_lock = True, m_owner = 0\<rparr>" and ?m2 = "\<lparr>m_lock = True, m_owner = 7\<rparr>"
  have 1: "mutex_step (mutex_init, ?p) (?m1, ?p(7 := Acquired))"
    using mutex_step.trylock [of 7 ?p mutex_init True ?m1] by (simp add: try_acquire_def mutex_init_def)
  have 2: "mutex_step (?m1, ?p(7 := Acquired)) (?m1, ?p(7 := Owning))"
    using mutex_step.assert_free [of "?p(7 := Acquired)" 7 ?m1] by simp
  have 3: "mutex_step (?m1, ?p(7 := Owning)) (?m2, ?p(7 := Inside))"
    using mutex_step.own [of "?p(7 := Owning)" 7 ?m1] by simp
  have 4: "mutex_step (?m2, ?p(7 := Inside)) (?m2, ?p(7 := Inside, 8 := Spinning))"
    using mutex_step.enter [of 8 "?p(7 := Inside)" ?m2] by simp
  have r: "mutex_step\<^sup>*\<^sup>* (mutex_init, ?p) (?m2, ?p(7 := Inside, 8 := Spinning))"
    using 1 2 3 4 by (meson converse_rtranclp_into_rtranclp r_into_rtranclp)
  from worker_mutex_exclusion [OF this] have "m_lock ?m2" by simp
  with r show ?thesis by (intro exI [of _ ?m2] exI [of _ "?p(7 := Inside, 8 := Spinning)"]) simp
qed

text \<open>C15. What \<open>do_not_steal\<close> and \<open>steal_lock\<close> achieve among the threads that compete for a worker's lock: from the
  moment the worker has raised \<open>do_not_steal\<close> until it has its lock and gives it back, at most one thief that goes through
  \<^verbatim>\<open>worker_trylock_other\<close> acquires the lock; and the worker, the thieves and all threads that lock the mutex
  directly exclude each other. The direct lockers (\<^verbatim>\<open>random_steal\<close> among them) are steps of the model and are not bounded: they
  ignore both fields.\<close>

theorem worker_lock_bounded_waiting:
  assumes "wl_step\<^sup>*\<^sup>* wl_init s"
  shows "(wl_do_not_steal s \<longrightarrow> wl_count s \<le> 1) \<and>
    (wl_owner s \<in> {O_In, O_Plain} \<longrightarrow> (\<forall>t. wl_thief s t \<notin> {T_Got, T_In, T_Plain})) \<and>
    (\<forall>t u. wl_thief s t \<in> {T_Got, T_In, T_Plain} \<and> wl_thief s u \<in> {T_Got, T_In, T_Plain} \<longrightarrow> t = u)"
proof -
  have ok: "wl_ok s" by (rule wl_reach_ok [OF assms])
  have l: "wl_lock s = Some t \<and> t \<noteq> 0" if "wl_thief s t \<in> {T_Got, T_In, T_Plain}" for t
  proof -
    have "t \<noteq> 0" using ok that by (cases "t = 0") (auto simp: wl_ok_def)
    then show ?thesis using wl_lock_at [OF ok, of t] that by (simp add: holds_other_def)
  qed
  have "wl_owner s \<in> {O_In, O_Plain} \<Longrightarrow> wl_lock s = Some 0" using ok unfolding wl_ok_def by blast
  moreover have "wl_do_not_steal s \<Longrightarrow> wl_count s \<le> 1" using ok unfolding wl_ok_def by blast
  ultimately show ?thesis using l by (metis option.inject)
qed

theorem worker_lock_bounded_waiting_witness:
  "\<exists>s. wl_step\<^sup>*\<^sup>* wl_init s \<and> wl_owner s = O_Flagged \<and> wl_do_not_steal s \<and> wl_count s = 1 \<and> wl_plain_count s = 1"
proof -
  let ?s1 = "wl_init\<lparr>wl_steal_lock := Some 5, wl_thief := (wl_thief wl_init)(5 := T_Steal_Lock)\<rparr>"
  let ?s2 = "?s1\<lparr>wl_thief := (wl_thief ?s1)(5 := T_Flag_Down)\<rparr>"
  let ?s3 = "?s2\<lparr>wl_do_not_steal := True, wl_owner := O_Flagged, wl_count := 0, wl_plain_count := 0\<rparr>"
  let ?p1 = "?s3\<lparr>wl_lock := Some 6, wl_thief := (wl_thief ?s3)(6 := T_Plain), wl_plain_count := Suc (wl_plain_count ?s3)\<rparr>"
  let ?p2 = "?p1\<lparr>wl_lock := None, wl_thief := (wl_thief ?p1)(6 := T_Out)\<rparr>"
  let ?s4 = "?p2\<lparr>wl_lock := Some 5, wl_thief := (wl_thief ?p2)(5 := T_Got), wl_count := Suc (wl_count ?p2)\<rparr>"
  have 1: "wl_step wl_init ?s1" by (rule wl_step.try_steal) (simp_all add: wl_init_def)
  have 2: "wl_step ?s1 ?s2" using wl_step.read_flag [of ?s1 5] by (simp add: wl_init_def)
  have 3: "wl_step ?s2 ?s3" by (rule wl_step.flag) (simp add: wl_init_def)
  have 4: "wl_step ?s3 ?p1" by (rule wl_step.plain_lock) (simp_all add: wl_init_def)
  have 5: "wl_step ?p1 ?p2" by (rule wl_step.plain_unlock) simp
  have 6: "wl_step ?p2 ?s4" by (rule wl_step.got) (simp_all add: wl_init_def)
  have "wl_step\<^sup>*\<^sup>* wl_init ?s3" using 1 2 3 by (meson converse_rtranclp_into_rtranclp r_into_rtranclp)
  then have r: "wl_step\<^sup>*\<^sup>* wl_init ?s4" using 4 5 6 by (meson rtranclp.rtrancl_into_rtrancl)
  from worker_lock_bounded_waiting [OF this] r show ?thesis by (intro exI [of _ ?s4]) simp
qed

end
