(* ===== verification/Signal_Node.thy ===== *)
theory Signal_Node
  imports Prelude
begin

text \<open>
  Waking and sleeping workers: \<^verbatim>\<open>signal_node.c\<close> on Linux. A node is the \<^verbatim>\<open>run\<close> word and a
  counting semaphore; waiting on the semaphore is possible when its count is positive and takes
  one from it. The interleaving of a waiting worker with senders of messages is a step relation
  with one step per shared access.
\<close>

record signal_node =
  sn_run :: nat
  sn_sem :: nat

definition initialize_cilk_semaphore :: nat where
  "initialize_cilk_semaphore = 0"

definition signal_cilk_semaphore :: "nat \<Rightarrow> nat" where
  "signal_cilk_semaphore sem = sem + 1"

text \<open>\<^const>\<open>None\<close>: the caller blocks. (\<^verbatim>\<open>sem_wait\<close> is retried when a signal handler interrupts it.)\<close>

definition wait_on_cilk_semaphore :: "nat \<Rightarrow> nat option" where
  "wait_on_cilk_semaphore sem = (if sem = 0 then None else Some (sem - 1))"

definition signal_node_create :: signal_node where
  "signal_node_create = \<lparr>sn_run = 0, sn_sem = initialize_cilk_semaphore\<rparr>"

definition signal_node_should_wait :: "signal_node \<Rightarrow> bool" where
  "signal_node_should_wait n = (sn_run n = 0)"

definition signal_node_msg :: "signal_node \<Rightarrow> nat \<Rightarrow> signal_node proc" where
  "signal_node_msg n msg =
     (if msg = 0 then Some (n\<lparr>sn_run := msg\<rparr>)
      else if msg = 1 then Some (n\<lparr>sn_run := msg, sn_sem := signal_cilk_semaphore (sn_sem n)\<rparr>)
      else None)"

text \<open>The loop of \<^verbatim>\<open>signal_node_wait\<close> without interference; \<^const>\<open>None\<close> when it would block for ever.\<close>

function signal_node_wait :: "signal_node \<Rightarrow> signal_node option" where
  "signal_node_wait n = (if signal_node_should_wait n
     then (case wait_on_cilk_semaphore (sn_sem n) of
             None \<Rightarrow> None
           | Some sem \<Rightarrow> signal_node_wait (n\<lparr>sn_sem := sem\<rparr>))
     else Some n)"
  by pat_completeness auto
termination
  by (relation "measure sn_sem") (auto simp: wait_on_cilk_semaphore_def split: if_splits)

declare signal_node_wait.simps [simp del]

lemma signal_node_wait_run:
  "signal_node_wait n = (if sn_run n = 0 then None else Some n)"
proof (induction n rule: signal_node_wait.induct)
  case (1 n)
  then show ?case
    by (subst signal_node_wait.simps)
      (auto simp: signal_node_should_wait_def wait_on_cilk_semaphore_def)
qed

section \<open>A waiting worker and the senders\<close>

text \<open>
  The worker is between calls, about to read \<^verbatim>\<open>run\<close>, or waiting on the semaphore. A sender of
  message 1 stores \<^verbatim>\<open>run\<close> first and posts the semaphore in a second step; \<open>sn_posts\<close> counts the
  senders between the two. The first argument tells the steps that begin something, a call or a message, from those that
  finish what has begun: the worker's own next accesses and the pending posts.
\<close>

datatype waiter_pc = W_Running | W_Reading | W_Waiting

record sn_state =
  sn_node :: signal_node
  sn_waiter :: waiter_pc
  sn_posts :: nat

inductive sn_step :: "bool \<Rightarrow> sn_state \<Rightarrow> sn_state \<Rightarrow> bool" where
  call: "sn_waiter s = W_Running \<Longrightarrow> sn_step True s (s\<lparr>sn_waiter := W_Reading\<rparr>)"
| read: "sn_waiter s = W_Reading \<Longrightarrow>
    sn_step False s (s\<lparr>sn_waiter := if signal_node_should_wait (sn_node s) then W_Waiting else W_Running\<rparr>)"
| wake: "sn_waiter s = W_Waiting \<Longrightarrow> wait_on_cilk_semaphore (sn_sem (sn_node s)) = Some sem \<Longrightarrow>
    sn_step False s (s\<lparr>sn_node := (sn_node s)\<lparr>sn_sem := sem\<rparr>, sn_waiter := W_Reading\<rparr>)"
| sleep_msg: "sn_step True s (s\<lparr>sn_node := (sn_node s)\<lparr>sn_run := 0\<rparr>\<rparr>)"
| run_msg: "sn_step True s (s\<lparr>sn_node := (sn_node s)\<lparr>sn_run := 1\<rparr>, sn_posts := Suc (sn_posts s)\<rparr>)"
| post: "sn_posts s = Suc k \<Longrightarrow>
    sn_step False s (s\<lparr>sn_node := (sn_node s)\<lparr>sn_sem := signal_cilk_semaphore (sn_sem (sn_node s))\<rparr>, sn_posts := k\<rparr>)"

definition sn_any :: "sn_state \<Rightarrow> sn_state \<Rightarrow> bool" where
  "sn_any s s' \<longleftrightarrow> sn_step True s s' \<or> sn_step False s s'"

definition sn_init :: sn_state where
  "sn_init = \<lparr>sn_node = signal_node_create, sn_waiter = W_Running, sn_posts = 0\<rparr>"

text \<open>A waiter that has been told to run finds, or is about to find, the semaphore posted.\<close>

definition sn_ok :: "sn_state \<Rightarrow> bool" where
  "sn_ok s \<longleftrightarrow> sn_waiter s = W_Waiting \<and> sn_run (sn_node s) \<noteq> 0 \<longrightarrow> 0 < sn_sem (sn_node s) + sn_posts s"

lemma sn_step_ok: "sn_step e s s' \<Longrightarrow> sn_ok s \<Longrightarrow> sn_ok s'"
  by (induction rule: sn_step.induct)
    (auto simp: sn_ok_def signal_node_should_wait_def signal_cilk_semaphore_def split: if_splits)

lemma sn_reach_ok:
  assumes "sn_any\<^sup>*\<^sup>* sn_init s"
  shows "sn_ok s"
  using assms
proof (induction rule: rtranclp_induct)
  case base
  then show ?case by (simp add: sn_init_def sn_ok_def)
qed (auto simp: sn_any_def intro: sn_step_ok)

text \<open>The steps that finish what has begun leave \<open>run\<close> alone and use up pending posts, the semaphore and the worker's next read.\<close>

fun sn_left :: "sn_state \<Rightarrow> nat" where
  "sn_left s = 3 * sn_posts s + 2 * sn_sem (sn_node s) + (if sn_waiter s = W_Reading then 1 else 0)"

lemma sn_quiet_step: "sn_step e s s' \<Longrightarrow> \<not> e \<Longrightarrow> sn_left s' < sn_left s \<and> sn_run (sn_node s') = sn_run (sn_node s)"
  by (induction rule: sn_step.induct) (auto simp: wait_on_cilk_semaphore_def signal_cilk_semaphore_def split: if_splits)

lemma sn_quiet_steps:
  "(sn_step False ^^ k) s s' \<Longrightarrow> sn_ok s \<Longrightarrow> k + sn_left s' \<le> sn_left s \<and> sn_run (sn_node s') = sn_run (sn_node s) \<and> sn_ok s'"
proof (induction k arbitrary: s')
  case (Suc k)
  then obtain t where t: "(sn_step False ^^ k) s t" "sn_step False t s'" by auto
  then show ?case using Suc.IH [OF t(1) Suc.prems(2)] sn_quiet_step [OF t(2)] sn_step_ok [OF t(2)] by auto
qed simp

lemma sn_progress:
  assumes "sn_ok s" "sn_run (sn_node s) \<noteq> 0"
  shows "sn_waiter s = W_Running \<or> (\<exists>s'. sn_step False s s')"
proof (cases "sn_waiter s")
  case W_Waiting
  then have "0 < sn_sem (sn_node s) \<or> 0 < sn_posts s" using assms by (auto simp: sn_ok_def)
  then show ?thesis
  proof
    assume "0 < sn_sem (sn_node s)"
    then have "wait_on_cilk_semaphore (sn_sem (sn_node s)) = Some (sn_sem (sn_node s) - 1)" by (simp add: wait_on_cilk_semaphore_def)
    from sn_step.wake [OF W_Waiting this] show ?thesis by blast
  next
    assume "0 < sn_posts s"
    then obtain k where "sn_posts s = Suc k" by (cases "sn_posts s") auto
    from sn_step.post [OF this] show ?thesis by blast
  qed
qed (use sn_step.read in blast)+

section \<open>Properties\<close>

text \<open>C16. No wake-up is lost. In every interleaving of a worker's waits with run and sleep messages, when the worker waits on
  the semaphore while \<^verbatim>\<open>run\<close> is set, the semaphore has been posted or a sender that has already stored \<^verbatim>\<open>run\<close> is
  about to post it. And no further message is needed: in whatever order the accesses that are due happen (the
  pending posts, the worker's wake-up and its next read), they come to an end after a bounded number, and
  not before the worker has left the loop.\<close>

theorem no_lost_wakeup:
  assumes "sn_any\<^sup>*\<^sup>* sn_init s" "sn_waiter s = W_Waiting" "sn_run (sn_node s) \<noteq> 0"
  shows "0 < sn_sem (sn_node s) + sn_posts s \<and>
    (\<forall>k s'. (sn_step False ^^ k) s s' \<longrightarrow> k \<le> 3 * sn_posts s + 2 * sn_sem (sn_node s) \<and>
      (sn_waiter s' = W_Running \<or> (\<exists>s''. sn_step False s' s'')))"
proof -
  have ok: "sn_ok s" by (rule sn_reach_ok [OF assms(1)])
  then have "0 < sn_sem (sn_node s) + sn_posts s" using assms(2,3) by (simp add: sn_ok_def)
  moreover have "k \<le> 3 * sn_posts s + 2 * sn_sem (sn_node s) \<and> (sn_waiter s' = W_Running \<or> (\<exists>s''. sn_step False s' s''))"
    if "(sn_step False ^^ k) s s'" for k s'
    using sn_quiet_steps [OF that ok] sn_progress [of s'] assms(2,3) by simp
  ultimately show ?thesis by blast
qed

theorem no_lost_wakeup_witness:
  "\<exists>s. sn_any\<^sup>*\<^sup>* sn_init s \<and> sn_waiter s = W_Waiting \<and> sn_sem (sn_node s) = 0 \<and> sn_posts s = 1 \<and> (\<exists>s'. sn_step False s s')"
proof -
  let ?s1 = "sn_init\<lparr>sn_waiter := W_Reading\<rparr>" and ?s2 = "sn_init\<lparr>sn_waiter := W_Waiting\<rparr>"
  let ?s3 = "?s2\<lparr>sn_node := (sn_node ?s2)\<lparr>sn_run := 1\<rparr>, sn_posts := Suc (sn_posts ?s2)\<rparr>"
  have 1: "sn_any sn_init ?s1" unfolding sn_any_def by (rule disjI1, rule sn_step.call) (simp add: sn_init_def)
  have 2: "sn_any ?s1 ?s2" unfolding sn_any_def using sn_step.read [of ?s1]
    by (simp add: signal_node_should_wait_def sn_init_def signal_node_create_def)
  have 3: "sn_any ?s2 ?s3" unfolding sn_any_def by (rule disjI1, rule sn_step.run_msg)
  have r: "sn_any\<^sup>*\<^sup>* sn_init ?s3"
    using 1 2 3 by (meson converse_rtranclp_into_rtranclp r_into_rtranclp)
  have "(sn_step False ^^ 0) ?s3 ?s3" by simp
  moreover have w: "sn_waiter ?s3 = W_Waiting" "sn_run (sn_node ?s3) \<noteq> 0" by simp_all
  ultimately have "sn_waiter ?s3 = W_Running \<or> (\<exists>s'. sn_step False ?s3 s')" using no_lost_wakeup [OF r w] by blast
  then have "\<exists>s'. sn_step False ?s3 s'" by simp
  moreover have "sn_sem (sn_node ?s3) = 0" "sn_posts ?s3 = 1"
    by (simp_all add: sn_init_def signal_node_create_def initialize_cilk_semaphore_def)
  ultimately show ?thesis using r w(1) by blast
qed

text \<open>Without interference \<^verbatim>\<open>signal_node_wait\<close> terminates for every node: it returns at once, and
  changes nothing, when the worker should run, and otherwise consumes all accumulated posts and
  blocks.\<close>

theorem signal_node_wait_alone:
  "signal_node_wait n = (if signal_node_should_wait n then None else Some n)"
  by (simp add: signal_node_wait_run signal_node_should_wait_def)

end
