(* ===== verification/Rt_State.thy ===== *)
theory Rt_State
  imports Prelude Mutex Signal_Node
begin

text \<open>
  The state of the work-stealing runtime (\<^verbatim>\<open>cilkrtssuspend/runtime\<close>): one record per structure of
  the headers, with the fields in the order of the headers, and one heap per structure. Addresses
  are natural numbers and 0 is the null pointer; reading or writing through an address that is
  not in its heap is \<^const>\<open>None\<close>. Fields that only serve statistics, record and replay, Windows or
  padding are left out, as are the fields guarded by \<^verbatim>\<open>PRECOMPUTE_PEDIGREES\<close>, which the runtime's
  build does not define. The allocator's fields of the worker are in \<^theory_text>\<open>Frame_Malloc\<close>.
\<close>

type_synonym ptr = nat

abbreviation (input) NULL :: ptr where "NULL \<equiv> 0"

section \<open>Pedigrees and stack frames\<close>

text \<open>A pedigree node lives in a stack frame, or in the thread-local storage of a user thread.\<close>

datatype ped_ref = Ped_Null | Ped_Frame ptr | Ped_Leaf ptr

record pedigree =
  pd_rank :: "64 word"
  pd_parent :: ped_ref

text \<open>
  \<^verbatim>\<open>struct __cilkrts_stack_frame\<close>. Of the jump buffer only the saved stack and frame pointers are used. The
  two pedigrees share one field, as in the union of the source.
\<close>

record stack_frame =
  sf_flags :: "32 word"
  sf_size :: int
  sf_call_parent :: ptr
  sf_worker :: ptr
  sf_except_data :: ptr
  sf_ctx_sp :: int
  sf_ctx_fp :: int
  sf_reserved :: nat
  sf_pedigree :: pedigree

definition CILK_FRAME_STOLEN :: "32 word" where "CILK_FRAME_STOLEN = 0x01"
definition CILK_FRAME_UNSYNCHED :: "32 word" where "CILK_FRAME_UNSYNCHED = 0x02"
definition CILK_FRAME_DETACHED :: "32 word" where "CILK_FRAME_DETACHED = 0x04"
definition CILK_FRAME_EXCEPTION_PROBED :: "32 word" where "CILK_FRAME_EXCEPTION_PROBED = 0x08"
definition CILK_FRAME_EXCEPTING :: "32 word" where "CILK_FRAME_EXCEPTING = 0x10"
definition CILK_FRAME_SF_PEDIGREE_UNSYNCHED :: "32 word" where "CILK_FRAME_SF_PEDIGREE_UNSYNCHED = 0x20"
definition CILK_FRAME_FUTURE_PARENT :: "32 word" where "CILK_FRAME_FUTURE_PARENT = 0x40"
definition CILK_FRAME_LAST :: "32 word" where "CILK_FRAME_LAST = 0x80"
definition CILK_FRAME_EXITING :: "32 word" where "CILK_FRAME_EXITING = 0x0100"
definition CILK_FRAME_SUSPENDED :: "32 word" where "CILK_FRAME_SUSPENDED = 0x8000"
definition CILK_FRAME_UNWINDING :: "32 word" where "CILK_FRAME_UNWINDING = 0x10000"
definition CILK_FRAME_BATCH :: "32 word" where "CILK_FRAME_BATCH = 0x20000"
definition CILK_FRAME_VERSION_MASK :: "32 word" where "CILK_FRAME_VERSION_MASK = 0xFF000000"
definition CILK_FRAME_FLAGS_MASK :: "32 word" where "CILK_FRAME_FLAGS_MASK = 0x00FFFFFF"

definition CILK_FRAME_VERSION_VALUE :: "32 word \<Rightarrow> 32 word" where
  "CILK_FRAME_VERSION_VALUE fl = drop_bit 24 (fl AND CILK_FRAME_VERSION_MASK)"

lemmas frame_flag_defs = CILK_FRAME_STOLEN_def CILK_FRAME_UNSYNCHED_def CILK_FRAME_DETACHED_def
  CILK_FRAME_EXCEPTION_PROBED_def CILK_FRAME_EXCEPTING_def CILK_FRAME_SF_PEDIGREE_UNSYNCHED_def
  CILK_FRAME_FUTURE_PARENT_def CILK_FRAME_LAST_def CILK_FRAME_EXITING_def CILK_FRAME_SUSPENDED_def
  CILK_FRAME_UNWINDING_def CILK_FRAME_BATCH_def CILK_FRAME_VERSION_MASK_def CILK_FRAME_FLAGS_MASK_def

definition flag_set :: "32 word \<Rightarrow> 32 word \<Rightarrow> bool" where
  "flag_set fl m \<longleftrightarrow> fl AND m \<noteq> 0"

section \<open>Deques\<close>

text \<open>
  \<^verbatim>\<open>struct deque\<close>. The pointers into \<^verbatim>\<open>ltq\<close> and \<^verbatim>\<open>fiber_ltq\<close> are kept as indices, so the limit is
  the length of the queue; the cells of the queues are functions of the index. \<^verbatim>\<open>EXC_INFINITY\<close> is
  \<^const>\<open>None\<close>.
\<close>

record deque =
  dq_tail :: nat
  dq_head :: nat
  dq_exc :: "nat option"
  dq_protected_tail :: nat
  dq_ltq_limit :: nat
  dq_ltq :: "nat \<Rightarrow> ptr"
  dq_fiber_tail :: nat
  dq_fiber_head :: nat
  dq_fiber_protected_tail :: nat
  dq_fiber_ltq_limit :: nat
  dq_fiber_ltq :: "nat \<Rightarrow> ptr"
  dq_frame_ff :: ptr
  dq_resumable :: bool
  dq_team :: ptr
  dq_fiber :: ptr
  dq_saved_ped :: pedigree
  dq_call_stack :: ptr
  dq_link_next :: ptr
  dq_worker :: ptr
  dq_self :: int
  dq_SD :: ptr
  dq_FOM :: ptr

definition ACTIVE_DEQUE_INDEX :: int where "ACTIVE_DEQUE_INDEX = -1"
definition INVALID_DEQUE_INDEX :: int where "INVALID_DEQUE_INDEX = -2"

text \<open>\<^verbatim>\<open>struct deque_pool_s\<close>; the capacity is the length of the array.\<close>

record deque_pool =
  dp_array :: "ptr list"
  dp_size :: nat

section \<open>Full frames\<close>

record full_frame =
  ff_lock :: mutex
  ff_join_counter :: int
  ff_is_call_child :: bool
  ff_simulated_stolen :: bool
  ff_parent :: ptr
  ff_left_sibling :: ptr
  ff_right_sibling :: ptr
  ff_rightmost_child :: ptr
  ff_call_stack :: ptr
  ff_children_reducer_map :: ptr
  ff_right_reducer_map :: ptr
  ff_pending_exception :: ptr
  ff_child_pending_exception :: ptr
  ff_right_pending_exception :: ptr
  ff_sync_sp :: int
  ff_frame_size :: int
  ff_fiber_self :: ptr
  ff_fiber_child :: ptr
  ff_sync_master :: ptr

text \<open>\<^verbatim>\<open>PLACEHOLDER_FIBER\<close> is no address of a fiber; here it is an argument value of its own.\<close>

datatype fiber_arg = No_Fiber | Placeholder_Fiber | Fiber ptr

section \<open>Workers\<close>

datatype cilk_worker_type = WORKER_FREE | WORKER_SYSTEM | WORKER_USER | WORKER_BATCH

text \<open>\<^verbatim>\<open>active_deque\<close> points to one of the two fields that hold the worker's deques.\<close>

datatype deque_slot = Core_Deque | Batch_Deque

datatype scheduling_fcn = No_Fcn | Do_Sync | Do_Return_From_Spawn | Do_Suspend_Return_From_Initial

record local_state =
  l_lock :: mutex
  l_do_not_steal :: bool
  l_steal_lock :: mutex
  l_frame_ff :: ptr
  l_next_frame_ff :: ptr
  l_last_full_frame :: ptr
  l_active_deque :: deque_slot
  l_suspended_deques :: deque_pool
  l_resumable_deques :: deque_pool
  l_core_deque :: ptr
  l_batch_deque :: ptr
  l_type :: cilk_worker_type
  l_current_ltq :: ptr
  l_future_fiber_pool_idx :: int
  l_future_fiber_pool :: "nat \<Rightarrow> ptr"
  l_scheduling_fiber :: ptr
  l_batch_scheduling_fiber :: ptr
  l_saved_core_fiber :: ptr
  l_original_pedigree_leaf :: ptr
  l_rand_seed :: "32 word"
  l_post_suspend :: scheduling_fcn
  l_suspended_stack :: ptr
  l_fiber_to_free :: ptr
  l_pending_exception :: ptr
  l_steal_failure_count :: "32 word"
  l_work_stolen :: bool
  l_signal_node :: signal_node
  l_batch_id :: int

definition MAX_FUTURE_FIBERS_IN_POOL :: int where "MAX_FUTURE_FIBERS_IN_POOL = 128"

text \<open>
  \<^verbatim>\<open>struct __cilkrts_worker\<close>. The fields \<^verbatim>\<open>tail\<close>, \<^verbatim>\<open>head\<close>, \<^verbatim>\<open>exc\<close>, \<^verbatim>\<open>protected_tail\<close> and
  \<^verbatim>\<open>ltq_limit\<close> point to the fields of a deque, and so do \<^verbatim>\<open>current_ltq\<close> and \<^verbatim>\<open>frame_ff\<close> of the local
  state; each is represented by the address of that deque.
\<close>

record worker =
  wk_tail :: ptr
  wk_head :: ptr
  wk_exc :: ptr
  wk_protected_tail :: ptr
  wk_ltq_limit :: ptr
  wk_self :: int
  wk_l :: local_state
  wk_reducer_map :: ptr
  wk_current_stack_frame :: ptr
  wk_pedigree :: pedigree

section \<open>Fibers and the global state\<close>

text \<open>
  What the runtime's C code sees of a fiber of \<^verbatim>\<open>cilk_fiber.cpp\<close>: its data (\<^verbatim>\<open>cilk_fiber_data\<close>), whether it can be
  resumed, and its reference count.
\<close>

record fiber =
  fb_owner :: ptr
  fb_resume_sf :: ptr
  fb_resumable :: bool
  fb_ref_count :: int

record global_state =
  g_system_workers :: int
  g_total_workers :: nat
  g_workers_running :: bool
  g_stealing_disabled :: bool
  g_workers :: "ptr list"
  g_ltqsize :: nat
  g_force_reduce :: bool
  g_work_done :: bool
  g_active_workers :: int
  g_exit_frame :: ptr
  g_original_deque :: ptr
  g_max_steal_failures :: "32 word"
  g_P :: int
  g_Q :: int
  g_batch_lock :: mutex

section \<open>Exceptions in flight\<close>

text \<open>\<^verbatim>\<open>pending_exception_info\<close> of \<^verbatim>\<open>except-gcc.cpp\<close>: the active exception, the rethrow mark, the chain
  of caught exceptions, and the count of uncaught ones.\<close>

record pending_exception =
  pe_active :: ptr
  pe_rethrow :: bool
  pe_caught :: ptr
  pe_uncaught :: "32 word"

section \<open>Reducer maps\<close>

text \<open>
  \<^verbatim>\<open>struct cilkred_map\<close> of \<^verbatim>\<open>reducer_impl.cpp\<close>: whether it is the leftmost map, and its elements, a view
  for every key, with the mark of those whose view is the leftmost view of the reducer itself (its address
  is the key). The hash table is a list of pairs here; the table itself is in \<^theory_text>\<open>Reducer_Table\<close>. A view is what was
  reduced into it, a word over the contributions: the operations of a reducer are associative, so the
  word determines the value.
\<close>

type_synonym view = "nat list"

record reducer_map =
  rm_leftmost :: bool
  rm_elems :: "(nat \<times> bool \<times> view) list"

section \<open>The state\<close>

text \<open>
  \<open>rt_next\<close> is the next unused address, which \<^verbatim>\<open>__cilkrts_frame_malloc\<close> returns for a full frame
  (see \<^theory_text>\<open>Frame_Malloc\<close>); freed addresses are not used again.
\<close>

record rts =
  rt_sf :: "ptr \<rightharpoonup> stack_frame"
  rt_ff :: "ptr \<rightharpoonup> full_frame"
  rt_dq :: "ptr \<rightharpoonup> deque"
  rt_wk :: "ptr \<rightharpoonup> worker"
  rt_fb :: "ptr \<rightharpoonup> fiber"
  rt_rm :: "ptr \<rightharpoonup> reducer_map"
  rt_ex :: "ptr \<rightharpoonup> pending_exception"
  rt_next :: ptr
  rt_g :: global_state

definition sf_at :: "rts \<Rightarrow> ptr \<Rightarrow> stack_frame proc" where "sf_at s p = rt_sf s p"
definition ff_at :: "rts \<Rightarrow> ptr \<Rightarrow> full_frame proc" where "ff_at s p = rt_ff s p"
definition dq_at :: "rts \<Rightarrow> ptr \<Rightarrow> deque proc" where "dq_at s p = rt_dq s p"
definition wk_at :: "rts \<Rightarrow> ptr \<Rightarrow> worker proc" where "wk_at s p = rt_wk s p"
definition fb_at :: "rts \<Rightarrow> ptr \<Rightarrow> fiber proc" where "fb_at s p = rt_fb s p"

definition sf_mod :: "ptr \<Rightarrow> (stack_frame \<Rightarrow> stack_frame) \<Rightarrow> rts \<Rightarrow> rts proc" where
  "sf_mod p f s = do { x \<leftarrow> sf_at s p; Some (s\<lparr>rt_sf := (rt_sf s)(p \<mapsto> f x)\<rparr>) }"

definition ff_mod :: "ptr \<Rightarrow> (full_frame \<Rightarrow> full_frame) \<Rightarrow> rts \<Rightarrow> rts proc" where
  "ff_mod p f s = do { x \<leftarrow> ff_at s p; Some (s\<lparr>rt_ff := (rt_ff s)(p \<mapsto> f x)\<rparr>) }"

definition dq_mod :: "ptr \<Rightarrow> (deque \<Rightarrow> deque) \<Rightarrow> rts \<Rightarrow> rts proc" where
  "dq_mod p f s = do { x \<leftarrow> dq_at s p; Some (s\<lparr>rt_dq := (rt_dq s)(p \<mapsto> f x)\<rparr>) }"

definition wk_mod :: "ptr \<Rightarrow> (worker \<Rightarrow> worker) \<Rightarrow> rts \<Rightarrow> rts proc" where
  "wk_mod p f s = do { x \<leftarrow> wk_at s p; Some (s\<lparr>rt_wk := (rt_wk s)(p \<mapsto> f x)\<rparr>) }"

definition fb_mod :: "ptr \<Rightarrow> (fiber \<Rightarrow> fiber) \<Rightarrow> rts \<Rightarrow> rts proc" where
  "fb_mod p f s = do { x \<leftarrow> fb_at s p; Some (s\<lparr>rt_fb := (rt_fb s)(p \<mapsto> f x)\<rparr>) }"

definition l_at :: "rts \<Rightarrow> ptr \<Rightarrow> local_state proc" where
  "l_at s w = do { x \<leftarrow> wk_at s w; Some (wk_l x) }"

definition l_mod :: "ptr \<Rightarrow> (local_state \<Rightarrow> local_state) \<Rightarrow> rts \<Rightarrow> rts proc" where
  "l_mod w f = wk_mod w (\<lambda>x. x\<lparr>wk_l := f (wk_l x)\<rparr>)"

text \<open>\<^verbatim>\<open>*w->l->active_deque\<close>, \<^verbatim>\<open>*w->l->frame_ff\<close> and the assignment to the former.\<close>

definition active_deque :: "rts \<Rightarrow> ptr \<Rightarrow> ptr proc" where
  "active_deque s w = do { l \<leftarrow> l_at s w;
     Some (case l_active_deque l of Core_Deque \<Rightarrow> l_core_deque l | Batch_Deque \<Rightarrow> l_batch_deque l) }"

definition set_active_deque :: "ptr \<Rightarrow> ptr \<Rightarrow> rts \<Rightarrow> rts proc" where
  "set_active_deque w d = l_mod w (\<lambda>l. case l_active_deque l of
      Core_Deque \<Rightarrow> l\<lparr>l_core_deque := d\<rparr> | Batch_Deque \<Rightarrow> l\<lparr>l_batch_deque := d\<rparr>)"

definition frame_ff :: "rts \<Rightarrow> ptr \<Rightarrow> ptr proc" where
  "frame_ff s w = do { l \<leftarrow> l_at s w; d \<leftarrow> dq_at s (l_frame_ff l); Some (dq_frame_ff d) }"

definition set_frame_ff :: "ptr \<Rightarrow> ptr \<Rightarrow> rts \<Rightarrow> rts proc" where
  "set_frame_ff w ff s = do { l \<leftarrow> l_at s w; dq_mod (l_frame_ff l) (\<lambda>d. d\<lparr>dq_frame_ff := ff\<rparr>) s }"

lemmas rt_heap_defs = sf_at_def ff_at_def dq_at_def wk_at_def fb_at_def sf_mod_def ff_mod_def dq_mod_def
  wk_mod_def fb_mod_def l_at_def l_mod_def

section \<open>Example states\<close>

definition empty_deque :: "nat \<Rightarrow> deque" where
  "empty_deque n = \<lparr>dq_tail = 0, dq_head = 0, dq_exc = Some 0, dq_protected_tail = n, dq_ltq_limit = n,
     dq_ltq = (\<lambda>_. NULL), dq_fiber_tail = 0, dq_fiber_head = 0, dq_fiber_protected_tail = n,
     dq_fiber_ltq_limit = n, dq_fiber_ltq = (\<lambda>_. NULL), dq_frame_ff = NULL, dq_resumable = False,
     dq_team = NULL, dq_fiber = NULL, dq_saved_ped = \<lparr>pd_rank = 0, pd_parent = Ped_Null\<rparr>,
     dq_call_stack = NULL, dq_link_next = NULL, dq_worker = NULL, dq_self = 0, dq_SD = NULL, dq_FOM = NULL\<rparr>"

definition example_local :: local_state where
  "example_local = \<lparr>l_lock = mutex_init, l_do_not_steal = False, l_steal_lock = mutex_init, l_frame_ff = 0,
     l_next_frame_ff = 0, l_last_full_frame = 0, l_active_deque = Core_Deque,
     l_suspended_deques = \<lparr>dp_array = [0], dp_size = 0\<rparr>, l_resumable_deques = \<lparr>dp_array = [0], dp_size = 0\<rparr>,
     l_core_deque = 0, l_batch_deque = 0, l_type = WORKER_SYSTEM, l_current_ltq = 0, l_future_fiber_pool_idx = -1,
     l_future_fiber_pool = (\<lambda>_. 0), l_scheduling_fiber = 0, l_batch_scheduling_fiber = 0, l_saved_core_fiber = 0,
     l_original_pedigree_leaf = 0, l_rand_seed = 1, l_post_suspend = No_Fcn, l_suspended_stack = 0,
     l_fiber_to_free = 0, l_pending_exception = 0, l_steal_failure_count = 0, l_work_stolen = False,
     l_signal_node = signal_node_create, l_batch_id = -1\<rparr>"

definition example_worker :: "local_state \<Rightarrow> worker" where
  "example_worker l = \<lparr>wk_tail = 0, wk_head = 0, wk_exc = 0, wk_protected_tail = 0, wk_ltq_limit = 0, wk_self = 0,
     wk_l = l, wk_reducer_map = 0, wk_current_stack_frame = 0, wk_pedigree = \<lparr>pd_rank = 1, pd_parent = Ped_Null\<rparr>\<rparr>"

definition example_global :: global_state where
  "example_global = \<lparr>g_system_workers = 1, g_total_workers = 2, g_workers_running = True, g_stealing_disabled = False,
     g_workers = [1, 2], g_ltqsize = 1024, g_force_reduce = False, g_work_done = False, g_active_workers = 1,
     g_exit_frame = 0, g_original_deque = 0, g_max_steal_failures = 128, g_P = 2, g_Q = 1, g_batch_lock = mutex_init\<rparr>"

definition rts_with_worker :: "ptr \<Rightarrow> local_state \<Rightarrow> rts" where
  "rts_with_worker w l = \<lparr>rt_sf = Map.empty, rt_ff = Map.empty, rt_dq = Map.empty,
     rt_wk = [w \<mapsto> example_worker l], rt_fb = Map.empty, rt_rm = Map.empty, rt_ex = Map.empty, rt_next = 100, rt_g = example_global\<rparr>"

lemma l_at_example [simp]: "l_at (rts_with_worker w l) w = Some l"
  by (simp add: l_at_def wk_at_def rts_with_worker_def example_worker_def)

end
