(* ===== verification/The_Protocol.thy ===== *)
theory The_Protocol
  imports Rt_State "HOL-Library.Multiset"
begin

text \<open>
  The THE protocol between a worker and its thieves, \<^verbatim>\<open>deque.c\<close>, with the worker's side from
  \<^verbatim>\<open>cilk-abi.c\<close> (\<^verbatim>\<open>__cilkrts_detach\<close>, \<^verbatim>\<open>__cilkrts_undo_detach\<close>) and \<^verbatim>\<open>scheduler.c\<close>
  (\<^verbatim>\<open>__cilkrts_c_THE_exception_check\<close>, \<^verbatim>\<open>__cilkrts_pop_tail\<close>). First the operations on a deque, then
  the interleaving of one worker with any number of thieves, one step per shared access; the
  fences of the code make its stores visible in program order, so the memory is sequentially
  consistent. The theorem: every interleaving behaves like an atomic double-ended queue.
\<close>

section \<open>The operations on the shared indices\<close>

definition increment_E :: "deque \<Rightarrow> deque" where
  "increment_E d = (case dq_exc d of None \<Rightarrow> d | Some e \<Rightarrow> d\<lparr>dq_exc := Some (e + 1)\<rparr>)"

definition decrement_E :: "deque \<Rightarrow> deque" where
  "decrement_E d = (case dq_exc d of None \<Rightarrow> d | Some e \<Rightarrow> d\<lparr>dq_exc := Some (e - 1)\<rparr>)"

definition reset_THE_exception :: "deque \<Rightarrow> deque" where
  "reset_THE_exception d = d\<lparr>dq_exc := Some (dq_head d)\<rparr>"

definition can_steal_from :: "deque \<Rightarrow> bool" where
  "can_steal_from d \<longleftrightarrow> dq_head d < dq_tail d \<and> dq_head d < dq_protected_tail d"

definition dekker_protocol :: "deque \<Rightarrow> bool \<times> deque" where
  "dekker_protocol d = (let d = increment_E d in
     if can_steal_from d then (True, d) else (False, decrement_E d))"

definition can_take_fiber_from :: "deque \<Rightarrow> bool" where
  "can_take_fiber_from d \<longleftrightarrow> dq_fiber_head d < dq_fiber_tail d \<and> dq_fiber_head d < dq_fiber_protected_tail d"

definition fiber_dekker_protocol :: "deque \<Rightarrow> bool" where
  "fiber_dekker_protocol d = can_take_fiber_from d"

text \<open>The queue part of \<^verbatim>\<open>__cilkrts_detach\<close>, in its two stores.\<close>

definition detach_store :: "ptr \<Rightarrow> deque \<Rightarrow> deque proc" where
  "detach_store parent d = do {
     assert_c (dq_tail d < dq_ltq_limit d);
     Some (d\<lparr>dq_ltq := (dq_ltq d)(dq_tail d := parent)\<rparr>) }"

definition detach_publish :: "deque \<Rightarrow> deque" where
  "detach_publish d = d\<lparr>dq_tail := dq_tail d + 1\<rparr>"

text \<open>The queue part of \<^verbatim>\<open>__cilkrts_undo_detach\<close>; the test is made with the decremented tail \<open>t\<close>.\<close>

definition undo_detach_store :: "deque \<Rightarrow> deque" where
  "undo_detach_store d = d\<lparr>dq_tail := dq_tail d - 1\<rparr>"

definition undo_detach_failed :: "nat \<Rightarrow> deque \<Rightarrow> bool" where
  "undo_detach_failed t d = (case dq_exc d of None \<Rightarrow> True | Some e \<Rightarrow> t < e)"

text \<open>What \<^verbatim>\<open>__cilkrts_c_THE_exception_check\<close> does to the deque under the worker's lock.\<close>

definition THE_check :: "deque \<Rightarrow> bool \<times> deque" where
  "THE_check d = (let d = reset_THE_exception d;
      stolen_p = (\<not> dq_head d < dq_tail d + 1)
    in (stolen_p, if stolen_p then d\<lparr>dq_tail := dq_tail d + 1\<rparr> else d))"

definition pop_tail :: "deque \<Rightarrow> ptr \<times> deque" where
  "pop_tail d = (if dq_head d < dq_tail d
     then (dq_ltq d (dq_tail d - 1), d\<lparr>dq_tail := dq_tail d - 1\<rparr>) else (NULL, d))"

text \<open>The first statements of \<^verbatim>\<open>detach_for_steal\<close>.\<close>

definition take_head :: "deque \<Rightarrow> ptr \<times> deque" where
  "take_head d = (dq_ltq d (dq_head d), d\<lparr>dq_head := dq_head d + 1\<rparr>)"

definition restore_stealing :: "nat \<Rightarrow> deque \<Rightarrow> deque" where
  "restore_stealing saved d = d\<lparr>dq_protected_tail := saved\<rparr>"

text \<open>A null argument stands for the start of the queue, index 0.\<close>

definition disallow_stealing :: "nat option \<Rightarrow> deque \<Rightarrow> nat \<times> deque" where
  "disallow_stealing new d = (let saved = dq_protected_tail d;
      new_protected_tail = (case new of None \<Rightarrow> 0 | Some i \<Rightarrow> i)
    in (saved, if dq_protected_tail d > new_protected_tail
               then d\<lparr>dq_protected_tail := new_protected_tail\<rparr> else d))"

section \<open>Interleavings\<close>

text \<open>
  The worker (victim) is running user code, between the two stores of a detach, after the
  decrement of an undo-detach, waiting for its lock after the test failed, inside the exception
  check, popping under its lock, about to unlock, or gone into the scheduler because its parent
  was stolen.
\<close>

datatype victim_pc = V_Run | V_Detached | V_Undone nat | V_Wait | V_Check | V_Pop_Wait | V_Pop | V_Unlock bool | V_Scheduler

datatype the_thief_pc = H_Out | H_Locked | H_Raised | H_Yes | H_No | H_Unlock

datatype the_event = Pushed ptr | Popped ptr | Stolen nat ptr | Found_Stolen | Found_Empty

record the_state =
  ts_dq :: deque
  ts_lock :: "nat option"
  ts_victim :: victim_pc
  ts_thief :: "nat \<Rightarrow> the_thief_pc"

abbreviation (input) goto_v :: "victim_pc \<Rightarrow> the_state \<Rightarrow> the_state" where
  "goto_v c s \<equiv> s\<lparr>ts_victim := c\<rparr>"

abbreviation (input) goto_t :: "nat \<Rightarrow> the_thief_pc \<Rightarrow> the_state \<Rightarrow> the_state" where
  "goto_t t c s \<equiv> s\<lparr>ts_thief := (ts_thief s)(t := c)\<rparr>"

text \<open>A worker undoes a detach only if it has one, so its tail is positive; thread 0 is the victim.\<close>

inductive the_step :: "the_state \<Rightarrow> the_event option \<Rightarrow> the_state \<Rightarrow> bool" where
  detach1: "ts_victim s = V_Run \<Longrightarrow> f \<noteq> NULL \<Longrightarrow> detach_store f (ts_dq s) = Some d \<Longrightarrow>
    the_step s None (goto_v V_Detached (s\<lparr>ts_dq := d\<rparr>))"
| detach2: "ts_victim s = V_Detached \<Longrightarrow>
    the_step s (Some (Pushed (dq_ltq (ts_dq s) (dq_tail (ts_dq s)))))
      (goto_v V_Run (s\<lparr>ts_dq := detach_publish (ts_dq s)\<rparr>))"
| undo: "ts_victim s = V_Run \<Longrightarrow> 0 < dq_tail (ts_dq s) \<Longrightarrow>
    the_step s None (goto_v (V_Undone (dq_tail (ts_dq s) - 1)) (s\<lparr>ts_dq := undo_detach_store (ts_dq s)\<rparr>))"
| undone_ok: "ts_victim s = V_Undone t \<Longrightarrow> \<not> undo_detach_failed t (ts_dq s) \<Longrightarrow>
    the_step s (Some (Popped (dq_ltq (ts_dq s) t))) (goto_v V_Run s)"
| undone_failed: "ts_victim s = V_Undone t \<Longrightarrow> undo_detach_failed t (ts_dq s) \<Longrightarrow>
    the_step s None (goto_v V_Wait s)"
| check_lock: "ts_victim s = V_Wait \<Longrightarrow> ts_lock s = None \<Longrightarrow>
    the_step s None (goto_v V_Check (s\<lparr>ts_lock := Some 0\<rparr>))"
| check: "ts_victim s = V_Check \<Longrightarrow> THE_check (ts_dq s) = (st, d) \<Longrightarrow>
    the_step s (Some (if st then Found_Stolen else Popped (dq_ltq d (dq_tail d))))
      (goto_v (V_Unlock st) (s\<lparr>ts_dq := d\<rparr>))"
| pop_call: "ts_victim s = V_Run \<Longrightarrow> the_step s None (goto_v V_Pop_Wait s)"
| pop_lock: "ts_victim s = V_Pop_Wait \<Longrightarrow> ts_lock s = None \<Longrightarrow>
    the_step s None (goto_v V_Pop (s\<lparr>ts_lock := Some 0\<rparr>))"
| pop: "ts_victim s = V_Pop \<Longrightarrow> pop_tail (ts_dq s) = (f, d) \<Longrightarrow>
    the_step s (Some (if f = NULL then Found_Empty else Popped f)) (goto_v (V_Unlock False) (s\<lparr>ts_dq := d\<rparr>))"
| v_unlock: "ts_victim s = V_Unlock st \<Longrightarrow>
    the_step s None (goto_v (if st then V_Scheduler else V_Run) (s\<lparr>ts_lock := None\<rparr>))"
| protect: "ts_victim s = V_Run \<Longrightarrow>
    the_step s None (s\<lparr>ts_dq := snd (disallow_stealing new (ts_dq s))\<rparr>)"
| unprotect: "ts_victim s = V_Run \<Longrightarrow> the_step s None (s\<lparr>ts_dq := restore_stealing saved (ts_dq s)\<rparr>)"
| t_lock: "t \<noteq> 0 \<Longrightarrow> ts_thief s t = H_Out \<Longrightarrow> ts_lock s = None \<Longrightarrow>
    the_step s None (goto_t t H_Locked (s\<lparr>ts_lock := Some t\<rparr>))"
| t_raise: "ts_thief s t = H_Locked \<Longrightarrow>
    the_step s None (goto_t t H_Raised (s\<lparr>ts_dq := increment_E (ts_dq s)\<rparr>))"
| t_test: "ts_thief s t = H_Raised \<Longrightarrow>
    the_step s None (goto_t t (if can_steal_from (ts_dq s) then H_Yes else H_No) s)"
| t_lower: "ts_thief s t = H_No \<Longrightarrow>
    the_step s None (goto_t t H_Unlock (s\<lparr>ts_dq := decrement_E (ts_dq s)\<rparr>))"
| t_take: "ts_thief s t = H_Yes \<Longrightarrow> take_head (ts_dq s) = (f, d) \<Longrightarrow>
    the_step s (Some (Stolen t f)) (goto_t t H_Unlock (s\<lparr>ts_dq := d\<rparr>))"
| t_unlock: "ts_thief s t = H_Unlock \<Longrightarrow>
    the_step s None (goto_t t H_Out (s\<lparr>ts_lock := None\<rparr>))"

text \<open>The specification: a double-ended queue on which every event is one atomic operation.\<close>

inductive deque_event :: "ptr list \<Rightarrow> the_event \<Rightarrow> ptr list \<Rightarrow> bool" where
  push: "deque_event q (Pushed f) (q @ [f])"
| pop: "deque_event (q @ [f]) (Popped f) q"
| steal: "deque_event (f # q) (Stolen t f) q"
| stolen: "deque_event [] Found_Stolen []"
| empty: "deque_event [] Found_Empty []"

inductive_cases deque_eventE: "deque_event q e q'"

inductive the_run :: "the_state \<Rightarrow> the_event list \<Rightarrow> the_state \<Rightarrow> bool" for s0 where
  start: "the_run s0 [] s0"
| silent: "the_run s0 es s \<Longrightarrow> the_step s None s' \<Longrightarrow> the_run s0 es s'"
| event: "the_run s0 es s \<Longrightarrow> the_step s (Some e) s' \<Longrightarrow> the_run s0 (es @ [e]) s'"

inductive deque_events :: "ptr list \<Rightarrow> the_event list \<Rightarrow> ptr list \<Rightarrow> bool" for q0 where
  none: "deque_events q0 [] q0"
| more: "deque_events q0 es q \<Longrightarrow> deque_event q e q' \<Longrightarrow> deque_events q0 (es @ [e]) q'"

section \<open>The invariant\<close>

text \<open>
  While an undo-detach is undecided the tail is one below the end of the queue's contents;
  \<open>queue_end\<close> adds it back. A thief that raised E, and has neither taken the head nor lowered E
  again, keeps E one above H.
\<close>

definition undecided :: "victim_pc \<Rightarrow> bool" where
  "undecided c \<longleftrightarrow> (\<exists>t. c = V_Undone t) \<or> c = V_Wait \<or> c = V_Check"

definition queue_end :: "the_state \<Rightarrow> nat" where
  "queue_end s = dq_tail (ts_dq s) + (if undecided (ts_victim s) then 1 else 0)"

definition the_queue :: "the_state \<Rightarrow> ptr list" where
  "the_queue s = map (dq_ltq (ts_dq s)) [dq_head (ts_dq s)..<queue_end s]"

definition raised :: "the_state \<Rightarrow> bool" where
  "raised s \<longleftrightarrow> (\<exists>t. ts_lock s = Some t \<and> t \<noteq> 0 \<and> ts_thief s t \<in> {H_Raised, H_Yes, H_No})"

definition v_locked :: "victim_pc \<Rightarrow> bool" where
  "v_locked c \<longleftrightarrow> c = V_Check \<or> c = V_Pop \<or> (\<exists>b. c = V_Unlock b)"

definition t_locked :: "the_thief_pc \<Rightarrow> bool" where
  "t_locked c \<longleftrightarrow> c \<noteq> H_Out"

definition lock_inv :: "the_state \<Rightarrow> bool" where
  "lock_inv s \<longleftrightarrow> (\<forall>t. t_locked (ts_thief s t) = (t \<noteq> 0 \<and> ts_lock s = Some t)) \<and>
     (ts_lock s = Some 0) = v_locked (ts_victim s)"

lemma locked_simps [simp]:
  "v_locked V_Check" "v_locked V_Pop" "v_locked (V_Unlock b)" "\<not> v_locked V_Run" "\<not> v_locked V_Detached"
  "\<not> v_locked (V_Undone t)" "\<not> v_locked V_Wait" "\<not> v_locked V_Pop_Wait" "\<not> v_locked V_Scheduler"
  "t_locked H_Locked" "t_locked H_Raised" "t_locked H_Yes" "t_locked H_No" "t_locked H_Unlock" "\<not> t_locked H_Out"
  by (simp_all add: v_locked_def t_locked_def)

definition index_inv :: "the_state \<Rightarrow> bool" where
  "index_inv s \<longleftrightarrow> dq_exc (ts_dq s) = Some (dq_head (ts_dq s) + (if raised s then 1 else 0)) \<and>
     dq_head (ts_dq s) \<le> queue_end s \<and>
     (\<forall>t. ts_thief s t = H_Yes \<longrightarrow> dq_head (ts_dq s) < queue_end s) \<and>
     (\<forall>t. ts_victim s = V_Undone t \<longrightarrow> t = dq_tail (ts_dq s)) \<and>
     (\<forall>i. dq_head (ts_dq s) \<le> i \<and> i < queue_end s \<longrightarrow> dq_ltq (ts_dq s) i \<noteq> NULL) \<and>
     (ts_victim s = V_Detached \<longrightarrow> dq_ltq (ts_dq s) (dq_tail (ts_dq s)) \<noteq> NULL)"

lemma lock_iff: "lock_inv s \<Longrightarrow> t_locked (ts_thief s t) = (t \<noteq> 0 \<and> ts_lock s = Some t)"
  by (simp add: lock_inv_def)

lemma lock_at: "lock_inv s \<Longrightarrow> ts_thief s t = c \<Longrightarrow> t_locked c \<Longrightarrow> ts_lock s = Some t \<and> t \<noteq> 0"
  using lock_iff [of s t] by simp

lemma thieves_out: "lock_inv s \<Longrightarrow> ts_lock s = None \<or> ts_lock s = Some 0 \<Longrightarrow> ts_thief s t = H_Out"
  using lock_iff [of s t] by (cases "t = 0") (auto simp: t_locked_def)

lemma lock_inv_thief_step:
  assumes "lock_inv s" "ts_thief s t = c" "t_locked c" "t_locked c'"
  shows "lock_inv (s\<lparr>ts_dq := d, ts_thief := (ts_thief s)(t := c')\<rparr>)"
  using assms lock_at [OF assms(1-3)] by (simp add: lock_inv_def)

lemma lock_inv_step:
  assumes "the_step s e s'" "lock_inv s"
  shows "lock_inv s'"
  using assms(1)
proof cases
  case (t_lock t)
  then show ?thesis using assms(2) by (simp add: lock_inv_def)
next
  case (t_unlock t)
  then show ?thesis using assms(2) lock_at [OF assms(2), of t] by (simp add: lock_inv_def)
next
  case (t_test t)
  then show ?thesis
    using assms(2) lock_at [OF assms(2), of t] by (simp add: lock_inv_def)
next
  case (t_raise t)
  then show ?thesis using lock_inv_thief_step [OF assms(2)] by simp
next
  case (t_lower t)
  then show ?thesis using lock_inv_thief_step [OF assms(2)] by simp
next
  case (t_take t f d)
  then show ?thesis using lock_inv_thief_step [OF assms(2)] by simp
next
  case (check_lock)
  then show ?thesis using assms(2) by (auto simp: lock_inv_def)
next
  case (pop_lock)
  then show ?thesis using assms(2) by (auto simp: lock_inv_def)
next
  case (v_unlock st)
  then show ?thesis using assms(2) by (auto simp: lock_inv_def)
qed (use assms(2) in \<open>simp_all add: lock_inv_def\<close>)

lemma raised_iff: "lock_inv s \<Longrightarrow> ts_thief s t = c \<Longrightarrow> t_locked c \<Longrightarrow> raised s \<longleftrightarrow> c \<in> {H_Raised, H_Yes, H_No}"
  using lock_at [of s t c] by (auto simp: raised_def)

lemma not_raised: "ts_lock s = None \<or> ts_lock s = Some 0 \<Longrightarrow> \<not> raised s"
  by (auto simp: raised_def)

lemma undecided_simps [simp]:
  "undecided (V_Undone t)" "undecided V_Wait" "undecided V_Check" "\<not> undecided V_Run" "\<not> undecided V_Detached"
  "\<not> undecided V_Pop_Wait" "\<not> undecided V_Pop" "\<not> undecided (V_Unlock b)" "\<not> undecided V_Scheduler"
  by (simp_all add: undecided_def)

lemma index_inv_same:
  assumes "index_inv s" "ts_dq s' = ts_dq s" "raised s' = raised s" "undecided (ts_victim s') = undecided (ts_victim s)"
    "\<And>t. ts_thief s' t = H_Yes \<Longrightarrow> dq_head (ts_dq s) < queue_end s"
    "\<And>t. ts_victim s' = V_Undone t \<Longrightarrow> t = dq_tail (ts_dq s)" "ts_victim s' \<noteq> V_Detached"
  shows "index_inv s' \<and> the_queue s' = the_queue s"
  using assms by (simp add: index_inv_def queue_end_def the_queue_def)

lemma map_upt_snoc: "h \<le> t \<Longrightarrow> map f [h..<Suc t] = map f [h..<t] @ [f t]"
  by simp

lemma map_upt_first: "h < t \<Longrightarrow> map f [h..<t] = f h # map f [Suc h..<t]"
  by (simp add: upt_conv_Cons)

text \<open>A step of the victim that changes the deque, and a step of a thief that does.\<close>

lemma raised_victim [simp]: "raised (s\<lparr>ts_dq := d, ts_victim := c\<rparr>) = raised s" "raised (s\<lparr>ts_victim := c\<rparr>) = raised s"
  "raised (s\<lparr>ts_dq := d\<rparr>) = raised s"
  by (simp_all add: raised_def)

definition matches :: "the_state \<Rightarrow> the_event option \<Rightarrow> the_state \<Rightarrow> bool" where
  "matches s e s' \<longleftrightarrow> index_inv s' \<and> (case e of None \<Rightarrow> the_queue s' = the_queue s
     | Some e \<Rightarrow> deque_event (the_queue s) e (the_queue s'))"

lemma matches_detach1:
  assumes "index_inv s" "ts_victim s = V_Run" "f \<noteq> NULL" "detach_store f (ts_dq s) = Some d"
  shows "matches s None (s\<lparr>ts_dq := d, ts_victim := V_Detached\<rparr>)"
  using assms by (auto simp: matches_def detach_store_def index_inv_def queue_end_def the_queue_def)

lemma matches_detach2:
  assumes "index_inv s" "ts_victim s = V_Detached"
  shows "matches s (Some (Pushed (dq_ltq (ts_dq s) (dq_tail (ts_dq s)))))
    (s\<lparr>ts_dq := detach_publish (ts_dq s), ts_victim := V_Run\<rparr>)"
  using assms deque_event.push [of "the_queue s" "dq_ltq (ts_dq s) (dq_tail (ts_dq s))"]
  by (auto simp: matches_def detach_publish_def index_inv_def queue_end_def the_queue_def less_Suc_eq)

lemma matches_undo:
  assumes "index_inv s" "ts_victim s = V_Run" "0 < dq_tail (ts_dq s)"
  shows "matches s None (s\<lparr>ts_dq := undo_detach_store (ts_dq s), ts_victim := V_Undone (dq_tail (ts_dq s) - 1)\<rparr>)"
  using assms by (auto simp: matches_def undo_detach_store_def index_inv_def queue_end_def the_queue_def)

lemma matches_undone_ok:
  assumes "index_inv s" "ts_victim s = V_Undone t" "\<not> undo_detach_failed t (ts_dq s)" "lock_inv s"
  shows "matches s (Some (Popped (dq_ltq (ts_dq s) t))) (s\<lparr>ts_victim := V_Run\<rparr>)"
proof -
  let ?d = "ts_dq s"
  have t: "t = dq_tail ?d" and le: "dq_head ?d + (if raised s then 1 else 0) \<le> t"
    using assms by (auto simp: index_inv_def undo_detach_failed_def)
  have y: "dq_head ?d < t" if "ts_thief s u = H_Yes" for u
    using raised_iff [OF assms(4) that] le by simp
  have "the_queue s = the_queue (s\<lparr>ts_victim := V_Run\<rparr>) @ [dq_ltq ?d t]"
    using assms(2) le t by (simp add: the_queue_def queue_end_def)
  then have "deque_event (the_queue s) (Popped (dq_ltq ?d t)) (the_queue (s\<lparr>ts_victim := V_Run\<rparr>))"
    by (simp add: deque_event.pop)
  then show ?thesis using assms(1,2) t le y
    by (auto simp: matches_def index_inv_def queue_end_def)
qed

lemma matches_check:
  assumes "index_inv s" "lock_inv s" "ts_victim s = V_Check" "THE_check (ts_dq s) = (st, d)"
  shows "matches s (Some (if st then Found_Stolen else Popped (dq_ltq d (dq_tail d))))
    (s\<lparr>ts_dq := d, ts_victim := V_Unlock st\<rparr>)"
proof -
  let ?d = "ts_dq s" and ?s = "s\<lparr>ts_dq := d, ts_victim := V_Unlock st\<rparr>"
  have l: "ts_lock s = Some 0" using assms(2,3) by (simp add: lock_inv_def)
  have nr: "\<not> raised s" and out: "\<And>t. ts_thief s t = H_Out"
    using not_raised thieves_out [OF assms(2)] l by auto
  have h: "dq_head ?d \<le> dq_tail ?d + 1" using assms(1,3) by (simp add: index_inv_def queue_end_def)
  show ?thesis
  proof (cases st)
    case True
    then have "dq_head ?d = dq_tail ?d + 1" "d = ?d\<lparr>dq_exc := Some (dq_head ?d), dq_tail := dq_tail ?d + 1\<rparr>"
      using assms(4) h by (auto simp: THE_check_def reset_THE_exception_def Let_def)
    then have "the_queue s = []" "the_queue ?s = []" "index_inv ?s"
      using assms(3) nr out True by (simp_all add: the_queue_def queue_end_def index_inv_def)
    then show ?thesis using True by (simp add: matches_def deque_event.stolen)
  next
    case False
    then have d: "dq_head ?d \<le> dq_tail ?d" "d = ?d\<lparr>dq_exc := Some (dq_head ?d)\<rparr>"
      using assms(4) by (auto simp: THE_check_def reset_THE_exception_def Let_def split: if_splits)
    then have "the_queue s = the_queue ?s @ [dq_ltq d (dq_tail d)]"
      using assms(3) by (simp add: the_queue_def queue_end_def)
    moreover have "index_inv ?s" using assms(1,3) d nr out by (auto simp: index_inv_def queue_end_def)
    ultimately show ?thesis using False by (simp add: matches_def deque_event.pop)
  qed
qed

lemma matches_pop:
  assumes "index_inv s" "lock_inv s" "ts_victim s = V_Pop" "pop_tail (ts_dq s) = (f, d)"
  shows "matches s (Some (if f = NULL then Found_Empty else Popped f)) (s\<lparr>ts_dq := d, ts_victim := V_Unlock False\<rparr>)"
proof -
  let ?d = "ts_dq s" and ?s = "s\<lparr>ts_dq := d, ts_victim := V_Unlock False\<rparr>"
  have l: "ts_lock s = Some 0" using assms(2,3) by (simp add: lock_inv_def)
  have nr: "\<not> raised s" and out: "\<And>t. ts_thief s t = H_Out"
    using not_raised thieves_out [OF assms(2)] l by auto
  show ?thesis
  proof (cases "dq_head ?d < dq_tail ?d")
    case True
    then obtain t where t: "dq_tail ?d = Suc t" by (cases "dq_tail ?d") auto
    have fd: "f = dq_ltq ?d t" "d = ?d\<lparr>dq_tail := t\<rparr>" using assms(4) True t by (auto simp: pop_tail_def)
    have "f \<noteq> NULL" using assms(1,3) True t fd by (simp add: index_inv_def queue_end_def)
    moreover have "the_queue s = the_queue ?s @ [f]"
      using assms(3) True t fd by (simp add: the_queue_def queue_end_def)
    moreover have "index_inv ?s" using assms(1,3) t True fd nr out by (auto simp: index_inv_def queue_end_def)
    ultimately show ?thesis by (simp add: matches_def deque_event.pop)
  next
    case False
    then have fd: "f = NULL" "d = ?d" using assms(4) by (auto simp: pop_tail_def)
    then have "the_queue s = []" "the_queue ?s = []" "index_inv ?s"
      using assms(1,3) False nr out by (auto simp: the_queue_def queue_end_def index_inv_def)
    then show ?thesis using fd by (simp add: matches_def deque_event.empty)
  qed
qed

lemma matches_raise:
  assumes "index_inv s" "lock_inv s" "ts_thief s t = H_Locked"
  shows "matches s None (s\<lparr>ts_dq := increment_E (ts_dq s), ts_thief := (ts_thief s)(t := H_Raised)\<rparr>)"
proof -
  have "\<not> raised s" using raised_iff [OF assms(2,3)] by simp
  moreover have "raised (s\<lparr>ts_dq := increment_E (ts_dq s), ts_thief := (ts_thief s)(t := H_Raised)\<rparr>)"
    using lock_at [OF assms(2,3)] by (simp add: raised_def)
  ultimately show ?thesis using assms(1)
    by (auto simp: matches_def index_inv_def increment_E_def queue_end_def the_queue_def)
qed

lemma matches_test:
  assumes "index_inv s" "lock_inv s" "ts_thief s t = H_Raised"
  shows "matches s None (s\<lparr>ts_thief := (ts_thief s)(t := if can_steal_from (ts_dq s) then H_Yes else H_No)\<rparr>)"
proof -
  have "raised s" using raised_iff [OF assms(2,3)] by simp
  moreover have "raised (s\<lparr>ts_thief := (ts_thief s)(t := if can_steal_from (ts_dq s) then H_Yes else H_No)\<rparr>)"
    using lock_at [OF assms(2,3)] by (simp add: raised_def)
  ultimately show ?thesis using assms(1)
    by (auto simp: matches_def index_inv_def can_steal_from_def queue_end_def the_queue_def)
qed

lemma matches_lower:
  assumes "index_inv s" "lock_inv s" "ts_thief s t = H_No"
  shows "matches s None (s\<lparr>ts_dq := decrement_E (ts_dq s), ts_thief := (ts_thief s)(t := H_Unlock)\<rparr>)"
proof -
  have "raised s" using raised_iff [OF assms(2,3)] by simp
  moreover have "\<not> raised (s\<lparr>ts_dq := decrement_E (ts_dq s), ts_thief := (ts_thief s)(t := H_Unlock)\<rparr>)"
    using lock_at [OF assms(2,3)] by (simp add: raised_def)
  ultimately show ?thesis using assms(1)
    by (auto simp: matches_def index_inv_def decrement_E_def queue_end_def the_queue_def)
qed

lemma matches_take:
  assumes "index_inv s" "lock_inv s" "ts_thief s t = H_Yes" "take_head (ts_dq s) = (f, d)"
  shows "matches s (Some (Stolen t f)) (s\<lparr>ts_dq := d, ts_thief := (ts_thief s)(t := H_Unlock)\<rparr>)"
proof -
  let ?d = "ts_dq s" and ?s = "s\<lparr>ts_dq := d, ts_thief := (ts_thief s)(t := H_Unlock)\<rparr>"
  have lt: "dq_head ?d < queue_end s" using assms(1,3) unfolding index_inv_def by blast
  have fd: "f = dq_ltq ?d (dq_head ?d)" "d = ?d\<lparr>dq_head := dq_head ?d + 1\<rparr>"
    using assms(4) by (simp_all add: take_head_def)
  have r: "raised s" using raised_iff [OF assms(2,3)] by simp
  have nr: "\<not> raised ?s" using lock_at [OF assms(2,3)] by (simp add: raised_def)
  have y: "u = t" if "ts_thief s u = H_Yes" for u
    using lock_at [OF assms(2) that] lock_at [OF assms(2,3)] by simp
  have q: "queue_end ?s = queue_end s" by (simp add: queue_end_def fd)
  have "the_queue s = f # the_queue ?s"
    using map_upt_first [OF lt] unfolding the_queue_def q by (simp add: fd)
  moreover have "index_inv ?s" using assms(1) lt r nr y
    unfolding index_inv_def q by (auto simp: fd)
  ultimately show ?thesis by (simp add: matches_def deque_event.steal)
qed

lemma matches_same:
  assumes "index_inv s" "ts_dq s' = ts_dq s" "raised s' = raised s" "undecided (ts_victim s') = undecided (ts_victim s)"
    "\<And>t. ts_thief s' t = H_Yes \<Longrightarrow> ts_thief s t = H_Yes"
    "\<And>t. ts_victim s' \<noteq> V_Undone t" "ts_victim s' \<noteq> V_Detached"
  shows "matches s None s'"
proof -
  have "dq_head (ts_dq s) < queue_end s" if "ts_thief s' t = H_Yes" for t
    using assms(1) assms(5) [OF that] unfolding index_inv_def by blast
  then show ?thesis
    using index_inv_same [OF assms(1-4)] assms(6,7) by (simp add: matches_def)
qed

lemma matches_lock_step:
  assumes "index_inv s" "\<not> raised s" "s' = s\<lparr>ts_lock := l, ts_thief := th\<rparr>"
    "\<And>t. th t \<notin> {H_Raised, H_Yes, H_No}"
  shows "matches s None s'"
proof -
  have r: "raised s' = raised s" using assms(2,3,4) by (auto simp: raised_def)
  have y: "th t \<noteq> H_Yes" for t using assms(4) [of t] by auto
  show ?thesis using assms(1,3) r y
    by (simp add: matches_def index_inv_def queue_end_def the_queue_def)
qed

lemma matches_protect:
  assumes "index_inv s" "ts_victim s = V_Run"
  shows "matches s None (s\<lparr>ts_dq := (ts_dq s)\<lparr>dq_protected_tail := n\<rparr>\<rparr>)"
  using assms by (simp add: matches_def index_inv_def queue_end_def the_queue_def)

lemma disallow_stealing_eq: "\<exists>n. snd (disallow_stealing new d) = d\<lparr>dq_protected_tail := n\<rparr>"
proof (cases "dq_protected_tail d > (case new of None \<Rightarrow> 0 | Some i \<Rightarrow> i)")
  case False
  then have "snd (disallow_stealing new d) = d\<lparr>dq_protected_tail := dq_protected_tail d\<rparr>"
    by (simp add: disallow_stealing_def Let_def)
  then show ?thesis ..
qed (auto simp: disallow_stealing_def Let_def)

lemma the_step_matches:
  assumes "the_step s e s'" "lock_inv s" "index_inv s"
  shows "matches s e s'"
  using assms(1)
proof cases
  case (t_lock t)
  have "\<And>u. ts_thief s u = H_Out" using thieves_out [OF assms(2)] t_lock by simp
  then have "matches s None s'"
    using t_lock not_raised [of s] by (intro matches_lock_step [OF assms(3)]) (auto split: if_splits)
  then show ?thesis using t_lock(1) by simp
next
  case (t_unlock t)
  have l: "ts_lock s = Some t" using lock_at [OF assms(2), of t] t_unlock by simp
  have "ts_thief s u = H_Out" if "u \<noteq> t" for u
    using lock_iff [OF assms(2), of u] l that by (simp add: t_locked_def)
  moreover have "\<not> raised s" using raised_iff [OF assms(2), of t] t_unlock by simp
  ultimately have "matches s None s'"
    using t_unlock by (intro matches_lock_step [OF assms(3)]) (auto split: if_splits)
  then show ?thesis using t_unlock(1) by simp
next
  case (check_lock)
  then have "raised s' = raised s" by (simp add: raised_def)
  then have "matches s None s'" using check_lock assms(3) by (intro matches_same) simp_all
  then show ?thesis using check_lock(1) by simp
next
  case (pop_lock)
  then have "raised s' = raised s" by (simp add: raised_def)
  then have "matches s None s'" using pop_lock assms(3) by (intro matches_same) simp_all
  then show ?thesis using pop_lock(1) by simp
next
  case (v_unlock st)
  then have "ts_lock s = Some 0" using assms(2) by (simp add: lock_inv_def)
  then have "raised s' = raised s" using v_unlock by (simp add: raised_def)
  then have "matches s None s'" using v_unlock assms(3) by (intro matches_same) simp_all
  then show ?thesis using v_unlock(1) by simp
next
  case (undone_failed t)
  then have "matches s None s'" using assms(3) by (intro matches_same) simp_all
  then show ?thesis using undone_failed(1) by simp
next
  case (pop_call)
  then have "matches s None s'" using assms(3) by (intro matches_same) simp_all
  then show ?thesis using pop_call(1) by simp
next
  case (protect new)
  then show ?thesis using disallow_stealing_eq [of new "ts_dq s"] matches_protect [OF assms(3)] by auto
next
  case (unprotect saved)
  then show ?thesis using matches_protect [OF assms(3)] by (simp add: restore_stealing_def)
next
  case (detach1 f d)
  then show ?thesis using matches_detach1 [OF assms(3)] by simp
next
  case (detach2)
  then show ?thesis using matches_detach2 [OF assms(3)] by simp
next
  case (undo)
  then show ?thesis using matches_undo [OF assms(3)] by simp
next
  case (undone_ok t)
  then show ?thesis using matches_undone_ok [OF assms(3) _ _ assms(2)] by simp
next
  case (check st d)
  then show ?thesis using matches_check [OF assms(3,2)] by simp
next
  case (pop f d)
  then show ?thesis using matches_pop [OF assms(3,2)] by simp
next
  case (t_raise t)
  then show ?thesis using matches_raise [OF assms(3,2)] by simp
next
  case (t_test t)
  then show ?thesis using matches_test [OF assms(3,2)] by simp
next
  case (t_lower t)
  then show ?thesis using matches_lower [OF assms(3,2)] by simp
next
  case (t_take t f d)
  then show ?thesis using matches_take [OF assms(3,2)] by simp
qed

text \<open>The start of a session: an empty deque with \<open>H = T = E\<close>, a running worker, no thief at work.\<close>

definition the_start :: "the_state \<Rightarrow> bool" where
  "the_start s \<longleftrightarrow> dq_tail (ts_dq s) = dq_head (ts_dq s) \<and> dq_exc (ts_dq s) = Some (dq_head (ts_dq s)) \<and>
     ts_lock s = None \<and> ts_victim s = V_Run \<and> ts_thief s = (\<lambda>_. H_Out)"

lemma the_start_inv: "the_start s \<Longrightarrow> lock_inv s \<and> index_inv s \<and> the_queue s = []"
  by (simp add: the_start_def lock_inv_def index_inv_def raised_def queue_end_def the_queue_def)

lemma the_run_inv:
  assumes "the_run s0 es s" "lock_inv s0" "index_inv s0"
  shows "lock_inv s \<and> index_inv s \<and> deque_events (the_queue s0) es (the_queue s)"
  using assms
proof (induction rule: the_run.induct)
  case start
  then show ?case by (simp add: deque_events.none)
next
  case (silent es s s')
  then show ?case using lock_inv_step [of s None s'] the_step_matches [of s None s']
    by (simp add: matches_def)
next
  case (event es s e s')
  then show ?case using lock_inv_step [of s "Some e" s'] the_step_matches [of s "Some e" s']
    by (auto simp: matches_def intro: deque_events.more)
qed

text \<open>Which frames came in and went out.\<close>

fun pushed_of :: "the_event \<Rightarrow> ptr multiset" where
  "pushed_of (Pushed f) = {#f#}"
| "pushed_of _ = {#}"

fun taken_of :: "the_event \<Rightarrow> ptr multiset" where
  "taken_of (Popped f) = {#f#}"
| "taken_of (Stolen t f) = {#f#}"
| "taken_of _ = {#}"

lemma deque_event_balance: "deque_event q e q' \<Longrightarrow> mset q + pushed_of e = mset q' + taken_of e"
  by (induction rule: deque_event.induct) auto

lemma deque_events_balance:
  assumes "deque_events q0 es q"
  shows "mset q0 + sum_list (map pushed_of es) = mset q + sum_list (map taken_of es)"
  using assms
proof (induction rule: deque_events.induct)
  case (more es q e q')
  then show ?case using deque_event_balance [OF more(2)] by (simp add: ac_simps) (metis add.assoc add.commute)
qed simp

section \<open>An example\<close>

definition the_example :: the_state where
  "the_example = \<lparr>ts_dq = empty_deque 8, ts_lock = None, ts_victim = V_Run, ts_thief = (\<lambda>_. H_Out)\<rparr>"

lemma the_example_start: "the_start the_example"
  by (simp add: the_start_def the_example_def empty_deque_def)

definition ex_deque :: "nat \<Rightarrow> nat \<Rightarrow> nat \<Rightarrow> deque" where
  "ex_deque t h e = (empty_deque 8)\<lparr>dq_tail := t, dq_head := h, dq_exc := Some e, dq_ltq := (\<lambda>_. NULL)(0 := 9)\<rparr>"

lemmas ex_deque_record = ex_deque_def [unfolded empty_deque_def, simplified]

text \<open>One detach, a steal of the frame, and an undo-detach that finds it stolen.\<close>

lemma the_example_run: "\<exists>s. the_run the_example [Pushed 9, Stolen 1 9, Found_Stolen] s"
proof -
  let ?d = ex_deque
  let ?s = "\<lambda>d l v h. \<lparr>ts_dq = d, ts_lock = l, ts_victim = v, ts_thief = (\<lambda>_. H_Out)(1 := h)\<rparr>"
  have 1: "the_step the_example None (?s (?d 0 0 0) None V_Detached H_Out)"
    using the_step.detach1 [of the_example 9 "?d 0 0 0"]
    by (simp add: ex_deque_record the_example_def detach_store_def empty_deque_def fun_upd_idem)
  have 2: "the_step (?s (?d 0 0 0) None V_Detached H_Out) (Some (Pushed 9)) (?s (?d 1 0 0) None V_Run H_Out)"
    using the_step.detach2 [of "?s (?d 0 0 0) None V_Detached H_Out"] by (simp add: ex_deque_record detach_publish_def)
  have 3: "the_step (?s (?d 1 0 0) None V_Run H_Out) None (?s (?d 1 0 0) (Some 1) V_Run H_Locked)"
    using the_step.t_lock [of 1 "?s (?d 1 0 0) None V_Run H_Out"] by (simp add: ex_deque_record)
  have 4: "the_step (?s (?d 1 0 0) (Some 1) V_Run H_Locked) None (?s (?d 1 0 1) (Some 1) V_Run H_Raised)"
    using the_step.t_raise [of "?s (?d 1 0 0) (Some 1) V_Run H_Locked" 1] by (simp add: ex_deque_record increment_E_def)
  have 5: "the_step (?s (?d 1 0 1) (Some 1) V_Run H_Raised) None (?s (?d 1 0 1) (Some 1) V_Run H_Yes)"
    using the_step.t_test [of "?s (?d 1 0 1) (Some 1) V_Run H_Raised" 1]
    by (simp add: ex_deque_record can_steal_from_def empty_deque_def)
  have 6: "the_step (?s (?d 1 0 1) (Some 1) V_Run H_Yes) (Some (Stolen 1 9)) (?s (?d 1 1 1) (Some 1) V_Run H_Unlock)"
    using the_step.t_take [of "?s (?d 1 0 1) (Some 1) V_Run H_Yes" 1 9 "?d 1 1 1"] by (simp add: ex_deque_record take_head_def)
  have 7: "the_step (?s (?d 1 1 1) (Some 1) V_Run H_Unlock) None (?s (?d 1 1 1) None V_Run H_Out)"
    using the_step.t_unlock [of "?s (?d 1 1 1) (Some 1) V_Run H_Unlock" 1] by (simp add: ex_deque_record)
  have 8: "the_step (?s (?d 1 1 1) None V_Run H_Out) None (?s (?d 0 1 1) None (V_Undone 0) H_Out)"
    using the_step.undo [of "?s (?d 1 1 1) None V_Run H_Out"] by (simp add: ex_deque_record undo_detach_store_def)
  have 9: "the_step (?s (?d 0 1 1) None (V_Undone 0) H_Out) None (?s (?d 0 1 1) None V_Wait H_Out)"
    using the_step.undone_failed [of "?s (?d 0 1 1) None (V_Undone 0) H_Out" 0]
    by (simp add: ex_deque_record undo_detach_failed_def)
  have 10: "the_step (?s (?d 0 1 1) None V_Wait H_Out) None (?s (?d 0 1 1) (Some 0) V_Check H_Out)"
    using the_step.check_lock [of "?s (?d 0 1 1) None V_Wait H_Out"] by (simp add: ex_deque_record)
  have 11: "the_step (?s (?d 0 1 1) (Some 0) V_Check H_Out) (Some Found_Stolen)
      (?s (?d 1 1 1) (Some 0) (V_Unlock True) H_Out)"
    using the_step.check [of "?s (?d 0 1 1) (Some 0) V_Check H_Out" True "?d 1 1 1"]
    by (simp add: ex_deque_record THE_check_def reset_THE_exception_def)
  have "the_run the_example [Pushed 9] (?s (?d 1 0 0) None V_Run H_Out)"
    using the_run.event [OF the_run.silent [OF the_run.start 1] 2] by simp
  then have "the_run the_example [Pushed 9, Stolen 1 9] (?s (?d 1 1 1) (Some 1) V_Run H_Unlock)"
    using the_run.event [OF the_run.silent [OF the_run.silent [OF the_run.silent [OF _ 3] 4] 5] 6] by fastforce
  then have "the_run the_example [Pushed 9, Stolen 1 9, Found_Stolen] (?s (?d 1 1 1) (Some 0) (V_Unlock True) H_Out)"
    using the_run.event [OF the_run.silent [OF the_run.silent [OF the_run.silent [OF the_run.silent
      [OF _ 7] 8] 9] 10] 11] by fastforce
  then show ?thesis ..
qed

section \<open>Properties\<close>

text \<open>C17. The THE protocol is linearizable: starting from an empty deque, every interleaving of the
  worker's detaches, undo-detaches, exception checks, locked pops and changes of the protected
  tail with the steals of any number of thieves gives a sequence of events that an atomic
  double-ended queue allows - a thief always gets the oldest frame in the queue, the worker the
  youngest, and the exception check reports a stolen parent only when the queue is empty.\<close>

theorem the_protocol_linearizable:
  assumes "the_start s0" "the_run s0 es s"
  shows "deque_events [] es (the_queue s)"
  using the_run_inv [OF assms(2)] the_start_inv [OF assms(1)] by simp

theorem the_protocol_linearizable_witness:
  "\<exists>s. the_start the_example \<and> the_run the_example [Pushed 9, Stolen 1 9, Found_Stolen] s \<and>
    deque_events [] [Pushed 9, Stolen 1 9, Found_Stolen] (the_queue s)"
  using the_protocol_linearizable [OF the_example_start] the_example_run the_example_start by blast

text \<open>C18. No frame is lost and none is run twice: at every moment of every interleaving, the frames
  detached so far are, as a multiset, those the worker got back, those the thieves stole, and
  those still in the deque.\<close>

theorem no_frame_lost_or_doubled:
  assumes "the_start s0" "the_run s0 es s"
  shows "sum_list (map pushed_of es) = mset (the_queue s) + sum_list (map taken_of es)"
  using deque_events_balance [of "[]" es "the_queue s"] the_run_inv [OF assms(2)] the_start_inv [OF assms(1)]
  by simp

theorem no_frame_lost_or_doubled_witness:
  "\<exists>s. the_run the_example [Pushed 9, Stolen 1 9, Found_Stolen] s \<and>
    sum_list (map pushed_of [Pushed 9, Stolen 1 9, Found_Stolen]) =
      mset (the_queue s) + sum_list (map taken_of [Pushed 9, Stolen 1 9, Found_Stolen])"
  using no_frame_lost_or_doubled [OF the_example_start] the_example_run by blast

end
