(* ===== verification/Deque_Pool.thy ===== *)
theory Deque_Pool
  imports The_Protocol
begin

text \<open>
  The pools of suspended and of resumable deques of a worker, \<^verbatim>\<open>deque_pool.c\<close>: vectors in which every
  deque knows its position (\<^verbatim>\<open>self\<close>) and its worker, and removal swaps the last deque into the
  hole. A reference to a pool is the worker and which of its two pools is meant. \<^verbatim>\<open>malloc\<close> is
  assumed to succeed; the unset cells of a new array are null here, and are never read.
\<close>

section \<open>The operations\<close>

datatype pool_kind = Suspended | Resumable

type_synonym pool_ref = "ptr \<times> pool_kind"

fun pool_of :: "pool_kind \<Rightarrow> local_state \<Rightarrow> deque_pool" where
  "pool_of Suspended l = l_suspended_deques l"
| "pool_of Resumable l = l_resumable_deques l"

fun set_pool :: "pool_kind \<Rightarrow> deque_pool \<Rightarrow> local_state \<Rightarrow> local_state" where
  "set_pool Suspended p l = l\<lparr>l_suspended_deques := p\<rparr>"
| "set_pool Resumable p l = l\<lparr>l_resumable_deques := p\<rparr>"

definition resize :: "nat \<Rightarrow> deque_pool \<Rightarrow> deque_pool proc" where
  "resize cap p = do {
     assert_c (dp_size p < cap);
     let new_array = take (dp_size p) (dp_array p) @ replicate (cap - dp_size p) NULL;
     Some (p\<lparr>dp_array := new_array[dp_size p := NULL]\<rparr>) }"

definition deque_pool_init :: "nat \<Rightarrow> deque_pool proc" where
  "deque_pool_init ltqsize = resize ltqsize \<lparr>dp_array = [], dp_size = 0\<rparr>"

definition deque_pool_free :: "deque_pool \<Rightarrow> unit proc" where
  "deque_pool_free p = assert_c (dp_size p = 0)"

definition deque_pool_validate :: "deque_pool \<Rightarrow> ptr \<Rightarrow> rts \<Rightarrow> unit proc" where
  "deque_pool_validate p w s = do {
     l \<leftarrow> l_at s w;
     assert_c (m_owner (l_lock l) \<noteq> NULL);
     assert_c (\<forall>i<dp_size p. dp_array p ! i \<noteq> NULL) }"

definition pool_at :: "rts \<Rightarrow> pool_ref \<Rightarrow> deque_pool proc" where
  "pool_at s r = do { l \<leftarrow> l_at s (fst r); Some (pool_of (snd r) l) }"

definition set_pool_at :: "pool_ref \<Rightarrow> deque_pool \<Rightarrow> rts \<Rightarrow> rts proc" where
  "set_pool_at r p s = l_mod (fst r) (set_pool (snd r) p) s"

definition deque_pool_add :: "ptr \<Rightarrow> ptr \<Rightarrow> pool_ref \<Rightarrow> ptr \<Rightarrow> rts \<Rightarrow> rts proc" where
  "deque_pool_add tls victim r d s = do {
     l \<leftarrow> l_at s victim;
     assert_c (m_owner (l_lock l) = tls);
     x \<leftarrow> dq_at s d;
     assert_c (if dq_resumable x then r = (victim, Resumable) else r = (victim, Suspended));
     p \<leftarrow> pool_at s r;
     p \<leftarrow> (if dp_size p = length (dp_array p) then resize (2 * length (dp_array p)) p else Some p);
     s \<leftarrow> dq_mod d (\<lambda>x. x\<lparr>dq_self := int (dp_size p), dq_worker := victim\<rparr>) s;
     assert_c (dp_size p < length (dp_array p));
     let p = \<lparr>dp_array = (dp_array p)[dp_size p := d], dp_size = dp_size p + 1\<rparr>;
     s \<leftarrow> set_pool_at r p s;
     assert_c (dp_size p \<le> length (dp_array p));
     deque_pool_validate p victim s;
     Some s }"

definition deque_pool_remove :: "pool_ref \<Rightarrow> ptr \<Rightarrow> rts \<Rightarrow> rts proc" where
  "deque_pool_remove r d s = do {
     p \<leftarrow> pool_at s r;
     x \<leftarrow> dq_at s d;
     assert_c (dq_self x \<ge> 0 \<and> dq_self x < int (dp_size p));
     let i = nat (dq_self x);
     assert_c (i < length (dp_array p) \<and> dp_array p ! i = d);
     let last = dp_size p - 1;
     assert_c (last < length (dp_array p));
     let moved = dp_array p ! last;
     s \<leftarrow> dq_mod moved (\<lambda>y. y\<lparr>dq_self := dq_self x\<rparr>) s;
     let p = \<lparr>dp_array = ((dp_array p)[i := moved])[last := NULL], dp_size = last\<rparr>;
     s \<leftarrow> set_pool_at r p s;
     s \<leftarrow> dq_mod d (\<lambda>x. x\<lparr>dq_self := INVALID_DEQUE_INDEX\<rparr>) s;
     deque_pool_validate p (dq_worker x) s;
     dq_mod d (\<lambda>x. x\<lparr>dq_worker := NULL\<rparr>) s }"

section \<open>The invariant\<close>

definition pool_list :: "rts \<Rightarrow> pool_ref \<Rightarrow> ptr list" where
  "pool_list s r = (case pool_at s r of None \<Rightarrow> [] | Some p \<Rightarrow> take (dp_size p) (dp_array p))"

definition pool_inv :: "rts \<Rightarrow> bool" where
  "pool_inv s \<longleftrightarrow> (\<forall>r p. pool_at s r = Some p \<longrightarrow> 0 < length (dp_array p) \<and> dp_size p \<le> length (dp_array p)) \<and>
     (\<forall>r i. i < length (pool_list s r) \<longrightarrow> pool_list s r ! i \<noteq> NULL \<and>
        (\<exists>x. dq_at s (pool_list s r ! i) = Some x \<and> dq_self x = int i \<and> dq_worker x = fst r \<and>
          (dq_resumable x \<longleftrightarrow> snd r = Resumable)))"

lemma pool_listD:
  assumes "pool_inv s" "d \<in> set (pool_list s r)"
  obtains x i where "i < length (pool_list s r)" "pool_list s r ! i = d" "d \<noteq> NULL" "dq_at s d = Some x"
    "dq_self x = int i" "dq_worker x = fst r" "dq_resumable x \<longleftrightarrow> snd r = Resumable"
proof -
  from assms(2) obtain i where i: "i < length (pool_list s r)" "pool_list s r ! i = d"
    by (auto simp: in_set_conv_nth)
  then have "d \<noteq> NULL \<and> (\<exists>x. dq_at s d = Some x \<and> dq_self x = int i \<and> dq_worker x = fst r \<and>
      (dq_resumable x \<longleftrightarrow> snd r = Resumable))"
    using assms(1) unfolding pool_inv_def by blast
  with i that show thesis by blast
qed

lemma pool_inv_distinct: "pool_inv s \<Longrightarrow> distinct (pool_list s r)"
  unfolding distinct_conv_nth
proof (intro allI impI)
  fix i j assume inv: "pool_inv s" and ij: "i < length (pool_list s r)" "j < length (pool_list s r)" "i \<noteq> j"
  then obtain x y where "dq_at s (pool_list s r ! i) = Some x" "dq_self x = int i"
      "dq_at s (pool_list s r ! j) = Some y" "dq_self y = int j"
    unfolding pool_inv_def by meson
  with ij show "pool_list s r ! i \<noteq> pool_list s r ! j" by auto
qed

lemma pool_inv_disjoint:
  assumes "pool_inv s" "d \<in> set (pool_list s r)" "d \<in> set (pool_list s r')"
  shows "r = r'"
proof -
  from assms(2) obtain x where x: "dq_at s d = Some x" "dq_worker x = fst r" "dq_resumable x \<longleftrightarrow> snd r = Resumable"
    using pool_listD [OF assms(1,2)] by metis
  from assms(3) obtain y where y: "dq_at s d = Some y" "dq_worker y = fst r'" "dq_resumable y \<longleftrightarrow> snd r' = Resumable"
    using pool_listD [OF assms(1,3)] by metis
  from x y have "fst r = fst r'" "snd r = Resumable \<longleftrightarrow> snd r' = Resumable" by auto
  then show ?thesis by (cases "snd r"; cases "snd r'") (auto simp: prod_eq_iff)
qed

text \<open>Reading the state after the elementary updates.\<close>

lemma l_mod_Some: "wk_at s w = Some x \<Longrightarrow> l_mod w f s = Some (s\<lparr>rt_wk := (rt_wk s)(w \<mapsto> x\<lparr>wk_l := f (wk_l x)\<rparr>)\<rparr>)"
  by (simp add: l_mod_def wk_mod_def)

lemma pool_of_set_pool [simp]: "pool_of k (set_pool k' p l) = (if k = k' then p else pool_of k l)"
  by (cases k; cases k') simp_all

lemma pool_at_set:
  assumes "wk_at s w = Some x"
  shows "pool_at (s\<lparr>rt_wk := (rt_wk s)(w \<mapsto> x\<lparr>wk_l := set_pool k p (wk_l x)\<rparr>), rt_dq := D\<rparr>) r =
    (if r = (w, k) then Some p else pool_at s r)"
  using assms by (cases r) (auto simp: pool_at_def l_at_def wk_at_def)

lemma pool_at_dq [simp]: "pool_at (s\<lparr>rt_dq := D\<rparr>) r = pool_at s r"
  by (simp add: pool_at_def l_at_def wk_at_def)

lemma l_lock_set_pool [simp]: "l_lock (set_pool k p l) = l_lock l"
  by (cases k) simp_all

lemma pool_inv_size: "pool_inv s \<Longrightarrow> pool_at s r = Some p \<Longrightarrow> dp_size p \<le> length (dp_array p) \<and> 0 < length (dp_array p)"
  unfolding pool_inv_def by blast

lemma pool_list_eq: "pool_at s r = Some p \<Longrightarrow> pool_list s r = take (dp_size p) (dp_array p)"
  by (simp add: pool_list_def)

lemma pool_invI:
  assumes "\<And>r p. pool_at s r = Some p \<Longrightarrow> 0 < length (dp_array p) \<and> dp_size p \<le> length (dp_array p)"
    "\<And>r i. i < length (pool_list s r) \<Longrightarrow> pool_list s r ! i \<noteq> NULL \<and>
        (\<exists>x. dq_at s (pool_list s r ! i) = Some x \<and> dq_self x = int i \<and> dq_worker x = fst r \<and>
          (dq_resumable x \<longleftrightarrow> snd r = Resumable))"
  shows "pool_inv s"
  using assms unfolding pool_inv_def by blast

lemma pool_inv_nth:
  assumes "pool_inv s" "i < length (pool_list s r)"
  obtains x where "pool_list s r ! i \<noteq> NULL" "dq_at s (pool_list s r ! i) = Some x" "dq_self x = int i"
    "dq_worker x = fst r" "dq_resumable x \<longleftrightarrow> snd r = Resumable"
  using assms that unfolding pool_inv_def by blast

section \<open>Adding a deque\<close>

text \<open>The state after the two writes of an addition, and its contents.\<close>

definition put_pool :: "pool_ref \<Rightarrow> worker \<Rightarrow> deque_pool \<Rightarrow> rts \<Rightarrow> rts" where
  "put_pool r x p s = s\<lparr>rt_wk := (rt_wk s)(fst r \<mapsto> x\<lparr>wk_l := set_pool (snd r) p (wk_l x)\<rparr>)\<rparr>"

lemma pool_at_put [simp]:
  "wk_at s (fst r) = Some x \<Longrightarrow> pool_at (put_pool r x p s) r' = (if r' = r then Some p else pool_at s r')"
  by (cases r; cases r') (auto simp: pool_at_def l_at_def wk_at_def put_pool_def)

lemma put_pool_dq [simp]: "dq_at (put_pool r x p s) d = dq_at s d"
  by (simp add: dq_at_def put_pool_def)

definition put_dq :: "ptr \<Rightarrow> deque \<Rightarrow> rts \<Rightarrow> rts" where
  "put_dq d x s = s\<lparr>rt_dq := (rt_dq s)(d \<mapsto> x)\<rparr>"

lemma put_dq_at [simp]: "dq_at (put_dq d x s) e = (if e = d then Some x else dq_at s e)"
  "pool_at (put_dq d x s) r = pool_at s r" "wk_at (put_dq d x s) w = wk_at s w"
  by (simp_all add: dq_at_def put_dq_def pool_at_def l_at_def wk_at_def)

lemma dq_mod_put [simp]: "dq_at s d = Some x \<Longrightarrow> dq_mod d f s = Some (put_dq d (f x) s)"
  by (simp add: put_dq_def dq_mod_def)

lemma set_pool_at_put: "wk_at s (fst r) = Some x \<Longrightarrow> set_pool_at r p s = Some (put_pool r x p s)"
  by (simp add: set_pool_at_def l_mod_Some put_pool_def)

lemma pool_list_put [simp]:
  "wk_at s (fst r) = Some x \<Longrightarrow> pool_list (put_pool r x p s) r' =
    (if r' = r then take (dp_size p) (dp_array p) else pool_list s r')"
  by (simp add: pool_list_def)

lemma pool_list_put_dq [simp]: "pool_list (put_dq d x s) r = pool_list s r"
  by (simp add: pool_list_def)

lemma resize_take:
  assumes "dp_size p < cap" "dp_size p \<le> length (dp_array p)" "resize cap p = Some p'"
  shows "dp_size p' = dp_size p \<and> length (dp_array p') = cap \<and> take (dp_size p) (dp_array p') = take (dp_size p) (dp_array p)"
  using assms by (auto simp: resize_def Let_def)

lemma pool_inv_add:
  assumes inv: "pool_inv s" and p: "pool_at s r = Some p" and x: "wk_at s (fst r) = Some x"
    and y: "dq_at s d = Some y" "d \<noteq> NULL" "dq_resumable y \<longleftrightarrow> snd r = Resumable" "\<And>r'. d \<notin> set (pool_list s r')"
    and p': "dp_size p' = dp_size p" "dp_size p < length (dp_array p')"
      "take (dp_size p) (dp_array p') = take (dp_size p) (dp_array p)"
  defines "s' \<equiv> put_pool r x \<lparr>dp_array = (dp_array p')[dp_size p := d], dp_size = dp_size p + 1\<rparr>
      (put_dq d (y\<lparr>dq_self := int (dp_size p), dq_worker := fst r\<rparr>) s)"
  shows "pool_inv s' \<and> pool_list s' r = pool_list s r @ [d] \<and> (\<forall>r'. r' \<noteq> r \<longrightarrow> pool_list s' r' = pool_list s r')"
proof -
  have t: "take (Suc (dp_size p)) ((dp_array p')[dp_size p := d]) = pool_list s r @ [d]"
    using p'(2,3) by (simp add: take_Suc_conv_app_nth pool_list_eq [OF p])
  have l: "pool_list s' r' = (if r' = r then pool_list s r @ [d] else pool_list s r')" for r'
    using x t by (simp add: s'_def)
  have len: "length (pool_list s r) = dp_size p"
    using pool_inv_size [OF inv p] by (simp add: pool_list_eq [OF p])
  have old: "pool_list s r' ! i \<noteq> d" if "i < length (pool_list s r')" for r' i
    using y(4) that by (metis nth_mem)
  have "pool_inv s'"
  proof (rule pool_invI)
    fix r' q assume "pool_at s' r' = Some q"
    then show "0 < length (dp_array q) \<and> dp_size q \<le> length (dp_array q)"
      using x p'(2) pool_inv_size [OF inv, of r'] by (auto simp: s'_def split: if_splits)
  next
    fix r' i assume i: "i < length (pool_list s' r')"
    show "pool_list s' r' ! i \<noteq> NULL \<and> (\<exists>x. dq_at s' (pool_list s' r' ! i) = Some x \<and> dq_self x = int i \<and>
        dq_worker x = fst r' \<and> (dq_resumable x \<longleftrightarrow> snd r' = Resumable))"
    proof (cases "r' = r \<and> i = dp_size p")
      case True
      moreover have "(pool_list s r @ [d]) ! dp_size p = d" by (metis len nth_append_length)
      ultimately show ?thesis using y(1-3) by (simp add: l) (simp add: s'_def)
    next
      case False
      then have i': "i < length (pool_list s r')" and e: "pool_list s' r' ! i = pool_list s r' ! i"
        using i len by (auto simp: l nth_append split: if_splits)
      show ?thesis unfolding e using old [OF i'] by (rule_tac pool_inv_nth [OF inv i']) (simp add: s'_def)
    qed
  qed
  then show ?thesis by (simp add: l)
qed

text \<open>Precondition of an addition: the caller holds the victim's lock and names the right pool.\<close>

definition may_add :: "ptr \<Rightarrow> pool_ref \<Rightarrow> ptr \<Rightarrow> rts \<Rightarrow> bool" where
  "may_add tls r d s \<longleftrightarrow> tls \<noteq> NULL \<and> d \<noteq> NULL \<and> (\<exists>l. l_at s (fst r) = Some l \<and> m_owner (l_lock l) = tls) \<and>
     (\<exists>y. dq_at s d = Some y \<and> (dq_resumable y \<longleftrightarrow> snd r = Resumable)) \<and> (\<forall>r'. d \<notin> set (pool_list s r'))"

lemma pool_list_nonnull: "pool_inv s \<Longrightarrow> pool_at s r = Some p \<Longrightarrow> i < dp_size p \<Longrightarrow> dp_array p ! i \<noteq> NULL"
  using pool_inv_nth [of s i r] pool_inv_size [of s r p] pool_list_eq [of s r p] by fastforce

lemma deque_pool_add_spec:
  assumes inv: "pool_inv s" and pre: "may_add tls r d s"
  shows "\<exists>s'. deque_pool_add tls (fst r) r d s = Some s' \<and> pool_inv s' \<and>
    pool_list s' r = pool_list s r @ [d] \<and> (\<forall>r'. r' \<noteq> r \<longrightarrow> pool_list s' r' = pool_list s r') \<and>
    (\<exists>y. dq_at s d = Some y \<and>
      dq_at s' d = Some (y\<lparr>dq_self := int (length (pool_list s r)), dq_worker := fst r\<rparr>)) \<and>
    (\<forall>e. e \<noteq> d \<longrightarrow> dq_at s' e = dq_at s e)"
proof -
  from pre obtain x y where x: "wk_at s (fst r) = Some x" "m_owner (l_lock (wk_l x)) = tls"
    and y: "dq_at s d = Some y" "dq_resumable y \<longleftrightarrow> snd r = Resumable"
    and d: "d \<noteq> NULL" "\<And>r'. d \<notin> set (pool_list s r')" "tls \<noteq> NULL"
    by (auto simp: may_add_def l_at_def split: Option.bind_splits)
  then obtain p where p: "pool_at s r = Some p" by (simp add: pool_at_def l_at_def)
  have sz: "dp_size p \<le> length (dp_array p)" "0 < length (dp_array p)" using pool_inv_size [OF inv p] by auto
  let ?rs = "if dp_size p = length (dp_array p) then resize (2 * length (dp_array p)) p else Some p"
  have "\<exists>p'. ?rs = Some p'" using sz by (cases "dp_size p = length (dp_array p)") (simp_all add: resize_def Let_def)
  then obtain p' where p': "?rs = Some p'" by blast
  then have q: "dp_size p' = dp_size p" "dp_size p < length (dp_array p')"
      "take (dp_size p) (dp_array p') = take (dp_size p) (dp_array p)"
    using resize_take [of p "2 * length (dp_array p)" p'] sz by (auto split: if_splits)
  let ?s1 = "put_dq d (y\<lparr>dq_self := int (dp_size p), dq_worker := fst r\<rparr>) s"
  let ?p = "\<lparr>dp_array = (dp_array p')[dp_size p := d], dp_size = dp_size p + 1\<rparr>"
  let ?s2 = "put_pool r x ?p ?s1"
  have r: "pool_inv ?s2 \<and> pool_list ?s2 r = pool_list s r @ [d] \<and> (\<forall>r'. r' \<noteq> r \<longrightarrow> pool_list ?s2 r' = pool_list s r')"
    by (rule pool_inv_add [OF inv p x(1) y(1) d(1) y(2) d(2) q])
  have p2: "pool_at ?s2 r = Some ?p" using x by simp
  have kind: "if dq_resumable y then r = (fst r, Resumable) else r = (fst r, Suspended)"
    using y(2) by (cases r; cases "snd r") auto
  have val: "deque_pool_validate ?p (fst r) ?s2 = Some ()"
    using pool_list_nonnull [OF conjunct1 [OF r] p2] x d(3)
    by (auto simp: deque_pool_validate_def l_at_def wk_at_def put_pool_def assert_c_def)
  have "deque_pool_add tls (fst r) r d s = Some ?s2"
    using x y kind p p' q set_pool_at_put [of ?s1 r x ?p] val
    by (simp add: deque_pool_add_def l_at_def Let_def)
  moreover have "length (pool_list s r) = dp_size p" using sz by (simp add: pool_list_eq [OF p])
  ultimately show ?thesis using r y(1) by (intro exI [of _ ?s2]) simp
qed

section \<open>Removing a deque\<close>

definition swap_remove :: "nat \<Rightarrow> 'a list \<Rightarrow> 'a list" where
  "swap_remove i xs = (butlast (xs[i := last xs]))"

lemma length_swap_remove [simp]: "length (swap_remove i xs) = length xs - 1"
  by (simp add: swap_remove_def)

lemma nth_swap_remove:
  "i < length xs \<Longrightarrow> j < length xs - 1 \<Longrightarrow> swap_remove i xs ! j = (if j = i then last xs else xs ! j)"
  by (auto simp: swap_remove_def nth_butlast nth_list_update)

lemma mset_swap_remove:
  assumes "i < length xs"
  shows "add_mset (xs ! i) (mset (swap_remove i xs)) = mset xs"
proof (cases xs rule: rev_cases)
  case Nil
  then show ?thesis using assms by simp
next
  case (snoc ys y)
  show ?thesis
  proof (cases "i = length ys")
    case False
    then have "i < length ys" using assms snoc by simp
    then show ?thesis using snoc
      by (simp add: swap_remove_def list_update_append butlast_append nth_append mset_update)
  qed (use snoc in \<open>simp add: swap_remove_def butlast_append list_update_append\<close>)
qed

lemma take_swap_remove:
  assumes "i < n" "n \<le> length xs"
  shows "take (n - 1) ((xs[i := xs ! (n - 1)])[n - 1 := c]) = swap_remove i (take n xs)"
proof (rule nth_equalityI)
  fix j assume "j < length (take (n - 1) ((xs[i := xs ! (n - 1)])[n - 1 := c]))"
  then have j: "j < n - 1" using assms by simp
  have "last (take n xs) = xs ! (n - 1)"
    using assms by (subst last_conv_nth) auto
  then show "take (n - 1) ((xs[i := xs ! (n - 1)])[n - 1 := c]) ! j = swap_remove i (take n xs) ! j"
    using j assms nth_swap_remove [of i "take n xs" j] by (simp add: nth_list_update)
qed (use assms in simp)

lemma pool_inv_remove:
  fixes y' :: deque
  assumes inv: "pool_inv s" and p: "pool_at s r = Some p" and x: "wk_at s (fst r) = Some x"
    and i: "i < dp_size p" "dp_array p ! i = d" and y: "dq_at s d = Some y"
    and m: "m = dp_array p ! (dp_size p - 1)" "dq_at s m = Some z"
  defines "s' \<equiv> put_dq d y' (put_pool r x
      \<lparr>dp_array = ((dp_array p)[i := m])[dp_size p - 1 := NULL], dp_size = dp_size p - 1\<rparr>
      (put_dq m (z\<lparr>dq_self := int i\<rparr>) s))"
  shows "pool_inv s' \<and> pool_list s' r = swap_remove i (pool_list s r) \<and>
    (\<forall>r'. r' \<noteq> r \<longrightarrow> pool_list s' r' = pool_list s r')"
proof -
  let ?xs = "pool_list s r"
  have sz: "dp_size p \<le> length (dp_array p)" "0 < length (dp_array p)" using pool_inv_size [OF inv p] by auto
  have xs: "?xs = take (dp_size p) (dp_array p)" by (rule pool_list_eq [OF p])
  then have len: "length ?xs = dp_size p" using sz by simp
  have l: "pool_list s' r' = (if r' = r then swap_remove i ?xs else pool_list s r')" for r'
    using x take_swap_remove [OF i(1) sz(1), of NULL] by (simp add: s'_def xs m(1))
  have dx: "?xs ! i = d" using i len by (simp add: xs)
  have mx: "?xs ! (dp_size p - 1) = m" "last ?xs = m"
    using i m(1) sz by (simp add: xs, subst last_conv_nth, auto simp: xs)
  have dist: "distinct ?xs" by (rule pool_inv_distinct [OF inv])
  have same: "dq_at s' e = dq_at s e" if "e \<noteq> d" "e \<noteq> m" for e
    using that by (simp add: s'_def)
  have "pool_inv s'"
  proof (rule pool_invI)
    fix r' q assume "pool_at s' r' = Some q"
    then show "0 < length (dp_array q) \<and> dp_size q \<le> length (dp_array q)"
      using x sz pool_inv_size [OF inv, of r'] by (auto simp: s'_def split: if_splits)
  next
    fix r' j assume j: "j < length (pool_list s' r')"
    let ?e = "pool_list s' r' ! j"
    show "?e \<noteq> NULL \<and> (\<exists>x. dq_at s' ?e = Some x \<and> dq_self x = int j \<and> dq_worker x = fst r' \<and>
        (dq_resumable x \<longleftrightarrow> snd r' = Resumable))"
    proof (cases "r' = r")
      case False
      then have j': "j < length (pool_list s r')" and e: "?e = pool_list s r' ! j" using j by (simp_all add: l)
      have "?e \<in> set (pool_list s r')" using j' e by simp
      moreover have "d \<in> set ?xs" "m \<in> set ?xs" using dx mx i(1) len by (metis nth_mem, metis last_in_set length_0_conv not_less_zero)
      ultimately have "?e \<noteq> d" "?e \<noteq> m" using pool_inv_disjoint [OF inv] False by metis+
      then show ?thesis using same unfolding e by (rule_tac pool_inv_nth [OF inv j']) simp
    next
      case True
      then have j': "j < dp_size p - 1" using j len by (simp add: l)
      have e: "?e = (if j = i then m else ?xs ! j)"
        using True nth_swap_remove [of i ?xs j] i(1) j' len mx by (simp add: l)
      have jx: "j < length ?xs" "dp_size p - 1 < length ?xs" "i < length ?xs" using j' i(1) len by simp_all
      show ?thesis
      proof (cases "j = i")
        case True
        then have "d \<noteq> m" using dist jx j' dx mx(1) by (metis less_irrefl nth_eq_iff_index_eq)
        with True e mx(1) m(2) \<open>r' = r\<close> show ?thesis
          by (rule_tac pool_inv_nth [OF inv jx(2)]) (simp add: s'_def)
      next
        case False
        have "?xs ! j \<noteq> d" "?xs ! j \<noteq> m"
          using dist jx j' False dx mx(1) by (metis nth_eq_iff_index_eq, metis less_irrefl nth_eq_iff_index_eq)
        then show ?thesis using same e False \<open>r' = r\<close> by (rule_tac pool_inv_nth [OF inv jx(1)]) simp
      qed
    qed
  qed
  then show ?thesis by (simp add: l)
qed

lemma deque_pool_remove_spec:
  assumes inv: "pool_inv s" and d: "d \<in> set (pool_list s r)"
    and lock: "l_at s (fst r) = Some l" "m_owner (l_lock l) \<noteq> NULL"
  shows "\<exists>s' i y. deque_pool_remove r d s = Some s' \<and> pool_inv s' \<and> i < length (pool_list s r) \<and>
    pool_list s r ! i = d \<and> pool_list s' r = swap_remove i (pool_list s r) \<and>
    (\<forall>r'. r' \<noteq> r \<longrightarrow> pool_list s' r' = pool_list s r') \<and> dq_at s d = Some y \<and>
    dq_at s' d = Some (y\<lparr>dq_self := INVALID_DEQUE_INDEX, dq_worker := NULL\<rparr>)"
proof -
  from lock obtain x where x: "wk_at s (fst r) = Some x" "m_owner (l_lock (wk_l x)) \<noteq> NULL"
    by (auto simp: l_at_def split: Option.bind_splits)
  then obtain p where p: "pool_at s r = Some p" by (simp add: pool_at_def l_at_def)
  have sz: "dp_size p \<le> length (dp_array p)" using pool_inv_size [OF inv p] by auto
  have xs: "pool_list s r = take (dp_size p) (dp_array p)" by (rule pool_list_eq [OF p])
  from d obtain i where i: "i < dp_size p" "dp_array p ! i = d" using sz by (auto simp: xs in_set_conv_nth)
  then have il: "i < length (pool_list s r)" "pool_list s r ! i = d" using sz by (simp_all add: xs)
  from pool_inv_nth [OF inv il(1)] obtain y where
    y: "dq_at s d = Some y" "dq_self y = int i" "dq_worker y = fst r" unfolding il(2) by blast
  let ?m = "dp_array p ! (dp_size p - 1)"
  have "dp_size p - 1 < length (pool_list s r)" "pool_list s r ! (dp_size p - 1) = ?m"
    using i sz by (simp_all add: xs)
  with pool_inv_nth [OF inv this(1)] obtain z where z: "dq_at s ?m = Some z" by metis
  let ?p = "\<lparr>dp_array = ((dp_array p)[i := ?m])[dp_size p - 1 := NULL], dp_size = dp_size p - 1\<rparr>"
  let ?s2 = "put_pool r x ?p (put_dq ?m (z\<lparr>dq_self := int i\<rparr>) s)"
  let ?y = "if ?m = d then z\<lparr>dq_self := int i\<rparr> else y"
  let ?s4 = "\<lambda>y'. put_dq d y' ?s2"
  note r = pool_inv_remove [OF inv p x(1) i y(1) refl z]
  let ?s3 = "?s4 (?y\<lparr>dq_self := INVALID_DEQUE_INDEX\<rparr>)"
  have p3: "pool_at ?s3 r = Some ?p" using x by simp
  have val: "deque_pool_validate ?p (fst r) ?s3 = Some ()"
    using pool_list_nonnull [OF conjunct1 [OF r] p3] x
    by (auto simp: deque_pool_validate_def l_at_def wk_at_def put_pool_def put_dq_def assert_c_def)
  have ln: "dp_size p - 1 < length (dp_array p)" using i sz by simp
  have fin: "put_dq d y' (put_dq d y'' s0) = put_dq d y' s0" for y' y'' s0 by (simp add: put_dq_def)
  have "deque_pool_remove r d s = Some (?s4 (?y\<lparr>dq_self := INVALID_DEQUE_INDEX, dq_worker := NULL\<rparr>))"
  proof (cases "?m = d")
    case True
    then show ?thesis
      using x y z p i sz ln val set_pool_at_put [of "put_dq ?m (z\<lparr>dq_self := int i\<rparr>) s" r x ?p]
      by (simp add: deque_pool_remove_def l_at_def Let_def fin)
  next
    case False
    then show ?thesis
      using x y z p i sz ln val set_pool_at_put [of "put_dq ?m (z\<lparr>dq_self := int i\<rparr>) s" r x ?p]
      by (simp add: deque_pool_remove_def l_at_def Let_def fin)
  qed
  moreover have "?y\<lparr>dq_self := INVALID_DEQUE_INDEX, dq_worker := NULL\<rparr> =
      y\<lparr>dq_self := INVALID_DEQUE_INDEX, dq_worker := NULL\<rparr>" using y(1) z by auto
  ultimately show ?thesis using r il y(1)
    by (intro exI [of _ "?s4 (?y\<lparr>dq_self := INVALID_DEQUE_INDEX, dq_worker := NULL\<rparr>)"] exI [of _ i] exI [of _ y]) simp
qed

section \<open>The contract of a family of pools\<close>

text \<open>
  What the scheduler relies on: an element is in one pool at most, inserting appends it, removing
  takes out just that one. \<open>ready\<close> and \<open>locked\<close> are the obligations of the caller.
\<close>

locale pool_registry =
  fixes inv :: "'s \<Rightarrow> bool" and contents :: "'s \<Rightarrow> 'r \<Rightarrow> 'd list"
    and ready :: "'r \<Rightarrow> 'd \<Rightarrow> 's \<Rightarrow> bool" and locked :: "'r \<Rightarrow> 's \<Rightarrow> bool"
    and insert_op :: "'r \<Rightarrow> 'd \<Rightarrow> 's \<Rightarrow> 's option" and remove_op :: "'r \<Rightarrow> 'd \<Rightarrow> 's \<Rightarrow> 's option"
  assumes insert_law: "inv s \<Longrightarrow> ready r d s \<Longrightarrow> \<exists>s'. insert_op r d s = Some s' \<and> inv s' \<and>
      contents s' r = contents s r @ [d] \<and> (\<forall>r'. r' \<noteq> r \<longrightarrow> contents s' r' = contents s r')"
    and remove_law: "inv s \<Longrightarrow> d \<in> set (contents s r) \<Longrightarrow> locked r s \<Longrightarrow> \<exists>s'. remove_op r d s = Some s' \<and> inv s' \<and>
      add_mset d (mset (contents s' r)) = mset (contents s r) \<and> (\<forall>r'. r' \<noteq> r \<longrightarrow> contents s' r' = contents s r')"
    and unique: "inv s \<Longrightarrow> d \<in> set (contents s r) \<Longrightarrow> d \<in> set (contents s r') \<Longrightarrow> r = r'"
    and no_duplicates: "inv s \<Longrightarrow> distinct (contents s r)"
begin

lemma removed_nowhere:
  assumes "inv s" "d \<in> set (contents s r)" "locked r s" "remove_op r d s = Some s'"
  shows "d \<notin> set (contents s' r')"
proof (cases "r' = r")
  case True
  from remove_law [OF assms(1-3)] assms(4) have "add_mset d (mset (contents s' r)) = mset (contents s r)" by auto
  moreover have "count (mset (contents s r)) d \<le> 1"
    using no_duplicates [OF assms(1)] by (metis count_eq_zero_iff distinct_count_atmost_1 le_numeral_extra(4) le_zero_eq nle_le)
  ultimately have "count (mset (contents s' r)) d = 0" by (metis One_nat_def add_mset_add_single count_add_mset not_less_eq_eq le_zero_eq)
  then show ?thesis using True by (metis count_eq_zero_iff set_mset_mset)
next
  case False
  then have "contents s' r' = contents s r'" using remove_law [OF assms(1-3)] assms(4) by auto
  then show ?thesis using unique [OF assms(1,2), of r'] False by auto
qed

text \<open>Moving an element between two pools, with a change of state in between that no pool sees.\<close>

lemma transfer:
  assumes "inv s" "d \<in> set (contents s r)" "locked r s" "remove_op r d s = Some s1"
    and "inv s2" "\<And>q. contents s2 q = contents s1 q" "ready r' d s2" "r' \<noteq> r"
  shows "\<exists>s3. insert_op r' d s2 = Some s3 \<and> inv s3 \<and> add_mset d (mset (contents s3 r)) = mset (contents s r) \<and>
    contents s3 r' = contents s r' @ [d] \<and> (\<forall>q. q \<noteq> r \<and> q \<noteq> r' \<longrightarrow> contents s3 q = contents s q)"
proof -
  from remove_law [OF assms(1-3)] assms(4) have 1: "add_mset d (mset (contents s1 r)) = mset (contents s r)"
      "\<And>q. q \<noteq> r \<Longrightarrow> contents s1 q = contents s q" by auto
  from insert_law [OF assms(5,7)] obtain s3 where "insert_op r' d s2 = Some s3" "inv s3"
      "contents s3 r' = contents s2 r' @ [d]" "\<And>q. q \<noteq> r' \<Longrightarrow> contents s3 q = contents s2 q" by blast
  with 1 assms(6,8) show ?thesis by (intro exI [of _ s3]) simp
qed

end

definition pool_locked :: "pool_ref \<Rightarrow> rts \<Rightarrow> bool" where
  "pool_locked r s \<longleftrightarrow> (\<exists>l. l_at s (fst r) = Some l \<and> m_owner (l_lock l) \<noteq> NULL)"

interpretation pools: pool_registry pool_inv pool_list "may_add tls" pool_locked
  "\<lambda>r d. deque_pool_add tls (fst r) r d" deque_pool_remove for tls
proof
  fix s r d assume "pool_inv s" "may_add tls r d s"
  from deque_pool_add_spec [OF this] show "\<exists>s'. deque_pool_add tls (fst r) r d s = Some s' \<and> pool_inv s' \<and>
      pool_list s' r = pool_list s r @ [d] \<and> (\<forall>r'. r' \<noteq> r \<longrightarrow> pool_list s' r' = pool_list s r')" by blast
next
  fix s d r assume "pool_inv s" "d \<in> set (pool_list s r)" "pool_locked r s"
  then obtain l where "l_at s (fst r) = Some l" "m_owner (l_lock l) \<noteq> NULL" by (auto simp: pool_locked_def)
  from deque_pool_remove_spec [OF \<open>pool_inv s\<close> \<open>d \<in> _\<close> this] show "\<exists>s'. deque_pool_remove r d s = Some s' \<and> pool_inv s' \<and>
      add_mset d (mset (pool_list s' r)) = mset (pool_list s r) \<and> (\<forall>r'. r' \<noteq> r \<longrightarrow> pool_list s' r' = pool_list s r')"
    by (metis mset_swap_remove)
qed (fact pool_inv_disjoint pool_inv_distinct)+

section \<open>An example\<close>

text \<open>Worker 1 holds its own lock; two deques are suspended in a full vector, deque 9 is free.\<close>

definition pool_example :: rts where
  "pool_example = (rts_with_worker 1 (example_local\<lparr>l_lock := \<lparr>m_lock = True, m_owner = 1\<rparr>,
       l_suspended_deques := \<lparr>dp_array = [7, 8], dp_size = 2\<rparr>\<rparr>))
     \<lparr>rt_dq := [7 \<mapsto> (empty_deque 8)\<lparr>dq_self := 0, dq_worker := 1\<rparr>,
       8 \<mapsto> (empty_deque 8)\<lparr>dq_self := 1, dq_worker := 1\<rparr>,
       9 \<mapsto> (empty_deque 8)\<lparr>dq_self := INVALID_DEQUE_INDEX\<rparr>]\<rparr>"

lemma pool_example_pool: "pool_at pool_example r = (if r = (1, Suspended) then Some \<lparr>dp_array = [7, 8], dp_size = 2\<rparr>
    else if r = (1, Resumable) then Some \<lparr>dp_array = [0], dp_size = 0\<rparr> else None)"
  by (cases r; cases "snd r")
     (auto simp: pool_at_def l_at_def wk_at_def pool_example_def rts_with_worker_def example_worker_def example_local_def)

lemma pool_example_list: "pool_list pool_example r = (if r = (1, Suspended) then [7, 8] else [])"
  by (simp add: pool_list_def pool_example_pool)

lemma pool_example_inv: "pool_inv pool_example"
  by (rule pool_invI) (auto simp: pool_example_pool pool_example_list less_Suc_eq nth_Cons' split: if_splits,
    simp_all add: pool_example_def dq_at_def empty_deque_def)

lemma pool_example_locked: "l_at pool_example 1 = Some (example_local\<lparr>l_lock := \<lparr>m_lock = True, m_owner = 1\<rparr>,
       l_suspended_deques := \<lparr>dp_array = [7, 8], dp_size = 2\<rparr>\<rparr>)"
  by (simp add: pool_example_def l_at_def wk_at_def rts_with_worker_def example_worker_def)

lemma pool_example_add: "may_add 1 (1, Suspended) 9 pool_example"
  by (simp add: may_add_def pool_example_list pool_example_locked [simplified])
     (simp add: pool_example_def dq_at_def empty_deque_def)

section \<open>Properties\<close>

text \<open>Adding a deque to the pool of its kind under the lock of the pool's worker succeeds, at any
  fill: a full vector is doubled first. The invariant is kept (every deque in a pool knows its
  position and its worker and stands in the pool of its kind), the deque is last in its pool, and no
  other pool changes.\<close>

theorem deque_pool_add_appends:
  assumes "pool_inv s" "may_add tls r d s"
  shows "\<exists>s' y. deque_pool_add tls (fst r) r d s = Some s' \<and> pool_inv s' \<and>
    pool_list s' r = pool_list s r @ [d] \<and> (\<forall>r'. r' \<noteq> r \<longrightarrow> pool_list s' r' = pool_list s r') \<and>
    dq_at s d = Some y \<and>
    dq_at s' d = Some (y\<lparr>dq_self := int (length (pool_list s r)), dq_worker := fst r\<rparr>)"
  using deque_pool_add_spec [OF assms] by blast

theorem deque_pool_add_appends_witness:
  "\<exists>s' y. deque_pool_add 1 1 (1, Suspended) 9 pool_example = Some s' \<and> pool_inv s' \<and>
    pool_list s' (1, Suspended) = [7, 8, 9] \<and> dq_at s' 9 = Some (y\<lparr>dq_self := 2, dq_worker := 1\<rparr>)"
  using deque_pool_add_appends [OF pool_example_inv pool_example_add] by (auto simp: pool_example_list)

text \<open>C19. Removing a deque from its pool never fails an assertion and takes constant time: the last
  deque of the vector takes its place, which is swap removal. The invariant is kept, no other
  pool changes, the deque afterwards has no position and no worker, and is in no pool at all.\<close>

theorem deque_pool_remove_swaps:
  assumes "pool_inv s" "d \<in> set (pool_list s r)" "pool_locked r s"
  shows "\<exists>s' i y. deque_pool_remove r d s = Some s' \<and> pool_inv s' \<and> i < length (pool_list s r) \<and>
    pool_list s r ! i = d \<and> pool_list s' r = swap_remove i (pool_list s r) \<and>
    (\<forall>r'. r' \<noteq> r \<longrightarrow> pool_list s' r' = pool_list s r') \<and> (\<forall>r'. d \<notin> set (pool_list s' r')) \<and>
    dq_at s d = Some y \<and> dq_at s' d = Some (y\<lparr>dq_self := INVALID_DEQUE_INDEX, dq_worker := NULL\<rparr>)"
proof -
  obtain l where "l_at s (fst r) = Some l" "m_owner (l_lock l) \<noteq> NULL" using assms(3) by (auto simp: pool_locked_def)
  from deque_pool_remove_spec [OF assms(1,2) this] pools.removed_nowhere [OF assms] show ?thesis by blast
qed

theorem deque_pool_remove_swaps_witness:
  "\<exists>s'. deque_pool_remove (1, Suspended) 7 pool_example = Some s' \<and> pool_inv s' \<and> pool_list s' (1, Suspended) = [8]"
proof -
  have "7 \<in> set (pool_list pool_example (1, Suspended))" "pool_locked (1, Suspended) pool_example"
    by (simp_all add: pool_example_list pool_locked_def pool_example_locked [simplified])
  from deque_pool_remove_swaps [OF pool_example_inv this] obtain s' i where
    "deque_pool_remove (1, Suspended) 7 pool_example = Some s'" "pool_inv s'" "i < 2" "[7, 8] ! i = (7 :: ptr)"
    "pool_list s' (1, Suspended) = swap_remove i [7, 8]" by (auto simp: pool_example_list numeral_2_eq_2)
  then show ?thesis by (auto simp: less_Suc_eq numeral_2_eq_2 swap_remove_def)
qed

end
