(* ===== verification/Sched_Util.thy ===== *)
theory Sched_Util
  imports Deque_Pool
begin

text \<open>
  The helpers of \<^verbatim>\<open>scheduler.c\<close> that the other operations share: the random numbers with which
  victims are chosen, the locks of workers and of full frames, and the count of active workers.
\<close>

section \<open>Random numbers\<close>

definition RNGMOD :: nat where "RNGMOD = 2 ^ 32 - 5"
definition RNGMUL :: nat where "RNGMUL = 69070"

definition next_state :: "32 word \<Rightarrow> 32 word" where
  "next_state state = of_nat ((RNGMUL * unat state) mod RNGMOD)"

definition myrand :: "ptr \<Rightarrow> rts \<Rightarrow> (nat \<times> rts) proc" where
  "myrand w s = do {
     l \<leftarrow> l_at s w;
     let state = next_state (l_rand_seed l);
     s \<leftarrow> l_mod w (\<lambda>l. l\<lparr>l_rand_seed := state\<rparr>) s;
     Some (unat state, s) }"

definition mysrand :: "ptr \<Rightarrow> nat \<Rightarrow> rts \<Rightarrow> rts proc" where
  "mysrand w seed s = (let seed = seed mod RNGMOD; seed = seed + (if seed = 0 then 1 else 0)
     in l_mod w (\<lambda>l. l\<lparr>l_rand_seed := of_nat seed\<rparr>) s)"

text \<open>The product of two 32-bit numbers fits the 64 bits of \<^verbatim>\<open>unsigned long long\<close>.\<close>

lemma rng_product_fits: "RNGMUL * unat (x :: 32 word) < 2 ^ 64"
  using unsigned_less [of x, where ?'a = nat] by (simp add: RNGMUL_def)

definition rng_ok :: "32 word \<Rightarrow> bool" where
  "rng_ok x \<longleftrightarrow> 0 < unat x \<and> unat x < RNGMOD"

text \<open>69070 is invertible modulo the prime, so 0 is never reached from a proper state.\<close>

lemma RNGMUL_inverse: "(3866465487 * RNGMUL) mod RNGMOD = 1"
  by (simp add: RNGMUL_def RNGMOD_def)

lemma rng_ok_next:
  assumes "rng_ok x"
  shows "rng_ok (next_state x)" "unat (next_state x) = (RNGMUL * unat x) mod RNGMOD"
proof -
  let ?n = "(RNGMUL * unat x) mod RNGMOD"
  have lt: "?n < RNGMOD" by (simp add: RNGMOD_def)
  have "?n < 2 ^ LENGTH(32)" using lt by (simp add: RNGMOD_def)
  then show u: "unat (next_state x) = ?n" by (simp add: next_state_def unat_of_nat)
  have "?n \<noteq> 0"
  proof
    assume "?n = 0"
    then have "(3866465487 * RNGMUL * unat x) mod RNGMOD = 0"
      by (metis mod_mult_right_eq mult.assoc mult_0_right mod_0)
    then have "unat x mod RNGMOD = 0" using RNGMUL_inverse
      by (metis mod_mult_left_eq mult_1)
    with assms show False by (simp add: rng_ok_def)
  qed
  then show "rng_ok (next_state x)" using lt u by (simp add: rng_ok_def)
qed

section \<open>Locks of workers\<close>

definition lock_worker :: "ptr \<Rightarrow> ptr \<Rightarrow> rts \<Rightarrow> rts proc" where
  "lock_worker w victim s = do {
     l \<leftarrow> l_at s victim;
     m \<leftarrow> mutex_lock w (l_lock l);
     l_mod victim (\<lambda>l. l\<lparr>l_lock := m\<rparr>) s }"

definition unlock_worker :: "ptr \<Rightarrow> ptr \<Rightarrow> rts \<Rightarrow> rts proc" where
  "unlock_worker w victim s = do {
     l \<leftarrow> l_at s victim;
     m \<leftarrow> mutex_unlock w (l_lock l);
     l_mod victim (\<lambda>l. l\<lparr>l_lock := m\<rparr>) s }"

definition worker_lock :: "ptr \<Rightarrow> rts \<Rightarrow> rts proc" where
  "worker_lock w s = do {
     l \<leftarrow> l_at s w;
     assert_c (\<not> l_do_not_steal l);
     s \<leftarrow> l_mod w (\<lambda>l. l\<lparr>l_do_not_steal := True\<rparr>) s;
     lock_worker w w s }"

definition worker_unlock :: "ptr \<Rightarrow> rts \<Rightarrow> rts proc" where
  "worker_unlock w s = do {
     s \<leftarrow> unlock_worker w w s;
     l \<leftarrow> l_at s w;
     assert_c (l_do_not_steal l);
     l_mod w (\<lambda>l. l\<lparr>l_do_not_steal := False\<rparr>) s }"

definition worker_trylock_other :: "ptr \<Rightarrow> ptr \<Rightarrow> rts \<Rightarrow> (bool \<times> rts) proc" where
  "worker_trylock_other w victim s = do {
     l \<leftarrow> l_at s victim;
     (got, m) \<leftarrow> mutex_trylock w (l_steal_lock l);
     s \<leftarrow> l_mod victim (\<lambda>l. l\<lparr>l_steal_lock := m\<rparr>) s;
     (if got then do {
        l \<leftarrow> l_at s victim;
        (status, s) \<leftarrow> (if l_do_not_steal l then Some (False, s)
          else do { (st, m) \<leftarrow> mutex_trylock w (l_lock l);
                    s \<leftarrow> l_mod victim (\<lambda>l. l\<lparr>l_lock := m\<rparr>) s;
                    Some (st, s) });
        l \<leftarrow> l_at s victim;
        m \<leftarrow> mutex_unlock w (l_steal_lock l);
        s \<leftarrow> l_mod victim (\<lambda>l. l\<lparr>l_steal_lock := m\<rparr>) s;
        Some (status, s) }
      else Some (False, s)) }"

definition worker_unlock_other :: "ptr \<Rightarrow> ptr \<Rightarrow> rts \<Rightarrow> rts proc" where
  "worker_unlock_other w victim s = unlock_worker w victim s"

section \<open>Locks of full frames\<close>

definition frame_lock :: "ptr \<Rightarrow> ptr \<Rightarrow> rts \<Rightarrow> rts proc" where
  "frame_lock w p s = do {
     ff \<leftarrow> ff_at s p;
     m \<leftarrow> mutex_lock w (ff_lock ff);
     ff_mod p (\<lambda>ff. ff\<lparr>ff_lock := m\<rparr>) s }"

definition frame_unlock :: "ptr \<Rightarrow> ptr \<Rightarrow> rts \<Rightarrow> rts proc" where
  "frame_unlock w p s = do {
     ff \<leftarrow> ff_at s p;
     m \<leftarrow> mutex_unlock w (ff_lock ff);
     ff_mod p (\<lambda>ff. ff\<lparr>ff_lock := m\<rparr>) s }"

section \<open>Active workers\<close>

definition cilkg_increment_active_workers :: "rts \<Rightarrow> int \<times> rts" where
  "cilkg_increment_active_workers s = (let n = g_active_workers (rt_g s) + 1
     in (n, s\<lparr>rt_g := (rt_g s)\<lparr>g_active_workers := n\<rparr>\<rparr>))"

definition cilkg_decrement_active_workers :: "rts \<Rightarrow> int \<times> rts" where
  "cilkg_decrement_active_workers s = (let n = g_active_workers (rt_g s) - 1
     in (n, s\<lparr>rt_g := (rt_g s)\<lparr>g_active_workers := n\<rparr>\<rparr>))"

section \<open>Choosing between two workers\<close>

text \<open>
  The two different victims that \<^verbatim>\<open>__cilkrts_make_resumable\<close> and \<^verbatim>\<open>deque_suspend\<close> draw when there is
  more than one worker.
\<close>

definition pick_two :: "ptr \<Rightarrow> rts \<Rightarrow> (nat \<times> nat \<times> rts) proc" where
  "pick_two w s = do {
     let total = g_total_workers (rt_g s);
     (r1, s) \<leftarrow> myrand w s;
     let victim_idx = r1 mod total;
     (r2, s) \<leftarrow> myrand w s;
     let victim2_idx = r2 mod (total - 1);
     let victim2_idx = (if victim2_idx \<ge> victim_idx then victim2_idx + 1 else victim2_idx);
     Some (victim_idx, victim2_idx, s) }"

lemma pick_two_distinct:
  assumes "pick_two w s = Some (i, j, s')" "1 < g_total_workers (rt_g s)"
  shows "i < g_total_workers (rt_g s) \<and> j < g_total_workers (rt_g s) \<and> i \<noteq> j"
proof -
  let ?n = "g_total_workers (rt_g s)"
  have lt: "x mod (?n - 1) < ?n - 1" for x using assms(2) by (intro mod_less_divisor) simp
  from assms(1) obtain r1 s1 r2 where m: "myrand w s = Some (r1, s1)" "myrand w s1 = Some (r2, s')"
    by (auto simp: pick_two_def Let_def split: Option.bind_splits)
  then have r: "i = r1 mod ?n" "j = (if r2 mod (?n - 1) \<ge> i then r2 mod (?n - 1) + 1 else r2 mod (?n - 1))"
    using assms(1) by (auto simp: pick_two_def Let_def)
  have i: "i < ?n" using assms(2) r(1) by simp
  show ?thesis
  proof (cases "r2 mod (?n - 1) \<ge> i")
    case True
    then have "j = r2 mod (?n - 1) + 1" using r(2) by simp
    then show ?thesis using i True lt [of r2] by linarith
  next
    case False
    then have "j = r2 mod (?n - 1)" using r(2) by simp
    then show ?thesis using i False lt [of r2] by linarith
  qed
qed

section \<open>Properties\<close>

text \<open>The random numbers never get stuck at 0: from a state in the multiplicative group modulo
  2^32 - 5 every further state is in it, the word arithmetic computes the congruence of the
  comment exactly (the product fits 64 bits and the result 32), and seeding gives such a state.\<close>

theorem myrand_in_group:
  assumes "l_at s w = Some l" "rng_ok (l_rand_seed l)"
  shows "\<exists>r s' l'. myrand w s = Some (r, s') \<and> r = (RNGMUL * unat (l_rand_seed l)) mod RNGMOD \<and> 0 < r \<and>
    l_at s' w = Some l' \<and> unat (l_rand_seed l') = r \<and> rng_ok (l_rand_seed l')"
  using assms rng_ok_next [OF assms(2)]
  by (auto simp: myrand_def l_at_def wk_at_def l_mod_def wk_mod_def Let_def rng_ok_def split: Option.bind_splits)

theorem myrand_in_group_witness:
  "\<exists>r s' l'. myrand 1 (rts_with_worker 1 (example_local\<lparr>l_rand_seed := 162347\<rparr>)) = Some (r, s') \<and>
    r = (RNGMUL * 162347) mod RNGMOD \<and> 0 < r \<and> l_at s' 1 = Some l' \<and> unat (l_rand_seed l') = r \<and>
    rng_ok (l_rand_seed l')"
  using myrand_in_group [of "rts_with_worker 1 (example_local\<lparr>l_rand_seed := 162347\<rparr>)" 1
      "example_local\<lparr>l_rand_seed := 162347\<rparr>"]
  by (simp add: rng_ok_def RNGMOD_def)

end
