(* ===== verification/Full_Frame.thy ===== *)
theory Full_Frame
  imports Sched_Util
begin

text \<open>
  Full frames: \<^verbatim>\<open>full_frame.c\<close> and the functions of \<^verbatim>\<open>scheduler.c\<close> that build the tree of full
  frames. The children of a frame form a doubly linked list in serial order; \<open>kids\<close> says which
  list of addresses a state holds, and the lemmas show that linking and unlinking are the list
  operations they should be.
\<close>

section \<open>One full frame\<close>

definition new_full_frame :: "ptr \<Rightarrow> full_frame" where
  "new_full_frame sf = \<lparr>ff_lock = mutex_init, ff_join_counter = 0, ff_is_call_child = False,
     ff_simulated_stolen = False, ff_parent = NULL, ff_left_sibling = NULL, ff_right_sibling = NULL,
     ff_rightmost_child = NULL, ff_call_stack = sf, ff_children_reducer_map = NULL,
     ff_right_reducer_map = NULL, ff_pending_exception = NULL, ff_child_pending_exception = NULL,
     ff_right_pending_exception = NULL, ff_sync_sp = 0, ff_frame_size = 0, ff_fiber_self = NULL,
     ff_fiber_child = NULL, ff_sync_master = NULL\<rparr>"

definition make_full_frame :: "ptr \<Rightarrow> rts \<Rightarrow> ptr \<times> rts" where
  "make_full_frame sf s = (rt_next s,
     s\<lparr>rt_ff := (rt_ff s)(rt_next s \<mapsto> new_full_frame sf), rt_next := rt_next s + 1\<rparr>)"

definition put_stack :: "ptr \<Rightarrow> ptr \<Rightarrow> rts \<Rightarrow> rts proc" where
  "put_stack p sf s = do {
     f \<leftarrow> sf_at s sf;
     ff_mod p (\<lambda>ff. ff\<lparr>ff_sync_sp := sf_ctx_sp f + ff_sync_sp ff\<rparr>) s }"

definition take_stack :: "ptr \<Rightarrow> int \<Rightarrow> rts \<Rightarrow> rts proc" where
  "take_stack p sp s = ff_mod p (\<lambda>ff. ff\<lparr>ff_sync_sp := ff_sync_sp ff - sp\<rparr>) s"

definition adjust_stack :: "ptr \<Rightarrow> nat \<Rightarrow> rts \<Rightarrow> rts proc" where
  "adjust_stack p n s = ff_mod p (\<lambda>ff. ff\<lparr>ff_sync_sp := ff_sync_sp ff + int n\<rparr>) s"

definition destroy_full_frame :: "ptr \<Rightarrow> rts \<Rightarrow> rts proc" where
  "destroy_full_frame p s = do {
     ff \<leftarrow> ff_at s p;
     assert_c (ff_children_reducer_map ff = NULL);
     assert_c (ff_right_reducer_map ff = NULL);
     assert_c (ff_pending_exception ff = NULL);
     assert_c (ff_child_pending_exception ff = NULL);
     assert_c (ff_right_pending_exception ff = NULL);
     Some (s\<lparr>rt_ff := (rt_ff s)(p := None)\<rparr>) }"

section \<open>The tree\<close>

definition double_link :: "ptr \<Rightarrow> ptr \<Rightarrow> rts \<Rightarrow> rts proc" where
  "double_link left_ff right_ff s = do {
     s \<leftarrow> (if left_ff \<noteq> NULL then ff_mod left_ff (\<lambda>f. f\<lparr>ff_right_sibling := right_ff\<rparr>) s else Some s);
     (if right_ff \<noteq> NULL then ff_mod right_ff (\<lambda>f. f\<lparr>ff_left_sibling := left_ff\<rparr>) s else Some s) }"

definition push_child :: "ptr \<Rightarrow> ptr \<Rightarrow> rts \<Rightarrow> rts proc" where
  "push_child parent_ff child_ff s = do {
     p \<leftarrow> ff_at s parent_ff;
     s \<leftarrow> double_link (ff_rightmost_child p) child_ff s;
     s \<leftarrow> double_link child_ff NULL s;
     ff_mod parent_ff (\<lambda>f. f\<lparr>ff_rightmost_child := child_ff\<rparr>) s }"

definition unlink_child :: "ptr \<Rightarrow> ptr \<Rightarrow> rts \<Rightarrow> rts proc" where
  "unlink_child parent_ff child_ff s = do {
     c \<leftarrow> ff_at s child_ff;
     s \<leftarrow> double_link (ff_left_sibling c) (ff_right_sibling c) s;
     c \<leftarrow> ff_at s child_ff;
     s \<leftarrow> (if ff_right_sibling c = NULL then do {
             p \<leftarrow> ff_at s parent_ff;
             assert_c (ff_rightmost_child p = child_ff);
             ff_mod parent_ff (\<lambda>f. f\<lparr>ff_rightmost_child := ff_left_sibling c\<rparr>) s }
           else Some s);
     ff_mod child_ff (\<lambda>f. f\<lparr>ff_left_sibling := NULL, ff_right_sibling := NULL\<rparr>) s }"

definition incjoin :: "ptr \<Rightarrow> rts \<Rightarrow> rts proc" where
  "incjoin p = ff_mod p (\<lambda>f. f\<lparr>ff_join_counter := ff_join_counter f + 1\<rparr>)"

definition decjoin :: "ptr \<Rightarrow> rts \<Rightarrow> (int \<times> rts) proc" where
  "decjoin p s = do {
     f \<leftarrow> ff_at s p;
     assert_c (ff_join_counter f > 0);
     s \<leftarrow> ff_mod p (\<lambda>f. f\<lparr>ff_join_counter := ff_join_counter f - 1\<rparr>) s;
     Some (ff_join_counter f - 1, s) }"

definition simulate_decjoin :: "ptr \<Rightarrow> rts \<Rightarrow> int proc" where
  "simulate_decjoin p s = do { f \<leftarrow> ff_at s p; assert_c (ff_join_counter f > 0); Some (ff_join_counter f - 1) }"

definition make_runnable :: "ptr \<Rightarrow> ptr \<Rightarrow> rts \<Rightarrow> rts proc" where
  "make_runnable ff d s = do {
     s \<leftarrow> dq_mod d (\<lambda>x. x\<lparr>dq_frame_ff := ff\<rparr>) s;
     ff_mod ff (\<lambda>f. f\<lparr>ff_call_stack := NULL\<rparr>) s }"

definition make_unrunnable_sysdep :: "ptr \<Rightarrow> ptr \<Rightarrow> bool \<Rightarrow> rts \<Rightarrow> rts proc" where
  "make_unrunnable_sysdep ff sf is_loot s = do {
     s \<leftarrow> sf_mod sf (\<lambda>f. f\<lparr>sf_except_data := NULL\<rparr>) s;
     (if is_loot then do {
        f \<leftarrow> sf_at s sf;
        s \<leftarrow> ff_mod ff (\<lambda>x. if ff_frame_size x = 0 then x\<lparr>ff_frame_size := sf_ctx_fp f - sf_ctx_sp f\<rparr> else x) s;
        sf_mod sf (\<lambda>f. f\<lparr>sf_ctx_sp := 0\<rparr>) s }
      else Some s) }"

definition make_unrunnable :: "ptr \<Rightarrow> ptr \<Rightarrow> bool \<Rightarrow> rts \<Rightarrow> rts proc" where
  "make_unrunnable ff sf is_loot s = do {
     s \<leftarrow> ff_mod ff (\<lambda>x. x\<lparr>ff_call_stack := sf\<rparr>) s;
     (if sf \<noteq> NULL then do {
        s \<leftarrow> sf_mod sf (\<lambda>f. f\<lparr>sf_flags := sf_flags f OR (CILK_FRAME_STOLEN OR CILK_FRAME_SUSPENDED),
               sf_worker := NULL\<rparr>) s;
        f \<leftarrow> sf_at s sf;
        s \<leftarrow> (if is_loot \<and> \<not> flag_set (sf_flags f) CILK_FRAME_FUTURE_PARENT then put_stack ff sf s else Some s);
        make_unrunnable_sysdep ff sf is_loot s }
      else Some s) }"

definition push_next_frame :: "ptr \<Rightarrow> ptr \<Rightarrow> rts \<Rightarrow> rts proc" where
  "push_next_frame w ff s = do {
     assert_c (ff \<noteq> NULL);
     l \<leftarrow> l_at s w;
     assert_c (l_next_frame_ff l = NULL);
     s \<leftarrow> incjoin ff s;
     l_mod w (\<lambda>l. l\<lparr>l_next_frame_ff := ff\<rparr>) s }"

definition pop_next_frame :: "ptr \<Rightarrow> rts \<Rightarrow> (ptr \<times> rts) proc" where
  "pop_next_frame w s = do {
     l \<leftarrow> l_at s w;
     let ff = l_next_frame_ff l;
     s \<leftarrow> (if ff \<noteq> NULL then l_mod w (\<lambda>l. l\<lparr>l_next_frame_ff := NULL\<rparr>) s else Some s);
     Some (ff, s) }"

definition set_sync_master :: "ptr \<Rightarrow> ptr \<Rightarrow> rts \<Rightarrow> rts proc" where
  "set_sync_master w ff s = do {
     s \<leftarrow> l_mod w (\<lambda>l. l\<lparr>l_last_full_frame := ff\<rparr>) s;
     ff_mod ff (\<lambda>f. f\<lparr>ff_sync_master := w\<rparr>) s }"

definition unset_sync_master :: "ptr \<Rightarrow> ptr \<Rightarrow> rts \<Rightarrow> rts proc" where
  "unset_sync_master w ff s = do {
     l \<leftarrow> l_at s w;
     assert_c (l_type l = WORKER_USER);
     f \<leftarrow> ff_at s ff;
     assert_c (ff_sync_master f = w);
     s \<leftarrow> ff_mod ff (\<lambda>f. f\<lparr>ff_sync_master := NULL\<rparr>) s;
     s \<leftarrow> l_mod w (\<lambda>l. l\<lparr>l_last_full_frame := NULL\<rparr>) s;
     d \<leftarrow> active_deque s w;
     x \<leftarrow> dq_at s d;
     od \<leftarrow> active_deque s (dq_team x);
     Some (s\<lparr>rt_g := (rt_g s)\<lparr>g_original_deque := od\<rparr>\<rparr>) }"

definition make_child :: "ptr \<Rightarrow> ptr \<Rightarrow> fiber_arg \<Rightarrow> rts \<Rightarrow> (ptr \<times> rts) proc" where
  "make_child parent_ff child_sf fiber s = do {
     let (child_ff, s) = make_full_frame child_sf s;
     p \<leftarrow> ff_at s parent_ff;
     assert_c (ff_call_stack p \<noteq> NULL);
     f \<leftarrow> sf_at s (ff_call_stack p);
     (if flag_set (sf_flags f) CILK_FRAME_FUTURE_PARENT then Some (child_ff, s)
      else do {
        s \<leftarrow> ff_mod child_ff (\<lambda>c. c\<lparr>ff_parent := parent_ff\<rparr>) s;
        s \<leftarrow> push_child parent_ff child_ff s;
        let call_child = (fiber = No_Fiber);
        let fib = (case fiber of Fiber x \<Rightarrow> x | _ \<Rightarrow> NULL);
        p \<leftarrow> ff_at s parent_ff;
        s \<leftarrow> ff_mod child_ff (\<lambda>c. c\<lparr>ff_is_call_child := call_child, ff_fiber_self := ff_fiber_self p,
               ff_sync_master := NULL\<rparr>) s;
        s \<leftarrow> ff_mod parent_ff (\<lambda>p. p\<lparr>ff_fiber_self := if call_child then NULL else fib\<rparr>) s;
        s \<leftarrow> incjoin parent_ff s;
        Some (child_ff, s) }) }"

definition advance_frame :: "ptr \<Rightarrow> rts \<Rightarrow> (ptr \<times> rts) proc" where
  "advance_frame sf s = do {
     f \<leftarrow> sf_at s sf;
     s \<leftarrow> sf_mod sf (\<lambda>f. f\<lparr>sf_call_parent := NULL\<rparr>) s;
     Some (sf_call_parent f, s) }"

definition unroll_mask :: "32 word" where
  "unroll_mask = CILK_FRAME_DETACHED OR CILK_FRAME_STOLEN OR CILK_FRAME_LAST OR CILK_FRAME_BATCH"

text \<open>The do-while loop that reverses the call stack; it returns the oldest frame.\<close>

partial_function (option) reverse_stack :: "ptr \<Rightarrow> ptr \<Rightarrow> rts \<Rightarrow> (ptr \<times> rts) proc" where
  "reverse_stack sf rev_sf s = do {
     f \<leftarrow> sf_at s sf;
     let t_sf = (if flag_set (sf_flags f) unroll_mask then NULL else sf_call_parent f);
     s \<leftarrow> sf_mod sf (\<lambda>f. f\<lparr>sf_call_parent := rev_sf\<rparr>) s;
     (if t_sf \<noteq> NULL then reverse_stack t_sf sf s else Some (sf, s)) }"

text \<open>The for loop that promotes the frames from parent to child.\<close>

partial_function (option) promote_stack :: "ptr \<Rightarrow> ptr \<Rightarrow> ptr \<Rightarrow> rts \<Rightarrow> (ptr \<times> ptr \<times> rts) proc" where
  "promote_stack loot_sf ff sf s = do {
     (t_sf, s) \<leftarrow> advance_frame sf s;
     (if t_sf \<noteq> NULL then do {
        (ff, s) \<leftarrow> make_child ff t_sf No_Fiber s;
        s \<leftarrow> make_unrunnable ff t_sf (t_sf = loot_sf) s;
        promote_stack loot_sf ff t_sf s }
      else Some (ff, sf, s)) }"

definition unroll_call_stack :: "ptr \<Rightarrow> ptr \<Rightarrow> ptr \<Rightarrow> rts \<Rightarrow> (ptr \<times> rts) proc" where
  "unroll_call_stack w ff loot_sf s = do {
     assert_c (loot_sf \<noteq> NULL);
     f \<leftarrow> sf_at s loot_sf;
     d \<leftarrow> active_deque s w;
     x \<leftarrow> dq_at s d;
     s \<leftarrow> (if (sf_worker f \<noteq> w \<or> dq_frame_ff x \<noteq> ff) \<and> \<not> flag_set (sf_flags f) CILK_FRAME_FUTURE_PARENT
           then sf_mod loot_sf (\<lambda>f. f\<lparr>sf_flags := sf_flags f OR CILK_FRAME_UNSYNCHED\<rparr>) s else Some s);
     (sf, s) \<leftarrow> reverse_stack loot_sf NULL s;
     s \<leftarrow> make_unrunnable ff sf (sf = loot_sf) s;
     (ff, sf, s) \<leftarrow> promote_stack loot_sf ff sf s;
     f \<leftarrow> sf_at s sf;
     assert_c (sf_call_parent f = NULL);
     Some (ff, s) }"

section \<open>Lists of children\<close>

text \<open>
  The links of a list of siblings: each frame's left and right sibling are its neighbours, null at
  the ends, and the parent points to the last one.
\<close>

definition hd_or :: "ptr \<Rightarrow> ptr list \<Rightarrow> ptr" where
  "hd_or r cs = (case cs of [] \<Rightarrow> r | c # _ \<Rightarrow> c)"

definition last_or :: "ptr \<Rightarrow> ptr list \<Rightarrow> ptr" where
  "last_or l cs = (if cs = [] then l else last cs)"

fun lseg :: "rts \<Rightarrow> ptr \<Rightarrow> ptr list \<Rightarrow> ptr \<Rightarrow> bool" where
  "lseg s l [] r \<longleftrightarrow> True"
| "lseg s l (c # cs) r \<longleftrightarrow> c \<noteq> NULL \<and> (\<exists>f. ff_at s c = Some f \<and> ff_left_sibling f = l \<and>
      ff_right_sibling f = hd_or r cs) \<and> lseg s c cs r"

definition kids :: "rts \<Rightarrow> ptr \<Rightarrow> ptr list \<Rightarrow> bool" where
  "kids s p cs \<longleftrightarrow> distinct cs \<and> p \<notin> set cs \<and> lseg s NULL cs NULL \<and>
     (\<exists>f. ff_at s p = Some f \<and> ff_rightmost_child f = last_or NULL cs)"

lemma hd_or_simps [simp]: "hd_or r [] = r" "hd_or r (c # cs) = c" "hd_or r (cs @ ds) = hd_or (hd_or r ds) cs"
  by (simp_all add: hd_or_def split: list.split)

lemma last_or_simps [simp]: "last_or l [] = l" "last_or l (c # cs) = last_or c cs" "last_or l (cs @ ds) = last_or (last_or l cs) ds"
  by (simp_all add: last_or_def)

lemma last_or_in: "cs \<noteq> [] \<Longrightarrow> last_or l cs \<in> set cs"
  by (simp add: last_or_def)

lemma lseg_append: "lseg s l (cs @ ds) r \<longleftrightarrow> lseg s l cs (hd_or r ds) \<and> lseg s (last_or l cs) ds r"
  by (induction cs arbitrary: l) auto

lemma lseg_frame_at: "lseg s l cs r \<Longrightarrow> c \<in> set cs \<Longrightarrow> c \<noteq> NULL \<and> ff_at s c \<noteq> None"
  by (induction cs arbitrary: l) auto

text \<open>Writing one frame.\<close>

definition put_ff :: "ptr \<Rightarrow> full_frame \<Rightarrow> rts \<Rightarrow> rts" where
  "put_ff p f s = s\<lparr>rt_ff := (rt_ff s)(p \<mapsto> f)\<rparr>"

lemma put_ff_at [simp]:
  "ff_at (put_ff p f s) q = (if q = p then Some f else ff_at s q)"
  "sf_at (put_ff p f s) x = sf_at s x" "dq_at (put_ff p f s) x = dq_at s x"
  "wk_at (put_ff p f s) x = wk_at s x" "l_at (put_ff p f s) x = l_at s x"
  "rt_rm (put_ff p f s) = rt_rm s" "rt_next (put_ff p f s) = rt_next s"
  by (simp_all add: put_ff_def ff_at_def sf_at_def dq_at_def wk_at_def l_at_def)

lemma ff_mod_put [simp]: "ff_at s p = Some f \<Longrightarrow> ff_mod p g s = Some (put_ff p (g f) s)"
  by (simp add: put_ff_def ff_mod_def)

lemma put_ff_put [simp]: "put_ff p g (put_ff p f s) = put_ff p g s"
  by (simp add: put_ff_def)

lemma ff_mod_None [simp]: "ff_at s p = None \<Longrightarrow> ff_mod p g s = None"
  by (simp add: ff_mod_def)

text \<open>Two states in which a frame has the same links.\<close>

definition same_links :: "rts \<Rightarrow> rts \<Rightarrow> ptr \<Rightarrow> bool" where
  "same_links s s' c \<longleftrightarrow> (\<forall>f. ff_at s c = Some f \<longrightarrow> (\<exists>f'. ff_at s' c = Some f' \<and>
      ff_left_sibling f' = ff_left_sibling f \<and> ff_right_sibling f' = ff_right_sibling f))"

lemma lseg_same: "lseg s l cs r \<Longrightarrow> \<forall>c\<in>set cs. same_links s s' c \<Longrightarrow> lseg s' l cs r"
  by (induction cs arbitrary: l) (auto simp: same_links_def)

lemma lseg_put_other: "lseg s l cs r \<Longrightarrow> p \<notin> set cs \<Longrightarrow> lseg (put_ff p f s) l cs r"
  by (rule lseg_same) (auto simp: same_links_def)

lemma lseg_set_left:
  assumes "lseg s l (c # cs) r" "ff_at s c = Some f" "c \<notin> set cs"
  shows "lseg (put_ff c (f\<lparr>ff_left_sibling := l'\<rparr>) s) l' (c # cs) r"
  using assms lseg_put_other [of s c cs r c] by auto

lemma lseg_set_right:
  assumes "lseg s l (cs @ [c]) r" "ff_at s c = Some f" "c \<notin> set cs"
  shows "lseg (put_ff c (f\<lparr>ff_right_sibling := r'\<rparr>) s) l (cs @ [c]) r'"
  using assms lseg_put_other [of s l cs c c] by (auto simp: lseg_append)

text \<open>What the list operations leave alone: every field but the links and the rightmost child.\<close>

definition no_links :: "full_frame \<Rightarrow> full_frame" where
  "no_links f = f\<lparr>ff_left_sibling := NULL, ff_right_sibling := NULL, ff_rightmost_child := NULL\<rparr>"

lemma no_links_fields:
  assumes "no_links f = no_links g"
  shows "ff_join_counter f = ff_join_counter g" "ff_is_call_child f = ff_is_call_child g"
    "ff_parent f = ff_parent g" "ff_call_stack f = ff_call_stack g" "ff_fiber_self f = ff_fiber_self g"
    "ff_fiber_child f = ff_fiber_child g" "ff_children_reducer_map f = ff_children_reducer_map g"
    "ff_right_reducer_map f = ff_right_reducer_map g" "ff_simulated_stolen f = ff_simulated_stolen g"
    "ff_sync_sp f = ff_sync_sp g" "ff_lock f = ff_lock g" "ff_sync_master f = ff_sync_master g"
    "ff_pending_exception f = ff_pending_exception g" "ff_child_pending_exception f = ff_child_pending_exception g"
    "ff_right_pending_exception f = ff_right_pending_exception g"
  using assms unfolding no_links_def by (cases f; cases g; simp)+

definition relinked :: "rts \<Rightarrow> rts \<Rightarrow> bool" where
  "relinked s s' \<longleftrightarrow> (\<forall>p. map_option no_links (ff_at s' p) = map_option no_links (ff_at s p)) \<and>
     s' = s\<lparr>rt_ff := rt_ff s'\<rparr>"

lemma relinked_refl [simp]: "relinked s s"
  by (simp add: relinked_def)

lemma relinked_rest: "relinked s s' \<Longrightarrow> rt_sf s' = rt_sf s \<and> rt_dq s' = rt_dq s \<and> rt_wk s' = rt_wk s \<and>
    rt_fb s' = rt_fb s \<and> rt_rm s' = rt_rm s \<and> rt_ex s' = rt_ex s \<and> rt_g s' = rt_g s \<and> rt_next s' = rt_next s"
  unfolding relinked_def by (cases s; cases s') simp

lemma relinked_trans: "relinked s s1 \<Longrightarrow> relinked s1 s2 \<Longrightarrow> relinked s s2"
  unfolding relinked_def by (metis rts.update_convs(2) rts.surjective)

lemma relinked_put: "ff_at s p = Some f \<Longrightarrow> no_links g = no_links f \<Longrightarrow> relinked s (put_ff p g s)"
  by (auto simp: relinked_def put_ff_def ff_at_def)

lemma no_links_upd [simp]:
  "no_links (f\<lparr>ff_left_sibling := l\<rparr>) = no_links f" "no_links (f\<lparr>ff_right_sibling := r\<rparr>) = no_links f"
  "no_links (f\<lparr>ff_rightmost_child := m\<rparr>) = no_links f"
  by (simp_all add: no_links_def)

lemma relinked_at:
  assumes "relinked s s'" "ff_at s p = Some f"
  obtains f' where "ff_at s' p = Some f'" "no_links f' = no_links f"
  using assms unfolding relinked_def by (metis (no_types, lifting) map_option_eq_Some)

text \<open>
  \<^const>\<open>push_child\<close> appends the child to the list of its parent; it changes the links of the old
  rightmost child and of the new one, and the rightmost child of the parent.
\<close>

lemma push_child_spec:
  assumes k: "kids s p cs" and c: "c \<noteq> NULL" "ff_at s c = Some fc" "c \<notin> set cs" "c \<noteq> p"
  shows "\<exists>s'. push_child p c s = Some s' \<and> kids s' p (cs @ [c]) \<and> relinked s s' \<and>
    (\<forall>q. q \<notin> insert p (insert c (set cs)) \<longrightarrow> ff_at s' q = ff_at s q) \<and>
    (\<forall>q f. q \<noteq> p \<and> ff_at s q = Some f \<longrightarrow>
      (\<exists>f'. ff_at s' q = Some f' \<and> ff_rightmost_child f' = ff_rightmost_child f)) \<and>
    same_links s s' p"
proof -
  from k obtain fp where p: "p \<notin> set cs" "ff_at s p = Some fp" "ff_rightmost_child fp = last_or NULL cs"
    and l: "distinct cs" "lseg s NULL cs NULL" by (auto simp: kids_def)
  show ?thesis
  proof (cases cs rule: rev_cases)
    case Nil
    let ?s = "put_ff p (fp\<lparr>ff_rightmost_child := c\<rparr>)
      (put_ff c (fc\<lparr>ff_left_sibling := NULL, ff_right_sibling := NULL\<rparr>) s)"
    have "push_child p c s = Some ?s"
      using p c Nil by (simp add: push_child_def double_link_def)
    moreover have "relinked s ?s" using p(2) c(2,4)
      by (intro relinked_trans [OF relinked_put relinked_put]) simp_all
    ultimately show ?thesis using p c Nil by (intro exI [of _ ?s]) (simp add: kids_def same_links_def)
  next
    case (snoc as a)
    then obtain fa where a: "a \<noteq> NULL" "ff_at s a = Some fa" "a \<noteq> c" "a \<noteq> p"
      using l c(3) p(1) by (auto simp: lseg_append)
    let ?s1 = "put_ff a (fa\<lparr>ff_right_sibling := c\<rparr>) s"
    let ?s2 = "put_ff c (fc\<lparr>ff_left_sibling := a, ff_right_sibling := NULL\<rparr>) ?s1"
    let ?s = "put_ff p (fp\<lparr>ff_rightmost_child := c\<rparr>) ?s2"
    have pc: "push_child p c s = Some ?s"
      using p c snoc a by (simp add: push_child_def double_link_def)
    have r: "relinked s ?s" using p(2) c(2,4) a
      by (intro relinked_trans [OF relinked_trans [OF relinked_put relinked_put] relinked_put]) simp_all
    have "a \<notin> set as" using l(1) snoc by simp
    then have "lseg ?s1 NULL (as @ [a]) c" using lseg_set_right [of s NULL as a NULL fa c] l(2) a snoc by simp
    then have "lseg ?s NULL (as @ [a]) c"
      using c(3) p(1) snoc lseg_put_other [OF lseg_put_other] by simp
    then have "kids ?s p (cs @ [c])" using p c snoc l(1) a by (auto simp: kids_def lseg_append)
    then show ?thesis using pc r p c a snoc by (intro exI [of _ ?s]) (simp add: same_links_def)
  qed
qed

text \<open>\<^const>\<open>unlink_child\<close> takes a child out of the list, wherever it stands.\<close>

lemma unlink_child_spec:
  assumes k: "kids s p (as @ c # bs)"
  shows "\<exists>s'. unlink_child p c s = Some s' \<and> kids s' p (as @ bs) \<and> relinked s s' \<and>
    (\<exists>f. ff_at s' c = Some f \<and> ff_left_sibling f = NULL \<and> ff_right_sibling f = NULL) \<and>
    (\<forall>q. q \<notin> insert p (set (as @ c # bs)) \<longrightarrow> ff_at s' q = ff_at s q) \<and>
    (\<forall>q f. q \<noteq> p \<and> ff_at s q = Some f \<longrightarrow>
      (\<exists>f'. ff_at s' q = Some f' \<and> ff_rightmost_child f' = ff_rightmost_child f))"
proof -
  let ?L = "last_or NULL as" and ?R = "hd_or NULL bs"
  from k obtain fp where p: "p \<notin> set (as @ c # bs)" "ff_at s p = Some fp"
      "ff_rightmost_child fp = last_or NULL (as @ c # bs)"
    and d: "distinct (as @ c # bs)" and l: "lseg s NULL as c" "lseg s c bs NULL"
    and c0: "c \<noteq> NULL" and c: "\<exists>f. ff_at s c = Some f \<and> ff_left_sibling f = ?L \<and> ff_right_sibling f = ?R"
    by (auto simp: kids_def lseg_append)
  from c obtain fc where fc: "ff_at s c = Some fc" "ff_left_sibling fc = ?L" "ff_right_sibling fc = ?R" by blast
  have cp: "c \<noteq> p" using p(1) by auto
  have L: "as = [] \<and> ?L = NULL \<or> ?L \<in> set as \<and> ?L \<noteq> NULL \<and> ff_at s ?L = Some (the (ff_at s ?L))"
    using lseg_frame_at [OF l(1) last_or_in] last_or_in [of as NULL] by (cases "as = []") auto
  have R: "bs = [] \<and> ?R = NULL \<or> ?R \<in> set bs \<and> ?R \<noteq> NULL \<and> ff_at s ?R = Some (the (ff_at s ?R))"
    using lseg_frame_at [OF l(2), of ?R] by (cases bs) auto
  define s1 where "s1 = (if ?L \<noteq> NULL then put_ff ?L ((the (ff_at s ?L))\<lparr>ff_right_sibling := ?R\<rparr>) s else s)"
  define s2 where "s2 = (if ?R \<noteq> NULL then put_ff ?R ((the (ff_at s ?R))\<lparr>ff_left_sibling := ?L\<rparr>) s1 else s1)"
  define s3 where "s3 = (if ?R = NULL then put_ff p (fp\<lparr>ff_rightmost_child := ?L\<rparr>) s2 else s2)"
  define s' where "s' = put_ff c (fc\<lparr>ff_left_sibling := NULL, ff_right_sibling := NULL\<rparr>) s3"
  have ne: "?L \<noteq> NULL \<Longrightarrow> ?L \<noteq> ?R \<and> ?L \<noteq> c \<and> ?L \<noteq> p" "?R \<noteq> NULL \<Longrightarrow> ?R \<noteq> c \<and> ?R \<noteq> p"
    using L R d p(1) by auto
  have at: "ff_at s2 c = Some fc" "ff_at s2 p = Some fp" "ff_at s3 c = Some fc"
    using ne fc(1) p(2) cp by (auto simp: s1_def s2_def s3_def)
  have dl: "double_link ?L ?R s = Some s2"
    using L R ne by (auto simp: double_link_def s1_def s2_def)
  have r0: "bs = [] \<Longrightarrow> ff_rightmost_child fp = c" "(?R = NULL) = (bs = [])" using p(3) R by auto
  have u: "unlink_child p c s = Some s'"
    using fc dl at r0 cp by (auto simp: unlink_child_def s3_def s'_def)
  have rl: "relinked s s'"
  proof -
    have "relinked s s1" using L by (auto simp: s1_def intro: relinked_put)
    moreover have "relinked s1 s2" using R ne by (auto simp: s1_def s2_def intro!: relinked_put)
    moreover have "relinked s2 s3" using at by (auto simp: s3_def intro: relinked_put)
    moreover have "relinked s3 s'" using at by (auto simp: s'_def intro: relinked_put)
    ultimately show ?thesis by (meson relinked_trans)
  qed
  have la: "lseg s' NULL as ?R"
  proof (cases as rule: rev_cases)
    case (snoc as' a)
    then have "lseg s1 NULL as ?R"
      using lseg_set_right [of s NULL as' a c "the (ff_at s a)" ?R] l(1) d L by (simp add: s1_def)
    then show ?thesis
      using d p(1) R by (auto simp: s'_def s3_def s2_def intro!: lseg_put_other)
  qed simp
  have lb: "lseg s' ?L bs NULL"
  proof (cases bs)
    case (Cons b bs')
    have "lseg s1 c bs NULL" using l(2) L d by (auto simp: s1_def intro: lseg_put_other)
    then have "lseg s2 ?L bs NULL"
      using lseg_set_left [of s1 c b bs' NULL "the (ff_at s b)" ?L] d L R ne Cons by (auto simp: s2_def s1_def)
    then show ?thesis using d p(1) by (auto simp: s'_def s3_def intro!: lseg_put_other)
  qed simp
  have "\<exists>f. ff_at s' p = Some f \<and> ff_rightmost_child f = last_or NULL (as @ bs)"
    using at cp p(3) r0(2) by (cases bs) (auto simp: s'_def s3_def)
  then have "kids s' p (as @ bs)" using la lb d p(1) by (auto simp: kids_def lseg_append)
  moreover have "\<forall>q. q \<notin> insert p (set (as @ c # bs)) \<longrightarrow> ff_at s' q = ff_at s q"
    using L R by (auto simp: s'_def s3_def s2_def s1_def)
  moreover have "\<forall>q f. q \<noteq> p \<and> ff_at s q = Some f \<longrightarrow>
      (\<exists>f'. ff_at s' q = Some f' \<and> ff_rightmost_child f' = ff_rightmost_child f)"
    using fc L R by (auto simp: s'_def s3_def s2_def s1_def)
  moreover have "\<exists>f. ff_at s' c = Some f \<and> ff_left_sibling f = NULL \<and> ff_right_sibling f = NULL"
    by (simp add: s'_def)
  ultimately show ?thesis using u rl by blast
qed

section \<open>An example\<close>

text \<open>Full frame 10 with the two children 11 and 12, and the free frame 13.\<close>

definition family_example :: rts where
  "family_example = (rts_with_worker 1 example_local)\<lparr>rt_ff :=
     [10 \<mapsto> (new_full_frame 20)\<lparr>ff_rightmost_child := 12, ff_join_counter := 2\<rparr>,
      11 \<mapsto> (new_full_frame 21)\<lparr>ff_parent := 10, ff_right_sibling := 12\<rparr>,
      12 \<mapsto> (new_full_frame 22)\<lparr>ff_parent := 10, ff_left_sibling := 11\<rparr>,
      13 \<mapsto> (new_full_frame 23)\<lparr>ff_parent := 10\<rparr>]\<rparr>"

lemma family_example_kids: "kids family_example 10 [11, 12]"
  by (simp add: kids_def family_example_def ff_at_def new_full_frame_def)

section \<open>Properties\<close>

text \<open>C20. The doubly linked list of children is a list in serial order: pushing a child appends it, and
  after that every child, the new one or an older one, wherever it stands, can be unlinked, which
  takes out just that child and keeps the order of the others. Neither operation changes anything but
  the links of the frames concerned and the rightmost child of the parent.\<close>

theorem children_form_list:
  assumes "kids s p cs" "c \<noteq> NULL" "ff_at s c = Some fc" "c \<notin> set cs" "c \<noteq> p" "cs @ [c] = as @ x # bs"
  shows "\<exists>s1 s2. push_child p c s = Some s1 \<and> kids s1 p (cs @ [c]) \<and>
    unlink_child p x s1 = Some s2 \<and> kids s2 p (as @ bs) \<and> relinked s s2 \<and>
    (\<forall>q. q \<notin> insert p (insert c (set cs)) \<longrightarrow> ff_at s2 q = ff_at s q)"
proof -
  from push_child_spec [OF assms(1-5)] obtain s1 where s1: "push_child p c s = Some s1" "kids s1 p (cs @ [c])"
    "relinked s s1" "\<forall>q. q \<notin> insert p (insert c (set cs)) \<longrightarrow> ff_at s1 q = ff_at s q" by blast
  from s1(2) have "kids s1 p (as @ x # bs)" by (simp only: assms(6))
  from unlink_child_spec [OF this] obtain s2 where s2: "unlink_child p x s1 = Some s2" "kids s2 p (as @ bs)"
    "relinked s1 s2" "\<forall>q. q \<notin> insert p (set (as @ x # bs)) \<longrightarrow> ff_at s2 q = ff_at s1 q" by blast
  have "set (as @ x # bs) = insert c (set cs)" by (simp only: assms(6) [symmetric]) simp
  with s1 s2 relinked_trans show ?thesis by (intro exI [of _ s1] exI [of _ s2]) auto
qed

theorem children_form_list_witness:
  "\<exists>s1 s2. push_child 10 13 family_example = Some s1 \<and> kids s1 10 [11, 12, 13] \<and>
    unlink_child 10 12 s1 = Some s2 \<and> kids s2 10 [11, 13]"
proof -
  have "ff_at family_example 13 = Some ((new_full_frame 23)\<lparr>ff_parent := 10\<rparr>)"
    by (simp add: family_example_def ff_at_def)
  from children_form_list [OF family_example_kids _ this, of "[11]" 12 "[13]"] show ?thesis by auto
qed

end
