(* ===== verification/Call_Stack.thy ===== *)
theory Call_Stack
  imports Full_Frame
begin

text \<open>
  Promotion of a call stack on a steal: \<^const>\<open>unroll_call_stack\<close> of \<^verbatim>\<open>scheduler.c\<close> reverses the stack
  frames from the stolen one up to the first detached, stolen, last or batch frame, and turns them
  into a chain of full frames, each the called child of the one before.
\<close>

section \<open>Writing stack frames\<close>

definition put_sf :: "ptr \<Rightarrow> stack_frame \<Rightarrow> rts \<Rightarrow> rts" where
  "put_sf p f s = s\<lparr>rt_sf := (rt_sf s)(p \<mapsto> f)\<rparr>"

lemma put_sf_at [simp]:
  "sf_at (put_sf p f s) q = (if q = p then Some f else sf_at s q)"
  "ff_at (put_sf p f s) x = ff_at s x" "dq_at (put_sf p f s) x = dq_at s x"
  "wk_at (put_sf p f s) x = wk_at s x" "l_at (put_sf p f s) x = l_at s x" "rt_next (put_sf p f s) = rt_next s"
  by (simp_all add: put_sf_def ff_at_def sf_at_def dq_at_def wk_at_def l_at_def)

lemma sf_mod_put [simp]: "sf_at s p = Some f \<Longrightarrow> sf_mod p g s = Some (put_sf p (g f) s)"
  by (simp add: put_sf_def sf_mod_def)

lemma put_sf_put [simp]: "put_sf p g (put_sf p f s) = put_sf p g s"
  by (simp add: put_sf_def)

lemma put_sf_ff: "put_sf p f (put_ff q g s) = put_ff q g (put_sf p f s)"
  by (simp add: put_sf_def put_ff_def)

lemma flag_set_or: "flag_set (a OR b) m \<longleftrightarrow> flag_set a m \<or> flag_set b m"
  by (simp add: flag_set_def bit.conj_disj_distrib2 or_eq_0_iff)

text \<open>\<^const>\<open>make_unrunnable\<close> on an existing stack frame.\<close>

definition suspended_sf :: "stack_frame \<Rightarrow> stack_frame \<Rightarrow> bool" where
  "suspended_sf f f' \<longleftrightarrow> sf_flags f' = sf_flags f OR (CILK_FRAME_STOLEN OR CILK_FRAME_SUSPENDED) \<and>
     sf_worker f' = NULL \<and> sf_except_data f' = NULL \<and> sf_call_parent f' = sf_call_parent f \<and>
     sf_pedigree f' = sf_pedigree f"

lemma make_unrunnable_spec:
  assumes F: "ff_at s g = Some F" and f: "sf_at s z = Some f" and z: "z \<noteq> NULL"
  shows "\<exists>sp fs f'. make_unrunnable g z b s =
      Some (put_ff g (F\<lparr>ff_call_stack := z, ff_sync_sp := sp, ff_frame_size := fs\<rparr>) (put_sf z f' s)) \<and>
    suspended_sf f f'"
proof -
  let ?f = "f\<lparr>sf_flags := sf_flags f OR (CILK_FRAME_STOLEN OR CILK_FRAME_SUSPENDED), sf_worker := NULL\<rparr>"
  let ?F = "F\<lparr>ff_call_stack := z\<rparr>"
  let ?s = "put_ff g ?F (put_sf z ?f s)"
  define sp where "sp = (if b \<and> \<not> flag_set (sf_flags ?f) CILK_FRAME_FUTURE_PARENT
    then sf_ctx_sp f + ff_sync_sp F else ff_sync_sp F)"
  define fs where "fs = (if b \<and> ff_frame_size F = 0 then sf_ctx_fp f - sf_ctx_sp f else ff_frame_size F)"
  let ?s1 = "put_ff g (?F\<lparr>ff_sync_sp := sp\<rparr>) (put_sf z ?f s)"
  have same: "?F\<lparr>ff_sync_sp := ff_sync_sp F\<rparr> = ?F" "ff_frame_size_update (\<lambda>_. ff_frame_size F) G = G"
    if "ff_frame_size G = ff_frame_size F" for G using that by simp_all
  have 1: "(if b \<and> \<not> flag_set (sf_flags ?f) CILK_FRAME_FUTURE_PARENT then put_stack g z ?s else Some ?s) = Some ?s1"
    by (simp add: put_stack_def sp_def same)
  obtain f' where 2: "make_unrunnable_sysdep g z b ?s1 =
      Some (put_ff g (?F\<lparr>ff_sync_sp := sp, ff_frame_size := fs\<rparr>) (put_sf z f' s))" "suspended_sf f f'"
  proof (cases b)
    case True
    then have "make_unrunnable_sysdep g z b ?s1 = Some (put_ff g (?F\<lparr>ff_sync_sp := sp, ff_frame_size := fs\<rparr>)
        (put_sf z (?f\<lparr>sf_except_data := NULL, sf_ctx_sp := 0\<rparr>) s))"
      by (simp add: make_unrunnable_sysdep_def fs_def put_sf_ff same)
    then show ?thesis by (rule that) (simp add: suspended_sf_def)
  next
    case False
    then have "make_unrunnable_sysdep g z b ?s1 = Some (put_ff g (?F\<lparr>ff_sync_sp := sp, ff_frame_size := fs\<rparr>)
        (put_sf z (?f\<lparr>sf_except_data := NULL\<rparr>) s))"
      by (simp add: make_unrunnable_sysdep_def fs_def put_sf_ff)
    then show ?thesis by (rule that) (simp add: suspended_sf_def)
  qed
  have "make_unrunnable g z b s = make_unrunnable_sysdep g z b ?s1"
    using F f z 1 by (simp add: make_unrunnable_def put_sf_ff)
  with 2 show ?thesis by (metis full_frame.update_convs)
qed

section \<open>New children\<close>

text \<open>Steps that change stack frames and full frames only.\<close>

definition only_frames :: "rts \<Rightarrow> rts \<Rightarrow> bool" where
  "only_frames s s' \<longleftrightarrow> rt_dq s' = rt_dq s \<and> rt_wk s' = rt_wk s \<and> rt_fb s' = rt_fb s \<and> rt_rm s' = rt_rm s \<and>
     rt_ex s' = rt_ex s \<and> rt_g s' = rt_g s"

lemma only_frames_put [simp]: "only_frames s (put_ff p f s') = only_frames s s'" "only_frames s (put_sf z g s') = only_frames s s'"
    "only_frames (put_ff p f s) s' = only_frames s s'" "only_frames (put_sf z g s) s' = only_frames s s'"
  by (simp_all add: only_frames_def put_ff_def put_sf_def)

lemma only_frames_trans: "only_frames s s1 \<Longrightarrow> only_frames s1 s2 \<Longrightarrow> only_frames s s2"
  by (simp add: only_frames_def)

lemma only_frames_refl [simp]: "only_frames s s"
  by (simp add: only_frames_def)

text \<open>A frame address is fresh when it is not in the heap; every address from the next one on is.\<close>

definition next_fresh :: "rts \<Rightarrow> bool" where
  "next_fresh s \<longleftrightarrow> rt_next s \<noteq> NULL \<and> (\<forall>p\<ge>rt_next s. ff_at s p = None)"

lemma next_fresh_lt: "next_fresh s \<Longrightarrow> ff_at s p = Some f \<Longrightarrow> p < rt_next s"
  by (metis next_fresh_def not_less option.distinct(1))

lemma kids_lt: "next_fresh s \<Longrightarrow> kids s p cs \<Longrightarrow> c \<in> set cs \<Longrightarrow> c < rt_next s"
  using lseg_frame_at next_fresh_lt unfolding kids_def by blast

lemma rt_next_at [simp]: "ff_at (s\<lparr>rt_next := n\<rparr>) q = ff_at s q" "sf_at (s\<lparr>rt_next := n\<rparr>) q = sf_at s q"
  by (simp_all add: ff_at_def sf_at_def)

text \<open>What a parent and a new child look like, called if it gets no fiber, and what stays.\<close>

definition new_child :: "ptr \<Rightarrow> full_frame \<Rightarrow> ptr \<Rightarrow> fiber_arg \<Rightarrow> full_frame \<Rightarrow> full_frame \<Rightarrow> bool" where
  "new_child p F z fb P C \<longleftrightarrow> ff_call_stack P = ff_call_stack F \<and>
     ff_fiber_self P = (case fb of Fiber x \<Rightarrow> x | _ \<Rightarrow> NULL) \<and> ff_lock P = ff_lock F \<and> ff_lock C = mutex_init \<and>
     ff_join_counter P = ff_join_counter F + 1 \<and> ff_parent P = ff_parent F \<and>
     ff_is_call_child P = ff_is_call_child F \<and> ff_left_sibling P = ff_left_sibling F \<and>
     ff_right_sibling P = ff_right_sibling F \<and>
     ff_parent C = p \<and> (ff_is_call_child C \<longleftrightarrow> fb = No_Fiber) \<and> ff_call_stack C = z \<and> ff_fiber_self C = ff_fiber_self F \<and>
     ff_join_counter C = 0 \<and> ff_rightmost_child C = NULL"

lemma kids_same_links:
  assumes "kids s p cs" "\<forall>c\<in>set cs. same_links s s' c"
    "\<exists>P. ff_at s' p = Some P \<and> ff_rightmost_child P = last_or NULL cs"
  shows "kids s' p cs"
  using assms lseg_same [of s NULL cs NULL s'] by (auto simp: kids_def)

lemma make_child_spec:
  assumes k: "kids s p cs" and n: "next_fresh s" and p: "ff_at s p = Some F"
    and st: "ff_call_stack F \<noteq> NULL" "sf_at s (ff_call_stack F) = Some f"
      "\<not> flag_set (sf_flags f) CILK_FRAME_FUTURE_PARENT"
  shows "\<exists>s' P C. make_child p z fb s = Some (rt_next s, s') \<and> rt_next s' = rt_next s + 1 \<and> next_fresh s' \<and>
    kids s' p (cs @ [rt_next s]) \<and> ff_at s' p = Some P \<and> ff_at s' (rt_next s) = Some C \<and> new_child p F z fb P C \<and>
    (\<forall>q. q \<notin> insert p (insert (rt_next s) (set cs)) \<longrightarrow> ff_at s' q = ff_at s q) \<and> rt_sf s' = rt_sf s \<and> only_frames s s'"
proof -
  let ?c = "rt_next s"
  have c: "?c \<noteq> NULL" "ff_at s ?c = None" "?c \<noteq> p" "?c \<notin> set cs"
    using n p kids_lt [OF n k] by (auto simp: next_fresh_def)
  let ?s1 = "put_ff ?c (new_full_frame z) (s\<lparr>rt_next := ?c + 1\<rparr>)"
  let ?s2 = "put_ff ?c ((new_full_frame z)\<lparr>ff_parent := p\<rparr>) (s\<lparr>rt_next := ?c + 1\<rparr>)"
  have "kids ?s2 p cs"
    using c(3,4) p k by (rule_tac kids_same_links [OF k]) (auto simp: same_links_def kids_def)
  from push_child_spec [OF this c(1) _ c(4,3)] obtain s3 where
    s3: "push_child p ?c ?s2 = Some s3" "kids s3 p (cs @ [?c])" "relinked ?s2 s3"
      "\<forall>q. q \<notin> insert p (insert ?c (set cs)) \<longrightarrow> ff_at s3 q = ff_at ?s2 q"
      "\<forall>q f. q \<noteq> p \<and> ff_at ?s2 q = Some f \<longrightarrow>
        (\<exists>f'. ff_at s3 q = Some f' \<and> ff_rightmost_child f' = ff_rightmost_child f)"
      "same_links ?s2 s3 p" by auto
  have p2: "ff_at ?s2 p = Some F" using c(3) p by simp
  obtain P where P: "ff_at s3 p = Some P" "no_links P = no_links F" by (rule relinked_at [OF s3(3) p2])
  obtain C where C: "ff_at s3 ?c = Some C" "no_links C = no_links ((new_full_frame z)\<lparr>ff_parent := p\<rparr>)"
    by (rule relinked_at [OF s3(3), of ?c]) simp_all
  have C0: "ff_rightmost_child C = NULL" using s3(5) [THEN spec, of ?c] C(1) c(3) by (simp add: new_full_frame_def)
  have Pl: "ff_left_sibling P = ff_left_sibling F" "ff_right_sibling P = ff_right_sibling F"
    using s3(6) P(1) p2 by (simp_all add: same_links_def)
  let ?C = "C\<lparr>ff_is_call_child := (fb = No_Fiber), ff_fiber_self := ff_fiber_self P, ff_sync_master := NULL\<rparr>"
  let ?P = "P\<lparr>ff_fiber_self := (case fb of Fiber x \<Rightarrow> x | _ \<Rightarrow> NULL), ff_join_counter := ff_join_counter P + 1\<rparr>"
  let ?s = "put_ff p ?P (put_ff ?c ?C s3)"
  have f3: "rt_sf s3 = rt_sf s" "rt_next s3 = ?c + 1"
    using relinked_rest [OF s3(3)] by (simp_all add: put_ff_def)
  have mk: "make_full_frame z s = (?c, ?s1)" by (simp add: make_full_frame_def put_ff_def)
  have r1: "make_child p z fb s = Some (?c, ?s)"
    using st p c(3) s3(1) P(1) C(1) mk by (cases fb) (simp_all add: make_child_def incjoin_def)
  have r2: "kids ?s p (cs @ [?c])"
    using P(1) C(1) s3(2) by (rule_tac kids_same_links [OF s3(2)]) (auto simp: same_links_def kids_def)
  have r3: "new_child p F z fb ?P ?C"
    using no_links_fields [OF P(2)] no_links_fields [OF C(2)] Pl C0 by (simp add: new_child_def new_full_frame_def)
  have r4: "\<forall>q. q \<notin> insert p (insert ?c (set cs)) \<longrightarrow> ff_at ?s q = ff_at s q" using s3(4) by simp
  have "ff_at ?s q = None" if "?c + 1 \<le> q" for q
  proof -
    have q: "q \<noteq> p" "q \<noteq> ?c" "q \<notin> set cs" using that kids_lt [OF n k, of q] next_fresh_lt [OF n p] by auto
    moreover have "ff_at s q = None" using that n by (simp add: next_fresh_def)
    ultimately show ?thesis using s3(4) by simp
  qed
  then have r5: "next_fresh ?s" using f3(2) by (simp add: next_fresh_def)
  have "ff_at ?s p = Some ?P" "ff_at ?s ?c = Some ?C" "rt_next ?s = ?c + 1" using f3(2) c(3) by auto
  moreover have "rt_sf ?s = rt_sf s" using f3(1) by (simp add: put_ff_def)
  moreover have "only_frames s ?s" using relinked_rest [OF s3(3)] by (simp add: only_frames_def put_ff_def)
  ultimately show ?thesis using r1 r2 r3 r4 r5 by blast
qed

section \<open>Reversing the call stack\<close>

text \<open>The call stack to unroll, youngest frame first, and a list linked from parent to child.\<close>

fun call_chain :: "rts \<Rightarrow> ptr list \<Rightarrow> bool" where
  "call_chain s [] \<longleftrightarrow> False"
| "call_chain s [x] \<longleftrightarrow> x \<noteq> NULL \<and> (\<exists>f. sf_at s x = Some f \<and> (flag_set (sf_flags f) unroll_mask \<or> sf_call_parent f = NULL))"
| "call_chain s (x # y # ys) \<longleftrightarrow> x \<noteq> NULL \<and> (\<exists>f. sf_at s x = Some f \<and> \<not> flag_set (sf_flags f) unroll_mask \<and>
      sf_call_parent f = y) \<and> call_chain s (y # ys)"

fun down_chain :: "rts \<Rightarrow> ptr list \<Rightarrow> bool" where
  "down_chain s [] \<longleftrightarrow> True"
| "down_chain s (y # ys) \<longleftrightarrow> y \<noteq> NULL \<and> (\<exists>f. sf_at s y = Some f \<and> sf_call_parent f = hd_or NULL ys) \<and> down_chain s ys"

definition no_parent :: "stack_frame \<Rightarrow> stack_frame" where
  "no_parent f = f\<lparr>sf_call_parent := NULL\<rparr>"

definition reparented :: "rts \<Rightarrow> rts \<Rightarrow> bool" where
  "reparented s s' \<longleftrightarrow> (\<forall>p. map_option no_parent (sf_at s' p) = map_option no_parent (sf_at s p)) \<and>
     s' = s\<lparr>rt_sf := rt_sf s'\<rparr>"

lemma reparented_refl [simp]: "reparented s s"
  by (simp add: reparented_def)

lemma reparented_trans: "reparented s s1 \<Longrightarrow> reparented s1 s2 \<Longrightarrow> reparented s s2"
  unfolding reparented_def by (metis rts.update_convs(1) rts.surjective)

lemma reparented_put: "sf_at s p = Some f \<Longrightarrow> reparented s (put_sf p (f\<lparr>sf_call_parent := q\<rparr>) s)"
  by (auto simp: reparented_def put_sf_def sf_at_def no_parent_def)

lemma call_chain_cong:
  "call_chain s xs \<Longrightarrow> \<forall>x\<in>set xs. sf_at s' x = sf_at s x \<Longrightarrow> call_chain s' xs"
  by (induction s xs rule: call_chain.induct) auto

lemma down_chain_cong: "down_chain s ys \<Longrightarrow> \<forall>y\<in>set ys. sf_at s' y = sf_at s y \<Longrightarrow> down_chain s' ys"
  by (induction ys) auto

lemma down_chain_parents:
  "down_chain s ys \<Longrightarrow> \<forall>y\<in>set ys. map_option sf_call_parent (sf_at s' y) = map_option sf_call_parent (sf_at s y) \<Longrightarrow>
    down_chain s' ys"
  by (induction ys) auto

lemma reverse_stack_spec:
  assumes "call_chain s xs" "distinct xs" "down_chain s rs" "set xs \<inter> set rs = {}"
  shows "\<exists>s'. reverse_stack (hd xs) (hd_or NULL rs) s = Some (last xs, s') \<and> down_chain s' (rev xs @ rs) \<and>
    reparented s s'"
  using assms
proof (induction xs arbitrary: s rs)
  case Nil
  then show ?case by simp
next
  case (Cons x xs)
  show ?case
  proof (cases xs)
    case Nil
    from Cons.prems(1) Nil obtain f where f: "x \<noteq> NULL" "sf_at s x = Some f"
        "flag_set (sf_flags f) unroll_mask \<or> sf_call_parent f = NULL" by auto
    let ?s = "put_sf x (f\<lparr>sf_call_parent := hd_or NULL rs\<rparr>) s"
    have "(if flag_set (sf_flags f) unroll_mask then NULL else sf_call_parent f) = NULL" using f(3) by auto
    then have "reverse_stack x (hd_or NULL rs) s = Some (x, ?s)"
      using f(1,2) by (subst reverse_stack.simps) (simp only: sf_mod_put Let_def Option.bind.bind_lunit if_not_P simp_thms if_False)
    moreover have "down_chain ?s rs" using Cons.prems(3,4) by (rule_tac down_chain_cong [of s rs]) auto
    then have "down_chain ?s (x # rs)" using f(1) by simp
    ultimately show ?thesis using Nil reparented_put [OF f(2), of "hd_or NULL rs"] by (intro exI [of _ ?s]) (simp del: hd_or_simps)
  next
    case (Cons y ys)
    with Cons.prems(1) obtain f where f: "x \<noteq> NULL" "sf_at s x = Some f" "\<not> flag_set (sf_flags f) unroll_mask"
        "sf_call_parent f = y" and cy: "call_chain s (y # ys)" by auto
    let ?s = "put_sf x (f\<lparr>sf_call_parent := hd_or NULL rs\<rparr>) s"
    have c: "call_chain ?s xs" using Cons.prems(2) cy Cons by (rule_tac call_chain_cong [of s]) auto
    have "y \<noteq> NULL" using cy by (cases ys) auto
    then have r: "reverse_stack x (hd_or NULL rs) s = reverse_stack (hd xs) (hd_or NULL (x # rs)) ?s"
      using f Cons by (subst reverse_stack.simps) simp
    have "down_chain ?s rs" using Cons.prems(3,4) by (rule_tac down_chain_cong [of s rs]) auto
    then have d: "down_chain ?s (x # rs)" using f(1) by simp
    have "distinct xs" "set xs \<inter> set (x # rs) = {}" using Cons.prems(2,4) by auto
    from Cons.IH [OF c this(1) d this(2)] obtain s' where
      s': "reverse_stack (hd xs) (hd_or NULL (x # rs)) ?s = Some (last xs, s')"
      "down_chain s' (rev xs @ x # rs)" "reparented ?s s'" by blast
    then have "reparented s s'" using reparented_trans [OF reparented_put [OF f(2)]] by blast
    then show ?thesis using s' r Cons by (intro exI [of _ s']) simp
  qed
qed

section \<open>Promoting the reversed stack\<close>

text \<open>
  The chain of full frames \<open>gs\<close> over the stack frames \<open>zs\<close>: each full frame holds its stack
  frame, suspended and cut off; each but the last has the next one as its last, called, child, and
  is joined by it; the last one holds the fiber \<open>fb\<close>. The first has the children \<open>cs\<close> and the join
  count \<open>j\<close> before it gets the new one.
\<close>

definition suspended :: "stack_frame \<Rightarrow> bool" where
  "suspended f \<longleftrightarrow> flag_set (sf_flags f) CILK_FRAME_STOLEN \<and> flag_set (sf_flags f) CILK_FRAME_SUSPENDED \<and>
     sf_worker f = NULL"

fun promoted :: "rts \<Rightarrow> ptr list \<Rightarrow> int \<Rightarrow> ptr \<Rightarrow> ptr list \<Rightarrow> ptr list \<Rightarrow> bool" where
  "promoted s cs j fb (g # gs) (z # zs) \<longleftrightarrow>
     (\<exists>F f. ff_at s g = Some F \<and> ff_call_stack F = z \<and> sf_at s z = Some f \<and> sf_call_parent f = NULL \<and> suspended f \<and>
        (case gs of [] \<Rightarrow> zs = [] \<and> kids s g cs \<and> ff_fiber_self F = fb \<and> ff_join_counter F = j
         | h # _ \<Rightarrow> kids s g (cs @ [h]) \<and> ff_fiber_self F = NULL \<and> ff_join_counter F = j + 1 \<and>
           (\<exists>H. ff_at s h = Some H \<and> ff_parent H = g \<and> ff_is_call_child H) \<and> promoted s [] 0 fb gs zs))"
| "promoted s _ _ _ _ _ \<longleftrightarrow> False"

lemma flag_set_self: "flag_set CILK_FRAME_STOLEN CILK_FRAME_STOLEN" "flag_set CILK_FRAME_SUSPENDED CILK_FRAME_SUSPENDED"
  by (simp_all add: flag_set_def CILK_FRAME_STOLEN_def CILK_FRAME_SUSPENDED_def)

lemma suspended_sf_suspended: "suspended_sf f f' \<Longrightarrow> suspended f'"
  by (simp add: suspended_sf_def suspended_def flag_set_or flag_set_self)

lemma kids_put_sf [simp]: "kids (put_sf z f s) p cs \<longleftrightarrow> kids s p cs"
proof -
  have "kids (put_sf z f s) p cs" if "kids s p cs" for z f s
    using that by (rule_tac kids_same_links [OF that]) (auto simp: same_links_def kids_def)
  from this this [of "put_sf z f s" z] show ?thesis
    by (metis kids_same_links put_sf_at(2) same_links_def kids_def)
qed

lemma next_fresh_put_sf [simp]: "next_fresh (put_sf z f s) \<longleftrightarrow> next_fresh s"
  by (simp add: next_fresh_def)

text \<open>The mark of a stack frame that is spawning a future.\<close>

definition future_mark :: "rts \<Rightarrow> ptr \<Rightarrow> bool option" where
  "future_mark s z = map_option (\<lambda>f. flag_set (sf_flags f) CILK_FRAME_FUTURE_PARENT) (sf_at s z)"

definition not_future :: "rts \<Rightarrow> ptr \<Rightarrow> bool" where
  "not_future s z \<longleftrightarrow> future_mark s z = Some False"

lemma not_future_at: "not_future s z \<longleftrightarrow> (\<exists>f. sf_at s z = Some f \<and> \<not> flag_set (sf_flags f) CILK_FRAME_FUTURE_PARENT)"
  by (auto simp: not_future_def future_mark_def)

lemma future_mark_put: "sf_at s z = Some f \<Longrightarrow> flag_set (sf_flags f') CILK_FRAME_FUTURE_PARENT = flag_set (sf_flags f) CILK_FRAME_FUTURE_PARENT \<Longrightarrow>
    future_mark (put_sf z f' s) x = future_mark s x"
  by (simp add: future_mark_def)

lemma future_mark_ff [simp]: "future_mark (put_ff p F s) x = future_mark s x"
  by (simp add: future_mark_def)

lemma future_mark_cong: "rt_sf s' = rt_sf s \<Longrightarrow> future_mark s' x = future_mark s x"
  by (simp add: future_mark_def sf_at_def)

lemma suspended_sf_future:
  "suspended_sf f f' \<Longrightarrow> flag_set (sf_flags f') CILK_FRAME_FUTURE_PARENT = flag_set (sf_flags f) CILK_FRAME_FUTURE_PARENT"
  by (simp add: suspended_sf_def flag_set_or)
     (simp add: flag_set_def CILK_FRAME_STOLEN_def CILK_FRAME_SUSPENDED_def CILK_FRAME_FUTURE_PARENT_def)

text \<open>\<^const>\<open>promote_stack\<close> on a list linked from parent to child: a chain of called children.\<close>

text \<open>What both leave alone: the place of \<open>g\<close> in the tree, its lock, every old frame but the
  children \<open>cs\<close> of \<open>g\<close>, the future-parent marks, and the rest of the state.\<close>

definition grown :: "rts \<Rightarrow> ptr \<Rightarrow> full_frame \<Rightarrow> ptr list \<Rightarrow> rts \<Rightarrow> bool" where
  "grown s g F cs s' \<longleftrightarrow> next_fresh s' \<and> same_links s s' g \<and>
     (\<exists>F'. ff_at s' g = Some F' \<and> ff_parent F' = ff_parent F \<and> ff_is_call_child F' = ff_is_call_child F \<and>
        ff_lock F' = ff_lock F) \<and> (\<forall>x. future_mark s' x = future_mark s x) \<and> only_frames s s' \<and>
     (\<forall>q. q \<notin> insert g (set cs) \<and> q < rt_next s \<longrightarrow> ff_at s' q = ff_at s q) \<and> rt_next s \<le> rt_next s'"

definition promotes :: "rts \<Rightarrow> ptr \<Rightarrow> full_frame \<Rightarrow> ptr list \<Rightarrow> ptr list \<Rightarrow> rts \<Rightarrow> bool" where
  "promotes s g F cs zs s' \<longleftrightarrow> grown s g F cs s' \<and> (\<forall>x. x \<notin> set zs \<longrightarrow> sf_at s' x = sf_at s x) \<and>
     (\<exists>f. sf_at s' (last zs) = Some f \<and> sf_call_parent f = NULL)"

lemma promote_stack_spec:
  assumes "down_chain s (z # zs)" "distinct (z # zs)" "\<forall>x\<in>set (butlast (z # zs)). not_future s x"
    and "kids s g cs" "next_fresh s" "ff_at s g = Some F" "ff_call_stack F = z"
    and "\<exists>f. sf_at s z = Some f \<and> suspended f"
  shows "\<exists>s' gs. promote_stack loot g z s = Some (last (g # gs), last (z # zs), s') \<and>
    promoted s' cs (ff_join_counter F) (ff_fiber_self F) (g # gs) (z # zs) \<and> promotes s g F cs (z # zs) s' \<and>
    (\<forall>h\<in>set gs. rt_next s \<le> h)"
  using assms
proof (induction zs arbitrary: s z g F cs)
  case Nil
  then obtain f where f: "sf_at s z = Some f" "suspended f" "sf_call_parent f = NULL" by auto
  let ?s = "put_sf z (f\<lparr>sf_call_parent := NULL\<rparr>) s"
  have "promote_stack loot g z s = Some (g, z, ?s)"
    using f by (subst promote_stack.simps) (simp add: advance_frame_def)
  moreover have "promoted ?s cs (ff_join_counter F) (ff_fiber_self F) [g] [z]"
    using f Nil by (simp add: suspended_def)
  moreover have "future_mark ?s x = future_mark s x" for x by (rule future_mark_put [OF f(1)]) simp
  then have "promotes s g F cs [z] ?s" using Nil by (simp add: promotes_def grown_def same_links_def)
  ultimately show ?case by (intro exI [of _ ?s] exI [of _ "[]"]) simp
next
  case (Cons y ys)
  then obtain f where f: "sf_at s z = Some f" "suspended f" "sf_call_parent f = y" "z \<noteq> NULL" by auto
  let ?s1 = "put_sf z (f\<lparr>sf_call_parent := NULL\<rparr>) s" and ?h = "rt_next s"
  have nf: "\<not> flag_set (sf_flags f) CILK_FRAME_FUTURE_PARENT" using Cons.prems(3) f(1) by (auto simp: not_future_at)
  have "kids ?s1 g cs" "next_fresh ?s1" "ff_at ?s1 g = Some F" "ff_call_stack F \<noteq> NULL"
      "sf_at ?s1 (ff_call_stack F) = Some (f\<lparr>sf_call_parent := NULL\<rparr>)"
    using Cons.prems f(4) by simp_all
  from make_child_spec [OF this, where z = y and fb = No_Fiber] nf obtain s2 P C where
    s2: "make_child g y No_Fiber ?s1 = Some (?h, s2)" "rt_next s2 = ?h + 1" "next_fresh s2"
      "kids s2 g (cs @ [?h])" "ff_at s2 g = Some P" "ff_at s2 ?h = Some C" "new_child g F y No_Fiber P C"
      "\<forall>q. q \<notin> insert g (insert ?h (set cs)) \<longrightarrow> ff_at s2 q = ff_at s q" "rt_sf s2 = rt_sf ?s1" "only_frames s s2" by auto
  have sf2: "sf_at s2 x = sf_at ?s1 x" for x using s2(9) by (simp add: sf_at_def)
  have y: "y \<noteq> z" "y \<noteq> NULL" "z \<notin> set (y # ys)" using Cons.prems(1,2) by auto
  obtain fy where fy: "sf_at s2 y = Some fy" using Cons.prems(1) y sf2 by auto
  obtain sp fs f' where u: "make_unrunnable ?h y (y = loot) s2 =
      Some (put_ff ?h (C\<lparr>ff_call_stack := y, ff_sync_sp := sp, ff_frame_size := fs\<rparr>) (put_sf y f' s2))"
      "suspended_sf fy f'"
    using make_unrunnable_spec [OF s2(6) fy y(2)] by blast
  let ?C = "C\<lparr>ff_call_stack := y, ff_sync_sp := sp, ff_frame_size := fs\<rparr>"
  let ?s3 = "put_ff ?h ?C (put_sf y f' s2)"
  have h: "?h \<noteq> g" "?h \<notin> set cs" using s2(4) by (auto simp: kids_def)
  have sf3: "sf_at ?s3 x = (if x = y then Some f' else if x = z then Some (f\<lparr>sf_call_parent := NULL\<rparr>) else sf_at s x)" for x
    using sf2 by simp
  have nf3: "future_mark ?s3 x = future_mark s x" for x
  proof -
    have "future_mark ?s3 x = future_mark s2 x" using future_mark_put [OF fy suspended_sf_future [OF u(2)]] by simp
    also have "\<dots> = future_mark ?s1 x" by (rule future_mark_cong [OF s2(9)])
    also have "\<dots> = future_mark s x" by (rule future_mark_put [OF f(1)]) simp
    finally show ?thesis .
  qed
  have pc: "map_option sf_call_parent (sf_at ?s3 x) = map_option sf_call_parent (sf_at s x)" if "x \<in> set (y # ys)" for x
    using that y(3) sf2 fy u(2) by (auto simp: suspended_sf_def)
  have "down_chain s (y # ys)" using Cons.prems(1) by simp
  from down_chain_parents [OF this] pc have "down_chain ?s3 (y # ys)" by blast
  moreover have "\<forall>x\<in>set (butlast (y # ys)). not_future ?s3 x"
    using Cons.prems(3) nf3 by (simp add: not_future_def)
  moreover have "kids ?s3 ?h []" using s2(7) by (simp add: kids_def new_child_def)
  moreover have "next_fresh ?s3" using s2(3) next_fresh_lt [OF s2(3,6)] by (auto simp: next_fresh_def)
  moreover have "ff_at ?s3 ?h = Some ?C" "ff_call_stack ?C = y" by simp_all
  moreover have "\<exists>f. sf_at ?s3 y = Some f \<and> suspended f" using suspended_sf_suspended [OF u(2)] by simp
  moreover have "distinct (y # ys)" using Cons.prems(2) by simp
  ultimately obtain s' gs where s': "promote_stack loot ?h y ?s3 = Some (last (?h # gs), last (y # ys), s')"
      "promoted s' [] (ff_join_counter ?C) (ff_fiber_self ?C) (?h # gs) (y # ys)" "promotes ?s3 ?h ?C [] (y # ys) s'"
      "\<forall>h\<in>set gs. rt_next ?s3 \<le> h"
    using Cons.IH [of ?s3 y ?h "[]" ?C] by blast
  have old: "ff_at s' q = ff_at s2 q" if "q < ?h" for q
    using s'(3) that s2(2) by (auto simp: promotes_def grown_def)
  have sf': "sf_at s' x = sf_at ?s3 x" if "x \<notin> set (y # ys)" for x using s'(3) that by (simp only: promotes_def simp_thms)
  have P': "ff_at s' g = Some P" using old next_fresh_lt [OF Cons.prems(5,6)] s2(5) by simp
  have z': "sf_at s' z = Some (f\<lparr>sf_call_parent := NULL\<rparr>)" using sf' [OF y(3)] sf2 y(1) by simp
  have H: "\<exists>H. ff_at s' ?h = Some H \<and> ff_parent H = g \<and> ff_is_call_child H"
    using s'(3) s2(7) by (auto simp: promotes_def grown_def new_child_def)
  have "\<forall>c\<in>set (cs @ [?h]). same_links s2 s' c"
    using old kids_lt [OF Cons.prems(5,4)] s'(3) s2(6) by (auto simp: promotes_def grown_def same_links_def)
  then have k': "kids s' g (cs @ [?h])"
    by (rule kids_same_links [OF s2(4)]) (use P' s2(4,5) in \<open>auto simp: kids_def\<close>)
  have "promote_stack loot g z s = Some (last (g # ?h # gs), last (z # y # ys), s')"
    using f s2(1) u(1) s'(1) y by (subst promote_stack.simps) (simp add: advance_frame_def)
  moreover have "promoted s' cs (ff_join_counter F) (ff_fiber_self F) (g # ?h # gs) (z # y # ys)"
  proof -
    have "promoted s' [] 0 (ff_fiber_self F) (?h # gs) (y # ys)"
      using s'(2) s2(7) by (simp add: new_child_def del: promoted.simps)
    then show ?thesis using P' k' H z' s2(7) f(2) Cons.prems(7)
      by (subst promoted.simps) (simp add: new_child_def suspended_def del: promoted.simps)
  qed
  moreover have "promotes s g F cs (z # y # ys) s'" unfolding promotes_def grown_def
  proof (intro conjI allI impI)
    show "next_fresh s'" using s'(3) by (simp add: promotes_def grown_def)
    show "same_links s s' g" using P' s2(7) Cons.prems(6) by (simp add: same_links_def new_child_def)
    show "\<exists>F'. ff_at s' g = Some F' \<and> ff_parent F' = ff_parent F \<and> ff_is_call_child F' = ff_is_call_child F \<and>
        ff_lock F' = ff_lock F"
      using P' s2(7) by (simp add: new_child_def)
    show "future_mark s' x = future_mark s x" for x using nf3 s'(3) by (simp add: promotes_def grown_def)
    show "only_frames s s'" using s'(3) s2(10) by (auto simp: promotes_def grown_def intro: only_frames_trans)
    show "ff_at s' q = ff_at s q" if "q \<notin> insert g (set cs) \<and> q < ?h" for q
      using that old [of q] s2(8) by simp
    show "?h \<le> rt_next s'" using s'(3) s2(2) by (simp add: promotes_def grown_def)
    show "sf_at s' x = sf_at s x" if "x \<notin> set (z # y # ys)" for x
      using that sf' [of x] sf2 by simp
    show "\<exists>f. sf_at s' (last (z # y # ys)) = Some f \<and> sf_call_parent f = NULL"
      using s'(3) by (simp add: promotes_def grown_def)
  qed
  moreover have "\<forall>h\<in>set (?h # gs). rt_next s \<le> h" using s'(4) s2(2) by auto
  ultimately show ?case by blast
qed

section \<open>The whole unrolling\<close>

lemma call_chain_flags:
  "call_chain s xs \<Longrightarrow> \<forall>x\<in>set xs. map_option (\<lambda>f. (flag_set (sf_flags f) unroll_mask, sf_call_parent f)) (sf_at s' x) =
    map_option (\<lambda>f. (flag_set (sf_flags f) unroll_mask, sf_call_parent f)) (sf_at s x) \<Longrightarrow> call_chain s' xs"
  by (induction s xs rule: call_chain.induct) auto

lemma unsynched_unroll: "flag_set (fl OR CILK_FRAME_UNSYNCHED) unroll_mask = flag_set fl unroll_mask"
  by (simp add: flag_set_or) (simp add: flag_set_def frame_flag_defs unroll_mask_def)

lemma unsynched_future: "flag_set (fl OR CILK_FRAME_UNSYNCHED) CILK_FRAME_FUTURE_PARENT = flag_set fl CILK_FRAME_FUTURE_PARENT"
  by (simp add: flag_set_or) (simp add: flag_set_def frame_flag_defs)

lemma reparented_future: "reparented s s' \<Longrightarrow> future_mark s' x = future_mark s x"
proof -
  assume "reparented s s'"
  then have "map_option no_parent (sf_at s' x) = map_option no_parent (sf_at s x)" by (simp add: reparented_def)
  then have "map_option (sf_flags \<circ> no_parent) (sf_at s' x) = map_option (sf_flags \<circ> no_parent) (sf_at s x)" by (metis option.map_comp)
  then show ?thesis unfolding future_mark_def by (cases "sf_at s' x"; cases "sf_at s x") (simp_all add: no_parent_def)
qed

lemma reparented_rest: "reparented s s' \<Longrightarrow> rt_ff s' = rt_ff s \<and> rt_dq s' = rt_dq s \<and> rt_wk s' = rt_wk s \<and>
    rt_fb s' = rt_fb s \<and> rt_rm s' = rt_rm s \<and> rt_ex s' = rt_ex s \<and> rt_g s' = rt_g s \<and> rt_next s' = rt_next s"
  unfolding reparented_def by (cases s; cases s') simp

lemma kids_cong: "kids s p cs \<Longrightarrow> \<forall>q. ff_at s' q = ff_at s q \<Longrightarrow> kids s' p cs"
  by (rule kids_same_links) (auto simp: same_links_def kids_def)

lemma unroll_call_stack_spec:
  assumes "call_chain s xs" "distinct xs" "\<forall>x\<in>set (tl xs). not_future s x" "kids s ff cs" "next_fresh s"
    "ff_at s ff = Some F" "active_deque s w = Some d" "dq_at s d = Some D"
  shows "\<exists>s' gs. unroll_call_stack w ff (hd xs) s = Some (last (ff # gs), s') \<and>
    promoted s' cs (ff_join_counter F) (ff_fiber_self F) (ff # gs) (rev xs) \<and> grown s ff F cs s' \<and>
    (\<forall>h\<in>set gs. rt_next s \<le> h)"
proof -
  obtain y ys where xs: "xs = y # ys" using assms(1) by (cases xs) auto
  from assms(1) xs obtain f where y: "y \<noteq> NULL" "sf_at s y = Some f" by (cases ys) auto
  define s1 where "s1 = (if (sf_worker f \<noteq> w \<or> dq_frame_ff D \<noteq> ff) \<and> \<not> flag_set (sf_flags f) CILK_FRAME_FUTURE_PARENT
    then put_sf y (f\<lparr>sf_flags := sf_flags f OR CILK_FRAME_UNSYNCHED\<rparr>) s else s)"
  have fd: "ff_at s1 q = ff_at s q" "rt_next s1 = rt_next s" for q by (simp_all add: s1_def)
  have c1: "call_chain s1 xs" using y(2) by (rule_tac call_chain_flags [OF assms(1)]) (auto simp: s1_def unsynched_unroll)
  have nf1: "future_mark s1 x = future_mark s x" for x
    using future_mark_put [OF y(2), of "f\<lparr>sf_flags := sf_flags f OR CILK_FRAME_UNSYNCHED\<rparr>"] by (simp add: s1_def unsynched_future)
  obtain s2 where s2: "reverse_stack y NULL s1 = Some (last xs, s2)" "down_chain s2 (rev xs)" "reparented s1 s2"
    using reverse_stack_spec [OF c1 assms(2), where rs = "[]"] xs by auto
  have nf2: "future_mark s2 x = future_mark s x" for x using nf1 reparented_future [OF s2(3)] by simp
  have fd2: "ff_at s2 q = ff_at s q" "rt_next s2 = rt_next s" for q
    using reparented_rest [OF s2(3)] fd by (simp_all add: ff_at_def)
  let ?z = "last xs"
  obtain zs where zs: "rev xs = ?z # zs" using xs by (metis list.distinct(1) rev.simps(2) hd_rev list.collapse snoc_eq_iff_butlast)
  have z: "?z \<noteq> NULL" "\<exists>fz. sf_at s2 ?z = Some fz" using s2(2) zs by auto
  then obtain fz where fz: "sf_at s2 ?z = Some fz" by blast
  have F2: "ff_at s2 ff = Some F" using fd2(1) assms(6) by simp
  obtain sp fs f' where u: "make_unrunnable ff ?z (?z = y) s2 =
      Some (put_ff ff (F\<lparr>ff_call_stack := ?z, ff_sync_sp := sp, ff_frame_size := fs\<rparr>) (put_sf ?z f' s2))"
      "suspended_sf fz f'"
    using make_unrunnable_spec [OF F2 fz z(1), of "?z = y"] by blast
  let ?F = "F\<lparr>ff_call_stack := ?z, ff_sync_sp := sp, ff_frame_size := fs\<rparr>"
  let ?s3 = "put_ff ff ?F (put_sf ?z f' s2)"
  have "down_chain ?s3 (?z # zs)"
    using s2(2) fz u(2) zs by (rule_tac down_chain_parents [of s2]) (auto simp: suspended_sf_def)
  moreover have "distinct (?z # zs)" using assms(2) zs by (metis distinct_rev)
  moreover have nf3: "future_mark ?s3 x = future_mark s x" for x
    using nf2 future_mark_put [OF fz suspended_sf_future [OF u(2)]] by simp
  have "butlast (rev xs) = rev (tl xs)" by (simp add: xs)
  then have "butlast (?z # zs) = rev (tl xs)" unfolding zs .
  then have "\<forall>x\<in>set (butlast (?z # zs)). not_future ?s3 x" using assms(3) nf3 by (simp add: not_future_def del: butlast.simps)
  moreover have "kids s2 ff cs" using fd2 by (rule_tac kids_cong [OF assms(4)]) simp
  then have "kids (put_sf ?z f' s2) ff cs" by simp
  then have "kids ?s3 ff cs" using fd2 assms(4,6) by (rule_tac kids_same_links) (auto simp: same_links_def kids_def)
  moreover have "next_fresh ?s3" using assms(5) fd2 next_fresh_lt [OF assms(5,6)] by (auto simp: next_fresh_def)
  moreover have "ff_at ?s3 ff = Some ?F" "ff_call_stack ?F = ?z" by simp_all
  moreover have "\<exists>f. sf_at ?s3 ?z = Some f \<and> suspended f" using suspended_sf_suspended [OF u(2)] by simp
  ultimately obtain s' gs where s': "promote_stack y ff ?z ?s3 = Some (last (ff # gs), last (?z # zs), s')"
      "promoted s' cs (ff_join_counter ?F) (ff_fiber_self ?F) (ff # gs) (?z # zs)" "promotes ?s3 ff ?F cs (?z # zs) s'"
      "\<forall>h\<in>set gs. rt_next ?s3 \<le> h"
    using promote_stack_spec [of ?s3 ?z zs ff cs ?F y] by blast
  obtain fl where fl: "sf_at s' (last (?z # zs)) = Some fl" "sf_call_parent fl = NULL"
    using s'(3) by (auto simp: promotes_def)
  have "unroll_call_stack w ff y s = Some (last (ff # gs), s')"
    using y assms(7,8) s2(1) u(1) s'(1) fl unfolding unroll_call_stack_def s1_def
    by (cases "(sf_worker f \<noteq> w \<or> dq_frame_ff D \<noteq> ff) \<and> \<not> flag_set (sf_flags f) CILK_FRAME_FUTURE_PARENT") (simp_all only:
      if_True if_False sf_mod_put assert_c_simps Option.bind.bind_lunit case_prod_conv simp_thms not_False_eq_True)
  moreover have "grown s ff F cs s'" unfolding grown_def
  proof (intro conjI allI impI)
    have g: "grown ?s3 ff ?F cs s'" using s'(3) by (simp add: promotes_def)
    show "next_fresh s'" using g by (simp add: grown_def)
    show "same_links s s' ff" using g assms(6) by (simp add: grown_def same_links_def)
    show "\<exists>F'. ff_at s' ff = Some F' \<and> ff_parent F' = ff_parent F \<and> ff_is_call_child F' = ff_is_call_child F \<and>
        ff_lock F' = ff_lock F" using g by (simp add: grown_def)
    show "future_mark s' x = future_mark s x" for x using g nf3 by (simp add: grown_def)
    show "only_frames s s'" using g reparented_rest [OF s2(3)] by (simp add: grown_def only_frames_def s1_def put_sf_def put_ff_def)
    show "ff_at s' q = ff_at s q" if "q \<notin> insert ff (set cs) \<and> q < rt_next s" for q
      using g that fd2 by (auto simp: grown_def)
    show "rt_next s \<le> rt_next s'" using g fd2 by (simp add: grown_def)
  qed
  moreover have "\<forall>h\<in>set gs. rt_next s \<le> h" using s'(4) fd2 by simp
  ultimately show ?thesis using s'(2) zs xs by (intro exI [of _ s'] exI [of _ gs]) simp
qed

text \<open>
  Full frame 10 runs a detached stack frame 21 and in it a called one, 20; the deque 5 of worker 1 is
  about to lose them to a thief.
\<close>

definition loot_frame :: "32 word \<Rightarrow> ptr \<Rightarrow> stack_frame" where
  "loot_frame fl p = \<lparr>sf_flags = fl, sf_size = 0, sf_call_parent = p, sf_worker = 2, sf_except_data = 0, sf_ctx_sp = 1000,
     sf_ctx_fp = 1064, sf_reserved = 0, sf_pedigree = \<lparr>pd_rank = 0, pd_parent = Ped_Null\<rparr>\<rparr>"

definition loot_example :: rts where
  "loot_example = (rts_with_worker 1 (example_local\<lparr>l_core_deque := 5\<rparr>))\<lparr>
     rt_sf := [20 \<mapsto> loot_frame 0 21, 21 \<mapsto> loot_frame CILK_FRAME_DETACHED 30],
     rt_ff := [10 \<mapsto> (new_full_frame 0)\<lparr>ff_fiber_self := 77\<rparr>], rt_dq := [5 \<mapsto> empty_deque 8]\<rparr>"

text \<open>C21. A steal promotes the stolen call stack correctly. Let xs be the call stack, youngest frame first,
  that ends at the first detached, stolen, last or batch frame; its youngest frame may be spawning a future, the frames
  that called it are not (a frame carries the mark of a future's parent only between the macros around the spawn of
  the future, and calls nothing else there). Then unroll_call_stack terminates, meets
  no failing assertion and returns the youngest full frame of a chain of full frames, oldest
  first. Each of them holds the stack frame of its rank, suspended and cut off from its caller; each is the
  called last child of the one before and counts in its join counter; the fiber of the stolen full frame
  moves to the youngest one; no other full frame changes.\<close>

theorem unroll_call_stack_promotes:
  assumes "call_chain s xs" "distinct xs" "\<forall>x\<in>set (tl xs). not_future s x" "kids s ff cs" "next_fresh s"
    "ff_at s ff = Some F" "active_deque s w = Some d" "dq_at s d = Some D"
  shows "\<exists>s' gs. unroll_call_stack w ff (hd xs) s = Some (last (ff # gs), s') \<and>
    promoted s' cs (ff_join_counter F) (ff_fiber_self F) (ff # gs) (rev xs) \<and> grown s ff F cs s' \<and>
    (\<forall>h\<in>set gs. rt_next s \<le> h)"
  by (rule unroll_call_stack_spec [OF assms])

theorem unroll_call_stack_promotes_witness:
  "\<exists>s' gs. unroll_call_stack 1 10 20 loot_example = Some (last (10 # gs), s') \<and>
    promoted s' [] 0 77 (10 # gs) [21, 20]"
proof -
  have sf: "sf_at loot_example 20 = Some (loot_frame 0 21)"
      "sf_at loot_example 21 = Some (loot_frame CILK_FRAME_DETACHED 30)"
    by (simp_all add: loot_example_def sf_at_def)
  have ff: "ff_at loot_example 10 = Some ((new_full_frame 0)\<lparr>ff_fiber_self := 77\<rparr>)"
    by (simp add: loot_example_def ff_at_def)
  have cc: "call_chain loot_example [20, 21]" "\<forall>x\<in>set (tl [20, 21]). not_future loot_example x"
    by (simp_all add: sf loot_frame_def flag_set_def unroll_mask_def frame_flag_defs not_future_at)
  have k: "kids loot_example 10 []" by (simp add: kids_def ff new_full_frame_def)
  have n: "next_fresh loot_example" by (simp add: next_fresh_def loot_example_def ff_at_def rts_with_worker_def)
  have d: "active_deque loot_example 1 = Some 5" "dq_at loot_example 5 = Some (empty_deque 8)"
    by (simp_all add: active_deque_def loot_example_def l_at_def wk_at_def dq_at_def rts_with_worker_def
      example_worker_def example_local_def)
  have F: "ff_join_counter ((new_full_frame 0)\<lparr>ff_fiber_self := 77\<rparr>) = 0"
      "ff_fiber_self ((new_full_frame 0)\<lparr>ff_fiber_self := 77\<rparr>) = 77" by (simp_all add: new_full_frame_def)
  have xs: "hd [20, 21 :: ptr] = 20" "rev [20, 21 :: ptr] = [21, 20]" "distinct [20, 21 :: ptr]" by simp_all
  show ?thesis
    using unroll_call_stack_promotes [OF cc(1) xs(3) cc(2) k n ff d, unfolded F xs] by blast
qed

end
