(* ===== verification/Deque_Ops.thy ===== *)
theory Deque_Ops
  imports Call_Stack
begin

text \<open>
  Whole deques, \<^verbatim>\<open>deque.c\<close>, \<^verbatim>\<open>cilk_future_fiber_deque.cpp\<close> and the resumption of suspended deques of
  \<^verbatim>\<open>deque_pool.c\<close>: destroying, switching to, mugging and suspending a deque, the detach of a stolen
  frame, the promotion of a worker's own deque. What a function gets from the fiber layer or from the
  race detector is an argument: the current fiber (\<open>cur\<close>), the fiber that \<^verbatim>\<open>cilk_fiber_allocate\<close>
  returned, null if there was none (\<open>fresh\<close>), the result of \<^verbatim>\<open>CilkSteal\<close> (\<open>sd\<close>). The calls that only
  switch stacks end a function here. \<^verbatim>\<open>malloc\<close> is assumed to succeed.
\<close>

section \<open>Future fibers\<close>

definition reset_future_fiber_deque :: "ptr \<Rightarrow> rts \<Rightarrow> rts proc" where
  "reset_future_fiber_deque w s = do {
     d \<leftarrow> active_deque s w;
     dq_mod d (\<lambda>x. x\<lparr>dq_fiber_tail := 0, dq_fiber_head := 0\<rparr>) s }"

definition enqueue_future_fiber :: "ptr \<Rightarrow> ptr \<Rightarrow> rts \<Rightarrow> rts proc" where
  "enqueue_future_fiber w fib s = do {
     d \<leftarrow> active_deque s w;
     dq_mod d (\<lambda>x. x\<lparr>dq_fiber_ltq := (dq_fiber_ltq x)(dq_fiber_tail x := fib), dq_fiber_tail := dq_fiber_tail x + 1\<rparr>) s }"

definition pop_tail_future_fiber :: "ptr \<Rightarrow> rts \<Rightarrow> (ptr \<times> rts) proc" where
  "pop_tail_future_fiber w s = do {
     d \<leftarrow> active_deque s w;
     x \<leftarrow> dq_at s d;
     s \<leftarrow> dq_mod d (\<lambda>x. x\<lparr>dq_fiber_tail := dq_fiber_tail x - 1\<rparr>) s;
     Some (dq_fiber_ltq x (dq_fiber_tail x - 1), s) }"

definition pop_head_future_fiber :: "ptr \<Rightarrow> rts \<Rightarrow> (ptr \<times> rts) proc" where
  "pop_head_future_fiber d s = do {
     x \<leftarrow> dq_at s d;
     s \<leftarrow> dq_mod d (\<lambda>x. x\<lparr>dq_fiber_head := dq_fiber_head x + 1\<rparr>) s;
     Some (dq_fiber_ltq x (dq_fiber_head x), s) }"

section \<open>Stealing a frame\<close>

text \<open>
  The end of \<^verbatim>\<open>detach_for_steal\<close>: the looted frame is what the thief runs next, or counts as stolen if
  worker and victim are the same, and a new child takes the place of the parent in the victim's
  deque.
\<close>

definition adopt_loot :: "ptr \<Rightarrow> ptr \<Rightarrow> ptr \<Rightarrow> ptr \<Rightarrow> ptr \<Rightarrow> fiber_arg \<Rightarrow> rts \<Rightarrow> rts proc" where
  "adopt_loot w victim d loot_ff sf fiber s = do {
     a \<leftarrow> active_deque s w;
     s \<leftarrow> (if w = victim \<and> d = a then do {
             lf \<leftarrow> ff_at s loot_ff;
             s \<leftarrow> sf_mod (ff_call_stack lf) (\<lambda>f. f\<lparr>sf_flags := sf_flags f OR CILK_FRAME_UNSYNCHED\<rparr>) s;
             ff_mod loot_ff (\<lambda>f. f\<lparr>ff_simulated_stolen := True\<rparr>) s }
           else push_next_frame w loot_ff s);
     (child_ff, s) \<leftarrow> make_child loot_ff NULL fiber s;
     s \<leftarrow> frame_lock w child_ff s;
     s \<leftarrow> incjoin child_ff s;
     f \<leftarrow> sf_at s sf;
     s \<leftarrow> (if flag_set (sf_flags f) CILK_FRAME_FUTURE_PARENT then do {
             (fib, s) \<leftarrow> pop_head_future_fiber d s;
             s \<leftarrow> ff_mod child_ff (\<lambda>c. c\<lparr>ff_fiber_self := fib\<rparr>) s;
             assert_c (fib \<noteq> NULL);
             Some s }
           else Some s);
     s \<leftarrow> make_runnable child_ff d s;
     frame_unlock w child_ff s }"

definition detach_for_steal :: "ptr \<Rightarrow> ptr \<Rightarrow> ptr \<Rightarrow> fiber_arg \<Rightarrow> rts \<Rightarrow> rts proc" where
  "detach_for_steal w victim d fiber s = do {
     l \<leftarrow> l_at s w;
     x \<leftarrow> dq_at s d;
     s \<leftarrow> (if l_batch_id l = -1 then do { a \<leftarrow> active_deque s w; dq_mod a (\<lambda>y. y\<lparr>dq_team := dq_team x\<rparr>) s } else Some s);
     f \<leftarrow> frame_ff s w;
     assert_c (f = NULL \<or> w = victim);
     x \<leftarrow> dq_at s d;
     let (sf, x') = take_head x;
     assert_c (sf \<noteq> NULL);
     s \<leftarrow> dq_mod d (\<lambda>_. x') s;
     let parent_ff = dq_frame_ff x;
     s \<leftarrow> frame_lock w parent_ff s;
     (_, s) \<leftarrow> decjoin parent_ff s;
     s \<leftarrow> sf_mod sf (\<lambda>f. f\<lparr>sf_worker := victim\<rparr>) s;
     (loot_ff, s) \<leftarrow> unroll_call_stack w parent_ff sf s;
     s \<leftarrow> adopt_loot w victim d loot_ff sf fiber s;
     frame_unlock w parent_ff s }"

text \<open>The loop of \<^verbatim>\<open>__cilkrts_promote_own_deque\<close>; the deque is the one the worker's tail points into.\<close>

partial_function (option) promote_loop :: "ptr \<Rightarrow> ptr \<Rightarrow> rts \<Rightarrow> rts proc" where
  "promote_loop w d s = do {
     x \<leftarrow> dq_at s d;
     let (ok, x') = dekker_protocol x;
     s \<leftarrow> dq_mod d (\<lambda>_. x') s;
     (if ok then do { s \<leftarrow> detach_for_steal w w d Placeholder_Fiber s; promote_loop w d s } else Some s) }"

definition promote_own_deque :: "ptr \<Rightarrow> rts \<Rightarrow> rts proc" where
  "promote_own_deque w s = do {
     ff \<leftarrow> frame_ff s w;
     assert_c (ff \<noteq> NULL);
     f \<leftarrow> ff_at s ff;
     let starting_fiber = ff_fiber_self f;
     wk \<leftarrow> wk_at s w;
     s \<leftarrow> worker_lock w s;
     s \<leftarrow> promote_loop w (wk_tail wk) s;
     s \<leftarrow> worker_unlock w s;
     ff \<leftarrow> frame_ff s w;
     assert_c (ff \<noteq> NULL);
     f \<leftarrow> ff_at s ff;
     assert_c (ff_fiber_self f = starting_fiber);
     Some s }"

section \<open>Activating and mugging a deque\<close>

definition deque_destroy :: "ptr \<Rightarrow> rts \<Rightarrow> rts proc" where
  "deque_destroy d s = do {
     x \<leftarrow> dq_at s d;
     assert_c (dq_head x = dq_tail x);
     Some (s\<lparr>rt_dq := (rt_dq s)(d := None)\<rparr>) }"

definition no_pedigree :: pedigree where
  "no_pedigree = \<lparr>pd_rank = 0, pd_parent = Ped_Null\<rparr>"

definition initial_pedigree :: pedigree where
  "initial_pedigree = \<lparr>pd_rank = 1, pd_parent = Ped_Null\<rparr>"

definition deque_switch :: "ptr \<Rightarrow> ptr \<Rightarrow> rts \<Rightarrow> rts proc" where
  "deque_switch w d s = do {
     a \<leftarrow> active_deque s w;
     assert_c (d = a);
     (if d = NULL then wk_mod w (\<lambda>x. x\<lparr>wk_tail := NULL, wk_head := NULL, wk_exc := NULL, wk_protected_tail := NULL,
          wk_ltq_limit := NULL, wk_l := (wk_l x)\<lparr>l_frame_ff := NULL, l_current_ltq := NULL\<rparr>,
          wk_current_stack_frame := NULL, wk_pedigree := initial_pedigree\<rparr>) s
      else do {
        x \<leftarrow> dq_at s d;
        s \<leftarrow> (if pd_rank (dq_saved_ped x) = 0 then wk_mod w (\<lambda>x. x\<lparr>wk_pedigree := initial_pedigree\<rparr>) s else Some s);
        s \<leftarrow> (if dq_resumable x then do {
                assert_c (dq_fiber x \<noteq> NULL);
                assert_c (dq_call_stack x \<noteq> NULL);
                sf_mod (dq_call_stack x) (\<lambda>f. f\<lparr>sf_worker := w\<rparr>) s }
              else Some s);
        assert_c (dq_worker x = NULL);
        s \<leftarrow> dq_mod d (\<lambda>x. x\<lparr>dq_worker := w, dq_self := ACTIVE_DEQUE_INDEX\<rparr>) s;
        s \<leftarrow> wk_mod w (\<lambda>y. y\<lparr>wk_tail := d, wk_head := d, wk_exc := d, wk_protected_tail := d, wk_ltq_limit := d,
               wk_l := (wk_l y)\<lparr>l_frame_ff := d, l_current_ltq := d\<rparr>, wk_current_stack_frame := dq_call_stack x,
               wk_pedigree := dq_saved_ped x\<rparr>) s;
        dq_mod d (\<lambda>x. x\<lparr>dq_saved_ped := no_pedigree\<rparr>) s }) }"

definition deque_mug :: "ptr \<Rightarrow> ptr \<Rightarrow> rts \<Rightarrow> rts proc" where
  "deque_mug w d s = do {
     x \<leftarrow> dq_at s d;
     assert_c (dq_worker x \<noteq> NULL);
     l \<leftarrow> l_at s (dq_worker x);
     assert_c (m_owner (l_lock l) = w);
     assert_c (dq_fiber x \<noteq> NULL);
     let r = (dq_worker x, if dq_resumable x then Resumable else Suspended);
     p \<leftarrow> pool_at s r;
     deque_pool_validate p (dq_worker x) s;
     s \<leftarrow> deque_pool_remove r d s;
     sf_mod (dq_call_stack x) (\<lambda>f. f\<lparr>sf_worker := w\<rparr>) s }"

definition set_deque_SD :: "ptr \<Rightarrow> ptr \<Rightarrow> rts \<Rightarrow> rts proc" where
  "set_deque_SD d v s = dq_mod d (\<lambda>x. x\<lparr>dq_SD := v\<rparr>) s"

definition set_deque_FOM :: "ptr \<Rightarrow> ptr \<Rightarrow> rts \<Rightarrow> rts proc" where
  "set_deque_FOM d v s = dq_mod d (\<lambda>x. x\<lparr>dq_FOM := v\<rparr>) s"

fun reset_FOM_SD_of :: "ptr list \<Rightarrow> rts \<Rightarrow> rts proc" where
  "reset_FOM_SD_of [] s = Some s"
| "reset_FOM_SD_of (v # vs) s = do {
     d \<leftarrow> active_deque s v;
     s \<leftarrow> dq_mod d (\<lambda>x. x\<lparr>dq_FOM := NULL, dq_SD := NULL\<rparr>) s;
     reset_FOM_SD_of vs s }"

definition reset_FOM_SD :: "rts \<Rightarrow> rts proc" where
  "reset_FOM_SD s = reset_FOM_SD_of (take (g_total_workers (rt_g s)) (g_workers (rt_g s))) s"

section \<open>Suspending the active deque\<close>

text \<open>Taking the youngest resumable deque of the worker itself, under its lock; null if there is none.\<close>

definition mug_own :: "ptr \<Rightarrow> rts \<Rightarrow> (ptr \<times> rts) proc" where
  "mug_own w s = do {
     s \<leftarrow> lock_worker w w s;
     l \<leftarrow> l_at s w;
     let p = l_resumable_deques l;
     (d, s) \<leftarrow> (if dp_size p > 0 then do {
                 assert_c (dp_size p - 1 < length (dp_array p));
                 let d = dp_array p ! (dp_size p - 1);
                 s \<leftarrow> deque_mug w d s;
                 Some (d, s) }
               else Some (NULL, s));
     s \<leftarrow> unlock_worker w w s;
     Some (d, s) }"

text \<open>The steal of the suspended deque's oldest frame by its own worker.\<close>

definition steal_own :: "ptr \<Rightarrow> ptr \<Rightarrow> ptr \<Rightarrow> ptr \<Rightarrow> rts \<Rightarrow> rts proc" where
  "steal_own w d fresh sd s = do {
     x \<leftarrow> dq_at s d;
     f \<leftarrow> sf_at s (dq_ltq x (dq_head x));
     let future = flag_set (sf_flags f) CILK_FRAME_FUTURE_PARENT;
     (if \<not> future \<and> fresh = NULL then Some s
      else do {
        a \<leftarrow> active_deque s w;
        s \<leftarrow> set_deque_SD a sd s;
        s \<leftarrow> dq_mod d (\<lambda>x. snd (dekker_protocol x)) s;
        let (_, s) = cilkg_increment_active_workers s;
        s \<leftarrow> detach_for_steal w w d (if future then No_Fiber else Fiber fresh) s;
        s \<leftarrow> l_mod w (\<lambda>l. l\<lparr>l_work_stolen := True\<rparr>) s;
        l \<leftarrow> l_at s w;
        ff \<leftarrow> ff_at s (l_next_frame_ff l);
        f \<leftarrow> sf_at s (ff_call_stack ff);
        assert_c (flag_set (sf_flags f) CILK_FRAME_FUTURE_PARENT \<longrightarrow> future);
        assert_c (\<not> ff_simulated_stolen ff);
        Some s }) }"

text \<open>Where a suspended deque that is still of use to thieves goes.\<close>

definition publish_deque :: "ptr \<Rightarrow> ptr \<Rightarrow> rts \<Rightarrow> rts proc" where
  "publish_deque w d s = do {
     x \<leftarrow> dq_at s d;
     (victim, s) \<leftarrow> (if g_total_workers (rt_g s) > 1 then do {
         (i, j, s) \<leftarrow> pick_two w s;
         assert_c (i < length (g_workers (rt_g s)) \<and> j < length (g_workers (rt_g s)));
         let victim = g_workers (rt_g s) ! i;
         let potential_victim = g_workers (rt_g s) ! j;
         lv \<leftarrow> l_at s victim;
         lp \<leftarrow> l_at s potential_victim;
         Some (if dq_resumable x \<and> dp_size (l_resumable_deques lv) > dp_size (l_resumable_deques lp) \<or>
                  dp_size (l_suspended_deques lv) > dp_size (l_suspended_deques lp)
               then potential_victim else victim, s) }
       else Some (w, s));
     s \<leftarrow> lock_worker w victim s;
     x \<leftarrow> dq_at s d;
     s \<leftarrow> (if dq_resumable x then deque_pool_add w victim (victim, Resumable) d s
           else if dq_head x \<noteq> dq_tail x then deque_pool_add w victim (victim, Suspended) d s
           else Some s);
     unlock_worker w victim s }"

definition deque_suspend :: "ptr \<Rightarrow> ptr \<Rightarrow> ptr \<Rightarrow> ptr \<Rightarrow> ptr \<Rightarrow> rts \<Rightarrow> (ptr \<times> rts) proc" where
  "deque_suspend w new_deque cur fresh sd s = do {
     d \<leftarrow> active_deque s w;
     x \<leftarrow> dq_at s d;
     assert_c (dq_self x = ACTIVE_DEQUE_INDEX);
     assert_c (dq_fiber x = NULL);
     assert_c (dq_worker x = w);
     assert_c (dq_team x \<noteq> NULL);
     wk \<leftarrow> wk_at s w;
     s \<leftarrow> dq_mod d (\<lambda>x. x\<lparr>dq_saved_ped := wk_pedigree wk, dq_call_stack := wk_current_stack_frame wk\<rparr>) s;
     (new_deque, s) \<leftarrow> (if new_deque = NULL then mug_own w s else Some (new_deque, s));
     let attempt_steal = (new_deque = NULL);
     l \<leftarrow> l_at s w;
     (new_deque, s) \<leftarrow> (if new_deque = NULL then
         Some (rt_next s, s\<lparr>rt_dq := (rt_dq s)(rt_next s \<mapsto> (empty_deque (g_ltqsize (rt_g s)))
           \<lparr>dq_team := dq_team x, dq_fiber := l_scheduling_fiber l\<rparr>), rt_next := rt_next s + 1\<rparr>)
       else do {
         y \<leftarrow> dq_at s new_deque;
         assert_c (dq_fiber y \<noteq> NULL);
         assert_c (dq_resumable y);
         assert_c (dq_self y = INVALID_DEQUE_INDEX);
         assert_c (dq_worker y = NULL);
         s \<leftarrow> dq_mod new_deque (\<lambda>y. y\<lparr>dq_resumable := False\<rparr>) s;
         Some (new_deque, s) });
     y \<leftarrow> dq_at s new_deque;
     assert_c (l_type l = WORKER_USER \<longrightarrow> dq_team y = w);
     s \<leftarrow> worker_lock w s;
     s \<leftarrow> set_active_deque w new_deque s;
     s \<leftarrow> dq_mod d (\<lambda>x. x\<lparr>dq_fiber := cur\<rparr>) s;
     fb \<leftarrow> fb_at s cur;
     assert_c (fb_resume_sf fb = NULL);
     s \<leftarrow> deque_switch w new_deque s;
     s \<leftarrow> l_mod w (\<lambda>l. l\<lparr>l_work_stolen := False\<rparr>) s;
     x \<leftarrow> dq_at s d;
     s \<leftarrow> (if attempt_steal \<and> can_steal_from x then steal_own w d fresh sd s else Some s);
     s \<leftarrow> worker_unlock w s;
     x \<leftarrow> dq_at s d;
     s \<leftarrow> (if dq_resumable x \<or> dq_head x \<noteq> dq_tail x then publish_deque w d s
           else dq_mod d (\<lambda>x. x\<lparr>dq_self := INVALID_DEQUE_INDEX, dq_worker := NULL\<rparr>) s);
     Some (cur, s) }"

section \<open>Resuming a suspended deque\<close>

text \<open>A spin loop that waits for another thread: without interference it ends at once or never.\<close>

definition spin_until :: "bool \<Rightarrow> unit proc" where
  "spin_until b = assert_c b"

definition fiber_ready :: "ptr \<Rightarrow> rts \<Rightarrow> bool proc" where
  "fiber_ready d s = do {
     x \<leftarrow> dq_at s d;
     (if dq_fiber x = NULL then Some False else do { f \<leftarrow> fb_at s (dq_fiber x); Some (fb_resumable f) }) }"

definition suspend_deque :: "ptr \<Rightarrow> ptr \<Rightarrow> ptr \<Rightarrow> ptr \<Rightarrow> rts \<Rightarrow> (ptr \<times> rts) proc" where
  "suspend_deque w cur fresh sd s = do {
     (current_fiber, s) \<leftarrow> deque_suspend w NULL cur fresh sd s;
     assert_c (current_fiber \<noteq> NULL);
     a \<leftarrow> active_deque s w;
     l \<leftarrow> l_at s w;
     (if a \<noteq> NULL then do {
        x \<leftarrow> dq_at s a;
        (if dq_fiber x \<noteq> l_scheduling_fiber l then do { ready \<leftarrow> fiber_ready a s; spin_until ready } else Some ());
        s \<leftarrow> dq_mod a (\<lambda>x. x\<lparr>dq_fiber := NULL\<rparr>) s;
        Some (dq_fiber x, s) }
      else Some (l_scheduling_fiber l, s)) }"

text \<open>
  The two parts of \<^verbatim>\<open>__cilkrts_make_resumable\<close>: under the lock of the worker that was seen to hold the
  deque, if it still does; and for a deque that no worker holds.
\<close>

definition make_resumable_held :: "ptr \<Rightarrow> ptr \<Rightarrow> ptr \<Rightarrow> rts \<Rightarrow> (bool \<times> rts) proc" where
  "make_resumable_held w victim d s = do {
     s \<leftarrow> lock_worker w victim s;
     x \<leftarrow> dq_at s d;
     (previously_owned, s) \<leftarrow> (if dq_worker x \<noteq> NULL then do {
         s \<leftarrow> deque_pool_remove (victim, Suspended) d s;
         x \<leftarrow> dq_at s d;
         assert_c (dq_self x = INVALID_DEQUE_INDEX);
         s \<leftarrow> dq_mod d (\<lambda>x. x\<lparr>dq_resumable := True\<rparr>) s;
         s \<leftarrow> deque_pool_add w victim (victim, Resumable) d s;
         Some (True, s) }
       else Some (False, s));
     s \<leftarrow> unlock_worker w victim s;
     Some (previously_owned, s) }"

definition make_resumable_free :: "ptr \<Rightarrow> ptr \<Rightarrow> rts \<Rightarrow> rts proc" where
  "make_resumable_free w d s = do {
     (victim, s) \<leftarrow> (if g_total_workers (rt_g s) > 1 then do {
         (i, j, s) \<leftarrow> pick_two w s;
         assert_c (i < length (g_workers (rt_g s)) \<and> j < length (g_workers (rt_g s)));
         let victim = g_workers (rt_g s) ! i;
         let potential_victim = g_workers (rt_g s) ! j;
         lv \<leftarrow> l_at s victim;
         lp \<leftarrow> l_at s potential_victim;
         Some (if dp_size (l_resumable_deques lv) > dp_size (l_resumable_deques lp)
               then potential_victim else victim, s) }
       else Some (w, s));
     x \<leftarrow> dq_at s d;
     assert_c (dq_self x = INVALID_DEQUE_INDEX);
     s \<leftarrow> dq_mod d (\<lambda>x. x\<lparr>dq_resumable := True, dq_worker := victim\<rparr>) s;
     s \<leftarrow> lock_worker w victim s;
     s \<leftarrow> deque_pool_add w victim (victim, Resumable) d s;
     unlock_worker w victim s }"

definition make_resumable :: "ptr \<Rightarrow> ptr \<Rightarrow> rts \<Rightarrow> rts proc" where
  "make_resumable w d s = do {
     x \<leftarrow> dq_at s d;
     assert_c (\<not> dq_resumable x);
     ready \<leftarrow> fiber_ready d s;
     spin_until ready;
     (previously_owned, s) \<leftarrow> (if dq_worker x \<noteq> NULL then make_resumable_held w (dq_worker x) d s else Some (False, s));
     (if previously_owned then Some s else make_resumable_free w d s) }"

text \<open>
  \<^verbatim>\<open>__cilkrts_resume_suspended\<close> up to the switch; the result is the fiber to switch to, or null when
  the deque was only made resumable. The third case of \<open>enable_resume\<close>, 2, destroys the old deque.
\<close>

definition resume_suspended :: "ptr \<Rightarrow> ptr \<Rightarrow> nat \<Rightarrow> ptr \<Rightarrow> ptr \<Rightarrow> ptr \<Rightarrow> rts \<Rightarrow> (ptr \<times> rts) proc" where
  "resume_suspended w d enable_resume cur fresh sd s = do {
     wk \<leftarrow> wk_at s w;
     f \<leftarrow> sf_at s (wk_current_stack_frame wk);
     (if sf_call_parent f \<noteq> NULL then do { s \<leftarrow> make_resumable w d s; Some (NULL, s) }
      else do {
        x \<leftarrow> dq_at s d;
        a \<leftarrow> active_deque s w;
        y \<leftarrow> dq_at s a;
        assert_c (l_type (wk_l wk) = WORKER_SYSTEM \<or> dq_team y = dq_team x);
        assert_c (\<not> dq_resumable x);
        ready \<leftarrow> fiber_ready d s;
        spin_until ready;
        s \<leftarrow> (if dq_worker x \<noteq> NULL then do {
                s \<leftarrow> lock_worker w (dq_worker x) s;
                x' \<leftarrow> dq_at s d;
                s \<leftarrow> (if dq_worker x' \<noteq> NULL then deque_mug w d s else Some s);
                unlock_worker w (dq_worker x) s }
              else Some s);
        x \<leftarrow> dq_at s d;
        assert_c (dq_self x = INVALID_DEQUE_INDEX);
        s \<leftarrow> dq_mod d (\<lambda>x. x\<lparr>dq_resumable := True\<rparr>) s;
        let fiber_to_resume = dq_fiber x;
        fb \<leftarrow> fb_at s fiber_to_resume;
        assert_c (fb_resume_sf fb = NULL);
        s \<leftarrow> fb_mod fiber_to_resume (\<lambda>f. f\<lparr>fb_owner := w\<rparr>) s;
        s \<leftarrow> sf_mod (dq_call_stack x) (\<lambda>f. f\<lparr>sf_worker := w\<rparr>) s;
        (if enable_resume = 2 then do {
           s \<leftarrow> dq_mod d (\<lambda>x. x\<lparr>dq_resumable := False\<rparr>) s;
           to_destroy \<leftarrow> active_deque s w;
           s \<leftarrow> worker_lock w s;
           s \<leftarrow> set_active_deque w d s;
           s \<leftarrow> deque_switch w d s;
           s \<leftarrow> worker_unlock w s;
           s \<leftarrow> deque_destroy to_destroy s;
           s \<leftarrow> dq_mod d (\<lambda>x. x\<lparr>dq_fiber := NULL\<rparr>) s;
           let (_, s) = cilkg_decrement_active_workers s;
           x \<leftarrow> dq_at s d;
           wk \<leftarrow> wk_at s w;
           assert_c (dq_call_stack x = wk_current_stack_frame wk);
           assert_c (dq_call_stack x \<noteq> NULL);
           s \<leftarrow> (if l_future_fiber_pool_idx (wk_l wk) < MAX_FUTURE_FIBERS_IN_POOL - 1
                 then l_mod w (\<lambda>l. l\<lparr>l_future_fiber_pool_idx := l_future_fiber_pool_idx l + 1,
                     l_future_fiber_pool := (l_future_fiber_pool l)(nat (l_future_fiber_pool_idx l + 1) := cur)\<rparr>) s
                 else do { fb \<leftarrow> fb_at s cur; assert_c (\<not> fb_resumable fb); Some s });
           Some (fiber_to_resume, s) }
         else do {
           a \<leftarrow> active_deque s w;
           s \<leftarrow> dq_mod a (\<lambda>y. y\<lparr>dq_resumable := (enable_resume \<noteq> 0)\<rparr>) s;
           (current_fiber, s) \<leftarrow> deque_suspend w d cur fresh sd s;
           a \<leftarrow> active_deque s w;
           assert_c (a \<noteq> NULL);
           y \<leftarrow> dq_at s a;
           assert_c (fiber_to_resume = dq_fiber y);
           assert_c (fiber_to_resume \<noteq> NULL);
           x \<leftarrow> dq_at s d;
           wk \<leftarrow> wk_at s w;
           assert_c (dq_call_stack x = wk_current_stack_frame wk);
           s \<leftarrow> dq_mod a (\<lambda>y. y\<lparr>dq_fiber := NULL\<rparr>) s;
           s \<leftarrow> dq_mod d (\<lambda>x. x\<lparr>dq_fiber := NULL\<rparr>) s;
           Some (fiber_to_resume, s) }) }) }"

section \<open>Writing workers\<close>

definition put_wk :: "ptr \<Rightarrow> worker \<Rightarrow> rts \<Rightarrow> rts" where
  "put_wk w k s = s\<lparr>rt_wk := (rt_wk s)(w \<mapsto> k)\<rparr>"

lemma put_wk_at [simp]:
  "wk_at (put_wk w k s) v = (if v = w then Some k else wk_at s v)"
  "l_at (put_wk w k s) v = (if v = w then Some (wk_l k) else l_at s v)"
  "sf_at (put_wk w k s) x = sf_at s x" "ff_at (put_wk w k s) x = ff_at s x" "dq_at (put_wk w k s) x = dq_at s x"
  "fb_at (put_wk w k s) x = fb_at s x" "rt_next (put_wk w k s) = rt_next s" "rt_g (put_wk w k s) = rt_g s"
  by (simp_all add: put_wk_def wk_at_def l_at_def sf_at_def ff_at_def dq_at_def fb_at_def)

lemma put_dq_rest [simp]:
  "sf_at (put_dq d x s) p = sf_at s p" "ff_at (put_dq d x s) p = ff_at s p" "l_at (put_dq d x s) p = l_at s p"
  "fb_at (put_dq d x s) p = fb_at s p" "rt_next (put_dq d x s) = rt_next s" "rt_g (put_dq d x s) = rt_g s"
  by (simp_all add: put_dq_def wk_at_def l_at_def sf_at_def ff_at_def fb_at_def)

lemma put_rest [simp]:
  "fb_at (put_ff p f s) q = fb_at s q" "rt_g (put_ff p f s) = rt_g s"
  "fb_at (put_sf p g s) q = fb_at s q" "rt_g (put_sf p g s) = rt_g s"
  by (simp_all add: put_ff_def put_sf_def fb_at_def)

lemma put_wk_put [simp]: "put_wk w k (put_wk w j s) = put_wk w k s"
  by (simp add: put_wk_def)

lemma put_dq_put [simp]: "put_dq d x (put_dq d y s) = put_dq d x s"
  by (simp add: put_dq_def)

lemma wk_mod_put [simp]: "wk_at s w = Some k \<Longrightarrow> wk_mod w f s = Some (put_wk w (f k) s)"
  by (simp add: wk_mod_def put_wk_def)

lemma l_mod_put [simp]: "wk_at s w = Some k \<Longrightarrow> l_mod w f s = Some (put_wk w (k\<lparr>wk_l := f (wk_l k)\<rparr>) s)"
  by (simp add: l_mod_def)

lemma l_at_wk: "wk_at s w = Some k \<Longrightarrow> l_at s w = Some (wk_l k)"
  by (simp add: l_at_def)

lemma wk_at_l: "l_at s w = Some l \<Longrightarrow> \<exists>k. wk_at s w = Some k \<and> wk_l k = l"
  by (auto simp: l_at_def split: Option.bind_splits)

section \<open>Locks around pools\<close>

definition free_lock :: mutex where "free_lock = \<lparr>m_lock = False, m_owner = 0\<rparr>"
definition held_by :: "ptr \<Rightarrow> mutex" where "held_by w = \<lparr>m_lock = True, m_owner = w\<rparr>"

text \<open>Changes of a worker that its pools do not see.\<close>

lemma pool_at_put_wk:
  "wk_at s w = Some k \<Longrightarrow> \<forall>q. pool_of q (wk_l k') = pool_of q (wk_l k) \<Longrightarrow> pool_at (put_wk w k' s) r = pool_at s r"
  by (cases "fst r = w") (auto simp: pool_at_def l_at_wk)

lemma same_pools:
  assumes "\<And>r. pool_at s' r = pool_at s r" "\<And>d. dq_at s' d = dq_at s d"
  shows "pool_inv s' = pool_inv s" "pool_list s' = pool_list s"
  using assms by (simp_all add: pool_inv_def pool_list_def fun_eq_iff)

definition put_lock :: "ptr \<Rightarrow> mutex \<Rightarrow> rts \<Rightarrow> rts" where
  "put_lock v m s = (case wk_at s v of None \<Rightarrow> s | Some k \<Rightarrow> put_wk v (k\<lparr>wk_l := (wk_l k)\<lparr>l_lock := m\<rparr>\<rparr>) s)"

lemma pool_of_lock [simp]: "pool_of q (l\<lparr>l_lock := m\<rparr>) = pool_of q l"
  by (cases q) simp_all

lemma put_lock_simps [simp]:
  "dq_at (put_lock v m s) d = dq_at s d" "fb_at (put_lock v m s) p = fb_at s p" "sf_at (put_lock v m s) p = sf_at s p"
  "pool_at (put_lock v m s) r = pool_at s r" "pool_inv (put_lock v m s) = pool_inv s" "pool_list (put_lock v m s) = pool_list s"
  "rt_g (put_lock v m s) = rt_g s"
proof -
  show r: "pool_at (put_lock v m s) r = pool_at s r" for r
    by (simp add: put_lock_def pool_at_put_wk split: option.split)
  show d: "dq_at (put_lock v m s) d = dq_at s d" for d by (simp add: put_lock_def split: option.split)
  show "pool_inv (put_lock v m s) = pool_inv s" "pool_list (put_lock v m s) = pool_list s"
    by (rule same_pools [OF r d])+
qed (simp_all add: put_lock_def split: option.split)

lemma put_lock_l: "l_at s v = Some l \<Longrightarrow> l_at (put_lock v m s) u = (if u = v then Some (l\<lparr>l_lock := m\<rparr>) else l_at s u)"
  using wk_at_l [of s v l] by (auto simp: put_lock_def)

lemma lock_worker_put:
  "l_at s v = Some l \<Longrightarrow> l_lock l = free_lock \<Longrightarrow> lock_worker w v s = Some (put_lock v (held_by w) s)"
  using wk_at_l [of s v l] by (auto simp: lock_worker_def put_lock_def free_lock_def held_by_def)

lemma unlock_worker_put:
  "l_at s v = Some l \<Longrightarrow> l_lock l = held_by w \<Longrightarrow> unlock_worker w v s = Some (put_lock v free_lock s)"
  using wk_at_l [of s v l] by (auto simp: unlock_worker_def put_lock_def free_lock_def held_by_def)

text \<open>What the pool operations leave alone.\<close>

definition lock_of :: "rts \<Rightarrow> ptr \<Rightarrow> mutex option" where
  "lock_of s u = map_option l_lock (l_at s u)"

definition only_pools :: "rts \<Rightarrow> rts \<Rightarrow> bool" where
  "only_pools s s' \<longleftrightarrow> rt_sf s' = rt_sf s \<and> rt_ff s' = rt_ff s \<and> rt_fb s' = rt_fb s \<and> rt_next s' = rt_next s \<and>
     rt_g s' = rt_g s \<and> (\<forall>u. lock_of s' u = lock_of s u)"

lemma only_pools_trans: "only_pools s s1 \<Longrightarrow> only_pools s1 s2 \<Longrightarrow> only_pools s s2"
  by (simp add: only_pools_def)

lemma dq_mod_pools: "dq_mod d f s = Some s' \<Longrightarrow> only_pools s s'"
  by (auto simp: dq_mod_def only_pools_def lock_of_def l_at_def wk_at_def bind_eq_Some_conv)

lemma set_pool_pools: "set_pool_at r p s = Some s' \<Longrightarrow> only_pools s s'"
  by (auto simp: set_pool_at_def l_mod_def wk_mod_def only_pools_def lock_of_def l_at_def wk_at_def bind_eq_Some_conv)

lemma deque_pool_add_pools: "deque_pool_add tls v r d s = Some s' \<Longrightarrow> only_pools s s'"
  by (auto simp: deque_pool_add_def Let_def bind_eq_Some_conv intro: only_pools_trans dest!: dq_mod_pools set_pool_pools)

lemma deque_pool_remove_pools: "deque_pool_remove r d s = Some s' \<Longrightarrow> only_pools s s'"
  by (auto simp: deque_pool_remove_def Let_def bind_eq_Some_conv dest!: dq_mod_pools set_pool_pools)
     (meson only_pools_trans)+

lemma only_pools_lock: "only_pools s s' \<Longrightarrow> l_at s u = Some l \<Longrightarrow> \<exists>l'. l_at s' u = Some l' \<and> l_lock l' = l_lock l"
  unfolding only_pools_def lock_of_def by (metis map_option_eq_Some)

section \<open>Making a deque resumable\<close>

lemma set_resumable:
  assumes "pool_inv s" "\<And>r. d \<notin> set (pool_list s r)" "dq_at s d = Some x"
  shows "pool_inv (put_dq d y s)" "pool_list (put_dq d y s) = pool_list s"
proof -
  show l: "pool_list (put_dq d y s) = pool_list s" by (simp add: fun_eq_iff)
  show "pool_inv (put_dq d y s)"
  proof (rule pool_invI)
    fix r p assume "pool_at (put_dq d y s) r = Some p"
    then show "0 < length (dp_array p) \<and> dp_size p \<le> length (dp_array p)"
      using pool_inv_size [OF assms(1), of r p] by simp
  next
    fix r i assume i: "i < length (pool_list (put_dq d y s) r)"
    then have "pool_list s r ! i \<noteq> d" using assms(2) [of r] by (auto simp: in_set_conv_nth)
    then show "pool_list (put_dq d y s) r ! i \<noteq> NULL \<and> (\<exists>x. dq_at (put_dq d y s) (pool_list (put_dq d y s) r ! i) = Some x \<and>
        dq_self x = int i \<and> dq_worker x = fst r \<and> (dq_resumable x \<longleftrightarrow> snd r = Resumable))"
      using i by (rule_tac pool_inv_nth [OF assms(1), of i r]) simp_all
  qed
qed

lemma make_resumable_held_spec:
  assumes inv: "pool_inv s" and d: "d \<in> set (pool_list s (v, Suspended))" and w: "w \<noteq> NULL" "v \<noteq> NULL"
    and l: "l_at s v = Some l" "l_lock l = free_lock"
  shows "\<exists>s'. make_resumable_held w v d s = Some (True, s') \<and> pool_inv s' \<and>
    add_mset d (mset (pool_list s' (v, Suspended))) = mset (pool_list s (v, Suspended)) \<and>
    pool_list s' (v, Resumable) = pool_list s (v, Resumable) @ [d] \<and>
    (\<forall>r. fst r \<noteq> v \<longrightarrow> pool_list s' r = pool_list s r) \<and> lock_of s' v = Some free_lock"
proof -
  from pool_listD [OF inv d] obtain x where x: "d \<noteq> NULL" "dq_at s d = Some x" "dq_worker x = v" by auto
  let ?s1 = "put_lock v (held_by w) s"
  have l1: "l_at ?s1 v = Some (l\<lparr>l_lock := held_by w\<rparr>)" using put_lock_l [OF l(1)] by simp
  have p1: "pool_inv ?s1" "d \<in> set (pool_list ?s1 (v, Suspended))" "pool_locked (v, Suspended) ?s1"
    using inv d l1 w by (simp_all add: pool_locked_def held_by_def)
  from deque_pool_remove_spec [OF p1(1,2), of "l\<lparr>l_lock := held_by w\<rparr>"] l1 w obtain s2 y where
    s2: "deque_pool_remove (v, Suspended) d ?s1 = Some s2" "pool_inv s2" "dq_at s d = Some y"
      "dq_at s2 d = Some (y\<lparr>dq_self := INVALID_DEQUE_INDEX, dq_worker := NULL\<rparr>)"
    by (auto simp: held_by_def)
  have out: "\<And>r. d \<notin> set (pool_list s2 r)" using pools.removed_nowhere [OF p1 s2(1)] .
  let ?y = "y\<lparr>dq_self := INVALID_DEQUE_INDEX, dq_worker := NULL, dq_resumable := True\<rparr>"
  let ?s3 = "put_dq d ?y s2"
  have p3: "pool_inv ?s3" "pool_list ?s3 = pool_list s2" using set_resumable [OF s2(2) out s2(4)] by auto
  obtain l2 where l2: "l_at s2 v = Some l2" "l_lock l2 = held_by w"
    using only_pools_lock [OF deque_pool_remove_pools [OF s2(1)] l1] by auto
  have rdy: "may_add w (v, Resumable) d ?s3"
    using w x(1) l2 out by (simp add: may_add_def p3 held_by_def)
  from pools.transfer [OF p1 s2(1) p3(1) _ rdy] p3(2) obtain s4 where
    s4: "deque_pool_add w v (v, Resumable) d ?s3 = Some s4" "pool_inv s4"
      "add_mset d (mset (pool_list s4 (v, Suspended))) = mset (pool_list s (v, Suspended))"
      "pool_list s4 (v, Resumable) = pool_list s (v, Resumable) @ [d]"
      "\<And>q. q \<noteq> (v, Suspended) \<and> q \<noteq> (v, Resumable) \<Longrightarrow> pool_list s4 q = pool_list s q"
    by auto
  obtain l4 where l4: "l_at s4 v = Some l4" "l_lock l4 = held_by w"
    using only_pools_lock [OF deque_pool_add_pools [OF s4(1)], of v l2] l2 by auto
  have "make_resumable_held w v d s = Some (True, put_lock v free_lock s4)"
    using lock_worker_put [OF l, of w] unlock_worker_put [OF l4] x s2 s4(1) w(2)
    by (simp add: make_resumable_held_def)
  moreover have "lock_of (put_lock v free_lock s4) v = Some free_lock"
    using put_lock_l [OF l4(1)] by (simp add: lock_of_def)
  ultimately show ?thesis using s4 by (intro exI [of _ "put_lock v free_lock s4"]) auto
qed

text \<open>Drawing random numbers changes a seed only.\<close>

definition same_but_seed :: "rts \<Rightarrow> rts \<Rightarrow> bool" where
  "same_but_seed s s' \<longleftrightarrow> (\<forall>d. dq_at s' d = dq_at s d) \<and> (\<forall>r. pool_at s' r = pool_at s r) \<and> only_pools s s'"

lemma pool_of_seed [simp]: "pool_of q (l\<lparr>l_rand_seed := x\<rparr>) = pool_of q l"
  by (cases q) simp_all

lemma same_but_seed_pools: "same_but_seed s s' \<Longrightarrow> pool_inv s' = pool_inv s \<and> pool_list s' = pool_list s"
  using same_pools [of s' s] by (auto simp: same_but_seed_def)

lemma myrand_runs: "l_at s w = Some l \<Longrightarrow> \<exists>r s'. myrand w s = Some (r, s') \<and> same_but_seed s s'"
proof -
  assume l: "l_at s w = Some l"
  then obtain k where k: "wk_at s w = Some k" "wk_l k = l" using wk_at_l by blast
  let ?s = "put_wk w (k\<lparr>wk_l := l\<lparr>l_rand_seed := next_state (l_rand_seed l)\<rparr>\<rparr>) s"
  have "\<exists>r. myrand w s = Some (r, ?s)" using k l by (simp add: myrand_def Let_def)
  moreover have "pool_at ?s r = pool_at s r" for r using k by (simp add: pool_at_put_wk)
  then have "same_but_seed s ?s" using k
    by (auto simp: same_but_seed_def only_pools_def lock_of_def l_at_wk) (simp_all add: put_wk_def)
  ultimately show ?thesis by blast
qed

lemma pick_two_runs:
  assumes "l_at s w = Some l"
  shows "\<exists>i j s'. pick_two w s = Some (i, j, s') \<and> same_but_seed s s'"
proof -
  from myrand_runs [OF assms] obtain r1 s1 where 1: "myrand w s = Some (r1, s1)" "same_but_seed s s1" by blast
  have "only_pools s s1" using 1(2) by (simp add: same_but_seed_def)
  from only_pools_lock [OF this assms] obtain l1 where "l_at s1 w = Some l1" by blast
  from myrand_runs [OF this] obtain r2 s2 where 2: "myrand w s1 = Some (r2, s2)" "same_but_seed s1 s2" by blast
  have "same_but_seed s s2" using 1(2) 2(2) by (auto simp: same_but_seed_def intro: only_pools_trans)
  then show ?thesis using 1(1) 2(1) by (simp add: pick_two_def Let_def)
qed

text \<open>All workers are in the heap and their locks are free, as at a point where nobody else runs.\<close>

definition quiet_workers :: "rts \<Rightarrow> bool" where
  "quiet_workers s \<longleftrightarrow> g_total_workers (rt_g s) = length (g_workers (rt_g s)) \<and>
     list_all (\<lambda>v. v \<noteq> NULL \<and> lock_of s v = Some free_lock) (g_workers (rt_g s))"

lemma make_resumable_free_spec:
  assumes inv: "pool_inv s" and out: "\<And>r. d \<notin> set (pool_list s r)" and d: "d \<noteq> NULL" "dq_at s d = Some x"
    "dq_self x = INVALID_DEQUE_INDEX" and q: "quiet_workers s" and w: "w \<in> set (g_workers (rt_g s))"
  shows "\<exists>s' v. make_resumable_free w d s = Some s' \<and> pool_inv s' \<and> v \<in> set (g_workers (rt_g s)) \<and>
    pool_list s' (v, Resumable) = pool_list s (v, Resumable) @ [d] \<and>
    (\<forall>r. r \<noteq> (v, Resumable) \<longrightarrow> pool_list s' r = pool_list s r) \<and> lock_of s' v = Some free_lock"
proof -
  let ?W = "g_workers (rt_g s)"
  have free: "v \<noteq> NULL \<and> lock_of s v = Some free_lock" if "v \<in> set ?W" for v
    using q that by (auto simp: quiet_workers_def list_all_iff)
  obtain l where l: "l_at s w = Some l" using free [OF w] by (auto simp: lock_of_def)
  have "\<exists>v s1. (if g_total_workers (rt_g s) > 1 then do {
         (i, j, s) \<leftarrow> pick_two w s;
         assert_c (i < length (g_workers (rt_g s)) \<and> j < length (g_workers (rt_g s)));
         let victim = g_workers (rt_g s) ! i;
         let potential_victim = g_workers (rt_g s) ! j;
         lv \<leftarrow> l_at s victim;
         lp \<leftarrow> l_at s potential_victim;
         Some (if dp_size (l_resumable_deques lv) > dp_size (l_resumable_deques lp)
               then potential_victim else victim, s) }
       else Some (w, s)) = Some (v, s1) \<and> v \<in> set ?W \<and> same_but_seed s s1"
  proof (cases "g_total_workers (rt_g s) > 1")
    case True
    from pick_two_runs [OF l] obtain i j s1 where p: "pick_two w s = Some (i, j, s1)" "same_but_seed s s1" by blast
    have ij: "i < length ?W" "j < length ?W"
      using pick_two_distinct [OF p(1) True] q by (simp_all add: quiet_workers_def)
    have g: "rt_g s1 = rt_g s" using p(2) by (simp add: same_but_seed_def only_pools_def)
    have at: "\<exists>l. l_at s1 v = Some l" if "v \<in> set ?W" for v
    proof -
      from free [OF that] obtain l where "l_at s v = Some l" by (auto simp: lock_of_def)
      then show ?thesis using only_pools_lock [of s s1 v l] p(2) by (auto simp: same_but_seed_def)
    qed
    from at [OF nth_mem [OF ij(1)]] at [OF nth_mem [OF ij(2)]] obtain li lj where
      at: "l_at s1 (?W ! i) = Some li" "l_at s1 (?W ! j) = Some lj" by blast
    show ?thesis using p(2) nth_mem [OF ij(1)] nth_mem [OF ij(2)] True
      by (simp add: p(1) g ij at)
  qed (use w in \<open>auto simp: same_but_seed_def only_pools_def\<close>)
  then obtain v s1 where v: "v \<in> set ?W" "same_but_seed s s1" and
    pick: "make_resumable_free w d s = (do {
     x \<leftarrow> dq_at s1 d;
     assert_c (dq_self x = INVALID_DEQUE_INDEX);
     s \<leftarrow> dq_mod d (\<lambda>x. x\<lparr>dq_resumable := True, dq_worker := v\<rparr>) s1;
     s \<leftarrow> lock_worker w v s;
     s \<leftarrow> deque_pool_add w v (v, Resumable) d s;
     unlock_worker w v s })" unfolding make_resumable_free_def by force
  let ?y = "x\<lparr>dq_resumable := True, dq_worker := v\<rparr>"
  let ?s2 = "put_dq d ?y s1"
  have d1: "dq_at s1 d = Some x" using v(2) d(2) by (simp add: same_but_seed_def)
  have p1: "pool_inv s1" "pool_list s1 = pool_list s" using same_but_seed_pools [OF v(2)] inv by auto
  have p2: "pool_inv ?s2" "pool_list ?s2 = pool_list s"
    using set_resumable [OF p1(1) _ d1] out p1(2) by auto
  have "lock_of s1 v = Some free_lock" using v free by (simp add: same_but_seed_def only_pools_def)
  then obtain l1 where l1: "l_at ?s2 v = Some l1" "l_lock l1 = free_lock" by (auto simp: lock_of_def)
  let ?s3 = "put_lock v (held_by w) ?s2"
  have l3: "l_at ?s3 v = Some (l1\<lparr>l_lock := held_by w\<rparr>)" using put_lock_l [OF l1(1)] by simp
  have "may_add w (v, Resumable) d ?s3" using free [OF w] d l3 out p2 by (simp add: may_add_def held_by_def)
  from pools.insert_law [OF _ this] p2 obtain s4 where s4: "deque_pool_add w v (v, Resumable) d ?s3 = Some s4" "pool_inv s4"
    "pool_list s4 (v, Resumable) = pool_list s (v, Resumable) @ [d]"
    "\<forall>r. r \<noteq> (v, Resumable) \<longrightarrow> pool_list s4 r = pool_list s r" by auto
  obtain l4 where l4: "l_at s4 v = Some l4" "l_lock l4 = held_by w"
    using only_pools_lock [OF deque_pool_add_pools [OF s4(1)] l3] by auto
  have "make_resumable_free w d s = Some (put_lock v free_lock s4)"
    using d1 d(3) lock_worker_put [OF l1, of w] s4(1) unlock_worker_put [OF l4] by (simp add: pick)
  moreover have "lock_of (put_lock v free_lock s4) v = Some free_lock"
    using put_lock_l [OF l4(1)] by (simp add: lock_of_def)
  ultimately show ?thesis using s4 v(1) by (intro exI [of _ "put_lock v free_lock s4"] exI [of _ v]) simp
qed

lemma mset_remove1_add: "add_mset d A = mset xs \<Longrightarrow> A = mset (remove1 d xs)"
  by (metis add_mset_remove_trivial mset_remove1)

section \<open>An example\<close>

text \<open>One worker with two suspended deques, of which deque 7 has a fiber that is ready.\<close>

definition resume_example :: rts where
  "resume_example = (rts_with_worker 1 (example_local\<lparr>l_suspended_deques := \<lparr>dp_array = [7, 8], dp_size = 2\<rparr>\<rparr>))
     \<lparr>rt_dq := [7 \<mapsto> (empty_deque 8)\<lparr>dq_self := 0, dq_worker := 1, dq_fiber := 50\<rparr>,
       8 \<mapsto> (empty_deque 8)\<lparr>dq_self := 1, dq_worker := 1\<rparr>],
      rt_fb := [50 \<mapsto> \<lparr>fb_owner = 0, fb_resume_sf = 0, fb_resumable = True, fb_ref_count = 1\<rparr>],
      rt_g := example_global\<lparr>g_total_workers := 1, g_workers := [1]\<rparr>\<rparr>"

lemma resume_example_l: "l_at resume_example v = (if v = 1 then
    Some (example_local\<lparr>l_suspended_deques := \<lparr>dp_array = [7, 8], dp_size = 2\<rparr>\<rparr>) else None)"
  by (simp add: resume_example_def l_at_def wk_at_def rts_with_worker_def example_worker_def)

lemma resume_example_pool: "pool_at resume_example r = (if r = (1, Suspended) then Some \<lparr>dp_array = [7, 8], dp_size = 2\<rparr>
    else if r = (1, Resumable) then Some \<lparr>dp_array = [0], dp_size = 0\<rparr> else None)"
  by (cases r; cases "snd r") (auto simp: pool_at_def resume_example_l example_local_def)

lemma resume_example_list: "pool_list resume_example r = (if r = (1, Suspended) then [7, 8] else [])"
  by (simp add: pool_list_def resume_example_pool)

lemma resume_example_dq: "dq_at resume_example 7 = Some ((empty_deque 8)\<lparr>dq_self := 0, dq_worker := 1, dq_fiber := 50\<rparr>)"
    "dq_at resume_example 8 = Some ((empty_deque 8)\<lparr>dq_self := 1, dq_worker := 1\<rparr>)"
  by (simp_all add: resume_example_def dq_at_def)

lemma resume_example_ok: "pool_inv resume_example" "quiet_workers resume_example" "fiber_ready 7 resume_example = Some True"
proof -
  show "pool_inv resume_example"
    by (rule pool_invI) (auto simp: resume_example_pool resume_example_list less_Suc_eq nth_Cons' resume_example_dq
      split: if_splits, simp_all add: empty_deque_def)
  have "g_total_workers (rt_g resume_example) = 1" "g_workers (rt_g resume_example) = [1]"
    by (simp_all add: resume_example_def)
  then show "quiet_workers resume_example"
    by (simp add: quiet_workers_def lock_of_def resume_example_l) (simp add: example_local_def mutex_init_def free_lock_def)
  show "fiber_ready 7 resume_example = Some True"
    by (simp add: fiber_ready_def resume_example_dq fb_at_def) (simp add: resume_example_def)
qed

section \<open>The frames after a steal\<close>

lemma promoted_last:
  "promoted s cs j fb (g # gs) zs \<Longrightarrow> \<exists>L. ff_at s (last (g # gs)) = Some L \<and> ff_call_stack L = last zs \<and>
    ff_fiber_self L = fb \<and> ff_join_counter L = (if gs = [] then j else 0) \<and>
    kids s (last (g # gs)) (if gs = [] then cs else [])"
proof (induction gs arbitrary: g cs j zs)
  case Nil
  then show ?case by (cases zs) auto
next
  case (Cons h gs)
  then obtain z zs' where z: "zs = z # zs'" "promoted s [] 0 fb (h # gs) zs'" by (cases zs) auto
  then have "zs' \<noteq> []" by auto
  with Cons.IH [OF z(2)] z(1) show ?case by (auto split: if_splits)
qed

lemma frame_lock_put: "ff_at s p = Some F \<Longrightarrow> ff_lock F = free_lock \<Longrightarrow>
    frame_lock w p s = Some (put_ff p (F\<lparr>ff_lock := held_by w\<rparr>) s)"
  by (simp add: frame_lock_def free_lock_def held_by_def)

lemma frame_unlock_put: "ff_at s p = Some F \<Longrightarrow> ff_lock F = held_by w \<Longrightarrow>
    frame_unlock w p s = Some (put_ff p (F\<lparr>ff_lock := free_lock\<rparr>) s)"
  by (simp add: frame_unlock_def free_lock_def held_by_def)

text \<open>Frames that differ in lock, fiber, counter or call stack have the same children.\<close>

lemma kids_put_ff:
  assumes "kids s p cs" "ff_at s q = Some f" "ff_left_sibling f' = ff_left_sibling f"
    "ff_right_sibling f' = ff_right_sibling f" "ff_rightmost_child f' = ff_rightmost_child f"
  shows "kids (put_ff q f' s) p cs"
  using assms by (rule_tac kids_same_links [OF assms(1)]) (auto simp: same_links_def kids_def)

lemma kids_put_others [simp]: "kids (put_wk w k s) p cs = kids s p cs" "kids (put_dq d x s) p cs = kids s p cs"
proof -
  have "kids s' p cs" if "kids s p cs" "\<And>q. ff_at s' q = ff_at s q" for s s' using that kids_cong by blast
  then show "kids (put_wk w k s) p cs = kids s p cs" "kids (put_dq d x s) p cs = kids s p cs" by (metis put_wk_at(4), metis put_dq_rest(2))
qed

lemma adopt_loot_spec:
  assumes L: "ff_at s g = Some L" "ff_call_stack L = z" "kids s g ks" and n: "next_fresh s"
    and z: "z \<noteq> NULL" "not_future s z" and w: "w \<noteq> victim" "wk_at s w = Some k" "l_next_frame_ff (wk_l k) = NULL"
    and d: "dq_at s d = Some x" and a: "active_deque s w = Some a" and g: "g \<noteq> NULL"
  shows "\<exists>s' P C. adopt_loot w victim d g z (Fiber fb) s = Some s' \<and> next_fresh s' \<and>
    dq_at s' d = Some (x\<lparr>dq_frame_ff := rt_next s\<rparr>) \<and> (\<forall>e. e \<noteq> d \<longrightarrow> dq_at s' e = dq_at s e) \<and>
    wk_at s' w = Some (k\<lparr>wk_l := (wk_l k)\<lparr>l_next_frame_ff := g\<rparr>\<rparr>) \<and> kids s' g (ks @ [rt_next s]) \<and>
    ff_at s' g = Some P \<and> ff_at s' (rt_next s) = Some C \<and>
    new_child g (L\<lparr>ff_join_counter := ff_join_counter L + 1\<rparr>) NULL (Fiber fb) P (C\<lparr>ff_join_counter := 0\<rparr>) \<and>
    ff_join_counter C = 1 \<and>
    (\<forall>q. q \<notin> insert g (insert (rt_next s) (set ks)) \<longrightarrow> ff_at s' q = ff_at s q)"
proof -
  let ?c = "rt_next s" and ?L = "L\<lparr>ff_join_counter := ff_join_counter L + 1\<rparr>"
  let ?k = "k\<lparr>wk_l := (wk_l k)\<lparr>l_next_frame_ff := g\<rparr>\<rparr>"
  let ?s1 = "put_wk w ?k (put_ff g ?L s)"
  have pn: "push_next_frame w g s = Some ?s1"
    using L(1) w(2,3) g by (simp add: push_next_frame_def incjoin_def l_at_wk)
  obtain f where f: "sf_at s z = Some f" "\<not> flag_set (sf_flags f) CILK_FRAME_FUTURE_PARENT"
    using z(2) by (auto simp: not_future_at)
  have "kids ?s1 g ks" using kids_put_ff [OF L(3,1)] by simp
  moreover have "next_fresh ?s1" using n next_fresh_lt [OF n L(1)] by (auto simp: next_fresh_def)
  moreover have "ff_at ?s1 g = Some ?L" "ff_call_stack ?L \<noteq> NULL" "sf_at ?s1 (ff_call_stack ?L) = Some f"
    using L z f by simp_all
  ultimately obtain s2 P C where s2: "make_child g NULL (Fiber fb) ?s1 = Some (?c, s2)" "next_fresh s2"
      "kids s2 g (ks @ [?c])" "ff_at s2 g = Some P" "ff_at s2 ?c = Some C" "new_child g ?L NULL (Fiber fb) P C"
      "\<forall>q. q \<notin> insert g (insert ?c (set ks)) \<longrightarrow> ff_at s2 q = ff_at s q" "rt_sf s2 = rt_sf ?s1" "only_frames ?s1 s2"
    using make_child_spec [of ?s1 g ks ?L f NULL "Fiber fb"] f(2) by auto
  have at2: "sf_at s2 z = Some f" "dq_at s2 e = dq_at s e" "wk_at s2 v = wk_at ?s1 v" for e v
    using s2(8,9) f(1) by (simp_all add: sf_at_def dq_at_def wk_at_def only_frames_def put_wk_def put_ff_def)
  have gc: "g \<noteq> ?c" "?c \<notin> set ks" using s2(3) by (auto simp: kids_def)
  have C: "ff_lock C = free_lock" "ff_join_counter C = 0" "ff_call_stack C = NULL"
    using s2(6) by (simp_all add: new_child_def mutex_init_def free_lock_def)
  let ?C = "C\<lparr>ff_join_counter := 1\<rparr>"
  let ?s = "put_ff ?c ?C (put_dq d (x\<lparr>dq_frame_ff := ?c\<rparr>) s2)"
  have fin: "C\<lparr>ff_join_counter := 1, ff_call_stack := NULL, ff_lock := free_lock\<rparr> = ?C" using C by (cases C) simp
  have swap: "put_dq e y (put_ff p F t) = put_ff p F (put_dq e y t)" for e y p F t by (simp add: put_dq_def put_ff_def)
  have "adopt_loot w victim d g z (Fiber fb) s = Some ?s"
    using a w(1) pn s2(1,5) at2 C(1) C(2) d f(2)
    by (simp add: adopt_loot_def frame_lock_put incjoin_def make_runnable_def frame_unlock_put swap fin)
  moreover have "kids ?s g (ks @ [?c])" using s2(3,5) by (rule_tac kids_put_ff) simp_all
  moreover have "next_fresh ?s" using s2(2) next_fresh_lt [OF s2(2,5)] by (auto simp: next_fresh_def)
  moreover have "?C\<lparr>ff_join_counter := 0\<rparr> = C" using C by (cases C) simp
  ultimately show ?thesis using s2(4,6,7) gc at2 d
    by (rule_tac exI [of _ ?s], rule_tac exI [of _ P], rule_tac exI [of _ ?C]) simp
qed

text \<open>
  When the stolen frame is spawning a future, the child is not linked below it: it gets the oldest of the fibers that the
  deque keeps for futures, and the looted frame keeps its own fiber.
\<close>

definition future_child :: "ptr \<Rightarrow> full_frame" where
  "future_child fib = (new_full_frame NULL)\<lparr>ff_fiber_self := fib, ff_join_counter := 1\<rparr>"

lemma adopt_loot_future:
  assumes L: "ff_at s g = Some L" "ff_call_stack L = z" and n: "next_fresh s"
    and z: "z \<noteq> NULL" "future_mark s z = Some True" and w: "w \<noteq> victim" "wk_at s w = Some k" "l_next_frame_ff (wk_l k) = NULL"
    and d: "dq_at s d = Some x" "dq_fiber_ltq x (dq_fiber_head x) = fib" "fib \<noteq> NULL"
    and a: "active_deque s w = Some a" and g: "g \<noteq> NULL"
  shows "\<exists>s'. adopt_loot w victim d g z fiber s = Some s' \<and> next_fresh s' \<and>
    dq_at s' d = Some (x\<lparr>dq_fiber_head := dq_fiber_head x + 1, dq_frame_ff := rt_next s\<rparr>) \<and>
    wk_at s' w = Some (k\<lparr>wk_l := (wk_l k)\<lparr>l_next_frame_ff := g\<rparr>\<rparr>) \<and>
    ff_at s' g = Some (L\<lparr>ff_join_counter := ff_join_counter L + 1\<rparr>) \<and> ff_at s' (rt_next s) = Some (future_child fib) \<and>
    (\<forall>q. q \<noteq> g \<and> q \<noteq> rt_next s \<longrightarrow> ff_at s' q = ff_at s q)"
proof -
  let ?c = "rt_next s" and ?L = "L\<lparr>ff_join_counter := ff_join_counter L + 1\<rparr>"
  let ?s1 = "put_wk w (k\<lparr>wk_l := (wk_l k)\<lparr>l_next_frame_ff := g\<rparr>\<rparr>) (put_ff g ?L s)"
  have pn: "push_next_frame w g s = Some ?s1"
    using L(1) w(2,3) g by (simp add: push_next_frame_def incjoin_def l_at_wk)
  obtain f where f: "sf_at s z = Some f" "flag_set (sf_flags f) CILK_FRAME_FUTURE_PARENT"
    using z(2) by (auto simp: future_mark_def)
  have gc: "g \<noteq> ?c" using next_fresh_lt [OF n L(1)] by simp
  let ?s2 = "put_ff ?c (new_full_frame NULL) (?s1\<lparr>rt_next := ?c + 1\<rparr>)"
  have "make_full_frame NULL ?s1 = (?c, ?s2)" by (simp add: make_full_frame_def put_ff_def)
  then have mk: "make_child g NULL fiber ?s1 = Some (?c, ?s2)"
    using L z(1) f gc by (simp add: make_child_def)
  let ?s = "put_ff ?c (future_child fib) (put_dq d (x\<lparr>dq_fiber_head := dq_fiber_head x + 1, dq_frame_ff := ?c\<rparr>) ?s2)"
  have lk: "ff_lock (new_full_frame NULL) = free_lock" "ff_join_counter (new_full_frame NULL) = 0" "ff_call_stack (new_full_frame NULL) = NULL"
    by (simp_all add: new_full_frame_def free_lock_def mutex_init_def)
  have fin: "(new_full_frame NULL)\<lparr>ff_join_counter := 1, ff_fiber_self := fib, ff_call_stack := NULL, ff_lock := free_lock\<rparr> = future_child fib"
    using lk by (cases "new_full_frame NULL") (simp add: future_child_def)
  have swap: "put_dq e y (put_ff p F t) = put_ff p F (put_dq e y t)" for e y p F t by (simp add: put_dq_def put_ff_def)
  have at2: "sf_at (?s1\<lparr>rt_next := n\<rparr>) q = sf_at s q" "dq_at (?s1\<lparr>rt_next := n\<rparr>) e = dq_at s e" "wk_at (?s1\<lparr>rt_next := n\<rparr>) v = wk_at ?s1 v" for n q e v
    by (simp_all add: sf_at_def dq_at_def wk_at_def put_wk_def put_ff_def)
  have "adopt_loot w victim d g z fiber s = Some ?s"
    using a w(1) pn mk lk d f fin at2
    by (simp add: adopt_loot_def frame_lock_put incjoin_def make_runnable_def frame_unlock_put pop_head_future_fiber_def swap)
  moreover have "next_fresh ?s" using n next_fresh_lt [OF n L(1)] by (auto simp: next_fresh_def)
  moreover have "wk_at ?s w = wk_at ?s1 w" by (simp add: at2)
  ultimately show ?thesis using gc by (intro exI [of _ ?s]) simp
qed

lemma promoted_length: "promoted s cs j fb gs zs \<Longrightarrow> length gs = length zs"
proof (induction gs arbitrary: cs j zs)
  case (Cons g gs)
  then obtain z zs' where zs: "zs = z # zs'" by (cases zs) auto
  show ?case
  proof (cases gs)
    case (Cons h hs)
    then have "promoted s [] 0 fb gs zs'" using Cons.prems zs by auto
    then show ?thesis using Cons.IH zs by simp
  qed (use Cons.prems zs in auto)
qed auto

lemma promoted_next:
  "promoted s cs j fb (g # h # gs) zs \<Longrightarrow>
    kids s g (cs @ [h]) \<and> (\<exists>G. ff_at s g = Some G \<and> ff_join_counter G = j + 1) \<and> h \<noteq> g \<and> g \<notin> set (cs @ [h])"
  by (cases zs) (auto simp: kids_def)

text \<open>The states of \<^const>\<open>detach_for_steal\<close> before the call stack is unrolled.\<close>

lemma detach_prefix:
  assumes w: "w \<noteq> victim" "wk_at s w = Some k" "frame_ff s w = Some NULL"
    and a: "active_deque s w = Some a" "a \<noteq> d" "dq_at s a = Some y"
    and d: "dq_at s d = Some x" "dq_ltq x (dq_head x) = z" "z \<noteq> NULL" "dq_frame_ff x = ff"
    and F: "ff_at s ff = Some F" "ff_lock F = free_lock" "0 < ff_join_counter F" and f: "sf_at s z = Some f"
  defines "s1 \<equiv> if l_batch_id (wk_l k) = -1 then put_dq a (y\<lparr>dq_team := dq_team x\<rparr>) s else s"
  defines "s2 \<equiv> put_sf z (f\<lparr>sf_worker := victim\<rparr>) (put_ff ff (F\<lparr>ff_lock := held_by w, ff_join_counter := ff_join_counter F - 1\<rparr>)
      (put_dq d (x\<lparr>dq_head := dq_head x + 1\<rparr>) s1))"
  shows "detach_for_steal w victim d fiber s = (do {
     (loot_ff, s) \<leftarrow> unroll_call_stack w ff z s2;
     s \<leftarrow> adopt_loot w victim d loot_ff z fiber s;
     frame_unlock w ff s })"
proof -
  have fr: "frame_ff s1 w = Some NULL"
    using w(2,3) a(3) by (auto simp: s1_def frame_ff_def l_at_wk split: Option.bind_splits if_splits)
  have "(if l_batch_id (wk_l k) = -1 then do { a \<leftarrow> active_deque s w; dq_mod a (\<lambda>y. y\<lparr>dq_team := dq_team x\<rparr>) s } else Some s) = Some s1"
    using a by (simp add: s1_def)
  moreover have "dq_at s1 d = Some x" "ff_at s1 ff = Some F" "sf_at s1 z = Some f" using a(2) d(1) F(1) f by (simp_all add: s1_def)
  ultimately show ?thesis
    using w(1,2) d F(2,3) fr
    by (simp add: detach_for_steal_def l_at_wk take_head_def frame_lock_put decjoin_def s2_def)
qed

text \<open>Up to the point where the loot is adopted both kinds of steal do the same.\<close>

lemma detach_unrolled:
  assumes w: "w \<noteq> victim" "wk_at s w = Some k" "frame_ff s w = Some NULL"
    and a: "active_deque s w = Some a" "a \<noteq> d" "dq_at s a = Some y"
    and d: "dq_at s d = Some x" "dq_ltq x (dq_head x) = hd xs" "dq_frame_ff x = ff" "ff \<noteq> NULL"
    and xs: "call_chain s xs" "distinct xs" "\<forall>x\<in>set (tl xs). not_future s x"
    and F: "ff_at s ff = Some F" "ff_lock F = free_lock" "0 < ff_join_counter F" "kids s ff cs" and n: "next_fresh s"
  shows "\<exists>s3 gs L F3. (\<forall>fiber. detach_for_steal w victim d fiber s = (do {
       s \<leftarrow> adopt_loot w victim d (last (ff # gs)) (hd xs) fiber s3; frame_unlock w ff s })) \<and>
    Suc (length gs) = length xs \<and> next_fresh s3 \<and> future_mark s3 (hd xs) = future_mark s (hd xs) \<and> rt_next s \<le> rt_next s3 \<and>
    dq_at s3 d = Some (x\<lparr>dq_head := dq_head x + 1\<rparr>) \<and> wk_at s3 w = Some k \<and> active_deque s3 w = Some a \<and>
    ff_at s3 (last (ff # gs)) = Some L \<and> ff_call_stack L = hd xs \<and> hd xs \<noteq> NULL \<and> ff_fiber_self L = ff_fiber_self F \<and>
    ff_join_counter L = (if gs = [] then ff_join_counter F - 1 else 0) \<and> kids s3 (last (ff # gs)) (if gs = [] then cs else []) \<and>
    ff_at s3 ff = Some F3 \<and> ff_lock F3 = held_by w \<and> ff_parent F3 = ff_parent F \<and> last (ff # gs) \<noteq> NULL \<and> ff < rt_next s \<and>
    (gs \<noteq> [] \<longrightarrow> rt_next s \<le> last (ff # gs) \<and> kids s3 ff (cs @ [hd gs]) \<and> ff_join_counter F3 = ff_join_counter F) \<and>
    (\<forall>q. q \<notin> insert ff (set cs) \<and> q < rt_next s \<longrightarrow> ff_at s3 q = ff_at s q)"
proof -
  let ?z = "hd xs"
  have z: "?z \<noteq> NULL" "?z \<in> set xs" "\<exists>f. sf_at s ?z = Some f" using xs(1) by (cases xs; cases "tl xs"; auto)+
  then obtain f where f: "sf_at s ?z = Some f" by blast
  define s1 where "s1 = (if l_batch_id (wk_l k) = -1 then put_dq a (y\<lparr>dq_team := dq_team x\<rparr>) s else s)"
  let ?F = "F\<lparr>ff_lock := held_by w, ff_join_counter := ff_join_counter F - 1\<rparr>"
  define s2 where "s2 = put_sf ?z (f\<lparr>sf_worker := victim\<rparr>) (put_ff ff ?F (put_dq d (x\<lparr>dq_head := dq_head x + 1\<rparr>) s1))"
  have rt2: "rt_next s2 = rt_next s" by (simp add: s2_def s1_def)
  note pre = detach_prefix [OF w(1,2,3) a d(1,2) z(1) d(3) F(1-3) f, folded s1_def, folded s2_def]
  have at1: "ff_at s1 q = ff_at s q" "sf_at s1 p = sf_at s p" "wk_at s1 v = wk_at s v" "rt_next s1 = rt_next s" for q p v
    by (simp_all add: s1_def)
  have fm: "future_mark s2 q = future_mark s q" for q using f by (simp add: s2_def at1 future_mark_def)
  have "call_chain s2 xs" using f by (rule_tac call_chain_flags [OF xs(1)]) (auto simp: s2_def at1)
  moreover have "\<forall>x\<in>set (tl xs). not_future s2 x" using xs(3) fm by (simp add: not_future_def)
  moreover have "kids s1 ff cs" using at1 by (rule_tac kids_cong [OF F(4)]) simp
  then have "kids s2 ff cs" using F(1) at1 unfolding s2_def by (simp add: kids_put_ff)
  moreover have n2: "next_fresh s2" using n next_fresh_lt [OF n F(1)] at1 by (auto simp: next_fresh_def s2_def)
  moreover have F2: "ff_at s2 ff = Some ?F" by (simp add: s2_def)
  moreover have a2: "active_deque s2 w = Some a" using a(1) w(2) at1 by (simp add: active_deque_def s2_def l_at_wk)
  moreover have "\<exists>D. dq_at s2 a = Some D" using a(2,3) by (simp add: s2_def s1_def)
  ultimately obtain s3 gs where s3: "unroll_call_stack w ff ?z s2 = Some (last (ff # gs), s3)"
      "promoted s3 cs (ff_join_counter ?F) (ff_fiber_self ?F) (ff # gs) (rev xs)" "grown s2 ff ?F cs s3"
      "\<forall>h\<in>set gs. rt_next s \<le> h"
    using unroll_call_stack_spec [OF _ xs(2), of s2] rt2 by metis
  let ?g = "last (ff # gs)"
  obtain L where L: "ff_at s3 ?g = Some L" "ff_call_stack L = ?z" "ff_fiber_self L = ff_fiber_self F"
      "ff_join_counter L = (if gs = [] then ff_join_counter F - 1 else 0)" "kids s3 ?g (if gs = [] then cs else [])"
    using promoted_last [OF s3(2)] z by (auto simp: last_rev)
  have of: "only_frames s2 s3" and n3: "next_fresh s3" "future_mark s3 ?z = future_mark s ?z" "rt_next s \<le> rt_next s3"
    using s3(3) fm rt2 by (simp_all add: grown_def)
  have "dq_at s3 d = dq_at s2 d" "wk_at s3 w = wk_at s2 w" "active_deque s3 w = active_deque s2 w"
    using of by (simp_all add: only_frames_def dq_at_def wk_at_def active_deque_def l_at_def)
  then have at3: "dq_at s3 d = Some (x\<lparr>dq_head := dq_head x + 1\<rparr>)" "wk_at s3 w = Some k" "active_deque s3 w = Some a"
    using w(2) at1 a2 by (simp_all add: s2_def)
  have fn: "ff < rt_next s" "gs \<noteq> [] \<Longrightarrow> rt_next s \<le> ?g" using next_fresh_lt [OF n F(1)] s3(4) by (auto dest: last_in_set)
  then have g0: "?g \<noteq> NULL" using d(4) n by (cases "gs = []") (auto simp: next_fresh_def)
  obtain F3 where F3: "ff_at s3 ff = Some F3" "ff_lock F3 = held_by w" "ff_parent F3 = ff_parent F"
    using s3(3) by (auto simp: grown_def)
  have inner: "kids s3 ff (cs @ [hd gs]) \<and> ff_join_counter F3 = ff_join_counter F" if ne: "gs \<noteq> []"
  proof -
    obtain h hs where gs: "gs = h # hs" using ne by (cases gs) auto
    show ?thesis using promoted_next [OF s3(2) [unfolded gs]] F3(1) by (simp add: gs)
  qed
  have old: "ff_at s3 q = ff_at s q" if q: "q \<notin> insert ff (set cs) \<and> q < rt_next s" for q
  proof -
    have "ff_at s3 q = ff_at s2 q" using s3(3) q rt2 by (auto simp: grown_def)
    then show ?thesis using q by (simp add: s2_def at1)
  qed
  have eq: "detach_for_steal w victim d fiber s = (do { s \<leftarrow> adopt_loot w victim d ?g ?z fiber s3; frame_unlock w ff s })" for fiber
    using pre s3(1) by simp
  have len: "Suc (length gs) = length xs" using promoted_length [OF s3(2)] by simp
  have ch: "gs \<noteq> [] \<longrightarrow> rt_next s \<le> ?g \<and> kids s3 ff (cs @ [hd gs]) \<and> ff_join_counter F3 = ff_join_counter F"
    using fn(2) inner by blast
  have all: "\<forall>fiber. detach_for_steal w victim d fiber s = (do { s \<leftarrow> adopt_loot w victim d ?g ?z fiber s3; frame_unlock w ff s })"
      "\<forall>q. q \<notin> insert ff (set cs) \<and> q < rt_next s \<longrightarrow> ff_at s3 q = ff_at s q"
    using eq old by blast+
  show ?thesis
    by (rule exI [of _ s3], rule exI [of _ gs], rule exI [of _ L], rule exI [of _ F3], intro conjI)
      (fact all len n3 at3 L z(1) F3 g0 fn(1) ch)+
qed

lemma detach_for_steal_spec:
  assumes w: "w \<noteq> victim" "wk_at s w = Some k" "l_next_frame_ff (wk_l k) = NULL" "frame_ff s w = Some NULL"
    and a: "active_deque s w = Some a" "a \<noteq> d" "dq_at s a = Some y"
    and d: "dq_at s d = Some x" "dq_ltq x (dq_head x) = hd xs" "dq_frame_ff x = ff" "ff \<noteq> NULL"
    and xs: "call_chain s xs" "distinct xs" "\<forall>x\<in>set xs. not_future s x"
    and F: "ff_at s ff = Some F" "ff_lock F = free_lock" "0 < ff_join_counter F" "kids s ff cs" and n: "next_fresh s"
  shows "\<exists>s' gs c C L F'. detach_for_steal w victim d (Fiber fb) s = Some s' \<and> next_fresh s' \<and>
    Suc (length gs) = length xs \<and> dq_at s' d = Some (x\<lparr>dq_head := dq_head x + 1, dq_frame_ff := c\<rparr>) \<and>
    wk_at s' w = Some (k\<lparr>wk_l := (wk_l k)\<lparr>l_next_frame_ff := last (ff # gs)\<rparr>\<rparr>) \<and>
    ff_at s' c = Some C \<and> ff_parent C = last (ff # gs) \<and> \<not> ff_is_call_child C \<and>
    ff_fiber_self C = ff_fiber_self F \<and> ff_join_counter C = 1 \<and> ff_call_stack C = NULL \<and>
    ff_at s' (last (ff # gs)) = Some L \<and> ff_call_stack L = hd xs \<and> ff_fiber_self L = fb \<and>
    ff_join_counter L = (if gs = [] then ff_join_counter F - 1 else 0) + 2 \<and>
    kids s' (last (ff # gs)) ((if gs = [] then cs else []) @ [c]) \<and>
    ff_at s' ff = Some F' \<and> ff_lock F' = free_lock \<and> ff_parent F' = ff_parent F \<and>
    (if gs = [] then ff_join_counter F' = ff_join_counter F + 1
     else ff_join_counter F' = ff_join_counter F \<and> kids s' ff (cs @ [hd gs])) \<and>
    (\<forall>q. q \<notin> insert ff (set cs) \<and> q < rt_next s \<longrightarrow> ff_at s' q = ff_at s q)"
proof -
  have xs': "\<forall>x\<in>set (tl xs). not_future s x" "not_future s (hd xs)" using xs(1,3) by (cases xs; simp)+
  obtain s3 gs L F3 where
    det: "detach_for_steal w victim d (Fiber fb) s = (do {
       s \<leftarrow> adopt_loot w victim d (last (ff # gs)) (hd xs) (Fiber fb) s3; frame_unlock w ff s })"
    and len: "Suc (length gs) = length xs" and n3: "next_fresh s3" "future_mark s3 (hd xs) = future_mark s (hd xs)" "rt_next s \<le> rt_next s3"
    and at3: "dq_at s3 d = Some (x\<lparr>dq_head := dq_head x + 1\<rparr>)" "wk_at s3 w = Some k" "active_deque s3 w = Some a"
    and L: "ff_at s3 (last (ff # gs)) = Some L" "ff_call_stack L = hd xs" "hd xs \<noteq> NULL" "ff_fiber_self L = ff_fiber_self F"
      "ff_join_counter L = (if gs = [] then ff_join_counter F - 1 else 0)" "kids s3 (last (ff # gs)) (if gs = [] then cs else [])"
    and F3: "ff_at s3 ff = Some F3" "ff_lock F3 = held_by w" "ff_parent F3 = ff_parent F" and g0: "last (ff # gs) \<noteq> NULL" and fn: "ff < rt_next s"
    and inner: "gs \<noteq> [] \<longrightarrow> rt_next s \<le> last (ff # gs) \<and> kids s3 ff (cs @ [hd gs]) \<and> ff_join_counter F3 = ff_join_counter F"
    and old3: "\<forall>q. q \<notin> insert ff (set cs) \<and> q < rt_next s \<longrightarrow> ff_at s3 q = ff_at s q"
    using detach_unrolled [OF w(1,2,4) a d xs(1,2) xs'(1) F n] by blast
  let ?z = "hd xs" and ?g = "last (ff # gs)" and ?c = "rt_next s3"
  have z3: "not_future s3 ?z" using n3(2) xs'(2) by (simp add: not_future_def)
  obtain s4 P C where s4: "adopt_loot w victim d ?g ?z (Fiber fb) s3 = Some s4" "next_fresh s4"
      "dq_at s4 d = Some (x\<lparr>dq_head := dq_head x + 1, dq_frame_ff := rt_next s3\<rparr>)"
      "wk_at s4 w = Some (k\<lparr>wk_l := (wk_l k)\<lparr>l_next_frame_ff := ?g\<rparr>\<rparr>)"
      "kids s4 ?g ((if gs = [] then cs else []) @ [rt_next s3])" "ff_at s4 ?g = Some P" "ff_at s4 (rt_next s3) = Some C"
      "new_child ?g (L\<lparr>ff_join_counter := ff_join_counter L + 1\<rparr>) NULL (Fiber fb) P (C\<lparr>ff_join_counter := 0\<rparr>)"
      "ff_join_counter C = 1"
      "\<forall>q. q \<notin> insert ?g (insert (rt_next s3) (set (if gs = [] then cs else []))) \<longrightarrow> ff_at s4 q = ff_at s3 q"
    using adopt_loot_spec [OF L(1,2,6) n3(1) L(3) z3 w(1) at3(2) w(3) at3(1,3) g0, of fb] by auto
  have c: "?c \<noteq> ff" "?c \<noteq> ?g" using fn n3(3) s4(5) by (auto simp: kids_def)
  have old: "ff_at s4 q = ff_at s q" if q: "q \<notin> insert ff (set cs) \<and> q < rt_next s" for q
  proof -
    have "q \<noteq> ?g" using q inner by (cases "gs = []") auto
    then have "ff_at s4 q = ff_at s3 q" using s4(10) q n3(3) by auto
    then show ?thesis using old3 q by simp
  qed
  have "\<exists>F4. ff_at s4 ff = Some F4 \<and> ff_lock F4 = held_by w \<and> ff_parent F4 = ff_parent F \<and>
    (gs = [] \<longrightarrow> F4 = P) \<and> (if gs = [] then ff_join_counter F4 = ff_join_counter F + 1
     else ff_join_counter F4 = ff_join_counter F \<and> kids s4 ff (cs @ [hd gs]))"
  proof (cases gs)
    case Nil
    then have "L = F3" using L(1) F3(1) by simp
    then show ?thesis using Nil s4(6,8) F3 L(5) by (auto simp: new_child_def)
  next
    case (Cons h hs)
    have ffg: "ff \<noteq> ?g" using fn inner Cons by auto
    then have f4: "ff_at s4 ff = Some F3" using s4(10) c(1) Cons F3(1) by simp
    have p: "kids s3 ff (cs @ [h])" "ff_join_counter F3 = ff_join_counter F" using inner Cons by simp_all
    have "\<forall>q\<in>set (cs @ [h]). same_links s3 s4 q"
    proof
      fix q assume q: "q \<in> set (cs @ [h])"
      then have "q < ?c" using kids_lt [OF n3(1)] p by blast
      show "same_links s3 s4 q"
      proof (cases "q = ?g")
        case True
        then show ?thesis using L(1) s4(6,8) by (simp add: same_links_def new_child_def)
      next
        case False
        then have "ff_at s4 q = ff_at s3 q" using \<open>q < ?c\<close> s4(10) Cons by simp
        then show ?thesis by (simp add: same_links_def)
      qed
    qed
    then have "kids s4 ff (cs @ [h])"
      using p f4 F3(1) by (rule_tac kids_same_links [of s3 ff]) (auto simp: kids_def)
    then show ?thesis using f4 F3 p Cons by simp
  qed
  then obtain F4 where F4: "ff_at s4 ff = Some F4" "ff_lock F4 = held_by w" "ff_parent F4 = ff_parent F" "gs = [] \<longrightarrow> F4 = P"
    "if gs = [] then ff_join_counter F4 = ff_join_counter F + 1
     else ff_join_counter F4 = ff_join_counter F \<and> kids s4 ff (cs @ [hd gs])" by blast
  let ?s = "put_ff ff (F4\<lparr>ff_lock := free_lock\<rparr>) s4"
  let ?P = "if gs = [] then P\<lparr>ff_lock := free_lock\<rparr> else P"
  have k': "kids s4 p ks \<Longrightarrow> kids ?s p ks" for p ks by (rule kids_put_ff [OF _ F4(1)]) simp_all
  have "detach_for_steal w victim d (Fiber fb) s = Some ?s"
    using det s4(1) frame_unlock_put [OF F4(1,2)] by simp
  moreover have "next_fresh ?s" using s4(2) next_fresh_lt [OF s4(2) F4(1)] by (auto simp: next_fresh_def)
  moreover note len
  moreover have "ff_at ?s ?c = Some C" using s4(7) c by simp
  moreover have "ff_at ?s ?g = Some ?P" using s4(6) F4(4) fn inner by (cases "gs = []") auto
  moreover have "\<forall>q. q \<notin> insert ff (set cs) \<and> q < rt_next s \<longrightarrow> ff_at ?s q = ff_at s q" using old by simp
  moreover have "ff_call_stack ?P = ?z" "ff_fiber_self ?P = fb" "ff_join_counter ?P = (if gs = [] then ff_join_counter F - 1 else 0) + 2"
      "ff_parent C = ?g" "\<not> ff_is_call_child C" "ff_fiber_self C = ff_fiber_self F" "ff_call_stack C = NULL"
    using s4(8) L by (simp_all add: new_child_def)
  moreover have "ff_at ?s ff = Some (F4\<lparr>ff_lock := free_lock\<rparr>)" by simp
  moreover have "if gs = [] then ff_join_counter (F4\<lparr>ff_lock := free_lock\<rparr>) = ff_join_counter F + 1
     else ff_join_counter (F4\<lparr>ff_lock := free_lock\<rparr>) = ff_join_counter F \<and> kids ?s ff (cs @ [hd gs])"
    using F4(5) k' by (cases "gs = []") simp_all
  moreover have "dq_at ?s d = Some (x\<lparr>dq_head := dq_head x + 1, dq_frame_ff := ?c\<rparr>)" using s4(3) by simp
  moreover have "wk_at ?s w = Some (k\<lparr>wk_l := (wk_l k)\<lparr>l_next_frame_ff := ?g\<rparr>\<rparr>)" using s4(4) by simp
  moreover have "ff_lock (F4\<lparr>ff_lock := free_lock\<rparr>) = free_lock" "ff_parent (F4\<lparr>ff_lock := free_lock\<rparr>) = ff_parent F"
    using F4(3) by simp_all
  ultimately show ?thesis using s4(9) k' [OF s4(5)] by blast
qed

lemma detach_future_spec:
  assumes w: "w \<noteq> victim" "wk_at s w = Some k" "l_next_frame_ff (wk_l k) = NULL" "frame_ff s w = Some NULL"
    and a: "active_deque s w = Some a" "a \<noteq> d" "dq_at s a = Some y"
    and d: "dq_at s d = Some x" "dq_ltq x (dq_head x) = hd xs" "dq_frame_ff x = ff" "ff \<noteq> NULL"
    and xs: "call_chain s xs" "distinct xs" "\<forall>x\<in>set (tl xs). not_future s x"
    and F: "ff_at s ff = Some F" "ff_lock F = free_lock" "0 < ff_join_counter F" "kids s ff cs" and n: "next_fresh s"
    and fut: "future_mark s (hd xs) = Some True" "dq_fiber_ltq x (dq_fiber_head x) = fib" "fib \<noteq> NULL"
  shows "\<exists>s' gs c L F'. detach_for_steal w victim d fiber s = Some s' \<and> next_fresh s' \<and>
    Suc (length gs) = length xs \<and>
    dq_at s' d = Some (x\<lparr>dq_head := dq_head x + 1, dq_fiber_head := dq_fiber_head x + 1, dq_frame_ff := c\<rparr>) \<and>
    wk_at s' w = Some (k\<lparr>wk_l := (wk_l k)\<lparr>l_next_frame_ff := last (ff # gs)\<rparr>\<rparr>) \<and>
    ff_at s c = None \<and> ff_at s' c = Some (future_child fib) \<and>
    ff_at s' (last (ff # gs)) = Some L \<and> ff_call_stack L = hd xs \<and> ff_fiber_self L = ff_fiber_self F \<and>
    ff_join_counter L = (if gs = [] then ff_join_counter F else 1) \<and> kids s' (last (ff # gs)) (if gs = [] then cs else []) \<and>
    ff_at s' ff = Some F' \<and> ff_lock F' = free_lock \<and> ff_parent F' = ff_parent F \<and> ff_join_counter F' = ff_join_counter F \<and>
    (gs \<noteq> [] \<longrightarrow> kids s' ff (cs @ [hd gs])) \<and>
    (\<forall>q. q \<notin> insert ff (set cs) \<and> q < rt_next s \<longrightarrow> ff_at s' q = ff_at s q)"
proof -
  obtain s3 gs L F3 where
    det: "detach_for_steal w victim d fiber s = (do {
       s \<leftarrow> adopt_loot w victim d (last (ff # gs)) (hd xs) fiber s3; frame_unlock w ff s })"
    and len: "Suc (length gs) = length xs" and n3: "next_fresh s3" "future_mark s3 (hd xs) = future_mark s (hd xs)" "rt_next s \<le> rt_next s3"
    and at3: "dq_at s3 d = Some (x\<lparr>dq_head := dq_head x + 1\<rparr>)" "wk_at s3 w = Some k" "active_deque s3 w = Some a"
    and L: "ff_at s3 (last (ff # gs)) = Some L" "ff_call_stack L = hd xs" "hd xs \<noteq> NULL" "ff_fiber_self L = ff_fiber_self F"
      "ff_join_counter L = (if gs = [] then ff_join_counter F - 1 else 0)" "kids s3 (last (ff # gs)) (if gs = [] then cs else [])"
    and F3: "ff_at s3 ff = Some F3" "ff_lock F3 = held_by w" "ff_parent F3 = ff_parent F" and g0: "last (ff # gs) \<noteq> NULL" and fn: "ff < rt_next s"
    and inner: "gs \<noteq> [] \<longrightarrow> rt_next s \<le> last (ff # gs) \<and> kids s3 ff (cs @ [hd gs]) \<and> ff_join_counter F3 = ff_join_counter F"
    and old3: "\<forall>q. q \<notin> insert ff (set cs) \<and> q < rt_next s \<longrightarrow> ff_at s3 q = ff_at s q"
    using detach_unrolled [OF w(1,2,4) a d xs F n] by blast
  let ?g = "last (ff # gs)" and ?c = "rt_next s3"
  let ?L = "L\<lparr>ff_join_counter := ff_join_counter L + 1\<rparr>"
  have pop: "dq_fiber_ltq (x\<lparr>dq_head := dq_head x + 1\<rparr>) (dq_fiber_head (x\<lparr>dq_head := dq_head x + 1\<rparr>)) = fib" using fut(2) by simp
  obtain s4 where s4: "adopt_loot w victim d ?g (hd xs) fiber s3 = Some s4" "next_fresh s4"
      "dq_at s4 d = Some (x\<lparr>dq_head := dq_head x + 1, dq_fiber_head := dq_fiber_head x + 1, dq_frame_ff := ?c\<rparr>)"
      "wk_at s4 w = Some (k\<lparr>wk_l := (wk_l k)\<lparr>l_next_frame_ff := ?g\<rparr>\<rparr>)" "ff_at s4 ?g = Some ?L" "ff_at s4 ?c = Some (future_child fib)"
      "\<forall>q. q \<noteq> ?g \<and> q \<noteq> ?c \<longrightarrow> ff_at s4 q = ff_at s3 q"
    using adopt_loot_future [OF L(1,2) n3(1) L(3) n3(2) [unfolded fut(1)] w(1) at3(2) w(3) at3(1) pop fut(3) at3(3) g0, of fiber] by auto
  have c: "?c \<noteq> ff" "?c \<noteq> ?g" using fn n3(3) next_fresh_lt [OF n3(1) L(1)] by auto
  define F4 where "F4 = (if gs = [] then ?L else F3)"
  have F4: "ff_at s4 ff = Some F4" "ff_lock F4 = held_by w" "ff_parent F4 = ff_parent F" "ff_join_counter F4 = ff_join_counter F"
    using s4(5,7) F3 L(1,5) c(1) inner fn by (cases "gs = []"; auto simp: F4_def)+
  let ?s = "put_ff ff (F4\<lparr>ff_lock := free_lock\<rparr>) s4"
  have q4: "ff_at s4 q = (if q = ?g then Some ?L else ff_at s3 q)" if "q < ?c" for q using that s4(5,7) by auto
  have same: "same_links s3 ?s q" if "q < ?c" for q
    using q4 [OF that] L(1) F3(1) by (cases "gs = []"; cases "q = ?g") (auto simp: same_links_def F4_def)
  have k: "kids ?s p ks" if kp: "kids s3 p ks" for p ks
  proof -
    have "\<forall>q\<in>set ks. same_links s3 ?s q" using same kids_lt [OF n3(1) kp] by blast
    moreover obtain P where P: "ff_at s3 p = Some P" "ff_rightmost_child P = last_or NULL ks" using kp by (auto simp: kids_def)
    moreover have "\<exists>P'. ff_at ?s p = Some P' \<and> ff_rightmost_child P' = ff_rightmost_child P"
      using P(1) q4 [OF next_fresh_lt [OF n3(1) P(1)]] L(1) F3(1) by (cases "gs = []"; cases "p = ?g") (auto simp: F4_def)
    ultimately show ?thesis by (intro kids_same_links [OF kp]) auto
  qed
  have "detach_for_steal w victim d fiber s = Some ?s" using det s4(1) frame_unlock_put [OF F4(1,2)] by simp
  moreover have "next_fresh ?s" using s4(2) next_fresh_lt [OF s4(2) F4(1)] by (auto simp: next_fresh_def)
  moreover have "ff_at s ?c = None" using n n3(3) by (simp add: next_fresh_def)
  moreover have "ff_at ?s ?g = Some (if gs = [] then ?L\<lparr>ff_lock := free_lock\<rparr> else ?L)"
    using s4(5) inner fn by (cases "gs = []") (auto simp: F4_def)
  moreover have "\<forall>q. q \<notin> insert ff (set cs) \<and> q < rt_next s \<longrightarrow> ff_at ?s q = ff_at s q"
    using old3 s4(7) inner n3(3) by (cases "gs = []") auto
  moreover have "gs \<noteq> [] \<longrightarrow> kids ?s ff (cs @ [hd gs])" using inner k by blast
  ultimately show ?thesis using s4(3,4,6) c k [OF L(6)] L(2,4,5) F4(3,4) len
    by (intro exI [of _ ?s] exI [of _ gs] exI [of _ ?c] exI [of _ "if gs = [] then ?L\<lparr>ff_lock := free_lock\<rparr> else ?L"]
      exI [of _ "F4\<lparr>ff_lock := free_lock\<rparr>"] conjI) simp_all
qed

section \<open>Properties\<close>

text \<open>C23. A suspended deque is made resumable exactly once and becomes available to thieves: if it is
  in its worker's pool of suspended deques it moves to that worker's resumable pool under the
  worker's lock; if no worker holds it, it goes to the resumable pool of one of the two workers drawn
  at random. In both cases no assertion fails, the pool invariant holds, the deque is last in exactly
  one resumable pool, every other pool keeps the rest of its deques, and the lock is free again.\<close>

theorem make_resumable_delivers:
  assumes "pool_inv s" "quiet_workers s" "w \<in> set (g_workers (rt_g s))" "d \<noteq> NULL" "dq_at s d = Some x"
    "\<not> dq_resumable x" "fiber_ready d s = Some True"
    "dq_worker x \<in> set (g_workers (rt_g s)) \<and> d \<in> set (pool_list s (dq_worker x, Suspended)) \<or>
     dq_worker x = NULL \<and> dq_self x = INVALID_DEQUE_INDEX \<and> (\<forall>r. d \<notin> set (pool_list s r))"
  shows "\<exists>s' v. make_resumable w d s = Some s' \<and> pool_inv s' \<and> v \<in> set (g_workers (rt_g s)) \<and>
    pool_list s' (v, Resumable) = pool_list s (v, Resumable) @ [d] \<and>
    (\<forall>r. r \<noteq> (v, Resumable) \<longrightarrow> mset (pool_list s' r) = mset (remove1 d (pool_list s r))) \<and>
    lock_of s' v = Some free_lock"
proof (cases "dq_worker x = NULL")
  case True
  then have out: "\<And>r. d \<notin> set (pool_list s r)" "dq_self x = INVALID_DEQUE_INDEX"
    using assms(2,8) by (auto simp: quiet_workers_def list_all_iff)
  from make_resumable_free_spec [OF assms(1) out(1) assms(4,5) out(2) assms(2,3)] obtain s' v where
    "make_resumable_free w d s = Some s'" "pool_inv s'" "v \<in> set (g_workers (rt_g s))"
    "pool_list s' (v, Resumable) = pool_list s (v, Resumable) @ [d]"
    "\<forall>r. r \<noteq> (v, Resumable) \<longrightarrow> pool_list s' r = pool_list s r" "lock_of s' v = Some free_lock" by blast
  moreover from this(1) have "make_resumable w d s = Some s'"
    using assms(5-7) True by (simp add: make_resumable_def spin_until_def)
  ultimately show ?thesis using out(1) by (intro exI [of _ s'] exI [of _ v]) (simp add: remove1_idem)
next
  case False
  let ?v = "dq_worker x"
  have d: "?v \<in> set (g_workers (rt_g s))" "d \<in> set (pool_list s (?v, Suspended))" using False assms(8) by auto
  have nn: "w \<noteq> NULL" "?v \<noteq> NULL" "lock_of s ?v = Some free_lock"
    using assms(2,3) d(1) by (auto simp: quiet_workers_def list_all_iff)
  then obtain l where l: "l_at s ?v = Some l" "l_lock l = free_lock" by (auto simp: lock_of_def)
  from make_resumable_held_spec [OF assms(1) d(2) nn(1,2) l] obtain s' where
    s': "make_resumable_held w ?v d s = Some (True, s')" "pool_inv s'"
    "add_mset d (mset (pool_list s' (?v, Suspended))) = mset (pool_list s (?v, Suspended))"
    "pool_list s' (?v, Resumable) = pool_list s (?v, Resumable) @ [d]"
    "\<And>r. fst r \<noteq> ?v \<Longrightarrow> pool_list s' r = pool_list s r" "lock_of s' ?v = Some free_lock" by blast
  have "make_resumable w d s = Some s'"
    using assms(5-7) False s'(1) by (simp add: make_resumable_def spin_until_def)
  moreover have "mset (pool_list s' r) = mset (remove1 d (pool_list s r))" if r: "r \<noteq> (?v, Resumable)" for r
  proof (cases "r = (?v, Suspended)")
    case True
    then show ?thesis using mset_remove1_add [OF s'(3)] by simp
  next
    case False
    then have "fst r \<noteq> ?v" using r by (cases r; cases "snd r") auto
    moreover have "d \<notin> set (pool_list s r)" using pool_inv_disjoint [OF assms(1) d(2)] False by blast
    ultimately show ?thesis using s'(5) by (simp add: remove1_idem)
  qed
  ultimately show ?thesis using s' d(1) by blast
qed

theorem make_resumable_delivers_witness:
  "\<exists>s'. make_resumable 1 7 resume_example = Some s' \<and> pool_inv s' \<and> pool_list s' (1, Resumable) = [7] \<and>
    mset (pool_list s' (1, Suspended)) = {#8#}"
proof -
  have g: "set (g_workers (rt_g resume_example)) = {1}" by (simp add: resume_example_def)
  have x: "\<not> dq_resumable ((empty_deque 8)\<lparr>dq_self := 0, dq_worker := 1, dq_fiber := 50\<rparr>)"
    "dq_worker ((empty_deque 8)\<lparr>dq_self := 0, dq_worker := 1, dq_fiber := 50\<rparr>) = 1" by (simp_all add: empty_deque_def)
  have "\<exists>s' v. make_resumable 1 7 resume_example = Some s' \<and> pool_inv s' \<and> v \<in> {1} \<and>
    pool_list s' (v, Resumable) = pool_list resume_example (v, Resumable) @ [7] \<and>
    (\<forall>r. r \<noteq> (v, Resumable) \<longrightarrow> mset (pool_list s' r) = mset (remove1 7 (pool_list resume_example r))) \<and>
    lock_of s' v = Some free_lock"
    using make_resumable_delivers [OF resume_example_ok(1,2) _ _ resume_example_dq(1) x(1) resume_example_ok(3), of 1]
    unfolding g x(2) by (simp add: resume_example_list)
  then obtain s' where s': "make_resumable 1 7 resume_example = Some s'" "pool_inv s'"
    "pool_list s' (1, Resumable) = pool_list resume_example (1, Resumable) @ [7]"
    "\<forall>r. r \<noteq> (1, Resumable) \<longrightarrow> mset (pool_list s' r) = mset (remove1 7 (pool_list resume_example r))" by blast
  from s'(4) have "mset (pool_list s' (1, Suspended)) = mset (remove1 7 (pool_list resume_example (1, Suspended)))" by blast
  with s'(1-3) show ?thesis by (intro exI [of _ s']) (simp add: resume_example_list)
qed

text \<open>Worker 2, whose deque 6 is empty, steals from deque 5 of worker 1, which runs full frame 10.\<close>

definition steal_local :: local_state where
  "steal_local = example_local\<lparr>l_core_deque := 6, l_frame_ff := 6\<rparr>"

definition steal_deque :: deque where
  "steal_deque = (empty_deque 8)\<lparr>dq_ltq := (\<lambda>_. NULL)(0 := 20), dq_tail := 1, dq_frame_ff := 10\<rparr>"

definition steal_example :: rts where
  "steal_example = (rts_with_worker 2 steal_local)\<lparr>
     rt_sf := [20 \<mapsto> loot_frame 0 21, 21 \<mapsto> loot_frame CILK_FRAME_DETACHED 30],
     rt_ff := [10 \<mapsto> (new_full_frame 0)\<lparr>ff_fiber_self := 77, ff_join_counter := 1\<rparr>],
     rt_dq := [5 \<mapsto> steal_deque, 6 \<mapsto> empty_deque 8]\<rparr>"

text \<open>C22. A steal of a frame that is not spawning a future does to the spawn tree what it should: the oldest frame of the
  victim's deque is taken;
  its call stack becomes a chain of full frames below the full frame ff that the deque ran, one per
  stack frame, and the youngest, the loot, is what the thief runs next, on the new fiber; the deque
  runs a new spawned child of the loot, its last child, which keeps the old fiber; every join counter
  counts the children and the workers of its frame; frame ff keeps its parent and its earlier children, its
  lock is free again, and no other old frame changes. No assertion fails. (A frame that is spawning a future is stolen
  in another way, see the last property of this theory.)\<close>

theorem steal_splits_frame:
  assumes "w \<noteq> victim" "wk_at s w = Some k" "l_next_frame_ff (wk_l k) = NULL" "frame_ff s w = Some NULL"
    and "active_deque s w = Some a" "a \<noteq> d" "dq_at s a = Some y"
    and "dq_at s d = Some x" "dq_ltq x (dq_head x) = hd xs" "dq_frame_ff x = ff" "ff \<noteq> NULL"
    and "call_chain s xs" "distinct xs" "\<forall>x\<in>set xs. not_future s x"
    and "ff_at s ff = Some F" "ff_lock F = free_lock" "0 < ff_join_counter F" "kids s ff cs" "next_fresh s"
  shows "\<exists>s' gs c C L F'. detach_for_steal w victim d (Fiber fb) s = Some s' \<and> next_fresh s' \<and>
    Suc (length gs) = length xs \<and> dq_at s' d = Some (x\<lparr>dq_head := dq_head x + 1, dq_frame_ff := c\<rparr>) \<and>
    wk_at s' w = Some (k\<lparr>wk_l := (wk_l k)\<lparr>l_next_frame_ff := last (ff # gs)\<rparr>\<rparr>) \<and>
    ff_at s' c = Some C \<and> ff_parent C = last (ff # gs) \<and> \<not> ff_is_call_child C \<and>
    ff_fiber_self C = ff_fiber_self F \<and> ff_join_counter C = 1 \<and> ff_call_stack C = NULL \<and>
    ff_at s' (last (ff # gs)) = Some L \<and> ff_call_stack L = hd xs \<and> ff_fiber_self L = fb \<and>
    ff_join_counter L = (if gs = [] then ff_join_counter F - 1 else 0) + 2 \<and>
    kids s' (last (ff # gs)) ((if gs = [] then cs else []) @ [c]) \<and>
    ff_at s' ff = Some F' \<and> ff_lock F' = free_lock \<and> ff_parent F' = ff_parent F \<and>
    (if gs = [] then ff_join_counter F' = ff_join_counter F + 1
     else ff_join_counter F' = ff_join_counter F \<and> kids s' ff (cs @ [hd gs])) \<and>
    (\<forall>q. q \<notin> insert ff (set cs) \<and> q < rt_next s \<longrightarrow> ff_at s' q = ff_at s q)"
  by (rule detach_for_steal_spec [OF assms])

theorem steal_splits_frame_witness:
  "\<exists>s' g c C L. detach_for_steal 2 1 5 (Fiber 88) steal_example = Some s' \<and>
    dq_at s' 5 = Some (steal_deque\<lparr>dq_head := 1, dq_frame_ff := c\<rparr>) \<and>
    ff_at s' c = Some C \<and> ff_parent C = g \<and> ff_fiber_self C = 77 \<and> kids s' 10 [g] \<and> kids s' g [c] \<and>
    ff_at s' g = Some L \<and> ff_call_stack L = 20 \<and> ff_fiber_self L = 88 \<and> ff_join_counter L = 2"
proof -
  let ?F = "(new_full_frame 0)\<lparr>ff_fiber_self := 77, ff_join_counter := 1\<rparr>"
  have sf: "sf_at steal_example 20 = Some (loot_frame 0 21)"
      "sf_at steal_example 21 = Some (loot_frame CILK_FRAME_DETACHED 30)"
    by (simp_all add: steal_example_def sf_at_def)
  have cc: "call_chain steal_example [20, 21]" "distinct [20, 21 :: ptr]" "\<forall>x\<in>set [20, 21]. not_future steal_example x"
    by (simp_all add: sf loot_frame_def flag_set_def unroll_mask_def frame_flag_defs not_future_at)
  have wk: "wk_at steal_example 2 = Some (example_worker steal_local)"
    by (simp add: steal_example_def wk_at_def rts_with_worker_def)
  have dq: "dq_at steal_example 5 = Some steal_deque" "dq_at steal_example 6 = Some (empty_deque 8)"
    by (simp_all add: steal_example_def dq_at_def)
  have ff: "ff_at steal_example 10 = Some ?F" by (simp add: steal_example_def ff_at_def)
  have loc: "l_next_frame_ff (wk_l (example_worker steal_local)) = NULL" "frame_ff steal_example 2 = Some NULL"
      "active_deque steal_example 2 = Some 6"
    using l_at_wk [OF wk] dq(2)
    by (simp_all add: frame_ff_def active_deque_def example_worker_def steal_local_def example_local_def empty_deque_def)
  have q: "dq_ltq steal_deque (dq_head steal_deque) = hd [20, 21]" "dq_frame_ff steal_deque = 10"
    by (simp_all add: steal_deque_def empty_deque_def)
  have F: "ff_lock ?F = free_lock" "0 < ff_join_counter ?F" "kids steal_example 10 []" "next_fresh steal_example"
    by (simp_all add: new_full_frame_def mutex_init_def free_lock_def kids_def ff next_fresh_def)
       (simp_all add: steal_example_def ff_at_def rts_with_worker_def)
  have neq: "(2 :: ptr) \<noteq> 1" "(6 :: ptr) \<noteq> 5" "(10 :: ptr) \<noteq> NULL" by simp_all
  from steal_splits_frame [OF neq(1) wk loc neq(2) dq(2,1) q neq(3) cc ff F, of 88] obtain s' gs c C L where
    s': "detach_for_steal 2 1 5 (Fiber 88) steal_example = Some s'" "Suc (length gs) = length [20, 21 :: ptr]"
    "dq_at s' 5 = Some (steal_deque\<lparr>dq_head := dq_head steal_deque + 1, dq_frame_ff := c\<rparr>)"
    "ff_at s' c = Some C" "ff_parent C = last (10 # gs)" "ff_fiber_self C = ff_fiber_self ?F"
    "ff_at s' (last (10 # gs)) = Some L" "ff_call_stack L = hd [20, 21]" "ff_fiber_self L = 88"
    "ff_join_counter L = (if gs = [] then ff_join_counter ?F - 1 else 0) + 2"
    "kids s' (last (10 # gs)) ((if gs = [] then [] else []) @ [c])"
    "gs \<noteq> [] \<longrightarrow> kids s' 10 ([] @ [hd gs])" by (auto split: if_splits)
  then obtain g where "gs = [g]" by (cases gs) auto
  with s' show ?thesis by (auto simp: steal_deque_def empty_deque_def)
qed

text \<open>C24. A steal of a frame that is spawning a future: the call stack becomes a chain of full frames as in any steal and the
  youngest, the loot, is what the thief runs next, but it stays on its own fiber and the future's frame does not become its
  child: the deque goes on with a new full frame without a parent, on the oldest of the fibers that the deque keeps for
  futures. So the sync of the loot will not wait for the future: it has the children it had, and its join counter
  counts no child more. No assertion fails, whatever fiber the thief offers, and no other old frame changes.\<close>

theorem steal_future_parent:
  assumes "w \<noteq> victim" "wk_at s w = Some k" "l_next_frame_ff (wk_l k) = NULL" "frame_ff s w = Some NULL"
    and "active_deque s w = Some a" "a \<noteq> d" "dq_at s a = Some y"
    and "dq_at s d = Some x" "dq_ltq x (dq_head x) = hd xs" "dq_frame_ff x = ff" "ff \<noteq> NULL"
    and "call_chain s xs" "distinct xs" "\<forall>x\<in>set (tl xs). not_future s x"
    and "ff_at s ff = Some F" "ff_lock F = free_lock" "0 < ff_join_counter F" "kids s ff cs" "next_fresh s"
    and "future_mark s (hd xs) = Some True" "dq_fiber_ltq x (dq_fiber_head x) = fib" "fib \<noteq> NULL"
  shows "\<exists>s' gs c L F'. detach_for_steal w victim d fiber s = Some s' \<and> next_fresh s' \<and>
    Suc (length gs) = length xs \<and>
    dq_at s' d = Some (x\<lparr>dq_head := dq_head x + 1, dq_fiber_head := dq_fiber_head x + 1, dq_frame_ff := c\<rparr>) \<and>
    wk_at s' w = Some (k\<lparr>wk_l := (wk_l k)\<lparr>l_next_frame_ff := last (ff # gs)\<rparr>\<rparr>) \<and>
    ff_at s c = None \<and> ff_at s' c = Some (future_child fib) \<and>
    ff_at s' (last (ff # gs)) = Some L \<and> ff_call_stack L = hd xs \<and> ff_fiber_self L = ff_fiber_self F \<and>
    ff_join_counter L = (if gs = [] then ff_join_counter F else 1) \<and> kids s' (last (ff # gs)) (if gs = [] then cs else []) \<and>
    ff_at s' ff = Some F' \<and> ff_lock F' = free_lock \<and> ff_parent F' = ff_parent F \<and> ff_join_counter F' = ff_join_counter F \<and>
    (gs \<noteq> [] \<longrightarrow> kids s' ff (cs @ [hd gs])) \<and>
    (\<forall>q. q \<notin> insert ff (set cs) \<and> q < rt_next s \<longrightarrow> ff_at s' q = ff_at s q)"
  by (rule detach_future_spec [OF assms])

definition future_deque :: deque where
  "future_deque = steal_deque\<lparr>dq_fiber_ltq := (\<lambda>_. NULL)(0 := 90), dq_fiber_tail := 1, dq_fiber_head := 0\<rparr>"

definition future_steal_example :: rts where
  "future_steal_example = steal_example\<lparr>rt_dq := [5 \<mapsto> future_deque, 6 \<mapsto> empty_deque 8],
     rt_sf := [20 \<mapsto> loot_frame CILK_FRAME_FUTURE_PARENT 21, 21 \<mapsto> loot_frame CILK_FRAME_DETACHED 30]\<rparr>"

theorem steal_future_parent_witness:
  "\<exists>s' g c L. detach_for_steal 2 1 5 (Fiber 88) future_steal_example = Some s' \<and>
    dq_at s' 5 = Some (future_deque\<lparr>dq_head := 1, dq_fiber_head := 1, dq_frame_ff := c\<rparr>) \<and>
    ff_at s' c = Some (future_child 90) \<and> ff_at s' g = Some L \<and> ff_call_stack L = 20 \<and> ff_fiber_self L = 77 \<and>
    ff_join_counter L = 1 \<and> kids s' 10 [g] \<and> kids s' g []"
proof -
  let ?s = future_steal_example and ?F = "(new_full_frame 0)\<lparr>ff_fiber_self := 77, ff_join_counter := 1\<rparr>"
  have sf: "sf_at ?s 20 = Some (loot_frame CILK_FRAME_FUTURE_PARENT 21)" "sf_at ?s 21 = Some (loot_frame CILK_FRAME_DETACHED 30)"
    by (simp_all add: future_steal_example_def sf_at_def)
  have cc: "call_chain ?s [20, 21]" "distinct [20, 21 :: ptr]" "\<forall>x\<in>set (tl [20, 21]). not_future ?s x"
      "future_mark ?s (hd [20, 21]) = Some True"
    by (simp_all add: sf loot_frame_def flag_set_def unroll_mask_def frame_flag_defs not_future_at future_mark_def)
  have wk: "wk_at ?s 2 = Some (example_worker steal_local)"
    by (simp add: future_steal_example_def steal_example_def wk_at_def rts_with_worker_def)
  have dq: "dq_at ?s 5 = Some future_deque" "dq_at ?s 6 = Some (empty_deque 8)"
    by (simp_all add: future_steal_example_def dq_at_def)
  have ff: "ff_at ?s 10 = Some ?F" by (simp add: future_steal_example_def steal_example_def ff_at_def)
  have loc: "l_next_frame_ff (wk_l (example_worker steal_local)) = NULL" "frame_ff ?s 2 = Some NULL" "active_deque ?s 2 = Some 6"
    using l_at_wk [OF wk] dq(2)
    by (simp_all add: frame_ff_def active_deque_def example_worker_def steal_local_def example_local_def empty_deque_def)
  have q: "dq_ltq future_deque (dq_head future_deque) = hd [20, 21]" "dq_frame_ff future_deque = 10"
      "dq_fiber_ltq future_deque (dq_fiber_head future_deque) = 90" "dq_head future_deque = 0" "dq_fiber_head future_deque = 0"
    by (simp_all add: future_deque_def steal_deque_def empty_deque_def)
  have F: "ff_lock ?F = free_lock" "0 < ff_join_counter ?F" "kids ?s 10 []" "next_fresh ?s"
    by (simp_all add: new_full_frame_def mutex_init_def free_lock_def kids_def ff next_fresh_def)
       (simp_all add: future_steal_example_def steal_example_def ff_at_def rts_with_worker_def)
  have neq: "(2 :: ptr) \<noteq> 1" "(6 :: ptr) \<noteq> 5" "(10 :: ptr) \<noteq> NULL" "(90 :: ptr) \<noteq> NULL" by simp_all
  from steal_future_parent [OF neq(1) wk loc neq(2) dq(2,1) q(1,2) neq(3) cc(1-3) ff F cc(4) q(3) neq(4), of "Fiber 88"] obtain s' gs c L where
    s': "detach_for_steal 2 1 5 (Fiber 88) ?s = Some s'" "Suc (length gs) = length [20, 21 :: ptr]"
    "dq_at s' 5 = Some (future_deque\<lparr>dq_head := 1, dq_fiber_head := 1, dq_frame_ff := c\<rparr>)"
    "ff_at s' c = Some (future_child 90)" "ff_at s' (last (10 # gs)) = Some L" "ff_call_stack L = hd [20, 21]"
    "ff_fiber_self L = ff_fiber_self ?F" "ff_join_counter L = (if gs = [] then ff_join_counter ?F else 1)"
    "kids s' (last (10 # gs)) (if gs = [] then [] else [])" "gs \<noteq> [] \<longrightarrow> kids s' 10 ([] @ [hd gs])" by (auto simp: q)
  then obtain g where "gs = [g]" by (cases gs) auto
  with s' show ?thesis by auto
qed

end
