(* ===== verification/Reducer_Map.thy ===== *)
theory Reducer_Map
  imports Rt_State
begin

text \<open>
  Merging two reducer maps, \<^verbatim>\<open>cilkred_map::merge\<close> and \<^verbatim>\<open>merge_reducer_maps\<close> of \<^verbatim>\<open>reducer_impl.cpp\<close>. The
  reduce functions are taken to run to completion without spawning or updating reducers of their
  own, so the worker stays the same.
\<close>

datatype merge_kind = Merge_Into_Left | Merge_Into_Right

definition lookup_view :: "nat \<Rightarrow> (nat \<times> bool \<times> view) list \<Rightarrow> (bool \<times> view) option" where
  "lookup_view k es = map_of es k"

fun update_view :: "nat \<Rightarrow> bool \<times> view \<Rightarrow> (nat \<times> bool \<times> view) list \<Rightarrow> (nat \<times> bool \<times> view) list" where
  "update_view k v [] = []"
| "update_view k v ((j, u) # es) = (if j = k then (j, v) # es else (j, u) # update_view k v es)"

text \<open>
  The loop over the elements of the other map. A missing element of the leftmost map is first created
  with the leftmost view of the reducer, the empty word, unless the other map has that very view; a view whose key
  this map does not have moves over. The views of a key in both maps are reduced with the left one on the left; merging
  into the right map, the element takes over the view object of the left map.
\<close>

fun merge_elems :: "bool \<Rightarrow> merge_kind \<Rightarrow> (nat \<times> bool \<times> view) list \<Rightarrow> (nat \<times> bool \<times> view) list \<Rightarrow> (nat \<times> bool \<times> view) list" where
  "merge_elems leftmost kind es [] = es"
| "merge_elems leftmost kind es ((k, other_home, other_view) # os) =
     (let es = (if lookup_view k es = None \<and> leftmost \<and> \<not> other_home then es @ [(k, True, [])] else es) in
      case lookup_view k es of
        None \<Rightarrow> merge_elems leftmost kind (es @ [(k, other_home, other_view)]) os
      | Some (home, this_view) \<Rightarrow> merge_elems leftmost kind (update_view k
          (case kind of Merge_Into_Left \<Rightarrow> (home, this_view @ other_view)
           | Merge_Into_Right \<Rightarrow> (other_home, other_view @ this_view)) es) os)"

definition merge_map :: "merge_kind \<Rightarrow> reducer_map \<Rightarrow> reducer_map \<Rightarrow> reducer_map proc" where
  "merge_map kind this other = do {
     assert_c (\<not> rm_leftmost other);
     Some \<lparr>rm_leftmost = rm_leftmost this \<or> rm_leftmost other,
           rm_elems = merge_elems (rm_leftmost this) kind (rm_elems this) (rm_elems other)\<rparr> }"

definition nelem :: "reducer_map \<Rightarrow> nat" where
  "nelem m = length (rm_elems m)"

definition rm_put :: "ptr \<Rightarrow> reducer_map \<Rightarrow> rts \<Rightarrow> rts" where
  "rm_put p m s = s\<lparr>rt_rm := (rt_rm s)(p \<mapsto> m)\<rparr>"

definition destroy_reducer_map :: "ptr \<Rightarrow> rts \<Rightarrow> rts" where
  "destroy_reducer_map p s = s\<lparr>rt_rm := (rt_rm s)(p := None)\<rparr>"

definition merge_reducer_maps :: "ptr \<Rightarrow> ptr \<Rightarrow> rts \<Rightarrow> (ptr \<times> rts) proc" where
  "merge_reducer_maps left_map right_map s =
    (if left_map = NULL then Some (right_map, s)
     else if right_map = NULL then Some (left_map, s)
     else do {
       l \<leftarrow> rt_rm s left_map;
       r \<leftarrow> rt_rm s right_map;
       (if rm_leftmost l \<or> nelem l > nelem r then do {
          m \<leftarrow> merge_map Merge_Into_Left l r;
          Some (left_map, destroy_reducer_map right_map (rm_put left_map m s)) }
        else do {
          m \<leftarrow> merge_map Merge_Into_Right r l;
          Some (right_map, destroy_reducer_map left_map (rm_put right_map m s)) }) })"

section \<open>Views\<close>

text \<open>The view of a key, empty if there is none; the null map has no views.\<close>

definition view_of :: "reducer_map \<Rightarrow> nat \<Rightarrow> view" where
  "view_of m k = (case lookup_view k (rm_elems m) of None \<Rightarrow> [] | Some (home, v) \<Rightarrow> v)"

definition map_view :: "rts \<Rightarrow> ptr \<Rightarrow> nat \<Rightarrow> view" where
  "map_view s p k = (if p = NULL then [] else case rt_rm s p of None \<Rightarrow> [] | Some m \<Rightarrow> view_of m k)"

lemma lookup_update [simp]:
  "lookup_view j (update_view k v es) = (if j = k \<and> lookup_view k es \<noteq> None then Some v else lookup_view j es)"
  by (induction es) (auto simp: lookup_view_def)

lemma lookup_append [simp]:
  "lookup_view j (es @ [(k, v)]) = (case lookup_view j es of None \<Rightarrow> if j = k then Some v else None | Some u \<Rightarrow> Some u)"
  by (simp add: lookup_view_def map_add_def split: option.split)

definition the_view :: "(bool \<times> view) option \<Rightarrow> view" where
  "the_view v = (case v of None \<Rightarrow> [] | Some (home, v) \<Rightarrow> v)"

lemma the_view_simps [simp]: "the_view None = []" "the_view (Some v) = snd v"
  by (simp_all add: the_view_def split: prod.split)

lemma merge_elems_view:
  "distinct (map fst os) \<Longrightarrow> the_view (lookup_view j (merge_elems lm kind es os)) =
    (case kind of Merge_Into_Left \<Rightarrow> the_view (lookup_view j es) @ the_view (lookup_view j os)
     | Merge_Into_Right \<Rightarrow> the_view (lookup_view j os) @ the_view (lookup_view j es))"
proof (induction lm kind es os rule: merge_elems.induct)
  case (1 lm kind es)
  then show ?case by (cases kind) (simp_all add: lookup_view_def)
next
  case (2 lm kind es k h v os)
  have nk: "lookup_view k os = None"
    using "2.prems" by (simp add: lookup_view_def map_of_eq_None_iff)
  have c: "lookup_view j ((k, h, v) # os) = (if j = k then Some (h, v) else lookup_view j os)" by (simp add: lookup_view_def)
  have d: "distinct (map fst os)" using "2.prems" by simp
  show ?case
  proof (cases "lookup_view k es")
    case None
    then show ?thesis using "2.IH"(1) [OF refl _ d] "2.IH"(2) [OF refl _ refl d] nk c
      by (cases "lm \<and> \<not> h"; cases kind) (auto split: option.splits)
  next
    case (Some u)
    obtain g w where u: "u = (g, w)" by (cases u)
    from Some show ?thesis using "2.IH"(2) [OF refl _ refl d, of g w] nk c u by (cases kind) auto
  qed
qed

definition wf_map :: "reducer_map \<Rightarrow> bool" where
  "wf_map m \<longleftrightarrow> distinct (map fst (rm_elems m))"

lemma fst_update [simp]: "map fst (update_view k v es) = map fst es"
  by (induction es) auto

lemma lookup_None: "lookup_view k es = None \<longleftrightarrow> k \<notin> set (map fst es)"
  by (simp add: lookup_view_def map_of_eq_None_iff image_image)

lemma merge_elems_distinct: "distinct (map fst es) \<Longrightarrow> distinct (map fst (merge_elems lm kind es os))"
proof (induction lm kind es os rule: merge_elems.induct)
  case (2 lm kind es k h v os)
  show ?case
  proof (cases "lookup_view k es")
    case None
    then have "distinct (map fst (es @ [(k, u)]))" for u using "2.prems" lookup_None [of k es] by simp
    then show ?thesis using "2.IH"(1) [OF refl] "2.IH"(2) [OF refl _ refl, of True "[]"] "2.prems" None
      by (cases lm; cases h; cases kind) auto
  next
    case (Some u)
    then show ?thesis using "2.IH"(2) [OF refl _ refl] "2.prems" by (cases u) simp
  qed
qed simp

lemma merge_map_view:
  assumes "merge_map kind this other = Some m" "wf_map this" "wf_map other"
  shows "wf_map m \<and> view_of m k = (case kind of Merge_Into_Left \<Rightarrow> view_of this k @ view_of other k
    | Merge_Into_Right \<Rightarrow> view_of other k @ view_of this k)"
  using assms merge_elems_view [of "rm_elems other" k] merge_elems_distinct
  by (cases kind) (auto simp: merge_map_def wf_map_def view_of_def the_view_def [symmetric])

text \<open>The map of a strand that is not the first one: absent, or well formed and not the leftmost.\<close>

definition inner_map :: "rts \<Rightarrow> ptr \<Rightarrow> bool" where
  "inner_map s p \<longleftrightarrow> p = NULL \<or> (\<exists>m. rt_rm s p = Some m \<and> wf_map m \<and> \<not> rm_leftmost m)"

definition any_map :: "rts \<Rightarrow> ptr \<Rightarrow> bool" where
  "any_map s p \<longleftrightarrow> p = NULL \<or> (\<exists>m. rt_rm s p = Some m \<and> wf_map m)"

text \<open>A merge of two maps: the result is one of the two, the other one is gone, and every view is
  the concatenation of the two, left first.\<close>

definition merged :: "rts \<Rightarrow> ptr \<Rightarrow> ptr \<Rightarrow> ptr \<Rightarrow> rts \<Rightarrow> bool" where
  "merged s l r p s' \<longleftrightarrow> (p = l \<or> p = r) \<and> (l \<noteq> NULL \<or> r \<noteq> NULL \<longrightarrow> p \<noteq> NULL) \<and>
     (\<forall>k. map_view s' p k = map_view s l k @ map_view s r k) \<and>
     (\<forall>q. q \<noteq> l \<and> q \<noteq> r \<longrightarrow> rt_rm s' q = rt_rm s q) \<and> s' = s\<lparr>rt_rm := rt_rm s'\<rparr> \<and>
     any_map s' p \<and> (inner_map s l \<and> inner_map s r \<longrightarrow> inner_map s' p)"

lemma merge_reducer_maps_spec:
  assumes l: "any_map s l" and r: "any_map s r" "l = NULL \<or> inner_map s r" and ne: "l = NULL \<or> r = NULL \<or> l \<noteq> r"
  shows "\<exists>p s'. merge_reducer_maps l r s = Some (p, s') \<and> merged s l r p s'"
proof (cases "l = NULL \<or> r = NULL")
  case True
  then show ?thesis using l r
    by (auto simp: merge_reducer_maps_def merged_def map_view_def)
next
  case False
  then obtain x y where x: "rt_rm s l = Some x" "wf_map x" and y: "rt_rm s r = Some y" "wf_map y" "\<not> rm_leftmost y"
    using l r by (auto simp: any_map_def inner_map_def)
  have lr: "l \<noteq> r" using ne False by blast
  show ?thesis
  proof (cases "rm_leftmost x \<or> nelem x > nelem y")
    case True
    obtain m where m: "merge_map Merge_Into_Left x y = Some m" "rm_leftmost m = rm_leftmost x"
      using y(3) by (simp add: merge_map_def)
    let ?s = "destroy_reducer_map r (rm_put l m s)"
    have v: "wf_map m" "\<And>k. view_of m k = view_of x k @ view_of y k"
      using merge_map_view [OF m(1) x(2) y(2)] by simp_all
    have "merge_reducer_maps l r s = Some (l, ?s)"
      using False x y m True by (simp add: merge_reducer_maps_def)
    moreover have "merged s l r l ?s" using False x y lr m(2) v
      by (simp add: merged_def map_view_def destroy_reducer_map_def rm_put_def any_map_def inner_map_def)
    ultimately show ?thesis by blast
  next
    case small: False
    obtain m where m: "merge_map Merge_Into_Right y x = Some m" "\<not> rm_leftmost m"
      using y(3) small by (simp add: merge_map_def)
    let ?s = "destroy_reducer_map l (rm_put r m s)"
    have v: "wf_map m" "\<And>k. view_of m k = view_of x k @ view_of y k"
      using merge_map_view [OF m(1) y(2) x(2)] by simp_all
    have "merge_reducer_maps l r s = Some (r, ?s)"
      using False x y m small by (simp add: merge_reducer_maps_def)
    moreover have "merged s l r r ?s" using False x y lr m(2) v
      by (simp add: merged_def map_view_def destroy_reducer_map_def rm_put_def any_map_def inner_map_def)
    ultimately show ?thesis by blast
  qed
qed

section \<open>Properties\<close>

definition merge_example :: rts where
  "merge_example = (rts_with_worker 1 example_local)\<lparr>rt_rm := [30 \<mapsto> \<lparr>rm_leftmost = True, rm_elems = [(7, True, [1])]\<rparr>,
     31 \<mapsto> \<lparr>rm_leftmost = False, rm_elems = [(8, False, [3]), (7, False, [2])]\<rparr>]\<rparr>"

text \<open>C25. Merging a left and a right map always succeeds, whichever of the two the code keeps as the target: a null map is the
  neutral element, the survivor is one of the two, it has for each reducer the left views followed by the right ones,
  other maps stay, the result is well formed, and it is the leftmost map only if one of the two was.\<close>

theorem merge_reducer_maps_serial:
  assumes "any_map s l" "any_map s r" "l = NULL \<or> inner_map s r" "l = NULL \<or> r = NULL \<or> l \<noteq> r"
  shows "\<exists>p s'. merge_reducer_maps l r s = Some (p, s') \<and> (p = l \<or> p = r) \<and>
    (\<forall>k. map_view s' p k = map_view s l k @ map_view s r k) \<and> (\<forall>q. q \<noteq> l \<and> q \<noteq> r \<longrightarrow> rt_rm s' q = rt_rm s q) \<and>
    any_map s' p \<and> (inner_map s l \<and> inner_map s r \<longrightarrow> inner_map s' p)"
  using merge_reducer_maps_spec [OF assms] unfolding merged_def by blast

theorem merge_reducer_maps_serial_witness:
  "\<exists>p s'. merge_reducer_maps 30 31 merge_example = Some (p, s') \<and> (p = 30 \<or> p = 31) \<and>
    map_view s' p 7 = [1, 2] \<and> map_view s' p 8 = [3]"
proof -
  have m: "any_map merge_example 30" "any_map merge_example 31" "inner_map merge_example 31"
    by (simp_all add: any_map_def inner_map_def wf_map_def merge_example_def)
  have v: "map_view merge_example 30 7 @ map_view merge_example 31 7 = [1, 2]"
    "map_view merge_example 30 8 @ map_view merge_example 31 8 = [3]"
    by (simp_all add: map_view_def view_of_def lookup_view_def merge_example_def)
  have "(30::ptr) = NULL \<or> (31::ptr) = NULL \<or> (30::ptr) \<noteq> 31" by simp
  from merge_reducer_maps_serial [OF m(1,2) disjI2 [OF m(3)] this] show ?thesis using v by fastforce
qed

end
