(* ===== verification/Reduction.thy ===== *)
theory Reduction
  imports Deque_Ops Reducer_Map
begin

text \<open>
  The reducer protocol of \<^verbatim>\<open>scheduler.c\<close>, with the exceptions that travel along: what a frame does with its
  reducer maps when it returns from a spawn to a stolen parent, and when it stalls at a sync. The
  order of the frame's children is the serial order; the maps of a frame, of its children and of
  the workers that run them lie along it, and the protocol moves and merges them to the left.
\<close>

section \<open>Exceptions\<close>

definition pe_empty :: "pending_exception \<Rightarrow> bool" where
  "pe_empty e \<longleftrightarrow> pe_active e = NULL \<and> \<not> pe_rethrow e \<and> pe_caught e = NULL \<and> pe_uncaught e = 0"

text \<open>Merging two exception records, the left one being the earlier.\<close>

definition merge_exc :: "pending_exception \<Rightarrow> pending_exception \<Rightarrow> pending_exception proc" where
  "merge_exc l r = do {
     l \<leftarrow> (if pe_caught l \<noteq> NULL then do { assert_c (pe_caught r = NULL); Some l }
           else do { assert_c (\<not> pe_rethrow l); Some (l\<lparr>pe_rethrow := pe_rethrow r, pe_caught := pe_caught r\<rparr>) });
     Some (if pe_active l = NULL then l\<lparr>pe_active := pe_active r, pe_uncaught := pe_uncaught l + pe_uncaught r\<rparr>
           else l\<lparr>pe_uncaught := pe_uncaught l + (pe_uncaught r - (if pe_active r \<noteq> NULL then 1 else 0))\<rparr>) }"

definition merge_pending_exceptions :: "ptr \<Rightarrow> ptr \<Rightarrow> rts \<Rightarrow> (ptr \<times> rts) proc" where
  "merge_pending_exceptions left right s =
    (if left = NULL then Some (right, s)
     else if right = NULL then Some (left, s)
     else do {
       l \<leftarrow> rt_ex s left;
       r \<leftarrow> rt_ex s right;
       e \<leftarrow> merge_exc l r;
       let s = s\<lparr>rt_ex := (rt_ex s)(left := (if pe_empty e then None else Some e), right := None)\<rparr>;
       Some (if pe_empty e then NULL else left, s) })"

section \<open>The slot to the left\<close>

text \<open>\<^verbatim>\<open>splice_left_ptrs\<close> points to the right fields of a sibling or to the child fields of the parent.\<close>

datatype left_slot = Right_Of ptr | Children_Of ptr

fun map_at :: "left_slot \<Rightarrow> rts \<Rightarrow> ptr proc" where
  "map_at (Right_Of a) s = do { f \<leftarrow> ff_at s a; Some (ff_right_reducer_map f) }"
| "map_at (Children_Of p) s = do { f \<leftarrow> ff_at s p; Some (ff_children_reducer_map f) }"

fun set_map_at :: "left_slot \<Rightarrow> ptr \<Rightarrow> rts \<Rightarrow> rts proc" where
  "set_map_at (Right_Of a) m s = ff_mod a (\<lambda>f. f\<lparr>ff_right_reducer_map := m\<rparr>) s"
| "set_map_at (Children_Of p) m s = ff_mod p (\<lambda>f. f\<lparr>ff_children_reducer_map := m\<rparr>) s"

fun exc_at :: "left_slot \<Rightarrow> rts \<Rightarrow> ptr proc" where
  "exc_at (Right_Of a) s = do { f \<leftarrow> ff_at s a; Some (ff_right_pending_exception f) }"
| "exc_at (Children_Of p) s = do { f \<leftarrow> ff_at s p; Some (ff_child_pending_exception f) }"

fun set_exc_at :: "left_slot \<Rightarrow> ptr \<Rightarrow> rts \<Rightarrow> rts proc" where
  "set_exc_at (Right_Of a) e s = ff_mod a (\<lambda>f. f\<lparr>ff_right_pending_exception := e\<rparr>) s"
| "set_exc_at (Children_Of p) e s = ff_mod p (\<lambda>f. f\<lparr>ff_child_pending_exception := e\<rparr>) s"

definition compute_left_ptrs_for_spawn_return :: "ptr \<Rightarrow> rts \<Rightarrow> left_slot proc" where
  "compute_left_ptrs_for_spawn_return ff s = do {
     f \<leftarrow> ff_at s ff;
     Some (if ff_left_sibling f \<noteq> NULL then Right_Of (ff_left_sibling f) else Children_Of (ff_parent f)) }"

definition compute_left_ptrs_for_sync :: "ptr \<Rightarrow> rts \<Rightarrow> left_slot proc" where
  "compute_left_ptrs_for_sync ff s = do {
     f \<leftarrow> ff_at s ff;
     (if ff_rightmost_child f \<noteq> NULL then do {
        c \<leftarrow> ff_at s (ff_rightmost_child f);
        assert_c (ff_parent c = ff);
        Some (Right_Of (ff_rightmost_child f)) }
      else Some (Children_Of ff)) }"

definition splice_exceptions_for_call :: "ptr \<Rightarrow> ptr \<Rightarrow> rts \<Rightarrow> rts proc" where
  "splice_exceptions_for_call parent_ff child_ff s = do {
     c \<leftarrow> ff_at s child_ff;
     p \<leftarrow> ff_at s parent_ff;
     assert_c (ff_is_call_child c);
     assert_c (ff_right_pending_exception c = NULL);
     assert_c (ff_pending_exception p = NULL);
     s \<leftarrow> ff_mod parent_ff (\<lambda>f. f\<lparr>ff_pending_exception := ff_pending_exception c\<rparr>) s;
     ff_mod child_ff (\<lambda>f. f\<lparr>ff_pending_exception := NULL\<rparr>) s }"

definition splice_exceptions_for_spawn :: "ptr \<Rightarrow> left_slot \<Rightarrow> rts \<Rightarrow> rts proc" where
  "splice_exceptions_for_spawn ff left s = do {
     l \<leftarrow> exc_at left s;
     f \<leftarrow> ff_at s ff;
     (e, s) \<leftarrow> merge_pending_exceptions l (ff_pending_exception f) s;
     s \<leftarrow> set_exc_at left e s;
     s \<leftarrow> ff_mod ff (\<lambda>f. f\<lparr>ff_pending_exception := NULL\<rparr>) s;
     l \<leftarrow> exc_at left s;
     f \<leftarrow> ff_at s ff;
     (e, s) \<leftarrow> merge_pending_exceptions l (ff_right_pending_exception f) s;
     s \<leftarrow> set_exc_at left e s;
     ff_mod ff (\<lambda>f. f\<lparr>ff_right_pending_exception := NULL\<rparr>) s }"

section \<open>Returning from a spawn\<close>

definition set_wmap :: "ptr \<Rightarrow> ptr \<Rightarrow> rts \<Rightarrow> rts proc" where
  "set_wmap w m s = wk_mod w (\<lambda>k. k\<lparr>wk_reducer_map := m\<rparr>) s"

definition finish_spawn_return_on_user_stack :: "ptr \<Rightarrow> ptr \<Rightarrow> ptr \<Rightarrow> rts \<Rightarrow> rts proc" where
  "finish_spawn_return_on_user_stack w parent_ff child_ff s = do {
     l \<leftarrow> l_at s w;
     assert_c (l_fiber_to_free l = NULL);
     c \<leftarrow> ff_at s child_ff;
     fiber_child \<leftarrow> (if parent_ff = NULL then Some NULL else do { p \<leftarrow> ff_at s parent_ff; Some (ff_fiber_child p) });
     s \<leftarrow> (if parent_ff = NULL \<or> ff_left_sibling c \<noteq> NULL \<or> fiber_child \<noteq> NULL then do {
             assert_c (parent_ff = NULL \<or> fiber_child \<noteq> ff_fiber_self c);
             l_mod w (\<lambda>l. l\<lparr>l_fiber_to_free := ff_fiber_self c\<rparr>) s }
           else do {
             s \<leftarrow> ff_mod parent_ff (\<lambda>p. p\<lparr>ff_fiber_child := ff_fiber_self c\<rparr>) s;
             l_mod w (\<lambda>l. l\<lparr>l_fiber_to_free := NULL\<rparr>) s });
     s \<leftarrow> ff_mod child_ff (\<lambda>c. c\<lparr>ff_fiber_self := NULL\<rparr>) s;
     (if parent_ff \<noteq> NULL then unlink_child parent_ff child_ff s else Some s) }"

text \<open>The result is the slot for the slow path if there are maps to merge. The case number has a bit for each
  map, left, middle and right.\<close>

definition fast_path_reductions_for_spawn_return :: "ptr \<Rightarrow> ptr \<Rightarrow> rts \<Rightarrow> (left_slot option \<times> rts) proc" where
  "fast_path_reductions_for_spawn_return w ff s = do {
     l \<leftarrow> l_at s w;
     assert_c (l_pending_exception l = NULL);
     left \<leftarrow> compute_left_ptrs_for_spawn_return ff s;
     s \<leftarrow> splice_exceptions_for_spawn ff left s;
     lm \<leftarrow> map_at left s;
     k \<leftarrow> wk_at s w;
     f \<leftarrow> ff_at s ff;
     let case_value = (if lm \<noteq> NULL then 1 else 0) + (if wk_reducer_map k \<noteq> NULL then 2 else 0) +
       (if ff_right_reducer_map f \<noteq> NULL then 4 else 0 :: nat);
     (if case_value \<ge> 2 then
        if case_value = 2 then do {
          s \<leftarrow> set_map_at left (wk_reducer_map k) s;
          s \<leftarrow> set_wmap w NULL s;
          Some (None, s) }
        else if case_value = 4 then do {
          s \<leftarrow> set_map_at left (ff_right_reducer_map f) s;
          s \<leftarrow> ff_mod ff (\<lambda>f. f\<lparr>ff_right_reducer_map := NULL\<rparr>) s;
          Some (None, s) }
        else Some (Some left, s)
      else Some (None, s)) }"

text \<open>The do-while loop of \<^verbatim>\<open>repeated_merge_reducer_maps\<close>.\<close>

partial_function (option) repeated_merge_reducer_maps :: "ptr \<Rightarrow> ptr \<Rightarrow> ptr \<Rightarrow> rts \<Rightarrow> (ptr \<times> rts) proc" where
  "repeated_merge_reducer_maps w left_map right_map s = do {
     (left_map, s) \<leftarrow> merge_reducer_maps left_map right_map s;
     k \<leftarrow> wk_at s w;
     s \<leftarrow> set_wmap w NULL s;
     (if wk_reducer_map k \<noteq> NULL then repeated_merge_reducer_maps w left_map (wk_reducer_map k) s
      else Some (left_map, s)) }"

text \<open>The three parts of an iteration of the slow path: sliding the maps left under the lock of the
  parent; taking them, also under the lock; merging them without it.\<close>

definition slide_left :: "ptr \<Rightarrow> ptr \<Rightarrow> left_slot \<Rightarrow> rts \<Rightarrow> rts proc" where
  "slide_left w ff left s = do {
     lm \<leftarrow> map_at left s;
     k \<leftarrow> wk_at s w;
     s \<leftarrow> (if lm = NULL then do { s \<leftarrow> set_map_at left (wk_reducer_map k) s; set_wmap w NULL s } else Some s);
     k \<leftarrow> wk_at s w;
     f \<leftarrow> ff_at s ff;
     (if wk_reducer_map k = NULL then do {
        s \<leftarrow> set_wmap w (ff_right_reducer_map f) s;
        ff_mod ff (\<lambda>f. f\<lparr>ff_right_reducer_map := NULL\<rparr>) s }
      else Some s) }"

definition take_maps :: "ptr \<Rightarrow> ptr \<Rightarrow> left_slot \<Rightarrow> rts \<Rightarrow> ((ptr \<times> ptr \<times> ptr) \<times> rts) proc" where
  "take_maps w ff left s = do {
     left_map \<leftarrow> map_at left s;
     s \<leftarrow> set_map_at left NULL s;
     k \<leftarrow> wk_at s w;
     s \<leftarrow> set_wmap w NULL s;
     f \<leftarrow> ff_at s ff;
     s \<leftarrow> ff_mod ff (\<lambda>f. f\<lparr>ff_right_reducer_map := NULL\<rparr>) s;
     Some ((left_map, wk_reducer_map k, ff_right_reducer_map f), s) }"

text \<open>The iteration up to the release of the lock: no maps are taken if there is no middle map.\<close>

definition slide_and_take :: "ptr \<Rightarrow> ptr \<Rightarrow> left_slot \<Rightarrow> rts \<Rightarrow> ((ptr \<times> ptr \<times> ptr) option \<times> rts) proc" where
  "slide_and_take w ff left s = do {
     s \<leftarrow> slide_left w ff left s;
     k \<leftarrow> wk_at s w;
     (if wk_reducer_map k = NULL then Some (None, s)
      else do { (t, s) \<leftarrow> take_maps w ff left s; Some (Some t, s) }) }"

definition merge_taken :: "ptr \<Rightarrow> ptr \<Rightarrow> ptr \<Rightarrow> ptr \<Rightarrow> ptr \<Rightarrow> rts \<Rightarrow> rts proc" where
  "merge_taken w ff left_map middle_map right_map s = do {
     (left_map, s) \<leftarrow> repeated_merge_reducer_maps w left_map middle_map s;
     (left_map, s) \<leftarrow> repeated_merge_reducer_maps w left_map right_map s;
     k \<leftarrow> wk_at s w;
     assert_c (wk_reducer_map k = NULL);
     s \<leftarrow> set_wmap w left_map s;
     f \<leftarrow> ff_at s ff;
     assert_c (ff_pending_exception f = NULL);
     l \<leftarrow> l_at s w;
     s \<leftarrow> ff_mod ff (\<lambda>f. f\<lparr>ff_pending_exception := l_pending_exception l\<rparr>) s;
     l_mod w (\<lambda>l. l\<lparr>l_pending_exception := NULL\<rparr>) s }"

text \<open>From the lock to the next iteration: the left slot is computed again, for the siblings may have changed.\<close>

definition relocate_left :: "ptr \<Rightarrow> rts \<Rightarrow> (left_slot \<times> rts) proc" where
  "relocate_left ff s = do {
     left \<leftarrow> compute_left_ptrs_for_spawn_return ff s;
     s \<leftarrow> splice_exceptions_for_spawn ff left s;
     Some (left, s) }"

partial_function (option) slow_path_reductions_for_spawn_return :: "ptr \<Rightarrow> ptr \<Rightarrow> left_slot \<Rightarrow> rts \<Rightarrow> rts proc" where
  "slow_path_reductions_for_spawn_return w ff left s = do {
     (t, s) \<leftarrow> slide_and_take w ff left s;
     (case t of None \<Rightarrow> Some s
      | Some (left_map, middle_map, right_map) \<Rightarrow> do {
        f \<leftarrow> ff_at s ff;
        s \<leftarrow> frame_unlock w (ff_parent f) s;
        s \<leftarrow> merge_taken w ff left_map middle_map right_map s;
        f \<leftarrow> ff_at s ff;
        s \<leftarrow> frame_lock w (ff_parent f) s;
        (left, s) \<leftarrow> relocate_left ff s;
        slow_path_reductions_for_spawn_return w ff left s }) }"

definition restore_frame_for_spawn_return_reduction :: "ptr \<Rightarrow> ptr \<Rightarrow> ptr \<Rightarrow> rts \<Rightarrow> rts proc" where
  "restore_frame_for_spawn_return_reduction w ff returning_sf s = do {
     s \<leftarrow> wk_mod w (\<lambda>k. k\<lparr>wk_current_stack_frame := returning_sf\<rparr>) s;
     d \<leftarrow> active_deque s w;
     make_runnable ff d s }"

text \<open>The part of a spawn return under the lock of the parent.\<close>

definition spawn_return_reductions :: "ptr \<Rightarrow> ptr \<Rightarrow> rts \<Rightarrow> rts proc" where
  "spawn_return_reductions w ff s = do {
     (left, s) \<leftarrow> fast_path_reductions_for_spawn_return w ff s;
     s \<leftarrow> (case left of None \<Rightarrow> Some s | Some left \<Rightarrow> slow_path_reductions_for_spawn_return w ff left s);
     f \<leftarrow> ff_at s ff;
     finish_spawn_return_on_user_stack w (ff_parent f) ff s }"

definition execute_reductions_for_spawn_return :: "ptr \<Rightarrow> ptr \<Rightarrow> ptr \<Rightarrow> rts \<Rightarrow> rts proc" where
  "execute_reductions_for_spawn_return w ff returning_sf s = do {
     s \<leftarrow> restore_frame_for_spawn_return_reduction w ff returning_sf s;
     f \<leftarrow> ff_at s ff;
     (if ff_parent f \<noteq> NULL then do {
        s \<leftarrow> frame_lock w (ff_parent f) s;
        s \<leftarrow> spawn_return_reductions w ff s;
        f \<leftarrow> ff_at s ff;
        frame_unlock w (ff_parent f) s }
      else do {
        s \<leftarrow> l_mod w (\<lambda>l. l\<lparr>l_fiber_to_free := ff_fiber_self f, l_pending_exception := NULL\<rparr>) s;
        s \<leftarrow> ff_mod ff (\<lambda>f. f\<lparr>ff_fiber_self := NULL, ff_pending_exception := NULL\<rparr>) s;
        k \<leftarrow> wk_at s w;
        let s = (if wk_reducer_map k \<noteq> NULL then destroy_reducer_map (wk_reducer_map k) s else s);
        set_wmap w NULL s }) }"

section \<open>Stalling at a sync\<close>

definition fast_path_reductions_for_sync :: "ptr \<Rightarrow> ptr \<Rightarrow> rts \<Rightarrow> bool proc" where
  "fast_path_reductions_for_sync w ff s = do {
     k \<leftarrow> wk_at s w;
     f \<leftarrow> ff_at s ff;
     Some (\<not> (wk_reducer_map k \<noteq> NULL \<or> ff_pending_exception f \<noteq> NULL)) }"

partial_function (option) sync_loop :: "ptr \<Rightarrow> ptr \<Rightarrow> ptr \<Rightarrow> rts \<Rightarrow> rts proc" where
  "sync_loop w ff middle_map s = do {
     s \<leftarrow> frame_lock w ff s;
     left \<leftarrow> compute_left_ptrs_for_sync ff s;
     left_map \<leftarrow> map_at left s;
     s \<leftarrow> set_map_at left NULL s;
     let (left_map, middle_map) = (if left_map = NULL then (middle_map, NULL) else (left_map, middle_map));
     l \<leftarrow> exc_at left s;
     f \<leftarrow> ff_at s ff;
     (e, s) \<leftarrow> merge_pending_exceptions l (ff_pending_exception f) s;
     s \<leftarrow> set_exc_at left e s;
     s \<leftarrow> ff_mod ff (\<lambda>f. f\<lparr>ff_pending_exception := NULL\<rparr>) s;
     (if middle_map = NULL then do { s \<leftarrow> set_map_at left left_map s; frame_unlock w ff s }
      else do {
        s \<leftarrow> frame_unlock w ff s;
        (middle_map, s) \<leftarrow> repeated_merge_reducer_maps w left_map middle_map s;
        f \<leftarrow> ff_at s ff;
        assert_c (ff_pending_exception f = NULL);
        l \<leftarrow> l_at s w;
        s \<leftarrow> ff_mod ff (\<lambda>f. f\<lparr>ff_pending_exception := l_pending_exception l\<rparr>) s;
        s \<leftarrow> l_mod w (\<lambda>l. l\<lparr>l_pending_exception := NULL\<rparr>) s;
        sync_loop w ff middle_map s }) }"

definition slow_path_reductions_for_sync :: "ptr \<Rightarrow> ptr \<Rightarrow> rts \<Rightarrow> rts proc" where
  "slow_path_reductions_for_sync w ff s = do {
     k \<leftarrow> wk_at s w;
     s \<leftarrow> set_wmap w NULL s;
     sync_loop w ff (wk_reducer_map k) s }"

definition execute_reductions_for_sync :: "ptr \<Rightarrow> ptr \<Rightarrow> ptr \<Rightarrow> rts \<Rightarrow> rts proc" where
  "execute_reductions_for_sync w ff sf_at_sync s = do {
     s \<leftarrow> ff_mod ff (\<lambda>f. f\<lparr>ff_call_stack := NULL\<rparr>) s;
     sf \<leftarrow> sf_at s sf_at_sync;
     assert_c (sf_flags sf OR CILK_FRAME_STOLEN \<noteq> 0);
     s \<leftarrow> put_stack ff sf_at_sync s;
     s \<leftarrow> make_unrunnable_sysdep ff sf_at_sync True s;
     f \<leftarrow> frame_ff s w;
     assert_c (f = ff);
     finished \<leftarrow> fast_path_reductions_for_sync w ff s;
     s \<leftarrow> (if \<not> finished then slow_path_reductions_for_sync w ff s else Some s);
     f \<leftarrow> frame_ff s w;
     assert_c (f = ff);
     f \<leftarrow> ff_at s ff;
     assert_c (ff_call_stack f = NULL);
     s \<leftarrow> ff_mod ff (\<lambda>f. f\<lparr>ff_call_stack := sf_at_sync\<rparr>) s;
     s \<leftarrow> sf_mod sf_at_sync (\<lambda>f. f\<lparr>sf_flags := sf_flags f OR CILK_FRAME_SUSPENDED\<rparr>) s;
     f \<leftarrow> ff_at s ff;
     s \<leftarrow> l_mod w (\<lambda>l. l\<lparr>l_fiber_to_free := ff_fiber_self f\<rparr>) s;
     ff_mod ff (\<lambda>f. f\<lparr>ff_fiber_self := NULL\<rparr>) s }"

end
