(* ===== verification/Serial_Order.thy ===== *)
theory Serial_Order
  imports Reduction
begin

text \<open>
  The serial order of reducer maps. Along a frame lie the map of its finished children and, for
  each child, the maps its worker has taken, the map the worker works on, and the map the child
  has to its right. The views along that list, concatenated, are what the serial execution would
  compute; the lemmas show that the steps of a spawn return keep them.
\<close>

section \<open>Maps along a frame\<close>

definition children_map :: "rts \<Rightarrow> ptr \<Rightarrow> ptr" where
  "children_map s p = (case ff_at s p of None \<Rightarrow> NULL | Some f \<Rightarrow> ff_children_reducer_map f)"

definition right_map :: "rts \<Rightarrow> ptr \<Rightarrow> ptr" where
  "right_map s c = (case ff_at s c of None \<Rightarrow> NULL | Some f \<Rightarrow> ff_right_reducer_map f)"

definition worker_map :: "rts \<Rightarrow> ptr \<Rightarrow> ptr" where
  "worker_map s w = (case wk_at s w of None \<Rightarrow> NULL | Some k \<Rightarrow> wk_reducer_map k)"

definition strand_maps :: "rts \<Rightarrow> (ptr \<Rightarrow> ptr) \<Rightarrow> (ptr \<Rightarrow> ptr list) \<Rightarrow> ptr \<Rightarrow> ptr list" where
  "strand_maps s run taken c = taken c @ [worker_map s (run c), right_map s c]"

definition maps_along :: "rts \<Rightarrow> (ptr \<Rightarrow> ptr) \<Rightarrow> (ptr \<Rightarrow> ptr list) \<Rightarrow> ptr \<Rightarrow> ptr list \<Rightarrow> ptr list" where
  "maps_along s run taken p cs = children_map s p # concat (map (strand_maps s run taken) cs)"

definition serial_view :: "rts \<Rightarrow> ptr list \<Rightarrow> nat \<Rightarrow> view" where
  "serial_view s ms k = concat (map (\<lambda>m. map_view s m k) ms)"

definition real_maps :: "ptr list \<Rightarrow> ptr list" where
  "real_maps ms = filter (\<lambda>m. m \<noteq> NULL) ms"

text \<open>The maps are distinct and well formed, and only the first of them may be the leftmost map.\<close>

definition maps_ok :: "rts \<Rightarrow> ptr list \<Rightarrow> bool" where
  "maps_ok s ms \<longleftrightarrow> distinct (real_maps ms) \<and> (\<forall>m\<in>set (real_maps ms). any_map s m) \<and>
     (\<forall>m\<in>set (tl (real_maps ms)). inner_map s m)"

lemma real_maps_simps [simp]:
  "real_maps [] = []" "real_maps (m # ms) = (if m = NULL then real_maps ms else m # real_maps ms)"
  "real_maps (xs @ ys) = real_maps xs @ real_maps ys"
  by (simp_all add: real_maps_def)

lemma serial_view_real: "serial_view s (real_maps ms) k = serial_view s ms k"
  by (induction ms) (simp_all add: serial_view_def map_view_def)

lemma serial_view_simps [simp]:
  "serial_view s [] k = []" "serial_view s (m # ms) k = map_view s m k @ serial_view s ms k"
  "serial_view s (xs @ ys) k = serial_view s xs k @ serial_view s ys k"
  by (simp_all add: serial_view_def)

lemma serial_view_cong_real: "real_maps xs = real_maps ys \<Longrightarrow> serial_view s xs k = serial_view s ys k"
  by (metis serial_view_real)

lemma maps_ok_cong_real: "real_maps xs = real_maps ys \<Longrightarrow> maps_ok s xs = maps_ok s ys"
  by (simp add: maps_ok_def)

lemma real_maps_idem [simp]: "real_maps (real_maps ms) = real_maps ms"
  by (simp add: real_maps_def)

lemma set_real_maps [simp]: "set (real_maps ms) = set ms - {NULL}"
  by (auto simp: real_maps_def)

lemma serial_view_cong: "\<forall>m\<in>set ms. m \<noteq> NULL \<longrightarrow> rt_rm s' m = rt_rm s m \<Longrightarrow> serial_view s' ms k = serial_view s ms k"
  by (induction ms) (auto simp: map_view_def)

text \<open>
  Replacing a segment of the maps by one map that holds their views keeps the views along the list,
  and the maps stay well formed.
\<close>

lemma real_maps_tl: "tl (real_maps xs @ ys) = (if real_maps xs = [] then tl ys else tl (real_maps xs) @ ys)"
  by (cases "real_maps xs") simp_all

lemma merged_segment:
  assumes ok: "maps_ok s (A @ ms @ B)" and x: "x \<in> set ms" "x \<noteq> NULL" and a: "any_map s' x"
    and i: "\<forall>m\<in>set ms. m \<noteq> NULL \<longrightarrow> inner_map s m \<Longrightarrow> inner_map s' x"
    and v: "\<And>k. map_view s' x k = serial_view s ms k"
    and o: "\<And>q. q \<notin> set ms \<Longrightarrow> rt_rm s' q = rt_rm s q"
  shows "maps_ok s' (A @ [x] @ B)" "serial_view s' (A @ [x] @ B) k = serial_view s (A @ ms @ B) k"
proof -
  have d: "distinct (real_maps (A @ ms @ B))" using ok by (simp add: maps_ok_def)
  then have other: "rt_rm s' q = rt_rm s q" if "q \<in> set A \<union> set B" "q \<noteq> NULL" for q
    using o [of q] that by (cases "q \<in> set ms") auto
  then have mk: "any_map s' q = any_map s q" "inner_map s' q = inner_map s q" if "q \<in> set A \<union> set B" "q \<noteq> NULL" for q
    using that by (simp_all add: any_map_def inner_map_def)
  have "serial_view s' A k = serial_view s A k" "serial_view s' B k = serial_view s B k"
    using other by (auto intro: serial_view_cong)
  with v show "serial_view s' (A @ [x] @ B) k = serial_view s (A @ ms @ B) k" by simp
  have am: "\<forall>m\<in>set (real_maps (A @ [x] @ B)). any_map s' m" using ok a mk by (auto simp: maps_ok_def)
  have dd: "distinct (real_maps (A @ [x] @ B))" using d x by auto
  have "inner_map s' m" if m: "m \<in> set (tl (real_maps (A @ [x] @ B)))" for m
  proof -
    have "x \<in> set (real_maps ms)" using x by simp
    then obtain y Y where y: "real_maps ms = y # Y" by (cases "real_maps ms") (simp_all del: set_real_maps)
    have "tl (real_maps (A @ ms @ B)) = (if real_maps A = [] then Y else tl (real_maps A) @ y # Y) @ real_maps B"
      using y real_maps_tl [of A] by simp
    then have "set (real_maps B) \<subseteq> set (tl (real_maps (A @ ms @ B)))" by (simp only: set_append) blast
    then have B: "inner_map s' q" if "q \<in> set B" "q \<noteq> NULL" for q
      using ok that mk(2) [of q] unfolding maps_ok_def by auto
    show ?thesis
    proof (cases "real_maps A")
      case Nil
      then show ?thesis using m x(2) B by auto
    next
      case (Cons y A')
      have "set (y # A') = set A - {NULL}" using set_real_maps [of A] by (simp only: Cons)
      then have A: "q \<in> set A \<and> q \<noteq> NULL" if "q \<in> set A'" for q using that by (metis DiffD1 DiffD2 insertCI list.set_intros(2))
      have t: "tl (real_maps (A @ ms @ B)) = A' @ real_maps ms @ real_maps B" using Cons by simp
      have "\<forall>q\<in>set A'. inner_map s q" "\<forall>q\<in>set ms. q \<noteq> NULL \<longrightarrow> inner_map s q"
        using ok unfolding maps_ok_def t by simp_all
      then have "\<forall>q\<in>set A'. inner_map s' q" "inner_map s' x" using A i mk(2) by blast+
      moreover have "m \<in> set A' \<or> m = x \<or> m \<in> set B \<and> m \<noteq> NULL" using m Cons x(2) by auto
      ultimately show ?thesis using B by blast
    qed
  qed
  with am dd show "maps_ok s' (A @ [x] @ B)" by (simp add: maps_ok_def)
qed

section \<open>Writing the maps\<close>

fun put_slot :: "left_slot \<Rightarrow> ptr \<Rightarrow> rts \<Rightarrow> rts" where
  "put_slot (Right_Of a) m s = (case ff_at s a of None \<Rightarrow> s | Some f \<Rightarrow> put_ff a (f\<lparr>ff_right_reducer_map := m\<rparr>) s)"
| "put_slot (Children_Of p) m s = (case ff_at s p of None \<Rightarrow> s | Some f \<Rightarrow> put_ff p (f\<lparr>ff_children_reducer_map := m\<rparr>) s)"

definition put_wmap :: "ptr \<Rightarrow> ptr \<Rightarrow> rts \<Rightarrow> rts" where
  "put_wmap w m s = (case wk_at s w of None \<Rightarrow> s | Some k \<Rightarrow> put_wk w (k\<lparr>wk_reducer_map := m\<rparr>) s)"

definition slot_of :: "ptr \<Rightarrow> ptr list \<Rightarrow> left_slot" where
  "slot_of p as = (if as = [] then Children_Of p else Right_Of (last as))"

definition slot_map :: "rts \<Rightarrow> ptr \<Rightarrow> ptr list \<Rightarrow> ptr" where
  "slot_map s p as = (if as = [] then children_map s p else right_map s (last as))"

text \<open>Two states that differ in the maps of frames and workers and in the reducer maps.\<close>

definition bare_ff :: "full_frame \<Rightarrow> full_frame" where
  "bare_ff f = f\<lparr>ff_children_reducer_map := NULL, ff_right_reducer_map := NULL\<rparr>"

definition bare_wk :: "worker \<Rightarrow> worker" where
  "bare_wk k = k\<lparr>wk_reducer_map := NULL\<rparr>"

definition same_tree :: "rts \<Rightarrow> rts \<Rightarrow> bool" where
  "same_tree s s' \<longleftrightarrow> (\<forall>q. map_option bare_ff (ff_at s' q) = map_option bare_ff (ff_at s q)) \<and>
     (\<forall>w. map_option bare_wk (wk_at s' w) = map_option bare_wk (wk_at s w))"

lemma same_tree_refl [simp]: "same_tree s s"
  by (simp add: same_tree_def)

lemma same_tree_trans: "same_tree s s1 \<Longrightarrow> same_tree s1 s2 \<Longrightarrow> same_tree s s2"
  by (simp add: same_tree_def)

lemma same_tree_slot [simp]: "same_tree s (put_slot l m s') = same_tree s s'"
proof -
  have "map_option bare_ff (ff_at (put_slot l m s') q) = map_option bare_ff (ff_at s' q)" for q
    by (cases l) (auto simp: bare_ff_def split: option.split)
  moreover have "wk_at (put_slot l m s') w = wk_at s' w" for w by (cases l) (simp_all split: option.split)
  ultimately show ?thesis by (simp add: same_tree_def)
qed

lemma same_tree_wmap [simp]: "same_tree s (put_wmap w m s') = same_tree s s'"
proof -
  have "map_option bare_wk (wk_at (put_wmap w m s') v) = map_option bare_wk (wk_at s' v)" for v
    by (auto simp: bare_wk_def put_wmap_def split: option.split)
  moreover have "ff_at (put_wmap w m s') q = ff_at s' q" for q by (simp add: put_wmap_def split: option.split)
  ultimately show ?thesis by (simp add: same_tree_def)
qed

lemma same_tree_rm [simp]: "same_tree s (s'\<lparr>rt_rm := r\<rparr>) = same_tree s s'"
  by (simp add: same_tree_def ff_at_def wk_at_def)

lemma bare_ff_fields:
  assumes "bare_ff f = bare_ff g"
  shows "ff_lock f = ff_lock g" "ff_join_counter f = ff_join_counter g" "ff_parent f = ff_parent g"
    "ff_left_sibling f = ff_left_sibling g" "ff_right_sibling f = ff_right_sibling g"
    "ff_rightmost_child f = ff_rightmost_child g" "ff_fiber_self f = ff_fiber_self g"
    "ff_fiber_child f = ff_fiber_child g" "ff_pending_exception f = ff_pending_exception g"
    "ff_child_pending_exception f = ff_child_pending_exception g"
    "ff_right_pending_exception f = ff_right_pending_exception g"
  using assms unfolding bare_ff_def by (cases f; cases g; simp)+

lemma same_tree_ff:
  assumes "same_tree s s'" "ff_at s p = Some f"
  obtains f' where "ff_at s' p = Some f'" "bare_ff f' = bare_ff f"
  using assms unfolding same_tree_def by (metis (no_types, lifting) map_option_eq_Some)

lemma same_tree_wk:
  assumes "same_tree s s'" "wk_at s w = Some k"
  obtains k' where "wk_at s' w = Some k'" "bare_wk k' = bare_wk k"
  using assms unfolding same_tree_def by (metis (no_types, lifting) map_option_eq_Some)

lemma same_tree_l: "same_tree s s' \<Longrightarrow> l_at s' w = l_at s w"
proof -
  assume t: "same_tree s s'"
  show ?thesis
  proof (cases "wk_at s w")
    case None
    then have "wk_at s' w = None" using t unfolding same_tree_def by (metis option.map_disc_iff)
    with None show ?thesis by (simp add: l_at_def)
  next
    case (Some k)
    from same_tree_wk [OF t Some] obtain k' where "wk_at s' w = Some k'" "bare_wk k' = bare_wk k" .
    moreover from this(2) have "wk_l k' = wk_l k" unfolding bare_wk_def by (cases k; cases k') simp
    ultimately show ?thesis using Some by (simp add: l_at_wk)
  qed
qed

text \<open>How the writes move the maps.\<close>

lemma put_slot_at [simp]: "wk_at (put_slot l m s) w = wk_at s w" "rt_rm (put_slot l m s) = rt_rm s"
  "worker_map (put_slot l m s) w = worker_map s w"
  by (cases l; simp add: worker_map_def split: option.split)+

lemma put_wmap_at [simp]: "ff_at (put_wmap w m s) p = ff_at s p" "rt_rm (put_wmap w m s) = rt_rm s"
  "children_map (put_wmap w m s) p = children_map s p" "right_map (put_wmap w m s) p = right_map s p"
  by (simp_all add: put_wmap_def children_map_def right_map_def put_wk_def ff_at_def split: option.split)

lemma worker_map_put [simp]:
  "worker_map (put_wmap w m s) v = (if v = w \<and> wk_at s w \<noteq> None then m else worker_map s v)"
  by (auto simp: worker_map_def put_wmap_def split: option.split)

lemma slot_maps_put [simp]:
  "children_map (put_slot (Children_Of q) m s) p = (if p = q \<and> ff_at s q \<noteq> None then m else children_map s p)"
  "children_map (put_slot (Right_Of a) m s) p = children_map s p"
  "right_map (put_slot (Children_Of q) m s) c = right_map s c"
  "right_map (put_slot (Right_Of a) m s) c = (if c = a \<and> ff_at s a \<noteq> None then m else right_map s c)"
  by (auto simp: children_map_def right_map_def split: option.split)

lemma maps_rm [simp]: "children_map (s\<lparr>rt_rm := r\<rparr>) p = children_map s p" "right_map (s\<lparr>rt_rm := r\<rparr>) c = right_map s c"
  "worker_map (s\<lparr>rt_rm := r\<rparr>) w = worker_map s w"
  by (simp_all add: children_map_def right_map_def worker_map_def ff_at_def wk_at_def)

lemma maps_along_rm [simp]: "maps_along (s\<lparr>rt_rm := r\<rparr>) run taken p cs = maps_along s run taken p cs"
proof -
  have "strand_maps (s\<lparr>rt_rm := r\<rparr>) run taken = strand_maps s run taken" by (rule ext) (simp add: strand_maps_def)
  then show ?thesis by (simp add: maps_along_def)
qed

lemma maps_along_cong:
  assumes "children_map s' p = children_map s p"
    "\<And>c. c \<in> set cs \<Longrightarrow> taken' c = taken c \<and> worker_map s' (run c) = worker_map s (run c) \<and> right_map s' c = right_map s c"
  shows "maps_along s' run taken' p cs = maps_along s run taken p cs"
  using assms by (auto simp: maps_along_def strand_maps_def intro!: arg_cong [where f = concat])

section \<open>A frame and its children\<close>

text \<open>
  \<open>run\<close> gives the worker of each child, which runs no other child; nobody has an exception in flight, the
  fibers of the children and the one already passed up differ, and the workers have no fiber to free.
\<close>

definition fiber_of :: "rts \<Rightarrow> ptr \<Rightarrow> ptr option" where
  "fiber_of s c = map_option ff_fiber_self (ff_at s c)"

definition idle_local :: "rts \<Rightarrow> ptr \<Rightarrow> bool" where
  "idle_local s w \<longleftrightarrow> (\<forall>l. l_at s w = Some l \<longrightarrow> l_pending_exception l = NULL \<and> l_fiber_to_free l = NULL)"

definition team :: "rts \<Rightarrow> (ptr \<Rightarrow> ptr) \<Rightarrow> ptr \<Rightarrow> ptr list \<Rightarrow> bool" where
  "team s run p cs \<longleftrightarrow> p \<noteq> NULL \<and> kids s p cs \<and> (\<exists>P. ff_at s p = Some P \<and> ff_child_pending_exception P = NULL \<and>
        distinct (Some (ff_fiber_child P) # map (fiber_of s) cs)) \<and>
     (\<forall>c\<in>set cs. \<exists>f. ff_at s c = Some f \<and> ff_parent f = p \<and> ff_pending_exception f = NULL \<and>
        ff_right_pending_exception f = NULL) \<and>
     (\<forall>c\<in>set cs. \<forall>d\<in>set cs. wk_at s (run c) \<noteq> None \<and> run c = run d \<longrightarrow> c = d) \<and>
     (\<forall>c\<in>set cs. idle_local s (run c))"

lemma same_tree_kids: "same_tree s s' \<Longrightarrow> kids s p cs \<Longrightarrow> kids s' p cs"
proof -
  assume t: "same_tree s s'" and k: "kids s p cs"
  have "same_links s s' q" for q unfolding same_links_def using bare_ff_fields(4,5) by (metis same_tree_ff [OF t])
  moreover from k obtain P where P: "ff_at s p = Some P" by (auto simp: kids_def)
  from same_tree_ff [OF t P] obtain P' where P': "ff_at s' p = Some P'" "bare_ff P' = bare_ff P" .
  ultimately show ?thesis using k P bare_ff_fields(6) [OF P'(2)] lseg_same by (fastforce simp: kids_def)
qed

lemma same_tree_team: "same_tree s s' \<Longrightarrow> team s run p cs \<Longrightarrow> team s' run p cs"
proof -
  assume t: "same_tree s s'" and m: "team s run p cs"
  have w: "(wk_at s' v = None) = (wk_at s v = None)" for v using t unfolding same_tree_def by (metis option.map_disc_iff)
  from m obtain P where P: "ff_at s p = Some P" "ff_child_pending_exception P = NULL"
    "distinct (Some (ff_fiber_child P) # map (fiber_of s) cs)" unfolding team_def by blast
  have fo: "fiber_of s' = fiber_of s"
  proof
    fix c show "fiber_of s' c = fiber_of s c"
    proof (cases "ff_at s c")
      case None
      then have "ff_at s' c = None" using t unfolding same_tree_def by (metis option.map_disc_iff)
      with None show ?thesis by (simp add: fiber_of_def)
    next
      case (Some f)
      from same_tree_ff [OF t Some] obtain f' where f': "ff_at s' c = Some f'" "bare_ff f' = bare_ff f" .
      show ?thesis using Some f'(1) bare_ff_fields(7) [OF f'(2)] by (simp add: fiber_of_def)
    qed
  qed
  from same_tree_ff [OF t P(1)] obtain P' where P': "ff_at s' p = Some P'" "bare_ff P' = bare_ff P" .
  have "\<exists>f. ff_at s' c = Some f \<and> ff_parent f = p \<and> ff_pending_exception f = NULL \<and> ff_right_pending_exception f = NULL"
    if c: "c \<in> set cs" for c
  proof -
    from m c obtain f where f: "ff_at s c = Some f" "ff_parent f = p" "ff_pending_exception f = NULL"
      "ff_right_pending_exception f = NULL" by (auto simp: team_def)
    from same_tree_ff [OF t f(1)] obtain f' where "ff_at s' c = Some f'" "bare_ff f' = bare_ff f" .
    then show ?thesis using f bare_ff_fields [of f' f] by auto
  qed
  moreover have "\<forall>c\<in>set cs. \<forall>d\<in>set cs. wk_at s' (run c) \<noteq> None \<and> run c = run d \<longrightarrow> c = d"
    using m unfolding team_def w by blast
  moreover have "\<forall>c\<in>set cs. idle_local s' (run c)"
    using m same_tree_l [OF t] unfolding team_def idle_local_def by simp
  moreover have "\<exists>P. ff_at s' p = Some P \<and> ff_child_pending_exception P = NULL \<and>
        distinct (Some (ff_fiber_child P) # map (fiber_of s') cs)"
    using P P' bare_ff_fields(8,10) [of P' P] fo by auto
  ultimately show ?thesis using m same_tree_kids [OF t] unfolding team_def by blast
qed

lemma team_ff:
  assumes "team s run p cs" "c \<in> set cs"
  obtains f where "ff_at s c = Some f" "ff_parent f = p" "ff_pending_exception f = NULL" "ff_right_pending_exception f = NULL"
  using assms by (auto simp: team_def)

lemma team_parent:
  assumes "team s run p cs"
  obtains P where "ff_at s p = Some P" "ff_child_pending_exception P = NULL"
  using assms by (auto simp: team_def)

lemma kids_left:
  assumes "kids s p (as @ c # bs)" "ff_at s c = Some f" "ff_parent f = p"
  shows "compute_left_ptrs_for_spawn_return c s = Some (slot_of p as)"
proof -
  have "ff_left_sibling f = last_or NULL as" "as \<noteq> [] \<longrightarrow> last as \<noteq> NULL"
    using assms(1,2) lseg_frame_at [of s NULL as c "last as"] by (auto simp: kids_def lseg_append)
  then show ?thesis using assms(2,3) by (simp add: compute_left_ptrs_for_spawn_return_def slot_of_def last_or_def)
qed

lemma team_left:
  assumes "team s run p (as @ c # bs)"
  shows "compute_left_ptrs_for_spawn_return c s = Some (slot_of p as)"
proof -
  from team_ff [OF assms, of c] obtain f where "ff_at s c = Some f" "ff_parent f = p" by auto
  with assms kids_left show ?thesis unfolding team_def by blast
qed

lemma put_ff_same: "ff_at s p = Some f \<Longrightarrow> g = f \<Longrightarrow> put_ff p g s = s"
  by (simp add: put_ff_def ff_at_def fun_upd_idem)

lemma put_wk_same: "wk_at s w = Some k \<Longrightarrow> j = k \<Longrightarrow> put_wk w j s = s"
  by (simp add: put_wk_def wk_at_def fun_upd_idem)

lemma no_exception_same:
  "ff_pending_exception f = NULL \<Longrightarrow> f\<lparr>ff_pending_exception := NULL\<rparr> = f"
  "ff_right_pending_exception f = NULL \<Longrightarrow> f\<lparr>ff_right_pending_exception := NULL\<rparr> = f"
  "ff_child_pending_exception f = NULL \<Longrightarrow> f\<lparr>ff_child_pending_exception := NULL\<rparr> = f"
  by (cases f; simp)+

lemma team_slot:
  assumes "team s run p (as @ bs)"
  shows "map_at (slot_of p as) s = Some (slot_map s p as)" (is ?thesis1)
    and "set_map_at (slot_of p as) m s = Some (put_slot (slot_of p as) m s)" (is ?thesis2)
    and "exc_at (slot_of p as) s = Some NULL" (is ?thesis3)
    and "set_exc_at (slot_of p as) NULL s = Some s" (is ?thesis4)
proof -
  from team_parent [OF assms] obtain P where P: "ff_at s p = Some P" "ff_child_pending_exception P = NULL" .
  have p: "put_ff p (P\<lparr>ff_child_pending_exception := NULL\<rparr>) s = s"
    by (rule put_ff_same [OF P(1) no_exception_same(3) [OF P(2)]])
  have "?thesis1 \<and> ?thesis2 \<and> ?thesis3 \<and> ?thesis4"
  proof (cases "as = []")
    case True
    then show ?thesis using P p by (simp add: slot_of_def slot_map_def children_map_def)
  next
    case False
    then obtain f where f: "ff_at s (last as) = Some f" "ff_right_pending_exception f = NULL"
      using team_ff [OF assms, of "last as"] by auto
    have "put_ff (last as) (f\<lparr>ff_right_pending_exception := NULL\<rparr>) s = s"
      by (rule put_ff_same [OF f(1) no_exception_same(2) [OF f(2)]])
    then show ?thesis using False f by (simp add: slot_of_def slot_map_def right_map_def)
  qed
  then show ?thesis1 ?thesis2 ?thesis3 ?thesis4 by blast+
qed

text \<open>With no exception in flight, splicing exceptions does nothing.\<close>

lemma team_exceptions:
  assumes "team s run p (as @ c # bs)"
  shows "splice_exceptions_for_spawn c (slot_of p as) s = Some s"
proof -
  from team_ff [OF assms, of c] obtain f where f: "ff_at s c = Some f" "ff_pending_exception f = NULL"
    "ff_right_pending_exception f = NULL" by auto
  have "put_ff c (f\<lparr>ff_pending_exception := NULL\<rparr>) s = s"
    by (rule put_ff_same [OF f(1) no_exception_same(1) [OF f(2)]])
  moreover have "put_ff c (f\<lparr>ff_right_pending_exception := NULL\<rparr>) s = s"
    by (rule put_ff_same [OF f(1) no_exception_same(2) [OF f(3)]])
  ultimately have "ff_mod c (\<lambda>f. f\<lparr>ff_pending_exception := NULL\<rparr>) s = Some s"
    "ff_mod c (\<lambda>f. f\<lparr>ff_right_pending_exception := NULL\<rparr>) s = Some s" using f(1) by simp_all
  then show ?thesis using team_slot(3,4) [OF assms] f
    by (simp add: splice_exceptions_for_spawn_def merge_pending_exceptions_def del: ff_mod_put)
qed

lemma team_relocate:
  "team s run p (as @ c # bs) \<Longrightarrow> relocate_left c s = Some (slot_of p as, s)"
  by (simp add: relocate_left_def team_left team_exceptions)

section \<open>The maps around one child\<close>

definition before :: "rts \<Rightarrow> (ptr \<Rightarrow> ptr) \<Rightarrow> (ptr \<Rightarrow> ptr list) \<Rightarrow> ptr \<Rightarrow> ptr list \<Rightarrow> ptr list" where
  "before s run taken p as = butlast (maps_along s run taken p as)"

definition after :: "rts \<Rightarrow> (ptr \<Rightarrow> ptr) \<Rightarrow> (ptr \<Rightarrow> ptr list) \<Rightarrow> ptr list \<Rightarrow> ptr list" where
  "after s run taken bs = concat (map (strand_maps s run taken) bs)"

lemma last_maps_along: "last (maps_along s run taken p as) = slot_map s p as"
  by (cases as rule: rev_cases) (simp_all add: maps_along_def strand_maps_def slot_map_def)

lemma maps_along_prefix: "maps_along s run taken p as = before s run taken p as @ [slot_map s p as]"
  unfolding before_def last_maps_along [symmetric, of _ _ _ run taken] by (simp add: maps_along_def)

lemma maps_split: "maps_along s run taken p (as @ c # bs) =
    before s run taken p as @ [slot_map s p as] @ taken c @ [worker_map s (run c), right_map s c] @ after s run taken bs"
proof -
  have "maps_along s run taken p (as @ c # bs) = maps_along s run taken p as @ strand_maps s run taken c @ after s run taken bs"
    by (simp add: maps_along_def after_def)
  then show ?thesis by (simp add: maps_along_prefix strand_maps_def)
qed

lemma maps_split_off: "maps_along s run taken p (as @ bs) = before s run taken p as @ [slot_map s p as] @ after s run taken bs"
  using maps_along_prefix [of s run taken p as] by (simp add: maps_along_def after_def)

text \<open>
  \<open>moves s s' L M R\<close>: the states differ only in the maps around child \<open>c\<close>, which now are \<open>L\<close> in the slot to its left,
  \<open>M\<close> at its worker, and \<open>R\<close> to its right.
\<close>

definition moves :: "(ptr \<Rightarrow> ptr) \<Rightarrow> ptr \<Rightarrow> ptr list \<Rightarrow> ptr \<Rightarrow> ptr list \<Rightarrow> rts \<Rightarrow> rts \<Rightarrow> ptr \<Rightarrow> ptr \<Rightarrow> ptr \<Rightarrow> bool" where
  "moves run p as c bs s s' L M R \<longleftrightarrow> same_tree s s' \<and> rt_rm s' = rt_rm s \<and> slot_map s' p as = L \<and>
     worker_map s' (run c) = M \<and> right_map s' c = R \<and>
     (\<forall>v. v \<noteq> run c \<longrightarrow> worker_map s' v = worker_map s v) \<and>
     (\<forall>taken. before s' run taken p as = before s run taken p as \<and> after s' run taken bs = after s run taken bs)"

lemma moves_refl: "moves run p as c bs s s (slot_map s p as) (worker_map s (run c)) (right_map s c)"
  by (simp add: moves_def)

lemma moves_maps: "moves run p as c bs s s' L M R \<Longrightarrow> maps_along s' run taken p (as @ c # bs) =
    before s run taken p as @ [L] @ taken c @ [M, R] @ after s run taken bs"
  by (simp add: moves_def maps_split)

lemma after_cong:
  assumes "\<And>b. b \<in> set bs \<Longrightarrow> taken' b = taken b \<and> worker_map s' (run b) = worker_map s (run b) \<and> right_map s' b = right_map s b"
  shows "after s' run taken' bs = after s run taken bs"
  using assms by (auto simp: after_def strand_maps_def intro!: arg_cong [where f = concat])

lemma before_cong:
  assumes "as = [] \<or> children_map s' p = children_map s p"
    "\<And>a. a \<in> set as \<Longrightarrow> taken' a = taken a \<and> worker_map s' (run a) = worker_map s (run a)"
    "\<And>a. a \<in> set (butlast as) \<Longrightarrow> right_map s' a = right_map s a"
  shows "before s' run taken' p as = before s run taken p as"
proof (cases as rule: rev_cases)
  case Nil
  then show ?thesis by (simp add: before_def maps_along_def)
next
  case (snoc xs a)
  have b: "before t run tk p (xs @ [a]) = maps_along t run tk p xs @ tk a @ [worker_map t (run a)]" for t tk
    by (simp add: before_def maps_along_def strand_maps_def butlast_append)
  have "maps_along s' run taken' p xs = maps_along s run taken p xs"
    using assms snoc by (intro maps_along_cong) auto
  then show ?thesis using assms(2) snoc b by simp
qed

lemma distinct_butlast: "distinct (as @ c # bs) \<Longrightarrow> as \<noteq> [] \<Longrightarrow> last as \<notin> set (butlast as)"
  by (cases as rule: rev_cases) auto

lemma moves_trans:
  "moves run p as c bs s s1 L M R \<Longrightarrow> moves run p as c bs s1 s2 L' M' R' \<Longrightarrow> moves run p as c bs s s2 L' M' R'"
  unfolding moves_def by (auto intro: same_tree_trans)

text \<open>The child \<open>c\<close> of the list \<open>as @ c # bs\<close> is run by worker \<open>w\<close>.\<close>

definition runs_child :: "rts \<Rightarrow> (ptr \<Rightarrow> ptr) \<Rightarrow> ptr \<Rightarrow> ptr list \<Rightarrow> ptr \<Rightarrow> ptr list \<Rightarrow> ptr \<Rightarrow> bool" where
  "runs_child s run p as c bs w \<longleftrightarrow> team s run p (as @ c # bs) \<and> w = run c \<and> wk_at s w \<noteq> None"

lemma child_facts:
  assumes "runs_child s run p as c bs w"
  shows "distinct (as @ c # bs)" "p \<notin> set (as @ c # bs)" "as \<noteq> [] \<longrightarrow> last as \<notin> set (butlast as)"
    "as \<noteq> [] \<longrightarrow> last as \<noteq> c \<and> last as \<notin> set bs \<and> last as \<noteq> p" "set (butlast as) \<subseteq> set as"
proof -
  show d: "distinct (as @ c # bs)" "p \<notin> set (as @ c # bs)" using assms by (auto simp: runs_child_def team_def kids_def)
  show "as \<noteq> [] \<longrightarrow> last as \<notin> set (butlast as)" using distinct_butlast [OF d(1)] by blast
  have dd: "set as \<inter> insert c (set bs) = {}" "p \<notin> set as" using d by auto
  then show "as \<noteq> [] \<longrightarrow> last as \<noteq> c \<and> last as \<notin> set bs \<and> last as \<noteq> p"
    using last_in_set [of as] by blast
  show "set (butlast as) \<subseteq> set as" by (auto dest: in_set_butlastD)
qed

lemma other_worker:
  assumes r: "runs_child s run p as c bs w" and a: "a \<in> set as \<union> set bs"
  shows "run a \<noteq> run c"
proof
  assume e: "run a = run c"
  have "a \<in> set (as @ c # bs)" "c \<in> set (as @ c # bs)" using a by auto
  moreover have "wk_at s (run a) \<noteq> None" using r unfolding runs_child_def e by blast
  ultimately have "a = c" using r e unfolding runs_child_def team_def by blast
  with a child_facts(1) [OF r] show False by auto
qed

lemma same_tree_runs: "same_tree s s' \<Longrightarrow> runs_child s run p as c bs w \<Longrightarrow> runs_child s' run p as c bs w"
  unfolding runs_child_def using same_tree_team by (metis (no_types, lifting) option.map_disc_iff same_tree_def)

declare put_slot.simps [simp del]

lemma moves_slot:
  assumes r: "runs_child s run p as c bs w"
  shows "moves run p as c bs s (put_slot (slot_of p as) m s) m (worker_map s (run c)) (right_map s c)"
proof -
  have t: "team s run p (as @ c # bs)" using r by (simp add: runs_child_def)
  obtain P where P: "ff_at s p = Some P" by (rule team_parent [OF t])
  have "\<exists>f. ff_at s (last as) = Some f" if "as \<noteq> []" using that team_ff [OF t, of "last as"] by auto
  then show ?thesis using P child_facts [OF r]
    by (cases "as = []") (auto simp: moves_def slot_of_def slot_map_def intro!: before_cong after_cong)
qed

lemma moves_wmap:
  assumes r: "runs_child s run p as c bs w"
  shows "moves run p as c bs s (put_wmap w m s) (slot_map s p as) m (right_map s c)"
  using r other_worker [OF r] unfolding runs_child_def
  by (auto simp: moves_def slot_map_def intro!: before_cong after_cong)

lemma moves_right:
  assumes r: "runs_child s run p as c bs w"
  shows "moves run p as c bs s (put_slot (Right_Of c) m s) (slot_map s p as) (worker_map s (run c)) m"
proof -
  have "team s run p (as @ c # bs)" using r by (simp add: runs_child_def)
  from team_ff [OF this, of c] obtain f where "ff_at s c = Some f" by auto
  then show ?thesis using child_facts [OF r]
    by (auto simp: moves_def slot_map_def intro!: before_cong after_cong)
qed

section \<open>The sections under the lock of the parent\<close>

lemma child_reads:
  assumes "runs_child s run p as c bs w"
  obtains k f where "wk_at s w = Some k" "wk_reducer_map k = worker_map s (run c)"
    "ff_at s c = Some f" "ff_right_reducer_map f = right_map s c" "ff_parent f = p" "ff_pending_exception f = NULL"
proof -
  have t: "team s run p (as @ c # bs)" and w: "w = run c" using assms by (auto simp: runs_child_def)
  from team_ff [OF t, of c] obtain f where "ff_at s c = Some f" "ff_parent f = p" "ff_pending_exception f = NULL" by auto
  moreover obtain k where "wk_at s w = Some k" using assms by (auto simp: runs_child_def)
  ultimately show thesis using that w by (simp add: worker_map_def right_map_def)
qed

lemma child_writes:
  assumes "runs_child s run p as c bs w"
  shows "set_wmap w m s = Some (put_wmap w m s)"
    "ff_mod c (\<lambda>f. f\<lparr>ff_right_reducer_map := m\<rparr>) s = Some (put_slot (Right_Of c) m s)"
    "set_map_at (slot_of p as) m s = Some (put_slot (slot_of p as) m s)"
    "map_at (slot_of p as) s = Some (slot_map s p as)"
proof -
  from child_reads [OF assms] obtain k f where "wk_at s w = Some k" "ff_at s c = Some f" .
  then show "set_wmap w m s = Some (put_wmap w m s)"
    "ff_mod c (\<lambda>f. f\<lparr>ff_right_reducer_map := m\<rparr>) s = Some (put_slot (Right_Of c) m s)"
    by (simp_all add: set_wmap_def put_wmap_def put_slot.simps)
  show "set_map_at (slot_of p as) m s = Some (put_slot (slot_of p as) m s)"
    "map_at (slot_of p as) s = Some (slot_map s p as)"
    using team_slot [of s run p as "c # bs"] assms by (simp_all add: runs_child_def)
qed

lemma moves_runs: "moves run p as c bs s s' L M R \<Longrightarrow> runs_child s run p as c bs w \<Longrightarrow> runs_child s' run p as c bs w"
  unfolding moves_def using same_tree_runs by blast

lemma moves_steps:
  assumes m: "moves run p as c bs s s' L M R" and r: "runs_child s run p as c bs w"
  shows "moves run p as c bs s (put_slot (slot_of p as) X s') X M R"
    "moves run p as c bs s (put_wmap w X s') L X R"
    "moves run p as c bs s (put_slot (Right_Of c) X s') L M X"
  using moves_trans [OF m moves_slot [OF moves_runs [OF m r]]] moves_trans [OF m moves_wmap [OF moves_runs [OF m r]]]
    moves_trans [OF m moves_right [OF moves_runs [OF m r]]] m by (simp_all add: moves_def)

lemma child_local:
  assumes "runs_child s run p as c bs w"
  obtains l where "l_at s w = Some l" "l_pending_exception l = NULL" "l_fiber_to_free l = NULL"
proof -
  from child_reads [OF assms] obtain k where "wk_at s w = Some k" .
  then have "l_at s w = Some (wk_l k)" by (simp add: l_at_wk)
  moreover have "idle_local s w" using assms unfolding runs_child_def team_def by auto
  ultimately show thesis using that by (auto simp: idle_local_def)
qed

lemma fast_path_spec:
  assumes r: "runs_child s run p as c bs w"
  shows "\<exists>t s' L M R. fast_path_reductions_for_spawn_return w c s = Some (t, s') \<and> moves run p as c bs s s' L M R \<and>
    real_maps [L, M, R] = real_maps [slot_map s p as, worker_map s (run c), right_map s c] \<and>
    (case t of None \<Rightarrow> M = NULL \<and> R = NULL | Some x \<Rightarrow> x = slot_of p as)"
proof -
  from child_reads [OF r] obtain k f where kf: "wk_at s w = Some k" "wk_reducer_map k = worker_map s (run c)"
    "ff_at s c = Some f" "ff_right_reducer_map f = right_map s c" .
  have t: "team s run p (as @ c # bs)" using r by (simp add: runs_child_def)
  from child_local [OF r] obtain l where l: "l_at s w = Some l" "l_pending_exception l = NULL" .
  let ?L = "slot_map s p as" and ?M = "worker_map s (run c)" and ?R = "right_map s c"
  note start = moves_refl [of run p as c bs s]
  note ops = kf l child_writes [OF r] team_left [OF t] team_exceptions [OF t]
  show ?thesis
  proof (cases "?L = NULL \<and> ?M \<noteq> NULL \<and> ?R = NULL")
    case True
    let ?s = "put_wmap w NULL (put_slot (slot_of p as) ?M s)"
    note m1 = moves_slot [OF r, of ?M]
    have "fast_path_reductions_for_spawn_return w c s = Some (None, ?s)"
      using True ops child_writes(1) [OF moves_runs [OF m1 r]] by (simp add: fast_path_reductions_for_spawn_return_def)
    moreover have "moves run p as c bs s ?s ?M NULL ?R" by (rule moves_steps(2) [OF m1 r])
    ultimately show ?thesis using True by (intro exI conjI) auto
  next
    case a: False
    show ?thesis
    proof (cases "?L = NULL \<and> ?M = NULL \<and> ?R \<noteq> NULL")
      case True
      let ?s = "put_slot (Right_Of c) NULL (put_slot (slot_of p as) ?R s)"
      note m1 = moves_slot [OF r, of ?R]
      have "fast_path_reductions_for_spawn_return w c s = Some (None, ?s)"
        using True ops child_writes(2) [OF moves_runs [OF m1 r]] by (simp add: fast_path_reductions_for_spawn_return_def)
      moreover have "moves run p as c bs s ?s ?R ?M NULL" by (rule moves_steps(3) [OF m1 r])
      ultimately show ?thesis using True by (intro exI conjI) auto
    next
      case b: False
      have "fast_path_reductions_for_spawn_return w c s =
          Some (if ?M = NULL \<and> ?R = NULL then None else Some (slot_of p as), s)"
        using a b ops by (auto simp: fast_path_reductions_for_spawn_return_def)
      with start show ?thesis by (intro exI conjI) (auto split: if_splits)
    qed
  qed
qed

lemma slide_left_spec:
  assumes r: "runs_child s run p as c bs w"
  shows "\<exists>s' L M R. slide_left w c (slot_of p as) s = Some s' \<and> moves run p as c bs s s' L M R \<and>
    real_maps [L, M, R] = real_maps [slot_map s p as, worker_map s (run c), right_map s c] \<and> (M = NULL \<longrightarrow> R = NULL) \<and>
    (worker_map s (run c) \<noteq> NULL \<longrightarrow> L \<noteq> NULL)"
proof -
  from child_reads [OF r] obtain k f where kf: "wk_at s w = Some k" "wk_reducer_map k = worker_map s (run c)"
    "ff_at s c = Some f" "ff_right_reducer_map f = right_map s c" .
  let ?L = "slot_map s p as" and ?M = "worker_map s (run c)" and ?R = "right_map s c"
  define s1 where "s1 = (if ?L = NULL then put_wmap w NULL (put_slot (slot_of p as) ?M s) else s)"
  have m1: "moves run p as c bs s s1 (if ?L = NULL then ?M else ?L) (if ?L = NULL then NULL else ?M) ?R"
    using moves_steps(2) [OF moves_slot [OF r, of ?M] r, of NULL] moves_refl [of run p as c bs s] by (simp add: s1_def)
  note r1 = moves_runs [OF m1 r]
  from child_reads [OF r1] obtain k1 f1 where kf1: "wk_at s1 w = Some k1" "wk_reducer_map k1 = worker_map s1 (run c)"
    "ff_at s1 c = Some f1" "ff_right_reducer_map f1 = right_map s1 c" .
  define s2 where "s2 = (if worker_map s1 (run c) = NULL then put_slot (Right_Of c) NULL (put_wmap w ?R s1) else s1)"
  have M1: "worker_map s1 (run c) = (if ?L = NULL then NULL else ?M)" "right_map s1 c = ?R" using m1 by (simp_all add: moves_def)
  have m2: "moves run p as c bs s s2 (if ?L = NULL then ?M else ?L)
      (if ?L = NULL \<or> ?M = NULL then ?R else ?M) (if ?L = NULL \<or> ?M = NULL then NULL else ?R)"
    using moves_steps(3) [OF moves_steps(2) [OF m1 r] r, of NULL ?R] m1 M1 by (auto simp: s2_def)
  have "slide_left w c (slot_of p as) s = Some s2" (is ?go)
    using kf kf1 M1 child_writes [OF r] child_writes [OF moves_runs [OF moves_slot [OF r, of ?M] r]]
      child_writes(1) [OF r1] child_writes(2) [OF moves_runs [OF moves_steps(2) [OF m1 r, of ?R] r]]
    by (auto simp: slide_left_def s1_def s2_def)
  show ?thesis
  proof (intro exI conjI)
    show ?go by fact
    show "moves run p as c bs s s2 (if ?L = NULL then ?M else ?L)
      (if ?L = NULL \<or> ?M = NULL then ?R else ?M) (if ?L = NULL \<or> ?M = NULL then NULL else ?R)" by (rule m2)
  qed auto
qed

lemma slide_and_take_spec:
  assumes r: "runs_child s run p as c bs w"
  shows "\<exists>t s' L M R. slide_and_take w c (slot_of p as) s = Some (t, s') \<and> moves run p as c bs s s' L M R \<and>
    (case t of None \<Rightarrow> M = NULL \<and> R = NULL \<and>
        real_maps [L, M, R] = real_maps [slot_map s p as, worker_map s (run c), right_map s c]
     | Some (l, m, x) \<Rightarrow> L = NULL \<and> M = NULL \<and> R = NULL \<and> m \<noteq> NULL \<and> (worker_map s (run c) \<noteq> NULL \<longrightarrow> l \<noteq> NULL) \<and>
        real_maps [l, m, x] = real_maps [slot_map s p as, worker_map s (run c), right_map s c])"
proof -
  let ?old = "real_maps [slot_map s p as, worker_map s (run c), right_map s c]"
  from slide_left_spec [OF r] obtain s1 L M R where s1: "slide_left w c (slot_of p as) s = Some s1"
    "moves run p as c bs s s1 L M R" "real_maps [L, M, R] = ?old" "M = NULL \<longrightarrow> R = NULL"
    "worker_map s (run c) \<noteq> NULL \<longrightarrow> L \<noteq> NULL" by blast
  note r1 = moves_runs [OF s1(2) r]
  from child_reads [OF r1] obtain k where k: "wk_at s1 w = Some k" "wk_reducer_map k = worker_map s1 (run c)" .
  have v: "slot_map s1 p as = L" "worker_map s1 (run c) = M" "right_map s1 c = R" using s1(2) by (simp_all add: moves_def)
  show ?thesis
  proof (cases "M = NULL")
    case True
    then have "slide_and_take w c (slot_of p as) s = Some (None, s1)" using s1(1) k v by (simp add: slide_and_take_def)
    with s1 True show ?thesis by (intro exI conjI) auto
  next
    case False
    let ?s2 = "put_slot (slot_of p as) NULL s1"
    let ?s3 = "put_wmap w NULL ?s2"
    let ?s4 = "put_slot (Right_Of c) NULL ?s3"
    note m2 = moves_steps(1) [OF s1(2) r, of NULL]
    note m3 = moves_steps(2) [OF m2 r, of NULL]
    note m4 = moves_steps(3) [OF m3 r, of NULL]
    from child_reads [OF moves_runs [OF m3 r]] obtain f where f: "ff_at ?s3 c = Some f" "ff_right_reducer_map f = right_map ?s3 c" .
    have "right_map ?s3 c = R" using m3 by (simp add: moves_def)
    then have "take_maps w c (slot_of p as) s1 = Some ((L, M, R), ?s4)"
      using k v f child_writes [OF r1] child_writes(1) [OF moves_runs [OF m2 r]] child_writes(2) [OF moves_runs [OF m3 r]]
      by (simp add: take_maps_def)
    then have "slide_and_take w c (slot_of p as) s = Some (Some (L, M, R), ?s4)"
      using s1(1) k v False by (simp add: slide_and_take_def)
    with m4 s1(3,5) False show ?thesis by (intro exI conjI) auto
  qed
qed

section \<open>Merging without the lock\<close>

lemma put_wmap_same: "worker_map s w = NULL \<Longrightarrow> put_wmap w NULL s = s"
proof -
  assume w: "worker_map s w = NULL"
  have "put_wk w (k\<lparr>wk_reducer_map := NULL\<rparr>) s = s" if "wk_at s w = Some k" for k
    using w that by (intro put_wk_same) (cases k, simp_all add: worker_map_def)
  then show ?thesis by (simp add: put_wmap_def split: option.split)
qed

lemma merged_same_tree: "merged s l r p s' \<Longrightarrow> \<exists>m. s' = s\<lparr>rt_rm := m\<rparr>"
  unfolding merged_def by blast

lemma repeated_merge_spec:
  assumes l: "any_map s l" and r: "any_map s r" "l = NULL \<or> inner_map s r" and ne: "l = NULL \<or> r = NULL \<or> l \<noteq> r"
    and w: "wk_at s w = Some k" "wk_reducer_map k = NULL"
  shows "\<exists>p s'. repeated_merge_reducer_maps w l r s = Some (p, s') \<and> merged s l r p s'"
proof -
  from merge_reducer_maps_spec [OF l r ne] obtain p s' where m: "merge_reducer_maps l r s = Some (p, s')" "merged s l r p s'" by blast
  from merged_same_tree [OF m(2)] obtain x where x: "s' = s\<lparr>rt_rm := x\<rparr>" by blast
  then have k: "wk_at s' w = Some k" using w by (simp add: wk_at_def)
  then have "put_wmap w NULL s' = s'" using w(2) by (intro put_wmap_same) (simp add: worker_map_def)
  then have "set_wmap w NULL s' = Some s'" using k by (simp add: set_wmap_def put_wmap_def)
  then have "repeated_merge_reducer_maps w l r s = Some (p, s')"
    using m(1) k w(2) by (subst repeated_merge_reducer_maps.simps) simp
  with m(2) show ?thesis by blast
qed

lemma merge_taken_spec:
  assumes c: "runs_child s run p as c bs w" "worker_map s (run c) = NULL"
    and ok: "maps_ok s [lm, mm, rm]" and m0: "mm \<noteq> NULL"
  shows "\<exists>s' x. merge_taken w c lm mm rm s = Some s' \<and> x \<noteq> NULL \<and> x \<in> {lm, mm, rm} \<and>
    s' = put_wmap w x (s\<lparr>rt_rm := rt_rm s'\<rparr>) \<and> any_map s' x \<and>
    ((\<forall>q\<in>{lm, mm, rm}. q \<noteq> NULL \<longrightarrow> inner_map s q) \<longrightarrow> inner_map s' x) \<and>
    (\<forall>k. map_view s' x k = serial_view s [lm, mm, rm] k) \<and> (\<forall>q. q \<notin> {lm, mm, rm} \<longrightarrow> rt_rm s' q = rt_rm s q)"
proof -
  from child_reads [OF c(1)] obtain k f where k: "wk_at s w = Some k" "wk_reducer_map k = NULL"
    and f: "ff_at s c = Some f" "ff_pending_exception f = NULL" using c(2) by metis
  from child_local [OF c(1)] obtain l where l: "l_at s w = Some l" "l_pending_exception l = NULL" .
  have null: "any_map s NULL" "inner_map s NULL" by (simp_all add: any_map_def inner_map_def)
  have o: "any_map s lm" "any_map s mm" "any_map s rm" "lm = NULL \<or> inner_map s mm" "inner_map s rm"
    "lm = NULL \<or> lm \<noteq> mm" "rm = NULL \<or> mm \<noteq> rm" "rm = NULL \<or> lm \<noteq> rm"
    using ok m0 null by (auto simp: maps_ok_def split: if_splits)
  have "lm = NULL \<or> mm = NULL \<or> lm \<noteq> mm" using o(6) by blast
  from repeated_merge_spec [OF o(1,2,4) this k] obtain x1 s1 where m1: "repeated_merge_reducer_maps w lm mm s = Some (x1, s1)"
    "merged s lm mm x1 s1" by blast
  from merged_same_tree [OF m1(2)] obtain r1 where r1: "s1 = s\<lparr>rt_rm := r1\<rparr>" by blast
  have k1: "wk_at s1 w = Some k" using k r1 by (simp add: wk_at_def)
  have rm: "rm = NULL \<or> rt_rm s1 rm = rt_rm s rm" using m1(2) o(7,8) unfolding merged_def by metis
  then have rm1: "any_map s1 rm" "inner_map s1 rm" "map_view s1 rm k = map_view s rm k" for k
    using o(3,5) by (auto simp: any_map_def inner_map_def map_view_def)
  have x1: "any_map s1 x1" "x1 \<noteq> NULL" "x1 \<in> {lm, mm}" using m1(2) m0 by (auto simp: merged_def)
  then have "x1 = NULL \<or> rm = NULL \<or> x1 \<noteq> rm" using o(7,8) by blast
  from repeated_merge_spec [OF x1(1) rm1(1) disjI2 [OF rm1(2)] this k1 k(2)] obtain x s2
    where m2: "repeated_merge_reducer_maps w x1 rm s1 = Some (x, s2)" "merged s1 x1 rm x s2" by blast
  from merged_same_tree [OF m2(2)] obtain r2 where "s2 = s1\<lparr>rt_rm := r2\<rparr>" by blast
  then have r2: "s2 = s\<lparr>rt_rm := r2\<rparr>" using r1 by simp
  let ?s3 = "put_wmap w x s2"
  have at: "wk_at s2 w = Some k" "ff_at s2 c = Some f" using k f r2 by (simp_all add: wk_at_def ff_at_def)
  then have w3: "set_wmap w x s2 = Some ?s3" "ff_at ?s3 c = Some f" "wk_at ?s3 w = Some (k\<lparr>wk_reducer_map := x\<rparr>)"
    by (simp_all add: set_wmap_def put_wmap_def)
  have kl: "wk_l k = l" using l(1) k by (simp add: l_at_wk)
  have "put_ff c (f\<lparr>ff_pending_exception := NULL\<rparr>) ?s3 = ?s3"
    by (rule put_ff_same [OF w3(2) no_exception_same(1) [OF f(2)]])
  moreover have "l\<lparr>l_pending_exception := NULL\<rparr> = l" using l(2) by (cases l) simp
  then have "put_wk w (k\<lparr>wk_reducer_map := x, wk_l := l\<lparr>l_pending_exception := NULL\<rparr>\<rparr>) ?s3 = ?s3"
    using kl by (intro put_wk_same [OF w3(3)]) (cases k, simp)
  ultimately have e: "ff_mod c (\<lambda>f. f\<lparr>ff_pending_exception := NULL\<rparr>) ?s3 = Some ?s3"
    "l_mod w (\<lambda>l. l\<lparr>l_pending_exception := NULL\<rparr>) ?s3 = Some ?s3"
    using w3 kl by simp_all
  have "l_at ?s3 w = Some l" using w3(3) kl by (simp add: l_at_wk)
  then have go: "merge_taken w c lm mm rm s = Some ?s3"
    using m1(1) m2(1) at w3 k(2) f(2) l(2) e by (simp add: merge_taken_def del: ff_mod_put l_mod_put)
  have rt: "rt_rm ?s3 = rt_rm s2" by simp
  have mv: "map_view ?s3 = map_view s2" "any_map ?s3 = any_map s2" "inner_map ?s3 = inner_map s2"
    unfolding map_view_def any_map_def inner_map_def rt by simp_all
  have A: "x \<noteq> NULL" "x \<in> {lm, mm, rm}" using m2(2) x1 by (auto simp: merged_def)
  have B: "any_map s2 x" using m2(2) by (simp add: merged_def)
  have C: "inner_map s2 x" if "\<forall>q\<in>{lm, mm, rm}. q \<noteq> NULL \<longrightarrow> inner_map s q"
    using that m2(2) m1(2) rm1(2) null(2) unfolding merged_def by (metis insertCI)
  have D: "map_view s2 x k = serial_view s [lm, mm, rm] k" for k
    using m2(2) m1(2) rm1(3) by (simp add: merged_def)
  have "\<forall>q. q \<noteq> lm \<and> q \<noteq> mm \<longrightarrow> rt_rm s1 q = rt_rm s q" "\<forall>q. q \<noteq> x1 \<and> q \<noteq> rm \<longrightarrow> rt_rm s2 q = rt_rm s1 q"
    using m1(2) m2(2) unfolding merged_def by blast+
  then have E: "rt_rm s2 q = rt_rm s q" if "q \<notin> {lm, mm, rm}" for q using that x1(3) by (metis insertCI insertE singletonD)
  have F: "?s3 = put_wmap w x (s\<lparr>rt_rm := rt_rm ?s3\<rparr>)" using r2 by simp
  show ?thesis by (rule exI [of _ ?s3], rule exI [of _ x]) (use go A B C D E F mv in \<open>simp\<close>)
qed

section \<open>Leaving the tree\<close>

text \<open>The states have the same maps everywhere.\<close>

definition same_maps :: "rts \<Rightarrow> rts \<Rightarrow> bool" where
  "same_maps s s' \<longleftrightarrow> rt_rm s' = rt_rm s \<and> children_map s' = children_map s \<and> right_map s' = right_map s \<and>
     worker_map s' = worker_map s"

lemma same_maps_along: "same_maps s s' \<Longrightarrow> maps_along s' run taken p cs = maps_along s run taken p cs"
  by (rule maps_along_cong) (simp_all add: same_maps_def)

lemma same_maps_trans: "same_maps s s1 \<Longrightarrow> same_maps s1 s2 \<Longrightarrow> same_maps s s2"
  by (simp add: same_maps_def)

lemma same_maps_put_ff: "ff_at s q = Some f \<Longrightarrow> ff_children_reducer_map g = ff_children_reducer_map f \<Longrightarrow>
    ff_right_reducer_map g = ff_right_reducer_map f \<Longrightarrow> same_maps s (put_ff q g s)"
  by (auto simp: same_maps_def children_map_def right_map_def worker_map_def fun_eq_iff split: option.split)

lemma same_maps_put_wk: "wk_at s w = Some k \<Longrightarrow> wk_reducer_map j = wk_reducer_map k \<Longrightarrow> same_maps s (put_wk w j s)"
  by (auto simp: same_maps_def children_map_def right_map_def worker_map_def fun_eq_iff put_wk_def ff_at_def wk_at_def split: option.split)

lemma same_maps_relinked:
  assumes r: "relinked s s'"
  shows "same_maps s s'"
proof -
  have "children_map s' q = children_map s q \<and> right_map s' q = right_map s q" for q
  proof (cases "ff_at s q")
    case None
    then have "ff_at s' q = None" using r unfolding relinked_def by (metis option.map_disc_iff)
    with None show ?thesis by (simp add: children_map_def right_map_def)
  next
    case (Some f)
    from relinked_at [OF r Some] obtain f' where f': "ff_at s' q = Some f'" "no_links f' = no_links f" .
    show ?thesis using Some f'(1) no_links_fields(7,8) [OF f'(2)] by (simp add: children_map_def right_map_def)
  qed
  then show ?thesis using relinked_rest [OF r] by (simp add: same_maps_def fun_eq_iff worker_map_def wk_at_def)
qed

text \<open>The child leaves: it is out of the list, its fiber is passed up or left to be freed, the maps stay.\<close>

lemma finish_spec:
  assumes r: "runs_child s run p as c bs w" and P: "ff_at s p = Some P"
  shows "\<exists>s' P'. finish_spawn_return_on_user_stack w p c s = Some s' \<and> team s' run p (as @ bs) \<and> same_maps s s' \<and>
    ff_at s' p = Some P' \<and> ff_lock P' = ff_lock P \<and>
    ff_fiber_child P' = (if as = [] \<and> ff_fiber_child P = NULL then the (fiber_of s c) else ff_fiber_child P) \<and>
    (\<forall>v. (wk_at s' v = None) = (wk_at s v = None)) \<and>
    (\<exists>f. ff_at s' c = Some f \<and> ff_parent f = p \<and> ff_fiber_self f = NULL)"
proof -
  have t: "team s run p (as @ c # bs)" and w: "w = run c" using r by (simp_all add: runs_child_def)
  from team_ff [OF t, of c] obtain C where C: "ff_at s c = Some C" "ff_parent C = p" "ff_pending_exception C = NULL"
    "ff_right_pending_exception C = NULL" by auto
  from child_reads [OF r] obtain k where k: "wk_at s w = Some k" .
  from child_local [OF r] obtain l where l: "l_at s w = Some l" "l_fiber_to_free l = NULL" .
  note cf = child_facts [OF r]
  have cp: "c \<noteq> p" using cf(2) by auto
  have K: "kids s p (as @ c # bs)" and p0: "p \<noteq> NULL" and Pe: "ff_child_pending_exception P = NULL"
    and fib: "distinct (Some (ff_fiber_child P) # map (fiber_of s) (as @ c # bs))"
    using t P by (auto simp: team_def)
  have left: "(ff_left_sibling C \<noteq> NULL) = (as \<noteq> [])"
    using K C(1) lseg_frame_at [of s NULL as c "last as"] by (auto simp: kids_def lseg_append last_or_def)
  have fne: "ff_fiber_child P \<noteq> ff_fiber_self C" using fib C(1) by (auto simp: fiber_of_def)
  define up where "up = (as = [] \<and> ff_fiber_child P = NULL)"
  define P1 where "P1 = (if up then P\<lparr>ff_fiber_child := ff_fiber_self C\<rparr> else P)"
  define k1 where "k1 = k\<lparr>wk_l := (wk_l k)\<lparr>l_fiber_to_free := if up then NULL else ff_fiber_self C\<rparr>\<rparr>"
  define s1 where "s1 = put_ff c (C\<lparr>ff_fiber_self := NULL\<rparr>) (put_wk w k1 (put_ff p P1 s))"
  have PP: "put_ff p P s = s" by (rule put_ff_same [OF P refl])
  have "kids (put_wk w k1 (put_ff p P1 s)) p (as @ c # bs)" using kids_put_ff [OF K P, of P1] by (simp add: P1_def)
  then have K1: "kids s1 p (as @ c # bs)" unfolding s1_def
    by (rule kids_put_ff [where f = C]) (use C cp in simp_all)
  from unlink_child_spec [OF K1] obtain s2 where s2: "unlink_child p c s1 = Some s2" "kids s2 p (as @ bs)" "relinked s1 s2" by blast
  have go: "finish_spawn_return_on_user_stack w p c s = Some s2"
  proof (cases up)
    case True
    then show ?thesis using k l C P cp p0 left s2(1)
      by (simp add: finish_spawn_return_on_user_stack_def up_def s1_def P1_def k1_def)
  next
    case False
    then have "as \<noteq> [] \<or> ff_fiber_child P \<noteq> NULL" by (auto simp: up_def)
    then show ?thesis using False k l C P cp p0 left fne s2(1) PP
      by (simp add: finish_spawn_return_on_user_stack_def s1_def P1_def k1_def)
  qed
  have m1: "same_maps s s1" unfolding s1_def using P C k cp
    by (intro same_maps_trans [OF same_maps_trans [OF same_maps_put_ff [OF P] same_maps_put_wk [where k = k]] same_maps_put_ff [where f = C]])
       (simp_all add: P1_def k1_def)
  note m = same_maps_trans [OF m1 same_maps_relinked [OF s2(3)]]
  have at1: "ff_at s1 q = (if q = c then Some (C\<lparr>ff_fiber_self := NULL\<rparr>) else if q = p then Some P1 else ff_at s q)" for q
    by (simp add: s1_def)
  have "ff_at s1 p = Some P1" using at1 cp by simp
  from relinked_at [OF s2(3) this] obtain P' where P': "ff_at s2 p = Some P'" "no_links P' = no_links P1" .
  have "ff_at s1 c = Some (C\<lparr>ff_fiber_self := NULL\<rparr>)" using at1 by simp
  from relinked_at [OF s2(3) this] obtain C' where C': "ff_at s2 c = Some C'" "no_links C' = no_links (C\<lparr>ff_fiber_self := NULL\<rparr>)" .
  have wk: "wk_at s2 v = (if v = w then Some k1 else wk_at s v)" for v
    using relinked_rest [OF s2(3)] by (simp add: wk_at_def s1_def put_ff_def put_wk_def)
  have others: "\<exists>f f'. ff_at s q = Some f \<and> ff_at s2 q = Some f' \<and> no_links f' = no_links f" if q: "q \<in> set (as @ bs)" for q
  proof -
    have "q \<noteq> c" "q \<noteq> p" using q cf(1,2) by auto
    moreover from team_ff [OF t, of q] q obtain f where "ff_at s q = Some f" by auto
    ultimately have "ff_at s1 q = Some f" "ff_at s q = Some f" using at1 by simp_all
    then show ?thesis by (metis relinked_at [OF s2(3)])
  qed
  have "fiber_of s2 q = fiber_of s q" if "q \<in> set (as @ bs)" for q
  proof -
    from others [OF that] obtain f f' where f: "ff_at s q = Some f" "ff_at s2 q = Some f'" "no_links f' = no_links f" by blast
    then show ?thesis using no_links_fields(5) [OF f(3)] by (simp add: fiber_of_def)
  qed
  then have fo: "map (fiber_of s2) (as @ bs) = map (fiber_of s) (as @ bs)" by simp
  have fc: "ff_fiber_child P' = (if up then ff_fiber_self C else ff_fiber_child P)"
    using no_links_fields(6) [OF P'(2)] by (simp add: P1_def)
  have fs: "fiber_of s c = Some (ff_fiber_self C)" using C(1) by (simp add: fiber_of_def)
  have "distinct (Some (ff_fiber_child P') # map (fiber_of s2) (as @ bs))"
    using fib fs unfolding fo fc up_def by (cases "as = [] \<and> ff_fiber_child P = NULL") auto
  moreover have "ff_child_pending_exception P' = NULL"
    using no_links_fields(14) [OF P'(2)] Pe by (simp add: P1_def)
  moreover have "\<exists>f. ff_at s2 q = Some f \<and> ff_parent f = p \<and> ff_pending_exception f = NULL \<and> ff_right_pending_exception f = NULL"
    if q: "q \<in> set (as @ bs)" for q
  proof -
    from others [OF q] obtain f f' where f: "ff_at s q = Some f" "ff_at s2 q = Some f'" "no_links f' = no_links f" by blast
    moreover have "ff_parent f = p \<and> ff_pending_exception f = NULL \<and> ff_right_pending_exception f = NULL"
      using team_ff [OF t, of q] q f(1) by auto
    ultimately show ?thesis using no_links_fields(3,13,15) [OF f(3)] by simp
  qed
  moreover have "\<forall>a\<in>set (as @ bs). \<forall>b\<in>set (as @ bs). wk_at s2 (run a) \<noteq> None \<and> run a = run b \<longrightarrow> a = b"
  proof -
    have "\<forall>a\<in>set (as @ c # bs). \<forall>b\<in>set (as @ c # bs). wk_at s (run a) \<noteq> None \<and> run a = run b \<longrightarrow> a = b"
      using t unfolding team_def by blast
    moreover have "wk_at s2 v \<noteq> None \<Longrightarrow> wk_at s v \<noteq> None" for v using wk k by (auto split: if_splits)
    moreover have "set (as @ bs) \<subseteq> set (as @ c # bs)" by auto
    ultimately show ?thesis by (meson subsetD)
  qed
  moreover have "idle_local s2 (run a)" if "a \<in> set (as @ bs)" for a
  proof -
    have "run a \<noteq> w" using other_worker [OF r, of a] that w by auto
    then have "l_at s2 (run a) = l_at s (run a)" using wk by (simp add: l_at_def)
    moreover have "idle_local s (run a)" using t that by (auto simp: team_def)
    ultimately show ?thesis by (simp add: idle_local_def)
  qed
  ultimately have "team s2 run p (as @ bs)" using p0 s2(2) P'(1) unfolding team_def by blast
  moreover have "ff_lock P' = ff_lock P" using no_links_fields(11) [OF P'(2)] by (simp add: P1_def)
  moreover have "ff_fiber_child P' = (if as = [] \<and> ff_fiber_child P = NULL then the (fiber_of s c) else ff_fiber_child P)"
    using fc fs by (simp add: up_def)
  moreover have "\<forall>v. (wk_at s2 v = None) = (wk_at s v = None)" using wk k by simp
  moreover have "ff_parent C' = p \<and> ff_fiber_self C' = NULL" using no_links_fields(3,5) [OF C'(2)] C(2) by simp
  ultimately show ?thesis using go m P'(1) C'(1) by blast
qed

section \<open>A spawn return\<close>

definition same_but_lock :: "mutex \<Rightarrow> rts \<Rightarrow> ptr \<Rightarrow> rts" where
  "same_but_lock m s p = (case ff_at s p of None \<Rightarrow> s | Some P \<Rightarrow> put_ff p (P\<lparr>ff_lock := m\<rparr>) s)"

lemma relock:
  assumes P: "ff_at s p = Some P"
  shows "same_maps s (same_but_lock m s p)" "team s run p cs \<Longrightarrow> team (same_but_lock m s p) run p cs"
    "wk_at (same_but_lock m s p) v = wk_at s v" "ff_at (same_but_lock m s p) p = Some (P\<lparr>ff_lock := m\<rparr>)"
    "q \<noteq> p \<Longrightarrow> ff_at (same_but_lock m s p) q = ff_at s q"
proof -
  have e: "same_but_lock m s p = put_ff p (P\<lparr>ff_lock := m\<rparr>) s" using P by (simp add: same_but_lock_def)
  show "same_maps s (same_but_lock m s p)" unfolding e by (rule same_maps_put_ff [OF P]) simp_all
  show "wk_at (same_but_lock m s p) v = wk_at s v" "ff_at (same_but_lock m s p) p = Some (P\<lparr>ff_lock := m\<rparr>)"
    "q \<noteq> p \<Longrightarrow> ff_at (same_but_lock m s p) q = ff_at s q" unfolding e by simp_all
  assume t: "team s run p cs"
  then have k: "kids s p cs" and pn: "p \<notin> set cs" by (auto simp: team_def kids_def)
  have "fiber_of (put_ff p (P\<lparr>ff_lock := m\<rparr>) s) c = fiber_of s c" for c using P by (simp add: fiber_of_def)
  then have "fiber_of (put_ff p (P\<lparr>ff_lock := m\<rparr>) s) = fiber_of s" by (rule ext)
  moreover have "kids (put_ff p (P\<lparr>ff_lock := m\<rparr>) s) p cs" using kids_put_ff [OF k P] by simp
  moreover have "ff_at (put_ff p (P\<lparr>ff_lock := m\<rparr>) s) c = ff_at s c" if "c \<in> set cs" for c using that pn by auto
  moreover have "\<forall>c\<in>set cs. \<forall>d\<in>set cs. wk_at (put_ff p (P\<lparr>ff_lock := m\<rparr>) s) (run c) \<noteq> None \<and> run c = run d \<longrightarrow> c = d"
    unfolding put_ff_at using t unfolding team_def by blast
  ultimately show "team (same_but_lock m s p) run p cs" using t P unfolding e
    by (subst team_def) (auto simp: team_def idle_local_def)
qed

lemma relock_lock:
  assumes "ff_at s p = Some P"
  shows "ff_lock P = free_lock \<Longrightarrow> frame_lock w p s = Some (same_but_lock (held_by w) s p)"
    "ff_lock P = held_by w \<Longrightarrow> frame_unlock w p s = Some (same_but_lock free_lock s p)"
  using assms by (simp_all add: same_but_lock_def frame_lock_put frame_unlock_put)

text \<open>The steps keep the maps well formed and their views in serial order.\<close>

definition keeps :: "(ptr \<Rightarrow> ptr) \<Rightarrow> ptr \<Rightarrow> rts \<Rightarrow> (ptr \<Rightarrow> ptr list) \<Rightarrow> ptr list \<Rightarrow> rts \<Rightarrow> (ptr \<Rightarrow> ptr list) \<Rightarrow> ptr list \<Rightarrow> bool" where
  "keeps run p s taken cs s' taken' cs' \<longleftrightarrow> (maps_ok s (maps_along s run taken p cs) \<longrightarrow>
     maps_ok s' (maps_along s' run taken' p cs') \<and>
     (\<forall>k. serial_view s' (maps_along s' run taken' p cs') k = serial_view s (maps_along s run taken p cs) k))"

lemma keeps_trans: "keeps run p s tk cs s1 tk1 cs1 \<Longrightarrow> keeps run p s1 tk1 cs1 s2 tk2 cs2 \<Longrightarrow> keeps run p s tk cs s2 tk2 cs2"
  unfolding keeps_def by metis

text \<open>The number of maps along a frame.\<close>

definition map_count :: "(ptr \<Rightarrow> ptr) \<Rightarrow> rts \<Rightarrow> ptr \<Rightarrow> ptr list \<Rightarrow> nat" where
  "map_count run s p cs = length (real_maps (maps_along s run (\<lambda>_. []) p cs))"

lemma real_maps_around: "length (real_maps (A @ [u] @ [] @ [v, w] @ B)) = length (real_maps A) + length (real_maps [u, v, w]) + length (real_maps B)"
  by simp

lemma count_moves:
  assumes "moves run p as c bs s s' L M R"
  shows "map_count run s' p (as @ c # bs) + length (real_maps [slot_map s p as, worker_map s (run c), right_map s c]) =
    map_count run s p (as @ c # bs) + length (real_maps [L, M, R])"
  unfolding map_count_def moves_maps [OF assms] maps_split [of s] real_maps_around by (simp only: add.commute add.left_commute)

lemma count_leave:
  assumes "same_maps s s'" "worker_map s (run c) = NULL" "right_map s c = NULL"
  shows "map_count run s' p (as @ bs) = map_count run s p (as @ c # bs)"
  unfolding map_count_def same_maps_along [OF assms(1)] maps_split_off [of s _ _ _ as bs] maps_split using assms by simp

lemma count_merge:
  assumes r: "runs_child s run p as c bs w" and n: "worker_map s (run c) = NULL" "worker_map s' (run c) \<noteq> NULL"
    and same: "children_map s' = children_map s" "right_map s' = right_map s" "\<forall>v. v \<noteq> w \<longrightarrow> worker_map s' v = worker_map s v"
  shows "map_count run s' p (as @ c # bs) = map_count run s p (as @ c # bs) + 1"
proof -
  have w: "w = run c" using r by (simp add: runs_child_def)
  have "before s' run (\<lambda>_. []) p as = before s run (\<lambda>_. []) p as" "after s' run (\<lambda>_. []) bs = after s run (\<lambda>_. []) bs"
    using other_worker [OF r] same w by (auto intro!: before_cong after_cong)
  moreover have "slot_map s' p as = slot_map s p as" using same by (simp add: slot_map_def)
  ultimately show ?thesis unfolding map_count_def maps_split using n same by simp
qed

lemma keeps_real:
  assumes "rt_rm s' = rt_rm s" "real_maps (maps_along s' run taken' p cs') = real_maps (maps_along s run taken p cs)"
  shows "keeps run p s taken cs s' taken' cs'"
proof -
  have "map_view s' = map_view s" "any_map s' = any_map s" "inner_map s' = inner_map s"
    by (simp_all add: fun_eq_iff map_view_def any_map_def inner_map_def assms(1))
  then have "maps_ok s' ms = maps_ok s ms" "serial_view s' ms k = serial_view s ms k" for ms k
    by (simp_all add: maps_ok_def serial_view_def)
  then show ?thesis using assms(2) maps_ok_cong_real serial_view_cong_real unfolding keeps_def by metis
qed

lemma keeps_same: "same_maps s s' \<Longrightarrow> keeps run p s taken cs s' taken cs"
  by (rule keeps_real) (simp_all add: same_maps_along, simp add: same_maps_def)

lemma keeps_moves:
  assumes "moves run p as c bs s s' L M R" "taken c = []"
    "real_maps [L, M, R] = real_maps [slot_map s p as, worker_map s (run c), right_map s c]"
  shows "keeps run p s taken (as @ c # bs) s' taken (as @ c # bs)"
proof (rule keeps_real)
  show "rt_rm s' = rt_rm s" using assms(1) by (simp add: moves_def)
  have "real_maps ([L] @ [M, R]) = real_maps ([slot_map s p as] @ [worker_map s (run c), right_map s c])"
    using assms(3) by (simp only: append_Cons append_Nil)
  then show "real_maps (maps_along s' run taken p (as @ c # bs)) = real_maps (maps_along s run taken p (as @ c # bs))"
    unfolding moves_maps [OF assms(1)] maps_split [of s] assms(2) real_maps_simps(3) by simp
qed

lemma keeps_take:
  assumes "moves run p as c bs s s' NULL NULL NULL" "taken c = []" "c \<notin> set as" "c \<notin> set bs"
    "real_maps [l, m, r] = real_maps [slot_map s p as, worker_map s (run c), right_map s c]"
  shows "keeps run p s taken (as @ c # bs) s' (taken(c := [l, m, r])) (as @ c # bs)"
proof (rule keeps_real)
  show "rt_rm s' = rt_rm s" using assms(1) by (simp add: moves_def)
  have b: "before s run (taken(c := [l, m, r])) p as = before s run taken p as" using assms(3) by (intro before_cong) auto
  have a: "after s run (taken(c := [l, m, r])) bs = after s run taken bs" using assms(4) by (intro after_cong) auto
  have x: "real_maps (X @ [NULL] @ [l, m, r] @ [NULL, NULL] @ Y) = real_maps X @ real_maps [l, m, r] @ real_maps Y" for X Y by simp
  have y: "real_maps (X @ [u] @ [] @ [v, w] @ Y) = real_maps X @ real_maps [u, v, w] @ real_maps Y" for X u v w Y by simp
  show "real_maps (maps_along s' run (taken(c := [l, m, r])) p (as @ c # bs)) = real_maps (maps_along s run taken p (as @ c # bs))"
    unfolding moves_maps [OF assms(1)] maps_split [of s run taken] a b assms(2) fun_upd_same
    by (simp only: x y assms(5))
qed

lemma keeps_leave:
  assumes "same_maps s s'" "taken c = []" "worker_map s (run c) = NULL" "right_map s c = NULL"
  shows "keeps run p s taken (as @ c # bs) s' taken (as @ bs)"
proof (rule keeps_real)
  show "rt_rm s' = rt_rm s" using assms(1) by (simp add: same_maps_def)
  have "maps_along s run taken p (as @ c # bs) = before s run taken p as @ [slot_map s p as, NULL, NULL] @ after s run taken bs"
    unfolding maps_split using assms by simp
  then show "real_maps (maps_along s' run taken p (as @ bs)) = real_maps (maps_along s run taken p (as @ c # bs))"
    unfolding same_maps_along [OF assms(1)] maps_split_off [of s run taken p as bs] by simp
qed

lemma maps_ok_sub:
  assumes "maps_ok s (A @ ms @ B)"
  shows "maps_ok s ms"
proof -
  have e: "real_maps (A @ ms @ B) = real_maps A @ real_maps ms @ real_maps B" by simp
  have t: "set (tl zs) \<subseteq> set (tl (xs @ zs @ ys))" for xs ys zs :: "ptr list" by (cases xs; cases zs) auto
  show ?thesis using assms t [of "real_maps ms" "real_maps A" "real_maps B"] unfolding maps_ok_def e by auto
qed

lemma keeps_merge:
  assumes r: "runs_child s run p as c bs w" and tk: "taken c = [l, m, x]" and n: "worker_map s (run c) = NULL"
    and m0: "m \<noteq> NULL" and ok: "maps_ok s (maps_along s run taken p (as @ c # bs))"
  shows "\<exists>s'. merge_taken w c l m x s = Some s' \<and> same_tree s s' \<and> worker_map s' (run c) \<noteq> NULL \<and>
    children_map s' = children_map s \<and> right_map s' = right_map s \<and> (\<forall>v. v \<noteq> w \<longrightarrow> worker_map s' v = worker_map s v) \<and>
    keeps run p s taken (as @ c # bs) s' (taken(c := [])) (as @ c # bs)"
proof -
  let ?A = "before s run taken p as @ [slot_map s p as]" and ?B = "[right_map s c] @ after s run taken bs"
  have e: "real_maps (maps_along s run taken p (as @ c # bs)) = real_maps (?A @ [l, m, x] @ ?B)"
    unfolding maps_split using tk n by simp
  then have ok': "maps_ok s (?A @ [l, m, x] @ ?B)" using ok maps_ok_cong_real by blast
  from merge_taken_spec [OF r n maps_ok_sub [OF ok'] m0] obtain s' y where s': "merge_taken w c l m x s = Some s'" "y \<noteq> NULL" "y \<in> {l, m, x}"
    "s' = put_wmap w y (s\<lparr>rt_rm := rt_rm s'\<rparr>)" "any_map s' y"
    "(\<forall>q\<in>{l, m, x}. q \<noteq> NULL \<longrightarrow> inner_map s q) \<longrightarrow> inner_map s' y" "\<forall>k. map_view s' y k = serial_view s [l, m, x] k"
    "\<forall>q. q \<notin> {l, m, x} \<longrightarrow> rt_rm s' q = rt_rm s q" by blast
  note seg = merged_segment [OF ok', of y s']
  have "y \<in> set [l, m, x]" "\<forall>q\<in>set [l, m, x]. q \<noteq> NULL \<longrightarrow> inner_map s q \<Longrightarrow> inner_map s' y" using s'(3,6) by auto
  from seg [OF this(1) s'(2,5) this(2)] have seg: "maps_ok s' (?A @ [y] @ ?B)"
      "serial_view s' (?A @ [y] @ ?B) k = serial_view s (?A @ [l, m, x] @ ?B) k" for k
    using s'(7,8) by auto
  have wk: "wk_at s w \<noteq> None" "w = run c" using r by (auto simp: runs_child_def)
  have wm: "worker_map s' v = (if v = w then y else worker_map s v)" for v
    by (subst s'(4)) (use wk in \<open>simp add: wk_at_def\<close>)
  have fm: "children_map s' = children_map s" "right_map s' = right_map s"
    by (rule ext, subst s'(4), simp)+
  have st: "same_tree s s'" by (subst s'(4)) simp
  have cf: "c \<notin> set as" "c \<notin> set bs" using child_facts(1) [OF r] by auto
  have ow: "a \<in> set as \<union> set bs \<Longrightarrow> worker_map s' (run a) = worker_map s (run a)" for a
    using other_worker [OF r, of a] wm wk by auto
  have "before s' run (taken(c := [])) p as = before s run taken p as" "after s' run (taken(c := [])) bs = after s run taken bs"
    using cf ow by (auto intro!: before_cong after_cong simp: fm)
  then have e': "maps_along s' run (taken(c := [])) p (as @ c # bs) = ?A @ [y] @ ?B"
    unfolding maps_split using wm wk fm by (simp add: slot_map_def)
  have "keeps run p s taken (as @ c # bs) s' (taken(c := [])) (as @ c # bs)"
    unfolding keeps_def e' using seg serial_view_cong_real [OF e] by simp
  then show ?thesis using s'(1,2) st wm wk fm by auto
qed

end
