(* ===== verification/Spawn_Return.thy ===== *)
theory Spawn_Return
  imports Serial_Order
begin

text \<open>
  Returns from spawns to a stolen parent, one alone and any number interleaved. A return is a
  sequence of sections under the lock of the parent, with merges in between: the first section is
  the fast path and an iteration of the slow path, the others are iterations of the slow path, and
  the last one takes the child out of the tree.
\<close>

section \<open>Sections\<close>

definition first_section :: "ptr \<Rightarrow> ptr \<Rightarrow> rts \<Rightarrow> ((ptr \<times> ptr \<times> ptr) option \<times> rts) proc" where
  "first_section w c s = do {
     (left, s) \<leftarrow> fast_path_reductions_for_spawn_return w c s;
     (case left of None \<Rightarrow> Some (None, s) | Some left \<Rightarrow> slide_and_take w c left s) }"

definition next_section :: "ptr \<Rightarrow> ptr \<Rightarrow> rts \<Rightarrow> ((ptr \<times> ptr \<times> ptr) option \<times> rts) proc" where
  "next_section w c s = do {
     (left, s) \<leftarrow> relocate_left c s;
     slide_and_take w c left s }"

text \<open>What a section may do to a locked state: nothing is left to merge, or it took three maps.\<close>

definition section_result :: "(ptr \<Rightarrow> ptr) \<Rightarrow> ptr \<Rightarrow> ptr list \<Rightarrow> ptr \<Rightarrow> ptr list \<Rightarrow> rts \<Rightarrow> (ptr \<times> ptr \<times> ptr) option \<Rightarrow> rts \<Rightarrow> bool" where
  "section_result run p as c bs s t s' \<longleftrightarrow> (\<exists>L M R. moves run p as c bs s s' L M R \<and>
     (case t of None \<Rightarrow> M = NULL \<and> R = NULL \<and>
        real_maps [L, M, R] = real_maps [slot_map s p as, worker_map s (run c), right_map s c]
      | Some (l, m, x) \<Rightarrow> L = NULL \<and> M = NULL \<and> R = NULL \<and> m \<noteq> NULL \<and>
        real_maps [l, m, x] = real_maps [slot_map s p as, worker_map s (run c), right_map s c]))"

lemma next_section_spec:
  assumes r: "runs_child s run p as c bs w"
  shows "\<exists>t s'. next_section w c s = Some (t, s') \<and> section_result run p as c bs s t s' \<and>
    (worker_map s (run c) \<noteq> NULL \<longrightarrow> (\<forall>l m x. t = Some (l, m, x) \<longrightarrow> l \<noteq> NULL))"
proof -
  have "relocate_left c s = Some (slot_of p as, s)" using r unfolding runs_child_def by (blast intro: team_relocate)
  moreover from slide_and_take_spec [OF r] obtain t s' L M R where
    "slide_and_take w c (slot_of p as) s = Some (t, s')" "moves run p as c bs s s' L M R"
    "case t of None \<Rightarrow> M = NULL \<and> R = NULL \<and>
        real_maps [L, M, R] = real_maps [slot_map s p as, worker_map s (run c), right_map s c]
     | Some (l, m, x) \<Rightarrow> L = NULL \<and> M = NULL \<and> R = NULL \<and> m \<noteq> NULL \<and> (worker_map s (run c) \<noteq> NULL \<longrightarrow> l \<noteq> NULL) \<and>
        real_maps [l, m, x] = real_maps [slot_map s p as, worker_map s (run c), right_map s c]" by blast
  ultimately show ?thesis unfolding section_result_def next_section_def
    by (cases t) (force simp del: real_maps_simps)+
qed

lemma first_section_spec:
  assumes r: "runs_child s run p as c bs w"
  shows "\<exists>t s'. first_section w c s = Some (t, s') \<and> section_result run p as c bs s t s'"
proof -
  from fast_path_spec [OF r] obtain t s1 L M R where f: "fast_path_reductions_for_spawn_return w c s = Some (t, s1)"
    "moves run p as c bs s s1 L M R" "real_maps [L, M, R] = real_maps [slot_map s p as, worker_map s (run c), right_map s c]"
    "case t of None \<Rightarrow> M = NULL \<and> R = NULL | Some x \<Rightarrow> x = slot_of p as" by blast
  show ?thesis
  proof (cases t)
    case None
    then have "M = NULL \<and> R = NULL" using f(4) by simp
    then have "section_result run p as c bs s None s1" using f(2,3) unfolding section_result_def option.case by blast
    then show ?thesis using None f(1) by (simp add: first_section_def)
  next
    case (Some x)
    then have x: "x = slot_of p as" using f(4) by simp
    have v: "slot_map s1 p as = L" "worker_map s1 (run c) = M" "right_map s1 c = R" using f(2) by (simp_all add: moves_def)
    from slide_and_take_spec [OF moves_runs [OF f(2) r]] obtain t' s' L' M' R' where s:
      "slide_and_take w c (slot_of p as) s1 = Some (t', s')" "moves run p as c bs s1 s' L' M' R'"
      "case t' of None \<Rightarrow> M' = NULL \<and> R' = NULL \<and> real_maps [L', M', R'] = real_maps [L, M, R]
       | Some (l, m, x) \<Rightarrow> L' = NULL \<and> M' = NULL \<and> R' = NULL \<and> m \<noteq> NULL \<and> (M \<noteq> NULL \<longrightarrow> l \<noteq> NULL) \<and>
          real_maps [l, m, x] = real_maps [L, M, R]" unfolding v by blast
    note s(3) [unfolded f(3)]
    then have "section_result run p as c bs s t' s'" using moves_trans [OF f(2) s(2)] unfolding section_result_def
      by (cases t') (force simp del: real_maps_simps)+
    then show ?thesis using f(1) Some x s(1) by (simp add: first_section_def)
  qed
qed

lemma result_none:
  assumes "section_result run p as c bs s None s'" "runs_child s run p as c bs w" "taken c = []"
  shows "runs_child s' run p as c bs w" "keeps run p s taken (as @ c # bs) s' taken (as @ c # bs)" "same_tree s s'"
    "worker_map s' (run c) = NULL" "right_map s' c = NULL"
proof -
  from assms(1) obtain L where m: "moves run p as c bs s s' L NULL NULL"
    "real_maps [L, NULL, NULL] = real_maps [slot_map s p as, worker_map s (run c), right_map s c]"
    unfolding section_result_def option.case by blast
  show "runs_child s' run p as c bs w" by (rule moves_runs [OF m(1) assms(2)])
  show "keeps run p s taken (as @ c # bs) s' taken (as @ c # bs)" by (rule keeps_moves [where taken = taken, OF m(1) assms(3) m(2)])
  show "same_tree s s'" "worker_map s' (run c) = NULL" "right_map s' c = NULL" using m(1) by (simp_all add: moves_def)
qed

lemma result_some:
  assumes "section_result run p as c bs s (Some (l, m, x)) s'" "runs_child s run p as c bs w" "taken c = []"
  shows "runs_child s' run p as c bs w" "keeps run p s taken (as @ c # bs) s' (taken(c := [l, m, x])) (as @ c # bs)"
    "same_tree s s'" "worker_map s' (run c) = NULL" "m \<noteq> NULL" "slot_map s' p as = NULL" "right_map s' c = NULL"
proof -
  from assms(1) have m: "moves run p as c bs s s' NULL NULL NULL"
    "real_maps [l, m, x] = real_maps [slot_map s p as, worker_map s (run c), right_map s c]" "m \<noteq> NULL"
    unfolding section_result_def option.case prod.case by blast+
  have cf: "c \<notin> set as" "c \<notin> set bs" using child_facts(1) [OF assms(2)] by auto
  show "runs_child s' run p as c bs w" by (rule moves_runs [OF m(1) assms(2)])
  show "keeps run p s taken (as @ c # bs) s' (taken(c := [l, m, x])) (as @ c # bs)"
    by (rule keeps_take [where taken = taken, OF m(1) assms(3) cf m(2)])
  show "same_tree s s'" "worker_map s' (run c) = NULL" "m \<noteq> NULL" "slot_map s' p as = NULL" "right_map s' c = NULL"
    using m(1,3) by (simp_all add: moves_def)
qed

section \<open>A return alone\<close>

definition after_section :: "ptr \<Rightarrow> ptr \<Rightarrow> (ptr \<times> ptr \<times> ptr) option \<Rightarrow> rts \<Rightarrow> rts proc" where
  "after_section w c t s = (case t of None \<Rightarrow> Some s
     | Some (l, m, x) \<Rightarrow> do {
       f \<leftarrow> ff_at s c;
       s \<leftarrow> frame_unlock w (ff_parent f) s;
       s \<leftarrow> merge_taken w c l m x s;
       f \<leftarrow> ff_at s c;
       s \<leftarrow> frame_lock w (ff_parent f) s;
       (left, s) \<leftarrow> relocate_left c s;
       slow_path_reductions_for_spawn_return w c left s })"

lemma slow_path_sections:
  "slow_path_reductions_for_spawn_return w c left s = do { (t, s) \<leftarrow> slide_and_take w c left s; after_section w c t s }"
  by (subst slow_path_reductions_for_spawn_return.simps, rule arg_cong [where f = "Option.bind _"])
     (auto simp: fun_eq_iff after_section_def split: option.splits)

lemma after_section_next:
  "after_section w c (Some (l, m, x)) s = do {
     f \<leftarrow> ff_at s c;
     s \<leftarrow> frame_unlock w (ff_parent f) s;
     s \<leftarrow> merge_taken w c l m x s;
     f \<leftarrow> ff_at s c;
     s \<leftarrow> frame_lock w (ff_parent f) s;
     (t, s) \<leftarrow> next_section w c s;
     after_section w c t s }"
  unfolding after_section_def [of w c "Some (l, m, x)"] option.case prod.case slow_path_sections next_section_def
  by (simp add: bind_assoc_opt case_prod_unfold)

lemma spawn_return_sections:
  "spawn_return_reductions w c s = do {
     (t, s) \<leftarrow> first_section w c s;
     s \<leftarrow> after_section w c t s;
     f \<leftarrow> ff_at s c;
     finish_spawn_return_on_user_stack w (ff_parent f) c s }"
proof (cases "fast_path_reductions_for_spawn_return w c s")
  case None
  then show ?thesis by (simp add: spawn_return_reductions_def first_section_def)
next
  case (Some r)
  then show ?thesis
    by (cases r; cases "fst r")
       (simp_all add: spawn_return_reductions_def first_section_def slow_path_sections bind_assoc_opt case_prod_unfold after_section_def)
qed

lemma relock_runs:
  assumes P: "ff_at s p = Some P" and r: "runs_child s run p as c bs w"
  shows "runs_child (same_but_lock m s p) run p as c bs w"
  using relock(2,3) [OF P] r unfolding runs_child_def by auto

text \<open>Nothing but the state of the lock matters for who may do what.\<close>

lemma leave_spec:
  assumes r: "runs_child s run p as c bs w" and P: "ff_at s p = Some P" and tk: "taken c = []"
    and n: "worker_map s (run c) = NULL" "right_map s c = NULL"
  shows "\<exists>s' P'. do { f \<leftarrow> ff_at s c; finish_spawn_return_on_user_stack w (ff_parent f) c s } = Some s' \<and>
    team s' run p (as @ bs) \<and> keeps run p s taken (as @ c # bs) s' taken (as @ bs) \<and> same_maps s s' \<and>
    ff_at s' p = Some P' \<and> ff_lock P' = ff_lock P \<and> (\<forall>v. (wk_at s' v = None) = (wk_at s v = None)) \<and>
    (\<exists>f. ff_at s' c = Some f \<and> ff_parent f = p)"
proof -
  from child_reads [OF r] obtain f where f: "ff_at s c = Some f" "ff_parent f = p" .
  from finish_spec [OF r P] obtain s' P' where s': "finish_spawn_return_on_user_stack w p c s = Some s'"
    "team s' run p (as @ bs)" "same_maps s s'" "ff_at s' p = Some P'" "ff_lock P' = ff_lock P"
    "\<forall>v. (wk_at s' v = None) = (wk_at s v = None)" "\<exists>f. ff_at s' c = Some f \<and> ff_parent f = p \<and> ff_fiber_self f = NULL" by blast
  have "keeps run p s taken (as @ c # bs) s' taken (as @ bs)" by (rule keeps_leave [where taken = taken and run = run and c = c, OF s'(3) tk n])
  moreover have "do { f \<leftarrow> ff_at s c; finish_spawn_return_on_user_stack w (ff_parent f) c s } = Some s'"
    using f s'(1) by simp
  ultimately show ?thesis using s' by blast
qed

lemma merge_round:
  assumes r: "runs_child s run p as c bs w" and tk: "taken c = [l, m, x]" and n: "worker_map s (run c) = NULL"
    and m0: "m \<noteq> NULL" and ok: "maps_ok s (maps_along s run taken p (as @ c # bs))"
  shows "\<exists>s'. merge_taken w c l m x s = Some s' \<and> runs_child s' run p as c bs w \<and> same_tree s s' \<and>
    worker_map s' (run c) \<noteq> NULL \<and> slot_map s' p as = slot_map s p as \<and> right_map s' c = right_map s c \<and>
    (\<forall>v. v \<noteq> w \<longrightarrow> worker_map s' v = worker_map s v) \<and> children_map s' = children_map s \<and> right_map s' = right_map s \<and>
    keeps run p s taken (as @ c # bs) s' (taken(c := [])) (as @ c # bs)"
proof -
  from keeps_merge [OF r tk n m0 ok] obtain s' where s': "merge_taken w c l m x s = Some s'" "same_tree s s'"
    "worker_map s' (run c) \<noteq> NULL" "children_map s' = children_map s" "right_map s' = right_map s"
    "\<forall>v. v \<noteq> w \<longrightarrow> worker_map s' v = worker_map s v"
    "keeps run p s taken (as @ c # bs) s' (taken(c := [])) (as @ c # bs)" by blast
  moreover have "slot_map s' p as = slot_map s p as" using s'(4,5) by (simp add: slot_map_def)
  ultimately show ?thesis using same_tree_runs [OF s'(2) r] by auto
qed

text \<open>The lock of the parent, held by the worker while it is in a section.\<close>

definition parent_lock :: "rts \<Rightarrow> ptr \<Rightarrow> mutex \<Rightarrow> bool" where
  "parent_lock s p m \<longleftrightarrow> (\<exists>P. ff_at s p = Some P \<and> ff_lock P = m)"

lemma same_tree_lock: "same_tree s s' \<Longrightarrow> parent_lock s p m \<Longrightarrow> parent_lock s' p m"
  unfolding parent_lock_def using bare_ff_fields(1) by (metis same_tree_ff)

lemma swap_lock_any:
  assumes f: "ff_at s c = Some f" "ff_parent f = p" and m: "parent_lock s p m"
    and mm: "m = held_by w \<and> m' = free_lock \<or> m = free_lock \<and> m' = held_by w"
  shows "\<exists>s'. do { f \<leftarrow> ff_at s c; (if m' = free_lock then frame_unlock w (ff_parent f) s else frame_lock w (ff_parent f) s) } = Some s' \<and>
    (\<forall>cs. team s run p cs \<longrightarrow> team s' run p cs) \<and> (\<forall>v. wk_at s' v = wk_at s v) \<and> same_maps s s' \<and> parent_lock s' p m'"
proof -
  from m obtain P where P: "ff_at s p = Some P" "ff_lock P = m" by (auto simp: parent_lock_def)
  have ne: "held_by w \<noteq> free_lock" by (simp add: held_by_def free_lock_def)
  let ?s = "same_but_lock m' s p"
  have "do { f \<leftarrow> ff_at s c; (if m' = free_lock then frame_unlock w (ff_parent f) s else frame_lock w (ff_parent f) s) } = Some ?s"
    using f P ne mm relock_lock [OF P(1)] by auto
  moreover have "parent_lock ?s p m'" using relock(4) [OF P(1)] by (simp add: parent_lock_def)
  ultimately show ?thesis using relock(1-3) [OF P(1)] by blast
qed

lemma swap_lock:
  assumes r: "runs_child s run p as c bs w" and m: "parent_lock s p m"
    and mm: "m = held_by w \<and> m' = free_lock \<or> m = free_lock \<and> m' = held_by w"
  shows "\<exists>s'. do { f \<leftarrow> ff_at s c; (if m' = free_lock then frame_unlock w (ff_parent f) s else frame_lock w (ff_parent f) s) } = Some s' \<and>
    runs_child s' run p as c bs w \<and> (\<forall>v. wk_at s' v = wk_at s v) \<and> same_maps s s' \<and> parent_lock s' p m'"
proof -
  from child_reads [OF r] obtain f where f: "ff_at s c = Some f" "ff_parent f = p" .
  from swap_lock_any [OF f m mm, of run] r show ?thesis unfolding runs_child_def by auto
qed

lemma same_maps_at:
  assumes "same_maps s s'"
  shows "worker_map s' = worker_map s" "right_map s' = right_map s" "children_map s' = children_map s" "slot_map s' = slot_map s"
  using assms by (simp_all add: same_maps_def slot_map_def fun_eq_iff)

lemma spawn_return_spec:
  assumes r: "runs_child s run p as c bs w" and P: "parent_lock s p (held_by w)"
    and ok: "maps_ok s (maps_along s run (\<lambda>_. []) p (as @ c # bs))"
  shows "\<exists>s'. spawn_return_reductions w c s = Some s' \<and> team s' run p (as @ bs) \<and>
    keeps run p s (\<lambda>_. []) (as @ c # bs) s' (\<lambda>_. []) (as @ bs) \<and> worker_map s' (run c) = NULL \<and> right_map s' c = NULL \<and>
    parent_lock s' p (held_by w)"
proof -
  let ?cs = "as @ c # bs" and ?none = "\<lambda>_::ptr. []::ptr list"
  have leave: ?thesis
    if k: "keeps run p s ?none ?cs s1 ?none ?cs" and r1: "runs_child s1 run p as c bs w" and P1: "parent_lock s1 p (held_by w)"
      and n: "worker_map s1 (run c) = NULL" "right_map s1 c = NULL"
      and go: "spawn_return_reductions w c s = do { f \<leftarrow> ff_at s1 c; finish_spawn_return_on_user_stack w (ff_parent f) c s1 }" for s1
  proof -
    from P1 obtain P1 where P1: "ff_at s1 p = Some P1" "ff_lock P1 = held_by w" by (auto simp: parent_lock_def)
    from leave_spec [where taken = ?none, OF r1 P1(1) refl n] obtain s2 P2 where s2:
      "do { f \<leftarrow> ff_at s1 c; finish_spawn_return_on_user_stack w (ff_parent f) c s1 } = Some s2"
      "team s2 run p (as @ bs)" "keeps run p s1 ?none ?cs s2 ?none (as @ bs)" "same_maps s1 s2" "ff_at s2 p = Some P2" "ff_lock P2 = ff_lock P1" by blast
    have "worker_map s2 = worker_map s1" "right_map s2 = right_map s1" using s2(4) by (simp_all add: same_maps_def)
    then show ?thesis using s2 go P1(2) n keeps_trans [OF k s2(3)] by (auto simp: parent_lock_def)
  qed
  from first_section_spec [OF r] obtain t s1 where f: "first_section w c s = Some (t, s1)" "section_result run p as c bs s t s1" by blast
  show ?thesis
  proof (cases t)
    case None
    note res = result_none [where taken = ?none, OF f(2) [unfolded None] r refl]
    show ?thesis
      by (rule leave [OF res(2,1) same_tree_lock [OF res(3) P] res(4,5)])
         (simp add: spawn_return_sections f(1) None after_section_def)
  next
    case (Some lmx)
    obtain l m x where t: "t = Some (l, m, x)" using Some by (cases lmx) auto
    note res = result_some [where taken = ?none, OF f(2) [unfolded t] r refl]
    let ?tk = "?none(c := [l, m, x])"
    from swap_lock [OF res(1) same_tree_lock [OF res(3) P], of free_lock] obtain s2 where s2:
      "do { f \<leftarrow> ff_at s1 c; frame_unlock w (ff_parent f) s1 } = Some s2" "runs_child s2 run p as c bs w" "same_maps s1 s2"
      "parent_lock s2 p free_lock" by auto
    have v2: "worker_map s2 (run c) = NULL" "slot_map s2 p as = NULL" "right_map s2 c = NULL"
      using same_maps_at [OF s2(3)] res(4,6,7) by metis+
    have k2: "keeps run p s ?none ?cs s2 ?tk ?cs" by (rule keeps_trans [OF res(2) keeps_same [OF s2(3)]])
    then have ok2: "maps_ok s2 (maps_along s2 run ?tk p ?cs)" using ok by (simp add: keeps_def)
    have tk: "?tk c = [l, m, x]" "?tk(c := []) = ?none" by auto
    from merge_round [where taken = ?tk, OF s2(2) tk(1) v2(1) res(5) ok2] obtain s3 where s3: "merge_taken w c l m x s2 = Some s3"
      "runs_child s3 run p as c bs w" "same_tree s2 s3" "worker_map s3 (run c) \<noteq> NULL" "slot_map s3 p as = NULL" "right_map s3 c = NULL"
      "keeps run p s2 ?tk ?cs s3 ?none ?cs" unfolding tk(2) v2 by blast
    have "held_by w \<noteq> free_lock" by (simp add: held_by_def free_lock_def)
    with swap_lock [OF s3(2) same_tree_lock [OF s3(3) s2(4)], of "held_by w"] obtain s4 where s4:
      "do { f \<leftarrow> ff_at s3 c; frame_lock w (ff_parent f) s3 } = Some s4" "runs_child s4 run p as c bs w" "same_maps s3 s4"
      "parent_lock s4 p (held_by w)" by auto
    have v4: "worker_map s4 (run c) \<noteq> NULL" "slot_map s4 p as = NULL" "right_map s4 c = NULL"
      using same_maps_at [OF s4(3)] s3(4-6) by metis+
    from next_section_spec [OF s4(2)] obtain t' s5 where n: "next_section w c s4 = Some (t', s5)"
      "section_result run p as c bs s4 t' s5" "\<forall>l m x. t' = Some (l, m, x) \<longrightarrow> l \<noteq> NULL" using v4(1) by blast
    have "t' = None"
    proof (rule ccontr)
      assume "t' \<noteq> None"
      then obtain l' m' x' where t': "t' = Some (l', m', x')" by (cases t') auto
      then have "l' \<noteq> NULL" "m' \<noteq> NULL" "real_maps [l', m', x'] = real_maps [slot_map s4 p as, worker_map s4 (run c), right_map s4 c]"
        using n(2,3) result_some(5) [where taken = ?none, OF n(2) [unfolded t'] s4(2) refl] unfolding section_result_def by auto
      then show False using v4 by simp
    qed
    note res5 = result_none [where taken = ?none, OF n(2) [unfolded this] s4(2) refl]
    have "keeps run p s ?none ?cs s5 ?none ?cs"
      by (rule keeps_trans [OF keeps_trans [OF keeps_trans [OF k2 s3(7)] keeps_same [OF s4(3)]] res5(2)])
    then show ?thesis
    proof (rule leave [OF _ res5(1) same_tree_lock [OF res5(3) s4(4)] res5(4,5)])
      have "after_section w c (Some (l, m, x)) s1 = Some s5"
        unfolding after_section_next using s2(1) s3(1) s4(1) n(1) \<open>t' = None\<close> after_section_def
        by (auto simp: bind_eq_Some_conv)
      then show "spawn_return_reductions w c s = do { f \<leftarrow> ff_at s5 c; finish_spawn_return_on_user_stack w (ff_parent f) c s5 }"
        by (simp add: spawn_return_sections f(1) t)
    qed
  qed
qed

section \<open>Returns interleaved\<close>

text \<open>
  Each returning child is before its first section, merging the maps it took, or between the merge and the next section,
  until it has returned. A section is one step: it holds the lock of the parent throughout. A merge touches only the
  maps it took and the worker of the child.
\<close>

datatype return_pc = Returning | Merging ptr ptr ptr | Merged | Returned

record returns =
  rs_rt :: rts
  rs_pc :: "ptr \<Rightarrow> return_pc"

definition locked_section :: "(ptr \<Rightarrow> ptr \<Rightarrow> rts \<Rightarrow> ((ptr \<times> ptr \<times> ptr) option \<times> rts) proc) \<Rightarrow> ptr \<Rightarrow> ptr \<Rightarrow> rts \<Rightarrow>
    ((ptr \<times> ptr \<times> ptr) option \<times> rts) proc" where
  "locked_section body w c s = do {
     f \<leftarrow> ff_at s c;
     s \<leftarrow> frame_lock w (ff_parent f) s;
     (t, s) \<leftarrow> body w c s;
     s \<leftarrow> (if t = None then do { f \<leftarrow> ff_at s c; finish_spawn_return_on_user_stack w (ff_parent f) c s } else Some s);
     f \<leftarrow> ff_at s c;
     s \<leftarrow> frame_unlock w (ff_parent f) s;
     Some (t, s) }"

definition next_pc :: "(ptr \<times> ptr \<times> ptr) option \<Rightarrow> return_pc" where
  "next_pc t = (case t of None \<Rightarrow> Returned | Some (l, m, x) \<Rightarrow> Merging l m x)"

inductive return_step :: "(ptr \<Rightarrow> ptr) \<Rightarrow> returns \<Rightarrow> returns \<Rightarrow> bool" for run :: "ptr \<Rightarrow> ptr" where
  First: "rs_pc s c = Returning \<Longrightarrow> locked_section first_section (run c) c (rs_rt s) = Some (t, s') \<Longrightarrow>
    return_step run s \<lparr>rs_rt = s', rs_pc = (rs_pc s)(c := next_pc t)\<rparr>"
| Merge: "rs_pc s c = Merging l m x \<Longrightarrow> merge_taken (run c) c l m x (rs_rt s) = Some s' \<Longrightarrow>
    return_step run s \<lparr>rs_rt = s', rs_pc = (rs_pc s)(c := Merged)\<rparr>"
| Next: "rs_pc s c = Merged \<Longrightarrow> locked_section next_section (run c) c (rs_rt s) = Some (t, s') \<Longrightarrow>
    return_step run s \<lparr>rs_rt = s', rs_pc = (rs_pc s)(c := next_pc t)\<rparr>"

inductive_cases return_stepE: "return_step run s s'"

definition pc_taken :: "(ptr \<Rightarrow> return_pc) \<Rightarrow> ptr \<Rightarrow> ptr list" where
  "pc_taken pc c = (case pc c of Merging l m x \<Rightarrow> [l, m, x] | _ \<Rightarrow> [])"

definition still_there :: "(ptr \<Rightarrow> return_pc) \<Rightarrow> ptr list \<Rightarrow> ptr list" where
  "still_there pc cs = filter (\<lambda>c. pc c \<noteq> Returned) cs"

text \<open>The maps of the frame and of the children that have not returned yet.\<close>

definition maps_of :: "(ptr \<Rightarrow> ptr) \<Rightarrow> ptr \<Rightarrow> ptr list \<Rightarrow> returns \<Rightarrow> ptr list" where
  "maps_of run p cs s = maps_along (rs_rt s) run (pc_taken (rs_pc s)) p (still_there (rs_pc s) cs)"

definition returns_inv :: "(ptr \<Rightarrow> ptr) \<Rightarrow> ptr \<Rightarrow> ptr list \<Rightarrow> returns \<Rightarrow> bool" where
  "returns_inv run p cs s \<longleftrightarrow> distinct cs \<and> (\<forall>c. c \<notin> set cs \<longrightarrow> rs_pc s c = Returned) \<and>
     team (rs_rt s) run p (still_there (rs_pc s) cs) \<and> parent_lock (rs_rt s) p free_lock \<and>
     (\<forall>c\<in>set cs. wk_at (rs_rt s) (run c) \<noteq> None) \<and> maps_ok (rs_rt s) (maps_of run p cs s) \<and>
     (\<forall>c\<in>set cs. case rs_pc s c of Merging l m x \<Rightarrow> worker_map (rs_rt s) (run c) = NULL \<and> m \<noteq> NULL
        | Merged \<Rightarrow> worker_map (rs_rt s) (run c) \<noteq> NULL | _ \<Rightarrow> True)"

text \<open>Every step makes this number smaller: a merge that is taken up again has one map less to deal with.\<close>

fun pc_weight :: "return_pc \<Rightarrow> nat" where
  "pc_weight Returning = 3" | "pc_weight (Merging l m x) = 5" | "pc_weight Merged = 1" | "pc_weight Returned = 0"

definition work_left :: "(ptr \<Rightarrow> ptr) \<Rightarrow> ptr \<Rightarrow> ptr list \<Rightarrow> returns \<Rightarrow> nat" where
  "work_left run p cs s = 3 * map_count run (rs_rt s) p (still_there (rs_pc s) cs) + sum_list (map (pc_weight \<circ> rs_pc s) cs)"

lemma held_not_free [simp]: "held_by w \<noteq> free_lock"
  by (simp add: held_by_def free_lock_def)

lemma result_count:
  assumes "section_result run p as c bs s t s'"
  shows "t = None \<Longrightarrow> map_count run s' p (as @ c # bs) = map_count run s p (as @ c # bs)"
    "t = Some (l, m, x) \<Longrightarrow> map_count run s' p (as @ c # bs) + length (real_maps [l, m, x]) = map_count run s p (as @ c # bs)"
    "\<forall>v. v \<noteq> run c \<longrightarrow> worker_map s' v = worker_map s v"
proof -
  from assms obtain L M R where m: "moves run p as c bs s s' L M R"
    "case t of None \<Rightarrow> M = NULL \<and> R = NULL \<and>
        real_maps [L, M, R] = real_maps [slot_map s p as, worker_map s (run c), right_map s c]
      | Some (l, m, x) \<Rightarrow> L = NULL \<and> M = NULL \<and> R = NULL \<and> m \<noteq> NULL \<and>
        real_maps [l, m, x] = real_maps [slot_map s p as, worker_map s (run c), right_map s c]"
    unfolding section_result_def by blast
  note count = count_moves [OF m(1)]
  show "map_count run s' p (as @ c # bs) = map_count run s p (as @ c # bs)" if t: "t = None"
    using m(2) unfolding t option.case by (metis add_right_cancel count)
  show "map_count run s' p (as @ c # bs) + length (real_maps [l, m, x]) = map_count run s p (as @ c # bs)" if t: "t = Some (l, m, x)"
  proof -
    have e: "L = NULL" "M = NULL" "R = NULL" and q: "real_maps [l, m, x] = real_maps [slot_map s p as, worker_map s (run c), right_map s c]"
      using m(2) unfolding t option.case prod.case by blast+
    have "length (real_maps [NULL, NULL, NULL]) = 0" by simp
    with count show ?thesis unfolding e q [symmetric] by (simp only: add_0_right)
  qed
  show "\<forall>v. v \<noteq> run c \<longrightarrow> worker_map s' v = worker_map s v" using m(1) unfolding moves_def by blast
qed

lemma same_tree_worker: "same_tree s s' \<Longrightarrow> (wk_at s' v = None) = (wk_at s v = None)"
  unfolding same_tree_def by (metis option.map_disc_iff)

lemma section_step:
  assumes r: "runs_child s run p as c bs w" and m: "parent_lock s p free_lock" and tk: "taken c = []"
    and body: "\<And>s0. runs_child s0 run p as c bs w \<Longrightarrow> \<exists>t s'. body w c s0 = Some (t, s') \<and> section_result run p as c bs s0 t s' \<and>
      (again \<and> worker_map s0 (run c) \<noteq> NULL \<longrightarrow> (\<forall>l m x. t = Some (l, m, x) \<longrightarrow> l \<noteq> NULL))"
  shows "\<exists>t s'. locked_section body w c s = Some (t, s') \<and> parent_lock s' p free_lock \<and>
    (\<forall>v. v \<noteq> run c \<longrightarrow> worker_map s' v = worker_map s v) \<and> (\<forall>v. (wk_at s' v = None) = (wk_at s v = None)) \<and>
    (t = None \<longrightarrow> team s' run p (as @ bs) \<and> keeps run p s taken (as @ c # bs) s' taken (as @ bs) \<and>
       map_count run s' p (as @ bs) = map_count run s p (as @ c # bs)) \<and>
    (\<forall>l m x. t = Some (l, m, x) \<longrightarrow> team s' run p (as @ c # bs) \<and> m \<noteq> NULL \<and> worker_map s' (run c) = NULL \<and>
       (again \<and> worker_map s (run c) \<noteq> NULL \<longrightarrow> l \<noteq> NULL) \<and>
       keeps run p s taken (as @ c # bs) s' (taken(c := [l, m, x])) (as @ c # bs) \<and>
       map_count run s' p (as @ c # bs) + length (real_maps [l, m, x]) = map_count run s p (as @ c # bs))"
proof -
  from swap_lock [OF r m, of "held_by w"] obtain s1 where s1:
    "do { f \<leftarrow> ff_at s c; frame_lock w (ff_parent f) s } = Some s1" "runs_child s1 run p as c bs w"
    "\<forall>v. wk_at s1 v = wk_at s v" "same_maps s s1" "parent_lock s1 p (held_by w)" by auto
  have n1: "map_count run s1 p cs = map_count run s p cs" for cs
    unfolding map_count_def same_maps_along [OF s1(4)] ..
  from body [OF s1(2)] obtain t s2 where s2: "body w c s1 = Some (t, s2)" "section_result run p as c bs s1 t s2"
    "again \<and> worker_map s1 (run c) \<noteq> NULL \<longrightarrow> (\<forall>l m x. t = Some (l, m, x) \<longrightarrow> l \<noteq> NULL)" by blast
  note rc = result_count [OF s2(2)]
  note w1 = same_maps_at(1) [OF s1(4)]
  have start: "locked_section body w c s = do {
      s3 \<leftarrow> (if t = None then do { f \<leftarrow> ff_at s2 c; finish_spawn_return_on_user_stack w (ff_parent f) c s2 } else Some s2);
      s4 \<leftarrow> do { f \<leftarrow> ff_at s3 c; frame_unlock w (ff_parent f) s3 };
      Some (t, s4) }"
    using s1(1) s2(1) by (auto simp: locked_section_def bind_eq_Some_conv bind_assoc_opt)
  show ?thesis
  proof (cases t)
    case None
    note res = result_none [where taken = taken, OF s2(2) [unfolded None] s1(2) tk]
    from same_tree_lock [OF res(3) s1(5)] obtain P2 where P2: "ff_at s2 p = Some P2" "ff_lock P2 = held_by w" by (auto simp: parent_lock_def)
    from leave_spec [where taken = taken, OF res(1) P2(1) tk res(4,5)] obtain s3 P3 f where s3:
      "do { f \<leftarrow> ff_at s2 c; finish_spawn_return_on_user_stack w (ff_parent f) c s2 } = Some s3"
      "team s3 run p (as @ bs)" "keeps run p s2 taken (as @ c # bs) s3 taken (as @ bs)" "same_maps s2 s3"
      "ff_at s3 p = Some P3" "ff_lock P3 = ff_lock P2" "\<forall>v. (wk_at s3 v = None) = (wk_at s2 v = None)"
      "ff_at s3 c = Some f" "ff_parent f = p" by blast
    have "parent_lock s3 p (held_by w)" using s3(5,6) P2(2) by (simp add: parent_lock_def)
    from swap_lock_any [OF s3(8,9) this, of w free_lock run] obtain s4 where s4:
      "do { f \<leftarrow> ff_at s3 c; frame_unlock w (ff_parent f) s3 } = Some s4" "\<forall>cs. team s3 run p cs \<longrightarrow> team s4 run p cs"
      "\<forall>v. wk_at s4 v = wk_at s3 v" "same_maps s3 s4" "parent_lock s4 p free_lock" by auto
    have k: "keeps run p s taken (as @ c # bs) s4 taken (as @ bs)"
      by (rule keeps_trans [OF keeps_trans [OF keeps_trans [OF keeps_same [OF s1(4)] res(2)] s3(3)] keeps_same [OF s4(4)]])
    have n4: "map_count run s4 p (as @ bs) = map_count run s p (as @ c # bs)"
      using count_leave [where run = run and c = c, OF s3(4) res(4,5)] rc(1) [OF None] n1
      unfolding map_count_def same_maps_along [OF s4(4)] by simp
    have "\<forall>v. v \<noteq> run c \<longrightarrow> worker_map s4 v = worker_map s v"
      using rc(3) same_maps_at(1) [OF s3(4)] same_maps_at(1) [OF s4(4)] w1 by metis
    moreover have "\<forall>v. (wk_at s4 v = None) = (wk_at s v = None)"
      using s4(3) s3(7) same_tree_worker [OF res(3)] s1(3) by metis
    moreover have "locked_section body w c s = Some (t, s4)" using start s3(1) s4(1) None by (auto simp: bind_eq_Some_conv)
    ultimately show ?thesis using s4(2,5) s3(2) k n4 None by (intro exI [of _ t] exI [of _ s4]) simp
  next
    case (Some lmx)
    obtain l m x where t: "t = Some (l, m, x)" using Some by (cases lmx) auto
    note res = result_some [where taken = taken, OF s2(2) [unfolded t] s1(2) tk]
    from swap_lock [OF res(1) same_tree_lock [OF res(3) s1(5)], of free_lock] obtain s4 where s4:
      "do { f \<leftarrow> ff_at s2 c; frame_unlock w (ff_parent f) s2 } = Some s4" "runs_child s4 run p as c bs w"
      "\<forall>v. wk_at s4 v = wk_at s2 v" "same_maps s2 s4" "parent_lock s4 p free_lock" by auto
    have k: "keeps run p s taken (as @ c # bs) s4 (taken(c := [l, m, x])) (as @ c # bs)"
      by (rule keeps_trans [OF keeps_trans [OF keeps_same [OF s1(4)] res(2)] keeps_same [OF s4(4)]])
    have n4: "map_count run s4 p (as @ c # bs) + length (real_maps [l, m, x]) = map_count run s p (as @ c # bs)"
      using rc(2) [OF t] n1 unfolding map_count_def same_maps_along [OF s4(4)] by (simp only:)
    have "\<forall>v. v \<noteq> run c \<longrightarrow> worker_map s4 v = worker_map s v" using rc(3) same_maps_at(1) [OF s4(4)] w1 by metis
    moreover have "\<forall>v. (wk_at s4 v = None) = (wk_at s v = None)" using s4(3) same_tree_worker [OF res(3)] s1(3) by metis
    moreover have "locked_section body w c s = Some (t, s4)" using start s4(1) t by (auto simp: bind_eq_Some_conv)
    moreover have "again \<and> worker_map s (run c) \<noteq> NULL \<longrightarrow> l \<noteq> NULL" using s2(3) t w1 by metis
    moreover have "worker_map s4 (run c) = NULL" using same_maps_at(1) [OF s4(4)] res(4) by metis
    moreover have "team s4 run p (as @ c # bs)" using s4(2) by (simp add: runs_child_def)
    ultimately show ?thesis using s4(5) k n4 t res(5)
      by (intro exI [of _ t] exI [of _ s4]) (simp del: real_maps_simps)
  qed
qed

section \<open>Every step keeps the invariant\<close>

definition good_step :: "(ptr \<Rightarrow> ptr) \<Rightarrow> ptr \<Rightarrow> ptr list \<Rightarrow> returns \<Rightarrow> returns \<Rightarrow> bool" where
  "good_step run p cs s s' \<longleftrightarrow> returns_inv run p cs s' \<and> work_left run p cs s' < work_left run p cs s \<and>
     (\<forall>k. serial_view (rs_rt s') (maps_of run p cs s') k = serial_view (rs_rt s) (maps_of run p cs s) k)"

lemma pc_taken_upd:
  "pc_taken (pc(c := Merging l m x)) = (pc_taken pc)(c := [l, m, x])" "pc_taken (pc(c := Merged)) = (pc_taken pc)(c := [])"
  "pc_taken pc c = [] \<Longrightarrow> pc_taken (pc(c := Returned)) = pc_taken pc"
  by (auto simp: pc_taken_def fun_eq_iff split: return_pc.split)

lemma split_children:
  assumes "distinct cs" "c \<in> set cs" "pc c \<noteq> Returned"
  obtains as bs where "still_there pc cs = as @ c # bs" "still_there (pc(c := Returned)) cs = as @ bs"
    "\<And>v. v \<noteq> Returned \<Longrightarrow> still_there (pc(c := v)) cs = as @ c # bs"
    "\<And>v. sum_list (map (pc_weight \<circ> pc(c := v)) cs) + pc_weight (pc c) = sum_list (map (pc_weight \<circ> pc) cs) + pc_weight v"
proof -
  from assms(2) obtain X Y where cs: "cs = X @ c # Y" by (meson split_list)
  with assms(1) have n: "c \<notin> set X" "c \<notin> set Y" by auto
  have e: "still_there (pc(c := v)) X = still_there pc X" "still_there (pc(c := v)) Y = still_there pc Y"
    "map (pc_weight \<circ> pc(c := v)) X = map (pc_weight \<circ> pc) X" "map (pc_weight \<circ> pc(c := v)) Y = map (pc_weight \<circ> pc) Y" for v
    using n by (auto simp: still_there_def intro!: filter_cong)
  show thesis
  proof (rule that [of "still_there pc X" "still_there pc Y"])
    show "sum_list (map (pc_weight \<circ> pc(c := v)) cs) + pc_weight (pc c) = sum_list (map (pc_weight \<circ> pc) cs) + pc_weight v" for v
      unfolding cs map_append list.map sum_list_append sum_list.Cons e by simp
  qed (use assms(3) e in \<open>auto simp: cs still_there_def\<close>)
qed

lemma inv_child:
  assumes "returns_inv run p cs s" "c \<in> set cs" "rs_pc s c \<noteq> Returned"
  obtains as bs where "still_there (rs_pc s) cs = as @ c # bs" "still_there ((rs_pc s)(c := Returned)) cs = as @ bs"
    "\<And>v. v \<noteq> Returned \<Longrightarrow> still_there ((rs_pc s)(c := v)) cs = as @ c # bs"
    "\<And>v. sum_list (map (pc_weight \<circ> (rs_pc s)(c := v)) cs) + pc_weight (rs_pc s c) = sum_list (map (pc_weight \<circ> rs_pc s) cs) + pc_weight v"
    "runs_child (rs_rt s) run p as c bs (run c)"
proof -
  from assms(1) have "distinct cs" by (simp add: returns_inv_def)
  from split_children [where pc = "rs_pc s", OF this assms(2,3)] obtain as bs where ab: "still_there (rs_pc s) cs = as @ c # bs"
    "still_there ((rs_pc s)(c := Returned)) cs = as @ bs" "\<And>v. v \<noteq> Returned \<Longrightarrow> still_there ((rs_pc s)(c := v)) cs = as @ c # bs"
    "\<And>v. sum_list (map (pc_weight \<circ> (rs_pc s)(c := v)) cs) + pc_weight (rs_pc s c) = sum_list (map (pc_weight \<circ> rs_pc s) cs) + pc_weight v"
    by blast
  have "runs_child (rs_rt s) run p as c bs (run c)"
    using assms(1,2) ab(1) unfolding returns_inv_def runs_child_def by auto
  with ab show thesis using that by blast
qed

text \<open>The last clause of the invariant, when only child \<open>c\<close> and its worker have moved.\<close>

lemma inv_others:
  assumes inv: "returns_inv run p cs s" and c: "c \<in> set cs" "rs_pc s c \<noteq> Returned"
    and w: "\<forall>v. v \<noteq> run c \<longrightarrow> worker_map s' v = worker_map (rs_rt s) v" and d: "d \<in> set cs" "d \<noteq> c"
  shows "case ((rs_pc s)(c := v)) d of Merging l m x \<Rightarrow> worker_map s' (run d) = NULL \<and> m \<noteq> NULL
        | Merged \<Rightarrow> worker_map s' (run d) \<noteq> NULL | _ \<Rightarrow> True"
proof (cases "rs_pc s d = Returned")
  case True
  then show ?thesis using d by simp
next
  case False
  from inv_child [OF inv c] obtain as bs where ab: "still_there (rs_pc s) cs = as @ c # bs"
    "runs_child (rs_rt s) run p as c bs (run c)" by metis
  have "d \<in> set (still_there (rs_pc s) cs)" using d(1) False by (simp add: still_there_def)
  then have "run d \<noteq> run c" using other_worker [OF ab(2), of d] d(2) ab(1) by auto
  then have "worker_map s' (run d) = worker_map (rs_rt s) (run d)" using w by blast
  then show ?thesis using inv d unfolding returns_inv_def by (simp split: return_pc.splits) (metis return_pc.distinct return_pc.inject)
qed

lemma good_stepI:
  assumes inv: "returns_inv run p cs s" and c: "c \<in> set cs"
    and new: "team s' run p (still_there ((rs_pc s)(c := v)) cs)" "parent_lock s' p free_lock"
      "\<forall>c\<in>set cs. wk_at s' (run c) \<noteq> None"
    and k: "keeps run p (rs_rt s) (pc_taken (rs_pc s)) (still_there (rs_pc s) cs) s' tk' cs'"
      "maps_of run p cs \<lparr>rs_rt = s', rs_pc = (rs_pc s)(c := v)\<rparr> = maps_along s' run tk' p cs'"
    and less: "work_left run p cs \<lparr>rs_rt = s', rs_pc = (rs_pc s)(c := v)\<rparr> < work_left run p cs s"
    and pcs: "\<And>d. d \<in> set cs \<Longrightarrow> case ((rs_pc s)(c := v)) d of Merging l m x \<Rightarrow> worker_map s' (run d) = NULL \<and> m \<noteq> NULL
      | Merged \<Rightarrow> worker_map s' (run d) \<noteq> NULL | _ \<Rightarrow> True"
  shows "good_step run p cs s \<lparr>rs_rt = s', rs_pc = (rs_pc s)(c := v)\<rparr>"
proof -
  let ?s' = "\<lparr>rs_rt = s', rs_pc = (rs_pc s)(c := v)\<rparr>"
  have m: "maps_of run p cs s = maps_along (rs_rt s) run (pc_taken (rs_pc s)) p (still_there (rs_pc s) cs)" by (simp add: maps_of_def)
  have "maps_ok (rs_rt s) (maps_of run p cs s)" using inv by (simp add: returns_inv_def)
  then have "maps_ok s' (maps_of run p cs ?s')" "\<forall>k. serial_view s' (maps_of run p cs ?s') k = serial_view (rs_rt s) (maps_of run p cs s) k"
    using k unfolding m keeps_def by auto
  moreover have "distinct cs" "\<forall>d. d \<notin> set cs \<longrightarrow> ((rs_pc s)(c := v)) d = Returned"
    using inv c unfolding returns_inv_def by auto
  ultimately show ?thesis using new less pcs unfolding good_step_def returns_inv_def returns.select_convs by blast
qed

lemma good_section:
  assumes inv: "returns_inv run p cs s" and c: "c \<in> set cs" and pc: "rs_pc s c = Returning \<or> rs_pc s c = Merged \<and> again"
    and body: "\<And>as bs s0. runs_child s0 run p as c bs (run c) \<Longrightarrow> \<exists>t s'. body (run c) c s0 = Some (t, s') \<and>
      section_result run p as c bs s0 t s' \<and>
      (again \<and> worker_map s0 (run c) \<noteq> NULL \<longrightarrow> (\<forall>l m x. t = Some (l, m, x) \<longrightarrow> l \<noteq> NULL))"
  shows "\<exists>t s'. locked_section body (run c) c (rs_rt s) = Some (t, s') \<and>
    good_step run p cs s \<lparr>rs_rt = s', rs_pc = (rs_pc s)(c := next_pc t)\<rparr>"
proof -
  let ?pc = "rs_pc s" and ?s = "rs_rt s"
  have live: "?pc c \<noteq> Returned" and tk: "pc_taken ?pc c = []" using pc by (auto simp: pc_taken_def)
  from inv_child [OF inv c live] obtain as bs where ab: "still_there ?pc cs = as @ c # bs"
    "still_there (?pc(c := Returned)) cs = as @ bs" "\<And>v. v \<noteq> Returned \<Longrightarrow> still_there (?pc(c := v)) cs = as @ c # bs"
    "\<And>v. sum_list (map (pc_weight \<circ> ?pc(c := v)) cs) + pc_weight (?pc c) = sum_list (map (pc_weight \<circ> ?pc) cs) + pc_weight v"
    "runs_child ?s run p as c bs (run c)" by metis
  have lock: "parent_lock ?s p free_lock" and ok: "maps_ok ?s (maps_along ?s run (pc_taken ?pc) p (as @ c # bs))"
    and i: "distinct cs" "\<forall>c. c \<notin> set cs \<longrightarrow> ?pc c = Returned" "\<forall>c\<in>set cs. wk_at ?s (run c) \<noteq> None"
    using inv ab(1) unfolding returns_inv_def maps_of_def by auto
  have mw: "?pc c = Merged \<longrightarrow> worker_map ?s (run c) \<noteq> NULL" using inv c unfolding returns_inv_def by force
  from section_step [where taken = "pc_taken ?pc" and body = body and again = again, OF ab(5) lock tk body] obtain t s' where
    s': "locked_section body (run c) c ?s = Some (t, s')" "parent_lock s' p free_lock"
      "\<forall>v. v \<noteq> run c \<longrightarrow> worker_map s' v = worker_map ?s v" "\<forall>v. (wk_at s' v = None) = (wk_at ?s v = None)"
    and none: "t = None \<longrightarrow> team s' run p (as @ bs) \<and> keeps run p ?s (pc_taken ?pc) (as @ c # bs) s' (pc_taken ?pc) (as @ bs) \<and>
       map_count run s' p (as @ bs) = map_count run ?s p (as @ c # bs)"
    and some: "\<forall>l m x. t = Some (l, m, x) \<longrightarrow> team s' run p (as @ c # bs) \<and> m \<noteq> NULL \<and> worker_map s' (run c) = NULL \<and>
       (again \<and> worker_map ?s (run c) \<noteq> NULL \<longrightarrow> l \<noteq> NULL) \<and>
       keeps run p ?s (pc_taken ?pc) (as @ c # bs) s' ((pc_taken ?pc)(c := [l, m, x])) (as @ c # bs) \<and>
       map_count run s' p (as @ c # bs) + length (real_maps [l, m, x]) = map_count run ?s p (as @ c # bs)" by blast
  note others = inv_others [OF inv c live s'(3)]
  let ?s' = "\<lparr>rs_rt = s', rs_pc = ?pc(c := next_pc t)\<rparr>"
  have wk: "\<forall>c\<in>set cs. wk_at s' (run c) \<noteq> None" using i(3) s'(4) by blast
  have "good_step run p cs s ?s'"
  proof (cases t)
    case None
    note n = none [rule_format, OF None]
    have m: "maps_of run p cs ?s' = maps_along s' run (pc_taken ?pc) p (as @ bs)"
      using None ab(2) pc_taken_upd(3) [of ?pc c, OF tk] by (simp add: maps_of_def next_pc_def)
    have "work_left run p cs ?s' < work_left run p cs s"
      using None ab(1,2) ab(4) [of Returned] n pc by (auto simp: work_left_def next_pc_def)
    moreover have "case (?pc(c := next_pc t)) d of Merging l m x \<Rightarrow> worker_map s' (run d) = NULL \<and> m \<noteq> NULL
        | Merged \<Rightarrow> worker_map s' (run d) \<noteq> NULL | _ \<Rightarrow> True" if "d \<in> set cs" for d
      using others [OF that] None by (cases "d = c") (simp add: next_pc_def, blast)
    moreover have "team s' run p (still_there (?pc(c := next_pc t)) cs)" using n None ab(2) by (simp add: next_pc_def)
    ultimately show ?thesis using n m by (intro good_stepI [OF inv c _ s'(2) wk]) (simp_all only: ab(1))
  next
    case (Some lmx)
    obtain l m x where t: "t = Some (l, m, x)" using Some by (cases lmx) auto
    note n = some [rule_format, OF t]
    have np: "next_pc t = Merging l m x" using t by (simp add: next_pc_def)
    have ml: "maps_of run p cs ?s' = maps_along s' run ((pc_taken ?pc)(c := [l, m, x])) p (as @ c # bs)"
      using ab(3) np pc_taken_upd(1) by (simp add: maps_of_def)
    have "length (real_maps [l, m, x]) \<ge> 1" using n by simp
    moreover have "length (real_maps [l, m, x]) \<ge> 2" if "?pc c = Merged" using n mw that pc by auto
    ultimately have "work_left run p cs ?s' < work_left run p cs s"
      using np ab(1) ab(3) [of "Merging l m x"] ab(4) [of "Merging l m x"] n pc
      unfolding work_left_def by (auto simp del: real_maps_simps)
    moreover have "case (?pc(c := next_pc t)) d of Merging l m x \<Rightarrow> worker_map s' (run d) = NULL \<and> m \<noteq> NULL
        | Merged \<Rightarrow> worker_map s' (run d) \<noteq> NULL | _ \<Rightarrow> True" if "d \<in> set cs" for d
      using others [OF that] np n by (cases "d = c") (simp, blast)
    moreover have "team s' run p (still_there (?pc(c := next_pc t)) cs)" using n np ab(3) by simp
    ultimately show ?thesis using n ml by (intro good_stepI [OF inv c _ s'(2) wk]) (simp_all only: ab(1))
  qed
  with s'(1) show ?thesis by blast
qed

lemma good_merge:
  assumes inv: "returns_inv run p cs s" and c: "c \<in> set cs" and pc: "rs_pc s c = Merging l m x"
  shows "\<exists>s'. merge_taken (run c) c l m x (rs_rt s) = Some s' \<and>
    good_step run p cs s \<lparr>rs_rt = s', rs_pc = (rs_pc s)(c := Merged)\<rparr>"
proof -
  let ?pc = "rs_pc s" and ?s = "rs_rt s"
  have live: "?pc c \<noteq> Returned" and tk: "pc_taken ?pc c = [l, m, x]" using pc by (auto simp: pc_taken_def)
  from inv_child [OF inv c live] obtain as bs where ab: "still_there ?pc cs = as @ c # bs"
    "\<And>v. v \<noteq> Returned \<Longrightarrow> still_there (?pc(c := v)) cs = as @ c # bs"
    "\<And>v. sum_list (map (pc_weight \<circ> ?pc(c := v)) cs) + pc_weight (?pc c) = sum_list (map (pc_weight \<circ> ?pc) cs) + pc_weight v"
    "runs_child ?s run p as c bs (run c)" by metis
  have lock: "parent_lock ?s p free_lock" and ok: "maps_ok ?s (maps_along ?s run (pc_taken ?pc) p (as @ c # bs))"
    and i: "distinct cs" "\<forall>c. c \<notin> set cs \<longrightarrow> ?pc c = Returned" "\<forall>c\<in>set cs. wk_at ?s (run c) \<noteq> None"
    using inv ab(1) unfolding returns_inv_def maps_of_def by auto
  have mw: "worker_map ?s (run c) = NULL" "m \<noteq> NULL" using inv c pc unfolding returns_inv_def by force+
  from merge_round [where taken = "pc_taken ?pc", OF ab(4) tk mw ok] obtain s' where
    s': "merge_taken (run c) c l m x ?s = Some s'" "runs_child s' run p as c bs (run c)" "same_tree ?s s'"
      "worker_map s' (run c) \<noteq> NULL" "\<forall>v. v \<noteq> run c \<longrightarrow> worker_map s' v = worker_map ?s v"
      "children_map s' = children_map ?s" "right_map s' = right_map ?s"
      "keeps run p ?s (pc_taken ?pc) (as @ c # bs) s' ((pc_taken ?pc)(c := [])) (as @ c # bs)" by blast
  note others = inv_others [OF inv c live s'(5)]
  let ?s' = "\<lparr>rs_rt = s', rs_pc = ?pc(c := Merged)\<rparr>"
  have wk: "\<forall>c\<in>set cs. wk_at s' (run c) \<noteq> None" using i(3) same_tree_worker [OF s'(3)] by blast
  have ml: "maps_of run p cs ?s' = maps_along s' run ((pc_taken ?pc)(c := [])) p (as @ c # bs)"
    using ab(2) pc_taken_upd(2) by (simp add: maps_of_def)
  have "work_left run p cs ?s' < work_left run p cs s"
    using count_merge [OF ab(4) mw(1) s'(4,6,7,5)] ab(1) ab(2) [of Merged] ab(3) [of Merged] pc by (simp add: work_left_def)
  moreover have "case (?pc(c := Merged)) d of Merging l m x \<Rightarrow> worker_map s' (run d) = NULL \<and> m \<noteq> NULL
      | Merged \<Rightarrow> worker_map s' (run d) \<noteq> NULL | _ \<Rightarrow> True" if "d \<in> set cs" for d
    using others [OF that] s'(4) by (cases "d = c") (simp, blast)
  moreover have "team s' run p (still_there (?pc(c := Merged)) cs)" using s'(2) ab(2) by (simp add: runs_child_def)
  ultimately have "good_step run p cs s ?s'"
    using s'(8) ml by (intro good_stepI [OF inv c _ same_tree_lock [OF s'(3) lock] wk]) (simp_all only: ab(1))
  with s'(1) show ?thesis by blast
qed

lemma good_first:
  assumes inv: "returns_inv run p cs s" and c: "c \<in> set cs" "rs_pc s c = Returning"
  shows "\<exists>t s'. locked_section first_section (run c) c (rs_rt s) = Some (t, s') \<and>
    good_step run p cs s \<lparr>rs_rt = s', rs_pc = (rs_pc s)(c := next_pc t)\<rparr>"
proof (rule good_section [where again = False, OF inv c(1) disjI1 [OF c(2)]])
  fix as bs s0 assume "runs_child s0 run p as c bs (run c)"
  from first_section_spec [OF this]
  show "\<exists>t s'. first_section (run c) c s0 = Some (t, s') \<and> section_result run p as c bs s0 t s' \<and>
      (False \<and> worker_map s0 (run c) \<noteq> NULL \<longrightarrow> (\<forall>l m x. t = Some (l, m, x) \<longrightarrow> l \<noteq> NULL))" by blast
qed

lemma good_next:
  assumes inv: "returns_inv run p cs s" and c: "c \<in> set cs" "rs_pc s c = Merged"
  shows "\<exists>t s'. locked_section next_section (run c) c (rs_rt s) = Some (t, s') \<and>
    good_step run p cs s \<lparr>rs_rt = s', rs_pc = (rs_pc s)(c := next_pc t)\<rparr>"
proof (rule good_section [where again = True, OF inv c(1)])
  show "rs_pc s c = Returning \<or> rs_pc s c = Merged \<and> True" using c(2) by simp
  fix as bs s0 assume "runs_child s0 run p as c bs (run c)"
  from next_section_spec [OF this]
  show "\<exists>t s'. next_section (run c) c s0 = Some (t, s') \<and> section_result run p as c bs s0 t s' \<and>
      (True \<and> worker_map s0 (run c) \<noteq> NULL \<longrightarrow> (\<forall>l m x. t = Some (l, m, x) \<longrightarrow> l \<noteq> NULL))" by blast
qed

lemma return_step_good:
  assumes "return_step run s s'" "returns_inv run p cs s"
  shows "good_step run p cs s s'"
proof -
  have inside: "c \<in> set cs" if "rs_pc s c \<noteq> Returned" for c using assms(2) that unfolding returns_inv_def by blast
  from assms(1) show ?thesis
  proof cases
    case (First c t s1)
    then show ?thesis using good_first [OF assms(2) inside First(2)] by auto
  next
    case (Merge c l m x s1)
    then show ?thesis using good_merge [OF assms(2) inside Merge(2)] by auto
  next
    case (Next c t s1)
    then show ?thesis using good_next [OF assms(2) inside Next(2)] by auto
  qed
qed

lemma returns_progress:
  assumes inv: "returns_inv run p cs s" and c: "c \<in> set cs" "rs_pc s c \<noteq> Returned"
  shows "\<exists>s'. return_step run s s'"
proof (cases "rs_pc s c")
  case Returning
  then show ?thesis using good_first [OF inv c(1)] return_step.First [OF Returning] by blast
next
  case (Merging l m x)
  then show ?thesis using good_merge [OF inv c(1)] return_step.Merge [OF Merging] by blast
next
  case Merged
  then show ?thesis using good_next [OF inv c(1)] return_step.Next [OF Merged] by blast
qed (use c in simp)

section \<open>Runs\<close>

definition all_returning :: "rts \<Rightarrow> ptr list \<Rightarrow> returns" where
  "all_returning s cs = \<lparr>rs_rt = s, rs_pc = (\<lambda>c. if c \<in> set cs then Returning else Returned)\<rparr>"

text \<open>What the theorems assume of the state in which all children stand before their return.\<close>

definition returns_start :: "(ptr \<Rightarrow> ptr) \<Rightarrow> ptr \<Rightarrow> ptr list \<Rightarrow> rts \<Rightarrow> bool" where
  "returns_start run p cs s \<longleftrightarrow> team s run p cs \<and> parent_lock s p free_lock \<and> (\<forall>c\<in>set cs. wk_at s (run c) \<noteq> None) \<and>
     maps_ok s (maps_along s run (\<lambda>_. []) p cs)"

lemma returns_start_inv:
  assumes "returns_start run p cs s"
  shows "returns_inv run p cs (all_returning s cs)" "maps_of run p cs (all_returning s cs) = maps_along s run (\<lambda>_. []) p cs"
    "work_left run p cs (all_returning s cs) \<le> 9 * length cs + 3"
proof -
  let ?pc = "\<lambda>c. if c \<in> set cs then Returning else Returned"
  have st: "still_there ?pc cs = cs" by (simp add: still_there_def)
  have tk: "pc_taken ?pc = (\<lambda>_. [])" by (auto simp: pc_taken_def fun_eq_iff)
  have d: "distinct cs" using assms by (simp add: returns_start_def team_def kids_def)
  show "maps_of run p cs (all_returning s cs) = maps_along s run (\<lambda>_. []) p cs" by (simp add: maps_of_def all_returning_def st tk)
  then show "returns_inv run p cs (all_returning s cs)"
    using assms d unfolding returns_inv_def returns_start_def by (auto simp: all_returning_def st)
  have "length (maps_along s run (\<lambda>_. []) p xs) = 2 * length xs + 1" for xs
    by (induction xs) (simp_all add: maps_along_def strand_maps_def)
  moreover have "length (real_maps xs) \<le> length xs" for xs by (simp add: real_maps_def)
  ultimately have "map_count run s p cs \<le> 2 * length cs + 1" unfolding map_count_def by metis
  moreover have "sum_list (map (pc_weight \<circ> ?pc) xs) \<le> 3 * length xs" for xs
  proof (induction xs)
    case (Cons x xs)
    have "(pc_weight \<circ> ?pc) x \<le> 3" by simp
    then show ?case using Cons.IH by (simp only: list.map sum_list.Cons length_Cons mult_Suc_right)
  qed simp
  then have "sum_list (map (pc_weight \<circ> ?pc) cs) \<le> 3 * length cs" .
  ultimately show "work_left run p cs (all_returning s cs) \<le> 9 * length cs + 3"
    unfolding work_left_def all_returning_def returns.select_convs st
    by linarith
qed

lemma returns_run:
  assumes "returns_inv run p cs s0" "(return_step run ^^ n) s0 s"
  shows "returns_inv run p cs s \<and> n + work_left run p cs s \<le> work_left run p cs s0 \<and>
    (\<forall>k. serial_view (rs_rt s) (maps_of run p cs s) k = serial_view (rs_rt s0) (maps_of run p cs s0) k)"
  using assms(2)
proof (induction n arbitrary: s)
  case 0
  then show ?case using assms(1) by simp
next
  case (Suc n)
  then obtain s1 where "(return_step run ^^ n) s0 s1" "return_step run s1 s" by auto
  with Suc.IH [of s1] return_step_good [of run s1 s p cs] show ?case unfolding good_step_def by auto
qed

section \<open>An example\<close>

text \<open>Frame 10 with the children 11 and 12, run by the workers 1 and 2. The views of key 7 are, from left to right,
  1 in the leftmost map, 2 at worker 1, 3 to the right of child 11, and 4 at worker 2.\<close>

definition reduction_example :: "mutex \<Rightarrow> rts" where
  "reduction_example m = (rts_with_worker 1 example_local)\<lparr>
     rt_wk := [1 \<mapsto> (example_worker example_local)\<lparr>wk_reducer_map := 32\<rparr>, 2 \<mapsto> (example_worker example_local)\<lparr>wk_reducer_map := 33\<rparr>],
     rt_ff := [10 \<mapsto> (new_full_frame 20)\<lparr>ff_rightmost_child := 12, ff_join_counter := 2, ff_children_reducer_map := 30, ff_lock := m\<rparr>,
      11 \<mapsto> (new_full_frame 21)\<lparr>ff_parent := 10, ff_right_sibling := 12, ff_fiber_self := 41, ff_right_reducer_map := 31\<rparr>,
      12 \<mapsto> (new_full_frame 22)\<lparr>ff_parent := 10, ff_left_sibling := 11, ff_fiber_self := 42\<rparr>],
     rt_rm := [30 \<mapsto> \<lparr>rm_leftmost = True, rm_elems = [(7, True, [1])]\<rparr>, 31 \<mapsto> \<lparr>rm_leftmost = False, rm_elems = [(7, False, [3])]\<rparr>,
      32 \<mapsto> \<lparr>rm_leftmost = False, rm_elems = [(7, False, [2]), (8, False, [5])]\<rparr>, 33 \<mapsto> \<lparr>rm_leftmost = False, rm_elems = [(7, False, [4])]\<rparr>]\<rparr>"

definition example_run :: "ptr \<Rightarrow> ptr" where
  "example_run c = (if c = 11 then 1 else if c = 12 then 2 else NULL)"

lemma reduction_example_at:
  "ff_at (reduction_example m) 10 = Some ((new_full_frame 20)\<lparr>ff_rightmost_child := 12, ff_join_counter := 2, ff_children_reducer_map := 30, ff_lock := m\<rparr>)"
  "ff_at (reduction_example m) 11 = Some ((new_full_frame 21)\<lparr>ff_parent := 10, ff_right_sibling := 12, ff_fiber_self := 41, ff_right_reducer_map := 31\<rparr>)"
  "ff_at (reduction_example m) 12 = Some ((new_full_frame 22)\<lparr>ff_parent := 10, ff_left_sibling := 11, ff_fiber_self := 42\<rparr>)"
  "wk_at (reduction_example m) 1 = Some ((example_worker example_local)\<lparr>wk_reducer_map := 32\<rparr>)"
  "wk_at (reduction_example m) 2 = Some ((example_worker example_local)\<lparr>wk_reducer_map := 33\<rparr>)"
  by (simp_all add: reduction_example_def ff_at_def wk_at_def)

lemmas reduction_example_heap = reduction_example_at reduction_example_at(4) [simplified]

lemma reduction_example_team: "team (reduction_example m) example_run 10 [11, 12]"
  by (simp add: team_def kids_def reduction_example_heap new_full_frame_def fiber_of_def idle_local_def example_run_def l_at_wk
      example_worker_def example_local_def)

lemma reduction_example_maps: "maps_along (reduction_example m) example_run (\<lambda>_. []) 10 [11, 12] = [30, 32, 31, 33, NULL]"
  by (simp add: maps_along_def strand_maps_def children_map_def right_map_def worker_map_def reduction_example_heap example_run_def new_full_frame_def)

lemma reduction_example_ok: "maps_ok (reduction_example m) [30, 32, 31, 33, NULL]"
  by (simp add: maps_ok_def any_map_def inner_map_def wf_map_def reduction_example_def)

lemma reduction_example_view: "serial_view (reduction_example m) [30, 32, 31, 33, NULL] 7 = [1, 2, 3, 4]"
  by (simp add: map_view_def view_of_def lookup_view_def reduction_example_def)

section \<open>Properties\<close>

text \<open>C26. A child that returns from its spawn, with the lock of its parent held, gives away all its maps: whichever of the
  eight cases of left, middle and right maps it meets, the slow path ends, the child leaves the list of children,
  and every reducer's views along the frame, read from left to right, are what they were, so that the
  serial order of the reduction is kept.\<close>

theorem spawn_return_keeps_serial_order:
  assumes "team s run p (as @ c # bs)" "wk_at s (run c) \<noteq> None" "parent_lock s p (held_by (run c))"
    "maps_ok s (maps_along s run (\<lambda>_. []) p (as @ c # bs))"
  shows "\<exists>s'. spawn_return_reductions (run c) c s = Some s' \<and> kids s' p (as @ bs) \<and> parent_lock s' p (held_by (run c)) \<and>
    worker_map s' (run c) = NULL \<and> right_map s' c = NULL \<and>
    (\<forall>k. serial_view s' (maps_along s' run (\<lambda>_. []) p (as @ bs)) k = serial_view s (maps_along s run (\<lambda>_. []) p (as @ c # bs)) k)"
proof -
  have "runs_child s run p as c bs (run c)" using assms by (simp add: runs_child_def)
  from spawn_return_spec [OF this assms(3,4)] obtain s' where "spawn_return_reductions (run c) c s = Some s'" "team s' run p (as @ bs)"
    "keeps run p s (\<lambda>_. []) (as @ c # bs) s' (\<lambda>_. []) (as @ bs)" "worker_map s' (run c) = NULL" "right_map s' c = NULL"
    "parent_lock s' p (held_by (run c))" by blast
  then show ?thesis using assms(4) unfolding keeps_def team_def by (intro exI [of _ s']) blast
qed

theorem spawn_return_keeps_serial_order_witness:
  "\<exists>s'. spawn_return_reductions 2 12 (reduction_example (held_by 2)) = Some s' \<and> kids s' 10 [11] \<and>
    serial_view s' (maps_along s' example_run (\<lambda>_. []) 10 [11]) 7 = [1, 2, 3, 4]"
proof -
  have run: "example_run 12 = 2" by (simp add: example_run_def)
  have w: "wk_at (reduction_example (held_by 2)) (example_run 12) \<noteq> None" by (simp add: run reduction_example_at)
  have l: "parent_lock (reduction_example (held_by 2)) 10 (held_by (example_run 12))"
    by (simp add: run parent_lock_def reduction_example_heap)
  from spawn_return_keeps_serial_order [of "reduction_example (held_by 2)" example_run 10 "[11]" 12 "[]", simplified append_Cons append_Nil,
    OF reduction_example_team w l] show ?thesis
    unfolding reduction_example_maps run using reduction_example_ok reduction_example_view by force
qed

text \<open>C27. Any number of children may return at the same time, with their locked sections and their merges interleaved in
  any order. In every reachable state the views along the frame, including the maps that are being merged at the
  moment, read from left to right, are those of the start; no child is ever stuck, a run has at most
  \<open>9 n + 3\<close> steps for \<open>n\<close> children, and when no step is left the children map of the frame holds, for every reducer, the
  serial result.\<close>

theorem interleaved_returns_serial:
  assumes "returns_start run p cs s" "(return_step run ^^ n) (all_returning s cs) r"
  shows "serial_view (rs_rt r) (maps_of run p cs r) k = serial_view s (maps_along s run (\<lambda>_. []) p cs) k \<and>
    n \<le> 9 * length cs + 3 \<and> (\<forall>c. rs_pc r c \<noteq> Returned \<longrightarrow> (\<exists>r'. return_step run r r')) \<and>
    ((\<forall>r'. \<not> return_step run r r') \<longrightarrow>
      map_view (rs_rt r) (children_map (rs_rt r) p) k = serial_view s (maps_along s run (\<lambda>_. []) p cs) k)"
proof -
  note start = returns_start_inv [OF assms(1)]
  note run = returns_run [OF start(1) assms(2)]
  have v: "serial_view (rs_rt r) (maps_of run p cs r) k = serial_view s (maps_along s run (\<lambda>_. []) p cs) k"
    using run unfolding start(2) by (simp add: all_returning_def)
  have prog: "\<exists>r'. return_step run r r'" if "rs_pc r c \<noteq> Returned" for c
    using returns_progress [of run p cs r c] run that unfolding returns_inv_def by blast
  have "map_view (rs_rt r) (children_map (rs_rt r) p) k = serial_view s (maps_along s run (\<lambda>_. []) p cs) k"
    if "\<forall>r'. \<not> return_step run r r'"
  proof -
    have "\<forall>c. rs_pc r c = Returned" using prog that by blast
    then have "still_there (rs_pc r) cs = []" by (simp add: still_there_def)
    then show ?thesis using v by (simp add: maps_of_def maps_along_def)
  qed
  then show ?thesis using v prog run start(3) by auto
qed

theorem interleaved_returns_serial_witness:
  "\<exists>r. return_step example_run (all_returning (reduction_example free_lock) [11, 12]) r \<and>
    serial_view (rs_rt r) (maps_of example_run 10 [11, 12] r) 7 = [1, 2, 3, 4]"
proof -
  let ?s = "reduction_example free_lock"
  have st: "returns_start example_run 10 [11, 12] ?s"
    using reduction_example_team reduction_example_ok unfolding returns_start_def reduction_example_maps
    by (simp add: parent_lock_def reduction_example_heap example_run_def)
  have pc: "rs_pc (all_returning ?s [11, 12]) 11 \<noteq> Returned" by (simp add: all_returning_def)
  have zero: "(return_step example_run ^^ 0) (all_returning ?s [11, 12]) (all_returning ?s [11, 12])" by simp
  from interleaved_returns_serial [OF st zero] pc obtain r where r: "return_step example_run (all_returning ?s [11, 12]) r" by blast
  then have "(return_step example_run ^^ 1) (all_returning ?s [11, 12]) r" by (auto simp: OO_def)
  from interleaved_returns_serial [OF st this, of 7] r show ?thesis
    unfolding reduction_example_maps reduction_example_view by blast
qed

end
