(* ===== verification/Exception_Order.thy ===== *)
theory Exception_Order
  imports Serial_Order
begin

text \<open>
  Exceptions of parallel strands: merging two records keeps the earlier active exception, and a child that
  returns from its spawn merges its own record and the one to its right into the slot to its left.
  So the exception that is finally rethrown at the sync is the one the serial execution would have met first.
\<close>

section \<open>Merging two records\<close>

definition active_exc :: "rts \<Rightarrow> ptr \<Rightarrow> ptr" where
  "active_exc s p = (if p = NULL then NULL else case rt_ex s p of None \<Rightarrow> NULL | Some e \<Rightarrow> pe_active e)"

definition uncaught :: "rts \<Rightarrow> ptr \<Rightarrow> 32 word" where
  "uncaught s p = (if p = NULL then 0 else case rt_ex s p of None \<Rightarrow> 0 | Some e \<Rightarrow> pe_uncaught e)"

definition first_active :: "ptr list \<Rightarrow> ptr" where
  "first_active xs = (case filter (\<lambda>a. a \<noteq> NULL) xs of [] \<Rightarrow> NULL | a # _ \<Rightarrow> a)"

definition dropped :: "ptr list \<Rightarrow> nat" where
  "dropped xs = length (filter (\<lambda>a. a \<noteq> NULL) xs) - 1"

text \<open>The left record of a merge is synched; the right one has neither caught an exception nor one to rethrow.\<close>

definition synched_exc :: "rts \<Rightarrow> ptr \<Rightarrow> bool" where
  "synched_exc s p \<longleftrightarrow> p = NULL \<or> (\<exists>e. rt_ex s p = Some e \<and> (pe_caught e = NULL \<longrightarrow> \<not> pe_rethrow e))"

definition plain_exc :: "rts \<Rightarrow> ptr \<Rightarrow> bool" where
  "plain_exc s p \<longleftrightarrow> p = NULL \<or> (\<exists>e. rt_ex s p = Some e \<and> pe_caught e = NULL \<and> \<not> pe_rethrow e)"

definition merged_exc :: "rts \<Rightarrow> ptr \<Rightarrow> ptr \<Rightarrow> ptr \<Rightarrow> rts \<Rightarrow> bool" where
  "merged_exc s l r p s' \<longleftrightarrow> s' = s\<lparr>rt_ex := rt_ex s'\<rparr> \<and> synched_exc s' p \<and>
     active_exc s' p = first_active [active_exc s l, active_exc s r] \<and>
     uncaught s' p = uncaught s l + uncaught s r - of_nat (dropped [active_exc s l, active_exc s r]) \<and>
     (p = NULL \<or> p = l \<or> p = r) \<and> (\<forall>q. q \<noteq> l \<and> q \<noteq> r \<longrightarrow> rt_ex s' q = rt_ex s q) \<and>
     (\<forall>q\<in>{l, r}. q \<noteq> NULL \<and> q \<noteq> p \<longrightarrow> rt_ex s' q = None)"

lemma merged_excD:
  assumes "merged_exc s l r p s'"
  shows "synched_exc s' p" "active_exc s' p = first_active [active_exc s l, active_exc s r]"
    "uncaught s' p = uncaught s l + uncaught s r - of_nat (dropped [active_exc s l, active_exc s r])"
    "p = NULL \<or> p = l \<or> p = r" "\<forall>q. q \<noteq> l \<and> q \<noteq> r \<longrightarrow> rt_ex s' q = rt_ex s q"
    "\<forall>q\<in>{l, r}. q \<noteq> NULL \<and> q \<noteq> p \<longrightarrow> rt_ex s' q = None"
proof -
  note a = assms [unfolded merged_exc_def, THEN conjunct2]
  show "synched_exc s' p" using a by (rule conjunct1)
  note a = a [THEN conjunct2]
  show "active_exc s' p = first_active [active_exc s l, active_exc s r]" using a by (rule conjunct1)
  note a = a [THEN conjunct2]
  show "uncaught s' p = uncaught s l + uncaught s r - of_nat (dropped [active_exc s l, active_exc s r])" using a by (rule conjunct1)
  note a = a [THEN conjunct2]
  show "p = NULL \<or> p = l \<or> p = r" using a by (rule conjunct1)
  note a = a [THEN conjunct2]
  show "\<forall>q. q \<noteq> l \<and> q \<noteq> r \<longrightarrow> rt_ex s' q = rt_ex s q" using a by (rule conjunct1)
  show "\<forall>q\<in>{l, r}. q \<noteq> NULL \<and> q \<noteq> p \<longrightarrow> rt_ex s' q = None" using a by (rule conjunct2)
qed

lemma merge_exc_plain:
  assumes "pe_caught r = NULL" "\<not> pe_rethrow r" "pe_caught l = NULL \<longrightarrow> \<not> pe_rethrow l"
  shows "merge_exc l r = Some (l\<lparr>pe_active := if pe_active l = NULL then pe_active r else pe_active l,
    pe_uncaught := pe_uncaught l + (if pe_active l = NULL then pe_uncaught r
      else pe_uncaught r - (if pe_active r \<noteq> NULL then 1 else 0))\<rparr>)"
  using assms by (cases l) (auto simp: merge_exc_def)

lemma merge_pending_spec:
  assumes l: "synched_exc s l" and r: "plain_exc s r" and ne: "l = NULL \<or> r = NULL \<or> l \<noteq> r"
  shows "\<exists>p s'. merge_pending_exceptions l r s = Some (p, s') \<and> merged_exc s l r p s'"
proof (cases "l = NULL \<or> r = NULL")
  case True
  then show ?thesis using l r
    by (auto simp: merge_pending_exceptions_def merged_exc_def synched_exc_def plain_exc_def active_exc_def uncaught_def
        first_active_def dropped_def)
next
  case False
  with l r obtain x y where x: "rt_ex s l = Some x" "pe_caught x = NULL \<longrightarrow> \<not> pe_rethrow x"
    and y: "rt_ex s r = Some y" "pe_caught y = NULL" "\<not> pe_rethrow y" by (auto simp: synched_exc_def plain_exc_def)
  have lr: "l \<noteq> r" "l \<noteq> NULL" "r \<noteq> NULL" using False ne by auto
  define e where "e = x\<lparr>pe_active := if pe_active x = NULL then pe_active y else pe_active x,
    pe_uncaught := pe_uncaught x + (if pe_active x = NULL then pe_uncaught y
      else pe_uncaught y - (if pe_active y \<noteq> NULL then 1 else 0))\<rparr>"
  have m: "merge_exc x y = Some e" unfolding e_def by (rule merge_exc_plain [OF y(2,3) x(2)])
  define s' where "s' = s\<lparr>rt_ex := (rt_ex s)(l := (if pe_empty e then None else Some e), r := None)\<rparr>"
  have go: "merge_pending_exceptions l r s = Some (if pe_empty e then NULL else l, s')"
    using lr x(1) y(1) m by (simp add: merge_pending_exceptions_def s'_def)
  have act: "pe_active e = first_active [active_exc s l, active_exc s r]"
    using lr x(1) y(1) by (simp add: e_def active_exc_def first_active_def)
  have unc: "pe_uncaught e = uncaught s l + uncaught s r - of_nat (dropped [active_exc s l, active_exc s r])"
    using lr x(1) y(1) by (simp add: e_def active_exc_def uncaught_def dropped_def)
  have ce: "pe_caught e = pe_caught x" "pe_rethrow e = pe_rethrow x" by (simp_all add: e_def)
  have "merged_exc s l r (if pe_empty e then NULL else l) s'"
  proof (cases "pe_empty e")
    case True
    then have "pe_active e = NULL" "pe_uncaught e = 0" by (simp_all add: pe_empty_def)
    then show ?thesis using True act unc lr
      by (simp add: merged_exc_def s'_def synched_exc_def active_exc_def [of _ NULL] uncaught_def [of _ NULL])
  next
    case False
    then show ?thesis using act unc ce x(2) lr
      by (simp add: merged_exc_def s'_def synched_exc_def active_exc_def [of "s\<lparr>rt_ex := m\<rparr>" for m]
          uncaught_def [of "s\<lparr>rt_ex := m\<rparr>" for m])
  qed
  with go show ?thesis by blast
qed

section \<open>Splicing exceptions at a spawn return\<close>

lemma exc_ff [simp]: "active_exc (put_ff q f s) = active_exc s" "uncaught (put_ff q f s) = uncaught s"
    "synched_exc (put_ff q f s) = synched_exc s" "plain_exc (put_ff q f s) = plain_exc s"
    "rt_ex (put_ff q f s) = rt_ex s"
  by (simp_all add: fun_eq_iff active_exc_def uncaught_def synched_exc_def plain_exc_def put_ff_def)

lemma same_record:
  assumes "q = NULL \<or> rt_ex s' q = rt_ex s q"
  shows "active_exc s' q = active_exc s q" "uncaught s' q = uncaught s q" "plain_exc s' q = plain_exc s q"
  using assms by (cases "q = NULL"; simp add: active_exc_def uncaught_def plain_exc_def)+

lemma merged_exc_ff: "merged_exc s l r p s' \<Longrightarrow> ff_at s' q = ff_at s q"
  unfolding merged_exc_def by (metis ff_at_def rts.select_convs(2) rts.surjective rts.update_convs(7))

lemma splice_spec:
  assumes q: "slot = Right_Of q \<or> slot = Children_Of q" "q \<noteq> c" "ff_at s q \<noteq> None"
    and e: "exc_at slot s = Some e" and f: "ff_at s c = Some f"
    and ok: "synched_exc s e" "plain_exc s (ff_pending_exception f)" "plain_exc s (ff_right_pending_exception f)"
    and d: "distinct (real_maps [e, ff_pending_exception f, ff_right_pending_exception f])"
  shows "\<exists>s' e' f'. splice_exceptions_for_spawn c slot s = Some s' \<and> exc_at slot s' = Some e' \<and> ff_at s' c = Some f' \<and>
    ff_pending_exception f' = NULL \<and> ff_right_pending_exception f' = NULL \<and>
    active_exc s' e' = first_active (map (active_exc s) [e, ff_pending_exception f, ff_right_pending_exception f]) \<and>
    uncaught s' e' = uncaught s e + uncaught s (ff_pending_exception f) + uncaught s (ff_right_pending_exception f) -
      of_nat (dropped (map (active_exc s) [e, ff_pending_exception f, ff_right_pending_exception f])) \<and>
    (\<forall>x\<in>{e, ff_pending_exception f, ff_right_pending_exception f}. x \<noteq> NULL \<and> x \<noteq> e' \<longrightarrow> rt_ex s' x = None)"
proof -
  let ?a = "ff_pending_exception f" and ?b = "ff_right_pending_exception f"
  from q(3) obtain F where F: "ff_at s q = Some F" by auto
  define setx where "setx = (\<lambda>x (G::full_frame). if slot = Right_Of q then G\<lparr>ff_right_pending_exception := x\<rparr> else G\<lparr>ff_child_pending_exception := x\<rparr>)"
  have set_at: "set_exc_at slot x t = Some (put_ff q (setx x G) t)" if "ff_at t q = Some G" for x t G
    using q(1) that by (auto simp: setx_def)
  have exc_at': "exc_at slot t = Some x" if "ff_at t q = Some (setx x G)" for x t G
    using q(1) that by (auto simp: setx_def)
  have dd: "e = NULL \<or> ?a = NULL \<or> e \<noteq> ?a" "?b = NULL \<or> ?b \<noteq> e \<and> ?b \<noteq> ?a" using d by (auto split: if_splits)
  from merge_pending_spec [OF ok(1,2) dd(1)] obtain e1 s1 where m1: "merge_pending_exceptions e ?a s = Some (e1, s1)"
    "merged_exc s e ?a e1 s1" by blast
  let ?t = "put_ff c (f\<lparr>ff_pending_exception := NULL\<rparr>) (put_ff q (setx e1 F) s1)"
  have at1: "ff_at s1 q = Some F" "ff_at s1 c = Some f" using merged_exc_ff [OF m1(2)] F f by simp_all
  note M1 = merged_excD [OF m1(2)]
  have "?b = NULL \<or> rt_ex s1 ?b = rt_ex s ?b" using M1(5) dd(2) by blast
  note b1 = same_record [OF this]
  have "synched_exc ?t e1" using M1(1) by simp
  moreover have "plain_exc ?t ?b" using ok(3) b1(3) by simp
  moreover have "e1 = NULL \<or> ?b = NULL \<or> e1 \<noteq> ?b" using M1(4) dd(2) by metis
  ultimately have "synched_exc ?t e1" "plain_exc ?t ?b" "e1 = NULL \<or> ?b = NULL \<or> e1 \<noteq> ?b" by blast+
  from merge_pending_spec [OF this] obtain e2 s2 where m2: "merge_pending_exceptions e1 ?b ?t = Some (e2, s2)"
    "merged_exc ?t e1 ?b e2 s2" by blast
  note M2 = merged_excD [OF m2(2), unfolded exc_ff]
  let ?s = "put_ff c (f\<lparr>ff_pending_exception := NULL, ff_right_pending_exception := NULL\<rparr>) (put_ff q (setx e2 (setx e1 F)) s2)"
  have at2: "ff_at s2 q = Some (setx e1 F)" "ff_at s2 c = Some (f\<lparr>ff_pending_exception := NULL\<rparr>)"
    using merged_exc_ff [OF m2(2)] q(2) by simp_all
  have atq: "ff_at (put_ff q (setx e1 F) s1) c = Some f" using at1 q(2) by simp
  have xt: "exc_at slot ?t = Some e1" by (rule exc_at' [of _ _ F]) (use q(2) in simp)
  have go: "splice_exceptions_for_spawn c slot s = Some ?s"
    using e f m1(1) set_at [OF at1(1)] atq xt m2(1) set_at [OF at2(1)] at2(2) q(2)
    by (simp add: splice_exceptions_for_spawn_def)
  have x: "exc_at slot ?s = Some e2" by (rule exc_at' [of _ _ "setx e1 F"]) (use q(2) in simp)
  have act: "active_exc s2 e2 = first_active (map (active_exc s) [e, ?a, ?b])"
    unfolding M2(2) M1(2) b1(1) by (simp add: first_active_def)
  have unc: "uncaught s2 e2 = uncaught s e + uncaught s ?a + uncaught s ?b - of_nat (dropped (map (active_exc s) [e, ?a, ?b]))"
    unfolding M2(3) M1(2,3) b1(1,2) by (simp add: first_active_def dropped_def)
  have gone: "rt_ex s2 x = None" if "x \<in> {e, ?a, ?b}" "x \<noteq> NULL" "x \<noteq> e2" for x
  proof (cases "x = ?b \<or> x = e1")
    case True
    then have "x \<in> {e1, ?b}" by blast
    from bspec [OF M2(6) this] that(2,3) show ?thesis by (simp only: simp_thms)
  next
    case False
    with that(1) have "x \<in> {e, ?a}" "x \<noteq> e1" "x \<noteq> ?b" by simp_all
    from bspec [OF M1(6) this(1)] this(2) that(2) have "rt_ex s1 x = None" by (simp only: simp_thms)
    moreover have "rt_ex s2 x = rt_ex s1 x" using M2(5) False by metis
    ultimately show ?thesis by simp
  qed
  show ?thesis
  proof (intro exI conjI)
    show "splice_exceptions_for_spawn c slot s = Some ?s" by (rule go)
    show "exc_at slot ?s = Some e2" by (rule x)
    show "ff_at ?s c = Some (f\<lparr>ff_pending_exception := NULL, ff_right_pending_exception := NULL\<rparr>)" by simp
    show "active_exc ?s e2 = first_active (map (active_exc s) [e, ?a, ?b])" unfolding exc_ff by (rule act)
    show "uncaught ?s e2 = uncaught s e + uncaught s ?a + uncaught s ?b - of_nat (dropped (map (active_exc s) [e, ?a, ?b]))"
      unfolding exc_ff by (rule unc)
    show "\<forall>x\<in>{e, ?a, ?b}. x \<noteq> NULL \<and> x \<noteq> e2 \<longrightarrow> rt_ex ?s x = None" unfolding exc_ff
      by (intro ballI impI) (rule gone, assumption, (erule conjE, assumption)+)
  qed simp_all
qed

section \<open>An example\<close>

text \<open>Child 11 returns with the active exception 90 (record 51), its right slot has exception 91 (record 52).\<close>

definition exception_example :: rts where
  "exception_example = family_example\<lparr>rt_ff := (rt_ff family_example)(11 \<mapsto> (new_full_frame 21)\<lparr>ff_parent := 10, ff_right_sibling := 12,
       ff_pending_exception := 51, ff_right_pending_exception := 52\<rparr>),
     rt_ex := [51 \<mapsto> \<lparr>pe_active = 90, pe_rethrow = False, pe_caught = NULL, pe_uncaught = 1\<rparr>,
       52 \<mapsto> \<lparr>pe_active = 91, pe_rethrow = False, pe_caught = NULL, pe_uncaught = 1\<rparr>]\<rparr>"

lemma exception_example_kids: "kids exception_example 10 ([] @ 11 # [12])"
  by (simp add: kids_def exception_example_def family_example_def ff_at_def new_full_frame_def)

section \<open>Properties\<close>

text \<open>C28. When a child returns from its spawn, the exception records of the slot to its left, of the child and of the slot
  to its right are merged into the left slot without a failed assertion: of their active exceptions the one that is
  first in serial order survives, the others are dropped and no longer counted as uncaught, the two slots of the child are
  emptied, and all records but the surviving one are freed.\<close>

theorem first_exception_survives:
  assumes "kids s p (as @ c # bs)" "ff_at s c = Some f" "ff_parent f = p" "exc_at (slot_of p as) s = Some e"
    "synched_exc s e" "plain_exc s (ff_pending_exception f)" "plain_exc s (ff_right_pending_exception f)"
    "distinct (real_maps [e, ff_pending_exception f, ff_right_pending_exception f])"
  shows "\<exists>s' e' f'. relocate_left c s = Some (slot_of p as, s') \<and> exc_at (slot_of p as) s' = Some e' \<and> ff_at s' c = Some f' \<and>
    ff_pending_exception f' = NULL \<and> ff_right_pending_exception f' = NULL \<and>
    active_exc s' e' = first_active (map (active_exc s) [e, ff_pending_exception f, ff_right_pending_exception f]) \<and>
    uncaught s' e' = uncaught s e + uncaught s (ff_pending_exception f) + uncaught s (ff_right_pending_exception f) -
      of_nat (dropped (map (active_exc s) [e, ff_pending_exception f, ff_right_pending_exception f])) \<and>
    (\<forall>x\<in>{e, ff_pending_exception f, ff_right_pending_exception f}. x \<noteq> NULL \<and> x \<noteq> e' \<longrightarrow> rt_ex s' x = None)"
proof -
  let ?q = "if as = [] then p else last as"
  have "slot_of p as = Right_Of ?q \<or> slot_of p as = Children_Of ?q" by (simp add: slot_of_def)
  moreover have "?q \<noteq> c" using assms(1) last_in_set [of as] by (auto simp: kids_def)
  moreover have "ff_at s ?q \<noteq> None"
    using assms(1) lseg_frame_at [of s NULL as c "last as"] by (auto simp: kids_def lseg_append)
  ultimately show ?thesis using splice_spec [OF _ _ _ assms(4,2,5,6,7,8)] kids_left [OF assms(1,2,3)]
    unfolding relocate_left_def by fastforce
qed

theorem first_exception_survives_witness:
  "\<exists>s' e'. relocate_left 11 exception_example = Some (Children_Of 10, s') \<and> exc_at (Children_Of 10) s' = Some e' \<and>
    active_exc s' e' = 90 \<and> uncaught s' e' = 1"
proof -
  let ?f = "(new_full_frame 21)\<lparr>ff_parent := 10, ff_right_sibling := 12, ff_pending_exception := 51, ff_right_pending_exception := 52\<rparr>"
  have f: "ff_at exception_example 11 = Some ?f" by (simp add: exception_example_def ff_at_def)
  have e: "exc_at (slot_of 10 []) exception_example = Some NULL"
    by (simp add: exception_example_def family_example_def ff_at_def slot_of_def new_full_frame_def)
  have ok: "synched_exc exception_example NULL" "plain_exc exception_example (ff_pending_exception ?f)"
    "plain_exc exception_example (ff_right_pending_exception ?f)"
    by (simp_all add: synched_exc_def plain_exc_def exception_example_def)
  have v: "active_exc exception_example NULL = 0" "active_exc exception_example 51 = 90" "active_exc exception_example 52 = 91"
    "uncaught exception_example NULL = 0" "uncaught exception_example 51 = 1" "uncaught exception_example 52 = 1"
    by (simp_all add: active_exc_def uncaught_def exception_example_def)
  from first_exception_survives [OF exception_example_kids f _ e ok] show ?thesis
    using v by (auto simp: slot_of_def first_active_def dropped_def)
qed

end
