(* ===== verification/Resume.thy ===== *)
theory Resume
  imports Reduction Deque_Ops The_Protocol
begin

text \<open>
  Leaving user code for the scheduler and resuming it: \<^verbatim>\<open>setup_for_execution\<close> and
  \<^verbatim>\<open>longjmp_into_runtime\<close> of \<^verbatim>\<open>scheduler.c\<close>, \<^verbatim>\<open>run_scheduling_stack_fcn\<close> of \<^verbatim>\<open>local_state.c\<close>, the
  saving and restoring of exceptions of \<^verbatim>\<open>except-gcc.cpp\<close>, and the pedigree updates of
  \<^verbatim>\<open>pedigrees.c\<close> and \<^verbatim>\<open>pedigrees.h\<close>. A switch of stacks ends a function; what runs after it is a function of
  its own. The exception state of the C++ runtime of a thread (\<^verbatim>\<open>__cxa_get_globals\<close>) is passed and
  returned. \<^verbatim>\<open>cilk_fiber_take\<close> only moves the fiber's memory to the NUMA node of the thread and has no
  effect here; the hooks of race detectors and of TBB are left out.
\<close>

section \<open>Exceptions\<close>

record cxa_globals =
  cx_caught :: ptr
  cx_uncaught :: "32 word"

definition no_cxa :: cxa_globals where
  "no_cxa = \<lparr>cx_caught = NULL, cx_uncaught = 0\<rparr>"

definition save_exception_info :: "ptr \<Rightarrow> cxa_globals \<Rightarrow> ptr \<Rightarrow> bool \<Rightarrow> rts \<Rightarrow> (cxa_globals \<times> rts) proc" where
  "save_exception_info w g exc rethrow s = do {
     let info = rt_next s;
     let s = s\<lparr>rt_ex := (rt_ex s)(info \<mapsto> \<lparr>pe_active = exc, pe_rethrow = rethrow, pe_caught = cx_caught g,
                pe_uncaught = cx_uncaught g\<rparr>), rt_next := rt_next s + 1\<rparr>;
     l \<leftarrow> l_at s w;
     assert_c (l_pending_exception l = NULL);
     s \<leftarrow> l_mod w (\<lambda>l. l\<lparr>l_pending_exception := info\<rparr>) s;
     Some (no_cxa, s) }"

text \<open>Moving the pending exception of the worker into its full frame.\<close>

definition pass_exception :: "ptr \<Rightarrow> ptr \<Rightarrow> rts \<Rightarrow> rts proc" where
  "pass_exception w ff s = do {
     f \<leftarrow> ff_at s ff;
     assert_c (ff_pending_exception f = NULL);
     l \<leftarrow> l_at s w;
     s \<leftarrow> ff_mod ff (\<lambda>f. f\<lparr>ff_pending_exception := l_pending_exception l\<rparr>) s;
     l_mod w (\<lambda>l. l\<lparr>l_pending_exception := NULL\<rparr>) s }"

definition save_exception_state :: "ptr \<Rightarrow> ptr \<Rightarrow> cxa_globals \<Rightarrow> rts \<Rightarrow> (cxa_globals \<times> rts) proc" where
  "save_exception_state w ff g s = do {
     (g, s) \<leftarrow> save_exception_info w g NULL False s;
     s \<leftarrow> pass_exception w ff s;
     Some (g, s) }"

definition setup_for_execution_sysdep :: "ptr \<Rightarrow> ptr \<Rightarrow> cxa_globals \<Rightarrow> rts \<Rightarrow> (cxa_globals \<times> rts) proc" where
  "setup_for_execution_sysdep w ff g s = do {
     l \<leftarrow> l_at s w;
     let info = l_pending_exception l;
     (if info = NULL then Some (g, s)
      else do {
        s \<leftarrow> l_mod w (\<lambda>l. l\<lparr>l_pending_exception := NULL\<rparr>) s;
        assert_c (cx_uncaught g = 0 \<and> cx_caught g = NULL);
        e \<leftarrow> rt_ex s info;
        let g = \<lparr>cx_caught = pe_caught e, cx_uncaught = pe_uncaught e\<rparr>;
        let e = e\<lparr>pe_caught := NULL, pe_uncaught := 0\<rparr>;
        f \<leftarrow> ff_at s ff;
        s \<leftarrow> (if pe_rethrow e
              then sf_mod (ff_call_stack f) (\<lambda>x. x\<lparr>sf_flags := sf_flags x OR CILK_FRAME_EXCEPTING\<rparr>) s else Some s);
        let e = e\<lparr>pe_rethrow := False\<rparr>;
        s \<leftarrow> (if pe_active e \<noteq> NULL
              then sf_mod (ff_call_stack f) (\<lambda>x. x\<lparr>sf_flags := sf_flags x OR CILK_FRAME_EXCEPTING,
                     sf_except_data := pe_active e\<rparr>) s else Some s);
        let e = e\<lparr>pe_active := NULL\<rparr>;
        (if pe_empty e then do {
           s \<leftarrow> l_mod w (\<lambda>l. l\<lparr>l_pending_exception := NULL\<rparr>) s;
           Some (g, s\<lparr>rt_ex := (rt_ex s)(info := None)\<rparr>) }
         else Some (g, s\<lparr>rt_ex := (rt_ex s)(info \<mapsto> e)\<rparr>)) }) }"

section \<open>Pedigrees\<close>

definition update_pedigree_on_leave_frame :: "ptr \<Rightarrow> ptr \<Rightarrow> rts \<Rightarrow> rts proc" where
  "update_pedigree_on_leave_frame w sf s = do {
     f \<leftarrow> sf_at s sf;
     (if CILK_FRAME_VERSION_VALUE (sf_flags f) \<ge> 1
      then wk_mod w (\<lambda>k. k\<lparr>wk_pedigree := (sf_pedigree f)\<lparr>pd_rank := pd_rank (sf_pedigree f) + 1\<rparr>\<rparr>) s
      else Some s) }"

definition update_pedigree_after_sync :: "ptr \<Rightarrow> ptr \<Rightarrow> rts \<Rightarrow> rts proc" where
  "update_pedigree_after_sync w sf s = do {
     f \<leftarrow> sf_at s sf;
     (if CILK_FRAME_VERSION_VALUE (sf_flags f) \<ge> 1
      then wk_mod w (\<lambda>k. k\<lparr>wk_pedigree := (wk_pedigree k)\<lparr>pd_rank := pd_rank (wk_pedigree k) + 1\<rparr>\<rparr>) s
      else Some s) }"

definition setup_for_execution_pedigree :: "ptr \<Rightarrow> rts \<Rightarrow> rts proc" where
  "setup_for_execution_pedigree w s = do {
     k \<leftarrow> wk_at s w;
     let sf = wk_current_stack_frame k;
     assert_c (sf \<noteq> NULL);
     f \<leftarrow> sf_at s sf;
     (if CILK_FRAME_VERSION_VALUE (sf_flags f) = 0 then Some s
      else do {
        let pedigree_unsynched = flag_set (sf_flags f) CILK_FRAME_SF_PEDIGREE_UNSYNCHED;
        s \<leftarrow> sf_mod sf (\<lambda>f. f\<lparr>sf_flags := sf_flags f AND NOT CILK_FRAME_SF_PEDIGREE_UNSYNCHED\<rparr>) s;
        s \<leftarrow> (if l_work_stolen (wk_l k) \<or> pedigree_unsynched then
                wk_mod w (\<lambda>k. k\<lparr>wk_pedigree := (wk_pedigree k)\<lparr>pd_rank :=
                  (if l_work_stolen (wk_l k) then pd_rank (sf_pedigree f) + 1 else pd_rank (sf_pedigree f))\<rparr>\<rparr>) s
              else Some s);
        s \<leftarrow> wk_mod w (\<lambda>k. k\<lparr>wk_pedigree := (wk_pedigree k)\<lparr>pd_parent := pd_parent (sf_pedigree f)\<rparr>\<rparr>) s;
        l_mod w (\<lambda>l. l\<lparr>l_work_stolen := False\<rparr>) s }) }"

section \<open>Resuming a full frame\<close>

definition setup_for_execution_reducers :: "ptr \<Rightarrow> ptr \<Rightarrow> rts \<Rightarrow> rts proc" where
  "setup_for_execution_reducers w ff s = do {
     f \<leftarrow> ff_at s ff;
     sf \<leftarrow> sf_at s (ff_call_stack f);
     (if \<not> flag_set (sf_flags sf) CILK_FRAME_UNSYNCHED then do {
        assert_c (ff_rightmost_child f = NULL);
        (if ff_children_reducer_map f \<noteq> NULL then do {
           k \<leftarrow> wk_at s w;
           assert_c (wk_reducer_map k = NULL);
           s \<leftarrow> set_wmap w (ff_children_reducer_map f) s;
           ff_mod ff (\<lambda>f. f\<lparr>ff_children_reducer_map := NULL\<rparr>) s }
         else Some s) }
      else Some s) }"

definition setup_for_execution_exceptions :: "ptr \<Rightarrow> ptr \<Rightarrow> rts \<Rightarrow> rts proc" where
  "setup_for_execution_exceptions w ff s = do {
     l \<leftarrow> l_at s w;
     assert_c (l_pending_exception l = NULL);
     f \<leftarrow> ff_at s ff;
     s \<leftarrow> l_mod w (\<lambda>l. l\<lparr>l_pending_exception := ff_pending_exception f\<rparr>) s;
     ff_mod ff (\<lambda>f. f\<lparr>ff_pending_exception := NULL\<rparr>) s }"

definition setup_for_execution :: "ptr \<Rightarrow> ptr \<Rightarrow> bool \<Rightarrow> cxa_globals \<Rightarrow> rts \<Rightarrow> (cxa_globals \<times> rts) proc" where
  "setup_for_execution w ff is_return_from_call g s = do {
     s \<leftarrow> setup_for_execution_reducers w ff s;
     s \<leftarrow> setup_for_execution_exceptions w ff s;
     f \<leftarrow> ff_at s ff;
     s \<leftarrow> sf_mod (ff_call_stack f) (\<lambda>x. x\<lparr>sf_worker := w\<rparr>) s;
     s \<leftarrow> wk_mod w (\<lambda>k. k\<lparr>wk_current_stack_frame := ff_call_stack f\<rparr>) s;
     s \<leftarrow> (if is_return_from_call then Some s else setup_for_execution_pedigree w s);
     (g, s) \<leftarrow> setup_for_execution_sysdep w ff g s;
     k \<leftarrow> wk_at s w;
     s \<leftarrow> dq_mod (wk_tail k) (\<lambda>d. d\<lparr>dq_tail := 0\<rparr>) s;
     s \<leftarrow> dq_mod (wk_head k) (\<lambda>d. d\<lparr>dq_head := 0\<rparr>) s;
     s \<leftarrow> dq_mod (wk_exc k) reset_THE_exception s;
     d \<leftarrow> active_deque s w;
     s \<leftarrow> make_runnable ff d s;
     Some (g, s) }"

definition scheduling_fiber_prepare_to_resume_user_code :: "ptr \<Rightarrow> ptr \<Rightarrow> ptr \<Rightarrow> rts \<Rightarrow> rts proc" where
  "scheduling_fiber_prepare_to_resume_user_code w ff sf s = do {
     s \<leftarrow> wk_mod w (\<lambda>k. k\<lparr>wk_current_stack_frame := sf\<rparr>) s;
     sf_mod sf (\<lambda>f. f\<lparr>sf_worker := w\<rparr>) s }"

definition cilkrts_resume :: "ptr \<Rightarrow> ptr \<Rightarrow> rts \<Rightarrow> (int \<times> rts) proc" where
  "cilkrts_resume sf ff s = do {
     f \<leftarrow> ff_at s ff;
     let sync_sp = ff_sync_sp f;
     s \<leftarrow> take_stack ff sync_sp s;
     s \<leftarrow> sf_mod sf (\<lambda>x. x\<lparr>sf_flags := sf_flags x AND NOT CILK_FRAME_SUSPENDED\<rparr>) s;
     Some (sync_sp, s) }"

text \<open>On the fiber of the user code, right before the jump; the result is the stack pointer to continue with.\<close>

definition user_code_resume_after_switch_into_runtime :: "ptr \<Rightarrow> rts \<Rightarrow> (int \<times> rts) proc" where
  "user_code_resume_after_switch_into_runtime fiber s = do {
     fb \<leftarrow> fb_at s fiber;
     k \<leftarrow> wk_at s (fb_owner fb);
     let sf = wk_current_stack_frame k;
     x \<leftarrow> sf_at s sf;
     ff \<leftarrow> frame_ff s (sf_worker x);
     f \<leftarrow> ff_at s ff;
     assert_c (ff_fiber_self f = fiber);
     assert_c (sf = fb_resume_sf fb);
     s \<leftarrow> fb_mod fiber (\<lambda>fb. fb\<lparr>fb_resume_sf := NULL\<rparr>) s;
     cilkrts_resume sf ff s }"

section \<open>Entering the scheduler\<close>

text \<open>
  \<^verbatim>\<open>longjmp_into_runtime\<close> up to the switch to the scheduling fiber: the current fiber is the one to
  free, or has been given to the parent. The result says which fiber it is, and whether its own
  reference is dropped by the switch (\<^verbatim>\<open>cilk_fiber_remove_reference_from_self_and_resume_other\<close>) or
  it is suspended.
\<close>

definition longjmp_into_runtime :: "ptr \<Rightarrow> scheduling_fcn \<Rightarrow> ptr \<Rightarrow> rts \<Rightarrow> (ptr \<times> bool \<times> rts) proc" where
  "longjmp_into_runtime w fcn sf s = do {
     l \<leftarrow> l_at s w;
     assert_c (l_post_suspend l = No_Fcn);
     s \<leftarrow> l_mod w (\<lambda>l. l\<lparr>l_post_suspend := fcn, l_suspended_stack := sf\<rparr>) s;
     ff \<leftarrow> frame_ff s w;
     f \<leftarrow> ff_at s ff;
     current_fiber \<leftarrow> (if l_fiber_to_free l \<noteq> NULL then Some (l_fiber_to_free l)
                       else do { p \<leftarrow> ff_at s (ff_parent f); Some (ff_fiber_child p) });
     assert_c (ff_fiber_self f = NULL);
     s \<leftarrow> fb_mod current_fiber (\<lambda>fb. fb\<lparr>fb_resume_sf := NULL\<rparr>) s;
     fb \<leftarrow> fb_at s current_fiber;
     assert_c (fb_owner fb = w);
     (if l_fiber_to_free l \<noteq> NULL then do {
        s \<leftarrow> l_mod w (\<lambda>l. l\<lparr>l_fiber_to_free := NULL\<rparr>) s;
        sch \<leftarrow> fb_at s (l_scheduling_fiber l);
        assert_c (fb_owner sch = NULL);
        Some (current_fiber, True, s) }
      else Some (current_fiber, False, s)) }"

text \<open>\<^verbatim>\<open>kyles_longjmp_into_runtime\<close> suspends the fiber of the frame itself.\<close>

definition kyles_longjmp_into_runtime :: "ptr \<Rightarrow> scheduling_fcn \<Rightarrow> ptr \<Rightarrow> rts \<Rightarrow> (ptr \<times> rts) proc" where
  "kyles_longjmp_into_runtime w fcn sf s = do {
     l \<leftarrow> l_at s w;
     assert_c (l_post_suspend l = No_Fcn);
     s \<leftarrow> l_mod w (\<lambda>l. l\<lparr>l_post_suspend := fcn, l_suspended_stack := sf\<rparr>) s;
     ff \<leftarrow> frame_ff s w;
     f \<leftarrow> ff_at s ff;
     s \<leftarrow> fb_mod (ff_fiber_self f) (\<lambda>fb. fb\<lparr>fb_resume_sf := NULL\<rparr>) s;
     fb \<leftarrow> fb_at s (ff_fiber_self f);
     assert_c (fb_owner fb = w);
     Some (ff_fiber_self f, s) }"

text \<open>The scheduling functions take the worker, the full frame and the stack frame.\<close>

definition run_scheduling_stack_fcn ::
  "(scheduling_fcn \<Rightarrow> ptr \<Rightarrow> ptr \<Rightarrow> ptr \<Rightarrow> rts \<Rightarrow> rts proc) \<Rightarrow> ptr \<Rightarrow> rts \<Rightarrow> rts proc" where
  "run_scheduling_stack_fcn call w s = do {
     l \<leftarrow> l_at s w;
     ff2 \<leftarrow> frame_ff s w;
     s \<leftarrow> l_mod w (\<lambda>l. l\<lparr>l_post_suspend := No_Fcn, l_suspended_stack := NULL\<rparr>) s;
     s \<leftarrow> set_frame_ff w NULL s;
     assert_c (l_post_suspend l \<noteq> No_Fcn);
     assert_c (ff2 \<noteq> NULL);
     s \<leftarrow> call (l_post_suspend l) w ff2 (l_suspended_stack l) s;
     ff \<leftarrow> frame_ff s w;
     assert_c (ff = NULL);
     Some s }"

end
