(* ===== verification/Join.thy ===== *)
theory Join
  imports Resume
begin

text \<open>
  Joining: how a worker that stalls at a sync, returns from a spawn to a stolen parent, or returns from a
  call of a stolen frame hands over to the frame it joins (\<^verbatim>\<open>scheduler.c\<close>). The last one to arrive at a
  sync, the owner of the frame or a child, takes the frame as its next one (\<^verbatim>\<open>provably_good_steal\<close>); all
  others look for other work. Record and replay are disabled in the runtime's build.
\<close>

section \<open>The last to arrive continues\<close>

datatype provably_good_steal_t = ABANDON_EXECUTION | CONTINUE_EXECUTION | WAIT_FOR_CONTINUE

definition replay_match_sync_pedigree :: "ptr \<Rightarrow> bool" where
  "replay_match_sync_pedigree w = False"

definition provably_good_steal_exceptions :: "ptr \<Rightarrow> rts \<Rightarrow> rts proc" where
  "provably_good_steal_exceptions ff s = do {
     f \<leftarrow> ff_at s ff;
     (e, s) \<leftarrow> merge_pending_exceptions (ff_child_pending_exception f) (ff_pending_exception f) s;
     s \<leftarrow> ff_mod ff (\<lambda>f. f\<lparr>ff_pending_exception := e\<rparr>) s;
     ff_mod ff (\<lambda>f. f\<lparr>ff_child_pending_exception := NULL\<rparr>) s }"

definition provably_good_steal_stacks :: "ptr \<Rightarrow> rts \<Rightarrow> rts proc" where
  "provably_good_steal_stacks ff s = do {
     f \<leftarrow> ff_at s ff;
     assert_c (ff_fiber_self f = NULL);
     assert_c (ff_fiber_child f \<noteq> NULL);
     ff_mod ff (\<lambda>f. f\<lparr>ff_fiber_self := ff_fiber_child f, ff_fiber_child := NULL\<rparr>) s }"

definition mark_synched :: "ptr \<Rightarrow> rts \<Rightarrow> rts proc" where
  "mark_synched ff s = do {
     f \<leftarrow> ff_at s ff;
     s \<leftarrow> sf_mod (ff_call_stack f) (\<lambda>x. x\<lparr>sf_flags := sf_flags x AND NOT CILK_FRAME_UNSYNCHED\<rparr>) s;
     ff_mod ff (\<lambda>f. f\<lparr>ff_simulated_stolen := False\<rparr>) s }"

definition provably_good_steal :: "ptr \<Rightarrow> ptr \<Rightarrow> rts \<Rightarrow> (provably_good_steal_t \<times> rts) proc" where
  "provably_good_steal w ff s = do {
     wait \<leftarrow> (if replay_match_sync_pedigree w then do { n \<leftarrow> simulate_decjoin ff s; Some (n \<noteq> 0) } else Some False);
     (if wait then Some (WAIT_FOR_CONTINUE, s)
      else do {
        (n, s) \<leftarrow> decjoin ff s;
        (if n = 0 then do {
           s \<leftarrow> provably_good_steal_exceptions ff s;
           s \<leftarrow> provably_good_steal_stacks ff s;
           s \<leftarrow> mark_synched ff s;
           s \<leftarrow> push_next_frame w ff s;
           Some (CONTINUE_EXECUTION, s) }
         else Some (ABANDON_EXECUTION, s)) }) }"

definition unconditional_steal :: "ptr \<Rightarrow> ptr \<Rightarrow> rts \<Rightarrow> rts proc" where
  "unconditional_steal w ff s = do { (_, s) \<leftarrow> decjoin ff s; push_next_frame w ff s }"

section \<open>Stalling at a sync\<close>

definition do_sync :: "ptr \<Rightarrow> ptr \<Rightarrow> ptr \<Rightarrow> rts \<Rightarrow> rts proc" where
  "do_sync w ff sf s = do {
     s \<leftarrow> worker_lock w s;
     assert_c (ff \<noteq> NULL);
     s \<leftarrow> frame_lock w ff s;
     x \<leftarrow> sf_at s sf;
     assert_c (sf_call_parent x = NULL);
     assert_c (flag_set (sf_flags x) CILK_FRAME_UNSYNCHED);
     f \<leftarrow> ff_at s ff;
     assert_c (ff_fiber_self f = NULL);
     k \<leftarrow> wk_at s w;
     s \<leftarrow> (if CILK_FRAME_VERSION_VALUE (sf_flags x) \<ge> 1
           then sf_mod sf (\<lambda>x. x\<lparr>sf_pedigree := wk_pedigree k,
                  sf_flags := sf_flags x OR CILK_FRAME_SF_PEDIGREE_UNSYNCHED\<rparr>) s
           else Some s);
     (steal_result, s) \<leftarrow> provably_good_steal w ff s;
     s \<leftarrow> frame_unlock w ff s;
     s \<leftarrow> (if steal_result \<noteq> WAIT_FOR_CONTINUE then set_frame_ff w NULL s else Some s);
     worker_unlock w s }"

definition c_sync :: "ptr \<Rightarrow> ptr \<Rightarrow> rts \<Rightarrow> (ptr \<times> bool \<times> rts) proc" where
  "c_sync w sf_at_sync s = do {
     ff \<leftarrow> frame_ff s w;
     s \<leftarrow> pass_exception w ff s;
     s \<leftarrow> execute_reductions_for_sync w ff sf_at_sync s;
     l \<leftarrow> l_at s w;
     assert_c (l_fiber_to_free l \<noteq> NULL);
     longjmp_into_runtime w Do_Sync sf_at_sync s }"

section \<open>Returning from a spawn\<close>

definition push_exit_frame :: "rts \<Rightarrow> rts proc" where
  "push_exit_frame s = do {
     let e = g_exit_frame (rt_g s);
     assert_c (e \<noteq> NULL);
     f \<leftarrow> ff_at s e;
     push_next_frame (ff_sync_master f) e s }"

text \<open>One more worker is without work; the last one sends the initial frame back to its thread.\<close>

definition retire_worker :: "rts \<Rightarrow> rts proc" where
  "retire_worker s = (let (n, s) = cilkg_decrement_active_workers s
     in if n = 0 then push_exit_frame s else Some s)"

definition do_return_from_spawn :: "ptr \<Rightarrow> ptr \<Rightarrow> ptr \<Rightarrow> rts \<Rightarrow> rts proc" where
  "do_return_from_spawn w ff sf s = do {
     s \<leftarrow> worker_lock w s;
     assert_c (ff \<noteq> NULL);
     f \<leftarrow> ff_at s ff;
     assert_c (\<not> ff_is_call_child f);
     assert_c (sf = NULL);
     let parent_ff = ff_parent f;
     s \<leftarrow> frame_lock w ff s;
     (_, s) \<leftarrow> decjoin ff s;
     s \<leftarrow> frame_unlock w ff s;
     s \<leftarrow> (if parent_ff \<noteq> NULL then do {
             s \<leftarrow> frame_lock w parent_ff s;
             p \<leftarrow> ff_at s parent_ff;
             s \<leftarrow> (if ff_simulated_stolen p then unconditional_steal w parent_ff s
                   else do { (_, s) \<leftarrow> provably_good_steal w parent_ff s; Some s });
             frame_unlock w parent_ff s }
           else Some s);
     s \<leftarrow> worker_unlock w s;
     destroy_full_frame ff s }"

text \<open>
  The test of the exception check under the worker's lock, on the whole state: whether the parent was
  stolen, and if so the exception state is saved and the decrement of the tail undone.
\<close>

definition check_stolen :: "ptr \<Rightarrow> cxa_globals \<Rightarrow> rts \<Rightarrow> (bool \<times> cxa_globals \<times> rts) proc" where
  "check_stolen w g s = do {
     s \<leftarrow> worker_lock w s;
     ff \<leftarrow> frame_ff s w;
     assert_c (ff \<noteq> NULL);
     l \<leftarrow> l_at s w;
     assert_c (l_pending_exception l = NULL);
     k \<leftarrow> wk_at s w;
     x \<leftarrow> dq_at s (wk_tail k);
     let (stolen_p, x') = THE_check x;
     s \<leftarrow> dq_mod (wk_tail k) (\<lambda>_. x') s;
     (g, s) \<leftarrow> (if stolen_p then save_exception_state w ff g s else Some (g, s));
     s \<leftarrow> worker_unlock w s;
     Some (stolen_p, g, s) }"

text \<open>
  The rest of the way into the scheduler. The result of the whole check is \<^const>\<open>None\<close> when the parent is still
  there and the function returns, and otherwise what \<^const>\<open>longjmp_into_runtime\<close> leaves.
\<close>

definition c_THE_exception_check ::
  "ptr \<Rightarrow> ptr \<Rightarrow> cxa_globals \<Rightarrow> rts \<Rightarrow> ((ptr \<times> bool) option \<times> cxa_globals \<times> rts) proc" where
  "c_THE_exception_check w returning_sf g s = do {
     ff \<leftarrow> frame_ff s w;
     (stolen_p, g, s) \<leftarrow> check_stolen w g s;
     (if \<not> stolen_p then Some (None, g, s)
      else do {
        s \<leftarrow> reset_future_fiber_deque w s;
        s \<leftarrow> execute_reductions_for_spawn_return w ff returning_sf s;
        s \<leftarrow> update_pedigree_on_leave_frame w returning_sf s;
        l \<leftarrow> l_at s w;
        f \<leftarrow> ff_at s ff;
        current_fiber \<leftarrow> (if l_fiber_to_free l \<noteq> NULL then Some (l_fiber_to_free l)
                          else do { p \<leftarrow> ff_at s (ff_parent f); Some (ff_fiber_child p) });
        assert_c (current_fiber \<noteq> NULL);
        s \<leftarrow> retire_worker s;
        (fiber, freed, s) \<leftarrow> longjmp_into_runtime w Do_Return_From_Spawn NULL s;
        Some (Some (fiber, freed), g, s) }) }"

definition exception_from_spawn :: "ptr \<Rightarrow> ptr \<Rightarrow> rts \<Rightarrow> (ptr \<times> bool \<times> rts) proc" where
  "exception_from_spawn w returning_sf s = do {
     ff \<leftarrow> frame_ff s w;
     k \<leftarrow> wk_at s w;
     h \<leftarrow> dq_at s (wk_head k);
     t \<leftarrow> dq_at s (wk_tail k);
     assert_c (dq_head h = dq_tail t);
     s \<leftarrow> execute_reductions_for_spawn_return w ff returning_sf s;
     s \<leftarrow> retire_worker s;
     longjmp_into_runtime w Do_Return_From_Spawn NULL s }"

section \<open>Returning from a call\<close>

definition splice_stacks_for_call :: "ptr \<Rightarrow> ptr \<Rightarrow> rts \<Rightarrow> rts proc" where
  "splice_stacks_for_call parent_ff child_ff s = do {
     c \<leftarrow> ff_at s child_ff;
     assert_c (ff_fiber_child c = NULL);
     assert_c (ff_is_call_child c);
     p \<leftarrow> ff_at s parent_ff;
     assert_c (ff_fiber_self p = NULL);
     s \<leftarrow> ff_mod parent_ff (\<lambda>p. p\<lparr>ff_fiber_self := ff_fiber_self c\<rparr>) s;
     ff_mod child_ff (\<lambda>c. c\<lparr>ff_fiber_self := NULL\<rparr>) s }"

definition finalize_child_for_call :: "ptr \<Rightarrow> ptr \<Rightarrow> ptr \<Rightarrow> rts \<Rightarrow> rts proc" where
  "finalize_child_for_call w parent_ff child_ff s = do {
     c \<leftarrow> ff_at s child_ff;
     p \<leftarrow> ff_at s parent_ff;
     assert_c (ff_is_call_child c);
     assert_c (ff_join_counter c = 0);
     assert_c (ff_rightmost_child c = NULL);
     assert_c (child_ff = ff_rightmost_child p);
     assert_c (ff_children_reducer_map c = NULL);
     assert_c (ff_right_reducer_map c = NULL);
     s \<leftarrow> splice_exceptions_for_call parent_ff child_ff s;
     s \<leftarrow> splice_stacks_for_call parent_ff child_ff s;
     s \<leftarrow> unlink_child parent_ff child_ff s;
     s \<leftarrow> unconditional_steal w parent_ff s;
     destroy_full_frame child_ff s }"

definition disown :: "ptr \<Rightarrow> ptr \<Rightarrow> ptr \<Rightarrow> rts \<Rightarrow> (ptr \<times> rts) proc" where
  "disown w ff sf s = do {
     assert_c (ff \<noteq> NULL);
     s \<leftarrow> make_unrunnable ff sf (sf \<noteq> NULL) s;
     s \<leftarrow> set_frame_ff w NULL s;
     f \<leftarrow> ff_at s ff;
     Some (ff_parent f, s) }"

definition cilkrts_return :: "ptr \<Rightarrow> cxa_globals \<Rightarrow> rts \<Rightarrow> (cxa_globals \<times> rts) proc" where
  "cilkrts_return w g s = do {
     s \<leftarrow> worker_lock w s;
     ff \<leftarrow> frame_ff s w;
     assert_c (ff \<noteq> NULL);
     f \<leftarrow> ff_at s ff;
     assert_c (ff_join_counter f = 1);
     assert_c (ff_is_call_child f);
     s \<leftarrow> frame_lock w ff s;
     (parent_ff, s) \<leftarrow> disown w ff NULL s;
     (_, s) \<leftarrow> decjoin ff s;
     s \<leftarrow> pass_exception w ff s;
     s \<leftarrow> frame_unlock w ff s;
     assert_c (parent_ff \<noteq> NULL);
     s \<leftarrow> frame_lock w parent_ff s;
     s \<leftarrow> finalize_child_for_call w parent_ff ff s;
     s \<leftarrow> frame_unlock w parent_ff s;
     (ff, s) \<leftarrow> pop_next_frame w s;
     own \<leftarrow> frame_ff s w;
     assert_c (own = NULL);
     (g, s) \<leftarrow> (if ff \<noteq> NULL then do {
        s \<leftarrow> frame_lock w ff s;
        f \<leftarrow> ff_at s ff;
        assert_c (ff_call_stack f \<noteq> NULL);
        sf \<leftarrow> sf_at s (ff_call_stack f);
        assert_c (sf_call_parent sf = NULL);
        (g, s) \<leftarrow> setup_for_execution w ff True g s;
        s \<leftarrow> frame_unlock w ff s;
        Some (g, s) }
      else Some (g, s));
     s \<leftarrow> worker_unlock w s;
     Some (g, s) }"

section \<open>The initial frame\<close>

definition do_suspend_return_from_initial :: "ptr \<Rightarrow> ptr \<Rightarrow> ptr \<Rightarrow> rts \<Rightarrow> rts proc" where
  "do_suspend_return_from_initial w ff sf s = do {
     let s = s\<lparr>rt_g := (rt_g s)\<lparr>g_exit_frame := ff\<rparr>\<rparr>;
     let n = g_total_workers (rt_g s);
     assert_c (0 < n \<and> n \<le> length (g_workers (rt_g s)));
     s \<leftarrow> ff_mod ff (\<lambda>f. f\<lparr>ff_sync_master := g_workers (rt_g s) ! (n - 1)\<rparr>) s;
     retire_worker s }"

fun scheduling_call :: "scheduling_fcn \<Rightarrow> ptr \<Rightarrow> ptr \<Rightarrow> ptr \<Rightarrow> rts \<Rightarrow> rts proc" where
  "scheduling_call Do_Sync w ff sf s = do_sync w ff sf s"
| "scheduling_call Do_Return_From_Spawn w ff sf s = do_return_from_spawn w ff sf s"
| "scheduling_call Do_Suspend_Return_From_Initial w ff sf s = do_suspend_return_from_initial w ff sf s"
| "scheduling_call No_Fcn w ff sf s = None"

definition enter_runtime_transition_proc :: "ptr \<Rightarrow> rts \<Rightarrow> rts proc" where
  "enter_runtime_transition_proc fiber s = do {
     fb \<leftarrow> fb_at s fiber;
     let w = fb_owner fb;
     l \<leftarrow> l_at s w;
     (if l_post_suspend l \<noteq> No_Fcn then do {
        s \<leftarrow> run_scheduling_stack_fcn scheduling_call w s;
        k \<leftarrow> wk_at s w;
        assert_c (wk_reducer_map k = NULL);
        Some s }
      else Some s) }"

end
