(* ===== verification/Last_Arrival.thy ===== *)
theory Last_Arrival
  imports Join Exception_Order
begin

text \<open>
  The join protocol: every participant of a sync, the owner that stalls and the children that return,
  decrements the join counter of the frame under its lock. Whatever the order, exactly the last one
  gets the frame, with the stack of the leftmost child, the exceptions merged and the sync flag cleared.
\<close>

section \<open>Single steps as writes\<close>

definition put_ex :: "(ptr \<rightharpoonup> pending_exception) \<Rightarrow> rts \<Rightarrow> rts" where
  "put_ex m s = s\<lparr>rt_ex := m\<rparr>"

lemma put_ex_at [simp]:
  "sf_at (put_ex m s) p = sf_at s p" "ff_at (put_ex m s) p = ff_at s p" "dq_at (put_ex m s) p = dq_at s p"
  "wk_at (put_ex m s) p = wk_at s p" "l_at (put_ex m s) p = l_at s p" "rt_g (put_ex m s) = rt_g s"
  "rt_ex (put_ex m s) = m"
  by (simp_all add: put_ex_def sf_at_def ff_at_def dq_at_def wk_at_def l_at_def)

lemma rt_ex_put [simp]: "rt_ex (put_ff p f s) = rt_ex s" "rt_ex (put_sf p x s) = rt_ex s"
    "rt_ex (put_wk p k s) = rt_ex s" "rt_ex (put_dq p d s) = rt_ex s"
  by (simp_all add: put_ff_def put_sf_def put_wk_def put_dq_def)

lemma exc_cong: "rt_ex s' = rt_ex s \<Longrightarrow> active_exc s' = active_exc s \<and> synched_exc s' = synched_exc s \<and> plain_exc s' = plain_exc s"
  by (simp add: fun_eq_iff active_exc_def synched_exc_def plain_exc_def)

lemma exc_put [simp]:
  "active_exc (put_sf q x s) = active_exc s" "active_exc (put_wk q k s) = active_exc s" "active_exc (put_dq q d s) = active_exc s"
  "synched_exc (put_sf q x s) = synched_exc s" "synched_exc (put_wk q k s) = synched_exc s" "synched_exc (put_dq q d s) = synched_exc s"
  "plain_exc (put_sf q x s) = plain_exc s" "plain_exc (put_wk q k s) = plain_exc s" "plain_exc (put_dq q d s) = plain_exc s"
  using exc_cong [of "put_sf q x s" s] exc_cong [of "put_wk q k s" s] exc_cong [of "put_dq q d s" s] by simp_all

lemma merge_puts:
  assumes "synched_exc s l" "plain_exc s r" "l = NULL \<or> r = NULL \<or> l \<noteq> r"
  shows "\<exists>e m. merge_pending_exceptions l r s = Some (e, put_ex m s) \<and>
    active_exc (put_ex m s) e = first_active [active_exc s l, active_exc s r]"
proof -
  from merge_pending_spec [OF assms] obtain e s' where m: "merge_pending_exceptions l r s = Some (e, s')"
    "merged_exc s l r e s'" by blast
  have "s' = put_ex (rt_ex s') s" using m(2) unfolding merged_exc_def put_ex_def by blast
  with m merged_excD(2) [OF m(2)] show ?thesis by metis
qed

lemma worker_lock_put:
  "wk_at s w = Some k \<Longrightarrow> \<not> l_do_not_steal (wk_l k) \<Longrightarrow> l_lock (wk_l k) = free_lock \<Longrightarrow>
    worker_lock w s = Some (put_wk w (k\<lparr>wk_l := (wk_l k)\<lparr>l_do_not_steal := True, l_lock := held_by w\<rparr>\<rparr>) s)"
  by (simp add: worker_lock_def lock_worker_def l_at_wk free_lock_def held_by_def)

lemma worker_unlock_put:
  "wk_at s w = Some k \<Longrightarrow> l_do_not_steal (wk_l k) \<Longrightarrow> l_lock (wk_l k) = held_by w \<Longrightarrow>
    worker_unlock w s = Some (put_wk w (k\<lparr>wk_l := (wk_l k)\<lparr>l_lock := free_lock, l_do_not_steal := False\<rparr>\<rparr>) s)"
  by (simp add: worker_unlock_def unlock_worker_def l_at_wk free_lock_def held_by_def)

section \<open>A provably good steal\<close>

text \<open>Not the last one, and the last one.\<close>

lemma steal_not_last:
  assumes "ff_at s p = Some P" "1 < ff_join_counter P"
  shows "provably_good_steal w p s = Some (ABANDON_EXECUTION, put_ff p (P\<lparr>ff_join_counter := ff_join_counter P - 1\<rparr>) s)"
  using assms by (simp add: provably_good_steal_def replay_match_sync_pedigree_def decjoin_def)

definition last_ready :: "rts \<Rightarrow> full_frame \<Rightarrow> bool" where
  "last_ready s P \<longleftrightarrow> ff_fiber_self P = NULL \<and> ff_fiber_child P \<noteq> NULL \<and> sf_at s (ff_call_stack P) \<noteq> None \<and>
     synched_exc s (ff_child_pending_exception P) \<and> plain_exc s (ff_pending_exception P) \<and>
     (ff_child_pending_exception P = NULL \<or> ff_child_pending_exception P \<noteq> ff_pending_exception P)"

definition joined :: "ptr \<Rightarrow> full_frame \<Rightarrow> full_frame" where
  "joined e P = P\<lparr>ff_pending_exception := e, ff_child_pending_exception := NULL,
     ff_fiber_self := ff_fiber_child P, ff_fiber_child := NULL, ff_simulated_stolen := False, ff_join_counter := 1\<rparr>"

lemma steal_last:
  assumes P: "ff_at s p = Some P" "ff_join_counter P = 1" "last_ready s P" "p \<noteq> NULL"
    and x: "sf_at s (ff_call_stack P) = Some x"
    and k: "wk_at s w = Some k" "l_next_frame_ff (wk_l k) = NULL"
  shows "\<exists>e m. provably_good_steal w p s = Some (CONTINUE_EXECUTION,
      put_wk w (k\<lparr>wk_l := (wk_l k)\<lparr>l_next_frame_ff := p\<rparr>\<rparr>) (put_ff p (joined e P)
        (put_sf (ff_call_stack P) (x\<lparr>sf_flags := sf_flags x AND NOT CILK_FRAME_UNSYNCHED\<rparr>) (put_ex m s)))) \<and>
    active_exc (put_ex m s) e = first_active [active_exc s (ff_child_pending_exception P), active_exc s (ff_pending_exception P)]"
proof -
  let ?s = "put_ff p (P\<lparr>ff_join_counter := 0\<rparr>) s"
  have r: "synched_exc s (ff_child_pending_exception P)" "plain_exc s (ff_pending_exception P)"
    "ff_child_pending_exception P = NULL \<or> ff_pending_exception P = NULL \<or> ff_child_pending_exception P \<noteq> ff_pending_exception P"
    "ff_fiber_self P = NULL" "ff_fiber_child P \<noteq> NULL" using P(3) by (auto simp: last_ready_def)
  from merge_puts [of ?s, OF _ _ r(3)] r(1,2) obtain e m where
    m: "merge_pending_exceptions (ff_child_pending_exception P) (ff_pending_exception P) ?s = Some (e, put_ex m ?s)"
    "active_exc (put_ex m ?s) e = first_active [active_exc s (ff_child_pending_exception P), active_exc s (ff_pending_exception P)]"
    by auto
  have c: "put_ex m (put_ff p f t) = put_ff p f (put_ex m t)" for f t by (simp add: put_ex_def put_ff_def)
  have "active_exc (put_ex m s) e = first_active [active_exc s (ff_child_pending_exception P), active_exc s (ff_pending_exception P)]"
    using m(2) by (simp add: c)
  then show ?thesis using P(1,2,4) x k r m(1)
    by (intro exI [of _ e] exI [of _ m])
      (simp add: provably_good_steal_def replay_match_sync_pedigree_def decjoin_def provably_good_steal_exceptions_def
        provably_good_steal_stacks_def mark_synched_def push_next_frame_def incjoin_def l_at_wk c put_sf_ff joined_def)
qed

section \<open>Arrivals\<close>

text \<open>The owner stalls, with its stack frame, or a child returns.\<close>

datatype arrival = Stalls ptr | Returns ptr

definition arrive :: "ptr \<Rightarrow> arrival \<Rightarrow> ptr \<Rightarrow> rts \<Rightarrow> rts proc" where
  "arrive p a w s = (case a of Stalls z \<Rightarrow> do_sync w p z s | Returns c \<Rightarrow> do_return_from_spawn w c NULL s)"

text \<open>A worker that holds no lock and has no next frame; a child that has handed over all it had.\<close>

definition idle_worker :: "worker \<Rightarrow> bool" where
  "idle_worker k \<longleftrightarrow> \<not> l_do_not_steal (wk_l k) \<and> l_lock (wk_l k) = free_lock"

definition spent_child :: "ptr \<Rightarrow> full_frame \<Rightarrow> bool" where
  "spent_child p C \<longleftrightarrow> \<not> ff_is_call_child C \<and> ff_parent C = p \<and> ff_lock C = free_lock \<and> ff_join_counter C = 1 \<and>
     ff_children_reducer_map C = NULL \<and> ff_right_reducer_map C = NULL \<and> ff_pending_exception C = NULL \<and>
     ff_child_pending_exception C = NULL \<and> ff_right_pending_exception C = NULL"

definition stalled_frame :: "full_frame \<Rightarrow> stack_frame \<Rightarrow> bool" where
  "stalled_frame P x \<longleftrightarrow> ff_fiber_self P = NULL \<and> sf_call_parent x = NULL \<and> flag_set (sf_flags x) CILK_FRAME_UNSYNCHED"

definition open_frame :: "rts \<Rightarrow> full_frame \<Rightarrow> bool" where
  "open_frame s P \<longleftrightarrow> 0 < ff_join_counter P \<and> ff_lock P = free_lock \<and> \<not> ff_simulated_stolen P \<and>
     (ff_join_counter P = 1 \<longrightarrow> last_ready s P)"

fun arrival_ready :: "rts \<Rightarrow> ptr \<Rightarrow> full_frame \<Rightarrow> worker \<Rightarrow> arrival \<Rightarrow> bool" where
  "arrival_ready s p P k (Stalls z) \<longleftrightarrow> z = ff_call_stack P \<and> (\<exists>x. sf_at s z = Some x \<and> stalled_frame P x) \<and>
     dq_at s (l_frame_ff (wk_l k)) \<noteq> None"
| "arrival_ready s p P k (Returns c) \<longleftrightarrow> c \<noteq> NULL \<and> c \<noteq> p \<and> (\<exists>C. ff_at s c = Some C \<and> spent_child p C)"

definition ready_to_join :: "rts \<Rightarrow> ptr \<Rightarrow> arrival \<Rightarrow> ptr \<Rightarrow> bool" where
  "ready_to_join s p a w \<longleftrightarrow> p \<noteq> NULL \<and> (\<exists>P k. ff_at s p = Some P \<and> open_frame s P \<and> wk_at s w = Some k \<and>
     idle_worker k \<and> l_next_frame_ff (wk_l k) = NULL \<and> arrival_ready s p P k a)"

text \<open>The state after an arrival: what became of the frame, of the worker, and of the participant.\<close>

definition frame_after :: "rts \<Rightarrow> full_frame \<Rightarrow> rts \<Rightarrow> full_frame \<Rightarrow> bool" where
  "frame_after s P s' P' \<longleftrightarrow> (if ff_join_counter P = 1
     then (\<exists>e. P' = joined e P \<and>
        active_exc s' e = first_active [active_exc s (ff_child_pending_exception P), active_exc s (ff_pending_exception P)]) \<and>
        (\<exists>x. sf_at s' (ff_call_stack P) = Some x \<and> \<not> flag_set (sf_flags x) CILK_FRAME_UNSYNCHED)
     else P' = P\<lparr>ff_join_counter := ff_join_counter P - 1\<rparr>)"

definition worker_after :: "rts \<Rightarrow> ptr \<Rightarrow> full_frame \<Rightarrow> ptr \<Rightarrow> bool" where
  "worker_after s' p P w \<longleftrightarrow> (\<exists>k. wk_at s' w = Some k \<and> idle_worker k \<and>
     l_next_frame_ff (wk_l k) = (if ff_join_counter P = 1 then p else NULL))"

fun participant_after :: "rts \<Rightarrow> rts \<Rightarrow> ptr \<Rightarrow> arrival \<Rightarrow> bool" where
  "participant_after s s' w (Stalls z) \<longleftrightarrow> frame_ff s' w = Some NULL \<and>
     (\<exists>x k x'. sf_at s z = Some x \<and> wk_at s w = Some k \<and> sf_at s' z = Some x' \<and>
       CILK_FRAME_VERSION_VALUE (sf_flags x') = CILK_FRAME_VERSION_VALUE (sf_flags x) \<and>
       (CILK_FRAME_VERSION_VALUE (sf_flags x) \<ge> 1 \<longrightarrow>
         sf_pedigree x' = wk_pedigree k \<and> flag_set (sf_flags x') CILK_FRAME_SF_PEDIGREE_UNSYNCHED))"
| "participant_after s s' w (Returns c) \<longleftrightarrow> ff_at s' c = None"

lemma synched_flag [simp]: "\<not> flag_set (fl AND NOT CILK_FRAME_UNSYNCHED) CILK_FRAME_UNSYNCHED"
  unfolding flag_set_def and.assoc by simp

lemma pedigree_flag [simp]: "flag_set ((fl OR CILK_FRAME_SF_PEDIGREE_UNSYNCHED) AND NOT CILK_FRAME_UNSYNCHED) CILK_FRAME_SF_PEDIGREE_UNSYNCHED"
    "flag_set (fl OR CILK_FRAME_SF_PEDIGREE_UNSYNCHED) CILK_FRAME_SF_PEDIGREE_UNSYNCHED"
proof -
  have "bit (CILK_FRAME_SF_PEDIGREE_UNSYNCHED :: 32 word) 5" "\<not> bit (CILK_FRAME_UNSYNCHED :: 32 word) 5"
    by (simp_all add: CILK_FRAME_SF_PEDIGREE_UNSYNCHED_def CILK_FRAME_UNSYNCHED_def)
  then show "flag_set ((fl OR CILK_FRAME_SF_PEDIGREE_UNSYNCHED) AND NOT CILK_FRAME_UNSYNCHED) CILK_FRAME_SF_PEDIGREE_UNSYNCHED"
    "flag_set (fl OR CILK_FRAME_SF_PEDIGREE_UNSYNCHED) CILK_FRAME_SF_PEDIGREE_UNSYNCHED"
    by (auto simp: flag_set_def bit_eq_iff bit_simps intro!: exI [of _ 5])
qed

text \<open>Flags outside the version field leave the version alone.\<close>

lemma version_other:
  assumes "m AND CILK_FRAME_VERSION_MASK = 0"
  shows "CILK_FRAME_VERSION_VALUE (fl OR m) = CILK_FRAME_VERSION_VALUE fl"
    "CILK_FRAME_VERSION_VALUE (fl AND NOT m) = CILK_FRAME_VERSION_VALUE fl"
proof -
  have "\<not> (bit m n \<and> bit CILK_FRAME_VERSION_MASK n)" for n
    using arg_cong [OF assms, of "\<lambda>w. bit w n"] by (simp add: bit_and_iff)
  then have "(fl OR m) AND CILK_FRAME_VERSION_MASK = fl AND CILK_FRAME_VERSION_MASK"
    "(fl AND NOT m) AND CILK_FRAME_VERSION_MASK = fl AND CILK_FRAME_VERSION_MASK"
    by (auto simp: bit_eq_iff bit_simps)
  then show "CILK_FRAME_VERSION_VALUE (fl OR m) = CILK_FRAME_VERSION_VALUE fl"
    "CILK_FRAME_VERSION_VALUE (fl AND NOT m) = CILK_FRAME_VERSION_VALUE fl"
    by (simp_all add: CILK_FRAME_VERSION_VALUE_def)
qed

lemma version_flags [simp]:
  "CILK_FRAME_VERSION_VALUE (fl OR CILK_FRAME_DETACHED) = CILK_FRAME_VERSION_VALUE fl"
  "CILK_FRAME_VERSION_VALUE (fl OR CILK_FRAME_SF_PEDIGREE_UNSYNCHED) = CILK_FRAME_VERSION_VALUE fl"
  "CILK_FRAME_VERSION_VALUE (fl AND NOT CILK_FRAME_UNSYNCHED) = CILK_FRAME_VERSION_VALUE fl"
  by (rule version_other, simp add: frame_flag_defs)+

text \<open>The three effects of a provably good steal that the arrivals need, on any state.\<close>

lemma steal_spec:
  assumes P: "ff_at s p = Some P" "0 < ff_join_counter P" "ff_join_counter P = 1 \<longrightarrow> last_ready s P" "p \<noteq> NULL"
    and k: "wk_at s w = Some k" "l_next_frame_ff (wk_l k) = NULL"
  shows "\<exists>r s' P'. provably_good_steal w p s = Some (r, s') \<and> r \<noteq> WAIT_FOR_CONTINUE \<and>
    ff_at s' p = Some P' \<and> frame_after s P s' P' \<and>
    (\<forall>q. q \<noteq> p \<longrightarrow> ff_at s' q = ff_at s q) \<and> (\<forall>q. dq_at s' q = dq_at s q) \<and>
    wk_at s' w = Some (k\<lparr>wk_l := (wk_l k)\<lparr>l_next_frame_ff := if ff_join_counter P = 1 then p else NULL\<rparr>\<rparr>) \<and>
    (\<forall>z x. sf_at s z = Some x \<longrightarrow> (\<exists>x'. sf_at s' z = Some x' \<and> sf_pedigree x' = sf_pedigree x \<and>
      CILK_FRAME_VERSION_VALUE (sf_flags x') = CILK_FRAME_VERSION_VALUE (sf_flags x) \<and>
      (flag_set (sf_flags x) CILK_FRAME_SF_PEDIGREE_UNSYNCHED \<longrightarrow> flag_set (sf_flags x') CILK_FRAME_SF_PEDIGREE_UNSYNCHED)))"
proof (cases "ff_join_counter P = 1")
  case False
  then have n: "1 < ff_join_counter P" using P(2) by linarith
  have kk: "k\<lparr>wk_l := (wk_l k)\<lparr>l_next_frame_ff := NULL\<rparr>\<rparr> = k" using k(2) by (cases k) simp
  show ?thesis using steal_not_last [OF P(1) n, of w] False P(1) k kk by (simp add: frame_after_def)
next
  case True
  then have lr: "last_ready s P" using P(3) by simp
  then obtain x where x: "sf_at s (ff_call_stack P) = Some x" by (auto simp: last_ready_def)
  from steal_last [OF P(1) True lr P(4) x k] obtain e m where
    e: "provably_good_steal w p s = Some (CONTINUE_EXECUTION,
      put_wk w (k\<lparr>wk_l := (wk_l k)\<lparr>l_next_frame_ff := p\<rparr>\<rparr>) (put_ff p (joined e P)
        (put_sf (ff_call_stack P) (x\<lparr>sf_flags := sf_flags x AND NOT CILK_FRAME_UNSYNCHED\<rparr>) (put_ex m s))))"
    "active_exc (put_ex m s) e = first_active [active_exc s (ff_child_pending_exception P), active_exc s (ff_pending_exception P)]"
    by blast
  have fl: "flag_set (fl AND NOT CILK_FRAME_UNSYNCHED) CILK_FRAME_SF_PEDIGREE_UNSYNCHED"
    if "flag_set fl CILK_FRAME_SF_PEDIGREE_UNSYNCHED" for fl
    using that pedigree_flag(1) [of fl]
    by (simp add: flag_set_def CILK_FRAME_SF_PEDIGREE_UNSYNCHED_def CILK_FRAME_UNSYNCHED_def and.assoc)
  show ?thesis using e True x fl by (simp add: frame_after_def) blast
qed

lemma frame_after_unlock:
  assumes "frame_after s (P\<lparr>ff_lock := h\<rparr>) s' P'" "ff_lock P = free_lock"
  shows "frame_after s P s' (P'\<lparr>ff_lock := free_lock\<rparr>)" "ff_lock P' = h"
  using assms by (cases P; auto simp: frame_after_def joined_def split: if_splits)+

lemma frame_after_cong:
  assumes "frame_after s P s' P'" "rt_ex s0 = rt_ex s" "rt_ex s1 = rt_ex s'" "\<forall>z. sf_at s1 z = sf_at s' z"
  shows "frame_after s0 P s1 P'"
  using assms exc_cong [of s0 s] exc_cong [of s1 s'] by (simp add: frame_after_def)

lemma stall_arrives:
  assumes P: "p \<noteq> NULL" "ff_at s p = Some P" "open_frame s P"
    and k: "wk_at s w = Some k" "idle_worker k" "l_next_frame_ff (wk_l k) = NULL"
    and x: "sf_at s (ff_call_stack P) = Some x" "stalled_frame P x" and d: "dq_at s (l_frame_ff (wk_l k)) = Some D"
  shows "\<exists>s' P'. do_sync w p (ff_call_stack P) s = Some s' \<and> ff_at s' p = Some P' \<and> ff_lock P' = free_lock \<and>
    frame_after s P s' P' \<and> worker_after s' p P w \<and> participant_after s s' w (Stalls (ff_call_stack P))"
proof -
  let ?z = "ff_call_stack P"
  let ?k = "k\<lparr>wk_l := (wk_l k)\<lparr>l_do_not_steal := True, l_lock := held_by w\<rparr>\<rparr>"
  let ?P = "P\<lparr>ff_lock := held_by w\<rparr>"
  define x1 where "x1 = (if CILK_FRAME_VERSION_VALUE (sf_flags x) \<ge> 1 then x\<lparr>sf_pedigree := wk_pedigree k,
      sf_flags := sf_flags x OR CILK_FRAME_SF_PEDIGREE_UNSYNCHED\<rparr> else x)"
  let ?s1 = "put_ff p ?P (put_wk w ?k s)"
  define s2 where "s2 = put_sf ?z x1 ?s1"
  have kl: "\<not> l_do_not_steal (wk_l k)" "l_lock (wk_l k) = free_lock" using k(2) by (simp_all add: idle_worker_def)
  have pl: "ff_lock P = free_lock" "0 < ff_join_counter P" using P(3) by (simp_all add: open_frame_def)
  have sfz: "put_sf ?z x ?s1 = ?s1" using x(1) by (simp add: put_sf_def put_ff_def put_wk_def sf_at_def map_upd_triv)
  have lr: "ff_join_counter ?P = 1 \<longrightarrow> last_ready s2 ?P"
    using P(3) x(1) by (simp add: open_frame_def last_ready_def s2_def)
  have P2: "ff_at s2 p = Some ?P" "wk_at s2 w = Some ?k" "sf_at s2 ?z = Some x1" by (simp_all add: s2_def)
  from steal_spec [OF P2(1) _ lr P(1) P2(2)] pl(2) k(3) obtain r s3 P3 where
    s3: "provably_good_steal w p s2 = Some (r, s3)" "r \<noteq> WAIT_FOR_CONTINUE" "ff_at s3 p = Some P3" "frame_after s2 ?P s3 P3"
      "\<forall>q. dq_at s3 q = dq_at s2 q"
      "wk_at s3 w = Some (?k\<lparr>wk_l := (wk_l ?k)\<lparr>l_next_frame_ff := if ff_join_counter ?P = 1 then p else NULL\<rparr>\<rparr>)"
      "\<exists>x'. sf_at s3 ?z = Some x' \<and> sf_pedigree x' = sf_pedigree x1 \<and>
        CILK_FRAME_VERSION_VALUE (sf_flags x') = CILK_FRAME_VERSION_VALUE (sf_flags x1) \<and>
        (flag_set (sf_flags x1) CILK_FRAME_SF_PEDIGREE_UNSYNCHED \<longrightarrow> flag_set (sf_flags x') CILK_FRAME_SF_PEDIGREE_UNSYNCHED)"
    using P2(3) by auto
  note fa = frame_after_unlock [OF s3(4) pl(1)]
  let ?k3 = "k\<lparr>wk_l := (wk_l k)\<lparr>l_next_frame_ff := if ff_join_counter P = 1 then p else NULL, l_lock := free_lock,
     l_do_not_steal := False\<rparr>\<rparr>"
  let ?s5 = "put_wk w ?k3 (put_dq (l_frame_ff (wk_l k)) (D\<lparr>dq_frame_ff := NULL\<rparr>) (put_ff p (P3\<lparr>ff_lock := free_lock\<rparr>) s3))"
  have d3: "dq_at s3 (l_frame_ff (wk_l k)) = Some D" using d s3(5) by (simp add: s2_def)
  have "do_sync w p ?z s = Some ?s5"
  proof -
    have a: "(if CILK_FRAME_VERSION_VALUE (sf_flags x) \<ge> 1
         then sf_mod ?z (\<lambda>x. x\<lparr>sf_pedigree := wk_pedigree ?k, sf_flags := sf_flags x OR CILK_FRAME_SF_PEDIGREE_UNSYNCHED\<rparr>) ?s1
         else Some ?s1) = Some s2" using x(1) sfz by (simp add: s2_def x1_def)
    have st: "sf_call_parent x = NULL" "flag_set (sf_flags x) CILK_FRAME_UNSYNCHED" "ff_fiber_self P = NULL"
      using x(2) by (simp_all add: stalled_frame_def)
    have "do_sync w p ?z s = do {
       (steal_result, s) \<leftarrow> provably_good_steal w p s2;
       s \<leftarrow> frame_unlock w p s;
       s \<leftarrow> (if steal_result \<noteq> WAIT_FOR_CONTINUE then set_frame_ff w NULL s else Some s);
       worker_unlock w s }"
      using P(1,2) st x(1) worker_lock_put [OF k(1) kl] frame_lock_put [of "put_wk w ?k s" p P w] pl(1) a [simplified]
      by (simp add: do_sync_def)
    also have "\<dots> = Some ?s5"
      using s3(1,2,3,6) fa(2) d3 by (simp add: frame_unlock_put set_frame_ff_def l_at_wk worker_unlock_put)
    finally show ?thesis .
  qed
  moreover have "ff_at ?s5 p = Some (P3\<lparr>ff_lock := free_lock\<rparr>)" by simp
  moreover have "frame_after s P ?s5 (P3\<lparr>ff_lock := free_lock\<rparr>)"
    by (rule frame_after_cong [OF fa(1)]) (simp_all add: s2_def)
  moreover have "worker_after ?s5 p P w" by (simp add: worker_after_def idle_worker_def)
  moreover have "participant_after s ?s5 w (Stalls ?z)"
    using x(1) k(1) s3(7) by (auto simp: frame_ff_def x1_def)
  ultimately show ?thesis by fastforce
qed

lemma return_arrives:
  assumes P: "p \<noteq> NULL" "ff_at s p = Some P" "open_frame s P"
    and k: "wk_at s w = Some k" "idle_worker k" "l_next_frame_ff (wk_l k) = NULL"
    and c: "c \<noteq> NULL" "c \<noteq> p" "ff_at s c = Some C" "spent_child p C"
  shows "\<exists>s' P'. do_return_from_spawn w c NULL s = Some s' \<and> ff_at s' p = Some P' \<and> ff_lock P' = free_lock \<and>
    frame_after s P s' P' \<and> worker_after s' p P w \<and> participant_after s s' w (Returns c)"
proof -
  let ?k = "k\<lparr>wk_l := (wk_l k)\<lparr>l_do_not_steal := True, l_lock := held_by w\<rparr>\<rparr>"
  let ?P = "P\<lparr>ff_lock := held_by w\<rparr>"
  let ?C = "C\<lparr>ff_join_counter := 0, ff_lock := free_lock\<rparr>"
  define s2 where "s2 = put_ff p ?P (put_ff c ?C (put_wk w ?k s))"
  have kl: "\<not> l_do_not_steal (wk_l k)" "l_lock (wk_l k) = free_lock" using k(2) by (simp_all add: idle_worker_def)
  have pl: "ff_lock P = free_lock" "0 < ff_join_counter P" "\<not> ff_simulated_stolen P"
    using P(3) by (simp_all add: open_frame_def)
  have cl: "ff_lock C = free_lock" "ff_parent C = p" "\<not> ff_is_call_child C" "ff_join_counter C = 1"
    using c(4) by (simp_all add: spent_child_def)
  have P2: "ff_at s2 p = Some ?P" "wk_at s2 w = Some ?k" "ff_at s2 c = Some ?C" using c(2) by (simp_all add: s2_def)
  have lr: "ff_join_counter ?P = 1 \<longrightarrow> last_ready s2 ?P"
    using P(3) by (simp add: open_frame_def last_ready_def s2_def)
  from steal_spec [OF P2(1) _ lr P(1) P2(2)] pl(2) k(3) obtain r s3 P3 where
    s3: "provably_good_steal w p s2 = Some (r, s3)" "ff_at s3 p = Some P3" "frame_after s2 ?P s3 P3"
      "ff_at s3 c = Some ?C"
      "wk_at s3 w = Some (?k\<lparr>wk_l := (wk_l ?k)\<lparr>l_next_frame_ff := if ff_join_counter ?P = 1 then p else NULL\<rparr>\<rparr>)"
    using P2(3) c(2) by auto
  note fa = frame_after_unlock [OF s3(3) pl(1)]
  let ?k3 = "k\<lparr>wk_l := (wk_l k)\<lparr>l_next_frame_ff := if ff_join_counter P = 1 then p else NULL, l_lock := free_lock,
     l_do_not_steal := False\<rparr>\<rparr>"
  let ?s4 = "put_wk w ?k3 (put_ff p (P3\<lparr>ff_lock := free_lock\<rparr>) s3)"
  let ?s5 = "?s4\<lparr>rt_ff := (rt_ff ?s4)(c := None)\<rparr>"
  have "do_return_from_spawn w c NULL s = Some ?s5"
  proof -
    have a: "frame_lock w c (put_wk w ?k s) = Some (put_ff c (C\<lparr>ff_lock := held_by w\<rparr>) (put_wk w ?k s))"
      using c(3) cl(1) by (intro frame_lock_put) simp_all
    have b: "frame_lock w p (put_ff c ?C (put_wk w ?k s)) = Some s2"
      unfolding s2_def using P(2) c(2) pl(1) by (intro frame_lock_put) simp_all
    have "do_return_from_spawn w c NULL s = do {
       (_, s) \<leftarrow> provably_good_steal w p s2;
       s \<leftarrow> frame_unlock w p s;
       s \<leftarrow> worker_unlock w s;
       destroy_full_frame c s }"
      using P(1) c(1,3) cl pl(3) a b P2(1) worker_lock_put [OF k(1) kl]
      by (simp add: do_return_from_spawn_def decjoin_def frame_unlock_put) (cases "provably_good_steal w p s2"; simp add: split_beta)
    also have "\<dots> = Some ?s5"
      using s3(1,2,4,5) fa(2) c(2,4) by (simp add: frame_unlock_put worker_unlock_put destroy_full_frame_def spent_child_def)
    finally show ?thesis .
  qed
  moreover have "ff_at ?s5 q = (if q = c then None else ff_at ?s4 q)" "sf_at ?s5 q = sf_at ?s4 q" "wk_at ?s5 q = wk_at ?s4 q" for q
    by (simp_all add: ff_at_def sf_at_def wk_at_def)
  note at = this
  then have "ff_at ?s5 p = Some (P3\<lparr>ff_lock := free_lock\<rparr>)" using c(2) by simp
  moreover have "frame_after s P ?s5 (P3\<lparr>ff_lock := free_lock\<rparr>)"
    by (rule frame_after_cong [OF fa(1)]) (simp_all add: s2_def at)
  moreover have "worker_after ?s5 p P w" by (simp add: worker_after_def idle_worker_def at)
  moreover have "participant_after s ?s5 w (Returns c)" by (simp add: at)
  ultimately show ?thesis by fastforce
qed

lemma arrival_spec:
  assumes r: "ready_to_join s p a w" and P: "ff_at s p = Some P"
  shows "\<exists>s' P'. arrive p a w s = Some s' \<and> ff_at s' p = Some P' \<and> ff_lock P' = free_lock \<and>
    frame_after s P s' P' \<and> worker_after s' p P w \<and> participant_after s s' w a"
proof (cases a)
  case (Stalls z)
  from r P Stalls obtain k x D where k: "p \<noteq> NULL" "open_frame s P" "wk_at s w = Some k" "idle_worker k"
      "l_next_frame_ff (wk_l k) = NULL" "z = ff_call_stack P" "sf_at s z = Some x" "stalled_frame P x"
      "dq_at s (l_frame_ff (wk_l k)) = Some D" by (auto simp: ready_to_join_def)
  from stall_arrives [OF k(1) P k(2-5) k(7) [unfolded k(6)] k(8,9)] show ?thesis
    by (simp only: Stalls k(6) arrive_def arrival.case)
next
  case (Returns c)
  from r P Returns obtain k C where k: "p \<noteq> NULL" "open_frame s P" "wk_at s w = Some k" "idle_worker k"
      "l_next_frame_ff (wk_l k) = NULL" "c \<noteq> NULL" "c \<noteq> p" "ff_at s c = Some C" "spent_child p C"
    by (auto simp: ready_to_join_def)
  from return_arrives [OF k(1) P k(2-9)] show ?thesis by (simp only: Returns arrive_def arrival.case)
qed

section \<open>Any order of arrivals\<close>

text \<open>
  The arrivals at one frame, in the order of their critical sections; in between anything may happen
  that leaves its join counter alone. The trace has the workers, each with whether its arrival made the frame
  its next one.
\<close>

definition takes :: "rts \<Rightarrow> ptr \<Rightarrow> ptr \<Rightarrow> bool" where
  "takes s w p \<longleftrightarrow> (case wk_at s w of None \<Rightarrow> False | Some k \<Rightarrow> l_next_frame_ff (wk_l k) = p)"

definition same_counter :: "ptr \<Rightarrow> rts \<Rightarrow> rts \<Rightarrow> bool" where
  "same_counter p s s' \<longleftrightarrow> map_option ff_join_counter (ff_at s' p) = map_option ff_join_counter (ff_at s p)"

inductive join_run :: "ptr \<Rightarrow> rts \<Rightarrow> (ptr \<times> bool) list \<Rightarrow> rts \<Rightarrow> bool" for p s0 where
  start: "join_run p s0 [] s0"
| arrival: "join_run p s0 tr s \<Longrightarrow> ready_to_join s p a w \<Longrightarrow> arrive p a w s = Some s' \<Longrightarrow>
    join_run p s0 (tr @ [(w, takes s' w p)]) s'"
| others: "join_run p s0 tr s \<Longrightarrow> same_counter p s s' \<Longrightarrow> join_run p s0 tr s'"

lemma arrival_counts:
  assumes "ready_to_join s p a w" "arrive p a w s = Some s'" "ff_at s p = Some P"
  shows "\<exists>P'. ff_at s' p = Some P' \<and> ff_join_counter P' = (if ff_join_counter P = 1 then 1 else ff_join_counter P - 1) \<and>
    (takes s' w p \<longleftrightarrow> ff_join_counter P = 1)"
proof -
  from arrival_spec [OF assms(1,3)] assms(2) obtain P' where P': "ff_at s' p = Some P'" "frame_after s P s' P'"
    "worker_after s' p P w" by auto
  have "p \<noteq> NULL" using assms(1) by (simp add: ready_to_join_def)
  then show ?thesis using P' by (auto simp: frame_after_def worker_after_def takes_def joined_def)
qed

lemma join_run_counts:
  assumes "join_run p s0 tr s" "ff_at s0 p = Some P0" "ff_join_counter P0 = int n" "0 < n" "length tr \<le> n"
  shows "(\<exists>P. ff_at s p = Some P \<and> ff_join_counter P = (if length tr < n then int (n - length tr) else 1)) \<and>
    (\<forall>i<length tr. snd (tr ! i) \<longleftrightarrow> Suc i = n)"
  using assms
proof (induction rule: join_run.induct)
  case (arrival tr s a w s')
  from arrival.prems arrival.IH obtain P where P: "ff_at s p = Some P" "ff_join_counter P = int (n - length tr)"
    "\<forall>i<length tr. snd (tr ! i) \<longleftrightarrow> Suc i = n" by auto
  from arrival_counts [OF arrival.hyps(2,3) P(1)] obtain P' where P': "ff_at s' p = Some P'"
    "ff_join_counter P' = (if ff_join_counter P = 1 then 1 else ff_join_counter P - 1)"
    "takes s' w p \<longleftrightarrow> ff_join_counter P = 1" by blast
  have one: "ff_join_counter P = 1 \<longleftrightarrow> Suc (length tr) = n" using P(2) arrival.prems by auto
  have t: "snd ((tr @ [(w, takes s' w p)]) ! i) \<longleftrightarrow> Suc i = n" if i: "i < length (tr @ [(w, takes s' w p)])" for i
  proof (cases "i < length tr")
    case False
    then have "i = length tr" using i by simp
    then show ?thesis using P'(3) one by simp
  qed (use P(3) in \<open>simp add: nth_append\<close>)
  then show ?case using P'(1,2) P(2) one arrival.prems by auto
next
  case (others tr s s')
  then show ?case by (auto simp: same_counter_def)
qed auto

section \<open>An example\<close>

text \<open>Worker 1 stalls at the sync of frame 3, whose only child, frame 4, is about to return on worker 2.\<close>

definition join_example :: "int \<Rightarrow> rts" where
  "join_example n = (rts_with_worker 1 (example_local\<lparr>l_frame_ff := 7\<rparr>))
     \<lparr>rt_wk := [1 \<mapsto> example_worker (example_local\<lparr>l_frame_ff := 7\<rparr>), 2 \<mapsto> example_worker (example_local\<lparr>l_frame_ff := 8\<rparr>)],
      rt_dq := [7 \<mapsto> (empty_deque 8)\<lparr>dq_frame_ff := 3\<rparr>, 8 \<mapsto> empty_deque 8],
      rt_ff := [3 \<mapsto> (new_full_frame 5)\<lparr>ff_join_counter := n, ff_fiber_child := 60, ff_rightmost_child := 4\<rparr>,
        4 \<mapsto> (new_full_frame 0)\<lparr>ff_join_counter := 1, ff_parent := 3\<rparr>],
      rt_sf := [5 \<mapsto> \<lparr>sf_flags = 0x01000003, sf_size = 0, sf_call_parent = 0, sf_worker = 0, sf_except_data = 0,
        sf_ctx_sp = 0, sf_ctx_fp = 0, sf_reserved = 0, sf_pedigree = no_pedigree\<rparr>]\<rparr>"

lemma join_example_at [simp]:
  "wk_at (join_example n) 1 = Some (example_worker (example_local\<lparr>l_frame_ff := 7\<rparr>))"
  "wk_at (join_example n) 2 = Some (example_worker (example_local\<lparr>l_frame_ff := 8\<rparr>))"
  "dq_at (join_example n) 7 = Some ((empty_deque 8)\<lparr>dq_frame_ff := 3\<rparr>)"
  "ff_at (join_example n) 3 = Some ((new_full_frame 5)\<lparr>ff_join_counter := n, ff_fiber_child := 60, ff_rightmost_child := 4\<rparr>)"
  "ff_at (join_example n) 4 = Some ((new_full_frame 0)\<lparr>ff_join_counter := 1, ff_parent := 3\<rparr>)"
  "sf_at (join_example n) 5 = Some \<lparr>sf_flags = 0x01000003, sf_size = 0, sf_call_parent = 0, sf_worker = 0, sf_except_data = 0,
        sf_ctx_sp = 0, sf_ctx_fp = 0, sf_reserved = 0, sf_pedigree = no_pedigree\<rparr>"
  by (simp_all add: join_example_def wk_at_def dq_at_def ff_at_def sf_at_def rts_with_worker_def)

lemmas join_example_at1 [simp] = join_example_at(1) [simplified]

lemmas join_example_facts = ready_to_join_def open_frame_def last_ready_def idle_worker_def spent_child_def stalled_frame_def
  new_full_frame_def example_worker_def example_local_def mutex_init_def free_lock_def synched_exc_def plain_exc_def
  flag_set_def CILK_FRAME_UNSYNCHED_def

lemma join_example_ready: "n > 0 \<Longrightarrow> ready_to_join (join_example n) 3 (Returns 4) 2"
    "n > 0 \<Longrightarrow> ready_to_join (join_example n) 3 (Stalls 5) 1"
  by (simp_all add: join_example_facts)

section \<open>Properties\<close>

text \<open>C34. A participant of a sync arrives: the owner of the frame stalls (\<^verbatim>\<open>do_sync\<close>), or a child returns
  (\<^verbatim>\<open>do_return_from_spawn\<close>). The function returns with all locks released, the child destroyed or the owner's deque
  without a frame and its pedigree saved for the continuation. If others are outstanding, only the join counter
  goes down and the worker is left without work; the last one gets the frame as its next frame, with counter 1, the
  stack of the leftmost child, no sync flag and, of the children's exceptions and the frame's own, the first.\<close>

theorem arrival_at_sync:
  assumes "ready_to_join s p a w" "ff_at s p = Some P"
  shows "\<exists>s' P'. arrive p a w s = Some s' \<and> ff_at s' p = Some P' \<and> ff_lock P' = free_lock \<and>
    frame_after s P s' P' \<and> worker_after s' p P w \<and> participant_after s s' w a"
  using assms by (rule arrival_spec)

theorem arrival_at_sync_witness:
  "\<exists>s' P'. arrive 3 (Returns 4) 2 (join_example 2) = Some s' \<and> ff_at s' 3 = Some P' \<and> ff_join_counter P' = 1 \<and> ff_at s' 4 = None"
proof -
  from arrival_at_sync [OF join_example_ready(1) join_example_at(4), of 2] obtain s' P' where
    "arrive 3 (Returns 4) 2 (join_example 2) = Some s'" "ff_at s' 3 = Some P'" "participant_after (join_example 2) s' 2 (Returns 4)"
    "frame_after (join_example 2) ((new_full_frame 5)\<lparr>ff_join_counter := 2, ff_fiber_child := 60, ff_rightmost_child := 4\<rparr>) s' P'"
    by auto
  then show ?thesis by (intro exI [of _ s'] exI [of _ P']) (simp add: frame_after_def)
qed

text \<open>C33. However the owner and the children of a frame interleave, with anything in between that leaves the
  frame's join counter alone: of the \<open>n\<close> arrivals that the counter announces exactly the last one takes the frame,
  and the counter is the number of those outstanding, or 1 once the frame has been taken; no ready arrival gets
  stuck.\<close>

theorem last_arrival_resumes:
  assumes "join_run p s0 tr s" "ff_at s0 p = Some P0" "ff_join_counter P0 = int n" "0 < n" "length tr \<le> n"
  shows "(\<forall>i<length tr. snd (tr ! i) \<longleftrightarrow> Suc i = n) \<and>
    (\<exists>P. ff_at s p = Some P \<and> ff_join_counter P = (if length tr < n then int (n - length tr) else 1)) \<and>
    (\<forall>a w. ready_to_join s p a w \<longrightarrow> (\<exists>s'. arrive p a w s = Some s'))"
proof -
  note c = join_run_counts [OF assms]
  have "\<exists>s'. arrive p a w s = Some s'" if "ready_to_join s p a w" for a w
    using c arrival_spec [OF that] by blast
  with c show ?thesis by blast
qed

theorem last_arrival_resumes_witness:
  "\<exists>s b. join_run 3 (join_example 1) [(1, b)] s \<and> b"
proof -
  obtain s where s: "arrive 3 (Stalls 5) 1 (join_example 1) = Some s"
    using arrival_spec [OF join_example_ready(2) join_example_at(4), of 1] by fastforce
  have r: "join_run 3 (join_example 1) [(1, takes s 1 3)] s"
    using join_run.arrival [OF join_run.start join_example_ready(2) s] by simp
  have "\<forall>i<length [(1::nat, takes s 1 3)]. snd ([(1, takes s 1 3)] ! i) \<longleftrightarrow> Suc i = 1"
    using last_arrival_resumes [OF r join_example_at(4), of 1] by simp
  then have "takes s 1 3" by simp
  then show ?thesis using r by blast
qed

end
