(* ===== verification/Cilk_Abi.thy ===== *)
theory Cilk_Abi
  imports Join
begin

text \<open>
  The entry points that compiled code calls, \<^verbatim>\<open>cilk-abi.c\<close>, with the return of an exception from
  \<^verbatim>\<open>except-gcc.cpp\<close>. The worker of the thread (\<^verbatim>\<open>__cilkrts_get_tls_worker\<close>) is an argument, null for a thread
  that has none yet; \<open>bind_thread\<close> stands for \<^verbatim>\<open>__cilkrts_bind_thread\<close>, which gives it one. A stack frame is
  memory of the caller, so its record exists before it is entered.
\<close>

section \<open>Entering and leaving\<close>

definition set_future_parent :: "ptr \<Rightarrow> rts \<Rightarrow> rts proc" where
  "set_future_parent w s = do {
     k \<leftarrow> wk_at s w;
     sf_mod (wk_current_stack_frame k) (\<lambda>f. f\<lparr>sf_flags := sf_flags f OR CILK_FRAME_FUTURE_PARENT\<rparr>) s }"

definition unset_future_parent :: "ptr \<Rightarrow> rts \<Rightarrow> rts proc" where
  "unset_future_parent w s = do {
     k \<leftarrow> wk_at s w;
     sf_mod (wk_current_stack_frame k) (\<lambda>f. f\<lparr>sf_flags := sf_flags f AND NOT CILK_FRAME_FUTURE_PARENT\<rparr>) s }"

definition link_frame :: "ptr \<Rightarrow> ptr \<Rightarrow> rts \<Rightarrow> rts proc" where
  "link_frame w sf s = do {
     k \<leftarrow> wk_at s w;
     s \<leftarrow> sf_mod sf (\<lambda>f. f\<lparr>sf_call_parent := wk_current_stack_frame k, sf_worker := w\<rparr>) s;
     wk_mod w (\<lambda>k. k\<lparr>wk_current_stack_frame := sf\<rparr>) s }"

definition enter_frame_internal :: "(rts \<Rightarrow> (ptr \<times> rts) proc) \<Rightarrow> ptr \<Rightarrow> ptr \<Rightarrow> 32 word \<Rightarrow> rts \<Rightarrow> rts proc" where
  "enter_frame_internal bind_thread w sf version s =
    (if w = NULL then do {
       (w, s) \<leftarrow> bind_thread s;
       let fl = CILK_FRAME_LAST OR push_bit 24 version;
       s \<leftarrow> sf_mod sf (\<lambda>f. f\<lparr>sf_flags := fl\<rparr>) s;
       assert_c (fl AND CILK_FRAME_FLAGS_MASK = CILK_FRAME_LAST);
       link_frame w sf s }
     else do {
       let fl = push_bit 24 version;
       s \<leftarrow> sf_mod sf (\<lambda>f. f\<lparr>sf_flags := fl\<rparr>) s;
       assert_c (fl AND CILK_FRAME_FLAGS_MASK = 0);
       link_frame w sf s })"

definition enter_frame :: "(rts \<Rightarrow> (ptr \<times> rts) proc) \<Rightarrow> ptr \<Rightarrow> ptr \<Rightarrow> rts \<Rightarrow> rts proc" where
  "enter_frame bind_thread w sf s = enter_frame_internal bind_thread w sf 0 s"

definition enter_frame_1 :: "(rts \<Rightarrow> (ptr \<times> rts) proc) \<Rightarrow> ptr \<Rightarrow> ptr \<Rightarrow> rts \<Rightarrow> rts proc" where
  "enter_frame_1 bind_thread w sf s = do {
     s \<leftarrow> enter_frame_internal bind_thread w sf 1 s;
     sf_mod sf (\<lambda>f. f\<lparr>sf_reserved := 0\<rparr>) s }"

definition enter_frame_fast_internal :: "ptr \<Rightarrow> ptr \<Rightarrow> 32 word \<Rightarrow> rts \<Rightarrow> rts proc" where
  "enter_frame_fast_internal w sf version s = do {
     s \<leftarrow> sf_mod sf (\<lambda>f. f\<lparr>sf_flags := push_bit 24 version\<rparr>) s;
     link_frame w sf s }"

definition enter_frame_fast :: "ptr \<Rightarrow> ptr \<Rightarrow> rts \<Rightarrow> rts proc" where
  "enter_frame_fast w sf s = enter_frame_fast_internal w sf 0 s"

definition enter_frame_fast_1 :: "ptr \<Rightarrow> ptr \<Rightarrow> rts \<Rightarrow> rts proc" where
  "enter_frame_fast_1 w sf s = do {
     s \<leftarrow> enter_frame_fast_internal w sf 1 s;
     sf_mod sf (\<lambda>f. f\<lparr>sf_reserved := 0\<rparr>) s }"

definition detach :: "ptr \<Rightarrow> ptr \<Rightarrow> rts \<Rightarrow> rts proc" where
  "detach w self s = do {
     f \<leftarrow> sf_at s self;
     k \<leftarrow> wk_at s w;
     let parent = sf_call_parent f;
     s \<leftarrow> sf_mod self (\<lambda>f. f\<lparr>sf_pedigree := wk_pedigree k\<rparr>) s;
     s \<leftarrow> sf_mod parent (\<lambda>f. f\<lparr>sf_pedigree := wk_pedigree k\<rparr>) s;
     s \<leftarrow> wk_mod w (\<lambda>k. k\<lparr>wk_pedigree := \<lparr>pd_rank = 1, pd_parent = Ped_Frame self\<rparr>\<rparr>) s;
     x \<leftarrow> dq_at s (wk_tail k);
     x \<leftarrow> detach_store parent x;
     s \<leftarrow> dq_mod (wk_tail k) (\<lambda>_. detach_publish x) s;
     sf_mod self (\<lambda>f. f\<lparr>sf_flags := sf_flags f OR CILK_FRAME_DETACHED\<rparr>) s }"

definition undo_detach :: "ptr \<Rightarrow> ptr \<Rightarrow> rts \<Rightarrow> (bool \<times> rts) proc" where
  "undo_detach w sf s = do {
     k \<leftarrow> wk_at s w;
     x \<leftarrow> dq_at s (wk_tail k);
     let t = dq_tail x - 1;
     s \<leftarrow> dq_mod (wk_tail k) undo_detach_store s;
     s \<leftarrow> sf_mod sf (\<lambda>f. f\<lparr>sf_flags := sf_flags f AND NOT CILK_FRAME_DETACHED\<rparr>) s;
     e \<leftarrow> dq_at s (wk_exc k);
     Some (undo_detach_failed t e, s) }"

definition pop_frame :: "ptr \<Rightarrow> ptr \<Rightarrow> rts \<Rightarrow> rts proc" where
  "pop_frame w sf s = do {
     f \<leftarrow> sf_at s sf;
     s \<leftarrow> wk_mod w (\<lambda>k. k\<lparr>wk_current_stack_frame := sf_call_parent f\<rparr>) s;
     sf_mod sf (\<lambda>f. f\<lparr>sf_call_parent := NULL\<rparr>) s }"

text \<open>
  Where control is after \<^verbatim>\<open>__cilkrts_leave_frame\<close>: back in the caller, in the scheduler with the fiber
  of the abandoned strand, or in one of the two special returns.
\<close>

datatype leaving = Returned | In_Runtime ptr bool | Return_From_Initial | Return_From_Batch

definition pop_tail_locked :: "ptr \<Rightarrow> rts \<Rightarrow> (ptr \<times> rts) proc" where
  "pop_tail_locked w s = do {
     s \<leftarrow> worker_lock w s;
     k \<leftarrow> wk_at s w;
     x \<leftarrow> dq_at s (wk_tail k);
     let (sf, x') = pop_tail x;
     s \<leftarrow> dq_mod (wk_tail k) (\<lambda>_. x') s;
     s \<leftarrow> worker_unlock w s;
     Some (sf, s) }"

definition return_exception :: "ptr \<Rightarrow> ptr \<Rightarrow> cxa_globals \<Rightarrow> rts \<Rightarrow> (leaving \<times> cxa_globals \<times> rts) proc" where
  "return_exception w sf g s = do {
     f \<leftarrow> sf_at s sf;
     assert_c (flag_set (sf_flags f) CILK_FRAME_DETACHED);
     s \<leftarrow> sf_mod sf (\<lambda>f. f\<lparr>sf_flags := sf_flags f AND NOT CILK_FRAME_DETACHED\<rparr>) s;
     (tail, s) \<leftarrow> pop_tail_locked w s;
     (if tail = NULL then do {
        s \<leftarrow> update_pedigree_on_leave_frame w sf s;
        s \<leftarrow> pop_frame w sf s;
        (g, s) \<leftarrow> save_exception_info w g (sf_except_data f) (sf_except_data f = NULL) s;
        ff \<leftarrow> frame_ff s w;
        s \<leftarrow> pass_exception w ff s;
        (fiber, freed, s) \<leftarrow> exception_from_spawn w sf s;
        Some (In_Runtime fiber freed, g, s) }
      else do {
        s \<leftarrow> update_pedigree_on_leave_frame w sf s;
        Some (Returned, g, s) }) }"

definition leave_frame :: "ptr \<Rightarrow> ptr \<Rightarrow> cxa_globals \<Rightarrow> rts \<Rightarrow> (leaving \<times> cxa_globals \<times> rts) proc" where
  "leave_frame w sf g s = do {
     f \<leftarrow> sf_at s sf;
     (if flag_set (sf_flags f) CILK_FRAME_DETACHED then
        if flag_set (sf_flags f) CILK_FRAME_EXCEPTING then return_exception w sf g s
        else do {
          (failed, s) \<leftarrow> undo_detach w sf s;
          (gone, g, s) \<leftarrow> (if failed then c_THE_exception_check w sf g s else Some (None, g, s));
          (case gone of Some (fiber, freed) \<Rightarrow> Some (In_Runtime fiber freed, g, s)
           | None \<Rightarrow> do {
             s \<leftarrow> update_pedigree_on_leave_frame w sf s;
             f \<leftarrow> sf_at s sf;
             assert_c (\<not> flag_set (sf_flags f) CILK_FRAME_FLAGS_MASK);
             Some (Returned, g, s) }) }
      else if flag_set (sf_flags f) CILK_FRAME_LAST then Some (Return_From_Initial, g, s)
      else if flag_set (sf_flags f) CILK_FRAME_BATCH then Some (Return_From_Batch, g, s)
      else if flag_set (sf_flags f) CILK_FRAME_STOLEN then do { (g, s) \<leftarrow> cilkrts_return w g s; Some (Returned, g, s) }
      else Some (Returned, g, s)) }"

section \<open>Sync\<close>

definition c_sync_except :: "ptr \<Rightarrow> ptr \<Rightarrow> cxa_globals \<Rightarrow> rts \<Rightarrow> (cxa_globals \<times> rts) proc" where
  "c_sync_except w sf g s = do {
     f \<leftarrow> sf_at s sf;
     assert_c (flag_set (sf_flags f) CILK_FRAME_UNSYNCHED \<and> flag_set (sf_flags f) CILK_FRAME_EXCEPTING);
     s \<leftarrow> sf_mod sf (\<lambda>f. f\<lparr>sf_flags := sf_flags f AND NOT CILK_FRAME_EXCEPTING\<rparr>) s;
     (g, s) \<leftarrow> save_exception_info w g (sf_except_data f) False s;
     assert_c (cx_uncaught g = 0);
     Some (g, s) }"

definition cilkrts_sync :: "ptr \<Rightarrow> ptr \<Rightarrow> cxa_globals \<Rightarrow> rts \<Rightarrow> (ptr \<times> bool \<times> cxa_globals \<times> rts) proc" where
  "cilkrts_sync w sf g s = do {
     k \<leftarrow> wk_at s w;
     s \<leftarrow> sf_mod sf (\<lambda>f. if CILK_FRAME_VERSION_VALUE (sf_flags f) \<ge> 1 then f\<lparr>sf_pedigree := wk_pedigree k\<rparr> else f) s;
     f \<leftarrow> sf_at s sf;
     assert_c (flag_set (sf_flags f) CILK_FRAME_UNSYNCHED);
     (g, s) \<leftarrow> (if flag_set (sf_flags f) CILK_FRAME_EXCEPTING then c_sync_except w sf g s else Some (g, s));
     (fiber, freed, s) \<leftarrow> c_sync w sf s;
     Some (fiber, freed, g, s) }"

section \<open>The pedigree of a user thread\<close>

text \<open>
  The leaf of a user thread outside Cilk is a node of the thread; while the thread is bound to a worker, it is
  the pedigree of that worker.
\<close>

datatype leaf_ref = Leaf_Node ptr | Leaf_Of_Worker ptr

record thread_pedigree =
  tp_leaf :: leaf_ref
  tp_nodes :: "ptr \<rightharpoonup> pedigree"

definition set_pedigree_leaf :: "leaf_ref \<Rightarrow> thread_pedigree \<Rightarrow> thread_pedigree" where
  "set_pedigree_leaf leaf t = t\<lparr>tp_leaf := leaf\<rparr>"

text \<open>The parent of a root's leaf is in turn a node without parent.\<close>

definition ped_node :: "thread_pedigree \<Rightarrow> rts \<Rightarrow> ped_ref \<Rightarrow> pedigree option" where
  "ped_node t s r = (case r of Ped_Null \<Rightarrow> None | Ped_Leaf p \<Rightarrow> tp_nodes t p
     | Ped_Frame p \<Rightarrow> map_option sf_pedigree (sf_at s p))"

definition load_pedigree_leaf_into_user_worker :: "ptr \<Rightarrow> thread_pedigree \<Rightarrow> rts \<Rightarrow> (thread_pedigree \<times> rts) proc" where
  "load_pedigree_leaf_into_user_worker w t s = do {
     l \<leftarrow> l_at s w;
     assert_c (l_type l = WORKER_USER);
     (case tp_leaf t of Leaf_Of_Worker v \<Rightarrow> None | Leaf_Node leaf \<Rightarrow> do {
       n \<leftarrow> tp_nodes t leaf;
       s \<leftarrow> wk_mod w (\<lambda>k. k\<lparr>wk_pedigree := n\<rparr>) s;
       assert_c (l_original_pedigree_leaf l = NULL);
       s \<leftarrow> l_mod w (\<lambda>l. l\<lparr>l_original_pedigree_leaf := leaf\<rparr>) s;
       let t = set_pedigree_leaf (Leaf_Of_Worker w) t;
       r \<leftarrow> ped_node t s (pd_parent n);
       assert_c (pd_parent r = Ped_Null);
       Some (t, s) }) }"

definition save_pedigree_leaf_from_user_worker :: "ptr \<Rightarrow> thread_pedigree \<Rightarrow> rts \<Rightarrow> (thread_pedigree \<times> rts) proc" where
  "save_pedigree_leaf_from_user_worker w t s = do {
     k \<leftarrow> wk_at s w;
     let leaf = l_original_pedigree_leaf (wk_l k);
     assert_c (l_type (wk_l k) = WORKER_USER);
     assert_c (leaf \<noteq> NULL);
     n \<leftarrow> tp_nodes t leaf;
     let t = t\<lparr>tp_nodes := (tp_nodes t)(leaf \<mapsto> n\<lparr>pd_rank := pd_rank (wk_pedigree k)\<rparr>)\<rparr>;
     let t = set_pedigree_leaf (Leaf_Node leaf) t;
     s \<leftarrow> l_mod w (\<lambda>l. l\<lparr>l_original_pedigree_leaf := NULL\<rparr>) s;
     Some (t, s) }"

end
