(* ===== verification/Serial_Run.thy ===== *)
theory Serial_Run
  imports Cilk_Abi
begin

text \<open>
  Cilk code on one worker without thieves. A function is the sequence of its calls, spawns and syncs;
  its compiled form calls the entry points in the order of the macros of \<^verbatim>\<open>handcomp-macros.h\<close>: a function enters
  its frame, runs, syncs, pops and leaves; a spawn runs the function in a helper that detaches. The stack frames are the
  addresses from \<open>sp\<close> on. Control that would go to the scheduler ends a run. A sync is the macro \<^verbatim>\<open>SYNC\<close>: it does not touch
  the pedigree. The comment at line 147 of \<^verbatim>\<open>pedigrees.h\<close> has a rank added at every sync by
  \<^verbatim>\<open>update_pedigree_after_sync\<close>, which nothing in the repository calls.
\<close>

section \<open>Programs\<close>

datatype cilk_fn = Cilk_Fn (fn_body: "cilk_stmt list")
and cilk_stmt = Call cilk_fn | Spawn cilk_fn | Sync

definition sync_point :: "ptr \<Rightarrow> rts \<Rightarrow> rts proc" where
  "sync_point sf s = do { f \<leftarrow> sf_at s sf; assert_c (\<not> flag_set (sf_flags f) CILK_FRAME_UNSYNCHED); Some s }"

definition leave_serially :: "ptr \<Rightarrow> ptr \<Rightarrow> cxa_globals \<Rightarrow> rts \<Rightarrow> rts proc" where
  "leave_serially w sf g s = do {
     s \<leftarrow> pop_frame w sf s;
     (l, _, s) \<leftarrow> leave_frame w sf g s;
     assert_c (l = Returned);
     Some s }"

definition no_bind :: "rts \<Rightarrow> (ptr \<times> rts) proc" where
  "no_bind s = None"

fun run_fn :: "ptr \<Rightarrow> cxa_globals \<Rightarrow> cilk_fn \<Rightarrow> ptr \<Rightarrow> rts \<Rightarrow> rts proc"
and run_stmts :: "ptr \<Rightarrow> cxa_globals \<Rightarrow> cilk_stmt list \<Rightarrow> ptr \<Rightarrow> rts \<Rightarrow> rts proc"
and run_stmt :: "ptr \<Rightarrow> cxa_globals \<Rightarrow> cilk_stmt \<Rightarrow> ptr \<Rightarrow> rts \<Rightarrow> rts proc" where
  "run_fn w g (Cilk_Fn body) sp s = do {
     s \<leftarrow> enter_frame_1 no_bind w sp s;
     s \<leftarrow> run_stmts w g body sp s;
     s \<leftarrow> sync_point sp s;
     leave_serially w sp g s }"
| "run_stmts w g [] sf s = Some s"
| "run_stmts w g (c # cs) sf s = do { s \<leftarrow> run_stmt w g c sf s; run_stmts w g cs sf s }"
| "run_stmt w g (Call h) sf s = run_fn w g h (sf + 1) s"
| "run_stmt w g (Spawn h) sf s = do {
     s \<leftarrow> enter_frame_fast_1 w (sf + 1) s;
     s \<leftarrow> detach w (sf + 1) s;
     s \<leftarrow> run_fn w g h (sf + 2) s;
     leave_serially w (sf + 1) g s }"
| "run_stmt w g Sync sf s = sync_point sf s"

text \<open>The stack frames and the queue cells a run needs, and the ranks it adds to the pedigree.\<close>

fun frames_fn :: "cilk_fn \<Rightarrow> nat" and frames_stmts :: "cilk_stmt list \<Rightarrow> nat" and frames_stmt :: "cilk_stmt \<Rightarrow> nat" where
  "frames_fn (Cilk_Fn body) = 1 + frames_stmts body"
| "frames_stmts [] = 0"
| "frames_stmts (c # cs) = max (frames_stmt c) (frames_stmts cs)"
| "frames_stmt (Call h) = frames_fn h"
| "frames_stmt (Spawn h) = 1 + frames_fn h"
| "frames_stmt Sync = 0"

fun spawns_fn :: "cilk_fn \<Rightarrow> nat" and spawns_stmts :: "cilk_stmt list \<Rightarrow> nat" and spawns_stmt :: "cilk_stmt \<Rightarrow> nat" where
  "spawns_fn (Cilk_Fn body) = spawns_stmts body"
| "spawns_stmts [] = 0"
| "spawns_stmts (c # cs) = max (spawns_stmt c) (spawns_stmts cs)"
| "spawns_stmt (Call h) = spawns_fn h"
| "spawns_stmt (Spawn h) = 1 + spawns_fn h"
| "spawns_stmt Sync = 0"

fun ranks_fn :: "cilk_fn \<Rightarrow> nat" and ranks_stmts :: "cilk_stmt list \<Rightarrow> nat" and ranks_stmt :: "cilk_stmt \<Rightarrow> nat" where
  "ranks_fn (Cilk_Fn body) = ranks_stmts body"
| "ranks_stmts [] = 0"
| "ranks_stmts (c # cs) = ranks_stmt c + ranks_stmts cs"
| "ranks_stmt (Call h) = ranks_fn h"
| "ranks_stmt (Spawn h) = 1"
| "ranks_stmt Sync = 0"

section \<open>What a run changes\<close>

definition bump :: "nat \<Rightarrow> pedigree \<Rightarrow> pedigree" where
  "bump r p = p\<lparr>pd_rank := pd_rank p + of_nat r\<rparr>"

lemma bump_bump [simp]: "bump r (bump q p) = bump (q + r) p"
  by (simp add: bump_def add.assoc)

lemma bump_0 [simp]: "bump 0 p = p"
  by (simp add: bump_def)

text \<open>The worker can run a function that needs \<open>n\<close> cells: its pointers go to one deque, nobody is stealing.\<close>

definition can_run :: "ptr \<Rightarrow> nat \<Rightarrow> rts \<Rightarrow> bool" where
  "can_run w n s \<longleftrightarrow> w \<noteq> NULL \<and> (\<exists>k D e. wk_at s w = Some k \<and> wk_exc k = wk_tail k \<and> dq_at s (wk_tail k) = Some D \<and>
     dq_exc D = Some e \<and> e \<le> dq_tail D \<and> dq_tail D + n \<le> dq_ltq_limit D)"

definition stack_from :: "ptr \<Rightarrow> nat \<Rightarrow> rts \<Rightarrow> bool" where
  "stack_from sp n s \<longleftrightarrow> (\<forall>q. sp \<le> q \<and> q < sp + n \<longrightarrow> sf_at s q \<noteq> None)"

text \<open>States with the stack frames replaced; every write of the entry points is brought into this form.\<close>

definition put_mem :: "(ptr \<rightharpoonup> stack_frame) \<Rightarrow> rts \<Rightarrow> rts" where
  "put_mem m s = s\<lparr>rt_sf := m\<rparr>"

lemma put_mem_at [simp]: "sf_at (put_mem m s) q = m q" "ff_at (put_mem m s) q = ff_at s q" "dq_at (put_mem m s) q = dq_at s q"
    "wk_at (put_mem m s) q = wk_at s q" "l_at (put_mem m s) q = l_at s q"
  by (simp_all add: put_mem_def sf_at_def ff_at_def dq_at_def wk_at_def l_at_def)

lemma put_mem_put [simp]: "put_mem m (put_mem m' s) = put_mem m s" "put_mem (sf_at s) s = s"
  by (simp_all add: put_mem_def sf_at_def fun_eq_iff)

lemma put_mem_same [simp]: "put_mem (sf_at s) (put_wk w k s) = put_wk w k s" "put_mem (sf_at s) (put_dq d x s) = put_dq d x s"
    "put_mem (sf_at s) (put_wk w k (put_dq d x s)) = put_wk w k (put_dq d x s)"
  by (simp_all add: put_mem_def put_wk_def put_dq_def sf_at_def fun_eq_iff)

lemma sf_at_fun [simp]: "sf_at (put_mem m s) = m" "sf_at (put_wk w k s) = sf_at s" "sf_at (put_dq d x s) = sf_at s"
    "sf_at (put_sf q f s) = (sf_at s)(q \<mapsto> f)"
  by (simp_all add: fun_eq_iff)

lemma put_sf_mem: "put_sf q f s = put_mem ((sf_at s)(q \<mapsto> f)) s"
  by (simp add: put_sf_def put_mem_def sf_at_def fun_upd_def fun_eq_iff)

lemma put_order:
  "put_wk w k (put_mem m s) = put_mem m (put_wk w k s)" "put_dq d x (put_mem m s) = put_mem m (put_dq d x s)"
  "put_dq d x (put_wk w k s) = put_wk w k (put_dq d x s)" "put_sf q f (put_mem m s) = put_mem (m(q \<mapsto> f)) s"
  by (simp_all add: put_mem_def put_wk_def put_dq_def put_sf_def)

text \<open>Only the pedigree of the worker has changed, the frames from \<open>lo\<close> on, and free cells of its queue.\<close>

definition ran :: "ptr \<Rightarrow> ptr \<Rightarrow> nat \<Rightarrow> rts \<Rightarrow> rts \<Rightarrow> bool" where
  "ran w lo r s s' \<longleftrightarrow> (\<exists>k D c m. wk_at s w = Some k \<and> dq_at s (wk_tail k) = Some D \<and> (\<forall>i<dq_tail D. c i = dq_ltq D i) \<and>
     s' = put_mem m (put_wk w (k\<lparr>wk_pedigree := bump r (wk_pedigree k)\<rparr>) (put_dq (wk_tail k) (D\<lparr>dq_ltq := c\<rparr>) s)) \<and>
     (\<forall>q<lo. m q = sf_at s q) \<and> (\<forall>q. sf_at s q \<noteq> None \<longrightarrow> m q \<noteq> None))"

lemma ranI:
  assumes "wk_at s w = Some k" "dq_at s (wk_tail k) = Some D" "\<forall>i<dq_tail D. c i = dq_ltq D i"
    "s' = put_mem m (put_wk w (k\<lparr>wk_pedigree := bump r (wk_pedigree k)\<rparr>) (put_dq (wk_tail k) (D\<lparr>dq_ltq := c\<rparr>) s))"
    "\<forall>q<lo. m q = sf_at s q" "\<forall>q. sf_at s q \<noteq> None \<longrightarrow> m q \<noteq> None"
  shows "ran w lo r s s'"
  unfolding ran_def using assms by blast

lemma ranE:
  assumes "ran w lo r s s'"
  obtains k D c m where "wk_at s w = Some k" "dq_at s (wk_tail k) = Some D" "\<forall>i<dq_tail D. c i = dq_ltq D i"
    "s' = put_mem m (put_wk w (k\<lparr>wk_pedigree := bump r (wk_pedigree k)\<rparr>) (put_dq (wk_tail k) (D\<lparr>dq_ltq := c\<rparr>) s))"
    "\<forall>q<lo. m q = sf_at s q" "\<forall>q. sf_at s q \<noteq> None \<longrightarrow> m q \<noteq> None"
  using assms unfolding ran_def by blast

definition only_pedigree :: "ptr \<Rightarrow> rts \<Rightarrow> rts \<Rightarrow> bool" where
  "only_pedigree sf s s' \<longleftrightarrow> (\<exists>x p. sf_at s sf = Some x \<and> sf_at s' sf = Some (x\<lparr>sf_pedigree := p\<rparr>))"

lemma can_run_less: "can_run w n s \<Longrightarrow> m \<le> n \<Longrightarrow> can_run w m s"
  unfolding can_run_def by fastforce

lemma stack_from_less: "stack_from sp n s \<Longrightarrow> m \<le> n \<Longrightarrow> stack_from sp m s"
  by (simp add: stack_from_def)

lemma ran_can_run: "ran w lo r s s' \<Longrightarrow> can_run w n s \<Longrightarrow> can_run w n s'"
  unfolding ran_def can_run_def by auto

lemma ran_stack: "ran w lo r s s' \<Longrightarrow> stack_from sp n s \<Longrightarrow> stack_from sp n s'"
  unfolding ran_def stack_from_def by auto

lemma put_same: "wk_at s w = Some k \<Longrightarrow> put_wk w k s = s" "dq_at s d = Some x \<Longrightarrow> put_dq d x s = s"
    "sf_at s q = Some f \<Longrightarrow> put_sf q f s = s"
  by (cases s; simp add: put_wk_def put_dq_def put_sf_def wk_at_def dq_at_def sf_at_def map_upd_triv)+

lemma ran_refl:
  assumes "can_run w n s"
  shows "ran w lo 0 s s"
proof -
  from assms obtain k D where k: "wk_at s w = Some k" "dq_at s (wk_tail k) = Some D" by (auto simp: can_run_def)
  have "k\<lparr>wk_pedigree := bump 0 (wk_pedigree k)\<rparr> = k" "D\<lparr>dq_ltq := dq_ltq D\<rparr> = D" by simp_all
  then have "put_mem (sf_at s) (put_wk w (k\<lparr>wk_pedigree := bump 0 (wk_pedigree k)\<rparr>) (put_dq (wk_tail k) (D\<lparr>dq_ltq := dq_ltq D\<rparr>) s)) = s"
    by (simp only: put_same(2) [OF k(2)] put_same(1) [OF k(1)] put_mem_put)
  with k show ?thesis by (intro ranI [where k = k and D = D and m = "sf_at s" and c = "dq_ltq D"]) simp_all
qed

lemma ran_trans:
  assumes "ran w lo r s s1" "ran w lo q s1 s2"
  shows "ran w lo (r + q) s s2"
proof -
  from assms(1) obtain k D c m where 1: "wk_at s w = Some k" "dq_at s (wk_tail k) = Some D" "\<forall>i<dq_tail D. c i = dq_ltq D i"
     "s1 = put_mem m (put_wk w (k\<lparr>wk_pedigree := bump r (wk_pedigree k)\<rparr>) (put_dq (wk_tail k) (D\<lparr>dq_ltq := c\<rparr>) s))"
     "\<forall>q<lo. m q = sf_at s q" "\<forall>q. sf_at s q \<noteq> None \<longrightarrow> m q \<noteq> None" unfolding ran_def by blast
  from assms(2) 1(1,2,4) obtain c' m' where 2: "\<forall>i<dq_tail D. c' i = c i"
     "s2 = put_mem m' (put_wk w (k\<lparr>wk_pedigree := bump (r + q) (wk_pedigree k)\<rparr>) (put_dq (wk_tail k) (D\<lparr>dq_ltq := c'\<rparr>) s))"
     "\<forall>q<lo. m' q = m q" "\<forall>q. m q \<noteq> None \<longrightarrow> m' q \<noteq> None"
    unfolding ran_def by (auto simp: put_order)
  show ?thesis unfolding ran_def using 1 2
    by (intro exI [of _ k] exI [of _ D] exI [of _ c'] exI [of _ m']) simp
qed

lemma ran_lower: "ran w lo r s s' \<Longrightarrow> lo' \<le> lo \<Longrightarrow> ran w lo' r s s'"
  by (elim ranE, rule ranI, assumption+) auto

lemma only_pedigree_trans: "only_pedigree sf s s1 \<Longrightarrow> only_pedigree sf s1 s2 \<Longrightarrow> only_pedigree sf s s2"
  unfolding only_pedigree_def by auto

lemma ran_below: "ran w lo r s s' \<Longrightarrow> q < lo \<Longrightarrow> sf_at s' q = sf_at s q"
  unfolding ran_def by auto

section \<open>Flags of an unstolen frame\<close>

abbreviation (input) plain_flags :: "32 word" where "plain_flags \<equiv> push_bit 24 1"

lemma plain_flags_simps [simp]:
  "push_bit 24 (1::32 word) = 0x1000000"
  "CILK_FRAME_VERSION_VALUE 0x1000000 = 1"
  "\<not> flag_set 0x1000000 CILK_FRAME_DETACHED" "\<not> flag_set 0x1000000 CILK_FRAME_EXCEPTING" "\<not> flag_set 0x1000000 CILK_FRAME_LAST"
  "\<not> flag_set 0x1000000 CILK_FRAME_BATCH" "\<not> flag_set 0x1000000 CILK_FRAME_STOLEN" "\<not> flag_set 0x1000000 CILK_FRAME_UNSYNCHED"
  "\<not> flag_set 0x1000000 CILK_FRAME_FLAGS_MASK" "0x1000000 AND CILK_FRAME_FLAGS_MASK = 0"
  "0x1000000 OR CILK_FRAME_DETACHED = 0x1000004" "flag_set 0x1000004 CILK_FRAME_DETACHED" "\<not> flag_set 0x1000004 CILK_FRAME_EXCEPTING"
  "0x1000004 AND NOT CILK_FRAME_DETACHED = 0x1000000"
  by (simp_all add: frame_flag_defs flag_set_def CILK_FRAME_VERSION_VALUE_def)

section \<open>One construct at a time\<close>

text \<open>A frame that has been entered and not stolen.\<close>

definition in_frame :: "ptr \<Rightarrow> ptr \<Rightarrow> ptr \<Rightarrow> rts \<Rightarrow> bool" where
  "in_frame w sf par s \<longleftrightarrow> (\<exists>x k. sf_at s sf = Some x \<and> sf_flags x = 0x1000000 \<and> sf_call_parent x = par \<and>
     wk_at s w = Some k \<and> wk_current_stack_frame k = sf)"

lemma sync_run:
  assumes "in_frame w sf par s" "can_run w n s"
  shows "\<exists>s'. run_stmt w g Sync sf s = Some s' \<and> ran w sf 0 s s' \<and> in_frame w sf par s'"
proof -
  have "run_stmt w g Sync sf s = Some s" using assms(1) by (auto simp: sync_point_def in_frame_def)
  then show ?thesis using ran_refl [OF assms(2)] assms(1) by blast
qed

text \<open>Entering a function and a spawn helper, and leaving them, as writes.\<close>

lemma enter_run:
  assumes "w \<noteq> NULL" "sf_at s sf = Some x" "wk_at s w = Some k"
  shows "\<exists>x'. enter_frame_1 no_bind w sf s = Some (put_wk w (k\<lparr>wk_current_stack_frame := sf\<rparr>) (put_sf sf x' s)) \<and>
      enter_frame_fast_1 w sf s = Some (put_wk w (k\<lparr>wk_current_stack_frame := sf\<rparr>) (put_sf sf x' s)) \<and>
      sf_flags x' = 0x1000000 \<and> sf_call_parent x' = wk_current_stack_frame k \<and> sf_pedigree x' = sf_pedigree x"
proof -
  let ?x = "x\<lparr>sf_flags := 0x1000000, sf_call_parent := wk_current_stack_frame k, sf_worker := w, sf_reserved := 0\<rparr>"
  have c: "put_sf q f (put_wk v j t) = put_wk v j (put_sf q f t)" for q f v j t by (simp add: put_sf_def put_wk_def)
  show ?thesis using assms
    by (intro exI [of _ ?x]) (simp add: enter_frame_1_def enter_frame_internal_def enter_frame_fast_1_def
      enter_frame_fast_internal_def link_frame_def c)
qed

text \<open>Leaving an unstolen function, whose flags are plain.\<close>

lemma leave_fn_run:
  assumes "sf_at s sf = Some x" "sf_flags x = 0x1000000" "wk_at s w = Some k"
  shows "leave_serially w sf g s = Some (put_sf sf (x\<lparr>sf_call_parent := NULL\<rparr>)
    (put_wk w (k\<lparr>wk_current_stack_frame := sf_call_parent x\<rparr>) s))"
  using assms by (simp add: leave_serially_def pop_frame_def leave_frame_def)

text \<open>Leaving a spawn helper whose parent has not been stolen.\<close>

lemma leave_helper_run:
  assumes "sf_at s sf = Some x" "sf_flags x = 0x1000004" "wk_at s w = Some k" "wk_exc k = wk_tail k"
    "dq_at s (wk_tail k) = Some D" "dq_tail D = Suc t" "dq_exc D = Some e" "e \<le> t"
  shows "leave_serially w sf g s = Some (put_wk w (k\<lparr>wk_current_stack_frame := sf_call_parent x, wk_pedigree := bump 1 (sf_pedigree x)\<rparr>)
    (put_sf sf (x\<lparr>sf_call_parent := NULL, sf_flags := 0x1000000\<rparr>) (put_dq (wk_tail k) (D\<lparr>dq_tail := t\<rparr>) s)))"
proof -
  have c: "put_dq d D (put_sf q f t) = put_sf q f (put_dq d D t)" "put_sf q f (put_wk v j t) = put_wk v j (put_sf q f t)"
    for q f v j t d D by (simp_all add: put_sf_def put_wk_def put_dq_def)
  show ?thesis using assms
    by (simp add: leave_serially_def pop_frame_def leave_frame_def undo_detach_def undo_detach_store_def undo_detach_failed_def
      update_pedigree_on_leave_frame_def bump_def c put_order)
qed

lemma detach_run:
  assumes h: "sf_at s h = Some x" "sf_flags x = 0x1000000" "sf_call_parent x = sf" "sf_at s sf = Some X" "h \<noteq> sf"
    and k: "wk_at s w = Some k" "dq_at s (wk_tail k) = Some D" "dq_tail D < dq_ltq_limit D"
  shows "detach w h s = Some (put_sf h (x\<lparr>sf_pedigree := wk_pedigree k, sf_flags := 0x1000004\<rparr>)
    (put_sf sf (X\<lparr>sf_pedigree := wk_pedigree k\<rparr>)
    (put_wk w (k\<lparr>wk_pedigree := \<lparr>pd_rank = 1, pd_parent = Ped_Frame h\<rparr>\<rparr>)
    (put_dq (wk_tail k) (D\<lparr>dq_ltq := (dq_ltq D)(dq_tail D := sf), dq_tail := dq_tail D + 1\<rparr>) s))))"
proof -
  have c: "put_dq d D (put_sf q f t) = put_sf q f (put_dq d D t)" "put_wk v j (put_sf q f t) = put_sf q f (put_wk v j t)"
    "put_sf sf f (put_sf h x t) = put_sf h x (put_sf sf f t)"
    for q f x v j t d D using h(5) by (simp_all add: put_sf_def put_wk_def put_dq_def fun_upd_twist)
  show ?thesis using assms
    by (simp add: detach_def detach_store_def detach_publish_def c put_order)
qed

lemma ran_in_frame: "ran w lo r s s' \<Longrightarrow> sf < lo \<Longrightarrow> in_frame w sf par s \<Longrightarrow> in_frame w sf par s'"
  by (auto elim!: ranE simp: in_frame_def)

lemma spawn_run:
  assumes f: "in_frame w sf par s" "can_run w (Suc n) s" "stack_from (sf + 1) (Suc m) s"
    and IH: "\<And>s. can_run w n s \<Longrightarrow> stack_from (sf + 2) m s \<Longrightarrow> \<exists>s' r. run_fn w g h (sf + 2) s = Some s' \<and> ran w (sf + 2) r s s'"
  shows "\<exists>s'. run_stmt w g (Spawn h) sf s = Some s' \<and> ran w sf 1 s s' \<and> in_frame w sf par s'"
proof -
  from f(1,2) obtain X k D e where s: "sf_at s sf = Some X" "sf_flags X = 0x1000000" "sf_call_parent X = par" "wk_at s w = Some k"
    "wk_current_stack_frame k = sf" "dq_at s (wk_tail k) = Some D" "wk_exc k = wk_tail k" "dq_exc D = Some e" "e \<le> dq_tail D"
    "dq_tail D + Suc n \<le> dq_ltq_limit D" "w \<noteq> NULL" by (auto simp: in_frame_def can_run_def)
  from f(3) obtain y where y: "sf_at s (sf + 1) = Some y" by (force simp: stack_from_def)
  from enter_run [OF s(11) y s(4)] obtain x where x:
    "enter_frame_fast_1 w (sf + 1) s = Some (put_wk w (k\<lparr>wk_current_stack_frame := sf + 1\<rparr>) (put_sf (sf + 1) x s))"
    "sf_flags x = 0x1000000" "sf_call_parent x = sf" unfolding s(5) by blast
  let ?k = "k\<lparr>wk_current_stack_frame := sf + 1, wk_pedigree := \<lparr>pd_rank = 1, pd_parent = Ped_Frame (sf + 1)\<rparr>\<rparr>"
  let ?x = "x\<lparr>sf_pedigree := wk_pedigree k, sf_flags := 0x1000004\<rparr>"
  let ?D = "D\<lparr>dq_ltq := (dq_ltq D)(dq_tail D := sf), dq_tail := dq_tail D + 1\<rparr>"
  let ?m = "(sf_at s)(sf + 1 \<mapsto> ?x, sf \<mapsto> X\<lparr>sf_pedigree := wk_pedigree k\<rparr>)"
  define s2 where "s2 = put_mem ?m (put_wk w ?k (put_dq (wk_tail k) ?D s))"
  have d: "detach w (sf + 1) (put_wk w (k\<lparr>wk_current_stack_frame := sf + 1\<rparr>) (put_sf (sf + 1) x s)) = Some s2"
    using detach_run [of "put_wk w (k\<lparr>wk_current_stack_frame := sf + 1\<rparr>) (put_sf (sf + 1) x s)" "sf + 1" x sf X w
      "k\<lparr>wk_current_stack_frame := sf + 1\<rparr>" D] s x(2,3)
    by (simp add: s2_def put_order put_sf_mem fun_upd_twist)
  have "can_run w n s2" "stack_from (sf + 2) m s2"
    using s f(3) by (auto simp: can_run_def s2_def stack_from_def)
  from IH [OF this] obtain s3 r where s3: "run_fn w g h (sf + 2) s2 = Some s3" "ran w (sf + 2) r s2 s3" by blast
  from s3(2) obtain kk DD c m3 where r: "wk_at s2 w = Some kk" "dq_at s2 (wk_tail kk) = Some DD" "\<forall>i<dq_tail DD. c i = dq_ltq DD i"
     "s3 = put_mem m3 (put_wk w (kk\<lparr>wk_pedigree := bump r (wk_pedigree kk)\<rparr>) (put_dq (wk_tail kk) (DD\<lparr>dq_ltq := c\<rparr>) s2))"
     "\<forall>q < sf + 2. m3 q = sf_at s2 q" "\<forall>q. sf_at s2 q \<noteq> None \<longrightarrow> m3 q \<noteq> None" by (rule ranE)
  have kD: "kk = ?k" "DD = ?D" using r(1,2) by (auto simp: s2_def)
  have c: "\<forall>i<dq_tail D. c i = dq_ltq D i"
     "s3 = put_mem m3 (put_wk w (?k\<lparr>wk_pedigree := bump r (wk_pedigree ?k)\<rparr>) (put_dq (wk_tail k) (?D\<lparr>dq_ltq := c\<rparr>) s))"
     "\<forall>q < sf + 2. m3 q = ?m q" "\<forall>q. ?m q \<noteq> None \<longrightarrow> m3 q \<noteq> None"
    using r(3-6) by (simp_all add: kD s2_def put_order less_Suc_eq del: fun_upd_apply) auto
  let ?m4 = "m3(sf + 1 \<mapsto> ?x\<lparr>sf_call_parent := NULL, sf_flags := 0x1000000\<rparr>)"
  let ?s4 = "put_mem ?m4 (put_wk w (k\<lparr>wk_pedigree := bump 1 (wk_pedigree k)\<rparr>) (put_dq (wk_tail k) (D\<lparr>dq_ltq := c\<rparr>) s))"
  have m3: "m3 (sf + 1) = Some ?x" "m3 sf = Some (X\<lparr>sf_pedigree := wk_pedigree k\<rparr>)" using c(3) by simp_all
  have k4: "k\<lparr>wk_current_stack_frame := sf, wk_pedigree := p\<rparr> = k\<lparr>wk_pedigree := p\<rparr>" for p using s(5) by (cases k) simp
  have D4: "?D\<lparr>dq_ltq := c, dq_tail := dq_tail D\<rparr> = D\<lparr>dq_ltq := c\<rparr>" by (cases D) simp
  have "leave_serially w (sf + 1) g s3 = Some ?s4"
    using leave_helper_run [of s3 "sf + 1" ?x w "?k\<lparr>wk_pedigree := bump r (wk_pedigree ?k)\<rparr>" "?D\<lparr>dq_ltq := c\<rparr>" "dq_tail D" e g] s m3 x(3) c(2) k4 D4
    by (simp add: put_order)
  moreover have "ran w sf 1 s ?s4"
    using s c(1) c(3,4) by (intro ranI [where k = k and D = D and m = ?m4 and c = c]) auto
  moreover have "in_frame w sf par ?s4" using s m3 by (simp add: in_frame_def)
  ultimately show ?thesis using x(1) d s3(1) by (intro exI [of _ ?s4]) simp
qed

lemma fn_run:
  assumes s: "can_run w n s" "stack_from sp (Suc m) s"
    and IH: "\<And>s par. can_run w n s \<Longrightarrow> in_frame w sp par s \<Longrightarrow> stack_from (sp + 1) m s \<Longrightarrow>
      \<exists>s'. run_stmts w g body sp s = Some s' \<and> ran w sp r s s' \<and> in_frame w sp par s'"
  shows "\<exists>s'. run_fn w g (Cilk_Fn body) sp s = Some s' \<and> ran w sp r s s'"
proof -
  from s obtain k D e y where k: "w \<noteq> NULL" "wk_at s w = Some k" "dq_at s (wk_tail k) = Some D" "sf_at s sp = Some y"
    by (force simp: can_run_def stack_from_def)
  from enter_run [OF k(1,4,2)] obtain x where
    x: "enter_frame_1 no_bind w sp s = Some (put_wk w (k\<lparr>wk_current_stack_frame := sp\<rparr>) (put_sf sp x s))"
    "sf_flags x = 0x1000000" "sf_call_parent x = wk_current_stack_frame k" by blast
  let ?k = "k\<lparr>wk_current_stack_frame := sp\<rparr>"
  define s1 where "s1 = put_mem ((sf_at s)(sp \<mapsto> x)) (put_wk w ?k s)"
  have e1: "enter_frame_1 no_bind w sp s = Some s1" using x(1) by (simp add: s1_def put_order put_sf_mem)
  have "can_run w n s1" "in_frame w sp (wk_current_stack_frame k) s1" "stack_from (sp + 1) m s1"
    using s k x by (auto simp: can_run_def in_frame_def stack_from_def s1_def)
  from IH [OF this] obtain s2 where s2: "run_stmts w g body sp s1 = Some s2" "ran w sp r s1 s2"
    "in_frame w sp (wk_current_stack_frame k) s2" by blast
  from s2(2) obtain kk DD c m2 where r: "wk_at s1 w = Some kk" "dq_at s1 (wk_tail kk) = Some DD" "\<forall>i<dq_tail DD. c i = dq_ltq DD i"
     "s2 = put_mem m2 (put_wk w (kk\<lparr>wk_pedigree := bump r (wk_pedigree kk)\<rparr>) (put_dq (wk_tail kk) (DD\<lparr>dq_ltq := c\<rparr>) s1))"
     "\<forall>q < sp. m2 q = sf_at s1 q" "\<forall>q. sf_at s1 q \<noteq> None \<longrightarrow> m2 q \<noteq> None" by (rule ranE)
  have kD: "kk = ?k" "DD = D" using r(1,2) k by (auto simp: s1_def)
  have c2: "s2 = put_mem m2 (put_wk w (?k\<lparr>wk_pedigree := bump r (wk_pedigree k)\<rparr>) (put_dq (wk_tail k) (D\<lparr>dq_ltq := c\<rparr>) s))"
    using r(4) by (simp add: kD s1_def put_order)
  from s2(3) obtain z where z: "m2 sp = Some z" "sf_flags z = 0x1000000" "sf_call_parent z = wk_current_stack_frame k"
    by (auto simp: in_frame_def c2)
  let ?m = "m2(sp \<mapsto> z\<lparr>sf_call_parent := NULL\<rparr>)"
  let ?s = "put_mem ?m (put_wk w (k\<lparr>wk_pedigree := bump r (wk_pedigree k)\<rparr>) (put_dq (wk_tail k) (D\<lparr>dq_ltq := c\<rparr>) s))"
  have kk: "k\<lparr>wk_current_stack_frame := wk_current_stack_frame k, wk_pedigree := p\<rparr> = k\<lparr>wk_pedigree := p\<rparr>" for p by (cases k) simp
  have "sync_point sp s2 = Some s2" using z c2 by (simp add: sync_point_def)
  moreover have "leave_serially w sp g s2 = Some ?s"
    using leave_fn_run [of s2 sp z w "?k\<lparr>wk_pedigree := bump r (wk_pedigree k)\<rparr>" g] z c2 kk by (simp add: put_order put_sf_mem)
  moreover have "ran w sp r s ?s"
    using k r(3,5,6) kD by (intro ranI [where k = k and D = D and m = ?m and c = c]) (auto simp: s1_def)
  ultimately show ?thesis using e1 s2(1) by (intro exI [of _ ?s]) simp
qed

lemma serial_runs:
  "can_run w (spawns_fn h) s \<Longrightarrow> stack_from sp (frames_fn h) s \<Longrightarrow>
    \<exists>s'. run_fn w g h sp s = Some s' \<and> ran w sp (ranks_fn h) s s'"
  "can_run w (spawns_stmts cs) s \<Longrightarrow> in_frame w sp par s \<Longrightarrow> stack_from (sp + 1) (frames_stmts cs) s \<Longrightarrow>
    \<exists>s'. run_stmts w g cs sp s = Some s' \<and> ran w sp (ranks_stmts cs) s s' \<and> in_frame w sp par s'"
  "can_run w (spawns_stmt c) s \<Longrightarrow> in_frame w sp par s \<Longrightarrow> stack_from (sp + 1) (frames_stmt c) s \<Longrightarrow>
    \<exists>s'. run_stmt w g c sp s = Some s' \<and> ran w sp (ranks_stmt c) s s' \<and> in_frame w sp par s'"
proof (induction h and cs and c arbitrary: sp s par and sp s par and sp s par
    rule: frames_fn_frames_stmts_frames_stmt.induct)
  case (1 body)
  then show ?case using fn_run [of w "spawns_stmts body" s sp "frames_stmts body" g body "ranks_stmts body"] by simp
next
  case 2
  then show ?case by (auto intro: ran_refl)
next
  case (3 c cs)
  have "can_run w (spawns_stmt c) s" "stack_from (sp + 1) (frames_stmt c) s"
    using can_run_less [OF 3(3)] stack_from_less [OF 3(5)] by simp_all
  from 3(1) [OF this(1) 3(4) this(2)] obtain s1 where
    s1: "run_stmt w g c sp s = Some s1" "ran w sp (ranks_stmt c) s s1" "in_frame w sp par s1" by blast
  have "can_run w (spawns_stmts cs) s1" "stack_from (sp + 1) (frames_stmts cs) s1"
    using ran_can_run [OF s1(2) can_run_less [OF 3(3)]] ran_stack [OF s1(2) stack_from_less [OF 3(5)]] by simp_all
  from 3(2) [OF this(1) s1(3) this(2)] obtain s2 where
    s2: "run_stmts w g cs sp s1 = Some s2" "ran w sp (ranks_stmts cs) s1 s2" "in_frame w sp par s2" by blast
  show ?case using s1 s2 ran_trans [OF s1(2) s2(2)] by simp
next
  case (4 h)
  from 4(1) [of s "sp + 1"] 4(2,4) obtain s' where s': "run_fn w g h (sp + 1) s = Some s'" "ran w (sp + 1) (ranks_fn h) s s'" by auto
  show ?case using s' ran_lower [OF s'(2), of sp] ran_in_frame [OF s'(2) _ 4(3)] by simp
next
  case (5 h)
  have "\<exists>s' r. run_fn w g h (sp + 2) s = Some s' \<and> ran w (sp + 2) r s s'"
    if "can_run w (spawns_fn h) s" "stack_from (sp + 2) (frames_fn h) s" for s using 5(1) [OF that] by blast
  from spawn_run [OF 5(3) _ _ this, of "spawns_fn h" "frames_fn h"] 5(2,4) show ?case by simp
next
  case 6
  then show ?case using sync_run [of w sp par s 0 g] by simp
qed

section \<open>Properties\<close>

text \<open>C35. On a worker whose pointers agree, with room for the nested spawns in its queue and for the frames on its stack,
  and with no thief about, every nest of calls, spawns and syncs runs to its end: no assertion of the entry points fails, no
  test of the THE protocol and no flag sends it to the scheduler, and it leaves the worker as it was, its frame, queue and
  stack included, but for the rank of the pedigree, which has advanced by one for every spawn of the strand itself,
  in the function and in those it calls. So the worker is fit to go on.\<close>

theorem serial_run_well_typed:
  assumes "can_run w (spawns_fn h) s" "stack_from sp (frames_fn h) s"
  shows "\<exists>s'. run_fn w g h sp s = Some s' \<and> ran w sp (ranks_fn h) s s' \<and> can_run w (spawns_fn h) s' \<and>
    stack_from sp (frames_fn h) s'"
proof -
  from serial_runs(1) [OF assms] obtain s' where "run_fn w g h sp s = Some s'" "ran w sp (ranks_fn h) s s'" by blast
  with ran_can_run [OF this(2) assms(1)] ran_stack [OF this(2) assms(2)] show ?thesis by blast
qed

text \<open>A recursive Fibonacci of depth 2: it spawns one call, makes the other, and syncs.\<close>

definition fib_fn :: cilk_fn where
  "fib_fn = Cilk_Fn [Spawn (Cilk_Fn [Spawn (Cilk_Fn []), Call (Cilk_Fn []), Sync]), Call (Cilk_Fn []), Sync]"

definition serial_example :: rts where
  "serial_example = (rts_with_worker 1 (example_local\<lparr>l_core_deque := 7\<rparr>))\<lparr>rt_wk := [1 \<mapsto>
     (example_worker (example_local\<lparr>l_core_deque := 7\<rparr>))\<lparr>wk_tail := 7, wk_head := 7, wk_exc := 7, wk_protected_tail := 7,
       wk_ltq_limit := 7\<rparr>], rt_dq := [7 \<mapsto> empty_deque 8],
     rt_sf := (\<lambda>q. Some \<lparr>sf_flags = 0, sf_size = 0, sf_call_parent = 0, sf_worker = 0, sf_except_data = 0,
        sf_ctx_sp = 0, sf_ctx_fp = 0, sf_reserved = 0, sf_pedigree = no_pedigree\<rparr>)\<rparr>"

theorem serial_run_well_typed_witness:
  "\<exists>s'. run_fn 1 no_cxa fib_fn 10 serial_example = Some s' \<and> ran 1 10 1 serial_example s'"
proof -
  have "can_run 1 (spawns_fn fib_fn) serial_example" "stack_from 10 (frames_fn fib_fn) serial_example"
    by (simp_all add: can_run_def stack_from_def serial_example_def wk_at_def dq_at_def sf_at_def empty_deque_def fib_fn_def)
  from serial_run_well_typed [OF this, of no_cxa] show ?thesis by (auto simp: fib_fn_def)
qed

end
