(* ===== verification/Pedigrees.thy ===== *)
theory Pedigrees
  imports Serial_Run Last_Arrival
begin

text \<open>
  Pedigrees do not depend on the schedule. A pedigree names a strand by its rank and the node of the
  spawn above it; the worker carries it, a spawn saves it in two stack frames, a sync in one, and whoever
  continues the strand takes it from there. The theorems compare the strand that stays on its worker with the
  one that a thief, or the last worker to arrive at the sync, resumes.
\<close>

section \<open>What a detach saves\<close>

lemma detach_saves:
  assumes d: "detach w h s = Some s1" and k: "wk_at s w = Some k" and x: "sf_at s h = Some x" "sf_call_parent x \<noteq> h"
  shows "\<exists>x1 y1 k1. sf_at s1 h = Some x1 \<and> sf_pedigree x1 = wk_pedigree k \<and>
    CILK_FRAME_VERSION_VALUE (sf_flags x1) = CILK_FRAME_VERSION_VALUE (sf_flags x) \<and>
    sf_at s1 (sf_call_parent x) = Some y1 \<and> sf_pedigree y1 = wk_pedigree k \<and>
    wk_at s1 w = Some k1 \<and> wk_pedigree k1 = \<lparr>pd_rank = 1, pd_parent = Ped_Frame h\<rparr>"
proof -
  have n: "sf_at t q = None \<Longrightarrow> sf_mod q u t = None" for t q u by (simp add: sf_mod_def)
  obtain y where y: "sf_at s (sf_call_parent x) = Some y"
    using d k x n by (cases "sf_at s (sf_call_parent x)") (auto simp: detach_def Let_def)
  obtain D where D: "dq_at s (wk_tail k) = Some D"
    using d k x y by (cases "dq_at s (wk_tail k)") (auto simp: detach_def Let_def)
  show ?thesis using d k x y D
    by (auto simp: detach_def detach_store_def Let_def)
qed

section \<open>Resuming\<close>

lemma resume_pedigree:
  assumes j: "wk_at s v = Some j" "wk_current_stack_frame j = f" "f \<noteq> NULL"
    and y: "sf_at s f = Some y" "CILK_FRAME_VERSION_VALUE (sf_flags y) \<ge> 1"
    and why: "l_work_stolen (wk_l j) \<or> flag_set (sf_flags y) CILK_FRAME_SF_PEDIGREE_UNSYNCHED"
  shows "\<exists>s' j'. setup_for_execution_pedigree v s = Some s' \<and> wk_at s' v = Some j' \<and>
    wk_pedigree j' = bump (if l_work_stolen (wk_l j) then 1 else 0) (sf_pedigree y) \<and> \<not> l_work_stolen (wk_l j') \<and>
    (\<exists>y'. sf_at s' f = Some y' \<and> \<not> flag_set (sf_flags y') CILK_FRAME_SF_PEDIGREE_UNSYNCHED)"
proof -
  have v: "CILK_FRAME_VERSION_VALUE (sf_flags y) \<noteq> 0" using y(2) by auto
  have f: "\<not> flag_set (fl AND NOT CILK_FRAME_SF_PEDIGREE_UNSYNCHED) CILK_FRAME_SF_PEDIGREE_UNSYNCHED" for fl
    unfolding flag_set_def and.assoc by simp
  show ?thesis using j y v why f
    by (cases "l_work_stolen (wk_l j)") (simp_all add: setup_for_execution_pedigree_def bump_def l_mod_def Let_def)
qed

section \<open>Properties\<close>

text \<open>C36. The strand after a spawn has the same pedigree whether it stays or is stolen. The helper \<open>h\<close> of a spawn on
  worker \<open>w\<close> detaches. If later the child returns to its parent on \<open>w\<close>, or if instead a thief \<open>v\<close> resumes the parent's
  frame, with whatever in between that leaves the pedigree and version of the two frames alone, then both get the pedigree
  from before the spawn with the next rank. The child itself starts below the node of the helper, which holds that
  pedigree, with rank 1: that is what \<^verbatim>\<open>__cilkrts_detach\<close> sets (line 183 of \<^verbatim>\<open>cilk-abi.c\<close>), where the comment at line 333 of
  \<^verbatim>\<open>abi.h\<close> asks for 0.\<close>

theorem stolen_continuation_pedigree:
  assumes d: "detach w h s = Some s1" and k: "wk_at s w = Some k"
    and x: "sf_at s h = Some x" "sf_call_parent x = f" "f \<noteq> h" "f \<noteq> NULL" "CILK_FRAME_VERSION_VALUE (sf_flags x) \<ge> 1"
    and stays: "map_option sf_pedigree (sf_at s2 h) = map_option sf_pedigree (sf_at s1 h)"
      "map_option (CILK_FRAME_VERSION_VALUE \<circ> sf_flags) (sf_at s2 h) = map_option (CILK_FRAME_VERSION_VALUE \<circ> sf_flags) (sf_at s1 h)"
      "wk_at s2 w = Some k2"
    and stolen: "map_option sf_pedigree (sf_at s3 f) = map_option sf_pedigree (sf_at s1 f)"
      "sf_at s3 f = Some y" "CILK_FRAME_VERSION_VALUE (sf_flags y) \<ge> 1"
      "wk_at s3 v = Some j" "wk_current_stack_frame j = f" "l_work_stolen (wk_l j)"
  shows "\<exists>s2' s3' k2' j'. update_pedigree_on_leave_frame w h s2 = Some s2' \<and> wk_at s2' w = Some k2' \<and>
    setup_for_execution_pedigree v s3 = Some s3' \<and> wk_at s3' v = Some j' \<and>
    wk_pedigree k2' = bump 1 (wk_pedigree k) \<and> wk_pedigree j' = bump 1 (wk_pedigree k) \<and>
    (\<exists>k1 x1. wk_at s1 w = Some k1 \<and> wk_pedigree k1 = \<lparr>pd_rank = 1, pd_parent = Ped_Frame h\<rparr> \<and>
      sf_at s1 h = Some x1 \<and> sf_pedigree x1 = wk_pedigree k)"
proof -
  from detach_saves [OF d k x(1)] x(2,3) obtain x1 y1 k1 where s1: "sf_at s1 h = Some x1" "sf_pedigree x1 = wk_pedigree k"
    "CILK_FRAME_VERSION_VALUE (sf_flags x1) = CILK_FRAME_VERSION_VALUE (sf_flags x)"
    "sf_at s1 f = Some y1" "sf_pedigree y1 = wk_pedigree k" "wk_at s1 w = Some k1"
    "wk_pedigree k1 = \<lparr>pd_rank = 1, pd_parent = Ped_Frame h\<rparr>" by auto
  from stays s1 x(5) obtain x2 where x2: "sf_at s2 h = Some x2" "sf_pedigree x2 = wk_pedigree k"
    "CILK_FRAME_VERSION_VALUE (sf_flags x2) \<ge> 1" by auto
  have y: "sf_pedigree y = wk_pedigree k" using stolen(1,2) s1(4,5) by simp
  from resume_pedigree [OF stolen(4,5) x(4) stolen(2,3)] stolen(6) y obtain s3' j' where
    "setup_for_execution_pedigree v s3 = Some s3'" "wk_at s3' v = Some j'" "wk_pedigree j' = bump 1 (wk_pedigree k)" by auto
  moreover have "update_pedigree_on_leave_frame w h s2 = Some (put_wk w (k2\<lparr>wk_pedigree := bump 1 (wk_pedigree k)\<rparr>) s2)"
    using x2 stays(3) by (simp add: update_pedigree_on_leave_frame_def bump_def)
  ultimately show ?thesis using s1 by fastforce
qed

text \<open>Worker 1 runs helper 6 of a spawn of frame 5; worker 2 has stolen frame 5 and is about to resume it.\<close>

definition pedigree_example :: rts where
  "pedigree_example = (rts_with_worker 1 example_local)\<lparr>
     rt_wk := [1 \<mapsto> (example_worker example_local)\<lparr>wk_tail := 7, wk_current_stack_frame := 6\<rparr>,
       2 \<mapsto> (example_worker (example_local\<lparr>l_work_stolen := True\<rparr>))\<lparr>wk_current_stack_frame := 5\<rparr>],
     rt_dq := [7 \<mapsto> empty_deque 8],
     rt_sf := [5 \<mapsto> \<lparr>sf_flags = 0x1000000, sf_size = 0, sf_call_parent = 0, sf_worker = 0, sf_except_data = 0,
        sf_ctx_sp = 0, sf_ctx_fp = 0, sf_reserved = 0, sf_pedigree = no_pedigree\<rparr>,
       6 \<mapsto> \<lparr>sf_flags = 0x1000000, sf_size = 0, sf_call_parent = 5, sf_worker = 0, sf_except_data = 0,
        sf_ctx_sp = 0, sf_ctx_fp = 0, sf_reserved = 0, sf_pedigree = no_pedigree\<rparr>]\<rparr>"

definition ped_frame :: "ptr \<Rightarrow> stack_frame" where
  "ped_frame par = \<lparr>sf_flags = 0x1000000, sf_size = 0, sf_call_parent = par, sf_worker = 0, sf_except_data = 0,
        sf_ctx_sp = 0, sf_ctx_fp = 0, sf_reserved = 0, sf_pedigree = no_pedigree\<rparr>"

lemma pedigree_example_at:
  "sf_at pedigree_example 6 = Some (ped_frame 5)" "sf_at pedigree_example 5 = Some (ped_frame 0)"
  "wk_at pedigree_example 1 = Some ((example_worker example_local)\<lparr>wk_tail := 7, wk_current_stack_frame := 6\<rparr>)"
  "wk_at pedigree_example 2 = Some ((example_worker (example_local\<lparr>l_work_stolen := True\<rparr>))\<lparr>wk_current_stack_frame := 5\<rparr>)"
  "dq_at pedigree_example 7 = Some (empty_deque 8)"
  by (simp_all add: pedigree_example_def sf_at_def wk_at_def dq_at_def ped_frame_def)

theorem stolen_continuation_pedigree_witness:
  "\<exists>s1 s2 s3 k j. detach 1 6 pedigree_example = Some s1 \<and> update_pedigree_on_leave_frame 1 6 s1 = Some s2 \<and> wk_at s2 1 = Some k \<and>
    setup_for_execution_pedigree 2 s1 = Some s3 \<and> wk_at s3 2 = Some j \<and> wk_pedigree k = wk_pedigree j"
proof -
  let ?k = "(example_worker example_local)\<lparr>wk_tail := 7, wk_current_stack_frame := 6\<rparr>"
  let ?j = "(example_worker (example_local\<lparr>l_work_stolen := True\<rparr>))\<lparr>wk_current_stack_frame := 5\<rparr>"
  obtain s1 y k1 where s1: "detach 1 6 pedigree_example = Some s1" "sf_at s1 5 = Some y" "sf_flags y = 0x1000000"
    "wk_at s1 2 = Some ?j" "wk_at s1 1 = Some k1"
    using pedigree_example_at pedigree_example_at(3) [simplified]
    by (simp add: detach_def detach_store_def ped_frame_def) (simp add: example_worker_def empty_deque_def)
  have v: "CILK_FRAME_VERSION_VALUE (sf_flags y) \<ge> 1" "CILK_FRAME_VERSION_VALUE (sf_flags (ped_frame 5)) \<ge> 1"
    using s1(3) by (simp_all add: ped_frame_def)
  have c: "sf_call_parent (ped_frame 5) = 5" "(5::nat) \<noteq> 6" "(5::nat) \<noteq> NULL" "wk_current_stack_frame ?j = 5"
    "l_work_stolen (wk_l ?j)" by (simp_all add: ped_frame_def example_worker_def)
  from stolen_continuation_pedigree [OF s1(1) pedigree_example_at(3,1) c(1-3) v(2) refl refl s1(5) refl s1(2) v(1) s1(4) c(4,5)]
  show ?thesis
  proof (elim exE conjE)
    fix s2 s3 k j
    assume "update_pedigree_on_leave_frame 1 6 s1 = Some s2" "wk_at s2 1 = Some k"
      "setup_for_execution_pedigree 2 s1 = Some s3" "wk_at s3 2 = Some j"
      "wk_pedigree k = bump 1 (wk_pedigree ?k)" "wk_pedigree j = bump 1 (wk_pedigree ?k)"
    then show ?thesis using s1(1) by (intro exI [of _ s1] exI [of _ s2] exI [of _ s3] exI [of _ k] exI [of _ j]) simp
  qed
qed

lemma participant_stalled:
  assumes "participant_after s s1 w (Stalls z)" "sf_at s z = Some x" "wk_at s w = Some k"
    "CILK_FRAME_VERSION_VALUE (sf_flags x) \<ge> 1"
  shows "\<exists>x1. sf_at s1 z = Some x1 \<and> CILK_FRAME_VERSION_VALUE (sf_flags x1) \<ge> 1 \<and> sf_pedigree x1 = wk_pedigree k \<and> flag_set (sf_flags x1) CILK_FRAME_SF_PEDIGREE_UNSYNCHED"
  using assms by auto

text \<open>A sync passes the pedigree on. Worker \<open>w\<close> stalls at the sync of a frame. Whoever resumes the frame
  later, \<open>w\<close> itself or another worker \<open>v\<close>, not by a steal and with the stack frame's pedigree, version and mark as the
  stall left them, gets the pedigree that \<open>w\<close> had, and after the update for the sync the one that \<open>w\<close> would have had if
  the sync had been trivial.\<close>

theorem sync_pedigree:
  assumes r: "ready_to_join s p (Stalls z) w" and k: "wk_at s w = Some k" and x: "sf_at s z = Some x"
      "CILK_FRAME_VERSION_VALUE (sf_flags x) \<ge> 1" "z \<noteq> NULL"
    and a: "arrive p (Stalls z) w s = Some s1"
    and later: "sf_at s2 z = Some x2" "map_option sf_pedigree (sf_at s1 z) = Some (sf_pedigree x2)"
      "CILK_FRAME_VERSION_VALUE (sf_flags x2) \<ge> 1"
      "map_option (\<lambda>f. flag_set (sf_flags f) CILK_FRAME_SF_PEDIGREE_UNSYNCHED) (sf_at s1 z) =
        Some (flag_set (sf_flags x2) CILK_FRAME_SF_PEDIGREE_UNSYNCHED)"
      "wk_at s2 v = Some j" "wk_current_stack_frame j = z" "\<not> l_work_stolen (wk_l j)"
  shows "\<exists>s3 j3 x3. setup_for_execution_pedigree v s2 = Some s3 \<and> wk_at s3 v = Some j3 \<and> wk_pedigree j3 = wk_pedigree k \<and>
    sf_at s3 z = Some x3 \<and> \<not> flag_set (sf_flags x3) CILK_FRAME_SF_PEDIGREE_UNSYNCHED \<and>
    map_option (\<lambda>k. wk_pedigree k) (Option.bind (update_pedigree_after_sync w z s) (\<lambda>s. wk_at s w)) = Some (bump 1 (wk_pedigree j3))"
proof -
  from r obtain P where P: "ff_at s p = Some P" by (auto simp: ready_to_join_def)
  from arrival_spec [OF r P] a have "participant_after s s1 w (Stalls z)" by auto
  from participant_stalled [OF this x(1) k x(2)] obtain x1 where x1: "sf_at s1 z = Some x1" "sf_pedigree x1 = wk_pedigree k"
    "flag_set (sf_flags x1) CILK_FRAME_SF_PEDIGREE_UNSYNCHED" by blast
  have x2: "sf_pedigree x2 = wk_pedigree k" "flag_set (sf_flags x2) CILK_FRAME_SF_PEDIGREE_UNSYNCHED"
    using later(2,4) x1 by simp_all
  from resume_pedigree [OF later(5,6) x(3) later(1,3) disjI2 [OF x2(2)]] later(7) x2(1) obtain s3 j3 x3 where
    s3: "setup_for_execution_pedigree v s2 = Some s3" "wk_at s3 v = Some j3" "wk_pedigree j3 = wk_pedigree k"
      "sf_at s3 z = Some x3" "\<not> flag_set (sf_flags x3) CILK_FRAME_SF_PEDIGREE_UNSYNCHED" by auto
  have "map_option (\<lambda>k. wk_pedigree k) (Option.bind (update_pedigree_after_sync w z s) (\<lambda>s. wk_at s w)) = Some (bump 1 (wk_pedigree j3))"
    using k x(1,2) s3(3) by (simp add: update_pedigree_after_sync_def bump_def)
  with s3 show ?thesis by blast
qed

theorem sync_pedigree_witness:
  "\<exists>s1 s3 j3. arrive 3 (Stalls 5) 1 (join_example 1) = Some s1 \<and>
    setup_for_execution_pedigree 1 (put_wk 1 (example_worker example_local\<lparr>wk_current_stack_frame := 5\<rparr>) s1) = Some s3 \<and>
    wk_at s3 1 = Some j3 \<and> wk_pedigree j3 = \<lparr>pd_rank = 1, pd_parent = Ped_Null\<rparr>"
proof -
  let ?k = "example_worker (example_local\<lparr>l_frame_ff := 7\<rparr>)" and ?j = "example_worker example_local\<lparr>wk_current_stack_frame := 5\<rparr>"
  have r: "ready_to_join (join_example 1) 3 (Stalls 5) 1" by (rule join_example_ready) simp
  obtain s1 where s1: "arrive 3 (Stalls 5) 1 (join_example 1) = Some s1"
    "participant_after (join_example 1) s1 1 (Stalls 5)" using arrival_spec [OF r join_example_at(4)] by blast
  let ?s2 = "put_wk 1 ?j s1"
  from participant_stalled [OF s1(2) join_example_at(6,1)] obtain x1 where x1: "sf_at s1 5 = Some x1"
    "CILK_FRAME_VERSION_VALUE (sf_flags x1) \<ge> 1"
    by (auto simp: CILK_FRAME_VERSION_VALUE_def CILK_FRAME_VERSION_MASK_def)
  have j: "wk_at ?s2 1 = Some ?j" "sf_at ?s2 5 = Some x1" "wk_current_stack_frame ?j = 5" "\<not> l_work_stolen (wk_l ?j)"
    "map_option sf_pedigree (sf_at s1 5) = Some (sf_pedigree x1)" "(5::nat) \<noteq> NULL"
    "map_option (\<lambda>f. flag_set (sf_flags f) CILK_FRAME_SF_PEDIGREE_UNSYNCHED) (sf_at s1 5) =
      Some (flag_set (sf_flags x1) CILK_FRAME_SF_PEDIGREE_UNSYNCHED)"
    using x1(1) by (simp_all add: example_worker_def example_local_def)
  have v: "CILK_FRAME_VERSION_VALUE (0x01000003 :: 32 word) \<ge> 1"
    by (simp add: CILK_FRAME_VERSION_VALUE_def CILK_FRAME_VERSION_MASK_def)
  from sync_pedigree [OF r join_example_at(1,6) _ j(6) s1(1) j(2,5) x1(2) j(7,1,3,4)] v
  obtain s3 j3 where "setup_for_execution_pedigree 1 ?s2 = Some s3" "wk_at s3 1 = Some j3" "wk_pedigree j3 = wk_pedigree ?k"
    by (auto simp del: One_nat_def)
  then show ?thesis using s1(1) by (intro exI [of _ s1] exI [of _ s3] exI [of _ j3]) (simp add: example_worker_def)
qed

end
