(* ===== verification/Reducer_Table.thy ===== *)
theory Reducer_Table
  imports Reducer_Map Frame_Malloc "HOL-Library.Word"
begin

text \<open>
  The hash table of a reducer map, \<^verbatim>\<open>struct cilkred_map\<close> of \<^verbatim>\<open>reducer_impl.cpp\<close>, which \<^theory_text>\<open>Rt_State\<close> has as
  a list: the buckets and their null-terminated element arrays, hashing, growing, rehashing, and the
  operations a program's reducers call. Keys, hyperobjects and views are addresses; null is 0. A place in the table is
  the bucket's index and the index in its array. An access outside the array, a failed assertion and a
  reported error are None.
\<close>

unbundle bit_operations_syntax

type_synonym address = "64 word"

record elem =
  e_key :: address
  e_hb :: address
  e_view :: address

record bucket =
  b_nmax :: nat
  b_el :: "elem list"

record cilkred_map =
  cm_nelem :: nat
  cm_nbuckets :: nat
  cm_buckets :: "bucket option list"
  cm_merging :: bool
  cm_is_leftmost :: bool

section \<open>Buckets\<close>

text \<open>The field offsets are those of the 64-bit ABI: \<open>nmax\<close>, then elements of three pointers, one of which the struct declares.\<close>

definition sizeof_bucket :: "nat \<Rightarrow> nat" where
  "sizeof_bucket nmax = 32 + nmax * 24"

definition roundup :: "nat \<Rightarrow> nat proc" where
  "roundup nmax = do { sz \<leftarrow> frame_malloc_roundup (sizeof_bucket nmax); Some ((sz - 32) div 24) }"

text \<open>A free slot has a null key; its other fields are never read and taken to be null as well.\<close>

definition no_elem :: elem where
  "no_elem = \<lparr>e_key = 0, e_hb = 0, e_view = 0\<rparr>"

fun empty_slot :: "nat \<Rightarrow> nat \<Rightarrow> elem list \<Rightarrow> nat option" where
  "empty_slot nmax i [] = None"
| "empty_slot nmax i (e # es) =
     (if nmax \<le> i then None else if e_key e = 0 then Some i else empty_slot nmax (Suc i) es)"

definition new_bucket :: "nat \<Rightarrow> elem list \<Rightarrow> (nat \<times> bucket) proc" where
  "new_bucket nmax els = do {
     nnmax \<leftarrow> roundup (2 * nmax);
     Some (nmax, \<lparr>b_nmax = nnmax, b_el = take nmax els @ replicate (nnmax - nmax) no_elem @ [no_elem]\<rparr>) }"

definition cm_grow :: "bucket option \<Rightarrow> (nat \<times> bucket) proc" where
  "cm_grow bp = (case bp of
     Some b \<Rightarrow> (case empty_slot (b_nmax b) 0 (b_el b) of
       Some i \<Rightarrow> Some (i, b) | None \<Rightarrow> new_bucket (b_nmax b) (b_el b))
   | None \<Rightarrow> new_bucket 0 [])"

text \<open>The loop \<^verbatim>\<open>for (el = b->el; el->key; ++el)\<close>.\<close>

definition bucket_elems :: "bucket option \<Rightarrow> elem list" where
  "bucket_elems bp = (case bp of None \<Rightarrow> [] | Some b \<Rightarrow> takeWhile (\<lambda>e. e_key e \<noteq> 0) (b_el b))"

fun find_key :: "address \<Rightarrow> nat \<Rightarrow> elem list \<Rightarrow> nat option proc" where
  "find_key key i [] = None"
| "find_key key i (e # es) =
     (if e_key e = 0 then Some None
      else if e_key e = key then do { assert_c (e_view e \<noteq> 0); Some (Some i) }
      else find_key key (Suc i) es)"

text \<open>The loop that removes an element by moving the rest of the array, with its null key, down by one.\<close>

fun shift_down :: "elem list \<Rightarrow> elem list proc" where
  "shift_down (e0 # e1 # es) =
     (if e_key e1 \<noteq> 0 then do { rest \<leftarrow> shift_down (e1 # es); Some (e1 # rest) } else Some (e1 # e1 # es))"
| "shift_down _ = None"

section \<open>The table\<close>

definition is_power_of_2 :: "address \<Rightarrow> bool" where
  "is_power_of_2 n \<longleftrightarrow> n AND (n - 1) = 0"

definition make_buckets :: "nat \<Rightarrow> cilkred_map \<Rightarrow> cilkred_map proc" where
  "make_buckets n h = do {
     assert_c (is_power_of_2 (of_nat n));
     Some (h\<lparr>cm_nbuckets := n, cm_buckets := replicate n None, cm_nelem := 0\<rparr>) }"

definition minsz :: "nat \<Rightarrow> nat" where "minsz n = 1 + n + n div 8"
definition nextsz :: "nat \<Rightarrow> nat" where "nextsz n = 2 * n"

definition need_rehash_p :: "cilkred_map \<Rightarrow> bool" where
  "need_rehash_p h \<longleftrightarrow> cm_nbuckets h < minsz (cm_nelem h)"

definition hashfun :: "cilkred_map \<Rightarrow> address \<Rightarrow> nat" where
  "hashfun h key = (let k = key; k = k XOR drop_bit 21 k; k = k XOR drop_bit 8 k; k = k XOR drop_bit 3 k
     in unat (k AND (of_nat (cm_nbuckets h) - 1)))"

definition bucket_at :: "cilkred_map \<Rightarrow> nat \<Rightarrow> bucket option proc" where
  "bucket_at h i = (if i < length (cm_buckets h) then Some (cm_buckets h ! i) else None)"

definition put_elem :: "nat \<Rightarrow> nat \<Rightarrow> bucket \<Rightarrow> elem \<Rightarrow> cilkred_map \<Rightarrow> cilkred_map" where
  "put_elem i j b e h = h\<lparr>cm_buckets := (cm_buckets h)[i := Some (b\<lparr>b_el := (b_el b)[j := e]\<rparr>)]\<rparr>"

definition insert_no_rehash :: "elem \<Rightarrow> cilkred_map \<Rightarrow> ((nat \<times> nat) \<times> cilkred_map) proc" where
  "insert_no_rehash e h = do {
     assert_c (e_key e \<noteq> 0);
     assert_c (e_view e \<noteq> 0);
     let i = hashfun h (e_key e);
     bp \<leftarrow> bucket_at h i;
     (j, b) \<leftarrow> cm_grow bp;
     assert_c (j < length (b_el b));
     let h = put_elem i j b e h;
     Some ((i, j), h\<lparr>cm_nelem := cm_nelem h + 1\<rparr>) }"

definition insert_elem :: "elem \<Rightarrow> cilkred_map \<Rightarrow> cilkred_map proc" where
  "insert_elem e h = do { (at, h) \<leftarrow> insert_no_rehash e h; Some h }"

primrec for_each :: "('e \<Rightarrow> 't \<Rightarrow> 't proc) \<Rightarrow> 'e list \<Rightarrow> 't \<Rightarrow> 't proc" where
  "for_each f [] t = Some t"
| "for_each f (e # es) t = do { t \<leftarrow> f e t; for_each f es t }"

definition all_elems :: "cilkred_map \<Rightarrow> elem list" where
  "all_elems h = concat (map bucket_elems (cm_buckets h))"

definition rehash :: "cilkred_map \<Rightarrow> cilkred_map proc" where
  "rehash h = do {
     let old = h;
     h \<leftarrow> make_buckets (nextsz (cm_nbuckets h)) h;
     h \<leftarrow> for_each insert_elem (all_elems old) h;
     assert_c (cm_nelem h = cm_nelem old);
     Some h }"

definition rehash_and_insert :: "elem \<Rightarrow> cilkred_map \<Rightarrow> ((nat \<times> nat) \<times> cilkred_map) proc" where
  "rehash_and_insert e h = do {
     h \<leftarrow> (if need_rehash_p h then rehash h else Some h);
     insert_no_rehash e h }"

definition cm_lookup :: "address \<Rightarrow> cilkred_map \<Rightarrow> (nat \<times> nat) option proc" where
  "cm_lookup key h = do {
     let i = hashfun h key;
     bp \<leftarrow> bucket_at h i;
     (case bp of None \<Rightarrow> Some None
      | Some b \<Rightarrow> do { r \<leftarrow> find_key key 0 (b_el b); Some (map_option (Pair i) r) }) }"

definition elem_at :: "cilkred_map \<Rightarrow> nat \<times> nat \<Rightarrow> elem" where
  "elem_at h at = (case cm_buckets h ! fst at of None \<Rightarrow> no_elem | Some b \<Rightarrow> b_el b ! snd at)"

definition elem_is_leftmost :: "elem \<Rightarrow> bool" where
  "elem_is_leftmost e \<longleftrightarrow> e_key e = e_view e"

definition remove_at :: "nat \<times> nat \<Rightarrow> cilkred_map \<Rightarrow> cilkred_map proc" where
  "remove_at at h = (case cm_buckets h ! fst at of None \<Rightarrow> None
   | Some b \<Rightarrow> do {
       es \<leftarrow> shift_down (drop (snd at) (b_el b));
       Some (h\<lparr>cm_buckets := (cm_buckets h)[fst at := Some (b\<lparr>b_el := take (snd at) (b_el b) @ es\<rparr>)],
              cm_nelem := cm_nelem h - 1\<rparr>) })"

definition make_reducer_map :: "cilkred_map proc" where
  "make_reducer_map = make_buckets 1 \<lparr>cm_nelem = 0, cm_nbuckets = 0, cm_buckets = [], cm_merging = False, cm_is_leftmost = False\<rparr>"

definition set_leftmost_reducer_map :: "bool \<Rightarrow> cilkred_map \<Rightarrow> cilkred_map" where
  "set_leftmost_reducer_map b h = h\<lparr>cm_is_leftmost := b\<rparr>"

text \<open>The views \<^verbatim>\<open>__cilkrts_destroy_reducer_map\<close> hands to the reducers' destroy functions.\<close>

definition destroyed_views :: "cilkred_map \<Rightarrow> address list" where
  "destroyed_views h = map e_view (filter (\<lambda>e. e_view e \<noteq> 0 \<and> \<not> elem_is_leftmost e) (all_elems h))"

definition check_map :: "bool \<Rightarrow> cilkred_map \<Rightarrow> unit proc" where
  "check_map allow_null_view h = do {
     assert_c (\<forall>e \<in> set (all_elems h). allow_null_view \<or> e_view e \<noteq> 0);
     assert_c (cm_nelem h = length (all_elems h)) }"

section \<open>The operations of a reducer\<close>

text \<open>
  The calling worker's \<^verbatim>\<open>reducer_map\<close> is an argument, None if it has none. \<open>fresh\<close> is what the monoid's allocate
  function returns, a new view that the identity function then fills. The debugging switch
  \<^verbatim>\<open>force_reduce\<close> is off.
\<close>

record hyperobject =
  hy_addr :: address
  hy_view_offset :: address

definition get_hyperobject_key :: "hyperobject \<Rightarrow> address" where
  "get_hyperobject_key hb = hy_addr hb + hy_view_offset hb"

definition worker_map :: "cilkred_map option \<Rightarrow> cilkred_map proc" where
  "worker_map rm = (case rm of None \<Rightarrow> make_reducer_map | Some h \<Rightarrow> Some h)"

definition hyper_create :: "hyperobject \<Rightarrow> cilkred_map option \<Rightarrow> cilkred_map proc" where
  "hyper_create hb rm = do {
     let key = get_hyperobject_key hb;
     h \<leftarrow> worker_map rm;
     found \<leftarrow> cm_lookup key h;
     assert_c (found = None);
     assert_c (\<not> cm_merging h);
     (at, h) \<leftarrow> rehash_and_insert \<lparr>e_key = key, e_hb = hy_addr hb, e_view = key\<rparr> h;
     Some h }"

definition hyper_lookup :: "address \<Rightarrow> hyperobject \<Rightarrow> cilkred_map option \<Rightarrow> (address \<times> cilkred_map) proc" where
  "hyper_lookup fresh hb rm = do {
     let key = get_hyperobject_key hb;
     h \<leftarrow> worker_map rm;
     assert_c (\<not> cm_merging h);
     el \<leftarrow> cm_lookup key h;
     (case el of Some at \<Rightarrow> Some (e_view (elem_at h at), h)
      | None \<Rightarrow> do {
          let rep = (if cm_is_leftmost h then key else fresh);
          (at, h) \<leftarrow> rehash_and_insert \<lparr>e_key = key, e_hb = hy_addr hb, e_view = rep\<rparr> h;
          Some (e_view (elem_at h at), h) }) }"

definition hyper_destroy :: "hyperobject \<Rightarrow> cilkred_map option \<Rightarrow> cilkred_map proc" where
  "hyper_destroy hb rm = (case rm of None \<Rightarrow> None
   | Some h \<Rightarrow> do {
       assert_c (\<not> cm_merging h);
       el \<leftarrow> cm_lookup (get_hyperobject_key hb) h;
       (case el of None \<Rightarrow> None
        | Some at \<Rightarrow> do {
            assert_c (elem_is_leftmost (elem_at h at));
            remove_at at h }) })"

section \<open>Buckets keep their elements in front\<close>

definition bucket_ok :: "bucket option \<Rightarrow> bool" where
  "bucket_ok bp = (case bp of None \<Rightarrow> True
   | Some b \<Rightarrow> length (b_el b) = b_nmax b + 1 \<and> length (bucket_elems bp) \<le> b_nmax b \<and>
       (\<forall>e \<in> set (drop (length (bucket_elems bp)) (b_el b)). e_key e = 0))"

lemma no_elem_key [simp]: "e_key no_elem = 0"
  by (simp add: no_elem_def)

lemma bucket_elems_None [simp]: "bucket_elems None = []"
  by (simp add: bucket_elems_def)

lemma bucket_elems_append:
  "b_el b = es @ fs \<Longrightarrow> \<forall>e \<in> set es. e_key e \<noteq> 0 \<Longrightarrow> fs \<noteq> [] \<Longrightarrow> \<forall>e \<in> set fs. e_key e = 0
    \<Longrightarrow> bucket_elems (Some b) = es"
  by (cases fs) (simp_all add: bucket_elems_def)

lemma bucket_okI:
  assumes "b_el b = es @ fs" "\<forall>e \<in> set es. e_key e \<noteq> 0" "fs \<noteq> []" "\<forall>e \<in> set fs. e_key e = 0"
    and "length es + length fs = b_nmax b + 1"
  shows "bucket_ok (Some b)" "bucket_elems (Some b) = es"
proof -
  have e: "bucket_elems (Some b) = es" using assms(1-4) by (rule bucket_elems_append)
  moreover have "0 < length fs" using assms(3) by simp
  then have "length es \<le> b_nmax b" using assms(5) by linarith
  ultimately show "bucket_ok (Some b)" using assms by (simp add: bucket_ok_def)
  show "bucket_elems (Some b) = es" by (rule e)
qed

lemma bucket_elems_nonzero: "e \<in> set (bucket_elems bp) \<Longrightarrow> e_key e \<noteq> 0"
  by (auto simp: bucket_elems_def split: option.splits dest: set_takeWhileD)

lemma bucket_okE:
  assumes "bucket_ok (Some b)"
  obtains fs where "b_el b = bucket_elems (Some b) @ fs" "fs \<noteq> []" "\<forall>e \<in> set fs. e_key e = 0"
    "length (bucket_elems (Some b)) + length fs = b_nmax b + 1"
proof -
  let ?es = "bucket_elems (Some b)"
  have a: "b_el b = ?es @ drop (length ?es) (b_el b)"
    by (simp add: bucket_elems_def dropWhile_eq_drop [symmetric])
  show thesis
  proof (rule that [OF a])
    show "drop (length ?es) (b_el b) \<noteq> []" using assms by (simp add: bucket_ok_def)
  qed (use assms in \<open>simp_all add: bucket_ok_def\<close>)
qed

lemma empty_slot_skip:
  "\<forall>e \<in> set es. e_key e \<noteq> 0 \<Longrightarrow> \<forall>e \<in> set fs. e_key e = 0 \<Longrightarrow> fs \<noteq> []
    \<Longrightarrow> empty_slot nmax i (es @ fs) = (if i + length es < nmax then Some (i + length es) else None)"
proof (induction es arbitrary: i)
  case Nil
  then show ?case by (cases fs) auto
next
  case (Cons e es)
  then show ?case by auto
qed

text \<open>A new bucket has room: the first holds one element, a full one is replaced by one of more than twice the payload.\<close>

lemma roundup_room: "\<exists>n. roundup (2 * nmax) = Some n \<and> nmax < n"
proof -
  have "\<exists>sz. frame_malloc_roundup (sizeof_bucket (2 * nmax)) = Some sz \<and> sizeof_bucket (2 * nmax) \<le> sz \<and> 56 \<le> sz"
    by (cases "nmax = 0")
      (auto simp: frame_malloc_roundup_def sizeof_bucket_def FRAME_MALLOC_MAX_SIZE_def bucket_of_size_def
        bucket_sizes_def bucket_to_size_def)
  then obtain sz where sz: "frame_malloc_roundup (sizeof_bucket (2 * nmax)) = Some sz"
    "sizeof_bucket (2 * nmax) \<le> sz" "56 \<le> sz" by auto
  have "nmax < (sz - 32) div 24"
  proof (cases "nmax = 0")
    case True
    then show ?thesis using sz(3) by simp
  next
    case False
    have "2 * nmax * 24 \<le> sz - 32" using sz(2) by (simp add: sizeof_bucket_def)
    then have "2 * nmax \<le> (sz - 32) div 24" by (simp add: less_eq_div_iff_mult_less_eq)
    then show ?thesis using False by linarith
  qed
  then show ?thesis using sz(1) by (simp add: roundup_def)
qed

definition room_after :: "elem list \<Rightarrow> bucket \<Rightarrow> bool" where
  "room_after es b \<longleftrightarrow> (\<exists>f fs. b_el b = es @ f # fs \<and> fs \<noteq> [] \<and> (\<forall>e \<in> set fs. e_key e = 0) \<and>
     length es + Suc (length fs) = b_nmax b + 1)"

lemma new_bucket_room:
  assumes "take nmax els = es" "length es = nmax"
  shows "\<exists>b. new_bucket nmax els = Some (length es, b) \<and> room_after es b"
proof -
  obtain n where n: "roundup (2 * nmax) = Some n" "nmax < n" using roundup_room by blast
  then obtain d where d: "n - nmax = Suc d" "n = nmax + Suc d" by (metis Suc_diff_Suc less_imp_add_positive add_diff_cancel_left' gr0_conv_Suc)
  show ?thesis using assms n(1) d
    by (auto simp: new_bucket_def room_after_def intro!: exI [of _ no_elem] exI [of _ "replicate d no_elem @ [no_elem]"])
qed

lemma put_room:
  assumes nz: "\<forall>e \<in> set es. e_key e \<noteq> 0" and e: "e_key e \<noteq> 0" and r: "room_after es b"
  shows "length es < length (b_el b)" "bucket_ok (Some (b\<lparr>b_el := (b_el b)[length es := e]\<rparr>))"
    "bucket_elems (Some (b\<lparr>b_el := (b_el b)[length es := e]\<rparr>)) = es @ [e]"
proof -
  obtain f fs where b: "b_el b = es @ f # fs" "fs \<noteq> []" "\<forall>e \<in> set fs. e_key e = 0"
    "length es + Suc (length fs) = b_nmax b + 1" using r by (auto simp: room_after_def)
  let ?b = "b\<lparr>b_el := (b_el b)[length es := e]\<rparr>"
  have a: "b_el ?b = (es @ [e]) @ fs" "\<forall>e \<in> set (es @ [e]). e_key e \<noteq> 0"
    "length (es @ [e]) + length fs = b_nmax ?b + 1" using b nz e by auto
  show "length es < length (b_el b)" using b(1) by simp
  show "bucket_ok (Some ?b)" "bucket_elems (Some ?b) = es @ [e]"
    by (rule bucket_okI [OF a(1,2) b(2,3) a(3)])+
qed

lemma grow_room:
  assumes "bucket_ok bp"
  shows "\<exists>b. cm_grow bp = Some (length (bucket_elems bp), b) \<and> room_after (bucket_elems bp) b"
proof (cases bp)
  case None
  then show ?thesis using new_bucket_room [of 0 "[]" "[]"] by (simp add: cm_grow_def)
next
  case (Some b)
  let ?es = "bucket_elems bp"
  obtain fs where fs: "b_el b = ?es @ fs" "fs \<noteq> []" "\<forall>e \<in> set fs. e_key e = 0"
    "length ?es + length fs = b_nmax b + 1" using assms Some bucket_okE by blast
  have nz: "\<forall>e \<in> set ?es. e_key e \<noteq> 0" using bucket_elems_nonzero by blast
  have slot: "empty_slot (b_nmax b) 0 (b_el b) = (if length ?es < b_nmax b then Some (length ?es) else None)"
    unfolding fs(1) using empty_slot_skip [OF nz fs(3,2)] by simp
  show ?thesis
  proof (cases "length ?es < b_nmax b")
    case True
    then have "room_after ?es b" using fs by (cases fs) (auto simp: room_after_def)
    then show ?thesis using True Some slot by (simp add: cm_grow_def)
  next
    case False
    then have l: "length ?es = b_nmax b" using fs(2,4) by (cases fs) auto
    then have "take (b_nmax b) (b_el b) = ?es" using fs(1) by simp
    then show ?thesis using new_bucket_room [OF _ l] Some slot l by (simp add: cm_grow_def)
  qed
qed

lemma find_key_absent:
  "k \<notin> e_key ` set es \<Longrightarrow> \<forall>e \<in> set es. e_key e \<noteq> 0 \<Longrightarrow> fs \<noteq> [] \<Longrightarrow> \<forall>e \<in> set fs. e_key e = 0
    \<Longrightarrow> find_key k i (es @ fs) = Some None"
proof (induction es arbitrary: i)
  case Nil
  then show ?case by (cases fs) simp_all
qed auto

lemma find_key_present:
  "k \<notin> e_key ` set es \<Longrightarrow> \<forall>e \<in> set es. e_key e \<noteq> 0 \<Longrightarrow> e_key e = k \<Longrightarrow> k \<noteq> 0 \<Longrightarrow> e_view e \<noteq> 0
    \<Longrightarrow> find_key k i (es @ e # fs) = Some (Some (i + length es))"
  by (induction es arbitrary: i) (auto simp: assert_c_def)

lemma shift_down_append:
  "\<forall>e \<in> set es. e_key e \<noteq> 0 \<Longrightarrow> e_key f = 0 \<Longrightarrow> shift_down (e # es @ f # fs) = Some (es @ f # f # fs)"
  by (induction es arbitrary: e) auto

section \<open>The invariant of the table and the map it stands for\<close>

definition by_key :: "elem list \<Rightarrow> address \<Rightarrow> elem option" where
  "by_key es = map_of (map (\<lambda>e. (e_key e, e)) es)"

definition contents :: "cilkred_map \<Rightarrow> address \<Rightarrow> elem option" where
  "contents h = by_key (all_elems h)"

definition table_ok :: "cilkred_map \<Rightarrow> bool" where
  "table_ok h \<longleftrightarrow> length (cm_buckets h) = cm_nbuckets h \<and> (\<exists>n < 64. cm_nbuckets h = 2 ^ n) \<and>
     cm_nelem h = length (all_elems h) \<and>
     (\<forall>i < cm_nbuckets h. bucket_ok (cm_buckets h ! i) \<and> distinct (map e_key (bucket_elems (cm_buckets h ! i))) \<and>
        (\<forall>e \<in> set (bucket_elems (cm_buckets h ! i)). hashfun h (e_key e) = i \<and> e_view e \<noteq> 0))"

lemma hashfun_simps [simp]:
  "hashfun (h\<lparr>cm_buckets := bs\<rparr>) = hashfun h" "hashfun (h\<lparr>cm_nelem := n\<rparr>) = hashfun h"
  by (simp_all add: hashfun_def fun_eq_iff)

lemma unat_exp_less_64:
  assumes "n < 64"
  shows "unat (2 ^ n :: address) = 2 ^ n"
proof -
  have "(2 :: nat) ^ n < 2 ^ 64" using assms by (rule power_strict_increasing) simp
  moreover have "unat (of_nat (2 ^ n) :: address) = 2 ^ n mod 2 ^ 64" by (simp only: unat_of_nat) simp
  ultimately show ?thesis by (simp only: mod_less of_nat_power of_nat_numeral)
qed

lemma and_power_of_2:
  assumes "n < 64"
  shows "unat (k AND ((2 ^ n :: address) - 1)) < 2 ^ n"
proof -
  have "k AND (2 ^ n - 1) \<le> (2 ^ n - 1 :: address)" by (rule word_and_le1)
  then have "unat (k AND (2 ^ n - 1)) \<le> unat (2 ^ n - 1 :: address)" by (simp add: word_le_nat_alt)
  also have "\<dots> < 2 ^ n" using assms by (simp add: unat_minus_one unat_exp_less_64)
  finally show ?thesis .
qed

lemma hashfun_less: "table_ok h \<Longrightarrow> hashfun h k < cm_nbuckets h"
  by (auto simp: table_ok_def hashfun_def Let_def and_power_of_2)

lemma map_of_concat:
  "\<forall>i < length xss. \<forall>x \<in> set (xss ! i). g (fst x) = i \<Longrightarrow> g k < length xss
    \<Longrightarrow> map_of (concat xss) k = map_of (xss ! g k) k"
proof (induction xss rule: rev_induct)
  case (snoc ys xss)
  have a: "\<forall>i < length xss. \<forall>x \<in> set (xss ! i). g (fst x) = i"
    using snoc.prems(1) by (metis less_SucI length_append_singleton nth_append)
  have b: "\<forall>x \<in> set ys. g (fst x) = length xss" using snoc.prems(1) by (metis lessI length_append_singleton nth_append_length)
  show ?case
  proof (cases "g k = length xss")
    case True
    have "k \<notin> fst ` set (concat xss)"
    proof
      assume "k \<in> fst ` set (concat xss)"
      then obtain ys x where "ys \<in> set xss" "x \<in> set ys" "fst x = k" by auto
      then obtain i where "i < length xss" "x \<in> set (xss ! i)" "fst x = k" by (metis in_set_conv_nth)
      then show False using a True by auto
    qed
    then have "map_of (concat xss) k = None" by (simp add: map_of_eq_None_iff)
    then show ?thesis using True by (simp add: map_add_def split: option.splits)
  next
    case False
    have "k \<notin> fst ` set ys" using b False by auto
    then have "map_of ys k = None" by (simp add: map_of_eq_None_iff)
    then show ?thesis using False snoc.IH [OF a] snoc.prems(2) by (simp add: map_add_def nth_append split: option.splits)
  qed
qed simp

lemma contents_bucket:
  assumes "table_ok h"
  shows "contents h k = by_key (bucket_elems (cm_buckets h ! hashfun h k)) k"
proof -
  let ?kv = "map (\<lambda>e. (e_key e, e))"
  let ?xss = "map (\<lambda>b. ?kv (bucket_elems b)) (cm_buckets h)"
  have l: "length ?xss = cm_nbuckets h" using assms by (simp add: table_ok_def)
  have "map_of (concat ?xss) k = map_of (?xss ! hashfun h k) k"
    by (rule map_of_concat) (use assms l hashfun_less in \<open>auto simp: table_ok_def\<close>)
  moreover have "concat ?xss = ?kv (all_elems h)" by (simp add: all_elems_def map_concat comp_def)
  ultimately show ?thesis using hashfun_less [OF assms, of k] l by (simp add: contents_def by_key_def)
qed

lemma all_elems_update:
  assumes "i < length (cm_buckets h)"
  shows "length (all_elems (h\<lparr>cm_buckets := (cm_buckets h)[i := bp], cm_nelem := n\<rparr>)) + length (bucket_elems (cm_buckets h ! i)) =
    length (all_elems h) + length (bucket_elems bp)"
proof -
  let ?f = "\<lambda>b. length (bucket_elems b)"
  have "?f (cm_buckets h ! i) \<le> sum_list (map ?f (cm_buckets h))"
    using assms by (metis length_map nth_map elem_le_sum_list)
  then show ?thesis
    using assms sum_list_update [of i "map ?f (cm_buckets h)" "length (bucket_elems bp)"]
    by (simp add: all_elems_def length_concat comp_def map_update)
qed

lemma put_bucket:
  assumes ok: "table_ok h" and i: "i < cm_nbuckets h" and b: "bucket_ok bp" "distinct (map e_key (bucket_elems bp))"
    and e: "\<forall>e \<in> set (bucket_elems bp). hashfun h (e_key e) = i \<and> e_view e \<noteq> 0"
    and n: "n + length (bucket_elems (cm_buckets h ! i)) = cm_nelem h + length (bucket_elems bp)"
  shows "table_ok (h\<lparr>cm_buckets := (cm_buckets h)[i := bp], cm_nelem := n\<rparr>)"
    "contents (h\<lparr>cm_buckets := (cm_buckets h)[i := bp], cm_nelem := n\<rparr>) k =
      (if hashfun h k = i then by_key (bucket_elems bp) k else contents h k)"
proof -
  let ?h = "h\<lparr>cm_buckets := (cm_buckets h)[i := bp], cm_nelem := n\<rparr>"
  have l: "i < length (cm_buckets h)" using ok i by (simp add: table_ok_def)
  have "length (all_elems ?h) = n"
    using all_elems_update [OF l, where bp = bp and n = n] n ok by (simp add: table_ok_def)
  then show ok': "table_ok ?h" using ok b e i by (auto simp: table_ok_def nth_list_update)
  show "contents ?h k = (if hashfun h k = i then by_key (bucket_elems bp) k else contents h k)"
    using contents_bucket [OF ok', of k] contents_bucket [OF ok, of k] l by (simp add: nth_list_update)
qed

section \<open>Inserting, finding and removing an element\<close>

lemma by_key_None: "by_key es k = None \<longleftrightarrow> k \<notin> e_key ` set es"
  by (simp add: by_key_def map_of_eq_None_iff image_image)

lemma by_key_snoc: "e_key e \<notin> e_key ` set es \<Longrightarrow> by_key (es @ [e]) = (by_key es)(e_key e \<mapsto> e)"
  by (rule ext) (auto simp: by_key_None [symmetric], auto simp: by_key_def map_add_def split: option.splits)

lemma by_key_SomeD: "by_key es k = Some e \<Longrightarrow> e \<in> set es \<and> e_key e = k"
  by (auto simp: by_key_def dest: map_of_SomeD)

lemma table_bucket:
  assumes "table_ok h"
  shows "bucket_at h (hashfun h k) = Some (cm_buckets h ! hashfun h k)"
    "bucket_ok (cm_buckets h ! hashfun h k)" "distinct (map e_key (bucket_elems (cm_buckets h ! hashfun h k)))"
    "\<forall>e \<in> set (bucket_elems (cm_buckets h ! hashfun h k)). hashfun h (e_key e) = hashfun h k \<and> e_view e \<noteq> 0"
  using assms hashfun_less [OF assms, of k] by (simp_all add: table_ok_def bucket_at_def)

text \<open>The size parameters that insertion and removal leave alone.\<close>

definition same_frame :: "cilkred_map \<Rightarrow> cilkred_map \<Rightarrow> bool" where
  "same_frame h h' \<longleftrightarrow> cm_merging h' = cm_merging h \<and> cm_is_leftmost h' = cm_is_leftmost h"

lemma insert_no_rehash_ok:
  assumes ok: "table_ok h" and k: "e_key e \<noteq> 0" and v: "e_view e \<noteq> 0" and new: "contents h (e_key e) = None"
  shows "\<exists>at h'. insert_no_rehash e h = Some (at, h') \<and> table_ok h' \<and> contents h' = (contents h)(e_key e \<mapsto> e) \<and>
    cm_nelem h' = cm_nelem h + 1 \<and> cm_nbuckets h' = cm_nbuckets h \<and> same_frame h h' \<and> elem_at h' at = e"
proof -
  let ?i = "hashfun h (e_key e)" and ?es = "bucket_elems (cm_buckets h ! hashfun h (e_key e))"
  note tb = table_bucket [OF ok, of "e_key e"]
  obtain b where g: "cm_grow (cm_buckets h ! ?i) = Some (length ?es, b)" and r: "room_after ?es b"
    using grow_room [OF tb(2)] by blast
  have nz: "\<forall>e \<in> set ?es. e_key e \<noteq> 0" using bucket_elems_nonzero by blast
  note p = put_room [OF nz k r]
  let ?b = "Some (b\<lparr>b_el := (b_el b)[length ?es := e]\<rparr>)"
  let ?h = "h\<lparr>cm_buckets := (cm_buckets h)[?i := ?b], cm_nelem := cm_nelem h + 1\<rparr>"
  have absent: "e_key e \<notin> e_key ` set ?es" using new contents_bucket [OF ok, of "e_key e"] by (simp add: by_key_None)
  have d: "distinct (map e_key (bucket_elems ?b))" using tb(3) absent by (simp only: p(3)) simp
  have m: "\<forall>f \<in> set (bucket_elems ?b). hashfun h (e_key f) = ?i \<and> e_view f \<noteq> 0" using tb(4) v by (simp only: p(3)) auto
  have n: "cm_nelem h + 1 + length ?es = cm_nelem h + length (bucket_elems ?b)" by (simp only: p(3)) simp
  note put = put_bucket [OF ok hashfun_less [OF ok] p(2) d m n]
  have c: "contents ?h = (contents h)(e_key e \<mapsto> e)"
  proof
    fix k
    show "contents ?h k = ((contents h)(e_key e \<mapsto> e)) k"
      using put(2) [of k] contents_bucket [OF ok, of k] absent
      by (cases "hashfun h k = ?i") (auto simp: p(3) by_key_snoc)
  qed
  have l: "?i < length (cm_buckets h)" using hashfun_less [OF ok] ok by (simp add: table_ok_def)
  have "insert_no_rehash e h = Some ((?i, length ?es), ?h)"
    using k v p(1) tb(1) g by (simp add: insert_no_rehash_def put_elem_def Let_def)
  moreover have "elem_at ?h (?i, length ?es) = e" using p(1) l by (simp add: elem_at_def)
  ultimately show ?thesis using put(1) c by (auto simp: same_frame_def)
qed

lemma lookup_ok:
  assumes ok: "table_ok h" and k: "k \<noteq> 0"
  shows "case contents h k of None \<Rightarrow> cm_lookup k h = Some None
    | Some e \<Rightarrow> \<exists>es fs b. cm_lookup k h = Some (Some (hashfun h k, length es)) \<and> elem_at h (hashfun h k, length es) = e \<and>
        cm_buckets h ! hashfun h k = Some b \<and> bucket_elems (Some b) = es @ e # fs \<and> e_key e = k"
proof -
  let ?bp = "cm_buckets h ! hashfun h k"
  note tb = table_bucket [OF ok, of k]
  have nz: "\<forall>e \<in> set (bucket_elems ?bp). e_key e \<noteq> 0" using bucket_elems_nonzero by blast
  have c: "contents h k = by_key (bucket_elems ?bp) k" by (rule contents_bucket [OF ok])
  show ?thesis
  proof (cases ?bp)
    case None
    then show ?thesis using c tb(1) by (simp add: cm_lookup_def by_key_def)
  next
    case (Some b)
    obtain fs where fs: "b_el b = bucket_elems (Some b) @ fs" "fs \<noteq> []" "\<forall>e \<in> set fs. e_key e = 0"
      using tb(2) Some bucket_okE by metis
    show ?thesis
    proof (cases "contents h k")
      case None
      then have "k \<notin> e_key ` set (bucket_elems (Some b))" using c Some by (simp add: by_key_None)
      then have "find_key k 0 (b_el b) = Some None" using find_key_absent [of k _ fs] fs nz Some by metis
      then show ?thesis using None Some tb(1) by (simp add: cm_lookup_def)
    next
      case (Some e)
      then have e: "e \<in> set (bucket_elems (Some b))" "e_key e = k" using c \<open>?bp = Some b\<close> by_key_SomeD by force+
      then obtain es gs where s: "bucket_elems (Some b) = es @ e # gs" by (meson split_list)
      have "distinct (map e_key (es @ e # gs))" using tb(3) \<open>?bp = Some b\<close> s by simp
      then have "k \<notin> e_key ` set es" using e(2) by auto
      moreover have "\<forall>e \<in> set es. e_key e \<noteq> 0" "e_view e \<noteq> 0" using nz tb(4) \<open>?bp = Some b\<close> s by simp_all
      moreover have b: "b_el b = es @ e # gs @ fs" using fs(1) s by simp
      ultimately have "find_key k 0 (b_el b) = Some (Some (length es))"
        using find_key_present [of k es e 0 "gs @ fs"] e(2) k by simp
      then have "cm_lookup k h = Some (Some (hashfun h k, length es))" "elem_at h (hashfun h k, length es) = e"
        using \<open>?bp = Some b\<close> tb(1) b by (simp_all add: cm_lookup_def elem_at_def)
      then show ?thesis unfolding Some option.case using \<open>?bp = Some b\<close> s e(2) by blast
    qed
  qed
qed

lemma remove_ok:
  assumes ok: "table_ok h" and b: "cm_buckets h ! hashfun h k = Some b" and s: "bucket_elems (Some b) = es @ e # fs" and k: "e_key e = k"
  shows "\<exists>h'. remove_at (hashfun h k, length es) h = Some h' \<and> table_ok h' \<and> contents h' = (contents h)(k := None) \<and>
    cm_nelem h' + 1 = cm_nelem h \<and> cm_nbuckets h' = cm_nbuckets h \<and> same_frame h h'"
proof -
  let ?i = "hashfun h k"
  note tb = table_bucket [OF ok, of k]
  obtain g gs where g: "b_el b = (es @ e # fs) @ g # gs" "e_key g = 0" "\<forall>f \<in> set gs. e_key f = 0"
    "length (es @ e # fs) + Suc (length gs) = b_nmax b + 1"
  proof -
    obtain gs where "b_el b = (es @ e # fs) @ gs" "gs \<noteq> []" "\<forall>f \<in> set gs. e_key f = 0"
      "length (es @ e # fs) + length gs = b_nmax b + 1"
      using bucket_okE [of b] tb(2) b s by metis
    then show thesis using that by (cases gs) auto
  qed
  have nz: "\<forall>f \<in> set (es @ e # fs). e_key f \<noteq> 0" using bucket_elems_nonzero s by metis
  let ?b = "b\<lparr>b_el := es @ fs @ g # g # gs\<rparr>"
  have shift: "shift_down (drop (length es) (b_el b)) = Some (fs @ g # g # gs)"
    using shift_down_append [of fs g e gs] nz g(1,2) by simp
  have bo: "bucket_ok (Some ?b)" "bucket_elems (Some ?b) = es @ fs"
    by (rule bucket_okI [of ?b "es @ fs" "g # g # gs"]; use nz g in auto)+
  have dist: "distinct (map e_key (es @ e # fs))" using tb(3) b s by simp
  have d: "distinct (map e_key (bucket_elems (Some ?b)))" using dist bo(2) by simp
  have m: "\<forall>f \<in> set (bucket_elems (Some ?b)). hashfun h (e_key f) = ?i \<and> e_view f \<noteq> 0"
    using tb(4) b s bo(2) by simp
  have i: "?i < length (cm_buckets h)" using hashfun_less [OF ok] ok by (simp add: table_ok_def)
  have "length (bucket_elems (cm_buckets h ! ?i)) \<le> cm_nelem h"
    using ok elem_le_sum_list [of ?i "map (\<lambda>b. length (bucket_elems b)) (cm_buckets h)"] i
    by (simp add: table_ok_def all_elems_def length_concat comp_def)
  then have n: "cm_nelem h - 1 + length (bucket_elems (cm_buckets h ! ?i)) = cm_nelem h + length (bucket_elems (Some ?b))"
    "0 < cm_nelem h" using b s bo(2) by simp_all
  note put = put_bucket [OF ok hashfun_less [OF ok] bo(1) d m n(1)]
  let ?h = "h\<lparr>cm_buckets := (cm_buckets h)[?i := Some ?b], cm_nelem := cm_nelem h - 1\<rparr>"
  have c: "contents ?h = (contents h)(k := None)"
  proof
    fix j
    have "by_key (es @ fs) j = (if j = k then None else by_key (es @ e # fs) j)"
      using dist k by (auto simp: by_key_None, auto simp: by_key_def map_add_def split: option.splits)
    then show "contents ?h j = ((contents h)(k := None)) j"
      using put(2) [of j] contents_bucket [OF ok, of j] bo(2) b s by auto
  qed
  have "remove_at (?i, length es) h = Some ?h"
    using b shift g(1) by (simp add: remove_at_def)
  then show ?thesis using put(1) c n(2) by (simp add: same_frame_def)
qed

section \<open>Rehashing\<close>

text \<open>A store that takes elements under fresh keys one at a time takes a list of them.\<close>

locale keyed_store =
  fixes ok :: "'t \<Rightarrow> bool" and content :: "'t \<Rightarrow> 'k \<Rightarrow> 'e option" and count :: "'t \<Rightarrow> nat"
    and ins :: "'e \<Rightarrow> 't \<Rightarrow> 't proc" and key :: "'e \<Rightarrow> 'k" and good :: "'e \<Rightarrow> bool"
  assumes ins_fresh: "ok t \<Longrightarrow> good e \<Longrightarrow> content t (key e) = None \<Longrightarrow>
    \<exists>t'. ins e t = Some t' \<and> ok t' \<and> content t' = (content t)(key e \<mapsto> e) \<and> count t' = count t + 1"
begin

lemma for_each_ins:
  "ok t \<Longrightarrow> \<forall>e \<in> set es. good e \<and> content t (key e) = None \<Longrightarrow> distinct (map key es) \<Longrightarrow>
    \<exists>t'. for_each ins es t = Some t' \<and> ok t' \<and> count t' = count t + length es \<and>
      content t' = content t ++ map_of (map (\<lambda>e. (key e, e)) es)"
proof (induction es arbitrary: t)
  case (Cons e es)
  obtain u where u: "ins e t = Some u" "ok u" "content u = (content t)(key e \<mapsto> e)" "count u = count t + 1"
    using ins_fresh [of t e] Cons.prems by auto
  have "\<forall>f \<in> set es. good f \<and> content u (key f) = None" using Cons.prems(2,3) by (auto simp: u(3) image_iff)
  then obtain v where v: "for_each ins es u = Some v" "ok v" "count v = count u + length es"
    "content v = content u ++ map_of (map (\<lambda>e. (key e, e)) es)" using Cons.IH [OF u(2)] Cons.prems(3) by auto
  have "map_of (map (\<lambda>e. (key e, e)) es) (key e) = None" using Cons.prems(3) by (auto simp: map_of_eq_None_iff)
  then have "content v = content t ++ map_of (map (\<lambda>e. (key e, e)) (e # es))"
    by (simp add: v(4) u(3) map_add_upd_left map_of_eq_None_iff dom_def)
  moreover have "for_each ins (e # es) t = Some v" "count v = count t + length (e # es)" using u(1,4) v(1,3) by simp_all
  ultimately show ?case using v(2) by blast
qed simp

end

definition table_in :: "nat \<Rightarrow> cilkred_map \<Rightarrow> cilkred_map \<Rightarrow> bool" where
  "table_in n h t \<longleftrightarrow> table_ok t \<and> cm_nbuckets t = n \<and> same_frame h t"

definition good_elem :: "elem \<Rightarrow> bool" where
  "good_elem e \<longleftrightarrow> e_key e \<noteq> 0 \<and> e_view e \<noteq> 0"

lemma insert_elem_ok:
  assumes "table_in n h t" "good_elem e" "contents t (e_key e) = None"
  shows "\<exists>t'. insert_elem e t = Some t' \<and> table_in n h t' \<and> contents t' = (contents t)(e_key e \<mapsto> e) \<and> cm_nelem t' = cm_nelem t + 1"
  using assms insert_no_rehash_ok [of t e]
  by (fastforce simp: table_in_def good_elem_def insert_elem_def same_frame_def)

interpretation table: keyed_store "table_in n h" contents cm_nelem insert_elem e_key good_elem for n h
  by unfold_locales (rule insert_elem_ok)

lemma distinct_keys_concat:
  "\<forall>i < length xss. distinct (map f (xss ! i)) \<and> (\<forall>x \<in> set (xss ! i). g (f x) = i) \<Longrightarrow> distinct (map f (concat xss))"
proof (induction xss rule: rev_induct)
  case (snoc ys xss)
  have a: "\<forall>i < length xss. distinct (map f (xss ! i)) \<and> (\<forall>x \<in> set (xss ! i). g (f x) = i)"
    using snoc.prems by (metis less_SucI length_append_singleton nth_append)
  have b: "distinct (map f ys)" "\<forall>x \<in> set ys. g (f x) = length xss"
    using snoc.prems by (metis lessI length_append_singleton nth_append_length)+
  have "g (f x) < length xss" if "x \<in> set (concat xss)" for x
  proof -
    obtain zs where "zs \<in> set xss" "x \<in> set zs" using \<open>x \<in> set (concat xss)\<close> by auto
    then obtain i where "i < length xss" "x \<in> set (xss ! i)" by (metis in_set_conv_nth)
    then show ?thesis using a by auto
  qed
  then have "f ` set (concat xss) \<inter> f ` set ys = {}" using b(2) by fastforce
  then show ?case using snoc.IH [OF a] b(1) by simp
qed simp

lemma table_elems:
  assumes "table_ok h"
  shows "distinct (map e_key (all_elems h))" "\<forall>e \<in> set (all_elems h). good_elem e"
proof -
  show "distinct (map e_key (all_elems h))" unfolding all_elems_def
    by (rule distinct_keys_concat [where g = "hashfun h"]) (use assms in \<open>simp add: table_ok_def\<close>)
  show "\<forall>e \<in> set (all_elems h). good_elem e"
    using assms bucket_elems_nonzero by (fastforce simp: all_elems_def good_elem_def table_ok_def in_set_conv_nth)
qed

lemma make_buckets_ok:
  assumes "n < 64"
  shows "\<exists>t. make_buckets (2 ^ n) h = Some t \<and> table_in (2 ^ n) h t \<and> contents t = Map.empty \<and> cm_nelem t = 0"
proof -
  have "(2 ^ n :: address) AND mask n = 0" by (rule bit_eqI) (auto simp: bit_simps)
  then have "is_power_of_2 (of_nat (2 ^ n))" by (simp add: is_power_of_2_def mask_eq_exp_minus_1)
  moreover have "concat (map bucket_elems (replicate m None)) = []" for m by (induction m) simp_all
  ultimately show ?thesis using assms
    by (auto simp: make_buckets_def table_in_def table_ok_def all_elems_def same_frame_def contents_def by_key_def bucket_ok_def fun_eq_iff)
qed

lemma rehash_ok:
  assumes ok: "table_ok h" and room: "cm_nbuckets h < 2 ^ 63"
  shows "\<exists>t. rehash h = Some t \<and> table_in (2 * cm_nbuckets h) h t \<and> contents t = contents h \<and> cm_nelem t = cm_nelem h"
proof -
  obtain n where n: "n < 64" "cm_nbuckets h = 2 ^ n" using ok by (auto simp: table_ok_def)
  then have "n < 63" using room by (metis power_strict_increasing_iff one_less_numeral_iff semiring_norm(76))
  then obtain u where u: "make_buckets (2 ^ Suc n) h = Some u" "table_in (2 ^ Suc n) h u" "contents u = Map.empty" "cm_nelem u = 0"
    using make_buckets_ok [of "Suc n" h] by auto
  note e = table_elems [OF ok]
  obtain t where t: "for_each insert_elem (all_elems h) u = Some t" "table_in (2 ^ Suc n) h t"
    "cm_nelem t = length (all_elems h)" "contents t = contents h"
    using table.for_each_ins [OF u(2) _ e(1)] e(2) u(3,4) by (auto simp: contents_def by_key_def)
  have "cm_nelem h = length (all_elems h)" using ok by (simp add: table_ok_def)
  then show ?thesis using n(2) u(1) t by (simp add: rehash_def nextsz_def)
qed

definition load_ok :: "cilkred_map \<Rightarrow> bool" where
  "load_ok h \<longleftrightarrow> table_ok h \<and> cm_nelem h \<le> cm_nbuckets h"

lemma rehash_and_insert_ok:
  assumes h: "load_ok h" and room: "cm_nbuckets h < 2 ^ 63" and e: "e_key e \<noteq> 0" "e_view e \<noteq> 0" and new: "contents h (e_key e) = None"
  shows "\<exists>at h'. rehash_and_insert e h = Some (at, h') \<and> load_ok h' \<and> contents h' = (contents h)(e_key e \<mapsto> e) \<and>
    cm_nelem h' = cm_nelem h + 1 \<and> elem_at h' at = e \<and> same_frame h h'"
proof -
  have ok: "table_ok h" and load: "cm_nelem h \<le> cm_nbuckets h" using h by (simp_all add: load_ok_def)
  obtain t where t: "(if need_rehash_p h then rehash h else Some h) = Some t" "table_ok t" "contents t = contents h"
    "cm_nelem t = cm_nelem h" "cm_nelem h < cm_nbuckets t" "same_frame h t"
  proof (cases "need_rehash_p h")
    case True
    have "0 < cm_nbuckets h" using ok by (auto simp: table_ok_def)
    then show thesis using that rehash_ok [OF ok room] True load by (auto simp: table_in_def)
  next
    case False
    then show thesis using that ok by (simp add: need_rehash_p_def minsz_def same_frame_def)
  qed
  obtain at h' where i: "insert_no_rehash e t = Some (at, h')" "table_ok h'" "contents h' = (contents t)(e_key e \<mapsto> e)"
    "cm_nelem h' = cm_nelem t + 1" "cm_nbuckets h' = cm_nbuckets t" "same_frame t h'" "elem_at h' at = e"
    using insert_no_rehash_ok [OF t(2) e] new t(3) by auto
  have "rehash_and_insert e h = Some (at, h')" by (simp add: rehash_and_insert_def t(1) i(1))
  then show ?thesis using i t by (auto simp: load_ok_def same_frame_def)
qed

text \<open>
  C37. Inserting an element under a key the reducer map does not have, with whatever rehashing it takes, succeeds, puts exactly that
  element under the key and keeps every other one, at the place it returns; the table keeps its invariant and
  never holds more elements than it has buckets.
\<close>

theorem rehash_and_insert_refines:
  assumes "load_ok h" "cm_nbuckets h < 2 ^ 63" "e_key e \<noteq> 0" "e_view e \<noteq> 0" "contents h (e_key e) = None"
  shows "\<exists>at h'. rehash_and_insert e h = Some (at, h') \<and> load_ok h' \<and> contents h' = (contents h)(e_key e \<mapsto> e) \<and>
    cm_nelem h' = cm_nelem h + 1 \<and> elem_at h' at = e"
  using rehash_and_insert_ok [OF assms] by blast

text \<open>The table of a new reducer map, and one with an element whose bucket must be split.\<close>

definition table0 :: cilkred_map where
  "table0 = \<lparr>cm_nelem = 0, cm_nbuckets = 1, cm_buckets = [None], cm_merging = False, cm_is_leftmost = False\<rparr>"

definition table1 :: cilkred_map where
  "table1 = \<lparr>cm_nelem = 1, cm_nbuckets = 1,
     cm_buckets = [Some \<lparr>b_nmax = 1, b_el = [\<lparr>e_key = 4096, e_hb = 4000, e_view = 8192\<rparr>, no_elem]\<rparr>],
     cm_merging = False, cm_is_leftmost = False\<rparr>"

lemma table0_load_ok: "load_ok table0" "contents table0 k = None" "make_reducer_map = Some table0"
  by (simp_all add: load_ok_def table_ok_def table0_def all_elems_def contents_def by_key_def bucket_ok_def exI [of _ 0]
    make_reducer_map_def make_buckets_def is_power_of_2_def)

lemma table1_load_ok: "load_ok table1" "cm_nbuckets table1 < 2 ^ 63" "contents table1 4104 = None" "need_rehash_p table1"
  by (simp_all add: load_ok_def table_ok_def table1_def all_elems_def contents_def by_key_def bucket_ok_def bucket_elems_def
    exI [of _ 0] hashfun_def need_rehash_p_def minsz_def)

theorem rehash_and_insert_refines_witness:
  "\<exists>at h'. rehash_and_insert \<lparr>e_key = 4104, e_hb = 4008, e_view = 8200\<rparr> table1 = Some (at, h') \<and> load_ok h' \<and>
    contents h' = (contents table1)(4104 \<mapsto> \<lparr>e_key = 4104, e_hb = 4008, e_view = 8200\<rparr>) \<and> cm_nelem h' = cm_nelem table1 + 1 \<and>
    elem_at h' at = \<lparr>e_key = 4104, e_hb = 4008, e_view = 8200\<rparr>"
  using rehash_and_insert_refines [of table1 "\<lparr>e_key = 4104, e_hb = 4008, e_view = 8200\<rparr>"] table1_load_ok
  by simp

section \<open>The life of a reducer\<close>

lemma lookup_absent: "table_ok h \<Longrightarrow> k \<noteq> 0 \<Longrightarrow> contents h k = None \<Longrightarrow> cm_lookup k h = Some None"
  using lookup_ok [of h k] by simp

lemma lookup_present:
  assumes "table_ok h" "k \<noteq> 0" "contents h k = Some e"
  shows "\<exists>at h'. cm_lookup k h = Some (Some at) \<and> elem_at h at = e \<and> remove_at at h = Some h' \<and> table_ok h' \<and>
    contents h' = (contents h)(k := None) \<and> cm_nelem h' + 1 = cm_nelem h \<and> cm_nbuckets h' = cm_nbuckets h"
proof -
  obtain es fs b where l: "cm_lookup k h = Some (Some (hashfun h k, length es))" "elem_at h (hashfun h k, length es) = e"
    "cm_buckets h ! hashfun h k = Some b" "bucket_elems (Some b) = es @ e # fs" "e_key e = k"
    using lookup_ok [OF assms(1,2)] assms(3) by auto
  show ?thesis using l(1,2) remove_ok [OF assms(1) l(3-5)] by blast
qed

text \<open>Looking a reducer up gives its view, a new one the first time, and changes no other element.\<close>

lemma hyper_lookup_ok:
  assumes h: "load_ok h" "cm_nbuckets h < 2 ^ 63" "\<not> cm_merging h" and k: "get_hyperobject_key hb = k" "k \<noteq> 0" "fresh \<noteq> 0"
  shows "\<exists>h'. hyper_lookup fresh hb (Some h) = Some (case contents h k of Some e \<Rightarrow> e_view e
      | None \<Rightarrow> if cm_is_leftmost h then k else fresh, h') \<and> load_ok h' \<and> \<not> cm_merging h' \<and>
    (\<forall>j. j \<noteq> k \<longrightarrow> contents h' j = contents h j)"
proof (cases "contents h k")
  case None
  let ?e = "\<lparr>e_key = k, e_hb = hy_addr hb, e_view = if cm_is_leftmost h then k else fresh\<rparr>"
  have "e_key ?e \<noteq> 0" "e_view ?e \<noteq> 0" "contents h (e_key ?e) = None" using k None by auto
  from rehash_and_insert_ok [OF h(1,2) this] obtain at h' where
    "rehash_and_insert ?e h = Some (at, h')" "load_ok h'" "contents h' = (contents h)(k \<mapsto> ?e)" "elem_at h' at = ?e" "same_frame h h'"
    by auto
  moreover have "cm_lookup k h = Some None" using lookup_absent [of h k] h(1) k(2) None by (simp add: load_ok_def)
  ultimately show ?thesis using None h(3) k(1) by (auto simp: hyper_lookup_def worker_map_def same_frame_def Let_def)
next
  case (Some e)
  then show ?thesis using lookup_present [of h k e] h k by (auto simp: hyper_lookup_def worker_map_def load_ok_def Let_def)
qed

text \<open>
  C38. Registering a reducer the worker's map does not have, looking it up and destroying it succeed: the lookups give its
  leftmost view and leave the map as it is, and destroying it leaves the map with the elements it had before.
\<close>

theorem reducer_life:
  assumes "load_ok h" "cm_nbuckets h < 2 ^ 63" "\<not> cm_merging h" "get_hyperobject_key hb \<noteq> 0" "contents h (get_hyperobject_key hb) = None"
  shows "\<exists>h1 h2. hyper_create hb (Some h) = Some h1 \<and> hyper_lookup fresh hb (Some h1) = Some (get_hyperobject_key hb, h1) \<and>
    hyper_destroy hb (Some h1) = Some h2 \<and> load_ok h2 \<and> contents h2 = contents h"
proof -
  let ?k = "get_hyperobject_key hb"
  let ?e = "\<lparr>e_key = ?k, e_hb = hy_addr hb, e_view = ?k\<rparr>"
  have "cm_lookup ?k h = Some None" using assms lookup_absent by (simp add: load_ok_def)
  moreover obtain at h1 where h1: "rehash_and_insert ?e h = Some (at, h1)" "load_ok h1" "contents h1 = (contents h)(?k \<mapsto> ?e)"
    "same_frame h h1" using rehash_and_insert_ok [of h ?e] assms by auto
  ultimately have c: "hyper_create hb (Some h) = Some h1"
    using assms(3) by (simp add: hyper_create_def worker_map_def Let_def)
  have ok1: "table_ok h1" and m1: "\<not> cm_merging h1" using h1 assms(3) by (simp_all add: load_ok_def same_frame_def)
  obtain at h2 where l: "cm_lookup ?k h1 = Some (Some at)" "elem_at h1 at = ?e" "remove_at at h1 = Some h2" "table_ok h2"
    "contents h2 = (contents h1)(?k := None)" "cm_nelem h2 + 1 = cm_nelem h1" "cm_nbuckets h2 = cm_nbuckets h1"
    using lookup_present [OF ok1 assms(4)] h1(3) by auto
  have "hyper_lookup fresh hb (Some h1) = Some (?k, h1)" "hyper_destroy hb (Some h1) = Some h2"
    using l(1-3) m1 by (simp_all add: hyper_lookup_def hyper_destroy_def worker_map_def elem_is_leftmost_def Let_def)
  moreover have "contents h2 = contents h" using l(5) h1(3) assms(5) by (auto simp: fun_eq_iff)
  moreover have "load_ok h2" using l(4,6,7) h1(2) by (simp add: load_ok_def)
  ultimately show ?thesis using c by blast
qed

theorem reducer_life_witness:
  "\<exists>h1 h2. hyper_create \<lparr>hy_addr = 4096, hy_view_offset = 64\<rparr> (Some table0) = Some h1 \<and>
    hyper_lookup 8192 \<lparr>hy_addr = 4096, hy_view_offset = 64\<rparr> (Some h1) = Some (4160, h1) \<and>
    hyper_destroy \<lparr>hy_addr = 4096, hy_view_offset = 64\<rparr> (Some h1) = Some h2 \<and> load_ok h2 \<and> contents h2 = contents table0"
  using reducer_life [of table0 "\<lparr>hy_addr = 4096, hy_view_offset = 64\<rparr>" 8192] table0_load_ok
  by (simp add: table0_def get_hyperobject_key_def)

end
