(* ===== verification/Work_Loop.thy ===== *)
theory Work_Loop
  imports Cilk_Abi Reducer_Table
begin

text \<open>
  The life of a worker in \<^verbatim>\<open>scheduler.c\<close>: its creation, the loop that looks for work, stealing from a random victim, going to
  sleep and waking up, and the return of the initial frame. What comes from outside is the record \<open>outside\<close>: the fiber
  that \<^verbatim>\<open>cilk_fiber_allocate\<close> returns, the race detector's answer to a steal, and what happens between a
  switch to a user fiber and the return to the scheduling fiber. Recording and replaying is off; statistics and tool notifications
  are left out.
\<close>

datatype steal_t = STEAL_CORE | STEAL_BATCH | STEAL_ANY

datatype schedule_t = SCHEDULE_RUN | SCHEDULE_WAIT | SCHEDULE_EXIT

record outside =
  o_fiber :: "rts \<Rightarrow> ptr"
  o_steal :: "rts \<Rightarrow> ptr"
  o_user :: "ptr \<Rightarrow> rts \<Rightarrow> rts proc"

definition worker_number :: "rts \<Rightarrow> nat \<Rightarrow> ptr proc" where
  "worker_number s n = (if n < length (g_workers (rt_g s)) then Some (g_workers (rt_g s) ! n) else None)"

section \<open>Choosing a deque of the victim\<close>

definition choose_deque :: "ptr \<Rightarrow> ptr \<Rightarrow> rts \<Rightarrow> (ptr \<times> rts) proc" where
  "choose_deque w victim s = do {
     v \<leftarrow> l_at s victim;
     assert_c (m_owner (l_lock v) = w);
     (pool, index, s) \<leftarrow>
       (if dp_size (l_resumable_deques v) > 0
        then Some (l_resumable_deques v, dp_size (l_resumable_deques v), s)
        else do {
          let pool = l_suspended_deques v;
          (r, s) \<leftarrow> myrand w s;
          Some (pool, if w = victim \<and> dp_size pool > 0 then r mod dp_size pool + 1 else r mod (dp_size pool + 1), s) });
     assert_c (w = victim \<and> dp_size pool = 0 \<longrightarrow> 1 < g_P (rt_g s) \<and> 0 < length (dp_array pool) \<and> dp_array pool ! 0 = NULL);
     (if index > 0 then do {
        assert_c (index - 1 < length (dp_array pool));
        Some (dp_array pool ! (index - 1), s) }
      else Some (l_core_deque v, s)) }"

section \<open>Stealing\<close>

text \<open>Everything of \<^verbatim>\<open>jump_to_suspended_fiber\<close> before the switch; the result is the fiber to switch to.\<close>

definition jump_to_suspended_fiber :: "ptr \<Rightarrow> ptr \<Rightarrow> ptr \<Rightarrow> rts \<Rightarrow> (ptr \<times> rts) proc" where
  "jump_to_suspended_fiber w victim d s = do {
     x \<leftarrow> dq_at s d;
     assert_c (dq_worker x = victim);
     assert_c (dq_fiber x \<noteq> NULL);
     assert_c (dq_resumable x);
     assert_c (dq_call_stack x \<noteq> NULL);
     let fiber = dq_fiber x;
     s \<leftarrow> deque_mug w d s;
     s \<leftarrow> unlock_worker w victim s;
     ready \<leftarrow> fiber_ready d s;
     spin_until ready;
     s \<leftarrow> dq_mod d (\<lambda>x. x\<lparr>dq_fiber := NULL, dq_resumable := False\<rparr>) s;
     old_deque \<leftarrow> active_deque s w;
     s \<leftarrow> worker_lock w s;
     s \<leftarrow> set_active_deque w d s;
     s \<leftarrow> deque_switch w d s;
     s \<leftarrow> worker_unlock w s;
     s \<leftarrow> deque_destroy old_deque s;
     ff \<leftarrow> frame_ff s w;
     assert_c (ff \<noteq> NULL);
     fb \<leftarrow> fb_at s fiber;
     assert_c (fb_resume_sf fb = NULL);
     s \<leftarrow> fb_mod fiber (\<lambda>f. f\<lparr>fb_owner := w\<rparr>) s;
     s \<leftarrow> l_mod w (\<lambda>l. l\<lparr>l_steal_failure_count := 0\<rparr>) s;
     Some (fiber, s) }"

definition random_victim :: "ptr \<Rightarrow> bool \<Rightarrow> rts \<Rightarrow> (nat \<times> rts) proc" where
  "random_victim w may_be_self s = do {
     k \<leftarrow> wk_at s w;
     (r, s) \<leftarrow> myrand w s;
     let total = g_total_workers (rt_g s);
     (if may_be_self then Some (r mod total, s)
      else let n = r mod (total - 1) in Some (if int n \<ge> wk_self k then n + 1 else n, s)) }"

definition choose_victim :: "ptr \<Rightarrow> rts \<Rightarrow> (nat \<times> rts) proc" where
  "choose_victim w s = do {
     l \<leftarrow> l_at s w;
     let deques = dp_size (l_suspended_deques l) + dp_size (l_resumable_deques l);
     (if g_P (rt_g s) = 1 then do { assert_c (deques > 0); Some (0, s) }
      else random_victim w (deques \<noteq> 0) s) }"

text \<open>The steal proper, under the victim's lock, for a deque that may have work.\<close>

definition steal_from :: "ptr \<Rightarrow> ptr \<Rightarrow> ptr \<Rightarrow> ptr \<Rightarrow> ptr option \<Rightarrow> rts \<Rightarrow> (bool \<times> rts) proc" where
  "steal_from w victim d fiber sd s = do {
     l \<leftarrow> l_at s w;
     x \<leftarrow> dq_at s d;
     (if l_type l = WORKER_USER \<and> dq_team x \<noteq> w then Some (False, s)
      else if dq_frame_ff x = NULL then Some (False, s)
      else do {
        let (ok, x') = dekker_protocol x;
        s \<leftarrow> dq_mod d (\<lambda>_. x') s;
        (if \<not> ok then Some (False, s)
         else do {
           s \<leftarrow> (case sd of None \<Rightarrow> Some s
                 | Some v \<Rightarrow> do { a \<leftarrow> active_deque s w; set_deque_SD a v s });
           let (_, s) = cilkg_increment_active_workers s;
           s \<leftarrow> detach_for_steal w victim d (Fiber fiber) s;
           Some (True, s) }) }) }"

definition random_steal_batch :: "outside \<Rightarrow> ptr \<Rightarrow> rts \<Rightarrow> rts proc" where
  "random_steal_batch E w s = do {
     s \<leftarrow> l_mod w (\<lambda>l. l\<lparr>l_work_stolen := False\<rparr>) s;
     (if g_stealing_disabled (rt_g s) then Some s
      else do {
        l \<leftarrow> l_at s w;
        a \<leftarrow> active_deque s w;
        (if l_type l = WORKER_SYSTEM then Some () else do { x \<leftarrow> dq_at s a; assert_c (dq_team x = w) });
        assert_c (g_total_workers (rt_g s) > 1);
        (n, s) \<leftarrow> random_victim w False s;
        victim \<leftarrow> worker_number s n;
        let fiber = o_fiber E s;
        (if fiber = NULL then Some s
         else do {
           assert_c (victim \<noteq> w);
           v \<leftarrow> l_at s victim;
           let d = l_batch_deque v;
           x \<leftarrow> dq_at s d;
           (if \<not> can_steal_from x then Some s
            else do {
              (got, s) \<leftarrow> worker_trylock_other w victim s;
              (success, s) \<leftarrow> (if got then do {
                  (success, s) \<leftarrow> steal_from w victim d fiber None s;
                  s \<leftarrow> worker_unlock_other w victim s;
                  Some (success, s) }
                else Some (False, s));
              l_mod w (\<lambda>l. l\<lparr>l_work_stolen := success\<rparr>) s }) }) }) }"

text \<open>
  The label \<^verbatim>\<open>done\<close> of \<^verbatim>\<open>random_steal\<close>. An unused fiber goes back to the pool; after the theft of a future's parent the
  frame already has a fiber.
\<close>

definition finish_steal :: "ptr \<Rightarrow> ptr \<Rightarrow> bool \<Rightarrow> rts \<Rightarrow> rts proc" where
  "finish_steal w victim success s = do {
     v \<leftarrow> l_at s victim;
     s \<leftarrow> (if m_owner (l_lock v) = w then worker_unlock_other w victim s else Some s);
     s \<leftarrow> l_mod w (\<lambda>l. l\<lparr>l_work_stolen := success\<rparr>) s;
     (if success then do {
        l \<leftarrow> l_at s w;
        f \<leftarrow> ff_at s (l_next_frame_ff l);
        sf \<leftarrow> sf_at s (ff_call_stack f);
        assert_c (flag_set (sf_flags sf) CILK_FRAME_FUTURE_PARENT \<longrightarrow> ff_fiber_self f \<noteq> NULL);
        Some s }
      else Some s) }"

text \<open>The part between the choice of the victim and the label; the first result is the fiber of a resumed deque.\<close>

definition steal_attempt :: "outside \<Rightarrow> ptr \<Rightarrow> ptr \<Rightarrow> rts \<Rightarrow> (ptr \<times> rts) proc" where
  "steal_attempt E w victim s = do {
     v \<leftarrow> l_at s victim;
     (got, m) \<leftarrow> mutex_trylock w (l_lock v);
     s \<leftarrow> l_mod victim (\<lambda>l. l\<lparr>l_lock := m\<rparr>) s;
     (if \<not> got then do { s \<leftarrow> finish_steal w victim False s; Some (NULL, s) }
      else do {
        (d, s) \<leftarrow> choose_deque w victim s;
        (if d = NULL then do { s \<leftarrow> finish_steal w victim False s; Some (NULL, s) }
         else do {
           x \<leftarrow> dq_at s d;
           (if d \<noteq> l_core_deque v \<and> dq_resumable x then jump_to_suspended_fiber w victim d s
            else do {
              a \<leftarrow> active_deque s w;
              (if a = NULL then do { s \<leftarrow> finish_steal w victim False s; Some (NULL, s) }
               else if \<not> can_steal_from x then do {
                 s \<leftarrow> (if d \<noteq> l_core_deque v then do {
                         s \<leftarrow> deque_mug w d s;
                         assert_c (\<not> dq_resumable x);
                         Some s }
                       else Some s);
                 s \<leftarrow> finish_steal w victim False s;
                 Some (NULL, s) }
               else do {
                 let fiber = o_fiber E s;
                 (success, s) \<leftarrow> (if fiber = NULL then Some (False, s)
                                  else steal_from w victim d fiber (Some (o_steal E s)) s);
                 s \<leftarrow> finish_steal w victim success s;
                 Some (NULL, s) }) }) }) }) }"

definition random_steal :: "outside \<Rightarrow> ptr \<Rightarrow> steal_t \<Rightarrow> rts \<Rightarrow> rts proc" where
  "random_steal E w kind s =
    (if kind = STEAL_BATCH then random_steal_batch E w s
     else do {
       s \<leftarrow> l_mod w (\<lambda>l. l\<lparr>l_work_stolen := False\<rparr>) s;
       (if g_stealing_disabled (rt_g s) then Some s
        else do {
          l \<leftarrow> l_at s w;
          a \<leftarrow> active_deque s w;
          (if l_type l = WORKER_SYSTEM \<or> a = NULL then Some ()
           else do {
             x \<leftarrow> dq_at s a;
             assert_c (dq_team x = w \<or> dp_size (l_suspended_deques l) + dp_size (l_resumable_deques l) > 0) });
          (n, s) \<leftarrow> choose_victim w s;
          victim \<leftarrow> worker_number s n;
          (fiber, s) \<leftarrow> steal_attempt E w victim s;
          (if fiber \<noteq> NULL then o_user E fiber s else Some s) }) })"

section \<open>Sleeping and waking\<close>

definition node_msg :: "ptr \<Rightarrow> nat \<Rightarrow> rts \<Rightarrow> rts proc" where
  "node_msg w msg s = do {
     l \<leftarrow> l_at s w;
     n \<leftarrow> signal_node_msg (l_signal_node l) msg;
     l_mod w (\<lambda>l. l\<lparr>l_signal_node := n\<rparr>) s }"

text \<open>The children of system worker \<open>n\<close> are \<open>2 n + 1\<close> and \<open>2 n + 2\<close>.\<close>

definition notify_children :: "ptr \<Rightarrow> nat \<Rightarrow> rts \<Rightarrow> rts proc" where
  "notify_children w msg s = do {
     k \<leftarrow> wk_at s w;
     let num_sys_workers = g_P (rt_g s) - 1;
     let child_num = 2 * wk_self k + 1;
     (if child_num < num_sys_workers then do {
        child \<leftarrow> worker_number s (nat child_num);
        s \<leftarrow> node_msg child msg s;
        (if child_num + 1 < num_sys_workers then do {
           child \<leftarrow> worker_number s (nat (child_num + 1));
           node_msg child msg s }
         else Some s) }
      else Some s) }"

definition notify_children_wait :: "ptr \<Rightarrow> rts \<Rightarrow> rts proc" where
  "notify_children_wait w = notify_children w 0"

definition notify_children_run :: "ptr \<Rightarrow> rts \<Rightarrow> rts proc" where
  "notify_children_run w = notify_children w 1"

text \<open>Waiting for the runtime to wake up, at the start of a system worker and in the loop below.\<close>

definition wait_for_wakeup :: "ptr \<Rightarrow> rts \<Rightarrow> rts proc" where
  "wait_for_wakeup w s = do {
     l \<leftarrow> l_at s w;
     n \<leftarrow> signal_node_wait (l_signal_node l);
     s \<leftarrow> l_mod w (\<lambda>l. l\<lparr>l_signal_node := n\<rparr>) s;
     s \<leftarrow> notify_children_run w s;
     l_mod w (\<lambda>l. l\<lparr>l_steal_failure_count := 0\<rparr>) s }"

definition wake_runtime :: "rts \<Rightarrow> rts proc" where
  "wake_runtime s = (let s = s\<lparr>rt_g := (rt_g s)\<lparr>g_active_workers := 1\<rparr>\<rparr> in
     if g_P (rt_g s) > 1 then do { root \<leftarrow> worker_number s 0; node_msg root 1 s } else Some s)"

definition sleep_runtime :: "rts \<Rightarrow> rts proc" where
  "sleep_runtime s = (if g_P (rt_g s) > 1 then do { root \<leftarrow> worker_number s 0; node_msg root 0 s } else Some s)"

definition enter_cilk :: "rts \<Rightarrow> rts proc" where
  "enter_cilk s = (let q = g_Q (rt_g s); s = s\<lparr>rt_g := (rt_g s)\<lparr>g_Q := q + 1\<rparr>\<rparr> in
     if q = 0 then wake_runtime s else Some s)"

definition leave_cilk :: "rts \<Rightarrow> rts proc" where
  "leave_cilk s = (let q = g_Q (rt_g s) - 1; s = s\<lparr>rt_g := (rt_g s)\<lparr>g_Q := q\<rparr>\<rparr> in
     if q = 0 then sleep_runtime s else Some s)"

section \<open>The scheduling loop\<close>

definition worker_runnable :: "ptr \<Rightarrow> rts \<Rightarrow> (schedule_t \<times> rts) proc" where
  "worker_runnable w s = do {
     k \<leftarrow> wk_at s w;
     let l = wk_l k;
     let g = rt_g s;
     (if l_next_frame_ff l \<noteq> NULL then Some (SCHEDULE_RUN, s)
      else if g_work_done g then Some (SCHEDULE_EXIT, s)
      else if wk_self k = 0 then
        (if l_steal_failure_count l > g_max_steal_failures g then
           (if g_P g > 1 \<and> signal_node_should_wait (l_signal_node l) then Some (SCHEDULE_WAIT, s)
            else do {
              assert_c (g_P g = 1 \<longrightarrow> dp_size (l_suspended_deques l) + dp_size (l_resumable_deques l) > 0);
              s \<leftarrow> l_mod w (\<lambda>l. l\<lparr>l_steal_failure_count := 0\<rparr>) s;
              Some (SCHEDULE_RUN, s) })
         else Some (SCHEDULE_RUN, s))
      else if l_type l = WORKER_SYSTEM \<and> signal_node_should_wait (l_signal_node l) then Some (SCHEDULE_WAIT, s)
      else Some (SCHEDULE_RUN, s)) }"

text \<open>\<^verbatim>\<open>NULL == w->l->frame_ff || NULL == *w->l->frame_ff\<close>.\<close>

definition assert_no_frame :: "ptr \<Rightarrow> rts \<Rightarrow> unit proc" where
  "assert_no_frame w s = do {
     l \<leftarrow> l_at s w;
     (if l_frame_ff l = NULL then Some () else do { ff \<leftarrow> frame_ff s w; assert_c (ff = NULL) }) }"

definition check_for_work :: "outside \<Rightarrow> ptr \<Rightarrow> steal_t \<Rightarrow> rts \<Rightarrow> (ptr \<times> rts) proc" where
  "check_for_work E w kind s = do {
     (ff, s) \<leftarrow> pop_next_frame w s;
     (if ff \<noteq> NULL then Some (ff, s)
      else do {
        l \<leftarrow> l_at s w;
        a \<leftarrow> active_deque s w;
        s \<leftarrow> (if l_type l \<noteq> WORKER_USER \<and> l_batch_id l = -1 \<and> a \<noteq> NULL then do {
                x \<leftarrow> dq_at s a;
                (if dq_team x \<noteq> NULL then do {
                   s \<leftarrow> worker_lock w s;
                   s \<leftarrow> dq_mod a (\<lambda>x. x\<lparr>dq_team := NULL\<rparr>) s;
                   worker_unlock w s }
                 else Some s) }
              else Some s);
        assert_no_frame w s;
        s \<leftarrow> random_steal E w kind s;
        (ff, s) \<leftarrow> pop_next_frame w s;
        s \<leftarrow> l_mod w (\<lambda>l. l\<lparr>l_steal_failure_count :=
               (if ff \<noteq> NULL then 0
                else (if l_steal_failure_count l > 30000 then l_steal_failure_count l - 300 else l_steal_failure_count l) + 1)\<rparr>) s;
        Some (ff, s) }) }"

partial_function (option) search_until_work_found_or_done :: "outside \<Rightarrow> ptr \<Rightarrow> rts \<Rightarrow> (ptr \<times> rts) proc" where
  "search_until_work_found_or_done E w s = do {
     (schedule, s) \<leftarrow> worker_runnable w s;
     (case schedule of
        SCHEDULE_RUN \<Rightarrow> do {
          (ff, s) \<leftarrow> check_for_work E w STEAL_CORE s;
          (if ff \<noteq> NULL then Some (ff, s) else search_until_work_found_or_done E w s) }
      | SCHEDULE_WAIT \<Rightarrow> do {
          l \<leftarrow> l_at s w;
          assert_c (l_type l = WORKER_SYSTEM);
          assert_c (l_next_frame_ff l = NULL);
          s \<leftarrow> notify_children_wait w s;
          s \<leftarrow> wait_for_wakeup w s;
          search_until_work_found_or_done E w s }
      | SCHEDULE_EXIT \<Rightarrow> do {
          l \<leftarrow> l_at s w;
          assert_c (l_type l \<noteq> WORKER_USER);
          Some (NULL, s) }) }"

text \<open>One round of the loop up to the switch: the fiber to switch to, null when the work is done.\<close>

definition worker_scheduling_loop_body :: "outside \<Rightarrow> ptr \<Rightarrow> ptr \<Rightarrow> cxa_globals \<Rightarrow> rts \<Rightarrow> (ptr \<times> cxa_globals \<times> rts) proc" where
  "worker_scheduling_loop_body E current_fiber w g s = do {
     l \<leftarrow> l_at s w;
     assert_c (current_fiber = l_scheduling_fiber l);
     assert_no_frame w s;
     (ff, s) \<leftarrow> pop_next_frame w s;
     (ff, s) \<leftarrow> (if ff \<noteq> NULL then Some (ff, s) else search_until_work_found_or_done E w s);
     (if ff = NULL then do { assert_c (g_work_done (rt_g s)); Some (NULL, g, s) }
      else do {
        assert_c (cx_uncaught g = 0);
        s \<leftarrow> worker_lock w s;
        own \<leftarrow> frame_ff s w;
        assert_c (own = NULL);
        s \<leftarrow> frame_lock w ff s;
        f \<leftarrow> ff_at s ff;
        let sf = ff_call_stack f;
        assert_c (sf \<noteq> NULL);
        x \<leftarrow> sf_at s sf;
        assert_c (sf_call_parent x = NULL);
        (g, s) \<leftarrow> setup_for_execution w ff False g s;
        s \<leftarrow> frame_unlock w ff s;
        s \<leftarrow> worker_unlock w s;
        s \<leftarrow> scheduling_fiber_prepare_to_resume_user_code w ff sf s;
        own \<leftarrow> frame_ff s w;
        assert_c (own \<noteq> NULL);
        f \<leftarrow> ff_at s own;
        let other = ff_fiber_self f;
        ob \<leftarrow> fb_at s other;
        assert_c (fb_resume_sf ob = NULL);
        s \<leftarrow> fb_mod current_fiber (\<lambda>b. b\<lparr>fb_resume_sf := NULL\<rparr>) s;
        cb \<leftarrow> fb_at s current_fiber;
        assert_c (fb_owner cb = w);
        x \<leftarrow> sf_at s sf;
        s \<leftarrow> (if flag_set (sf_flags x) CILK_FRAME_FUTURE_PARENT then Some s
              else fb_mod other (\<lambda>b. b\<lparr>fb_resume_sf := sf\<rparr>) s);
        Some (other, g, s) }) }"

definition worker_scheduler_init_function :: "ptr \<Rightarrow> rts \<Rightarrow> rts proc" where
  "worker_scheduler_init_function w s = do {
     k \<leftarrow> wk_at s w;
     s \<leftarrow> mysrand w (nat (wk_self k + 1)) s;
     (case l_type (wk_l k) of
        WORKER_USER \<Rightarrow> Some s
      | WORKER_SYSTEM \<Rightarrow> wait_for_wakeup w s
      | _ \<Rightarrow> None) }"

text \<open>The thread's exception state is the one it has when control returns to the scheduling fiber: none in flight.\<close>

partial_function (option) scheduling_loop :: "outside \<Rightarrow> ptr \<Rightarrow> cxa_globals \<Rightarrow> rts \<Rightarrow> rts proc" where
  "scheduling_loop E w g s =
     (if g_work_done (rt_g s) then Some s
      else do {
        l \<leftarrow> l_at s w;
        (fiber_to_resume, g, s) \<leftarrow> worker_scheduling_loop_body E (l_scheduling_fiber l) w g s;
        s \<leftarrow> (if fiber_to_resume \<noteq> NULL then o_user E fiber_to_resume s else Some s);
        scheduling_loop E w no_cxa s })"

definition worker_scheduler_function :: "outside \<Rightarrow> ptr \<Rightarrow> rts \<Rightarrow> rts proc" where
  "worker_scheduler_function E w s = do {
     s \<leftarrow> worker_scheduler_init_function w s;
     s \<leftarrow> scheduling_loop E w no_cxa s;
     l \<leftarrow> l_at s w;
     assert_c (l_type l \<noteq> WORKER_USER);
     Some s }"

section \<open>Creating and destroying workers\<close>

text \<open>
  A new worker at address \<open>w\<close> with its two deques, the future fibers \<open>pool\<close> and the scheduling fiber \<open>batch_fiber\<close> for
  batches. Fields that the function leaves uninitialised are null.
\<close>

definition new_local_state :: "deque_pool \<Rightarrow> ptr \<Rightarrow> ptr \<Rightarrow> (nat \<Rightarrow> ptr) \<Rightarrow> ptr \<Rightarrow> local_state" where
  "new_local_state no_deques core batch pool batch_fiber = \<lparr>l_lock = mutex_init, l_do_not_steal = False,
     l_steal_lock = mutex_init, l_frame_ff = NULL, l_next_frame_ff = NULL, l_last_full_frame = NULL,
     l_active_deque = Core_Deque, l_suspended_deques = no_deques, l_resumable_deques = no_deques, l_core_deque = core,
     l_batch_deque = batch, l_type = WORKER_FREE, l_current_ltq = NULL,
     l_future_fiber_pool_idx = MAX_FUTURE_FIBERS_IN_POOL - 1, l_future_fiber_pool = pool, l_scheduling_fiber = NULL,
     l_batch_scheduling_fiber = batch_fiber, l_saved_core_fiber = NULL, l_original_pedigree_leaf = NULL, l_rand_seed = 0,
     l_post_suspend = No_Fcn, l_suspended_stack = NULL, l_fiber_to_free = NULL, l_pending_exception = NULL,
     l_steal_failure_count = 0, l_work_stolen = False, l_signal_node = signal_node_create, l_batch_id = -1\<rparr>"

definition make_worker :: "int \<Rightarrow> (nat \<Rightarrow> ptr) \<Rightarrow> ptr \<Rightarrow> ptr \<Rightarrow> rts \<Rightarrow> rts proc" where
  "make_worker self pool batch_fiber w s = do {
     let size = g_ltqsize (rt_g s);
     let batch = rt_next s;
     let core = rt_next s + 1;
     let s = s\<lparr>rt_dq := (rt_dq s)(batch \<mapsto> empty_deque size, core \<mapsto> empty_deque size), rt_next := rt_next s + 2\<rparr>;
     no_deques \<leftarrow> deque_pool_init size;
     let s = s\<lparr>rt_wk := (rt_wk s)(w \<mapsto> \<lparr>wk_tail = NULL, wk_head = NULL, wk_exc = NULL, wk_protected_tail = NULL,
       wk_ltq_limit = NULL, wk_self = self, wk_l = new_local_state no_deques core batch pool batch_fiber,
       wk_reducer_map = NULL, wk_current_stack_frame = NULL, wk_pedigree = initial_pedigree\<rparr>)\<rparr>;
     s \<leftarrow> deque_switch w core s;
     assert_c (batch_fiber \<noteq> NULL);
     s \<leftarrow> fb_mod batch_fiber (\<lambda>f. f\<lparr>fb_owner := w\<rparr>) s;
     k \<leftarrow> wk_at s w;
     x \<leftarrow> dq_at s (wk_ltq_limit k);
     s \<leftarrow> dq_mod (wk_protected_tail k) (restore_stealing (dq_ltq_limit x)) s;
     dq_mod (wk_exc k) reset_THE_exception s }"

definition make_worker_system :: "ptr \<Rightarrow> rts \<Rightarrow> rts proc" where
  "make_worker_system w s = do {
     l \<leftarrow> l_at s w;
     assert_c (l_type l = WORKER_FREE);
     l_mod w (\<lambda>l. l\<lparr>l_type := WORKER_SYSTEM, l_signal_node := signal_node_create\<rparr>) s }"

text \<open>The scheduling fiber, the batch fiber and the future fibers are released with the worker; the memory of a state record is
  its entry in the heap. Of the queues only the current one is freed.\<close>

definition destroy_worker :: "ptr \<Rightarrow> rts \<Rightarrow> rts proc" where
  "destroy_worker w s = do {
     l \<leftarrow> l_at s w;
     assert_c (l_pending_exception l = NULL);
     (if l_scheduling_fiber l \<noteq> NULL then do {
        assert_c (l_type l = WORKER_FREE);
        b \<leftarrow> fb_at s (l_scheduling_fiber l);
        assert_c (fb_ref_count b = 1) }
      else Some ());
     assert_c (l_batch_scheduling_fiber l \<noteq> NULL);
     b \<leftarrow> fb_at s (l_batch_scheduling_fiber l);
     assert_c (fb_ref_count b = 1);
     deque_pool_free (l_suspended_deques l);
     deque_pool_free (l_resumable_deques l);
     let s = s\<lparr>rt_fb := (rt_fb s)(l_scheduling_fiber l := None, l_batch_scheduling_fiber l := None)\<rparr>;
     let s = s\<lparr>rt_dq := (rt_dq s)(l_core_deque l := None, l_batch_deque l := None)\<rparr>;
     Some (s\<lparr>rt_wk := (rt_wk s)(w := None)\<rparr>) }"

section \<open>The return of the initial frame\<close>

definition unbind_thread :: "ptr \<Rightarrow> rts \<Rightarrow> rts proc" where
  "unbind_thread w s = do {
     k \<leftarrow> wk_at s w;
     (if wk_self k = -1 then destroy_worker w s
      else do {
        s \<leftarrow> l_mod w (\<lambda>l. l\<lparr>l_type := WORKER_FREE\<rparr>) s;
        leave_cilk s }) }"

text \<open>
  \<^verbatim>\<open>__cilkrts_c_return_from_initial\<close> up to the point where the frame may have to wait for the other
  workers: the reducer map is set aside, and the result says whether the fiber suspends itself
  (\<^verbatim>\<open>suspend_return_from_initial\<close>).
\<close>

definition leave_initial :: "ptr \<Rightarrow> rts \<Rightarrow> (ptr \<times> bool \<times> rts) proc" where
  "leave_initial w s = do {
     k \<leftarrow> wk_at s w;
     let rm = wk_reducer_map k;
     s \<leftarrow> set_wmap w NULL s;
     let n = g_total_workers (rt_g s);
     assert_c (0 < n);
     last \<leftarrow> worker_number s (n - 1);
     (if w \<noteq> last \<or> g_active_workers (rt_g s) > 1 then do {
        ff \<leftarrow> frame_ff s w;
        s \<leftarrow> ff_mod ff (\<lambda>f. f\<lparr>ff_join_counter := ff_join_counter f - 1\<rparr>) s;
        Some (rm, True, s) }
      else Some (rm, False, snd (cilkg_decrement_active_workers s))) }"

text \<open>The rest, on the worker \<open>w\<close> of the thread that entered.\<close>

definition finish_initial :: "ptr \<Rightarrow> ptr \<Rightarrow> thread_pedigree \<Rightarrow> rts \<Rightarrow> (thread_pedigree \<times> rts) proc" where
  "finish_initial w rm t s = do {
     assert_c (g_active_workers (rt_g s) = 0);
     let s = s\<lparr>rt_g := (rt_g s)\<lparr>g_exit_frame := NULL\<rparr>\<rparr>;
     l \<leftarrow> l_at s w;
     assert_c (l_type l = WORKER_USER);
     assert_c (dp_size (l_suspended_deques l) = 0);
     assert_c (dp_size (l_resumable_deques l) = 0);
     s \<leftarrow> worker_lock w s;
     ff \<leftarrow> frame_ff s w;
     assert_c (ff \<noteq> NULL);
     f \<leftarrow> ff_at s ff;
     assert_c (ff_join_counter f = 1);
     s \<leftarrow> set_frame_ff w NULL s;
     a \<leftarrow> active_deque s w;
     let s = s\<lparr>rt_g := (rt_g s)\<lparr>g_original_deque := a\<rparr>\<rparr>;
     assert_c (ff_fiber_self f \<noteq> NULL);
     assert_c (ff_fiber_self f \<noteq> l_scheduling_fiber l);
     let s = s\<lparr>rt_fb := (rt_fb s)(ff_fiber_self f := None)\<rparr>;
     s \<leftarrow> ff_mod ff (\<lambda>f. f\<lparr>ff_fiber_self := NULL\<rparr>) s;
     s \<leftarrow> destroy_full_frame ff s;
     s \<leftarrow> worker_unlock w s;
     (t, s) \<leftarrow> save_pedigree_leaf_from_user_worker w t s;
     let s = (if rm \<noteq> NULL then destroy_reducer_map rm s else s);
     s \<leftarrow> unbind_thread w s;
     Some (t, s) }"

section \<open>Waking reaches every system worker\<close>

text \<open>Workers that are created and listed under their numbers, as far as the first \<open>n\<close> go.\<close>

definition numbered :: "rts \<Rightarrow> nat \<Rightarrow> bool" where
  "numbered s n \<longleftrightarrow> n \<le> length (g_workers (rt_g s)) \<and> distinct (take n (g_workers (rt_g s))) \<and>
     (\<forall>i<n. \<exists>k. wk_at s (g_workers (rt_g s) ! i) = Some k \<and> wk_self k = int i)"

definition awake :: "rts \<Rightarrow> nat \<Rightarrow> bool" where
  "awake s i \<longleftrightarrow> (\<exists>l. l_at s (g_workers (rt_g s) ! i) = Some l \<and> sn_run (l_signal_node l) = 1)"

text \<open>The workers listed wait for the wakeup and pass it on, one after the other.\<close>

definition wake_in_order :: "nat list \<Rightarrow> rts \<Rightarrow> rts proc" where
  "wake_in_order = for_each (\<lambda>i s. wait_for_wakeup (g_workers (rt_g s) ! i) s)"

definition parent_first :: "nat list \<Rightarrow> bool" where
  "parent_first is \<longleftrightarrow> (\<forall>j<length is. is ! j = 0 \<or> (is ! j - 1) div 2 \<in> set (take j is))"

definition same_team :: "rts \<Rightarrow> rts \<Rightarrow> nat \<Rightarrow> bool" where
  "same_team s s' n \<longleftrightarrow> numbered s' n \<and> g_workers (rt_g s') = g_workers (rt_g s) \<and> g_P (rt_g s') = g_P (rt_g s) \<and>
     (\<forall>i<n. awake s i \<longrightarrow> awake s' i)"

lemma same_team_refl: "numbered s n \<Longrightarrow> same_team s s n"
  by (simp add: same_team_def)

lemma same_team_trans: "same_team s t n \<Longrightarrow> same_team t u n \<Longrightarrow> same_team s u n"
  by (auto simp: same_team_def)

lemma put_worker_same_team:
  assumes n: "numbered s n" and i: "i < n" and k: "wk_at s (g_workers (rt_g s) ! i) = Some k" and k': "wk_self k' = wk_self k"
    and a: "sn_run (l_signal_node (wk_l k)) = 1 \<longrightarrow> sn_run (l_signal_node (wk_l k')) = 1"
  shows "same_team s (put_wk (g_workers (rt_g s) ! i) k' s) n"
    "sn_run (l_signal_node (wk_l k')) = 1 \<Longrightarrow> awake (put_wk (g_workers (rt_g s) ! i) k' s) i"
proof -
  let ?ws = "g_workers (rt_g s)"
  let ?s = "put_wk (?ws ! i) k' s"
  have "\<exists>k. wk_at ?s (?ws ! j) = Some k \<and> wk_self k = int j" if j: "j < n" for j
  proof (cases "?ws ! j = ?ws ! i")
    case True
    then have "take n ?ws ! j = take n ?ws ! i" using i j by simp
    then have "j = i" using nth_eq_iff_index_eq [of "take n ?ws" j i] n i j by (simp add: numbered_def)
    then show ?thesis using n i k k' by (auto simp: numbered_def)
  next
    case False
    then show ?thesis using n j by (simp add: numbered_def)
  qed
  then have "numbered ?s n" using n by (simp add: numbered_def)
  moreover have "awake ?s j" if "awake s j" for j
    using that a k by (auto simp: awake_def l_at_wk)
  ultimately show "same_team s ?s n" by (simp add: same_team_def)
  show "awake ?s i" if "sn_run (l_signal_node (wk_l k')) = 1" using that by (simp add: awake_def)
qed

lemma node_msg_wakes:
  assumes n: "numbered s n" and i: "i < n"
  shows "\<exists>s'. node_msg (g_workers (rt_g s) ! i) 1 s = Some s' \<and> same_team s s' n \<and> awake s' i"
proof -
  obtain k where k: "wk_at s (g_workers (rt_g s) ! i) = Some k" using n i by (auto simp: numbered_def)
  let ?node = "(l_signal_node (wk_l k))\<lparr>sn_run := 1, sn_sem := signal_cilk_semaphore (sn_sem (l_signal_node (wk_l k)))\<rparr>"
  let ?k = "k\<lparr>wk_l := (wk_l k)\<lparr>l_signal_node := ?node\<rparr>\<rparr>"
  have m: "node_msg (g_workers (rt_g s) ! i) 1 s = Some (put_wk (g_workers (rt_g s) ! i) ?k s)"
    using k by (simp add: node_msg_def l_at_wk [OF k] signal_node_msg_def)
  have "wk_self ?k = wk_self k" "sn_run (l_signal_node (wk_l ?k)) = 1" by simp_all
  with m put_worker_same_team [OF n i k, of ?k] show ?thesis by blast
qed

lemma notify_children_wakes:
  assumes n: "numbered s n" and P: "g_P (rt_g s) = int n + 1" and i: "i < n"
  shows "\<exists>s'. notify_children_run (g_workers (rt_g s) ! i) s = Some s' \<and> same_team s s' n \<and>
    (\<forall>j<n. 0 < j \<and> (j - 1) div 2 = i \<longrightarrow> awake s' j)"
proof -
  let ?w = "g_workers (rt_g s) ! i"
  obtain k where k: "wk_at s ?w = Some k" "wk_self k = int i" using n i by (auto simp: numbered_def)
  have num: "nat (2 * int i + 1) = 2 * i + 1" "nat (2 * int i + 1 + 1) = 2 * i + 2" by simp_all
  have len: "n \<le> length (g_workers (rt_g s))" using n by (simp add: numbered_def)
  have child: "j = 2 * i + 1 \<or> j = 2 * i + 2" if "0 < j" "(j - 1) div 2 = i" for j :: nat
    using that by presburger
  show ?thesis
  proof (cases "2 * i + 1 < n")
    case False
    then have "\<forall>j<n. \<not> (0 < j \<and> (j - 1) div 2 = i)" using child by fastforce
    moreover have "\<not> 2 * int i + 1 < g_P (rt_g s) - 1" using False P by linarith
    then have "notify_children_run ?w s = Some s" using k by (simp add: notify_children_run_def notify_children_def Let_def)
    ultimately show ?thesis using same_team_refl [OF n] by blast
  next
    case one: True
    then have lt1: "2 * int i + 1 < g_P (rt_g s) - 1" using P by linarith
    obtain s1 where s1: "node_msg (g_workers (rt_g s) ! (2 * i + 1)) 1 s = Some s1" "same_team s s1 n" "awake s1 (2 * i + 1)"
      using node_msg_wakes [OF n one] by blast
    have w1: "worker_number s (2 * i + 1) = Some (g_workers (rt_g s) ! (2 * i + 1))"
      using one len by (simp add: worker_number_def)
    have n1: "numbered s1 n" "g_workers (rt_g s1) = g_workers (rt_g s)" using s1(2) by (simp_all add: same_team_def)
    show ?thesis
    proof (cases "2 * i + 2 < n")
      case False
      then have "\<not> 2 * int i + 1 + 1 < g_P (rt_g s) - 1" using P by linarith
      then have "notify_children_run ?w s = Some s1" using k lt1 w1 s1(1) num
        by (simp add: notify_children_run_def notify_children_def Let_def)
      moreover have "awake s1 j" if "j < n" "0 < j" "(j - 1) div 2 = i" for j
        using child [OF that(2,3)] that(1) False s1(3) by auto
      ultimately show ?thesis using s1(2) by blast
    next
      case two: True
      then have lt2: "2 * int i + 1 + 1 < g_P (rt_g s) - 1" using P by linarith
      obtain s2 where s2: "node_msg (g_workers (rt_g s) ! (2 * i + 2)) 1 s1 = Some s2" "same_team s1 s2 n" "awake s2 (2 * i + 2)"
        using node_msg_wakes [OF n1(1) two] n1(2) by auto
      have w2: "worker_number s1 (2 * i + 2) = Some (g_workers (rt_g s) ! (2 * i + 2))"
        using two len n1(2) by (simp add: worker_number_def)
      have "notify_children_run ?w s = Some s2" using k lt1 lt2 w1 w2 s1(1) s2(1) num
        by (simp add: notify_children_run_def notify_children_def Let_def)
      moreover have "awake s2 j" if "j < n" "0 < j" "(j - 1) div 2 = i" for j
        using child [OF that(2,3)] one s1(3) s2(2,3) by (auto simp: same_team_def)
      ultimately show ?thesis using same_team_trans [OF s1(2) s2(2)] by blast
    qed
  qed
qed

lemma wait_for_wakeup_wakes:
  assumes n: "numbered s n" and P: "g_P (rt_g s) = int n + 1" and i: "i < n" and a: "awake s i"
  shows "\<exists>s'. wait_for_wakeup (g_workers (rt_g s) ! i) s = Some s' \<and> same_team s s' n \<and>
    (\<forall>j<n. 0 < j \<and> (j - 1) div 2 = i \<longrightarrow> awake s' j)"
proof -
  let ?w = "g_workers (rt_g s) ! i"
  obtain k where k: "wk_at s ?w = Some k" using n i by (auto simp: numbered_def)
  have r: "sn_run (l_signal_node (wk_l k)) = 1" using a k by (auto simp: awake_def l_at_wk)
  then have wait: "signal_node_wait (l_signal_node (wk_l k)) = Some (l_signal_node (wk_l k))" by (simp add: signal_node_wait_run)
  let ?s = "put_wk ?w k s"
  have 0: "same_team s ?s n" using put_worker_same_team(1) [OF n i k] by blast
  have n0: "numbered ?s n" "g_P (rt_g ?s) = int n + 1" using 0 P by (simp_all add: same_team_def)
  obtain t where t: "notify_children_run ?w ?s = Some t" "same_team ?s t n" "\<forall>j<n. 0 < j \<and> (j - 1) div 2 = i \<longrightarrow> awake t j"
    using notify_children_wakes [OF n0 i] by auto
  have st: "same_team s t n" by (rule same_team_trans [OF 0 t(2)])
  then have nt: "numbered t n" "g_workers (rt_g t) = g_workers (rt_g s)" by (simp_all add: same_team_def)
  then obtain h where h: "wk_at t (g_workers (rt_g t) ! i) = Some h" using i by (auto simp: numbered_def)
  let ?h = "h\<lparr>wk_l := (wk_l h)\<lparr>l_steal_failure_count := 0\<rparr>\<rparr>"
  have u: "same_team t (put_wk (g_workers (rt_g t) ! i) ?h t) n"
    using put_worker_same_team(1) [OF nt(1) i h, of ?h] by simp
  have "wait_for_wakeup ?w s = Some (put_wk (g_workers (rt_g t) ! i) ?h t)"
    using t(1) h nt(2) by (simp add: wait_for_wakeup_def l_at_wk [OF k] wait l_mod_put [OF k])
  moreover have "\<forall>j<n. 0 < j \<and> (j - 1) div 2 = i \<longrightarrow> awake (put_wk (g_workers (rt_g t) ! i) ?h t) j"
    using t(3) u by (auto simp: same_team_def)
  ultimately show ?thesis using same_team_trans [OF st u] by blast
qed

lemma wake_in_order_all:
  "numbered s n \<Longrightarrow> g_P (rt_g s) = int n + 1 \<Longrightarrow> set is \<subseteq> {..<n} \<Longrightarrow> parent_first (done @ is) \<Longrightarrow>
    \<forall>j<n. j = 0 \<or> (j - 1) div 2 \<in> set done \<longrightarrow> awake s j \<Longrightarrow>
    \<exists>s'. wake_in_order is s = Some s' \<and> same_team s s' n \<and> (\<forall>j<n. j = 0 \<or> (j - 1) div 2 \<in> set (done @ is) \<longrightarrow> awake s' j)"
proof (induction "is" arbitrary: s "done")
  case Nil
  then show ?case using same_team_refl [of s n] by (auto simp: wake_in_order_def)
next
  case (Cons i "is")
  have i: "i < n" using Cons.prems(3) by simp
  have "i = 0 \<or> (i - 1) div 2 \<in> set done" using Cons.prems(4)
    by (auto simp: parent_first_def dest: spec [of _ "length done"])
  then have "awake s i" using Cons.prems(5) i by blast
  with wait_for_wakeup_wakes [OF Cons.prems(1,2) i] obtain t where t: "wait_for_wakeup (g_workers (rt_g s) ! i) s = Some t"
    "same_team s t n" "\<forall>j<n. 0 < j \<and> (j - 1) div 2 = i \<longrightarrow> awake t j" by blast
  have nt: "numbered t n" "g_P (rt_g t) = int n + 1" using t(2) Cons.prems(2) by (simp_all add: same_team_def)
  have aw: "\<forall>j<n. j = 0 \<or> (j - 1) div 2 \<in> set (done @ [i]) \<longrightarrow> awake t j"
  proof (intro allI impI)
    fix j assume j: "j < n" "j = 0 \<or> (j - 1) div 2 \<in> set (done @ [i])"
    have "awake s j \<Longrightarrow> awake t j" using t(2) j(1) by (simp add: same_team_def)
    then show "awake t j" using t(3) Cons.prems(5) j by (cases "j = 0 \<or> (j - 1) div 2 \<in> set done") auto
  qed
  have "set is \<subseteq> {..<n}" "parent_first ((done @ [i]) @ is)" using Cons.prems(3,4) by simp_all
  from Cons.IH [OF nt this aw] obtain u where u: "wake_in_order is t = Some u" "same_team t u n"
    "\<forall>j<n. j = 0 \<or> (j - 1) div 2 \<in> set ((done @ [i]) @ is) \<longrightarrow> awake u j" by blast
  have "wake_in_order (i # is) s = Some u" using t(1) u(1) by (simp add: wake_in_order_def)
  then show ?case using u(3) same_team_trans [OF t(2) u(2)] by auto
qed

text \<open>
  C39. When the first user thread enters and wakes the root, no system worker is left asleep: in every order in which a
  worker continues after its parent in the tree has sent it the message, none of them blocks on its semaphore, and all of
  the \<open>P - 1\<close> system workers are awake in the end.
\<close>

theorem wake_reaches_everyone:
  assumes "numbered s n" "g_P (rt_g s) = int n + 1" "0 < n" "g_Q (rt_g s) = 0" "parent_first is" "set is = {..<n}"
  shows "\<exists>s1 s2. enter_cilk s = Some s1 \<and> wake_in_order is s1 = Some s2 \<and> (\<forall>j<n. awake s2 j)"
proof -
  let ?s = "s\<lparr>rt_g := (rt_g s)\<lparr>g_Q := 1, g_active_workers := 1\<rparr>\<rparr>"
  have ws: "g_workers (rt_g ?s) = g_workers (rt_g s)" "g_P (rt_g ?s) = int n + 1" using assms(2) by simp_all
  have ns: "numbered ?s n" using assms(1) by (simp add: numbered_def wk_at_def)
  obtain s1 where s1: "node_msg (g_workers (rt_g ?s) ! 0) 1 ?s = Some s1" "same_team ?s s1 n" "awake s1 0"
    using node_msg_wakes [OF ns assms(3)] by blast
  have e: "enter_cilk s = Some s1"
    using s1(1) assms(1-4) by (auto simp: enter_cilk_def wake_runtime_def Let_def worker_number_def numbered_def)
  have n1: "numbered s1 n" "g_P (rt_g s1) = int n + 1" using s1(2) ws by (simp_all add: same_team_def)
  have "set is \<subseteq> {..<n}" "parent_first ([] @ is)" "\<forall>j<n. j = 0 \<or> (j - 1) div 2 \<in> set [] \<longrightarrow> awake s1 j"
    using assms(5,6) s1(3) by auto
  from wake_in_order_all [OF n1 this] obtain s2 where s2: "wake_in_order is s1 = Some s2"
    "\<forall>j<n. j = 0 \<or> (j - 1) div 2 \<in> set ([] @ is) \<longrightarrow> awake s2 j" by blast
  have "(j - 1) div 2 < n" if "j < n" for j using that by linarith
  then have "\<forall>j<n. awake s2 j" using s2(2) assms(6) by auto
  then show ?thesis using e s2(1) by blast
qed

text \<open>Six system workers, one in the second row woken first on the right.\<close>

definition sleepers :: rts where
  "sleepers = (rts_with_worker 11 example_local)
     \<lparr>rt_wk := (\<lambda>p. if 11 \<le> p \<and> p < 17 then Some ((example_worker example_local)\<lparr>wk_self := int p - 11\<rparr>) else None),
      rt_g := example_global\<lparr>g_P := 7, g_Q := 0, g_workers := [11, 12, 13, 14, 15, 16], g_total_workers := 6\<rparr>\<rparr>"

theorem wake_reaches_everyone_witness:
  "\<exists>s1 s2. enter_cilk sleepers = Some s1 \<and> wake_in_order [0, 2, 1, 5, 3, 4] s1 = Some s2 \<and> (\<forall>j\<in>{0, 1, 2, 3, 4, 5}. awake s2 j)"
proof -
  have a: "parent_first [0, 2, 1, 5, 3, 4]"
    by code_simp
  have b: "numbered sleepers 6" by (auto simp: numbered_def sleepers_def wk_at_def less_Suc_eq numeral_eq_Suc)
  have c: "g_P (rt_g sleepers) = int 6 + 1" "g_Q (rt_g sleepers) = 0" by (simp_all add: sleepers_def)
  have "set [0, 2, 1, 5, 3, 4] = {..<6::nat}" by (auto simp: numeral_eq_Suc less_Suc_eq)
  then show ?thesis using wake_reaches_everyone [OF b c(1) _ c(2) a] by auto
qed

end
