(* ===== verification/Batcher.thy ===== *)
theory Batcher
  imports Work_Loop Last_Arrival
begin

text \<open>
  Batches, \<^verbatim>\<open>batcher.c\<close>: a worker that calls an operation on a shared data structure switches to its second deque
  and either gets the batch lock and runs the operation as a batch, or helps the batch that is running. The state is
  that of the runtime with the pending batch, the record of every worker (found by the worker, not by its number), and the data structures
  (\<open>bt_data\<close>, whatever the operations work on). The operation itself is a parameter \<open>run\<close>: it takes the worker that calls it and
  returns the one that it ends on. The runtime is linked with the empty tool of \<^verbatim>\<open>cilktool_empty.c\<close>, whose try-lock is the one of the batch lock.
\<close>

datatype batch_item_status = ITEM_WAITING | ITEM_IN_PROGRESS | ITEM_DONE

record batch_record =
  br_operation :: nat
  br_ds :: ptr
  br_data_size :: nat
  br_data :: int
  br_status :: batch_item_status

record batch =
  ba_operation :: nat
  ba_ds :: ptr
  ba_data_size :: nat
  ba_num_ops :: nat
  ba_work_array :: "int list"
  ba_id :: int

record 'd bts =
  bt_rts :: rts
  bt_pending :: batch
  bt_records :: "ptr \<Rightarrow> batch_record"
  bt_data :: 'd

definition sizeof_int :: nat where "sizeof_int = 4"

text \<open>A function of the runtime on the larger state.\<close>

definition on_rts :: "(rts \<Rightarrow> rts proc) \<Rightarrow> 'd bts \<Rightarrow> 'd bts proc" where
  "on_rts f b = do { s \<leftarrow> f (bt_rts b); Some (b\<lparr>bt_rts := s\<rparr>) }"

definition batch_lock :: "'d bts \<Rightarrow> mutex" where
  "batch_lock b = g_batch_lock (rt_g (bt_rts b))"

definition set_batch_lock :: "mutex \<Rightarrow> 'd bts \<Rightarrow> 'd bts" where
  "set_batch_lock m b = b\<lparr>bt_rts := (bt_rts b)\<lparr>rt_g := (rt_g (bt_rts b))\<lparr>g_batch_lock := m\<rparr>\<rparr>\<rparr>"

section \<open>The batch\<close>

text \<open>
  \<^verbatim>\<open>collect_batch\<close> takes the waiting records for the pending operation, one per worker in the order of the
  workers. (The call is commented out in \<^verbatim>\<open>create_batch\<close>.)
\<close>

fun collect_records :: "ptr list \<Rightarrow> nat \<Rightarrow> 'd bts \<Rightarrow> 'd bts proc" where
  "collect_records [] num_ops b = Some (b\<lparr>bt_pending := (bt_pending b)\<lparr>ba_num_ops := num_ops\<rparr>\<rparr>)"
| "collect_records (v # vs) num_ops b = do {
     let r = bt_records b v;
     assert_c (br_status r \<noteq> ITEM_IN_PROGRESS);
     (if br_status r = ITEM_WAITING \<and> ba_operation (bt_pending b) = br_operation r then do {
        assert_c (ba_data_size (bt_pending b) = sizeof_int);
        assert_c (num_ops < length (ba_work_array (bt_pending b)));
        collect_records vs (num_ops + 1) (b\<lparr>bt_records := (bt_records b)(v := r\<lparr>br_status := ITEM_IN_PROGRESS\<rparr>),
          bt_pending := (bt_pending b)\<lparr>ba_work_array := (ba_work_array (bt_pending b))[num_ops := br_data r]\<rparr>\<rparr>) }
      else collect_records vs num_ops b) }"

definition collect_batch :: "ptr \<Rightarrow> 'd bts \<Rightarrow> 'd bts proc" where
  "collect_batch w b = do {
     assert_c (m_owner (batch_lock b) = w);
     assert_c (br_status (bt_records b w) = ITEM_WAITING);
     b \<leftarrow> collect_records (take (g_total_workers (rt_g (bt_rts b))) (g_workers (rt_g (bt_rts b)))) 0 b;
     assert_c (ba_num_ops (bt_pending b) > 0);
     Some b }"

definition create_batch :: "ptr \<Rightarrow> 'd bts \<Rightarrow> 'd bts proc" where
  "create_batch w b = do {
     let r = bt_records b w;
     assert_c (br_data_size r = sizeof_int);
     Some (b\<lparr>bt_pending := (bt_pending b)\<lparr>ba_operation := br_operation r, ba_ds := br_ds r, ba_data_size := br_data_size r\<rparr>\<rparr>) }"

text \<open>The release of the batch lock is written out, owner first.\<close>

definition terminate_batch :: "ptr \<Rightarrow> 'd bts \<Rightarrow> 'd bts proc" where
  "terminate_batch w b = do {
     l \<leftarrow> l_at (bt_rts b) w;
     d \<leftarrow> dq_at (bt_rts b) (l_batch_deque l);
     assert_c (dq_frame_ff d = NULL);
     let b = b\<lparr>bt_pending := (bt_pending b)\<lparr>ba_id := ba_id (bt_pending b) + 1\<rparr>\<rparr>;
     Some (set_batch_lock \<lparr>m_lock = False, m_owner = 0\<rparr> b) }"

definition create_batch_frame :: "ptr \<Rightarrow> ptr \<Rightarrow> rts \<Rightarrow> (ptr \<times> rts) proc" where
  "create_batch_frame w fiber s = do {
     let (ff, s) = make_full_frame NULL s;
     assert_c (fiber \<noteq> NULL);
     s \<leftarrow> ff_mod ff (\<lambda>f. f\<lparr>ff_fiber_self := fiber\<rparr>) s;
     s \<leftarrow> fb_mod fiber (\<lambda>x. x\<lparr>fb_owner := w\<rparr>) s;
     s \<leftarrow> ff_mod ff (\<lambda>f. f\<lparr>ff_join_counter := 1\<rparr>) s;
     Some (ff, s) }"

text \<open>The stack frame of \<^verbatim>\<open>call_batch\<close>; the other fields are not set.\<close>

definition batch_stack_frame :: "ptr \<Rightarrow> stack_frame" where
  "batch_stack_frame w = \<lparr>sf_flags = push_bit 24 1 OR CILK_FRAME_BATCH, sf_size = 0, sf_call_parent = NULL, sf_worker = w,
     sf_except_data = NULL, sf_ctx_sp = 0, sf_ctx_fp = 0, sf_reserved = 0, sf_pedigree = \<lparr>pd_rank = 0, pd_parent = Ped_Null\<rparr>\<rparr>"

definition push_batch_frame :: "ptr \<Rightarrow> rts \<Rightarrow> rts proc" where
  "push_batch_frame w s = do {
     k \<leftarrow> wk_at s w;
     assert_c (wk_current_stack_frame k = NULL);
     let sf = rt_next s;
     let s = s\<lparr>rt_sf := (rt_sf s)(sf \<mapsto> batch_stack_frame w), rt_next := rt_next s + 1\<rparr>;
     wk_mod w (\<lambda>k. k\<lparr>wk_current_stack_frame := sf\<rparr>) s }"

definition call_batch :: "(ptr \<Rightarrow> batch \<Rightarrow> 'd bts \<Rightarrow> (ptr \<times> 'd bts) proc) \<Rightarrow> ptr \<Rightarrow> 'd bts \<Rightarrow> (ptr \<times> 'd bts) proc" where
  "call_batch run w b = do {
     b \<leftarrow> on_rts (push_batch_frame w) b;
     (v, b) \<leftarrow> run w (bt_pending b) b;
     l \<leftarrow> l_at (bt_rts b) w;
     d \<leftarrow> dq_at (bt_rts b) (l_batch_deque l);
     (if dq_frame_ff d = NULL then Some ()
      else do { f \<leftarrow> ff_at (bt_rts b) (dq_frame_ff d); assert_c (ff_call_stack f = NULL) });
     Some (v, b) }"

definition c_return_from_batch :: "ptr \<Rightarrow> rts \<Rightarrow> rts proc" where
  "c_return_from_batch w s = do {
     s \<leftarrow> worker_lock w s;
     ff \<leftarrow> frame_ff s w;
     s \<leftarrow> (if ff \<noteq> NULL then do {
             f \<leftarrow> ff_at s ff;
             assert_c (ff_join_counter f = 1);
             s \<leftarrow> set_frame_ff w NULL s;
             assert_c (ff_fiber_self f \<noteq> NULL);
             destroy_full_frame ff s }
           else Some s);
     worker_unlock w s }"

text \<open>The assertion that assigns the head to the tail.\<close>

definition assign_tail :: "ptr \<Rightarrow> rts \<Rightarrow> rts proc" where
  "assign_tail w s = do {
     k \<leftarrow> wk_at s w;
     h \<leftarrow> dq_at s (wk_head k);
     dq_mod (wk_tail k) (\<lambda>d. d\<lparr>dq_tail := dq_head h\<rparr>) s }"

text \<open>Up to the switch to the scheduling fiber; the result is the worker it ends on.\<close>

definition invoke_batch :: "(ptr \<Rightarrow> batch \<Rightarrow> 'd bts \<Rightarrow> (ptr \<times> 'd bts) proc) \<Rightarrow> ptr \<Rightarrow> ptr \<Rightarrow> 'd bts \<Rightarrow> (ptr \<times> 'd bts) proc" where
  "invoke_batch run w fiber b = do {
     b \<leftarrow> on_rts (l_mod w (\<lambda>l. l\<lparr>l_batch_id := ba_id (bt_pending b)\<rparr>)) b;
     k \<leftarrow> wk_at (bt_rts b) w;
     d \<leftarrow> dq_at (bt_rts b) (l_batch_deque (wk_l k));
     assert_c (dq_frame_ff d = NULL);
     assert_c (wk_tail k = l_batch_deque (wk_l k));
     b \<leftarrow> on_rts (assign_tail w) b;
     b \<leftarrow> create_batch w b;
     (ff, s) \<leftarrow> create_batch_frame w fiber (bt_rts b);
     s \<leftarrow> set_frame_ff w ff s;
     (w, b) \<leftarrow> call_batch run w (b\<lparr>bt_rts := s\<rparr>);
     l \<leftarrow> l_at (bt_rts b) w;
     d \<leftarrow> dq_at (bt_rts b) (l_batch_deque l);
     assert_c (dq_head d = dq_tail d);
     b \<leftarrow> on_rts (c_return_from_batch w) b;
     b \<leftarrow> terminate_batch w b;
     b \<leftarrow> on_rts (fb_mod fiber (\<lambda>f. f\<lparr>fb_resume_sf := NULL\<rparr>)) b;
     Some (w, b) }"

section \<open>Helping\<close>

definition allocate_batch_fiber :: "ptr \<Rightarrow> ptr \<Rightarrow> rts \<Rightarrow> rts proc" where
  "allocate_batch_fiber w fiber s = do {
     assert_c (fiber \<noteq> NULL);
     fb_mod fiber (\<lambda>f. f\<lparr>fb_owner := w\<rparr>) s }"

definition resume_in_batch :: "outside \<Rightarrow> ptr \<Rightarrow> ptr \<Rightarrow> ptr \<Rightarrow> rts \<Rightarrow> rts proc" where
  "resume_in_batch E w fiber ff s = do {
     s \<leftarrow> worker_lock w s;
     own \<leftarrow> frame_ff s w;
     assert_c (own = NULL);
     s \<leftarrow> frame_lock w ff s;
     f \<leftarrow> ff_at s ff;
     let sf = ff_call_stack f;
     assert_c (sf \<noteq> NULL);
     x \<leftarrow> sf_at s sf;
     assert_c (sf_call_parent x = NULL);
     (_, s) \<leftarrow> setup_for_execution w ff False no_cxa s;
     s \<leftarrow> frame_unlock w ff s;
     s \<leftarrow> worker_unlock w s;
     s \<leftarrow> scheduling_fiber_prepare_to_resume_user_code w ff sf s;
     own \<leftarrow> frame_ff s w;
     f \<leftarrow> ff_at s own;
     let other = ff_fiber_self f;
     ob \<leftarrow> fb_at s other;
     assert_c (fb_resume_sf ob = NULL);
     s \<leftarrow> fb_mod fiber (\<lambda>b. b\<lparr>fb_resume_sf := NULL\<rparr>) s;
     cb \<leftarrow> fb_at s fiber;
     assert_c (fb_owner cb = w);
     s \<leftarrow> fb_mod other (\<lambda>b. b\<lparr>fb_resume_sf := sf\<rparr>) s;
     l \<leftarrow> l_at s w;
     assert_c (l_next_frame_ff l = NULL);
     o_user E other s }"

text \<open>Stealing from the batch as long as it runs.\<close>

partial_function (option) execute_batch :: "outside \<Rightarrow> ptr \<Rightarrow> ptr \<Rightarrow> int \<Rightarrow> 'd bts \<Rightarrow> 'd bts proc" where
  "execute_batch E w fiber batch_id b =
     (if ba_id (bt_pending b) \<le> batch_id \<and> m_owner (batch_lock b) \<noteq> 0 then do {
        (ff, s) \<leftarrow> pop_next_frame w (bt_rts b);
        (ff, s) \<leftarrow> (if ff \<noteq> NULL then Some (ff, s) else check_for_work E w STEAL_BATCH s);
        s \<leftarrow> (if ff \<noteq> NULL then resume_in_batch E w fiber ff s else Some s);
        execute_batch E w fiber batch_id (b\<lparr>bt_rts := s\<rparr>) }
      else Some b)"

text \<open>One turn of \<^verbatim>\<open>batch_scheduler_function\<close>, which ends with the switch back to the core fiber.\<close>

definition batch_scheduler_function :: "outside \<Rightarrow> ptr \<Rightarrow> 'd bts \<Rightarrow> 'd bts proc" where
  "batch_scheduler_function E w b = do {
     l \<leftarrow> l_at (bt_rts b) w;
     let fiber = l_scheduling_fiber l;
     assert_c (fiber = l_batch_scheduling_fiber l);
     fb \<leftarrow> fb_at (bt_rts b) fiber;
     assert_c (fb_owner fb = w);
     assert_c (fb_resume_sf fb = NULL);
     assert_c (l_frame_ff l = l_batch_deque l);
     d \<leftarrow> dq_at (bt_rts b) (l_batch_deque l);
     assert_c (dq_frame_ff d = NULL);
     execute_batch E w fiber (l_batch_id l) b }"

section \<open>Switching between the deques\<close>

definition point_to :: "ptr \<Rightarrow> deque_slot \<Rightarrow> worker \<Rightarrow> worker" where
  "point_to d slot k = k\<lparr>wk_tail := d, wk_head := d, wk_exc := d, wk_ltq_limit := d, wk_protected_tail := d,
     wk_l := (wk_l k)\<lparr>l_current_ltq := d, l_frame_ff := d, l_active_deque := slot\<rparr>\<rparr>"

lemma point_to_id:
  "point_to d slot k = k \<longleftrightarrow> wk_tail k = d \<and> wk_head k = d \<and> wk_exc k = d \<and> wk_ltq_limit k = d \<and> wk_protected_tail k = d \<and>
    l_current_ltq (wk_l k) = d \<and> l_frame_ff (wk_l k) = d \<and> l_active_deque (wk_l k) = slot"
  by (cases k; cases "wk_l k") (auto simp: point_to_def)

definition switch_to_batch_deque :: "ptr \<Rightarrow> rts \<Rightarrow> rts proc" where
  "switch_to_batch_deque w s = do {
     s \<leftarrow> worker_lock w s;
     k \<leftarrow> wk_at s w;
     let batch = l_batch_deque (wk_l k);
     b \<leftarrow> dq_at s batch;
     assert_c (dq_tail b = dq_head b);
     assert_c (dq_exc b = Some (dq_tail b));
     assert_c (dq_tail b = 0);
     assert_c (dq_protected_tail b = g_ltqsize (rt_g s));
     assert_c (dq_frame_ff b = NULL);
     s \<leftarrow> wk_mod w (point_to batch Batch_Deque) s;
     c \<leftarrow> dq_at s (l_core_deque (wk_l k));
     s \<leftarrow> dq_mod batch (\<lambda>b. b\<lparr>dq_team := dq_team c\<rparr>) s;
     worker_unlock w s }"

definition switch_to_core_deque :: "ptr \<Rightarrow> rts \<Rightarrow> rts proc" where
  "switch_to_core_deque w s = do {
     s \<leftarrow> worker_lock w s;
     k \<leftarrow> wk_at s w;
     let core = l_core_deque (wk_l k);
     let batch = l_batch_deque (wk_l k);
     b \<leftarrow> dq_at s batch;
     assert_c (dq_frame_ff b = NULL);
     s \<leftarrow> dq_mod batch (\<lambda>b. b\<lparr>dq_head := 0, dq_tail := 0, dq_exc := Some 0\<rparr>) s;
     s \<leftarrow> wk_mod w (point_to core Core_Deque) s;
     s \<leftarrow> l_mod w (\<lambda>l. l\<lparr>l_batch_id := -1\<rparr>) s;
     worker_unlock w s }"

definition insert_batch_record :: "ptr \<Rightarrow> nat \<Rightarrow> ptr \<Rightarrow> int \<Rightarrow> nat \<Rightarrow> 'd bts \<Rightarrow> 'd bts" where
  "insert_batch_record w func ds data n b = b\<lparr>bt_records := (bt_records b)(w :=
     \<lparr>br_operation = func, br_ds = ds, br_data_size = n, br_data = data, br_status = ITEM_WAITING\<rparr>)\<rparr>"

definition batcher_trylock :: "ptr \<Rightarrow> 'd bts \<Rightarrow> (bool \<times> 'd bts) proc" where
  "batcher_trylock w b = do {
     (got, m) \<leftarrow> mutex_trylock w (batch_lock b);
     Some (got, set_batch_lock m b) }"

definition set_next_batch_owner :: "ptr \<Rightarrow> 'd bts \<Rightarrow> 'd bts proc" where
  "set_next_batch_owner w b = do { (got, b) \<leftarrow> batcher_trylock w b; assert_c got; Some b }"

text \<open>The fiber of the batch, null if there is none to start.\<close>

definition try_to_start_batch :: "outside \<Rightarrow> ptr \<Rightarrow> 'd bts \<Rightarrow> (ptr \<times> 'd bts) proc" where
  "try_to_start_batch E w b = do {
     k \<leftarrow> wk_at (bt_rts b) w;
     assert_c (wk_head k = l_batch_deque (wk_l k));
     (is_batch_owner, b) \<leftarrow> batcher_trylock w b;
     (if \<not> is_batch_owner then Some (NULL, b)
      else if br_status (bt_records b w) = ITEM_WAITING then do {
        let fiber = o_fiber E (bt_rts b);
        b \<leftarrow> on_rts (allocate_batch_fiber w fiber) b;
        Some (fiber, b) }
      else do { m \<leftarrow> mutex_unlock w (batch_lock b); Some (NULL, set_batch_lock m b) }) }"

section \<open>The call\<close>

text \<open>
  With the switches of fibers carried out: the batch fiber, if there is one, and then the batch scheduling
  fiber run until the core fiber is resumed. A batch whose operation ends on another worker resumes that
  worker's fiber, not this one's, and is not a run of this function.
\<close>

definition execute_until_op_done :: "outside \<Rightarrow> (ptr \<Rightarrow> batch \<Rightarrow> 'd bts \<Rightarrow> (ptr \<times> 'd bts) proc) \<Rightarrow> ptr \<Rightarrow> ptr \<Rightarrow> 'd bts \<Rightarrow> 'd bts proc" where
  "execute_until_op_done E run w current_fiber b = do {
     l \<leftarrow> l_at (bt_rts b) w;
     c \<leftarrow> dq_at (bt_rts b) (l_core_deque l);
     assert_c (dq_frame_ff c \<noteq> NULL);
     (batch_fiber, b) \<leftarrow> try_to_start_batch E w b;
     k \<leftarrow> wk_at (bt_rts b) w;
     let saved_fiber = l_scheduling_fiber (wk_l k);
     let saved_stack_frame = wk_current_stack_frame k;
     b \<leftarrow> on_rts (wk_mod w (\<lambda>k. k\<lparr>wk_current_stack_frame := NULL, wk_l := (wk_l k)\<lparr>l_saved_core_fiber := current_fiber,
            l_scheduling_fiber := l_batch_scheduling_fiber (wk_l k)\<rparr>\<rparr>)) b;
     b \<leftarrow> (if batch_fiber \<noteq> NULL then do {
             (v, b) \<leftarrow> invoke_batch run w batch_fiber b;
             assert_c (v = w);
             batch_scheduler_function E w b }
           else batch_scheduler_function E w b);
     on_rts (wk_mod w (\<lambda>k. k\<lparr>wk_current_stack_frame := saved_stack_frame, wk_l := (wk_l k)\<lparr>l_saved_core_fiber := NULL,
       l_scheduling_fiber := saved_fiber\<rparr>\<rparr>)) b }"

definition set_batch_id :: "ptr \<Rightarrow> 'd bts \<Rightarrow> 'd bts proc" where
  "set_batch_id w b = on_rts (l_mod w (\<lambda>l. l\<lparr>l_batch_id := ba_id (bt_pending b)\<rparr>)) b"

definition get_batch_id :: "ptr \<Rightarrow> 'd bts \<Rightarrow> int proc" where
  "get_batch_id w b = do { l \<leftarrow> l_at (bt_rts b) w; Some (l_batch_id l) }"

definition cilk_batchify :: "outside \<Rightarrow> (ptr \<Rightarrow> batch \<Rightarrow> 'd bts \<Rightarrow> (ptr \<times> 'd bts) proc) \<Rightarrow> ptr \<Rightarrow> ptr \<Rightarrow> nat \<Rightarrow> ptr \<Rightarrow> int \<Rightarrow>
    'd bts \<Rightarrow> 'd bts proc" where
  "cilk_batchify E run w cur f ds data b = do {
     l \<leftarrow> l_at (bt_rts b) w;
     assert_c (l_frame_ff l = l_core_deque l);
     a \<leftarrow> active_deque (bt_rts b) w;
     x \<leftarrow> dq_at (bt_rts b) a;
     assert_c (dq_team x \<noteq> NULL);
     b \<leftarrow> on_rts (switch_to_batch_deque w) b;
     l \<leftarrow> l_at (bt_rts b) w;
     b \<leftarrow> (if l_batch_id l = -1 then set_batch_id w b else Some b);
     b \<leftarrow> execute_until_op_done E run w cur (insert_batch_record w f ds data sizeof_int b);
     l \<leftarrow> l_at (bt_rts b) w;
     assert_c (l_next_frame_ff l = NULL);
     b \<leftarrow> on_rts (switch_to_core_deque w) b;
     l \<leftarrow> l_at (bt_rts b) w;
     d \<leftarrow> dq_at (bt_rts b) (l_batch_deque l);
     assert_c (dq_frame_ff d = NULL);
     Some b }"

section \<open>A batch without contention\<close>

text \<open>
  An operation that does not use the runtime, as a function of what \<^verbatim>\<open>call_batch\<close> passes (the data structure, the work
  array and the number of operations) and of the data structures.
\<close>

definition serial_op :: "(nat \<Rightarrow> ptr \<Rightarrow> int list \<Rightarrow> nat \<Rightarrow> 'd \<Rightarrow> 'd) \<Rightarrow> ptr \<Rightarrow> batch \<Rightarrow> 'd bts \<Rightarrow> (ptr \<times> 'd bts) proc" where
  "serial_op op w p b = Some (w, b\<lparr>bt_data := op (ba_operation p) (ba_ds p) (ba_work_array p) (ba_num_ops p) (bt_data b)\<rparr>)"

text \<open>What the steps of a batch look at: the worker, its two deques, the batch lock and the two fibers of the batch.\<close>

definition batch_state :: "ptr \<Rightarrow> ptr \<Rightarrow> nat \<Rightarrow> worker \<Rightarrow> deque \<Rightarrow> deque \<Rightarrow> mutex \<Rightarrow> rts \<Rightarrow> bool" where
  "batch_state w fib n k C B m s \<longleftrightarrow> wk_at s w = Some k \<and> dq_at s (l_core_deque (wk_l k)) = Some C \<and>
     dq_at s (l_batch_deque (wk_l k)) = Some B \<and> l_core_deque (wk_l k) \<noteq> l_batch_deque (wk_l k) \<and>
     g_ltqsize (rt_g s) = n \<and> g_batch_lock (rt_g s) = m \<and> 0 < rt_next s \<and> fb_at s fib \<noteq> None \<and>
     fib \<noteq> l_batch_scheduling_fiber (wk_l k) \<and>
     (\<exists>x. fb_at s (l_batch_scheduling_fiber (wk_l k)) = Some x \<and> fb_owner x = w \<and> fb_resume_sf x = NULL)"

definition unlocked :: "worker \<Rightarrow> bool" where
  "unlocked k \<longleftrightarrow> \<not> l_do_not_steal (wk_l k) \<and> l_lock (wk_l k) = free_lock"

definition empty_batch_deque :: "deque \<Rightarrow> bool" where
  "empty_batch_deque B \<longleftrightarrow> dq_tail B = 0 \<and> dq_head B = 0 \<and> dq_exc B = Some 0 \<and> dq_frame_ff B = NULL"

definition on_core :: "worker \<Rightarrow> bool" where
  "on_core k \<longleftrightarrow> point_to (l_core_deque (wk_l k)) Core_Deque k = k \<and> unlocked k \<and> l_batch_id (wk_l k) = -1 \<and>
     l_saved_core_fiber (wk_l k) = NULL \<and> l_next_frame_ff (wk_l k) = NULL"

lemma batch_state_wk:
  assumes "batch_state w fib n k C B m s" "l_core_deque (wk_l k') = l_core_deque (wk_l k)"
    "l_batch_deque (wk_l k') = l_batch_deque (wk_l k)" "l_batch_scheduling_fiber (wk_l k') = l_batch_scheduling_fiber (wk_l k)"
  shows "batch_state w fib n k' C B m (put_wk w k' s)"
  using assms by (simp add: batch_state_def)

lemma batch_state_dq:
  "batch_state w fib n k C B m s \<Longrightarrow> batch_state w fib n k C B' m (put_dq (l_batch_deque (wk_l k)) B' s)"
  by (simp add: batch_state_def)

lemma batch_state_fb:
  "batch_state w fib n k C B m s \<Longrightarrow> \<exists>s'. fb_mod fib f s = Some s' \<and> batch_state w fib n k C B m s' \<and> rt_ff s' = rt_ff s"
  by (auto simp: batch_state_def fb_mod_def fb_at_def wk_at_def dq_at_def)

lemma batch_state_at:
  assumes "batch_state w fib n k C B m s"
  shows "wk_at s w = Some k" "l_at s w = Some (wk_l k)" "dq_at s (l_core_deque (wk_l k)) = Some C"
    "dq_at s (l_batch_deque (wk_l k)) = Some B" "g_ltqsize (rt_g s) = n" "g_batch_lock (rt_g s) = m"
  using assms by (simp_all add: batch_state_def l_at_wk)

lemma switch_to_batch_deque_state:
  assumes "batch_state w fib n k C B m s" "unlocked k" "empty_batch_deque B" "dq_protected_tail B = n"
  shows "\<exists>s'. switch_to_batch_deque w s = Some s' \<and>
    batch_state w fib n (point_to (l_batch_deque (wk_l k)) Batch_Deque k) C (B\<lparr>dq_team := dq_team C\<rparr>) m s'"
proof -
  let ?locked = "k\<lparr>wk_l := (wk_l k)\<lparr>l_do_not_steal := True, l_lock := held_by w\<rparr>\<rparr>"
  let ?k2 = "point_to (l_batch_deque (wk_l k)) Batch_Deque ?locked"
  let ?k3 = "?k2\<lparr>wk_l := (wk_l ?k2)\<lparr>l_lock := free_lock, l_do_not_steal := False\<rparr>\<rparr>"
  let ?s = "put_dq (l_batch_deque (wk_l k)) (B\<lparr>dq_team := dq_team C\<rparr>) (put_wk w ?k2 s)"
  note at = batch_state_at [OF assms(1)]
  have u: "\<not> l_do_not_steal (wk_l k)" "l_lock (wk_l k) = free_lock" using assms(2) by (simp_all add: unlocked_def)
  have s: "batch_state w fib n ?k2 C (B\<lparr>dq_team := dq_team C\<rparr>) m ?s"
    using batch_state_dq [OF batch_state_wk [OF assms(1), of ?k2], of "B\<lparr>dq_team := dq_team C\<rparr>"] by (simp add: point_to_def)
  have e: "?k3 = point_to (l_batch_deque (wk_l k)) Batch_Deque k" using u by (simp add: point_to_def)
  have "switch_to_batch_deque w s = Some (put_wk w ?k3 ?s)"
    using at(1-5) assms(3,4) worker_lock_put [OF at(1) u] worker_unlock_put [OF batch_state_at(1) [OF s]]
    by (simp add: switch_to_batch_deque_def empty_batch_deque_def point_to_def Let_def)
  moreover have "batch_state w fib n ?k3 C (B\<lparr>dq_team := dq_team C\<rparr>) m (put_wk w ?k3 ?s)"
    by (rule batch_state_wk [OF s]) (simp_all add: point_to_def)
  ultimately show ?thesis by (simp only: e) blast
qed

definition back_on_core :: "worker \<Rightarrow> worker" where
  "back_on_core k = (point_to (l_core_deque (wk_l k)) Core_Deque k)
     \<lparr>wk_l := (wk_l (point_to (l_core_deque (wk_l k)) Core_Deque k))\<lparr>l_batch_id := -1\<rparr>\<rparr>"

lemma switch_to_core_deque_state:
  assumes "batch_state w fib n k C B m s" "unlocked k" "dq_frame_ff B = NULL"
  shows "\<exists>s'. switch_to_core_deque w s = Some s' \<and>
    batch_state w fib n (back_on_core k) C (B\<lparr>dq_head := 0, dq_tail := 0, dq_exc := Some 0\<rparr>) m s'"
proof -
  let ?locked = "k\<lparr>wk_l := (wk_l k)\<lparr>l_do_not_steal := True, l_lock := held_by w\<rparr>\<rparr>"
  let ?B = "B\<lparr>dq_head := 0, dq_tail := 0, dq_exc := Some 0\<rparr>"
  let ?k2 = "back_on_core ?locked"
  let ?k3 = "?k2\<lparr>wk_l := (wk_l ?k2)\<lparr>l_lock := free_lock, l_do_not_steal := False\<rparr>\<rparr>"
  let ?s1 = "put_dq (l_batch_deque (wk_l k)) ?B (put_wk w ?locked s)"
  let ?s = "put_wk w ?k2 ?s1"
  note at = batch_state_at [OF assms(1)]
  have u: "\<not> l_do_not_steal (wk_l k)" "l_lock (wk_l k) = free_lock" using assms(2) by (simp_all add: unlocked_def)
  have s1: "batch_state w fib n ?locked C ?B m ?s1"
    using batch_state_dq [OF batch_state_wk [OF assms(1), of ?locked], of ?B] by simp
  have s: "batch_state w fib n ?k2 C ?B m ?s"
    by (rule batch_state_wk [OF s1]) (simp_all add: back_on_core_def point_to_def)
  have e: "?k3 = back_on_core k" using u by (simp add: point_to_def back_on_core_def)
  have "switch_to_core_deque w s = Some (put_wk w ?k3 ?s)"
    using at(1-4) assms(3) worker_lock_put [OF at(1) u] worker_unlock_put [OF batch_state_at(1) [OF s]]
    by (simp add: switch_to_core_deque_def back_on_core_def point_to_def Let_def)
  moreover have "batch_state w fib n ?k3 C ?B m (put_wk w ?k3 ?s)"
    by (rule batch_state_wk [OF s]) (simp_all add: back_on_core_def point_to_def)
  ultimately show ?thesis by (simp only: e) blast
qed

definition batch_frame :: "ptr \<Rightarrow> full_frame" where
  "batch_frame fib = (new_full_frame NULL)\<lparr>ff_fiber_self := fib, ff_join_counter := 1\<rparr>"

lemma create_batch_frame_state:
  assumes "batch_state w fib n k C B m s" "fib \<noteq> NULL"
  shows "\<exists>s' p. create_batch_frame w fib s = Some (p, s') \<and> batch_state w fib n k C B m s' \<and> ff_at s' p = Some (batch_frame fib) \<and> p \<noteq> NULL"
proof -
  let ?p = "rt_next s"
  let ?s1 = "s\<lparr>rt_next := ?p + 1, rt_ff := (rt_ff s)(?p \<mapsto> (new_full_frame NULL)\<lparr>ff_fiber_self := fib\<rparr>)\<rparr>"
  have 1: "batch_state w fib n k C B m ?s1" using assms(1) by (simp add: batch_state_def wk_at_def dq_at_def fb_at_def)
  obtain s2 where s2: "fb_mod fib (\<lambda>x. x\<lparr>fb_owner := w\<rparr>) ?s1 = Some s2" "batch_state w fib n k C B m s2" "rt_ff s2 = rt_ff ?s1"
    using batch_state_fb [OF 1] by blast
  let ?s3 = "put_ff ?p (batch_frame fib) s2"
  have "create_batch_frame w fib s = Some (?p, ?s3)"
    using s2(1,3) assms(2) by (simp add: create_batch_frame_def make_full_frame_def ff_mod_def ff_at_def put_ff_def batch_frame_def Let_def)
  moreover have "batch_state w fib n k C B m ?s3" using s2(2) by (simp add: batch_state_def put_ff_def wk_at_def dq_at_def fb_at_def)
  moreover have "?p \<noteq> NULL" using assms(1) by (simp add: batch_state_def)
  ultimately show ?thesis by (metis put_ff_at)
qed

lemma push_batch_frame_state:
  assumes "batch_state w fib n k C B m s" "wk_current_stack_frame k = NULL"
  shows "\<exists>s' sf. push_batch_frame w s = Some s' \<and> batch_state w fib n (k\<lparr>wk_current_stack_frame := sf\<rparr>) C B m s' \<and> rt_ff s' = rt_ff s"
proof -
  let ?s1 = "s\<lparr>rt_sf := (rt_sf s)(rt_next s \<mapsto> batch_stack_frame w), rt_next := rt_next s + 1\<rparr>"
  let ?k = "k\<lparr>wk_current_stack_frame := rt_next s\<rparr>"
  have 1: "batch_state w fib n k C B m ?s1" using assms(1) by (simp add: batch_state_def wk_at_def dq_at_def fb_at_def)
  have "push_batch_frame w s = Some (put_wk w ?k ?s1)"
    using assms batch_state_at(1) [OF 1] batch_state_at(1) [OF assms(1)] by (simp add: push_batch_frame_def Let_def)
  moreover have "batch_state w fib n ?k C B m (put_wk w ?k ?s1)" by (rule batch_state_wk [OF 1]) simp_all
  moreover have "rt_ff (put_wk w ?k ?s1) = rt_ff s" by (simp add: put_wk_def)
  ultimately show ?thesis by blast
qed

lemma c_return_from_batch_state:
  assumes "batch_state w fib n k C B m s" "unlocked k" "l_frame_ff (wk_l k) = l_batch_deque (wk_l k)" "fib \<noteq> NULL"
    and "dq_frame_ff B = p" "p \<noteq> NULL" "ff_at s p = Some (batch_frame fib)"
  shows "\<exists>s'. c_return_from_batch w s = Some s' \<and> batch_state w fib n k C (B\<lparr>dq_frame_ff := NULL\<rparr>) m s'"
proof -
  let ?k = "k\<lparr>wk_l := (wk_l k)\<lparr>l_do_not_steal := True, l_lock := held_by w\<rparr>\<rparr>"
  let ?B = "B\<lparr>dq_frame_ff := NULL\<rparr>"
  let ?s1 = "put_dq (l_batch_deque (wk_l k)) ?B (put_wk w ?k s)"
  let ?s2 = "?s1\<lparr>rt_ff := (rt_ff ?s1)(p := None)\<rparr>"
  have u: "\<not> l_do_not_steal (wk_l k)" "l_lock (wk_l k) = free_lock" using assms(2) by (simp_all add: unlocked_def)
  note at = batch_state_at [OF assms(1)]
  have s1: "batch_state w fib n ?k C ?B m ?s1" using batch_state_dq [OF batch_state_wk [OF assms(1), of ?k], of ?B] by simp
  then have s2: "batch_state w fib n ?k C ?B m ?s2" by (simp add: batch_state_def wk_at_def dq_at_def fb_at_def)
  have d: "destroy_full_frame p ?s1 = Some ?s2"
    using assms(7) by (simp add: destroy_full_frame_def batch_frame_def new_full_frame_def)
  let ?s3 = "put_wk w (?k\<lparr>wk_l := (wk_l ?k)\<lparr>l_lock := free_lock, l_do_not_steal := False\<rparr>\<rparr>) ?s2"
  have e: "?k\<lparr>wk_l := (wk_l ?k)\<lparr>l_lock := free_lock, l_do_not_steal := False\<rparr>\<rparr> = k" using u by simp
  have "c_return_from_batch w s = Some ?s3"
    using worker_lock_put [OF at(1) u] worker_unlock_put [OF batch_state_at(1) [OF s2]] d at assms(3-7)
    by (simp add: c_return_from_batch_def frame_ff_def set_frame_ff_def batch_frame_def)
  moreover have "batch_state w fib n k C ?B m (put_wk w k ?s2)" by (rule batch_state_wk [OF s2]) simp_all
  ultimately show ?thesis by (simp only: e) blast
qed

definition started :: "batch_record \<Rightarrow> batch \<Rightarrow> batch" where
  "started r p = p\<lparr>ba_operation := br_operation r, ba_ds := br_ds r, ba_data_size := br_data_size r\<rparr>"

definition ended :: "batch \<Rightarrow> batch" where
  "ended p = p\<lparr>ba_id := ba_id p + 1\<rparr>"

lemma set_batch_lock_state:
  "batch_state w fib n k C B m s \<Longrightarrow> batch_state w fib n k C B m' (s\<lparr>rt_g := (rt_g s)\<lparr>g_batch_lock := m'\<rparr>\<rparr>)"
  by (simp add: batch_state_def wk_at_def dq_at_def fb_at_def)

lemma invoke_batch_state:
  assumes S: "batch_state w fib n k C B m (bt_rts b)" and u: "unlocked k" and pt: "point_to (l_batch_deque (wk_l k)) Batch_Deque k = k"
    and sf: "wk_current_stack_frame k = NULL" and B: "empty_batch_deque B" and r: "br_data_size (bt_records b w) = sizeof_int"
    and fib: "fib \<noteq> NULL"
  shows "\<exists>s' sf. invoke_batch (serial_op op) w fib b = Some (w, b\<lparr>bt_rts := s', bt_pending := ended (started (bt_records b w) (bt_pending b)),
      bt_data := op (br_operation (bt_records b w)) (br_ds (bt_records b w)) (ba_work_array (bt_pending b)) (ba_num_ops (bt_pending b)) (bt_data b)\<rparr>) \<and>
    batch_state w fib n (k\<lparr>wk_l := (wk_l k)\<lparr>l_batch_id := ba_id (bt_pending b)\<rparr>, wk_current_stack_frame := sf\<rparr>) C B free_lock s'"
proof -
  let ?k = "k\<lparr>wk_l := (wk_l k)\<lparr>l_batch_id := ba_id (bt_pending b)\<rparr>\<rparr>"
  let ?bd = "l_batch_deque (wk_l k)"
  have k: "wk_tail k = ?bd" "wk_head k = ?bd" "l_frame_ff (wk_l k) = ?bd"
    using pt by (simp_all add: point_to_id)
  let ?s1 = "put_wk w ?k (bt_rts b)"
  have S1: "batch_state w fib n ?k C B m ?s1" by (rule batch_state_wk [OF S]) simp_all
  let ?s2 = "put_dq ?bd (B\<lparr>dq_tail := dq_head B\<rparr>) ?s1"
  have "B\<lparr>dq_tail := dq_head B\<rparr> = B" using B by (cases B) (simp add: empty_batch_deque_def)
  then have S2: "batch_state w fib n ?k C B m ?s2" using batch_state_dq [OF S1, of B] by simp
  have a: "assign_tail w ?s1 = Some ?s2" using k batch_state_at [OF S1] by (simp add: assign_tail_def)
  obtain s3 p where s3: "create_batch_frame w fib ?s2 = Some (p, s3)" "batch_state w fib n ?k C B m s3"
    "ff_at s3 p = Some (batch_frame fib)" "p \<noteq> NULL" using create_batch_frame_state [OF S2 fib] by blast
  let ?s4 = "put_dq ?bd (B\<lparr>dq_frame_ff := p\<rparr>) s3"
  have S4: "batch_state w fib n ?k C (B\<lparr>dq_frame_ff := p\<rparr>) m ?s4" using batch_state_dq [OF s3(2), of "B\<lparr>dq_frame_ff := p\<rparr>"] by simp
  have f: "set_frame_ff w p s3 = Some ?s4" using k(3) batch_state_at [OF s3(2)] by (simp add: set_frame_ff_def)
  obtain s5 sf where s5: "push_batch_frame w ?s4 = Some s5" "rt_ff s5 = rt_ff ?s4"
    "batch_state w fib n (?k\<lparr>wk_current_stack_frame := sf\<rparr>) C (B\<lparr>dq_frame_ff := p\<rparr>) m s5"
    using push_batch_frame_state [OF S4] sf by auto
  let ?k5 = "?k\<lparr>wk_current_stack_frame := sf\<rparr>"
  have F: "ff_at s5 p = Some (batch_frame fib)" using s3(3) s5(2) by (simp add: ff_at_def put_dq_def)
  obtain s6 where s6: "c_return_from_batch w s5 = Some s6" "batch_state w fib n ?k5 C ((B\<lparr>dq_frame_ff := p\<rparr>)\<lparr>dq_frame_ff := NULL\<rparr>) m s6"
    using c_return_from_batch_state [OF s5(3) _ _ fib _ s3(4) F] u k(3) by (auto simp: unlocked_def)
  have "(B\<lparr>dq_frame_ff := p\<rparr>)\<lparr>dq_frame_ff := NULL\<rparr> = B" using B by (cases B) (simp add: empty_batch_deque_def)
  then have S6: "batch_state w fib n ?k5 C B m s6" using s6(2) by simp
  let ?s7 = "s6\<lparr>rt_g := (rt_g s6)\<lparr>g_batch_lock := free_lock\<rparr>\<rparr>"
  note S7 = set_batch_lock_state [OF S6, of free_lock]
  obtain s8 where s8: "fb_mod fib (\<lambda>f. f\<lparr>fb_resume_sf := NULL\<rparr>) ?s7 = Some s8" "batch_state w fib n ?k5 C B free_lock s8"
    using batch_state_fb [OF S7] by blast
  have frame: "dq_frame_ff B = NULL" "dq_tail B = dq_head B" using B by (simp_all add: empty_batch_deque_def)
  show ?thesis
  proof (intro exI conjI)
    show "invoke_batch (serial_op op) w fib b = Some (w, b\<lparr>bt_rts := s8, bt_pending := ended (started (bt_records b w) (bt_pending b)),
      bt_data := op (br_operation (bt_records b w)) (br_ds (bt_records b w)) (ba_work_array (bt_pending b)) (ba_num_ops (bt_pending b)) (bt_data b)\<rparr>)"
      using batch_state_at [OF S] batch_state_at [OF S1] batch_state_at [OF s5(3)] batch_state_at [OF S6] a s3(1) f s5(1) s6(1) s8(1) r k(1) F frame
      by (simp add: invoke_batch_def on_rts_def create_batch_def call_batch_def serial_op_def terminate_batch_def set_batch_lock_def
        started_def ended_def batch_frame_def new_full_frame_def free_lock_def Let_def)
    show "batch_state w fib n (k\<lparr>wk_l := (wk_l k)\<lparr>l_batch_id := ba_id (bt_pending b)\<rparr>, wk_current_stack_frame := sf\<rparr>) C B free_lock s8"
      using s8(2) by simp
  qed
qed

lemma try_to_start_batch_state:
  assumes S: "batch_state w fib n k C B free_lock (bt_rts b)" and k: "wk_head k = l_batch_deque (wk_l k)"
    and r: "br_status (bt_records b w) = ITEM_WAITING" and fib: "fib \<noteq> NULL" "\<forall>s. o_fiber E s = fib"
  shows "\<exists>s'. try_to_start_batch E w b = Some (fib, b\<lparr>bt_rts := s'\<rparr>) \<and> batch_state w fib n k C B (held_by w) s'"
proof -
  let ?s = "(bt_rts b)\<lparr>rt_g := (rt_g (bt_rts b))\<lparr>g_batch_lock := held_by w\<rparr>\<rparr>"
  note S1 = set_batch_lock_state [OF S, of "held_by w"]
  obtain s' where s': "fb_mod fib (\<lambda>f. f\<lparr>fb_owner := w\<rparr>) ?s = Some s'" "batch_state w fib n k C B (held_by w) s'"
    using batch_state_fb [OF S1] by blast
  have "try_to_start_batch E w b = Some (fib, b\<lparr>bt_rts := s'\<rparr>)"
    using batch_state_at [OF S] k r fib s'(1)
    by (simp add: try_to_start_batch_def batcher_trylock_def batch_lock_def set_batch_lock_def mutex_trylock_def try_acquire_def
      free_lock_def held_by_def allocate_batch_fiber_def on_rts_def Let_def)
  then show ?thesis using s'(2) by blast
qed

lemma batch_scheduler_over:
  assumes "batch_state w fib n k C B m (bt_rts b)" "l_scheduling_fiber (wk_l k) = l_batch_scheduling_fiber (wk_l k)"
    "l_frame_ff (wk_l k) = l_batch_deque (wk_l k)" "dq_frame_ff B = NULL" "l_batch_id (wk_l k) < ba_id (bt_pending b)"
  shows "batch_scheduler_function E w b = Some b"
  using assms batch_state_at [OF assms(1)]
  by (auto simp: batch_scheduler_function_def batch_state_def execute_batch.simps [of E w _ _ b] Let_def)

lemma execute_until_op_done_state:
  assumes S: "batch_state w fib n k C B free_lock (bt_rts b)" and u: "unlocked k" and pt: "point_to (l_batch_deque (wk_l k)) Batch_Deque k = k"
    and B: "empty_batch_deque B" and r: "bt_records b w = r" "br_status r = ITEM_WAITING" "br_data_size r = sizeof_int"
    and fib: "fib \<noteq> NULL" "\<forall>s. o_fiber E s = fib" and C: "dq_frame_ff C \<noteq> NULL" and id: "l_batch_id (wk_l k) = ba_id (bt_pending b)"
    and saved: "l_saved_core_fiber (wk_l k) = NULL"
  shows "\<exists>s'. execute_until_op_done E (serial_op op) w cur b = Some (b\<lparr>bt_rts := s', bt_pending := ended (started r (bt_pending b)),
      bt_data := op (br_operation r) (br_ds r) (ba_work_array (bt_pending b)) (ba_num_ops (bt_pending b)) (bt_data b)\<rparr>) \<and> batch_state w fib n k C B free_lock s'"
proof -
  let ?bd = "l_batch_deque (wk_l k)"
  have k: "wk_head k = ?bd" "l_frame_ff (wk_l k) = ?bd" using pt by (simp_all add: point_to_id)
  obtain s1 where s1: "try_to_start_batch E w b = Some (fib, b\<lparr>bt_rts := s1\<rparr>)" "batch_state w fib n k C B (held_by w) s1"
    using try_to_start_batch_state [OF S k(1) _ fib] r by auto
  let ?k2 = "k\<lparr>wk_current_stack_frame := NULL, wk_l := (wk_l k)\<lparr>l_saved_core_fiber := cur,
     l_scheduling_fiber := l_batch_scheduling_fiber (wk_l k)\<rparr>\<rparr>"
  let ?b2 = "b\<lparr>bt_rts := put_wk w ?k2 s1\<rparr>"
  have S2: "batch_state w fib n ?k2 C B (held_by w) (bt_rts ?b2)" using batch_state_wk [OF s1(2), of ?k2] by simp
  have "unlocked ?k2" "point_to (l_batch_deque (wk_l ?k2)) Batch_Deque ?k2 = ?k2"
    using u pt by (simp_all add: unlocked_def point_to_id)
  from invoke_batch_state [where op = op, OF S2 this _ B _ fib(1)] r
  obtain s3 sf where s3: "invoke_batch (serial_op op) w fib ?b2 = Some (w, b\<lparr>bt_rts := s3, bt_pending := ended (started r (bt_pending b)),
      bt_data := op (br_operation r) (br_ds r) (ba_work_array (bt_pending b)) (ba_num_ops (bt_pending b)) (bt_data b)\<rparr>)"
    "batch_state w fib n (?k2\<lparr>wk_l := (wk_l ?k2)\<lparr>l_batch_id := ba_id (bt_pending b)\<rparr>, wk_current_stack_frame := sf\<rparr>) C B free_lock s3"
    by auto
  let ?k3 = "?k2\<lparr>wk_l := (wk_l ?k2)\<lparr>l_batch_id := ba_id (bt_pending b)\<rparr>, wk_current_stack_frame := sf\<rparr>"
  let ?b3 = "b\<lparr>bt_rts := s3, bt_pending := ended (started r (bt_pending b)),
      bt_data := op (br_operation r) (br_ds r) (ba_work_array (bt_pending b)) (ba_num_ops (bt_pending b)) (bt_data b)\<rparr>"
  have S3: "batch_state w fib n ?k3 C B free_lock (bt_rts ?b3)" using s3(2) by simp
  have over: "batch_scheduler_function E w ?b3 = Some ?b3"
    by (rule batch_scheduler_over [OF S3]) (use B k in \<open>simp_all add: empty_batch_deque_def ended_def started_def\<close>)
  let ?k4 = "?k3\<lparr>wk_current_stack_frame := wk_current_stack_frame k, wk_l := (wk_l ?k3)\<lparr>l_saved_core_fiber := NULL,
     l_scheduling_fiber := l_scheduling_fiber (wk_l k)\<rparr>\<rparr>"
  have k4: "?k4 = k" using id saved by simp
  have "execute_until_op_done E (serial_op op) w cur b = Some (?b3\<lparr>bt_rts := put_wk w k s3\<rparr>)"
    using batch_state_at [OF S] batch_state_at [OF s1(2)] batch_state_at [OF S3] s1(1) s3(1) over C fib(1) k4
    by (simp add: execute_until_op_done_def on_rts_def Let_def)
  moreover have "batch_state w fib n k C B free_lock (put_wk w k s3)" using batch_state_wk [OF s3(2), of k] by simp
  moreover have "?b3\<lparr>bt_rts := put_wk w k s3\<rparr> = b\<lparr>bt_rts := put_wk w k s3, bt_pending := ended (started r (bt_pending b)),
      bt_data := op (br_operation r) (br_ds r) (ba_work_array (bt_pending b)) (ba_num_ops (bt_pending b)) (bt_data b)\<rparr>" by simp
  ultimately show ?thesis by metis
qed

text \<open>
  C40. A worker that calls an operation on a shared data structure while no batch is running gets the batch lock, runs the operation
  exactly once, under the next batch number, and releases the lock; afterwards it is on its core deque in the state of the
  call, with its frame, its scheduling fiber and its queues, and the batch deque is empty. The operation gets the data
  structure of the call, but not the datum of the call: it gets the work array and the number of operations that the pending
  batch has from before. The datum only reaches the record of the worker, which stays waiting, since \<^verbatim>\<open>create_batch\<close> does not
  collect the records.
\<close>

theorem batchify_uncontended:
  assumes "batch_state w fib n k C B free_lock (bt_rts b)" "on_core k" "empty_batch_deque B" "dq_protected_tail B = n"
    and "dq_frame_ff C \<noteq> NULL" "dq_team C \<noteq> NULL" "fib \<noteq> NULL" "\<forall>s. o_fiber E s = fib"
  shows "\<exists>s'. cilk_batchify E (serial_op op) w cur f ds data b = Some \<lparr>bt_rts = s',
      bt_pending = (bt_pending b)\<lparr>ba_operation := f, ba_ds := ds, ba_data_size := sizeof_int, ba_id := ba_id (bt_pending b) + 1\<rparr>,
      bt_records = (bt_records b)(w := \<lparr>br_operation = f, br_ds = ds, br_data_size = sizeof_int, br_data = data, br_status = ITEM_WAITING\<rparr>),
      bt_data = op f ds (ba_work_array (bt_pending b)) (ba_num_ops (bt_pending b)) (bt_data b)\<rparr> \<and>
    batch_state w fib n k C (B\<lparr>dq_team := dq_team C\<rparr>) free_lock s'"
proof -
  note S = assms(1)
  let ?B = "B\<lparr>dq_team := dq_team C\<rparr>"
  let ?r = "\<lparr>br_operation = f, br_ds = ds, br_data_size = sizeof_int, br_data = data, br_status = ITEM_WAITING\<rparr>"
  have core: "point_to (l_core_deque (wk_l k)) Core_Deque k = k" "unlocked k" "l_batch_id (wk_l k) = -1"
    "l_saved_core_fiber (wk_l k) = NULL" "l_next_frame_ff (wk_l k) = NULL" using assms(2) by (simp_all add: on_core_def)
  note pt = core(1) [unfolded point_to_id]
  have B: "empty_batch_deque ?B" using assms(3) by (simp add: empty_batch_deque_def)
  let ?k1 = "point_to (l_batch_deque (wk_l k)) Batch_Deque k"
  obtain s1 where s1: "switch_to_batch_deque w (bt_rts b) = Some s1" "batch_state w fib n ?k1 C ?B free_lock s1"
    using switch_to_batch_deque_state [OF S core(2) assms(3,4)] by blast
  let ?k2 = "?k1\<lparr>wk_l := (wk_l ?k1)\<lparr>l_batch_id := ba_id (bt_pending b)\<rparr>\<rparr>"
  let ?b2 = "insert_batch_record w f ds data sizeof_int (b\<lparr>bt_rts := put_wk w ?k2 s1\<rparr>)"
  have S2: "batch_state w fib n ?k2 C ?B free_lock (bt_rts ?b2)"
    using batch_state_wk [OF s1(2), of ?k2] by (simp add: insert_batch_record_def)
  have k2: "unlocked ?k2" "point_to (l_batch_deque (wk_l ?k2)) Batch_Deque ?k2 = ?k2" "l_batch_id (wk_l ?k2) = ba_id (bt_pending ?b2)"
    "l_saved_core_fiber (wk_l ?k2) = NULL" using core by (simp_all add: point_to_def unlocked_def insert_batch_record_def)
  have r: "bt_records ?b2 w = ?r" by (simp add: insert_batch_record_def)
  obtain s3 where s3: "execute_until_op_done E (serial_op op) w cur ?b2 = Some (?b2\<lparr>bt_rts := s3, bt_pending := ended (started ?r (bt_pending b)),
      bt_data := op f ds (ba_work_array (bt_pending b)) (ba_num_ops (bt_pending b)) (bt_data b)\<rparr>)" "batch_state w fib n ?k2 C ?B free_lock s3"
    using execute_until_op_done_state [where op = op and cur = cur, OF S2 k2(1,2) B r _ _ assms(7,8,5) k2(3,4)] by (auto simp: insert_batch_record_def)
  obtain s4 where s4: "switch_to_core_deque w s3 = Some s4"
    "batch_state w fib n (back_on_core ?k2) C (?B\<lparr>dq_head := 0, dq_tail := 0, dq_exc := Some 0\<rparr>) free_lock s4"
    using switch_to_core_deque_state [OF s3(2) k2(1)] assms(3) by (auto simp: empty_batch_deque_def)
  have "?B\<lparr>dq_head := 0, dq_tail := 0, dq_exc := Some 0\<rparr> = ?B" using assms(3) by (cases B) (simp add: empty_batch_deque_def)
  moreover have "back_on_core ?k2 = k"
    using pt core(3) by (cases k; cases "wk_l k") (simp add: back_on_core_def point_to_def)
  ultimately have S4: "batch_state w fib n k C ?B free_lock s4" using s4(2) by simp
  let ?b4 = "?b2\<lparr>bt_rts := s4, bt_pending := ended (started ?r (bt_pending b)), bt_data := op f ds (ba_work_array (bt_pending b)) (ba_num_ops (bt_pending b)) (bt_data b)\<rparr>"
  have "cilk_batchify E (serial_op op) w cur f ds data b = Some ?b4"
    using batch_state_at [OF S] batch_state_at [OF s1(2)] batch_state_at [OF s3(2)] batch_state_at [OF S4] pt core s1(1) s3(1) s4(1) assms(3,6)
    by (simp add: cilk_batchify_def on_rts_def set_batch_id_def active_deque_def empty_batch_deque_def point_to_def)
  moreover have "?b4 = \<lparr>bt_rts = s4,
      bt_pending = (bt_pending b)\<lparr>ba_operation := f, ba_ds := ds, ba_data_size := sizeof_int, ba_id := ba_id (bt_pending b) + 1\<rparr>,
      bt_records = (bt_records b)(w := ?r),
      bt_data = op f ds (ba_work_array (bt_pending b)) (ba_num_ops (bt_pending b)) (bt_data b)\<rparr>"
    by (simp add: ended_def started_def insert_batch_record_def)
  ultimately show ?thesis using S4 by metis
qed

text \<open>A worker with its deques at 30 and 31, the batch fiber 41 and its batch scheduling fiber 42; operation 7 adds the work array.\<close>

definition batch_worker :: worker where
  "batch_worker = point_to 30 Core_Deque (example_worker (example_local
     \<lparr>l_core_deque := 30, l_batch_deque := 31, l_scheduling_fiber := 40, l_batch_scheduling_fiber := 42\<rparr>))"

definition batch_example :: "int bts" where
  "batch_example = \<lparr>bt_rts = (rts_with_worker 1 example_local)
       \<lparr>rt_wk := [1 \<mapsto> batch_worker],
        rt_dq := [30 \<mapsto> (empty_deque 1024)\<lparr>dq_frame_ff := 50, dq_team := 1, dq_worker := 1\<rparr>, 31 \<mapsto> empty_deque 1024],
        rt_fb := [41 \<mapsto> \<lparr>fb_owner = 0, fb_resume_sf = 0, fb_resumable = False, fb_ref_count = 1\<rparr>,
                  42 \<mapsto> \<lparr>fb_owner = 1, fb_resume_sf = 0, fb_resumable = False, fb_ref_count = 1\<rparr>]\<rparr>,
     bt_pending = \<lparr>ba_operation = 0, ba_ds = 0, ba_data_size = 0, ba_num_ops = 2, ba_work_array = [3, 4, 0], ba_id = 5\<rparr>,
     bt_records = (\<lambda>_. \<lparr>br_operation = 0, br_ds = 0, br_data_size = 0, br_data = 0, br_status = ITEM_DONE\<rparr>), bt_data = 8\<rparr>"

theorem batchify_uncontended_witness:
  "\<exists>b'. cilk_batchify \<lparr>o_fiber = (\<lambda>_. 41), o_steal = (\<lambda>_. 0), o_user = (\<lambda>_ _. None)\<rparr>
      (serial_op (\<lambda>f ds xs n d. if f = 7 then d + sum_list (take n xs) else d)) 1 43 7 60 9 batch_example = Some b' \<and>
    bt_data b' = 15 \<and> ba_id (bt_pending b') = 6 \<and> br_data (bt_records b' 1) = 9 \<and>
    batch_state 1 41 1024 batch_worker ((empty_deque 1024)\<lparr>dq_frame_ff := 50, dq_team := 1, dq_worker := 1\<rparr>)
      ((empty_deque 1024)\<lparr>dq_team := 1\<rparr>) free_lock (bt_rts b')"
proof -
  let ?C = "(empty_deque 1024)\<lparr>dq_frame_ff := 50, dq_team := 1, dq_worker := 1\<rparr>"
  let ?E = "\<lparr>o_fiber = (\<lambda>_. 41), o_steal = (\<lambda>_. 0), o_user = (\<lambda>_ _. None)\<rparr> :: outside"
  have a: "batch_state 1 41 1024 batch_worker ?C (empty_deque 1024) free_lock (bt_rts batch_example)"
    by (simp add: batch_state_def batch_example_def batch_worker_def point_to_def example_worker_def rts_with_worker_def example_global_def
      wk_at_def dq_at_def fb_at_def free_lock_def mutex_init_def)
  have b: "on_core batch_worker" "empty_batch_deque (empty_deque 1024)" "dq_protected_tail (empty_deque 1024) = 1024"
    "dq_frame_ff ?C \<noteq> NULL" "dq_team ?C \<noteq> NULL" "(41::ptr) \<noteq> NULL" "\<forall>s. o_fiber ?E s = 41"
    by (simp_all add: on_core_def batch_worker_def point_to_def unlocked_def example_worker_def example_local_def free_lock_def
      mutex_init_def empty_batch_deque_def empty_deque_def)
  have c: "bt_data batch_example = 8" "ba_id (bt_pending batch_example) = 5" "ba_num_ops (bt_pending batch_example) = 2"
    "ba_work_array (bt_pending batch_example) = [3, 4, 0]" by (simp_all add: batch_example_def)
  from batchify_uncontended [OF a b, where op = "\<lambda>f ds xs n d. if f = 7 then d + sum_list (take n xs) else d" and cur = 43 and f = 7
      and ds = 60 and data = 9]
  show ?thesis by (elim exE conjE) (simp add: c)
qed

end
