(* ===== verification/Spec2Isabelle.thy ===== *)
theory Spec2Isabelle
  imports Om_Interface Detector_Exact Frame_Malloc Mutex Signal_Node Rt_State The_Protocol Deque_Pool Sched_Util
    Full_Frame Call_Stack Deque_Ops Reducer_Map Spawn_Return Exception_Order
    Last_Arrival Cilk_Abi Serial_Run Pedigrees Reducer_Table Work_Loop Batcher
begin

text \<open>
  F-Order is a Cilk runtime with suspendable deques and futures (\<^verbatim>\<open>src/cilkrtssuspend/runtime\<close>) and a race
  detector for programs with futures (\<^verbatim>\<open>src/rdtool\<close>) that keeps two total orders of the strands in an
  order-maintenance structure (\<^verbatim>\<open>src/rdtool/src/om\<close>). This library models the core of both: the
  order-maintenance structure and the detector on top of it, and the work-stealing runtime from its locks
  and free lists up to the scheduling loop and the entry points that compiled code calls. Paths below are relative to
  \<^verbatim>\<open>cilkrtssuspend/runtime\<close>, those of order maintenance and of the race detector to \<^verbatim>\<open>rdtool/src\<close>.

  Conventions (\<^theory_text>\<open>Prelude\<close>). A function that can stop the process (an assertion, \<^verbatim>\<open>__cilkrts_bug\<close>, a bad
  pointer) is a function into \<^typ>\<open>'a option\<close>, and None is the stopped process. Structures are records in
  one heap per type, pointers are natural numbers and 0 is null. Labels, ranks, flags, hash keys and
  random numbers are words of their width. Loops whose end depends on the heap are
  \<^theory_text>\<open>partial_function (option)\<close> or \<^theory_text>\<open>function\<close> with a measure; no definition has fuel. Where a
  property says that such a loop returns, its conclusion is an equation with Some.

  Order maintenance.
  \<^item> \<^theory_text>\<open>Om_Heap\<close>, \<^theory_text>\<open>Om_Label\<close>, \<^theory_text>\<open>Om_Blist\<close>: nodes and lower lists of \<^verbatim>\<open>om/blist.c\<close>, the 64-bit labels of an insertion.
  \<^item> \<^theory_text>\<open>Om_Tree\<close>, \<^theory_text>\<open>Om_Split\<close>, \<^theory_text>\<open>Om_Relabel\<close>: the top tree of \<^verbatim>\<open>om/om.c\<close>, the splitting of a full list
    (\<^verbatim>\<open>om/blist_split.c\<close>), the relabelling of \<^verbatim>\<open>om/om_relabel.c\<close> in its phases.
  \<^item> \<^theory_text>\<open>Om_Inv\<close>, \<^theory_text>\<open>Om_Rebuild\<close>, \<^theory_text>\<open>Om_Rebalance\<close>, \<^theory_text>\<open>Om_Relabel_Correct\<close>: the invariant of tree and lists and
    its preservation by relabelling. \<^theory_text>\<open>Om_Properties\<close>: insertion implements insertion into a list, the
    comparison decides the order of that list, the checkers accept exactly the valid structures, and
    destruction frees every cell. \<^theory_text>\<open>Om_Interface\<close>: what the detector relies on as a locale
    \<open>order_maintenance\<close>, interpreted on the structure; its answers never change.

  Race detector.
  \<^item> \<^theory_text>\<open>Om_Detector\<close>: \<^verbatim>\<open>omrd.cpp\<close>, insertion into one of the two orders with heavy lists, batches and relabelling; an
    insertion succeeds when the counts fit, since the batch that a full list starts makes room in it.
  \<^item> \<^theory_text>\<open>Shadow_Memory\<close>: \<^verbatim>\<open>shadow_mem.h\<close>, \<^verbatim>\<open>mem_access.cpp\<close>, \<^verbatim>\<open>check_mem.cpp\<close>; the reports of a sequence of accesses are exactly
    the conflicting pairs that are not ordered.
  \<^item> \<^theory_text>\<open>Access_Lists\<close>: \<^verbatim>\<open>list.cpp\<close>, the lists that tell which strands of other futures have happened; searching is
    exact and merging is union. \<^theory_text>\<open>Shadow_Stack\<close>: \<^verbatim>\<open>stack.h\<close>, the shadow call stack and what a thief takes of it.
  \<^item> \<^theory_text>\<open>Strand_Tracking\<close>: \<^verbatim>\<open>shadow_stack.cpp\<close>, the handlers of spawns, syncs, returns, steals and futures.
    \<^theory_text>\<open>Detector_Hooks\<close>: \<^verbatim>\<open>tsan.cpp\<close>, the callbacks of compiled code and the instrumented accesses.
  \<^item> \<^theory_text>\<open>Sp_Order\<close>: fork-join programs, their logical parallelism, and the two orders of strands as lists (a specification, no
    code). \<^theory_text>\<open>Detector_Run\<close>: one worker runs a program through the callbacks; in the locale \<open>strand_orders\<close>, which
    states what the handlers rely on, the run follows the specification. \<^theory_text>\<open>Detector_Exact\<close> interprets the locale on
    the structures of \<^verbatim>\<open>omrd.cpp\<close>: what is reported is exactly the races and the strands that conflict with themselves.

  Foundations of the runtime.
  \<^item> \<^theory_text>\<open>Frame_Malloc\<close>: \<^verbatim>\<open>frame_malloc.c\<close>. The bytes of all free lists and of all blocks handed out are a
    partition, so a new block overlaps nothing and the leak check is exact.
  \<^item> \<^theory_text>\<open>Mutex\<close>: \<^verbatim>\<open>spin_mutex.c\<close>, \<^verbatim>\<open>worker_mutex.c\<close>, the worker lock against \<^verbatim>\<open>worker_trylock_other\<close>, as functions and
    as steps of interleaved threads. \<^theory_text>\<open>Signal_Node\<close>: \<^verbatim>\<open>signal_node.c\<close>, no wakeup is lost. A worker's wait for its own lock is
    bounded against the thieves that use \<^verbatim>\<open>worker_trylock_other\<close> only.
  \<^item> \<^theory_text>\<open>Rt_State\<close>: the records of the headers. \<^theory_text>\<open>Sched_Util\<close>: random numbers and locks.
  \<^item> \<^theory_text>\<open>The_Protocol\<close>: head, tail and exception pointer of a deque; under any interleaving of owner and
    thieves no frame is lost or taken twice.
  \<^item> \<^theory_text>\<open>Deque_Pool\<close>: \<^verbatim>\<open>deque_pool.c\<close>, with a locale \<open>pool_registry\<close> for what a client may rely on,
    interpreted on the model's pools.

  Frames and deques.
  \<^item> \<^theory_text>\<open>Full_Frame\<close>, \<^theory_text>\<open>Call_Stack\<close>: \<^verbatim>\<open>full_frame.c\<close> and the tree operations of \<^verbatim>\<open>scheduler.c\<close>; the children of a
    frame are a list in serial order, and unrolling a call stack promotes each of its frames, of which only the
    youngest may be spawning a future.
  \<^item> \<^theory_text>\<open>Deque_Ops\<close>: \<^verbatim>\<open>deque.c\<close> and the resumption of suspended deques: detaching a stolen frame, with the child
    linked below it or, for the parent of a future, not, switching, mugging, suspending and making resumable.

  Results that meet.
  \<^item> \<^theory_text>\<open>Reducer_Table\<close>: the hash table of \<^verbatim>\<open>reducer_impl.cpp\<close> (buckets, growing, rehashing, removal, and the
    operations of a reducer). Its client of single insertions, rehashing, is verified in a locale
    \<open>keyed_store\<close> that the table interprets.
  \<^item> \<^theory_text>\<open>Reducer_Map\<close>, \<^theory_text>\<open>Reduction\<close>: merging maps and exceptions at a sync and a return from spawn;
    \<^theory_text>\<open>Serial_Order\<close>, \<^theory_text>\<open>Spawn_Return\<close>, \<^theory_text>\<open>Exception_Order\<close>: reducers have their serial value however the returns interleave,
    and the serially first exception survives.
  \<^item> \<^theory_text>\<open>Resume\<close>, \<^theory_text>\<open>Join\<close>, \<^theory_text>\<open>Last_Arrival\<close>: leaving user code and resuming it, the join at a sync; exactly the last
    arrival resumes the frame. \<^theory_text>\<open>Cilk_Abi\<close>, \<^theory_text>\<open>Serial_Run\<close>, \<^theory_text>\<open>Pedigrees\<close>: the entry points of \<^verbatim>\<open>cilk-abi.c\<close>, a run without
    steals, and the pedigrees that a stolen continuation shares with the serial run.

  Workers.
  \<^item> \<^theory_text>\<open>Work_Loop\<close>: the scheduling loop, stealing from a random victim, sleeping and waking along the tree of
    workers, creation of a worker, the return of the initial frame. What lies outside (the fiber pool,
    the race detector's answer to a steal, the user code that runs between two visits of the scheduler)
    is the record \<open>outside\<close>.
  \<^item> \<^theory_text>\<open>Batcher\<close>: \<^verbatim>\<open>batcher.c\<close>, the second deque of a worker and the batches run on it, over an operation that
    is a parameter.

  How the parts interact. \<^theory_text>\<open>Work_Loop\<close> finds a full frame with \<open>random_steal\<close>, which uses the pools, the
  protocol and \<open>detach_for_steal\<close>; \<open>setup_for_execution\<close> installs its reducers, exceptions and pedigree;
  user code comes back through \<^theory_text>\<open>Cilk_Abi\<close> and \<^theory_text>\<open>Join\<close>, which run the reductions on the user's stack, leave a
  scheduling function and switch to the scheduling fiber, whose transition runs that function. A switch of
  stacks ends a function of the model; the continuation is a function of its own.

  Bounds and hypotheses. Addresses and counters that memory bounds are natural numbers; the table is
  stated for fewer than \<open>2 ^ 63\<close> buckets, where \<^verbatim>\<open>size_t\<close> does not wrap. Allocation from the system succeeds.
  Reduce functions are associative and neither spawn nor throw: a view is the word of its contributions.
  The detector is proved exact for one worker and programs without futures; with the structures of \<^verbatim>\<open>omrd.cpp\<close> under
  the hypothesis that the counts of a tree fit whenever a batch relabels it, and without it for programs of at most 64
  insertions, the number that a new structure takes at any places before it relabels. The handlers of steals and futures are modelled, without such a theorem. A race is two logically parallel
  accesses that share a byte and do not both read. For naturally aligned accesses of four, eight or sixteen bytes no race
  is missed; beyond the races, the code reports a strand that both reads and writes a byte. It does not check accesses of one and two
  bytes. The two structures of the detector have a heap each.
  The interleaved models (mutexes, signal nodes, the protocol, returns from spawn) take one step per access to
  shared memory or per locked section, in a sequentially consistent order; elsewhere a function runs
  without interference, under the locks it takes, and a spin loop that would wait for another thread is None.

  Not modelled: context switches, stacks and fiber pools (\<^verbatim>\<open>cilk_fiber*.cpp\<close>), the operating system, processor and Windows
  layers, C++ exceptions beyond the records in flight (\<^verbatim>\<open>except-gcc.cpp\<close>), start-up and tear-down of the
  process (\<^verbatim>\<open>global_state.cpp\<close>, \<^verbatim>\<open>__cilkrts_init_internal\<close>), record and replay, statistics, the user interface
  (\<^verbatim>\<open>cilk_api.c\<close>, futures as C++ templates, variable-length arrays), the reducer library, and of the race detector the
  printing, the statistics, the wrappers of allocation and of atomic operations, and the files kept in older versions. They are
  input and output, generated or platform code, or copies of what is modelled.
\<close>

end
